(* ===== verification/Prelude.thy ===== *)
theory Prelude
  imports Main "HOL-Library.Word"
begin

text \<open>
  Shared vocabulary of the development: the machine types of the C code, the
  faults a C function of the model can run into, reads and writes of byte
  buffers, and the little-endian image of a machine word in memory.  The
  lemmas collected in \<open>buf_simps\<close> carry the reasoning about buffers in
  the components; \<open>fault_simps\<close> evaluates checked memory accesses.
\<close>

unbundle bit_operations_syntax

named_theorems buf_simps
named_theorems fault_simps

section \<open>Machine types\<close>

type_synonym u8 = "8 word"
type_synonym u16 = "16 word"
type_synonym u32 = "32 word"
type_synonym u64 = "64 word"

text \<open>Bytes of a C string literal, without its terminator.\<close>

abbreviation bytes_of :: "string \<Rightarrow> u8 list" where
  "bytes_of s \<equiv> map of_char s"

abbreviation byte_of :: "char \<Rightarrow> u8" where
  "byte_of c \<equiv> of_char c"

section \<open>Faults\<close>

text \<open>
  What the C standard leaves undefined, and what the code asserts, is a value
  of the model: a function that can meet it returns \<open>Inl\<close> of a fault.
\<close>

datatype fault =
    OutOfBounds      \<comment> \<open>access or pointer outside the buffer\<close>
  | SignedOverflow   \<comment> \<open>signed arithmetic out of range\<close>
  | BadPointer       \<comment> \<open>\<open>NULL\<close> or freed memory dereferenced\<close>
  | DivideByZero     \<comment> \<open>\<open>/\<close> or \<open>%\<close> by zero\<close>
  | AssertFailed     \<comment> \<open>an \<open>assert\<close> of the code does not hold\<close>

type_synonym 'a res = "fault + 'a"

definition rbind :: "'e + 'a \<Rightarrow> ('a \<Rightarrow> 'e + 'b) \<Rightarrow> 'e + 'b" where
  "rbind m f = (case m of Inl e \<Rightarrow> Inl e | Inr x \<Rightarrow> f x)"

lemma rbind_simps [simp]:
  "rbind (Inl e) f = Inl e"
  "rbind (Inr x) f = f x"
  by (simp_all add: rbind_def)

lemma rbind_eq_Inr [simp]: "rbind m f = Inr y \<longleftrightarrow> (\<exists>x. m = Inr x \<and> f x = Inr y)"
  by (cases m) auto

lemma rbind_cong [fundef_cong]:
  "m = m' \<Longrightarrow> (\<And>x. m' = Inr x \<Longrightarrow> f x = g x) \<Longrightarrow> rbind m f = rbind m' g"
  by (cases m') auto

text \<open>
  \<open>post P m\<close>: if \<open>m\<close> returns, it returns something with \<open>P\<close>.  The rules
  follow the structure of a program text, so that \<open>intro post_rules\<close> leaves
  the conditions on what its paths return.
\<close>

named_theorems post_rules

definition post :: "('a \<Rightarrow> bool) \<Rightarrow> 'e + 'a \<Rightarrow> bool" where
  "post P m \<longleftrightarrow> (\<forall>x. m = Inr x \<longrightarrow> P x)"

lemma postD: "post P m \<Longrightarrow> m = Inr x \<Longrightarrow> P x"
  by (simp add: post_def)

lemma postI: "(\<And>x. m = Inr x \<Longrightarrow> P x) \<Longrightarrow> post P m"
  by (simp add: post_def)

lemma post_Inr [post_rules]: "P x \<Longrightarrow> post P (Inr x)"
  and post_Inl [post_rules]: "post P (Inl e)"
  by (simp_all add: post_def)

lemma post_rbind [post_rules]: "(\<And>x. m = Inr x \<Longrightarrow> post P (f x)) \<Longrightarrow> post P (rbind m f)"
  by (auto simp: post_def)

lemma post_if [post_rules]: "(b \<Longrightarrow> post P m) \<Longrightarrow> (\<not> b \<Longrightarrow> post P m') \<Longrightarrow> post P (if b then m else m')"
  by simp

lemma post_prod [post_rules]: "(\<And>a b. p = (a, b) \<Longrightarrow> post P (f a b)) \<Longrightarrow> post P (case p of (a, b) \<Rightarrow> f a b)"
  by (cases p) simp

lemma post_option [post_rules]:
  "(x = None \<Longrightarrow> post P m) \<Longrightarrow> (\<And>y. x = Some y \<Longrightarrow> post P (f y)) \<Longrightarrow>
    post P (case x of None \<Rightarrow> m | Some y \<Rightarrow> f y)"
  by (cases x) simp_all

lemma post_sum [post_rules]:
  "(\<And>a. x = Inl a \<Longrightarrow> post P (f a)) \<Longrightarrow> (\<And>b. x = Inr b \<Longrightarrow> post P (g b)) \<Longrightarrow>
    post P (case x of Inl a \<Rightarrow> f a | Inr b \<Rightarrow> g b)"
  by (cases x) simp_all

text \<open>Checked read of one element of a buffer.\<close>

definition rd :: "'a list \<Rightarrow> nat \<Rightarrow> 'a res" where
  "rd m i = (if i < length m then Inr (m ! i) else Inl OutOfBounds)"

text \<open>Checked pointer increment: C allows a pointer up to one past the buffer's end.\<close>

definition inc :: "'a list \<Rightarrow> nat \<Rightarrow> nat res" where
  "inc m i = (if i < length m then Inr (Suc i) else Inl OutOfBounds)"

lemma rd_in [fault_simps]: "i < length m \<Longrightarrow> rd m i = Inr (m ! i)"
  and rd_out [fault_simps]: "length m \<le> i \<Longrightarrow> rd m i = Inl OutOfBounds"
  by (simp_all add: rd_def)

lemma inc_in [fault_simps]: "i < length m \<Longrightarrow> inc m i = Inr (Suc i)"
  and inc_out [fault_simps]: "length m \<le> i \<Longrightarrow> inc m i = Inl OutOfBounds"
  by (simp_all add: inc_def)

lemma rd_Inr_iff: "rd m i = Inr x \<longleftrightarrow> i < length m \<and> x = m ! i"
  by (auto simp: rd_def)

lemma inc_Inr_iff: "inc m i = Inr j \<longleftrightarrow> i < length m \<and> j = Suc i"
  by (auto simp: inc_def)

section \<open>Signed arithmetic\<close>

text \<open>
  An arithmetic operation on \<open>int\<close> or \<open>long long\<close> that leaves the type is a
  fault; a conversion to \<open>int\<close> keeps the low bits (the hosts of the model).
\<close>

definition s32 :: "int \<Rightarrow> int res" where
  "s32 x = (if - (2 ^ 31) \<le> x \<and> x < 2 ^ 31 then Inr x else Inl SignedOverflow)"

definition s64 :: "int \<Rightarrow> int res" where
  "s64 x = (if - (2 ^ 63) \<le> x \<and> x < 2 ^ 63 then Inr x else Inl SignedOverflow)"

definition int_of_size :: "nat \<Rightarrow> int" where
  "int_of_size n = sint (of_nat n :: u32)"

lemma s32_fits [fault_simps]: "- (2 ^ 31) \<le> x \<Longrightarrow> x < 2 ^ 31 \<Longrightarrow> s32 x = Inr x"
  by (simp add: s32_def)

lemma int_of_size: "n < 2 ^ 31 \<Longrightarrow> int_of_size n = int n"
  by (simp add: int_of_size_def signed_of_nat signed_take_bit_int_eq_self)

section \<open>Buffers\<close>

text \<open>
  \<open>peek b i n\<close> is what \<open>memcpy(dst, b+i, n)\<close> reads, \<open>poke b i xs\<close> the
  buffer after \<open>memcpy(b+i, xs, length xs)\<close>; both are used in range only.
\<close>

definition peek :: "'a list \<Rightarrow> nat \<Rightarrow> nat \<Rightarrow> 'a list" where
  "peek b i n = take n (drop i b)"

definition poke :: "'a list \<Rightarrow> nat \<Rightarrow> 'a list \<Rightarrow> 'a list" where
  "poke b i xs = take i b @ xs @ drop (i + length xs) b"

definition memmove :: "'a list \<Rightarrow> nat \<Rightarrow> nat \<Rightarrow> nat \<Rightarrow> 'a list" where
  "memmove b dst src n = poke b dst (peek b src n)"

lemma length_peek [buf_simps]: "i + n \<le> length b \<Longrightarrow> length (peek b i n) = n"
  by (simp add: peek_def)

lemma length_poke [buf_simps]: "i + length xs \<le> length b \<Longrightarrow> length (poke b i xs) = length b"
  by (simp add: poke_def)

lemma nth_peek [buf_simps]: "i + n \<le> length b \<Longrightarrow> j < n \<Longrightarrow> peek b i n ! j = b ! (i + j)"
  by (simp add: peek_def)

lemma nth_poke [buf_simps]:
  assumes "i + length xs \<le> length b" and "j < length b"
  shows "poke b i xs ! j =
    (if j < i \<or> i + length xs \<le> j then b ! j else xs ! (j - i))"
  using assms by (auto simp: poke_def nth_append min_def)

lemma peek_poke_same [buf_simps]:
  "i + length xs \<le> length b \<Longrightarrow> peek (poke b i xs) i (length xs) = xs"
  by (simp add: peek_def poke_def)

lemma peek_poke_other [buf_simps]:
  assumes "i + length xs \<le> length b" and "j + n \<le> i \<or> i + length xs \<le> j" and "j + n \<le> length b"
  shows "peek (poke b i xs) j n = peek b j n"
  using assms by (intro nth_equalityI) (auto simp: buf_simps)

lemma length_memmove [buf_simps]:
  "src + n \<le> length b \<Longrightarrow> dst + n \<le> length b \<Longrightarrow> length (memmove b dst src n) = length b"
  by (simp add: memmove_def length_poke length_peek)

lemma nth_memmove [buf_simps]:
  assumes "src + n \<le> length b" and "dst + n \<le> length b" and "j < length b"
  shows "memmove b dst src n ! j = (if dst \<le> j \<and> j < dst + n then b ! (j - dst + src) else b ! j)"
  using assms by (auto simp: memmove_def buf_simps add.commute)

lemma peek_append_left: "i + n \<le> length a \<Longrightarrow> peek (a @ b) i n = peek a i n"
  by (simp add: peek_def)

lemma peek_all: "peek b 0 (length b) = b"
  by (simp add: peek_def)

section \<open>Machine words in memory\<close>

text \<open>
  The image of a machine word in memory on the little-endian hosts of the
  model: byte \<open>i\<close> holds bits \<open>8 i .. 8 i + 7\<close>.
\<close>

definition le_bytes :: "nat \<Rightarrow> 'a::len word \<Rightarrow> u8 list" where
  "le_bytes n w = map (\<lambda>i. ucast (drop_bit (8 * i) w)) [0..<n]"

primrec le_word :: "u8 list \<Rightarrow> 'a::len word" where
  "le_word [] = 0"
| "le_word (b # bs) = ucast b OR push_bit 8 (le_word bs)"

lemma length_le_bytes [simp]: "length (le_bytes n w) = n"
  by (simp add: le_bytes_def)

lemma nth_le_bytes [simp]: "i < n \<Longrightarrow> le_bytes n w ! i = ucast (drop_bit (8 * i) w)"
  by (simp add: le_bytes_def)

lemma bit_le_word:
  "bit (le_word bs :: 'a::len word) k \<longleftrightarrow>
     k < LENGTH('a) \<and> k div 8 < length bs \<and> bit (bs ! (k div 8)) (k mod 8)"
proof (induction bs arbitrary: k)
  case Nil
  then show ?case by simp
next
  case (Cons b bs)
  show ?case
  proof (cases "k < 8")
    case True
    then show ?thesis by (auto simp: bit_simps)
  next
    case False
    then have k: "k div 8 = Suc ((k - 8) div 8)" "(k - 8) mod 8 = k mod 8"
      by (simp_all add: le_div_geq le_mod_geq)
    have nb: "\<not> bit b k" using False by (auto dest: bit_imp_le_length)
    show ?thesis using False
      by (auto simp: bit_simps nb Cons.IH k dest: bit_imp_le_length)
  qed
qed

lemma le_word_le_bytes: "8 * n = LENGTH('a) \<Longrightarrow> le_word (le_bytes n w) = (w :: 'a::len word)"
proof (rule bit_word_eqI)
  fix k assume n: "8 * n = LENGTH('a)" and k: "k < LENGTH('a)"
  then have "k div 8 < n" by auto
  then show "bit (le_word (le_bytes n w) :: 'a word) k = bit w k"
    using k by (simp add: bit_le_word bit_simps)
qed

lemma le_bytes_inj: "8 * n = LENGTH('a) \<Longrightarrow> le_bytes n v = le_bytes n (w :: 'a::len word) \<longleftrightarrow> v = w"
  by (metis le_word_le_bytes)

lemma le_bytes_le_word:
  assumes "8 * length bs \<le> LENGTH('a)"
  shows "le_bytes (length bs) (le_word bs :: 'a::len word) = bs"
proof (rule nth_equalityI)
  show "length (le_bytes (length bs) (le_word bs :: 'a word)) = length bs" by simp
  fix i assume "i < length (le_bytes (length bs) (le_word bs :: 'a word))"
  then have i: "i < length bs" by simp
  show "le_bytes (length bs) (le_word bs :: 'a word) ! i = bs ! i"
  proof (rule bit_word_eqI)
    fix k assume k: "k < LENGTH(8)"
    then have "8 * i + k < LENGTH('a)" using i assms by auto
    moreover have "(8 * i + k) div 8 = i" "(8 * i + k) mod 8 = k" using k by auto
    ultimately show "bit (le_bytes (length bs) (le_word bs :: 'a word) ! i) k = bit (bs ! i) k"
      using i k by (simp add: bit_simps bit_le_word)
  qed
qed

section \<open>Signed and unsigned readings of a word\<close>

lemma uint_eq_sint: "uint w = (if sint w < 0 then sint w + 2 ^ LENGTH('a) else sint w)"
  for w :: "'a::len word"
proof -
  have lo: "- (2 ^ (LENGTH('a) - 1)) \<le> sint w" and hi: "sint w < 2 ^ (LENGTH('a) - 1)"
    by (rule sint_ge, rule sint_lt)
  have two: "(2::int) ^ LENGTH('a) = 2 * 2 ^ (LENGTH('a) - 1)"
    by (metis len_gt_0 power_Suc Suc_pred')
  have "uint w = sint w mod 2 ^ LENGTH('a)"
    by (simp add: uint_sint [of w] take_bit_eq_mod)
  also have "\<dots> = (if sint w < 0 then sint w + 2 ^ LENGTH('a) else sint w)"
  proof (cases "sint w < 0")
    case True
    have "sint w mod 2 ^ LENGTH('a) = (sint w + 2 ^ LENGTH('a)) mod 2 ^ LENGTH('a)" by simp
    also have "\<dots> = sint w + 2 ^ LENGTH('a)"
      using True lo two by (intro mod_pos_pos_trivial) linarith+
    finally show ?thesis using True by simp
  next
    case False
    then have "sint w mod 2 ^ LENGTH('a) = sint w"
      using hi two by (intro mod_pos_pos_trivial) linarith+
    then show ?thesis using False by simp
  qed
  finally show ?thesis .
qed

lemma unat_eq_sint: "0 \<le> sint w \<Longrightarrow> unat w = nat (sint w)"
  using uint_eq_sint [of w] by (simp add: nat_uint_eq [symmetric])

lemma unat_minus_eq_sint:
  fixes w :: "'a::len word"
  assumes "sint w < 0"
  shows "unat (- w) = nat (- sint w)"
proof -
  have "uint (- w) = (- uint w) mod 2 ^ LENGTH('a)" by (simp add: uint_word_ariths)
  also have "- uint w = - sint w - 2 ^ LENGTH('a)" using assms by (simp add: uint_eq_sint)
  also have "\<dots> mod 2 ^ LENGTH('a) = (- sint w) mod 2 ^ LENGTH('a)" by simp
  also have "\<dots> = - sint w"
  proof (rule mod_pos_pos_trivial)
    have "- sint w \<le> 2 ^ (LENGTH('a) - 1)" using sint_ge [of w] by linarith
    also have "\<dots> < 2 ^ LENGTH('a)" by simp
    finally show "- sint w < 2 ^ LENGTH('a)" .
  qed (use assms in simp)
  finally show ?thesis by (simp add: nat_uint_eq [symmetric])
qed

lemma sint_eqI: "sint v = sint w \<Longrightarrow> v = w"
  by (metis of_int_sint scast_id)

lemma unat_ucast_up:
  assumes "LENGTH('a) \<le> LENGTH('b)"
  shows "unat (ucast w :: 'b::len word) = unat (w :: 'a::len word)"
proof -
  have "unat w < 2 ^ LENGTH('a)" by (rule unsigned_less)
  also have "\<dots> \<le> 2 ^ LENGTH('b)" using assms by (simp add: power_increasing)
  finally show ?thesis by (simp add: unsigned_ucast_eq take_bit_nat_eq_self_iff)
qed

lemma sint_of_int:
  assumes "- (2 ^ (LENGTH('a) - 1)) \<le> k" and "k < 2 ^ (LENGTH('a) - 1)"
  shows "sint (word_of_int k :: 'a::len word) = k"
  using assms by (simp add: sint_sbintrunc' signed_take_bit_int_eq_self)

section \<open>Allocation\<close>

text \<open>
  \<open>zrealloc\<close> keeps the common prefix; the bytes it adds are indeterminate in
  C.  They are given by a function \<open>g\<close> that every operation which allocates
  takes as an argument, so that a lemma holds whatever they are.
\<close>

definition realloc :: "(nat \<Rightarrow> 'a) \<Rightarrow> 'a list \<Rightarrow> nat \<Rightarrow> 'a list" where
  "realloc g b n = take n b @ map g [length b..<n]"

lemma length_realloc [buf_simps]: "length (realloc g b n) = n"
  by (simp add: realloc_def min_def)

lemma nth_realloc [buf_simps]: "i < n \<Longrightarrow> i < length b \<Longrightarrow> realloc g b n ! i = b ! i"
  by (simp add: realloc_def nth_append)

lemma peek_realloc [buf_simps]:
  "i + k \<le> n \<Longrightarrow> i + k \<le> length b \<Longrightarrow> peek (realloc g b n) i k = peek b i k"
  by (intro nth_equalityI) (auto simp: buf_simps)

lemma peek_memmove_in [buf_simps]:
  assumes "src + n \<le> length b" and "dst + n \<le> length b" and "dst \<le> j" and "j + k \<le> dst + n"
  shows "peek (memmove b dst src n) j k = peek b (j - dst + src) k"
  using assms by (intro nth_equalityI) (auto simp: buf_simps ac_simps)

lemma peek_memmove_out [buf_simps]:
  assumes "src + n \<le> length b" and "dst + n \<le> length b" and "j + k \<le> dst \<or> dst + n \<le> j"
    and "j + k \<le> length b"
  shows "peek (memmove b dst src n) j k = peek b j k"
  using assms by (intro nth_equalityI) (auto simp: buf_simps)

section \<open>Loops and comparisons\<close>

text \<open>A \<open>for\<close> loop is a fold over the list of the values of its variable.\<close>

fun for_each :: "('a \<Rightarrow> 's \<Rightarrow> 's res) \<Rightarrow> 'a list \<Rightarrow> 's \<Rightarrow> 's res" where
  "for_each f [] s = Inr s"
| "for_each f (x # xs) s = rbind (f x s) (for_each f xs)"

lemma for_each_append: "for_each f (xs @ ys) s = rbind (for_each f xs s) (for_each f ys)"
  by (induction xs arbitrary: s) (simp_all add: rbind_def split: sum.split)

lemma for_each_rule:
  assumes "I [] s" and "\<And>ys x zs s. xs = ys @ x # zs \<Longrightarrow> I ys s \<Longrightarrow> \<exists>s'. f x s = Inr s' \<and> I (ys @ [x]) s'"
  shows "\<exists>s'. for_each f xs s = Inr s' \<and> I xs s'"
proof -
  have "\<exists>s'. for_each f ys s = Inr s' \<and> I ys s'" if "xs = ys @ zs" for ys zs
    using that
  proof (induction ys arbitrary: zs rule: rev_induct)
    case Nil
    then show ?case using assms(1) by simp
  next
    case (snoc y ys)
    then obtain s1 where "for_each f ys s = Inr s1" "I ys s1" by fastforce
    moreover from this assms(2) [of ys y zs s1] snoc.prems obtain s2 where "f y s1 = Inr s2" "I (ys @ [y]) s2"
      by auto
    ultimately show ?case by (simp add: for_each_append)
  qed
  then show ?thesis by simp
qed

text \<open>What holds of a loop that returns: the invariant form without termination.\<close>

lemma for_each_inv:
  assumes "for_each f xs s = Inr s'" and "I s" and "\<And>x s s'. x \<in> set xs \<Longrightarrow> I s \<Longrightarrow> f x s = Inr s' \<Longrightarrow> I s'"
  shows "I s'"
  using assms by (induction xs arbitrary: s) auto

lemma for_each_prefix:
  assumes "for_each f xs s = Inr s'" and "I [] s"
    and "\<And>ys x zs s s'. xs = ys @ x # zs \<Longrightarrow> I ys s \<Longrightarrow> f x s = Inr s' \<Longrightarrow> I (ys @ [x]) s'"
  shows "I xs s'"
proof -
  have "\<forall>s'. for_each f ys s = Inr s' \<longrightarrow> I ys s'" if "xs = ys @ zs" for ys zs
    using that
  proof (induction ys arbitrary: zs rule: rev_induct)
    case Nil
    then show ?case using assms(2) by simp
  next
    case (snoc y ys)
    then have "\<forall>s'. for_each f ys s = Inr s' \<longrightarrow> I ys s'" by simp
    then show ?case using assms(3) [of ys y zs] snoc.prems by (auto simp: for_each_append)
  qed
  then show ?thesis using assms(1) by simp
qed

lemma upt_split: "[0..<n] = ys @ x # zs \<Longrightarrow> x < n \<and> ys = [0..<x]"
proof -
  assume *: "[0..<n] = ys @ x # zs"
  have l: "length ys < n" using arg_cong [OF *, of length] by simp
  moreover have "x = length ys" using arg_cong [OF *, of "\<lambda>l. l ! length ys"] l by simp
  moreover have "ys = take (length ys) [0..<n]" using * by simp
  ultimately show ?thesis by simp
qed

text \<open>
  A loop that follows pointers may not end: its result is an option, \<open>None\<close>
  when it runs forever.  \<open>tbind\<close> goes on with what it returns.
\<close>

definition tbind :: "'a res option \<Rightarrow> ('a \<Rightarrow> 'b res option) \<Rightarrow> 'b res option" where
  "tbind m f = (case m of None \<Rightarrow> None | Some (Inl e) \<Rightarrow> Some (Inl e) | Some (Inr x) \<Rightarrow> f x)"

abbreviation tret :: "'a \<Rightarrow> 'a res option" where "tret x \<equiv> Some (Inr x)"

lemma tbind_simps [simp]:
  "tbind None f = None" "tbind (Some (Inl e)) f = Some (Inl e)" "tbind (Some (Inr x)) f = f x"
  by (simp_all add: tbind_def)

text \<open>The sign of \<open>memcmp\<close> over the common length of two byte strings.\<close>

fun memcmp :: "u8 list \<Rightarrow> u8 list \<Rightarrow> int" where
  "memcmp (a # as) (b # bs) = (if a = b then memcmp as bs else if a < b then - 1 else 1)"
| "memcmp _ _ = 0"

section \<open>C strings\<close>

text \<open>The content of a string up to its terminator, and the character functions of the C locale.\<close>

definition cstr :: "u8 list \<Rightarrow> u8 list" where
  "cstr s = takeWhile (\<lambda>b. b \<noteq> 0) s"

definition isspace :: "u8 \<Rightarrow> bool" where
  "isspace b \<longleftrightarrow> b = 32 \<or> 9 \<le> b \<and> b \<le> 13"

definition toupper8 :: "u8 \<Rightarrow> u8" where
  "toupper8 c = (if 97 \<le> c \<and> c \<le> 122 then c - 32 else c)"

definition tolower8 :: "u8 \<Rightarrow> u8" where
  "tolower8 c = (if 65 \<le> c \<and> c \<le> 90 then c + 32 else c)"

definition strcaseeq :: "u8 list \<Rightarrow> u8 list \<Rightarrow> bool" where
  "strcaseeq a b \<longleftrightarrow> map tolower8 a = map tolower8 b"

end
