(* ===== verification/Endian.thy ===== *)
theory Endian
  imports Prelude
begin

text \<open>
  The byte-order conversions of \<open>endianconv.c\<close>.  A pointer argument is the
  byte list it points to; an integer argument is taken to memory (little
  endian), toggled there and read back, as the C code does through \<open>&v\<close>.
\<close>

definition memrev16 :: "u8 list \<Rightarrow> u8 list" where
  "memrev16 x =
     (let t = x ! 0;
          x = x[0 := x ! 1];
          x = x[1 := t]
      in x)"

definition memrev32 :: "u8 list \<Rightarrow> u8 list" where
  "memrev32 x =
     (let t = x ! 0;
          x = x[0 := x ! 3];
          x = x[3 := t];
          t = x ! 1;
          x = x[1 := x ! 2];
          x = x[2 := t]
      in x)"

definition memrev64 :: "u8 list \<Rightarrow> u8 list" where
  "memrev64 x =
     (let t = x ! 0;
          x = x[0 := x ! 7];
          x = x[7 := t];
          t = x ! 1;
          x = x[1 := x ! 6];
          x = x[6 := t];
          t = x ! 2;
          x = x[2 := x ! 5];
          x = x[5 := t];
          t = x ! 3;
          x = x[3 := x ! 4];
          x = x[4 := t]
      in x)"

definition intrev16 :: "u16 \<Rightarrow> u16" where
  "intrev16 v = le_word (memrev16 (le_bytes 2 v))"

definition intrev32 :: "u32 \<Rightarrow> u32" where
  "intrev32 v = le_word (memrev32 (le_bytes 4 v))"

definition intrev64 :: "u64 \<Rightarrow> u64" where
  "intrev64 v = le_word (memrev64 (le_bytes 8 v))"

section \<open>The toggles reverse the bytes they are given, and nothing else\<close>

text \<open>Lists of a known small length, for evaluating the swaps.\<close>

lemma length_2E: "length x = 2 \<Longrightarrow> (\<And>a b. x = [a, b] \<Longrightarrow> P) \<Longrightarrow> P"
  by (auto simp: numeral_eq_Suc length_Suc_conv)

lemma length_4E: "length x = 4 \<Longrightarrow> (\<And>a b c d. x = [a, b, c, d] \<Longrightarrow> P) \<Longrightarrow> P"
  by (auto simp: numeral_eq_Suc length_Suc_conv)

lemma length_8E:
  "length x = 8 \<Longrightarrow> (\<And>a b c d e f g h. x = [a, b, c, d, e, f, g, h] \<Longrightarrow> P) \<Longrightarrow> P"
  by (auto simp: numeral_eq_Suc length_Suc_conv)

lemma memrev16_rev: "length x = 2 \<Longrightarrow> memrev16 (x @ r) = rev x @ r"
  by (erule length_2E) (simp add: memrev16_def)

lemma memrev32_rev: "length x = 4 \<Longrightarrow> memrev32 (x @ r) = rev x @ r"
  by (erule length_4E) (simp add: memrev32_def numeral_eq_Suc)

lemma memrev64_rev: "length x = 8 \<Longrightarrow> memrev64 (x @ r) = rev x @ r"
  by (erule length_8E) (simp add: memrev64_def numeral_eq_Suc)

lemmas memrev_rev = memrev16_rev [of _ "[]", simplified] memrev32_rev [of _ "[]", simplified]
  memrev64_rev [of _ "[]", simplified]

lemma le_bytes_intrev:
  "le_bytes 2 (intrev16 a) = rev (le_bytes 2 a)"
  "le_bytes 4 (intrev32 b) = rev (le_bytes 4 b)"
  "le_bytes 8 (intrev64 c) = rev (le_bytes 8 c)"
  using le_bytes_le_word [of "rev (le_bytes 2 a)", where 'a = 16]
    le_bytes_le_word [of "rev (le_bytes 4 b)", where 'a = 32]
    le_bytes_le_word [of "rev (le_bytes 8 c)", where 'a = 64]
  by (simp_all add: intrev16_def intrev32_def intrev64_def memrev_rev)

end
