(* ===== verification/Decimal.thy ===== *)
theory Decimal
  imports Prelude
begin

text \<open>
  Decimal numerals as the code reads and writes them: the reference printer
  \<open>dec_nat\<close> / \<open>dec_int\<close>, which is the canonical numeral of a number, and
  the value of a digit string.  Everything here is specification; the code's
  own conversions (\<open>util.c\<close>, \<open>sds.c\<close>) are proved against it.
\<close>

definition digit :: "nat \<Rightarrow> u8" where
  "digit n = word_of_nat (48 + n)"

fun dec_nat :: "nat \<Rightarrow> u8 list" where
  "dec_nat n = (if n < 10 then [digit n]
                else dec_nat (n div 10) @ [digit (n mod 10)])"

declare dec_nat.simps [simp del]

definition dec_int :: "int \<Rightarrow> u8 list" where
  "dec_int i = (if i < 0 then byte_of CHR ''-'' # dec_nat (nat (- i)) else dec_nat (nat i))"

definition is_digit :: "u8 \<Rightarrow> bool" where
  "is_digit c \<longleftrightarrow> 48 \<le> c \<and> c \<le> 57"

definition dec_val :: "nat \<Rightarrow> u8 list \<Rightarrow> nat" where
  "dec_val = foldl (\<lambda>a c. a * 10 + (unat c - 48))"

lemma dec_val_simps [simp]:
  "dec_val a [] = a"
  "dec_val a (c # cs) = dec_val (a * 10 + (unat c - 48)) cs"
  "dec_val a (xs @ ys) = dec_val (dec_val a xs) ys"
  by (simp_all add: dec_val_def)

lemma is_digit_unat: "is_digit c \<longleftrightarrow> 48 \<le> unat c \<and> unat c \<le> 57"
  by (simp add: is_digit_def word_le_nat_alt)

lemma unat_digit [simp]: "n < 10 \<Longrightarrow> unat (digit n) = 48 + n"
  by (simp add: digit_def unat_of_nat del: of_nat_add)

lemma is_digit_digit [simp]: "n < 10 \<Longrightarrow> is_digit (digit n)"
  by (simp add: is_digit_unat)

lemma digit_of_unat: "is_digit c \<Longrightarrow> digit (unat c - 48) = c"
  by (simp add: is_digit_unat digit_def)

lemma is_digit_value: "is_digit c \<Longrightarrow> unat c - 48 < 10"
  unfolding is_digit_unat by arith

lemma dec_nat_nonempty [simp]: "dec_nat n \<noteq> []"
  by (subst dec_nat.simps) simp

lemma dec_nat_digits: "c \<in> set (dec_nat n) \<Longrightarrow> is_digit c"
proof (induction n rule: dec_nat.induct)
  case (1 n)
  show ?case
  proof (cases "n < 10")
    case True
    with 1 show ?thesis by (simp add: dec_nat.simps [of n])
  next
    case False
    have "n mod 10 < 10" by simp
    with False 1 show ?thesis
      by (auto simp: dec_nat.simps [of n])
  qed
qed

lemma dec_val_dec_nat [simp]: "dec_val 0 (dec_nat n) = n"
proof (induction n rule: dec_nat.induct)
  case (1 n)
  then show ?case
    by (cases "n < 10") (simp_all add: dec_nat.simps [of n])
qed

lemma dec_nat_inj [simp]: "dec_nat m = dec_nat n \<longleftrightarrow> m = n"
  by (metis dec_val_dec_nat)

text \<open>A canonical numeral has no leading zero.\<close>

lemma hd_dec_nat: "n \<noteq> 0 \<Longrightarrow> hd (dec_nat n) \<noteq> 48"
proof (induction n rule: dec_nat.induct)
  case (1 n)
  show ?case
  proof (cases "n < 10")
    case True
    then have "unat (digit n) \<noteq> unat (48 :: u8)" using 1 by simp
    then have "digit n \<noteq> 48" by metis
    with True show ?thesis by (simp add: dec_nat.simps [of n])
  next
    case False
    then have "n div 10 \<noteq> 0" by simp
    with 1 False show ?thesis by (simp add: dec_nat.simps [of n])
  qed
qed

lemma dec_val_ge: "a \<le> dec_val a cs"
proof (induction cs arbitrary: a)
  case (Cons c cs)
  have "a \<le> a * 10 + (unat c - 48)" by simp
  also have "\<dots> \<le> dec_val \<dots> cs" by (rule Cons.IH)
  finally show ?case by simp
qed simp

text \<open>Reading a digit string that does not start with \<open>0\<close> and printing it again.\<close>

lemma dec_nat_dec_val:
  assumes "\<forall>c \<in> set cs. is_digit c" and "a \<noteq> 0"
  shows "dec_nat (dec_val a cs) = dec_nat a @ cs"
  using assms
proof (induction cs arbitrary: a)
  case (Cons c cs)
  let ?b = "a * 10 + (unat c - 48)"
  have c: "is_digit c" using Cons.prems by simp
  have "dec_nat (dec_val ?b cs) = dec_nat ?b @ cs"
    using Cons by simp
  also have "dec_nat ?b = dec_nat a @ [c]"
  proof -
    have d: "unat c - 48 < 10" using c by (rule is_digit_value)
    then have "\<not> ?b < 10" "?b div 10 = a" "?b mod 10 = unat c - 48"
      using Cons.prems(2) by simp_all
    then show ?thesis
      using digit_of_unat [OF c] by (simp add: dec_nat.simps [of ?b])
  qed
  finally show ?case by simp
qed simp

lemma length_dec_nat_le: "length (dec_nat n) \<le> Suc k \<longleftrightarrow> n < 10 ^ Suc k"
proof (induction k arbitrary: n)
  case 0
  then show ?case by (simp add: dec_nat.simps [of n])
next
  case (Suc k)
  have "n div 10 < 10 ^ Suc k \<longleftrightarrow> n < 10 ^ Suc (Suc k)"
    by (simp add: div_less_iff_less_mult mult.commute)
  moreover have "n < 10 \<Longrightarrow> n < 10 ^ Suc (Suc k)"
    by (rule less_le_trans [of _ 10]) (simp_all add: self_le_power)
  ultimately show ?case
    using Suc.IH [of "n div 10"] by (simp add: dec_nat.simps [of n])
qed

lemma length_dec_nat_eq:
  "2 \<le> k \<Longrightarrow> length (dec_nat n) = k \<longleftrightarrow> 10 ^ (k - 1) \<le> n \<and> n < 10 ^ k"
  using length_dec_nat_le [of n "k - 2"] length_dec_nat_le [of n "k - 1"]
  by (cases k; cases "k - 1") (auto simp: Suc_diff_Suc)

lemma length_dec_nat_div: "10 ^ k \<le> n \<Longrightarrow> length (dec_nat n) = k + length (dec_nat (n div 10 ^ k))"
proof (induction k arbitrary: n)
  case (Suc k)
  then have "10 \<le> n" by (simp add: order_trans [OF _ Suc.prems])
  moreover have "10 ^ k \<le> n div 10" using Suc.prems by (simp add: less_eq_div_iff_mult_less_eq mult.commute)
  ultimately show ?case
    using Suc.IH [of "n div 10"] by (simp add: dec_nat.simps [of n] div_mult2_eq)
qed simp


text \<open>The digit strings that are canonical numerals of a positive number.\<close>

definition canonical :: "u8 list \<Rightarrow> bool" where
  "canonical p \<longleftrightarrow> p \<noteq> [] \<and> (\<forall>c \<in> set p. is_digit c) \<and> hd p \<noteq> 48"

lemma canonical_dec_nat: "n \<noteq> 0 \<Longrightarrow> canonical (dec_nat n)"
  by (simp add: canonical_def dec_nat_digits hd_dec_nat)

lemma canonicalD:
  assumes "canonical p"
  shows "dec_nat (dec_val 0 p) = p" and "dec_val 0 p \<noteq> 0"
proof -
  from assms obtain c cs where p: "p = c # cs" "is_digit c" "c \<noteq> 48" "\<forall>c \<in> set cs. is_digit c"
    by (cases p) (auto simp: canonical_def)
  have "unat c \<noteq> unat (48 :: u8)" using p(3) unfolding word_unat_eq_iff .
  then have a: "unat c - 48 \<noteq> 0" using p(2) by (simp add: is_digit_unat)
  have "unat c - 48 < 10" using p(2) by (rule is_digit_value)
  then have "dec_nat (unat c - 48) = [c]"
    using digit_of_unat [OF p(2)] by (simp add: dec_nat.simps)
  then show "dec_nat (dec_val 0 p) = p"
    using dec_nat_dec_val [OF p(4) a] p(1) by simp
  show "dec_val 0 p \<noteq> 0"
    using dec_val_ge [of "unat c - 48" cs] a p(1) by simp
qed

lemma dec_int_neq_Nil [simp]: "dec_int i \<noteq> []"
  by (simp add: dec_int_def)

lemma dec_int_inj [simp]: "dec_int i = dec_int j \<longleftrightarrow> i = j"
proof
  have d: "\<not> is_digit (byte_of CHR ''-'')" by (simp add: is_digit_def)
  assume eq: "dec_int i = dec_int j"
  have "hd (dec_nat n) \<noteq> byte_of CHR ''-''" for n
    using dec_nat_digits [of "hd (dec_nat n)" n] d by auto
  then have "i < 0 \<longleftrightarrow> j < 0" using eq by (auto simp: dec_int_def) (metis list.sel(1))+
  then show "i = j" using eq by (auto simp: dec_int_def split: if_splits)
qed simp

text \<open>A \<open>long long\<close> has at most twenty characters.\<close>

lemma dec_int_s64: "length (dec_int (sint (v :: u64))) \<le> 20"
proof -
  have "- (2 ^ 63) \<le> sint v" "sint v < 2 ^ 63" using sint_ge [of v] sint_lt [of v] by simp_all
  then have "nat (- sint v) < 10 ^ Suc 18" "nat (sint v) < 10 ^ Suc 18" by auto
  then have "length (dec_nat (nat (- sint v))) \<le> 19" "length (dec_nat (nat (sint v))) \<le> 19"
    using length_dec_nat_le [of "nat (- sint v)" 18] length_dec_nat_le [of "nat (sint v)" 18] by simp_all
  then show ?thesis by (simp add: dec_int_def)
qed

end
