(* ===== verification/Util.thy ===== *)
theory Util
  imports Decimal
begin

text \<open>
  The number conversions of \<open>util.c\<close>: \<open>digits10\<close>, \<open>ll2string\<close>,
  \<open>string2ll\<close>, \<open>string2l\<close> and \<open>memtoll\<close>.  A \<open>long long\<close> is a 64-bit word read
  with \<open>sint\<close>; a destination buffer is a byte list that the function returns
  updated.  The functions are proved against the reference numerals of
  \<open>Decimal\<close>.
\<close>

section \<open>Printing: digits10 and ll2string\<close>

function digits10 :: "u64 \<Rightarrow> nat" where
  "digits10 v =
     (if v < 10 then 1 else
      if v < 100 then 2 else
      if v < 1000 then 3 else
      if v < 1000000000000 then
        (if v < 100000000 then
           (if v < 1000000 then
              (if v < 10000 then 4
               else 5 + (if v \<ge> 100000 then 1 else 0))
            else 7 + (if v \<ge> 10000000 then 1 else 0))
         else if v < 10000000000 then 9 + (if v \<ge> 1000000000 then 1 else 0)
         else 11 + (if v \<ge> 100000000000 then 1 else 0))
      else 12 + digits10 (v div 1000000000000))"
  by pat_completeness auto
termination
  by (relation "measure unat") (auto simp: word_less_nat_alt unat_div)

declare digits10.simps [simp del]

text \<open>The table of two-digit pairs that \<open>ll2string\<close> copies from.\<close>

definition digits_table :: "u8 list" where
  "digits_table = bytes_of
    (''0001020304050607080910111213141516171819'' @
     ''2021222324252627282930313233343536373839'' @
     ''4041424344454647484950515253545556575859'' @
     ''6061626364656667686970717273747576777879'' @
     ''8081828384858687888990919293949596979899'')"

text \<open>The main loop: two digits per round, written from the end of the buffer.\<close>

function ll2string_loop :: "u64 \<Rightarrow> nat \<Rightarrow> u8 list \<Rightarrow> u64 \<times> nat \<times> u8 list" where
  "ll2string_loop value nxt dst =
     (if value \<ge> 100 then
        (let i = unat (value mod 100) * 2;
             value = value div 100;
             dst = dst[nxt := digits_table ! (i + 1)];
             dst = dst[nxt - 1 := digits_table ! i]
         in ll2string_loop value (nxt - 2) dst)
      else (value, nxt, dst))"
  by pat_completeness auto
termination
  by (relation "measure (unat \<circ> fst)") (auto simp: word_le_nat_alt unat_div)

declare ll2string_loop.simps [simp del]

definition ll2string_last :: "u64 \<times> nat \<times> u8 list \<Rightarrow> u8 list" where
  "ll2string_last = (\<lambda>(value, nxt, dst).
     if value < 10 then dst[nxt := 48 + ucast value]
     else let i = unat value * 2
          in (dst[nxt := digits_table ! (i + 1)])[nxt - 1 := digits_table ! i])"

definition ll2string :: "u8 list \<Rightarrow> nat \<Rightarrow> u64 \<Rightarrow> nat \<times> u8 list" where
  "ll2string dst dstlen svalue =
     (let negative = sint svalue < 0;
          value = (if negative
                   then (if sint svalue \<noteq> - (2 ^ 63) then - svalue else 0x7fffffffffffffff + 1)
                   else svalue);
          len = digits10 value + (if negative then 1 else 0)
      in if len \<ge> dstlen then (0, dst)
         else let dst = dst[len := 0];
                  dst = ll2string_last (ll2string_loop value (len - 1) dst);
                  dst = (if negative then dst[0 := byte_of CHR ''-''] else dst)
              in (len, dst))"

section \<open>Parsing: string2ll and string2l\<close>

text \<open>
  \<open>p\<close> is the rest of the string not yet read; \<open>None\<close> is the return value 0
  (overflow), and the loop stops at the first byte that is no digit.
\<close>

fun string2ll_loop :: "u64 \<Rightarrow> u8 list \<Rightarrow> (u64 \<times> u8 list) option" where
  "string2ll_loop v [] = Some (v, [])"
| "string2ll_loop v (c # p) =
     (if 48 \<le> c \<and> c \<le> 57 then
        (if v > - 1 div 10 then None
         else let v = v * 10
              in if v > - 1 - ucast (c - 48) then None
                 else string2ll_loop (v + ucast (c - 48)) p)
      else Some (v, c # p))"

definition string2ll :: "u8 list \<Rightarrow> u64 option" where
  "string2ll s =
     (if s = [] then None
      else if length s = 1 \<and> hd s = 48 then Some 0
      else
        let negative = hd s = byte_of CHR ''-'';
            p = (if negative then tl s else s)
        in if negative \<and> p = [] then None
           else if 49 \<le> hd p \<and> hd p \<le> 57 then
             (case string2ll_loop (ucast (hd p - 48)) (tl p) of
                None \<Rightarrow> None
              | Some (v, rest) \<Rightarrow>
                  if rest \<noteq> [] then None
                  else if negative then
                    (if v > 0x7fffffffffffffff + 1 then None else Some (- v))
                  else if v > 0x7fffffffffffffff then None else Some v)
           else if hd p = 48 \<and> length s = 1 then Some 0
           else None)"

definition string2l :: "u8 list \<Rightarrow> u64 option" where
  "string2l s =
     (case string2ll s of
        None \<Rightarrow> None
      | Some llval \<Rightarrow>
          if sint llval < - (2 ^ 63) \<or> sint llval > 2 ^ 63 - 1 then None else Some llval)"

section \<open>Memory sizes: memtoll\<close>

text \<open>
  \<open>strcasecmp\<close> and \<open>strtoll(s, &end, 10)\<close> of the C library, in the C locale
  and on the strings \<open>memtoll\<close> gives them: \<open>strtoll\<close> saturates, and where no
  digit can be read it returns 0 and leaves the end pointer at the start.
\<close>

definition strtoll10 :: "u8 list \<Rightarrow> int \<times> u8 list" where
  "strtoll10 buf =
     (let negative = buf \<noteq> [] \<and> hd buf = byte_of CHR ''-'';
          q = (if negative then tl buf else buf);
          ds = takeWhile is_digit q;
          v = int (dec_val 0 ds)
      in if ds = [] then (0, buf)
         else if negative then (max (- v) (- (2 ^ 63)), dropWhile is_digit q)
         else (min v (2 ^ 63 - 1), dropWhile is_digit q))"

definition memtoll_unit :: "u8 list \<Rightarrow> int option" where
  "memtoll_unit u =
     (if u = [] \<or> strcaseeq u (bytes_of ''b'') then Some 1
      else if strcaseeq u (bytes_of ''k'') then Some 1000
      else if strcaseeq u (bytes_of ''kb'') then Some 1024
      else if strcaseeq u (bytes_of ''m'') then Some (1000 * 1000)
      else if strcaseeq u (bytes_of ''mb'') then Some (1024 * 1024)
      else if strcaseeq u (bytes_of ''g'') then Some (1000 * 1000 * 1000)
      else if strcaseeq u (bytes_of ''gb'') then Some (1024 * 1024 * 1024)
      else None)"

text \<open>
  \<open>p\<close> is the content of the C string, without its terminator.  \<open>Inr None\<close> is
  the parsing error (\<open>*err = 1\<close>, return value 0); the product \<open>val*mul\<close> is
  signed, so leaving the 64-bit range is a fault.
\<close>

definition memtoll :: "u8 list \<Rightarrow> int option res" where
  "memtoll p =
     (let q = (if p \<noteq> [] \<and> hd p = byte_of CHR ''-'' then tl p else p);
          u = dropWhile is_digit q
      in case memtoll_unit u of
           None \<Rightarrow> Inr None
         | Some mul \<Rightarrow>
             let digits = length p - length u
             in if digits \<ge> 128 then Inr None
                else let (val, endptr) = strtoll10 (take digits p)
                     in if endptr \<noteq> [] then Inr None
                        else if - (2 ^ 63) \<le> val * mul \<and> val * mul < 2 ^ 63
                             then Inr (Some (val * mul))
                             else Inl SignedOverflow)"

section \<open>digits10 counts decimal digits\<close>

lemma digits10_correct: "digits10 v = length (dec_nat (unat v))"
proof (induction v rule: digits10.induct)
  case (1 v)
  note eq = length_dec_nat_eq [of _ "unat v"]
  note div = length_dec_nat_div [of 12 "unat v"]
  show ?case
  proof (cases "v < 1000000000000")
    case True
    have "length (dec_nat (unat v)) = 1" if "unat v < 10"
      using that by (simp add: dec_nat.simps)
    with True show ?thesis
      using eq [of 2] eq [of 3] eq [of 4] eq [of 5] eq [of 6] eq [of 7] eq [of 8] eq [of 9]
        eq [of 10] eq [of 11] eq [of 12]
      by (subst digits10.simps) (simp add: word_less_nat_alt word_le_nat_alt)
  next
    case False
    then have ge: "\<not> v < 10" "\<not> v < 100" "\<not> v < 1000"
      by (simp_all add: word_less_nat_alt)
    from False have "10 ^ 12 \<le> unat v" by (simp add: word_less_nat_alt)
    then show ?thesis
      using False ge "1.IH" div by (simp add: digits10.simps [of v] unat_div)
  qed
qed


section \<open>ll2string prints the canonical numeral\<close>

lemma nth_concat_pairs:
  assumes "i < length xs"
  shows "concat (map (\<lambda>x. [f x, g x]) xs) ! (i * 2) = f (xs ! i)"
    "concat (map (\<lambda>x. [f x, g x]) xs) ! (i * 2 + 1) = g (xs ! i)"
  using assms by (induction xs arbitrary: i) (auto simp: nth_Cons' less_Suc_eq_0_disj)

lemma digits_table_pairs:
  "digits_table = concat (map (\<lambda>k. [digit (k div 10), digit (k mod 10)]) [0..<100])"
  by code_simp

lemma digits_table_nth:
  assumes "k < 100"
  shows "digits_table ! (k * 2) = digit (k div 10)" "digits_table ! (k * 2 + 1) = digit (k mod 10)"
  using assms nth_concat_pairs [of k "[0..<100]"] by (simp_all del: upt.simps add: digits_table_pairs)

lemma dec_nat_div_100:
  assumes "100 \<le> n"
  shows "dec_nat n = dec_nat (n div 100) @ [digit (n mod 100 div 10), digit (n mod 100 mod 10)]"
  using assms div_mult2_eq [of n 10 10] mod_mult2_eq [of n 10 10]
  by (simp add: dec_nat.simps [of n] dec_nat.simps [of "n div 10"])

lemma poke_snoc2:
  assumes "length xs + 2 \<le> Suc n" and "n < length d"
  shows "poke (d[n := b, n - 1 := a]) (Suc (n - 2) - length xs) xs =
         poke d (Suc n - (length xs + 2)) (xs @ [a, b])"
proof -
  define m where "m = n - Suc (length xs)"
  then have n: "n = Suc m + length xs" using assms(1) by arith
  show ?thesis using assms(2) unfolding n
    by (intro nth_equalityI) (auto simp: buf_simps nth_append nth_list_update nth_Cons')
qed


lemma ll2string_loop_last:
  assumes "length (dec_nat (unat v)) \<le> Suc n" and "n < length d"
  shows "ll2string_last (ll2string_loop v n d) =
         poke d (Suc n - length (dec_nat (unat v))) (dec_nat (unat v))"
  using assms
proof (induction v n d rule: ll2string_loop.induct)
  case (1 v n d)
  show ?case
  proof (cases "100 \<le> v")
    case True
    let ?k = "unat (v mod 100)"
    let ?d = "d[n := digits_table ! (?k * 2 + 1), n - 1 := digits_table ! (?k * 2)]"
    have ge: "100 \<le> unat v" using True by (simp add: word_le_nat_alt)
    then have len: "length (dec_nat (unat v)) = length (dec_nat (unat v div 100)) + 2"
      by (simp add: dec_nat_div_100 [of "unat v"])
    have k: "?k = unat v mod 100" "?k < 100" by (simp_all add: unat_mod)
    have "length (dec_nat (unat (v div 100))) \<le> Suc (n - 2)" "n - 2 < length ?d"
      using "1.prems" len by (simp_all add: unat_div)
    then have "ll2string_last (ll2string_loop (v div 100) (n - 2) ?d) =
        poke ?d (Suc (n - 2) - length (dec_nat (unat v div 100))) (dec_nat (unat v div 100))"
      using "1.IH" [OF True refl refl refl refl] by (simp add: unat_div)
    also have "\<dots> = poke d (Suc n - length (dec_nat (unat v))) (dec_nat (unat v))"
      using "1.prems" len poke_snoc2 [of "dec_nat (unat v div 100)" n d]
        digits_table_nth [OF k(2)] k(1)
      by (simp add: dec_nat_div_100 [OF ge])
    finally show ?thesis using True by (simp add: ll2string_loop.simps [of v] Let_def)
  next
    case False
    then have v: "unat v < 100" by (simp add: word_le_nat_alt)
    show ?thesis
    proof (cases "v < 10")
      case True
      then have "dec_nat (unat v) = [48 + ucast v]"
        by (simp add: dec_nat.simps word_less_nat_alt digit_def)
      then show ?thesis using True False "1.prems"
        by (simp add: ll2string_loop.simps [of v] ll2string_last_def poke_def
            upd_conv_take_nth_drop)
    next
      case False
      then have d: "dec_nat (unat v) = [digit (unat v div 10), digit (unat v mod 10)]"
        using v by (simp add: dec_nat.simps [of "unat v"] dec_nat.simps [of "unat v div 10"]
            word_less_nat_alt)
      then show ?thesis using False \<open>\<not> 100 \<le> v\<close> "1.prems" digits_table_nth [OF v]
          poke_snoc2 [of "[]" n d]
        by (simp add: ll2string_loop.simps [of v] ll2string_last_def) (simp add: poke_def)
    qed
  qed
qed

text \<open>The absolute value the loop prints, for every 64-bit argument, \<open>LLONG_MIN\<close> included.\<close>

definition llabs :: "u64 \<Rightarrow> u64" where
  "llabs v = (if sint v < 0
              then (if sint v \<noteq> - (2 ^ 63) then - v else 0x7fffffffffffffff + 1) else v)"

lemma unat_llabs: "unat (llabs v) = nat \<bar>sint v\<bar>"
proof (cases "sint v = - (2 ^ 63)")
  case True
  then show ?thesis by (simp add: llabs_def)
next
  case False
  then show ?thesis by (simp add: llabs_def unat_minus_eq_sint unat_eq_sint)
qed

lemma dec_int_llabs:
  "dec_int (sint v) = (if sint v < 0 then [byte_of CHR ''-''] else []) @ dec_nat (unat (llabs v))"
  by (simp add: dec_int_def unat_llabs)

lemma length_dec_int: "length (dec_int (sint v)) = digits10 (llabs v) + (if sint v < 0 then 1 else 0)"
  by (simp add: dec_int_llabs digits10_correct)

lemma ll2string_alt:
  "ll2string dst dstlen v =
     (let n = length (dec_int (sint v));
          dst' = ll2string_last (ll2string_loop (llabs v) (n - 1) (dst[n := 0]))
      in if n \<ge> dstlen then (0, dst)
         else (n, if sint v < 0 then dst'[0 := byte_of CHR ''-''] else dst'))"
  unfolding ll2string_def llabs_def [symmetric] length_dec_int Let_def by (rule refl)

lemma ll2string_short: "dstlen \<le> length (dec_int (sint v)) \<Longrightarrow> ll2string dst dstlen v = (0, dst)"
  by (simp add: ll2string_alt)

lemma ll2string_fits:
  assumes "length (dec_int (sint v)) < dstlen" and "dstlen \<le> length dst"
  shows "ll2string dst dstlen v =
    (length (dec_int (sint v)), poke dst 0 (dec_int (sint v) @ [0]))"
proof -
  let ?D = "dec_nat (unat (llabs v))" and ?neg = "sint v < 0"
  let ?n = "length (dec_int (sint v))"
  have n: "?n = length ?D + (if ?neg then 1 else 0)" by (simp add: dec_int_llabs)
  have pos: "0 < length ?D" by simp
  have "ll2string_last (ll2string_loop (llabs v) (?n - 1) (dst[?n := 0])) =
      poke (dst[?n := 0]) (Suc (?n - 1) - length ?D) ?D"
    using assms n pos by (intro ll2string_loop_last) auto
  moreover have "Suc (?n - 1) - length ?D = (if ?neg then 1 else 0)"
    using n pos by auto
  ultimately have loop: "ll2string_last (ll2string_loop (llabs v) (?n - 1) (dst[?n := 0])) =
      poke (dst[?n := 0]) (if ?neg then 1 else 0) ?D" by simp
  have "(if ?neg then (poke (dst[?n := 0]) (if ?neg then 1 else 0) ?D)[0 := byte_of CHR ''-'']
         else poke (dst[?n := 0]) (if ?neg then 1 else 0) ?D)
       = poke dst 0 (dec_int (sint v) @ [0])"
    using assms n
    by (intro nth_equalityI)
      (auto simp: buf_simps nth_append nth_list_update nth_Cons' dec_int_llabs less_Suc_eq)
  then show ?thesis
    using assms loop
    by (cases ?neg) (simp_all add: ll2string_alt Let_def)
qed

section \<open>string2ll accepts exactly the canonical numerals in range\<close>

lemma string2ll_loop_Cons:
  "string2ll_loop v (c # p) =
     (if is_digit c then
        (if v > - 1 div 10 then None
         else if v * 10 > - 1 - ucast (c - 48) then None
         else string2ll_loop (v * 10 + ucast (c - 48)) p)
      else Some (v, c # p))"
  by (simp only: string2ll_loop.simps is_digit_def Let_def)

declare string2ll_loop.simps(2) [simp del]

lemma unat_m1_sub: "unat (- 1 - w :: u64) = 2 ^ 64 - 1 - unat w"
proof -
  have m1: "(- 1 :: u64) = 18446744073709551615" by simp
  have "w \<le> - 1" by simp
  then show ?thesis unfolding m1 by (subst unat_sub) simp_all
qed

lemma string2ll_loop_eq:
  "string2ll_loop v p =
     (let x = dec_val (unat v) (takeWhile is_digit p)
      in if x < 2 ^ 64 then Some (word_of_nat x, dropWhile is_digit p) else None)"
proof (induction v p rule: string2ll_loop.induct)
  case (1 v)
  then show ?case using unsigned_less [of v, where 'a = nat] by (simp add: Let_def)
next
  case (2 v c p)
  show ?case
  proof (cases "is_digit c")
    case False
    then show ?thesis
      using unsigned_less [of v, where 'a = nat] by (simp add: Let_def string2ll_loop_Cons)
  next
    case True
    define d where "d = unat c - 48"
    have "unat (c - 48) = d"
      using True by (simp add: unat_sub is_digit_def d_def)
    then have d: "unat (ucast (c - 48) :: u64) = d" "d < 10"
      using is_digit_value [OF True] by (simp_all add: unat_ucast_up d_def)
    have max: "unat (- 1 div 10 :: u64) = 1844674407370955161" by simp
    have step: "dec_val (unat v) (takeWhile is_digit (c # p)) =
        dec_val (unat v * 10 + d) (takeWhile is_digit p)" using True by (simp add: d_def)
    have ge: "unat v * 10 + d \<le> dec_val (unat v * 10 + d) (takeWhile is_digit p)"
      by (rule dec_val_ge)
    show ?thesis
    proof (cases "unat v * 10 + d < 2 ^ 64")
      case True
      then have "\<not> 1844674407370955161 < unat v" by simp
      then have "\<not> v > - 1 div 10" by (simp only: word_less_nat_alt max not_False_eq_True)
      moreover have v10: "unat (v * 10) = unat v * 10" using True by (simp add: unat_word_ariths)
      moreover have "\<not> v * 10 > - 1 - ucast (c - 48)"
      proof -
        have "unat (- 1 - ucast (c - 48) :: u64) = 2 ^ 64 - 1 - d"
          using d by (simp add: unat_m1_sub)
        then show ?thesis using True v10 by (simp add: word_less_nat_alt)
      qed
      moreover have "unat (v * 10 + ucast (c - 48)) = unat v * 10 + d"
        using True v10 d(1) by (simp add: unat_word_ariths)
      ultimately show ?thesis
        using \<open>is_digit c\<close> "2.IH" [folded is_digit_def] step
        by (simp add: Let_def string2ll_loop_Cons)
    next
      case False
      have "v > - 1 div 10 \<or> v * 10 > - 1 - ucast (c - 48)"
      proof (cases "v > - 1 div 10")
        case F: False
        then have small: "unat v \<le> 1844674407370955161" by (simp only: word_less_nat_alt max not_less)
        then have "unat (v * 10) = unat v * 10" by (simp add: unat_word_ariths)
        moreover have "unat (- 1 - ucast (c - 48) :: u64) = 2 ^ 64 - 1 - d"
          using d by (simp add: unat_m1_sub)
        ultimately show ?thesis using False d(2) small by (simp add: word_less_nat_alt)
      qed simp
      then have "string2ll_loop v (c # p) = None"
        using \<open>is_digit c\<close> by (auto simp: string2ll_loop_Cons)
      then show ?thesis using False step ge by (simp add: Let_def)
    qed
  qed
qed

text \<open>The part of \<open>string2ll\<close> after the sign.\<close>

lemma string2ll_body:
  assumes "p \<noteq> []"
  shows "(if 49 \<le> hd p \<and> hd p \<le> 57 then
            (case string2ll_loop (ucast (hd p - 48)) (tl p) of
               None \<Rightarrow> None
             | Some (v, rest) \<Rightarrow> if rest \<noteq> [] then None else f v)
          else None) =
         (if canonical p \<and> dec_val 0 p < 2 ^ 64 then f (word_of_nat (dec_val 0 p)) else None)"
proof -
  obtain c cs where p: "p = c # cs" using assms by (cases p) auto
  have c: "49 \<le> c \<and> c \<le> 57 \<longleftrightarrow> is_digit c \<and> c \<noteq> 48"
    by (auto simp: is_digit_def word_le_nat_alt unat_arith_simps)
  show ?thesis
  proof (cases "is_digit c \<and> c \<noteq> 48")
    case True
    have "unat (ucast (c - 48) :: u64) = unat c - 48"
      using True by (simp add: unat_ucast_up unat_sub is_digit_def)
    then have loop: "string2ll_loop (ucast (c - 48)) cs =
        (let x = dec_val (unat c - 48) (takeWhile is_digit cs)
         in if x < 2 ^ 64 then Some (word_of_nat x, dropWhile is_digit cs) else None)"
      by (simp add: string2ll_loop_eq)
    show ?thesis
    proof (cases "\<forall>c \<in> set cs. is_digit c")
      case all: True
      then have tw: "takeWhile is_digit cs = cs" and dw: "dropWhile is_digit cs = []"
        by (simp_all add: takeWhile_eq_all_conv dropWhile_eq_Nil_conv)
      show ?thesis
        using True c all loop [unfolded tw dw] unfolding p by (simp add: Let_def canonical_def)
    next
      case some: False
      then have "dropWhile is_digit cs \<noteq> []" "\<not> canonical (c # cs)"
        by (simp_all add: dropWhile_eq_Nil_conv canonical_def)
      then show ?thesis using True c unfolding p by (simp add: loop Let_def)
    qed
  next
    case False
    then show ?thesis using c unfolding p by (auto simp: canonical_def)
  qed
qed

lemma string2ll_eq:
  assumes "s \<noteq> []" and "s \<noteq> [48]"
  shows "string2ll s =
     (let negative = hd s = byte_of CHR ''-'';
          p = (if negative then tl s else s);
          n = dec_val 0 p
      in if canonical p \<and> n < 2 ^ 64
         then (if negative then (if n > 2 ^ 63 then None else Some (- word_of_nat n))
               else if n \<ge> 2 ^ 63 then None else Some (word_of_nat n))
         else None)"
proof -
  let ?neg = "hd s = byte_of CHR ''-''"
  let ?p = "if ?neg then tl s else s"
  have ns: "\<not> (length s = 1 \<and> hd s = 48)" using assms(2) by (cases s) auto
  have ns': "\<not> (hd ?p = 48 \<and> length s = 1)" if "?p \<noteq> []"
    using assms that by (cases s) auto
  have un: "unat (word_of_nat n :: u64) = n" if "n < 2 ^ 64" for n
    using that by (simp add: unat_of_nat)
  show ?thesis
  proof (cases "?p = []")
    case True
    then show ?thesis using assms(1) by (auto simp: string2ll_def canonical_def Let_def split: if_splits)
  next
    case False
    show ?thesis
      using assms(1) ns ns' [OF False] un False
      by (simp only: string2ll_def Let_def if_False simp_thms string2ll_body [OF False])
        (simp add: word_less_nat_alt not_less_eq_eq)
  qed
qed

lemma sint_of_nat: "n < 2 ^ 63 \<Longrightarrow> sint (word_of_nat n :: u64) = int n"
  and sint_minus_of_nat: "n \<le> 2 ^ 63 \<Longrightarrow> sint (- word_of_nat n :: u64) = - int n"
  using sint_of_int [of "int n", where 'a = 64] sint_of_int [of "- int n", where 'a = 64]
  by simp_all

lemma canonical_no_sign: "canonical p \<Longrightarrow> hd p \<noteq> byte_of CHR ''-''"
  by (cases p) (auto simp: canonical_def is_digit_def)

lemma dec_int_pos: "0 < n \<Longrightarrow> dec_int (int n) = dec_nat n"
  and dec_int_neg: "0 < n \<Longrightarrow> dec_int (- int n) = byte_of CHR ''-'' # dec_nat n"
  by (simp_all add: dec_int_def)

lemma dec_int_0: "dec_int 0 = [48]"
  by (simp add: dec_int_def dec_nat.simps digit_def)

lemma string2ll_Some:
  assumes "string2ll s = Some w"
  shows "s = dec_int (sint w)"
proof (cases "s = [] \<or> s = [48]")
  case True
  then show ?thesis using assms by (auto simp: string2ll_def dec_int_0)
next
  case False
  define neg where "neg = (hd s = byte_of CHR ''-'')"
  define p where "p = (if neg then tl s else s)"
  define n where "n = dec_val 0 p"
  have p: "canonical p" "n < 2 ^ 64" "neg \<longrightarrow> n \<le> 2 ^ 63" "\<not> neg \<longrightarrow> n < 2 ^ 63"
    and w: "w = (if neg then - word_of_nat n else word_of_nat n)"
    using assms False
    by (auto simp: string2ll_eq neg_def p_def n_def Let_def split: if_splits)
  note c = canonicalD [OF p(1), folded n_def]
  show ?thesis
  proof (cases neg)
    case True
    then have "sint w = - int n" using w p(3) sint_minus_of_nat [of n] by simp
    moreover have "s = byte_of CHR ''-'' # p" using True False by (cases s) (auto simp: neg_def p_def)
    ultimately show ?thesis using c dec_int_neg [of n] by simp
  next
    case F: False
    then have "sint w = int n" using w p(4) sint_of_nat [of n] by simp
    then show ?thesis using c F p_def dec_int_pos [of n] by simp
  qed
qed

lemma string2ll_dec_int: "string2ll (dec_int (sint w)) = Some w"
proof (cases "sint w = 0")
  case True
  then have "w = 0" by (metis sint_0 sint_eqI)
  then show ?thesis by (simp add: dec_int_0 string2ll_def)
next
  case False
  define n where "n = nat \<bar>sint w\<bar>"
  define neg where "neg = (sint w < 0)"
  have n: "n \<noteq> 0" "neg \<longrightarrow> n \<le> 2 ^ 63" "\<not> neg \<longrightarrow> n < 2 ^ 63"
    using False sint_ge [of w] sint_lt [of w] by (auto simp: n_def neg_def)
  then have lt: "n < 2 ^ 64" by (cases neg) auto
  have can: "canonical (dec_nat n)" using n(1) by (rule canonical_dec_nat)
  have s: "dec_int (sint w) = (if neg then [byte_of CHR ''-''] else []) @ dec_nat n"
    by (simp add: dec_int_def n_def neg_def)
  have w: "w = (if neg then - word_of_nat n else word_of_nat n)"
  proof -
    have "sint w = (if neg then - int n else int n)" by (simp add: n_def neg_def)
    then have "word_of_int (sint w) = (if neg then - word_of_nat n else word_of_nat n :: u64)"
      by simp
    then show ?thesis by simp
  qed
  have "dec_int (sint w) \<noteq> [48]" using False dec_int_0 by (metis dec_int_inj)
  from string2ll_eq [OF dec_int_neq_Nil this]
  have "string2ll (dec_int (sint w)) = Some (if neg then - word_of_nat n else word_of_nat n)"
    using n lt can canonical_no_sign [OF can] unfolding s by (cases neg) (simp_all add: Let_def)
  then show ?thesis using w by simp
qed

lemma string2ll_iff: "string2ll s = Some w \<longleftrightarrow> s = dec_int (sint w)"
  using string2ll_Some string2ll_dec_int by blast

lemma string2l_eq: "string2l s = string2ll s"
proof (cases "string2ll s")
  case (Some w)
  have "- (2 ^ 63) \<le> sint w" "sint w < 2 ^ 63" using sint_ge [of w] sint_lt [of w] by simp_all
  with Some show ?thesis by (simp add: string2l_def)
qed (simp add: string2l_def)

section \<open>memtoll reads a number with a unit\<close>

lemma takeWhile_digits [simp]: "takeWhile is_digit (dec_nat n @ u) = dec_nat n @ takeWhile is_digit u"
  and dropWhile_digits [simp]: "dropWhile is_digit (dec_nat n @ u) = dropWhile is_digit u"
  using dec_nat_digits by (simp_all add: takeWhile_append2 dropWhile_append2)

lemma hd_dec_nat_no_sign: "hd (dec_nat n @ u) \<noteq> byte_of CHR ''-''"
proof -
  have "is_digit (hd (dec_nat n))" by (rule dec_nat_digits [of _ n]) simp
  then show ?thesis by (auto simp: is_digit_def)
qed

lemma strtoll10_dec_nat:
  "strtoll10 (dec_nat n) = (min (int n) (2 ^ 63 - 1), [])"
proof -
  have tw: "takeWhile is_digit (dec_nat n) = dec_nat n" and dw: "dropWhile is_digit (dec_nat n) = []"
    using takeWhile_digits [of n "[]"] dropWhile_digits [of n "[]"] by simp_all
  show ?thesis
    using hd_dec_nat_no_sign [of n "[]"] unfolding strtoll10_def Let_def
    by (simp only: append_Nil2 simp_thms if_False tw dw) simp
qed

lemma memtoll_dec_nat:
  assumes "memtoll_unit u = Some mul" and "takeWhile is_digit u = []" and "length (dec_nat n) < 128"
  shows "memtoll (dec_nat n @ u) =
    (let v = min (int n) (2 ^ 63 - 1) * mul
     in if - (2 ^ 63) \<le> v \<and> v < 2 ^ 63 then Inr (Some v) else Inl SignedOverflow)"
proof -
  have "dropWhile is_digit u = u" using assms(2) by (cases u) (auto split: if_splits)
  then show ?thesis
    using assms hd_dec_nat_no_sign [of n u]
    by (simp add: memtoll_def Let_def strtoll10_dec_nat)
qed

section \<open>Properties\<close>

text \<open>
  C16: \<open>string2ll\<close> accepts exactly the canonical decimal numerals of the 64-bit
  signed integers (no leading zeros, no \<open>-0\<close>, no sign but \<open>-\<close>, nothing out
  of range), and returns the integer the numeral denotes.
\<close>

theorem string2ll_exact: "string2ll s = Some w \<longleftrightarrow> s = dec_int (sint w)"
  by (rule string2ll_iff)

text \<open>
  C17: for every 64-bit value, \<open>LLONG_MIN\<close> included, and every buffer that is
  large enough, \<open>ll2string\<close> writes the canonical numeral and a terminator at
  the front of the buffer, leaves the rest of it alone, returns the numeral's
  length, and \<open>string2ll\<close> reads the value back.
\<close>

theorem ll2string_roundtrip:
  assumes "length (dec_int (sint v)) < dstlen" and "dstlen \<le> length dst"
    and "ll2string dst dstlen v = (n, dst')"
  shows "take n dst' = dec_int (sint v) \<and> dst' ! n = 0 \<and> drop (Suc n) dst' = drop (Suc n) dst \<and>
    length dst' = length dst \<and> string2ll (take n dst') = Some v"
proof -
  have "n = length (dec_int (sint v))" "dst' = dec_int (sint v) @ 0 # drop (Suc n) dst"
    using assms(3) ll2string_fits [OF assms(1,2)] by (auto simp: poke_def)
  then show ?thesis using assms(1,2) string2ll_dec_int [of v] by simp
qed

theorem ll2string_roundtrip_witness:
  "\<exists>n dst'. ll2string (replicate 4 7) 4 (- 45) = (n, dst') \<and> take n dst' = bytes_of ''-45'' \<and>
     string2ll (take n dst') = Some (- 45)"
proof -
  have d: "dec_int (sint (- 45 :: u64)) = bytes_of ''-45''"
    by (simp add: dec_int_def dec_nat.simps digit_def)
  obtain n dst' where r: "ll2string (replicate 4 7) 4 (- 45) = (n, dst')" by force
  have "take n dst' = dec_int (sint (- 45 :: u64)) \<and> dst' ! n = 0 \<and>
      drop (Suc n) dst' = drop (Suc n) (replicate 4 7) \<and>
      length dst' = length (replicate 4 (7 :: u8)) \<and> string2ll (take n dst') = Some (- 45)"
    by (rule ll2string_roundtrip [OF _ _ r], unfold d) simp_all
  with r d show ?thesis by auto
qed

text \<open>
  A buffer that is too small is left unchanged, and 0 is returned; the
  bound is the numeral's length, the terminator included.
\<close>

theorem ll2string_too_small:
  assumes "dstlen \<le> length (dec_int (sint v))"
  shows "ll2string dst dstlen v = (0, dst)"
  using assms by (rule ll2string_short)

theorem ll2string_too_small_witness: "ll2string [1, 2] 2 10 = (0, [1, 2])"
  by (rule ll2string_too_small) (simp add: dec_int_def dec_nat.simps)

text \<open>
  \<open>memtoll\<close> multiplies the number by its unit; a number past \<open>LLONG_MAX\<close>
  is read as \<open>LLONG_MAX\<close> without an error, and a product out of range is
  signed overflow, undefined in C: neither reaches the documented error flag.
\<close>

theorem memtoll_units:
  assumes "memtoll_unit u = Some mul" and "takeWhile is_digit u = []" and "length (dec_nat n) < 128"
  shows "memtoll (dec_nat n @ u) =
    (let v = min (int n) (2 ^ 63 - 1) * mul
     in if - (2 ^ 63) \<le> v \<and> v < 2 ^ 63 then Inr (Some v) else Inl SignedOverflow)"
  using assms by (rule memtoll_dec_nat)

theorem memtoll_units_witness:
  "memtoll (dec_nat 1 @ bytes_of ''Gb'') = Inr (Some 1073741824)"
proof -
  have "memtoll_unit (bytes_of ''Gb'') = Some (1024 * 1024 * 1024)"
    by (simp add: memtoll_unit_def strcaseeq_def tolower8_def)
  from memtoll_units [OF this, of 1] show ?thesis
    by (simp add: is_digit_def dec_nat.simps Let_def)
qed

section \<open>Integers given as strings\<close>

text \<open>
  \<open>strtoll\<close> to base 10, with a test of what follows the number; the value for
  the empty string is 0.
\<close>

definition getLongLongFromObject :: "u8 list \<Rightarrow> int option" where
  "getLongLongFromObject s =
     (let t = cstr s in
      if t = [] then Some 0
      else if isspace (hd t) then None
      else
        let negative = (hd t = byte_of CHR ''-'');
            ds = (if negative \<or> hd t = byte_of CHR ''+'' then tl t else t);
            v = int (dec_val 0 ds);
            v = (if negative then - v else v)
        in if ds = [] \<or> \<not> list_all is_digit ds then None
           else if - (2 ^ 63) \<le> v \<and> v < 2 ^ 63 then Some v else None)"

end
