(* ===== verification/Glob.thy ===== *)
theory Glob
  imports Prelude
begin

text \<open>
  Glob-style matching: \<open>stringmatchlen\<close> and \<open>stringmatch\<close> of \<open>util.c\<close>.
  \<open>pm\<close> and \<open>sm\<close> are the memory the two pointers point into, \<open>p\<close> and \<open>s\<close>
  the positions of the pointers, \<open>pl\<close> and \<open>sl\<close> the two remaining lengths
  (signed in the code, and the class case can make both negative).  Every
  read and every pointer increment is checked, so a run of the code outside
  its buffers is the value \<open>Inl OutOfBounds\<close>.
\<close>

text \<open>\<open>tolower\<close> of the C locale, on \<open>int\<close>; a \<open>char\<close> is signed.\<close>

definition tolower :: "int \<Rightarrow> int" where
  "tolower c = (if 65 \<le> c \<and> c \<le> 90 then c + 32 else c)"

definition byte_eq :: "bool \<Rightarrow> u8 \<Rightarrow> u8 \<Rightarrow> bool" where
  "byte_eq nocase a b = (if \<not> nocase then a = b else tolower (sint a) = tolower (sint b))"

section \<open>The matcher\<close>

text \<open>\<open>while (pattern[1] == '*') { pattern++; patternLen--; }\<close>\<close>

function skip_stars :: "u8 list \<Rightarrow> nat \<Rightarrow> int \<Rightarrow> (nat \<times> int) res" where
  "skip_stars pm p pl =
     rbind (rd pm (p + 1)) (\<lambda>c.
       if c = byte_of CHR ''*'' then skip_stars pm (p + 1) (pl - 1) else Inr (p, pl))"
  by pat_completeness auto
termination
  by (relation "measure (\<lambda>(pm, p, pl). length pm - p)") (auto simp: rd_Inr_iff)

text \<open>\<open>while (*pattern == '*') { pattern++; patternLen--; }\<close>\<close>

function trail_stars :: "u8 list \<Rightarrow> nat \<Rightarrow> int \<Rightarrow> int res" where
  "trail_stars pm p pl =
     rbind (rd pm p) (\<lambda>c.
       if c = byte_of CHR ''*'' then trail_stars pm (p + 1) (pl - 1) else Inr pl)"
  by pat_completeness auto
termination
  by (relation "measure (\<lambda>(pm, p, pl). length pm - p)") (auto simp: rd_Inr_iff)

text \<open>The \<open>while (1)\<close> loop over a class, entered after \<open>[\<close> and \<open>^\<close>.\<close>

function match_class ::
  "u8 list \<Rightarrow> u8 list \<Rightarrow> bool \<Rightarrow> nat \<Rightarrow> nat \<Rightarrow> int \<Rightarrow> bool \<Rightarrow> (nat \<times> int \<times> bool) res" where
  "match_class pm sm nocase s p pl m =
     rbind (rd pm p) (\<lambda>c.
       if c = byte_of CHR 0x5C then
         rbind (inc pm p) (\<lambda>p.
         rbind (rd pm p) (\<lambda>c.
         rbind (rd sm s) (\<lambda>sc.
           match_class pm sm nocase s (p + 1) (pl - 2) (m \<or> c = sc))))
       else if c = byte_of CHR '']'' then Inr (p, pl, m)
       else if pl = 0 then Inr (p - 1, pl + 1, m)
       else
         rbind (rd pm (p + 1)) (\<lambda>c1.
           if c1 = byte_of CHR ''-'' \<and> pl \<ge> 3 then
             rbind (rd pm (p + 2)) (\<lambda>c2.
             rbind (rd sm s) (\<lambda>sc.
               let start = min (sint c) (sint c2);
                   end' = max (sint c) (sint c2);
                   start = (if nocase then tolower start else start);
                   end' = (if nocase then tolower end' else end');
                   ch = (if nocase then tolower (sint sc) else sint sc)
               in match_class pm sm nocase s (p + 3) (pl - 3) (m \<or> (start \<le> ch \<and> ch \<le> end'))))
           else
             rbind (rd sm s) (\<lambda>sc.
               match_class pm sm nocase s (p + 1) (pl - 1) (m \<or> byte_eq nocase c sc))))"
  by pat_completeness auto
termination
  by (relation "measure (\<lambda>(pm, sm, nocase, s, p, pl, m). length pm - p)")
    (auto simp: rd_Inr_iff inc_Inr_iff)

declare skip_stars.simps [simp del] trail_stars.simps [simp del] match_class.simps [simp del]

lemma skip_stars_ge: "skip_stars pm p pl = Inr (p', pl') \<Longrightarrow> p \<le> p' \<and> p' < length pm"
proof (induction "length pm - p" arbitrary: p pl rule: less_induct)
  case less
  have IH: "q \<le> p' \<and> p' < length pm"
    if "skip_stars pm q k = Inr (p', pl')" and "p < q" and "p < length pm" for q k
    using less.hyps [of q k] that by simp
  show ?case using less.prems
    by (subst (asm) skip_stars.simps) (auto simp: rd_Inr_iff split: if_splits dest!: IH)
qed

lemma match_class_ge: "match_class pm sm nocase s p pl m = Inr (p', pl', m') \<Longrightarrow> p \<le> Suc p'"
proof (induction "length pm - p" arbitrary: nocase p pl m rule: less_induct)
  case less
  have IH: "q \<le> Suc p'"
    if "match_class pm sm nc s q k b = Inr (p', pl', m')" and "p < q" and "p < length pm" for nc q k b
    using less.hyps [of q nc k b] that by simp
  show ?case using less.prems
    by (subst (asm) match_class.simps)
      (auto simp: rd_Inr_iff inc_Inr_iff Let_def split: if_splits dest!: IH)
qed

text \<open>
  The outer loop.  \<open>glob\<close> is one test of the loop condition with the rest of
  the function, \<open>glob_star\<close> the loop over the string after a star, and
  \<open>glob_next\<close> the two increments and the end-of-string test that every
  other case runs at the bottom of the loop body.
\<close>

function (sequential)
  glob :: "u8 list \<Rightarrow> u8 list \<Rightarrow> bool \<Rightarrow> nat \<Rightarrow> int \<Rightarrow> nat \<Rightarrow> int \<Rightarrow> bool res"
  and glob_star :: "u8 list \<Rightarrow> u8 list \<Rightarrow> bool \<Rightarrow> nat \<Rightarrow> int \<Rightarrow> nat \<Rightarrow> int \<Rightarrow> bool res"
  and glob_next :: "u8 list \<Rightarrow> u8 list \<Rightarrow> bool \<Rightarrow> nat \<Rightarrow> int \<Rightarrow> nat \<Rightarrow> int \<Rightarrow> bool res"
where
  "glob pm sm nocase p pl s sl =
     (if pl = 0 then Inr (pl = 0 \<and> sl = 0)
      else rbind (rd pm p) (\<lambda>c.
        if c = byte_of CHR ''*'' then
          rbind (skip_stars pm p pl) (\<lambda>(p, pl).
            if pl = 1 then Inr True else glob_star pm sm nocase p pl s sl)
        else if c = byte_of CHR ''?'' then
          (if sl = 0 then Inr False
           else rbind (inc sm s) (\<lambda>s. glob_next pm sm nocase p pl s (sl - 1)))
        else if c = byte_of CHR ''['' then
          rbind (inc pm p) (\<lambda>q.
          rbind (rd pm q) (\<lambda>c.
            let neg = (c = byte_of CHR ''^'')
            in rbind (if neg then inc pm q else Inr q) (\<lambda>q.
               rbind (match_class pm sm nocase s q (if neg then pl - 2 else pl - 1) False) (\<lambda>(q, pl, m).
                 if (if neg then \<not> m else m) = False then Inr False
                 else rbind (inc sm s) (\<lambda>s. glob_next pm sm nocase q pl s (sl - 1))))))
        else
          rbind (if c = byte_of CHR 0x5C \<and> pl \<ge> 2 then inc pm p else Inr p) (\<lambda>q.
          rbind (rd pm q) (\<lambda>d.
          rbind (rd sm s) (\<lambda>sc.
            if \<not> byte_eq nocase d sc then Inr False
            else rbind (inc sm s) (\<lambda>s.
              glob_next pm sm nocase q (if c = byte_of CHR 0x5C \<and> pl \<ge> 2 then pl - 1 else pl)
                s (sl - 1)))))))"
| "glob_star pm sm nocase p pl s sl =
     (if sl = 0 then Inr False
      else rbind (inc pm p) (\<lambda>q.
           rbind (glob pm sm nocase q (pl - 1) s sl) (\<lambda>m.
             if m then Inr True
             else rbind (inc sm s) (\<lambda>s. glob_star pm sm nocase p pl s (sl - 1)))))"
| "glob_next pm sm nocase p pl s sl =
     rbind (inc pm p) (\<lambda>q.
       if sl = 0 then rbind (trail_stars pm q (pl - 1)) (\<lambda>pl. Inr (pl = 0 \<and> sl = 0))
       else glob pm sm nocase q (pl - 1) s sl)"
  by pat_completeness auto
termination
  by (relation "measures
      [\<lambda>x. case x of
         Inl (pm, sm, nc, p, pl, s, sl) \<Rightarrow> length pm - p
       | Inr (Inl (pm, sm, nc, p, pl, s, sl)) \<Rightarrow> length pm - p
       | Inr (Inr (pm, sm, nc, p, pl, s, sl)) \<Rightarrow> length pm - p,
       \<lambda>x. case x of
         Inl (pm, sm, nc, p, pl, s, sl) \<Rightarrow> Suc (Suc (length sm - s))
       | Inr (Inl (pm, sm, nc, p, pl, s, sl)) \<Rightarrow> Suc (length sm - s)
       | Inr (Inr (pm, sm, nc, p, pl, s, sl)) \<Rightarrow> 0]")
    (auto simp: rd_Inr_iff inc_Inr_iff split: if_splits dest!: skip_stars_ge match_class_ge)

declare glob.simps [simp del] glob_star.simps [simp del] glob_next.simps [simp del]

definition stringmatchlen :: "u8 list \<Rightarrow> int \<Rightarrow> u8 list \<Rightarrow> int \<Rightarrow> bool \<Rightarrow> bool res" where
  "stringmatchlen pm patternLen sm stringLen nocase = glob pm sm nocase 0 patternLen 0 stringLen"

text \<open>
  The entry for C strings: their lengths are converted to \<open>int\<close>, and what lies
  behind the terminators is outside of the buffers.
\<close>

definition stringmatch :: "u8 list \<Rightarrow> u8 list \<Rightarrow> bool \<Rightarrow> bool res" where
  "stringmatch pattern string nocase =
     stringmatchlen (cstr pattern @ [0]) (int_of_size (length (cstr pattern)))
       (cstr string @ [0]) (int_of_size (length (cstr string))) nocase"

lemma cstr_length: "length (cstr s) \<le> length s"
  by (simp add: cstr_def length_takeWhile_le)

lemma cstr_id: "0 \<notin> set s \<Longrightarrow> cstr s = s"
  unfolding cstr_def by (rule takeWhile_eq_all_conv [THEN iffD2]) auto

section \<open>The specification: tokens and what they match\<close>

text \<open>
  A pattern without classes is a list of tokens; a backslash takes the next
  byte literally, and stands for itself at the end of the pattern.
\<close>

datatype gtoken = GStar | GAny | GLit u8

fun gtokens :: "u8 list \<Rightarrow> gtoken list" where
  "gtokens [] = []"
| "gtokens (c # cs) =
     (if c = byte_of CHR ''*'' then GStar # gtokens cs
      else if c = byte_of CHR ''?'' then GAny # gtokens cs
      else case cs of
        [] \<Rightarrow> [GLit c]
      | d # ds \<Rightarrow> if c = byte_of CHR 0x5C then GLit d # gtokens ds else GLit c # gtokens cs)"

text \<open>A star matches any prefix, \<open>?\<close> any one byte, a literal one equal byte.\<close>

fun gmatch :: "bool \<Rightarrow> gtoken list \<Rightarrow> u8 list \<Rightarrow> bool" where
  "gmatch nc [] s = (s = [])"
| "gmatch nc (GStar # ts) s = (gmatch nc ts s \<or> (case s of [] \<Rightarrow> False | _ # s' \<Rightarrow> gmatch nc (GStar # ts) s'))"
| "gmatch nc (GAny # ts) s = (case s of [] \<Rightarrow> False | _ # s' \<Rightarrow> gmatch nc ts s')"
| "gmatch nc (GLit d # ts) s =
     (case s of [] \<Rightarrow> False | c # s' \<Rightarrow> byte_eq nc d c \<and> gmatch nc ts s')"

lemma gmatch_star: "gmatch nc (GStar # ts) s \<longleftrightarrow> (\<exists>k \<le> length s. gmatch nc ts (drop k s))"
proof (induction s)
  case (Cons c s)
  have "(\<exists>k \<le> length (c # s). gmatch nc ts (drop k (c # s))) \<longleftrightarrow>
        gmatch nc ts (c # s) \<or> (\<exists>k \<le> length s. gmatch nc ts (drop k s))" (is "?L \<longleftrightarrow> ?R")
  proof
    assume ?L
    then obtain k where "k \<le> length (c # s)" "gmatch nc ts (drop k (c # s))" by blast
    then show ?R by (cases k) auto
  next
    assume ?R
    then show ?L
    proof
      assume "gmatch nc ts (c # s)"
      then show ?L by (intro exI [of _ 0]) simp
    next
      assume "\<exists>k \<le> length s. gmatch nc ts (drop k s)"
      then obtain k where "k \<le> length s" "gmatch nc ts (drop k s)" by blast
      then show ?L by (intro exI [of _ "Suc k"]) simp
    qed
  qed
  then show ?case using Cons.IH by simp
qed simp

lemma gmatch_star_star [simp]: "gmatch nc (GStar # GStar # ts) s = gmatch nc (GStar # ts) s"
  by (induction s) auto

lemma gmatch_star_Nil [simp]: "gmatch nc (GStar # ts) [] = gmatch nc ts []"
  by simp

declare gmatch.simps(2) [simp del]

abbreviation star_run :: "u8 list \<Rightarrow> nat" where
  "star_run cs \<equiv> length (takeWhile (\<lambda>c. c = byte_of CHR ''*'') cs)"

lemma gmatch_stars:
  "gmatch nc (GStar # gtokens cs) s = gmatch nc (GStar # gtokens (drop (star_run cs) cs)) s"
proof (induction cs)
  case (Cons c cs)
  then show ?case by (cases "c = byte_of CHR ''*''") simp_all
qed simp

lemma gmatch_Nil: "gmatch nc (gtokens cs) [] \<longleftrightarrow> star_run cs = length cs"
  by (induction cs) (auto split: list.splits simp: le_Suc_eq)

lemma byte_eq_nul: "byte_eq nc d 0 \<longleftrightarrow> d = 0"
proof -
  have "sint d = 0 \<longleftrightarrow> d = 0" by (metis sint_0 sint_eqI)
  then show ?thesis by (auto simp: byte_eq_def tolower_def)
qed

section \<open>The loops over stars\<close>

lemma trail_stars_eq:
  "p \<le> length pat \<Longrightarrow> trail_stars (pat @ [0]) p pl = Inr (pl - int (star_run (drop p pat)))"
proof (induction "length pat - p" arbitrary: p pl)
  case 0
  then show ?case by (simp add: trail_stars.simps [of _ p] rd_def nth_append)
next
  case (Suc k)
  then have p: "p < length pat" and IH: "trail_stars (pat @ [0]) (Suc p) (pl - 1) =
      Inr (pl - 1 - int (star_run (drop (Suc p) pat)))"
    by simp_all
  then show ?case
    by (simp add: trail_stars.simps [of _ p] rd_def nth_append flip: Cons_nth_drop_Suc [OF p])
qed

lemma skip_stars_eq:
  "p < length pat \<Longrightarrow> skip_stars (pat @ [0]) p pl =
     (let n = star_run (drop (Suc p) pat) in Inr (p + n, pl - int n))"
proof (induction "length pat - p" arbitrary: p pl)
  case (Suc k)
  show ?case
  proof (cases "Suc p < length pat")
    case True
    have IH: "skip_stars (pat @ [0]) (Suc p) (pl - 1) =
        (let n = star_run (drop (Suc (Suc p)) pat) in Inr (Suc p + n, pl - 1 - int n))"
      using Suc True by (intro Suc.hyps(1)) simp_all
    show ?thesis
      using True IH
      by (simp add: skip_stars.simps [of _ p] rd_def nth_append Let_def
          flip: Cons_nth_drop_Suc [OF True])
  next
    case False
    then have "Suc p = length pat" using Suc by simp
    then show ?thesis by (simp add: skip_stars.simps [of _ p] rd_def nth_append)
  qed
qed simp

section \<open>The matcher computes the specification\<close>

text \<open>What \<open>glob\<close> returns from position \<open>p\<close> of the pattern on, at every position of the string.\<close>

definition glob_ok :: "bool \<Rightarrow> u8 list \<Rightarrow> u8 list \<Rightarrow> nat \<Rightarrow> bool" where
  "glob_ok nc pat str p \<longleftrightarrow>
     (\<forall>s \<le> length str.
        glob (pat @ [0]) (str @ [0]) nc p (int (length pat - p)) s (int (length str - s)) =
        Inr (gmatch nc (gtokens (drop p pat)) (drop s str)))"

lemma glob_next_ok:
  assumes "p < length pat" and "s \<le> length str" and "glob_ok nc pat str (Suc p)"
  shows "glob_next (pat @ [0]) (str @ [0]) nc p (int (length pat - p)) s (int (length str - s)) =
    Inr (gmatch nc (gtokens (drop (Suc p) pat)) (drop s str))"
proof -
  have pl: "int (length pat - p) - 1 = int (length pat - Suc p)" using assms(1) by simp
  show ?thesis
  proof (cases "s = length str")
    case True
    have "star_run (drop (Suc p) pat) \<le> length pat - Suc p"
      using length_takeWhile_le [of _ "drop (Suc p) pat"] by simp
    then show ?thesis using assms(1) True
      by (auto simp: glob_next.simps [of _ _ _ p] inc_def pl trail_stars_eq gmatch_Nil
          simp del: of_nat_diff)
  next
    case False
    then show ?thesis using assms
      by (simp add: glob_next.simps [of _ _ _ p] inc_def pl glob_ok_def del: of_nat_diff)
  qed
qed

lemma glob_star_ok:
  assumes "p < length pat" and "glob_ok nc pat str (Suc p)"
    and "\<not> gmatch nc (gtokens (drop (Suc p) pat)) []"
  shows "s \<le> length str \<Longrightarrow>
    glob_star (pat @ [0]) (str @ [0]) nc p (int (length pat - p)) s (int (length str - s)) =
    Inr (gmatch nc (GStar # gtokens (drop (Suc p) pat)) (drop s str))"
proof (induction "length str - s" arbitrary: s)
  case 0
  then show ?case using assms(3) by (simp add: glob_star.simps)
next
  case (Suc k)
  then have s: "s < length str" by simp
  have pl: "int (length pat - p) - 1 = int (length pat - Suc p)"
    and sl: "int (length str - s) - 1 = int (length str - Suc s)" using assms(1) s by simp_all
  have "glob (pat @ [0]) (str @ [0]) nc (Suc p) (int (length pat - Suc p)) s (int (length str - s)) =
      Inr (gmatch nc (gtokens (drop (Suc p) pat)) (drop s str))"
    using assms(2) Suc.prems by (simp add: glob_ok_def)
  moreover have "glob_star (pat @ [0]) (str @ [0]) nc p (int (length pat - p)) (Suc s)
      (int (length str - Suc s)) =
      Inr (gmatch nc (GStar # gtokens (drop (Suc p) pat)) (drop (Suc s) str))"
    using Suc s by (intro Suc.hyps(1)) simp_all
  moreover have "gmatch nc (GStar # gtokens (drop (Suc p) pat)) (drop s str) \<longleftrightarrow>
      gmatch nc (gtokens (drop (Suc p) pat)) (drop s str) \<or>
      gmatch nc (GStar # gtokens (drop (Suc p) pat)) (drop (Suc s) str)"
    by (subst gmatch.simps(2)) (simp flip: Cons_nth_drop_Suc [OF s])
  ultimately show ?case
    using s assms(1)
    by (simp add: glob_star.simps [of _ _ _ p _ s] inc_def pl sl del: of_nat_diff)
qed

text \<open>One case of the loop body for each kind of byte the pattern can show.\<close>

lemma glob_ok_star:
  assumes "p < length pat" and "pat ! p = byte_of CHR ''*''"
    and "\<And>q. p < q \<Longrightarrow> q \<le> length pat \<Longrightarrow> glob_ok nc pat str q"
  shows "glob_ok nc pat str p"
  unfolding glob_ok_def
proof (intro allI impI)
  fix s assume s: "s \<le> length str"
  define n where "n = star_run (drop (Suc p) pat)"
  have n: "p + n < length pat"
    using assms(1) length_takeWhile_le [of "\<lambda>c. c = byte_of CHR ''*''" "drop (Suc p) pat"]
    by (simp add: n_def)
  have toks: "gtokens (drop p pat) = GStar # gtokens (drop (Suc p) pat)"
    using assms(2) by (simp flip: Cons_nth_drop_Suc [OF assms(1)])
  have m: "gmatch nc (gtokens (drop p pat)) (drop s str) =
      gmatch nc (GStar # gtokens (drop (Suc (p + n)) pat)) (drop s str)"
    unfolding toks n_def by (subst gmatch_stars) (simp add: add.commute)
  have pl: "int (length pat - p) - int n = int (length pat - (p + n))" using n by simp
  have sk: "skip_stars (pat @ [0]) p (int (length pat - p)) =
      Inr (p + n, int (length pat - (p + n)))"
    using skip_stars_eq [OF assms(1), folded n_def, of "int (length pat - p)"]
    unfolding Let_def pl .
  have unf: "glob (pat @ [0]) (str @ [0]) nc p (int (length pat - p)) s (int (length str - s)) =
      (if int (length pat - (p + n)) = 1 then Inr True
       else glob_star (pat @ [0]) (str @ [0]) nc (p + n) (int (length pat - (p + n))) s
         (int (length str - s)))"
    using assms(1,2)
    by (simp add: glob.simps [of _ _ _ p] rd_def nth_append sk del: of_nat_diff)
  show "glob (pat @ [0]) (str @ [0]) nc p (int (length pat - p)) s (int (length str - s)) =
      Inr (gmatch nc (gtokens (drop p pat)) (drop s str))"
  proof (cases "Suc (p + n) = length pat")
    case True
    have "gmatch nc [GStar] (drop s str)" 
      by (subst gmatch_star, rule exI [of _ "length (drop s str)"]) simp
    then show ?thesis using True unf m by simp
  next
    case False
    then have lt: "Suc (p + n) < length pat" using n by simp
    have "pat ! Suc (p + n) \<noteq> byte_of CHR ''*''"
      using nth_length_takeWhile [of "\<lambda>c. c = byte_of CHR ''*''" "drop (Suc p) pat"] lt
      by (simp add: n_def)
    then have "star_run (drop (Suc (p + n)) pat) = 0"
      by (simp flip: Cons_nth_drop_Suc [OF lt])
    then have "\<not> gmatch nc (gtokens (drop (Suc (p + n)) pat)) []"
      using lt by (subst gmatch_Nil) simp
    then have "glob_star (pat @ [0]) (str @ [0]) nc (p + n) (int (length pat - (p + n))) s
        (int (length str - s)) = Inr (gmatch nc (GStar # gtokens (drop (Suc (p + n)) pat)) (drop s str))"
      using n s assms(3) by (intro glob_star_ok) simp_all
    then show ?thesis using lt unf m by simp
  qed
qed

lemma glob_ok_any:
  assumes "p < length pat" and "pat ! p = byte_of CHR ''?''" and "glob_ok nc pat str (Suc p)"
  shows "glob_ok nc pat str p"
  unfolding glob_ok_def
proof (intro allI impI)
  fix s assume s: "s \<le> length str"
  have toks: "gtokens (drop p pat) = GAny # gtokens (drop (Suc p) pat)"
    using assms(2) by (simp flip: Cons_nth_drop_Suc [OF assms(1)])
  show "glob (pat @ [0]) (str @ [0]) nc p (int (length pat - p)) s (int (length str - s)) =
      Inr (gmatch nc (gtokens (drop p pat)) (drop s str))"
  proof (cases "s = length str")
    case True
    then show ?thesis using assms(1,2) toks by (simp add: glob.simps rd_def nth_append)
  next
    case False
    then have lt: "s < length str" using s by simp
    then have sl: "int (length str - s) - 1 = int (length str - Suc s)" by simp
    show ?thesis
      using assms(1,2) toks glob_next_ok [OF assms(1) _ assms(3), of "Suc s"] lt
      by (simp add: glob.simps [of _ _ _ p] rd_def inc_def nth_append sl del: of_nat_diff
          flip: Cons_nth_drop_Suc)
  qed
qed

text \<open>Any other byte is a literal; a backslash that is not last takes the byte after it.\<close>

lemma glob_ok_lit:
  assumes p: "p < length pat" and c: "pat ! p \<noteq> byte_of CHR ''*''" "pat ! p \<noteq> byte_of CHR ''?''"
      "pat ! p \<noteq> byte_of CHR ''[''" and nul: "0 \<notin> set pat"
    and ok: "\<And>q. p < q \<Longrightarrow> q \<le> length pat \<Longrightarrow> glob_ok nc pat str q"
  shows "glob_ok nc pat str p"
  unfolding glob_ok_def
proof (intro allI impI)
  fix s assume s: "s \<le> length str"
  define esc where "esc = (pat ! p = byte_of CHR 0x5C \<and> Suc p < length pat)"
  define q where "q = (if esc then Suc p else p)"
  have q: "q < length pat" "p \<le> q" using p by (auto simp: q_def esc_def)
  have qn: "pat ! q \<noteq> 0" using q nul by (metis nth_mem)
  have toks: "gtokens (drop p pat) = GLit (pat ! q) # gtokens (drop (Suc q) pat)"
  proof (cases "Suc p < length pat")
    case True
    then show ?thesis using c p
      by (simp add: q_def esc_def flip: Cons_nth_drop_Suc)
  next
    case False
    then show ?thesis using c p
      by (simp add: q_def esc_def flip: Cons_nth_drop_Suc [OF p])
  qed
  have e: "pat ! p = byte_of CHR 0x5C \<and> 2 \<le> int (length pat - p) \<longleftrightarrow> esc"
    using p by (auto simp: esc_def)
  have pl: "(if esc then int (length pat - p) - 1 else int (length pat - p)) = int (length pat - q)"
    using q by (simp add: q_def)
  have unf: "glob (pat @ [0]) (str @ [0]) nc p (int (length pat - p)) s (int (length str - s)) =
      (if \<not> byte_eq nc (pat ! q) ((str @ [0]) ! s) then Inr False
       else glob_next (pat @ [0]) (str @ [0]) nc q (int (length pat - q)) (Suc s)
              (int (length str - s) - 1))"
  proof -
    have pl0: "int (length pat - p) \<noteq> 0" using p by simp
    have r: "rd (pat @ [0]) p = Inr (pat ! p)" "rd (pat @ [0]) q = Inr (pat ! q)"
      "rd (str @ [0]) s = Inr ((str @ [0]) ! s)" "inc (str @ [0]) s = Inr (Suc s)"
      "(if esc then inc (pat @ [0]) p else Inr p) = Inr q"
      using p q s by (simp_all add: rd_def inc_def nth_append q_def)
    show ?thesis
      unfolding glob.simps [of _ _ _ p] r rbind_simps e pl
      by (simp only: c pl0 if_False r rbind_simps)
  qed
  show "glob (pat @ [0]) (str @ [0]) nc p (int (length pat - p)) s (int (length str - s)) =
      Inr (gmatch nc (gtokens (drop p pat)) (drop s str))"
  proof (cases "s = length str")
    case True
    then show ?thesis using unf toks qn by (simp add: byte_eq_nul)
  next
    case False
    then have lt: "s < length str" using s by simp
    then have sl: "int (length str - s) - 1 = int (length str - Suc s)" by simp
    show ?thesis
      using unf toks lt q ok [of "Suc q"] glob_next_ok [OF q(1), of "Suc s" str nc]
      by (simp add: nth_append sl del: of_nat_diff flip: Cons_nth_drop_Suc)
  qed
qed

lemma glob_ok_all:
  assumes "0 \<notin> set pat" and "byte_of CHR ''['' \<notin> set pat"
  shows "p \<le> length pat \<Longrightarrow> glob_ok nc pat str p"
proof (induction "length pat - p" arbitrary: p rule: less_induct)
  case less
  show ?case
  proof (cases "p = length pat")
    case True
    then show ?thesis by (simp add: glob_ok_def glob.simps)
  next
    case False
    then have p: "p < length pat" using less.prems by simp
    have ok: "glob_ok nc pat str q" if "p < q" "q \<le> length pat" for q
      using less.hyps [of q] that p by simp
    have "pat ! p \<noteq> byte_of CHR ''[''" using assms(2) p by (metis nth_mem)
    then show ?thesis
      using glob_ok_star [OF p _ ok] glob_ok_any [OF p _ ok [of "Suc p"]]
        glob_ok_lit [OF p _ _ _ assms(1) ok] p
      by (metis Suc_leI lessI)
  qed
qed

lemma stringmatchlen_gmatch:
  assumes "0 \<notin> set pat" and "byte_of CHR ''['' \<notin> set pat"
  shows "stringmatchlen (pat @ [0]) (int (length pat)) (str @ [0]) (int (length str)) nc = Inr (gmatch nc (gtokens pat) str)"
  using glob_ok_all [OF assms, of 0 nc str, unfolded glob_ok_def, rule_format, of 0]
  by (simp add: stringmatchlen_def)

section \<open>Properties\<close>

text \<open>
  C18: on patterns without classes and without NUL bytes, with lengths that an
  \<open>int\<close> holds, the matcher of the code, with its pointer arithmetic, recursion
  and end-of-string handling, never leaves its buffers, always returns, and
  decides exactly the token semantics, for every string (of any bytes, where
  the length is given) and both case modes.
\<close>

theorem stringmatch_correct:
  assumes "0 \<notin> set pat" and "byte_of CHR ''['' \<notin> set pat" and "length pat < 2 ^ 31" and "length str < 2 ^ 31"
  shows "stringmatchlen (pat @ [0]) (int (length pat)) (str @ [0]) (int (length str)) nocase =
      Inr (gmatch nocase (gtokens pat) str) \<and>
    stringmatch pat str nocase = Inr (gmatch nocase (gtokens pat) (cstr str))"
proof -
  have "int_of_size (length (cstr str)) = int (length (cstr str))" "int_of_size (length pat) = int (length pat)"
    using assms(3,4) cstr_length [of str] by (simp_all add: int_of_size)
  then show ?thesis using stringmatchlen_gmatch [OF assms(1,2)] by (simp add: stringmatch_def cstr_id [OF assms(1)])
qed

theorem stringmatch_correct_witness:
  "stringmatch (bytes_of ''h?l*O'') (bytes_of ''hello'') True = Inr True"
proof -
  have "stringmatch (bytes_of ''h?l*O'') (bytes_of ''hello'') True =
      Inr (gmatch True (gtokens (bytes_of ''h?l*O'')) (cstr (bytes_of ''hello'')))"
    by (rule stringmatch_correct [THEN conjunct2]) simp_all
  then show ?thesis by (simp add: cstr_def gmatch.simps(2) byte_eq_def tolower_def)
qed

text \<open>
  With a NUL byte in the pattern, which \<open>KEYS\<close> and \<open>SCAN\<close> accept, the end of the
  string is taken for a byte that matches, and what follows it is read.
\<close>

lemma stringmatch_nul_overrun: "stringmatchlen [0, b, 0] 2 [0] 0 nocase = Inl OutOfBounds"
  if "b \<notin> {byte_of CHR ''*'', byte_of CHR ''?'', byte_of CHR ''['', byte_of CHR 0x5C}"
  using that
  by (simp add: stringmatchlen_def glob.simps [of _ _ _ 0] glob_next.simps [of _ _ _ 0] glob.simps [of _ _ _ "Suc 0"] rd_def inc_def byte_eq_def)

text \<open>
  A backslash as the last byte of an open class takes the matcher past
  the terminator of the pattern: a read outside the buffer.
\<close>

theorem stringmatch_open_class_overrun:
  "stringmatchlen [byte_of CHR ''['', byte_of CHR 0x5C, 0] 2 (a # str) n nocase = Inl OutOfBounds"
  by (simp add: stringmatchlen_def glob.simps [of _ _ _ 0] rd_def inc_def
      match_class.simps [of _ _ _ _ "Suc 0"] match_class.simps [of _ _ _ _ "Suc (Suc (Suc 0))"] Let_def)

text \<open>
  A negated class is tested against the terminator of an exhausted
  string, matches it, and moves the string pointer past the terminator: any
  literal after it is compared with a byte outside the string's buffer.
\<close>

theorem stringmatch_negated_class_overrun:
  assumes "a \<notin> {0, byte_of CHR 0x5C, byte_of CHR '']'', byte_of CHR ''-''}"
    and "b \<notin> {byte_of CHR ''*'', byte_of CHR ''?'', byte_of CHR ''['', byte_of CHR 0x5C}"
  shows "stringmatchlen [byte_of CHR ''['', byte_of CHR ''^'', a, byte_of CHR '']'', b, 0] 5 [0] 0 False = Inl OutOfBounds"
  using assms
  by (simp add: stringmatchlen_def glob.simps [of _ _ _ 0]
      glob.simps [of _ _ _ "Suc (Suc (Suc (Suc 0)))"] glob_next.simps [of _ _ _ "Suc (Suc (Suc 0))"] rd_def inc_def
      byte_eq_def match_class.simps [of _ _ _ _ "Suc (Suc 0)"]
      match_class.simps [of _ _ _ _ "Suc (Suc (Suc 0))"] Let_def)

theorem stringmatch_negated_class_overrun_witness:
  "stringmatchlen (bytes_of ''[^a]b'' @ [0]) 5 [0] 0 False = Inl OutOfBounds"
  using stringmatch_negated_class_overrun [of "byte_of CHR ''a''" "byte_of CHR ''b''"] by simp

end
