(* ===== verification/Interfaces.thy ===== *)
theory Interfaces
  imports Prelude
begin

text \<open>
  The interfaces between components, as locales: what a client may rely on,
  over the operations a provider has.  Each locale is interpreted on the
  model of every component that provides it, in that component's theory.
\<close>

section \<open>A set with answers\<close>

text \<open>
  The operations a set type offers its client: each returns the answer the C
  function gives and the new state, lookups included (a lookup in a hash
  table can move buckets).  \<open>ok\<close> is what the provider can store.
\<close>

datatype 'a set_op = SAdd 'a | SRem 'a | SMem 'a

fun set_arg :: "'a set_op \<Rightarrow> 'a" where
  "set_arg (SAdd x) = x"
| "set_arg (SRem x) = x"
| "set_arg (SMem x) = x"

text \<open>The same operations on a mathematical set.\<close>

fun set_step :: "'a set \<Rightarrow> 'a set_op \<Rightarrow> bool \<times> 'a set" where
  "set_step A (SAdd x) = (x \<notin> A, insert x A)"
| "set_step A (SRem x) = (x \<in> A, A - {x})"
| "set_step A (SMem x) = (x \<in> A, A)"

text \<open>Running a sequence of operations, collecting the answers.\<close>

fun run_ops :: "('s \<Rightarrow> 'op \<Rightarrow> 'r \<times> 's) \<Rightarrow> 's \<Rightarrow> 'op list \<Rightarrow> 'r list \<times> 's" where
  "run_ops step s [] = ([], s)"
| "run_ops step s (x # xs) =
     (let (r, s) = step s x; (rs, s) = run_ops step s xs in (r # rs, s))"

text \<open>Running operations that may fault.\<close>

fun run_res :: "('s \<Rightarrow> 'op \<Rightarrow> ('a \<times> 's) res) \<Rightarrow> 's \<Rightarrow> 'op list \<Rightarrow> ('a list \<times> 's) res" where
  "run_res step s [] = Inr ([], s)"
| "run_res step s (x # xs) =
     rbind (step s x) (\<lambda>(a, s). rbind (run_res step s xs) (\<lambda>(as, s). Inr (a # as, s)))"

text \<open>
  A provider stores a set of values that are \<open>ok\<close>; it has room for \<open>limit\<close>
  of them, as \<open>count\<close> counts them.
\<close>

locale set_impl =
  fixes invar :: "'s \<Rightarrow> bool"
    and elems :: "'s \<Rightarrow> 'a set"
    and count :: "'s \<Rightarrow> nat"
    and limit :: nat
    and ok :: "'a \<Rightarrow> bool"
    and step :: "'s \<Rightarrow> 'a set_op \<Rightarrow> (bool \<times> 's) res"
  assumes step_refines: "invar s \<Longrightarrow> count s < limit \<Longrightarrow> ok (set_arg x) \<Longrightarrow>
    \<exists>a s'. step s x = Inr (a, s') \<and> invar s' \<and>
      set_step (elems s) x = (a, elems s') \<and> count s' \<le> Suc (count s)"
begin

text \<open>Any sequence of operations answers as the mathematical set does.\<close>

lemma run_refines:
  "invar s \<Longrightarrow> \<forall>x \<in> set xs. ok (set_arg x) \<Longrightarrow> count s + length xs \<le> limit \<Longrightarrow>
   \<exists>as s'. run_res step s xs = Inr (as, s') \<and> invar s' \<and>
     run_ops set_step (elems s) xs = (as, elems s')"
proof (induction xs arbitrary: s)
  case (Cons x xs)
  obtain a s' where S: "step s x = Inr (a, s')" "invar s'"
    "set_step (elems s) x = (a, elems s')" "count s' \<le> Suc (count s)"
    using step_refines [OF Cons.prems(1), of x] Cons.prems(2,3) by auto
  then obtain as s'' where "run_res step s' xs = Inr (as, s'')" "invar s''"
    "run_ops set_step (elems s') xs = (as, elems s'')"
    using Cons.IH [of s'] Cons.prems(2,3) by auto
  then show ?case using S by simp
qed simp

end

section \<open>A map with answers\<close>

text \<open>
  The operations of a map: adding a new key, setting a key, deleting, looking
  up, and housekeeping of the provider (of its own type \<open>'t\<close>) that must not
  change the map.  The answers are whether the key was new (or, for a
  deletion, present) and the value found.
\<close>

datatype ('k, 'v, 't) map_op = MAdd 'k 'v | MReplace 'k 'v | MDel 'k | MGet 'k | MTidy 't

datatype 'v map_ans = Done bool | Got "'v option"

fun map_step :: "('k \<Rightarrow> 'v option) \<Rightarrow> ('k, 'v, 't) map_op \<Rightarrow> 'v map_ans \<times> ('k \<Rightarrow> 'v option)" where
  "map_step m (MAdd k v) = (Done (m k = None), if m k = None then m(k \<mapsto> v) else m)"
| "map_step m (MReplace k v) = (Done (m k = None), m(k \<mapsto> v))"
| "map_step m (MDel k) = (Done (m k \<noteq> None), m(k := None))"
| "map_step m (MGet k) = (Got (m k), m)"
| "map_step m (MTidy t) = (Done True, m)"

text \<open>
  A provider stores a map from key classes \<open>cls k\<close> to stored values \<open>sto v\<close>; it
  has room for \<open>limit\<close> keys, and \<open>ok\<close> says which housekeeping may be asked for.
\<close>

locale map_impl =
  fixes invar :: "'s \<Rightarrow> bool"
    and lookup :: "'s \<Rightarrow> 'c \<Rightarrow> 'v option"
    and count :: "'s \<Rightarrow> nat"
    and limit :: nat
    and ok :: "('k, 'v, 't) map_op \<Rightarrow> bool"
    and cls :: "'k \<Rightarrow> 'c"
    and sto :: "'v \<Rightarrow> 'v"
    and step :: "'s \<Rightarrow> ('k, 'v, 't) map_op \<Rightarrow> ('v map_ans \<times> 's) res"
  assumes step_refines: "invar s \<Longrightarrow> count s < limit \<Longrightarrow> ok x \<Longrightarrow>
    \<exists>a s'. step s x = Inr (a, s') \<and> invar s' \<and>
      map_step (lookup s) (map_map_op cls sto (\<lambda>t. t) x) = (a, lookup s') \<and> count s' \<le> Suc (count s)"
begin

lemma run_refines:
  "invar s \<Longrightarrow> \<forall>x \<in> set xs. ok x \<Longrightarrow> count s + length xs \<le> limit \<Longrightarrow>
   \<exists>as s'. run_res step s xs = Inr (as, s') \<and> invar s' \<and>
     run_ops map_step (lookup s) (map (map_map_op cls sto (\<lambda>t. t)) xs) = (as, lookup s')"
proof (induction xs arbitrary: s)
  case (Cons x xs)
  obtain a s' where S: "step s x = Inr (a, s')" "invar s'"
    "map_step (lookup s) (map_map_op cls sto (\<lambda>t. t) x) = (a, lookup s')" "count s' \<le> Suc (count s)"
    using step_refines [OF Cons.prems(1), of x] Cons.prems(2,3) by auto
  then obtain as s'' where "run_res step s' xs = Inr (as, s'')" "invar s''"
    "run_ops map_step (lookup s') (map (map_map_op cls sto (\<lambda>t. t)) xs) = (as, lookup s'')"
    using Cons.IH [of s'] Cons.prems(2,3) by auto
  then show ?case using S by simp
qed simp

end

section \<open>A state machine with an abstract view\<close>

text \<open>
  A step that may fault or not return simulates a step of a simpler state,
  where \<open>ok\<close> says which operations the client may ask for.
\<close>

fun run_part :: "('s \<Rightarrow> 'op \<Rightarrow> ('r \<times> 's) res option) \<Rightarrow> 's \<Rightarrow> 'op list \<Rightarrow> ('r list \<times> 's) res option" where
  "run_part step s [] = Some (Inr ([], s))"
| "run_part step s (x # xs) =
     tbind (step s x) (\<lambda>(r, s). tbind (run_part step s xs) (\<lambda>(rs, s). Some (Inr (r # rs, s))))"

fun run_allowed :: "('s \<Rightarrow> 'a \<Rightarrow> 'op \<Rightarrow> bool) \<Rightarrow> ('s \<Rightarrow> 'op \<Rightarrow> ('r \<times> 's) res option) \<Rightarrow> ('a \<Rightarrow> 'op \<Rightarrow> 'r \<times> 'a) \<Rightarrow>
  's \<Rightarrow> 'a \<Rightarrow> 'op list \<Rightarrow> bool" where
  "run_allowed ok step spec s a [] \<longleftrightarrow> True"
| "run_allowed ok step spec s a (x # xs) \<longleftrightarrow> ok s a x \<and>
     (case step s x of Some (Inr (r, s')) \<Rightarrow> run_allowed ok step spec s' (snd (spec a x)) xs | _ \<Rightarrow> True)"

locale simulation =
  fixes rep :: "'s \<Rightarrow> 'a \<Rightarrow> bool"
    and ok :: "'s \<Rightarrow> 'a \<Rightarrow> 'op \<Rightarrow> bool"
    and step :: "'s \<Rightarrow> 'op \<Rightarrow> ('r \<times> 's) res option"
    and spec :: "'a \<Rightarrow> 'op \<Rightarrow> 'r \<times> 'a"
  assumes step_simulates: "rep s a \<Longrightarrow> ok s a x \<Longrightarrow>
    \<exists>s'. step s x = Some (Inr (fst (spec a x), s')) \<and> rep s' (snd (spec a x))"
begin

lemma run_simulates:
  "rep s a \<Longrightarrow> run_allowed ok step spec s a xs \<Longrightarrow>
   \<exists>s'. run_part step s xs = Some (Inr (fst (run_ops spec a xs), s')) \<and> rep s' (snd (run_ops spec a xs))"
proof (induction xs arbitrary: s a)
  case (Cons x xs)
  obtain s' where s: "step s x = Some (Inr (fst (spec a x), s'))" "rep s' (snd (spec a x))"
    using step_simulates [OF Cons.prems(1)] Cons.prems(2) by auto
  then show ?case using Cons.IH [OF s(2)] Cons.prems(2) by (cases "spec a x") (auto simp: split_beta)
qed simp

end

end
