(* ===== verification/Intset.thy ===== *)
theory Intset
  imports Interfaces
begin

text \<open>
  The integer set of \<open>intset.c\<close>: a sorted array of integers of 16, 32 or 64
  bits in one block of memory.  The model keeps the block as the byte list it
  is, little endian.  The operations come twice: those with the names of the
  code keep its integers at their width (\<open>int\<close> positions, \<open>uint32_t\<close> lengths
  and byte counts that wrap) and check every access to the block; the
  reference operations before them compute with natural numbers.  The two
  agree while the set has fewer than \<open>2^29\<close> elements (section ``The widths of
  the code''), and the reference ones implement the operations of a set.  An
  \<open>int64_t\<close> argument is an \<open>int\<close>; the lemmas carry its range as a hypothesis
  where it matters.  \<open>g\<close> stands for the indeterminate bytes that \<open>zrealloc\<close>
  adds.
\<close>

section \<open>State\<close>

datatype intset_enc = ENC_INT16 | ENC_INT32 | ENC_INT64

text \<open>\<open>sizeof\<close> of the element type; it is also the number the code stores as the encoding.\<close>

fun enc_size :: "intset_enc \<Rightarrow> nat" where
  "enc_size ENC_INT16 = 2"
| "enc_size ENC_INT32 = 4"
| "enc_size ENC_INT64 = 8"

text \<open>The encodings are ordered by size, as the comparisons of the code use them.\<close>

instantiation intset_enc :: linorder
begin

definition less_eq_intset_enc :: "intset_enc \<Rightarrow> intset_enc \<Rightarrow> bool" where
  "less_eq_intset_enc a b \<longleftrightarrow> enc_size a \<le> enc_size b"

definition less_intset_enc :: "intset_enc \<Rightarrow> intset_enc \<Rightarrow> bool" where
  "less_intset_enc a b \<longleftrightarrow> enc_size a < enc_size b"

instance
proof
  fix a b c :: intset_enc
  show "a < b \<longleftrightarrow> a \<le> b \<and> \<not> b \<le> a" by (auto simp: less_eq_intset_enc_def less_intset_enc_def)
  show "a \<le> a" by (simp add: less_eq_intset_enc_def)
  show "a \<le> b \<Longrightarrow> b \<le> c \<Longrightarrow> a \<le> c" by (simp add: less_eq_intset_enc_def)
  show "a \<le> b \<Longrightarrow> b \<le> a \<Longrightarrow> a = b" by (cases a; cases b) (simp_all add: less_eq_intset_enc_def)
  show "a \<le> b \<or> b \<le> a" by (auto simp: less_eq_intset_enc_def)
qed

end

record intset =
  encoding :: intset_enc
  len :: nat
  contents :: "u8 list"

section \<open>Reference operations\<close>

definition intsetValueEncoding :: "int \<Rightarrow> intset_enc" where
  "intsetValueEncoding v =
     (if v < - (2 ^ 31) \<or> v > 2 ^ 31 - 1 then ENC_INT64
      else if v < - (2 ^ 15) \<or> v > 2 ^ 15 - 1 then ENC_INT32
      else ENC_INT16)"

definition get_enc :: "intset \<Rightarrow> nat \<Rightarrow> intset_enc \<Rightarrow> int" where
  "get_enc is pos enc =
     (if enc = ENC_INT64 then sint (le_word (peek (contents is) (pos * 8) 8) :: u64)
      else if enc = ENC_INT32 then sint (le_word (peek (contents is) (pos * 4) 4) :: u32)
      else sint (le_word (peek (contents is) (pos * 2) 2) :: u16))"

definition elem_at :: "intset \<Rightarrow> nat \<Rightarrow> int" where
  "elem_at is pos = get_enc is pos (encoding is)"

definition put_elem :: "intset \<Rightarrow> nat \<Rightarrow> int \<Rightarrow> intset" where
  "put_elem is pos value =
     (if encoding is = ENC_INT64 then
        is\<lparr>contents := poke (contents is) (pos * 8) (le_bytes 8 (word_of_int value :: u64))\<rparr>
      else if encoding is = ENC_INT32 then
        is\<lparr>contents := poke (contents is) (pos * 4) (le_bytes 4 (word_of_int value :: u32))\<rparr>
      else
        is\<lparr>contents := poke (contents is) (pos * 2) (le_bytes 2 (word_of_int value :: u16))\<rparr>)"

definition intsetNew :: intset where
  "intsetNew = \<lparr>encoding = ENC_INT16, len = 0, contents = []\<rparr>"

definition resize_to :: "(nat \<Rightarrow> u8) \<Rightarrow> intset \<Rightarrow> nat \<Rightarrow> intset" where
  "resize_to g is n = is\<lparr>contents := realloc g (contents is) (n * enc_size (encoding is))\<rparr>"

text \<open>The loop of the binary search; \<open>min\<close>, \<open>max\<close> and \<open>mid\<close> are the code's \<open>int\<close>s.\<close>

function search_window :: "intset \<Rightarrow> int \<Rightarrow> int \<Rightarrow> int \<Rightarrow> int \<Rightarrow> int \<Rightarrow> int \<times> int \<times> int" where
  "search_window is value lo hi mid cur =
     (if hi \<ge> lo then
        let mid = (lo + hi) div 2;
            cur = elem_at is (nat mid)
        in if value > cur then search_window is value (mid + 1) hi mid cur
           else if value < cur then search_window is value lo (mid - 1) mid cur
           else (lo, mid, cur)
      else (lo, mid, cur))"
  by pat_completeness auto
termination
  by (relation "measure (\<lambda>(is, value, lo, hi, mid, cur). nat (hi - lo + 1))") auto

declare search_window.simps [simp del]

definition search_pos :: "intset \<Rightarrow> int \<Rightarrow> bool \<times> nat" where
  "search_pos is value =
     (if len is = 0 then (False, 0)
      else if value > elem_at is (len is - 1) then (False, len is)
      else if value < elem_at is 0 then (False, 0)
      else let (lo, mid, cur) = search_window is value 0 (int (len is) - 1) (- 1) (- 1)
           in if value = cur then (True, nat mid) else (False, nat lo))"

text \<open>\<open>while (length--)\<close> of the upgrade, back to front.\<close>

fun widen_elems :: "intset \<Rightarrow> nat \<Rightarrow> nat \<Rightarrow> intset_enc \<Rightarrow> intset" where
  "widen_elems is 0 prepend curenc = is"
| "widen_elems is (Suc n) prepend curenc =
     widen_elems (put_elem is (n + prepend) (get_enc is n curenc)) n prepend curenc"

definition widen_add :: "(nat \<Rightarrow> u8) \<Rightarrow> intset \<Rightarrow> int \<Rightarrow> intset" where
  "widen_add g is value =
     (let curenc = encoding is;
          newenc = intsetValueEncoding value;
          prepend = (if value < 0 then 1 else 0);
          is = is\<lparr>encoding := newenc\<rparr>;
          is = resize_to g is (len is + 1);
          is = widen_elems is (len is) prepend curenc;
          is = (if prepend = 1 then put_elem is 0 value else put_elem is (len is) value)
      in is\<lparr>len := len is + 1\<rparr>)"

definition move_tail :: "intset \<Rightarrow> nat \<Rightarrow> nat \<Rightarrow> intset" where
  "move_tail is from to =
     (let sz = enc_size (encoding is)
      in is\<lparr>contents := memmove (contents is) (to * sz) (from * sz) ((len is - from) * sz)\<rparr>)"

definition add_elem :: "(nat \<Rightarrow> u8) \<Rightarrow> intset \<Rightarrow> int \<Rightarrow> bool \<times> intset" where
  "add_elem g is value =
     (if intsetValueEncoding value > encoding is then (True, widen_add g is value)
      else
        let (found, pos) = search_pos is value
        in if found then (False, is)
           else
             let is = resize_to g is (len is + 1);
                 is = (if pos < len is then move_tail is pos (pos + 1) else is);
                 is = put_elem is pos value
             in (True, is\<lparr>len := len is + 1\<rparr>))"

definition remove_elem :: "(nat \<Rightarrow> u8) \<Rightarrow> intset \<Rightarrow> int \<Rightarrow> bool \<times> intset" where
  "remove_elem g is value =
     (if intsetValueEncoding value \<le> encoding is \<and> fst (search_pos is value) then
        let pos = snd (search_pos is value);
            n = len is;
            is = (if pos < n - 1 then move_tail is (pos + 1) pos else is);
            is = resize_to g is (n - 1)
        in (True, is\<lparr>len := n - 1\<rparr>)
      else (False, is))"

definition has_elem :: "intset \<Rightarrow> int \<Rightarrow> bool" where
  "has_elem is value \<longleftrightarrow> intsetValueEncoding value \<le> encoding is \<and> fst (search_pos is value)"

section \<open>The operations of the code\<close>

text \<open>A position is an \<open>int\<close>; the element there must lie inside the block.\<close>

definition in_block :: "intset \<Rightarrow> int \<Rightarrow> intset_enc \<Rightarrow> bool" where
  "in_block is pos enc \<longleftrightarrow> 0 \<le> pos \<and> nat pos * enc_size enc + enc_size enc \<le> length (contents is)"

definition intsetGetEncoded :: "intset \<Rightarrow> int \<Rightarrow> intset_enc \<Rightarrow> int res" where
  "intsetGetEncoded is pos enc = (if in_block is pos enc then Inr (get_enc is (nat pos) enc) else Inl OutOfBounds)"

definition intsetGet0 :: "intset \<Rightarrow> int \<Rightarrow> int res" where
  "intsetGet0 is pos = intsetGetEncoded is pos (encoding is)"

definition intsetSet :: "intset \<Rightarrow> int \<Rightarrow> int \<Rightarrow> intset res" where
  "intsetSet is pos value =
     (if in_block is pos (encoding is) then Inr (put_elem is (nat pos) value) else Inl OutOfBounds)"

text \<open>The \<open>uint32_t\<close> product of a count and the size of an element.\<close>

definition size32 :: "u32 \<Rightarrow> intset_enc \<Rightarrow> nat" where
  "size32 n enc = unat (n * of_nat (enc_size enc))"

definition intsetResize :: "(nat \<Rightarrow> u8) \<Rightarrow> intset \<Rightarrow> u32 \<Rightarrow> intset" where
  "intsetResize g is n = is\<lparr>contents := realloc g (contents is) (size32 n (encoding is))\<rparr>"

text \<open>
  The loop of the binary search; \<open>lo\<close>, \<open>hi\<close> and \<open>mid\<close> are the \<open>int\<close>s \<open>min\<close>,
  \<open>max\<close> and \<open>mid\<close> of the code, which adds the first two as \<open>unsigned\<close>.  The
  first test only says that they are \<open>int\<close>s.
\<close>

definition midpoint :: "int \<Rightarrow> int \<Rightarrow> int" where
  "midpoint lo hi = uint (drop_bit 1 (word_of_int lo + word_of_int hi :: u32))"

lemma midpoint:
  assumes "0 \<le> lo" and "lo \<le> hi" and "hi < 2 ^ 31"
  shows "midpoint lo hi = (lo + hi) div 2"
proof -
  have "uint (word_of_int lo + word_of_int hi :: u32) = lo + hi"
    using assms by (simp add: uint_word_ariths unsigned_of_int take_bit_int_eq_self)
  then show ?thesis using assms unfolding midpoint_def
    by (simp only: unsigned_drop_bit_eq) (simp add: drop_bit_eq_div take_bit_eq_mod)
qed

function intsetSearch_loop :: "intset \<Rightarrow> int \<Rightarrow> int \<Rightarrow> int \<Rightarrow> int \<Rightarrow> int \<Rightarrow> (int \<times> int \<times> int) res" where
  "intsetSearch_loop is value lo hi mid cur =
     (if lo < 0 \<or> 2 ^ 31 \<le> hi then Inl SignedOverflow
      else if hi \<ge> lo then
        let mid = midpoint lo hi in
        rbind (intsetGet0 is mid) (\<lambda>cur.
        if value > cur then rbind (s32 (mid + 1)) (\<lambda>lo. intsetSearch_loop is value lo hi mid cur)
        else if value < cur then rbind (s32 (mid - 1)) (\<lambda>hi. intsetSearch_loop is value lo hi mid cur)
        else Inr (lo, mid, cur))
      else Inr (lo, mid, cur))"
  by pat_completeness auto
termination
  by (relation "measure (\<lambda>(is, value, lo, hi, mid, cur). nat (hi - lo + 1))")
    (auto simp: midpoint s32_def split: if_splits)

declare intsetSearch_loop.simps [simp del]

definition intsetSearch :: "intset \<Rightarrow> int \<Rightarrow> (bool \<times> nat) res" where
  "intsetSearch is value =
     (let lo = 0; hi = sint (of_nat (len is) - 1 :: u32); mid = - 1; cur = - 1 in
      if len is = 0 then Inr (False, 0)
      else
        rbind (intsetGet0 is (sint (of_nat (len is) - 1 :: u32))) (\<lambda>x.
        if value > x then Inr (False, len is)
        else
          rbind (intsetGet0 is 0) (\<lambda>x.
          if value < x then Inr (False, 0)
          else
            rbind (intsetSearch_loop is value lo hi mid cur) (\<lambda>(lo, mid, cur).
            if value = cur then Inr (True, unat (word_of_int mid :: u32))
            else Inr (False, unat (word_of_int lo :: u32))))))"

text \<open>\<open>while (length--)\<close> of the upgrade, back to front.\<close>

fun intsetUpgrade_loop :: "intset \<Rightarrow> nat \<Rightarrow> int \<Rightarrow> intset_enc \<Rightarrow> intset res" where
  "intsetUpgrade_loop is 0 prepend curenc = Inr is"
| "intsetUpgrade_loop is (Suc n) prepend curenc =
     rbind (intsetGetEncoded is (int n) curenc) (\<lambda>x.
     rbind (s32 (int n + prepend)) (\<lambda>p.
     rbind (intsetSet is p x) (\<lambda>is.
     intsetUpgrade_loop is n prepend curenc)))"

text \<open>An \<open>int length\<close> that starts negative is decremented out of the range of \<open>int\<close> or of the block.\<close>

definition intsetUpgradeAndAdd :: "(nat \<Rightarrow> u8) \<Rightarrow> intset \<Rightarrow> int \<Rightarrow> intset res" where
  "intsetUpgradeAndAdd g is value =
     (let curenc = encoding is;
          newenc = intsetValueEncoding value;
          l = int_of_size (len is);
          prepend = (if value < 0 then 1 else 0);
          is = is\<lparr>encoding := newenc\<rparr>;
          is = intsetResize g is (of_nat (len is) + 1)
      in if l < 0 then Inl OutOfBounds
         else
           rbind (intsetUpgrade_loop is (nat l) prepend curenc) (\<lambda>is.
           rbind (if prepend = 1 then intsetSet is 0 value else intsetSet is (int_of_size (len is)) value) (\<lambda>is.
           Inr (is\<lparr>len := unat (of_nat (len is) + 1 :: u32)\<rparr>))))"

definition intsetMoveTail :: "intset \<Rightarrow> nat \<Rightarrow> nat \<Rightarrow> intset res" where
  "intsetMoveTail is from to =
     (let sz = enc_size (encoding is);
          bytes = size32 (of_nat (len is) - of_nat from) (encoding is)
      in if from * sz + bytes \<le> length (contents is) \<and> to * sz + bytes \<le> length (contents is)
         then Inr (is\<lparr>contents := memmove (contents is) (to * sz) (from * sz) bytes\<rparr>)
         else Inl OutOfBounds)"

definition intsetAdd :: "(nat \<Rightarrow> u8) \<Rightarrow> intset \<Rightarrow> int \<Rightarrow> (bool \<times> intset) res" where
  "intsetAdd g is value =
     (if intsetValueEncoding value > encoding is then
        rbind (intsetUpgradeAndAdd g is value) (\<lambda>is. Inr (True, is))
      else
        rbind (intsetSearch is value) (\<lambda>(found, pos).
        if found then Inr (False, is)
        else
          let is = intsetResize g is (of_nat (len is) + 1) in
          rbind (if pos < len is then intsetMoveTail is pos (unat (of_nat pos + 1 :: u32)) else Inr is) (\<lambda>is.
          rbind (intsetSet is (int_of_size pos) value) (\<lambda>is.
          Inr (True, is\<lparr>len := unat (of_nat (len is) + 1 :: u32)\<rparr>)))))"

definition intsetRemove :: "(nat \<Rightarrow> u8) \<Rightarrow> intset \<Rightarrow> int \<Rightarrow> (bool \<times> intset) res" where
  "intsetRemove g is value =
     (if \<not> intsetValueEncoding value \<le> encoding is then Inr (False, is)
      else
        rbind (intsetSearch is value) (\<lambda>(found, pos).
        if \<not> found then Inr (False, is)
        else
          let n = unat (of_nat (len is) - 1 :: u32) in
          rbind (if pos < n then intsetMoveTail is (unat (of_nat pos + 1 :: u32)) pos else Inr is) (\<lambda>is.
          let is = intsetResize g is (of_nat n) in
          Inr (True, is\<lparr>len := n\<rparr>))))"

definition intsetFind :: "intset \<Rightarrow> int \<Rightarrow> bool res" where
  "intsetFind is value =
     (if \<not> intsetValueEncoding value \<le> encoding is then Inr False
      else rbind (intsetSearch is value) (\<lambda>(found, pos). Inr found))"

text \<open>\<open>r\<close> is what \<open>rand()\<close> returns; on an empty set the code divides by zero.\<close>

definition intsetRandom :: "nat \<Rightarrow> intset \<Rightarrow> int res" where
  "intsetRandom r is = (if len is = 0 then Inl DivideByZero else intsetGet0 is (int_of_size (r mod len is)))"

definition intsetGet :: "intset \<Rightarrow> nat \<Rightarrow> int option res" where
  "intsetGet is pos =
     (if pos < len is then rbind (intsetGet0 is (int_of_size pos)) (\<lambda>v. Inr (Some v)) else Inr None)"

definition intsetLen :: "intset \<Rightarrow> nat" where
  "intsetLen is = len is"

text \<open>The header is two \<open>uint32_t\<close>.\<close>

definition intsetBlobLen :: "intset \<Rightarrow> nat" where
  "intsetBlobLen is = 8 + size32 (of_nat (len is)) (encoding is)"

section \<open>The values of an encoding\<close>

definition enc_fits :: "intset_enc \<Rightarrow> int \<Rightarrow> bool" where
  "enc_fits e v \<longleftrightarrow> - (2 ^ (8 * enc_size e - 1)) \<le> v \<and> v < 2 ^ (8 * enc_size e - 1)"

lemma enc_size_pos [simp]: "0 < enc_size e"
  by (cases e) simp_all

lemma enc_fits_mono: "a \<le> b \<Longrightarrow> enc_fits a v \<Longrightarrow> enc_fits b v"
  by (cases a; cases b) (simp_all add: enc_fits_def less_eq_intset_enc_def)

lemma valueEncoding_le_iff:
  "enc_fits ENC_INT64 v \<Longrightarrow> intsetValueEncoding v \<le> e \<longleftrightarrow> enc_fits e v"
  by (cases e) (auto simp: enc_fits_def intsetValueEncoding_def less_eq_intset_enc_def)

lemma valueEncoding_fits: "enc_fits ENC_INT64 v \<Longrightarrow> enc_fits (intsetValueEncoding v) v"
  using valueEncoding_le_iff [of v "intsetValueEncoding v"] by simp

lemma encoded_fits: "enc_fits e (get_enc is i e)"
proof -
  have "enc_fits ENC_INT64 (sint (w :: u64))" "enc_fits ENC_INT32 (sint (v :: u32))"
    "enc_fits ENC_INT16 (sint (u :: u16))" for u v w
    using sint_ge [of w] sint_lt [of w] sint_ge [of v] sint_lt [of v] sint_ge [of u] sint_lt [of u]
    by (simp_all add: enc_fits_def)
  then show ?thesis by (cases e) (simp_all add: get_enc_def)
qed

lemma encoded_get0: "enc_fits (encoding is) (elem_at is i)"
  by (simp add: elem_at_def encoded_fits)

lemma encoded_cong:
  "peek (contents is) (i * enc_size e) (enc_size e) = peek (contents is') (j * enc_size e) (enc_size e) \<Longrightarrow>
   get_enc is i e = get_enc is' j e"
  by (cases e) (simp_all add: get_enc_def)

section \<open>Writing and moving elements\<close>

text \<open>
  \<open>room is n\<close>: the block has room for \<open>n\<close> elements of the current encoding.
  The lemmas describe each block operation by the elements read afterwards.
\<close>

definition room :: "intset \<Rightarrow> nat \<Rightarrow> bool" where
  "room is n \<longleftrightarrow> n * enc_size (encoding is) \<le> length (contents is)"

lemma slot_le: "i < n \<Longrightarrow> n * k \<le> l \<Longrightarrow> i * k + k \<le> (l::nat)"
  using mult_le_mono1 [of "Suc i" n k] by simp

lemma set_encoding [simp]: "encoding (put_elem is i v) = encoding is"
  and set_len [simp]: "len (put_elem is i v) = len is"
  by (simp_all add: put_elem_def)

lemma set_length:
  "room is n \<Longrightarrow> i < n \<Longrightarrow> length (contents (put_elem is i v)) = length (contents is)"
  using slot_le [of i n "enc_size (encoding is)" "length (contents is)"]
  by (cases "encoding is") (auto simp: put_elem_def room_def length_poke)

lemma slots_apart: "i \<noteq> j \<Longrightarrow> i * k + k \<le> j * k \<or> j * k + k \<le> i * (k::nat)"
  by (metis add.commute linorder_neq_iff mult_Suc mult_le_mono1 Suc_leI)

lemma poke_slot:
  assumes "i * k + k \<le> length b" and "j * k + k \<le> length b" and "length xs = k"
  shows "peek (poke b (i * k) xs) (j * k) k = (if i = j then xs else peek b (j * k) k)"
proof (cases "i = j")
  case True
  then show ?thesis using assms peek_poke_same [of "i * k" xs b] by simp
next
  case False
  then have "j * k + k \<le> i * k \<or> i * k + length xs \<le> j * k"
    using assms(3) slots_apart [of i j k] by auto
  then show ?thesis using False assms by (subst peek_poke_other) auto
qed

lemma get_set:
  assumes "room is n" and "i < n" and "j < n" and "enc_fits (encoding is) v"
  shows "elem_at (put_elem is i v) j = (if j = i then v else elem_at is j)"
proof -
  let ?k = "enc_size (encoding is)"
  have i: "i * ?k + ?k \<le> length (contents is)" and j: "j * ?k + ?k \<le> length (contents is)"
    using assms by (simp_all add: room_def slot_le)
  show ?thesis using i j assms(4)
    by (cases "encoding is")
      (auto simp: elem_at_def get_enc_def put_elem_def poke_slot enc_fits_def
        le_word_le_bytes sint_of_int)
qed

lemma resize_simps [simp]:
  "encoding (resize_to g is n) = encoding is" "len (resize_to g is n) = len is"
  "length (contents (resize_to g is n)) = n * enc_size (encoding is)"
  by (simp_all add: resize_to_def length_realloc)

lemma room_resize [simp]: "room (resize_to g is n) n"
  by (simp add: room_def)

lemma encoded_resize:
  assumes "i * enc_size e + enc_size e \<le> n * enc_size (encoding is)"
    and "i * enc_size e + enc_size e \<le> length (contents is)"
  shows "get_enc (resize_to g is n) i e = get_enc is i e"
  using assms by (intro encoded_cong) (simp add: resize_to_def peek_realloc)

lemma get_resize:
  assumes "room is m" and "i < m" and "i < n"
  shows "elem_at (resize_to g is n) i = elem_at is i"
  using assms by (simp add: elem_at_def encoded_resize room_def slot_le)

lemma movetail_simps [simp]:
  "encoding (move_tail is a b) = encoding is" "len (move_tail is a b) = len is"
  by (simp_all add: move_tail_def Let_def)

lemma movetail_length:
  assumes "room is n" and "len is \<le> n" and "b + (len is - a) \<le> n" and "a \<le> len is"
  shows "length (contents (move_tail is a b)) = length (contents is)"
proof -
  let ?k = "enc_size (encoding is)"
  have "(b + (len is - a)) * ?k \<le> n * ?k" "(a + (len is - a)) * ?k \<le> n * ?k"
    using assms by (intro mult_le_mono1; simp)+
  then show ?thesis using assms(1)
    by (simp add: move_tail_def Let_def length_memmove room_def distrib_right)
qed

lemma get_movetail:
  assumes "room is n" and "len is \<le> n" and "b + (len is - a) \<le> n" and "a \<le> len is" and "j < n"
  shows "elem_at (move_tail is a b) j =
    (if b \<le> j \<and> j < b + (len is - a) then elem_at is (j - b + a) else elem_at is j)"
proof -
  let ?k = "enc_size (encoding is)" let ?n = "len is - a"
  have L: "n * ?k \<le> length (contents is)" using assms(1) by (simp add: room_def)
  have "(b + ?n) * ?k \<le> n * ?k" "(a + ?n) * ?k \<le> n * ?k" and J: "Suc j * ?k \<le> n * ?k"
    using assms by (intro mult_le_mono1; simp)+
  then have dst: "b * ?k + ?n * ?k \<le> length (contents is)"
    and src: "a * ?k + ?n * ?k \<le> length (contents is)"
    using L by (simp_all add: distrib_right)
  show ?thesis
  proof (cases "b \<le> j \<and> j < b + ?n")
    case True
    have "Suc j * ?k \<le> (b + ?n) * ?k" "b * ?k \<le> j * ?k" using True by (intro mult_le_mono1; simp)+
    moreover have "j * ?k - b * ?k + a * ?k = (j - b + a) * ?k" using True
      by (simp add: algebra_simps diff_mult_distrib)
    ultimately have "peek (memmove (contents is) (b * ?k) (a * ?k) (?n * ?k)) (j * ?k) ?k =
        peek (contents is) ((j - b + a) * ?k) ?k"
      using peek_memmove_in [OF src dst, of "j * ?k" ?k] by (simp add: distrib_right)
    then have "get_enc (move_tail is a b) j (encoding is) =
        get_enc is (j - b + a) (encoding is)"
      by (intro encoded_cong) (simp add: move_tail_def Let_def)
    then show ?thesis using True by (simp add: elem_at_def)
  next
    case False
    then have "j < b \<or> b + ?n \<le> j" by auto
    then have "j * ?k + ?k \<le> b * ?k \<or> b * ?k + ?n * ?k \<le> j * ?k"
      using slot_le [of j b ?k "b * ?k"] mult_le_mono1 [of "b + ?n" j ?k]
      by (auto simp: distrib_right)
    then have "peek (memmove (contents is) (b * ?k) (a * ?k) (?n * ?k)) (j * ?k) ?k =
        peek (contents is) (j * ?k) ?k"
      using peek_memmove_out [OF src dst, of "j * ?k" ?k] J L by simp
    then have "get_enc (move_tail is a b) j (encoding is) =
        get_enc is j (encoding is)"
      by (intro encoded_cong) (simp add: move_tail_def Let_def)
    then show ?thesis using False by (auto simp: elem_at_def)
  qed
qed

section \<open>The invariant\<close>

definition intset_vals :: "intset \<Rightarrow> int list" where
  "intset_vals is = map (elem_at is) [0..<len is]"

definition intset_set :: "intset \<Rightarrow> int set" where
  "intset_set is = set (intset_vals is)"

text \<open>The block has exactly the size of its elements, and they are strictly ascending.\<close>

definition intset_ok :: "intset \<Rightarrow> bool" where
  "intset_ok is \<longleftrightarrow>
     length (contents is) = len is * enc_size (encoding is) \<and> sorted_wrt (<) (intset_vals is)"

lemma ok_room: "intset_ok is \<Longrightarrow> room is (len is)"
  by (simp add: intset_ok_def room_def)

lemma ok_less: "intset_ok is \<Longrightarrow> i < j \<Longrightarrow> j < len is \<Longrightarrow> elem_at is i < elem_at is j"
  by (simp add: intset_ok_def intset_vals_def sorted_wrt_iff_nth_less)

lemma ok_le: "intset_ok is \<Longrightarrow> i \<le> j \<Longrightarrow> j < len is \<Longrightarrow> elem_at is i \<le> elem_at is j"
  using ok_less [of "is" i j] by (cases "i = j") auto

lemma intset_set_iff: "v \<in> intset_set is \<longleftrightarrow> (\<exists>i < len is. elem_at is i = v)"
  by (auto simp: intset_set_def intset_vals_def)

lemma set_fits: "v \<in> intset_set is \<Longrightarrow> enc_fits (encoding is) v"
  by (auto simp: intset_set_iff encoded_get0)

lemma intset_valsI:
  "len is = length xs \<Longrightarrow> (\<And>i. i < length xs \<Longrightarrow> elem_at is i = xs ! i) \<Longrightarrow> intset_vals is = xs"
  by (intro nth_equalityI) (simp_all add: intset_vals_def)

section \<open>Binary search\<close>

text \<open>The value, when present, stays inside the window; outside it the order is known.\<close>

lemma search_loop_spec:
  assumes "intset_ok is" and "0 \<le> lo" and "hi < int (len is)" and "lo \<le> hi + 1"
    and "\<forall>i < len is. int i < lo \<longrightarrow> elem_at is i < v"
    and "\<forall>i < len is. hi < int i \<longrightarrow> v < elem_at is i"
    and "cur = v \<longrightarrow> lo \<le> hi"
    and "search_window is v lo hi mid cur = (lo', mid', cur')"
  shows "if cur' = v then 0 \<le> mid' \<and> nat mid' < len is \<and> elem_at is (nat mid') = v
    else 0 \<le> lo' \<and> nat lo' \<le> len is \<and> (\<forall>i < nat lo'. elem_at is i < v) \<and>
      (\<forall>i < len is. nat lo' \<le> i \<longrightarrow> v < elem_at is i)"
  using assms
proof (induction "nat (hi - lo + 1)" arbitrary: lo hi mid cur rule: less_induct)
  case less
  show ?case
  proof (cases "lo \<le> hi")
    case False
    then have "lo = hi + 1" using less.prems(4) by simp
    then show ?thesis using less.prems False
      by (auto simp: search_window.simps [of _ _ lo])
  next
    case True
    define m where "m = (lo + hi) div 2"
    have m: "lo \<le> m" "m \<le> hi" using True by (auto simp: m_def)
    then have ml: "nat m < len is" using less.prems by auto
    let ?c = "elem_at is (nat m)"
    have step: "search_window is v lo hi mid cur =
        (if v > ?c then search_window is v (m + 1) hi m ?c
         else if v < ?c then search_window is v lo (m - 1) m ?c else (lo, m, ?c))"
      using True by (simp add: search_window.simps [of "is" v lo] m_def Let_def)
    consider "v > ?c" | "v < ?c" | "v = ?c" by linarith
    then show ?thesis
    proof cases
      case 1
      have "\<forall>i < len is. int i < m + 1 \<longrightarrow> elem_at is i < v"
      proof (intro allI impI)
        fix i assume "i < len is" and "int i < m + 1"
        then have "i \<le> nat m" by linarith
        then show "elem_at is i < v" using ok_le [OF less.prems(1) _ ml, of i] 1 by linarith
      qed
      moreover have "?c \<noteq> v" and "search_window is v (m + 1) hi m ?c = (lo', mid', cur')"
        using 1 less.prems(8) by (simp_all add: step)
      ultimately show ?thesis using m True less.prems(1-4,6)
        by (intro less.hyps [of hi "m + 1" ?c m]) (simp_all add: step)
    next
      case 2
      have "\<forall>i < len is. m - 1 < int i \<longrightarrow> v < elem_at is i"
      proof (intro allI impI)
        fix i assume i: "i < len is" and "m - 1 < int i"
        then have "nat m \<le> i" by linarith
        then show "v < elem_at is i" using ok_le [OF less.prems(1) _ i, of "nat m"] 2 by linarith
      qed
      moreover have "?c \<noteq> v" and "search_window is v lo (m - 1) m ?c = (lo', mid', cur')"
        using 2 less.prems(8) by (simp_all add: step)
      ultimately show ?thesis using m True less.prems(1-5)
        by (intro less.hyps [of "m - 1" lo ?c m]) (simp_all add: step)
    next
      case 3
      then have "lo' = lo" "mid' = m" "cur' = v" using less.prems(8) [unfolded step] by auto
      then show ?thesis using 3 less.prems(2) m(1) ml by simp
    qed
  qed
qed

lemma search_spec:
  assumes "intset_ok is" and "search_pos is v = (found, pos)"
  shows "found \<longleftrightarrow> v \<in> intset_set is"
    and "found \<Longrightarrow> pos < len is \<and> elem_at is pos = v"
    and "\<not> found \<Longrightarrow> pos \<le> len is \<and> (\<forall>i < pos. elem_at is i < v) \<and>
      (\<forall>i < len is. pos \<le> i \<longrightarrow> v < elem_at is i)"
proof -
  have main: "(found \<longrightarrow> pos < len is \<and> elem_at is pos = v) \<and>
    (\<not> found \<longrightarrow> pos \<le> len is \<and> (\<forall>i < pos. elem_at is i < v) \<and>
      (\<forall>i < len is. pos \<le> i \<longrightarrow> v < elem_at is i))"
  proof (cases "len is = 0 \<or> v > elem_at is (len is - 1) \<or> v < elem_at is 0")
    case True
    have hi: "\<forall>i < len is. elem_at is i \<le> elem_at is (len is - 1)"
      using ok_le [OF assms(1)] by simp
    have lo: "\<forall>i < len is. elem_at is 0 \<le> elem_at is i"
      using ok_le [OF assms(1)] by simp
    consider "len is = 0" | "0 < len is" "v > elem_at is (len is - 1)"
      | "0 < len is" "\<not> v > elem_at is (len is - 1)" "v < elem_at is 0"
      using True by fastforce
    then show ?thesis
    proof cases
      case 1
      then show ?thesis using assms(2) by (auto simp: search_pos_def)
    next
      case 2
      then have "\<not> found" "pos = len is" using assms(2) by (auto simp: search_pos_def)
      then show ?thesis using hi 2 by (auto intro: le_less_trans)
    next
      case 3
      then have "\<not> found" "pos = 0" using assms(2) by (auto simp: search_pos_def)
      then show ?thesis using lo 3 by (auto intro: less_le_trans)
    qed
  next
    case False
    obtain lo mid cur where
      L: "search_window is v 0 (int (len is) - 1) (- 1) (- 1) = (lo, mid, cur)"
      by (metis prod_cases3)
    have "if cur = v then 0 \<le> mid \<and> nat mid < len is \<and> elem_at is (nat mid) = v
      else 0 \<le> lo \<and> nat lo \<le> len is \<and> (\<forall>i < nat lo. elem_at is i < v) \<and>
        (\<forall>i < len is. nat lo \<le> i \<longrightarrow> v < elem_at is i)"
      using False by (intro search_loop_spec [OF assms(1) _ _ _ _ _ _ L]) auto
    moreover have "(found, pos) = (if v = cur then (True, nat mid) else (False, nat lo))"
      using False assms(2) by (simp add: search_pos_def L)
    ultimately show ?thesis by (simp split: if_splits)
  qed
  then show "found \<Longrightarrow> pos < len is \<and> elem_at is pos = v"
    and "\<not> found \<Longrightarrow> pos \<le> len is \<and> (\<forall>i < pos. elem_at is i < v) \<and>
      (\<forall>i < len is. pos \<le> i \<longrightarrow> v < elem_at is i)" by auto
  show "found \<longleftrightarrow> v \<in> intset_set is"
  proof (cases found)
    case True
    then show ?thesis using main by (auto simp: intset_set_iff)
  next
    case False
    then have "elem_at is i \<noteq> v" if "i < len is" for i
      using main that by (cases "i < pos") auto
    then show ?thesis using False by (auto simp: intset_set_iff)
  qed
qed

section \<open>Insertion\<close>

lemma insert_sorted:
  assumes "intset_ok is" and "pos \<le> len is"
    and "\<forall>i < pos. elem_at is i < v" and "\<forall>i < len is. pos \<le> i \<longrightarrow> v < elem_at is i"
  shows "sorted_wrt (<) (take pos (intset_vals is) @ v # drop pos (intset_vals is))"
proof -
  have "sorted_wrt (<) (take pos (intset_vals is) @ drop pos (intset_vals is))"
    using assms(1) by (simp add: intset_ok_def)
  moreover have "\<forall>x \<in> set (take pos (intset_vals is)). x < v"
    using assms(2,3) by (auto simp: intset_vals_def in_set_conv_nth)
  moreover have "\<forall>x \<in> set (drop pos (intset_vals is)). v < x"
    using assms(2,4) by (auto simp: intset_vals_def in_set_conv_nth)
  ultimately show ?thesis unfolding sorted_wrt_append by auto
qed

lemma set_insert_at: "set (take n xs @ v # drop n xs) = insert v (set xs)"
  by (metis append_take_drop_id insert_is_Un list.simps(15) set_append sup_left_commute Un_commute)

lemma nth_insert_at:
  "pos \<le> length xs \<Longrightarrow> j \<le> length xs \<Longrightarrow>
   (take pos xs @ v # drop pos xs) ! j = (if j < pos then xs ! j else if j = pos then v else xs ! (j - 1))"
  by (auto simp: nth_append nth_Cons min_def not_less split: nat.split intro: arg_cong [of _ _ "nth xs"])

text \<open>The effect of the plain insertion: a gap is opened at \<open>pos\<close> and filled.\<close>

lemma insert_at_vals:
  fixes "is" pos v g
  defines "s1 \<equiv> resize_to g is (len is + 1)"
  defines "s2 \<equiv> if pos < len is then move_tail s1 pos (pos + 1) else s1"
  defines "s3 \<equiv> (put_elem s2 pos v)\<lparr>len := len is + 1\<rparr>"
  assumes ok: "intset_ok is" and pos: "pos \<le> len is" and v: "enc_fits (encoding is) v"
  shows "intset_vals s3 = take pos (intset_vals is) @ v # drop pos (intset_vals is)"
    and "encoding s3 = encoding is"
    and "length (contents s3) = len s3 * enc_size (encoding s3)"
proof -
  let ?n = "len is"
  have r1: "room s1 (?n + 1)" by (simp add: s1_def)
  have e2 [simp]: "encoding s2 = encoding is" "len s2 = ?n" by (simp_all add: s2_def s1_def)
  have l2: "length (contents s2) = (?n + 1) * enc_size (encoding is)"
    using movetail_length [OF r1, of "pos + 1" pos] pos by (simp add: s2_def s1_def)
  then have r2: "room s2 (?n + 1)" by (simp add: room_def)
  have g1: "elem_at s1 i = elem_at is i" if "i < ?n" for i
    unfolding s1_def using that by (intro get_resize [OF ok_room [OF ok]]) auto
  have g2: "elem_at s2 j = elem_at is (if j < pos then j else j - 1)"
    if "j \<le> ?n" "j \<noteq> pos" for j
    using get_movetail [OF r1, of "pos + 1" pos j] that pos
    by (auto simp: s2_def s1_def g1 [unfolded s1_def, simplified])
  have "elem_at s3 j = (take pos (intset_vals is) @ v # drop pos (intset_vals is)) ! j"
    if "j \<le> ?n" for j
  proof -
    have "elem_at s3 j = elem_at (put_elem s2 pos v) j"
      by (simp add: s3_def elem_at_def get_enc_def)
    also have "\<dots> = (if j = pos then v else elem_at s2 j)"
      using that pos v by (intro get_set [OF r2]) auto
    finally show ?thesis
      using that pos g2 [of j] by (subst nth_insert_at) (auto simp: intset_vals_def)
  qed
  then show "intset_vals s3 = take pos (intset_vals is) @ v # drop pos (intset_vals is)"
    using pos by (intro intset_valsI) (auto simp: s3_def intset_vals_def)
  show "encoding s3 = encoding is" by (simp add: s3_def)
  then show "length (contents s3) = len s3 * enc_size (encoding s3)"
    using set_length [OF r2, of pos v] pos by (simp add: s3_def l2)
qed

text \<open>
  The upgrade: converting back to front reads each old element before the
  wider slot that overlaps it is written.
\<close>

lemma get_set_narrow:
  assumes "room is n" and "p < n" and "i * enc_size e + enc_size e \<le> p * enc_size (encoding is)"
  shows "get_enc (put_elem is p v) i e = get_enc is i e"
proof (rule encoded_cong)
  let ?k = "enc_size (encoding is)"
  have "p * ?k + ?k \<le> length (contents is)" using assms(1,2) by (simp add: room_def slot_le)
  moreover have "\<exists>xs. contents (put_elem is p v) = poke (contents is) (p * ?k) xs \<and> length xs = ?k"
    by (cases "encoding is") (auto simp: put_elem_def)
  ultimately show "peek (contents (put_elem is p v)) (i * enc_size e) (enc_size e) =
      peek (contents is) (i * enc_size e) (enc_size e)"
    using assms(3) by (auto simp: peek_poke_other)
qed

lemma room_set [simp]: "room is n \<Longrightarrow> i < n \<Longrightarrow> room (put_elem is i v) n"
  by (simp add: room_def set_length)

lemma upgrade_loop_spec:
  assumes "room is (m + 1)" and "n \<le> m" and "p \<le> 1" and "e < encoding is"
    and "is' = widen_elems is n p e"
  shows "encoding is' = encoding is \<and> len is' = len is \<and>
    length (contents is') = length (contents is) \<and>
    (\<forall>j < m + 1. elem_at is' j =
      (if p \<le> j \<and> j < n + p then get_enc is (j - p) e else elem_at is j))"
  using assms
proof (induction n arbitrary: "is")
  case 0
  then show ?case by auto
next
  case (Suc n)
  define s where "s = put_elem is (n + p) (get_enc is n e)"
  have le: "n + p < m + 1" using Suc.prems by simp
  have sz: "2 * enc_size e \<le> enc_size (encoding is)"
    using Suc.prems(4) by (cases e; cases "encoding is") (simp_all add: less_intset_enc_def)
  have fits: "enc_fits (encoding is) (get_enc is n e)"
    using Suc.prems(4) by (intro enc_fits_mono [OF less_imp_le encoded_fits])
  have old: "get_enc s i e = get_enc is i e" if "i < n" for i
  proof -
    have "Suc i * enc_size e \<le> (n + p) * enc_size e" using that by (intro mult_le_mono1) simp
    also have "\<dots> \<le> (n + p) * enc_size (encoding is)" using sz by (intro mult_le_mono2) simp
    finally show ?thesis unfolding s_def
      by (intro get_set_narrow [OF Suc.prems(1) le]) simp
  qed
  have s: "room s (m + 1)" "encoding s = encoding is" "len s = len is"
    "length (contents s) = length (contents is)"
    using Suc.prems(1) le set_length [OF Suc.prems(1) le] by (simp_all add: s_def)
  have new: "elem_at s j = (if j = n + p then get_enc is n e else elem_at is j)"
    if "j < m + 1" for j
    unfolding s_def using Suc.prems(1) le that fits by (rule get_set)
  have last: "j = n + p" if "\<not> j < n + p" "j < Suc (n + p)" for j using that by simp
  show ?case using Suc.IH [of s] Suc.prems s new old le
    by (auto simp: s_def [symmetric] dest!: last)
qed

lemma upgrade_vals:
  fixes v g
  assumes ok: "intset_ok is" and v: "enc_fits ENC_INT64 v" and big: "encoding is < intsetValueEncoding v"
  defines "s \<equiv> widen_add g is v"
  shows "intset_vals s = (if v < 0 then v # intset_vals is else intset_vals is @ [v])"
    and "encoding s = intsetValueEncoding v"
    and "length (contents s) = len s * enc_size (encoding s)"
proof -
  let ?n = "len is" and ?e = "encoding is" and ?p = "if v < 0 then 1 else 0 :: nat"
  define s1 where "s1 = resize_to g (is\<lparr>encoding := intsetValueEncoding v\<rparr>) (?n + 1)"
  define s2 where "s2 = widen_elems s1 ?n ?p ?e"
  define s3 where "s3 = put_elem s2 (if v < 0 then 0 else ?n) v"
  have r1: "room s1 (?n + 1)" and e1: "encoding s1 = intsetValueEncoding v" "len s1 = ?n"
    by (simp_all add: s1_def)
  have U: "encoding s2 = encoding s1 \<and> len s2 = len s1 \<and> length (contents s2) = length (contents s1) \<and>
    (\<forall>j < ?n + 1. elem_at s2 j =
      (if ?p \<le> j \<and> j < ?n + ?p then get_enc s1 (j - ?p) ?e else elem_at s1 j))"
    by (rule upgrade_loop_spec [OF r1 order_refl _ _ s2_def]) (use big e1 in auto)
  have old: "get_enc s1 i ?e = elem_at is i" if "i < ?n" for i
  proof -
    have a: "i * enc_size ?e + enc_size ?e \<le> length (contents is)"
      using ok_room [OF ok] that by (simp add: room_def slot_le)
    have "Suc i * enc_size ?e \<le> (?n + 1) * enc_size (intsetValueEncoding v)"
      using that big by (intro mult_le_mono) (auto simp: less_intset_enc_def)
    then show ?thesis using a unfolding s1_def
      by (subst encoded_resize) (simp_all add: elem_at_def get_enc_def)
  qed
  have r2: "room s2 (?n + 1)" using U r1 by (simp add: room_def)
  have "elem_at s3 j = (if j = (if v < 0 then 0 else ?n) then v else elem_at s2 j)"
    if "j < ?n + 1" for j
    unfolding s3_def using r2 that valueEncoding_fits [OF v] U e1 by (intro get_set) auto
  then have g3: "elem_at s3 j =
      (if v < 0 then v # intset_vals is else intset_vals is @ [v]) ! j" if "j < ?n + 1" for j
    using that U old by (auto simp: nth_append nth_Cons intset_vals_def split: nat.split)
  have "len s3 = ?n" using U e1 by (simp add: s3_def)
  then have s: "s = s3\<lparr>len := ?n + 1\<rparr>"
    by (auto simp: s_def widen_add_def Let_def s3_def s2_def s1_def split: if_splits)
  then have "elem_at s j = elem_at s3 j" for j
    by (simp add: elem_at_def get_enc_def)
  then show "intset_vals s = (if v < 0 then v # intset_vals is else intset_vals is @ [v])"
    using g3 by (intro intset_valsI) (auto simp: s intset_vals_def)
  show "encoding s = intsetValueEncoding v" using U e1 by (simp add: s s3_def)
  then show "length (contents s) = len s * enc_size (encoding s)"
    using set_length [OF r2, of "if v < 0 then 0 else ?n" v] U e1 by (simp add: s s3_def s1_def)
qed

section \<open>Removal\<close>

lemma remove_at_vals:
  fixes "is" pos g
  defines "s1 \<equiv> if pos < len is - 1 then move_tail is (pos + 1) pos else is"
  defines "s2 \<equiv> (resize_to g s1 (len is - 1))\<lparr>len := len is - 1\<rparr>"
  assumes ok: "intset_ok is" and pos: "pos < len is"
  shows "intset_vals s2 = take pos (intset_vals is) @ drop (Suc pos) (intset_vals is)"
    and "encoding s2 = encoding is"
    and "length (contents s2) = len s2 * enc_size (encoding s2)"
proof -
  let ?n = "len is"
  have r: "room is ?n" by (rule ok_room [OF ok])
  have e1 [simp]: "encoding s1 = encoding is" "len s1 = ?n" by (simp_all add: s1_def)
  have "length (contents s1) = length (contents is)"
    using movetail_length [OF r, of pos "pos + 1"] pos by (simp add: s1_def)
  then have r1: "room s1 ?n" using r by (simp add: room_def)
  have g1: "elem_at s1 j = elem_at is (if j < pos then j else Suc j)" if "j < ?n - 1" for j
    using get_movetail [OF r, of pos "pos + 1" j] that pos by (auto simp: s1_def Suc_diff_le)
  have "elem_at s2 j = (take pos (intset_vals is) @ drop (Suc pos) (intset_vals is)) ! j"
    if j: "j < ?n - 1" for j
  proof -
    have "elem_at s2 j = elem_at (resize_to g s1 (?n - 1)) j"
      by (simp add: s2_def elem_at_def get_enc_def)
    also have "\<dots> = elem_at s1 j" using j by (intro get_resize [OF r1]) auto
    finally show ?thesis using j pos by (auto simp: g1 intset_vals_def nth_append)
  qed
  then show "intset_vals s2 = take pos (intset_vals is) @ drop (Suc pos) (intset_vals is)"
    using pos by (intro intset_valsI) (auto simp: s2_def intset_vals_def)
  show "encoding s2 = encoding is" by (simp add: s2_def)
  then show "length (contents s2) = len s2 * enc_size (encoding s2)" by (simp add: s2_def)
qed

lemma set_remove_at:
  assumes "sorted_wrt (<) (xs :: int list)" and "n < length xs"
  shows "set (take n xs @ drop (Suc n) xs) = set xs - {xs ! n}"
    and "sorted_wrt (<) (take n xs @ drop (Suc n) xs)"
proof -
  have split: "xs = take n xs @ xs ! n # drop (Suc n) xs"
    using assms(2) by (simp add: id_take_nth_drop)
  then have "sorted_wrt (<) (take n xs @ xs ! n # drop (Suc n) xs)" using assms(1) by simp
  then have s: "sorted_wrt (<) (take n xs @ drop (Suc n) xs)"
    and "xs ! n \<notin> set (take n xs @ drop (Suc n) xs)"
    unfolding sorted_wrt_append by auto
  moreover have "set xs = insert (xs ! n) (set (take n xs @ drop (Suc n) xs))"
    by (subst split) (simp only: set_append list.set Un_insert_right)
  ultimately show "set (take n xs @ drop (Suc n) xs) = set xs - {xs ! n}" by auto
  show "sorted_wrt (<) (take n xs @ drop (Suc n) xs)" by (rule s)
qed

section \<open>The operations as operations on a set\<close>

text \<open>Insertion into an ascending list, for the functional statement about \<open>add_elem\<close>.\<close>

definition insert_asc :: "int \<Rightarrow> int list \<Rightarrow> int list" where
  "insert_asc v xs = takeWhile (\<lambda>x. x < v) xs @ v # dropWhile (\<lambda>x. x < v) xs"

lemma insert_ascI:
  assumes "pos \<le> length xs" and "\<forall>i < pos. xs ! i < v" and "\<forall>i < length xs. pos \<le> i \<longrightarrow> v < xs ! i"
  shows "take pos xs @ v # drop pos xs = insert_asc v xs"
proof -
  have p: "\<forall>x \<in> set (take pos xs). x < v" using assms(1,2) by (auto simp: in_set_conv_nth)
  have q: "\<forall>x \<in> set (drop pos xs). v < x" using assms(1,3) by (auto simp: in_set_conv_nth)
  have "takeWhile (\<lambda>x. x < v) (take pos xs @ drop pos xs) = take pos xs"
    "dropWhile (\<lambda>x. x < v) (take pos xs @ drop pos xs) = drop pos xs"
    using p q by (cases "drop pos xs"; auto simp: takeWhile_append dropWhile_append)+
  then show ?thesis by (simp add: insert_asc_def)
qed

lemma add_spec:
  assumes ok: "intset_ok is" and v: "enc_fits ENC_INT64 v" and r: "add_elem g is v = (added, is')"
  shows "added \<longleftrightarrow> v \<notin> intset_set is"
    and "intset_vals is' = (if v \<in> intset_set is then intset_vals is else insert_asc v (intset_vals is))"
    and "encoding is' = max (encoding is) (intsetValueEncoding v)"
    and "length (contents is') = len is' * enc_size (encoding is')"
    and "sorted_wrt (<) (intset_vals is')"
proof -
  have lenv: "length (intset_vals is) = len is" by (simp add: intset_vals_def)
  have main: "(added \<longleftrightarrow> v \<notin> intset_set is) \<and> encoding is' = max (encoding is) (intsetValueEncoding v) \<and>
    length (contents is') = len is' * enc_size (encoding is') \<and>
    (if v \<in> intset_set is then is' = is
     else \<exists>pos \<le> len is. intset_vals is' = take pos (intset_vals is) @ v # drop pos (intset_vals is) \<and>
       (\<forall>i < pos. elem_at is i < v) \<and> (\<forall>i < len is. pos \<le> i \<longrightarrow> v < elem_at is i))"
  proof (cases "intsetValueEncoding v > encoding is")
    case True
    then have "\<not> enc_fits (encoding is) v"
      by (simp add: valueEncoding_le_iff [OF v, symmetric] not_le)
    then have out: "v \<notin> intset_set is" using set_fits by blast
    have far: "if v < 0 then v < elem_at is i else elem_at is i < v" for i
      using encoded_get0 [of "is" i] \<open>\<not> enc_fits (encoding is) v\<close> by (cases "encoding is") (auto simp: enc_fits_def)
    have e: "added" "is' = widen_add g is v" using r True by (auto simp: add_elem_def)
    show ?thesis
      using e out far True upgrade_vals [OF ok v True, of g] lenv
      by (cases "v < 0") (auto simp: max_def less_imp_le intro: exI [of _ 0] exI [of _ "len is"])
  next
    case False
    then have fits: "enc_fits (encoding is) v"
      by (simp add: valueEncoding_le_iff [OF v, symmetric] not_less)
    obtain found pos where S: "search_pos is v = (found, pos)" by fastforce
    note sp = search_spec [OF ok S]
    show ?thesis
    proof (cases found)
      case True
      then show ?thesis using sp(1) r False S ok by (simp add: add_elem_def intset_ok_def max_def)
    next
      case nf: False
      note I = insert_at_vals [OF ok _ fits, of pos g]
      have out: "v \<notin> intset_set is" and "added" using sp(1) nf r False S
        by (auto simp: add_elem_def Let_def)
      moreover have is': "is' = (put_elem (if pos < len is
          then move_tail (resize_to g is (len is + 1)) pos (pos + 1)
          else resize_to g is (len is + 1)) pos v)\<lparr>len := len is + 1\<rparr>"
        using r False S nf by (auto simp: add_elem_def Let_def)
      moreover have "encoding is' = max (encoding is) (intsetValueEncoding v)"
        unfolding is' using I(2) sp(3) [OF nf] False by (simp only: max_def) auto
      moreover have "\<exists>p \<le> len is. intset_vals is' = take p (intset_vals is) @ v # drop p (intset_vals is) \<and>
        (\<forall>i < p. elem_at is i < v) \<and> (\<forall>i < len is. p \<le> i \<longrightarrow> v < elem_at is i)"
        unfolding is' using I(1) sp(3) [OF nf] by (intro exI [of _ pos]) simp
      moreover have "length (contents is') = len is' * enc_size (encoding is')"
        unfolding is' using I(3) sp(3) [OF nf] by blast
      ultimately show ?thesis by simp
    qed
  qed
  then show "added \<longleftrightarrow> v \<notin> intset_set is" "encoding is' = max (encoding is) (intsetValueEncoding v)"
    "length (contents is') = len is' * enc_size (encoding is')" by auto
  show "intset_vals is' = (if v \<in> intset_set is then intset_vals is else insert_asc v (intset_vals is))"
    using main insert_ascI [of _ "intset_vals is" v]
    by (auto simp: lenv intset_vals_def split: if_splits)
  show "sorted_wrt (<) (intset_vals is')"
    using main insert_sorted [OF ok] ok by (auto simp: intset_ok_def split: if_splits)
qed

lemma remove_spec:
  assumes ok: "intset_ok is" and v: "enc_fits ENC_INT64 v" and r: "remove_elem g is v = (removed, is')"
  shows "removed \<longleftrightarrow> v \<in> intset_set is"
    and "intset_ok is'"
    and "intset_set is' = intset_set is - {v}"
proof -
  obtain found pos where S: "search_pos is v = (found, pos)" by fastforce
  note sp = search_spec [OF ok S]
  have enc: "intsetValueEncoding v \<le> encoding is" if "v \<in> intset_set is"
    using set_fits [OF that] valueEncoding_le_iff [OF v] by simp
  have "(removed \<longleftrightarrow> v \<in> intset_set is) \<and> intset_ok is' \<and> intset_set is' = intset_set is - {v}"
  proof (cases "v \<in> intset_set is")
    case True
    then have p: "pos < len is" "elem_at is pos = v" "found" using sp by auto
    have l: "sorted_wrt (<) (intset_vals is)" "pos < length (intset_vals is)" "intset_vals is ! pos = v"
      using ok p by (simp_all add: intset_ok_def intset_vals_def)
    note R = remove_at_vals [OF ok p(1), of g]
    have "removed" and is': "is' = (resize_to g
        (if pos < len is - 1 then move_tail is (pos + 1) pos else is) (len is - 1))\<lparr>len := len is - 1\<rparr>"
      using r enc [OF True] S p(3) by (simp_all add: remove_elem_def Let_def)
    then show ?thesis using True R set_remove_at [OF l(1,2)] l(3)
      by (simp only: intset_ok_def intset_set_def is')
  next
    case False
    then show ?thesis using r S sp(1) ok by (auto simp: remove_elem_def)
  qed
  then show "removed \<longleftrightarrow> v \<in> intset_set is" "intset_ok is'" "intset_set is' = intset_set is - {v}"
    by auto
qed

lemma find_spec:
  assumes "intset_ok is" and "enc_fits ENC_INT64 v"
  shows "has_elem is v \<longleftrightarrow> v \<in> intset_set is"
  using search_spec(1) [OF assms(1), of v "fst (search_pos is v)" "snd (search_pos is v)"]
    set_fits [of v "is"] valueEncoding_le_iff [OF assms(2), of "encoding is"]
  by (auto simp: has_elem_def)

lemma set_insert_asc: "set (insert_asc v xs) = insert v (set xs)"
  by (simp add: insert_asc_def) (metis set_append takeWhile_dropWhile_id)

lemma add_ok:
  assumes "intset_ok is" and "enc_fits ENC_INT64 v"
  shows "intset_ok (snd (add_elem g is v))"
    and "intset_set (snd (add_elem g is v)) = insert v (intset_set is)"
    and "fst (add_elem g is v) \<longleftrightarrow> v \<notin> intset_set is"
  using add_spec [OF assms prod.collapse [symmetric], of g]
  by (auto simp: intset_ok_def intset_set_def set_insert_asc)

lemma remove_ok:
  assumes "intset_ok is" and "enc_fits ENC_INT64 v"
  shows "intset_ok (snd (remove_elem g is v))"
    and "intset_set (snd (remove_elem g is v)) = intset_set is - {v}"
    and "fst (remove_elem g is v) \<longleftrightarrow> v \<in> intset_set is"
  using remove_spec [OF assms prod.collapse [symmetric], of g] by auto

lemma new_ok: "intset_ok intsetNew" and new_set: "intset_set intsetNew = {}"
  by (simp_all add: intset_ok_def intset_set_def intset_vals_def intsetNew_def)

lemma new_len: "len intsetNew = 0" and new_vals: "intset_vals intsetNew = []" and new_encoding: "encoding intsetNew = ENC_INT16"
  by (simp_all add: intset_vals_def intsetNew_def)

section \<open>The widths of the code\<close>

text \<open>
  On a well-formed set of fewer than \<open>2^29\<close> elements no product wraps and every
  position is an \<open>int\<close> inside the block: the operations of the code return
  without fault what the reference operations compute.
\<close>

lemma size32_small: "n * enc_size e < 2 ^ 32 \<Longrightarrow> size32 (of_nat n) e = n * enc_size e"
  by (simp add: size32_def of_nat_mult [symmetric] unsigned_of_nat take_bit_nat_eq_self
      del: of_nat_mult)

lemma size_bound: "n < 2 ^ 29 \<Longrightarrow> n * enc_size e < 2 ^ 32"
  by (cases e) simp_all

lemma unat_minus: "m \<le> n \<Longrightarrow> n < 2 ^ 32 \<Longrightarrow> unat (of_nat n - of_nat m :: u32) = n - m"
  by (simp add: of_nat_diff [symmetric] unsigned_of_nat take_bit_nat_eq_self del: of_nat_diff)

lemma of_nat_plus_1: "(of_nat n + 1 :: u32) = of_nat (n + 1)"
  by simp

lemma unat_plus_1: "n + 1 < 2 ^ 32 \<Longrightarrow> unat (of_nat n + 1 :: u32) = n + 1"
  unfolding of_nat_plus_1 by (simp add: unsigned_of_nat take_bit_nat_eq_self del: of_nat_add of_nat_Suc)

lemma sint_last: "0 < n \<Longrightarrow> n < 2 ^ 31 \<Longrightarrow> sint (of_nat n - 1 :: u32) = int n - 1"
  using int_of_size [of "n - 1"] by (simp add: int_of_size_def of_nat_diff)

lemma in_block_ok: "room is n \<Longrightarrow> i < n \<Longrightarrow> in_block is (int i) (encoding is)"
  by (simp add: in_block_def room_def slot_le)

lemma get0_ok: "room is n \<Longrightarrow> i < n \<Longrightarrow> intsetGet0 is (int i) = Inr (elem_at is i)"
  using in_block_ok by (simp add: intsetGet0_def intsetGetEncoded_def elem_at_def)

lemma set_ok: "room is n \<Longrightarrow> i < n \<Longrightarrow> intsetSet is (int i) v = Inr (put_elem is i v)"
  using in_block_ok by (simp add: intsetSet_def)

lemma resize_ok: "n < 2 ^ 29 \<Longrightarrow> intsetResize g is (of_nat n) = resize_to g is n"
  using size_bound by (simp add: intsetResize_def resize_to_def size32_small)

lemma search_loop_ok:
  assumes "room is (len is)" and "len is < 2 ^ 31" and "0 \<le> lo" and "lo \<le> int (len is)" and "hi < int (len is)"
  shows "intsetSearch_loop is v lo hi mid cur = Inr (search_window is v lo hi mid cur)"
  using assms(3-5)
proof (induction "nat (hi - lo + 1)" arbitrary: lo hi mid cur rule: less_induct)
  case less
  have b: "\<not> (lo < 0 \<or> 2 ^ 31 \<le> hi)" using less.prems assms(2) by auto
  show ?case
  proof (cases "lo \<le> hi")
    case False
    then show ?thesis using b by (simp add: intsetSearch_loop.simps [of _ _ lo] search_window.simps [of _ _ lo])
  next
    case True
    define m where "m = (lo + hi) div 2"
    have m: "lo \<le> m" "m \<le> hi" using True by (auto simp: m_def)
    have mid: "midpoint lo hi = m" using True b by (simp add: midpoint m_def)
    have get: "intsetGet0 is m = Inr (elem_at is (nat m))"
      using get0_ok [OF assms(1), of "nat m"] m less.prems by simp
    have s: "s32 (m + 1) = Inr (m + 1)" "s32 (m - 1) = Inr (m - 1)"
      using m less.prems assms(2) by (auto intro!: s32_fits)
    have "intsetSearch_loop is v (m + 1) hi m c = Inr (search_window is v (m + 1) hi m c)"
      "intsetSearch_loop is v lo (m - 1) m c = Inr (search_window is v lo (m - 1) m c)" for c
      using m less.prems by (auto intro!: less.hyps)
    then show ?thesis using b True
      by (simp add: intsetSearch_loop.simps [of _ _ lo] search_window.simps [of _ _ lo] Let_def mid get s
          m_def [symmetric])
  qed
qed

lemma search_ok:
  assumes ok: "intset_ok is" and l: "len is < 2 ^ 31"
  shows "intsetSearch is v = Inr (search_pos is v)"
proof (cases "len is = 0")
  case True
  then show ?thesis by (simp add: intsetSearch_def search_pos_def)
next
  case False
  note r = ok_room [OF ok]
  have last: "sint (of_nat (len is) - 1 :: u32) = int (len is - 1)" using sint_last False l by (simp add: of_nat_diff)
  have get: "intsetGet0 is (int (len is - 1)) = Inr (elem_at is (len is - 1))" "intsetGet0 is 0 = Inr (elem_at is 0)"
    using get0_ok [OF r, of "len is - 1"] get0_ok [OF r, of 0] False by simp_all
  obtain lo mid cur where W: "search_window is v 0 (int (len is - 1)) (- 1) (- 1) = (lo, mid, cur)"
    by (metis prod_cases3)
  have "intsetSearch_loop is v 0 (int (len is - 1)) (- 1) (- 1) = Inr (search_window is v 0 (int (len is - 1)) (- 1) (- 1))"
    using False l by (intro search_loop_ok [OF r]) auto
  then have L: "intsetSearch_loop is v 0 (int (len is - 1)) (- 1) (- 1) = Inr (lo, mid, cur)"
    unfolding W .
  have c: "int (len is - 1) = int (len is) - 1" using False by simp
  note rules = last [unfolded c] get(1) [unfolded c] get(2) L [unfolded c]
  have w: "unat (word_of_int x :: u32) = nat x" if "0 \<le> x" "x < 2 ^ 32" for x
    using that by (simp add: unsigned_of_int take_bit_int_eq_self nat_take_bit_eq)
  show ?thesis
  proof (cases "v > elem_at is (len is - 1) \<or> v < elem_at is 0")
    case True
    then show ?thesis using False by (auto simp: intsetSearch_def search_pos_def rules Let_def simp del: One_nat_def)
  next
    case in_range: False
    have "if cur = v then 0 \<le> mid \<and> nat mid < len is \<and> elem_at is (nat mid) = v
      else 0 \<le> lo \<and> nat lo \<le> len is \<and> (\<forall>i < nat lo. elem_at is i < v) \<and>
        (\<forall>i < len is. nat lo \<le> i \<longrightarrow> v < elem_at is i)"
      using False in_range by (intro search_loop_spec [OF ok _ _ _ _ _ _ W]) auto
    then have "if v = cur then unat (word_of_int mid :: u32) = nat mid else unat (word_of_int lo :: u32) = nat lo"
      using l by (auto intro!: w)
    moreover have "intsetSearch is v = (if v = cur then Inr (True, unat (word_of_int mid :: u32))
        else Inr (False, unat (word_of_int lo :: u32)))"
      using False in_range by (simp add: intsetSearch_def rules Let_def del: One_nat_def)
    moreover have "search_pos is v = (if v = cur then (True, nat mid) else (False, nat lo))"
      using False in_range W by (simp add: search_pos_def c del: One_nat_def)
    ultimately show ?thesis by simp
  qed
qed

lemma upgrade_loop_ok:
  assumes "room is (m + 1)" and "n \<le> m" and "p \<le> 1" and "m < 2 ^ 31 - 1" and "e \<le> encoding is"
  shows "intsetUpgrade_loop is n (int p) e = Inr (widen_elems is n p e)"
  using assms(1,2,5)
proof (induction n arbitrary: "is")
  case (Suc n)
  have le: "n + p < m + 1" using Suc.prems assms(3) by simp
  have "n * enc_size e + enc_size e \<le> (m + 1) * enc_size (encoding is)"
    using mult_le_mono [of "Suc n" "m + 1" "enc_size e" "enc_size (encoding is)"] Suc.prems
    by (simp add: less_eq_intset_enc_def)
  then have "intsetGetEncoded is (int n) e = Inr (get_enc is n e)"
    using Suc.prems(1) by (simp add: intsetGetEncoded_def in_block_def room_def)
  moreover have "s32 (int n + int p) = Inr (int (n + p))"
    using le assms(4) by (simp add: s32_fits)
  ultimately show ?case
    using Suc.IH [of "put_elem is (n + p) (get_enc is n e)"] Suc.prems le
    by (simp add: set_ok [OF Suc.prems(1) le, unfolded of_nat_add])
qed simp

lemma upgrade_ok:
  assumes "intset_ok is" and "len is + 1 < 2 ^ 29" and big: "encoding is < intsetValueEncoding v"
  shows "intsetUpgradeAndAdd g is v = Inr (widen_add g is v)"
proof -
  let ?n = "len is" and ?p = "if v < 0 then 1 else 0 :: nat"
  define s1 where "s1 = resize_to g (is\<lparr>encoding := intsetValueEncoding v\<rparr>) (?n + 1)"
  define s2 where "s2 = widen_elems s1 ?n ?p (encoding is)"
  have r1: "room s1 (?n + 1)" and e1: "encoding s1 = intsetValueEncoding v" "len s1 = ?n"
    by (simp_all add: s1_def)
  have U: "encoding s2 = encoding s1 \<and> len s2 = len s1 \<and> length (contents s2) = length (contents s1) \<and>
    (\<forall>j < ?n + 1. elem_at s2 j =
      (if ?p \<le> j \<and> j < ?n + ?p then get_enc s1 (j - ?p) (encoding is) else elem_at s1 j))"
    by (rule upgrade_loop_spec [OF r1 order_refl _ _ s2_def]) (use big e1 in auto)
  then have r2: "room s2 (?n + 1)" using r1 by (simp add: room_def)
  have l: "int_of_size ?n = int ?n" using assms(2) by (intro int_of_size) simp
  have rs: "intsetResize g (is\<lparr>encoding := intsetValueEncoding v\<rparr>) (of_nat ?n + 1) = s1"
    unfolding of_nat_plus_1 s1_def by (rule resize_ok [OF assms(2)])
  have loop: "intsetUpgrade_loop s1 ?n (int ?p) (encoding is) = Inr s2"
    unfolding s2_def by (rule upgrade_loop_ok [OF r1 order_refl]) (use assms(2) big e1 in auto)
  have p: "(if v < 0 then 1 else 0 :: int) = int ?p" by simp
  have w: "unat (of_nat ?n + 1 :: u32) = ?n + 1" using assms(2) by (intro unat_plus_1) simp
  have e2: "len s2 = ?n" "encoding s2 = intsetValueEncoding v" using U e1 by simp_all
  have "intsetUpgradeAndAdd g is v =
    rbind (if int ?p = 1 then intsetSet s2 (int 0) v else intsetSet s2 (int ?n) v) (\<lambda>is.
      Inr (is\<lparr>len := unat (of_nat (len is) + 1 :: u32)\<rparr>))"
    using l by (simp add: intsetUpgradeAndAdd_def Let_def rs loop p e1 e2)
  also have "\<dots> = Inr ((put_elem s2 (if ?p = 1 then 0 else ?n) v)\<lparr>len := ?n + 1\<rparr>)"
    using set_ok [OF r2, of 0 v] set_ok [OF r2, of ?n v] by (simp add: w e2)
  also have "\<dots> = Inr (widen_add g is v)"
    using e2 by (auto simp: widen_add_def Let_def s2_def s1_def)
  finally show ?thesis .
qed

lemma movetail_ok:
  assumes "room is n" and "len is \<le> n" and "b + (len is - a) \<le> n" and "a \<le> len is" and "len is < 2 ^ 29"
  shows "intsetMoveTail is a b = Inr (move_tail is a b)"
proof -
  let ?k = "enc_size (encoding is)" let ?n = "len is - a"
  have "(b + ?n) * ?k \<le> n * ?k" "(a + ?n) * ?k \<le> n * ?k"
    using assms by (intro mult_le_mono1; simp)+
  then have "b * ?k + ?n * ?k \<le> length (contents is)" "a * ?k + ?n * ?k \<le> length (contents is)"
    using assms(1) by (simp_all add: room_def distrib_right)
  moreover have "size32 (of_nat (len is) - of_nat a) (encoding is) = ?n * ?k"
    using size32_small [OF size_bound, of ?n] assms(4,5) by (simp add: of_nat_diff)
  ultimately show ?thesis by (simp add: intsetMoveTail_def move_tail_def Let_def)
qed

lemma code_add:
  assumes ok: "intset_ok is" and l: "len is + 1 < 2 ^ 29"
  shows "intsetAdd g is v = Inr (add_elem g is v)"
proof (cases "intsetValueEncoding v > encoding is")
  case True
  then show ?thesis using upgrade_ok [OF ok l True] by (simp add: intsetAdd_def add_elem_def)
next
  case False
  obtain found pos where S: "search_pos is v = (found, pos)" by fastforce
  have s: "intsetSearch is v = Inr (found, pos)" using search_ok [OF ok, of v] l S by simp
  show ?thesis
  proof (cases found)
    case True
    then show ?thesis using False by (simp add: intsetAdd_def add_elem_def s S)
  next
    case nf: False
    let ?s1 = "resize_to g is (len is + 1)"
    define s2 where "s2 = (if pos < len is then move_tail ?s1 pos (pos + 1) else ?s1)"
    have p: "pos \<le> len is" using search_spec(3) [OF ok S nf] by simp
    have rs: "intsetResize g is (of_nat (len is) + 1) = ?s1"
      unfolding of_nat_plus_1 by (rule resize_ok [OF l])
    have r1: "room ?s1 (len is + 1)" by simp
    have w: "unat (of_nat n + 1 :: u32) = n + 1" if "n \<le> len is" for n
      using that l by (intro unat_plus_1) simp
    have mv: "(if pos < len is then intsetMoveTail ?s1 pos (unat (of_nat pos + 1 :: u32)) else Inr ?s1) = Inr s2"
      using movetail_ok [OF r1, of "pos + 1" pos] p l by (auto simp: s2_def w)
    have r2: "room s2 (len is + 1)" and l2: "len s2 = len is"
      using movetail_length [OF r1, of "pos + 1" pos] p by (auto simp: s2_def room_def)
    have "intsetSet s2 (int_of_size pos) v = Inr (put_elem s2 pos v)"
      using set_ok [OF r2, of pos v] p l by (simp add: int_of_size)
    then have "rbind (Inr s2) (\<lambda>is. rbind (intsetSet is (int_of_size pos) v) (\<lambda>is.
        Inr (True, is\<lparr>len := unat (of_nat (len is) + 1 :: u32)\<rparr>))) = Inr (True, (put_elem s2 pos v)\<lparr>len := len is + 1\<rparr>)"
      using w by (simp add: l2)
    moreover have "intsetAdd g is v = rbind
        (if pos < len is then intsetMoveTail ?s1 pos (unat (of_nat pos + 1 :: u32)) else Inr ?s1)
        (\<lambda>is. rbind (intsetSet is (int_of_size pos) v) (\<lambda>is. Inr (True, is\<lparr>len := unat (of_nat (len is) + 1 :: u32)\<rparr>)))"
      using False nf by (simp add: intsetAdd_def s Let_def rs)
    moreover have "add_elem g is v = (True, (put_elem s2 pos v)\<lparr>len := len is + 1\<rparr>)"
      using False nf by (simp add: add_elem_def S Let_def s2_def)
    ultimately show ?thesis by (simp only: mv)
  qed
qed

lemma code_remove:
  assumes ok: "intset_ok is" and l: "len is < 2 ^ 29"
  shows "intsetRemove g is v = Inr (remove_elem g is v)"
proof -
  obtain found pos where S: "search_pos is v = (found, pos)" by fastforce
  have s: "intsetSearch is v = Inr (found, pos)" using search_ok [OF ok, of v] l S by simp
  show ?thesis
  proof (cases "intsetValueEncoding v \<le> encoding is \<and> found")
    case False
    then show ?thesis by (auto simp: intsetRemove_def remove_elem_def s S)
  next
    case True
    then have p: "pos < len is" using search_spec(2) [OF ok S] by simp
    define s1 where "s1 = (if pos < len is - 1 then move_tail is (pos + 1) pos else is)"
    have n: "unat (of_nat (len is) - 1 :: u32) = len is - 1"
      using unat_minus [of 1 "len is"] p l by simp
    have "unat (of_nat pos + 1 :: u32) = pos + 1" using p l by (intro unat_plus_1) simp
    then have mv: "(if pos < len is - 1 then intsetMoveTail is (unat (of_nat pos + 1 :: u32)) pos else Inr is) = Inr s1"
      using movetail_ok [OF ok_room [OF ok], of pos "pos + 1"] p l by (auto simp: s1_def)
    have "intsetResize g s1 (of_nat (len is - 1)) = resize_to g s1 (len is - 1)"
      using l by (intro resize_ok) simp
    moreover have "intsetRemove g is v = rbind
        (if pos < len is - 1 then intsetMoveTail is (unat (of_nat pos + 1 :: u32)) pos else Inr is)
        (\<lambda>is'. Inr (True, (intsetResize g is' (of_nat (len is - 1)))\<lparr>len := len is - 1\<rparr>))"
      using True by (simp add: intsetRemove_def s Let_def n)
    moreover have "remove_elem g is v = (True, (resize_to g s1 (len is - 1))\<lparr>len := len is - 1\<rparr>)"
      using True by (simp add: remove_elem_def S Let_def s1_def)
    ultimately show ?thesis by (simp only: mv rbind_simps)
  qed
qed

lemma code_find: "intset_ok is \<Longrightarrow> len is < 2 ^ 29 \<Longrightarrow> intsetFind is v = Inr (has_elem is v)"
  using search_ok [of "is" v] by (cases "search_pos is v") (simp add: intsetFind_def has_elem_def)

text \<open>The operations as one step function, for sequences of operations.\<close>

fun intset_step :: "(nat \<Rightarrow> u8) \<Rightarrow> intset \<Rightarrow> int set_op \<Rightarrow> (bool \<times> intset) res" where
  "intset_step g is (SAdd v) = intsetAdd g is v"
| "intset_step g is (SRem v) = intsetRemove g is v"
| "intset_step g is (SMem v) = rbind (intsetFind is v) (\<lambda>b. Inr (b, is))"

lemma length_insert_asc: "length (insert_asc v xs) = Suc (length xs)"
  by (simp add: insert_asc_def) (metis length_append takeWhile_dropWhile_id)

lemma card_vals: "intset_ok is \<Longrightarrow> card (intset_set is) = len is"
  by (simp add: intset_set_def intset_ok_def distinct_card strict_sorted_iff) (simp add: intset_vals_def)

lemma intset_step_refines:
  assumes ok: "intset_ok is" and l: "len is < 2 ^ 29 - 1" and v: "enc_fits ENC_INT64 (set_arg x)"
  shows "\<exists>a is'. intset_step g is x = Inr (a, is') \<and> intset_ok is' \<and>
    set_step (intset_set is) x = (a, intset_set is') \<and> len is' \<le> Suc (len is)"
proof (cases x)
  case (SAdd v)
  let ?r = "add_elem g is v"
  have "card (intset_set (snd ?r)) \<le> Suc (len is)"
    using add_ok [OF ok, of v g] v SAdd card_vals [OF ok] by (simp add: card_insert_if intset_set_def)
  then show ?thesis
    using add_ok [OF ok, of v g] v l code_add [OF ok, of g v] card_vals [of "snd ?r"] SAdd
    by (intro exI [of _ "fst ?r"] exI [of _ "snd ?r"]) (simp add: prod_eq_iff)
next
  case (SRem v)
  let ?r = "remove_elem g is v"
  have "card (intset_set (snd ?r)) \<le> Suc (len is)"
    using remove_ok [OF ok, of v g] v SRem card_vals [OF ok] by (simp add: card_Diff_singleton_if intset_set_def le_SucI)
  then show ?thesis
    using remove_ok [OF ok, of v g] v l code_remove [OF ok, of g v] card_vals [of "snd ?r"] SRem
    by (intro exI [of _ "fst ?r"] exI [of _ "snd ?r"]) (simp add: prod_eq_iff)
next
  case (SMem v)
  then show ?thesis using ok v l code_find [OF ok, of v] find_spec [OF ok, of v] by simp
qed

interpretation intset: set_impl intset_ok intset_set len "2 ^ 29 - 1" "enc_fits ENC_INT64" "intset_step g" for g
  by unfold_locales (rule intset_step_refines)

section \<open>Properties\<close>

text \<open>
  C19: Whatever sequence of fewer than \<open>2^29\<close> insertions, removals and lookups
  of 64-bit integers is run on a new integer set, no access leaves the block
  and no integer of the code overflows, every answer is the one a mathematical
  set gives, and in the end the block is exactly as long as its elements and
  holds the members in strictly ascending order.  (From \<open>2^29\<close> elements of 64
  bits on, the \<open>uint32_t\<close> size that \<open>intsetResize\<close> computes wraps around.)
\<close>
theorem intset_refines_set:
  assumes "\<forall>x \<in> set xs. enc_fits ENC_INT64 (set_arg x)" and "length xs < 2 ^ 29"
  shows "\<exists>as is. run_res (intset_step g) intsetNew xs = Inr (as, is) \<and> intset_ok is \<and>
    run_ops set_step {} xs = (as, intset_set is)"
  using intset.run_refines [OF new_ok assms(1), of g] assms(2) by (simp add: new_set new_len)

theorem intset_refines_set_witness:
  "\<exists>is. run_res (intset_step (\<lambda>_. 0)) intsetNew
      [SAdd 5, SAdd 70000, SAdd 5, SMem 5, SAdd (- 9000000000), SRem 5, SMem 5, SMem 70000] =
    Inr ([True, True, False, True, True, True, False, True], is) \<and> intset_set is = {70000, - 9000000000}"
proof -
  let ?xs = "[SAdd 5, SAdd 70000, SAdd 5, SMem 5, SAdd (- 9000000000), SRem 5, SMem 5, SMem 70000] :: int set_op list"
  have r: "run_ops set_step {} ?xs = ([True, True, False, True, True, True, False, True], {70000, - 9000000000})"
    by (simp add: insert_commute)
  obtain as "is" where "run_res (intset_step (\<lambda>_. 0)) intsetNew ?xs = Inr (as, is)"
    "run_ops set_step {} ?xs = (as, intset_set is)"
    using intset_refines_set [of ?xs "\<lambda>_. 0"] by (auto simp: enc_fits_def simp del: run_ops.simps run_res.simps)
  then show ?thesis unfolding r prod.inject by (intro exI [of _ "is"]) (simp del: run_res.simps)
qed

text \<open>
  \<open>intsetAdd\<close> on a well-formed set: the answer tells whether the value was
  absent, the elements are the old ones with the value at its place in the
  order (nothing changes when it is present), and the encoding becomes the
  wider of the set's and the value's, whatever way the block was rebuilt.
\<close>
lemma intsetAdd_functional:
  assumes "intset_ok is" and "enc_fits ENC_INT64 v" and "len is + 1 < 2 ^ 29"
  shows "\<exists>is'. intsetAdd g is v = Inr (v \<notin> intset_set is, is') \<and> intset_ok is' \<and>
    intset_vals is' = (if v \<in> intset_set is then intset_vals is else insert_asc v (intset_vals is)) \<and>
    encoding is' = max (encoding is) (intsetValueEncoding v)"
  using add_spec [OF assms(1,2) prod.collapse [symmetric], of g] code_add [OF assms(1,3), of g v]
  by (intro exI [of _ "snd (add_elem g is v)"]) (auto simp: intset_ok_def prod_eq_iff)

text \<open>What the readers return: the member at an index, and a member for every random number.\<close>

lemma intsetGet_ok:
  assumes "intset_ok is" and "len is < 2 ^ 31"
  shows "intsetGet is i = Inr (if i < intsetLen is then Some (intset_vals is ! i) else None)"
  using get0_ok [OF ok_room [OF assms(1)], of i] assms(2)
  by (simp add: intsetGet_def intsetLen_def intset_vals_def int_of_size)

lemma intsetRandom_member:
  assumes "intset_ok is" and "0 < len is" and "len is < 2 ^ 31"
  shows "\<exists>v \<in> intset_set is. intsetRandom r is = Inr v"
proof -
  have r: "r mod len is < len is" using assms(2) by simp
  then have "int_of_size (r mod len is) = int (r mod len is)" using assms(3) by (intro int_of_size) linarith
  moreover have "elem_at is (r mod len is) \<in> intset_set is" using r by (auto simp only: intset_set_iff)
  ultimately show ?thesis using r get0_ok [OF ok_room [OF assms(1)], of "r mod len is"] assms(2,3)
    by (intro bexI [of _ "elem_at is (r mod len is)"]) (simp_all add: intsetRandom_def)
qed

lemma intsetBlobLen_ok: "intset_ok is \<Longrightarrow> len is < 2 ^ 29 \<Longrightarrow> intsetBlobLen is = 8 + length (contents is)"
  using size32_small [OF size_bound, of "len is" "encoding is"] by (simp add: intsetBlobLen_def intset_ok_def)

text \<open>
  At \<open>2^29\<close> elements of 64 bits the product wraps: the block that
  \<open>intsetResize\<close> asks for is empty.
\<close>

lemma resize_wraps: "encoding is = ENC_INT64 \<Longrightarrow> contents (intsetResize g is (of_nat (2 ^ 29))) = []"
  by (simp add: intsetResize_def size32_def realloc_def)

end
