(* ===== verification/Adlist.thy ===== *)
theory Adlist
  imports Prelude
begin

text \<open>
  The doubly linked list of \<open>adlist.c\<close>, on a heap of nodes.  Every \<open>->\<close> of the
  code is a checked dereference, so a result \<open>Inr\<close> also says that no \<open>NULL\<close> and
  no freed node was touched.  What \<open>zmalloc\<close> returns is an argument of the
  operations that allocate: \<open>None\<close> for \<open>NULL\<close>, else an address, which the
  lemmas assume to be fresh.  Iterators are values.  The \<open>free\<close> method is a
  flag, and the operations that release values return the list of the values
  passed to it, in order.
\<close>

section \<open>State\<close>

record 'v listNode =
  prev :: "nat option"
  "next" :: "nat option"
  node_value :: 'v

record 'v adlist =
  head :: "nat option"
  tail :: "nat option"
  dup :: "('v \<Rightarrow> 'v option) option"
  has_free :: bool
  match :: "('v \<Rightarrow> 'v \<Rightarrow> bool) option"
  llen :: nat

datatype direction = AL_START_HEAD | AL_START_TAIL

record listIter =
  iter_next :: "nat option"
  iter_dir :: direction

type_synonym 'v nodes = "nat \<Rightarrow> 'v listNode option"

definition deref :: "'v nodes \<Rightarrow> nat option \<Rightarrow> 'v listNode res" where
  "deref h p = (case p of None \<Rightarrow> Inl BadPointer
    | Some a \<Rightarrow> (case h a of None \<Rightarrow> Inl BadPointer | Some n \<Rightarrow> Inr n))"

definition assign :: "'v nodes \<Rightarrow> nat option \<Rightarrow> ('v listNode \<Rightarrow> 'v listNode) \<Rightarrow> 'v nodes res" where
  "assign h p f = (case p of None \<Rightarrow> Inl BadPointer
    | Some a \<Rightarrow> (case h a of None \<Rightarrow> Inl BadPointer | Some n \<Rightarrow> Inr (h(a \<mapsto> f n))))"

section \<open>Operations\<close>

definition listCreate :: "'v adlist" where
  "listCreate = \<lparr>head = None, tail = None, dup = None, has_free = False, match = None, llen = 0\<rparr>"


definition listAddNodeTail ::
  "nat option \<Rightarrow> 'v nodes \<Rightarrow> 'v adlist \<Rightarrow> 'v \<Rightarrow> (bool \<times> 'v nodes \<times> 'v adlist) res" where
  "listAddNodeTail node h list value = (case node of
     None \<Rightarrow> Inr (False, h, list)
   | Some a \<Rightarrow>
      if llen list = 0 then
        Inr (True, h(a \<mapsto> \<lparr>prev = None, next = None, node_value = value\<rparr>),
          list\<lparr>head := node, tail := node, llen := llen list + 1\<rparr>)
      else
        rbind (assign (h(a \<mapsto> \<lparr>prev = tail list, next = None, node_value = value\<rparr>))
                 (tail list) (\<lambda>n. n\<lparr>next := node\<rparr>)) (\<lambda>h.
        Inr (True, h, list\<lparr>tail := node, llen := llen list + 1\<rparr>)))"


text \<open>\<open>zfree\<close> makes the node's address invalid.\<close>

definition zfree :: "'v nodes \<Rightarrow> nat option \<Rightarrow> 'v nodes" where
  "zfree h p = (case p of None \<Rightarrow> h | Some a \<Rightarrow> h(a := None))"

definition listDelNode ::
  "'v nodes \<Rightarrow> 'v adlist \<Rightarrow> nat option \<Rightarrow> ('v nodes \<times> 'v adlist \<times> 'v list) res" where
  "listDelNode h list node =
     rbind (deref h node) (\<lambda>n.
     rbind (if prev n \<noteq> None then
              rbind (assign h (prev n) (\<lambda>m. m\<lparr>next := next n\<rparr>)) (\<lambda>h. Inr (h, list))
            else Inr (h, list\<lparr>head := next n\<rparr>)) (\<lambda>(h, list).
     rbind (if next n \<noteq> None then
              rbind (assign h (next n) (\<lambda>m. m\<lparr>prev := prev n\<rparr>)) (\<lambda>h. Inr (h, list))
            else Inr (h, list\<lparr>tail := prev n\<rparr>)) (\<lambda>(h, list).
     Inr (zfree h node, list\<lparr>llen := llen list - 1\<rparr>,
          (if has_free list then [node_value n] else [])))))"

text \<open>The loop of \<open>listRelease\<close>: \<open>len\<close> steps from \<open>current\<close>.\<close>

fun listRelease_loop ::
  "'v nodes \<Rightarrow> 'v adlist \<Rightarrow> nat \<Rightarrow> nat option \<Rightarrow> ('v nodes \<times> 'v list) res" where
  "listRelease_loop h list 0 current = Inr (h, [])"
| "listRelease_loop h list (Suc len) current =
     rbind (deref h current) (\<lambda>n.
     rbind (listRelease_loop (zfree h current) list len (next n)) (\<lambda>(h, vs).
     Inr (h, (if has_free list then node_value n # vs else vs))))"

definition listRelease :: "'v nodes \<Rightarrow> 'v adlist \<Rightarrow> ('v nodes \<times> 'v list) res" where
  "listRelease h list = listRelease_loop h list (llen list) (head list)"

definition listGetIterator :: "'v adlist \<Rightarrow> direction \<Rightarrow> listIter" where
  "listGetIterator list direction =
     \<lparr>iter_next = (if direction = AL_START_HEAD then head list else tail list),
      iter_dir = direction\<rparr>"

definition listRewind :: "'v adlist \<Rightarrow> listIter" where
  "listRewind list = \<lparr>iter_next = head list, iter_dir = AL_START_HEAD\<rparr>"

definition listRewindTail :: "'v adlist \<Rightarrow> listIter" where
  "listRewindTail list = \<lparr>iter_next = tail list, iter_dir = AL_START_TAIL\<rparr>"

definition listNext :: "'v nodes \<Rightarrow> listIter \<Rightarrow> (nat option \<times> listIter) res" where
  "listNext h iter =
     (let current = iter_next iter
      in if current \<noteq> None then
           rbind (deref h current) (\<lambda>n.
           Inr (current, iter\<lparr>iter_next :=
             (if iter_dir iter = AL_START_HEAD then next n else prev n)\<rparr>))
         else Inr (current, iter))"

text \<open>
  The loops over an iterator end only on a list that ends: \<open>None\<close> is a loop
  that does not return.
\<close>

partial_function (option) listSearchKey_loop ::
  "'v nodes \<Rightarrow> 'v adlist \<Rightarrow> 'v \<Rightarrow> listIter \<Rightarrow> nat option res option" where
  "listSearchKey_loop h list key iter = (case listNext h iter of
     Inl e \<Rightarrow> Some (Inl e)
   | Inr (node, iter) \<Rightarrow>
       if node = None then Some (Inr None)
       else (case deref h node of
         Inl e \<Rightarrow> Some (Inl e)
       | Inr n \<Rightarrow>
           if (case match list of Some f \<Rightarrow> f (node_value n) key | None \<Rightarrow> key = node_value n)
           then Some (Inr node)
           else listSearchKey_loop h list key iter))"

definition listSearchKey :: "'v nodes \<Rightarrow> 'v adlist \<Rightarrow> 'v \<Rightarrow> nat option res option" where
  "listSearchKey h list key =
     listSearchKey_loop h list key (listGetIterator list AL_START_HEAD)"

text \<open>
  \<open>as\<close> are the addresses \<open>zmalloc\<close> gives for the nodes of the copy; when the
  supply is exhausted it returns \<open>NULL\<close>.  The result is the copy, if any, the
  heap, and the values passed to \<open>free\<close>.
\<close>

partial_function (option) listDup_loop ::
  "nat list \<Rightarrow> 'v nodes \<Rightarrow> 'v adlist \<Rightarrow> listIter \<Rightarrow>
   ('v adlist option \<times> 'v nodes \<times> 'v list) res option" where
  "listDup_loop as h copy iter = (case listNext h iter of
     Inl e \<Rightarrow> Some (Inl e)
   | Inr (node, iter) \<Rightarrow>
       if node = None then Some (Inr (Some copy, h, []))
       else (case deref h node of
         Inl e \<Rightarrow> Some (Inl e)
       | Inr n \<Rightarrow>
           (case (case dup copy of Some f \<Rightarrow> f (node_value n) | None \<Rightarrow> Some (node_value n)) of
              None \<Rightarrow> Some (rbind (listRelease h copy) (\<lambda>(h, vs). Inr (None, h, vs)))
            | Some value \<Rightarrow>
                (case listAddNodeTail (case as of [] \<Rightarrow> None | a # _ \<Rightarrow> Some a) h copy value of
                   Inl e \<Rightarrow> Some (Inl e)
                 | Inr (ok, h, copy) \<Rightarrow>
                     if \<not> ok then Some (rbind (listRelease h copy) (\<lambda>(h, vs). Inr (None, h, vs)))
                     else listDup_loop (tl as) h copy iter))))"

definition listDup ::
  "nat list \<Rightarrow> 'v nodes \<Rightarrow> 'v adlist \<Rightarrow> ('v adlist option \<times> 'v nodes \<times> 'v list) res option" where
  "listDup as h orig =
     listDup_loop as h
       (listCreate\<lparr>dup := dup orig, has_free := has_free orig, match := match orig\<rparr>)
       (listGetIterator orig AL_START_HEAD)"

text \<open>\<open>while(index-- && n) n = n->next\<close>, and the same through \<open>prev\<close>.\<close>

fun listIndex_loop ::
  "('v listNode \<Rightarrow> nat option) \<Rightarrow> 'v nodes \<Rightarrow> nat \<Rightarrow> nat option \<Rightarrow> nat option res" where
  "listIndex_loop f h 0 n = Inr n"
| "listIndex_loop f h (Suc i) None = Inr None"
| "listIndex_loop f h (Suc i) (Some a) = rbind (deref h (Some a)) (\<lambda>n. listIndex_loop f h i (f n))"

definition listIndex :: "'v nodes \<Rightarrow> 'v adlist \<Rightarrow> int \<Rightarrow> nat option res" where
  "listIndex h list index =
     (if index < 0 then
        (if index = - (2 ^ 63) then Inl SignedOverflow
         else listIndex_loop prev h (nat (- index - 1)) (tail list))
      else listIndex_loop next h (nat index) (head list))"


section \<open>Segments of a doubly linked list\<close>

text \<open>
  \<open>dlseg h p ns q\<close>: the nodes \<open>ns\<close> (address and value) are chained in both
  directions, the first one's \<open>prev\<close> is \<open>p\<close> and the last one's \<open>next\<close> is \<open>q\<close>.
\<close>

fun first_of :: "(nat \<times> 'v) list \<Rightarrow> nat option \<Rightarrow> nat option" where
  "first_of [] q = q"
| "first_of ((a, v) # ns) q = Some a"

definition last_of :: "nat option \<Rightarrow> (nat \<times> 'v) list \<Rightarrow> nat option" where
  "last_of p ns = (if ns = [] then p else Some (fst (last ns)))"

fun dlseg :: "'v nodes \<Rightarrow> nat option \<Rightarrow> (nat \<times> 'v) list \<Rightarrow> nat option \<Rightarrow> bool" where
  "dlseg h p [] q \<longleftrightarrow> True"
| "dlseg h p ((a, v) # ns) q \<longleftrightarrow>
     h a = Some \<lparr>prev = p, next = first_of ns q, node_value = v\<rparr> \<and> dlseg h (Some a) ns q"

definition addrs :: "(nat \<times> 'v) list \<Rightarrow> nat set" where
  "addrs ns = fst ` set ns"

definition dist :: "(nat \<times> 'v) list \<Rightarrow> bool" where
  "dist ns \<longleftrightarrow> distinct (map fst ns)"

named_theorems seg_simps

lemma last_of_simps [seg_simps]:
  "last_of p [] = p" "last_of p ((a, v) # ns) = last_of (Some a) ns"
  "last_of p (ns @ ms) = last_of (last_of p ns) ms"
  by (auto simp: last_of_def)

lemma first_of_append [seg_simps]: "first_of (ns @ ms) q = first_of ns (first_of ms q)"
  by (cases ns) auto

lemma addrs_simps [seg_simps]:
  "addrs [] = {}" "addrs ((a, v) # ns) = insert a (addrs ns)" "addrs (ns @ ms) = addrs ns \<union> addrs ms"
  by (auto simp: addrs_def)

lemma dlseg_append [seg_simps]:
  "dlseg h p (ns @ ms) q \<longleftrightarrow> dlseg h p ns (first_of ms q) \<and> dlseg h (last_of p ns) ms q"
  by (induction ns arbitrary: p) (auto simp: seg_simps)

lemma dlseg_frame [seg_simps]: "a \<notin> addrs ns \<Longrightarrow> dlseg (h(a := x)) p ns q \<longleftrightarrow> dlseg h p ns q"
  by (induction ns arbitrary: p) (auto simp: seg_simps)

lemma dlseg_alloc: "dlseg h p ns q \<Longrightarrow> a \<in> addrs ns \<Longrightarrow> h a \<noteq> None"
  by (induction ns arbitrary: p) (auto simp: seg_simps)

lemma dlseg_cong: "\<forall>a \<in> addrs ns. h a = h' a \<Longrightarrow> dlseg h p ns q \<longleftrightarrow> dlseg h' p ns q"
  by (induction ns arbitrary: p) (auto simp: seg_simps)

text \<open>The list record and the heap represent the nodes \<open>ns\<close>.\<close>

definition list_rep :: "'v nodes \<Rightarrow> 'v adlist \<Rightarrow> (nat \<times> 'v) list \<Rightarrow> bool" where
  "list_rep h l ns \<longleftrightarrow> dist ns \<and> dlseg h None ns None \<and>
     head l = first_of ns None \<and> tail l = last_of None ns \<and> llen l = length ns"

lemma dist_simps [seg_simps]:
  "dist [] \<longleftrightarrow> True"
  "dist ((a, v) # ns) \<longleftrightarrow> a \<notin> addrs ns \<and> dist ns"
  "dist (ns @ ms) \<longleftrightarrow> dist ns \<and> dist ms \<and> addrs ns \<inter> addrs ms = {}"
  by (auto simp: addrs_def dist_def)

lemma rep_distinct: "list_rep h l (ns @ (a, v) # ms) \<Longrightarrow> a \<notin> addrs ns \<and> a \<notin> addrs ms"
  by (auto simp: list_rep_def seg_simps)



lemma snoc_cases: "ns = [] \<or> (\<exists>ms a v. ns = ms @ [(a, v)])"
  by (metis rev_exhaust surj_pair)

lemma assign_Some [simp]: "h a = Some n \<Longrightarrow> assign h (Some a) f = Inr (h(a \<mapsto> f n))"
  by (simp add: assign_def)

lemma deref_Some [simp]: "h a = Some n \<Longrightarrow> deref h (Some a) = Inr n"
  by (simp add: deref_def)

section \<open>The operations on the represented list\<close>


lemma addTail_rep:
  assumes "list_rep h l ns" and "h a = None"
  shows "\<exists>h' l'. listAddNodeTail (Some a) h l v = Inr (True, h', l') \<and> list_rep h' l' (ns @ [(a, v)]) \<and>
    (\<forall>b. b \<noteq> a \<longrightarrow> b \<notin> addrs ns \<longrightarrow> h' b = h b) \<and>
    dup l' = dup l \<and> has_free l' = has_free l \<and> match l' = match l"
  using snoc_cases [of ns]
proof
  assume "ns = []"
  then show ?thesis using assms by (auto simp: listAddNodeTail_def list_rep_def seg_simps)
next
  assume "\<exists>ms b w. ns = ms @ [(b, w)]"
  then obtain ms b w where n: "ns = ms @ [(b, w)]" by blast
  have "a \<notin> addrs ns" using assms dlseg_alloc by (fastforce simp: list_rep_def)
  then show ?thesis using assms
    by (auto simp: listAddNodeTail_def list_rep_def seg_simps n)
qed


lemma delNode_rep:
  assumes "list_rep h l (ns @ (b, w) # ms)"
  shows "\<exists>h' l'. listDelNode h l (Some b) = Inr (h', l', if has_free l then [w] else []) \<and>
    list_rep h' l' (ns @ ms) \<and> h' b = None"
  using assms snoc_cases [of ns]
  by (cases ms) (auto simp: listDelNode_def list_rep_def seg_simps zfree_def)

lemma release_loop:
  "dist ns \<Longrightarrow> dlseg h p ns None \<Longrightarrow>
   listRelease_loop h l (length ns) (first_of ns None) =
     Inr (\<lambda>a. if a \<in> addrs ns then None else h a, if has_free l then map snd ns else [])"
proof (induction h l "length ns" "first_of ns None" arbitrary: ns p rule: listRelease_loop.induct)
  case (1 h l)
  then show ?case by (simp add: seg_simps)
next
  case (2 h l n)
  then obtain a v ms where ns: "ns = (a, v) # ms" by (metis Suc_length_conv surj_pair)
  let ?x = "\<lparr>prev = p, next = first_of ms None, node_value = v\<rparr>"
  have a: "h a = Some ?x" "a \<notin> addrs ms" "dist ms" "dlseg (h(a := None)) (Some a) ms None"
    using 2(3,4) by (auto simp: ns seg_simps)
  have "listRelease_loop (zfree h (Some a)) l (length ms) (first_of ms None) =
      Inr (\<lambda>b. if b \<in> addrs ms then None else (zfree h (Some a)) b, if has_free l then map snd ms else [])"
    using 2(1) [of ?x ms "Some a"] 2(2) a by (simp add: ns zfree_def cong: if_cong)
  then show ?case using a by (auto simp: ns zfree_def seg_simps fun_eq_iff)
qed

lemma release_rep:
  "list_rep h l ns \<Longrightarrow> listRelease h l =
     Inr (\<lambda>a. if a \<in> addrs ns then None else h a, if has_free l then map snd ns else [])"
  using release_loop [of ns h None l] by (auto simp: listRelease_def list_rep_def)

lemma next_forward:
  assumes "list_rep h l (ns @ ms)" and "iter_next it = first_of ms None" and "iter_dir it = AL_START_HEAD"
  shows "listNext h it =
    Inr (first_of ms None, it\<lparr>iter_next := first_of (tl ms) None\<rparr>)"
  using assms by (cases ms) (auto simp: listNext_def list_rep_def seg_simps)

lemma next_backward:
  assumes "list_rep h l (ns @ ms)" and "iter_next it = last_of None ns" and "iter_dir it = AL_START_TAIL"
  shows "listNext h it = Inr (last_of None ns, it\<lparr>iter_next := last_of None (butlast ns)\<rparr>)"
  using assms snoc_cases [of ns] by (auto simp: listNext_def list_rep_def seg_simps)

text \<open>When the list's \<open>match\<close> method, or equality without one, accepts a node's value.\<close>

definition matches :: "'v adlist \<Rightarrow> 'v \<Rightarrow> 'v \<Rightarrow> bool" where
  "matches l v key = (case match l of Some f \<Rightarrow> f v key | None \<Rightarrow> key = v)"

lemma search_loop:
  assumes "list_rep h l (ns @ ms)" and "iter_next it = first_of ms None" and "iter_dir it = AL_START_HEAD"
  shows "listSearchKey_loop h l key it =
    Some (Inr (map_option fst (find (\<lambda>(a, v). matches l v key) ms)))"
  using assms
proof (induction ms arbitrary: ns it)
  case Nil
  then show ?case by (simp add: listSearchKey_loop.simps [of h] next_forward [OF Nil.prems])
next
  case (Cons m ms)
  obtain a v where m: "m = (a, v)" by (cases m)
  have a: "deref h (Some a) = Inr \<lparr>prev = last_of None ns, next = first_of ms None, node_value = v\<rparr>"
    using Cons.prems(1) by (auto simp: list_rep_def seg_simps m)
  note unf = listSearchKey_loop.simps [of h l key it, folded matches_def]
  show ?case using Cons.IH [of "ns @ [m]"] Cons.prems
    by (simp add: unf next_forward [OF Cons.prems] m a)
qed

lemma search_rep:
  "list_rep h l ns \<Longrightarrow>
   listSearchKey h l key = Some (Inr (map_option fst (find (\<lambda>(a, v). matches l v key) ns)))"
  using search_loop [of h l "[]" ns]
  by (simp add: listSearchKey_def listGetIterator_def list_rep_def)

lemma index_forward:
  "dlseg h p ns None \<Longrightarrow> listIndex_loop next h i (first_of ns None) =
     Inr (if i < length ns then Some (fst (ns ! i)) else None)"
proof (induction ns arbitrary: p i)
  case Nil
  then show ?case by (cases i) auto
next
  case (Cons n ns)
  then show ?case by (cases n; cases i) auto
qed

lemma index_backward:
  "dlseg h None ns q \<Longrightarrow> listIndex_loop prev h i (last_of None ns) =
     Inr (if i < length ns then Some (fst (rev ns ! i)) else None)"
proof (induction ns arbitrary: q i rule: rev_induct)
  case Nil
  then show ?case by (cases i) (auto simp: seg_simps)
next
  case (snoc n ns)
  then show ?case by (cases n; cases i) (auto simp: seg_simps nth_append)
qed


section \<open>Duplication\<close>

definition dup_value :: "'v adlist \<Rightarrow> 'v \<Rightarrow> 'v option" where
  "dup_value l v = (case dup l of Some f \<Rightarrow> f v | None \<Rightarrow> Some v)"

lemma rep_frame:
  "list_rep h l ns \<Longrightarrow> \<forall>a \<in> addrs ns. h' a = h a \<Longrightarrow> list_rep h' l ns"
  using dlseg_cong [of ns h' h] by (auto simp: list_rep_def)

lemma dup_loop:
  assumes "list_rep h orig (ns @ ms)" and "list_rep h copy cs" and "addrs cs \<inter> addrs (ns @ ms) = {}"
    and "distinct as" and "\<forall>a \<in> set as. h a = None"
    and "iter_next it = first_of ms None" and "iter_dir it = AL_START_HEAD"
  shows "if length ms \<le> length as \<and> (\<forall>(a, v) \<in> set ms. dup_value copy v \<noteq> None)
    then \<exists>copy' h'. listDup_loop as h copy it = Some (Inr (Some copy', h', [])) \<and>
      list_rep h' copy' (cs @ zip as (map (\<lambda>(a, v). the (dup_value copy v)) ms)) \<and>
      (\<forall>a. a \<notin> addrs cs \<longrightarrow> a \<notin> set as \<longrightarrow> h' a = h a) \<and>
      dup copy' = dup copy \<and> has_free copy' = has_free copy \<and> match copy' = match copy
    else \<exists>freed. listDup_loop as h copy it =
      Some (Inr (None, \<lambda>a. if a \<in> addrs cs then None else h a, freed))"
  using assms
proof (induction ms arbitrary: ns h copy cs as it)
  case Nil
  then show ?case by (auto simp: listDup_loop.simps [of as] next_forward [OF Nil.prems(1,6,7)])
next
  case (Cons m ms)
  obtain a v where m: "m = (a, v)" by (cases m)
  have d: "deref h (Some a) = Inr \<lparr>prev = last_of None ns, next = first_of ms None, node_value = v\<rparr>"
    using Cons.prems(1) by (auto simp: list_rep_def seg_simps m)
  let ?it = "it\<lparr>iter_next := first_of ms None\<rparr>"
  have nx: "listNext h it = Inr (Some a, ?it)"
    using next_forward [OF Cons.prems(1,6,7)] by (simp add: m)
  note unf = listDup_loop.simps [of as h copy it, folded dup_value_def]
  note rel = release_rep [OF Cons.prems(2)]
  show ?case
  proof (cases "dup_value copy v")
    case None
    then show ?thesis by (auto simp: unf nx d m rel)
  next
    case (Some w)
    show ?thesis
    proof (cases as)
      case Nil
      then show ?thesis using Some
        by (simp add: unf [unfolded Nil] nx d m rel listAddNodeTail_def)
    next
      case (Cons b bs)
      have b: "h b = None" "b \<notin> set bs" "distinct bs" using Cons.prems(4,5) Cons by auto
      obtain h1 c1 where add: "listAddNodeTail (Some b) h copy w = Inr (True, h1, c1)"
        and rep: "list_rep h1 c1 (cs @ [(b, w)])"
        and frame: "\<forall>x. x \<noteq> b \<longrightarrow> x \<notin> addrs cs \<longrightarrow> h1 x = h x"
        and meth: "dup c1 = dup copy" "has_free c1 = has_free copy" "match c1 = match copy"
        using addTail_rep [OF Cons.prems(2) b(1), of w] by blast
      have notb: "b \<notin> addrs (ns @ m # ms)"
        using Cons.prems(1) b(1) dlseg_alloc by (fastforce simp: list_rep_def)
      have bs: "\<forall>x \<in> set bs. x \<notin> addrs cs \<and> h1 x = None"
        using Cons.prems(2,5) Cons b dlseg_alloc frame by (fastforce simp: list_rep_def)
      have fr: "(\<lambda>x. if x = b \<or> x \<in> addrs cs then None else h1 x) =
          (\<lambda>x. if x \<in> addrs cs then None else h x)"
        using frame b(1) by (auto simp: fun_eq_iff)
      have "list_rep h1 orig ((ns @ [m]) @ ms)"
        using rep_frame [OF Cons.prems(1), of h1] frame notb Cons.prems(3)
        by (metis append.assoc append_Cons append_Nil disjoint_iff)
      moreover have "addrs (cs @ [(b, w)]) \<inter> addrs ((ns @ [m]) @ ms) = {}"
        using notb Cons.prems(3) by (auto simp: seg_simps)
      moreover have "listDup_loop as h copy it = listDup_loop bs h1 c1 ?it"
        using Some by (simp add: unf [unfolded Cons] nx d add Cons)
      moreover have "dup_value c1 = dup_value copy" using meth by (simp add: dup_value_def fun_eq_iff)
      ultimately show ?thesis
        using Cons.IH [of h1 "ns @ [m]" c1 "cs @ [(b, w)]" bs ?it] rep b(3) bs Cons.prems(7) frame meth
        by (auto simp: m Cons Some fr seg_simps split: if_splits)
    qed
  qed
qed

section \<open>Properties\<close>



text \<open>A list of one node, for the witnesses.\<close>

abbreviation one_heap :: "nat nodes" where
  "one_heap \<equiv> [1 \<mapsto> \<lparr>prev = None, next = None, node_value = 7\<rparr>]"

abbreviation one_list :: "nat adlist" where
  "one_list \<equiv> listCreate\<lparr>head := Some 1, tail := Some 1, llen := 1, has_free := True\<rparr>"

lemma one_rep: "list_rep one_heap one_list [(1, 7)]"
  by (simp add: list_rep_def listCreate_def seg_simps)


text \<open>
  Reading a represented list: \<open>listIndex\<close> gives the node at a position
  from the head or, for negative indexes, from the tail, and \<open>NULL\<close> out of
  range; \<open>listSearchKey\<close> returns, and gives the first node its \<open>match\<close> method
  (or equality) accepts; \<open>listRelease\<close> frees every node exactly once and
  nothing else, handing each value to \<open>free\<close> from head to tail.
\<close>
theorem adlist_reads:
  assumes "list_rep h l ns" and "- (2 ^ 63) < i"
  shows "listIndex h l i = Inr
      (if 0 \<le> i then (if nat i < length ns then Some (fst (ns ! nat i)) else None)
       else (if nat (- i) \<le> length ns then Some (fst (ns ! (length ns - nat (- i)))) else None)) \<and>
    listSearchKey h l key = Some (Inr (map_option fst (find (\<lambda>(a, v). matches l v key) ns))) \<and>
    listRelease h l =
      Inr (\<lambda>a. if a \<in> addrs ns then None else h a, if has_free l then map snd ns else [])"
proof (intro conjI)
  let ?n = "length ns"
  show "listIndex h l i = Inr
      (if 0 \<le> i then (if nat i < ?n then Some (fst (ns ! nat i)) else None)
       else (if nat (- i) \<le> ?n then Some (fst (ns ! (?n - nat (- i)))) else None))"
  proof (cases "0 \<le> i")
    case True
    then show ?thesis using assms index_forward [of h None ns "nat i"]
      by (simp add: listIndex_def list_rep_def)
  next
    case False
    then have k: "nat (- i - 1) < ?n \<longleftrightarrow> nat (- i) \<le> ?n" "?n - Suc (nat (- i - 1)) = ?n - nat (- i)"
      by auto
    show ?thesis using False assms index_backward [of h ns None "nat (- i - 1)"] k
      by (simp add: listIndex_def list_rep_def rev_nth)
  qed
qed (use search_rep [OF assms(1)] release_rep [OF assms(1)] in simp_all)

theorem adlist_reads_witness:
  "listIndex one_heap one_list (- 1) = Inr (Some 1) \<and> listSearchKey one_heap one_list 7 = Some (Inr (Some 1))"
  using adlist_reads [OF one_rep, of "- 1" 7] by (simp add: matches_def listCreate_def)

text \<open>
  The iterator's promise: the node that \<open>listNext\<close> has just returned may be
  deleted, and the iteration goes on with the node that followed it (in the
  backward direction, the one that preceded it), although the node the
  iterator came from is gone.
\<close>
theorem adlist_iterator_survives_deletion:
  assumes "list_rep h l (ns @ (a, v) # ms)" and "iter_next it = Some a"
  shows "\<exists>it' h' l' freed. listNext h it = Inr (Some a, it') \<and>
    listDelNode h l (Some a) = Inr (h', l', freed) \<and> list_rep h' l' (ns @ ms) \<and>
    (\<exists>it''. listNext h' it' =
      Inr (if iter_dir it = AL_START_HEAD then first_of ms None else last_of None ns, it''))"
proof -
  obtain h' l' where del: "listDelNode h l (Some a) = Inr (h', l', if has_free l then [v] else [])"
    and rep: "list_rep h' l' (ns @ ms)"
    using delNode_rep [OF assms(1)] by blast
  show ?thesis
  proof (cases "iter_dir it")
    case AL_START_HEAD
    let ?it = "it\<lparr>iter_next := first_of ms None\<rparr>"
    have "listNext h it = Inr (Some a, ?it)"
      using next_forward [OF assms(1), of it] assms(2) AL_START_HEAD by simp
    moreover have "listNext h' ?it = Inr (first_of ms None, ?it\<lparr>iter_next := first_of (tl ms) None\<rparr>)"
      using AL_START_HEAD by (intro next_forward [OF rep]) simp_all
    ultimately show ?thesis using del rep AL_START_HEAD by auto
  next
    case AL_START_TAIL
    let ?it = "it\<lparr>iter_next := last_of None ns\<rparr>"
    have "list_rep h l ((ns @ [(a, v)]) @ ms)" using assms(1) by simp
    then have "listNext h it = Inr (Some a, ?it)"
      using next_backward [of h l "ns @ [(a, v)]" ms it] assms(2) AL_START_TAIL by (simp add: seg_simps)
    moreover have "listNext h' ?it = Inr (last_of None ns, ?it\<lparr>iter_next := last_of None (butlast ns)\<rparr>)"
      using AL_START_TAIL by (intro next_backward [OF rep]) simp_all
    ultimately show ?thesis using del rep AL_START_TAIL by auto
  qed
qed

theorem adlist_iterator_survives_deletion_witness:
  "\<exists>it' h' l' freed. listNext one_heap (listRewind one_list) = Inr (Some 1, it') \<and>
    listDelNode one_heap one_list (Some 1) = Inr (h', l', freed) \<and> list_rep h' l' [] \<and>
    (\<exists>it''. listNext h' it' = Inr (None, it''))"
  using adlist_iterator_survives_deletion [of one_heap one_list "[]" 1 7 "[]" "listRewind one_list"] one_rep
  by (simp add: listRewind_def listCreate_def)

text \<open>
  \<open>listDup\<close> returns; when memory and the \<open>dup\<close> method last for every node,
  it gives a list with the duplicated values in order and the same methods, on
  fresh nodes; when either fails on the way, it returns \<open>NULL\<close> and the heap is
  the one before the call: everything allocated for the copy is freed.  The
  original list is intact in both cases.
\<close>
theorem listDup_correct:
  assumes "list_rep h orig ns" and "distinct as" and "\<forall>a \<in> set as. h a = None"
  shows "if length ns \<le> length as \<and> (\<forall>(a, v) \<in> set ns. dup_value orig v \<noteq> None)
    then \<exists>copy h'. listDup as h orig = Some (Inr (Some copy, h', [])) \<and> list_rep h' orig ns \<and>
      list_rep h' copy (zip as (map (\<lambda>(a, v). the (dup_value orig v)) ns)) \<and>
      dup copy = dup orig \<and> has_free copy = has_free orig \<and> match copy = match orig
    else \<exists>freed. listDup as h orig = Some (Inr (None, h, freed))"
proof -
  let ?c = "listCreate\<lparr>dup := dup orig, has_free := has_free orig, match := match orig\<rparr>"
  have c: "list_rep h ?c []" by (simp add: list_rep_def listCreate_def seg_simps)
  have d: "dup_value ?c = dup_value orig" by (simp add: dup_value_def fun_eq_iff)
  have fresh: "a \<notin> set as" if "a \<in> addrs ns" for a
    using assms(1,3) dlseg_alloc that by (fastforce simp: list_rep_def)
  let ?it = "listGetIterator orig AL_START_HEAD"
  have it: "iter_next ?it = first_of ns None" "iter_dir ?it = AL_START_HEAD"
    using assms(1) by (simp_all add: listGetIterator_def list_rep_def)
  show ?thesis
    using dup_loop [of h orig "[]" ns ?c "[]" as ?it] assms c it fresh
      rep_frame [OF assms(1)]
    by (auto simp: d listDup_def seg_simps split: if_splits)
qed

theorem listDup_correct_witness:
  "\<exists>copy h'. listDup [5, 6] one_heap one_list = Some (Inr (Some copy, h', [])) \<and>
     list_rep h' one_list [(1, 7)] \<and> list_rep h' copy [(5, 7)]"
  using listDup_correct [OF one_rep, of "[5, 6]"] by (auto simp: dup_value_def listCreate_def)

end
