(* ===== verification/Crc.thy ===== *)
theory Crc
  imports Interfaces
begin

text \<open>
  The checksums of \<open>crc16.c\<close> (cluster hash slots) and \<open>crc64.c\<close> (RDB files and
  \<open>DUMP\<close> payloads): the table-driven loops of the code, the bit-by-bit shift
  registers of their specifications, and the proof that they agree.
\<close>

section \<open>The code\<close>

definition crc16tab :: "u16 list" where
  "crc16tab =
    [0x0000, 0x1021, 0x2042, 0x3063, 0x4084, 0x50a5, 0x60c6, 0x70e7,
     0x8108, 0x9129, 0xa14a, 0xb16b, 0xc18c, 0xd1ad, 0xe1ce, 0xf1ef,
     0x1231, 0x0210, 0x3273, 0x2252, 0x52b5, 0x4294, 0x72f7, 0x62d6,
     0x9339, 0x8318, 0xb37b, 0xa35a, 0xd3bd, 0xc39c, 0xf3ff, 0xe3de,
     0x2462, 0x3443, 0x0420, 0x1401, 0x64e6, 0x74c7, 0x44a4, 0x5485,
     0xa56a, 0xb54b, 0x8528, 0x9509, 0xe5ee, 0xf5cf, 0xc5ac, 0xd58d,
     0x3653, 0x2672, 0x1611, 0x0630, 0x76d7, 0x66f6, 0x5695, 0x46b4,
     0xb75b, 0xa77a, 0x9719, 0x8738, 0xf7df, 0xe7fe, 0xd79d, 0xc7bc,
     0x48c4, 0x58e5, 0x6886, 0x78a7, 0x0840, 0x1861, 0x2802, 0x3823,
     0xc9cc, 0xd9ed, 0xe98e, 0xf9af, 0x8948, 0x9969, 0xa90a, 0xb92b,
     0x5af5, 0x4ad4, 0x7ab7, 0x6a96, 0x1a71, 0x0a50, 0x3a33, 0x2a12,
     0xdbfd, 0xcbdc, 0xfbbf, 0xeb9e, 0x9b79, 0x8b58, 0xbb3b, 0xab1a,
     0x6ca6, 0x7c87, 0x4ce4, 0x5cc5, 0x2c22, 0x3c03, 0x0c60, 0x1c41,
     0xedae, 0xfd8f, 0xcdec, 0xddcd, 0xad2a, 0xbd0b, 0x8d68, 0x9d49,
     0x7e97, 0x6eb6, 0x5ed5, 0x4ef4, 0x3e13, 0x2e32, 0x1e51, 0x0e70,
     0xff9f, 0xefbe, 0xdfdd, 0xcffc, 0xbf1b, 0xaf3a, 0x9f59, 0x8f78,
     0x9188, 0x81a9, 0xb1ca, 0xa1eb, 0xd10c, 0xc12d, 0xf14e, 0xe16f,
     0x1080, 0x00a1, 0x30c2, 0x20e3, 0x5004, 0x4025, 0x7046, 0x6067,
     0x83b9, 0x9398, 0xa3fb, 0xb3da, 0xc33d, 0xd31c, 0xe37f, 0xf35e,
     0x02b1, 0x1290, 0x22f3, 0x32d2, 0x4235, 0x5214, 0x6277, 0x7256,
     0xb5ea, 0xa5cb, 0x95a8, 0x8589, 0xf56e, 0xe54f, 0xd52c, 0xc50d,
     0x34e2, 0x24c3, 0x14a0, 0x0481, 0x7466, 0x6447, 0x5424, 0x4405,
     0xa7db, 0xb7fa, 0x8799, 0x97b8, 0xe75f, 0xf77e, 0xc71d, 0xd73c,
     0x26d3, 0x36f2, 0x0691, 0x16b0, 0x6657, 0x7676, 0x4615, 0x5634,
     0xd94c, 0xc96d, 0xf90e, 0xe92f, 0x99c8, 0x89e9, 0xb98a, 0xa9ab,
     0x5844, 0x4865, 0x7806, 0x6827, 0x18c0, 0x08e1, 0x3882, 0x28a3,
     0xcb7d, 0xdb5c, 0xeb3f, 0xfb1e, 0x8bf9, 0x9bd8, 0xabbb, 0xbb9a,
     0x4a75, 0x5a54, 0x6a37, 0x7a16, 0x0af1, 0x1ad0, 0x2ab3, 0x3a92,
     0xfd2e, 0xed0f, 0xdd6c, 0xcd4d, 0xbdaa, 0xad8b, 0x9de8, 0x8dc9,
     0x7c26, 0x6c07, 0x5c64, 0x4c45, 0x3ca2, 0x2c83, 0x1ce0, 0x0cc1,
     0xef1f, 0xff3e, 0xcf5d, 0xdf7c, 0xaf9b, 0xbfba, 0x8fd9, 0x9ff8,
     0x6e17, 0x7e36, 0x4e55, 0x5e74, 0x2e93, 0x3eb2, 0x0ed1, 0x1ef0]"

definition crc16_step :: "u16 \<Rightarrow> u8 \<Rightarrow> u16" where
  "crc16_step crc b = push_bit 8 crc XOR crc16tab ! unat ((drop_bit 8 crc XOR ucast b) AND 0xFF)"

text \<open>A negative \<open>len\<close> runs no iteration; reading past the buffer is a fault.\<close>

fun crc16_loop :: "u8 list \<Rightarrow> nat \<Rightarrow> nat \<Rightarrow> u16 \<Rightarrow> u16 res" where
  "crc16_loop buf i 0 crc = Inr crc"
| "crc16_loop buf i (Suc n) crc =
     rbind (rd buf i) (\<lambda>b. crc16_loop buf (i + 1) n (crc16_step crc b))"

definition crc16 :: "u8 list \<Rightarrow> int \<Rightarrow> u16 res" where
  "crc16 buf len = crc16_loop buf 0 (nat len) 0"

definition crc64_tab :: "u64 list" where
  "crc64_tab =
    [0x0000000000000000, 0x7ad870c830358979, 0xf5b0e190606b12f2, 0x8f689158505e9b8b,
     0xc038e5739841b68f, 0xbae095bba8743ff6, 0x358804e3f82aa47d, 0x4f50742bc81f2d04,
     0xab28ecb46814fe75, 0xd1f09c7c5821770c, 0x5e980d24087fec87, 0x24407dec384a65fe,
     0x6b1009c7f05548fa, 0x11c8790fc060c183, 0x9ea0e857903e5a08, 0xe478989fa00bd371,
     0x7d08ff3b88be6f81, 0x07d08ff3b88be6f8, 0x88b81eabe8d57d73, 0xf2606e63d8e0f40a,
     0xbd301a4810ffd90e, 0xc7e86a8020ca5077, 0x4880fbd87094cbfc, 0x32588b1040a14285,
     0xd620138fe0aa91f4, 0xacf86347d09f188d, 0x2390f21f80c18306, 0x594882d7b0f40a7f,
     0x1618f6fc78eb277b, 0x6cc0863448deae02, 0xe3a8176c18803589, 0x997067a428b5bcf0,
     0xfa11fe77117cdf02, 0x80c98ebf2149567b, 0x0fa11fe77117cdf0, 0x75796f2f41224489,
     0x3a291b04893d698d, 0x40f16bccb908e0f4, 0xcf99fa94e9567b7f, 0xb5418a5cd963f206,
     0x513912c379682177, 0x2be1620b495da80e, 0xa489f35319033385, 0xde51839b2936bafc,
     0x9101f7b0e12997f8, 0xebd98778d11c1e81, 0x64b116208142850a, 0x1e6966e8b1770c73,
     0x8719014c99c2b083, 0xfdc17184a9f739fa, 0x72a9e0dcf9a9a271, 0x08719014c99c2b08,
     0x4721e43f0183060c, 0x3df994f731b68f75, 0xb29105af61e814fe, 0xc849756751dd9d87,
     0x2c31edf8f1d64ef6, 0x56e99d30c1e3c78f, 0xd9810c6891bd5c04, 0xa3597ca0a188d57d,
     0xec09088b6997f879, 0x96d1784359a27100, 0x19b9e91b09fcea8b, 0x636199d339c963f2,
     0xdf7adabd7a6e2d6f, 0xa5a2aa754a5ba416, 0x2aca3b2d1a053f9d, 0x50124be52a30b6e4,
     0x1f423fcee22f9be0, 0x659a4f06d21a1299, 0xeaf2de5e82448912, 0x902aae96b271006b,
     0x74523609127ad31a, 0x0e8a46c1224f5a63, 0x81e2d7997211c1e8, 0xfb3aa75142244891,
     0xb46ad37a8a3b6595, 0xceb2a3b2ba0eecec, 0x41da32eaea507767, 0x3b024222da65fe1e,
     0xa2722586f2d042ee, 0xd8aa554ec2e5cb97, 0x57c2c41692bb501c, 0x2d1ab4dea28ed965,
     0x624ac0f56a91f461, 0x1892b03d5aa47d18, 0x97fa21650afae693, 0xed2251ad3acf6fea,
     0x095ac9329ac4bc9b, 0x7382b9faaaf135e2, 0xfcea28a2faafae69, 0x8632586aca9a2710,
     0xc9622c4102850a14, 0xb3ba5c8932b0836d, 0x3cd2cdd162ee18e6, 0x460abd1952db919f,
     0x256b24ca6b12f26d, 0x5fb354025b277b14, 0xd0dbc55a0b79e09f, 0xaa03b5923b4c69e6,
     0xe553c1b9f35344e2, 0x9f8bb171c366cd9b, 0x10e3202993385610, 0x6a3b50e1a30ddf69,
     0x8e43c87e03060c18, 0xf49bb8b633338561, 0x7bf329ee636d1eea, 0x012b592653589793,
     0x4e7b2d0d9b47ba97, 0x34a35dc5ab7233ee, 0xbbcbcc9dfb2ca865, 0xc113bc55cb19211c,
     0x5863dbf1e3ac9dec, 0x22bbab39d3991495, 0xadd33a6183c78f1e, 0xd70b4aa9b3f20667,
     0x985b3e827bed2b63, 0xe2834e4a4bd8a21a, 0x6debdf121b863991, 0x1733afda2bb3b0e8,
     0xf34b37458bb86399, 0x8993478dbb8deae0, 0x06fbd6d5ebd3716b, 0x7c23a61ddbe6f812,
     0x3373d23613f9d516, 0x49aba2fe23cc5c6f, 0xc6c333a67392c7e4, 0xbc1b436e43a74e9d,
     0x95ac9329ac4bc9b5, 0xef74e3e19c7e40cc, 0x601c72b9cc20db47, 0x1ac40271fc15523e,
     0x5594765a340a7f3a, 0x2f4c0692043ff643, 0xa02497ca54616dc8, 0xdafce7026454e4b1,
     0x3e847f9dc45f37c0, 0x445c0f55f46abeb9, 0xcb349e0da4342532, 0xb1eceec59401ac4b,
     0xfebc9aee5c1e814f, 0x8464ea266c2b0836, 0x0b0c7b7e3c7593bd, 0x71d40bb60c401ac4,
     0xe8a46c1224f5a634, 0x927c1cda14c02f4d, 0x1d148d82449eb4c6, 0x67ccfd4a74ab3dbf,
     0x289c8961bcb410bb, 0x5244f9a98c8199c2, 0xdd2c68f1dcdf0249, 0xa7f41839ecea8b30,
     0x438c80a64ce15841, 0x3954f06e7cd4d138, 0xb63c61362c8a4ab3, 0xcce411fe1cbfc3ca,
     0x83b465d5d4a0eece, 0xf96c151de49567b7, 0x76048445b4cbfc3c, 0x0cdcf48d84fe7545,
     0x6fbd6d5ebd3716b7, 0x15651d968d029fce, 0x9a0d8ccedd5c0445, 0xe0d5fc06ed698d3c,
     0xaf85882d2576a038, 0xd55df8e515432941, 0x5a3569bd451db2ca, 0x20ed197575283bb3,
     0xc49581ead523e8c2, 0xbe4df122e51661bb, 0x3125607ab548fa30, 0x4bfd10b2857d7349,
     0x04ad64994d625e4d, 0x7e7514517d57d734, 0xf11d85092d094cbf, 0x8bc5f5c11d3cc5c6,
     0x12b5926535897936, 0x686de2ad05bcf04f, 0xe70573f555e26bc4, 0x9ddd033d65d7e2bd,
     0xd28d7716adc8cfb9, 0xa85507de9dfd46c0, 0x273d9686cda3dd4b, 0x5de5e64efd965432,
     0xb99d7ed15d9d8743, 0xc3450e196da80e3a, 0x4c2d9f413df695b1, 0x36f5ef890dc31cc8,
     0x79a59ba2c5dc31cc, 0x037deb6af5e9b8b5, 0x8c157a32a5b7233e, 0xf6cd0afa9582aa47,
     0x4ad64994d625e4da, 0x300e395ce6106da3, 0xbf66a804b64ef628, 0xc5bed8cc867b7f51,
     0x8aeeace74e645255, 0xf036dc2f7e51db2c, 0x7f5e4d772e0f40a7, 0x05863dbf1e3ac9de,
     0xe1fea520be311aaf, 0x9b26d5e88e0493d6, 0x144e44b0de5a085d, 0x6e963478ee6f8124,
     0x21c640532670ac20, 0x5b1e309b16452559, 0xd476a1c3461bbed2, 0xaeaed10b762e37ab,
     0x37deb6af5e9b8b5b, 0x4d06c6676eae0222, 0xc26e573f3ef099a9, 0xb8b627f70ec510d0,
     0xf7e653dcc6da3dd4, 0x8d3e2314f6efb4ad, 0x0256b24ca6b12f26, 0x788ec2849684a65f,
     0x9cf65a1b368f752e, 0xe62e2ad306bafc57, 0x6946bb8b56e467dc, 0x139ecb4366d1eea5,
     0x5ccebf68aecec3a1, 0x2616cfa09efb4ad8, 0xa97e5ef8cea5d153, 0xd3a62e30fe90582a,
     0xb0c7b7e3c7593bd8, 0xca1fc72bf76cb2a1, 0x45775673a732292a, 0x3faf26bb9707a053,
     0x70ff52905f188d57, 0x0a2722586f2d042e, 0x854fb3003f739fa5, 0xff97c3c80f4616dc,
     0x1bef5b57af4dc5ad, 0x61372b9f9f784cd4, 0xee5fbac7cf26d75f, 0x9487ca0fff135e26,
     0xdbd7be24370c7322, 0xa10fceec0739fa5b, 0x2e675fb4576761d0, 0x54bf2f7c6752e8a9,
     0xcdcf48d84fe75459, 0xb71738107fd2dd20, 0x387fa9482f8c46ab, 0x42a7d9801fb9cfd2,
     0x0df7adabd7a6e2d6, 0x772fdd63e7936baf, 0xf8474c3bb7cdf024, 0x829f3cf387f8795d,
     0x66e7a46c27f3aa2c, 0x1c3fd4a417c62355, 0x935745fc4798b8de, 0xe98f353477ad31a7,
     0xa6df411fbfb21ca3, 0xdc0731d78f8795da, 0x536fa08fdfd90e51, 0x29b7d047efec8728]"

definition crc64_step :: "u64 \<Rightarrow> u8 \<Rightarrow> u64" where
  "crc64_step crc byte = crc64_tab ! unat (ucast crc XOR byte) XOR drop_bit 8 crc"

fun crc64_loop :: "u8 list \<Rightarrow> nat \<Rightarrow> nat \<Rightarrow> u64 \<Rightarrow> u64 res" where
  "crc64_loop s j 0 crc = Inr crc"
| "crc64_loop s j (Suc n) crc =
     rbind (rd s j) (\<lambda>byte. crc64_loop s (j + 1) n (crc64_step crc byte))"

definition crc64 :: "u64 \<Rightarrow> u8 list \<Rightarrow> u64 \<Rightarrow> u64 res" where
  "crc64 crc s l = crc64_loop s 0 (unat l) crc"

section \<open>The specification\<close>

text \<open>One bit of the shift registers: polynomial 0x1021, high bit first.\<close>

definition crc16_shift :: "u16 \<Rightarrow> u16" where
  "crc16_shift c = (if bit c 15 then push_bit 1 c XOR 0x1021 else push_bit 1 c)"

text \<open>Polynomial 0xad93d23594c935a9, low bit first, so its image is reversed.\<close>

definition crc64_shift :: "u64 \<Rightarrow> u64" where
  "crc64_shift c = (if bit c 0 then drop_bit 1 c XOR 0x95ac9329ac4bc9b5 else drop_bit 1 c)"

section \<open>Linearity\<close>

text \<open>
  A shift register is linear over \<open>XOR\<close>, and so is any number of its steps:
  the table of a register is spanned by its entries at the powers of two.
\<close>

definition xor_double :: "'a::len word \<Rightarrow> 'a word list \<Rightarrow> 'a word list" where
  "xor_double t xs = xs @ map (\<lambda>x. t XOR x) xs"

lemma xor_double_simps:
  "xor_double t [] = []" "xor_double t xs = xs @ map (\<lambda>x. t XOR x) xs"
  by (simp_all add: xor_double_def)

locale linear_map =
  fixes f :: "'a::len word \<Rightarrow> 'b::len word"
  assumes xor: "f (x XOR y) = f x XOR f y"
begin

lemma zero: "f 0 = 0"
  using xor [of 0 0] by simp

lemma table:
  "k \<le> LENGTH('a) \<Longrightarrow>
   map (\<lambda>i. f (word_of_nat i)) [0..<2 ^ k] = foldr xor_double (map (\<lambda>j. f (2 ^ j)) (rev [0..<k])) [0]"
proof (induction k)
  case 0
  then show ?case by (simp add: zero)
next
  case (Suc k)
  have bit: "word_of_nat i + 2 ^ k = (2 ^ k XOR word_of_nat i :: 'a word)" if "i < 2 ^ k" for i
  proof (rule bit_word_eqI)
    fix n assume n: "n < LENGTH('a)"
    have nb: "\<not> bit i m" if "k \<le> m" for m
    proof -
      have "i < 2 ^ m" using \<open>i < 2 ^ k\<close> that by (meson less_le_trans one_le_numeral power_increasing)
      then show ?thesis by (simp add: bit_iff_odd)
    qed
    have "i + 2 ^ k = i OR 2 ^ k" by (rule disjunctive_add) (auto simp: bit_exp_iff nb)
    also have "\<dots> = push_bit k 1 XOR i" by (rule bit_eqI) (auto simp: bit_simps nb)
    finally have "i + 2 ^ k = push_bit k 1 XOR i" .
    then have "word_of_nat (i + 2 ^ k) = (word_of_nat (push_bit k 1 XOR i) :: 'a word)" by (simp only:)
    then have eq: "word_of_nat i + 2 ^ k = (word_of_nat (push_bit k 1 XOR i) :: 'a word)" by simp
    show "bit (word_of_nat i + 2 ^ k :: 'a word) n = bit (2 ^ k XOR word_of_nat i :: 'a word) n"
      using n by (simp only: eq) (simp add: bit_simps)
  qed
  have "[0..<2 ^ Suc k] = [0..<2 ^ k] @ map (\<lambda>i. i + 2 ^ k) [0..<2 ^ k]"
    by (simp add: map_add_upt [symmetric] upt_add_eq_append mult_2)
  then have "map (\<lambda>i. f (word_of_nat i)) [0..<2 ^ Suc k] =
      map (\<lambda>i. f (word_of_nat i)) [0..<2 ^ k] @ map (\<lambda>i. f (word_of_nat (i + 2 ^ k))) [0..<2 ^ k]"
    by (simp only: map_append map_map o_def)
  also have "map (\<lambda>i. f (word_of_nat (i + 2 ^ k))) [0..<2 ^ k] =
      map (\<lambda>x. f (2 ^ k) XOR x) (map (\<lambda>i. f (word_of_nat i)) [0..<2 ^ k])"
    by (simp add: bit xor)
  finally show ?case using Suc by (simp add: xor_double_def)
qed

end

lemma linear_funpow:
  fixes f :: "'a::len word \<Rightarrow> 'a word"
  assumes "\<And>x y. f (x XOR y) = f x XOR f y"
  shows "(f ^^ n) (x XOR y) = (f ^^ n) x XOR (f ^^ n) y"
  by (induction n) (simp_all add: assms)

lemma crc16_shift_xor: "crc16_shift (x XOR y) = crc16_shift x XOR crc16_shift y"
  by (rule bit_word_eqI) (auto simp: crc16_shift_def bit_simps)

lemma crc64_shift_xor: "crc64_shift (x XOR y) = crc64_shift x XOR crc64_shift y"
  by (rule bit_word_eqI) (auto simp: crc64_shift_def bit_simps)

lemma push_bit_xor_word: "push_bit n (x XOR y) = push_bit n x XOR (push_bit n y :: 'a::len word)"
  by (rule bit_word_eqI) (auto simp: bit_simps)

interpretation crc16: linear_map "\<lambda>x :: u16. (crc16_shift ^^ 8) (push_bit 8 x)"
  by unfold_locales (simp add: push_bit_xor_word linear_funpow crc16_shift_xor)

interpretation crc64: linear_map "\<lambda>x :: u64. (crc64_shift ^^ 8) x"
  by unfold_locales (rule linear_funpow [OF crc64_shift_xor])

section \<open>The tables\<close>

text \<open>The entries at the powers of two, highest first, by running the registers.\<close>

lemma crc16_chain:
  "crc16_shift 0x100 = 0x200"
  "crc16_shift 0x200 = 0x400"
  "crc16_shift 0x400 = 0x800"
  "crc16_shift 0x800 = 0x1000"
  "crc16_shift 0x1000 = 0x2000"
  "crc16_shift 0x2000 = 0x4000"
  "crc16_shift 0x4000 = 0x8000"
  "crc16_shift 0x8000 = 0x1021"
  "crc16_shift 0x1021 = 0x2042"
  "crc16_shift 0x2042 = 0x4084"
  "crc16_shift 0x4084 = 0x8108"
  "crc16_shift 0x8108 = 0x1231"
  "crc16_shift 0x1231 = 0x2462"
  "crc16_shift 0x2462 = 0x48c4"
  "crc16_shift 0x48c4 = 0x9188"
  by (simp_all add: crc16_shift_def)

lemma crc64_chain:
  "crc64_shift 0x80 = 0x40"
  "crc64_shift 0x40 = 0x20"
  "crc64_shift 0x20 = 0x10"
  "crc64_shift 0x10 = 0x8"
  "crc64_shift 0x8 = 0x4"
  "crc64_shift 0x4 = 0x2"
  "crc64_shift 0x2 = 0x1"
  "crc64_shift 0x1 = 0x95ac9329ac4bc9b5"
  "crc64_shift 0x95ac9329ac4bc9b5 = 0xdf7adabd7a6e2d6f"
  "crc64_shift 0xdf7adabd7a6e2d6f = 0xfa11fe77117cdf02"
  "crc64_shift 0xfa11fe77117cdf02 = 0x7d08ff3b88be6f81"
  "crc64_shift 0x7d08ff3b88be6f81 = 0xab28ecb46814fe75"
  "crc64_shift 0xab28ecb46814fe75 = 0xc038e5739841b68f"
  "crc64_shift 0xc038e5739841b68f = 0xf5b0e190606b12f2"
  "crc64_shift 0xf5b0e190606b12f2 = 0x7ad870c830358979"
  by (simp_all add: crc64_shift_def)

lemma funpow8: "(f ^^ 8) x = f (f (f (f (f (f (f (f x)))))))"
  by (simp add: eval_nat_numeral)

lemma upt8: "rev [0..<8] = [7, 6, 5, 4, 3, 2, 1, 0]"
  by (simp add: upt_rec)

lemma crc16_powers:
  "map (\<lambda>j. (crc16_shift ^^ 8) (push_bit 8 (2 ^ j))) (rev [0..<8]) =
    [0x9188, 0x48c4, 0x2462, 0x1231, 0x8108, 0x4084, 0x2042, 0x1021]"
  by (simp add: upt8 funpow8 push_bit_eq_mult crc16_chain)

lemma crc64_powers:
  "map (\<lambda>j. (crc64_shift ^^ 8) (2 ^ j)) (rev [0..<8]) =
    [0x95ac9329ac4bc9b5, 0xdf7adabd7a6e2d6f, 0xfa11fe77117cdf02, 0x7d08ff3b88be6f81,
     0xab28ecb46814fe75, 0xc038e5739841b68f, 0xf5b0e190606b12f2, 0x7ad870c830358979]"
  by (simp add: upt8 funpow8 crc64_chain)

lemma crc16_table: "crc16tab = map (\<lambda>i. (crc16_shift ^^ 8) (push_bit 8 (word_of_nat i))) [0..<2 ^ 8]"
  by (subst crc16.table, simp) (simp only: crc16_powers, simp add: xor_double_simps crc16tab_def)

lemma crc64_table: "crc64_tab = map (\<lambda>i. (crc64_shift ^^ 8) (word_of_nat i)) [0..<2 ^ 8]"
  by (subst crc64.table, simp) (simp only: crc64_powers, simp add: xor_double_simps crc64_tab_def)

section \<open>The loops run the shift registers\<close>

lemma xor_cancel: "a XOR c = b XOR c \<longleftrightarrow> a = b" "c XOR a = c XOR b \<longleftrightarrow> a = b" for a b c :: "'a::len word"
  by (auto simp: bit_eq_iff bit_xor_iff)

lemma bit_FF: "bit (0xFF :: int) n \<longleftrightarrow> n < 8"
proof -
  have "(0xFF :: int) = mask 8" by (simp add: mask_eq_exp_minus_1)
  then show ?thesis by (simp only: bit_mask_iff possible_bit_int) simp
qed

lemma crc16_low:
  assumes "n \<le> 8"
  shows "(crc16_shift ^^ n) (c AND 0xFF) = push_bit n (c AND 0xFF)"
  using assms
proof (induction n)
  case (Suc n)
  have "\<not> bit (push_bit n (c AND 0xFF)) 15"
    using Suc.prems by (auto simp: bit_simps bit_FF)
  then show ?case using Suc by (simp add: crc16_shift_def)
qed simp

lemma crc64_high:
  assumes "n \<le> 8" and "\<forall>k < 8. \<not> bit c k"
  shows "(crc64_shift ^^ n) c = drop_bit n c"
  using assms
proof (induction n)
  case (Suc n)
  then have "\<not> bit (drop_bit n c) 0" by (simp add: bit_simps)
  then show ?case using Suc by (simp add: crc64_shift_def)
qed simp

lemma word_of_unat8: "word_of_nat (unat (b :: u8)) = ucast b"
  by (rule bit_word_eqI) (simp add: bit_simps)

lemma crc16_step_shift: "crc16_step c b = (crc16_shift ^^ 8) (c XOR push_bit 8 (ucast b))"
proof -
  let ?h = "(drop_bit 8 c XOR ucast b) AND 0xFF :: u16"
  have "unat ?h < 2 ^ 8"
  proof -
    have "?h = take_bit 8 ?h" by (rule bit_word_eqI) (auto simp: bit_simps bit_FF)
    then have "unat ?h = take_bit 8 (unat ?h)" using unsigned_take_bit_eq [of 8 ?h] by (rule ssubst)
    then show ?thesis using take_bit_nat_less_exp [of 8 "unat ?h"] by simp
  qed
  then have tab: "crc16tab ! unat ?h = (crc16_shift ^^ 8) (push_bit 8 ?h)"
    by (simp add: crc16_table)
  have "c XOR push_bit 8 (ucast b) = push_bit 8 ?h XOR (c AND 0xFF)"
  proof (rule bit_word_eqI)
    fix n assume "n < LENGTH(16)"
    moreover have "(0xFF :: u16) = mask 8" by (simp add: mask_eq_exp_minus_1)
    ultimately show "bit (c XOR push_bit 8 (ucast b)) n = bit (push_bit 8 ?h XOR (c AND 0xFF)) n"
      by (simp only: bit_push_bit_iff bit_and_iff bit_xor_iff bit_drop_bit_eq bit_ucast_iff
        bit_mask_iff possible_bit_word o_apply) auto
  qed
  moreover have "push_bit 8 (c AND 0xFF) = push_bit 8 c"
  proof -
    have "(0xFF :: u16) = mask 8" by (simp add: mask_eq_exp_minus_1)
    then show ?thesis
      by (intro bit_word_eqI) (simp only: bit_push_bit_iff bit_and_iff bit_mask_iff possible_bit_word; auto)
  qed
  ultimately have "(crc16_shift ^^ 8) (c XOR push_bit 8 (ucast b)) =
      (crc16_shift ^^ 8) (push_bit 8 ?h) XOR push_bit 8 c"
    by (simp only: linear_funpow [OF crc16_shift_xor] crc16_low [OF order_refl])
  then show ?thesis unfolding crc16_step_def tab by (simp only: xor.commute)
qed

lemma crc64_step_shift: "crc64_step c b = (crc64_shift ^^ 8) (c XOR ucast b)"
proof -
  let ?l = "ucast c XOR b :: u8"
  have tab: "crc64_tab ! unat ?l = (crc64_shift ^^ 8) (ucast ?l)"
    using unsigned_less [of ?l, where 'a = nat] by (simp add: crc64_table word_of_unat8)
  have "c XOR ucast b = ucast ?l XOR (c AND NOT (mask 8))"
    by (rule bit_word_eqI) (auto simp: bit_simps)
  moreover have "(crc64_shift ^^ 8) (c AND NOT (mask 8)) = drop_bit 8 (c AND NOT (mask 8))"
    by (rule crc64_high) (auto simp: bit_simps)
  moreover have "drop_bit 8 (c AND NOT (mask 8)) = drop_bit 8 c"
    by (rule bit_word_eqI) (auto simp: bit_simps dest: bit_imp_le_length)
  ultimately show ?thesis
    by (simp add: crc64_step_def tab linear_funpow [OF crc64_shift_xor])
qed

lemma crc16_loop_foldl:
  "i + n \<le> length buf \<Longrightarrow> crc16_loop buf i n c = Inr (foldl crc16_step c (peek buf i n))"
proof (induction n arbitrary: i c)
  case (Suc n)
  then have "peek buf i (Suc n) = buf ! i # peek buf (i + 1) n"
    by (simp add: peek_def Cons_nth_drop_Suc [symmetric])
  then show ?case using Suc by (simp add: fault_simps)
qed (simp add: peek_def)

lemma crc64_loop_foldl:
  "i + n \<le> length buf \<Longrightarrow> crc64_loop buf i n c = Inr (foldl crc64_step c (peek buf i n))"
proof (induction n arbitrary: i c)
  case (Suc n)
  then have "peek buf i (Suc n) = buf ! i # peek buf (i + 1) n"
    by (simp add: peek_def Cons_nth_drop_Suc [symmetric])
  then show ?case using Suc by (simp add: fault_simps)
qed (simp add: peek_def)

lemma crc16_foldl: "nat len \<le> length buf \<Longrightarrow> crc16 buf len = Inr (foldl crc16_step 0 (take (nat len) buf))"
  by (simp add: crc16_def crc16_loop_foldl) (simp add: peek_def)

lemma crc64_foldl: "unat l \<le> length s \<Longrightarrow> crc64 c s l = Inr (foldl crc64_step c (take (unat l) s))"
  by (simp add: crc64_def crc64_loop_foldl) (simp add: peek_def)

section \<open>Detection of corruption\<close>

lemma crc64_shift_inj: "crc64_shift x = crc64_shift y \<Longrightarrow> x = y"
proof -
  assume "crc64_shift x = crc64_shift y"
  then have z: "crc64_shift (x XOR y) = 0" by (simp add: crc64_shift_xor)
  have "bit (crc64_shift w) 63 = bit w 0" for w
    by (auto simp: crc64_shift_def bit_simps dest: bit_imp_le_length)
  then have b0: "\<not> bit (x XOR y) 0" using z by (metis bit_0_eq bot_apply bot_bool_def)
  then have d: "drop_bit 1 (x XOR y) = 0" using z by (simp add: crc64_shift_def)
  have "x XOR y = 0"
  proof (rule bit_word_eqI)
    fix n
    show "bit (x XOR y) n = bit 0 n"
    proof (cases n)
      case (Suc m)
      have "bit (drop_bit 1 (x XOR y)) m = bit (0 :: u64) m" by (simp only: d)
      then show ?thesis by (simp only: Suc bit_drop_bit_eq o_apply bit_0_eq bot_apply plus_1_eq_Suc)
    qed (use b0 in simp)
  qed
  then show "x = y" using xor_cancel(1) [of x y y] by simp
qed

lemma crc64_step_inj: "crc64_step c b = crc64_step c' b' \<Longrightarrow> c XOR ucast b = c' XOR ucast b'"
proof -
  have "(crc64_shift ^^ n) x = (crc64_shift ^^ n) y \<Longrightarrow> x = y" for n x y
    by (induction n) (auto dest: crc64_shift_inj)
  then show "crc64_step c b = crc64_step c' b' \<Longrightarrow> c XOR ucast b = c' XOR ucast b'"
    by (simp add: crc64_step_shift)
qed

lemma crc64_fold_inj: "foldl crc64_step c bs = foldl crc64_step c' bs \<Longrightarrow> c = c'"
proof (induction bs arbitrary: c c')
  case (Cons b bs)
  then have "foldl crc64_step (crc64_step c b) bs = foldl crc64_step (crc64_step c' b) bs" by simp
  then have "c XOR ucast b = c' XOR ucast b" by (rule crc64_step_inj [OF Cons.IH])
  then show ?case by (simp add: xor_cancel)
qed simp

lemma crc64_byte_detected:
  assumes "b \<noteq> b'"
  shows "foldl crc64_step c (xs @ b # ys) \<noteq> foldl crc64_step c (xs @ b' # ys)"
proof
  assume "foldl crc64_step c (xs @ b # ys) = foldl crc64_step c (xs @ b' # ys)"
  then have "crc64_step (foldl crc64_step c xs) b = crc64_step (foldl crc64_step c xs) b'"
    using crc64_fold_inj by simp
  then have "ucast b = (ucast b' :: u64)"
    using crc64_step_inj xor_cancel(2) by blast
  then have "unat (ucast b :: u64) = unat (ucast b' :: u64)" by simp
  then have "unat b = unat b'" by (simp add: unat_ucast_up)
  then show False using assms by (simp add: word_unat_eq_iff)
qed

section \<open>Properties\<close>

text \<open>
  The table-driven \<open>crc16\<close> is the bit-serial CRC of polynomial 0x1021: it
  never reads outside the buffer when \<open>len\<close> is at most its length, and gives
  what the shift register gives when it is fed the bytes high bit first,
  starting from 0.  A non-positive \<open>len\<close> gives 0.
\<close>
theorem crc16_correct:
  assumes "nat len \<le> length buf"
  shows "crc16 buf len =
    Inr (foldl (\<lambda>c b. (crc16_shift ^^ 8) (c XOR push_bit 8 (ucast b))) 0 (take (nat len) buf))"
  using assms crc16_foldl by (simp add: crc16_step_shift [abs_def])

theorem crc16_correct_witness:
  "crc16 [0x31] 1 = Inr 0x2672"
  using crc16_correct [of 1 "[0x31]"]
  by (simp add: funpow8 crc16_shift_def)

text \<open>
  C21: The table-driven \<open>crc64\<close> is the bit-serial reflected CRC of polynomial
  0xad93d23594c935a9 started from the state it is given, with no conditioning
  of input or output; feeding a buffer in two parts gives the same state as
  feeding it whole.
\<close>
theorem crc64_correct:
  assumes "unat l \<le> length xs" and "unat l' \<le> length ys" and "unat l'' = unat l + unat l'"
  shows "crc64 c xs l = Inr (foldl (\<lambda>c b. (crc64_shift ^^ 8) (c XOR ucast b)) c (take (unat l) xs)) \<and>
    rbind (crc64 c xs l) (\<lambda>c. crc64 c ys l') = crc64 c (take (unat l) xs @ ys) l''"
  using assms by (simp add: crc64_foldl crc64_step_shift [abs_def] min_def)

theorem crc64_correct_witness:
  "rbind (crc64 0 (bytes_of ''1234'') 4) (\<lambda>c. crc64 c (bytes_of ''56789'') 5) =
     crc64 0 (bytes_of ''123456789'') 9"
  by (rule crc64_correct [of 4 "bytes_of ''1234''" 5 "bytes_of ''56789''" 9 0, THEN conjunct2, THEN trans])
    simp_all

text \<open>The check value of the header comment, with the initial state 0 the callers use.\<close>

lemma crc64_check: "crc64 0 (bytes_of ''123456789'') 9 = Inr 0xe9c6d914c4b8d9ca"
  by (subst crc64_foldl) (simp_all add: crc64_step_def crc64_tab_def)

end
