(* ===== verification/Slots.thy ===== *)
theory Slots
  imports Crc
begin

text \<open>
  What \<open>cluster.c\<close> builds on the checksums: the hash slot of a key, with hash
  tags, and the footer of the \<open>DUMP\<close> format that \<open>RESTORE\<close> verifies.
\<close>

section \<open>Hash slots\<close>

text \<open>\<open>for (s = i; s < keylen; s++) if (key[s] == c) break;\<close>\<close>

function find_byte :: "u8 list \<Rightarrow> u8 \<Rightarrow> nat \<Rightarrow> nat \<Rightarrow> nat res" where
  "find_byte key c s keylen =
     (if s < keylen then
        rbind (rd key s) (\<lambda>b. if b = c then Inr s else find_byte key c (s + 1) keylen)
      else Inr s)"
  by pat_completeness auto
termination by (relation "measure (\<lambda>(key, c, s, keylen). keylen - s)") auto

declare find_byte.simps [simp del]

definition keyHashSlot :: "u8 list \<Rightarrow> nat \<Rightarrow> u16 res" where
  "keyHashSlot key keylen =
     rbind (find_byte key (byte_of CHR ''{'') 0 keylen) (\<lambda>s.
     if s = keylen then rbind (crc16 key (int keylen)) (\<lambda>h. Inr (h AND 0x3FFF))
     else
       rbind (find_byte key (byte_of CHR ''}'') (s + 1) keylen) (\<lambda>e.
       if e = keylen \<or> e = s + 1 then rbind (crc16 key (int keylen)) (\<lambda>h. Inr (h AND 0x3FFF))
       else rbind (crc16 (drop (s + 1) key) (int e - int s - 1)) (\<lambda>h. Inr (h AND 0x3FFF))))"

section \<open>The \<open>DUMP\<close> footer\<close>

definition REDIS_RDB_VERSION :: u16 where
  "REDIS_RDB_VERSION = 6"

text \<open>
  \<open>body\<close> is what \<open>rdbSaveObjectType\<close> and \<open>rdbSaveObject\<close> have put into the
  payload; the two bytes of the version and the checksum of everything before
  it, both little endian, are appended.
\<close>

definition createDumpPayload :: "u8 list \<Rightarrow> u8 list res" where
  "createDumpPayload body =
     (let payload = body @ [ucast (REDIS_RDB_VERSION AND 0xff),
                            ucast (drop_bit 8 REDIS_RDB_VERSION AND 0xff)]
      in rbind (crc64 0 payload (word_of_nat (length payload))) (\<lambda>crc.
         Inr (payload @ le_bytes 8 crc)))"

text \<open>\<open>True\<close> is \<open>REDIS_OK\<close>.\<close>

definition verifyDumpPayload :: "u8 list \<Rightarrow> nat \<Rightarrow> bool res" where
  "verifyDumpPayload p len =
     (if len < 10 then Inr False
      else
        let footer = len - 10
        in rbind (rd p (footer + 1)) (\<lambda>b1.
           rbind (rd p footer) (\<lambda>b0.
           if push_bit 8 (ucast b1) OR ucast b0 \<noteq> REDIS_RDB_VERSION then Inr False
           else rbind (crc64 0 p (word_of_nat (len - 8))) (\<lambda>crc.
                if footer + 10 \<le> length p
                then Inr (le_bytes 8 crc = peek p (footer + 2) 8)
                else Inl OutOfBounds))))"

section \<open>The slot of a key\<close>

lemma find_byte_spec:
  "s \<le> keylen \<Longrightarrow> keylen \<le> length key \<Longrightarrow> find_byte key c s keylen =
     Inr (s + length (takeWhile (\<lambda>b. b \<noteq> c) (peek key s (keylen - s))))"
proof (induction key c s keylen rule: find_byte.induct)
  case (1 key c s keylen)
  show ?case
  proof (cases "s < keylen")
    case True
    then have "peek key s (keylen - s) = key ! s # peek key (s + 1) (keylen - (s + 1))"
      using 1(3) by (simp add: peek_def Cons_nth_drop_Suc [symmetric] take_Cons' )
    then show ?thesis using 1 True by (simp add: find_byte.simps [of key c s] fault_simps)
  next
    case False
    then show ?thesis using 1 by (simp add: find_byte.simps [of key c keylen] peek_def)
  qed
qed

text \<open>The part of a key that is hashed.\<close>

definition hash_part :: "u8 list \<Rightarrow> u8 list" where
  "hash_part key =
     (let tag = takeWhile (\<lambda>b. b \<noteq> byte_of CHR ''}'') (tl (dropWhile (\<lambda>b. b \<noteq> byte_of CHR ''{'') key))
      in if byte_of CHR ''{'' \<in> set key \<and> tag \<noteq> [] \<and>
           byte_of CHR ''}'' \<in> set (tl (dropWhile (\<lambda>b. b \<noteq> byte_of CHR ''{'') key))
         then tag else key)"

definition crc16_bytes :: "u8 list \<Rightarrow> u16" where
  "crc16_bytes bs = foldl crc16_step 0 bs"

lemma crc16_part: "crc16 bs (int (length bs)) = Inr (crc16_bytes bs)"
  by (simp add: crc16_foldl crc16_bytes_def)

lemma takeWhile_full: "length (takeWhile P xs) = length xs \<longleftrightarrow> (\<forall>x \<in> set xs. P x)"
  by (metis takeWhile_eq_all_conv takeWhile_eq_take take_all_iff le_refl)

lemma keyHashSlot_part:
  assumes "keylen \<le> length key"
  shows "keyHashSlot key keylen = Inr (crc16_bytes (hash_part (take keylen key)) AND 0x3FFF)"
proof -
  let ?k = "take keylen key" and ?o = "byte_of CHR ''{''" and ?c = "byte_of CHR ''}''"
  let ?pre = "takeWhile (\<lambda>b. b \<noteq> ?o) ?k" and ?suf = "tl (dropWhile (\<lambda>b. b \<noteq> ?o) ?k)"
  have whole: "crc16 key (int keylen) = Inr (crc16_bytes ?k)"
    using assms by (simp add: crc16_foldl crc16_bytes_def)
  have s: "find_byte key ?o 0 keylen = Inr (length ?pre)"
    using find_byte_spec [of 0 keylen key ?o] assms by (simp add: peek_def)
  show ?thesis
  proof (cases "?o \<in> set ?k")
    case False
    then have "length ?pre = keylen" using assms takeWhile_full [of "\<lambda>b. b \<noteq> ?o" ?k] by auto
    then show ?thesis using False s whole by (simp add: keyHashSlot_def hash_part_def Let_def)
  next
    case True
    have lt: "length ?pre < keylen" "length ?pre \<noteq> keylen"
      using True assms takeWhile_full [of "\<lambda>b. b \<noteq> ?o" ?k] length_takeWhile_le [of "\<lambda>b. b \<noteq> ?o" ?k]
      by fastforce+
    have suf: "?suf = peek key (length ?pre + 1) (keylen - (length ?pre + 1))"
      by (simp add: dropWhile_eq_drop peek_def drop_take tl_take tl_drop drop_Suc)
    then have lsuf: "length ?suf = keylen - (length ?pre + 1)" using lt assms by (simp add: buf_simps)
    let ?tag = "takeWhile (\<lambda>b. b \<noteq> ?c) ?suf"
    have e: "find_byte key ?c (length ?pre + 1) keylen = Inr (length ?pre + 1 + length ?tag)"
      using find_byte_spec [of "length ?pre + 1" keylen key ?c] lt assms suf by simp
    have end_iff: "length ?pre + 1 + length ?tag = keylen \<longleftrightarrow> ?c \<notin> set ?suf"
      using takeWhile_full [of "\<lambda>b. b \<noteq> ?c" ?suf] lt lsuf by auto
    have "crc16 (drop (length ?pre + 1) key)
        (int (length ?pre + 1 + length ?tag) - int (length ?pre) - 1) = Inr (crc16_bytes ?tag)"
    proof -
      have "length ?tag \<le> length ?suf" by (rule length_takeWhile_le)
      then have "length ?tag \<le> keylen - (length ?pre + 1)" by (simp only: lsuf)
      moreover have "?tag = take (length ?tag) (drop (length ?pre + 1) key)"
      proof -
        have "?tag = take (length ?tag) ?suf" by (rule takeWhile_eq_take)
        also have "\<dots> = take (length ?tag) (drop (length ?pre + 1) key)"
          using \<open>length ?tag \<le> keylen - (length ?pre + 1)\<close> by (simp only: suf peek_def take_take) (simp add: min_def)
        finally show ?thesis .
      qed
      ultimately show ?thesis using lt assms
        by (subst crc16_foldl) (auto simp: crc16_bytes_def)
    qed
    then show ?thesis using True s e lt(2) end_iff whole
      by (auto simp: keyHashSlot_def hash_part_def Let_def)
  qed
qed

section \<open>Properties\<close>

text \<open>
  C22: \<open>keyHashSlot\<close> reads only the key and gives a slot below 16384: the CRC16,
  modulo 16384, of the bytes between the first opening brace and the first
  closing brace after it when there is such a non-empty tag, and of the whole
  key otherwise.
\<close>
theorem keyHashSlot_correct:
  assumes "keylen \<le> length key"
  shows "\<exists>h slot. crc16 (hash_part (take keylen key)) (int (length (hash_part (take keylen key)))) = Inr h \<and>
    keyHashSlot key keylen = Inr slot \<and> unat slot = unat h mod 16384"
proof -
  let ?c = "crc16_bytes (hash_part (take keylen key))"
  have "?c AND 0x3FFF = take_bit 14 ?c"
    by (simp add: take_bit_eq_mask mask_eq_exp_minus_1)
  then have "unat (?c AND 0x3FFF) = unat ?c mod 16384"
    by (simp only: unsigned_take_bit_eq) (simp add: take_bit_eq_mod)
  then show ?thesis using keyHashSlot_part [OF assms] by (auto simp: crc16_part)
qed

theorem keyHashSlot_correct_witness:
  "\<exists>slot. keyHashSlot (bytes_of ''a{b}'') 4 = Inr slot \<and> unat slot = 3300"
proof -
  have "crc16 (bytes_of ''b'') 1 = Inr 0x4ce4"
    using crc16_part [of "bytes_of ''b''"] by (simp add: crc16_bytes_def crc16_step_def crc16tab_def)
  then show ?thesis using keyHashSlot_correct [of 4 "bytes_of ''a{b}''"]
    by (auto simp: hash_part_def)
qed

text \<open>
  Keys with the same non-empty hash tag are in the same slot, whatever is
  around the tag: only the text before the opening brace must not hold an
  opening brace and the tag no closing one.
\<close>
theorem keyHashSlot_same_tag:
  fixes p p' q q' tag :: "u8 list"
  assumes "byte_of CHR ''{'' \<notin> set p" and "byte_of CHR ''{'' \<notin> set p'"
    and "byte_of CHR ''}'' \<notin> set tag" and "tag \<noteq> []"
  defines "k \<equiv> p @ byte_of CHR ''{'' # tag @ byte_of CHR ''}'' # q"
    and "k' \<equiv> p' @ byte_of CHR ''{'' # tag @ byte_of CHR ''}'' # q'"
  shows "keyHashSlot k (length k) = keyHashSlot k' (length k')"
proof -
  have "hash_part (p @ byte_of CHR ''{'' # tag @ byte_of CHR ''}'' # q) = tag"
    if "byte_of CHR ''{'' \<notin> set p" for p q :: "u8 list"
  proof -
    have "\<forall>b \<in> set p. b \<noteq> byte_of CHR ''{''" "\<forall>b \<in> set tag. b \<noteq> byte_of CHR ''}''"
      using that assms(3) by auto
    then show ?thesis using assms(4)
      by (simp add: hash_part_def Let_def dropWhile_append2 takeWhile_append2)
  qed
  then have "hash_part k = tag" "hash_part k' = tag" using assms by simp_all
  then show ?thesis by (simp add: keyHashSlot_part)
qed

theorem keyHashSlot_same_tag_witness:
  "keyHashSlot (bytes_of ''{user}.a'') (length (bytes_of ''{user}.a'')) =
   keyHashSlot (bytes_of ''x{user}'') (length (bytes_of ''x{user}''))"
  using keyHashSlot_same_tag [of "[]" "bytes_of ''x''" "bytes_of ''user''" "bytes_of ''.a''" "[]"]
  by simp

text \<open>
  C23: What \<open>createDumpPayload\<close> builds, \<open>verifyDumpPayload\<close> accepts; and when one
  byte of it is changed, wherever it is (in the value, the version or the
  checksum), it is rejected.
\<close>
theorem dump_payload_integrity:
  assumes "length body + 10 < 2 ^ 64"
  shows "\<exists>p. createDumpPayload body = Inr p \<and> length p = length body + 10 \<and>
    verifyDumpPayload p (length p) = Inr True \<and>
    (\<forall>i b. i < length p \<longrightarrow> b \<noteq> p ! i \<longrightarrow> verifyDumpPayload (p[i := b]) (length p) = Inr False)"
proof -
  let ?v = "[6, 0] :: u8 list" and ?n = "length body + 2"
  define crc where "crc = foldl crc64_step 0 (body @ ?v)"
  let ?p = "(body @ ?v) @ le_bytes 8 crc"
  have n: "unat (word_of_nat ?n :: u64) = ?n"
    using assms by (simp only: unsigned_of_nat) (simp add: take_bit_nat_eq_self)
  have c: "createDumpPayload body = Inr ?p"
    using n by (simp add: createDumpPayload_def Let_def crc64_foldl REDIS_RDB_VERSION_def crc_def)
  have verify: "verifyDumpPayload q (length q) = Inr
      (push_bit 8 (ucast (q ! (length body + 1))) OR ucast (q ! length body) = REDIS_RDB_VERSION \<and>
       le_bytes 8 (foldl crc64_step 0 (take ?n q)) = drop ?n q)" if "length q = length body + 10" for q
    using that n
    by (simp add: verifyDumpPayload_def Let_def fault_simps crc64_foldl peek_def)
  have ok: "verifyDumpPayload ?p (length ?p) = Inr True"
    by (subst verify) (simp_all add: crc_def nth_append REDIS_RDB_VERSION_def)
  have bad: "verifyDumpPayload (?p[i := b]) (length ?p) = Inr False"
    if i: "i < length ?p" and b: "b \<noteq> ?p ! i" for i b
  proof -
    let ?q = "?p[i := b]"
    have V: "verifyDumpPayload ?q (length ?q) = Inr
      (push_bit 8 (ucast (?q ! (length body + 1))) OR ucast (?q ! length body) = REDIS_RDB_VERSION \<and>
       le_bytes 8 (foldl crc64_step 0 (take ?n ?q)) = drop ?n ?q)"
      by (rule verify) simp
    have "le_bytes 8 (foldl crc64_step 0 (take ?n ?q)) \<noteq> drop ?n ?q"
    proof (cases "i < ?n")
      case True
      obtain m where m: "m = body @ ?v" "length m = ?n" by simp
      have "take ?n ?q = m[i := b]" using True m by (simp only: m(1) [symmetric] list_update_append1) simp
      moreover have "m[i := b] = take i m @ b # drop (Suc i) m" "m = take i m @ m ! i # drop (Suc i) m"
        using True m(2) by (simp_all only: upd_conv_take_nth_drop id_take_nth_drop [symmetric])
      moreover have "m ! i \<noteq> b" using b True m by (metis nth_append)
      ultimately have "foldl crc64_step 0 (take ?n ?q) \<noteq> crc"
        unfolding crc_def m(1) [symmetric] using crc64_byte_detected by metis
      moreover have "drop ?n ?q = le_bytes 8 crc"
        using True m by (simp only: m(1) [symmetric] list_update_append1) simp
      ultimately show ?thesis by (simp add: le_bytes_inj)
    next
      case False
      obtain m where m: "m = body @ ?v" "length m = ?n" by simp
      have "take ?n ?q = body @ ?v" "drop ?n ?q = (le_bytes 8 crc)[i - ?n := b]"
        using False m by (simp_all only: m(1) [symmetric] list_update_append) simp_all
      moreover have "(le_bytes 8 crc) ! (i - ?n) \<noteq> b" "i - ?n < 8" using b False i by (auto simp: nth_append)
      ultimately show ?thesis
        by (metis crc_def length_le_bytes nth_list_update_eq)
    qed
    then show ?thesis using V by simp
  qed
  show ?thesis using c ok bad by auto
qed

theorem dump_payload_integrity_witness:
  "\<exists>p. createDumpPayload [0, 1, 65] = Inr p \<and> verifyDumpPayload (p[2 := 66]) 13 = Inr False"
  using dump_payload_integrity [of "[0, 1, 65]"]
proof -
  obtain p where p: "createDumpPayload [0, 1, 65] = Inr p" "length p = 13"
    "\<forall>i b. i < length p \<longrightarrow> b \<noteq> p ! i \<longrightarrow> verifyDumpPayload (p[i := b]) (length p) = Inr False"
    using dump_payload_integrity [of "[0, 1, 65]"] by auto
  have "p ! 2 = 65" using p(1) by (auto simp: createDumpPayload_def crc64_def Let_def)
  then have "verifyDumpPayload (p[2 := 66]) (length p) = Inr False" using p(2,3) by simp
  then show ?thesis using p by auto
qed

end
