(* ===== verification/Dict.thy ===== *)
theory Dict
  imports Interfaces "HOL-Library.Multiset"
begin

text \<open>
  The hash table of \<open>dict.c\<close>: two tables with chaining and incremental
  rehashing.  A chain is the list of its entries (key and value) in order; a
  table that is not allocated is the empty list.  A pointer to an entry that an
  operation returns is its location: table, bucket, position in the chain.
  \<open>unsigned long\<close> sizes are natural numbers; scan cursors, where the width
  matters, are 64-bit words.  Where the code converts a size to \<open>int\<close> or counts
  in \<open>int\<close> (the index of \<open>_dictKeyIndex\<close>, the minimal size of \<open>dictResize\<close>,
  the steps and visits of \<open>dictRehash\<close>) the model does the same, and an
  overflow is a fault.  The destructors of a type are flags, and the
  operations that free return what is passed to them.  Accesses to the bucket
  arrays are checked, and so is the \<open>assert\<close> of the rehashing.
\<close>

section \<open>State\<close>

record ('k, 'v) dictType =
  hashFunction :: "'k \<Rightarrow> u32"
  keyDup :: "('k \<Rightarrow> 'k) option"
  valDup :: "('v \<Rightarrow> 'v) option"
  keyCompare :: "('k \<Rightarrow> 'k \<Rightarrow> bool) option"
  keyDestructor :: bool
  valDestructor :: bool

type_synonym ('k, 'v) chain = "('k \<times> 'v) list"

record ('k, 'v) dictht =
  table :: "('k, 'v) chain list"
  hsize :: nat
  sizemask :: nat
  used :: nat

record ('k, 'v) dict =
  dtype :: "('k, 'v) dictType"
  ht0 :: "('k, 'v) dictht"
  ht1 :: "('k, 'v) dictht"
  rehashidx :: int
  iterators :: int

text \<open>The calls out of the dictionary: a destructor with its argument, and the callback of \<open>dictEmpty\<close>.\<close>

datatype ('k, 'v) freed = FreeKey 'k | FreeVal 'v | Callback

type_synonym loc = "nat \<times> nat \<times> nat"

definition dictIsRehashing :: "('k, 'v) dict \<Rightarrow> bool" where
  "dictIsRehashing d \<longleftrightarrow> rehashidx d \<noteq> - 1"

definition dictSize :: "('k, 'v) dict \<Rightarrow> nat" where
  "dictSize d = used (ht0 d) + used (ht1 d)"

definition dictSlots :: "('k, 'v) dict \<Rightarrow> nat" where
  "dictSlots d = hsize (ht0 d) + hsize (ht1 d)"

definition dictCompareKeys :: "('k, 'v) dict \<Rightarrow> 'k \<Rightarrow> 'k \<Rightarrow> bool" where
  "dictCompareKeys d k1 k2 = (case keyCompare (dtype d) of Some f \<Rightarrow> f k1 k2 | None \<Rightarrow> k1 = k2)"

definition dictHashKey :: "('k, 'v) dict \<Rightarrow> 'k \<Rightarrow> u32" where
  "dictHashKey d key = hashFunction (dtype d) key"

text \<open>\<open>dictHashKey(d, key) & ht->sizemask\<close>\<close>

definition bucket_index :: "('k, 'v) dict \<Rightarrow> ('k, 'v) dictht \<Rightarrow> 'k \<Rightarrow> nat" where
  "bucket_index d ht key = unat (dictHashKey d key) AND sizemask ht"

definition dictFreeKey :: "('k, 'v) dict \<Rightarrow> 'k \<times> 'v \<Rightarrow> ('k, 'v) freed list" where
  "dictFreeKey d e = (if keyDestructor (dtype d) then [FreeKey (fst e)] else [])"

definition dictFreeVal :: "('k, 'v) dict \<Rightarrow> 'k \<times> 'v \<Rightarrow> ('k, 'v) freed list" where
  "dictFreeVal d e = (if valDestructor (dtype d) then [FreeVal (snd e)] else [])"

text \<open>The table a location is in, and its update.\<close>

definition ht :: "('k, 'v) dict \<Rightarrow> nat \<Rightarrow> ('k, 'v) dictht" where
  "ht d t = (if t = 0 then ht0 d else ht1 d)"

definition set_ht :: "('k, 'v) dict \<Rightarrow> nat \<Rightarrow> ('k, 'v) dictht \<Rightarrow> ('k, 'v) dict" where
  "set_ht d t h = (if t = 0 then d\<lparr>ht0 := h\<rparr> else d\<lparr>ht1 := h\<rparr>)"

definition set_bucket :: "('k, 'v) dictht \<Rightarrow> nat \<Rightarrow> ('k, 'v) chain \<Rightarrow> ('k, 'v) dictht" where
  "set_bucket h i c = h\<lparr>table := (table h)[i := c]\<rparr>"

section \<open>Creation and sizing\<close>

definition DICT_HT_INITIAL_SIZE :: nat where
  "DICT_HT_INITIAL_SIZE = 4"

definition dict_force_resize_ratio :: nat where
  "dict_force_resize_ratio = 5"

definition dictReset :: "('k, 'v) dictht" where
  "dictReset = \<lparr>table = [], hsize = 0, sizemask = 0, used = 0\<rparr>"

definition dictInit :: "('k, 'v) dictType \<Rightarrow> ('k, 'v) dict" where
  "dictInit t = \<lparr>dtype = t, ht0 = dictReset, ht1 = dictReset, rehashidx = - 1, iterators = 0\<rparr>"

definition dictCreate :: "('k, 'v) dictType \<Rightarrow> ('k, 'v) dict" where
  "dictCreate t = dictInit t"

text \<open>The doubling loop of \<open>_dictNextPower\<close>.\<close>

function nextPower_loop :: "nat \<Rightarrow> nat \<Rightarrow> nat" where
  "nextPower_loop i sz = (if i \<ge> sz \<or> i = 0 then i else nextPower_loop (i * 2) sz)"
  by pat_completeness auto
termination by (relation "measure (\<lambda>(i, sz). sz - i)") auto

declare nextPower_loop.simps [simp del]

definition LONG_MAX :: nat where
  "LONG_MAX = 2 ^ 63 - 1"

definition dictNextPower :: "nat \<Rightarrow> nat" where
  "dictNextPower sz = (if sz \<ge> LONG_MAX then LONG_MAX else nextPower_loop DICT_HT_INITIAL_SIZE sz)"

text \<open>The result \<open>True\<close> is \<open>DICT_OK\<close>.\<close>

definition dictExpand :: "('k, 'v) dict \<Rightarrow> nat \<Rightarrow> bool \<times> ('k, 'v) dict" where
  "dictExpand d sz =
     (let realsize = dictNextPower sz
      in if dictIsRehashing d \<or> used (ht0 d) > sz then (False, d)
         else if realsize = hsize (ht0 d) then (False, d)
         else
           let n = \<lparr>table = replicate realsize [], hsize = realsize, sizemask = realsize - 1, used = 0\<rparr>
           in if table (ht0 d) = [] then (True, d\<lparr>ht0 := n\<rparr>)
              else (True, d\<lparr>ht1 := n, rehashidx := 0\<rparr>))"

text \<open>\<open>can_resize\<close> is the global \<open>dict_can_resize\<close> that \<open>dictEnableResize\<close> and \<open>dictDisableResize\<close> set.\<close>

definition dictResize :: "bool \<Rightarrow> ('k, 'v) dict \<Rightarrow> bool \<times> ('k, 'v) dict" where
  "dictResize can_resize d =
     (if \<not> can_resize \<or> dictIsRehashing d then (False, d)
      else
        let minimal = int_of_size (used (ht0 d));
            minimal = (if minimal < int DICT_HT_INITIAL_SIZE then int DICT_HT_INITIAL_SIZE else minimal)
        in dictExpand d (nat minimal))"

definition dictExpandIfNeeded :: "bool \<Rightarrow> ('k, 'v) dict \<Rightarrow> bool \<times> ('k, 'v) dict" where
  "dictExpandIfNeeded can_resize d =
     (if dictIsRehashing d then (True, d)
      else if hsize (ht0 d) = 0 then dictExpand d DICT_HT_INITIAL_SIZE
      else if used (ht0 d) \<ge> hsize (ht0 d) \<and>
              (can_resize \<or> used (ht0 d) div hsize (ht0 d) > dict_force_resize_ratio)
           then dictExpand d (used (ht0 d) * 2)
      else (True, d))"

section \<open>Incremental rehashing\<close>

text \<open>
  \<open>while (ht[0].table[rehashidx] == NULL)\<close>: the flag of the result is the
  early \<open>return 1\<close>, the number the empty visits left, an \<open>int\<close>.
\<close>

function rehash_skip :: "('k, 'v) dict \<Rightarrow> int \<Rightarrow> (bool \<times> ('k, 'v) dict \<times> int) res" where
  "rehash_skip d empty_visits =
     (if nat (rehashidx d) < length (table (ht0 d)) then
        (if table (ht0 d) ! nat (rehashidx d) = [] then
           (let d = d\<lparr>rehashidx := rehashidx d + 1\<rparr>
            in rbind (s32 (empty_visits - 1)) (\<lambda>empty_visits.
               if empty_visits = 0 then Inr (True, d, empty_visits) else rehash_skip d empty_visits))
         else Inr (False, d, empty_visits))
      else Inl OutOfBounds)"
  by pat_completeness auto
termination
  by (relation "measure (\<lambda>(d, e). nat (int (length (table (ht0 d))) - rehashidx d))") auto

declare rehash_skip.simps [simp del]

text \<open>Moving the entries of one bucket, in chain order, each to the head of its new bucket.\<close>

fun rehash_move :: "('k, 'v) chain \<Rightarrow> ('k, 'v) dict \<Rightarrow> ('k, 'v) dict res" where
  "rehash_move [] d = Inr d"
| "rehash_move (e # es) d =
     (let h = bucket_index d (ht1 d) (fst e)
      in rbind (rd (table (ht1 d)) h) (\<lambda>c.
         rehash_move es
           (d\<lparr>ht1 := (set_bucket (ht1 d) h (e # c))\<lparr>used := used (ht1 d) + 1\<rparr>,
              ht0 := (ht0 d)\<lparr>used := used (ht0 d) - 1\<rparr>\<rparr>)))"

text \<open>
  \<open>while (n-- && ht[0].used != 0)\<close> with the number of passes left.  A negative
  \<open>n\<close> (\<open>below\<close>) counts down to the least \<open>int\<close>, whose decrement overflows.
\<close>

fun rehash_loop :: "bool \<Rightarrow> nat \<Rightarrow> ('k, 'v) dict \<Rightarrow> int \<Rightarrow> (bool \<times> ('k, 'v) dict) res" where
  "rehash_loop below 0 d empty_visits = (if below then Inl SignedOverflow else Inr (False, d))"
| "rehash_loop below (Suc n) d empty_visits =
     (if used (ht0 d) = 0 then Inr (False, d)
      else if \<not> int (hsize (ht0 d)) > rehashidx d then Inl AssertFailed
      else
        rbind (rehash_skip d empty_visits) (\<lambda>(ret, d, empty_visits).
        if ret then Inr (True, d)
        else
          rbind (rehash_move (table (ht0 d) ! nat (rehashidx d)) d) (\<lambda>d'.
          rehash_loop below n
            (d'\<lparr>ht0 := set_bucket (ht0 d') (nat (rehashidx d')) [], rehashidx := rehashidx d' + 1\<rparr>)
            empty_visits)))"

text \<open>The answer: are there still keys to move?\<close>

definition dictRehash :: "('k, 'v) dict \<Rightarrow> int \<Rightarrow> (bool \<times> ('k, 'v) dict) res" where
  "dictRehash d n =
     rbind (s32 (n * 10)) (\<lambda>empty_visits.
     if \<not> dictIsRehashing d then Inr (False, d)
     else
       rbind (rehash_loop (n < 0) (nat (if n < 0 then n + 2 ^ 31 else n)) d empty_visits) (\<lambda>(ret, d).
       if ret then Inr (True, d)
       else if used (ht0 d) = 0 then Inr (False, d\<lparr>ht0 := ht1 d, ht1 := dictReset, rehashidx := - 1\<rparr>)
       else Inr (True, d)))"

definition dictRehashStep :: "('k, 'v) dict \<Rightarrow> ('k, 'v) dict res" where
  "dictRehashStep d =
     (if iterators d = 0 then rbind (dictRehash d 1) (\<lambda>(_, d). Inr d) else Inr d)"

section \<open>Lookup, insertion, deletion\<close>

text \<open>The walk along a chain: the position of the first entry whose key compares equal.\<close>

fun chain_find :: "('k, 'v) dict \<Rightarrow> 'k \<Rightarrow> ('k, 'v) chain \<Rightarrow> nat option" where
  "chain_find d key [] = None"
| "chain_find d key (e # es) =
     (if dictCompareKeys d key (fst e) then Some 0 else map_option Suc (chain_find d key es))"

text \<open>The walk in one table, for the \<open>for (table = 0; table <= 1; table++)\<close> loops.\<close>

definition table_find :: "('k, 'v) dict \<Rightarrow> 'k \<Rightarrow> nat \<Rightarrow> loc option res" where
  "table_find d key t =
     (let idx = bucket_index d (ht d t) key
      in rbind (rd (table (ht d t)) idx) (\<lambda>c.
         Inr (map_option (\<lambda>p. (t, idx, p)) (chain_find d key c))))"

definition both_find :: "('k, 'v) dict \<Rightarrow> 'k \<Rightarrow> loc option res" where
  "both_find d key =
     rbind (table_find d key 0) (\<lambda>r. case r of
       Some l \<Rightarrow> Inr (Some l)
     | None \<Rightarrow> if \<not> dictIsRehashing d then Inr None else table_find d key 1)"

text \<open>The entry at a location.\<close>

definition entry_at :: "('k, 'v) dict \<Rightarrow> loc \<Rightarrow> 'k \<times> 'v" where
  "entry_at d l = (case l of (t, i, p) \<Rightarrow> table (ht d t) ! i ! p)"

definition set_entry :: "('k, 'v) dict \<Rightarrow> loc \<Rightarrow> 'k \<times> 'v \<Rightarrow> ('k, 'v) dict" where
  "set_entry d l e = (case l of (t, i, p) \<Rightarrow>
     set_ht d t (set_bucket (ht d t) i ((table (ht d t) ! i)[p := e])))"

definition dictSetVal :: "('k, 'v) dict \<Rightarrow> loc \<Rightarrow> 'v \<Rightarrow> ('k, 'v) dict" where
  "dictSetVal d l v =
     set_entry d l (fst (entry_at d l), case valDup (dtype d) of Some f \<Rightarrow> f v | None \<Rightarrow> v)"

definition dictFind :: "('k, 'v) dict \<Rightarrow> 'k \<Rightarrow> (loc option \<times> ('k, 'v) dict) res" where
  "dictFind d key =
     (if hsize (ht0 d) = 0 then Inr (None, d)
      else
        rbind (if dictIsRehashing d then dictRehashStep d else Inr d) (\<lambda>d.
        rbind (both_find d key) (\<lambda>r. Inr (r, d))))"

definition dictFetchValue :: "('k, 'v) dict \<Rightarrow> 'k \<Rightarrow> ('v option \<times> ('k, 'v) dict) res" where
  "dictFetchValue d key =
     rbind (dictFind d key) (\<lambda>(r, d). Inr (map_option (\<lambda>l. snd (entry_at d l)) r, d))"

text \<open>
  The result is -1 or the index in the last table searched, an \<open>unsigned int\<close>
  converted to \<open>int\<close>: from \<open>2^31\<close> buckets on it can be negative.
\<close>

definition dictKeyIndex :: "bool \<Rightarrow> ('k, 'v) dict \<Rightarrow> 'k \<Rightarrow> (int \<times> ('k, 'v) dict) res" where
  "dictKeyIndex can_resize d key =
     (case dictExpandIfNeeded can_resize d of (ok, d) \<Rightarrow>
       if \<not> ok then Inr (- 1, d)
       else rbind (both_find d key) (\<lambda>r.
         Inr (if r \<noteq> None then - 1
              else int_of_size (bucket_index d (if dictIsRehashing d then ht1 d else ht0 d) key), d)))"

text \<open>\<open>v0\<close> is the indeterminate value of the entry that \<open>zmalloc\<close> returns.\<close>

definition dictAddRaw :: "bool \<Rightarrow> 'v \<Rightarrow> ('k, 'v) dict \<Rightarrow> 'k \<Rightarrow> (loc option \<times> ('k, 'v) dict) res" where
  "dictAddRaw can_resize v0 d key =
     rbind (if dictIsRehashing d then dictRehashStep d else Inr d) (\<lambda>d.
     rbind (dictKeyIndex can_resize d key) (\<lambda>(index, d).
     if index = - 1 then Inr (None, d)
     else
       let t = (if dictIsRehashing d then 1 else 0); h = ht d t
       in rbind (if index < 0 then Inl OutOfBounds else rd (table h) (nat index)) (\<lambda>c.
          let i = nat index;
              k = (case keyDup (dtype d) of Some f \<Rightarrow> f key | None \<Rightarrow> key)
          in Inr (Some (t, i, 0),
               set_ht d t ((set_bucket h i ((k, v0) # c))\<lparr>used := used h + 1\<rparr>)))))"

definition dictAdd :: "bool \<Rightarrow> 'v \<Rightarrow> ('k, 'v) dict \<Rightarrow> 'k \<Rightarrow> 'v \<Rightarrow> (bool \<times> ('k, 'v) dict) res" where
  "dictAdd can_resize v0 d key val =
     rbind (dictAddRaw can_resize v0 d key) (\<lambda>(entry, d).
     case entry of None \<Rightarrow> Inr (False, d) | Some l \<Rightarrow> Inr (True, dictSetVal d l val))"

text \<open>The answer is \<open>1\<close> when the key is new; the last component is what is freed.\<close>

definition dictReplace ::
  "bool \<Rightarrow> 'v \<Rightarrow> ('k, 'v) dict \<Rightarrow> 'k \<Rightarrow> 'v \<Rightarrow> (bool \<times> ('k, 'v) dict \<times> ('k, 'v) freed list) res" where
  "dictReplace can_resize v0 d key val =
     rbind (dictAdd can_resize v0 d key val) (\<lambda>(added, d).
     if added then Inr (True, d, [])
     else
       rbind (dictFind d key) (\<lambda>(entry, d).
       case entry of None \<Rightarrow> Inl BadPointer
       | Some l \<Rightarrow>
           let auxentry = entry_at d l;
               d = dictSetVal d l val
           in Inr (False, d, dictFreeVal d auxentry)))"

definition dictReplaceRaw :: "bool \<Rightarrow> 'v \<Rightarrow> ('k, 'v) dict \<Rightarrow> 'k \<Rightarrow> (loc option \<times> ('k, 'v) dict) res" where
  "dictReplaceRaw can_resize v0 d key =
     rbind (dictFind d key) (\<lambda>(entry, d).
     if entry \<noteq> None then Inr (entry, d) else dictAddRaw can_resize v0 d key)"

definition dictGenericDelete ::
  "('k, 'v) dict \<Rightarrow> 'k \<Rightarrow> bool \<Rightarrow> (bool \<times> ('k, 'v) dict \<times> ('k, 'v) freed list) res" where
  "dictGenericDelete d key nofree =
     (if hsize (ht0 d) = 0 then Inr (False, d, [])
      else
        rbind (if dictIsRehashing d then dictRehashStep d else Inr d) (\<lambda>d.
        rbind (both_find d key) (\<lambda>r. case r of
          None \<Rightarrow> Inr (False, d, [])
        | Some (t, i, p) \<Rightarrow>
            let h = ht d t; c = table h ! i; e = c ! p
            in Inr (True, set_ht d t ((set_bucket h i (take p c @ drop (Suc p) c))\<lparr>used := used h - 1\<rparr>),
                 (if nofree then [] else dictFreeKey d e @ dictFreeVal d e)))))"

definition dictDelete :: "('k, 'v) dict \<Rightarrow> 'k \<Rightarrow> (bool \<times> ('k, 'v) dict \<times> ('k, 'v) freed list) res" where
  "dictDelete d key = dictGenericDelete d key False"

definition dictDeleteNoFree :: "('k, 'v) dict \<Rightarrow> 'k \<Rightarrow> (bool \<times> ('k, 'v) dict \<times> ('k, 'v) freed list) res" where
  "dictDeleteNoFree d key = dictGenericDelete d key True"

section \<open>Clearing, and rehashing for a given time\<close>

text \<open>The loop of \<open>_dictClear\<close> over the buckets from index \<open>i\<close> on, \<open>used\<close> entries being left.\<close>

fun clear_loop :: "('k, 'v) dict \<Rightarrow> bool \<Rightarrow> nat \<Rightarrow> ('k, 'v) chain list \<Rightarrow> nat \<Rightarrow> ('k, 'v) freed list" where
  "clear_loop d callback i [] us = []"
| "clear_loop d callback i (c # cs) us =
     (if us > 0 then
        (if callback \<and> i AND 65535 = 0 then [Callback] else []) @
        concat (map (\<lambda>e. dictFreeKey d e @ dictFreeVal d e) c) @
        clear_loop d callback (i + 1) cs (us - length c)
      else [])"

definition dictClear :: "('k, 'v) dict \<Rightarrow> ('k, 'v) dictht \<Rightarrow> bool \<Rightarrow> ('k, 'v) freed list \<times> ('k, 'v) dictht" where
  "dictClear d h callback = (clear_loop d callback 0 (table h) (used h), dictReset)"

definition dictEmpty :: "('k, 'v) dict \<Rightarrow> bool \<Rightarrow> ('k, 'v) freed list \<times> ('k, 'v) dict" where
  "dictEmpty d callback =
     (let (f0, h0) = dictClear d (ht0 d) callback;
          (f1, h1) = dictClear d (ht1 d) callback
      in (f0 @ f1, d\<lparr>ht0 := h0, ht1 := h1, rehashidx := - 1, iterators := 0\<rparr>))"

text \<open>\<open>dictRelease\<close> clears both tables and frees the dictionary itself.\<close>

definition dictRelease :: "('k, 'v) dict \<Rightarrow> ('k, 'v) freed list" where
  "dictRelease d = fst (dictClear d (ht0 d) False) @ fst (dictClear d (ht1 d) False)"

text \<open>\<open>clock i\<close> is what the \<open>i\<close>-th call of \<open>timeInMilliseconds\<close> returns, a \<open>long long\<close>.\<close>

partial_function (option) rehash_ms_loop ::
  "(nat \<Rightarrow> int) \<Rightarrow> nat \<Rightarrow> int \<Rightarrow> ('k, 'v) dict \<Rightarrow> int \<Rightarrow> (int \<times> ('k, 'v) dict) res option" where
  "rehash_ms_loop clock i ms d rehashes = (case dictRehash d 100 of
     Inl e \<Rightarrow> Some (Inl e)
   | Inr (todo, d) \<Rightarrow>
       if todo then
         (case rbind (s32 (rehashes + 100)) (\<lambda>r. rbind (s64 (clock i - clock 0)) (\<lambda>t. Inr (r, t))) of
            Inl e \<Rightarrow> Some (Inl e)
          | Inr (rehashes, t) \<Rightarrow>
              if t > ms then Some (Inr (rehashes, d)) else rehash_ms_loop clock (i + 1) ms d rehashes)
       else Some (Inr (rehashes, d)))"

definition dictRehashMilliseconds ::
  "(nat \<Rightarrow> int) \<Rightarrow> ('k, 'v) dict \<Rightarrow> int \<Rightarrow> (int \<times> ('k, 'v) dict) res option" where
  "dictRehashMilliseconds clock d ms = rehash_ms_loop clock 1 ms d 0"

section \<open>The invariant\<close>

definition entries :: "('k, 'v) dict \<Rightarrow> ('k \<times> 'v) list" where
  "entries d = concat (table (ht0 d)) @ concat (table (ht1 d))"

text \<open>Keys that compare equal form a class; the dictionary is a map on the classes.\<close>

definition compare_type :: "('k, 'v) dictType \<Rightarrow> 'k \<Rightarrow> 'k \<Rightarrow> bool" where
  "compare_type t k1 k2 = (case keyCompare t of Some f \<Rightarrow> f k1 k2 | None \<Rightarrow> k1 = k2)"

definition key_class :: "('k, 'v) dictType \<Rightarrow> 'k \<Rightarrow> 'k set" where
  "key_class t k = {k'. compare_type t k k'}"

text \<open>What a \<open>dictType\<close> must satisfy: comparison is an equivalence the hash respects.\<close>

definition type_ok :: "('k, 'v) dictType \<Rightarrow> bool" where
  "type_ok t \<longleftrightarrow> equivp (compare_type t) \<and>
     (\<forall>a b. compare_type t a b \<longrightarrow> hashFunction t a = hashFunction t b) \<and>
     (\<forall>f k. keyDup t = Some f \<longrightarrow> compare_type t (f k) k)"

definition class_entries :: "('k, 'v) dict \<Rightarrow> ('k set \<times> 'v) list" where
  "class_entries d = map (\<lambda>(k, v). (key_class (dtype d) k, v)) (entries d)"

definition dict_map :: "('k, 'v) dict \<Rightarrow> 'k set \<Rightarrow> 'v option" where
  "dict_map d = map_of (class_entries d)"

definition hash_index :: "('k, 'v) dictType \<Rightarrow> nat \<Rightarrow> 'k \<Rightarrow> nat" where
  "hash_index t m k = unat (hashFunction t k) AND m"

definition buckets_ok :: "('k, 'v) dictType \<Rightarrow> nat \<Rightarrow> ('k, 'v) chain list \<Rightarrow> bool" where
  "buckets_ok t m bs \<longleftrightarrow> (\<forall>i < length bs. \<forall>k \<in> fst ` set (bs ! i). hash_index t m k = i)"

definition table_ok :: "('k, 'v) dictType \<Rightarrow> ('k, 'v) dictht \<Rightarrow> bool" where
  "table_ok t h \<longleftrightarrow> length (table h) = hsize h \<and> used h = length (concat (table h)) \<and>
     sizemask h = hsize h - 1 \<and> buckets_ok t (sizemask h) (table h) \<and>
     (hsize h = 0 \<or> (\<exists>n < 63. hsize h = 2 ^ n))"

definition dict_ok :: "('k, 'v) dict \<Rightarrow> bool" where
  "dict_ok d \<longleftrightarrow> table_ok (dtype d) (ht0 d) \<and> table_ok (dtype d) (ht1 d) \<and>
     distinct (map fst (class_entries d)) \<and>
     (if dictIsRehashing d
      then 0 \<le> rehashidx d \<and> rehashidx d \<le> int (hsize (ht0 d)) \<and> hsize (ht0 d) > 0 \<and> hsize (ht1 d) > 0 \<and>
        (\<forall>i < nat (rehashidx d). table (ht0 d) ! i = [])
      else ht1 d = dictReset)"

section \<open>Tables\<close>

lemma bucket_index_eq: "bucket_index d h k = hash_index (dtype d) (sizemask h) k"
  by (simp add: bucket_index_def hash_index_def dictHashKey_def)

lemma dictCompareKeys_eq: "dictCompareKeys d k1 k2 = compare_type (dtype d) k1 k2"
  by (simp add: dictCompareKeys_def compare_type_def)

lemma table_okD:
  assumes "table_ok t h"
  shows "length (table h) = hsize h" "used h = length (concat (table h))" "sizemask h = hsize h - 1"
    "buckets_ok t (sizemask h) (table h)" "hsize h = 0 \<or> (\<exists>n < 63. hsize h = 2 ^ n)"
  using assms unfolding table_ok_def by blast+

lemma and_pow2: "(x :: nat) AND (2 ^ n - 1) = x mod 2 ^ n"
  by (metis mask_eq_exp_minus_1 take_bit_eq_mask take_bit_eq_mod)

lemma hash_index_less:
  "table_ok t h \<Longrightarrow> hsize h > 0 \<Longrightarrow> hash_index t (sizemask h) k < hsize h"
  by (auto simp: table_ok_def hash_index_def and_pow2 simp del: One_nat_def)

lemma reset_simps [simp]: "table dictReset = []" "hsize dictReset = 0" "sizemask dictReset = 0" "used dictReset = 0"
  by (simp_all add: dictReset_def)

lemma reset_ok [simp]: "table_ok t dictReset"
  by (simp add: table_ok_def buckets_ok_def)

lemma nextPower_loop_spec:
  assumes "i = 2 ^ a" and "i < 2 * sz \<or> i = 4"
  shows "\<exists>n \<ge> a. nextPower_loop i sz = 2 ^ n \<and> sz \<le> 2 ^ n \<and> (2 ^ n < 2 * sz \<or> 2 ^ n = (4::nat))"
  using assms
proof (induction "sz - i" arbitrary: i a rule: less_induct)
  case less
  show ?case
  proof (cases "i \<ge> sz")
    case True
    then show ?thesis using less.prems
      by (intro exI [of _ a]) (simp add: nextPower_loop.simps [of "2 ^ a"])
  next
    case False
    have "\<exists>n \<ge> Suc a. nextPower_loop (i * 2) sz = 2 ^ n \<and> sz \<le> 2 ^ n \<and> (2 ^ n < 2 * sz \<or> 2 ^ n = (4::nat))"
      using False less.prems by (intro less.hyps) (auto intro!: diff_less_mono2)
    moreover have "nextPower_loop i sz = nextPower_loop (i * 2) sz"
      using False less.prems by (subst nextPower_loop.simps) simp
    ultimately show ?thesis using Suc_leD by force
  qed
qed

lemma nextPower_spec:
  assumes "sz < 2 ^ 62"
  shows "\<exists>n. 2 \<le> n \<and> n < 63 \<and> dictNextPower sz = 2 ^ n \<and> sz \<le> 2 ^ n"
proof -
  obtain n where n: "n \<ge> 2" "nextPower_loop 4 sz = 2 ^ n" "sz \<le> 2 ^ n" "2 ^ n < 2 * sz \<or> 2 ^ n = (4::nat)"
    using nextPower_loop_spec [of 4 2 sz] by auto
  have "(2::nat) ^ n < 2 ^ 63" using n(4) assms by auto
  then have "n < 63" by (simp only: power_strict_increasing_iff)
  then show ?thesis using n assms
    by (intro exI [of _ n]) (simp add: dictNextPower_def LONG_MAX_def DICT_HT_INITIAL_SIZE_def)
qed

lemma empty_table_ok:
  "n < 63 \<Longrightarrow> table_ok t \<lparr>table = replicate (2 ^ n) [], hsize = 2 ^ n, sizemask = 2 ^ n - 1, used = 0\<rparr>"
  by (auto simp: table_ok_def buckets_ok_def)

section \<open>Rehashing\<close>

text \<open>What every step of rehashing keeps: only the place of the entries changes.\<close>

definition same_content :: "('k, 'v) dict \<Rightarrow> ('k, 'v) dict \<Rightarrow> bool" where
  "same_content d d' \<longleftrightarrow> mset (entries d') = mset (entries d) \<and> dtype d' = dtype d \<and>
     iterators d' = iterators d"

lemma same_refl [simp]: "same_content d d"
  by (simp add: same_content_def)

lemma same_trans: "same_content a b \<Longrightarrow> same_content b c \<Longrightarrow> same_content a c"
  by (simp add: same_content_def)

lemma same_distinct:
  "same_content d d' \<Longrightarrow> distinct (map fst (class_entries d)) \<Longrightarrow> distinct (map fst (class_entries d'))"
proof -
  assume a: "same_content d d'" and "distinct (map fst (class_entries d))"
  have "mset (class_entries d') = mset (class_entries d)"
    using a by (simp add: same_content_def class_entries_def)
  then have "mset (map fst (class_entries d')) = mset (map fst (class_entries d))"
    by (simp only: mset_map)
  then show "distinct (map fst (class_entries d'))"
    using \<open>distinct (map fst (class_entries d))\<close> mset_eq_imp_distinct_iff by blast
qed

lemma same_map:
  assumes "same_content d d'" and "distinct (map fst (class_entries d))"
  shows "dict_map d' = dict_map d"
proof -
  have "mset (class_entries d') = mset (class_entries d)"
    using assms(1) by (simp add: same_content_def class_entries_def)
  then have "set (class_entries d') = set (class_entries d)" by (rule mset_eq_setD)
  then show ?thesis unfolding dict_map_def
    using map_of_inject_set [OF same_distinct [OF assms] assms(2)] by simp
qed

lemma concat_update:
  "i < length bs \<Longrightarrow> mset (concat (bs[i := c])) + mset (bs ! i) = mset (concat bs) + mset c"
proof (induction bs arbitrary: i)
  case (Cons b bs)
  then show ?case by (cases i) (auto simp: union_ac)
qed simp

lemma length_concat_update:
  "i < length bs \<Longrightarrow> length (concat (bs[i := c])) + length (bs ! i) = length (concat bs) + length c"
  using arg_cong [OF concat_update, of i bs size c] by simp

lemma set_bucket_simps [simp]:
  "table (set_bucket h i c) = (table h)[i := c]" "hsize (set_bucket h i c) = hsize h"
  "sizemask (set_bucket h i c) = sizemask h" "used (set_bucket h i c) = used h"
  by (simp_all add: set_bucket_def)

lemma buckets_okD: "buckets_ok t m bs \<Longrightarrow> i < length bs \<Longrightarrow> e \<in> set (bs ! i) \<Longrightarrow> hash_index t m (fst e) = i"
  by (simp add: buckets_ok_def)

lemma buckets_ok_update:
  assumes "buckets_ok t m bs" and "\<forall>k \<in> fst ` set c. hash_index t m k = i"
  shows "buckets_ok t m (bs[i := c])"
  unfolding buckets_ok_def
proof (intro allI impI)
  fix j assume "j < length (bs[i := c])"
  then show "\<forall>k \<in> fst ` set (bs[i := c] ! j). hash_index t m k = j"
    using assms by (cases "j = i") (auto simp: buckets_ok_def simp del: split_paired_All)
qed

lemma move_spec:
  assumes "table_ok (dtype d) (ht1 d)" and "hsize (ht1 d) > 0"
  shows "\<exists>d'. rehash_move es d = Inr d' \<and> table_ok (dtype d) (ht1 d') \<and>
    hsize (ht1 d') = hsize (ht1 d) \<and>
    mset (concat (table (ht1 d'))) = mset (concat (table (ht1 d))) + mset es \<and>
    d' = d\<lparr>ht1 := ht1 d', ht0 := (ht0 d)\<lparr>used := used (ht0 d) - length es\<rparr>\<rparr>"
  using assms
proof (induction es arbitrary: d)
  case Nil
  then show ?case by auto
next
  case (Cons e es)
  let ?h = "bucket_index d (ht1 d) (fst e)"
  have h: "?h < hsize (ht1 d)" "?h < length (table (ht1 d))"
    using hash_index_less [OF Cons.prems] Cons.prems by (simp_all add: bucket_index_eq table_ok_def)
  let ?c = "table (ht1 d) ! ?h"
  define d1 where "d1 = d\<lparr>ht1 := (set_bucket (ht1 d) ?h (e # ?c))\<lparr>used := used (ht1 d) + 1\<rparr>,
      ht0 := (ht0 d)\<lparr>used := used (ht0 d) - 1\<rparr>\<rparr>"
  have "buckets_ok (dtype d) (sizemask (ht1 d)) ((table (ht1 d))[?h := e # ?c])"
  proof (rule buckets_ok_update)
    show b: "buckets_ok (dtype d) (sizemask (ht1 d)) (table (ht1 d))"
      using Cons.prems(1) by (rule table_okD)
    show "\<forall>k \<in> fst ` set (e # ?c). hash_index (dtype d) (sizemask (ht1 d)) k = ?h"
      using buckets_okD [OF b h(2)] by (auto simp: bucket_index_eq)
  qed
  then have ok1: "table_ok (dtype d1) (ht1 d1)" "hsize (ht1 d1) > 0"
    using Cons.prems length_concat_update [OF h(2), of "e # ?c"] by (auto simp: table_ok_def d1_def)
  have m1: "mset (concat (table (ht1 d1))) = mset (concat (table (ht1 d))) + {#e#}"
    using concat_update [OF h(2), of "e # ?c"] by (simp add: d1_def)
  obtain d' where d': "rehash_move es d1 = Inr d'" "table_ok (dtype d1) (ht1 d')"
    "hsize (ht1 d') = hsize (ht1 d1)"
    "mset (concat (table (ht1 d'))) = mset (concat (table (ht1 d1))) + mset es"
    "d' = d1\<lparr>ht1 := ht1 d', ht0 := (ht0 d1)\<lparr>used := used (ht0 d1) - length es\<rparr>\<rparr>"
    using Cons.IH [OF ok1] by blast
  have "rehash_move (e # es) d = Inr d'"
    using d'(1) h(2) by (simp add: Let_def fault_simps d1_def)
  moreover have "d' = d\<lparr>ht1 := ht1 d', ht0 := (ht0 d)\<lparr>used := used (ht0 d) - length (e # es)\<rparr>\<rparr>"
    by (subst d'(5)) (simp add: d1_def)
  ultimately show ?case using d' m1 by (auto simp: d1_def)
qed

lemma used_bucket:
  assumes "table_ok t h" and "used h \<noteq> 0"
  shows "\<exists>i < hsize h. table h ! i \<noteq> []"
proof (rule ccontr)
  assume "\<not> (\<exists>i < hsize h. table h ! i \<noteq> [])"
  then have "\<forall>b \<in> set (table h). b = []" using assms(1) by (auto simp: table_ok_def in_set_conv_nth)
  then have "concat (table h) = []" by simp
  then show False using assms by (simp add: table_ok_def)
qed

lemma ex3I: "P a b c \<Longrightarrow> \<exists>x y z. P x y z"
  by blast

lemma skip_spec:
  assumes "k < length (table (ht0 d))" and "table (ht0 d) ! k \<noteq> []"
    and "0 \<le> rehashidx d" and "rehashidx d \<le> int k" and "\<forall>i < nat (rehashidx d). table (ht0 d) ! i = []"
    and "0 < ev" and "ev < 2 ^ 31"
  shows "\<exists>ret j ev'. rehash_skip d ev = Inr (ret, d\<lparr>rehashidx := j\<rparr>, ev') \<and>
    rehashidx d \<le> j \<and> j \<le> int k \<and> (\<forall>i < nat j. table (ht0 d) ! i = []) \<and>
    0 \<le> ev' \<and> ev' = ev - (j - rehashidx d) \<and> (ret \<longleftrightarrow> ev' = 0) \<and> (\<not> ret \<longrightarrow> table (ht0 d) ! nat j \<noteq> [])"
  using assms
proof (induction "nat (int k - rehashidx d)" arbitrary: d ev)
  case 0
  then have "nat (rehashidx d) = k" by simp
  then show ?case using 0 by (intro ex3I [of _ False "rehashidx d" ev]) (simp add: rehash_skip.simps [of d])
next
  case (Suc n)
  show ?case
  proof (cases "table (ht0 d) ! nat (rehashidx d) = []")
    case False
    then show ?thesis using Suc.prems
      by (intro ex3I [of _ False "rehashidx d" ev]) (simp add: rehash_skip.simps [of d])
  next
    case True
    let ?d = "d\<lparr>rehashidx := rehashidx d + 1\<rparr>"
    have lt: "rehashidx d < int k" "nat (rehashidx d) < length (table (ht0 d))"
      using True Suc.prems by (auto simp: order_less_le)
    have s: "s32 (ev - 1) = Inr (ev - 1)" using Suc.prems(6,7) by (intro s32_fits) auto
    have below: "\<forall>i < nat (rehashidx d + 1). table (ht0 d) ! i = []"
      using True Suc.prems(3,5) by (auto simp: nat_add_distrib less_Suc_eq)
    show ?thesis
    proof (cases "ev - 1 = 0")
      case True
      then show ?thesis using \<open>table (ht0 d) ! nat (rehashidx d) = []\<close> lt below
        by (intro ex3I [of _ True "rehashidx d + 1" 0]) (simp add: rehash_skip.simps [of d] s32_def Let_def)
    next
      case False
      have eq: "rehash_skip d ev = rehash_skip ?d (ev - 1)"
        using False True lt by (simp add: rehash_skip.simps [of d] s Let_def)
      have "\<exists>ret j ev'. rehash_skip ?d (ev - 1) = Inr (ret, ?d\<lparr>rehashidx := j\<rparr>, ev') \<and>
        rehashidx ?d \<le> j \<and> j \<le> int k \<and> (\<forall>i < nat j. table (ht0 ?d) ! i = []) \<and>
        0 \<le> ev' \<and> ev' = ev - 1 - (j - rehashidx ?d) \<and> (ret \<longleftrightarrow> ev' = 0) \<and> (\<not> ret \<longrightarrow> table (ht0 ?d) ! nat j \<noteq> [])"
        using Suc.hyps(2) Suc.prems(1-3,6,7) lt(1) below False by (intro Suc.hyps(1)) simp_all
      then obtain ret j ev' where "rehash_skip ?d (ev - 1) = Inr (ret, ?d\<lparr>rehashidx := j\<rparr>, ev') \<and>
        rehashidx ?d \<le> j \<and> j \<le> int k \<and> (\<forall>i < nat j. table (ht0 ?d) ! i = []) \<and>
        0 \<le> ev' \<and> ev' = ev - 1 - (j - rehashidx ?d) \<and> (ret \<longleftrightarrow> ev' = 0) \<and> (\<not> ret \<longrightarrow> table (ht0 ?d) ! nat j \<noteq> [])"
        by blast
      then have "rehash_skip ?d (ev - 1) = Inr (ret, d\<lparr>rehashidx := j\<rparr>, ev')"
        "rehashidx d + 1 \<le> j" "j \<le> int k" "\<forall>i < nat j. table (ht0 d) ! i = []"
        "0 \<le> ev'" "ev' = ev - (j - rehashidx d)" "ret \<longleftrightarrow> ev' = 0" "\<not> ret \<longrightarrow> table (ht0 d) ! nat j \<noteq> []" by simp_all
      then show ?thesis unfolding eq
        by (intro ex3I [of _ ret j ev']) simp
    qed
  qed
qed

lemma table_update_ok:
  assumes "table_ok t h" and "i < hsize h" and "\<forall>k \<in> fst ` set c. hash_index t (sizemask h) k = i"
  shows "table_ok t ((set_bucket h i c)\<lparr>used := used h + length c - length (table h ! i)\<rparr>)"
  using assms(1,2) length_concat_update [of i "table h" c] buckets_ok_update [OF table_okD(4) assms(3)]
  unfolding table_ok_def by auto

lemma dict_okD:
  assumes "dict_ok d" and "dictIsRehashing d"
  shows "table_ok (dtype d) (ht0 d)" "table_ok (dtype d) (ht1 d)" "distinct (map fst (class_entries d))"
    "0 \<le> rehashidx d" "rehashidx d \<le> int (hsize (ht0 d))" "hsize (ht0 d) > 0" "hsize (ht1 d) > 0"
    "\<forall>i < nat (rehashidx d). table (ht0 d) ! i = []"
  using assms unfolding dict_ok_def by auto

text \<open>One pass of the outer loop: the bucket at \<open>rehashidx\<close> is moved.\<close>

lemma bucket_moved:
  assumes ok: "dict_ok d" and re: "dictIsRehashing d" and lt: "rehashidx d < int (hsize (ht0 d))"
  defines "b \<equiv> table (ht0 d) ! nat (rehashidx d)"
  shows "\<exists>d' d''. rehash_move b d = Inr d' \<and>
    d'' = d'\<lparr>ht0 := set_bucket (ht0 d') (nat (rehashidx d')) [], rehashidx := rehashidx d' + 1\<rparr> \<and>
    dict_ok d'' \<and> dictIsRehashing d'' \<and> same_content d d'' \<and> hsize (ht0 d'') = hsize (ht0 d) \<and>
    rehashidx d'' = rehashidx d + 1"
proof -
  note D = dict_okD [OF ok re]
  let ?i = "nat (rehashidx d)"
  have i: "?i < hsize (ht0 d)" "?i < length (table (ht0 d))" using lt D(4) table_okD(1) [OF D(1)] by auto
  obtain d' where m: "rehash_move b d = Inr d'" and ok1: "table_ok (dtype d) (ht1 d')"
    and sz1: "hsize (ht1 d') = hsize (ht1 d)"
    and ms: "mset (concat (table (ht1 d'))) = mset (concat (table (ht1 d))) + mset b"
    and d': "d' = d\<lparr>ht1 := ht1 d', ht0 := (ht0 d)\<lparr>used := used (ht0 d) - length b\<rparr>\<rparr>"
    using move_spec [OF D(2,7)] by blast
  define d'' where "d'' = d'\<lparr>ht0 := set_bucket (ht0 d') (nat (rehashidx d')) [], rehashidx := rehashidx d' + 1\<rparr>"
  have idx: "rehashidx d' = rehashidx d" by (subst d') simp
  have h0: "ht0 d'' = (set_bucket (ht0 d) ?i [])\<lparr>used := used (ht0 d) + length ([] :: ('a, 'b) chain) - length (table (ht0 d) ! ?i)\<rparr>"
    unfolding d''_def idx by (subst d') (simp add: b_def set_bucket_def)
  have rest: "ht1 d'' = ht1 d'" "dtype d'' = dtype d" "iterators d'' = iterators d" "rehashidx d'' = rehashidx d + 1"
    unfolding d''_def by (simp_all add: idx) (subst d', simp)+
  have "mset (concat (table (ht0 d''))) + mset b = mset (concat (table (ht0 d)))"
    using concat_update [OF i(2), of "[]"] by (simp add: h0 b_def)
  then have "same_content d d''"
    using ms by (simp add: same_content_def entries_def rest union_ac)
  moreover have re'': "dictIsRehashing d''" using D(4) rest by (simp add: dictIsRehashing_def)
  moreover have "table_ok (dtype d) (ht0 d'')"
    unfolding h0 using D(1) i(1) by (rule table_update_ok) simp
  moreover have "table (ht0 d'') ! j = []" if "j < nat (rehashidx d + 1)" for j
    using that D(4,8) i(2) by (cases "j = ?i") (auto simp: h0)
  ultimately have "dict_ok d''"
    using D lt ok1 sz1 same_distinct [OF \<open>same_content d d''\<close> D(3)]
    unfolding dict_ok_def rest by (simp add: h0)
  moreover have "hsize (ht0 d'') = hsize (ht0 d)" by (simp add: h0)
  ultimately show ?thesis using m d''_def \<open>same_content d d''\<close> re'' rest(4) by blast
qed

lemma skip_ok:
  assumes ok: "dict_ok d" and re: "dictIsRehashing d" and u: "used (ht0 d) \<noteq> 0"
    and ev: "0 < ev" "ev < 2 ^ 31"
  shows "\<exists>ret j ev'. rehash_skip d ev = Inr (ret, d\<lparr>rehashidx := j\<rparr>, ev') \<and>
    rehashidx d \<le> j \<and> j < int (hsize (ht0 d)) \<and> dict_ok (d\<lparr>rehashidx := j\<rparr>) \<and>
    dictIsRehashing (d\<lparr>rehashidx := j\<rparr>) \<and> same_content d (d\<lparr>rehashidx := j\<rparr>) \<and>
    0 \<le> ev' \<and> ev' = ev - (j - rehashidx d) \<and> (ret \<longleftrightarrow> ev' = 0) \<and> (\<not> ret \<longrightarrow> table (ht0 d) ! nat j \<noteq> [])"
proof -
  note D = dict_okD [OF ok re]
  obtain k where k: "k < hsize (ht0 d)" "table (ht0 d) ! k \<noteq> []" using used_bucket [OF D(1) u] by blast
  then have "rehashidx d \<le> int k" using D(8) by (metis int_nat_eq leI le_nat_iff nat_int zless_nat_conj linorder_not_less nat_less_iff D(4))
  then obtain ret j ev' where S: "rehash_skip d ev = Inr (ret, d\<lparr>rehashidx := j\<rparr>, ev')"
    "rehashidx d \<le> j" "j \<le> int k" "\<forall>i < nat j. table (ht0 d) ! i = []"
    "0 \<le> ev'" "ev' = ev - (j - rehashidx d)" "ret \<longleftrightarrow> ev' = 0" "\<not> ret \<longrightarrow> table (ht0 d) ! nat j \<noteq> []"
    using skip_spec [of k d ev] ev k D(4,8) table_okD(1) [OF D(1)] by auto
  have "same_content d (d\<lparr>rehashidx := j\<rparr>)" "class_entries (d\<lparr>rehashidx := j\<rparr>) = class_entries d"
    by (simp_all add: same_content_def entries_def class_entries_def)
  moreover have "dictIsRehashing (d\<lparr>rehashidx := j\<rparr>)" using S(2) D(4) by (simp add: dictIsRehashing_def)
  moreover have "dict_ok (d\<lparr>rehashidx := j\<rparr>)"
    using D S(2,3,4) k(1) calculation(2,3) unfolding dict_ok_def by simp
  moreover have "j < int (hsize (ht0 d))" using S(3) k(1) by linarith
  ultimately show ?thesis using S by (intro ex3I [of _ ret j ev'] conjI) assumption+
qed

lemma loop_spec:
  assumes "dict_ok d" and "dictIsRehashing d" and "0 < ev" and "ev < 2 ^ 31"
  shows "\<exists>ret d'. rehash_loop False n d ev = Inr (ret, d') \<and> dict_ok d' \<and> dictIsRehashing d' \<and>
    same_content d d' \<and> hsize (ht0 d') = hsize (ht0 d) \<and>
    (if ret then rehashidx d + ev \<le> rehashidx d' \<and> used (ht0 d') \<noteq> 0
     else used (ht0 d') = 0 \<or> rehashidx d + int n \<le> rehashidx d')"
  using assms
proof (induction n arbitrary: d ev)
  case 0
  then show ?case by (intro exI [of _ False] exI [of _ d]) simp
next
  case (Suc n)
  show ?case
  proof (cases "used (ht0 d) = 0")
    case True
    then show ?thesis using Suc.prems by (intro exI [of _ False] exI [of _ d]) simp
  next
    case False
    obtain ret j ev' where S: "rehash_skip d ev = Inr (ret, d\<lparr>rehashidx := j\<rparr>, ev')"
      "rehashidx d \<le> j" "j < int (hsize (ht0 d))" "dict_ok (d\<lparr>rehashidx := j\<rparr>)"
      "dictIsRehashing (d\<lparr>rehashidx := j\<rparr>)" "same_content d (d\<lparr>rehashidx := j\<rparr>)"
      "0 \<le> ev'" "ev' = ev - (j - rehashidx d)" "ret \<longleftrightarrow> ev' = 0"
      using skip_ok [OF Suc.prems(1,2) False Suc.prems(3,4)] by blast
    have lt: "rehashidx d < int (hsize (ht0 d))" using S(2,3) by linarith
    show ?thesis
    proof (cases ret)
      case True
      then show ?thesis using S lt False by auto
    next
      case nret: False
      let ?d = "d\<lparr>rehashidx := j\<rparr>"
      have ev': "0 < ev'" "ev' < 2 ^ 31" using S(2,7-9) nret Suc.prems(4) by auto
      obtain d' d'' where M: "rehash_move (table (ht0 ?d) ! nat (rehashidx ?d)) ?d = Inr d'"
        "d'' = d'\<lparr>ht0 := set_bucket (ht0 d') (nat (rehashidx d')) [], rehashidx := rehashidx d' + 1\<rparr>"
        "dict_ok d''" "dictIsRehashing d''" "same_content ?d d''" "hsize (ht0 d'') = hsize (ht0 ?d)"
        "rehashidx d'' = rehashidx ?d + 1"
        using bucket_moved [OF S(4,5)] S(3) by auto
      have "rehash_loop False (Suc n) d ev = rehash_loop False n d'' ev'"
        using S(1) M(1,2) False lt nret by simp
      moreover obtain ret' e where R: "rehash_loop False n d'' ev' = Inr (ret', e)" "dict_ok e"
        "dictIsRehashing e" "same_content d'' e" "hsize (ht0 e) = hsize (ht0 d'')"
        "if ret' then rehashidx d'' + ev' \<le> rehashidx e \<and> used (ht0 e) \<noteq> 0
         else used (ht0 e) = 0 \<or> rehashidx d'' + int n \<le> rehashidx e"
        using Suc.IH [OF M(3,4) ev'] by blast
      moreover have "same_content d e" by (rule same_trans [OF same_trans [OF S(6) M(5)] R(4)])
      ultimately show ?thesis using S(2,8) M(6,7)
        by (intro exI [of _ ret'] exI [of _ e]) (auto split: if_splits)
    qed
  qed
qed

text \<open>
  \<open>dictRehash\<close>: no fault, the same content; either rehashing is over or it has
  moved on by at least \<open>n\<close> buckets.
\<close>

lemma rehash_run:
  assumes "dict_ok d" and "0 < n" and "n * 10 < 2 ^ 31" and "dictIsRehashing d"
  obtains ret e where "dictRehash d n = (if \<not> ret \<and> used (ht0 e) = 0
      then Inr (False, e\<lparr>ht0 := ht1 e, ht1 := dictReset, rehashidx := - 1\<rparr>) else Inr (True, e))"
    "dict_ok e" "dictIsRehashing e" "same_content d e" "hsize (ht0 e) = hsize (ht0 d)"
    "if ret then rehashidx d + n \<le> rehashidx e \<and> used (ht0 e) \<noteq> 0
     else used (ht0 e) = 0 \<or> rehashidx d + n \<le> rehashidx e"
proof -
  have ev: "0 < n * 10" "s32 (n * 10) = Inr (n * 10)" using assms(2,3) by (auto intro!: s32_fits)
  obtain ret e where L: "rehash_loop False (nat n) d (n * 10) = Inr (ret, e)" "dict_ok e" "dictIsRehashing e"
    "same_content d e" "hsize (ht0 e) = hsize (ht0 d)"
    "if ret then rehashidx d + n * 10 \<le> rehashidx e \<and> used (ht0 e) \<noteq> 0
     else used (ht0 e) = 0 \<or> rehashidx d + int (nat n) \<le> rehashidx e"
    using loop_spec [OF assms(1,4) ev(1) assms(3), of "nat n"] by blast
  moreover have "dictRehash d n = (if \<not> ret \<and> used (ht0 e) = 0
      then Inr (False, e\<lparr>ht0 := ht1 e, ht1 := dictReset, rehashidx := - 1\<rparr>) else Inr (True, e))"
    using L(1) assms(2,4) by (auto simp: dictRehash_def ev(2))
  ultimately show thesis using assms(2) by (intro that [of ret e]) (auto split: if_splits)
qed

lemma rehash_spec:
  assumes "dict_ok d" and "0 < n" and "n * 10 < 2 ^ 31"
  shows "\<exists>ret d'. dictRehash d n = Inr (ret, d') \<and> dict_ok d' \<and> same_content d d' \<and>
    (ret \<longleftrightarrow> dictIsRehashing d') \<and>
    (ret \<longrightarrow> dictIsRehashing d \<and> hsize (ht0 d') = hsize (ht0 d) \<and> rehashidx d + n \<le> rehashidx d')"
proof (cases "dictIsRehashing d")
  case False
  have "s32 (n * 10) = Inr (n * 10)" using assms(2,3) by (intro s32_fits) auto
  then show ?thesis using False assms(1) by (auto simp: dictRehash_def)
next
  case True
  obtain ret e where L: "dictRehash d n = (if \<not> ret \<and> used (ht0 e) = 0
      then Inr (False, e\<lparr>ht0 := ht1 e, ht1 := dictReset, rehashidx := - 1\<rparr>) else Inr (True, e))"
    "dict_ok e" "dictIsRehashing e" "same_content d e" "hsize (ht0 e) = hsize (ht0 d)"
    "if ret then rehashidx d + n \<le> rehashidx e \<and> used (ht0 e) \<noteq> 0
     else used (ht0 e) = 0 \<or> rehashidx d + n \<le> rehashidx e"
    using rehash_run [OF assms True] by blast
  show ?thesis
  proof (cases "used (ht0 e) = 0")
    case False
    then show ?thesis using L True by (auto split: if_splits)
  next
    case u: True
    let ?e = "e\<lparr>ht0 := ht1 e, ht1 := dictReset, rehashidx := - 1\<rparr>"
    note D = dict_okD [OF L(2,3)]
    have "concat (table (ht0 e)) = []" using u table_okD(2) [OF D(1)] by simp
    then have "entries ?e = entries e" by (simp add: entries_def dictReset_def)
    then have same: "same_content e ?e" by (simp add: same_content_def)
    then have "same_content d ?e" using L(4) same_trans by blast
    moreover have "dict_ok ?e"
      using D(2,3) same_distinct [OF same] reset_ok unfolding dict_ok_def by (simp add: dictIsRehashing_def)
    moreover have "\<not> dictIsRehashing ?e" by (simp add: dictIsRehashing_def)
    moreover have "\<not> ret" using L(6) u by (auto split: if_splits)
    ultimately show ?thesis using L(1) u
      by (intro exI [of _ False] exI [of _ ?e]) simp
  qed
qed

lemma rehash_nonempty:
  assumes "dict_ok d" and "0 < n" and "n * 10 < 2 ^ 31" and "hsize (ht0 d) > 0" and "dictRehash d n = Inr (ret, d')"
  shows "hsize (ht0 d') > 0"
proof (cases "dictIsRehashing d")
  case False
  have "s32 (n * 10) = Inr (n * 10)" using assms(2,3) by (intro s32_fits) auto
  then show ?thesis using assms False by (simp add: dictRehash_def)
next
  case True
  obtain r e where L: "dictRehash d n = (if \<not> r \<and> used (ht0 e) = 0
      then Inr (False, e\<lparr>ht0 := ht1 e, ht1 := dictReset, rehashidx := - 1\<rparr>) else Inr (True, e))"
    "dict_ok e" "dictIsRehashing e"
    using rehash_run [OF assms(1-3) True] by blast
  show ?thesis using assms(5) L(1) dict_okD(6,7) [OF L(2,3)] by (auto split: if_splits)
qed

text \<open>The step the operations take first.\<close>

lemma maybe_step_spec:
  assumes "dict_ok d"
  shows "\<exists>d'. (if dictIsRehashing d then dictRehashStep d else Inr d) = Inr d' \<and>
    dict_ok d' \<and> same_content d d' \<and> (hsize (ht0 d) > 0 \<longrightarrow> hsize (ht0 d') > 0)"
  using rehash_spec [OF assms, of 1] rehash_nonempty [OF assms, of 1] assms
  by (auto simp: dictRehashStep_def)

text \<open>
  \<open>small d\<close>: no table has more than \<open>2^31\<close> buckets, so that every index is an
  \<open>int\<close>.  Rehashing moves the tables but does not change their sizes.
\<close>

definition small :: "('k, 'v) dict \<Rightarrow> bool" where
  "small d \<longleftrightarrow> hsize (ht0 d) \<le> 2 ^ 31 \<and> hsize (ht1 d) \<le> 2 ^ 31"

lemma small_set [simp]:
  "small (set_ht d t ((set_bucket (ht d t) i c)\<lparr>used := u\<rparr>)) = small d"
  "small (set_ht d t (set_bucket (ht d t) i c)) = small d"
  by (simp_all add: small_def set_ht_def ht_def)

lemma skip_small: "rehash_skip d ev = Inr (ret, d', ev') \<Longrightarrow> small d \<Longrightarrow> small d'"
proof (induction d ev arbitrary: ret d' ev' rule: rehash_skip.induct)
  case (1 d ev)
  show ?case using 1 by (subst (asm) (2) rehash_skip.simps)
      (auto simp: Let_def small_def split: if_splits)
qed

lemma move_small: "rehash_move es d = Inr d' \<Longrightarrow> small d \<Longrightarrow> small d'"
  by (induction es arbitrary: d) (auto simp: Let_def small_def)

lemma loop_small: "rehash_loop below n d ev = Inr (ret, d') \<Longrightarrow> small d \<Longrightarrow> small d'"
proof (induction n arbitrary: d ev)
  case (Suc n)
  show ?case
  proof (cases "used (ht0 d) = 0 \<or> \<not> int (hsize (ht0 d)) > rehashidx d")
    case True
    then show ?thesis using Suc.prems by (auto split: if_splits)
  next
    case False
    then obtain ret' e ev' where S: "rehash_skip d ev = Inr (ret', e, ev')" using Suc.prems(1) by auto
    have e: "small e" by (rule skip_small [OF S Suc.prems(2)])
    show ?thesis
    proof (cases ret')
      case True
      then show ?thesis using Suc.prems(1) False S e by auto
    next
      case nret: False
      then obtain d1 where M: "rehash_move (table (ht0 e) ! nat (rehashidx e)) e = Inr d1"
        and L: "rehash_loop below n (d1\<lparr>ht0 := set_bucket (ht0 d1) (nat (rehashidx d1)) [], rehashidx := rehashidx d1 + 1\<rparr>) ev' = Inr (ret, d')"
        using Suc.prems(1) False S by auto
      show ?thesis using Suc.IH [OF L] move_small [OF M e] by (simp add: small_def)
    qed
  qed
qed (auto split: if_splits)

lemma rehash_small: "dictRehash d n = Inr (ret, d') \<Longrightarrow> small d \<Longrightarrow> small d'"
  by (auto simp: dictRehash_def split: if_splits dest!: loop_small) (auto simp: small_def)

lemma step_small: "(if dictIsRehashing d then dictRehashStep d else Inr d) = Inr d' \<Longrightarrow> small d \<Longrightarrow> small d'"
  by (auto simp: dictRehashStep_def split: if_splits dest: rehash_small)

section \<open>The operations on the map\<close>

lemma map_of_add_mset:
  assumes "mset xs = add_mset (c, v) (mset ys)" and "distinct (map fst ys)" and "c \<notin> fst ` set ys"
  shows "distinct (map fst xs)" and "map_of xs = (map_of ys)(c \<mapsto> v)"
proof -
  have "mset (map fst xs) = mset (map fst ((c, v) # ys))" using assms(1) by (simp only: mset_map mset.simps)
  then show d: "distinct (map fst xs)"
    using mset_eq_imp_distinct_iff [of "map fst xs" "map fst ((c, v) # ys)"] assms(2,3) by simp
  have "set xs = set ((c, v) # ys)" using arg_cong [OF assms(1), of set_mset] by simp
  then have "map_of xs = map_of ((c, v) # ys)"
    using map_of_inject_set [OF d, of "(c, v) # ys"] assms(2,3) by simp
  then show "map_of xs = (map_of ys)(c \<mapsto> v)" by simp
qed

lemma map_of_del_mset:
  assumes "mset xs = add_mset (c, v) (mset ys)" and "distinct (map fst xs)"
  shows "distinct (map fst ys)" and "c \<notin> fst ` set ys" and "map_of ys = (map_of xs)(c := None)"
proof -
  have "mset (map fst xs) = mset (map fst ((c, v) # ys))" using assms(1) by (simp only: mset_map mset.simps)
  then have "distinct (map fst ((c, v) # ys))" using assms(2) mset_eq_imp_distinct_iff by blast
  then show d: "distinct (map fst ys)" and c: "c \<notin> fst ` set ys" by auto
  have "map_of xs = (map_of ys)(c \<mapsto> v)" using map_of_add_mset(2) [OF assms(1) d c] .
  moreover have "map_of ys c = None" using c by (simp add: map_of_eq_None_iff)
  ultimately show "map_of ys = (map_of xs)(c := None)" by (simp add: fun_eq_iff)
qed

text \<open>A location of an entry.\<close>

definition valid_loc :: "('k, 'v) dict \<Rightarrow> loc \<Rightarrow> bool" where
  "valid_loc d l \<longleftrightarrow> (case l of (t, i, p) \<Rightarrow> t \<le> 1 \<and> i < length (table (ht d t)) \<and>
     p < length (table (ht d t) ! i))"

abbreviation kc :: "('k, 'v) dict \<Rightarrow> 'k \<Rightarrow> 'k set" where
  "kc d k \<equiv> key_class (dtype d) k"

lemma same_class: "type_ok t \<Longrightarrow> compare_type t a b \<longleftrightarrow> key_class t a = key_class t b"
proof -
  assume "type_ok t"
  then have "equivp (compare_type t)" by (simp add: type_ok_def)
  then have "compare_type t a b \<longleftrightarrow> compare_type t a = compare_type t b" by (simp add: equivp_def)
  then show ?thesis by (auto simp: key_class_def fun_eq_iff)
qed

lemma same_class_hash: "type_ok t \<Longrightarrow> key_class t a = key_class t b \<Longrightarrow> hash_index t m a = hash_index t m b"
  using same_class [of t a b] unfolding type_ok_def hash_index_def by simp

lemma chain_find_spec:
  assumes "type_ok (dtype d)"
  shows "case chain_find d key c of None \<Rightarrow> kc d key \<notin> kc d ` fst ` set c
    | Some p \<Rightarrow> p < length c \<and> kc d (fst (c ! p)) = kc d key"
proof (induction c)
  case (Cons e es)
  then show ?case
    using same_class [OF assms, of key "fst e"]
    by (auto simp: dictCompareKeys_eq split: option.splits)
qed simp

definition table_keys :: "('k, 'v) dictType \<Rightarrow> ('k, 'v) dictht \<Rightarrow> 'k set set" where
  "table_keys t h = key_class t ` fst ` set (concat (table h))"

lemma table_find_spec:
  assumes "type_ok (dtype d)" and "table_ok (dtype d) (ht d t)" and "hsize (ht d t) > 0" and "t \<le> 1"
  shows "\<exists>r. table_find d key t = Inr r \<and>
    (case r of None \<Rightarrow> kc d key \<notin> table_keys (dtype d) (ht d t)
     | Some l \<Rightarrow> valid_loc d l \<and> fst l = t \<and> fst (snd l) = bucket_index d (ht d t) key \<and>
         kc d (fst (entry_at d l)) = kc d key)"
proof -
  let ?h = "ht d t" let ?i = "bucket_index d ?h key"
  have i: "?i < length (table ?h)"
    using hash_index_less [OF assms(2,3)] table_okD(1) [OF assms(2)] by (simp add: bucket_index_eq)
  have f: "table_find d key t = Inr (map_option (\<lambda>p. (t, ?i, p)) (chain_find d key (table ?h ! ?i)))"
    using i by (simp add: table_find_def Let_def fault_simps)
  show ?thesis
  proof (cases "chain_find d key (table ?h ! ?i)")
    case None
    have "kc d key \<notin> table_keys (dtype d) ?h"
    proof
      assume "kc d key \<in> table_keys (dtype d) ?h"
      then obtain e where e: "e \<in> set (concat (table ?h))" "kc d (fst e) = kc d key"
        by (auto simp: table_keys_def)
      then obtain b where "b \<in> set (table ?h)" "e \<in> set b" by auto
      then obtain j where j: "j < length (table ?h)" "e \<in> set (table ?h ! j)"
        unfolding in_set_conv_nth by blast
      have "j = ?i"
        using buckets_okD [OF table_okD(4) [OF assms(2)] j] same_class_hash [OF assms(1) e(2)]
        by (simp add: bucket_index_eq)
      then have "kc d key \<in> kc d ` fst ` set (table ?h ! ?i)" using j(2) e(2) by (metis image_eqI)
      then show False using chain_find_spec [OF assms(1), of key "table ?h ! ?i"] None by simp
    qed
    then show ?thesis using f None by simp
  next
    case (Some p)
    then show ?thesis
      using f i assms(4) chain_find_spec [OF assms(1), of key "table ?h ! ?i"]
      by (simp add: valid_loc_def entry_at_def)
  qed
qed

lemma loc_entry: "valid_loc d l \<Longrightarrow> entry_at d l \<in> set (entries d)"
proof (cases l)
  case (fields t i p)
  assume "valid_loc d l"
  then have t: "t = 0 \<or> t = 1" and "table (ht d t) ! i \<in> set (table (ht d t))"
    "entry_at d l \<in> set (table (ht d t) ! i)"
    by (auto simp: valid_loc_def fields entry_at_def)
  then have "entry_at d l \<in> set (concat (table (ht d t)))" by auto
  then show ?thesis using t by (auto simp: entries_def ht_def)
qed

lemma map_at:
  assumes "distinct (map fst (class_entries d))" and "e \<in> set (entries d)"
  shows "dict_map d (kc d (fst e)) = Some (snd e)"
  using assms unfolding dict_map_def
  by (intro map_of_is_SomeI) (auto simp: class_entries_def split_beta intro!: image_eqI [of _ _ e])

lemma map_none:
  "dict_map d (kc d k) = None \<longleftrightarrow> kc d k \<notin> table_keys (dtype d) (ht0 d) \<union> table_keys (dtype d) (ht1 d)"
  unfolding dict_map_def map_of_eq_None_iff class_entries_def entries_def table_keys_def
  by (simp only: set_map image_image set_append image_Un split_beta fst_conv)

lemma both_find_spec:
  assumes "type_ok (dtype d)" and "dict_ok d" and "hsize (ht0 d) > 0"
  shows "\<exists>r. both_find d key = Inr r \<and>
    (case r of None \<Rightarrow> dict_map d (kc d key) = None
     | Some l \<Rightarrow> valid_loc d l \<and> kc d (fst (entry_at d l)) = kc d key \<and>
         dict_map d (kc d key) = Some (snd (entry_at d l)))"
proof -
  have t0: "table_ok (dtype d) (ht d 0)" and t1: "table_ok (dtype d) (ht d 1)"
    and dis: "distinct (map fst (class_entries d))"
    using assms(2) by (simp_all add: dict_ok_def ht_def)
  have at: "dict_map d (kc d key) = Some (snd (entry_at d l))"
    if "valid_loc d l" "kc d (fst (entry_at d l)) = kc d key" for l
    using map_at [OF dis loc_entry [OF that(1)]] that(2) by simp
  obtain r where r: "table_find d key 0 = Inr r"
    "case r of None \<Rightarrow> kc d key \<notin> table_keys (dtype d) (ht d 0)
     | Some l \<Rightarrow> valid_loc d l \<and> fst l = 0 \<and> fst (snd l) = bucket_index d (ht d 0) key \<and>
        kc d (fst (entry_at d l)) = kc d key"
    using table_find_spec [OF assms(1) t0, of key] assms(3) by (auto simp: ht_def)
  show ?thesis
  proof (cases r)
    case (Some l)
    then show ?thesis using r at by (simp add: both_find_def)
  next
    case None
    show ?thesis
    proof (cases "dictIsRehashing d")
      case False
      then have "table_keys (dtype d) (ht1 d) = {}" using assms(2)
        by (simp add: dict_ok_def dictReset_def table_keys_def)
      then show ?thesis using r None False by (simp add: both_find_def map_none ht_def)
    next
      case True
      then obtain r' where r': "table_find d key 1 = Inr r'"
        "case r' of None \<Rightarrow> kc d key \<notin> table_keys (dtype d) (ht d 1)
         | Some l \<Rightarrow> valid_loc d l \<and> fst l = 1 \<and> fst (snd l) = bucket_index d (ht d 1) key \<and>
            kc d (fst (entry_at d l)) = kc d key"
        using table_find_spec [OF assms(1) t1, of key] dict_okD(7) [OF assms(2)] by (auto simp: ht_def)
      then show ?thesis using r None True at
        by (cases r') (simp_all add: both_find_def map_none ht_def)
    qed
  qed
qed

section \<open>Updating one bucket\<close>

lemma ht_set [simp]:
  "ht (set_ht d t h) t = h" "dtype (set_ht d t h) = dtype d" "iterators (set_ht d t h) = iterators d"
  "rehashidx (set_ht d t h) = rehashidx d" "dictIsRehashing (set_ht d t h) = dictIsRehashing d"
  by (simp_all add: ht_def set_ht_def dictIsRehashing_def)

text \<open>
  Replacing the chain of a bucket by one with \<open>c\<close>: the invariant is kept when
  the keys of the new chain belong there and stay distinct.
\<close>

lemma update_bucket:
  assumes ok: "dict_ok d" and t: "t \<le> 1" and i: "i < length (table (ht d t))"
    and c: "\<forall>k \<in> fst ` set c. hash_index (dtype d) (sizemask (ht d t)) k = i"
    and u: "u + length (table (ht d t) ! i) = used (ht d t) + length c"
    and clear: "c \<noteq> [] \<longrightarrow> t = 1 \<or> \<not> dictIsRehashing d \<or> table (ht d t) ! i \<noteq> []"
  defines "d' \<equiv> set_ht d t ((set_bucket (ht d t) i c)\<lparr>used := u\<rparr>)"
  shows "mset (entries d') + mset (table (ht d t) ! i) = mset (entries d) + mset c"
    and "distinct (map fst (class_entries d')) \<Longrightarrow> dict_ok d'"
proof -
  have tok: "table_ok (dtype d) (ht d t)" and t01: "t = 0 \<or> t = 1"
    using ok t by (auto simp: dict_ok_def ht_def)
  have u': "u = used (ht d t) + length c - length (table (ht d t) ! i)" using u by simp
  have isz: "i < hsize (ht d t)" using i table_okD(1) [OF tok] by simp
  have ok': "table_ok (dtype d) ((set_bucket (ht d t) i c)\<lparr>used := u\<rparr>)"
    unfolding u' by (rule table_update_ok [OF tok isz c])
  show "mset (entries d') + mset (table (ht d t) ! i) = mset (entries d) + mset c"
    using t01 concat_update [OF i, of c] by (auto simp: d'_def entries_def ht_def set_ht_def)
  assume dis: "distinct (map fst (class_entries d'))"
  show "dict_ok d'"
  proof (cases "dictIsRehashing d")
    case False
    then have "ht1 d = dictReset" using ok by (simp add: dict_ok_def)
    then have "t = 0" using i t01 by (auto simp: ht_def dictReset_def)
    then show ?thesis using ok ok' dis False
      by (auto simp: dict_ok_def d'_def set_ht_def ht_def dictIsRehashing_def)
  next
    case True
    note D = dict_okD [OF ok True]
    have "table ((set_bucket (ht d 0) i c)\<lparr>used := u\<rparr>) ! j = []"
      if "t = 0" "j < nat (rehashidx d)" for j
      using that clear D(8) i True by (cases "j = i") (auto simp: ht_def)
    then show ?thesis using D ok' dis True t01
      by (auto simp: dict_ok_def d'_def set_ht_def ht_def dictIsRehashing_def)
  qed
qed

lemma class_entries_mset: "mset (class_entries d) = image_mset (\<lambda>(k, v). (kc d k, v)) (mset (entries d))"
  by (simp add: class_entries_def)

lemma loc_chain:
  assumes "valid_loc d (t, i, p)" and "dict_ok d"
  shows "t \<le> 1" "i < length (table (ht d t))" "p < length (table (ht d t) ! i)"
    "\<forall>k \<in> fst ` set (table (ht d t) ! i). hash_index (dtype d) (sizemask (ht d t)) k = i"
proof -
  show a: "t \<le> 1" "i < length (table (ht d t))" "p < length (table (ht d t) ! i)"
    using assms(1) by (simp_all add: valid_loc_def)
  have "table_ok (dtype d) (ht d t)" using assms(2) a(1) by (simp add: dict_ok_def ht_def)
  then show "\<forall>k \<in> fst ` set (table (ht d t) ! i). hash_index (dtype d) (sizemask (ht d t)) k = i"
    using buckets_okD [OF table_okD(4) a(2)] by auto
qed

text \<open>A new value at a location, with a key of the same class.\<close>

lemma set_entry_spec:
  assumes ok: "dict_ok d" and l: "valid_loc d l"
  defines "e \<equiv> entry_at d l"
  shows "dict_ok (set_entry d l (fst e, v)) \<and> dict_map (set_entry d l (fst e, v)) = (dict_map d)(kc d (fst e) \<mapsto> v) \<and>
    dtype (set_entry d l (fst e, v)) = dtype d \<and> iterators (set_entry d l (fst e, v)) = iterators d \<and>
    length (entries (set_entry d l (fst e, v))) = length (entries d)"
proof -
  obtain t i p where lp: "l = (t, i, p)" by (cases l)
  note L = loc_chain [OF l [unfolded lp] ok]
  let ?h = "ht d t" let ?c = "(table ?h ! i)[p := (fst e, v)]"
  have e: "e = table ?h ! i ! p" by (simp add: e_def entry_at_def lp)
  define d' where "d' = set_ht d t ((set_bucket ?h i ?c)\<lparr>used := used ?h\<rparr>)"
  have d': "set_entry d l (fst e, v) = d'" by (simp add: set_entry_def lp d'_def set_bucket_def)
  have keys: "fst ` set ?c \<subseteq> fst ` set (table ?h ! i)"
    using set_update_subset_insert [of "table ?h ! i" p "(fst e, v)"] L(3) e by (force intro: nth_mem)
  have U: "mset (entries d') + mset (table ?h ! i) = mset (entries d) + mset ?c"
    "distinct (map fst (class_entries d')) \<Longrightarrow> dict_ok d'"
    unfolding d'_def by (rule update_bucket [OF ok L(1,2)]; use L keys in force)+
  have dt: "dtype d' = dtype d" by (simp add: d'_def)
  have mc: "mset ?c + {#e#} = mset (table ?h ! i) + {#(fst e, v)#}"
    using L(3) e by (simp add: mset_update)
  have "mset (entries d') + {#e#} + mset (table ?h ! i) = (mset (entries d') + mset (table ?h ! i)) + {#e#}"
    by simp
  also have "\<dots> = mset (entries d) + (mset ?c + {#e#})" unfolding U(1) by simp
  also have "\<dots> = mset (entries d) + {#(fst e, v)#} + mset (table ?h ! i)" unfolding mc by simp
  finally have E: "mset (entries d') + {#e#} = mset (entries d) + {#(fst e, v)#}" by simp
  define es where "es = mset (entries d) - {#e#}"
  have es1: "mset (entries d) = add_mset e es" using loc_entry [OF l] by (simp add: e_def es_def)
  with E have es: "mset (entries d) = add_mset e es" "mset (entries d') = add_mset (fst e, v) es" by simp_all
  obtain xs where xs: "mset xs = es" by (metis ex_mset)
  define cs where "cs = map (\<lambda>(k, v). (kc d k, v)) xs"
  have "mset (class_entries d) = add_mset (kc d (fst e), snd e) (mset cs)"
    "mset (class_entries d') = add_mset (kc d (fst e), v) (mset cs)"
    by (simp_all add: class_entries_mset es cs_def xs split_beta dt)
  then have c1: "distinct (map fst cs)" "kc d (fst e) \<notin> fst ` set cs" "map_of cs = (dict_map d)(kc d (fst e) := None)"
    and c2: "distinct (map fst (class_entries d'))" "dict_map d' = (map_of cs)(kc d (fst e) \<mapsto> v)"
    using map_of_del_mset [of "class_entries d"] map_of_add_mset [of "class_entries d'"] ok
    unfolding dict_map_def by (auto simp: dict_ok_def)
  have "length (entries d') = length (entries d)" using es by (metis size_mset size_add_mset)
  then show ?thesis unfolding d' using U(2) c2 c1(3) dt by (auto simp: d'_def)
qed

text \<open>An entry removed, and an entry of a new class added at the head of its bucket.\<close>

lemma delete_spec:
  assumes ok: "dict_ok d" and l: "valid_loc d (t, i, p)"
  defines "e \<equiv> entry_at d (t, i, p)" and "c \<equiv> table (ht d t) ! i"
  defines "d' \<equiv> set_ht d t ((set_bucket (ht d t) i (take p c @ drop (Suc p) c))\<lparr>used := used (ht d t) - 1\<rparr>)"
  shows "dict_ok d' \<and> dict_map d' = (dict_map d)(kc d (fst e) := None) \<and> dtype d' = dtype d \<and>
    iterators d' = iterators d \<and> length (entries d') \<le> length (entries d)"
proof -
  note L = loc_chain [OF l ok]
  have e: "e = c ! p" by (simp add: e_def entry_at_def c_def)
  have p: "p < length c" using L(3) by (simp add: c_def)
  have split: "c = take p c @ e # drop (Suc p) c" using p by (simp add: e id_take_nth_drop [symmetric])
  have sub: "set (take p c @ drop (Suc p) c) \<subseteq> set c" using set_take_subset set_drop_subset by fastforce
  have "used (ht d t) = length (concat (table (ht d t)))" using ok L(1) by (auto simp: dict_ok_def table_ok_def ht_def)
  moreover have "length c \<le> length (concat (table (ht d t)))"
    using length_concat_update [OF L(2), of "[]"] by (simp add: c_def)
  ultimately have u: "used (ht d t) - 1 + length c = used (ht d t) + length (take p c @ drop (Suc p) c)"
    using p by simp
  have U: "mset (entries d') + mset c = mset (entries d) + mset (take p c @ drop (Suc p) c)"
    "distinct (map fst (class_entries d')) \<Longrightarrow> dict_ok d'"
    unfolding d'_def c_def
    by (rule update_bucket [OF ok L(1,2)]; use L sub u p in \<open>force simp: c_def\<close>)+
  have dt: "dtype d' = dtype d" by (simp add: d'_def)
  have "mset c = add_mset e (mset (take p c @ drop (Suc p) c))" by (subst split) simp
  then have es: "mset (entries d) = add_mset e (mset (entries d'))" using U(1) by simp
  have "mset (class_entries d) = add_mset (kc d (fst e), snd e) (mset (class_entries d'))"
    by (simp add: class_entries_mset es split_beta dt)
  then have "distinct (map fst (class_entries d'))" "dict_map d' = (dict_map d)(kc d (fst e) := None)"
    using map_of_del_mset [of "class_entries d"] ok unfolding dict_map_def by (auto simp: dict_ok_def)
  moreover have "length (entries d') \<le> length (entries d)"
    using es by (metis le_add2 plus_1_eq_Suc size_add_mset size_mset)
  ultimately show ?thesis using U(2) dt by (simp add: d'_def)
qed

lemma insert_spec:
  fixes v :: 'v
  assumes ok: "dict_ok (d :: ('k, 'v) dict)" and t: "t = (if dictIsRehashing d then 1 else 0)" and sz: "hsize (ht0 d) > 0"
    and new: "dict_map d (kc d k) = None" and i: "i = hash_index (dtype d) (sizemask (ht d t)) k"
  defines "c \<equiv> table (ht d t) ! i"
  defines "d' \<equiv> set_ht d t ((set_bucket (ht d t) i ((k, v) # c))\<lparr>used := used (ht d t) + 1\<rparr>)"
  shows "i < length (table (ht d t)) \<and> dict_ok d' \<and> dict_map d' = (dict_map d)(kc d k \<mapsto> v) \<and>
    dtype d' = dtype d \<and> iterators d' = iterators d \<and> length (entries d') = Suc (length (entries d)) \<and>
    valid_loc d' (t, i, 0) \<and> entry_at d' (t, i, 0) = (k, v)"
proof -
  have tok: "table_ok (dtype d) (ht d t)" using ok t by (simp add: dict_ok_def ht_def)
  have "hsize (ht d t) > 0" using sz t dict_okD(7) [OF ok] by (simp add: ht_def)
  then have il: "i < length (table (ht d t))"
    using hash_index_less [OF tok] table_okD(1) [OF tok] i by simp
  have t1: "t \<le> 1" using t by simp
  have keys: "\<forall>k' \<in> fst ` set ((k, v) # c). hash_index (dtype d) (sizemask (ht d t)) k' = i"
    using buckets_okD [OF table_okD(4) [OF tok] il] i by (auto simp: c_def)
  have U: "mset (entries d') + mset c = mset (entries d) + mset ((k, v) # c)"
    "distinct (map fst (class_entries d')) \<Longrightarrow> dict_ok d'"
    unfolding d'_def c_def
    by (rule update_bucket [OF ok t1 il]; use keys t in \<open>auto simp: c_def\<close>)+
  have dt: "dtype d' = dtype d" by (simp add: d'_def)
  have es: "mset (entries d') = add_mset (k, v) (mset (entries d))" using U(1) by simp
  have "mset (class_entries d') = add_mset (kc d k, v) (mset (class_entries d))"
    by (simp add: class_entries_mset es dt)
  moreover have "kc d k \<notin> fst ` set (class_entries d)"
    using new by (simp add: dict_map_def map_of_eq_None_iff)
  ultimately have "distinct (map fst (class_entries d'))" "dict_map d' = (dict_map d)(kc d k \<mapsto> v)"
    using map_of_add_mset [of "class_entries d'" "kc d k" v "class_entries d"] ok
    unfolding dict_map_def by (auto simp: dict_ok_def)
  moreover have "length (entries d') = Suc (length (entries d))"
    using es by (metis size_add_mset size_mset)
  ultimately show ?thesis using U(2) dt il t1
    by (simp add: d'_def valid_loc_def entry_at_def)
qed

section \<open>Expansion\<close>

lemma size_entries: "dict_ok d \<Longrightarrow> dictSize d = length (entries d)"
  by (auto simp: dict_ok_def table_ok_def dictSize_def entries_def)

lemma same_size: "dict_ok d \<Longrightarrow> dict_ok d' \<Longrightarrow> same_content d d' \<Longrightarrow> dictSize d' = dictSize d"
  by (metis same_content_def size_entries size_mset)

lemma expand_spec:
  assumes ok: "dict_ok d" and sz: "sz < 2 ^ 62" and r: "dictExpand d sz = (res, d')"
  shows "dict_ok d' \<and> same_content d d' \<and> (res \<longrightarrow> hsize (ht0 d') > 0) \<and>
    (\<not> dictIsRehashing d \<longrightarrow> used (ht0 d) \<le> sz \<longrightarrow> hsize (ht0 d) < sz \<longrightarrow> res)"
proof -
  obtain n where n: "n \<ge> 2" "n < 63" "dictNextPower sz = 2 ^ n" "sz \<le> 2 ^ n" using nextPower_spec [OF sz] by blast
  let ?n = "\<lparr>table = replicate (2 ^ n) [], size = 2 ^ n, sizemask = 2 ^ n - 1, used = 0\<rparr>"
  show ?thesis
  proof (cases "dictIsRehashing d \<or> used (ht0 d) > sz \<or> 2 ^ n = hsize (ht0 d)")
    case True
    then have "dictExpand d sz = (False, d)" unfolding dictExpand_def Let_def n(3) by auto
    then have "res = False" "d' = d" using r by simp_all
    then show ?thesis using True ok n(4) by auto
  next
    case False
    note nok = empty_table_ok [OF n(2), of "dtype d"]
    have h1: "ht1 d = dictReset" using ok False by (simp add: dict_ok_def)
    have h0: "table_ok (dtype d) (ht0 d)" and dis: "distinct (map fst (class_entries d))"
      using ok by (simp_all add: dict_ok_def)
    show ?thesis
    proof (cases "table (ht0 d) = []")
      case True
      then have d': "d' = d\<lparr>ht0 := ?n\<rparr>" "res" using r False n(3) by (simp_all add: dictExpand_def Let_def)
      have same: "same_content d d'" using True by (simp add: same_content_def entries_def d')
      then show ?thesis using same_distinct [OF same dis] nok h1 reset_ok [of "dtype d"] False
        by (simp add: dict_ok_def d' dictIsRehashing_def)
    next
      case ne: False
      then have d': "d' = d\<lparr>ht1 := ?n, rehashidx := 0\<rparr>" "res" using r False n(3) by (simp_all add: dictExpand_def Let_def)
      have same: "same_content d d'" by (simp add: same_content_def entries_def d' h1 dictReset_def)
      have "hsize (ht0 d) > 0" using ne table_okD(1) [OF h0] by (cases "table (ht0 d)") auto
      then show ?thesis using same same_distinct [OF same dis] nok h0 False
        by (simp add: dict_ok_def d' dictIsRehashing_def)
    qed
  qed
qed

lemma nextPower_small:
  assumes "sz \<le> 2 ^ 31"
  shows "dictNextPower sz \<le> 2 ^ 31"
proof -
  obtain n where n: "nextPower_loop 4 sz = 2 ^ n" "2 ^ n < 2 * sz \<or> 2 ^ n = (4::nat)"
    using nextPower_loop_spec [of 4 2 sz] by auto
  have "(2::nat) ^ n < 2 ^ 32" using n(2) assms by auto
  then have "n < 32" by (simp only: power_strict_increasing_iff)
  then have "(2::nat) ^ n \<le> 2 ^ 31" by (intro power_increasing) simp_all
  then show ?thesis using n(1) assms by (simp add: dictNextPower_def LONG_MAX_def DICT_HT_INITIAL_SIZE_def)
qed

lemma expand_small:
  assumes "dictExpand d sz = (res, d')" and "sz \<le> 2 ^ 31" and "small d"
  shows "small d'"
  using assms nextPower_small [OF assms(2)] by (auto simp: dictExpand_def Let_def small_def split: if_splits)

lemma expandIfNeeded_small:
  assumes "dictExpandIfNeeded cr d = (res, d')" and "dictSize d < 2 ^ 30" and "small d"
  shows "small d'"
proof -
  have "used (ht0 d) * 2 \<le> 2 ^ 31" using assms(2) by (simp add: dictSize_def)
  then show ?thesis using assms
    by (auto simp: dictExpandIfNeeded_def DICT_HT_INITIAL_SIZE_def split: if_splits dest: expand_small)
qed

lemma setVal_small [simp]: "small (dictSetVal d l v) = small d"
  by (cases l) (simp add: dictSetVal_def set_entry_def)

lemma find_small: "dictFind d k = Inr (r, d') \<Longrightarrow> small d \<Longrightarrow> small d'"
  by (auto simp: dictFind_def split: if_splits dest!: step_small rehash_small simp: dictRehashStep_def)

lemma delete_small: "dictGenericDelete d k nofree = Inr (r, d', fs) \<Longrightarrow> small d \<Longrightarrow> small d'"
proof (cases "hsize (ht0 d) = 0")
  case True
  assume "dictGenericDelete d k nofree = Inr (r, d', fs)" "small d"
  then show ?thesis using True by (simp add: dictGenericDelete_def)
next
  case False
  assume D: "dictGenericDelete d k nofree = Inr (r, d', fs)" and sm: "small d"
  obtain d1 where d1: "(if dictIsRehashing d then dictRehashStep d else Inr d) = Inr d1"
    using D False by (auto simp: dictGenericDelete_def simp del: split_paired_All)
  have "small d1" by (rule step_small [OF d1 sm])
  then show ?thesis using D False
    by (cases "both_find d1 k") (auto simp: dictGenericDelete_def d1 Let_def split: option.splits)
qed

lemma expandIfNeeded_spec:
  assumes ok: "dict_ok d" and room: "dictSize d < 2 ^ 30"
  shows "\<exists>d'. dictExpandIfNeeded cr d = (True, d') \<and> dict_ok d' \<and> same_content d d' \<and> hsize (ht0 d') > 0"
proof (cases "dictIsRehashing d")
  case True
  then show ?thesis using ok dict_okD(6) by (auto simp: dictExpandIfNeeded_def)
next
  case False
  note E = expand_spec [OF ok _ prod.collapse [symmetric]]
  have t0: "table_ok (dtype d) (ht0 d)" using ok by (simp add: dict_ok_def)
  have u: "used (ht0 d) < 2 ^ 30" using room by (simp add: dictSize_def)
  consider "hsize (ht0 d) = 0"
    | "hsize (ht0 d) > 0" "used (ht0 d) \<ge> hsize (ht0 d)" "cr \<or> used (ht0 d) div hsize (ht0 d) > dict_force_resize_ratio"
    | "hsize (ht0 d) > 0" "\<not> (used (ht0 d) \<ge> hsize (ht0 d) \<and> (cr \<or> used (ht0 d) div hsize (ht0 d) > dict_force_resize_ratio))"
    by blast
  then show ?thesis
  proof cases
    case 1
    have "used (ht0 d) = 0" using 1 table_okD(1,2) [OF t0] by simp
    then show ?thesis using E [of 4] 1 False
      by (intro exI [of _ "snd (dictExpand d 4)"])
        (simp add: dictExpandIfNeeded_def DICT_HT_INITIAL_SIZE_def prod_eq_iff)
  next
    case 2
    then show ?thesis using E [of "used (ht0 d) * 2"] u False
      by (intro exI [of _ "snd (dictExpand d (used (ht0 d) * 2))"])
        (simp add: dictExpandIfNeeded_def prod_eq_iff)
  next
    case 3
    then have "dictExpandIfNeeded cr d = (True, d)" using False unfolding dictExpandIfNeeded_def by auto
    then show ?thesis using ok 3(1) by simp
  qed
qed

section \<open>The operations\<close>

definition dup_val :: "('k, 'v) dictType \<Rightarrow> 'v \<Rightarrow> 'v" where
  "dup_val t v = (case valDup t of Some f \<Rightarrow> f v | None \<Rightarrow> v)"

lemma same_props:
  assumes "same_content d d'" and "dict_ok d" and "dict_ok d'"
  shows "dict_map d' = dict_map d" "dtype d' = dtype d" "iterators d' = iterators d" "dictSize d' = dictSize d"
  using same_map [OF assms(1)] same_size [OF assms(2,3,1)] assms
  by (auto simp: dict_ok_def same_content_def)

lemma setVal_spec:
  assumes "dict_ok d" and "valid_loc d l"
  shows "dict_ok (dictSetVal d l v) \<and>
    dict_map (dictSetVal d l v) = (dict_map d)(kc d (fst (entry_at d l)) \<mapsto> dup_val (dtype d) v) \<and>
    dtype (dictSetVal d l v) = dtype d \<and> iterators (dictSetVal d l v) = iterators d \<and>
    dictSize (dictSetVal d l v) = dictSize d"
  using set_entry_spec [OF assms, of "dup_val (dtype d) v"] assms(1)
  by (simp add: dictSetVal_def dup_val_def size_entries)

lemma addRaw_spec:
  assumes T: "type_ok (dtype d)" and ok: "dict_ok d" and room: "dictSize d < 2 ^ 30" and sm: "small d"
  shows "\<exists>r d'. dictAddRaw cr v0 d k = Inr (r, d') \<and> dict_ok d' \<and> small d' \<and> dtype d' = dtype d \<and>
    iterators d' = iterators d \<and>
    (case r of None \<Rightarrow> dict_map d (kc d k) \<noteq> None \<and> dict_map d' = dict_map d \<and> dictSize d' = dictSize d
     | Some l \<Rightarrow> dict_map d (kc d k) = None \<and> dict_map d' = (dict_map d)(kc d k \<mapsto> v0) \<and>
        valid_loc d' l \<and> kc d (fst (entry_at d' l)) = kc d k \<and> dictSize d' = Suc (dictSize d))"
proof -
  obtain d1 where d1: "(if dictIsRehashing d then dictRehashStep d else Inr d) = Inr d1" "dict_ok d1"
    "same_content d d1" using maybe_step_spec [OF ok] by blast
  note p1 = same_props [OF d1(3) ok d1(2)]
  obtain d2 where d2: "dictExpandIfNeeded cr d1 = (True, d2)" "dict_ok d2" "same_content d1 d2" "hsize (ht0 d2) > 0"
    using expandIfNeeded_spec [OF d1(2), of cr] room p1 by auto
  note p2 = same_props [OF d2(3) d1(2) d2(2)]
  have s2: "small d2" using expandIfNeeded_small [OF d2(1)] step_small [OF d1(1) sm] room p1 by simp
  have T2: "type_ok (dtype d2)" using T p1 p2 by simp
  obtain r where r: "both_find d2 k = Inr r" "case r of None \<Rightarrow> dict_map d2 (kc d2 k) = None
     | Some l \<Rightarrow> valid_loc d2 l \<and> kc d2 (fst (entry_at d2 l)) = kc d2 k \<and>
         dict_map d2 (kc d2 k) = Some (snd (entry_at d2 l))"
    using both_find_spec [OF T2 d2(2,4)] by blast
  show ?thesis
  proof (cases r)
    case (Some l)
    then have "dictAddRaw cr v0 d k = Inr (None, d2)"
      using d1(1) d2(1) r(1) by (cases l) (simp add: dictAddRaw_def dictKeyIndex_def)
    then show ?thesis using Some r(2) d2(2) p1 p2 s2 by simp
  next
    case None
    define t where "t = (if dictIsRehashing d2 then 1 else 0 :: nat)"
    define k' where "k' = (case keyDup (dtype d2) of Some f \<Rightarrow> f k | None \<Rightarrow> k)"
    have h: "(if dictIsRehashing d2 then ht1 d2 else ht0 d2) = ht d2 t" by (simp add: t_def ht_def)
    have ck: "kc d2 k' = kc d2 k"
      using T2 same_class [OF T2, of k' k] by (auto simp: type_ok_def k'_def split: option.splits)
    let ?i = "bucket_index d2 (ht d2 t) k"
    have i: "?i = hash_index (dtype d2) (sizemask (ht d2 t)) k'"
      using same_class_hash [OF T2 ck] by (simp add: bucket_index_eq)
    have new: "dict_map d2 (kc d2 k') = None" using None r(2) ck by simp
    let ?c = "table (ht d2 t) ! ?i"
    define d' where "d' = set_ht d2 t ((set_bucket (ht d2 t) ?i ((k', v0) # ?c))\<lparr>used := used (ht d2 t) + 1\<rparr>)"
    note I = insert_spec [OF d2(2) t_def d2(4) new i, of v0, folded d'_def]
    have "?i < 2 ^ 31"
      using I table_okD(1) [of "dtype d2" "ht d2 t"] d2(2) s2 by (auto simp: dict_ok_def small_def ht_def split: if_splits)
    then have "int_of_size ?i = int ?i" by (rule int_of_size)
    then have "dictKeyIndex cr d1 k = Inr (int ?i, d2)"
      using d2(1) r(1) None by (simp add: dictKeyIndex_def h)
    then have "dictAddRaw cr v0 d k = Inr (Some (t, ?i, 0), d')"
      using d1(1) I unfolding dictAddRaw_def
      by (simp add: Let_def fault_simps t_def [symmetric] k'_def [symmetric] d'_def)
    moreover have "dictSize d' = Suc (dictSize d2)" using I d2(2) by (simp add: size_entries)
    moreover have "small d'" using s2 by (simp add: d'_def)
    ultimately show ?thesis using I p1 p2 ck new
      by (intro exI [of _ "Some (t, ?i, 0)"] exI [of _ d']) simp
  qed
qed

lemma dict_add_spec:
  assumes "type_ok (dtype d)" and "dict_ok d" and "dictSize d < 2 ^ 30" and "small d"
  shows "\<exists>d'. dictAdd cr v0 d k v = Inr (dict_map d (kc d k) = None, d') \<and> dict_ok d' \<and> small d' \<and>
    dtype d' = dtype d \<and> iterators d' = iterators d \<and>
    dict_map d' = (if dict_map d (kc d k) = None then (dict_map d)(kc d k \<mapsto> dup_val (dtype d) v) else dict_map d) \<and>
    dictSize d' = dictSize d + (if dict_map d (kc d k) = None then 1 else 0)"
proof -
  obtain r d1 where R: "dictAddRaw cr v0 d k = Inr (r, d1)" "dict_ok d1" "small d1" "dtype d1 = dtype d" "iterators d1 = iterators d"
    "case r of None \<Rightarrow> dict_map d (kc d k) \<noteq> None \<and> dict_map d1 = dict_map d \<and> dictSize d1 = dictSize d
     | Some l \<Rightarrow> dict_map d (kc d k) = None \<and> dict_map d1 = (dict_map d)(kc d k \<mapsto> v0) \<and>
        valid_loc d1 l \<and> kc d (fst (entry_at d1 l)) = kc d k \<and> dictSize d1 = Suc (dictSize d)"
    using addRaw_spec [OF assms] by blast
  show ?thesis
  proof (cases r)
    case None
    then show ?thesis using R by (auto simp: dictAdd_def)
  next
    case (Some l)
    then show ?thesis using R setVal_spec [OF R(2), of l v] by (simp add: dictAdd_def)
  qed
qed

lemma dict_find_spec:
  assumes T: "type_ok (dtype d)" and ok: "dict_ok d"
  shows "\<exists>r d'. dictFind d k = Inr (r, d') \<and> dict_ok d' \<and> same_content d d' \<and>
    (case r of None \<Rightarrow> dict_map d (kc d k) = None
     | Some l \<Rightarrow> valid_loc d' l \<and> kc d (fst (entry_at d' l)) = kc d k \<and>
         dict_map d (kc d k) = Some (snd (entry_at d' l)))"
proof (cases "hsize (ht0 d) = 0")
  case True
  then have "\<not> dictIsRehashing d" using ok dict_okD(6) by fastforce
  then have "entries d = []" using ok True by (auto simp: dict_ok_def table_ok_def entries_def dictReset_def)
  then show ?thesis using True ok
    by (intro exI [of _ None] exI [of _ d]) (simp add: dictFind_def dict_map_def class_entries_def)
next
  case False
  obtain d1 where d1: "(if dictIsRehashing d then dictRehashStep d else Inr d) = Inr d1" "dict_ok d1"
    "same_content d d1" and sz: "hsize (ht0 d1) > 0" using maybe_step_spec [OF ok] False by blast
  note p1 = same_props [OF d1(3) ok d1(2)]
  have T1: "type_ok (dtype d1)" using T p1 by simp
  obtain r where "both_find d1 k = Inr r" "case r of None \<Rightarrow> dict_map d1 (kc d1 k) = None
     | Some l \<Rightarrow> valid_loc d1 l \<and> kc d1 (fst (entry_at d1 l)) = kc d1 k \<and>
         dict_map d1 (kc d1 k) = Some (snd (entry_at d1 l))"
    using both_find_spec [OF T1 d1(2) sz] by blast
  then show ?thesis using False d1 p1
    by (intro exI [of _ r] exI [of _ d1]) (cases r; simp add: dictFind_def)
qed

lemma replace_spec:
  assumes T: "type_ok (dtype d)" and ok: "dict_ok d" and room: "dictSize d < 2 ^ 30" and sm: "small d"
  shows "\<exists>d' fs. dictReplace cr v0 d k v = Inr (dict_map d (kc d k) = None, d', fs) \<and> dict_ok d' \<and> small d' \<and>
    dtype d' = dtype d \<and> iterators d' = iterators d \<and>
    dict_map d' = (dict_map d)(kc d k \<mapsto> dup_val (dtype d) v) \<and>
    dictSize d' = dictSize d + (if dict_map d (kc d k) = None then 1 else 0) \<and>
    fs = (case dict_map d (kc d k) of Some old \<Rightarrow> if valDestructor (dtype d) then [FreeVal old] else []
          | None \<Rightarrow> [])"
proof -
  obtain d1 where A: "dictAdd cr v0 d k v = Inr (dict_map d (kc d k) = None, d1)" "dict_ok d1"
    "dtype d1 = dtype d" "iterators d1 = iterators d"
    "dict_map d1 = (if dict_map d (kc d k) = None then (dict_map d)(kc d k \<mapsto> dup_val (dtype d) v) else dict_map d)"
    "dictSize d1 = dictSize d + (if dict_map d (kc d k) = None then 1 else 0)" and s1: "small d1"
    using dict_add_spec [OF assms, of cr v0 k v] by blast
  show ?thesis
  proof (cases "dict_map d (kc d k)")
    case None
    then show ?thesis using A s1 by (simp add: dictReplace_def)
  next
    case (Some old)
    obtain r d2 where F: "dictFind d1 k = Inr (r, d2)" "dict_ok d2" "same_content d1 d2"
      "case r of None \<Rightarrow> dict_map d1 (kc d1 k) = None
       | Some l \<Rightarrow> valid_loc d2 l \<and> kc d1 (fst (entry_at d2 l)) = kc d1 k \<and>
           dict_map d1 (kc d1 k) = Some (snd (entry_at d2 l))"
      using dict_find_spec [of d1 k] A(2,3) T by auto
    note p = same_props [OF F(3) A(2) F(2)]
    obtain l where l: "r = Some l" "valid_loc d2 l" "kc d (fst (entry_at d2 l)) = kc d k" "snd (entry_at d2 l) = old"
      using F(4) A(3,5) Some by (cases r) auto
    have "dictReplace cr v0 d k v = Inr (False, dictSetVal d2 l v, dictFreeVal (dictSetVal d2 l v) (entry_at d2 l))"
      using A(1) F(1) Some l(1) by (simp add: dictReplace_def Let_def)
    moreover note setVal_spec [OF F(2) l(2), of v]
    ultimately show ?thesis using p A(3-6) Some l(3,4) find_small [OF F(1) s1] by (simp add: dictFreeVal_def)
  qed
qed

lemma genericDelete_spec:
  assumes T: "type_ok (dtype d)" and ok: "dict_ok d"
  shows "\<exists>d' fs. dictGenericDelete d k nofree = Inr (dict_map d (kc d k) \<noteq> None, d', fs) \<and> dict_ok d' \<and>
    dtype d' = dtype d \<and> iterators d' = iterators d \<and> dict_map d' = (dict_map d)(kc d k := None) \<and>
    dictSize d' \<le> dictSize d \<and> (nofree \<longrightarrow> fs = [])"
proof (cases "hsize (ht0 d) = 0")
  case True
  then have "\<not> dictIsRehashing d" using ok dict_okD(6) by fastforce
  then have "entries d = []" using ok True by (auto simp: dict_ok_def table_ok_def entries_def dictReset_def)
  then have "dict_map d = Map.empty" by (simp add: dict_map_def class_entries_def)
  then show ?thesis using True ok by (simp add: dictGenericDelete_def)
next
  case False
  obtain d1 where d1: "(if dictIsRehashing d then dictRehashStep d else Inr d) = Inr d1" "dict_ok d1"
    "same_content d d1" and sz: "hsize (ht0 d1) > 0" using maybe_step_spec [OF ok] False by blast
  note p1 = same_props [OF d1(3) ok d1(2)]
  have T1: "type_ok (dtype d1)" using T p1 by simp
  obtain r where r: "both_find d1 k = Inr r" "case r of None \<Rightarrow> dict_map d1 (kc d1 k) = None
     | Some l \<Rightarrow> valid_loc d1 l \<and> kc d1 (fst (entry_at d1 l)) = kc d1 k \<and>
         dict_map d1 (kc d1 k) = Some (snd (entry_at d1 l))"
    using both_find_spec [OF T1 d1(2) sz] by blast
  show ?thesis
  proof (cases r)
    case None
    then show ?thesis using False d1 r p1 by (auto simp: dictGenericDelete_def)
  next
    case (Some l)
    obtain t i q where l: "l = (t, i, q)" by (cases l)
    have v: "valid_loc d1 (t, i, q)" using r(2) Some l by simp
    show ?thesis using delete_spec [OF d1(2) v] False d1(1,2) r p1 Some
      by (auto simp: dictGenericDelete_def Let_def l size_entries ok)
  qed
qed

text \<open>What a deletion and a clearing free.\<close>

lemma delete_frees:
  assumes T: "type_ok (dtype d)" and ok: "dict_ok d"
    and des: "keyDestructor (dtype d)" "valDestructor (dtype d)"
  shows "\<exists>found d' fs. dictGenericDelete d k False = Inr (found, d', fs) \<and>
    (if found then \<exists>k'. compare_type (dtype d) k k' \<and>
        fs = [FreeKey k', FreeVal (the (dict_map d (kc d k)))]
     else fs = [])"
proof (cases "hsize (ht0 d) = 0")
  case True
  then show ?thesis by (intro exI [of _ False]) (simp add: dictGenericDelete_def)
next
  case False
  obtain d1 where d1: "(if dictIsRehashing d then dictRehashStep d else Inr d) = Inr d1" "dict_ok d1"
    "same_content d d1" and sz: "hsize (ht0 d1) > 0" using maybe_step_spec [OF ok] False by blast
  note p1 = same_props [OF d1(3) ok d1(2)]
  have T1: "type_ok (dtype d1)" using T p1 by simp
  obtain r where r: "both_find d1 k = Inr r" "case r of None \<Rightarrow> dict_map d1 (kc d1 k) = None
     | Some l \<Rightarrow> valid_loc d1 l \<and> kc d1 (fst (entry_at d1 l)) = kc d1 k \<and>
         dict_map d1 (kc d1 k) = Some (snd (entry_at d1 l))"
    using both_find_spec [OF T1 d1(2) sz] by blast
  show ?thesis
  proof (cases r)
    case None
    then show ?thesis using False d1 r by (auto simp: dictGenericDelete_def)
  next
    case (Some l)
    obtain t i q where l: "l = (t, i, q)" by (cases l)
    have "compare_type (dtype d) k (fst (entry_at d1 l))" using r(2) Some p1 same_class [OF T] by simp
    then show ?thesis using False d1 r p1 Some des
      by (auto simp: dictGenericDelete_def Let_def l entry_at_def dictFreeKey_def dictFreeVal_def)
  qed
qed

lemma clear_loop_all:
  assumes "keyDestructor (dtype d)" and "valDestructor (dtype d)"
  shows "u = length (concat cs) \<Longrightarrow>
    clear_loop d False i cs u = concat (map (\<lambda>(k, v). [FreeKey k, FreeVal v]) (concat cs))"
proof (induction cs arbitrary: i u)
  case (Cons c cs)
  have "(\<lambda>e. dictFreeKey d e @ dictFreeVal d e) = (\<lambda>(k, v). [FreeKey k, FreeVal v])"
    using assms by (simp add: dictFreeKey_def dictFreeVal_def fun_eq_iff)
  then show ?case using Cons by (cases "u = 0") auto
qed simp

lemma clear_all:
  "table_ok t h \<Longrightarrow> keyDestructor (dtype d) \<Longrightarrow> valDestructor (dtype d) \<Longrightarrow>
   clear_loop d False 0 (table h) (used h) = concat (map (\<lambda>(k, v). [FreeKey k, FreeVal v]) (concat (table h)))"
  by (rule clear_loop_all) (auto simp: table_okD(2))

lemma resize_spec:
  assumes ok: "dict_ok d" and room: "dictSize d < 2 ^ 30" and sm: "small d"
  shows "\<exists>r d'. dictResize cr d = (r, d') \<and> dict_ok d' \<and> small d' \<and> same_content d d'"
proof (cases "\<not> cr \<or> dictIsRehashing d")
  case True
  then have "dictResize cr d = (False, d)" unfolding dictResize_def by auto
  then show ?thesis using ok sm by auto
next
  case False
  let ?m = "max (used (ht0 d)) 4"
  have m: "?m < 2 ^ 62" "?m \<le> 2 ^ 31" and u: "used (ht0 d) < 2 ^ 31" using room by (simp_all add: dictSize_def)
  have "dictResize cr d = dictExpand d ?m"
    using False by (simp add: dictResize_def Let_def DICT_HT_INITIAL_SIZE_def max_def int_of_size [OF u])
  then show ?thesis using expand_spec [OF ok m(1) prod.collapse [symmetric]] expand_small [OF prod.collapse [symmetric] m(2) sm]
    by (metis prod.collapse)
qed

section \<open>The dictionary as a map\<close>

text \<open>
  The client's operations and the housekeeping of the server
  (\<open>dictEnableResize\<close>, \<open>dictDisableResize\<close>, \<open>dictResize\<close>, \<open>dictRehash\<close>) as one
  step function on the dictionary and the global \<open>dict_can_resize\<close>.
\<close>

datatype dict_tidy = EnableResize | DisableResize | Resize | Rehash int

text \<open>The number of steps of \<open>dictRehash\<close>: positive, and its tenfold is still an \<open>int\<close>.\<close>

definition steps_ok :: "('k, 'v, dict_tidy) map_op \<Rightarrow> bool" where
  "steps_ok x \<longleftrightarrow> (case x of MTidy (Rehash n) \<Rightarrow> 0 < n \<and> n * 10 < 2 ^ 31 | _ \<Rightarrow> True)"

fun dict_step ::
  "'v \<Rightarrow> bool \<times> ('k, 'v) dict \<Rightarrow> ('k, 'v, dict_tidy) map_op \<Rightarrow> ('v map_ans \<times> bool \<times> ('k, 'v) dict) res" where
  "dict_step v0 (cr, d) (MAdd k v) = rbind (dictAdd cr v0 d k v) (\<lambda>(r, d). Inr (Done r, cr, d))"
| "dict_step v0 (cr, d) (MReplace k v) = rbind (dictReplace cr v0 d k v) (\<lambda>(r, d, fs). Inr (Done r, cr, d))"
| "dict_step v0 (cr, d) (MDel k) = rbind (dictDelete d k) (\<lambda>(r, d, fs). Inr (Done r, cr, d))"
| "dict_step v0 (cr, d) (MGet k) = rbind (dictFetchValue d k) (\<lambda>(r, d). Inr (Got r, cr, d))"
| "dict_step v0 (cr, d) (MTidy EnableResize) = Inr (Done True, True, d)"
| "dict_step v0 (cr, d) (MTidy DisableResize) = Inr (Done True, False, d)"
| "dict_step v0 (cr, d) (MTidy Resize) = Inr (Done True, cr, snd (dictResize cr d))"
| "dict_step v0 (cr, d) (MTidy (Rehash n)) = rbind (dictRehash d n) (\<lambda>(r, d). Inr (Done True, cr, d))"

definition dict_invar :: "('k, 'v) dictType \<Rightarrow> bool \<times> ('k, 'v) dict \<Rightarrow> bool" where
  "dict_invar t s \<longleftrightarrow> type_ok t \<and> dtype (snd s) = t \<and> dict_ok (snd s) \<and> small (snd s)"

lemma dict_step_refines:
  assumes I: "dict_invar t s" and room: "dictSize (snd s) < 2 ^ 30" and steps: "steps_ok x"
  shows "\<exists>a s'. dict_step v0 s x = Inr (a, s') \<and> dict_invar t s' \<and>
    map_step (dict_map (snd s)) (map_map_op (key_class t) (dup_val t) (\<lambda>t. t) x) = (a, dict_map (snd s')) \<and>
    dictSize (snd s') \<le> Suc (dictSize (snd s))"
proof -
  obtain cr d where s: "s = (cr, d)" by (cases s)
  have T: "type_ok (dtype d)" and ok: "dict_ok d" and t: "dtype d = t" and r: "dictSize d < 2 ^ 30" and sm: "small d"
    using I room by (simp_all add: s dict_invar_def)
  note inv = dict_invar_def t
  show ?thesis
  proof (cases x)
    case (MAdd k v)
    then show ?thesis using dict_add_spec [OF T ok r sm, of cr v0 k v] T by (auto simp: s inv)
  next
    case (MReplace k v)
    then show ?thesis using replace_spec [OF T ok r sm, of cr v0 k v] T by (auto simp: s inv)
  next
    case (MDel k)
    then show ?thesis using genericDelete_spec [OF T ok, of k False] T delete_small [of d k False] sm by (fastforce simp: s inv dictDelete_def)
  next
    case (MGet k)
    obtain l d' where F: "dictFind d k = Inr (l, d')" "dict_ok d'" "same_content d d'"
      "case l of None \<Rightarrow> dict_map d (kc d k) = None
       | Some l \<Rightarrow> valid_loc d' l \<and> kc d (fst (entry_at d' l)) = kc d k \<and>
           dict_map d (kc d k) = Some (snd (entry_at d' l))"
      using dict_find_spec [OF T ok, of k] by blast
    then show ?thesis using same_props [OF F(3) ok F(2)] T MGet find_small [OF F(1) sm]
      by (cases l) (auto simp: s inv dictFetchValue_def)
  next
    case (MTidy y)
    show ?thesis
    proof (cases y)
      case Resize
      obtain q d' where "dictResize cr d = (q, d')" "dict_ok d'" "small d'" "same_content d d'"
        using resize_spec [OF ok r sm] by blast
      then show ?thesis using same_props [of d d'] ok T MTidy Resize by (simp add: s inv)
    next
      case (Rehash n)
      then have n: "0 < n" "n * 10 < 2 ^ 31" using steps MTidy by (simp_all add: steps_ok_def)
      obtain q d' where D: "dictRehash d n = Inr (q, d')" "dict_ok d'" "same_content d d'"
        using rehash_spec [OF ok n] by auto
      then show ?thesis using rehash_small [OF D(1) sm] same_props [of d d'] ok T MTidy Rehash by (simp add: s inv)
    qed (use MTidy T ok sm in \<open>simp_all add: s inv\<close>)
  qed
qed

interpretation dict: map_impl "dict_invar t" "\<lambda>s. dict_map (snd s)" "\<lambda>s. dictSize (snd s)" "2 ^ 30" steps_ok
  "key_class t" "dup_val t" "dict_step v0" for t v0
  by unfold_locales (rule dict_step_refines)

section \<open>Properties\<close>

lemma create_small: "small (dictCreate t)"
  by (simp add: small_def dictCreate_def dictInit_def)

lemma create_ok: "dict_ok (dictCreate t)" "dict_map (dictCreate t) = Map.empty" "dictSize (dictCreate t) = 0"
  "dtype (dictCreate t) = t"
  by (simp_all add: dictCreate_def dictInit_def dict_ok_def class_entries_def entries_def
      dictIsRehashing_def dict_map_def dictSize_def)

text \<open>
  C24: A dictionary is a map.  Whatever sequence of insertions, replacements,
  deletions and lookups is run on a new dictionary, with resizing, enabling
  and disabling of resizing and rehashing in between, at most \<open>2^30\<close> of them,
  no operation faults (no access out of a bucket array, no overflow of an
  \<open>int\<close>, no failing assertion, no missing entry) and
  every answer is the one of a map from key classes to values; in the end the
  two tables satisfy the invariant and hold exactly that map.
\<close>
theorem dict_refines_map:
  assumes "type_ok t" and "length xs \<le> 2 ^ 30" and "\<forall>x \<in> set xs. steps_ok x"
  shows "\<exists>as cr' d'. run_res (dict_step v0) (cr, dictCreate t) xs = Inr (as, cr', d') \<and> dict_ok d' \<and>
    run_ops map_step Map.empty (map (map_map_op (key_class t) (dup_val t) (\<lambda>t. t)) xs) = (as, dict_map d')"
proof -
  have "dict_invar t (cr, dictCreate t)" using assms(1) by (simp add: dict_invar_def create_ok create_small)
  from dict.run_refines [OF this assms(3), of v0] assms(2) show ?thesis
    by (fastforce simp: create_ok dict_invar_def)
qed

text \<open>A type for the witnesses: keys are numbers, hashed badly.\<close>

abbreviation nat_type :: "(nat, nat) dictType" where
  "nat_type \<equiv> \<lparr>hashFunction = \<lambda>k. word_of_nat (k mod 2), keyDup = None, valDup = None,
     keyCompare = None, keyDestructor = True, valDestructor = True\<rparr>"

lemma nat_type_ok: "type_ok nat_type"
proof -
  have "compare_type nat_type = (=)" by (simp add: compare_type_def fun_eq_iff)
  then show ?thesis by (simp add: type_ok_def identity_equivp)
qed

lemma nat_class: "key_class nat_type k = {k}"
  by (auto simp: key_class_def compare_type_def)

theorem dict_refines_map_witness:
  "\<exists>as cr' d'. run_res (dict_step 0) (True, dictCreate nat_type)
      [MAdd 1 10, MAdd 3 30, MAdd 1 11, MTidy (Rehash 1), MGet 3, MDel 1, MGet 1] = Inr (as, cr', d') \<and>
    as = [Done True, Done True, Done False, Done True, Got (Some 30), Done True, Got None]"
proof -
  define xs :: "(nat, nat, dict_tidy) map_op list"
    where "xs = [MAdd 1 10, MAdd 3 30, MAdd 1 11, MTidy (Rehash 1), MGet 3, MDel 1, MGet 1]"
  have "length xs \<le> 2 ^ 30" "\<forall>x \<in> set xs. steps_ok x" by (simp_all add: xs_def steps_ok_def)
  then obtain as cr' d' where R: "run_res (dict_step 0) (True, dictCreate nat_type) xs = Inr (as, cr', d')"
    and A: "run_ops map_step Map.empty (map (map_map_op (key_class nat_type) (dup_val nat_type) (\<lambda>t. t)) xs) =
      (as, dict_map d')"
    using dict_refines_map [OF nat_type_ok] by blast
  have "as = [Done True, Done True, Done False, Done True, Got (Some 30), Done True, Got None]"
    using A by (simp add: nat_class dup_val_def xs_def)
  then show ?thesis using R by (auto simp: xs_def simp del: run_res.simps)
qed

text \<open>
  C25: Rehashing moves entries only: \<open>dictRehash\<close> with any positive number of
  steps whose tenfold is an \<open>int\<close> never faults and never changes the map, and
  its answer says whether it has more to do.  While the old table has fewer
  than \<open>2^31\<close> buckets, \<open>dictRehashMilliseconds\<close> returns for every clock,
  without overflow of its counter, with the same map; if the clock stands
  still, rehashing is then complete.
\<close>
theorem dict_rehash_terminates:
  assumes "dict_ok d" and "0 < n" and "n * 10 < 2 ^ 31" and "hsize (ht0 d) < 2 ^ 31"
    and "\<forall>i. 0 \<le> clock i \<and> clock i < 2 ^ 63"
  shows "(\<exists>todo d'. dictRehash d n = Inr (todo, d') \<and> dict_ok d' \<and> dict_map d' = dict_map d \<and>
      (todo \<longleftrightarrow> dictIsRehashing d')) \<and>
    (\<exists>r d'. dictRehashMilliseconds clock d ms = Some (Inr (r, d')) \<and> dict_ok d' \<and> dict_map d' = dict_map d \<and>
      ((\<forall>i. clock i - clock 0 \<le> ms) \<longrightarrow> \<not> dictIsRehashing d'))"
proof
  show "\<exists>todo d'. dictRehash d n = Inr (todo, d') \<and> dict_ok d' \<and> dict_map d' = dict_map d \<and>
      (todo \<longleftrightarrow> dictIsRehashing d')"
    using rehash_spec [OF assms(1-3)] same_props(1) assms(1) by fastforce
  have time: "s64 (clock i - clock 0) = Inr (clock i - clock 0)" for i
    using assms(5) [rule_format, of i] assms(5) [rule_format, of 0] by (simp add: s64_def)
  have "\<exists>r d'. rehash_ms_loop clock i ms d q = Some (Inr (r, d')) \<and> dict_ok d' \<and> dict_map d' = dict_map d \<and>
      ((\<forall>i. clock i - clock 0 \<le> ms) \<longrightarrow> \<not> dictIsRehashing d')"
    if "dict_ok d" "hsize (ht0 d) < 2 ^ 31" "0 \<le> q" "dictIsRehashing d \<longrightarrow> q \<le> rehashidx d" for d :: "('a, 'b) dict" and i q
    using that
  proof (induction "nat (int (hsize (ht0 d)) - rehashidx d)" arbitrary: d i q rule: less_induct)
    case less
    obtain todo e where R: "dictRehash d 100 = Inr (todo, e)" "dict_ok e" "same_content d e"
      "todo \<longleftrightarrow> dictIsRehashing e"
      "todo \<longrightarrow> dictIsRehashing d \<and> hsize (ht0 e) = hsize (ht0 d) \<and> rehashidx d + 100 \<le> rehashidx e"
      using rehash_spec [OF less.prems(1), of 100] by auto
    note m = same_props(1) [OF R(3) less.prems(1) R(2)]
    show ?case
    proof (cases todo)
      case False
      then show ?thesis using R m by (auto simp: rehash_ms_loop.simps [of clock i])
    next
      case True
      have q: "q + 100 \<le> rehashidx e" "rehashidx e \<le> int (hsize (ht0 e))"
        using True less.prems(4) R(4,5) dict_okD(5) [OF R(2)] by auto
      then have s: "s32 (q + 100) = Inr (q + 100)" using less.prems(2,3) R(5) True by (intro s32_fits) auto
      show ?thesis
      proof (cases "clock i - clock 0 > ms")
        case late: True
        then have "(\<forall>i. clock i - clock 0 \<le> ms) \<longrightarrow> \<not> dictIsRehashing e" using not_le by blast
        then show ?thesis using late True R(1,2) m s time [of i] by (simp only: rehash_ms_loop.simps [of clock i]) simp
      next
        case False
        have "nat (int (hsize (ht0 e)) - rehashidx e) < nat (int (hsize (ht0 d)) - rehashidx d)"
          using R(5) q True by auto
        from less.hyps [OF this R(2), of "q + 100" "i + 1"] show ?thesis
          using True R(1,5) m False q(1) less.prems(2,3) s time [of i] by (simp add: rehash_ms_loop.simps [of clock i])
      qed
    qed
  qed
  from this [OF assms(1,4), of 0 1] show "\<exists>r d'. dictRehashMilliseconds clock d ms = Some (Inr (r, d')) \<and> dict_ok d' \<and> dict_map d' = dict_map d \<and>
      ((\<forall>i. clock i - clock 0 \<le> ms) \<longrightarrow> \<not> dictIsRehashing d')"
    using dict_okD(4) [OF assms(1)] by (simp add: dictRehashMilliseconds_def)
qed

theorem dict_rehash_terminates_witness:
  "\<exists>r d'. dictRehashMilliseconds (\<lambda>i. 0) (dictCreate nat_type) 1 = Some (Inr (r, d')) \<and> \<not> dictIsRehashing d'"
  using dict_rehash_terminates [OF create_ok(1), of 1 nat_type "\<lambda>i. 0" 1] by (auto simp: dictCreate_def dictInit_def)

text \<open>With \<open>INT_MAX\<close> steps the number of empty visits overflows.\<close>

lemma dictRehash_overflow: "2 ^ 31 \<le> n * 10 \<Longrightarrow> dictRehash d n = Inl SignedOverflow"
  by (simp add: dictRehash_def s32_def)

text \<open>
  What \<open>dictReplace\<close> and \<open>dictDelete\<close> hand to the destructors: replacing
  frees the old value and nothing else (after the new one is in place),
  deleting frees the key and value of the entry that is removed, and only
  when there is one.  \<open>dictEmpty\<close> frees every entry once and leaves an empty
  dictionary.
\<close>
theorem dict_frees:
  assumes "type_ok (dtype d)" and "dict_ok d" and "dictSize d < 2 ^ 30" and "small d"
    and "keyDestructor (dtype d)" and "valDestructor (dtype d)"
  shows "(\<exists>added d' fs. dictReplace cr v0 d k v = Inr (added, d', fs) \<and>
      fs = (case dict_map d (key_class (dtype d) k) of Some old \<Rightarrow> [FreeVal old] | None \<Rightarrow> [])) \<and>
    (\<exists>found d' fs. dictDelete d k = Inr (found, d', fs) \<and>
      (if found then \<exists>k'. compare_type (dtype d) k k' \<and>
          fs = [FreeKey k', FreeVal (the (dict_map d (key_class (dtype d) k)))]
       else fs = [])) \<and>
    (\<exists>d'. dictEmpty d False = (concat (map (\<lambda>(k, v). [FreeKey k, FreeVal v]) (entries d)), d') \<and>
      dict_ok d' \<and> dict_map d' = Map.empty)"
proof (intro conjI)
  show "\<exists>added d' fs. dictReplace cr v0 d k v = Inr (added, d', fs) \<and>
      fs = (case dict_map d (key_class (dtype d) k) of Some old \<Rightarrow> [FreeVal old] | None \<Rightarrow> [])"
    using replace_spec [OF assms(1-4), of cr v0 k v] assms(6) by (auto split: option.splits)
  show "\<exists>found d' fs. dictDelete d k = Inr (found, d', fs) \<and>
      (if found then \<exists>k'. compare_type (dtype d) k k' \<and>
          fs = [FreeKey k', FreeVal (the (dict_map d (key_class (dtype d) k)))]
       else fs = [])"
    using delete_frees [OF assms(1,2,5,6)] by (simp add: dictDelete_def)
  show "\<exists>d'. dictEmpty d False = (concat (map (\<lambda>(k, v). [FreeKey k, FreeVal v]) (entries d)), d') \<and>
      dict_ok d' \<and> dict_map d' = Map.empty"
    using clear_all [of "dtype d" "ht0 d" d] clear_all [of "dtype d" "ht1 d" d] assms(2,5,6)
    by (auto simp: dictEmpty_def dictClear_def entries_def dict_ok_def class_entries_def
        dictIsRehashing_def dict_map_def)
qed

theorem dict_frees_witness:
  "\<exists>d'. dictEmpty (dictCreate nat_type) False = ([], d') \<and> dict_ok d'"
proof -
  have "type_ok (dtype (dictCreate nat_type))" "entries (dictCreate nat_type) = []"
    using nat_type_ok by (simp_all add: create_ok entries_def) (simp add: dictCreate_def dictInit_def)
  then show ?thesis using dict_frees [of "dictCreate nat_type" True 0 1 10] by (auto simp: create_ok create_small)
qed

end
