(* ===== verification/DictScan.thy ===== *)
theory DictScan
  imports Dict
begin

text \<open>
  \<open>dictScan\<close>: the stateless iteration with a reverse-binary cursor, its
  guarantee across resizes, and the situation where the guarantee fails.
\<close>

section \<open>The code\<close>

text \<open>\<open>while ((s >>= 1) > 0)\<close> of \<open>rev\<close>.\<close>

function rev_loop :: "nat \<Rightarrow> u64 \<Rightarrow> u64 \<Rightarrow> u64" where
  "rev_loop s msk v =
     (let s = s div 2
      in if s > 0 then
           let msk = msk XOR push_bit s msk;
               v = (drop_bit s v AND msk) OR (push_bit s v AND NOT msk)
           in rev_loop s msk v
         else v)"
  by pat_completeness auto
termination by (relation "measure (\<lambda>(s, msk, v). s)") auto

declare rev_loop.simps [simp del]

definition rev64 :: "u64 \<Rightarrow> u64" where
  "rev64 v = rev_loop 64 (NOT 0) v"

text \<open>The bucket at the cursor; what the callback is called with, in order.\<close>

definition emit :: "('k, 'v) dictht \<Rightarrow> u64 \<Rightarrow> ('k, 'v) chain res" where
  "emit t v = rd (table t) (unat (v AND word_of_nat (sizemask t)))"

text \<open>The \<open>do while\<close> over the expansions of the cursor in the larger table.\<close>

partial_function (option) scan_loop ::
  "('k, 'v) dictht \<Rightarrow> u64 \<Rightarrow> u64 \<Rightarrow> u64 \<Rightarrow> ('k, 'v) chain \<Rightarrow> (('k, 'v) chain \<times> u64) res option" where
  "scan_loop t1 m0 m1 v acc = (case emit t1 v of
     Inl e \<Rightarrow> Some (Inl e)
   | Inr es \<Rightarrow>
       let v = (((v OR m0) + 1) AND NOT m0) OR (v AND m0)
       in if v AND (m0 XOR m1) \<noteq> 0 then scan_loop t1 m0 m1 v (acc @ es)
          else Some (Inr (acc @ es, v)))"

definition scan_next :: "u64 \<Rightarrow> u64 \<Rightarrow> u64" where
  "scan_next m0 v =
     (let v = v OR NOT m0; v = rev64 v; v = v + 1 in rev64 v)"

definition dictScan :: "('k, 'v) dict \<Rightarrow> u64 \<Rightarrow> (('k, 'v) chain \<times> u64) res option" where
  "dictScan d v =
     (if dictSize d = 0 then Some (Inr ([], 0))
      else if \<not> dictIsRehashing d then
        let t0 = ht0 d; m0 = word_of_nat (sizemask t0)
        in Some (rbind (emit t0 v) (\<lambda>es. Inr (es, scan_next m0 v)))
      else
        let (t0, t1) = (if hsize (ht0 d) > hsize (ht1 d) then (ht1 d, ht0 d) else (ht0 d, ht1 d));
            m0 = word_of_nat (sizemask t0); m1 = word_of_nat (sizemask t1)
        in (case emit t0 v of
              Inl e \<Rightarrow> Some (Inl e)
            | Inr es \<Rightarrow> map_option (\<lambda>r. rbind r (\<lambda>(es', v'). Inr (es @ es', scan_next m0 v')))
                (scan_loop t1 m0 m1 v [])))"

section \<open>Bit reversal\<close>

definition flip :: "nat \<Rightarrow> nat \<Rightarrow> nat" where
  "flip s i = (if even (i div s) then i + s else i - s)"

definition rev_mask :: "u64 \<Rightarrow> nat \<Rightarrow> bool" where
  "rev_mask m s \<longleftrightarrow> (\<forall>i < 64. bit m i \<longleftrightarrow> even (i div s))"

lemma upt_64: "[0..<64] = [0, 1, 2, 3, 4, 5, 6, 7, 8, 9, 10, 11, 12, 13, 14, 15, 16, 17, 18, 19, 20, 21,
    22, 23, 24, 25, 26, 27, 28, 29, 30, 31, 32, 33, 34, 35, 36, 37, 38, 39, 40, 41, 42, 43, 44, 45, 46,
    47, 48, 49, 50, 51, 52, 53, 54, 55, 56, 57, 58, 59, 60, 61, 62, 63]"
  by (simp add: upt_rec)

lemmas flip_numerals = flip_def [of "numeral a" "numeral b" for a b] flip_def [of "numeral a" 0 for a]
  flip_def [of "numeral a" 1 for a] flip_def [of 1 "numeral b" for b] flip_def [of 1 0] flip_def [of 1 1]
  flip_def [of "Suc 0" "numeral b" for b] flip_def [of "Suc 0" 0] flip_def [of "Suc 0" "Suc 0"]
  flip_def [of "numeral a" "Suc 0" for a]

lemma flip_table:
  "i < 64 \<Longrightarrow> flip 1 i < 64 \<and> flip 2 i < 64 \<and> flip 4 i < 64 \<and> flip 8 i < 64 \<and> flip 16 i < 64 \<and>
    flip 32 (flip 16 (flip 8 (flip 4 (flip 2 (flip 1 i))))) = 63 - i"
proof -
  have "\<forall>i \<in> set [0..<64]. flip 1 i < 64 \<and> flip 2 i < 64 \<and> flip 4 i < 64 \<and> flip 8 i < 64 \<and> flip 16 i < 64 \<and>
      flip 32 (flip 16 (flip 8 (flip 4 (flip 2 (flip 1 i))))) = 63 - i"
    unfolding upt_64 by (simp add: flip_numerals numeral_2_eq_2 [symmetric] numeral_3_eq_3 [symmetric])
  then show "i < 64 \<Longrightarrow> ?thesis" by auto
qed

lemma odd_div_le: "\<not> even (i div s) \<Longrightarrow> s \<le> (i :: nat)"
  by (metis div_less dvd_0_right not_less)

definition rev_step :: "nat \<Rightarrow> u64 \<Rightarrow> u64 \<Rightarrow> u64" where
  "rev_step s m v = (drop_bit s v AND m) OR (push_bit s v AND NOT m)"

lemma rev_step_bit:
  assumes "rev_mask m s" and "i < 64" and "flip s i < 64"
  shows "bit (rev_step s m v) i \<longleftrightarrow> bit v (flip s i)"
  using assms odd_div_le [of i s]
  by (auto simp: rev_step_def bit_simps rev_mask_def flip_def add.commute dest: bit_imp_le_length)

lemma rev_masks:
  "rev_mask 0x00000000FFFFFFFF 32" "rev_mask 0x0000FFFF0000FFFF 16" "rev_mask 0x00FF00FF00FF00FF 8"
  "rev_mask 0x0F0F0F0F0F0F0F0F 4" "rev_mask 0x3333333333333333 2" "rev_mask 0x5555555555555555 1"
proof -
  have *: "rev_mask m s \<longleftrightarrow> (\<forall>i \<in> set [0..<64]. bit m i \<longleftrightarrow> even (i div s))" for m s
    by (auto simp: rev_mask_def)
  show "rev_mask 0x00000000FFFFFFFF 32" unfolding * by (simp add: upt_64)
  show "rev_mask 0x0000FFFF0000FFFF 16" unfolding * by (simp add: upt_64)
  show "rev_mask 0x00FF00FF00FF00FF 8" unfolding * by (simp add: upt_64)
  show "rev_mask 0x0F0F0F0F0F0F0F0F 4" unfolding * by (simp add: upt_64)
  show "rev_mask 0x3333333333333333 2" unfolding * by (simp add: upt_64)
  show "rev_mask 0x5555555555555555 1" unfolding * by (simp add: upt_64)
qed

lemma rev64_unfold:
  "rev64 v =
     rev_step 1 0x5555555555555555 (rev_step 2 0x3333333333333333 (rev_step 4 0x0F0F0F0F0F0F0F0F
       (rev_step 8 0x00FF00FF00FF00FF (rev_step 16 0x0000FFFF0000FFFF (rev_step 32 0x00000000FFFFFFFF v)))))"
proof -
  have *: "rev_loop s m v =
      (if s div 2 > 0
       then rev_loop (s div 2) (m XOR push_bit (s div 2) m) (rev_step (s div 2) (m XOR push_bit (s div 2) m) v)
       else v)" for s m v
    by (subst rev_loop.simps) (simp add: Let_def rev_step_def)
  have m: "NOT 0 XOR push_bit 32 (NOT 0) = (0x00000000FFFFFFFF :: u64)"
    "0x00000000FFFFFFFF XOR push_bit 16 0x00000000FFFFFFFF = (0x0000FFFF0000FFFF :: u64)"
    "0x0000FFFF0000FFFF XOR push_bit 8 0x0000FFFF0000FFFF = (0x00FF00FF00FF00FF :: u64)"
    "0x00FF00FF00FF00FF XOR push_bit 4 0x00FF00FF00FF00FF = (0x0F0F0F0F0F0F0F0F :: u64)"
    "0x0F0F0F0F0F0F0F0F XOR push_bit 2 0x0F0F0F0F0F0F0F0F = (0x3333333333333333 :: u64)"
    "0x3333333333333333 XOR push_bit 1 0x3333333333333333 = (0x5555555555555555 :: u64)"
    by (simp_all add: mask_eq_exp_minus_1)
  have d: "(64::nat) div 2 = 32" "(32::nat) div 2 = 16" "(16::nat) div 2 = 8" "(8::nat) div 2 = 4"
    "(4::nat) div 2 = 2" "(2::nat) div 2 = 1" "\<not> 0 < (1::nat) div 2"
    "0 < (32::nat)" "0 < (16::nat)" "0 < (8::nat)" "0 < (4::nat)" "0 < (2::nat)" "0 < (1::nat)" by simp_all
  show ?thesis unfolding rev64_def
    by (simp only: * [of 64] * [of 32] * [of 16] * [of 8] * [of 4] * [of 2] * [of 1] m d if_True if_False)
qed

lemma bit_rev64: "bit (rev64 v) i \<longleftrightarrow> i < 64 \<and> bit v (63 - i)"
proof (cases "i < 64")
  case True
  define i1 where "i1 = flip 1 i"
  define i2 where "i2 = flip 2 i1"
  define i3 where "i3 = flip 4 i2"
  define i4 where "i4 = flip 8 i3"
  define i5 where "i5 = flip 16 i4"
  have l: "i1 < 64" "i2 < 64" "i3 < 64" "i4 < 64" "i5 < 64"
    using flip_table True by (simp_all add: i1_def i2_def i3_def i4_def i5_def)
  have e: "flip 32 i5 = 63 - i" using flip_table [OF True] by (simp add: i1_def i2_def i3_def i4_def i5_def)
  note st = rev_step_bit [OF rev_masks(6) True, folded i1_def, OF l(1)]
    rev_step_bit [OF rev_masks(5) l(1), folded i2_def, OF l(2)]
    rev_step_bit [OF rev_masks(4) l(2), folded i3_def, OF l(3)]
    rev_step_bit [OF rev_masks(3) l(3), folded i4_def, OF l(4)]
    rev_step_bit [OF rev_masks(2) l(4), folded i5_def, OF l(5)]
    rev_step_bit [OF rev_masks(1) l(5), unfolded e]
  show ?thesis unfolding rev64_unfold using True st by simp
next
  case False
  then show ?thesis by (auto dest: bit_imp_le_length)
qed

lemma rev64_rev64 [simp]: "rev64 (rev64 v) = v"
  by (rule bit_word_eqI) (auto simp: bit_rev64)

section \<open>Cursors as positions\<close>

text \<open>
  The position of a cursor, or of a hash, is its reversal read as a number: a
  scan sweeps the positions upwards, whatever the size of the table is.
\<close>

definition pos :: "u64 \<Rightarrow> nat" where
  "pos v = unat (rev64 v)"

lemma pos_less: "pos v < 2 ^ 64"
  using unsigned_less [of "rev64 v", where 'a = nat] by (simp add: pos_def)

lemma pos_eq_0: "pos v = 0 \<longleftrightarrow> v = 0"
proof -
  have "rev64 0 = 0" by (rule bit_word_eqI) (simp add: bit_rev64)
  then show ?thesis by (metis pos_def rev64_rev64 unsigned_0 unsigned_eq_0_iff)
qed

lemma and_mask_nat: "unat (v AND mask k :: u64) = unat v mod 2 ^ k"
  by (simp only: take_bit_eq_mask [symmetric] unsigned_take_bit_eq) (simp only: take_bit_eq_mod)

lemma unat_drop_div: "unat (drop_bit k v :: u64) = unat v div 2 ^ k"
  by (simp only: unsigned_drop_bit_eq) (simp only: drop_bit_eq_div take_bit_length_eq unsigned_take_bit_eq [symmetric])

lemma bit_add_drop: "bit w (n + j) = bit (drop_bit n w) j" for w :: u64
  by (simp only: bit_drop_bit_eq comp_apply)

text \<open>Two words agree on their low \<open>k\<close> bits when their positions agree on the high ones.\<close>

lemma pos_block:
  assumes "k \<le> 64"
  shows "a AND mask k = b AND mask k \<longleftrightarrow> pos a div 2 ^ (64 - k) = pos b div 2 ^ (64 - k)"
proof -
  have "pos a div 2 ^ (64 - k) = unat (drop_bit (64 - k) (rev64 a))"
    "pos b div 2 ^ (64 - k) = unat (drop_bit (64 - k) (rev64 b))"
    by (simp_all only: pos_def unat_drop_div)
  then have "pos a div 2 ^ (64 - k) = pos b div 2 ^ (64 - k) \<longleftrightarrow>
      drop_bit (64 - k) (rev64 a) = drop_bit (64 - k) (rev64 b)"
    unfolding word_unat_eq_iff by (rule arg_cong2 [where f = "(=)"])
  also have "\<dots> \<longleftrightarrow> (\<forall>i < k. bit a i = bit b i)"
  proof
    assume "drop_bit (64 - k) (rev64 a) = drop_bit (64 - k) (rev64 b)"
    then have *: "bit (rev64 a) (64 - k + j) = bit (rev64 b) (64 - k + j)" for j
      by (simp only: bit_add_drop)
    show "\<forall>i < k. bit a i = bit b i"
    proof (intro allI impI)
      fix i assume "i < k"
      then show "bit a i = bit b i" using * [of "k - 1 - i"] assms by (simp add: bit_rev64 less_imp_diff_less)
    qed
  next
    assume "\<forall>i < k. bit a i = bit b i"
    then show "drop_bit (64 - k) (rev64 a) = drop_bit (64 - k) (rev64 b)"
      using assms by (intro bit_word_eqI) (auto simp: bit_drop_bit_eq bit_rev64)
  qed
  also have "\<dots> \<longleftrightarrow> a AND mask k = b AND mask k"
    unfolding bit_eq_iff using assms
    by (simp add: bit_and_iff bit_mask_iff) (meson order_less_le_trans)
  finally show ?thesis by simp
qed

text \<open>Advancing the cursor goes to the first position after the current block.\<close>

lemma pos_next:
  assumes "k \<le> 64"
  shows "pos (scan_next (mask k) v) = ((pos v div 2 ^ (64 - k) + 1) * 2 ^ (64 - k)) mod 2 ^ 64"
proof -
  let ?n = "64 - k"
  have r: "rev64 (v OR NOT (mask k)) = rev64 v OR mask ?n"
    using assms by (intro bit_word_eqI) (auto simp: bit_rev64 bit_or_iff bit_not_iff bit_mask_iff)
  have "rev64 v OR mask ?n = push_bit ?n (drop_bit ?n (rev64 v)) + mask ?n"
    by (subst disjunctive_add) (auto simp: bit_simps intro!: bit_word_eqI)
  also have "\<dots> + 1 = push_bit ?n (drop_bit ?n (rev64 v)) + 2 ^ ?n"
    by (simp add: mask_eq_exp_minus_1)
  finally have "rev64 (scan_next (mask k) v) = push_bit ?n (drop_bit ?n (rev64 v)) + 2 ^ ?n"
    by (simp add: scan_next_def Let_def r)
  also have "\<dots> = word_of_nat ((pos v div 2 ^ ?n + 1) * 2 ^ ?n)"
  proof -
    have "push_bit ?n (drop_bit ?n (rev64 v)) = word_of_nat (unat (drop_bit ?n (rev64 v)) * 2 ^ ?n)"
      by (simp add: push_bit_eq_mult)
    then have "push_bit ?n (drop_bit ?n (rev64 v)) = word_of_nat (pos v div 2 ^ ?n * 2 ^ ?n)"
      by (simp only: pos_def unat_drop_div)
    then show ?thesis by (simp only: of_nat_add of_nat_mult of_nat_power of_nat_numeral of_nat_1 distrib_right mult_1)
  qed
  finally show ?thesis unfolding pos_def [of "scan_next _ _"] by (simp only: unsigned_of_nat) (simp add: take_bit_eq_mod)
qed

section \<open>One call\<close>

definition entry_pos :: "('k, 'v) dictType \<Rightarrow> 'k \<times> 'v \<Rightarrow> nat" where
  "entry_pos t e = pos (ucast (hashFunction t (fst e)))"

abbreviation hash64 :: "('k, 'v) dictType \<Rightarrow> 'k \<times> 'v \<Rightarrow> u64" where
  "hash64 t e \<equiv> ucast (hashFunction t (fst e))"

lemma sizemask_mask:
  assumes "table_ok t h" and "hsize h = 2 ^ k"
  shows "word_of_nat (sizemask h) = (mask k :: u64)"
  using table_okD(3) [OF assms(1)] assms(2) by (simp add: mask_eq_exp_minus_1 of_nat_diff)

lemma emit_ok:
  assumes "table_ok t h" and "hsize h = 2 ^ k" and "k < 63"
  shows "emit h v = Inr (table h ! (unat v mod 2 ^ k))"
proof -
  have "unat v mod 2 ^ k < length (table h)" using table_okD(1) [OF assms(1)] assms(2) by simp
  then show ?thesis by (simp add: emit_def sizemask_mask [OF assms(1,2)] and_mask_nat fault_simps)
qed

lemma entry_bucket:
  assumes "table_ok t h" and "hsize h = 2 ^ k" and "e \<in> set (concat (table h))"
  shows "e \<in> set (table h ! (unat (hash64 t e) mod 2 ^ k))"
proof -
  obtain b where "b \<in> set (table h)" "e \<in> set b" using assms(3) by auto
  then obtain j where j: "j < length (table h)" "e \<in> set (table h ! j)"
    unfolding in_set_conv_nth by blast
  have "j = unat (hashFunction t (fst e)) mod 2 ^ k"
    using buckets_okD [OF table_okD(4) [OF assms(1)] j] table_okD(3) [OF assms(1)] assms(2)
    by (simp add: hash_index_def and_pow2 [simplified])
  moreover have "unat (hash64 t e) = unat (hashFunction t (fst e))" by (simp add: unat_ucast_up)
  ultimately show ?thesis using j(2) by simp
qed

lemma step_add:
  fixes v :: u64
  assumes "k < 64"
  shows "(((v OR mask k) + 1) AND NOT (mask k)) OR (v AND mask k) = v + 2 ^ k"
proof -
  have "v = push_bit k (drop_bit k v) + (v AND mask k)"
    by (subst disjunctive_add) (auto simp: bit_simps intro!: bit_word_eqI)
  have "v OR mask k = push_bit k (drop_bit k v) + mask k"
    by (subst disjunctive_add) (auto simp: bit_simps intro!: bit_word_eqI)
  then have "(v OR mask k) + 1 = push_bit k (drop_bit k v) + 2 ^ k"
    by (simp add: mask_eq_exp_minus_1)
  also have "\<dots> = push_bit k (drop_bit k v + 1)" by (simp add: push_bit_eq_mult algebra_simps)
  finally have a: "(v OR mask k) + 1 = push_bit k (drop_bit k v + 1)" .
  have "push_bit k w AND NOT (mask k) = push_bit k w" for w :: u64
    by (rule bit_word_eqI) (auto simp: bit_simps)
  then have "(((v OR mask k) + 1) AND NOT (mask k)) OR (v AND mask k) = push_bit k (drop_bit k v + 1) OR (v AND mask k)"
    by (simp add: a)
  also have "\<dots> = push_bit k (drop_bit k v + 1) + (v AND mask k)"
    by (subst disjunctive_add) (auto simp: bit_simps)
  also have "\<dots> = push_bit k (drop_bit k v) + (v AND mask k) + 2 ^ k"
    by (simp add: push_bit_eq_mult algebra_simps)
  finally show ?thesis using \<open>v = push_bit k (drop_bit k v) + (v AND mask k)\<close> by simp
qed

lemma and_diff_zero:
  fixes v :: u64
  assumes "k0 \<le> k1" and "k1 \<le> 64"
  shows "v AND (mask k0 XOR mask k1) = 0 \<longleftrightarrow> unat v mod 2 ^ k1 < 2 ^ k0"
proof -
  have "v AND (mask k0 XOR mask k1) = 0 \<longleftrightarrow> (\<forall>n. k0 \<le> n \<and> n < k1 \<longrightarrow> \<not> bit v n)"
  proof -
    have lt: "bit v n \<Longrightarrow> n < 64" for n by (auto dest: bit_imp_le_length)
    have b: "bit (v AND (mask k0 XOR mask k1)) n \<longleftrightarrow> bit v n \<and> k0 \<le> n \<and> n < k1" for n
      using assms(1) lt [of n] by (auto simp: bit_and_iff bit_xor_iff bit_mask_iff)
    have "v AND (mask k0 XOR mask k1) = 0 \<longleftrightarrow> (\<forall>n. \<not> bit (v AND (mask k0 XOR mask k1)) n)"
      by (auto intro: bit_word_eqI)
    then show ?thesis unfolding b by blast
  qed
  also have "\<dots> \<longleftrightarrow> drop_bit k0 (take_bit k1 v) = 0"
  proof
    assume "\<forall>n. k0 \<le> n \<and> n < k1 \<longrightarrow> \<not> bit v n"
    then show "drop_bit k0 (take_bit k1 v) = 0" by (intro bit_word_eqI) (auto simp: bit_simps)
  next
    assume "drop_bit k0 (take_bit k1 v) = 0"
    then have n: "\<not> bit (take_bit k1 v) (k0 + j)" for j by (simp only: bit_add_drop) simp
    show "\<forall>n. k0 \<le> n \<and> n < k1 \<longrightarrow> \<not> bit v n"
    proof (intro allI impI)
      fix n assume "k0 \<le> n \<and> n < k1"
      then show "\<not> bit v n" using n [of "n - k0"] by (simp add: bit_take_bit_iff)
    qed
  qed
  also have "\<dots> \<longleftrightarrow> unat (drop_bit k0 (take_bit k1 v)) = 0" by (simp add: unsigned_eq_0_iff)
  also have "\<dots> \<longleftrightarrow> unat v mod 2 ^ k1 < 2 ^ k0"
    by (simp only: unat_drop_div unsigned_take_bit_eq) (simp add: take_bit_eq_mod div_eq_0_iff)
  finally show ?thesis .
qed


lemma mod_twice: "m < 2 * n \<Longrightarrow> m mod n = (if m < n then m else m - n)" for m n :: nat
  by (cases "m < n") (simp_all add: le_mod_geq)

lemma unat_add_pow2:
  fixes v :: u64
  assumes "k0 \<le> k1" and "k1 < 64"
  shows "unat (v + 2 ^ k0) mod 2 ^ k1 =
    (if unat v mod 2 ^ k1 + 2 ^ k0 < 2 ^ k1 then unat v mod 2 ^ k1 + 2 ^ k0
     else unat v mod 2 ^ k1 + 2 ^ k0 - 2 ^ k1)"
proof -
  have d: "(2 :: nat) ^ k1 dvd 2 ^ 64" using assms by (intro le_imp_power_dvd) simp
  have p: "unat (2 ^ k0 :: u64) = 2 ^ k0"
  proof -
    have "unat (2 ^ k0 :: u64) = unat (word_of_nat (2 ^ k0) :: u64)" by simp
    also have "\<dots> = 2 ^ k0" using assms by (simp only: unsigned_of_nat) (simp add: take_bit_nat_eq_self_iff)
    finally show ?thesis .
  qed
  have "unat (v + 2 ^ k0) = (unat v + 2 ^ k0) mod 2 ^ 64"
    by (simp only: unat_word_ariths p word_size len_of_numeral_defs) simp
  then have "unat (v + 2 ^ k0) mod 2 ^ k1 = (unat v + 2 ^ k0) mod 2 ^ k1"
    using d by (simp only: mod_mod_cancel)
  also have "\<dots> = (unat v mod 2 ^ k1 + 2 ^ k0) mod 2 ^ k1" by (simp add: mod_simps)
  also have "\<dots> = (if unat v mod 2 ^ k1 + 2 ^ k0 < 2 ^ k1 then unat v mod 2 ^ k1 + 2 ^ k0
     else unat v mod 2 ^ k1 + 2 ^ k0 - 2 ^ k1)"
  proof -
    have "unat v mod 2 ^ k1 + 2 ^ k0 < 2 * 2 ^ k1"
    proof -
      have "(2 :: nat) ^ k0 \<le> 2 ^ k1" using assms by (intro power_increasing) simp_all
      moreover have "unat v mod 2 ^ k1 < 2 ^ k1" by (rule mod_less_divisor) simp
      ultimately show ?thesis by linarith
    qed
    then show ?thesis by (rule mod_twice)
  qed
  finally show ?thesis .
qed

lemma congruent_next:
  assumes "x mod 2 ^ k = u mod 2 ^ k" and "u \<le> x" and "x \<noteq> u"
  shows "u + 2 ^ k \<le> (x :: nat)"
proof -
  have "2 ^ k dvd x - u" using assms(1,2) by (metis mod_eq_dvd_iff_nat)
  then show ?thesis using assms(2,3) by (auto dest: dvd_imp_le)
qed

lemma scan_loop_spec:
  assumes "table_ok t h" and "hsize h = 2 ^ k1" and "k0 \<le> k1" and "k1 < 63"
  shows "\<exists>es v'. scan_loop h (mask k0) (mask k1) v acc = Some (Inr (acc @ es, v')) \<and>
    v' AND mask k0 = v AND mask k0 \<and> set es \<subseteq> set (concat (table h)) \<and>
    (\<forall>x < 2 ^ k1. x mod 2 ^ k0 = unat v mod 2 ^ k0 \<longrightarrow> unat v mod 2 ^ k1 \<le> x \<longrightarrow> set (table h ! x) \<subseteq> set es)"
proof (induction "2 ^ k1 - unat v mod 2 ^ k1" arbitrary: v acc rule: less_induct)
  case less
  let ?u = "unat v mod 2 ^ k1" let ?b = "table h ! ?u" let ?v = "v + 2 ^ k0"
  have lt: "?u < 2 ^ k1" by simp
  have b: "set ?b \<subseteq> set (concat (table h))"
    using table_okD(1) [OF assms(1)] assms(2) lt by (auto intro!: bexI [of _ ?b])
  have uu: "?u mod 2 ^ k0 = unat v mod 2 ^ k0"
    using assms(3) by (simp add: mod_mod_cancel le_imp_power_dvd)
  have low: "?v AND mask k0 = v AND mask k0"
  proof -
    have "unat ?v mod 2 ^ k0 = unat v mod 2 ^ k0"
      using unat_add_pow2 [of k0 k0 v] assms(3,4) by simp
    then show ?thesis unfolding word_unat_eq_iff and_mask_nat .
  qed
  have un: "scan_loop h (mask k0) (mask k1) v acc =
      (if ?v AND (mask k0 XOR mask k1) \<noteq> 0 then scan_loop h (mask k0) (mask k1) ?v (acc @ ?b)
       else Some (Inr (acc @ ?b, ?v)))"
    by (subst scan_loop.simps) (simp only: emit_ok [OF assms(1,2,4)] sum.case Let_def step_add [OF order.strict_trans1 [OF assms(3) order.strict_trans [OF assms(4)]], simplified])
  show ?case
  proof (cases "?u + 2 ^ k0 < 2 ^ k1")
    case True
    then have u': "unat ?v mod 2 ^ k1 = ?u + 2 ^ k0" using unat_add_pow2 [of k0 k1 v] assms(3,4) by simp
    then have ne: "?v AND (mask k0 XOR mask k1) \<noteq> 0"
      using and_diff_zero [of k0 k1 ?v] assms(3,4) by simp
    have "2 ^ k1 - unat ?v mod 2 ^ k1 < 2 ^ k1 - ?u" unfolding u' by (rule diff_less_mono2) (use lt in simp_all)
    from less(1) [OF this, of "acc @ ?b"] obtain es v' where
      E: "scan_loop h (mask k0) (mask k1) ?v (acc @ ?b) = Some (Inr ((acc @ ?b) @ es, v'))"
        "v' AND mask k0 = ?v AND mask k0" "set es \<subseteq> set (concat (table h))"
      and F: "\<forall>x < 2 ^ k1. x mod 2 ^ k0 = unat ?v mod 2 ^ k0 \<longrightarrow> unat ?v mod 2 ^ k1 \<le> x \<longrightarrow> set (table h ! x) \<subseteq> set es"
      by blast
    have "set (table h ! x) \<subseteq> set (?b @ es)"
      if "x < 2 ^ k1" "x mod 2 ^ k0 = unat v mod 2 ^ k0" "?u \<le> x" for x
    proof (cases "x = ?u")
      case False
      then have "?u + 2 ^ k0 \<le> x" using that uu by (intro congruent_next) auto
      moreover have "unat ?v mod 2 ^ k0 = unat v mod 2 ^ k0"
        using low unfolding word_unat_eq_iff and_mask_nat .
      ultimately show ?thesis using F that u' by auto
    qed simp
    then show ?thesis using E b ne low un by (intro exI [of _ "?b @ es"] exI [of _ v']) auto
  next
    case False
    then have u': "unat ?v mod 2 ^ k1 = ?u + 2 ^ k0 - 2 ^ k1" using unat_add_pow2 [of k0 k1 v] assms(3,4) by simp
    then have "unat ?v mod 2 ^ k1 < 2 ^ k0" using lt False by linarith
    then have z: "?v AND (mask k0 XOR mask k1) = 0"
      using and_diff_zero [of k0 k1 ?v] assms(3,4) by simp
    have "x = ?u" if "x < 2 ^ k1" "x mod 2 ^ k0 = unat v mod 2 ^ k0" "?u \<le> x" for x
      using congruent_next [of x k0 ?u] that uu False by fastforce
    then show ?thesis using b z low un by (intro exI [of _ ?b] exI [of _ ?v]) auto
  qed
qed


section \<open>One call\<close>

text \<open>The number of buckets of the only table, or of the smaller one of two.\<close>

definition scan_size :: "('k, 'v) dict \<Rightarrow> nat" where
  "scan_size d = (if dictIsRehashing d then min (hsize (ht0 d)) (hsize (ht1 d)) else hsize (ht0 d))"

lemma pos_small:
  assumes "k \<le> 64" and "2 ^ (64 - k) dvd pos v"
  shows "unat v < 2 ^ k"
proof -
  have "\<not> bit v i" if "k \<le> i" "i < 64" for i
  proof -
    have "63 - i < 64 - k" using that assms(1) by simp
    then have "(2 :: nat) ^ (64 - k) = 2 ^ (63 - i) * (2 * 2 ^ (64 - k - Suc (63 - i)))"
      by (simp flip: power_Suc power_add)
    then have "even (pos v div 2 ^ (63 - i))"
      using assms(2) by (auto elim!: dvdE simp: mult.assoc)
    then have "\<not> bit (pos v) (63 - i)" by (simp only: bit_iff_odd not_not)
    then show ?thesis using that by (simp add: pos_def bit_unsigned_iff bit_rev64)
  qed
  then have "v = v AND mask k"
    by (intro bit_word_eqI) (auto simp: bit_and_iff bit_mask_iff not_less [symmetric])
  then have "unat v = unat v mod 2 ^ k" using and_mask_nat [of v k] by simp
  then show ?thesis by (metis mod_less_divisor zero_less_numeral zero_less_power)
qed

lemma scan_next_small:
  assumes "k \<le> 64"
  shows "unat (scan_next (mask k) v) < 2 ^ k"
proof (rule pos_small [OF assms])
  have "(2 :: nat) ^ (64 - k) dvd 2 ^ 64" by (intro le_imp_power_dvd) simp
  then show "2 ^ (64 - k) dvd pos (scan_next (mask k) v)"
    unfolding pos_next [OF assms] by (simp only: dvd_mod_iff dvd_triv_right)
qed

text \<open>A bucket of the larger table the loop of one call does not reach comes before the cursor.\<close>

lemma skipped_before:
  assumes "k0 \<le> k1" and "k1 < 64" and "unat h mod 2 ^ k0 = unat v mod 2 ^ k0"
    and "unat v < 2 * 2 ^ k0" and "unat h mod 2 ^ k1 < unat v mod 2 ^ k1"
  shows "pos h < pos v"
proof -
  let ?u = "unat v mod 2 ^ k1" let ?x = "unat h mod 2 ^ k1"
  have dv: "(2 :: nat) ^ k0 dvd 2 ^ k1" using assms(1) by (rule le_imp_power_dvd)
  have cong: "?u mod 2 ^ k0 = ?x mod 2 ^ k0" using assms(3) dv by (simp add: mod_mod_cancel)
  have ge: "?x + 2 ^ k0 \<le> ?u" using congruent_next [OF cong] assms(5) by simp
  have uv: "?u \<le> unat v" by (rule mod_less_eq_dividend)
  have x: "?x < 2 ^ k0" using ge uv assms(4) by linarith
  have v: "2 ^ k0 \<le> unat v" using ge uv by linarith
  have "k0 \<noteq> k1"
  proof
    assume "k0 = k1"
    then have "?u < 2 ^ k0" by simp
    then show False using ge by linarith
  qed
  then have k: "k0 < k1" using assms(1) by simp
  have bv: "bit v k0"
  proof -
    have "unat v div 2 ^ k0 = 1" using v assms(4) by (simp add: div_nat_eqI)
    then have "bit (unat v) k0" by (simp add: bit_iff_odd)
    then show ?thesis by (simp add: bit_unsigned_iff)
  qed
  have bh: "\<not> bit h k0"
  proof -
    have "\<not> bit ?x k0" using x by (simp add: bit_iff_odd)
    then have "\<not> bit (unat h) k0" using k by (simp add: take_bit_eq_mod [symmetric] bit_take_bit_iff)
    then show ?thesis by (simp add: bit_unsigned_iff)
  qed
  have half: "pos w div 2 ^ (63 - k0) = 2 * (pos w div 2 ^ (64 - k0)) + of_bool (bit w k0)" for w
  proof -
    have "64 - k0 = Suc (63 - k0)" using k assms(2) by simp
    then have "pos w div 2 ^ (64 - k0) = pos w div 2 ^ (63 - k0) div 2"
      by (simp add: div_mult2_eq mult.commute [of 2])
    moreover have "bit w k0 = bit (pos w) (63 - k0)"
      using k assms(2) by (simp add: pos_def bit_unsigned_iff bit_rev64 less_imp_diff_less)
    ultimately show ?thesis by (simp add: bit_iff_odd odd_two_times_div_two_succ)
  qed
  have "h AND mask k0 = v AND mask k0" unfolding word_unat_eq_iff and_mask_nat by (rule assms(3))
  then have "pos h div 2 ^ (64 - k0) = pos v div 2 ^ (64 - k0)"
    using pos_block [of k0 h v] k assms(2) by simp
  then have "pos h div 2 ^ (63 - k0) < pos v div 2 ^ (63 - k0)"
    using half [of h] half [of v] bv bh by simp
  then show ?thesis by (metis div_le_mono not_less)
qed


lemma same_block:
  assumes "k \<le> 64" and "pos h div 2 ^ (64 - k) = pos v div 2 ^ (64 - k)"
  shows "unat h mod 2 ^ k = unat v mod 2 ^ k"
proof -
  have "h AND mask k = v AND mask k" using assms by (simp add: pos_block)
  then show ?thesis unfolding word_unat_eq_iff and_mask_nat .
qed

text \<open>What one call does: \<open>scan_call d v es v'\<close> in block number \<open>pos v div 2 ^ (64 - k)\<close>.\<close>

definition scan_call :: "('k, 'v) dict \<Rightarrow> u64 \<Rightarrow> ('k, 'v) chain \<Rightarrow> u64 \<Rightarrow> nat \<Rightarrow> bool" where
  "scan_call d v es v' k \<longleftrightarrow> k < 63 \<and> scan_size d = 2 ^ k \<and> dictScan d v = Some (Inr (es, v')) \<and>
     set es \<subseteq> set (entries d) \<and> unat v' < 2 ^ k \<and>
     pos v' = ((pos v div 2 ^ (64 - k) + 1) * 2 ^ (64 - k)) mod 2 ^ 64 \<and>
     (\<forall>e \<in> set (entries d). unat v < 2 * 2 ^ k \<longrightarrow> pos v \<le> entry_pos (dtype d) e \<longrightarrow>
        entry_pos (dtype d) e div 2 ^ (64 - k) = pos v div 2 ^ (64 - k) \<longrightarrow> e \<in> set es)"

lemma dictScan_one_table:
  assumes ok: "dict_ok d" and "dictSize d \<noteq> 0" and re: "\<not> dictIsRehashing d"
  obtains k es v' where "scan_call d v es v' k" "es = table (ht0 d) ! (unat v mod 2 ^ k)"
proof -
  have r1: "ht1 d = dictReset" and t0: "table_ok (dtype d) (ht0 d)" using ok re by (auto simp: dict_ok_def)
  have "hsize (ht0 d) \<noteq> 0"
    using assms(2) r1 table_okD(1,2) [OF t0]
    by (cases "table (ht0 d)") (auto simp: dictSize_def dictReset_def)
  then obtain k where k: "k < 63" "hsize (ht0 d) = 2 ^ k" using table_okD(5) [OF t0] by auto
  let ?b = "table (ht0 d) ! (unat v mod 2 ^ k)"
  have sc: "dictScan d v = Some (Inr (?b, scan_next (mask k) v))"
    using assms(2) re by (simp add: dictScan_def Let_def sizemask_mask [OF t0 k(2)] emit_ok [OF t0 k(2,1)])
  have lt: "unat v mod 2 ^ k < length (table (ht0 d))" using table_okD(1) [OF t0] k(2) by simp
  have sub: "set ?b \<subseteq> set (entries d)" using nth_mem [OF lt] by (auto simp: entries_def)
  have "e \<in> set ?b" if "e \<in> set (entries d)"
    and "entry_pos (dtype d) e div 2 ^ (64 - k) = pos v div 2 ^ (64 - k)" for e
  proof -
    have "e \<in> set (concat (table (ht0 d)))" using that(1) r1 by (auto simp: entries_def dictReset_def)
    from entry_bucket [OF t0 k(2) this] show ?thesis
      using same_block [OF _ that(2) [unfolded entry_pos_def]] k(1) by simp
  qed
  then have "scan_call d v ?b (scan_next (mask k) v) k"
    using sc sub k scan_next_small [of k v] pos_next [of k v] re by (simp add: scan_call_def scan_size_def)
  then show thesis by (rule that) simp
qed

lemma dictScan_two_tables:
  assumes ok: "dict_ok d" and "dictSize d \<noteq> 0" and re: "dictIsRehashing d"
  obtains k es v' where "scan_call d v es v' k"
proof -
  define t0 where "t0 = (if hsize (ht0 d) > hsize (ht1 d) then ht1 d else ht0 d)"
  define t1 where "t1 = (if hsize (ht0 d) > hsize (ht1 d) then ht0 d else ht1 d)"
  have T: "table_ok (dtype d) t0" "table_ok (dtype d) t1" "hsize t0 > 0" "hsize t1 > 0"
    using dict_okD [OF ok re] by (auto simp: t0_def t1_def)
  obtain k0 k1 where k: "k0 < 63" "hsize t0 = 2 ^ k0" "k1 < 63" "hsize t1 = 2 ^ k1"
    using table_okD(5) [OF T(1)] table_okD(5) [OF T(2)] T(3,4) by auto
  have "hsize t0 \<le> hsize t1" by (auto simp: t0_def t1_def)
  then have le: "k0 \<le> k1" using k by simp
  have k64: "k0 \<le> 64" using k(1) by simp
  have en: "set (entries d) = set (concat (table t0)) \<union> set (concat (table t1))"
    by (auto simp: entries_def t0_def t1_def)
  have "scan_size d = hsize t0" using re by (simp add: scan_size_def t0_def)
  then have sz: "scan_size d = 2 ^ k0" using k(2) by simp
  let ?b = "table t0 ! (unat v mod 2 ^ k0)"
  obtain es v' where L: "scan_loop t1 (mask k0) (mask k1) v [] = Some (Inr ([] @ es, v'))"
      "v' AND mask k0 = v AND mask k0" "set es \<subseteq> set (concat (table t1))"
    and F: "\<forall>x < 2 ^ k1. x mod 2 ^ k0 = unat v mod 2 ^ k0 \<longrightarrow> unat v mod 2 ^ k1 \<le> x \<longrightarrow> set (table t1 ! x) \<subseteq> set es"
    using scan_loop_spec [OF T(2) k(4) le k(3), of v "[]"] by blast
  have t01: "(if hsize (ht0 d) > hsize (ht1 d) then (ht1 d, ht0 d) else (ht0 d, ht1 d)) = (t0, t1)"
    by (simp add: t0_def t1_def)
  have sc: "dictScan d v = Some (Inr (?b @ es, scan_next (mask k0) v'))"
    using assms(2) re L(1) unfolding dictScan_def
    by (simp add: t01 Let_def sizemask_mask [OF T(1) k(2)] sizemask_mask [OF T(2) k(4)]
        emit_ok [OF T(1) k(2,1)])
  have lt: "unat v mod 2 ^ k0 < length (table t0)" using table_okD(1) [OF T(1)] k(2) by simp
  have sub: "set (?b @ es) \<subseteq> set (entries d)" using nth_mem [OF lt] L(3) by (auto simp: en)
  have blk: "pos v' div 2 ^ (64 - k0) = pos v div 2 ^ (64 - k0)" using L(2) pos_block [OF k64] by simp
  have "e \<in> set (?b @ es)" if e: "e \<in> set (entries d)" "unat v < 2 * 2 ^ k0"
    "pos v \<le> entry_pos (dtype d) e" "entry_pos (dtype d) e div 2 ^ (64 - k0) = pos v div 2 ^ (64 - k0)" for e
  proof -
    let ?h = "hash64 (dtype d) e"
    have low: "unat ?h mod 2 ^ k0 = unat v mod 2 ^ k0"
      by (rule same_block [OF k64 e(4) [unfolded entry_pos_def]])
    from e(1) consider "e \<in> set (concat (table t0))" | "e \<in> set (concat (table t1))" by (auto simp: en)
    then show ?thesis
    proof cases
      case 1
      from entry_bucket [OF T(1) k(2) this] low show ?thesis by simp
    next
      case 2
      have "unat v mod 2 ^ k1 \<le> unat ?h mod 2 ^ k1"
        using skipped_before [OF le _ low e(2)] k(3) e(3) by (force simp: entry_pos_def)
      moreover have "unat ?h mod 2 ^ k1 mod 2 ^ k0 = unat v mod 2 ^ k0"
        using low le by (simp add: mod_mod_cancel le_imp_power_dvd)
      ultimately have "set (table t1 ! (unat ?h mod 2 ^ k1)) \<subseteq> set es" using F by simp
      then show ?thesis using entry_bucket [OF T(2) k(4) 2] by auto
    qed
  qed
  note cov = this
  have "scan_call d v (?b @ es) (scan_next (mask k0) v') k0"
    unfolding scan_call_def
  proof (intro conjI ballI impI)
    show "k0 < 63" by (rule k(1))
    show "scan_size d = 2 ^ k0" by (rule sz)
    show "dictScan d v = Some (Inr (?b @ es, scan_next (mask k0) v'))" by (rule sc)
    show "set (?b @ es) \<subseteq> set (entries d)" by (rule sub)
    show "unat (scan_next (mask k0) v') < 2 ^ k0" by (rule scan_next_small [OF k64])
    show "pos (scan_next (mask k0) v') = (pos v div 2 ^ (64 - k0) + 1) * 2 ^ (64 - k0) mod 2 ^ 64"
      by (subst blk [symmetric]) (rule pos_next [OF k64])
  qed (rule cov)
  then show thesis by (rule that)
qed

lemma dictScan_call:
  assumes "dict_ok d" and "dictSize d \<noteq> 0"
  obtains k es v' where "scan_call d v es v' k"
  using dictScan_one_table [OF assms] dictScan_two_tables [OF assms] by metis


section \<open>A whole scan\<close>

text \<open>
  The loop of a client: one call per state of the dictionary it finds, which
  may have been changed in any way in between, until the cursor is back at 0.
\<close>

fun scan_run :: "('k, 'v) dict list \<Rightarrow> u64 \<Rightarrow> (('k, 'v) chain \<times> u64) res option" where
  "scan_run [] v = Some (Inr ([], v))"
| "scan_run (d # ds) v = (case dictScan d v of
     None \<Rightarrow> None
   | Some (Inl e) \<Rightarrow> Some (Inl e)
   | Some (Inr (es, v')) \<Rightarrow>
       if v' = 0 then Some (Inr (es, 0))
       else map_option (\<lambda>r. rbind r (\<lambda>(es', v''). Inr (es @ es', v''))) (scan_run ds v'))"

lemma entries_empty: "dict_ok d \<Longrightarrow> dictSize d = 0 \<Longrightarrow> entries d = []"
  using table_okD(2) [of "dtype d" "ht0 d"] table_okD(2) [of "dtype d" "ht1 d"]
  by (auto simp: dict_ok_def dictSize_def entries_def dictReset_def split: if_splits)

text \<open>
  The invariant of the loop: the cursor stands at a block boundary of the
  finest table, and the entries at positions before it have been handed out.
\<close>

lemma scan_run_spec:
  assumes "\<forall>d \<in> set ds. dict_ok d \<and> dtype d = t \<and> scan_size d \<le> 2 ^ K" and "K \<le> 64"
    and "pos v = b * 2 ^ (64 - K)" and "b < 2 ^ K" and "2 ^ K - b \<le> length ds"
  shows "\<exists>n es. 0 < n \<and> n \<le> 2 ^ K - b \<and> scan_run (take n ds) v = Some (Inr (es, 0)) \<and>
    (unat v < 2 * scan_size (hd ds) \<longrightarrow> successively (\<lambda>d d'. scan_size d \<le> 2 * scan_size d') (take n ds) \<longrightarrow>
      (\<forall>e. (\<forall>d \<in> set (take n ds). e \<in> set (entries d)) \<longrightarrow> pos v \<le> entry_pos t e \<longrightarrow> e \<in> set es))"
  using assms
proof (induction ds arbitrary: v b)
  case Nil
  then show ?case by simp
next
  case (Cons d ds)
  let ?B = "2 ^ (64 - K) :: nat"
  have d: "dict_ok d" "dtype d = t" "scan_size d \<le> 2 ^ K" using Cons.prems(1) by auto
  show ?case
  proof (cases "dictSize d = 0")
    case True
    then have "entries d = []" by (rule entries_empty [OF d(1)])
    with True Cons.prems(4) show ?thesis
      by (intro exI [of _ 1] exI [of _ "[]"]) (simp add: dictScan_def)
  next
    case False
    obtain k es v' where call: "scan_call d v es v' k" using dictScan_call [OF d(1) False] .
    note C = call [unfolded scan_call_def]
    have kK: "k \<le> K" using C d(3) by simp
    define j where "j = pos v div 2 ^ (64 - k) + 1"
    have blk: "(2 :: nat) ^ (64 - k) = 2 ^ (K - k) * ?B"
      using kK Cons.prems(2) by (simp flip: power_add)
    have all: "(2 :: nat) ^ 64 = 2 ^ k * 2 ^ (64 - k)"
    proof -
      have "k + (64 - k) = 64" using kK Cons.prems(2) by simp
      then show ?thesis by (metis power_add)
    qed
    have j: "j \<le> 2 ^ k"
    proof -
      have "pos v div 2 ^ (64 - k) < 2 ^ k"
        using pos_less [of v] unfolding all by (rule less_mult_imp_div_less)
      then show ?thesis by (simp add: j_def)
    qed
    have lt: "pos v < j * 2 ^ (64 - k)"
      unfolding j_def using dividend_less_div_times [of "2 ^ (64 - k)" "pos v"] by simp
    have in_block: "e \<in> set es" if "unat v < 2 * scan_size d" "e \<in> set (entries d)" "pos v \<le> entry_pos t e"
      "entry_pos t e < j * 2 ^ (64 - k)" for e
    proof -
      have "entry_pos t e div 2 ^ (64 - k) < j" using that(4) by (rule less_mult_imp_div_less)
      moreover have "pos v div 2 ^ (64 - k) \<le> entry_pos t e div 2 ^ (64 - k)" using that(3) by (rule div_le_mono)
      ultimately have "entry_pos t e div 2 ^ (64 - k) = pos v div 2 ^ (64 - k)" by (simp add: j_def)
      then show ?thesis using C that d(2) by auto
    qed
    show ?thesis
    proof (cases "v' = 0")
      case True
      then have "pos v' = 0" by (simp add: pos_eq_0)
      then have "(j * 2 ^ (64 - k)) mod 2 ^ 64 = 0" using C by (simp add: j_def)
      then have "j * 2 ^ (64 - k) \<ge> 2 ^ 64" using lt by (metis mod_less not_less not_less0)
      then have "entry_pos t e < j * 2 ^ (64 - k)" for e
        using pos_less unfolding entry_pos_def by (rule order.strict_trans2 [rotated])
      then show ?thesis using C True in_block Cons.prems(4)
        by (intro exI [of _ 1] exI [of _ es]) auto
    next
      case False
      then have "pos v' \<noteq> 0" by (simp add: pos_eq_0)
      moreover have pv': "pos v' = (j * 2 ^ (64 - k)) mod 2 ^ 64" using C by (simp add: j_def)
      ultimately have "j \<noteq> 2 ^ k" unfolding all by (metis mod_self)
      then have "j * 2 ^ (64 - k) < 2 ^ 64" using j unfolding all by simp
      then have p: "pos v' = j * 2 ^ (64 - k)" using pv' by simp
      define b' where "b' = j * 2 ^ (K - k)"
      have pb: "pos v' = b' * ?B" unfolding b'_def p blk by simp
      have bb: "b < b'" using lt unfolding p [symmetric] pb Cons.prems(3) by simp
      have bK: "b' < 2 ^ K"
      proof -
        have "b' * ?B < 2 ^ K * ?B"
          using pos_less [of v'] Cons.prems(2) unfolding pb by (simp flip: power_add)
        then show ?thesis by simp
      qed
      have len: "2 ^ K - b' \<le> length ds" using Cons.prems(5) bb by simp
      have "\<forall>d \<in> set ds. dict_ok d \<and> dtype d = t \<and> scan_size d \<le> 2 ^ K" using Cons.prems(1) by simp
      from Cons.IH [OF this Cons.prems(2) pb bK len] obtain n es' where
        I: "0 < n" "n \<le> 2 ^ K - b'" "scan_run (take n ds) v' = Some (Inr (es', 0))"
        and J: "unat v' < 2 * scan_size (hd ds) \<longrightarrow> successively (\<lambda>d d'. scan_size d \<le> 2 * scan_size d') (take n ds) \<longrightarrow>
          (\<forall>e. (\<forall>d \<in> set (take n ds). e \<in> set (entries d)) \<longrightarrow> pos v' \<le> entry_pos t e \<longrightarrow> e \<in> set es')"
        by blast
      have run: "scan_run (take (Suc n) (d # ds)) v = Some (Inr (es @ es', 0))"
        using C False I(3) by simp
      have "e \<in> set (es @ es')"
        if "unat v < 2 * scan_size d" and su: "successively (\<lambda>d d'. scan_size d \<le> 2 * scan_size d') (take (Suc n) (d # ds))"
          and en: "\<forall>d \<in> set (take (Suc n) (d # ds)). e \<in> set (entries d)" and "pos v \<le> entry_pos t e" for e
      proof (cases "entry_pos t e < pos v'")
        case True
        then show ?thesis using in_block that p by simp
      next
        case False
        obtain d' ds' where ds: "ds = d' # ds'" using len bK by (cases ds) auto
        have tk: "take (Suc n) (d # ds) = d # d' # take (n - 1) ds'" "take n ds = d' # take (n - 1) ds'"
          using I(1) by (simp_all add: ds take_Cons')
        have su': "scan_size d \<le> 2 * scan_size (hd ds)" "successively (\<lambda>d d'. scan_size d \<le> 2 * scan_size d') (take n ds)"
          using su unfolding tk by (simp_all add: ds)
        have "unat v' < 2 * scan_size (hd ds)" using su'(1) C by linarith
        then have "e \<in> set es'"
          by (rule J [rule_format, OF _ su'(2)]) (use en False in \<open>auto simp: tk\<close>)
        then show ?thesis by simp
      qed
      then show ?thesis using run I(1,2) bb
        by (intro exI [of _ "Suc n"] exI [of _ "es @ es'"]) auto
    qed
  qed
qed


lemma scan_size_pos: "dict_ok d \<Longrightarrow> e \<in> set (entries d) \<Longrightarrow> 0 < scan_size d"
  using table_okD(1) [of "dtype d" "ht0 d"]
  by (cases "table (ht0 d)") (auto simp: dict_ok_def scan_size_def entries_def dictReset_def split: if_splits)

text \<open>
  C26: a scan ends.  Whatever happens to the dictionary between the calls, a
  client that calls \<open>dictScan\<close> with the cursor it got back, starting from 0,
  gets the cursor 0 again after at most as many calls as the largest table it
  meets has buckets (the smaller table of two, while rehashing), without fault.
\<close>

theorem dictScan_terminates:
  assumes "\<forall>d \<in> set ds. dict_ok d \<and> dtype d = t \<and> scan_size d \<le> 2 ^ K" and "K \<le> 62" and "2 ^ K \<le> length ds"
  shows "\<exists>n es. 0 < n \<and> n \<le> 2 ^ K \<and> scan_run (take n ds) 0 = Some (Inr (es, 0))"
  using scan_run_spec [OF assms(1), of 0 0] assms(2,3) pos_eq_0 [of 0] by auto

text \<open>A dictionary of four buckets, and the same while it is being expanded to eight.\<close>

abbreviation id_type :: "(nat, nat) dictType" where
  "id_type \<equiv> \<lparr>hashFunction = word_of_nat, keyDup = None, valDup = None,
     keyCompare = None, keyDestructor = False, valDestructor = False\<rparr>"

lemma id_class: "key_class id_type k = {k}"
  by (auto simp: key_class_def compare_type_def)

definition four :: "(nat, nat) dict" where
  "four = \<lparr>dtype = id_type,
     ht0 = \<lparr>table = [[(4, 40), (8, 80)], [], [(6, 60)], []], hsize = 4, sizemask = 3, used = 3\<rparr>,
     ht1 = dictReset, rehashidx = - 1, iterators = 0\<rparr>"

definition four_eight :: "(nat, nat) dict" where
  "four_eight = four\<lparr>ht1 := \<lparr>table = replicate 8 [], hsize = 8, sizemask = 7, used = 0\<rparr>, rehashidx := 0\<rparr>"

lemma table_ok_pow2: "hsize h = 2 ^ n \<Longrightarrow> n < 63 \<Longrightarrow> length (table h) = hsize h \<Longrightarrow>
    used h = length (concat (table h)) \<Longrightarrow> sizemask h = hsize h - 1 \<Longrightarrow>
    buckets_ok t (sizemask h) (table h) \<Longrightarrow> table_ok t h"
  unfolding table_ok_def by blast

lemma buckets_ok_zip:
  "buckets_ok t m bs \<longleftrightarrow> list_all (\<lambda>(i, c). \<forall>e \<in> set c. hash_index t m (fst e) = i) (zip [0..<length bs] bs)"
  unfolding list_all_iff set_zip buckets_ok_def by force

lemma four_table: "table_ok id_type (ht0 four)"
  by (rule table_ok_pow2 [of _ 2])
    (simp_all add: four_def buckets_ok_zip hash_index_def unsigned_of_nat take_bit_eq_mod)

lemma four_ok: "dict_ok four"
proof -
  have "table_ok id_type (dictReset :: (nat, nat) dictht)"
    by (simp add: table_ok_def dictReset_def buckets_ok_def)
  moreover have "dtype four = id_type" "ht1 four = dictReset" "rehashidx four = - 1" by (simp_all add: four_def)
  moreover have "distinct (map fst (class_entries four))"
    by (simp add: four_def class_entries_def entries_def id_class dictReset_def)
  ultimately show ?thesis using four_table by (simp add: dict_ok_def dictIsRehashing_def)
qed

lemma four_eight_ok: "dict_ok four_eight"
proof -
  have "table_ok id_type (ht1 four_eight)"
    by (rule table_ok_pow2 [of _ 3]) (auto simp: four_eight_def buckets_ok_def)
  moreover have "ht0 four_eight = ht0 four" "dtype four_eight = id_type" "rehashidx four_eight = 0"
    by (simp_all add: four_eight_def four_def)
  ultimately show ?thesis using four_table
    by (simp add: dict_ok_def dictIsRehashing_def)
      (simp add: four_eight_def four_def class_entries_def entries_def id_class concat_replicate_trivial)
qed

lemma four_facts: "scan_size four = 4" "scan_size four_eight = 4" "dtype four = id_type" "dtype four_eight = id_type"
  "(6, 60) \<in> set (entries four)" "(6, 60) \<in> set (entries four_eight)"
  by (simp_all add: four_def four_eight_def scan_size_def dictIsRehashing_def entries_def)

lemma dictScan_terminates_witness:
  "\<exists>n es. 0 < n \<and> n \<le> 4 \<and> scan_run (take n [four, four_eight, four, four_eight]) 0 = Some (Inr (es, 0))"
  using dictScan_terminates [of "[four, four_eight, four, four_eight]" id_type 2] four_ok four_eight_ok
  by (simp add: four_facts)

text \<open>
  C27: the guarantee of \<open>dictScan\<close>, with the condition it needs.  An entry that
  is in the dictionary during the whole scan is returned, under any
  insertions, deletions, expansions and rehashing steps in between, as long as
  the smaller table never shrinks by more than half from one call to the next.
\<close>

theorem dictScan_complete:
  assumes "\<forall>d \<in> set ds. dict_ok d \<and> dtype d = t \<and> scan_size d \<le> 2 ^ K" and "K \<le> 62" and "2 ^ K \<le> length ds"
    and "successively (\<lambda>d d'. scan_size d \<le> 2 * scan_size d') ds"
  shows "\<exists>n es. n \<le> 2 ^ K \<and> scan_run (take n ds) 0 = Some (Inr (es, 0)) \<and>
    (\<forall>e. (\<forall>d \<in> set (take n ds). e \<in> set (entries d)) \<longrightarrow> e \<in> set es)"
proof -
  obtain n es where R: "0 < n" "n \<le> 2 ^ K" "scan_run (take n ds) 0 = Some (Inr (es, 0))"
    and C: "unat (0 :: u64) < 2 * scan_size (hd ds) \<longrightarrow>
      successively (\<lambda>d d'. scan_size d \<le> 2 * scan_size d') (take n ds) \<longrightarrow>
      (\<forall>e. (\<forall>d \<in> set (take n ds). e \<in> set (entries d)) \<longrightarrow> pos 0 \<le> entry_pos t e \<longrightarrow> e \<in> set es)"
  proof -
    have "K \<le> 64" "pos 0 = 0 * 2 ^ (64 - K)" "(0 :: nat) < 2 ^ K" "2 ^ K - 0 \<le> length ds"
      using assms(2,3) pos_eq_0 [of 0] by auto
    from scan_run_spec [OF assms(1) this] show thesis unfolding diff_zero by (elim exE conjE) (rule that)
  qed
  have su: "successively (\<lambda>d d'. scan_size d \<le> 2 * scan_size d') (take n ds)"
    using assms(4) by (metis append_take_drop_id successively_append_iff)
  have "e \<in> set es" if e: "\<forall>d \<in> set (take n ds). e \<in> set (entries d)" for e
  proof -
    obtain d ds' where ds: "ds = d # ds'" using assms(3) by (cases ds) auto
    have "d \<in> set (take n ds)" using R(1) by (simp add: ds take_Cons')
    with e have "e \<in> set (entries d)" by blast
    moreover have "dict_ok d" using assms(1) ds by simp
    ultimately have "0 < scan_size (hd ds)" using scan_size_pos ds by simp
    then show ?thesis using C su e pos_eq_0 [of 0] by (cases e) simp
  qed
  then show ?thesis using R by blast
qed


lemma dictScan_complete_witness:
  "\<exists>n es. scan_run (take n [four, four_eight, four, four_eight]) 0 = Some (Inr (es, 0)) \<and> (6, 60) \<in> set es"
proof -
  have "\<forall>d \<in> set [four, four_eight, four, four_eight]. (6, 60) \<in> set (entries d)" by (simp add: four_facts)
  then have "\<forall>d \<in> set (take n [four, four_eight, four, four_eight]). (6, 60) \<in> set (entries d)" for n
    by (meson in_set_takeD)
  moreover have "\<exists>n es. n \<le> 2 ^ 2 \<and> scan_run (take n [four, four_eight, four, four_eight]) 0 = Some (Inr (es, 0)) \<and>
    (\<forall>e. (\<forall>d \<in> set (take n [four, four_eight, four, four_eight]). e \<in> set (entries d)) \<longrightarrow> e \<in> set es)"
    by (rule dictScan_complete [of _ id_type]) (simp_all add: four_facts four_ok four_eight_ok)
  ultimately show ?thesis by blast
qed

section \<open>Where the guarantee fails\<close>

text \<open>
  Sixteen buckets, one entry left, in bucket \<open>0100\<close>: \<open>dictResize\<close> starts
  shrinking the table to four buckets.
\<close>

definition sixteen :: "(nat, nat) dict" where
  "sixteen = \<lparr>dtype = id_type,
     ht0 = \<lparr>table = (replicate 16 [])[4 := [(4, 40)]], hsize = 16, sizemask = 15, used = 1\<rparr>,
     ht1 = dictReset, rehashidx = - 1, iterators = 0\<rparr>"

definition shrinking :: "(nat, nat) dict" where
  "shrinking = snd (dictResize True sixteen)"

lemma shrinking_eq:
  "shrinking = sixteen\<lparr>ht1 := \<lparr>table = replicate 4 [], hsize = 4, sizemask = 3, used = 0\<rparr>, rehashidx := 0\<rparr>"
  by (simp add: shrinking_def dictResize_def dictExpand_def sixteen_def dictIsRehashing_def dictNextPower_def
      LONG_MAX_def DICT_HT_INITIAL_SIZE_def int_of_size_def nextPower_loop.simps [of 4 4] Let_def)

lemma scan_next_values:
  "scan_next 15 0 = 8" "scan_next 3 16 = 2" "scan_next 3 18 = 1" "scan_next 3 17 = 3" "scan_next 3 19 = 0"
proof -
  have a: "0 OR NOT 15 = (0xFFFFFFFFFFFFFFF0 :: u64)"
    "16 OR NOT 3 = (0xFFFFFFFFFFFFFFFC :: u64)"
    "18 OR NOT 3 = (0xFFFFFFFFFFFFFFFE :: u64)"
    "17 OR NOT 3 = (0xFFFFFFFFFFFFFFFD :: u64)"
    "19 OR NOT 3 = (0xFFFFFFFFFFFFFFFF :: u64)"
    by simp_all
  have r: "rev64 0xFFFFFFFFFFFFFFF0 = 0x0FFFFFFFFFFFFFFF"
    "rev64 0x1000000000000000 = 8"
    "rev64 0xFFFFFFFFFFFFFFFC = 0x3FFFFFFFFFFFFFFF"
    "rev64 0x4000000000000000 = 2"
    "rev64 0xFFFFFFFFFFFFFFFE = 0x7FFFFFFFFFFFFFFF"
    "rev64 0x8000000000000000 = 1"
    "rev64 0xFFFFFFFFFFFFFFFD = 0xBFFFFFFFFFFFFFFF"
    "rev64 0xC000000000000000 = 3"
    "rev64 0xFFFFFFFFFFFFFFFF = 0xFFFFFFFFFFFFFFFF"
    "rev64 0 = 0"
    by (simp_all add: rev64_unfold rev_step_def)
  have p: "0x0FFFFFFFFFFFFFFF + 1 = (0x1000000000000000 :: u64)"
    "0x3FFFFFFFFFFFFFFF + 1 = (0x4000000000000000 :: u64)"
    "0x7FFFFFFFFFFFFFFF + 1 = (0x8000000000000000 :: u64)"
    "0xBFFFFFFFFFFFFFFF + 1 = (0xC000000000000000 :: u64)"
    "0xFFFFFFFFFFFFFFFF + 1 = (0 :: u64)"
    by simp_all
  show "scan_next 15 0 = 8" "scan_next 3 16 = 2" "scan_next 3 18 = 1" "scan_next 3 17 = 3" "scan_next 3 19 = 0"
    by (simp_all only: scan_next_def Let_def a r p)
qed

lemma sixteen_scan: "dictScan sixteen 0 = Some (Inr ([], 8))"
proof -
  have f: "dictSize sixteen \<noteq> 0" "\<not> dictIsRehashing sixteen" "sizemask (ht0 sixteen) = 15"
    "table (ht0 sixteen) = (replicate 16 [])[4 := [(4, 40)]]"
    by (simp_all add: sixteen_def dictSize_def dictIsRehashing_def)
  have "emit (ht0 sixteen) 0 = Inr []" unfolding emit_def f by (simp add: rd_def)
  then show ?thesis by (simp add: dictScan_def f scan_next_values)
qed

lemma emit_shrinking:
  "unat (v AND 3) < 4 \<Longrightarrow> emit (ht1 shrinking) v = Inr []"
  "unat (v AND 15) < 16 \<Longrightarrow> unat (v AND 15) \<noteq> 4 \<Longrightarrow> emit (ht0 shrinking) v = Inr []"
proof -
  assume "unat (v AND 3) < 4"
  then show "emit (ht1 shrinking) v = Inr []" by (simp add: emit_def shrinking_eq rd_def)
next
  assume *: "unat (v AND 15) < 16" "unat (v AND 15) \<noteq> 4"
  have "emit (ht0 shrinking) v = rd ((replicate 16 [])[4 := [(4, 40)]]) (unat (v AND 15))"
    by (simp add: emit_def shrinking_eq sixteen_def)
  also have "\<dots> = Inr []" using * by (simp add: rd_def nth_list_update)
  finally show "emit (ht0 shrinking) v = Inr []" .
qed

lemma loop_shrinking:
  "scan_loop (ht0 shrinking) 3 15 8 [] = Some (Inr ([], 16))"
  "scan_loop (ht0 shrinking) 3 15 2 [] = Some (Inr ([], 18))"
  "scan_loop (ht0 shrinking) 3 15 1 [] = Some (Inr ([], 17))"
  "scan_loop (ht0 shrinking) 3 15 3 [] = Some (Inr ([], 19))"
  by (simp_all add: scan_loop.simps [of _ 3 15 "numeral k" "[]" for k] scan_loop.simps [of _ 3 15 1 "[]"] emit_shrinking)

lemma shrinking_scan:
  "dictScan shrinking 8 = Some (Inr ([], 2))" "dictScan shrinking 2 = Some (Inr ([], 1))"
  "dictScan shrinking 1 = Some (Inr ([], 3))" "dictScan shrinking 3 = Some (Inr ([], 0))"
proof -
  have f: "dictSize shrinking \<noteq> 0" "dictIsRehashing shrinking" "hsize (ht0 shrinking) = 16" "hsize (ht1 shrinking) = 4"
    "sizemask (ht0 shrinking) = 15" "sizemask (ht1 shrinking) = 3"
    by (simp_all add: shrinking_eq sixteen_def dictSize_def dictIsRehashing_def)
  show "dictScan shrinking 8 = Some (Inr ([], 2))" "dictScan shrinking 2 = Some (Inr ([], 1))"
    "dictScan shrinking 1 = Some (Inr ([], 3))" "dictScan shrinking 3 = Some (Inr ([], 0))"
    by (simp_all add: dictScan_def f emit_shrinking loop_shrinking scan_next_values)
qed

text \<open>
  C28: the guarantee does not hold when the table shrinks by more than half
  during a scan.  The scan below starts on sixteen buckets and goes on while
  the table is being shrunk to four; the only entry is in the dictionary all
  the time, in a well-formed table, and is never returned: the expansions of
  the cursor are visited upwards from \<open>1000\<close>, not in reverse-binary order, so
  that \<open>0100\<close> is passed over.
\<close>

theorem dictScan_misses_after_shrink:
  "dict_ok sixteen \<and> dictResize True sixteen = (True, shrinking) \<and> dict_ok shrinking \<and>
   entries sixteen = [(4, 40)] \<and> entries shrinking = [(4, 40)] \<and>
   scan_run [sixteen, shrinking, shrinking, shrinking, shrinking] 0 = Some (Inr ([], 0))"
proof (intro conjI)
  have c: "concat ((replicate 16 [])[4 := [(4, 40)]]) = [(4 :: nat, 40 :: nat)]"
    by (simp add: numeral_eq_Suc)
  have t: "table_ok id_type (ht0 sixteen)"
    by (rule table_ok_pow2 [of _ 4])
      (auto simp: sixteen_def c buckets_ok_def hash_index_def nth_list_update unsigned_of_nat take_bit_eq_mod split: if_splits)
  have t': "table_ok id_type (ht1 shrinking)"
    by (rule table_ok_pow2 [of _ 2]) (auto simp: shrinking_eq buckets_ok_def)
  have f: "dtype sixteen = id_type" "ht1 sixteen = dictReset" "rehashidx sixteen = - 1" "hsize (ht0 sixteen) = 16"
    by (simp_all add: sixteen_def)
  have g: "dtype shrinking = id_type" "ht0 shrinking = ht0 sixteen" "rehashidx shrinking = 0" "hsize (ht1 shrinking) = 4"
    by (simp_all add: shrinking_eq f)
  show e: "entries sixteen = [(4, 40)]" "entries shrinking = [(4, 40)]"
    by (simp_all add: entries_def shrinking_eq sixteen_def c)
  show "dict_ok sixteen" using t by (simp add: dict_ok_def f dictIsRehashing_def class_entries_def e)
  show "dict_ok shrinking" using t t' by (simp add: dict_ok_def f g dictIsRehashing_def class_entries_def e)
  show "dictResize True sixteen = (True, shrinking)"
    unfolding shrinking_eq
    by (simp add: dictResize_def dictExpand_def sixteen_def dictIsRehashing_def dictNextPower_def
        LONG_MAX_def DICT_HT_INITIAL_SIZE_def int_of_size_def nextPower_loop.simps [of 4 4] Let_def)
  show "scan_run [sixteen, shrinking, shrinking, shrinking, shrinking] 0 = Some (Inr ([], 0))"
    by (simp add: sixteen_scan shrinking_scan)
qed

end
