(* ===== verification/ClusterNode.thy ===== *)
theory ClusterNode
  imports Prelude
begin

text \<open>
  The state of a cluster node and the operations on its parts: node records on
  a heap, slot bitmaps and the table of slot owners, slave lists, failure
  reports, the table of known nodes and the black list.  The invariant says
  that the owner table, the bitmaps and the slot counters agree; every
  operation here keeps it.
\<close>

section \<open>Constants\<close>

definition REDIS_CLUSTER_SLOTS :: nat where "REDIS_CLUSTER_SLOTS = 16384"
definition REDIS_CLUSTER_FAIL_REPORT_VALIDITY_MULT :: int where "REDIS_CLUSTER_FAIL_REPORT_VALIDITY_MULT = 2"
definition REDIS_CLUSTER_FAIL_UNDO_TIME_MULT :: int where "REDIS_CLUSTER_FAIL_UNDO_TIME_MULT = 2"
definition REDIS_CLUSTER_MF_TIMEOUT :: int where "REDIS_CLUSTER_MF_TIMEOUT = 5000"
definition REDIS_CLUSTER_SLAVE_MIGRATION_DELAY :: int where "REDIS_CLUSTER_SLAVE_MIGRATION_DELAY = 5000"
definition REDIS_CLUSTER_BLACKLIST_TTL :: int where "REDIS_CLUSTER_BLACKLIST_TTL = 60"

definition REDIS_NODE_MASTER :: u32 where "REDIS_NODE_MASTER = 1"
definition REDIS_NODE_SLAVE :: u32 where "REDIS_NODE_SLAVE = 2"
definition REDIS_NODE_PFAIL :: u32 where "REDIS_NODE_PFAIL = 4"
definition REDIS_NODE_FAIL :: u32 where "REDIS_NODE_FAIL = 8"
definition REDIS_NODE_MYSELF :: u32 where "REDIS_NODE_MYSELF = 16"
definition REDIS_NODE_HANDSHAKE :: u32 where "REDIS_NODE_HANDSHAKE = 32"
definition REDIS_NODE_NOADDR :: u32 where "REDIS_NODE_NOADDR = 64"
definition REDIS_NODE_MEET :: u32 where "REDIS_NODE_MEET = 128"
definition REDIS_NODE_MIGRATE_TO :: u32 where "REDIS_NODE_MIGRATE_TO = 256"

lemmas node_flags = REDIS_NODE_MASTER_def REDIS_NODE_SLAVE_def REDIS_NODE_PFAIL_def REDIS_NODE_FAIL_def
  REDIS_NODE_MYSELF_def REDIS_NODE_HANDSHAKE_def REDIS_NODE_NOADDR_def REDIS_NODE_MEET_def
  REDIS_NODE_MIGRATE_TO_def

definition CLUSTER_TODO_HANDLE_FAILOVER :: u32 where "CLUSTER_TODO_HANDLE_FAILOVER = 1"
definition CLUSTER_TODO_UPDATE_STATE :: u32 where "CLUSTER_TODO_UPDATE_STATE = 2"
definition CLUSTER_TODO_SAVE_CONFIG :: u32 where "CLUSTER_TODO_SAVE_CONFIG = 4"
definition CLUSTER_TODO_FSYNC_CONFIG :: u32 where "CLUSTER_TODO_FSYNC_CONFIG = 8"

section \<open>State\<close>

text \<open>
  Pointers to nodes are addresses of the heap, \<open>None\<close> is \<open>NULL\<close>.  The array
  \<open>slaves\<close> is the list of its first \<open>numslaves\<close> pointers; \<open>n_link\<close> is
  the creation time of the link, if there is one; times are unbounded integers.
\<close>

type_synonym ptr = nat
type_synonym name = "u8 list"

record clusterNode =
  n_ctime :: int
  n_name :: name
  n_flags :: u32
  n_configEpoch :: u64
  n_slots :: "u8 list"
  n_numslots :: int
  n_slaves :: "ptr list"
  n_slaveof :: "ptr option"
  n_ping_sent :: int
  n_pong_received :: int
  n_fail_time :: int
  n_voted_time :: int
  n_repl_offset_time :: int
  n_orphaned_time :: int
  n_repl_offset :: int
  n_ip :: "u8 list"
  n_port :: int
  n_link :: "int option"
  n_fail_reports :: "(ptr \<times> int) list"

text \<open>What the node does to the outside: messages, files, replication, keys.\<close>

datatype effect =
    SendFail name
  | SendFailoverAuth name u64
  | RequestFailoverAuth bool
  | BroadcastPong bool
  | SendPong
  | SendPing ptr bool
  | SendMFStart ptr
  | SendUpdate ptr ptr
  | SaveConfig bool
  | SetReplicationMaster ptr
  | UnsetReplicationMaster
  | EmptyDb
  | DelKeysInSlot nat
  | UnpauseClients
  | PauseClients int
  | FreeLink ptr

datatype cstate = ClusterOk | ClusterFail

datatype cant_failover = CantNone | CantDataAge | CantWaitingDelay | CantExpired | CantWaitingVotes

text \<open>
  What the code reads of the rest of the server: configuration, replication
  state, clocks in seconds, and the number of keys per slot.
\<close>

record server_env =
  cluster_node_timeout :: int
  cluster_require_full_coverage :: bool
  cluster_migration_barrier :: int
  cluster_slave_validity_factor :: int
  repl_ping_slave_period :: int
  repl_connected :: bool
  master_lastinteraction :: int
  repl_down_since :: int
  slave_offset :: int
  unixtime :: int
  time_null :: int
  clients_paused :: bool
  other_dbs_empty :: bool
  db_empty :: bool
  no_masterhost :: bool
  countKeysInSlot :: "nat \<Rightarrow> nat"

text \<open>
  The dictionary of nodes is the list of its entries in the order of its
  iterator.  \<open>clock i\<close> is what the \<open>i\<close>-th call of \<open>mstime\<close> returns, calls for
  the log apart; the two last times are the static variables of
  \<open>clusterUpdateState\<close>, \<open>cron_iteration\<close> that of \<open>clusterCron\<close>.
\<close>

record cluster =
  env :: server_env
  heap :: "ptr \<Rightarrow> clusterNode option"
  myself :: ptr
  currentEpoch :: u64
  cstate :: cstate
  csize :: int
  nodes :: "(name \<times> ptr) list"
  black_list :: "(name \<times> int) list"
  migrating_slots_to :: "ptr option list"
  importing_slots_from :: "ptr option list"
  slots :: "ptr option list"
  failover_auth_time :: int
  failover_auth_count :: int
  failover_auth_sent :: bool
  failover_auth_rank :: int
  failover_auth_epoch :: u64
  cant_failover_reason :: cant_failover
  mf_end :: int
  mf_slave :: "ptr option"
  mf_master_offset :: int
  mf_can_start :: bool
  lastVoteEpoch :: u64
  todo_before_sleep :: u32
  among_minority_time :: int
  first_call_time :: int
  cron_iteration :: u64
  clock :: "nat \<Rightarrow> int"
  ticks :: nat
  effects :: "effect list"

definition mstime :: "cluster \<Rightarrow> int \<times> cluster" where
  "mstime c = (clock c (ticks c), c\<lparr>ticks := ticks c + 1\<rparr>)"

definition perform :: "effect \<Rightarrow> cluster \<Rightarrow> cluster" where
  "perform a c = c\<lparr>effects := effects c @ [a]\<rparr>"

definition clusterDoBeforeSleep :: "u32 \<Rightarrow> cluster \<Rightarrow> cluster" where
  "clusterDoBeforeSleep fl c = c\<lparr>todo_before_sleep := todo_before_sleep c OR fl\<rparr>"

text \<open>Reading and writing through a pointer.\<close>

definition getn :: "cluster \<Rightarrow> ptr option \<Rightarrow> clusterNode res" where
  "getn c p = (case p of None \<Rightarrow> Inl BadPointer
     | Some a \<Rightarrow> (case heap c a of None \<Rightarrow> Inl BadPointer | Some n \<Rightarrow> Inr n))"

definition updn :: "cluster \<Rightarrow> ptr option \<Rightarrow> (clusterNode \<Rightarrow> clusterNode) \<Rightarrow> cluster res" where
  "updn c p f = rbind (getn c p) (\<lambda>n. Inr (c\<lparr>heap := (heap c)(the p \<mapsto> f n)\<rparr>))"

definition nodeIsMaster :: "clusterNode \<Rightarrow> bool" where
  "nodeIsMaster n \<longleftrightarrow> n_flags n AND REDIS_NODE_MASTER \<noteq> 0"

definition nodeIsSlave :: "clusterNode \<Rightarrow> bool" where
  "nodeIsSlave n \<longleftrightarrow> n_flags n AND REDIS_NODE_SLAVE \<noteq> 0"

definition nodeInHandshake :: "clusterNode \<Rightarrow> bool" where
  "nodeInHandshake n \<longleftrightarrow> n_flags n AND REDIS_NODE_HANDSHAKE \<noteq> 0"

definition nodeTimedOut :: "clusterNode \<Rightarrow> bool" where
  "nodeTimedOut n \<longleftrightarrow> n_flags n AND REDIS_NODE_PFAIL \<noteq> 0"

definition nodeFailed :: "clusterNode \<Rightarrow> bool" where
  "nodeFailed n \<longleftrightarrow> n_flags n AND REDIS_NODE_FAIL \<noteq> 0"

definition clear_flags :: "u32 \<Rightarrow> clusterNode \<Rightarrow> clusterNode" where
  "clear_flags f n = n\<lparr>n_flags := n_flags n AND NOT f\<rparr>"

definition set_flags :: "u32 \<Rightarrow> clusterNode \<Rightarrow> clusterNode" where
  "set_flags f n = n\<lparr>n_flags := n_flags n OR f\<rparr>"

section \<open>Slots\<close>

definition bitmapTestBit :: "u8 list \<Rightarrow> nat \<Rightarrow> bool res" where
  "bitmapTestBit bitmap pos =
     rbind (rd bitmap (pos div 8)) (\<lambda>b. Inr (b AND push_bit (pos AND 7) 1 \<noteq> 0))"

definition bitmapSetBit :: "u8 list \<Rightarrow> nat \<Rightarrow> u8 list res" where
  "bitmapSetBit bitmap pos =
     rbind (rd bitmap (pos div 8)) (\<lambda>b. Inr (bitmap[pos div 8 := b OR push_bit (pos AND 7) 1]))"

definition bitmapClearBit :: "u8 list \<Rightarrow> nat \<Rightarrow> u8 list res" where
  "bitmapClearBit bitmap pos =
     rbind (rd bitmap (pos div 8)) (\<lambda>b. Inr (bitmap[pos div 8 := b AND NOT (push_bit (pos AND 7) 1)]))"

definition clusterNodeSetSlotBit :: "cluster \<Rightarrow> ptr option \<Rightarrow> nat \<Rightarrow> (bool \<times> cluster) res" where
  "clusterNodeSetSlotBit c p slot =
     rbind (getn c p) (\<lambda>n.
     rbind (bitmapTestBit (n_slots n) slot) (\<lambda>old.
     rbind (bitmapSetBit (n_slots n) slot) (\<lambda>bm.
     rbind (updn c p (\<lambda>n. n\<lparr>n_slots := bm, n_numslots := (if \<not> old then n_numslots n + 1 else n_numslots n)\<rparr>))
       (\<lambda>c. Inr (old, c)))))"

definition clusterNodeClearSlotBit :: "cluster \<Rightarrow> ptr option \<Rightarrow> nat \<Rightarrow> (bool \<times> cluster) res" where
  "clusterNodeClearSlotBit c p slot =
     rbind (getn c p) (\<lambda>n.
     rbind (bitmapTestBit (n_slots n) slot) (\<lambda>old.
     rbind (bitmapClearBit (n_slots n) slot) (\<lambda>bm.
     rbind (updn c p (\<lambda>n. n\<lparr>n_slots := bm, n_numslots := (if old then n_numslots n - 1 else n_numslots n)\<rparr>))
       (\<lambda>c. Inr (old, c)))))"

definition clusterNodeGetSlotBit :: "cluster \<Rightarrow> ptr option \<Rightarrow> nat \<Rightarrow> bool res" where
  "clusterNodeGetSlotBit c p slot = rbind (getn c p) (\<lambda>n. bitmapTestBit (n_slots n) slot)"

text \<open>The result \<open>True\<close> is \<open>REDIS_OK\<close>.\<close>

definition clusterAddSlot :: "cluster \<Rightarrow> ptr option \<Rightarrow> nat \<Rightarrow> (bool \<times> cluster) res" where
  "clusterAddSlot c p slot =
     rbind (rd (slots c) slot) (\<lambda>s.
     if s \<noteq> None then Inr (False, c)
     else rbind (clusterNodeSetSlotBit c p slot) (\<lambda>(_, c).
       Inr (True, c\<lparr>slots := (slots c)[slot := p]\<rparr>)))"

definition clusterDelSlot :: "cluster \<Rightarrow> nat \<Rightarrow> (bool \<times> cluster) res" where
  "clusterDelSlot c slot =
     rbind (rd (slots c) slot) (\<lambda>n.
     if n = None then Inr (False, c)
     else rbind (clusterNodeClearSlotBit c n slot) (\<lambda>(old, c).
       if \<not> old then Inl AssertFailed
       else Inr (True, c\<lparr>slots := (slots c)[slot := None]\<rparr>)))"

definition clusterDelNodeSlots :: "cluster \<Rightarrow> ptr option \<Rightarrow> (int \<times> cluster) res" where
  "clusterDelNodeSlots c p =
     for_each (\<lambda>j (deleted, c).
       rbind (clusterNodeGetSlotBit c p j) (\<lambda>b.
       if b then rbind (clusterDelSlot c j) (\<lambda>(_, c). Inr (deleted + 1, c))
       else Inr (deleted + 1, c)))
     [0..<REDIS_CLUSTER_SLOTS] (0, c)"

definition clusterCloseAllSlots :: "cluster \<Rightarrow> cluster" where
  "clusterCloseAllSlots c =
     c\<lparr>migrating_slots_to := replicate (length (migrating_slots_to c)) None,
       importing_slots_from := replicate (length (importing_slots_from c)) None\<rparr>"

section \<open>Nodes\<close>

text \<open>\<open>nodename = None\<close> is \<open>NULL\<close>: then the random name is used. The address is fresh.\<close>

definition new_node :: "int \<Rightarrow> name \<Rightarrow> u32 \<Rightarrow> clusterNode" where
  "new_node now s fl =
     \<lparr>n_ctime = now, n_name = s, n_flags = fl, n_configEpoch = 0,
      n_slots = replicate (REDIS_CLUSTER_SLOTS div 8) 0, n_numslots = 0, n_slaves = [],
      n_slaveof = None, n_ping_sent = 0, n_pong_received = 0, n_fail_time = 0, n_voted_time = 0,
      n_repl_offset_time = 0, n_orphaned_time = 0, n_repl_offset = 0, n_ip = [], n_port = 0,
      n_link = None, n_fail_reports = []\<rparr>"

definition createClusterNode :: "cluster \<Rightarrow> ptr \<Rightarrow> name \<Rightarrow> name option \<Rightarrow> u32 \<Rightarrow> cluster" where
  "createClusterNode c a random_name nodename fl =
     (let (now, c) = mstime c
      in c\<lparr>heap := (heap c)(a \<mapsto> new_node now (case nodename of Some s \<Rightarrow> s | None \<Rightarrow> random_name) fl)\<rparr>)"

fun touch_report :: "ptr \<Rightarrow> int \<Rightarrow> (ptr \<times> int) list \<Rightarrow> (ptr \<times> int) list option" where
  "touch_report sender now [] = None"
| "touch_report sender now (fr # frs) =
     (if fst fr = sender then Some ((fst fr, now) # frs) else map_option (Cons fr) (touch_report sender now frs))"

definition clusterNodeAddFailureReport :: "cluster \<Rightarrow> ptr \<Rightarrow> ptr \<Rightarrow> (bool \<times> cluster) res" where
  "clusterNodeAddFailureReport c failing sender =
     rbind (getn c (Some failing)) (\<lambda>n.
     let (now, c) = mstime c
     in case touch_report sender now (n_fail_reports n) of
          Some frs \<Rightarrow> rbind (updn c (Some failing) (n_fail_reports_update (\<lambda>_. frs))) (\<lambda>c. Inr (False, c))
        | None \<Rightarrow> rbind (updn c (Some failing) (n_fail_reports_update (\<lambda>frs. frs @ [(sender, now)])))
                    (\<lambda>c. Inr (True, c)))"

definition clusterNodeCleanupFailureReports :: "cluster \<Rightarrow> ptr \<Rightarrow> cluster res" where
  "clusterNodeCleanupFailureReports c p =
     (let maxtime = cluster_node_timeout (env c) * REDIS_CLUSTER_FAIL_REPORT_VALIDITY_MULT;
          (now, c) = mstime c
      in updn c (Some p) (n_fail_reports_update (filter (\<lambda>fr. \<not> now - snd fr > maxtime))))"

fun del_report :: "ptr \<Rightarrow> (ptr \<times> int) list \<Rightarrow> (ptr \<times> int) list option" where
  "del_report sender [] = None"
| "del_report sender (fr # frs) =
     (if fst fr = sender then Some frs else map_option (Cons fr) (del_report sender frs))"

definition clusterNodeDelFailureReport :: "cluster \<Rightarrow> ptr \<Rightarrow> ptr \<Rightarrow> (bool \<times> cluster) res" where
  "clusterNodeDelFailureReport c p sender =
     rbind (getn c (Some p)) (\<lambda>n.
     case del_report sender (n_fail_reports n) of
       None \<Rightarrow> Inr (False, c)
     | Some frs \<Rightarrow>
         rbind (updn c (Some p) (n_fail_reports_update (\<lambda>_. frs))) (\<lambda>c.
         rbind (clusterNodeCleanupFailureReports c p) (\<lambda>c. Inr (True, c))))"

definition clusterNodeFailureReportsCount :: "cluster \<Rightarrow> ptr \<Rightarrow> (int \<times> cluster) res" where
  "clusterNodeFailureReportsCount c p =
     rbind (clusterNodeCleanupFailureReports c p) (\<lambda>c.
     rbind (getn c (Some p)) (\<lambda>n. Inr (int (length (n_fail_reports n)), c)))"

definition clusterNodeRemoveSlave :: "cluster \<Rightarrow> ptr option \<Rightarrow> ptr \<Rightarrow> (bool \<times> cluster) res" where
  "clusterNodeRemoveSlave c master slave =
     rbind (getn c master) (\<lambda>m.
     if slave \<in> set (n_slaves m) then
       let rest = remove1 slave (n_slaves m)
       in rbind (updn c master (\<lambda>m. (if rest = [] then clear_flags REDIS_NODE_MIGRATE_TO m else m)\<lparr>n_slaves := rest\<rparr>))
            (\<lambda>c. Inr (True, c))
     else Inr (False, c))"

definition clusterNodeAddSlave :: "cluster \<Rightarrow> ptr option \<Rightarrow> ptr \<Rightarrow> (bool \<times> cluster) res" where
  "clusterNodeAddSlave c master slave =
     rbind (getn c master) (\<lambda>m.
     if slave \<in> set (n_slaves m) then Inr (False, c)
     else rbind (updn c master (\<lambda>m. (set_flags REDIS_NODE_MIGRATE_TO m)\<lparr>n_slaves := n_slaves m @ [slave]\<rparr>))
            (\<lambda>c. Inr (True, c)))"

definition clusterNodeResetSlaves :: "cluster \<Rightarrow> ptr \<Rightarrow> cluster res" where
  "clusterNodeResetSlaves c p = updn c (Some p) (n_slaves_update (\<lambda>_. []))"

definition clusterCountNonFailingSlaves :: "cluster \<Rightarrow> ptr \<Rightarrow> int res" where
  "clusterCountNonFailingSlaves c p =
     rbind (getn c (Some p)) (\<lambda>n.
     for_each (\<lambda>s okslaves. rbind (getn c (Some s)) (\<lambda>s. Inr (if \<not> nodeFailed s then okslaves + 1 else okslaves)))
       (n_slaves n) 0)"

text \<open>The table of nodes, and its operations of \<open>dict\<close>.\<close>

definition clusterLookupNode :: "cluster \<Rightarrow> name \<Rightarrow> ptr option" where
  "clusterLookupNode c s = map_of (nodes c) s"

definition clusterAddNode :: "cluster \<Rightarrow> ptr \<Rightarrow> (bool \<times> cluster) res" where
  "clusterAddNode c p =
     rbind (getn c (Some p)) (\<lambda>n.
     if n_name n \<in> fst ` set (nodes c) then Inr (False, c)
     else Inr (True, c\<lparr>nodes := nodes c @ [(n_name n, p)]\<rparr>))"

definition nodes_delete :: "cluster \<Rightarrow> name \<Rightarrow> cluster res" where
  "nodes_delete c s =
     (if s \<notin> fst ` set (nodes c) then Inl AssertFailed
      else Inr (c\<lparr>nodes := filter (\<lambda>e. fst e \<noteq> s) (nodes c)\<rparr>))"

definition freeClusterNode :: "cluster \<Rightarrow> ptr \<Rightarrow> cluster res" where
  "freeClusterNode c p =
     rbind (getn c (Some p)) (\<lambda>n.
     rbind (if nodeIsMaster n
            then for_each (\<lambda>s c. updn c (Some s) (n_slaveof_update (\<lambda>_. None))) (n_slaves n) c
            else Inr c) (\<lambda>c.
     rbind (getn c (Some p)) (\<lambda>n.
     rbind (if nodeIsSlave n \<and> n_slaveof n \<noteq> None
            then rbind (clusterNodeRemoveSlave c (n_slaveof n) p) (\<lambda>(_, c). Inr c)
            else Inr c) (\<lambda>c.
     rbind (nodes_delete c (n_name n)) (\<lambda>c.
     let c = (if n_link n \<noteq> None then perform (FreeLink p) c else c)
     in Inr (c\<lparr>heap := (heap c)(p := None)\<rparr>))))))"

text \<open>The body of the loop over the slots in \<open>clusterDelNode\<close>.\<close>

definition delnode_close :: "ptr \<Rightarrow> nat \<Rightarrow> cluster \<Rightarrow> cluster res" where
  "delnode_close delnode j c =
     rbind (rd (importing_slots_from c) j) (\<lambda>i.
     rbind (rd (migrating_slots_to c) j) (\<lambda>m.
     let c = (if i = Some delnode then c\<lparr>importing_slots_from := (importing_slots_from c)[j := None]\<rparr> else c)
     in Inr (if m = Some delnode then c\<lparr>migrating_slots_to := (migrating_slots_to c)[j := None]\<rparr> else c)))"

definition delnode_slot :: "ptr \<Rightarrow> nat \<Rightarrow> cluster \<Rightarrow> cluster res" where
  "delnode_slot delnode j c =
     rbind (delnode_close delnode j c) (\<lambda>c.
     rbind (rd (slots c) j) (\<lambda>s.
     if s = Some delnode then rbind (clusterDelSlot c j) (\<lambda>(_, c). Inr c) else Inr c))"

definition clusterDelNode :: "cluster \<Rightarrow> ptr \<Rightarrow> cluster res" where
  "clusterDelNode c delnode =
     rbind (for_each (delnode_slot delnode) [0..<REDIS_CLUSTER_SLOTS] c) (\<lambda>c.
     rbind (for_each (\<lambda>e c.
       if snd e = delnode then Inr c
       else rbind (clusterNodeDelFailureReport c (snd e) delnode) (\<lambda>(_, c). Inr c)) (nodes c) c) (\<lambda>c.
     freeClusterNode c delnode))"

definition clusterRenameNode :: "cluster \<Rightarrow> ptr \<Rightarrow> name \<Rightarrow> cluster res" where
  "clusterRenameNode c p newname =
     rbind (getn c (Some p)) (\<lambda>n.
     rbind (nodes_delete c (n_name n)) (\<lambda>c.
     rbind (updn c (Some p) (n_name_update (\<lambda>_. newname))) (\<lambda>c.
     rbind (clusterAddNode c p) (\<lambda>(_, c). Inr c))))"

text \<open>The black list: names with the time after which they may come back.\<close>

definition clusterBlacklistCleanup :: "cluster \<Rightarrow> cluster" where
  "clusterBlacklistCleanup c =
     c\<lparr>black_list := filter (\<lambda>e. \<not> snd e < unixtime (env c)) (black_list c)\<rparr>"

definition clusterBlacklistAddNode :: "cluster \<Rightarrow> ptr \<Rightarrow> cluster res" where
  "clusterBlacklistAddNode c p =
     rbind (getn c (Some p)) (\<lambda>n.
     let c = clusterBlacklistCleanup c;
         c = (if n_name n \<in> fst ` set (black_list c) then c else c\<lparr>black_list := black_list c @ [(n_name n, 0)]\<rparr>);
         e = time_null (env c) + REDIS_CLUSTER_BLACKLIST_TTL
     in Inr (c\<lparr>black_list := map (\<lambda>x. if fst x = n_name n then (fst x, e) else x) (black_list c)\<rparr>))"

definition clusterBlacklistExists :: "cluster \<Rightarrow> name \<Rightarrow> bool \<times> cluster" where
  "clusterBlacklistExists c nodeid =
     (let c = clusterBlacklistCleanup c in (nodeid \<in> fst ` set (black_list c), c))"

section \<open>Loops and pointers\<close>

lemma getn_Some [simp]: "getn c (Some p) = Inr n \<longleftrightarrow> heap c p = Some n"
  by (auto simp: getn_def split: option.splits)

lemma getn_live: "heap c p = Some n \<Longrightarrow> getn c (Some p) = Inr n"
  by simp

lemma getn_None [simp]: "getn c None = Inl BadPointer"
  by (simp add: getn_def)

lemma updn_live: "heap c p = Some n \<Longrightarrow> updn c (Some p) f = Inr (c\<lparr>heap := (heap c)(p \<mapsto> f n)\<rparr>)"
  by (simp add: updn_def)

lemma updn_Inr: "updn c p f = Inr c' \<longleftrightarrow>
    (\<exists>a n. p = Some a \<and> heap c a = Some n \<and> c' = c\<lparr>heap := (heap c)(a \<mapsto> f n)\<rparr>)"
  by (cases p) (auto simp: updn_def)

section \<open>Bitmaps and the table of owners\<close>

definition slot_bit :: "clusterNode \<Rightarrow> nat \<Rightarrow> bool" where
  "slot_bit n j \<longleftrightarrow> bit (n_slots n ! (j div 8)) (j mod 8)"

definition node_ok :: "clusterNode \<Rightarrow> bool" where
  "node_ok n \<longleftrightarrow> length (n_slots n) = 2048 \<and> n_numslots n = int (card {j. j < REDIS_CLUSTER_SLOTS \<and> slot_bit n j})"

text \<open>
  The owner table, the bitmaps of the nodes and their counters agree: slot \<open>j\<close>
  is owned by the one node whose bitmap has bit \<open>j\<close>; the heap is finite.
\<close>

definition slots_ok :: "cluster \<Rightarrow> bool" where
  "slots_ok c \<longleftrightarrow> length (slots c) = REDIS_CLUSTER_SLOTS \<and> (\<forall>p n. heap c p = Some n \<longrightarrow> node_ok n) \<and>
     (\<forall>j < REDIS_CLUSTER_SLOTS. \<forall>p. slots c ! j = Some p \<longleftrightarrow> (\<exists>n. heap c p = Some n \<and> slot_bit n j)) \<and>
     finite (dom (heap c))"

text \<open>Everything but the slots: bitmaps, counters and owner table are erased.\<close>

definition erase_node :: "clusterNode \<Rightarrow> clusterNode" where
  "erase_node n = n\<lparr>n_slots := [], n_numslots := 0\<rparr>"

definition erase :: "cluster \<Rightarrow> cluster" where
  "erase c = c\<lparr>heap := (\<lambda>p. map_option erase_node (heap c p)), slots := []\<rparr>"

lemma slots_okD:
  assumes "slots_ok c"
  shows "length (slots c) = REDIS_CLUSTER_SLOTS" "heap c p = Some n \<Longrightarrow> node_ok n"
    "j < REDIS_CLUSTER_SLOTS \<Longrightarrow> slots c ! j = Some p \<Longrightarrow> \<exists>n. heap c p = Some n \<and> slot_bit n j"
    "j < REDIS_CLUSTER_SLOTS \<Longrightarrow> heap c p = Some n \<Longrightarrow> slot_bit n j \<longleftrightarrow> slots c ! j = Some p"
    "finite (dom (heap c))"
  using assms unfolding slots_ok_def by (blast, blast, blast, auto)

lemma test_bit: "length bm = 2048 \<Longrightarrow> j < REDIS_CLUSTER_SLOTS \<Longrightarrow>
    bitmapTestBit bm j = Inr (bit (bm ! (j div 8)) (j mod 8))"
proof -
  assume *: "length bm = 2048" "j < REDIS_CLUSTER_SLOTS"
  have "j AND 7 = j mod 8" using take_bit_eq_mask [of 3 j] by (simp add: take_bit_eq_mod mask_eq_exp_minus_1)
  then show ?thesis using *
    by (simp add: bitmapTestBit_def rd_in REDIS_CLUSTER_SLOTS_def bit_iff_and_push_bit_not_eq_0)
qed

lemma and_7: "j AND 7 = j mod (8 :: nat)"
  using take_bit_eq_mask [of 3 j] by (simp add: take_bit_eq_mod mask_eq_exp_minus_1)

lemma same_slot: "i div 8 = j div 8 \<Longrightarrow> i mod 8 = j mod 8 \<Longrightarrow> i = (j :: nat)"
  by (metis div_mult_mod_eq)

lemma set_bit_spec:
  assumes "length bm = 2048" and "j < REDIS_CLUSTER_SLOTS"
  obtains bm' where "bitmapSetBit bm j = Inr bm'" "length bm' = 2048"
    "\<And>i. i < REDIS_CLUSTER_SLOTS \<Longrightarrow> bit (bm' ! (i div 8)) (i mod 8) \<longleftrightarrow> i = j \<or> bit (bm ! (i div 8)) (i mod 8)"
proof -
  let ?bm = "bm[j div 8 := bm ! (j div 8) OR push_bit (j mod 8) 1]"
  have "bit (?bm ! (i div 8)) (i mod 8) \<longleftrightarrow> i = j \<or> bit (bm ! (i div 8)) (i mod 8)" if "i < REDIS_CLUSTER_SLOTS" for i
    using that assms same_slot [of i j] by (auto simp: REDIS_CLUSTER_SLOTS_def nth_list_update bit_simps)
  then show thesis using assms
    by (intro that [of ?bm]) (simp_all add: bitmapSetBit_def rd_in REDIS_CLUSTER_SLOTS_def and_7)
qed

lemma clear_bit_spec:
  assumes "length bm = 2048" and "j < REDIS_CLUSTER_SLOTS"
  obtains bm' where "bitmapClearBit bm j = Inr bm'" "length bm' = 2048"
    "\<And>i. i < REDIS_CLUSTER_SLOTS \<Longrightarrow> bit (bm' ! (i div 8)) (i mod 8) \<longleftrightarrow> i \<noteq> j \<and> bit (bm ! (i div 8)) (i mod 8)"
proof -
  let ?bm = "bm[j div 8 := bm ! (j div 8) AND NOT (push_bit (j mod 8) 1)]"
  have "bit (?bm ! (i div 8)) (i mod 8) \<longleftrightarrow> i \<noteq> j \<and> bit (bm ! (i div 8)) (i mod 8)" if "i < REDIS_CLUSTER_SLOTS" for i
    using that assms same_slot [of i j] by (auto simp: REDIS_CLUSTER_SLOTS_def nth_list_update bit_simps)
  then show thesis using assms
    by (intro that [of ?bm]) (simp_all add: bitmapClearBit_def rd_in REDIS_CLUSTER_SLOTS_def and_7)
qed

lemma card_add: "j < N \<Longrightarrow> \<not> P j \<Longrightarrow> card {i. i < N \<and> (i = j \<or> P i)} = Suc (card {i. i < (N :: nat) \<and> P i})"
proof -
  assume *: "j < N" "\<not> P j"
  then have "{i. i < N \<and> (i = j \<or> P i)} = insert j {i. i < N \<and> P i}" by auto
  then show ?thesis using * by simp
qed

lemma card_del: "j < N \<Longrightarrow> P j \<Longrightarrow> Suc (card {i. i < (N :: nat) \<and> i \<noteq> j \<and> P i}) = card {i. i < N \<and> P i}"
proof -
  assume *: "j < N" "P j"
  then have "{i. i < N \<and> P i} = insert j {i. i < N \<and> i \<noteq> j \<and> P i}" by auto
  then show ?thesis by simp
qed

text \<open>Setting and clearing a bit keeps bitmap and counter of the node in step.\<close>

lemma set_slot_bit_spec:
  assumes "heap c p = Some n" and "node_ok n" and "j < REDIS_CLUSTER_SLOTS"
  obtains n' where "clusterNodeSetSlotBit c (Some p) j = Inr (slot_bit n j, c\<lparr>heap := (heap c)(p \<mapsto> n')\<rparr>)"
    "node_ok n'" "erase_node n' = erase_node n"
    "\<And>i. i < REDIS_CLUSTER_SLOTS \<Longrightarrow> slot_bit n' i \<longleftrightarrow> i = j \<or> slot_bit n i"
proof -
  have l: "length (n_slots n) = 2048" using assms(2) by (simp add: node_ok_def)
  obtain bm where bm: "bitmapSetBit (n_slots n) j = Inr bm" "length bm = 2048"
    "\<And>i. i < REDIS_CLUSTER_SLOTS \<Longrightarrow> bit (bm ! (i div 8)) (i mod 8) \<longleftrightarrow> i = j \<or> bit (n_slots n ! (i div 8)) (i mod 8)"
    using set_bit_spec [OF l assms(3)] by blast
  define n' where "n' = n\<lparr>n_slots := bm, n_numslots := (if \<not> slot_bit n j then n_numslots n + 1 else n_numslots n)\<rparr>"
  have f: "n_slots n' = bm" "n_numslots n' = (if \<not> slot_bit n j then n_numslots n + 1 else n_numslots n)"
    "erase_node n' = erase_node n"
    by (simp_all add: n'_def erase_node_def)
  have b: "slot_bit n' i \<longleftrightarrow> i = j \<or> slot_bit n i" if "i < REDIS_CLUSTER_SLOTS" for i
    using bm(3) [OF that] by (simp add: slot_bit_def f)
  have "{i. i < REDIS_CLUSTER_SLOTS \<and> slot_bit n' i} = {i. i < REDIS_CLUSTER_SLOTS \<and> (i = j \<or> slot_bit n i)}"
    using b by blast
  moreover have "{i. i < REDIS_CLUSTER_SLOTS \<and> (i = j \<or> slot_bit n i)} = {i. i < REDIS_CLUSTER_SLOTS \<and> slot_bit n i}"
    if "slot_bit n j"
    using that by auto
  ultimately have "node_ok n'" using assms(2) bm(2) card_add [OF assms(3), of "slot_bit n"]
    by (cases "slot_bit n j") (simp_all add: node_ok_def f)
  moreover have "clusterNodeSetSlotBit c (Some p) j = Inr (slot_bit n j, c\<lparr>heap := (heap c)(p \<mapsto> n')\<rparr>)"
    using assms(1,3) l bm(1)
    by (simp add: clusterNodeSetSlotBit_def getn_live test_bit updn_live slot_bit_def n'_def del: getn_Some)
  ultimately show thesis using b f(3) by (intro that [of n']) simp_all
qed

lemma clear_slot_bit_spec:
  assumes "heap c p = Some n" and "node_ok n" and "j < REDIS_CLUSTER_SLOTS"
  obtains n' where "clusterNodeClearSlotBit c (Some p) j = Inr (slot_bit n j, c\<lparr>heap := (heap c)(p \<mapsto> n')\<rparr>)"
    "node_ok n'" "erase_node n' = erase_node n"
    "\<And>i. i < REDIS_CLUSTER_SLOTS \<Longrightarrow> slot_bit n' i \<longleftrightarrow> i \<noteq> j \<and> slot_bit n i"
proof -
  have l: "length (n_slots n) = 2048" using assms(2) by (simp add: node_ok_def)
  obtain bm where bm: "bitmapClearBit (n_slots n) j = Inr bm" "length bm = 2048"
    "\<And>i. i < REDIS_CLUSTER_SLOTS \<Longrightarrow> bit (bm ! (i div 8)) (i mod 8) \<longleftrightarrow> i \<noteq> j \<and> bit (n_slots n ! (i div 8)) (i mod 8)"
    using clear_bit_spec [OF l assms(3)] by blast
  define n' where "n' = n\<lparr>n_slots := bm, n_numslots := (if slot_bit n j then n_numslots n - 1 else n_numslots n)\<rparr>"
  have f: "n_slots n' = bm" "n_numslots n' = (if slot_bit n j then n_numslots n - 1 else n_numslots n)"
    "erase_node n' = erase_node n"
    by (simp_all add: n'_def erase_node_def)
  have b: "slot_bit n' i \<longleftrightarrow> i \<noteq> j \<and> slot_bit n i" if "i < REDIS_CLUSTER_SLOTS" for i
    using bm(3) [OF that] by (simp add: slot_bit_def f)
  have "{i. i < REDIS_CLUSTER_SLOTS \<and> slot_bit n' i} = {i. i < REDIS_CLUSTER_SLOTS \<and> i \<noteq> j \<and> slot_bit n i}"
    using b by blast
  moreover have "{i. i < REDIS_CLUSTER_SLOTS \<and> i \<noteq> j \<and> slot_bit n i} = {i. i < REDIS_CLUSTER_SLOTS \<and> slot_bit n i}"
    if "\<not> slot_bit n j"
    using that by auto
  ultimately have "node_ok n'" using assms(2) bm(2) card_del [OF assms(3), of "slot_bit n"]
    by (cases "slot_bit n j") (simp_all add: node_ok_def f)
  moreover have "clusterNodeClearSlotBit c (Some p) j = Inr (slot_bit n j, c\<lparr>heap := (heap c)(p \<mapsto> n')\<rparr>)"
    using assms(1,3) l bm(1)
    by (simp add: clusterNodeClearSlotBit_def getn_live test_bit updn_live slot_bit_def n'_def del: getn_Some)
  ultimately show thesis using b f(3) by (intro that [of n']) simp_all
qed

lemma erase_update:
  "erase_node n' = erase_node n \<Longrightarrow> heap c p = Some n \<Longrightarrow>
    erase (c\<lparr>heap := (heap c)(p \<mapsto> n'), slots := s\<rparr>) = erase c"
  by (auto simp: erase_def fun_eq_iff)

text \<open>
  The operations on the table of owners: each is the update of the table, and
  keeps bitmaps and counters in agreement with it.
\<close>

lemma addSlot_spec:
  assumes ok: "slots_ok c" and live: "heap c p = Some n" and j: "j < REDIS_CLUSTER_SLOTS"
  obtains c' where "clusterAddSlot c (Some p) j = Inr (slots c ! j = None, c')" "slots_ok c'" "erase c' = erase c"
    "slots c' = (if slots c ! j = None then (slots c)[j := Some p] else slots c)"
proof (cases "slots c ! j = None")
  case False
  then show thesis using that [of c] ok j by (auto simp: clusterAddSlot_def rd_in slots_okD(1))
next
  case True
  obtain n' where n': "clusterNodeSetSlotBit c (Some p) j = Inr (slot_bit n j, c\<lparr>heap := (heap c)(p \<mapsto> n')\<rparr>)"
    "node_ok n'" "erase_node n' = erase_node n"
    "\<And>i. i < REDIS_CLUSTER_SLOTS \<Longrightarrow> slot_bit n' i \<longleftrightarrow> i = j \<or> slot_bit n i"
    using set_slot_bit_spec [OF live slots_okD(2) [OF ok live] j] by blast
  let ?c = "c\<lparr>heap := (heap c)(p \<mapsto> n'), slots := (slots c)[j := Some p]\<rparr>"
  have "slots_ok ?c"
    using slots_okD [OF ok] n' live True j unfolding slots_ok_def
    by (auto simp: nth_list_update)
  then show thesis using True n' j live ok
    by (intro that [of ?c]) (simp_all add: clusterAddSlot_def rd_in slots_okD(1) erase_update)
qed

lemma delSlot_spec:
  assumes ok: "slots_ok c" and j: "j < REDIS_CLUSTER_SLOTS"
  obtains c' where "clusterDelSlot c j = Inr (slots c ! j \<noteq> None, c')" "slots_ok c'" "erase c' = erase c"
    "slots c' = (slots c)[j := None]"
proof (cases "slots c ! j")
  case None
  then show thesis using that [of c] ok j list_update_id [of "slots c" j]
    by (auto simp: clusterDelSlot_def rd_in slots_okD(1))
next
  case (Some p)
  then obtain n where live: "heap c p = Some n" "slot_bit n j" using slots_okD(3) [OF ok j] by blast
  obtain n' where n': "clusterNodeClearSlotBit c (Some p) j = Inr (slot_bit n j, c\<lparr>heap := (heap c)(p \<mapsto> n')\<rparr>)"
    "node_ok n'" "erase_node n' = erase_node n"
    "\<And>i. i < REDIS_CLUSTER_SLOTS \<Longrightarrow> slot_bit n' i \<longleftrightarrow> i \<noteq> j \<and> slot_bit n i"
    using clear_slot_bit_spec [OF live(1) slots_okD(2) [OF ok live(1)] j] by blast
  let ?c = "c\<lparr>heap := (heap c)(p \<mapsto> n'), slots := (slots c)[j := None]\<rparr>"
  have "slots_ok ?c"
    using slots_okD [OF ok] n' live Some j unfolding slots_ok_def
    by (auto simp: nth_list_update)
  then show thesis using Some n' j live ok
    by (intro that [of ?c]) (simp_all add: clusterDelSlot_def rd_in slots_okD(1) erase_update)
qed

lemma numslots_owned:
  assumes "slots_ok c" and "heap c p = Some n"
  shows "n_numslots n = int (card {j. j < REDIS_CLUSTER_SLOTS \<and> slots c ! j = Some p})"
proof -
  have "{j. j < REDIS_CLUSTER_SLOTS \<and> slot_bit n j} = {j. j < REDIS_CLUSTER_SLOTS \<and> slots c ! j = Some p}"
    using slots_okD(4) [OF assms(1) _ assms(2)] by blast
  then show ?thesis using slots_okD(2) [OF assms] by (simp add: node_ok_def)
qed

lemma numslots_bounds:
  assumes "slots_ok c" and "heap c p = Some n"
  shows "0 \<le> n_numslots n" "n_numslots n \<le> 16384"
proof -
  have "card {j. j < REDIS_CLUSTER_SLOTS \<and> slots c ! j = Some p} \<le> card {j. j < REDIS_CLUSTER_SLOTS}"
    by (rule card_mono) auto
  then show "0 \<le> n_numslots n" "n_numslots n \<le> 16384"
    using numslots_owned [OF assms] by (simp_all add: REDIS_CLUSTER_SLOTS_def)
qed

text \<open>Deleting all the slots of a node: the answer is the number of slots of a cluster.\<close>

lemma getSlotBit_spec:
  assumes "slots_ok c" and "heap c p = Some n" and "j < REDIS_CLUSTER_SLOTS"
  shows "clusterNodeGetSlotBit c (Some p) j = Inr (slots c ! j = Some p)"
  using assms slots_okD(2) [OF assms(1,2)] slots_okD(4) [OF assms(1,3,2)]
  by (simp add: clusterNodeGetSlotBit_def getn_live test_bit node_ok_def slot_bit_def del: getn_Some)

lemma erase_live: "erase c = erase c' \<Longrightarrow> heap c p = None \<longleftrightarrow> heap c' p = None"
proof -
  assume "erase c = erase c'"
  then have "map_option erase_node (heap c p) = map_option erase_node (heap c' p)"
  proof -
    have "heap (erase c) p = heap (erase c') p" using \<open>erase c = erase c'\<close> by simp
    then show ?thesis by (simp add: erase_def)
  qed
  then show ?thesis by (metis option.map_disc_iff)
qed

definition drop_owner :: "ptr \<Rightarrow> ptr option \<Rightarrow> ptr option" where
  "drop_owner p s = (if s = Some p then None else s)"

lemma delNodeSlots_spec:
  assumes ok: "slots_ok c" and live: "heap c p \<noteq> None"
  obtains c' where "clusterDelNodeSlots c (Some p) = Inr (int REDIS_CLUSTER_SLOTS, c')" "slots_ok c'"
    "erase c' = erase c" "slots c' = map (drop_owner p) (slots c)"
proof -
  let ?I = "\<lambda>js (k, c'). k = int (length js) \<and> slots_ok c' \<and> erase c' = erase c \<and>
    (\<forall>j < REDIS_CLUSTER_SLOTS. slots c' ! j = (if j \<in> set js then drop_owner p (slots c ! j) else slots c ! j))"
  have "\<exists>s'. for_each (\<lambda>j (deleted, c).
       rbind (clusterNodeGetSlotBit c (Some p) j) (\<lambda>b.
       if b then rbind (clusterDelSlot c j) (\<lambda>(_, c). Inr (deleted + 1, c))
       else Inr (deleted + 1, c))) [0..<REDIS_CLUSTER_SLOTS] (0, c) = Inr s' \<and> ?I [0..<REDIS_CLUSTER_SLOTS] s'"
  proof (rule for_each_rule)
    show "?I [] (0, c)" using ok by simp
    fix ys j zs and s :: "int \<times> cluster"
    assume js: "[0..<REDIS_CLUSTER_SLOTS] = ys @ j # zs" and I: "?I ys s"
    obtain k d where s: "s = (k, d)" by force
    have j: "j < REDIS_CLUSTER_SLOTS" "ys = [0..<j]" using upt_split [OF js] by auto
    obtain n where n: "heap d p = Some n" using I live erase_live [of d c p] by (auto simp: s)
    have g: "clusterNodeGetSlotBit d (Some p) j = Inr (slots c ! j = Some p)"
      using getSlotBit_spec [OF _ n j(1)] I j by (auto simp: s)
    have l: "length (slots d) = REDIS_CLUSTER_SLOTS" using I slots_okD(1) by (auto simp: s)
    obtain d' where d': "clusterDelSlot d j = Inr (slots d ! j \<noteq> None, d')" "slots_ok d'" "erase d' = erase d"
      "slots d' = (slots d)[j := None]"
      using delSlot_spec [of d j] I j by (auto simp: s)
    have "(case s of (deleted, c) \<Rightarrow> rbind (clusterNodeGetSlotBit c (Some p) j) (\<lambda>b.
       if b then rbind (clusterDelSlot c j) (\<lambda>(_, c). Inr (deleted + 1, c)) else Inr (deleted + 1, c))) =
       Inr (k + 1, if slots c ! j = Some p then d' else d)"
      by (simp add: s g d'(1))
    moreover have "?I (ys @ [j]) (k + 1, if slots c ! j = Some p then d' else d)"
      using I j d'(2-4) l by (auto simp: s drop_owner_def nth_list_update)
    ultimately show "\<exists>s'. (case s of (deleted, c) \<Rightarrow> rbind (clusterNodeGetSlotBit c (Some p) j) (\<lambda>b.
       if b then rbind (clusterDelSlot c j) (\<lambda>(_, c). Inr (deleted + 1, c)) else Inr (deleted + 1, c))) = Inr s' \<and>
       ?I (ys @ [j]) s'" by blast
  qed
  then obtain k c' where R: "clusterDelNodeSlots c (Some p) = Inr (k, c')" "?I [0..<REDIS_CLUSTER_SLOTS] (k, c')"
    unfolding clusterDelNodeSlots_def by auto
  then have "slots c' = map (drop_owner p) (slots c)"
    using slots_okD(1) [OF ok] slots_okD(1) [of c'] by (auto intro!: nth_equalityI)
  then show thesis using that [of c'] R by simp
qed

section \<open>What does not touch the slots\<close>

text \<open>The part of the state the slot invariant is about.\<close>

definition slot_view :: "cluster \<Rightarrow> ptr option list \<times> (ptr \<Rightarrow> (u8 list \<times> int) option)" where
  "slot_view c = (slots c, \<lambda>p. map_option (\<lambda>n. (n_slots n, n_numslots n)) (heap c p))"

lemma slots_ok_view:
  assumes "slot_view c' = slot_view c" and "slots_ok c"
  shows "slots_ok c'"
proof -
  have s: "slots c' = slots c" using assms(1) by (simp add: slot_view_def)
  have h: "map_option (\<lambda>n. (n_slots n, n_numslots n)) (heap c' p) = map_option (\<lambda>n. (n_slots n, n_numslots n)) (heap c p)" for p
    using assms(1) by (simp add: slot_view_def fun_eq_iff)
  have L: "\<exists>m. heap c p = Some m \<and> n_slots m = n_slots n \<and> n_numslots m = n_numslots n" if "heap c' p = Some n" for p n
    using h [of p] that by (cases "heap c p") auto
  have R: "\<exists>m. heap c' p = Some m \<and> n_slots m = n_slots n \<and> n_numslots m = n_numslots n" if "heap c p = Some n" for p n
    using h [of p] that by (cases "heap c' p") auto
  have "node_ok n" if "heap c' p = Some n" for p n
    using L [OF that] slots_okD(2) [OF assms(2)] by (fastforce simp: node_ok_def slot_bit_def)
  moreover have "(\<exists>n. heap c' p = Some n \<and> slot_bit n j) \<longleftrightarrow> (\<exists>n. heap c p = Some n \<and> slot_bit n j)" for p j
    using L R unfolding slot_bit_def by metis
  moreover have "dom (heap c') = dom (heap c)" using L R by blast
  ultimately show ?thesis using assms(2) s by (simp add: slots_ok_def)
qed

text \<open>The votes the node has sent: the epoch and the name of the candidate.\<close>

fun vote_of :: "effect \<Rightarrow> (u64 \<times> name) list" where
  "vote_of (SendFailoverAuth s e) = [(e, s)]"
| "vote_of _ = []"

definition votes :: "cluster \<Rightarrow> (u64 \<times> name) list" where
  "votes c = concat (map vote_of (effects c))"

text \<open>The slots, the epochs, the identity of the node and its votes.\<close>

definition core_view ::
  "cluster \<Rightarrow> (ptr option list \<times> (ptr \<Rightarrow> (u8 list \<times> int) option)) \<times> u64 \<times> u64 \<times> ptr \<times> (u64 \<times> name) list" where
  "core_view c = (slot_view c, currentEpoch c, lastVoteEpoch c, myself c, votes c)"

lemma core_slot: "core_view c' = core_view c \<Longrightarrow> slot_view c' = slot_view c"
  and core_epochs: "core_view c' = core_view c \<Longrightarrow> currentEpoch c' = currentEpoch c"
    "core_view c' = core_view c \<Longrightarrow> lastVoteEpoch c' = lastVoteEpoch c"
    "core_view c' = core_view c \<Longrightarrow> myself c' = myself c"
    "core_view c' = core_view c \<Longrightarrow> votes c' = votes c"
  by (simp_all add: core_view_def)

lemma core_view_simps [simp]:
  "core_view (c\<lparr>env := a1\<rparr>) = core_view c" "core_view (c\<lparr>cstate := a4\<rparr>) = core_view c"
  "core_view (c\<lparr>csize := a5\<rparr>) = core_view c" "core_view (c\<lparr>nodes := a6\<rparr>) = core_view c"
  "core_view (c\<lparr>black_list := a7\<rparr>) = core_view c" "core_view (c\<lparr>migrating_slots_to := a8\<rparr>) = core_view c"
  "core_view (c\<lparr>importing_slots_from := a9\<rparr>) = core_view c" "core_view (c\<lparr>failover_auth_time := b1\<rparr>) = core_view c"
  "core_view (c\<lparr>failover_auth_count := b2\<rparr>) = core_view c" "core_view (c\<lparr>failover_auth_sent := b3\<rparr>) = core_view c"
  "core_view (c\<lparr>failover_auth_rank := b4\<rparr>) = core_view c" "core_view (c\<lparr>failover_auth_epoch := b5\<rparr>) = core_view c"
  "core_view (c\<lparr>cant_failover_reason := b6\<rparr>) = core_view c" "core_view (c\<lparr>mf_end := b7\<rparr>) = core_view c"
  "core_view (c\<lparr>mf_slave := b8\<rparr>) = core_view c" "core_view (c\<lparr>mf_master_offset := b9\<rparr>) = core_view c"
  "core_view (c\<lparr>mf_can_start := c1\<rparr>) = core_view c"
  "core_view (c\<lparr>todo_before_sleep := c3\<rparr>) = core_view c" "core_view (c\<lparr>among_minority_time := c4\<rparr>) = core_view c"
  "core_view (c\<lparr>first_call_time := c5\<rparr>) = core_view c" "core_view (c\<lparr>clock := c6\<rparr>) = core_view c"
  "core_view (c\<lparr>ticks := c7\<rparr>) = core_view c" "core_view (c\<lparr>cron_iteration := c9\<rparr>) = core_view c"
  by (simp_all add: core_view_def slot_view_def votes_def)

lemma votes_perform [simp]: "votes (perform a c) = votes c @ vote_of a"
  by (simp add: votes_def perform_def)

lemma core_view_helpers [simp]:
  "vote_of a = [] \<Longrightarrow> core_view (perform a c) = core_view c" "core_view (clusterDoBeforeSleep fl c) = core_view c"
  "core_view (clusterCloseAllSlots c) = core_view c" "core_view (clusterBlacklistCleanup c) = core_view c"
  "core_view (c\<lparr>effects := effects c @ map DelKeysInSlot dirty\<rparr>) = core_view c"
  by (simp_all add: clusterDoBeforeSleep_def clusterCloseAllSlots_def clusterBlacklistCleanup_def)
    (simp_all add: perform_def core_view_def slot_view_def votes_def comp_def concat_eq_Nil_conv)

lemma mstime_view: "mstime c = (t, c') \<Longrightarrow> core_view c' = core_view c"
  by (auto simp: mstime_def)

lemma updn_view:
  assumes "updn c p f = Inr c'" and "\<And>n. n_slots (f n) = n_slots n" and "\<And>n. n_numslots (f n) = n_numslots n"
  shows "core_view c' = core_view c"
  using assms by (auto simp: updn_Inr core_view_def slot_view_def votes_def fun_eq_iff)

lemma clear_set_flags [simp]:
  "n_slots (clear_flags f n) = n_slots n" "n_numslots (clear_flags f n) = n_numslots n"
  "n_slots (set_flags f n) = n_slots n" "n_numslots (set_flags f n) = n_numslots n"
  "n_slaves (clear_flags f n) = n_slaves n" "n_slaveof (clear_flags f n) = n_slaveof n"
  "n_slaves (set_flags f n) = n_slaves n" "n_slaveof (set_flags f n) = n_slaveof n"
  "n_configEpoch (clear_flags f n) = n_configEpoch n" "n_configEpoch (set_flags f n) = n_configEpoch n"
  "n_name (clear_flags f n) = n_name n" "n_name (set_flags f n) = n_name n"
  by (simp_all add: clear_flags_def set_flags_def)

lemma cleanup_view: "clusterNodeCleanupFailureReports c p = Inr c' \<Longrightarrow> core_view c' = core_view c"
  by (auto simp: clusterNodeCleanupFailureReports_def mstime_def dest!: updn_view)

lemma addReport_view: "clusterNodeAddFailureReport c p s = Inr (b, c') \<Longrightarrow> core_view c' = core_view c"
  by (auto simp: clusterNodeAddFailureReport_def mstime_def split: option.splits dest!: updn_view)

lemma delReport_view: "clusterNodeDelFailureReport c p s = Inr (b, c') \<Longrightarrow> core_view c' = core_view c"
  by (auto simp: clusterNodeDelFailureReport_def split: option.splits dest!: updn_view cleanup_view)

lemma reportsCount_view: "clusterNodeFailureReportsCount c p = Inr (k, c') \<Longrightarrow> core_view c' = core_view c"
  by (auto simp: clusterNodeFailureReportsCount_def dest!: cleanup_view)

lemma removeSlave_view: "clusterNodeRemoveSlave c m s = Inr (b, c') \<Longrightarrow> core_view c' = core_view c"
  by (auto simp: clusterNodeRemoveSlave_def Let_def split: if_splits dest!: updn_view)

lemma addSlave_view: "clusterNodeAddSlave c m s = Inr (b, c') \<Longrightarrow> core_view c' = core_view c"
  by (auto simp: clusterNodeAddSlave_def split: if_splits dest!: updn_view)

lemma resetSlaves_view: "clusterNodeResetSlaves c p = Inr c' \<Longrightarrow> core_view c' = core_view c"
  by (auto simp: clusterNodeResetSlaves_def dest!: updn_view)

lemma addNode_view: "clusterAddNode c p = Inr (b, c') \<Longrightarrow> core_view c' = core_view c"
  by (auto simp: clusterAddNode_def split: if_splits)

lemma nodes_delete_view: "nodes_delete c s = Inr c' \<Longrightarrow> core_view c' = core_view c"
  by (auto simp: nodes_delete_def split: if_splits)

lemma renameNode_view: "clusterRenameNode c p s = Inr c' \<Longrightarrow> core_view c' = core_view c"
  by (auto simp: clusterRenameNode_def dest!: updn_view nodes_delete_view addNode_view)

lemma for_each_view:
  assumes "for_each f xs s = Inr s'" and "\<And>x s s'. f x s = Inr s' \<Longrightarrow> core_view s' = core_view s"
  shows "core_view s' = core_view s"
  using for_each_inv [OF assms(1), of "\<lambda>x. core_view x = core_view s"] assms(2) by auto

text \<open>\<open>slots_ok\<close> is kept by creating a node, and by removing one that owns no slot.\<close>

lemma createNode_ok:
  assumes "slots_ok c" and "heap c a = None"
  shows "slots_ok (createClusterNode c a r nm fl)"
proof -
  have b: "\<not> slot_bit (new_node t s fl) j" if "j < REDIS_CLUSTER_SLOTS" for t s j
    using that by (simp add: new_node_def slot_bit_def REDIS_CLUSTER_SLOTS_def)
  have "{j. j < REDIS_CLUSTER_SLOTS \<and> slot_bit (new_node t s fl) j} = {}" for t s using b by blast
  then have n: "node_ok (new_node t s fl)" for t s
    by (simp add: node_ok_def) (simp add: new_node_def REDIS_CLUSTER_SLOTS_def)
  have "slots c ! j \<noteq> Some a" if "j < REDIS_CLUSTER_SLOTS" for j
    using slots_okD(3) [OF assms(1) that] assms(2) by auto
  then show ?thesis
    using assms b n unfolding slots_ok_def createClusterNode_def mstime_def by auto
qed

lemma dropNode_ok:
  assumes "slots_ok c" and "\<forall>j < REDIS_CLUSTER_SLOTS. slots c ! j \<noteq> Some p"
  shows "slots_ok (c\<lparr>heap := (heap c)(p := None)\<rparr>)"
  using assms unfolding slots_ok_def by auto

lemma delSlot_ok:
  assumes "clusterDelSlot c j = Inr (b, c')" and "slots_ok c" and "j < REDIS_CLUSTER_SLOTS"
  shows "slots_ok c'" "erase c' = erase c" "slots c' = (slots c)[j := None]"
  using delSlot_spec [OF assms(2,3)] assms(1) by force+

lemma addSlot_ok:
  assumes "clusterAddSlot c (Some p) j = Inr (b, c')" and "slots_ok c" and "j < REDIS_CLUSTER_SLOTS"
  shows "slots_ok c'" "erase c' = erase c"
    "slots c' = (if slots c ! j = None then (slots c)[j := Some p] else slots c)"
proof -
  have "slots_ok c' \<and> erase c' = erase c \<and>
    slots c' = (if slots c ! j = None then (slots c)[j := Some p] else slots c)"
  proof (cases "slots c ! j = None")
    case True
    then obtain n where "heap c p = Some n"
      using assms(1) by (auto simp: clusterAddSlot_def clusterNodeSetSlotBit_def rd_Inr_iff)
    from addSlot_spec [OF assms(2) this assms(3)] show ?thesis using assms(1) by force
  next
    case False
    then show ?thesis using assms by (auto simp: clusterAddSlot_def rd_Inr_iff)
  qed
  then show "slots_ok c'" "erase c' = erase c"
    "slots c' = (if slots c ! j = None then (slots c)[j := Some p] else slots c)" by simp_all
qed

lemma freeNode_shape:
  assumes "freeClusterNode c p = Inr c'"
  obtains d where "core_view d = core_view c" "c' = d\<lparr>heap := (heap d)(p := None)\<rparr>"
proof -
  obtain n c1 n' c2 c3 where
    c1: "(if nodeIsMaster n
          then for_each (\<lambda>s c. updn c (Some s) (n_slaveof_update (\<lambda>_. None))) (n_slaves n) c else Inr c) = Inr c1"
    and c2: "(if nodeIsSlave n' \<and> n_slaveof n' \<noteq> None
            then rbind (clusterNodeRemoveSlave c1 (n_slaveof n') p) (\<lambda>(_, c). Inr c) else Inr c1) = Inr c2"
    and c3: "nodes_delete c2 (n_name n') = Inr c3"
    and c': "c' = (if n_link n' \<noteq> None then perform (FreeLink p) c3 else c3)\<lparr>heap :=
      (heap (if n_link n' \<noteq> None then perform (FreeLink p) c3 else c3))(p := None)\<rparr>"
    using assms(1) unfolding freeClusterNode_def rbind_eq_Inr Let_def by blast
  have "core_view c1 = core_view c"
    using c1 by (auto split: if_splits intro: for_each_view elim!: updn_view)
  moreover have "core_view c2 = core_view c1" using c2 by (auto split: if_splits dest: removeSlave_view)
  moreover have "core_view c3 = core_view c2" by (rule nodes_delete_view [OF c3])
  ultimately show thesis using c' by (intro that [of "if n_link n' \<noteq> None then perform (FreeLink p) c3 else c3"]) simp_all
qed

lemma freeNode_ok:
  assumes "freeClusterNode c p = Inr c'" and "slots_ok c" and "\<forall>j < REDIS_CLUSTER_SLOTS. slots c ! j \<noteq> Some p"
  shows "slots_ok c'"
proof -
  obtain d where d: "core_view d = core_view c" "c' = d\<lparr>heap := (heap d)(p := None)\<rparr>"
    by (rule freeNode_shape [OF assms(1)])
  then have "slots d = slots c" by (simp add: core_view_def slot_view_def)
  then show ?thesis unfolding d(2)
    using slots_ok_view [OF core_slot [OF d(1)] assms(2)] assms(3) by (intro dropNode_ok) simp_all
qed

lemma delnode_close_view: "delnode_close p j c = Inr c' \<Longrightarrow> core_view c' = core_view c"
  by (auto simp: delnode_close_def Let_def)

lemma delnode_slot_ok:
  assumes "delnode_slot p j d = Inr d'" and "slots_ok d" and "j < REDIS_CLUSTER_SLOTS"
  shows "slots_ok d' \<and> slots d' = (if slots d ! j = Some p then (slots d)[j := None] else slots d)"
proof -
  obtain e where e: "delnode_close p j d = Inr e"
    and e': "(if slots e ! j = Some p then rbind (clusterDelSlot e j) (\<lambda>(_, c). Inr c) else Inr e) = Inr d'"
    using assms(1) by (auto simp: delnode_slot_def rd_Inr_iff)
  note v = delnode_close_view [OF e]
  then have se: "slots e = slots d" by (simp add: core_view_def slot_view_def)
  have oe: "slots_ok e" by (rule slots_ok_view [OF core_slot [OF v] assms(2)])
  show ?thesis
  proof (cases "slots e ! j = Some p")
    case True
    then obtain b where "clusterDelSlot e j = Inr (b, d')" using e' by auto
    from delSlot_ok [OF this oe assms(3)] show ?thesis using True by (simp add: se)
  next
    case False
    then show ?thesis using e' oe se by auto
  qed
qed

lemma delNode_ok:
  assumes "clusterDelNode c p = Inr c'" and "slots_ok c"
  shows "slots_ok c'"
proof -
  obtain c1 c2 where c1: "for_each (delnode_slot p) [0..<REDIS_CLUSTER_SLOTS] c = Inr c1"
    and c2: "for_each (\<lambda>e c. if snd e = p then Inr c
       else rbind (clusterNodeDelFailureReport c (snd e) p) (\<lambda>(_, c). Inr c)) (nodes c1) c1 = Inr c2"
    and c3: "freeClusterNode c2 p = Inr c'"
    using assms(1) unfolding clusterDelNode_def by auto
  let ?I = "\<lambda>js d. slots_ok d \<and> (\<forall>j \<in> set js. slots d ! j \<noteq> Some p)"
  have "?I [0..<REDIS_CLUSTER_SLOTS] c1"
  proof (rule for_each_prefix [OF c1])
    show "?I [] c" using assms(2) by simp
    fix ys j zs d d' assume js: "[0..<REDIS_CLUSTER_SLOTS] = ys @ j # zs" and I: "?I ys d"
      and st: "delnode_slot p j d = Inr d'"
    have j: "j < REDIS_CLUSTER_SLOTS" using upt_split [OF js] by simp
    then show "?I (ys @ [j]) d'"
      using delnode_slot_ok [OF st _ j] I slots_okD(1) [of d] by (auto simp: nth_list_update)
  qed
  moreover have v: "core_view c2 = core_view c1"
    by (rule for_each_view [OF c2]) (auto split: if_splits dest: delReport_view)
  ultimately have "slots_ok c2" "\<forall>j < REDIS_CLUSTER_SLOTS. slots c2 ! j \<noteq> Some p"
    using slots_ok_view [OF core_slot [OF v]] by (auto simp: core_view_def slot_view_def)
  then show ?thesis by (rule freeNode_ok [OF c3])
qed

end
