(* ===== verification/ClusterEpoch.thy ===== *)
theory ClusterEpoch
  imports ClusterNode
begin

text \<open>
  Configuration epochs, failure flags, role changes, the update of the slot
  table by a claim, votes and elections: the handlers of \<open>cluster.c\<close> that move
  the state of one node of the cluster.
\<close>

section \<open>Configuration epochs\<close>

definition clusterGetMaxEpoch :: "cluster \<Rightarrow> u64 res" where
  "clusterGetMaxEpoch c =
     rbind (for_each (\<lambda>e mx. rbind (getn c (Some (snd e))) (\<lambda>n.
       Inr (if n_configEpoch n > mx then n_configEpoch n else mx))) (nodes c) 0) (\<lambda>mx.
     Inr (if mx < currentEpoch c then currentEpoch c else mx))"

definition clusterBumpConfigEpochWithoutConsensus :: "cluster \<Rightarrow> (bool \<times> cluster) res" where
  "clusterBumpConfigEpochWithoutConsensus c =
     rbind (clusterGetMaxEpoch c) (\<lambda>maxEpoch.
     rbind (getn c (Some (myself c))) (\<lambda>me.
     if n_configEpoch me = 0 \<or> n_configEpoch me \<noteq> maxEpoch then
       let c = c\<lparr>currentEpoch := currentEpoch c + 1\<rparr>
       in rbind (updn c (Some (myself c)) (n_configEpoch_update (\<lambda>_. currentEpoch c))) (\<lambda>c.
          Inr (True, clusterDoBeforeSleep (CLUSTER_TODO_SAVE_CONFIG OR CLUSTER_TODO_FSYNC_CONFIG) c))
     else Inr (False, c)))"

definition clusterHandleConfigEpochCollision :: "cluster \<Rightarrow> ptr \<Rightarrow> cluster res" where
  "clusterHandleConfigEpochCollision c sender =
     rbind (getn c (Some sender)) (\<lambda>s.
     rbind (getn c (Some (myself c))) (\<lambda>me.
     if n_configEpoch s \<noteq> n_configEpoch me \<or> \<not> nodeIsMaster s \<or> \<not> nodeIsMaster me then Inr c
     else if memcmp (n_name s) (n_name me) \<le> 0 then Inr c
     else
       let c = c\<lparr>currentEpoch := currentEpoch c + 1\<rparr>
       in rbind (updn c (Some (myself c)) (n_configEpoch_update (\<lambda>_. currentEpoch c))) (\<lambda>c.
          Inr (perform (SaveConfig True) c))))"

section \<open>Failure detection\<close>

definition markNodeAsFailingIfNeeded :: "cluster \<Rightarrow> ptr \<Rightarrow> cluster res" where
  "markNodeAsFailingIfNeeded c p =
     (let needed_quorum = csize c div 2 + 1 in
      rbind (getn c (Some p)) (\<lambda>n.
      if \<not> nodeTimedOut n then Inr c
      else if nodeFailed n then Inr c
      else
        rbind (clusterNodeFailureReportsCount c p) (\<lambda>(failures, c).
        rbind (getn c (Some (myself c))) (\<lambda>me.
        let failures = (if nodeIsMaster me then failures + 1 else failures)
        in if failures < needed_quorum then Inr c
           else
             let (now, c) = mstime c
             in rbind (updn c (Some p) (\<lambda>n.
                  (set_flags REDIS_NODE_FAIL (clear_flags REDIS_NODE_PFAIL n))\<lparr>n_fail_time := now\<rparr>)) (\<lambda>c.
                rbind (getn c (Some p)) (\<lambda>n.
                let c = (if nodeIsMaster me then perform (SendFail (n_name n)) c else c)
                in Inr (clusterDoBeforeSleep (CLUSTER_TODO_UPDATE_STATE OR CLUSTER_TODO_SAVE_CONFIG) c)))))))"

definition clearNodeFailureIfNeeded :: "cluster \<Rightarrow> ptr \<Rightarrow> cluster res" where
  "clearNodeFailureIfNeeded c p =
     (let (now, c) = mstime c in
      rbind (getn c (Some p)) (\<lambda>n.
      if \<not> nodeFailed n then Inl AssertFailed
      else
        rbind (if nodeIsSlave n \<or> n_numslots n = 0
               then rbind (updn c (Some p) (clear_flags REDIS_NODE_FAIL)) (\<lambda>c.
                 Inr (clusterDoBeforeSleep (CLUSTER_TODO_UPDATE_STATE OR CLUSTER_TODO_SAVE_CONFIG) c))
               else Inr c) (\<lambda>c.
        rbind (getn c (Some p)) (\<lambda>n.
        if nodeIsMaster n \<and> n_numslots n > 0 \<and>
           now - n_fail_time n > cluster_node_timeout (env c) * REDIS_CLUSTER_FAIL_UNDO_TIME_MULT
        then rbind (updn c (Some p) (clear_flags REDIS_NODE_FAIL)) (\<lambda>c.
          Inr (clusterDoBeforeSleep (CLUSTER_TODO_UPDATE_STATE OR CLUSTER_TODO_SAVE_CONFIG) c))
        else Inr c))))"

section \<open>Roles\<close>

definition clusterSetNodeAsMaster :: "cluster \<Rightarrow> ptr \<Rightarrow> cluster res" where
  "clusterSetNodeAsMaster c p =
     rbind (getn c (Some p)) (\<lambda>n.
     if nodeIsMaster n then Inr c
     else
       rbind (if n_slaveof n \<noteq> None then
                rbind (clusterNodeRemoveSlave c (n_slaveof n) p) (\<lambda>(_, c).
                if p \<noteq> myself c then updn c (Some p) (set_flags REDIS_NODE_MIGRATE_TO) else Inr c)
              else Inr c) (\<lambda>c.
       rbind (updn c (Some p) (\<lambda>n.
         (set_flags REDIS_NODE_MASTER (clear_flags REDIS_NODE_SLAVE n))\<lparr>n_slaveof := None\<rparr>)) (\<lambda>c.
       Inr (clusterDoBeforeSleep (CLUSTER_TODO_SAVE_CONFIG OR CLUSTER_TODO_UPDATE_STATE) c))))"

definition resetManualFailover :: "cluster \<Rightarrow> cluster" where
  "resetManualFailover c =
     (let c = (if mf_end c \<noteq> 0 \<and> clients_paused (env c) then perform UnpauseClients c else c)
      in c\<lparr>mf_end := 0, mf_can_start := False, mf_slave := None, mf_master_offset := 0\<rparr>)"

definition manualFailoverCheckTimeout :: "cluster \<Rightarrow> cluster" where
  "manualFailoverCheckTimeout c =
     (if mf_end c \<noteq> 0 then
        let (now, c) = mstime c in if mf_end c < now then resetManualFailover c else c
      else c)"

definition clusterHandleManualFailover :: "cluster \<Rightarrow> cluster" where
  "clusterHandleManualFailover c =
     (if mf_end c = 0 then c
      else if mf_can_start c then c
      else if mf_master_offset c = 0 then c
      else if mf_master_offset c = slave_offset (env c) then c\<lparr>mf_can_start := True\<rparr>
      else c)"

definition clusterSetMaster :: "cluster \<Rightarrow> ptr \<Rightarrow> cluster res" where
  "clusterSetMaster c p =
     (if p = myself c then Inl AssertFailed
      else
        rbind (getn c (Some (myself c))) (\<lambda>me.
        if n_numslots me \<noteq> 0 then Inl AssertFailed
        else
          rbind (if nodeIsMaster me then
                   rbind (updn c (Some (myself c)) (\<lambda>n. set_flags REDIS_NODE_SLAVE
                     (clear_flags (REDIS_NODE_MASTER OR REDIS_NODE_MIGRATE_TO) n))) (\<lambda>c.
                   Inr (clusterCloseAllSlots c))
                 else if n_slaveof me \<noteq> None
                   then rbind (clusterNodeRemoveSlave c (n_slaveof me) (myself c)) (\<lambda>(_, c). Inr c)
                 else Inr c) (\<lambda>c.
          rbind (updn c (Some (myself c)) (n_slaveof_update (\<lambda>_. Some p))) (\<lambda>c.
          rbind (clusterNodeAddSlave c (Some p) (myself c)) (\<lambda>(_, c).
          Inr (resetManualFailover (perform (SetReplicationMaster p) c)))))))"

section \<open>Claims of slots\<close>

text \<open>
  The body of the loop over the slots: \<open>newmaster\<close> and the dirty slots are
  carried along.  \<open>slot_lower\<close> tests that the slot is unassigned or owned by a
  node with a smaller epoch.
\<close>

definition slot_lower :: "cluster \<Rightarrow> ptr option \<Rightarrow> u64 \<Rightarrow> bool res" where
  "slot_lower c s epoch =
     (if s = None then Inr True else rbind (getn c s) (\<lambda>n. Inr (n_configEpoch n < epoch)))"

definition update_slot ::
  "ptr \<Rightarrow> u64 \<Rightarrow> u8 list \<Rightarrow> ptr option \<Rightarrow> nat \<Rightarrow> ptr option \<times> nat list \<times> cluster \<Rightarrow>
    (ptr option \<times> nat list \<times> cluster) res" where
  "update_slot sender epoch claimed curmaster j = (\<lambda>(newmaster, dirty, c).
     rbind (bitmapTestBit claimed j) (\<lambda>b.
     if \<not> b then Inr (newmaster, dirty, c)
     else
       rbind (rd (slots c) j) (\<lambda>s.
       if s = Some sender then Inr (newmaster, dirty, c)
       else
         rbind (rd (importing_slots_from c) j) (\<lambda>i.
         if i \<noteq> None then Inr (newmaster, dirty, c)
         else
           rbind (slot_lower c s epoch) (\<lambda>lower.
           if \<not> lower then Inr (newmaster, dirty, c)
           else
             let dirty = (if s = Some (myself c) \<and> countKeysInSlot (env c) j \<noteq> 0 \<and> sender \<noteq> myself c
                          then dirty @ [j] else dirty);
                 newmaster = (if s = curmaster then Some sender else newmaster)
             in rbind (clusterDelSlot c j) (\<lambda>(_, c).
                rbind (clusterAddSlot c (Some sender) j) (\<lambda>(_, c).
                Inr (newmaster, dirty, clusterDoBeforeSleep
                  (CLUSTER_TODO_SAVE_CONFIG OR CLUSTER_TODO_UPDATE_STATE OR CLUSTER_TODO_FSYNC_CONFIG) c))))))))"

definition clusterUpdateSlotsConfigWith :: "cluster \<Rightarrow> ptr \<Rightarrow> u64 \<Rightarrow> u8 list \<Rightarrow> cluster res" where
  "clusterUpdateSlotsConfigWith c sender senderConfigEpoch claimed =
     rbind (getn c (Some (myself c))) (\<lambda>me.
     let curmaster = (if nodeIsMaster me then Some (myself c) else n_slaveof me)
     in if sender = myself c then Inr c
        else
          rbind (for_each (update_slot sender senderConfigEpoch claimed curmaster) [0..<REDIS_CLUSTER_SLOTS]
            (None, [], c)) (\<lambda>(newmaster, dirty, c).
          rbind (if newmaster \<noteq> None then rbind (getn c curmaster) (\<lambda>m. Inr (n_numslots m = 0)) else Inr False)
            (\<lambda>demoted.
          if demoted then
            rbind (clusterSetMaster c sender) (\<lambda>c.
            Inr (clusterDoBeforeSleep
              (CLUSTER_TODO_SAVE_CONFIG OR CLUSTER_TODO_UPDATE_STATE OR CLUSTER_TODO_FSYNC_CONFIG) c))
          else Inr (c\<lparr>effects := effects c @ map DelKeysInSlot dirty\<rparr>))))"

section \<open>Votes\<close>

record auth_request =
  r_currentEpoch :: u64
  r_configEpoch :: u64
  r_slots :: "u8 list"
  r_force_ack :: bool

definition clusterSendFailoverAuth :: "cluster \<Rightarrow> ptr \<Rightarrow> cluster res" where
  "clusterSendFailoverAuth c p =
     rbind (getn c (Some p)) (\<lambda>n. Inr (if n_link n \<noteq> None then perform (SendFailoverAuth (n_name n) (currentEpoch c)) c else c))"

text \<open>The loop over the claimed slots: true when some of them has a greater epoch.\<close>

fun claim_outdated :: "cluster \<Rightarrow> auth_request \<Rightarrow> nat list \<Rightarrow> bool res" where
  "claim_outdated c request [] = Inr False"
| "claim_outdated c request (j # js) =
     rbind (bitmapTestBit (r_slots request) j) (\<lambda>b.
     if \<not> b then claim_outdated c request js
     else
       rbind (rd (slots c) j) (\<lambda>s.
       rbind (if s = None then Inr True
              else rbind (getn c s) (\<lambda>n. Inr (n_configEpoch n \<le> r_configEpoch request))) (\<lambda>fine.
       if fine then claim_outdated c request js else Inr True)))"

definition clusterSendFailoverAuthIfNeeded :: "cluster \<Rightarrow> ptr \<Rightarrow> auth_request \<Rightarrow> cluster res" where
  "clusterSendFailoverAuthIfNeeded c p request =
     rbind (getn c (Some p)) (\<lambda>n.
     let master = n_slaveof n in
     rbind (getn c (Some (myself c))) (\<lambda>me.
     if nodeIsSlave me \<or> n_numslots me = 0 then Inr c
     else if r_currentEpoch request < currentEpoch c then Inr c
     else if lastVoteEpoch c = currentEpoch c then Inr c
     else if nodeIsMaster n \<or> master = None then Inr c
     else
       rbind (getn c master) (\<lambda>m.
       if \<not> nodeFailed m \<and> \<not> r_force_ack request then Inr c
       else
         let (now, c) = mstime c
         in if now - n_voted_time m < cluster_node_timeout (env c) * 2 then Inr c
            else
              rbind (claim_outdated c request [0..<REDIS_CLUSTER_SLOTS]) (\<lambda>outdated.
              if outdated then Inr c
              else
                rbind (clusterSendFailoverAuth c p) (\<lambda>c.
                let c = c\<lparr>lastVoteEpoch := currentEpoch c\<rparr>;
                    (now, c) = mstime c
                in updn c master (n_voted_time_update (\<lambda>_. now)))))))"

section \<open>The state of the cluster\<close>

definition REDIS_CLUSTER_MAX_REJOIN_DELAY :: int where "REDIS_CLUSTER_MAX_REJOIN_DELAY = 5000"
definition REDIS_CLUSTER_MIN_REJOIN_DELAY :: int where "REDIS_CLUSTER_MIN_REJOIN_DELAY = 500"
definition REDIS_CLUSTER_WRITABLE_DELAY :: int where "REDIS_CLUSTER_WRITABLE_DELAY = 2000"

text \<open>The loop over the slots: true when one is unassigned or its owner failed.\<close>

fun slots_uncovered :: "cluster \<Rightarrow> nat list \<Rightarrow> bool res" where
  "slots_uncovered c [] = Inr False"
| "slots_uncovered c (j # js) =
     rbind (rd (slots c) j) (\<lambda>s.
     if s = None then Inr True
     else rbind (getn c s) (\<lambda>n. if nodeFailed n then Inr True else slots_uncovered c js))"

text \<open>The loop over the nodes: masters with slots, and the reachable ones among them.\<close>

definition count_masters :: "cluster \<Rightarrow> (int \<times> int) res" where
  "count_masters c =
     for_each (\<lambda>e (size, reachable). rbind (getn c (Some (snd e))) (\<lambda>n.
       Inr (if nodeIsMaster n \<and> n_numslots n \<noteq> 0
            then (size + 1, if \<not> nodeFailed n \<and> \<not> nodeTimedOut n then reachable + 1 else reachable)
            else (size, reachable)))) (nodes c) (0, 0)"

text \<open>The last part: the change of the state, delayed for a master that rejoins.\<close>

definition change_state :: "cluster \<Rightarrow> clusterNode \<Rightarrow> cstate \<Rightarrow> cluster" where
  "change_state c me new_state =
     (if new_state \<noteq> cstate c then
        let rejoin_delay = cluster_node_timeout (env c);
            rejoin_delay = (if rejoin_delay > REDIS_CLUSTER_MAX_REJOIN_DELAY then REDIS_CLUSTER_MAX_REJOIN_DELAY else rejoin_delay);
            rejoin_delay = (if rejoin_delay < REDIS_CLUSTER_MIN_REJOIN_DELAY then REDIS_CLUSTER_MIN_REJOIN_DELAY else rejoin_delay)
        in if new_state = ClusterOk \<and> nodeIsMaster me then
             let (now, c) = mstime c
             in if now - among_minority_time c < rejoin_delay then c else c\<lparr>cstate := new_state\<rparr>
           else c\<lparr>cstate := new_state\<rparr>
      else c)"

definition clusterUpdateState :: "cluster \<Rightarrow> cluster res" where
  "clusterUpdateState c =
     (let c = c\<lparr>todo_before_sleep := todo_before_sleep c AND NOT CLUSTER_TODO_UPDATE_STATE\<rparr>;
          c = (if first_call_time c = 0 then let (now, c) = mstime c in c\<lparr>first_call_time := now\<rparr> else c)
      in rbind (getn c (Some (myself c))) (\<lambda>me.
         let (wait, c) = (if nodeIsMaster me \<and> cstate c = ClusterFail
                          then let (now, c) = mstime c in (now - first_call_time c < REDIS_CLUSTER_WRITABLE_DELAY, c)
                          else (False, c))
         in if wait then Inr c
            else
              rbind (if cluster_require_full_coverage (env c)
                     then slots_uncovered c [0..<REDIS_CLUSTER_SLOTS] else Inr False) (\<lambda>uncovered.
              rbind (count_masters c) (\<lambda>(size, reachable_masters).
              let new_state = (if uncovered then ClusterFail else ClusterOk);
                  c = c\<lparr>csize := size\<rparr>;
                  (new_state, c) = (if reachable_masters < size div 2 + 1
                    then let (now, c) = mstime c in (ClusterFail, c\<lparr>among_minority_time := now\<rparr>)
                    else (new_state, c))
              in Inr (change_state c me new_state)))))"

section \<open>The slot invariant\<close>

text \<open>What gives the node a new epoch.\<close>

definition epoch_bumped :: "cluster \<Rightarrow> cluster \<Rightarrow> bool" where
  "epoch_bumped c c' \<longleftrightarrow> core_view c' = core_view (c\<lparr>currentEpoch := currentEpoch c + 1\<rparr>)"

lemma bumpEpoch_view:
  "clusterBumpConfigEpochWithoutConsensus c = Inr (b, c') \<Longrightarrow> if b then epoch_bumped c c' else c' = c"
  by (auto simp: clusterBumpConfigEpochWithoutConsensus_def epoch_bumped_def Let_def split: if_splits dest!: updn_view)

lemma collision_view:
  "clusterHandleConfigEpochCollision c p = Inr c' \<Longrightarrow> epoch_bumped c c' \<or> c' = c"
  by (auto simp: clusterHandleConfigEpochCollision_def epoch_bumped_def Let_def split: if_splits dest!: updn_view)

lemma markFailing_view: "markNodeAsFailingIfNeeded c p = Inr c' \<Longrightarrow> core_view c' = core_view c"
  by (auto simp: markNodeAsFailingIfNeeded_def Let_def mstime_def split: if_splits dest!: updn_view reportsCount_view)

lemma clearFailure_view: "clearNodeFailureIfNeeded c p = Inr c' \<Longrightarrow> core_view c' = core_view c"
  by (auto simp: clearNodeFailureIfNeeded_def Let_def mstime_def split: if_splits dest!: updn_view)

lemma setNodeAsMaster_view: "clusterSetNodeAsMaster c p = Inr c' \<Longrightarrow> core_view c' = core_view c"
  by (auto simp: clusterSetNodeAsMaster_def split: if_splits dest!: updn_view removeSlave_view)

lemma resetManualFailover_view [simp]: "core_view (resetManualFailover c) = core_view c"
  by (simp add: resetManualFailover_def Let_def)

lemma setMaster_view: "clusterSetMaster c p = Inr c' \<Longrightarrow> core_view c' = core_view c"
  by (auto simp: clusterSetMaster_def split: if_splits dest!: updn_view removeSlave_view addSlave_view)

lemma sendAuth_view:
  "clusterSendFailoverAuth c p = Inr c' \<Longrightarrow> slot_view c' = slot_view c \<and> currentEpoch c' = currentEpoch c \<and>
     myself c' = myself c \<and> (votes c' = votes c \<or> (\<exists>s. votes c' = votes c @ [(currentEpoch c, s)]))"
  by (auto simp: clusterSendFailoverAuth_def slot_view_def split: if_splits) (simp_all add: perform_def)

text \<open>A vote is recorded in \<open>lastVoteEpoch\<close>.\<close>

definition vote_granted :: "cluster \<Rightarrow> cluster \<Rightarrow> bool" where
  "vote_granted c c' \<longleftrightarrow> slot_view c' = slot_view c \<and> currentEpoch c' = currentEpoch c \<and> myself c' = myself c \<and>
     lastVoteEpoch c \<noteq> currentEpoch c \<and> lastVoteEpoch c' = currentEpoch c \<and>
     (votes c' = votes c \<or> (\<exists>s. votes c' = votes c @ [(currentEpoch c, s)]))"

lemma grant_view:
  assumes "clusterSendFailoverAuth c1 p = Inr d" and "core_view c1 = core_view c" and "lastVoteEpoch c1 \<noteq> currentEpoch c1"
    and "updn (d\<lparr>lastVoteEpoch := currentEpoch d, ticks := k\<rparr>) m (n_voted_time_update f) = Inr c'"
  shows "vote_granted c c'"
proof -
  have "core_view c' = core_view (d\<lparr>lastVoteEpoch := currentEpoch d\<rparr>)"
    using updn_view [OF assms(4)] by simp
  then show ?thesis using sendAuth_view [OF assms(1)] assms(2,3)
    by (simp add: vote_granted_def core_view_def votes_def slot_view_def)
qed

lemma authIfNeeded_view:
  assumes "clusterSendFailoverAuthIfNeeded c p r = Inr c'"
  shows "core_view c' = core_view c \<or> vote_granted c c'"
proof -
  have "post (\<lambda>c'. core_view c' = core_view c \<or> vote_granted c c') (clusterSendFailoverAuthIfNeeded c p r)"
    unfolding clusterSendFailoverAuthIfNeeded_def Let_def mstime_def prod.case
    by (intro post_rules postI; (simp; fail)?) (rule disjI2, rule grant_view, assumption, simp_all)
  then show ?thesis by (rule postD [OF _ assms])
qed

lemma change_state_view [simp]: "core_view (change_state c me s) = core_view c"
  by (simp add: change_state_def Let_def mstime_def)

lemma updateState_view:
  assumes "clusterUpdateState c = Inr c'"
  shows "core_view c' = core_view c"
proof -
  have "post (\<lambda>c'. core_view c' = core_view c) (clusterUpdateState c)"
    unfolding clusterUpdateState_def Let_def mstime_def
    by (intro post_rules) (auto split: if_splits)
  then show ?thesis by (rule postD [OF _ assms])
qed

end
