(* ===== verification/ClusterFailover.thy ===== *)
theory ClusterFailover
  imports ClusterEpoch
begin

text \<open>
  Elections as a slave runs them, the promotion of the winner, the migration of
  slaves to orphaned masters, the reset of a node and the check of the
  configuration against the data.
\<close>

section \<open>The code\<close>

definition clusterGetSlaveRank :: "cluster \<Rightarrow> int res" where
  "clusterGetSlaveRank c =
     rbind (getn c (Some (myself c))) (\<lambda>me.
     if \<not> nodeIsSlave me then Inl AssertFailed
     else if n_slaveof me = None then Inr 0
     else
       rbind (getn c (n_slaveof me)) (\<lambda>master.
       for_each (\<lambda>s rank. if s = myself c then Inr rank
         else rbind (getn c (Some s)) (\<lambda>n. Inr (if n_repl_offset n > slave_offset (env c) then rank + 1 else rank)))
       (n_slaves master) 0))"

definition clusterRequestFailoverAuth :: "cluster \<Rightarrow> cluster" where
  "clusterRequestFailoverAuth c = perform (RequestFailoverAuth (mf_end c \<noteq> 0)) c"

definition take_slot :: "ptr \<Rightarrow> nat \<Rightarrow> cluster \<Rightarrow> cluster res" where
  "take_slot oldmaster j c =
     rbind (clusterNodeGetSlotBit c (Some oldmaster) j) (\<lambda>b.
     if b then
       rbind (clusterDelSlot c j) (\<lambda>(_, c).
       rbind (clusterAddSlot c (Some (myself c)) j) (\<lambda>(_, c). Inr c))
     else Inr c)"

definition clusterFailoverReplaceYourMaster :: "cluster \<Rightarrow> cluster res" where
  "clusterFailoverReplaceYourMaster c =
     rbind (getn c (Some (myself c))) (\<lambda>me.
     case n_slaveof me of
       None \<Rightarrow> Inr c
     | Some oldmaster \<Rightarrow>
         if nodeIsMaster me then Inr c
         else
           rbind (clusterSetNodeAsMaster c (myself c)) (\<lambda>c.
           let c = perform UnsetReplicationMaster c in
           rbind (for_each (take_slot oldmaster) [0..<REDIS_CLUSTER_SLOTS] c) (\<lambda>c.
           rbind (clusterUpdateState c) (\<lambda>c.
           let c = perform (SaveConfig True) c;
               c = perform (BroadcastPong True) c
           in Inr (resetManualFailover c)))))"

text \<open>Parts of \<open>clusterHandleSlaveFailover\<close>: the age of the data, and the delay before the vote.\<close>

definition data_age :: "server_env \<Rightarrow> int" where
  "data_age e =
     (let age = (if repl_connected e then (unixtime e - master_lastinteraction e) * 1000
                 else (unixtime e - repl_down_since e) * 1000)
      in if age > cluster_node_timeout e then age - cluster_node_timeout e else age)"

definition data_too_old :: "server_env \<Rightarrow> bool" where
  "data_too_old e \<longleftrightarrow> cluster_slave_validity_factor e \<noteq> 0 \<and>
     data_age e > repl_ping_slave_period e * 1000 + cluster_node_timeout e * cluster_slave_validity_factor e"

definition schedule_election :: "int \<Rightarrow> cluster \<Rightarrow> cluster res" where
  "schedule_election random c =
     (let (now, c) = mstime c in
      rbind (clusterGetSlaveRank c) (\<lambda>rank.
      let c = c\<lparr>failover_auth_time := now + 500 + random mod 500, failover_auth_count := 0,
                failover_auth_sent := False, failover_auth_rank := rank\<rparr>;
          c = c\<lparr>failover_auth_time := failover_auth_time c + failover_auth_rank c * 1000\<rparr>;
          c = (if mf_end c \<noteq> 0
               then let (now, c) = mstime c in c\<lparr>failover_auth_time := now, failover_auth_rank := 0\<rparr>
               else c)
      in Inr (perform (BroadcastPong False) c)))"

definition update_rank :: "cluster \<Rightarrow> cluster res" where
  "update_rank c =
     (if \<not> failover_auth_sent c \<and> mf_end c = 0 then
        rbind (clusterGetSlaveRank c) (\<lambda>newrank.
        Inr (if newrank > failover_auth_rank c
             then c\<lparr>failover_auth_time := failover_auth_time c + (newrank - failover_auth_rank c) * 1000,
                    failover_auth_rank := newrank\<rparr>
             else c))
      else Inr c)"

definition start_election :: "cluster \<Rightarrow> cluster" where
  "start_election c =
     (let c = c\<lparr>currentEpoch := currentEpoch c + 1\<rparr>;
          c = c\<lparr>failover_auth_epoch := currentEpoch c\<rparr>;
          c = clusterRequestFailoverAuth c;
          c = c\<lparr>failover_auth_sent := True\<rparr>
      in clusterDoBeforeSleep (CLUSTER_TODO_SAVE_CONFIG OR CLUSTER_TODO_UPDATE_STATE OR CLUSTER_TODO_FSYNC_CONFIG) c)"

definition election_won :: "cluster \<Rightarrow> cluster res" where
  "election_won c =
     rbind (getn c (Some (myself c))) (\<lambda>me.
     rbind (if n_configEpoch me < failover_auth_epoch c
            then updn c (Some (myself c)) (n_configEpoch_update (\<lambda>_. failover_auth_epoch c)) else Inr c) (\<lambda>c.
     clusterFailoverReplaceYourMaster c))"

definition set_cant_failover :: "cant_failover \<Rightarrow> cluster \<Rightarrow> cluster" where
  "set_cant_failover r c = c\<lparr>cant_failover_reason := r\<rparr>"

definition clusterHandleSlaveFailover :: "int \<Rightarrow> cluster \<Rightarrow> cluster res" where
  "clusterHandleSlaveFailover random c =
     (let (now, c) = mstime c;
          auth_age = now - failover_auth_time c;
          needed_quorum = csize c div 2 + 1;
          manual_failover = mf_end c \<noteq> 0 \<and> mf_can_start c;
          c = c\<lparr>todo_before_sleep := todo_before_sleep c AND NOT CLUSTER_TODO_HANDLE_FAILOVER\<rparr>;
          auth_timeout = cluster_node_timeout (env c) * 2;
          auth_timeout = (if auth_timeout < 2000 then 2000 else auth_timeout);
          auth_retry_time = auth_timeout * 2
      in rbind (getn c (Some (myself c))) (\<lambda>me.
         rbind (if nodeIsMaster me \<or> n_slaveof me = None then Inr True
                else rbind (getn c (n_slaveof me)) (\<lambda>m.
                  Inr (\<not> nodeFailed m \<and> \<not> manual_failover \<or> n_numslots m = 0))) (\<lambda>no_reason.
         if no_reason then Inr (set_cant_failover CantNone c)
         else if data_too_old (env c) \<and> \<not> manual_failover then Inr (set_cant_failover CantDataAge c)
         else if auth_age > auth_retry_time then schedule_election random c
         else
           rbind (update_rank c) (\<lambda>c.
           let (now, c) = mstime c in
           if now < failover_auth_time c then Inr (set_cant_failover CantWaitingDelay c)
           else if auth_age > auth_timeout then Inr (set_cant_failover CantExpired c)
           else if \<not> failover_auth_sent c then Inr (start_election c)
           else if failover_auth_count c \<ge> needed_quorum then election_won c
           else Inr (set_cant_failover CantWaitingVotes c)))))"

text \<open>
  Slave migration: the loop over the nodes carries the target, the candidate
  and the state, in which the time of being orphaned is recorded.
\<close>

definition count_ok_slaves :: "cluster \<Rightarrow> ptr option \<Rightarrow> int res" where
  "count_ok_slaves c m =
     rbind (getn c m) (\<lambda>m.
     for_each (\<lambda>s k. rbind (getn c (Some s)) (\<lambda>s.
       Inr (if \<not> nodeFailed s \<and> \<not> nodeTimedOut s then k + 1 else k))) (n_slaves m) 0)"

definition migration_candidate :: "cluster \<Rightarrow> ptr list \<Rightarrow> ptr \<Rightarrow> ptr res" where
  "migration_candidate c sl candidate =
     for_each (\<lambda>s candidate.
       rbind (getn c (Some s)) (\<lambda>n.
       rbind (getn c (Some candidate)) (\<lambda>m.
       Inr (if memcmp (n_name n) (n_name m) < 0 then s else candidate)))) sl candidate"

definition migration_step ::
  "int \<Rightarrow> name \<times> ptr \<Rightarrow> ptr option \<times> ptr \<times> cluster \<Rightarrow> (ptr option \<times> ptr \<times> cluster) res" where
  "migration_step max_slaves e = (\<lambda>(target, candidate, c).
     let p = snd e in
     rbind (getn c (Some p)) (\<lambda>n.
     rbind (if nodeIsMaster n then clusterCountNonFailingSlaves c p else Inr 0) (\<lambda>okslaves.
     let is_orphaned = (\<not> (nodeIsSlave n \<or> nodeFailed n) \<and> n_flags n AND REDIS_NODE_MIGRATE_TO \<noteq> 0 \<and> \<not> okslaves > 0);
         target = (if is_orphaned \<and> target = None \<and> n_numslots n > 0 then Some p else target)
     in rbind (if is_orphaned then
                 (if n_orphaned_time n = 0
                  then let (now, c) = mstime c in updn c (Some p) (n_orphaned_time_update (\<lambda>_. now)) else Inr c)
               else updn c (Some p) (n_orphaned_time_update (\<lambda>_. 0))) (\<lambda>c.
        rbind (if okslaves = max_slaves then migration_candidate c (n_slaves n) candidate else Inr candidate) (\<lambda>candidate.
        Inr (target, candidate, c))))))"

definition clusterHandleSlaveMigration :: "cluster \<Rightarrow> int \<Rightarrow> cluster res" where
  "clusterHandleSlaveMigration c max_slaves =
     rbind (getn c (Some (myself c))) (\<lambda>me.
     if cstate c \<noteq> ClusterOk then Inr c
     else if n_slaveof me = None then Inr c
     else
       rbind (count_ok_slaves c (n_slaveof me)) (\<lambda>okslaves.
       if okslaves \<le> cluster_migration_barrier (env c) then Inr c
       else
         rbind (for_each (migration_step max_slaves) (nodes c) (None, myself c, c)) (\<lambda>(target, candidate, c).
         case target of
           None \<Rightarrow> Inr c
         | Some t \<Rightarrow>
             if candidate \<noteq> myself c then Inr c
             else
               let (now, c) = mstime c in
               rbind (getn c (Some t)) (\<lambda>n.
               if now - n_orphaned_time n > REDIS_CLUSTER_SLAVE_MIGRATION_DELAY then clusterSetMaster c t
               else Inr c))))"

definition clusterReset :: "name \<Rightarrow> cluster \<Rightarrow> bool \<Rightarrow> cluster res" where
  "clusterReset random_name c hard =
     rbind (getn c (Some (myself c))) (\<lambda>me.
     rbind (if nodeIsSlave me then rbind (clusterSetNodeAsMaster c (myself c)) (\<lambda>c.
              Inr (perform EmptyDb (perform UnsetReplicationMaster c)))
            else Inr c) (\<lambda>c.
     let c = resetManualFailover (clusterCloseAllSlots c) in
     rbind (for_each (\<lambda>j c. rbind (clusterDelSlot c j) (\<lambda>(_, c). Inr c)) [0..<REDIS_CLUSTER_SLOTS] c) (\<lambda>c.
     rbind (for_each (\<lambda>e c. if snd e = myself c then Inr c else clusterDelNode c (snd e)) (nodes c) c) (\<lambda>c.
     rbind (if hard then
              rbind (updn (c\<lparr>currentEpoch := 0, lastVoteEpoch := 0\<rparr>) (Some (myself c))
                (n_configEpoch_update (\<lambda>_. 0))) (\<lambda>c.
              rbind (getn c (Some (myself c))) (\<lambda>me.
              let c = c\<lparr>nodes := filter (\<lambda>e. fst e \<noteq> n_name me) (nodes c)\<rparr> in
              rbind (updn c (Some (myself c)) (n_name_update (\<lambda>_. random_name))) (\<lambda>c.
              rbind (clusterAddNode c (myself c)) (\<lambda>(_, c). Inr c))))
            else Inr c) (\<lambda>c.
     Inr (clusterDoBeforeSleep
       (CLUSTER_TODO_SAVE_CONFIG OR CLUSTER_TODO_UPDATE_STATE OR CLUSTER_TODO_FSYNC_CONFIG) c))))))"

definition verify_slot :: "nat \<Rightarrow> nat \<times> cluster \<Rightarrow> (nat \<times> cluster) res" where
  "verify_slot j = (\<lambda>(update_config, c).
     if countKeysInSlot (env c) j = 0 then Inr (update_config, c)
     else
       rbind (rd (slots c) j) (\<lambda>s.
       rbind (rd (importing_slots_from c) j) (\<lambda>i.
       if s = Some (myself c) \<or> i \<noteq> None then Inr (update_config, c)
       else if s = None then
         rbind (clusterAddSlot c (Some (myself c)) j) (\<lambda>(_, c). Inr (update_config + 1, c))
       else Inr (update_config + 1, c\<lparr>importing_slots_from := (importing_slots_from c)[j := s]\<rparr>))))"

definition verifyClusterConfigWithData :: "cluster \<Rightarrow> (bool \<times> cluster) res" where
  "verifyClusterConfigWithData c =
     rbind (getn c (Some (myself c))) (\<lambda>me.
     if nodeIsSlave me then Inr (True, c)
     else if \<not> other_dbs_empty (env c) then Inr (False, c)
     else
       rbind (for_each verify_slot [0..<REDIS_CLUSTER_SLOTS] (0, c)) (\<lambda>(update_config, c).
       Inr (True, if update_config \<noteq> 0 then perform (SaveConfig True) c else c)))"

section \<open>The slot invariant and the epochs\<close>

lemma bumped_slots: "epoch_bumped c c' \<Longrightarrow> slot_view c' = slot_view c"
  by (simp add: epoch_bumped_def core_view_def slot_view_def votes_def)

lemma schedule_view: "schedule_election r c = Inr c' \<Longrightarrow> core_view c' = core_view c"
  by (auto simp: schedule_election_def Let_def mstime_def)

lemma update_rank_view: "update_rank c = Inr c' \<Longrightarrow> core_view c' = core_view c"
  by (auto simp: update_rank_def split: if_splits)

lemma start_election_bumped: "epoch_bumped c (start_election c)"
  by (simp add: epoch_bumped_def start_election_def clusterRequestFailoverAuth_def Let_def)

lemma set_cant_failover_view [simp]: "core_view (set_cant_failover r c) = core_view c"
  by (simp add: set_cant_failover_def)

text \<open>A step that keeps the slot invariant, the epochs and the identity of the node.\<close>

definition slots_moved :: "cluster \<Rightarrow> cluster \<Rightarrow> bool" where
  "slots_moved c c' \<longleftrightarrow> (slots_ok c \<longrightarrow> slots_ok c') \<and>
     currentEpoch c' = currentEpoch c \<and> lastVoteEpoch c' = lastVoteEpoch c \<and> myself c' = myself c \<and>
     votes c' = votes c"

lemma moved_view: "core_view c' = core_view c \<Longrightarrow> slots_moved c c'"
  by (auto simp: slots_moved_def core_view_def dest: slots_ok_view)

lemma moved_trans: "slots_moved c d \<Longrightarrow> slots_moved d e \<Longrightarrow> slots_moved c e"
  by (simp add: slots_moved_def)

lemma moved_refl [simp]: "slots_moved c c"
  by (simp add: slots_moved_def)

lemma delSlot_erase: "clusterDelSlot c j = Inr (b, c') \<Longrightarrow> erase c' = erase c"
  by (auto simp: clusterDelSlot_def clusterNodeClearSlotBit_def rd_Inr_iff updn_Inr erase_def fun_eq_iff
      erase_node_def split: if_splits)

lemma addSlot_erase: "clusterAddSlot c (Some p) j = Inr (b, c') \<Longrightarrow> erase c' = erase c"
  by (auto simp: clusterAddSlot_def clusterNodeSetSlotBit_def rd_Inr_iff updn_Inr erase_def fun_eq_iff
      erase_node_def split: if_splits)

lemma erase_fields:
  assumes "erase c' = erase c"
  shows "currentEpoch c' = currentEpoch c" "lastVoteEpoch c' = lastVoteEpoch c" "myself c' = myself c" "env c' = env c"
    "nodes c' = nodes c" "importing_slots_from c' = importing_slots_from c" "mf_end c' = mf_end c"
    "effects c' = effects c" "clock c' = clock c" "ticks c' = ticks c" "cstate c' = cstate c"
    "votes c' = votes c"
proof -
  have "f (erase c') = f (erase c)" for f :: "cluster \<Rightarrow> 'z" using assms by simp
  note this [of currentEpoch] this [of lastVoteEpoch] this [of myself] this [of env] this [of nodes]
    this [of importing_slots_from] this [of mf_end] this [of effects] this [of clock] this [of ticks] this [of cstate]
  then show "currentEpoch c' = currentEpoch c" "lastVoteEpoch c' = lastVoteEpoch c" "myself c' = myself c" "env c' = env c"
    "nodes c' = nodes c" "importing_slots_from c' = importing_slots_from c" "mf_end c' = mf_end c"
    "effects c' = effects c" "clock c' = clock c" "ticks c' = ticks c" "cstate c' = cstate c"
    and "votes c' = votes c"
    by (simp_all add: erase_def votes_def)
qed

lemma delSlot_moved: "clusterDelSlot c j = Inr (b, c') \<Longrightarrow> j < REDIS_CLUSTER_SLOTS \<Longrightarrow> slots_moved c c'"
  using delSlot_ok(1) [of c j b c'] by (auto simp: slots_moved_def dest: delSlot_erase erase_fields)

lemma addSlot_moved: "clusterAddSlot c (Some p) j = Inr (b, c') \<Longrightarrow> j < REDIS_CLUSTER_SLOTS \<Longrightarrow> slots_moved c c'"
  using addSlot_ok(1) [of c p j b c'] by (auto simp: slots_moved_def dest: addSlot_erase erase_fields)

lemma for_each_moved:
  assumes "for_each f xs s = Inr s'" and "\<And>x s s'. x \<in> set xs \<Longrightarrow> f x s = Inr s' \<Longrightarrow> slots_moved (g s) (g s')"
  shows "slots_moved (g s) (g s')"
  by (rule for_each_inv [OF assms(1), of "\<lambda>x. slots_moved (g s) (g x)"]) (use assms(2) moved_trans in auto)

lemma take_slot_moved: "take_slot p j c = Inr c' \<Longrightarrow> j < REDIS_CLUSTER_SLOTS \<Longrightarrow> slots_moved c c'"
  by (auto simp: take_slot_def split: if_splits dest!: delSlot_moved addSlot_moved intro: moved_trans)

lemma replaceMaster_moved:
  assumes "clusterFailoverReplaceYourMaster c = Inr c'"
  shows "slots_moved c c'"
proof (cases "c' = c")
  case False
  then obtain p d1 d2 d3 where d: "clusterSetNodeAsMaster c (myself c) = Inr d1"
    "for_each (take_slot p) [0..<REDIS_CLUSTER_SLOTS] (perform UnsetReplicationMaster d1) = Inr d2"
    "clusterUpdateState d2 = Inr d3" "c' = resetManualFailover (perform (BroadcastPong True) (perform (SaveConfig True) d3))"
    using assms by (auto simp: clusterFailoverReplaceYourMaster_def Let_def split: option.splits if_splits)
  have "slots_moved c (perform UnsetReplicationMaster d1)"
    by (rule moved_view) (simp add: setNodeAsMaster_view [OF d(1)])
  moreover have "slots_moved (perform UnsetReplicationMaster d1) d2"
    using for_each_moved [OF d(2), of "\<lambda>c. c"] by (auto dest: take_slot_moved)
  moreover have "slots_moved d2 c'"
    by (rule moved_view) (simp add: d(4) updateState_view [OF d(3)])
  ultimately show ?thesis by (blast intro: moved_trans)
qed simp

lemma election_won_moved: "election_won c = Inr c' \<Longrightarrow> slots_moved c c'"
  by (auto simp: election_won_def split: if_splits
      dest!: replaceMaster_moved updn_view [THEN moved_view, of c "Some (myself c)"] intro: moved_trans)

lemma slaveFailover_steps:
  assumes "clusterHandleSlaveFailover r c = Inr c'"
  shows "slots_moved c c' \<or> epoch_bumped c c'"
proof -
  have e: "epoch_bumped d (start_election e)" if "core_view e = core_view d" for d e
  proof -
    have "core_view (e\<lparr>currentEpoch := currentEpoch e + 1\<rparr>) = core_view (d\<lparr>currentEpoch := currentEpoch d + 1\<rparr>)"
      using that by (simp add: core_view_def slot_view_def votes_def)
    then show ?thesis using start_election_bumped [of e] by (simp add: epoch_bumped_def)
  qed
  define stp where "stp x \<longleftrightarrow> slots_moved c x \<or> epoch_bumped c x" for x
  have a: "core_view d = core_view c \<Longrightarrow> stp d" for d by (simp add: stp_def moved_view)
  have st: "core_view d = core_view c \<Longrightarrow> stp (start_election d)" for d by (simp add: stp_def e)
  have sc: "core_view d = core_view c \<Longrightarrow> post stp (schedule_election r d)" for d
    by (rule postI) (metis a schedule_view)
  have w: "core_view d = core_view c \<Longrightarrow> post stp (election_won d)" for d
    by (rule postI) (auto simp: stp_def dest: election_won_moved moved_view intro: moved_trans)
  have "post stp (clusterHandleSlaveFailover r c)"
    unfolding clusterHandleSlaveFailover_def Let_def mstime_def
    by (intro post_rules) (auto intro!: a st sc w dest!: update_rank_view)
  then have "stp c'" by (rule postD [OF _ assms])
  then show ?thesis by (simp add: stp_def)
qed

lemma migration_step_view:
  assumes "migration_step m e (t, d, c) = Inr s'"
  shows "core_view (snd (snd s')) = core_view c"
proof -
  have "post (\<lambda>s'. core_view (snd (snd s')) = core_view c) (migration_step m e (t, d, c))"
    unfolding migration_step_def Let_def mstime_def prod.case
    by (intro post_rules) (auto split: if_splits dest!: updn_view)
  then show ?thesis by (rule postD [OF _ assms])
qed

lemma slaveMigration_view:
  assumes "clusterHandleSlaveMigration c k = Inr c'"
  shows "core_view c' = core_view c"
proof -
  have v: "core_view d = core_view c"
    if "for_each (migration_step k) (nodes c) (None, myself c, c) = Inr (t, a, d)" for t a d
    using for_each_inv [OF that, of "\<lambda>s. core_view (snd (snd s)) = core_view c"] migration_step_view
    by (metis prod.collapse snd_conv)
  have "post (\<lambda>c'. core_view c' = core_view c) (clusterHandleSlaveMigration c k)"
    unfolding clusterHandleSlaveMigration_def Let_def mstime_def
    by (intro post_rules) (auto dest!: v setMaster_view intro!: postI)
  then show ?thesis by (rule postD [OF _ assms])
qed

text \<open>A soft reset keeps the epochs; a hard one sets them to 0.\<close>

lemma freeNode_epochs:
  assumes "freeClusterNode c p = Inr c'"
  shows "currentEpoch c' = currentEpoch c \<and> lastVoteEpoch c' = lastVoteEpoch c \<and> myself c' = myself c \<and> votes c' = votes c"
  by (rule freeNode_shape [OF assms]) (simp add: core_view_def votes_def)

lemma delnode_slot_moved: "delnode_slot p j c = Inr c' \<Longrightarrow> j < REDIS_CLUSTER_SLOTS \<Longrightarrow> slots_moved c c'"
  by (auto simp: delnode_slot_def split: if_splits dest!: delSlot_moved delnode_close_view [THEN moved_view]
      intro: moved_trans)

lemma delNode_moved:
  assumes "clusterDelNode c p = Inr c'"
  shows "slots_moved c c'"
proof -
  obtain c1 c2 where c: "for_each (delnode_slot p) [0..<REDIS_CLUSTER_SLOTS] c = Inr c1"
    "for_each (\<lambda>e c. if snd e = p then Inr c
       else rbind (clusterNodeDelFailureReport c (snd e) p) (\<lambda>(_, c). Inr c)) (nodes c1) c1 = Inr c2"
    "freeClusterNode c2 p = Inr c'"
    using assms(1) unfolding clusterDelNode_def by auto
  have "slots_moved c c1"
    by (rule for_each_moved [OF c(1), of "\<lambda>c. c"]) (auto dest: delnode_slot_moved)
  moreover have "core_view c2 = core_view c1"
    by (rule for_each_view [OF c(2)]) (auto split: if_splits dest: delReport_view)
  ultimately show ?thesis
    using freeNode_epochs [OF c(3)] delNode_ok [OF assms] moved_view [of c2 c1] by (auto simp: slots_moved_def)
qed

lemma verify_slot_moved:
  assumes "verify_slot j (k, c) = Inr s'" and "j < REDIS_CLUSTER_SLOTS"
  shows "slots_moved c (snd s')"
proof -
  have "post (\<lambda>s'. slots_moved c (snd s')) (verify_slot j (k, c))"
    unfolding verify_slot_def prod.case
    by (intro post_rules) (auto dest: addSlot_moved [OF _ assms(2)] intro: moved_view)
  then show ?thesis by (rule postD [OF _ assms(1)])
qed

lemma verify_moved:
  assumes "verifyClusterConfigWithData c = Inr (b, c')"
  shows "slots_moved c c'"
proof -
  have m: "slots_moved c d" if "for_each verify_slot [0..<REDIS_CLUSTER_SLOTS] (0, c) = Inr (k, d)" for k d
    using for_each_moved [OF that, of snd] verify_slot_moved by force
  have "slots_moved c (perform (SaveConfig True) d)" if "slots_moved c d" for d
    by (rule moved_trans [OF that]) (simp add: moved_view)
  then have "post (\<lambda>r. slots_moved c (snd r)) (verifyClusterConfigWithData c)"
    unfolding verifyClusterConfigWithData_def
    by (intro post_rules) (auto dest: m)
  then show ?thesis using postD [OF _ assms] by fastforce
qed

end
