(* ===== verification/ClusterPacket.thy ===== *)
theory ClusterPacket
  imports ClusterFailover Util
begin

text \<open>
  The messages of the cluster bus and their processing: the checks of lengths,
  the epochs of the sender, handshakes, role changes, claims of slots, gossip,
  failure reports, votes and configuration updates.
\<close>

section \<open>Messages\<close>

definition REDIS_NODE_NULL_NAME :: name where "REDIS_NODE_NULL_NAME = replicate 40 0"
definition REDIS_CLUSTER_PORT_INCR :: int where "REDIS_CLUSTER_PORT_INCR = 10000"
definition CLUSTER_PROTO_VER :: u16 where "CLUSTER_PROTO_VER = 0"

record clusterMsgDataGossip =
  g_nodename :: name
  g_ip :: "u8 list"
  g_port :: u16
  g_flags :: u16

text \<open>The type of a message, with the data of the union that belongs to it.\<close>

datatype clusterMsgData =
    Ping "clusterMsgDataGossip list"
  | Pong "clusterMsgDataGossip list"
  | Meet "clusterMsgDataGossip list"
  | Fail name
  | Publish u32 u32
  | AuthRequest
  | AuthAck
  | Update u64 name "u8 list"
  | MfStart
  | Unknown

record clusterMsg =
  m_totlen :: u32
  m_ver :: u16
  m_count :: u16
  m_currentEpoch :: u64
  m_configEpoch :: u64
  m_offset :: int
  m_sender :: name
  m_myslots :: "u8 list"
  m_slaveof :: name
  m_port :: u16
  m_flags :: u16
  m_paused :: bool
  m_forceack :: bool
  m_data :: clusterMsgData

text \<open>
  What the system gives: a fresh address and a random name, the normal form of
  a valid address, the address of the peer and of the own end of the link;
  whether a connection can be made, the positions of the random keys of
  \<open>nodes\<close>, and \<open>random()\<close>.
\<close>

record host =
  alloc :: "cluster \<Rightarrow> ptr"
  random_name :: "cluster \<Rightarrow> name"
  norm_ip :: "u8 list \<Rightarrow> u8 list option"
  peer_ip :: "u8 list"
  sock_ip :: "u8 list option"
  connect_ok :: "cluster \<Rightarrow> ptr \<Rightarrow> bool"
  random_key :: "cluster \<Rightarrow> nat \<Rightarrow> nat"
  random_num :: "cluster \<Rightarrow> int"

text \<open>
  The sizes of the structures: \<open>sizeof(clusterMsg)-sizeof(union clusterMsgData)\<close>
  and those of the union's members.
\<close>

definition sizeof_header :: u32 where "sizeof_header = 2208"
definition sizeof_gossip :: u32 where "sizeof_gossip = 104"
definition sizeof_fail :: u32 where "sizeof_fail = 40"
definition sizeof_publish :: u32 where "sizeof_publish = 16"
definition sizeof_update :: u32 where "sizeof_update = 2096"

definition expected_len :: "clusterMsg \<Rightarrow> u32 option" where
  "expected_len hdr = (case m_data hdr of
     Ping _ \<Rightarrow> Some (sizeof_header + sizeof_gossip * ucast (m_count hdr))
   | Pong _ \<Rightarrow> Some (sizeof_header + sizeof_gossip * ucast (m_count hdr))
   | Meet _ \<Rightarrow> Some (sizeof_header + sizeof_gossip * ucast (m_count hdr))
   | Fail _ \<Rightarrow> Some (sizeof_header + sizeof_fail)
   | Publish channel_len message_len \<Rightarrow> Some (sizeof_header + (sizeof_publish - 8 + channel_len + message_len))
   | AuthRequest \<Rightarrow> Some sizeof_header
   | AuthAck \<Rightarrow> Some sizeof_header
   | MfStart \<Rightarrow> Some sizeof_header
   | Update _ _ _ \<Rightarrow> Some (sizeof_header + sizeof_update)
   | Unknown \<Rightarrow> None)"

definition packet_sane :: "clusterMsg \<Rightarrow> nat \<Rightarrow> bool" where
  "packet_sane hdr rcvlen \<longleftrightarrow>
     \<not> m_totlen hdr < 16 \<and> m_ver hdr = CLUSTER_PROTO_VER \<and> \<not> unat (m_totlen hdr) > rcvlen \<and>
     (case expected_len hdr of None \<Rightarrow> True | Some explen \<Rightarrow> m_totlen hdr = explen)"

section \<open>Handshakes and addresses\<close>

fun clusterHandshakeInProgress :: "cluster \<Rightarrow> u8 list \<Rightarrow> int \<Rightarrow> (name \<times> ptr) list \<Rightarrow> bool res" where
  "clusterHandshakeInProgress c ip port [] = Inr False"
| "clusterHandshakeInProgress c ip port (e # es) =
     rbind (getn c (Some (snd e))) (\<lambda>n.
     if nodeInHandshake n \<and> strcaseeq (n_ip n) ip \<and> n_port n = port then Inr True
     else clusterHandshakeInProgress c ip port es)"

text \<open>The result \<open>None\<close> is 1; otherwise it is 0, with the value of \<open>errno\<close>.\<close>

datatype errno = EINVAL | EAGAIN

definition clusterStartHandshake :: "host \<Rightarrow> cluster \<Rightarrow> u8 list \<Rightarrow> int \<Rightarrow> (errno option \<times> cluster) res" where
  "clusterStartHandshake h c ip port =
     (case norm_ip h ip of
        None \<Rightarrow> Inr (Some EINVAL, c)
      | Some nip \<Rightarrow>
          if port \<le> 0 \<or> port > 65535 - REDIS_CLUSTER_PORT_INCR then Inr (Some EINVAL, c)
          else
            rbind (clusterHandshakeInProgress c nip port (nodes c)) (\<lambda>b.
            if b then Inr (Some EAGAIN, c)
            else
              let a = alloc h c;
                  c = createClusterNode c a (random_name h c) None (REDIS_NODE_HANDSHAKE OR REDIS_NODE_MEET)
              in rbind (updn c (Some a) (\<lambda>n. n\<lparr>n_ip := nip, n_port := port\<rparr>)) (\<lambda>c.
                 rbind (clusterAddNode c a) (\<lambda>(_, c). Inr (None, c)))))"

definition freeClusterLink :: "cluster \<Rightarrow> ptr \<Rightarrow> cluster res" where
  "freeClusterLink c p = updn (perform (FreeLink p) c) (Some p) (n_link_update (\<lambda>_. None))"

text \<open>\<open>link == node->link\<close> holds when the link's node is the node.\<close>

definition nodeUpdateAddressIfNeeded :: "host \<Rightarrow> cluster \<Rightarrow> ptr \<Rightarrow> ptr option \<Rightarrow> int \<Rightarrow> (bool \<times> cluster) res" where
  "nodeUpdateAddressIfNeeded h c p lnode port =
     (if lnode = Some p then Inr (False, c)
      else
        rbind (getn c (Some p)) (\<lambda>n.
        if n_port n = port \<and> peer_ip h = n_ip n then Inr (False, c)
        else
          rbind (updn c (Some p) (\<lambda>n. n\<lparr>n_ip := peer_ip h, n_port := port\<rparr>)) (\<lambda>c.
          rbind (if n_link n \<noteq> None then freeClusterLink c p else Inr c) (\<lambda>c.
          rbind (updn c (Some p) (clear_flags REDIS_NODE_NOADDR)) (\<lambda>c.
          rbind (getn c (Some (myself c))) (\<lambda>me.
          Inr (True, if nodeIsSlave me \<and> n_slaveof me = Some p then perform (SetReplicationMaster p) c else c)))))))"

section \<open>Gossip\<close>

definition gossip_known :: "cluster \<Rightarrow> ptr option \<Rightarrow> ptr \<Rightarrow> u16 \<Rightarrow> cluster res" where
  "gossip_known c sender p flags =
     (case sender of
        None \<Rightarrow> Inr c
      | Some s \<Rightarrow>
          rbind (getn c (Some s)) (\<lambda>n.
          if nodeIsMaster n \<and> p \<noteq> myself c then
            if ucast flags AND (REDIS_NODE_FAIL OR REDIS_NODE_PFAIL) \<noteq> 0 then
              rbind (clusterNodeAddFailureReport c p s) (\<lambda>(_, c). markNodeAsFailingIfNeeded c p)
            else rbind (clusterNodeDelFailureReport c p s) (\<lambda>(_, c). Inr c)
          else Inr c))"

definition gossip_step :: "host \<Rightarrow> ptr option \<Rightarrow> clusterMsgDataGossip \<Rightarrow> cluster \<Rightarrow> cluster res" where
  "gossip_step h sender g c =
     (case clusterLookupNode c (g_nodename g) of
        Some p \<Rightarrow>
          rbind (gossip_known c sender p (g_flags g)) (\<lambda>c.
          rbind (getn c (Some p)) (\<lambda>n.
          if n_flags n AND (REDIS_NODE_FAIL OR REDIS_NODE_PFAIL) \<noteq> 0 \<and>
             (\<not> strcaseeq (n_ip n) (g_ip g) \<or> n_port n \<noteq> int (unat (g_port g)))
          then rbind (clusterStartHandshake h c (g_ip g) (int (unat (g_port g)))) (\<lambda>(_, c). Inr c)
          else Inr c))
      | None \<Rightarrow>
          if sender \<noteq> None \<and> ucast (g_flags g) AND REDIS_NODE_NOADDR = 0 then
            (case clusterBlacklistExists c (g_nodename g) of (b, c) \<Rightarrow>
               if b then Inr c
               else rbind (clusterStartHandshake h c (g_ip g) (int (unat (g_port g)))) (\<lambda>(_, c). Inr c))
          else Inr c)"

definition clusterProcessGossipSection ::
  "host \<Rightarrow> cluster \<Rightarrow> clusterMsg \<Rightarrow> clusterMsgDataGossip list \<Rightarrow> ptr option \<Rightarrow> cluster res" where
  "clusterProcessGossipSection h c hdr gs lnode =
     (let sender = (if lnode \<noteq> None then lnode else clusterLookupNode c (m_sender hdr))
      in for_each (gossip_step h sender) gs c)"

section \<open>Parts of \<open>clusterProcessPacket\<close>\<close>

text \<open>The epochs and the offset of a known sender.\<close>

definition packet_epochs :: "cluster \<Rightarrow> ptr \<Rightarrow> clusterMsg \<Rightarrow> cluster res" where
  "packet_epochs c sender hdr =
     (let c = (if m_currentEpoch hdr > currentEpoch c then c\<lparr>currentEpoch := m_currentEpoch hdr\<rparr> else c)
      in rbind (getn c (Some sender)) (\<lambda>s.
         rbind (if m_configEpoch hdr > n_configEpoch s
                then rbind (updn c (Some sender) (n_configEpoch_update (\<lambda>_. m_configEpoch hdr))) (\<lambda>c.
                  Inr (clusterDoBeforeSleep (CLUSTER_TODO_SAVE_CONFIG OR CLUSTER_TODO_FSYNC_CONFIG) c))
                else Inr c) (\<lambda>c.
         let (now, c) = mstime c in
         rbind (updn c (Some sender) (\<lambda>n. n\<lparr>n_repl_offset := m_offset hdr, n_repl_offset_time := now\<rparr>)) (\<lambda>c.
         rbind (getn c (Some (myself c))) (\<lambda>me.
         Inr (if mf_end c \<noteq> 0 \<and> nodeIsSlave me \<and> n_slaveof me = Some sender \<and> m_paused hdr \<and> mf_master_offset c = 0
              then c\<lparr>mf_master_offset := m_offset hdr\<rparr> else c))))))"

text \<open>The first part for \<open>PING\<close> and \<open>MEET\<close>: the own address, a new node, the answer.\<close>

definition packet_ping ::
  "host \<Rightarrow> cluster \<Rightarrow> ptr option \<Rightarrow> ptr option \<Rightarrow> clusterMsg \<Rightarrow> bool \<Rightarrow> clusterMsgDataGossip list \<Rightarrow> cluster res" where
  "packet_ping h c sender lnode hdr meet gs =
     rbind (getn c (Some (myself c))) (\<lambda>me.
     rbind (case sock_ip h of
              Some ip \<Rightarrow>
                if (meet \<or> n_ip me = []) \<and> ip \<noteq> n_ip me
                then rbind (updn c (Some (myself c)) (n_ip_update (\<lambda>_. ip))) (\<lambda>c.
                  Inr (clusterDoBeforeSleep CLUSTER_TODO_SAVE_CONFIG c))
                else Inr c
            | None \<Rightarrow> Inr c) (\<lambda>c.
     rbind (if sender = None \<and> meet
            then
              let a = alloc h c;
                  c = createClusterNode c a (random_name h c) None REDIS_NODE_HANDSHAKE
              in rbind (updn c (Some a) (\<lambda>n. n\<lparr>n_ip := peer_ip h, n_port := int (unat (m_port hdr))\<rparr>)) (\<lambda>c.
                 rbind (clusterAddNode c a) (\<lambda>(_, c).
                 clusterProcessGossipSection h (clusterDoBeforeSleep CLUSTER_TODO_SAVE_CONFIG c) hdr gs lnode))
            else Inr c) (\<lambda>c.
     Inr (perform SendPong c))))"

text \<open>The link's node: the end of a handshake, or an unexpected name. \<open>Inl\<close> of the sum: return 0.\<close>

definition packet_link ::
  "host \<Rightarrow> cluster \<Rightarrow> ptr option \<Rightarrow> ptr option \<Rightarrow> clusterMsg \<Rightarrow> (bool \<times> cluster) res" where
  "packet_link h c sender lnode hdr =
     (case lnode of
        None \<Rightarrow> Inr (True, c)
      | Some l \<Rightarrow>
          rbind (getn c (Some l)) (\<lambda>n.
          if nodeInHandshake n then
            (case sender of
               Some s \<Rightarrow>
                 rbind (nodeUpdateAddressIfNeeded h c s lnode (int (unat (m_port hdr)))) (\<lambda>(b, c).
                 let c = (if b then clusterDoBeforeSleep (CLUSTER_TODO_SAVE_CONFIG OR CLUSTER_TODO_UPDATE_STATE) c else c)
                 in rbind (clusterDelNode c l) (\<lambda>c. Inr (False, c)))
             | None \<Rightarrow>
                 rbind (clusterRenameNode c l (m_sender hdr)) (\<lambda>c.
                 rbind (updn c (Some l) (\<lambda>n. set_flags (ucast (m_flags hdr) AND (REDIS_NODE_MASTER OR REDIS_NODE_SLAVE))
                   (clear_flags REDIS_NODE_HANDSHAKE n))) (\<lambda>c.
                 Inr (True, clusterDoBeforeSleep CLUSTER_TODO_SAVE_CONFIG c))))
          else if n_name n \<noteq> m_sender hdr then
            rbind (updn c (Some l) (\<lambda>n. (set_flags REDIS_NODE_NOADDR n)\<lparr>n_ip := [], n_port := 0\<rparr>)) (\<lambda>c.
            rbind (freeClusterLink c l) (\<lambda>c.
            Inr (False, clusterDoBeforeSleep CLUSTER_TODO_SAVE_CONFIG c)))
          else Inr (True, c)))"

text \<open>A \<open>PONG\<close> makes the node reachable again.\<close>

definition packet_pong :: "cluster \<Rightarrow> ptr \<Rightarrow> cluster res" where
  "packet_pong c l =
     (let (now, c) = mstime c in
      rbind (updn c (Some l) (\<lambda>n. n\<lparr>n_pong_received := now, n_ping_sent := 0\<rparr>)) (\<lambda>c.
      rbind (getn c (Some l)) (\<lambda>n.
      if nodeTimedOut n then
        rbind (updn c (Some l) (clear_flags REDIS_NODE_PFAIL)) (\<lambda>c.
        Inr (clusterDoBeforeSleep (CLUSTER_TODO_SAVE_CONFIG OR CLUSTER_TODO_UPDATE_STATE) c))
      else if nodeFailed n then clearNodeFailureIfNeeded c l
      else Inr c)))"

text \<open>The role of the sender: master, slave, or slave of another master.\<close>

definition master_to_slave :: "cluster \<Rightarrow> ptr \<Rightarrow> cluster res" where
  "master_to_slave c sender =
     rbind (clusterDelNodeSlots c (Some sender)) (\<lambda>(_, c).
     rbind (updn c (Some sender) (\<lambda>n. set_flags REDIS_NODE_SLAVE
       (clear_flags (REDIS_NODE_MASTER OR REDIS_NODE_MIGRATE_TO) n))) (\<lambda>c.
     rbind (getn c (Some sender)) (\<lambda>s.
     rbind (if n_slaves s \<noteq> [] then clusterNodeResetSlaves c sender else Inr c) (\<lambda>c.
     Inr (clusterDoBeforeSleep (CLUSTER_TODO_SAVE_CONFIG OR CLUSTER_TODO_UPDATE_STATE) c)))))"

definition packet_role :: "cluster \<Rightarrow> ptr \<Rightarrow> clusterMsg \<Rightarrow> cluster res" where
  "packet_role c sender hdr =
     (if m_slaveof hdr = REDIS_NODE_NULL_NAME then clusterSetNodeAsMaster c sender
      else
        let master = clusterLookupNode c (m_slaveof hdr) in
        rbind (getn c (Some sender)) (\<lambda>s.
        rbind (if nodeIsMaster s then master_to_slave c sender else Inr c) (\<lambda>c.
        rbind (getn c (Some sender)) (\<lambda>s.
        if master \<noteq> None \<and> n_slaveof s \<noteq> master then
          rbind (if n_slaveof s \<noteq> None
                 then rbind (clusterNodeRemoveSlave c (n_slaveof s) sender) (\<lambda>(_, c). Inr c) else Inr c) (\<lambda>c.
          rbind (clusterNodeAddSlave c master sender) (\<lambda>(_, c).
          rbind (updn c (Some sender) (n_slaveof_update (\<lambda>_. master))) (\<lambda>c.
          Inr (clusterDoBeforeSleep CLUSTER_TODO_SAVE_CONFIG c))))
        else Inr c))))"

text \<open>The first owner with a greater epoch of a slot the sender claims.\<close>

fun newer_owner :: "cluster \<Rightarrow> ptr \<Rightarrow> u64 \<Rightarrow> u8 list \<Rightarrow> nat list \<Rightarrow> ptr option res" where
  "newer_owner c sender epoch claimed [] = Inr None"
| "newer_owner c sender epoch claimed (j # js) =
     rbind (bitmapTestBit claimed j) (\<lambda>b.
     rbind (if b then rd (slots c) j else Inr None) (\<lambda>s.
     if s = Some sender \<or> s = None then newer_owner c sender epoch claimed js
     else rbind (getn c s) (\<lambda>n.
       if n_configEpoch n > epoch then Inr s else newer_owner c sender epoch claimed js)))"

definition packet_slots :: "cluster \<Rightarrow> ptr \<Rightarrow> clusterMsg \<Rightarrow> u64 \<Rightarrow> cluster res" where
  "packet_slots c sender hdr epoch =
     rbind (getn c (Some sender)) (\<lambda>s.
     let sender_master = (if nodeIsMaster s then Some sender else n_slaveof s) in
     rbind (if sender_master = None then Inr False
            else rbind (getn c sender_master) (\<lambda>m. Inr (n_slots m \<noteq> m_myslots hdr))) (\<lambda>dirty.
     rbind (if nodeIsMaster s \<and> dirty then clusterUpdateSlotsConfigWith c sender epoch (m_myslots hdr) else Inr c) (\<lambda>c.
     if dirty then
       rbind (newer_owner c sender epoch (m_myslots hdr) [0..<REDIS_CLUSTER_SLOTS]) (\<lambda>owner.
       rbind (getn c (Some sender)) (\<lambda>s.
       Inr (case owner of Some q \<Rightarrow> if n_link s \<noteq> None then perform (SendUpdate sender q) c else c | None \<Rightarrow> c)))
     else Inr c)))"

definition packet_collision :: "cluster \<Rightarrow> ptr \<Rightarrow> u64 \<Rightarrow> cluster res" where
  "packet_collision c sender epoch =
     rbind (getn c (Some (myself c))) (\<lambda>me.
     rbind (getn c (Some sender)) (\<lambda>s.
     if nodeIsMaster me \<and> nodeIsMaster s \<and> epoch = n_configEpoch me
     then clusterHandleConfigEpochCollision c sender else Inr c))"

text \<open>The address of a known sender of a \<open>PING\<close>, and what a known sender says of itself and of others.\<close>

definition packet_address ::
  "host \<Rightarrow> cluster \<Rightarrow> ptr option \<Rightarrow> ptr option \<Rightarrow> clusterMsg \<Rightarrow> bool \<Rightarrow> cluster res" where
  "packet_address h c sender lnode hdr ping =
     (case sender of
        Some s \<Rightarrow>
          rbind (getn c (Some s)) (\<lambda>n.
          if ping \<and> \<not> nodeInHandshake n then
            rbind (nodeUpdateAddressIfNeeded h c s lnode (int (unat (m_port hdr)))) (\<lambda>(b, c).
            Inr (if b then clusterDoBeforeSleep (CLUSTER_TODO_SAVE_CONFIG OR CLUSTER_TODO_UPDATE_STATE) c else c))
          else Inr c)
      | None \<Rightarrow> Inr c)"

definition packet_sender ::
  "host \<Rightarrow> cluster \<Rightarrow> ptr \<Rightarrow> ptr option \<Rightarrow> clusterMsg \<Rightarrow> u64 \<Rightarrow> clusterMsgDataGossip list \<Rightarrow> cluster res" where
  "packet_sender h c s lnode hdr epoch gs =
     rbind (packet_role c s hdr) (\<lambda>c.
     rbind (packet_slots c s hdr epoch) (\<lambda>c.
     rbind (packet_collision c s epoch) (\<lambda>c.
     clusterProcessGossipSection h c hdr gs lnode)))"

text \<open>\<open>PING\<close>, \<open>PONG\<close> and \<open>MEET\<close>; \<open>ping\<close> and \<open>pong\<close> tell them apart.\<close>

definition packet_config ::
  "host \<Rightarrow> cluster \<Rightarrow> ptr option \<Rightarrow> ptr option \<Rightarrow> clusterMsg \<Rightarrow> u64 \<Rightarrow> bool \<Rightarrow> bool \<Rightarrow> clusterMsgDataGossip list \<Rightarrow>
    (bool \<times> cluster) res" where
  "packet_config h c sender lnode hdr epoch ping pong gs =
     rbind (packet_link h c sender lnode hdr) (\<lambda>(go_on, c).
     if \<not> go_on then Inr (False, c)
     else
       rbind (packet_address h c sender lnode hdr ping) (\<lambda>c.
       rbind (case lnode of Some l \<Rightarrow> if pong then packet_pong c l else Inr c | None \<Rightarrow> Inr c) (\<lambda>c.
       rbind (case sender of None \<Rightarrow> Inr c | Some s \<Rightarrow> packet_sender h c s lnode hdr epoch gs) (\<lambda>c.
       Inr (True, c)))))"

definition packet_fail :: "cluster \<Rightarrow> name \<Rightarrow> cluster res" where
  "packet_fail c about =
     (case clusterLookupNode c about of
        None \<Rightarrow> Inr c
      | Some p \<Rightarrow>
          rbind (getn c (Some p)) (\<lambda>n.
          if n_flags n AND (REDIS_NODE_FAIL OR REDIS_NODE_MYSELF) = 0 then
            let (now, c) = mstime c in
            rbind (updn c (Some p) (\<lambda>n.
              clear_flags REDIS_NODE_PFAIL ((set_flags REDIS_NODE_FAIL n)\<lparr>n_fail_time := now\<rparr>))) (\<lambda>c.
            Inr (clusterDoBeforeSleep (CLUSTER_TODO_SAVE_CONFIG OR CLUSTER_TODO_UPDATE_STATE) c))
          else Inr c))"

definition packet_ack :: "cluster \<Rightarrow> ptr \<Rightarrow> u64 \<Rightarrow> cluster res" where
  "packet_ack c sender senderCurrentEpoch =
     rbind (getn c (Some sender)) (\<lambda>s.
     Inr (if nodeIsMaster s \<and> n_numslots s > 0 \<and> senderCurrentEpoch \<ge> failover_auth_epoch c
          then clusterDoBeforeSleep CLUSTER_TODO_HANDLE_FAILOVER
            (c\<lparr>failover_auth_count := failover_auth_count c + 1\<rparr>)
          else c))"

definition packet_mfstart :: "cluster \<Rightarrow> ptr \<Rightarrow> cluster res" where
  "packet_mfstart c sender =
     rbind (getn c (Some sender)) (\<lambda>s.
     if n_slaveof s \<noteq> Some (myself c) then Inr c
     else
       let c = resetManualFailover c;
           (now, c) = mstime c;
           c = c\<lparr>mf_end := now + REDIS_CLUSTER_MF_TIMEOUT, mf_slave := Some sender\<rparr>;
           (now, c) = mstime c
       in Inr (perform (PauseClients (now + REDIS_CLUSTER_MF_TIMEOUT * 2)) c))"

definition packet_update :: "cluster \<Rightarrow> u64 \<Rightarrow> name \<Rightarrow> u8 list \<Rightarrow> cluster res" where
  "packet_update c epoch nodename claimed =
     (case clusterLookupNode c nodename of
        None \<Rightarrow> Inr c
      | Some p \<Rightarrow>
          rbind (getn c (Some p)) (\<lambda>n.
          if n_configEpoch n \<ge> epoch then Inr c
          else
            rbind (if nodeIsSlave n then clusterSetNodeAsMaster c p else Inr c) (\<lambda>c.
            rbind (updn c (Some p) (n_configEpoch_update (\<lambda>_. epoch))) (\<lambda>c.
            let c = clusterDoBeforeSleep (CLUSTER_TODO_SAVE_CONFIG OR CLUSTER_TODO_FSYNC_CONFIG) c
            in clusterUpdateSlotsConfigWith c p epoch claimed))))"

section \<open>\<open>clusterProcessPacket\<close>\<close>

definition request_of :: "clusterMsg \<Rightarrow> auth_request" where
  "request_of hdr = \<lparr>r_currentEpoch = m_currentEpoch hdr, r_configEpoch = m_configEpoch hdr,
     r_slots = m_myslots hdr, r_force_ack = m_forceack hdr\<rparr>"

text \<open>The answer is \<open>False\<close> when the link has been freed; \<open>lnode\<close> is \<open>link->node\<close>.\<close>

definition clusterProcessPacket :: "host \<Rightarrow> cluster \<Rightarrow> ptr option \<Rightarrow> clusterMsg \<Rightarrow> nat \<Rightarrow> (bool \<times> cluster) res" where
  "clusterProcessPacket h c lnode hdr rcvlen =
     (if \<not> packet_sane hdr rcvlen then Inr (True, c)
      else
        let sender = clusterLookupNode c (m_sender hdr) in
        rbind (case sender of None \<Rightarrow> Inr False | Some s \<Rightarrow> rbind (getn c (Some s)) (\<lambda>n. Inr (\<not> nodeInHandshake n))) (\<lambda>known.
        let senderCurrentEpoch = (if known then m_currentEpoch hdr else 0);
            senderConfigEpoch = (if known then m_configEpoch hdr else 0) in
        rbind (if known then packet_epochs c (the sender) hdr else Inr c) (\<lambda>c.
        let ok = (\<lambda>r. rbind r (\<lambda>c. Inr (True, c))) in
        case m_data hdr of
          Ping gs \<Rightarrow> rbind (packet_ping h c sender lnode hdr False gs) (\<lambda>c.
            packet_config h c sender lnode hdr senderConfigEpoch True False gs)
        | Meet gs \<Rightarrow> rbind (packet_ping h c sender lnode hdr True gs) (\<lambda>c.
            packet_config h c sender lnode hdr senderConfigEpoch False False gs)
        | Pong gs \<Rightarrow> packet_config h c sender lnode hdr senderConfigEpoch False True gs
        | Fail about \<Rightarrow> ok (if sender \<noteq> None then packet_fail c about else Inr c)
        | AuthRequest \<Rightarrow> ok (case sender of None \<Rightarrow> Inr c | Some s \<Rightarrow> clusterSendFailoverAuthIfNeeded c s (request_of hdr))
        | AuthAck \<Rightarrow> ok (case sender of None \<Rightarrow> Inr c | Some s \<Rightarrow> packet_ack c s senderCurrentEpoch)
        | MfStart \<Rightarrow> ok (case sender of None \<Rightarrow> Inr c | Some s \<Rightarrow> packet_mfstart c s)
        | Update epoch nodename claimed \<Rightarrow>
            ok (if sender \<noteq> None then packet_update c epoch nodename claimed else Inr c)
        | Publish _ _ \<Rightarrow> Inr (True, c)
        | Unknown \<Rightarrow> Inr (True, c))))"

end
