(* ===== verification/ClusterMessage.thy ===== *)
theory ClusterMessage
  imports ClusterPacket
begin

text \<open>
  The messages a node sends: the header with its epochs, slots and role, and
  the gossip section of a \<open>PING\<close>, \<open>PONG\<close> or \<open>MEET\<close>.
\<close>

section \<open>The header\<close>

text \<open>
  \<open>clusterBuildMessageHdr\<close>: the parts that depend on the state.  \<open>server.port\<close>
  and the two replication offsets are arguments; the length is filled in later
  for the messages with a gossip section.
\<close>

definition header_master :: "cluster \<Rightarrow> clusterNode \<Rightarrow> ptr option" where
  "header_master c me = (if nodeIsSlave me \<and> n_slaveof me \<noteq> None then n_slaveof me else Some (myself c))"

definition clusterBuildMessageHdr :: "u16 \<Rightarrow> int \<Rightarrow> cluster \<Rightarrow> clusterMsgData \<Rightarrow> clusterMsg res" where
  "clusterBuildMessageHdr port master_repl_offset c data =
     rbind (getn c (Some (myself c))) (\<lambda>me.
     rbind (getn c (header_master c me)) (\<lambda>master.
     rbind (if n_slaveof me \<noteq> None then rbind (getn c (n_slaveof me)) (\<lambda>m. Inr (n_name m))
            else Inr REDIS_NODE_NULL_NAME) (\<lambda>slaveof.
     Inr \<lparr>m_totlen = (case data of Fail _ \<Rightarrow> sizeof_header + sizeof_fail
                      | Update _ _ _ \<Rightarrow> sizeof_header + sizeof_update | _ \<Rightarrow> 0),
          m_ver = CLUSTER_PROTO_VER, m_count = 0, m_currentEpoch = currentEpoch c,
          m_configEpoch = n_configEpoch master,
          m_offset = (if nodeIsSlave me then slave_offset (env c) else master_repl_offset),
          m_sender = n_name me, m_myslots = n_slots master, m_slaveof = slaveof, m_port = port,
          m_flags = ucast (n_flags me), m_paused = (nodeIsMaster me \<and> mf_end c \<noteq> 0),
          m_forceack = False, m_data = data\<rparr>)))"

text \<open>The messages without data: the sender sets the length.\<close>

definition set_totlen :: "u32 \<Rightarrow> clusterMsg \<Rightarrow> clusterMsg" where
  "set_totlen n hdr = hdr\<lparr>m_totlen := n\<rparr>"

definition auth_request_message :: "u16 \<Rightarrow> int \<Rightarrow> cluster \<Rightarrow> clusterMsg res" where
  "auth_request_message port off c =
     rbind (clusterBuildMessageHdr port off c AuthRequest) (\<lambda>hdr.
     Inr (set_totlen sizeof_header (if mf_end c \<noteq> 0 then hdr\<lparr>m_forceack := True\<rparr> else hdr)))"

definition auth_ack_message :: "u16 \<Rightarrow> int \<Rightarrow> cluster \<Rightarrow> clusterMsg res" where
  "auth_ack_message port off c =
     rbind (clusterBuildMessageHdr port off c AuthAck) (\<lambda>hdr. Inr (set_totlen sizeof_header hdr))"

definition mfstart_message :: "u16 \<Rightarrow> int \<Rightarrow> cluster \<Rightarrow> clusterMsg res" where
  "mfstart_message port off c =
     rbind (clusterBuildMessageHdr port off c MfStart) (\<lambda>hdr. Inr (set_totlen sizeof_header hdr))"

definition fail_message :: "u16 \<Rightarrow> int \<Rightarrow> cluster \<Rightarrow> name \<Rightarrow> clusterMsg res" where
  "fail_message port off c about = clusterBuildMessageHdr port off c (Fail about)"

definition update_message :: "u16 \<Rightarrow> int \<Rightarrow> cluster \<Rightarrow> ptr \<Rightarrow> clusterMsg res" where
  "update_message port off c p =
     rbind (getn c (Some p)) (\<lambda>n.
     clusterBuildMessageHdr port off c (Update (n_configEpoch n) (n_name n) (n_slots n)))"

section \<open>The gossip section\<close>

definition gossip_wanted :: "int \<Rightarrow> int \<times> int" where
  "gossip_wanted known =
     (let freshnodes = known - 2;
          wanted = known div 10;
          wanted = (if wanted < 3 then 3 else wanted);
          wanted = (if wanted > freshnodes then freshnodes else wanted)
      in (freshnodes, wanted))"

definition gossip_entry :: "clusterNode \<Rightarrow> clusterMsgDataGossip" where
  "gossip_entry n = \<lparr>g_nodename = n_name n, g_ip = n_ip n, g_port = word_of_int (n_port n), g_flags = ucast (n_flags n)\<rparr>"

text \<open>
  The loop; its first argument is \<open>maxiterations\<close>, \<open>random_key h c i\<close> the
  position of the key of the \<open>i\<close>-th call of \<open>dictGetRandomKey\<close>.
\<close>

fun gossip_loop ::
  "nat \<Rightarrow> host \<Rightarrow> cluster \<Rightarrow> nat \<Rightarrow> int \<Rightarrow> int \<Rightarrow> clusterMsgDataGossip list \<Rightarrow> clusterMsgDataGossip list res" where
  "gossip_loop 0 h c i wanted freshnodes gs = Inr gs"
| "gossip_loop (Suc maxiterations) h c i wanted freshnodes gs =
     (if \<not> (freshnodes > 0 \<and> int (length gs) < wanted) then Inr gs
      else
        rbind (rd (nodes c) (random_key h c i)) (\<lambda>e.
        if snd e = myself c then gossip_loop maxiterations h c (i + 1) wanted freshnodes gs
        else
          rbind (getn c (Some (snd e))) (\<lambda>n.
          if int maxiterations > wanted * 2 \<and> n_flags n AND (REDIS_NODE_PFAIL OR REDIS_NODE_FAIL) = 0
          then gossip_loop maxiterations h c (i + 1) wanted freshnodes gs
          else if n_flags n AND (REDIS_NODE_HANDSHAKE OR REDIS_NODE_NOADDR) \<noteq> 0 \<or> n_link n = None \<and> n_numslots n = 0
          then gossip_loop maxiterations h c (i + 1) wanted (freshnodes - 1) gs
          else if \<exists>g \<in> set gs. g_nodename g = n_name n
          then gossip_loop maxiterations h c (i + 1) wanted freshnodes gs
          else gossip_loop maxiterations h c (i + 1) wanted (freshnodes - 1) (gs @ [gossip_entry n]))))"

definition gossip_section :: "host \<Rightarrow> cluster \<Rightarrow> clusterMsgDataGossip list res" where
  "gossip_section h c =
     (case gossip_wanted (int (length (nodes c))) of (freshnodes, wanted) \<Rightarrow>
        gossip_loop (nat (wanted * 3)) h c 0 wanted freshnodes [])"

text \<open>
  \<open>clusterSendPing\<close> on the state: only the time of the last \<open>PING\<close> is set.
  \<open>ping_message\<close> is the message it sends; \<open>kind\<close> is \<open>Ping\<close>, \<open>Pong\<close> or \<open>Meet\<close>.
\<close>

definition clusterSendPing :: "cluster \<Rightarrow> ptr \<Rightarrow> bool \<Rightarrow> cluster res" where
  "clusterSendPing c p meet =
     rbind (if \<not> meet then let (now, c) = mstime c in updn c (Some p) (n_ping_sent_update (\<lambda>_. now)) else Inr c) (\<lambda>c.
     Inr (perform (SendPing p meet) c))"

definition ping_message ::
  "host \<Rightarrow> u16 \<Rightarrow> int \<Rightarrow> cluster \<Rightarrow> (clusterMsgDataGossip list \<Rightarrow> clusterMsgData) \<Rightarrow> clusterMsg res" where
  "ping_message h port off c kind =
     rbind (gossip_section h c) (\<lambda>gs.
     rbind (clusterBuildMessageHdr port off c (kind gs)) (\<lambda>hdr.
     Inr (set_totlen (sizeof_header + sizeof_gossip * of_nat (length gs)) (hdr\<lparr>m_count := of_nat (length gs)\<rparr>))))"

text \<open>The nodes a broadcast reaches: \<open>clusterBroadcastMessage\<close> and \<open>clusterBroadcastPong\<close>.\<close>

definition clusterBroadcastMessage :: "cluster \<Rightarrow> ptr list res" where
  "clusterBroadcastMessage c =
     for_each (\<lambda>e ps. rbind (getn c (Some (snd e))) (\<lambda>n.
       Inr (if n_link n = None \<or> n_flags n AND (REDIS_NODE_MYSELF OR REDIS_NODE_HANDSHAKE) \<noteq> 0 then ps
            else ps @ [snd e]))) (nodes c) []"

definition clusterBroadcastPong :: "cluster \<Rightarrow> bool \<Rightarrow> ptr list res" where
  "clusterBroadcastPong c all =
     rbind (getn c (Some (myself c))) (\<lambda>me.
     for_each (\<lambda>e ps. rbind (getn c (Some (snd e))) (\<lambda>n.
       let local_slave = nodeIsSlave n \<and> n_slaveof n \<noteq> None \<and>
             (n_slaveof n = Some (myself c) \<or> n_slaveof n = n_slaveof me)
       in Inr (if n_link n = None \<or> snd e = myself c \<or> nodeInHandshake n \<or> \<not> all \<and> \<not> local_slave then ps
               else ps @ [snd e]))) (nodes c) [])"

end
