(* ===== verification/ClusterCommand.thy ===== *)
theory ClusterCommand
  imports ClusterMessage Slots Util
begin

text \<open>
  The \<open>CLUSTER\<close> command: its subcommands as functions of the state and of the
  arguments, with the replies and errors they give.  \<open>argv\<close> is the list of
  the arguments, \<open>argv ! 0\<close> the name of the command.
\<close>

section \<open>Arguments and replies\<close>

definition getSlotOrReply :: "u8 list \<Rightarrow> nat option" where
  "getSlotOrReply s =
     (case getLongLongFromObject s of
        None \<Rightarrow> None
      | Some slot \<Rightarrow> if slot < 0 \<or> slot \<ge> int REDIS_CLUSTER_SLOTS then None else Some (nat slot))"

definition arg_is :: "u8 list \<Rightarrow> string \<Rightarrow> bool" where
  "arg_is a s \<longleftrightarrow> strcaseeq (cstr a) (bytes_of s)"

text \<open>
  \<open>clusterLookupNode\<close> reads 40 bytes of its argument; an argument of the
  client is a buffer of its own length and a terminator.
\<close>

definition lookup_arg :: "cluster \<Rightarrow> u8 list \<Rightarrow> ptr option res" where
  "lookup_arg c a =
     (if length a + 1 < 40 then Inl OutOfBounds else Inr (clusterLookupNode c (take 40 (a @ [0]))))"

datatype cluster_error =
    InvalidPort | InvalidAddress | DbNotEmpty | BadSlot | AlreadyUnassigned nat | AlreadyBusy nat
  | SpecifiedTwice nat | NotOwner nat | AlreadyOwner nat | DontKnow "u8 list" | UnknownNode "u8 list"
  | StillHoldKeys nat | BadAction | ForgetMyself | ForgetMaster | ReplicateMyself | ReplicateSlave
  | NotEmptyMaster | SendToSlave | MasterUnknown | MasterDown | NotInteger | InvalidEpoch | KnowsOthers
  | EpochNotZero | HasKeys | WrongSubcommand

record cluster_info =
  i_state :: cstate
  i_assigned :: int
  i_ok :: int
  i_pfail :: int
  i_fail :: int
  i_known :: int
  i_size :: int
  i_current_epoch :: u64
  i_my_epoch :: u64

text \<open>A range of slots with the addresses of the master and of its replicas.\<close>

type_synonym slot_range = "nat \<times> nat \<times> (u8 list \<times> int) list"

datatype reply =
    ReplyOk
  | ReplyErr cluster_error
  | SyntaxErr
  | ReplyInt int
  | ReplyBulk "u8 list"
  | ReplySlots "slot_range list"
  | ReplyInfo cluster_info
  | ReplyKeys nat int

section \<open>Slots\<close>

definition cluster_meet :: "host \<Rightarrow> cluster \<Rightarrow> u8 list \<Rightarrow> u8 list \<Rightarrow> (reply \<times> cluster) res" where
  "cluster_meet h c ip port =
     (case getLongLongFromObject port of
        None \<Rightarrow> Inr (ReplyErr InvalidPort, c)
      | Some port \<Rightarrow>
          rbind (clusterStartHandshake h c (cstr ip) (sint (word_of_int port :: 32 word))) (\<lambda>(errno, c).
          Inr (if errno = Some EINVAL then ReplyErr InvalidAddress else ReplyOk, c)))"

definition cluster_flushslots :: "cluster \<Rightarrow> (reply \<times> cluster) res" where
  "cluster_flushslots c =
     (if \<not> db_empty (env c) then Inr (ReplyErr DbNotEmpty, c)
      else
        rbind (clusterDelNodeSlots c (Some (myself c))) (\<lambda>(_, c).
        Inr (ReplyOk, clusterDoBeforeSleep (CLUSTER_TODO_UPDATE_STATE OR CLUSTER_TODO_SAVE_CONFIG) c)))"

text \<open>The first loop of \<open>addslots\<close> and \<open>delslots\<close>: the slots, or the first error.\<close>

fun parse_slots :: "cluster \<Rightarrow> bool \<Rightarrow> u8 list list \<Rightarrow> nat list \<Rightarrow> (cluster_error + nat list) res" where
  "parse_slots c del [] seen = Inr (Inr seen)"
| "parse_slots c del (a # as) seen =
     (case getSlotOrReply a of
        None \<Rightarrow> Inr (Inl BadSlot)
      | Some slot \<Rightarrow>
          rbind (rd (slots c) slot) (\<lambda>s.
          if del \<and> s = None then Inr (Inl (AlreadyUnassigned slot))
          else if \<not> del \<and> s \<noteq> None then Inr (Inl (AlreadyBusy slot))
          else if slot \<in> set seen then Inr (Inl (SpecifiedTwice slot))
          else parse_slots c del as (slot # seen)))"

definition assign_slot :: "bool \<Rightarrow> nat list \<Rightarrow> nat \<Rightarrow> cluster \<Rightarrow> cluster res" where
  "assign_slot del seen j c =
     (if j \<notin> set seen then Inr c
      else
        rbind (rd (importing_slots_from c) j) (\<lambda>i.
        let c = (if i \<noteq> None then c\<lparr>importing_slots_from := (importing_slots_from c)[j := None]\<rparr> else c) in
        rbind (if del then clusterDelSlot c j else clusterAddSlot c (Some (myself c)) j) (\<lambda>(ok, c).
        if ok then Inr c else Inl AssertFailed)))"

definition cluster_addslots :: "cluster \<Rightarrow> bool \<Rightarrow> u8 list list \<Rightarrow> (reply \<times> cluster) res" where
  "cluster_addslots c del args =
     rbind (parse_slots c del args []) (\<lambda>r. case r of
       Inl e \<Rightarrow> Inr (ReplyErr e, c)
     | Inr seen \<Rightarrow>
         rbind (for_each (assign_slot del seen) [0..<REDIS_CLUSTER_SLOTS] c) (\<lambda>c.
         Inr (ReplyOk, clusterDoBeforeSleep (CLUSTER_TODO_UPDATE_STATE OR CLUSTER_TODO_SAVE_CONFIG) c)))"

text \<open>\<open>SETSLOT\<close>; \<open>Inl\<close> is the error reply.\<close>

definition setslot_migrating :: "cluster \<Rightarrow> nat \<Rightarrow> u8 list \<Rightarrow> (cluster_error + cluster) res" where
  "setslot_migrating c slot nm =
     rbind (rd (slots c) slot) (\<lambda>s.
     if s \<noteq> Some (myself c) then Inr (Inl (NotOwner slot))
     else rbind (lookup_arg c nm) (\<lambda>n.
       if n = None then Inr (Inl (DontKnow nm))
       else Inr (Inr (c\<lparr>migrating_slots_to := (migrating_slots_to c)[slot := n]\<rparr>))))"

definition setslot_importing :: "cluster \<Rightarrow> nat \<Rightarrow> u8 list \<Rightarrow> u8 list \<Rightarrow> (cluster_error + cluster) res" where
  "setslot_importing c slot action nm =
     rbind (rd (slots c) slot) (\<lambda>s.
     if s = Some (myself c) then Inr (Inl (AlreadyOwner slot))
     else rbind (lookup_arg c nm) (\<lambda>n.
       if n = None then Inr (Inl (DontKnow action))
       else Inr (Inr (c\<lparr>importing_slots_from := (importing_slots_from c)[slot := n]\<rparr>))))"

definition setslot_stable :: "cluster \<Rightarrow> nat \<Rightarrow> cluster" where
  "setslot_stable c slot =
     c\<lparr>importing_slots_from := (importing_slots_from c)[slot := None],
       migrating_slots_to := (migrating_slots_to c)[slot := None]\<rparr>"

definition setslot_assign :: "cluster \<Rightarrow> nat \<Rightarrow> ptr \<Rightarrow> cluster res" where
  "setslot_assign c slot n =
     rbind (rd (migrating_slots_to c) slot) (\<lambda>m.
     let c = (if countKeysInSlot (env c) slot = 0 \<and> m \<noteq> None
              then c\<lparr>migrating_slots_to := (migrating_slots_to c)[slot := None]\<rparr> else c) in
     rbind (rd (importing_slots_from c) slot) (\<lambda>i.
     rbind (if n = myself c \<and> i \<noteq> None
            then rbind (clusterBumpConfigEpochWithoutConsensus c) (\<lambda>(_, c).
              Inr (c\<lparr>importing_slots_from := (importing_slots_from c)[slot := None]\<rparr>))
            else Inr c) (\<lambda>c.
     rbind (clusterDelSlot c slot) (\<lambda>(_, c).
     rbind (clusterAddSlot c (Some n) slot) (\<lambda>(_, c). Inr c)))))"

definition setslot_node :: "cluster \<Rightarrow> nat \<Rightarrow> u8 list \<Rightarrow> (cluster_error + cluster) res" where
  "setslot_node c slot nm =
     rbind (lookup_arg c nm) (\<lambda>n.
     case n of
       None \<Rightarrow> Inr (Inl (UnknownNode nm))
     | Some n \<Rightarrow>
         rbind (rd (slots c) slot) (\<lambda>s.
         if s = Some (myself c) \<and> n \<noteq> myself c \<and> countKeysInSlot (env c) slot \<noteq> 0
         then Inr (Inl (StillHoldKeys slot))
         else rbind (setslot_assign c slot n) (\<lambda>c. Inr (Inr c))))"

definition cluster_setslot :: "cluster \<Rightarrow> u8 list list \<Rightarrow> (reply \<times> cluster) res" where
  "cluster_setslot c argv =
     (case getSlotOrReply (argv ! 2) of
        None \<Rightarrow> Inr (ReplyErr BadSlot, c)
      | Some slot \<Rightarrow>
          rbind (if arg_is (argv ! 3) ''migrating'' \<and> length argv = 5 then setslot_migrating c slot (argv ! 4)
                 else if arg_is (argv ! 3) ''importing'' \<and> length argv = 5
                   then setslot_importing c slot (argv ! 3) (argv ! 4)
                 else if arg_is (argv ! 3) ''stable'' \<and> length argv = 4 then Inr (Inr (setslot_stable c slot))
                 else if arg_is (argv ! 3) ''node'' \<and> length argv = 5 then setslot_node c slot (argv ! 4)
                 else Inr (Inl BadAction)) (\<lambda>r.
          Inr (case r of
                 Inl e \<Rightarrow> (ReplyErr e, c)
               | Inr c \<Rightarrow> (ReplyOk, clusterDoBeforeSleep (CLUSTER_TODO_SAVE_CONFIG OR CLUSTER_TODO_UPDATE_STATE) c))))"

section \<open>Reports\<close>

fun info_counts :: "cluster \<Rightarrow> nat list \<Rightarrow> int \<times> int \<times> int \<times> int \<Rightarrow> (int \<times> int \<times> int \<times> int) res" where
  "info_counts c [] k = Inr k"
| "info_counts c (j # js) (assigned, ok, pfail, fail) =
     rbind (rd (slots c) j) (\<lambda>s.
     if s = None then info_counts c js (assigned, ok, pfail, fail)
     else rbind (getn c s) (\<lambda>n.
       if nodeFailed n then info_counts c js (assigned + 1, ok, pfail, fail + 1)
       else if nodeTimedOut n then info_counts c js (assigned + 1, ok, pfail + 1, fail)
       else info_counts c js (assigned + 1, ok + 1, pfail, fail)))"

definition cluster_info :: "cluster \<Rightarrow> cluster_info res" where
  "cluster_info c =
     rbind (info_counts c [0..<REDIS_CLUSTER_SLOTS] (0, 0, 0, 0)) (\<lambda>(assigned, ok, pfail, fail).
     rbind (getn c (Some (myself c))) (\<lambda>me.
     rbind (getn c (header_master c me)) (\<lambda>m.
     Inr \<lparr>i_state = cstate c, i_assigned = assigned, i_ok = ok, i_pfail = pfail, i_fail = fail,
          i_known = int (length (nodes c)), i_size = csize c, i_current_epoch = currentEpoch c,
          i_my_epoch = n_configEpoch m\<rparr>)))"

text \<open>
  The ranges of consecutive slots of a node: \<open>start\<close> is the variable of the
  code, \<open>None\<close> its value \<open>-1\<close>.
\<close>

definition range_step :: "u8 list \<Rightarrow> nat \<Rightarrow> nat option \<times> (nat \<times> nat) list \<Rightarrow> (nat option \<times> (nat \<times> nat) list) res" where
  "range_step bitmap j = (\<lambda>(start, out).
     rbind (bitmapTestBit bitmap j) (\<lambda>b.
     let start = (if b \<and> start = None then Some j else start) in
     case start of
       None \<Rightarrow> Inr (None, out)
     | Some s \<Rightarrow>
         if \<not> b \<or> j = REDIS_CLUSTER_SLOTS - 1 then
           let j = (if b \<and> j = REDIS_CLUSTER_SLOTS - 1 then j + 1 else j)
           in Inr (None, out @ [(s, j - 1)])
         else Inr (Some s, out)))"

definition slot_ranges :: "u8 list \<Rightarrow> (nat \<times> nat) list res" where
  "slot_ranges bitmap =
     rbind (for_each (range_step bitmap) [0..<REDIS_CLUSTER_SLOTS] (None, [])) (\<lambda>(_, out). Inr out)"

definition replica_addresses :: "cluster \<Rightarrow> clusterNode \<Rightarrow> (u8 list \<times> int) list res" where
  "replica_addresses c n =
     for_each (\<lambda>s out. rbind (getn c (Some s)) (\<lambda>r.
       Inr (if nodeFailed r then out else out @ [(n_ip r, n_port r)]))) (n_slaves n) []"

definition clusterReplyMultiBulkSlots :: "cluster \<Rightarrow> slot_range list res" where
  "clusterReplyMultiBulkSlots c =
     for_each (\<lambda>e out. rbind (getn c (Some (snd e))) (\<lambda>n.
       if \<not> nodeIsMaster n \<or> n_numslots n = 0 then Inr out
       else rbind (slot_ranges (n_slots n)) (\<lambda>rs.
         rbind (if rs = [] then Inr [] else replica_addresses c n) (\<lambda>addrs.
         Inr (out @ map (\<lambda>(a, b). (a, b, (n_ip n, n_port n) # addrs)) rs))))) (nodes c) []"

section \<open>Nodes\<close>

definition cluster_forget :: "cluster \<Rightarrow> u8 list \<Rightarrow> (reply \<times> cluster) res" where
  "cluster_forget c a =
     rbind (lookup_arg c a) (\<lambda>n.
     case n of
       None \<Rightarrow> Inr (ReplyErr (UnknownNode a), c)
     | Some n \<Rightarrow>
         if n = myself c then Inr (ReplyErr ForgetMyself, c)
         else
           rbind (getn c (Some (myself c))) (\<lambda>me.
           if nodeIsSlave me \<and> n_slaveof me = Some n then Inr (ReplyErr ForgetMaster, c)
           else
             rbind (clusterBlacklistAddNode c n) (\<lambda>c.
             rbind (clusterDelNode c n) (\<lambda>c.
             Inr (ReplyOk, clusterDoBeforeSleep (CLUSTER_TODO_UPDATE_STATE OR CLUSTER_TODO_SAVE_CONFIG) c)))))"

definition cluster_replicate :: "cluster \<Rightarrow> u8 list \<Rightarrow> (reply \<times> cluster) res" where
  "cluster_replicate c a =
     rbind (lookup_arg c a) (\<lambda>n.
     case n of
       None \<Rightarrow> Inr (ReplyErr (UnknownNode a), c)
     | Some p \<Rightarrow>
         if p = myself c then Inr (ReplyErr ReplicateMyself, c)
         else
           rbind (getn c (Some p)) (\<lambda>n.
           if nodeIsSlave n then Inr (ReplyErr ReplicateSlave, c)
           else
             rbind (getn c (Some (myself c))) (\<lambda>me.
             if nodeIsMaster me \<and> (n_numslots me \<noteq> 0 \<or> \<not> db_empty (env c)) then Inr (ReplyErr NotEmptyMaster, c)
             else
               rbind (clusterSetMaster c p) (\<lambda>c.
               Inr (ReplyOk, clusterDoBeforeSleep (CLUSTER_TODO_UPDATE_STATE OR CLUSTER_TODO_SAVE_CONFIG) c)))))"

definition cluster_count_failure_reports :: "cluster \<Rightarrow> u8 list \<Rightarrow> (reply \<times> cluster) res" where
  "cluster_count_failure_reports c a =
     rbind (lookup_arg c a) (\<lambda>n.
     case n of
       None \<Rightarrow> Inr (ReplyErr (UnknownNode a), c)
     | Some p \<Rightarrow> rbind (clusterNodeFailureReportsCount c p) (\<lambda>(k, c). Inr (ReplyInt k, c)))"

text \<open>\<open>FAILOVER\<close>: after the checks, the manual failover is started in one of three ways.\<close>

definition start_manual_failover :: "cluster \<Rightarrow> bool \<Rightarrow> bool \<Rightarrow> ptr \<Rightarrow> cluster res" where
  "start_manual_failover c force takeover master =
     (let c = resetManualFailover c;
          (now, c) = mstime c;
          c = c\<lparr>mf_end := now + REDIS_CLUSTER_MF_TIMEOUT\<rparr>
      in if takeover then
           rbind (clusterBumpConfigEpochWithoutConsensus c) (\<lambda>(_, c). clusterFailoverReplaceYourMaster c)
         else if force then Inr (c\<lparr>mf_can_start := True\<rparr>)
         else rbind (getn c (Some master)) (\<lambda>m. Inr (if n_link m = None then c else perform (SendMFStart master) c)))"

definition cluster_failover :: "cluster \<Rightarrow> u8 list list \<Rightarrow> (reply \<times> cluster) res" where
  "cluster_failover c argv =
     (let force = length argv = 3 \<and> (arg_is (argv ! 2) ''force'' \<or> arg_is (argv ! 2) ''takeover'');
          takeover = length argv = 3 \<and> arg_is (argv ! 2) ''takeover''
      in if length argv = 3 \<and> \<not> force then Inr (SyntaxErr, c)
         else
           rbind (getn c (Some (myself c))) (\<lambda>me.
           if nodeIsMaster me then Inr (ReplyErr SendToSlave, c)
           else case n_slaveof me of
             None \<Rightarrow> Inr (ReplyErr MasterUnknown, c)
           | Some master \<Rightarrow>
               rbind (if force then Inr False
                      else rbind (getn c (Some master)) (\<lambda>m. Inr (nodeFailed m \<or> n_link m = None))) (\<lambda>down.
               if down then Inr (ReplyErr MasterDown, c)
               else rbind (start_manual_failover c force takeover master) (\<lambda>c. Inr (ReplyOk, c)))))"

definition cluster_set_config_epoch :: "cluster \<Rightarrow> u8 list \<Rightarrow> (reply \<times> cluster) res" where
  "cluster_set_config_epoch c a =
     (case getLongLongFromObject a of
        None \<Rightarrow> Inr (ReplyErr NotInteger, c)
      | Some epoch \<Rightarrow>
          if epoch < 0 then Inr (ReplyErr InvalidEpoch, c)
          else if length (nodes c) > 1 then Inr (ReplyErr KnowsOthers, c)
          else
            rbind (getn c (Some (myself c))) (\<lambda>me.
            if n_configEpoch me \<noteq> 0 then Inr (ReplyErr EpochNotZero, c)
            else
              rbind (updn c (Some (myself c)) (n_configEpoch_update (\<lambda>_. word_of_int epoch))) (\<lambda>c.
              let c = (if currentEpoch c < word_of_int epoch then c\<lparr>currentEpoch := word_of_int epoch\<rparr> else c)
              in Inr (ReplyOk, clusterDoBeforeSleep (CLUSTER_TODO_UPDATE_STATE OR CLUSTER_TODO_SAVE_CONFIG) c))))"

definition cluster_reset_command :: "host \<Rightarrow> cluster \<Rightarrow> u8 list list \<Rightarrow> (reply \<times> cluster) res" where
  "cluster_reset_command h c argv =
     (let hard = length argv = 3 \<and> arg_is (argv ! 2) ''hard''
      in if length argv = 3 \<and> \<not> hard \<and> \<not> arg_is (argv ! 2) ''soft'' then Inr (SyntaxErr, c)
         else
           rbind (getn c (Some (myself c))) (\<lambda>me.
           if nodeIsMaster me \<and> \<not> db_empty (env c) then Inr (ReplyErr HasKeys, c)
           else rbind (clusterReset (random_name h c) c hard) (\<lambda>c. Inr (ReplyOk, c))))"

section \<open>\<open>clusterCommand\<close>\<close>

text \<open>The keys of a slot: only their number is used here; the index \<open>slots_to_keys\<close> itself is in \<open>KeyIndex\<close>.\<close>

definition cluster_countkeysinslot :: "cluster \<Rightarrow> u8 list \<Rightarrow> reply" where
  "cluster_countkeysinslot c a =
     (case getLongLongFromObject a of
        None \<Rightarrow> ReplyErr NotInteger
      | Some slot \<Rightarrow> if slot < 0 \<or> slot \<ge> int REDIS_CLUSTER_SLOTS then ReplyErr BadSlot
                     else ReplyInt (int (countKeysInSlot (env c) (nat slot))))"

definition cluster_getkeysinslot :: "u8 list \<Rightarrow> u8 list \<Rightarrow> reply" where
  "cluster_getkeysinslot a b =
     (case getLongLongFromObject a of
        None \<Rightarrow> ReplyErr NotInteger
      | Some slot \<Rightarrow>
          (case getLongLongFromObject b of
             None \<Rightarrow> ReplyErr NotInteger
           | Some maxkeys \<Rightarrow>
               if slot < 0 \<or> slot \<ge> int REDIS_CLUSTER_SLOTS \<or> maxkeys < 0 then ReplyErr BadSlot
               else ReplyKeys (nat slot) maxkeys))"

definition clusterCommand :: "host \<Rightarrow> cluster \<Rightarrow> u8 list list \<Rightarrow> (reply \<times> cluster) res" where
  "clusterCommand h c argv =
     (let sub = argv ! 1; argc = length argv in
      if arg_is sub ''meet'' \<and> argc = 4 then cluster_meet h c (argv ! 2) (argv ! 3)
      else if arg_is sub ''myid'' \<and> argc = 2
        then rbind (getn c (Some (myself c))) (\<lambda>me. Inr (ReplyBulk (n_name me), c))
      else if arg_is sub ''slots'' \<and> argc = 2
        then rbind (clusterReplyMultiBulkSlots c) (\<lambda>rs. Inr (ReplySlots rs, c))
      else if arg_is sub ''flushslots'' \<and> argc = 2 then cluster_flushslots c
      else if (arg_is sub ''addslots'' \<or> arg_is sub ''delslots'') \<and> argc \<ge> 3
        then cluster_addslots c (arg_is sub ''delslots'') (drop 2 argv)
      else if arg_is sub ''setslot'' \<and> argc \<ge> 4 then cluster_setslot c argv
      else if arg_is sub ''info'' \<and> argc = 2 then rbind (cluster_info c) (\<lambda>i. Inr (ReplyInfo i, c))
      else if arg_is sub ''saveconfig'' \<and> argc = 2 then Inr (ReplyOk, perform (SaveConfig True) c)
      else if arg_is sub ''keyslot'' \<and> argc = 3
        then rbind (keyHashSlot (argv ! 2) (length (argv ! 2))) (\<lambda>s. Inr (ReplyInt (int (unat s)), c))
      else if arg_is sub ''countkeysinslot'' \<and> argc = 3 then Inr (cluster_countkeysinslot c (argv ! 2), c)
      else if arg_is sub ''getkeysinslot'' \<and> argc = 4 then Inr (cluster_getkeysinslot (argv ! 2) (argv ! 3), c)
      else if arg_is sub ''forget'' \<and> argc = 3 then cluster_forget c (argv ! 2)
      else if arg_is sub ''replicate'' \<and> argc = 3 then cluster_replicate c (argv ! 2)
      else if arg_is sub ''count-failure-reports'' \<and> argc = 3 then cluster_count_failure_reports c (argv ! 2)
      else if arg_is sub ''failover'' \<and> (argc = 2 \<or> argc = 3) then cluster_failover c argv
      else if arg_is sub ''set-config-epoch'' \<and> argc = 3 then cluster_set_config_epoch c (argv ! 2)
      else if arg_is sub ''reset'' \<and> (argc = 2 \<or> argc = 3) then cluster_reset_command h c argv
      else Inr (ReplyErr WrongSubcommand, c))"

end
