(* ===== verification/ClusterCron.thy ===== *)
theory ClusterCron
  imports ClusterCommand
begin

text \<open>
  The timers: \<open>clusterCron\<close>, which runs ten times a second, and
  \<open>clusterBeforeSleep\<close>, which runs before the event loop waits.
\<close>

section \<open>The connections\<close>

definition nodeHasAddr :: "clusterNode \<Rightarrow> bool" where
  "nodeHasAddr n \<longleftrightarrow> n_flags n AND REDIS_NODE_NOADDR = 0"

text \<open>A new connection: the link, the first message, and the time of the \<open>PING\<close> that was already active.\<close>

definition cron_new_link :: "ptr \<Rightarrow> clusterNode \<Rightarrow> cluster \<Rightarrow> cluster res" where
  "cron_new_link p n c =
     (let (ctime, c) = mstime c in
      rbind (updn c (Some p) (n_link_update (\<lambda>_. Some ctime))) (\<lambda>c.
      rbind (clusterSendPing c p (n_flags n AND REDIS_NODE_MEET \<noteq> 0)) (\<lambda>c.
      rbind (if n_ping_sent n \<noteq> 0 then updn c (Some p) (n_ping_sent_update (\<lambda>_. n_ping_sent n)) else Inr c) (\<lambda>c.
      updn c (Some p) (clear_flags REDIS_NODE_MEET)))))"

definition cron_connect :: "host \<Rightarrow> int \<Rightarrow> int \<Rightarrow> name \<times> ptr \<Rightarrow> cluster \<Rightarrow> cluster res" where
  "cron_connect h now handshake_timeout e c =
     (let p = snd e in
      rbind (getn c (Some p)) (\<lambda>n.
      if n_flags n AND (REDIS_NODE_MYSELF OR REDIS_NODE_NOADDR) \<noteq> 0 then Inr c
      else if nodeInHandshake n \<and> now - n_ctime n > handshake_timeout then clusterDelNode c p
      else if n_link n \<noteq> None then Inr c
      else if \<not> connect_ok h c p then
        (if n_ping_sent n = 0
         then let (t, c) = mstime c in updn c (Some p) (n_ping_sent_update (\<lambda>_. t)) else Inr c)
      else cron_new_link p n c))"

text \<open>Five random nodes: the one with the oldest \<open>PONG\<close> gets a \<open>PING\<close>.\<close>

definition cron_pick :: "host \<Rightarrow> cluster \<Rightarrow> (ptr option \<times> int) res" where
  "cron_pick h c =
     for_each (\<lambda>j (min_pong_node, min_pong).
       rbind (rd (nodes c) (random_key h c j)) (\<lambda>e.
       rbind (getn c (Some (snd e))) (\<lambda>n.
       Inr (if n_link n = None \<or> n_ping_sent n \<noteq> 0 then (min_pong_node, min_pong)
            else if n_flags n AND (REDIS_NODE_MYSELF OR REDIS_NODE_HANDSHAKE) \<noteq> 0 then (min_pong_node, min_pong)
            else if min_pong_node = None \<or> min_pong > n_pong_received n then (Some (snd e), n_pong_received n)
            else (min_pong_node, min_pong))))) [0..<5] (None, 0)"

definition cron_random_ping :: "host \<Rightarrow> cluster \<Rightarrow> cluster res" where
  "cron_random_ping h c =
     rbind (cron_pick h c) (\<lambda>(min_pong_node, _).
     case min_pong_node of None \<Rightarrow> Inr c | Some p \<Rightarrow> clusterSendPing c p False)"

section \<open>Failure detection\<close>

text \<open>The slaves of the masters: orphaned masters, the most slaves, the slaves of the own master.\<close>

definition cron_count_slaves ::
  "clusterNode \<Rightarrow> ptr \<Rightarrow> clusterNode \<Rightarrow> cluster \<Rightarrow> int \<times> int \<times> int \<Rightarrow> (int \<times> int \<times> int) res" where
  "cron_count_slaves me p n c = (\<lambda>(orphaned_masters, max_slaves, this_slaves).
     if nodeIsSlave me \<and> nodeIsMaster n \<and> \<not> nodeFailed n then
       rbind (clusterCountNonFailingSlaves c p) (\<lambda>okslaves.
       Inr (if okslaves = 0 \<and> n_numslots n > 0 \<and> n_flags n AND REDIS_NODE_MIGRATE_TO \<noteq> 0
              then orphaned_masters + 1 else orphaned_masters,
            if okslaves > max_slaves then okslaves else max_slaves,
            if nodeIsSlave me \<and> n_slaveof me = Some p then okslaves else this_slaves))
     else Inr (orphaned_masters, max_slaves, this_slaves))"

definition cron_drop_link :: "int \<Rightarrow> ptr \<Rightarrow> clusterNode \<Rightarrow> cluster \<Rightarrow> cluster res" where
  "cron_drop_link now p n c =
     (case n_link n of
        None \<Rightarrow> Inr c
      | Some ctime \<Rightarrow>
          if now - ctime > cluster_node_timeout (env c) \<and> n_ping_sent n \<noteq> 0 \<and>
             n_pong_received n < n_ping_sent n \<and> now - n_ping_sent n > cluster_node_timeout (env c) div 2
          then freeClusterLink c p else Inr c)"

text \<open>The rest of the loop: a \<open>PING\<close>, or the test of the timeout; \<open>True\<close> asks for an update of the state.\<close>

definition cron_timeout :: "int \<Rightarrow> clusterNode \<Rightarrow> ptr \<Rightarrow> cluster \<Rightarrow> (bool \<times> cluster) res" where
  "cron_timeout now me p c =
     rbind (getn c (Some p)) (\<lambda>n.
     if n_link n \<noteq> None \<and> n_ping_sent n = 0 \<and> now - n_pong_received n > cluster_node_timeout (env c) div 2
     then rbind (clusterSendPing c p False) (\<lambda>c. Inr (False, c))
     else if mf_end c \<noteq> 0 \<and> nodeIsMaster me \<and> mf_slave c = Some p \<and> n_link n \<noteq> None
     then rbind (clusterSendPing c p False) (\<lambda>c. Inr (False, c))
     else if n_ping_sent n = 0 then Inr (False, c)
     else if now - n_ping_sent n > cluster_node_timeout (env c) \<and>
             n_flags n AND (REDIS_NODE_PFAIL OR REDIS_NODE_FAIL) = 0
     then rbind (updn c (Some p) (set_flags REDIS_NODE_PFAIL)) (\<lambda>c. Inr (True, c))
     else Inr (False, c))"

definition cron_check ::
  "name \<times> ptr \<Rightarrow> (int \<times> int \<times> int) \<times> bool \<times> cluster \<Rightarrow> ((int \<times> int \<times> int) \<times> bool \<times> cluster) res" where
  "cron_check e = (\<lambda>(counts, update_state, c).
     let p = snd e;
         (now, c) = mstime c
     in rbind (getn c (Some p)) (\<lambda>n.
        if n_flags n AND (REDIS_NODE_MYSELF OR REDIS_NODE_NOADDR OR REDIS_NODE_HANDSHAKE) \<noteq> 0
        then Inr (counts, update_state, c)
        else
          rbind (getn c (Some (myself c))) (\<lambda>me.
          rbind (cron_count_slaves me p n c counts) (\<lambda>counts.
          rbind (cron_drop_link now p n c) (\<lambda>c.
          rbind (cron_timeout now me p c) (\<lambda>(u, c).
          Inr (counts, update_state \<or> u, c)))))))"

section \<open>The timers\<close>

text \<open>What a slave does, after the loops.\<close>

definition cron_slave :: "host \<Rightarrow> int \<times> int \<times> int \<Rightarrow> cluster \<Rightarrow> cluster res" where
  "cron_slave h counts c =
     (case counts of (orphaned_masters, max_slaves, this_slaves) \<Rightarrow>
      let c = clusterHandleManualFailover c in
      rbind (clusterHandleSlaveFailover (random_num h c) c) (\<lambda>c.
      if orphaned_masters \<noteq> 0 \<and> max_slaves \<ge> 2 \<and> this_slaves = max_slaves
      then clusterHandleSlaveMigration c max_slaves else Inr c))"

definition cron_replication :: "cluster \<Rightarrow> cluster res" where
  "cron_replication c =
     rbind (getn c (Some (myself c))) (\<lambda>me.
     case n_slaveof me of
       None \<Rightarrow> Inr c
     | Some m \<Rightarrow>
         if nodeIsSlave me \<and> no_masterhost (env c)
         then rbind (getn c (Some m)) (\<lambda>n. Inr (if nodeHasAddr n then perform (SetReplicationMaster m) c else c))
         else Inr c)"

definition clusterCron :: "host \<Rightarrow> cluster \<Rightarrow> cluster res" where
  "clusterCron h c =
     (let (now, c) = mstime c;
          c = c\<lparr>cron_iteration := cron_iteration c + 1\<rparr>;
          handshake_timeout = cluster_node_timeout (env c);
          handshake_timeout = (if handshake_timeout < 1000 then 1000 else handshake_timeout)
      in rbind (for_each (cron_connect h now handshake_timeout) (nodes c) c) (\<lambda>c.
         rbind (if cron_iteration c mod 10 = 0 then cron_random_ping h c else Inr c) (\<lambda>c.
         rbind (for_each cron_check (nodes c) ((0, 0, 0), False, c)) (\<lambda>(counts, update_state, c).
         rbind (cron_replication c) (\<lambda>c.
         let c = manualFailoverCheckTimeout c in
         rbind (getn c (Some (myself c))) (\<lambda>me.
         rbind (if nodeIsSlave me then cron_slave h counts c else Inr c) (\<lambda>c.
         if update_state \<or> cstate c = ClusterFail then clusterUpdateState c else Inr c)))))))"

definition clusterBeforeSleep :: "host \<Rightarrow> cluster \<Rightarrow> cluster res" where
  "clusterBeforeSleep h c =
     rbind (if todo_before_sleep c AND CLUSTER_TODO_HANDLE_FAILOVER \<noteq> 0
            then clusterHandleSlaveFailover (random_num h c) c else Inr c) (\<lambda>c.
     rbind (if todo_before_sleep c AND CLUSTER_TODO_UPDATE_STATE \<noteq> 0 then clusterUpdateState c else Inr c) (\<lambda>c.
     let c = (if todo_before_sleep c AND CLUSTER_TODO_SAVE_CONFIG \<noteq> 0
              then perform (SaveConfig (todo_before_sleep c AND CLUSTER_TODO_FSYNC_CONFIG \<noteq> 0)) c else c)
     in Inr (c\<lparr>todo_before_sleep := 0\<rparr>)))"

text \<open>An error on a link: the link of the node, if it has one, is freed.\<close>

definition handleLinkIOError :: "cluster \<Rightarrow> ptr option \<Rightarrow> cluster res" where
  "handleLinkIOError c lnode = (case lnode of None \<Rightarrow> Inr c | Some p \<Rightarrow> freeClusterLink c p)"

end
