(* ===== verification/ClusterMachine.thy ===== *)
theory ClusterMachine
  imports ClusterCron
begin

text \<open>
  The node as a state machine: its steps are the packets it receives, the
  timers and the commands.  Every step keeps the slot invariant; over a run at
  most one vote is given per epoch, and majorities of voters therefore elect at
  most one node per epoch.
\<close>

section \<open>What the parts of a packet change\<close>

definition host_ok :: "host \<Rightarrow> bool" where
  "host_ok h \<longleftrightarrow> (\<forall>c. finite (dom (heap c)) \<longrightarrow> heap c (alloc h c) = None)"

text \<open>
  The facts \<open>moved\<close> say of each call that it moves the slots soundly; they are
  applied forwards along the path of calls.
\<close>

named_theorems moved

lemma core_ok:
  assumes "core_view c' = core_view c"
  shows "slots_ok c' = slots_ok c" "currentEpoch c' = currentEpoch c" "lastVoteEpoch c' = lastVoteEpoch c"
    "myself c' = myself c" "votes c' = votes c"
  using assms slots_ok_view [of c' c] slots_ok_view [of c c'] by (auto simp: core_view_def)

lemma core_ok_simps [simp]:
  "slots_ok (perform a c) = slots_ok c" "currentEpoch (perform a c) = currentEpoch c"
  "lastVoteEpoch (perform a c) = lastVoteEpoch c" "myself (perform a c) = myself c"
  "slots_ok (clusterDoBeforeSleep fl c) = slots_ok c" "currentEpoch (clusterDoBeforeSleep fl c) = currentEpoch c"
  "lastVoteEpoch (clusterDoBeforeSleep fl c) = lastVoteEpoch c" "myself (clusterDoBeforeSleep fl c) = myself c"
  "votes (clusterDoBeforeSleep fl c) = votes c"
  "slots_ok (clusterBlacklistCleanup c) = slots_ok c" "currentEpoch (clusterBlacklistCleanup c) = currentEpoch c"
  "lastVoteEpoch (clusterBlacklistCleanup c) = lastVoteEpoch c" "myself (clusterBlacklistCleanup c) = myself c"
  "votes (clusterBlacklistCleanup c) = votes c"
  "slots_ok (resetManualFailover c) = slots_ok c" "currentEpoch (resetManualFailover c) = currentEpoch c"
  "lastVoteEpoch (resetManualFailover c) = lastVoteEpoch c" "myself (resetManualFailover c) = myself c"
  "votes (resetManualFailover c) = votes c"
  using core_ok [OF core_view_helpers(2), of fl c] core_ok [OF core_view_helpers(4), of c]
    core_ok [OF resetManualFailover_view, of c]
  by simp_all (simp_all add: perform_def slots_ok_def)

lemma created_ok [simp]:
  "host_ok h \<Longrightarrow> slots_ok d \<Longrightarrow> slots_ok (createClusterNode d (alloc h d) r nm fl)"
  "currentEpoch (createClusterNode d a r nm fl) = currentEpoch d"
  "lastVoteEpoch (createClusterNode d a r nm fl) = lastVoteEpoch d"
  "myself (createClusterNode d a r nm fl) = myself d"
  "votes (createClusterNode d a r nm fl) = votes d"
  using createNode_ok slots_okD(5) by (auto simp: host_ok_def createClusterNode_def mstime_def votes_def)

lemmas view_moves [moved] = updn_view [THEN moved_view] addNode_view [THEN moved_view]
  addReport_view [THEN moved_view] delReport_view [THEN moved_view] markFailing_view [THEN moved_view]
  renameNode_view [THEN moved_view] removeSlave_view [THEN moved_view] addSlave_view [THEN moved_view]
  resetSlaves_view [THEN moved_view] setNodeAsMaster_view [THEN moved_view] clearFailure_view [THEN moved_view]
  setMaster_view [THEN moved_view] updateState_view [THEN moved_view]

lemmas slot_moves [moved] = delNode_moved replaceMaster_moved

lemma handshake_moved:
  assumes "host_ok h" and "updn (createClusterNode d (alloc h d) r nm fl) p (\<lambda>n. n\<lparr>n_ip := ip, n_port := port\<rparr>) = Inr x"
    and "clusterAddNode x q = Inr (b, c)"
  shows "slots_moved d c"
proof -
  have "slots_moved d (createClusterNode d (alloc h d) r nm fl)" using assms(1) by (simp add: slots_moved_def)
  moreover have "slots_moved (createClusterNode d (alloc h d) r nm fl) x"
    by (rule moved_view, rule updn_view [OF assms(2)]) simp_all
  moreover have "slots_moved x c" by (rule moved_view [OF addNode_view [OF assms(3)]])
  ultimately show ?thesis by (blast intro: moved_trans)
qed

lemma startHandshake_moved [moved]:
  assumes "clusterStartHandshake h d ip port = Inr (b, e)" and "host_ok h"
  shows "slots_moved d e"
proof -
  have "post (\<lambda>r. slots_moved d (snd r)) (clusterStartHandshake h d ip port)"
    unfolding clusterStartHandshake_def Let_def
    by (intro post_rules) (auto intro: handshake_moved [OF assms(2)])
  then show ?thesis using postD [OF _ assms(1)] by fastforce
qed

lemma freeLink_view: "freeClusterLink c p = Inr c' \<Longrightarrow> core_view c' = core_view c"
  by (auto simp: freeClusterLink_def dest!: updn_view)

lemma updateAddress_view: "nodeUpdateAddressIfNeeded h c p l t = Inr (b, c') \<Longrightarrow> core_view c' = core_view c"
proof -
  assume *: "nodeUpdateAddressIfNeeded h c p l t = Inr (b, c')"
  have "post (\<lambda>r. core_view (snd r) = core_view c) (nodeUpdateAddressIfNeeded h c p l t)"
    unfolding nodeUpdateAddressIfNeeded_def
    by (intro post_rules) (auto split: if_splits dest!: updn_view freeLink_view)
  then show ?thesis using postD [OF _ *] by fastforce
qed

lemma gossip_known_view: "gossip_known c s p fl = Inr c' \<Longrightarrow> core_view c' = core_view c"
  by (auto simp: gossip_known_def split: option.splits if_splits dest!: addReport_view delReport_view markFailing_view)

lemmas view_moves' [moved] = freeLink_view [THEN moved_view] updateAddress_view [THEN moved_view]
  gossip_known_view [THEN moved_view]

lemma gossip_step_moved:
  assumes "gossip_step h s g d = Inr e" and "host_ok h"
  shows "slots_moved d e"
proof -
  have "post (slots_moved d) (gossip_step h s g d)"
    unfolding gossip_step_def clusterBlacklistExists_def Let_def prod.case
    by (intro post_rules) (auto dest!: moved, simp_all add: slots_moved_def assms(2))
  then show ?thesis by (rule postD [OF _ assms(1)])
qed

lemma gossip_moved [moved]:
  assumes "clusterProcessGossipSection h d hdr gs l = Inr e" and "host_ok h"
  shows "slots_moved d e"
  by (rule for_each_moved [OF assms(1) [unfolded clusterProcessGossipSection_def Let_def], of "\<lambda>c. c"])
    (rule gossip_step_moved [OF _ assms(2)])

lemma ping_moved [moved]:
  assumes "packet_ping h d s l hdr meet gs = Inr e" and "host_ok h"
  shows "slots_moved d e"
proof -
  have "post (slots_moved d) (packet_ping h d s l hdr meet gs)"
    unfolding packet_ping_def Let_def
    by (intro post_rules)
      (auto split: option.splits if_splits dest!: moved gossip_moved [OF _ assms(2)], simp_all add: slots_moved_def assms(2))
  then show ?thesis by (rule postD [OF _ assms(1)])
qed

lemma link_moved [moved]:
  assumes "packet_link h d s l hdr = Inr (b, e)"
  shows "slots_moved d e"
proof -
  have "post (\<lambda>r. slots_moved d (snd r)) (packet_link h d s l hdr)"
    unfolding packet_link_def Let_def
    by (intro post_rules) (auto split: if_splits dest!: moved, simp_all add: slots_moved_def)
  then show ?thesis using postD [OF _ assms(1)] by fastforce
qed

lemma pong_moved [moved]:
  assumes "packet_pong d l = Inr e"
  shows "slots_moved d e"
proof -
  have "slots_moved d (d\<lparr>ticks := k\<rparr>)" for k by (simp add: moved_view)
  then have "post (slots_moved d) (packet_pong d l)"
    unfolding packet_pong_def Let_def mstime_def prod.case
    by (intro post_rules postI) (safe dest!: moved, simp_all add: slots_moved_def)
  then show ?thesis by (rule postD [OF _ assms(1)])
qed

lemma delNodeSlots_moved [moved]:
  assumes "clusterDelNodeSlots d p = Inr (k, e)"
  shows "slots_moved d e"
proof -
  have "slots_moved (snd (0 :: int, d)) (snd (k, e))"
    by (rule for_each_moved [OF assms [unfolded clusterDelNodeSlots_def]])
      (auto split: if_splits dest: delSlot_moved)
  then show ?thesis by simp
qed

lemma to_slave_moved [moved]:
  assumes "master_to_slave d s = Inr e"
  shows "slots_moved d e"
proof -
  have "post (slots_moved d) (master_to_slave d s)"
    unfolding master_to_slave_def
    by (intro post_rules) (auto split: if_splits dest!: moved, simp_all add: slots_moved_def)
  then show ?thesis by (rule postD [OF _ assms(1)])
qed

lemma role_moved [moved]:
  assumes "packet_role d s hdr = Inr e"
  shows "slots_moved d e"
proof -
  have "post (slots_moved d) (packet_role d s hdr)"
    unfolding packet_role_def Let_def
    by (intro post_rules) (auto split: if_splits intro!: postI dest!: moved, simp_all add: slots_moved_def)
  then show ?thesis by (rule postD [OF _ assms(1)])
qed

lemma update_slot_moved:
  assumes "update_slot sender epoch claimed cm j s = Inr s'" and "j < REDIS_CLUSTER_SLOTS"
  shows "slots_moved (snd (snd s)) (snd (snd s'))"
proof -
  obtain nm dirty c where s: "s = (nm, dirty, c)" by (cases s)
  have "slots_moved c (clusterDoBeforeSleep fl e)"
    if "clusterDelSlot c j = Inr (b1, d)" "clusterAddSlot d (Some sender) j = Inr (b2, e)" for b1 b2 d e fl
    using delSlot_moved [OF that(1) assms(2)] addSlot_moved [OF that(2) assms(2)] by (simp add: slots_moved_def)
  then have "post (\<lambda>s'. slots_moved c (snd (snd s'))) (update_slot sender epoch claimed cm j (nm, dirty, c))"
    unfolding update_slot_def Let_def prod.case
    by (intro post_rules) auto
  then show ?thesis using postD [OF _ assms(1) [unfolded s]] s by simp
qed

lemma updateSlots_moved [moved]:
  assumes "clusterUpdateSlotsConfigWith d s epoch claimed = Inr e"
  shows "slots_moved d e"
proof -
  have L: "slots_moved d f" if "for_each (update_slot s epoch claimed cm) [0..<REDIS_CLUSTER_SLOTS] (None, [], d) = Inr (nm, dirty, f)"
    for cm nm dirty f
    using for_each_moved [OF that, of "\<lambda>s. snd (snd s)"] update_slot_moved by simp
  have "slots_moved f (f\<lparr>effects := effects f @ map DelKeysInSlot dirty\<rparr>)" for f dirty by (simp add: moved_view)
  then have "post (slots_moved d) (clusterUpdateSlotsConfigWith d s epoch claimed)"
    unfolding clusterUpdateSlotsConfigWith_def Let_def
    by (intro post_rules) (auto dest!: L setMaster_view [THEN moved_view] intro: moved_trans, simp_all add: slots_moved_def)
  then show ?thesis by (rule postD [OF _ assms])
qed

lemma packet_slots_moved [moved]:
  assumes "packet_slots d s hdr epoch = Inr e"
  shows "slots_moved d e"
proof -
  have "post (slots_moved d) (packet_slots d s hdr epoch)"
    unfolding packet_slots_def Let_def
    by (intro post_rules) (auto split: if_splits option.splits intro!: postI dest!: moved, simp_all add: slots_moved_def)
  then show ?thesis by (rule postD [OF _ assms(1)])
qed

lemma packet_fail_moved [moved]:
  assumes "packet_fail d about = Inr e"
  shows "slots_moved d e"
proof -
  have "slots_moved d (d\<lparr>ticks := k\<rparr>)" for k by (simp add: moved_view)
  then have "post (slots_moved d) (packet_fail d about)"
    unfolding packet_fail_def Let_def mstime_def prod.case
    by (intro post_rules) (auto dest!: updn_view [THEN moved_view], simp_all add: slots_moved_def)
  then show ?thesis by (rule postD [OF _ assms(1)])
qed

lemma packet_ack_view: "packet_ack c s epoch = Inr c' \<Longrightarrow> core_view c' = core_view c"
  by (auto simp: packet_ack_def)

lemma packet_mfstart_view: "packet_mfstart c s = Inr c' \<Longrightarrow> core_view c' = core_view c"
  by (auto simp: packet_mfstart_def mstime_def Let_def split: if_splits)

lemmas view_moves'' [moved] = packet_ack_view [THEN moved_view] packet_mfstart_view [THEN moved_view]

lemma packet_update_moved [moved]:
  assumes "packet_update d epoch nm claimed = Inr e"
  shows "slots_moved d e"
proof -
  have "post (slots_moved d) (packet_update d epoch nm claimed)"
    unfolding packet_update_def Let_def
    by (intro post_rules) (auto split: if_splits option.splits intro!: postI dest!: moved, simp_all add: slots_moved_def)
  then show ?thesis by (rule postD [OF _ assms(1)])
qed

section \<open>Steps and epochs\<close>

text \<open>
  A step keeps the slot invariant and the identity of the node, and treats
  votes as follows: none is sent and the last vote stays, or one is sent for
  the current epoch, which then is the epoch of the last vote and was not before.
\<close>

definition vote_step :: "cluster \<Rightarrow> cluster \<Rightarrow> bool" where
  "vote_step c c' \<longleftrightarrow> (slots_ok c \<longrightarrow> slots_ok c') \<and> myself c' = myself c \<and>
     (votes c' = votes c \<and> lastVoteEpoch c' = lastVoteEpoch c \<or>
      currentEpoch c' \<noteq> lastVoteEpoch c \<and> lastVoteEpoch c' = currentEpoch c' \<and>
      (votes c' = votes c \<or> (\<exists>s. votes c' = votes c @ [(currentEpoch c', s)])))"

lemma vote_step_moved: "slots_moved c c' \<Longrightarrow> vote_step c c'"
  by (simp add: vote_step_def slots_moved_def)

lemma vote_step_bumped: "epoch_bumped c c' \<Longrightarrow> vote_step c c'"
  using slots_ok_view [of c' c] by (auto simp: vote_step_def epoch_bumped_def core_view_def slot_view_def votes_def)

lemma vote_step_granted: "vote_granted c c' \<Longrightarrow> vote_step c c'"
  using slots_ok_view [of c' c] by (auto simp: vote_step_def vote_granted_def)

text \<open>
  A quiet step sends no vote and keeps the last vote; the epoch stays or is
  incremented once.  It may come before or behind a move of slots.
\<close>

definition quiet :: "cluster \<Rightarrow> cluster \<Rightarrow> bool" where
  "quiet c c' \<longleftrightarrow> (slots_ok c \<longrightarrow> slots_ok c') \<and> myself c' = myself c \<and> votes c' = votes c \<and>
     lastVoteEpoch c' = lastVoteEpoch c \<and> (currentEpoch c' = currentEpoch c \<or> currentEpoch c' = currentEpoch c + 1)"

lemma quiet_moved: "slots_moved c c' \<Longrightarrow> quiet c c'"
  by (simp add: quiet_def slots_moved_def)

lemma quiet_bumped: "epoch_bumped c c' \<Longrightarrow> quiet c c'"
  using slots_ok_view [of c' c] by (auto simp: quiet_def epoch_bumped_def core_view_def slot_view_def votes_def)

lemma quiet_then: "quiet c d \<Longrightarrow> slots_moved d e \<Longrightarrow> quiet c e"
  by (simp add: quiet_def slots_moved_def)

lemma then_quiet: "slots_moved c d \<Longrightarrow> quiet d e \<Longrightarrow> quiet c e"
  by (simp add: quiet_def slots_moved_def)

text \<open>
  The epoch of a message raises the own one.  What a step other than a reset
  does: it raises the epoch to \<open>k\<close>, at most, and increments it once, at most.
\<close>

definition raised :: "u64 \<Rightarrow> cluster \<Rightarrow> cluster \<Rightarrow> bool" where
  "raised k c c' \<longleftrightarrow> (slots_ok c \<longrightarrow> slots_ok c') \<and> myself c' = myself c \<and> votes c' = votes c \<and>
     lastVoteEpoch c' = lastVoteEpoch c \<and> (currentEpoch c' = currentEpoch c \<or> currentEpoch c < k \<and> currentEpoch c' = k)"

definition epoch_step :: "u64 \<Rightarrow> cluster \<Rightarrow> cluster \<Rightarrow> bool" where
  "epoch_step k c c' \<longleftrightarrow> (\<exists>m. (m = currentEpoch c \<or> currentEpoch c < k \<and> m = k) \<and> (currentEpoch c' = m \<or> currentEpoch c' = m + 1))"

lemma raised_moved: "slots_moved c c' \<Longrightarrow> raised k c c'"
  by (simp add: raised_def slots_moved_def)

lemma raised_then: "raised k c d \<Longrightarrow> slots_moved d e \<Longrightarrow> raised k c e"
  by (simp add: raised_def slots_moved_def)

lemma epoch_step_quiet: "quiet c c' \<Longrightarrow> epoch_step k c c'"
  by (auto simp: quiet_def epoch_step_def)

lemma epoch_step_raised: "raised k c c' \<Longrightarrow> epoch_step k c c'"
  by (auto simp: raised_def epoch_step_def)

lemma raised_quiet: "raised k c d \<Longrightarrow> quiet d e \<Longrightarrow> epoch_step k c e"
  by (auto simp: raised_def quiet_def epoch_step_def)

lemma epoch_step_up:
  assumes "epoch_step k c c'" and "currentEpoch c \<noteq> - 1" and "k \<noteq> - 1"
  shows "currentEpoch c \<le> currentEpoch c'"
proof -
  obtain m where m: "m = currentEpoch c \<or> currentEpoch c < k \<and> m = k" "currentEpoch c' = m \<or> currentEpoch c' = m + 1"
    using assms(1) by (auto simp: epoch_step_def)
  have "m \<noteq> - 1" using m(1) assms(2,3) by auto
  then have "1 + m \<noteq> 0" by (simp add: add_eq_0_iff)
  then have "unat (1 + m) = Suc (unat m)" by (rule unatSuc)
  then have "m \<le> m + 1" by (simp add: word_le_nat_alt add.commute)
  then show ?thesis using m by auto
qed

lemma raised_vote: "raised k c d \<Longrightarrow> vote_step d e \<Longrightarrow> vote_step c e"
  by (auto simp: raised_def vote_step_def)

lemma epochs_raised:
  assumes "packet_epochs d s hdr = Inr e"
  shows "raised (m_currentEpoch hdr) d e"
proof -
  have q: "raised k d (d\<lparr>currentEpoch := k\<rparr>)" if "currentEpoch d < k" for k
    using that by (simp add: raised_def slots_ok_def votes_def)
  have "slots_moved c (c\<lparr>ticks := k\<rparr>)" "slots_moved c (c\<lparr>mf_master_offset := m\<rparr>)" for c k m
    by (simp_all add: moved_view)
  then have "post (raised (m_currentEpoch hdr) d) (packet_epochs d s hdr)"
    unfolding packet_epochs_def Let_def mstime_def prod.case
    using q [of "m_currentEpoch hdr"]
    by (intro post_rules) (auto split: if_splits dest!: updn_view [THEN moved_view], simp_all add: raised_def slots_moved_def)
  then show ?thesis by (rule postD [OF _ assms(1)])
qed

lemma quiet_refl [simp]: "quiet c c"
  by (simp add: quiet_def)

lemma quiet_fields [simp]:
  "quiet c (perform a d) \<longleftrightarrow> quiet c d" if "vote_of a = []"
  using that by (simp add: quiet_def)

lemma quiet_sleep [simp]: "quiet c (clusterDoBeforeSleep fl d) \<longleftrightarrow> quiet c d"
  by (simp add: quiet_def)

lemma moved_sleep [simp]: "slots_moved c (clusterDoBeforeSleep fl d) \<longleftrightarrow> slots_moved c d"
  by (simp add: slots_moved_def)

lemma address_moved: "packet_address h d s l hdr ping = Inr e \<Longrightarrow> slots_moved d e"
  by (auto simp: packet_address_def moved_view split: option.splits if_splits dest!: updateAddress_view [THEN moved_view])

lemma collision_quiet: "packet_collision d s epoch = Inr e \<Longrightarrow> quiet d e"
  by (auto simp: packet_collision_def split: if_splits dest!: collision_view dest: quiet_bumped)

lemma sender_quiet:
  assumes "packet_sender h d s l hdr epoch gs = Inr e" and "host_ok h"
  shows "quiet d e"
proof -
  obtain d1 d2 d3 where "packet_role d s hdr = Inr d1" "packet_slots d1 s hdr epoch = Inr d2"
    "packet_collision d2 s epoch = Inr d3" "clusterProcessGossipSection h d3 hdr gs l = Inr e"
    using assms(1) by (auto simp: packet_sender_def)
  then show ?thesis
    using role_moved packet_slots_moved collision_quiet gossip_moved [OF _ assms(2)] quiet_then then_quiet by metis
qed

lemma packet_config_quiet:
  assumes "packet_config h d s l hdr epoch ping pong gs = Inr (b, e)" and "host_ok h"
  shows "quiet d e"
proof -
  obtain g d1 where d1: "packet_link h d s l hdr = Inr (g, d1)"
    and rest: "(if \<not> g then Inr (False, d1)
      else rbind (packet_address h d1 s l hdr ping) (\<lambda>c.
        rbind (case l of Some l \<Rightarrow> if pong then packet_pong c l else Inr c | None \<Rightarrow> Inr c) (\<lambda>c.
        rbind (case s of None \<Rightarrow> Inr c | Some s \<Rightarrow> packet_sender h c s l hdr epoch gs) (\<lambda>c. Inr (True, c))))) = Inr (b, e)"
    using assms(1) by (auto simp: packet_config_def)
  have "quiet d1 e"
  proof (cases g)
    case True
    then obtain d2 d3 where "packet_address h d1 s l hdr ping = Inr d2"
      and "(case l of Some l \<Rightarrow> if pong then packet_pong d2 l else Inr d2 | None \<Rightarrow> Inr d2) = Inr d3"
      and "(case s of None \<Rightarrow> Inr d3 | Some s \<Rightarrow> packet_sender h d3 s l hdr epoch gs) = Inr e"
      using rest by auto
    then have "slots_moved d1 d2" "slots_moved d2 d3" "quiet d3 e"
      by (auto split: option.splits if_splits dest: address_moved pong_moved sender_quiet [OF _ assms(2)])
    then show ?thesis by (blast intro: then_quiet)
  qed (use rest in auto)
  then show ?thesis using link_moved [OF d1] by (blast intro: then_quiet)
qed

text \<open>A packet that is processed is a step.\<close>

lemma processPacket_step:
  assumes "clusterProcessPacket h c l hdr rcvlen = Inr (b, e)" and "host_ok h"
  shows "vote_step c e \<and> epoch_step (m_currentEpoch hdr) c e"
proof (cases "packet_sane hdr rcvlen")
  case False
  then show ?thesis using assms(1) by (auto simp: clusterProcessPacket_def vote_step_def epoch_step_def)
next
  case True
  define sender where "sender = clusterLookupNode c (m_sender hdr)"
  from True assms(1) obtain known d where
    d: "(if known then packet_epochs c (the sender) hdr else Inr c) = Inr d" and
    rest: "(let ok = (\<lambda>r. rbind r (\<lambda>c. Inr (True, c)));
             ep = (if known then m_configEpoch hdr else 0) in
        case m_data hdr of
          Ping gs \<Rightarrow> rbind (packet_ping h d sender l hdr False gs) (\<lambda>c.
            packet_config h c sender l hdr ep True False gs)
        | Meet gs \<Rightarrow> rbind (packet_ping h d sender l hdr True gs) (\<lambda>c.
            packet_config h c sender l hdr ep False False gs)
        | Pong gs \<Rightarrow> packet_config h d sender l hdr ep False True gs
        | Fail about \<Rightarrow> ok (if sender \<noteq> None then packet_fail d about else Inr d)
        | AuthRequest \<Rightarrow> ok (case sender of None \<Rightarrow> Inr d | Some s \<Rightarrow> clusterSendFailoverAuthIfNeeded d s (request_of hdr))
        | AuthAck \<Rightarrow> ok (case sender of None \<Rightarrow> Inr d | Some s \<Rightarrow> packet_ack d s (if known then m_currentEpoch hdr else 0))
        | MfStart \<Rightarrow> ok (case sender of None \<Rightarrow> Inr d | Some s \<Rightarrow> packet_mfstart d s)
        | Update epoch nodename claimed \<Rightarrow>
            ok (if sender \<noteq> None then packet_update d epoch nodename claimed else Inr d)
        | Publish _ _ \<Rightarrow> Inr (True, d)
        | Unknown \<Rightarrow> Inr (True, d)) = Inr (b, e)"
    unfolding clusterProcessPacket_def Let_def sender_def [symmetric] by auto
  let ?k = "m_currentEpoch hdr"
  have qd: "raised ?k c d" using d by (auto split: if_splits dest: epochs_raised intro: raised_moved)
  have v: "vote_step c f \<and> epoch_step ?k c f" if "quiet d f" for f
    using raised_quiet [OF qd that] raised_vote [OF qd, of f] that by (simp add: quiet_def vote_step_def)
  have g: "vote_step c f \<and> epoch_step ?k c f" if "vote_granted d f" for f
    using raised_vote [OF qd vote_step_granted [OF that]] that qd
    by (auto simp: vote_granted_def epoch_step_def raised_def)
  note ping = ping_moved [OF _ assms(2)] and conf = packet_config_quiet [OF _ assms(2)]
  show ?thesis
  proof (cases "m_data hdr")
    case AuthRequest
    have "quiet d e \<or> vote_granted d e"
      using rest unfolding AuthRequest Let_def
      by (auto split: option.splits dest!: authIfNeeded_view intro: quiet_moved moved_view)
    then show ?thesis using v g by blast
  qed (use rest in \<open>auto simp: Let_def split: if_splits option.splits intro!: v dest: ping [THEN quiet_moved] conf
      packet_fail_moved [THEN quiet_moved] packet_ack_view [THEN moved_view, THEN quiet_moved]
      packet_mfstart_view [THEN moved_view, THEN quiet_moved] packet_update_moved [THEN quiet_moved]
      then_quiet [OF ping conf]\<close>)
qed

section \<open>What the timers and commands change\<close>

lemma sendPing_moved [moved]: "clusterSendPing d p meet = Inr e \<Longrightarrow> slots_moved d e"
  by (auto simp: clusterSendPing_def mstime_def split: if_splits dest!: updn_view intro!: moved_view)

lemma new_link_moved [moved]:
  assumes "cron_new_link p n d = Inr e"
  shows "slots_moved d e"
proof -
  have "slots_moved d (d\<lparr>ticks := k\<rparr>)" for k by (simp add: moved_view)
  then have "post (slots_moved d) (cron_new_link p n d)"
    unfolding cron_new_link_def Let_def mstime_def prod.case
    by (intro post_rules) (auto split: if_splits intro!: postI dest!: moved, simp_all add: slots_moved_def)
  then show ?thesis by (rule postD [OF _ assms])
qed

lemma connect_moved:
  assumes "cron_connect h now t x d = Inr e"
  shows "slots_moved d e"
proof -
  have m: "slots_moved d (d\<lparr>ticks := k\<rparr>)" for k by (simp add: moved_view)
  have "post (slots_moved d) (cron_connect h now t x d)"
    unfolding cron_connect_def Let_def mstime_def prod.case
    by (intro post_rules postI) (auto dest!: delNode_moved new_link_moved updn_view [THEN moved_view] intro: moved_trans [OF m])
  then show ?thesis by (rule postD [OF _ assms])
qed

lemma random_ping_moved: "cron_random_ping h d = Inr e \<Longrightarrow> slots_moved d e"
  by (auto simp: cron_random_ping_def split: option.splits dest: sendPing_moved)

lemma drop_link_moved: "cron_drop_link now p n d = Inr e \<Longrightarrow> slots_moved d e"
  by (auto simp: cron_drop_link_def split: option.splits if_splits dest: freeLink_view [THEN moved_view])

lemma timeout_moved:
  assumes "cron_timeout now me p d = Inr (b, e)"
  shows "slots_moved d e"
proof -
  have "post (\<lambda>r. slots_moved d (snd r)) (cron_timeout now me p d)"
    unfolding cron_timeout_def
    by (intro post_rules) (auto dest!: sendPing_moved updn_view [THEN moved_view])
  then show ?thesis using postD [OF _ assms] by fastforce
qed

lemma check_moved:
  assumes "cron_check x s = Inr s'"
  shows "slots_moved (snd (snd s)) (snd (snd s'))"
proof -
  obtain k u c where s: "s = (k, u, c)" by (cases s)
  have t: "slots_moved c (c\<lparr>ticks := k\<rparr>)" for k by (simp add: moved_view)
  have "post (\<lambda>r. slots_moved c (snd (snd r))) (cron_check x (k, u, c))"
    unfolding cron_check_def Let_def mstime_def prod.case
    by (intro post_rules) (auto dest!: drop_link_moved timeout_moved intro: t moved_trans moved_trans [OF t])
  then show ?thesis using postD [OF _ assms [unfolded s]] s by simp
qed

lemma slaveFailover_quiet: "clusterHandleSlaveFailover r d = Inr e \<Longrightarrow> quiet d e"
  using slaveFailover_steps quiet_moved quiet_bumped by blast

lemma manual_moved: "slots_moved d (clusterHandleManualFailover d)" "slots_moved d (manualFailoverCheckTimeout d)"
  by (rule moved_view, simp add: clusterHandleManualFailover_def manualFailoverCheckTimeout_def mstime_def)+

lemma cron_slave_quiet:
  assumes "cron_slave h k d = Inr e"
  shows "quiet d e"
proof -
  obtain o1 m t where k: "k = (o1, m, t)" by (cases k)
  from assms obtain d1 where
    d1: "clusterHandleSlaveFailover (random_num h (clusterHandleManualFailover d)) (clusterHandleManualFailover d) = Inr d1"
    and e: "(if o1 \<noteq> 0 \<and> m \<ge> 2 \<and> t = m then clusterHandleSlaveMigration d1 m else Inr d1) = Inr e"
    by (auto simp: cron_slave_def k Let_def split del: if_split)
  have "quiet d d1" by (rule then_quiet [OF manual_moved(1) slaveFailover_quiet [OF d1]])
  moreover have "slots_moved d1 e" using e slaveMigration_view [THEN moved_view] by (auto split: if_splits simp: moved_view)
  ultimately show ?thesis by (rule quiet_then)
qed

lemma moved_perform [simp]: "slots_moved c (perform a d) \<longleftrightarrow> slots_moved c d" if "vote_of a = []"
  using that by (simp add: slots_moved_def)

lemma replication_moved: "cron_replication d = Inr e \<Longrightarrow> slots_moved d e"
  by (auto simp: cron_replication_def moved_view split: option.splits if_splits)

lemma cron_quiet:
  assumes "clusterCron h c = Inr e"
  shows "quiet c e"
proof -
  define now where "now = fst (mstime c)"
  define c0 where "c0 = snd (mstime c)\<lparr>cron_iteration := cron_iteration (snd (mstime c)) + 1\<rparr>"
  obtain t c1 c2 k u c3 c4 c5 b where
    c1: "for_each (cron_connect h now t) (nodes c0) c0 = Inr c1" and
    c2: "(if cron_iteration c1 mod 10 = 0 then cron_random_ping h c1 else Inr c1) = Inr c2" and
    c3: "for_each cron_check (nodes c2) ((0, 0, 0), False, c2) = Inr (k, u, c3)" and
    c4: "cron_replication c3 = Inr c4" and
    c5: "(if b then cron_slave h k (manualFailoverCheckTimeout c4) else Inr (manualFailoverCheckTimeout c4)) = Inr c5" and
    c6: "(if u \<or> cstate c5 = ClusterFail then clusterUpdateState c5 else Inr c5) = Inr e"
    using assms unfolding clusterCron_def Let_def now_def c0_def by (auto simp: split_beta cong: if_cong split del: if_split)
  have "slots_moved c c0" by (simp add: c0_def mstime_def moved_view)
  moreover have "slots_moved c0 c1" using for_each_moved [OF c1, of "\<lambda>c. c"] connect_moved by blast
  moreover have "slots_moved c1 c2" using c2 by (auto simp: moved_view split: if_splits dest: random_ping_moved)
  moreover have "slots_moved c2 c3" using for_each_moved [OF c3, of "\<lambda>s. snd (snd s)"] check_moved by simp
  moreover have "slots_moved c3 c4" by (rule replication_moved [OF c4])
  ultimately have "slots_moved c c4" by (meson moved_trans)
  moreover have "quiet c4 c5"
    using c5 then_quiet [OF manual_moved(2) cron_slave_quiet] manual_moved(2) [THEN quiet_moved] by (auto split: if_splits)
  moreover have "slots_moved c5 e" using c6 by (auto simp: moved_view split: if_splits dest: updateState_view [THEN moved_view])
  ultimately show ?thesis by (meson quiet_then then_quiet)
qed

lemma beforeSleep_quiet:
  assumes "clusterBeforeSleep h c = Inr e"
  shows "quiet c e"
proof -
  have q: "quiet c (d\<lparr>todo_before_sleep := k\<rparr>) \<longleftrightarrow> quiet c d" for d k
    by (simp add: quiet_def slots_ok_def votes_def)
  have "post (quiet c) (clusterBeforeSleep h c)"
    unfolding clusterBeforeSleep_def Let_def
    by (intro post_rules)
      (auto split: if_splits simp: q moved_view dest!: slaveFailover_quiet updateState_view [THEN moved_view]
        intro: quiet_then quiet_moved)
  then show ?thesis by (rule postD [OF _ assms])
qed

text \<open>The commands.\<close>

lemma bump_quiet: "clusterBumpConfigEpochWithoutConsensus d = Inr (b, e) \<Longrightarrow> quiet d e"
  using bumpEpoch_view [of d b e] by (auto split: if_splits dest: quiet_bumped)

lemma moved_opened [simp]:
  "slots_moved c (d\<lparr>importing_slots_from := i\<rparr>) \<longleftrightarrow> slots_moved c d" "slots_moved c (d\<lparr>migrating_slots_to := m\<rparr>) \<longleftrightarrow> slots_moved c d"
  by (simp_all add: slots_moved_def slots_ok_def votes_def)

lemma quiet_opened [simp]:
  "quiet c (d\<lparr>importing_slots_from := i\<rparr>) \<longleftrightarrow> quiet c d" "quiet c (d\<lparr>migrating_slots_to := m\<rparr>) \<longleftrightarrow> quiet c d"
  by (simp_all add: quiet_def slots_ok_def votes_def)

lemma meet_quiet:
  assumes "cluster_meet h d ip port = Inr (r, e)" and "host_ok h"
  shows "quiet d e"
  using assms by (auto simp: cluster_meet_def split: option.splits dest: startHandshake_moved [THEN quiet_moved])

lemma flushslots_quiet: "cluster_flushslots d = Inr (r, e) \<Longrightarrow> quiet d e"
  by (auto simp: cluster_flushslots_def split: if_splits dest: delNodeSlots_moved [THEN quiet_moved])

lemma assign_slot_moved:
  assumes "assign_slot del seen j d = Inr e" and "j < REDIS_CLUSTER_SLOTS"
  shows "slots_moved d e"
proof -
  have "slots_moved d f" if "clusterDelSlot d' j = Inr (b, f)" "slots_moved d d'" for d' b f
    using moved_trans [OF that(2) delSlot_moved [OF that(1) assms(2)]] .
  moreover have "slots_moved d f" if "clusterAddSlot d' (Some p) j = Inr (b, f)" "slots_moved d d'" for d' b f p
    using moved_trans [OF that(2) addSlot_moved [OF that(1) assms(2)]] .
  ultimately have "post (slots_moved d) (assign_slot del seen j d)"
    unfolding assign_slot_def Let_def
    by (intro post_rules) (auto simp: moved_view moved_opened split: if_splits)
  then show ?thesis by (rule postD [OF _ assms(1)])
qed

lemma addslots_quiet:
  assumes "cluster_addslots d del args = Inr (r, e)"
  shows "quiet d e"
proof -
  have "slots_moved d f" if "for_each (assign_slot del seen) [0..<REDIS_CLUSTER_SLOTS] d = Inr f" for seen f
    using for_each_moved [OF that, of "\<lambda>c. c"] assign_slot_moved by simp
  then have "post (\<lambda>r. quiet d (snd r)) (cluster_addslots d del args)"
    unfolding cluster_addslots_def by (intro post_rules) (auto intro: quiet_moved)
  then show ?thesis using postD [OF _ assms] by fastforce
qed

lemma getSlot_less: "getSlotOrReply a = Some slot \<Longrightarrow> slot < REDIS_CLUSTER_SLOTS"
  by (auto simp: getSlotOrReply_def split: option.splits if_splits)

lemma setslot_assign_quiet:
  assumes "setslot_assign d slot n = Inr e" and "slot < REDIS_CLUSTER_SLOTS"
  shows "quiet d e"
proof -
  have D: "quiet d f" if "clusterDelSlot d' slot = Inr (b, f)" "quiet d d'" for d' b f
    using quiet_then [OF that(2) delSlot_moved [OF that(1) assms(2)]] .
  have A: "quiet d f" if "clusterAddSlot d' (Some p) slot = Inr (b, f)" "quiet d d'" for d' b f p
    using quiet_then [OF that(2) addSlot_moved [OF that(1) assms(2)]] .
  have B: "quiet d f" if "clusterBumpConfigEpochWithoutConsensus d' = Inr (b, f)" "slots_moved d d'" for d' b f
    using then_quiet [OF that(2) bump_quiet [OF that(1)]] .
  obtain m :: "ptr option" where e: "(let c = (if countKeysInSlot (env d) slot = 0 \<and> m \<noteq> None
              then d\<lparr>migrating_slots_to := (migrating_slots_to d)[slot := None]\<rparr> else d) in
     rbind (rd (importing_slots_from c) slot) (\<lambda>i.
     rbind (if n = myself c \<and> i \<noteq> None
            then rbind (clusterBumpConfigEpochWithoutConsensus c) (\<lambda>(_, c).
              Inr (c\<lparr>importing_slots_from := (importing_slots_from c)[slot := None]\<rparr>))
            else Inr c) (\<lambda>c.
     rbind (clusterDelSlot c slot) (\<lambda>(_, c).
     rbind (clusterAddSlot c (Some n) slot) (\<lambda>(_, c). Inr c))))) = Inr e"
    using assms(1) unfolding setslot_assign_def by auto
  define d1 where "d1 = (if countKeysInSlot (env d) slot = 0 \<and> m \<noteq> None
              then d\<lparr>migrating_slots_to := (migrating_slots_to d)[slot := None]\<rparr> else d)"
  have q1: "slots_moved d d1" by (simp add: d1_def moved_view)
  obtain i :: "ptr option" and d2 d3 b1 b2 where
    d2: "(if n = myself d1 \<and> i \<noteq> None
            then rbind (clusterBumpConfigEpochWithoutConsensus d1) (\<lambda>(_, c).
              Inr (c\<lparr>importing_slots_from := (importing_slots_from c)[slot := None]\<rparr>))
            else Inr d1) = Inr d2"
    and d3: "clusterDelSlot d2 slot = Inr (b1, d3)" and e': "clusterAddSlot d3 (Some n) slot = Inr (b2, e)"
    using e unfolding Let_def d1_def [symmetric] by auto
  have "quiet d d2" using d2 q1 by (auto split: if_splits intro: B quiet_moved)
  then show ?thesis using A [OF e' D [OF d3]] by simp
qed

lemma setslot_quiet:
  assumes "cluster_setslot d argv = Inr (r, e)"
  shows "quiet d e"
proof -
  have "quiet d f" if "setslot_node d slot a = Inr (Inr f)" "slot < REDIS_CLUSTER_SLOTS" for slot a f
    using that by (auto simp: setslot_node_def split: option.splits if_splits intro: setslot_assign_quiet)
  then have "post (\<lambda>r. quiet d (snd r)) (cluster_setslot d argv)"
    unfolding cluster_setslot_def
    by (intro post_rules)
      (auto split: if_splits sum.splits simp: setslot_migrating_def setslot_importing_def setslot_stable_def dest!: getSlot_less)
  then show ?thesis using postD [OF _ assms] by fastforce
qed

lemma blacklistAdd_view: "clusterBlacklistAddNode c p = Inr c' \<Longrightarrow> core_view c' = core_view c"
  by (auto simp: clusterBlacklistAddNode_def Let_def split: if_splits)

lemma forget_quiet:
  assumes "cluster_forget d a = Inr (r, e)"
  shows "quiet d e"
proof -
  have "post (\<lambda>r. quiet d (snd r)) (cluster_forget d a)"
    unfolding cluster_forget_def
    by (intro post_rules)
      (auto dest!: blacklistAdd_view [THEN moved_view] delNode_moved intro: moved_trans quiet_moved)
  then show ?thesis using postD [OF _ assms] by fastforce
qed

lemma replicate_quiet:
  assumes "cluster_replicate d a = Inr (r, e)"
  shows "quiet d e"
proof -
  have "post (\<lambda>r. quiet d (snd r)) (cluster_replicate d a)"
    unfolding cluster_replicate_def
    by (intro post_rules) (auto dest!: setMaster_view [THEN moved_view, THEN quiet_moved])
  then show ?thesis using postD [OF _ assms] by fastforce
qed

lemma count_reports_quiet: "cluster_count_failure_reports d a = Inr (r, e) \<Longrightarrow> quiet d e"
  by (auto simp: cluster_count_failure_reports_def split: option.splits
      dest: reportsCount_view [THEN moved_view, THEN quiet_moved])

lemma start_failover_quiet:
  assumes "start_manual_failover d force takeover m = Inr e"
  shows "quiet d e"
proof -
  have q: "slots_moved d (resetManualFailover d\<lparr>ticks := k, mf_end := t\<rparr>)" for k t
    by (simp add: moved_view)
  have t: "quiet d f" if "clusterBumpConfigEpochWithoutConsensus (resetManualFailover d\<lparr>ticks := k, mf_end := t\<rparr>) = Inr (b, g)"
    "clusterFailoverReplaceYourMaster g = Inr f" for k t b g f
    using q bump_quiet [OF that(1)] replaceMaster_moved [OF that(2)] by (blast intro: quiet_then then_quiet)
  have "post (quiet d) (start_manual_failover d force takeover m)"
    unfolding start_manual_failover_def Let_def mstime_def prod.case
    by (intro post_rules postI) (auto intro: t q simp: quiet_moved moved_view)
  then show ?thesis by (rule postD [OF _ assms])
qed

lemma failover_quiet:
  assumes "cluster_failover d argv = Inr (r, e)"
  shows "quiet d e"
proof -
  have "post (\<lambda>r. quiet d (snd r)) (cluster_failover d argv)"
    unfolding cluster_failover_def Let_def
    by (intro post_rules) (auto dest!: start_failover_quiet)
  then show ?thesis using postD [OF _ assms] by fastforce
qed

text \<open>The epoch of a command raises the own one; it is not negative, so that it is not the greatest word.\<close>

definition command_raised :: "cluster \<Rightarrow> cluster \<Rightarrow> bool" where
  "command_raised c c' \<longleftrightarrow> (\<exists>k. raised k c c')"

lemma command_raised_moved: "slots_moved c c' \<Longrightarrow> command_raised c c'"
  by (auto simp: command_raised_def intro: raised_moved)

lemma set_epoch_raised:
  assumes "cluster_set_config_epoch d a = Inr (r, e)"
  shows "command_raised d e"
proof -
  have q: "command_raised d (f\<lparr>currentEpoch := k\<rparr>)" if "slots_moved d f" "currentEpoch f < k" for f k
    unfolding command_raised_def raised_def
    by (rule exI [of _ k]) (use that in \<open>simp add: slots_moved_def slots_ok_def votes_def\<close>)
  have t: "command_raised c (clusterDoBeforeSleep fl c') = command_raised c c'" for c c' fl
    by (simp add: command_raised_def raised_def)
  have "post (\<lambda>r. command_raised d (snd r)) (cluster_set_config_epoch d a)"
    unfolding cluster_set_config_epoch_def Let_def
    by (intro post_rules) (auto split: if_splits simp: t moved_view command_raised_moved dest!: updn_view [THEN moved_view] intro: q)
  then show ?thesis using postD [OF _ assms] by fastforce
qed

text \<open>A reset: the invariant holds after it; a soft one is quiet.\<close>

lemma reset_parts:
  assumes "clusterReset nm d hard = Inr e"
  obtains d1 where "slots_moved d d1" "hard \<Longrightarrow> slots_ok d1 \<longrightarrow> slots_ok e" "hard \<Longrightarrow> myself e = myself d1"
    "\<not> hard \<Longrightarrow> slots_moved d1 e"
proof -
  obtain me :: clusterNode and d0 d1 d2 d3 where
    d0: "(if nodeIsSlave me then rbind (clusterSetNodeAsMaster d (myself d)) (\<lambda>c.
              Inr (perform EmptyDb (perform UnsetReplicationMaster c))) else Inr d) = Inr d0" and
    d1: "for_each (\<lambda>j c. rbind (clusterDelSlot c j) (\<lambda>(_, c). Inr c)) [0..<REDIS_CLUSTER_SLOTS]
      (resetManualFailover (clusterCloseAllSlots d0)) = Inr d1" and
    d2: "for_each (\<lambda>e c. if snd e = myself c then Inr c else clusterDelNode c (snd e)) (nodes d1) d1 = Inr d2" and
    d3: "(if hard then
              rbind (updn (d2\<lparr>currentEpoch := 0, lastVoteEpoch := 0\<rparr>) (Some (myself d2))
                (n_configEpoch_update (\<lambda>_. 0))) (\<lambda>c.
              rbind (getn c (Some (myself c))) (\<lambda>me.
              let c = c\<lparr>nodes := filter (\<lambda>e. fst e \<noteq> n_name me) (nodes c)\<rparr> in
              rbind (updn c (Some (myself c)) (n_name_update (\<lambda>_. nm))) (\<lambda>c.
              rbind (clusterAddNode c (myself c)) (\<lambda>(_, c). Inr c))))
            else Inr d2) = Inr d3" and
    e: "e = clusterDoBeforeSleep
       (CLUSTER_TODO_SAVE_CONFIG OR CLUSTER_TODO_UPDATE_STATE OR CLUSTER_TODO_FSYNC_CONFIG) d3"
    using assms unfolding clusterReset_def Let_def by (auto split del: if_split)
  have "slots_moved d d0"
    using d0 by (auto simp: moved_view split: if_splits dest: setNodeAsMaster_view [THEN moved_view])
  moreover have "slots_moved d0 (resetManualFailover (clusterCloseAllSlots d0))"
    by (simp add: moved_view)
  moreover have "slots_moved (resetManualFailover (clusterCloseAllSlots d0)) d1"
    by (rule for_each_moved [OF d1, of "\<lambda>c. c"]) (auto dest: delSlot_moved)
  moreover have "slots_moved d1 d2"
    by (rule for_each_moved [OF d2, of "\<lambda>c. c"]) (auto simp: moved_view split: if_splits dest: delNode_moved)
  ultimately have q: "slots_moved d d2" by (blast intro: moved_trans)
  have h: "(slots_ok d2 \<longrightarrow> slots_ok e) \<and> myself e = myself d2" if hard: hard
  proof -
    obtain f g b and me :: clusterNode where f: "updn (d2\<lparr>currentEpoch := 0, lastVoteEpoch := 0\<rparr>) (Some (myself d2))
        (n_configEpoch_update (\<lambda>_. 0)) = Inr f"
      and g: "updn (f\<lparr>nodes := filter (\<lambda>e. fst e \<noteq> n_name me) (nodes f)\<rparr>) (Some (myself f)) (n_name_update (\<lambda>_. nm)) = Inr g"
      and k: "clusterAddNode g (myself g) = Inr (b, d3)"
      using d3 hard by (auto simp: Let_def)
    have "slots_ok (d2\<lparr>currentEpoch := 0, lastVoteEpoch := 0\<rparr>) = slots_ok d2" by (simp add: slots_ok_def)
    moreover have "core_view f = core_view (d2\<lparr>currentEpoch := 0, lastVoteEpoch := 0\<rparr>)"
      by (rule updn_view [OF f]) simp_all
    moreover have "core_view g = core_view f"
      using updn_view [OF g] by simp
    moreover have "core_view d3 = core_view g" using k addNode_view by blast
    ultimately show ?thesis unfolding e by (simp add: core_ok [of f] core_ok [of g] core_ok [of d3])
  qed
  have "slots_moved d2 e" if "\<not> hard" using d3 that by (simp add: e moved_view)
  then show thesis using that [OF q] h by blast
qed

lemma reset_slots_ok: "clusterReset nm d hard = Inr e \<Longrightarrow> slots_ok d \<Longrightarrow> slots_ok e"
  by (erule reset_parts [of nm d hard e]) (auto simp: slots_moved_def)

lemma reset_quiet: "clusterReset nm d False = Inr e \<Longrightarrow> quiet d e"
  by (erule reset_parts [of nm d False e]) (auto intro: moved_trans quiet_moved)

lemma reset_command_quiet:
  assumes "cluster_reset_command h d argv = Inr (r, e)"
  shows "slots_ok d \<longrightarrow> slots_ok e" "\<not> (length argv = 3 \<and> arg_is (argv ! 2) ''hard'') \<Longrightarrow> quiet d e"
  using assms
  by (auto simp: cluster_reset_command_def Let_def split: if_splits dest: reset_slots_ok reset_quiet)

lemma post_pairI: "(\<And>a b. m = Inr (a, b) \<Longrightarrow> P (a, b)) \<Longrightarrow> post P m"
  by (auto simp: post_def)

definition hard_reset :: "u8 list list \<Rightarrow> bool" where
  "hard_reset argv \<longleftrightarrow> arg_is (argv ! 1) ''reset'' \<and> length argv = 3 \<and> arg_is (argv ! 2) ''hard''"

lemma command_cases:
  assumes "clusterCommand h d argv = Inr (r, e)" and "host_ok h"
  shows "quiet d e \<or> command_raised d e \<or> cluster_reset_command h d argv = Inr (r, e) \<and> arg_is (argv ! 1) ''reset''"
proof -
  have "post (\<lambda>x. quiet d (snd x) \<or> command_raised d (snd x) \<or> cluster_reset_command h d argv = Inr x \<and> arg_is (argv ! 1) ''reset'')
    (clusterCommand h d argv)"
    unfolding clusterCommand_def Let_def
    by (intro post_rules post_pairI)
      (simp_all add: meet_quiet [OF _ assms(2)] flushslots_quiet addslots_quiet setslot_quiet forget_quiet
        replicate_quiet count_reports_quiet failover_quiet set_epoch_raised)
  then show ?thesis using postD [OF _ assms(1)] by fastforce
qed

section \<open>The state machine\<close>

text \<open>
  What happens to a node.  \<open>Environment\<close> is a change of what the node reads
  from outside; \<open>Packet\<close> carries the node of the link and the number of bytes
  received, \<open>LinkError\<close> the node of the link.
\<close>

datatype event =
    Packet host "ptr option" clusterMsg nat
  | Cron host
  | BeforeSleep host
  | Command host "u8 list list"
  | LinkError "ptr option"
  | VerifyConfig
  | Environment server_env

fun handle :: "event \<Rightarrow> cluster \<Rightarrow> cluster res" where
  "handle (Packet h lnode hdr rcvlen) c = rbind (clusterProcessPacket h c lnode hdr rcvlen) (\<lambda>(_, c). Inr c)"
| "handle (Cron h) c = clusterCron h c"
| "handle (BeforeSleep h) c = clusterBeforeSleep h c"
| "handle (Command h argv) c = rbind (clusterCommand h c argv) (\<lambda>(_, c). Inr c)"
| "handle (LinkError lnode) c = handleLinkIOError c lnode"
| "handle VerifyConfig c = rbind (verifyClusterConfigWithData c) (\<lambda>(_, c). Inr c)"
| "handle (Environment e) c = Inr (c\<lparr>env := e\<rparr>)"

definition run :: "event list \<Rightarrow> cluster \<Rightarrow> cluster res" where
  "run es c = for_each handle es c"

fun event_ok :: "event \<Rightarrow> bool" where
  "event_ok (Packet h _ _ _) = host_ok h"
| "event_ok (Command h _) = host_ok h"
| "event_ok _ = True"

fun resets :: "event \<Rightarrow> bool" where
  "resets (Command h argv) = hard_reset argv"
| "resets _ = False"

text \<open>The epoch a message carries.\<close>

fun event_epoch :: "event \<Rightarrow> u64" where
  "event_epoch (Packet _ _ hdr _) = m_currentEpoch hdr"
| "event_epoch _ = 0"

lemma vote_step_quiet: "quiet c d \<Longrightarrow> vote_step c d"
  by (simp add: quiet_def vote_step_def)

lemma vote_step_raised: "command_raised c d \<Longrightarrow> vote_step c d"
  by (auto simp: command_raised_def raised_def vote_step_def)

text \<open>The epoch goes down only where the 64-bit counter is at its greatest value, here or in the message.\<close>

definition epoch_kept :: "event \<Rightarrow> cluster \<Rightarrow> cluster \<Rightarrow> bool" where
  "epoch_kept ev c d \<longleftrightarrow> (currentEpoch c \<noteq> - 1 \<and> event_epoch ev \<noteq> - 1 \<longrightarrow> currentEpoch c \<le> currentEpoch d)"

lemma epoch_kept_quiet: "quiet c d \<Longrightarrow> epoch_kept ev c d"
  using epoch_step_up [OF epoch_step_quiet [of c d 0]] by (simp add: epoch_kept_def)

lemma epoch_kept_raised: "command_raised c d \<Longrightarrow> epoch_kept ev c d"
  by (auto simp: epoch_kept_def command_raised_def raised_def)

lemma linkError_quiet: "handleLinkIOError c l = Inr d \<Longrightarrow> quiet c d"
  by (auto simp: handleLinkIOError_def split: option.splits dest: freeLink_view [THEN moved_view, THEN quiet_moved])

lemma handle_step:
  assumes "handle ev c = Inr d" and "event_ok ev"
  shows "slots_ok c \<longrightarrow> slots_ok d" "\<not> resets ev \<Longrightarrow> vote_step c d" "\<not> resets ev \<Longrightarrow> epoch_kept ev c d"
proof -
  have same: "(slots_ok c \<longrightarrow> slots_ok d) \<and> (\<not> resets ev \<longrightarrow> vote_step c d \<and> epoch_kept ev c d)" if "quiet c d \<or> command_raised c d"
    using that by (auto simp: vote_step_quiet epoch_kept_quiet vote_step_raised epoch_kept_raised)
      (auto simp: quiet_def command_raised_def raised_def)
  have "(slots_ok c \<longrightarrow> slots_ok d) \<and> (\<not> resets ev \<longrightarrow> vote_step c d \<and> epoch_kept ev c d)"
  proof (cases ev)
    case (Packet h l hdr n)
    then obtain b where "clusterProcessPacket h c l hdr n = Inr (b, d)" using assms(1) by auto
    then have "vote_step c d" "epoch_step (m_currentEpoch hdr) c d" using processPacket_step assms(2) Packet by auto
    then show ?thesis using Packet epoch_step_up by (auto simp: vote_step_def epoch_kept_def)
  next
    case (Command h argv)
    then obtain r where r: "clusterCommand h c argv = Inr (r, d)" using assms(1) by auto
    have ok: "host_ok h" using assms(2) Command by simp
    from command_cases [OF r ok] consider "quiet c d \<or> command_raised c d"
      | "cluster_reset_command h c argv = Inr (r, d)" "arg_is (argv ! 1) ''reset''" by blast
    then show ?thesis
    proof cases
      case 2
      then show ?thesis using reset_command_quiet [of h c argv r d] Command
        by (auto simp: hard_reset_def intro: vote_step_quiet epoch_kept_quiet)
    qed (rule same)
  next
    case (Environment e)
    then have "quiet c d" using assms(1) by (auto simp: quiet_moved moved_view)
    then show ?thesis by (simp add: same)
  next
    case (Cron h)
    then show ?thesis using assms(1) by (intro same disjI1 cron_quiet) simp
  next
    case (BeforeSleep h)
    then show ?thesis using assms(1) by (intro same disjI1 beforeSleep_quiet) simp
  next
    case (LinkError l)
    then show ?thesis using assms(1) by (intro same disjI1 linkError_quiet) simp
  next
    case VerifyConfig
    then show ?thesis using assms(1) by (intro same disjI1 quiet_moved) (auto dest: verify_moved)
  qed
  then show "slots_ok c \<longrightarrow> slots_ok d" "\<not> resets ev \<Longrightarrow> vote_step c d" "\<not> resets ev \<Longrightarrow> epoch_kept ev c d" by auto
qed

lemma run_ok:
  assumes "run es c = Inr d" and "list_all event_ok es" and "slots_ok c"
  shows "slots_ok d"
  using for_each_inv [OF assms(1) [unfolded run_def], of slots_ok] assms(2,3) handle_step(1)
  by (auto simp: list_all_iff)

section \<open>Votes\<close>

text \<open>
  A life of the node: its steps, but no hard reset, which starts a new identity.
  No counter of epochs is at its greatest value, in the node or in a message:
  from there it would wrap around to 0.  That the epoch of the node does not go
  down is not part of this definition: \<open>handle_step\<close> proves it of every handler.
\<close>

inductive lives :: "cluster \<Rightarrow> cluster \<Rightarrow> bool" where
  start: "lives c c"
| step: "lives c d \<Longrightarrow> handle ev d = Inr e \<Longrightarrow> event_ok ev \<Longrightarrow> \<not> resets ev \<Longrightarrow>
    currentEpoch d \<noteq> - 1 \<Longrightarrow> event_epoch ev \<noteq> - 1 \<Longrightarrow>
    lives c e"

text \<open>The votes sent are for increasing epochs, none of them after the last one voted in.\<close>

definition votes_ok :: "cluster \<Rightarrow> bool" where
  "votes_ok c \<longleftrightarrow> sorted_wrt (<) (map fst (votes c)) \<and> (\<forall>v \<in> set (votes c). fst v \<le> lastVoteEpoch c) \<and>
     lastVoteEpoch c \<le> currentEpoch c"

lemma votes_ok_step:
  assumes "votes_ok c" and "vote_step c d" and "currentEpoch c \<le> currentEpoch d"
  shows "votes_ok d"
proof -
  from assms(2) consider (same) "votes d = votes c" "lastVoteEpoch d = lastVoteEpoch c"
    | (vote) vs where "currentEpoch d \<noteq> lastVoteEpoch c" "lastVoteEpoch d = currentEpoch d"
        "votes d = votes c @ vs" "vs = [] \<or> (\<exists>s. vs = [(currentEpoch d, s)])"
    unfolding vote_step_def by auto
  then show ?thesis
  proof cases
    case same
    then show ?thesis using assms(1,3) by (auto simp: votes_ok_def)
  next
    case vote
    have "lastVoteEpoch c < currentEpoch d"
      using vote(1) assms(1,3) unfolding votes_ok_def by (metis order.trans order.not_eq_order_implies_strict)
    then have "\<forall>v \<in> set (votes c). fst v < currentEpoch d" using assms(1) unfolding votes_ok_def by fastforce
    then show ?thesis using vote(2-4) assms(1) unfolding votes_ok_def
      by (auto simp: sorted_wrt_append less_imp_le)
  qed
qed

lemma lives_votes_ok: "lives c d \<Longrightarrow> votes_ok c \<Longrightarrow> votes_ok d"
proof (induction rule: lives.induct)
  case (step c d ev e)
  have "currentEpoch d \<le> currentEpoch e" using handle_step(3) step.hyps by (simp add: epoch_kept_def)
  then show ?case using votes_ok_step handle_step(2) step by blast
qed

lemma votes_distinct:
  assumes "votes_ok c" and "(e, a) \<in> set (votes c)" and "(e, b) \<in> set (votes c)"
  shows "a = b"
proof -
  have "distinct (map fst (votes c))"
    using assms(1) by (simp add: votes_ok_def strict_sorted_iff)
  then show ?thesis using assms(2,3) eq_key_imp_eq_value by metis
qed

text \<open>Two majorities of the same voters have a voter in common.\<close>

lemma majorities_meet:
  assumes "finite V" and "card {v \<in> V. P v} \<ge> card V div 2 + 1" and "card {v \<in> V. Q v} \<ge> card V div 2 + 1"
  shows "\<exists>v \<in> V. P v \<and> Q v"
proof (rule ccontr)
  assume "\<not> (\<exists>v \<in> V. P v \<and> Q v)"
  then have "{v \<in> V. P v} \<inter> {v \<in> V. Q v} = {}" by blast
  then have "card {v \<in> V. P v} + card {v \<in> V. Q v} = card ({v \<in> V. P v} \<union> {v \<in> V. Q v})"
    using assms(1) by (simp add: card_Un_disjoint)
  also have "\<dots> \<le> card V" using assms(1) by (intro card_mono) auto
  finally show False using assms(2,3) by linarith
qed

end
