(* ===== verification/ClusterHealth.thy ===== *)
theory ClusterHealth
  imports ClusterMachine
begin

text \<open>
  The health of nodes and of the cluster: when a node is marked as failing,
  and when the cluster is in the state \<open>ok\<close>.
\<close>

section \<open>The state of the cluster\<close>

definition nodes_live :: "cluster \<Rightarrow> bool" where
  "nodes_live c \<longleftrightarrow> (\<forall>e \<in> set (nodes c). heap c (snd e) \<noteq> None) \<and> heap c (myself c) \<noteq> None"

definition node_at :: "cluster \<Rightarrow> ptr \<Rightarrow> clusterNode" where
  "node_at c p = the (heap c p)"

text \<open>Every slot has an owner that has not failed.\<close>

definition slots_covered :: "cluster \<Rightarrow> bool" where
  "slots_covered c \<longleftrightarrow> (\<forall>s \<in> set (slots c). \<exists>p. s = Some p \<and> \<not> nodeFailed (node_at c p))"

text \<open>The masters with slots, and those of them that can be reached: \<open>size\<close> and \<open>reachable_masters\<close>.\<close>

definition voting :: "cluster \<Rightarrow> ptr \<Rightarrow> bool" where
  "voting c p \<longleftrightarrow> nodeIsMaster (node_at c p) \<and> n_numslots (node_at c p) \<noteq> 0"

definition reachable :: "cluster \<Rightarrow> ptr \<Rightarrow> bool" where
  "reachable c p \<longleftrightarrow> voting c p \<and> \<not> nodeFailed (node_at c p) \<and> \<not> nodeTimedOut (node_at c p)"

definition cluster_size :: "cluster \<Rightarrow> int" where
  "cluster_size c = int (length (filter (\<lambda>e. voting c (snd e)) (nodes c)))"

definition reachable_masters :: "cluster \<Rightarrow> int" where
  "reachable_masters c = int (length (filter (\<lambda>e. reachable c (snd e)) (nodes c)))"

text \<open>The reasons to be in the state \<open>fail\<close>: a slot without a working owner, or a minority.\<close>

definition must_fail :: "cluster \<Rightarrow> bool" where
  "must_fail c \<longleftrightarrow> cluster_require_full_coverage (env c) \<and> \<not> slots_covered c \<or>
     reachable_masters c < cluster_size c div 2 + 1"

lemma uncovered_spec:
  assumes "slots_ok c" and "\<forall>j \<in> set js. j < REDIS_CLUSTER_SLOTS"
  shows "slots_uncovered c js = Inr (\<exists>j \<in> set js. \<not> (\<exists>p. slots c ! j = Some p \<and> \<not> nodeFailed (node_at c p)))"
  using assms(2)
proof (induction js)
  case (Cons j js)
  then have j: "j < length (slots c)" using slots_okD(1) [OF assms(1)] by simp
  show ?case
  proof (cases "slots c ! j")
    case (Some p)
    have "j < REDIS_CLUSTER_SLOTS" using Cons.prems by simp
    from slots_okD(3) [OF assms(1) this Some] obtain n where n: "heap c p = Some n" by blast
    then show ?thesis using Cons j by (simp add: Some rd_in getn_live [OF n] node_at_def del: getn_Some)
  qed (use Cons j in \<open>simp add: rd_in\<close>)
qed simp

lemma uncovered_all:
  assumes "slots_ok c"
  shows "slots_uncovered c [0..<REDIS_CLUSTER_SLOTS] = Inr (\<not> slots_covered c)"
  using uncovered_spec [OF assms, of "[0..<REDIS_CLUSTER_SLOTS]"] slots_okD(1) [OF assms]
  by (auto simp: slots_covered_def all_set_conv_all_nth)

lemma count_masters_spec:
  assumes "nodes_live c"
  shows "count_masters c = Inr (cluster_size c, reachable_masters c)"
proof -
  let ?f = "\<lambda>e (size, reachable). rbind (getn c (Some (snd e))) (\<lambda>n.
       Inr (if nodeIsMaster n \<and> n_numslots n \<noteq> 0
            then (size + 1, if \<not> nodeFailed n \<and> \<not> nodeTimedOut n then reachable + 1 else reachable)
            else (size, reachable)))"
  have "for_each ?f es (a, b) = Inr (a + int (length (filter (\<lambda>e. voting c (snd e)) es)),
      b + int (length (filter (\<lambda>e. reachable c (snd e)) es)))"
    if "\<forall>e \<in> set es. heap c (snd e) \<noteq> None" for es :: "(name \<times> ptr) list" and a b :: int
    using that
  proof (induction es arbitrary: a b)
    case (Cons e es)
    then obtain n where n: "heap c (snd e) = Some n" by auto
    then show ?case using Cons
      by (simp add: getn_live [OF n] voting_def reachable_def node_at_def del: getn_Some)
  qed simp
  from this [of "nodes c" 0 0] show ?thesis
    using assms by (simp add: count_masters_def nodes_live_def cluster_size_def reachable_masters_def)
qed

lemma health_views:
  assumes "heap d = heap c" and "slots d = slots c" and "nodes d = nodes c" and "env d = env c"
  shows "slots_covered d = slots_covered c" "cluster_size d = cluster_size c" "reachable_masters d = reachable_masters c"
    "must_fail d = must_fail c"
proof -
  have n: "node_at d = node_at c" by (simp add: fun_eq_iff node_at_def assms(1))
  then show s: "slots_covered d = slots_covered c" by (simp add: slots_covered_def assms)
  have "voting d = voting c" "reachable d = reachable c" by (simp_all add: fun_eq_iff voting_def reachable_def n)
  then show "cluster_size d = cluster_size c" "reachable_masters d = reachable_masters c"
    by (simp_all add: cluster_size_def reachable_masters_def assms)
  then show "must_fail d = must_fail c" by (simp add: must_fail_def s assms)
qed

text \<open>
  The update returns, and the new state is the one the slots and the masters
  give; only a master in the state \<open>fail\<close> may be delayed.
\<close>

lemma updateState_spec:
  assumes ok: "slots_ok c" and live: "nodes_live c" and me: "heap c (myself c) = Some me"
  obtains c' delayed where "clusterUpdateState c = Inr c'"
    "cstate c' = (if must_fail c then ClusterFail else if delayed then cstate c else ClusterOk)"
    "delayed \<Longrightarrow> nodeIsMaster me \<and> cstate c = ClusterFail"
    "csize c' = cluster_size c \<or> delayed \<and> csize c' = csize c"
    "heap c' = heap c" "slots c' = slots c" "effects c' = effects c" "myself c' = myself c"
proof -
  define c0 where "c0 = c\<lparr>todo_before_sleep := todo_before_sleep c AND NOT CLUSTER_TODO_UPDATE_STATE\<rparr>"
  define c1 where "c1 = (if first_call_time c0 = 0 then case mstime c0 of (now, c) \<Rightarrow> c\<lparr>first_call_time := now\<rparr> else c0)"
  define w where "w = (if nodeIsMaster me \<and> cstate c1 = ClusterFail
    then case mstime c1 of (now, c) \<Rightarrow> (now - first_call_time c < REDIS_CLUSTER_WRITABLE_DELAY, c) else (False, c1))"
  define wait where "wait = fst w"
  define c2 where "c2 = snd w"
  have f1: "heap c1 = heap c" "slots c1 = slots c" "nodes c1 = nodes c" "env c1 = env c" "myself c1 = myself c"
    "cstate c1 = cstate c" "csize c1 = csize c" "effects c1 = effects c" "clock c1 = clock c"
    by (simp_all add: c1_def c0_def mstime_def)
  have f2: "heap c2 = heap c" "slots c2 = slots c" "nodes c2 = nodes c" "env c2 = env c" "myself c2 = myself c"
    "cstate c2 = cstate c" "csize c2 = csize c" "effects c2 = effects c"
    by (simp_all add: c2_def w_def mstime_def f1)
  have wm: "wait \<Longrightarrow> nodeIsMaster me \<and> cstate c = ClusterFail"
    by (simp add: wait_def w_def f1 split: if_splits)
  have run: "clusterUpdateState c = (if wait then Inr c2
            else
              rbind (if cluster_require_full_coverage (env c2)
                     then slots_uncovered c2 [0..<REDIS_CLUSTER_SLOTS] else Inr False) (\<lambda>uncovered.
              rbind (count_masters c2) (\<lambda>(size, reachable_masters).
              let new_state = (if uncovered then ClusterFail else ClusterOk);
                  c = c2\<lparr>csize := size\<rparr>;
                  (new_state, c) = (if reachable_masters < size div 2 + 1
                    then let (now, c) = mstime c in (ClusterFail, c\<lparr>among_minority_time := now\<rparr>)
                    else (new_state, c))
              in Inr (change_state c me new_state))))"
  proof -
    have "getn c1 (Some (myself c1)) = Inr me" using me f1 by (simp add: getn_def)
    then show ?thesis
      unfolding clusterUpdateState_def Let_def c0_def [symmetric] c1_def [symmetric]
      by (simp only: rbind_simps wait_def c2_def w_def split_beta)
  qed
  show thesis
  proof (cases wait)
    case True
    then show thesis using that [of c2 True] run f2 wm by auto
  next
    case False
    have "slots_ok c2" using ok f2(1,2) by (simp add: slots_ok_def)
    then have u: "slots_uncovered c2 [0..<REDIS_CLUSTER_SLOTS] = Inr (\<not> slots_covered c)"
      using uncovered_all health_views(1) [OF f2(1-4)] by simp
    have "nodes_live c2" using live by (simp add: nodes_live_def f2)
    then have m: "count_masters c2 = Inr (cluster_size c, reachable_masters c)"
      using count_masters_spec health_views(2,3) [OF f2(1-4)] by simp
    define minority where "minority \<longleftrightarrow> reachable_masters c < cluster_size c div 2 + 1"
    define c3 where "c3 = (if minority then c2\<lparr>csize := cluster_size c, ticks := ticks c2 + 1, among_minority_time := clock c2 (ticks c2)\<rparr>
      else c2\<lparr>csize := cluster_size c\<rparr>)"
    have f3: "heap c3 = heap c" "slots c3 = slots c" "cstate c3 = cstate c" "csize c3 = cluster_size c" "effects c3 = effects c"
      "myself c3 = myself c" by (simp_all add: c3_def f2)
    define d where "d = change_state c3 me (if must_fail c then ClusterFail else ClusterOk)"
    have d: "clusterUpdateState c = Inr d"
      using run False by (simp add: u m f2(4) must_fail_def minority_def c3_def mstime_def Let_def d_def del: rbind_eq_Inr)
    have fd: "heap d = heap c" "slots d = slots c" "effects d = effects c" "csize d = cluster_size c" "myself d = myself c"
      by (simp_all add: d_def change_state_def Let_def mstime_def f3)
    have "cstate d = (if must_fail c then ClusterFail else if cstate d \<noteq> ClusterOk \<and> \<not> must_fail c then cstate c else ClusterOk)"
      by (simp add: d_def change_state_def Let_def mstime_def f3)
    moreover have "nodeIsMaster me \<and> cstate c = ClusterFail" if "cstate d \<noteq> ClusterOk \<and> \<not> must_fail c"
      using that by (cases "cstate c") (auto simp: d_def change_state_def Let_def mstime_def f3 split: if_splits)
    ultimately show thesis using that [OF d] fd by blast
  qed
qed

section \<open>Failure reports\<close>

text \<open>There is at most one report per sender.\<close>

definition reports_ok :: "clusterNode \<Rightarrow> bool" where
  "reports_ok n \<longleftrightarrow> distinct (map fst (n_fail_reports n))"

lemma touch_report_None: "touch_report s now frs = None \<longleftrightarrow> s \<notin> fst ` set frs"
  by (induction frs) auto

lemma touch_report_Some:
  "touch_report s now frs = Some frs' \<Longrightarrow> map fst frs' = map fst frs \<and> map_of frs' = (map_of frs)(s \<mapsto> now)"
  by (induction frs arbitrary: frs') (auto split: if_splits simp: fun_upd_twist)

lemma map_of_snoc: "x \<notin> fst ` set xs \<Longrightarrow> map_of (xs @ [(x, y)]) = (map_of xs)(x \<mapsto> y)"
  by (induction xs) (auto simp: fun_upd_twist)

lemma addReport_spec:
  assumes "heap c p = Some n"
  obtains c' n' where "clusterNodeAddFailureReport c p s = Inr (s \<notin> fst ` set (n_fail_reports n), c')"
    "heap c' = (heap c)(p \<mapsto> n')" "map_of (n_fail_reports n') = (map_of (n_fail_reports n))(s \<mapsto> clock c (ticks c))"
    "reports_ok n \<Longrightarrow> reports_ok n'"
proof (cases "touch_report s (clock c (ticks c)) (n_fail_reports n)")
  case None
  then have s: "s \<notin> fst ` set (n_fail_reports n)" by (simp add: touch_report_None)
  let ?n = "n_fail_reports_update (\<lambda>frs. frs @ [(s, clock c (ticks c))]) n"
  have "clusterNodeAddFailureReport c p s = Inr (True, c\<lparr>ticks := ticks c + 1, heap := (heap c)(p \<mapsto> ?n)\<rparr>)"
    using assms None by (simp add: clusterNodeAddFailureReport_def mstime_def getn_live updn_def getn_def del: rbind_eq_Inr)
  then show thesis using s
    by (intro that [of "c\<lparr>ticks := ticks c + 1, heap := (heap c)(p \<mapsto> ?n)\<rparr>" ?n]) (auto simp: map_of_snoc reports_ok_def simp del: map_of_append)
next
  case (Some frs)
  then have s: "s \<in> fst ` set (n_fail_reports n)" using touch_report_None [of s "clock c (ticks c)" "n_fail_reports n"] by simp
  note t = touch_report_Some [OF Some]
  let ?n = "n_fail_reports_update (\<lambda>_. frs) n"
  have "clusterNodeAddFailureReport c p s = Inr (False, c\<lparr>ticks := ticks c + 1, heap := (heap c)(p \<mapsto> ?n)\<rparr>)"
    using assms Some by (simp add: clusterNodeAddFailureReport_def mstime_def getn_live updn_def getn_def del: rbind_eq_Inr)
  then show thesis using s t
    by (intro that [of "c\<lparr>ticks := ticks c + 1, heap := (heap c)(p \<mapsto> ?n)\<rparr>" ?n]) (auto simp: reports_ok_def)
qed

text \<open>The reports that are still valid, and the reports and votes that mark a node as failing.\<close>

definition valid_reports :: "cluster \<Rightarrow> clusterNode \<Rightarrow> (ptr \<times> int) list" where
  "valid_reports c n = filter (\<lambda>fr. clock c (ticks c) - snd fr \<le> cluster_node_timeout (env c) * 2) (n_fail_reports n)"

definition enough_reports :: "cluster \<Rightarrow> clusterNode \<Rightarrow> clusterNode \<Rightarrow> bool" where
  "enough_reports c me n \<longleftrightarrow>
     int (length (valid_reports c n)) + (if nodeIsMaster me then 1 else 0) \<ge> csize c div 2 + 1"

lemma failed_set [simp]: "nodeFailed (set_flags REDIS_NODE_FAIL n)"
proof -
  have "(x OR 8) AND 8 = (8 :: u32)" for x :: u32 by (rule bit_eqI) (auto simp: bit_simps)
  then show ?thesis by (simp add: nodeFailed_def set_flags_def REDIS_NODE_FAIL_def)
qed

lemma failed_fail_time [simp]: "nodeFailed (n_fail_time_update f n) = nodeFailed n"
  by (simp add: nodeFailed_def)

lemma markFailing_spec:
  assumes p: "heap c p = Some n" and me: "heap c (myself c) = Some me"
  obtains c' n' where "markNodeAsFailingIfNeeded c p = Inr c'" "heap c' p = Some n'"
    "nodeFailed n' \<longleftrightarrow> nodeFailed n \<or> nodeTimedOut n \<and> enough_reports c me n"
    "effects c' = (if nodeIsMaster me \<and> nodeFailed n' \<and> \<not> nodeFailed n then effects c @ [SendFail (n_name n)] else effects c)"
proof (cases "nodeTimedOut n \<and> \<not> nodeFailed n")
  case False
  then have "markNodeAsFailingIfNeeded c p = Inr c"
    by (auto simp: markNodeAsFailingIfNeeded_def getn_live [OF p] Let_def simp del: getn_Some)
  then show thesis using that [of c n] False p by auto
next
  case True
  define n1 where "n1 = n_fail_reports_update
    (filter (\<lambda>fr. clock c (ticks c) - snd fr \<le> cluster_node_timeout (env c) * 2)) n"
  define c1 where "c1 = c\<lparr>ticks := ticks c + 1, heap := (heap c)(p \<mapsto> n1)\<rparr>"
  define me1 where "me1 = (if myself c = p then n1 else me)"
  have cnt: "clusterNodeFailureReportsCount c p = Inr (int (length (valid_reports c n)), c1)"
    by (simp add: clusterNodeFailureReportsCount_def clusterNodeCleanupFailureReports_def mstime_def updn_def getn_def p
        c1_def n1_def valid_reports_def REDIS_CLUSTER_FAIL_REPORT_VALIDITY_MULT_def not_less del: rbind_eq_Inr)
  have me1: "heap c1 (myself c1) = Some me1" using me by (simp add: c1_def me1_def)
  have mm: "nodeIsMaster me1 = nodeIsMaster me" using me p by (auto simp: me1_def n1_def nodeIsMaster_def)
  have p1: "heap c1 p = Some n1" by (simp add: c1_def)
  have name1: "n_name n1 = n_name n" by (simp add: n1_def)
  let ?f = "\<lambda>n. (set_flags REDIS_NODE_FAIL (clear_flags REDIS_NODE_PFAIL n))\<lparr>n_fail_time := clock c1 (ticks c1)\<rparr>"
  let ?d = "c1\<lparr>ticks := ticks c1 + 1, heap := (heap c1)(p \<mapsto> ?f n1)\<rparr>"
  let ?e = "clusterDoBeforeSleep (CLUSTER_TODO_UPDATE_STATE OR CLUSTER_TODO_SAVE_CONFIG)
    (if nodeIsMaster me then perform (SendFail (n_name n)) ?d else ?d)"
  have run: "markNodeAsFailingIfNeeded c p = (if enough_reports c me n then Inr ?e else Inr c1)"
    using True
    by (simp add: markNodeAsFailingIfNeeded_def Let_def getn_live p cnt me1 mm mstime_def
        updn_live p1 enough_reports_def name1 not_less del: getn_Some rbind_eq_Inr)
  show thesis
  proof (cases "enough_reports c me n")
    case False
    then show thesis using that [of c1 n1] run p1 True by (simp add: n1_def nodeFailed_def) (simp add: c1_def)
  next
    case True': True
    have "heap ?e p = Some (?f n1)" by (simp add: clusterDoBeforeSleep_def perform_def)
    moreover have "effects ?e = (if nodeIsMaster me then effects c @ [SendFail (n_name n)] else effects c)"
      by (simp add: clusterDoBeforeSleep_def perform_def c1_def)
    ultimately show thesis using that [of ?e "?f n1"] run True True' by simp
  qed
qed

section \<open>Votes and the configuration file\<close>

text \<open>A vote changes neither the tasks of \<open>clusterBeforeSleep\<close>, nor does it save the configuration.\<close>

lemma updn_other: "updn c p f = Inr c' \<Longrightarrow> todo_before_sleep c' = todo_before_sleep c \<and> effects c' = effects c"
  by (auto simp: updn_Inr)

lemma auth_unsaved:
  assumes "clusterSendFailoverAuthIfNeeded c p r = Inr c'"
  shows "todo_before_sleep c' = todo_before_sleep c \<and> (\<forall>b. SaveConfig b \<in> set (effects c') \<longrightarrow> SaveConfig b \<in> set (effects c))"
proof -
  let ?P = "\<lambda>c'. todo_before_sleep c' = todo_before_sleep c \<and> (\<forall>b. SaveConfig b \<in> set (effects c') \<longrightarrow> SaveConfig b \<in> set (effects c))"
  have "post ?P (clusterSendFailoverAuthIfNeeded c p r)"
    unfolding clusterSendFailoverAuthIfNeeded_def Let_def mstime_def prod.case
    by (intro post_rules) (auto simp: clusterSendFailoverAuth_def perform_def split: if_splits dest!: updn_other intro!: postI)
  then show ?thesis by (rule postD [OF _ assms])
qed

end
