(* ===== verification/ClusterClaim.thy ===== *)
theory ClusterClaim
  imports ClusterHealth
begin

text \<open>
  What moves slots, as functions of the table of owners: the claim of a node
  with a configuration epoch, and the promotion of a slave that has won its
  election.
\<close>

section \<open>Everything but the slots\<close>

definition same_but_slots :: "cluster \<Rightarrow> cluster \<Rightarrow> bool" where
  "same_but_slots c d \<longleftrightarrow> erase (d\<lparr>todo_before_sleep := 0\<rparr>) = erase (c\<lparr>todo_before_sleep := 0\<rparr>)"

lemma same_slots_refl [simp]: "same_but_slots c c"
  by (simp add: same_but_slots_def)

lemma same_slots_trans: "same_but_slots c d \<Longrightarrow> same_but_slots d e \<Longrightarrow> same_but_slots c e"
  by (simp add: same_but_slots_def)

lemma erase_todo: "erase (c\<lparr>todo_before_sleep := k\<rparr>) = (erase c)\<lparr>todo_before_sleep := k\<rparr>"
  by (simp add: erase_def)

lemma same_erase: "erase d = erase c \<Longrightarrow> same_but_slots c d"
  by (simp add: same_but_slots_def erase_todo)

lemma same_sleep: "same_but_slots c (clusterDoBeforeSleep fl d) \<longleftrightarrow> same_but_slots c d"
  by (simp add: same_but_slots_def clusterDoBeforeSleep_def)

lemma same_fields:
  assumes "same_but_slots c d"
  shows "myself d = myself c" "env d = env c" "importing_slots_from d = importing_slots_from c" "nodes d = nodes c"
    "currentEpoch d = currentEpoch c" "effects d = effects c"
  using erase_fields [of "d\<lparr>todo_before_sleep := 0\<rparr>" "c\<lparr>todo_before_sleep := 0\<rparr>"] assms
  by (simp_all add: same_but_slots_def)

lemma erase_node_fields:
  assumes "erase_node m = erase_node n"
  shows "n_flags m = n_flags n" "n_configEpoch m = n_configEpoch n" "n_slaveof m = n_slaveof n"
    "n_slaves m = n_slaves n" "n_name m = n_name n"
proof -
  have f: "f (erase_node m) = f (erase_node n)" for f :: "clusterNode \<Rightarrow> 'z" using assms by simp
  show "n_flags m = n_flags n" "n_configEpoch m = n_configEpoch n" "n_slaveof m = n_slaveof n"
    "n_slaves m = n_slaves n" "n_name m = n_name n"
    using f [of n_flags] f [of n_configEpoch] f [of n_slaveof] f [of n_slaves] f [of n_name]
    by (simp_all add: erase_node_def)
qed

lemma same_heap:
  assumes "same_but_slots c d"
  shows "map_option erase_node (heap d p) = map_option erase_node (heap c p)"
proof -
  have "heap (erase (d\<lparr>todo_before_sleep := 0\<rparr>)) p = heap (erase (c\<lparr>todo_before_sleep := 0\<rparr>)) p"
    using assms by (simp add: same_but_slots_def)
  then show ?thesis by (simp add: erase_def)
qed

lemma same_node:
  assumes "same_but_slots c d" and "heap c p = Some n"
  obtains m where "heap d p = Some m" "erase_node m = erase_node n"
  using same_heap [OF assms(1), of p] assms(2) by (cases "heap d p") auto

section \<open>Claims\<close>

text \<open>
  A claim wins slot \<open>j\<close> when the sender's bitmap has it, the slot is not being
  imported, and it is unassigned or owned by a node with a smaller epoch.
\<close>

definition outranked :: "cluster \<Rightarrow> ptr option \<Rightarrow> u64 \<Rightarrow> bool" where
  "outranked c s epoch =
     (case s of None \<Rightarrow> True
      | Some p \<Rightarrow> (case heap c p of None \<Rightarrow> False | Some n \<Rightarrow> n_configEpoch n < epoch))"

definition claim_wins :: "cluster \<Rightarrow> u64 \<Rightarrow> u8 list \<Rightarrow> nat \<Rightarrow> bool" where
  "claim_wins c epoch claimed j \<longleftrightarrow>
     bit (claimed ! (j div 8)) (j mod 8) \<and> importing_slots_from c ! j = None \<and> outranked c (slots c ! j) epoch"

definition claimed_owner :: "cluster \<Rightarrow> ptr \<Rightarrow> u64 \<Rightarrow> u8 list \<Rightarrow> nat \<Rightarrow> ptr option" where
  "claimed_owner c sender epoch claimed j = (if claim_wins c epoch claimed j then Some sender else slots c ! j)"

lemma outranked_same:
  assumes "same_but_slots c d"
  shows "outranked d s epoch = outranked c s epoch"
proof (cases s)
  case (Some p)
  show ?thesis using same_heap [OF assms, of p]
    by (cases "heap c p"; cases "heap d p") (auto simp: outranked_def Some dest: erase_node_fields(2))
qed (simp add: outranked_def)

lemma slot_lower_live:
  assumes "\<And>p. s = Some p \<Longrightarrow> heap c p \<noteq> None"
  shows "slot_lower c s epoch = Inr (outranked c s epoch)"
proof (cases s)
  case (Some p)
  then obtain n where "heap c p = Some n" using assms by auto
  then show ?thesis by (simp add: Some slot_lower_def outranked_def getn_def del: rbind_eq_Inr)
qed (simp add: slot_lower_def outranked_def)

lemma slot_lower_spec:
  assumes "slots_ok c" and "j < REDIS_CLUSTER_SLOTS"
  shows "slot_lower c (slots c ! j) epoch = Inr (outranked c (slots c ! j) epoch)"
  by (rule slot_lower_live) (use slots_okD(3) [OF assms] in auto)

text \<open>The claim takes slot \<open>j\<close> from another owner, and from this node with keys in it.\<close>

definition takes :: "cluster \<Rightarrow> ptr \<Rightarrow> u64 \<Rightarrow> u8 list \<Rightarrow> nat \<Rightarrow> bool" where
  "takes c sender epoch claimed j \<longleftrightarrow> claim_wins c epoch claimed j \<and> slots c ! j \<noteq> Some sender"

definition loses_keys :: "cluster \<Rightarrow> ptr \<Rightarrow> u64 \<Rightarrow> u8 list \<Rightarrow> nat \<Rightarrow> bool" where
  "loses_keys c sender epoch claimed j \<longleftrightarrow>
     takes c sender epoch claimed j \<and> slots c ! j = Some (myself c) \<and> countKeysInSlot (env c) j \<noteq> 0"

lemma update_slot_spec:
  assumes ok: "slots_ok c" and live: "heap c sender \<noteq> None" and j: "j < REDIS_CLUSTER_SLOTS"
    and len: "length claimed = 2048" "length (importing_slots_from c) = REDIS_CLUSTER_SLOTS" and me: "sender \<noteq> myself c"
  obtains d where "update_slot sender epoch claimed cm j (nm, dirty, c) =
      Inr (if takes c sender epoch claimed j \<and> slots c ! j = cm then Some sender else nm,
           if loses_keys c sender epoch claimed j then dirty @ [j] else dirty, d)"
    "slots_ok d" "same_but_slots c d" "slots d = (slots c)[j := claimed_owner c sender epoch claimed j]"
proof -
  have l: "length (slots c) = REDIS_CLUSTER_SLOTS" by (rule slots_okD(1) [OF ok])
  show thesis
  proof (cases "takes c sender epoch claimed j")
    case False
    then have "update_slot sender epoch claimed cm j (nm, dirty, c) = Inr (nm, dirty, c)"
      using j len slot_lower_spec [OF ok j]
      by (auto simp: update_slot_def test_bit rd_in l claim_wins_def takes_def)
    moreover have "slots c = (slots c)[j := claimed_owner c sender epoch claimed j]"
      using False list_update_id [of "slots c" j] by (cases "slots c ! j = Some sender") (auto simp: claimed_owner_def takes_def)
    ultimately show thesis using that [of c] ok False by (simp add: loses_keys_def)
  next
    case True
    obtain d where d: "clusterDelSlot c j = Inr (slots c ! j \<noteq> None, d)" "slots_ok d" "erase d = erase c"
      "slots d = (slots c)[j := None]"
      using delSlot_spec [OF ok j] by blast
    obtain n where n: "heap d sender = Some n" using erase_live [OF d(3), of sender] live by auto
    obtain e where e: "clusterAddSlot d (Some sender) j = Inr (slots d ! j = None, e)" "slots_ok e" "erase e = erase d"
      "slots e = (if slots d ! j = None then (slots d)[j := Some sender] else slots d)"
      using addSlot_spec [OF d(2) n j] by blast
    let ?e = "clusterDoBeforeSleep (CLUSTER_TODO_SAVE_CONFIG OR CLUSTER_TODO_UPDATE_STATE OR CLUSTER_TODO_FSYNC_CONFIG) e"
    have "update_slot sender epoch claimed cm j (nm, dirty, c) =
      Inr (if takes c sender epoch claimed j \<and> slots c ! j = cm then Some sender else nm,
           if loses_keys c sender epoch claimed j then dirty @ [j] else dirty, ?e)"
      using True j len d(1) e(1) slot_lower_spec [OF ok j] me
      by (simp add: update_slot_def test_bit rd_in l claim_wins_def takes_def loses_keys_def Let_def)
    moreover have "slots ?e = (slots c)[j := claimed_owner c sender epoch claimed j]"
      using True e(4) d(4) j l by (simp add: clusterDoBeforeSleep_def claimed_owner_def takes_def)
    moreover have "same_but_slots c ?e"
      using d(3) e(3) by (simp add: same_sleep same_erase)
    ultimately show thesis using that e(2) by simp
  qed
qed

lemma takes_same:
  assumes "same_but_slots c d" and "slots d ! j = slots c ! j"
  shows "claim_wins d epoch claimed j = claim_wins c epoch claimed j"
    "takes d sender epoch claimed j = takes c sender epoch claimed j"
    "loses_keys d sender epoch claimed j = loses_keys c sender epoch claimed j"
    "claimed_owner d sender epoch claimed j = claimed_owner c sender epoch claimed j"
  using assms outranked_same [OF assms(1)] same_fields [OF assms(1)]
  by (simp_all add: claim_wins_def takes_def loses_keys_def claimed_owner_def)

lemma update_slots_spec:
  assumes ok: "slots_ok c" and live: "heap c sender \<noteq> None"
    and len: "length claimed = 2048" "length (importing_slots_from c) = REDIS_CLUSTER_SLOTS" and me: "sender \<noteq> myself c"
  obtains d where
    "for_each (update_slot sender epoch claimed cm) [0..<REDIS_CLUSTER_SLOTS] (None, [], c) =
      Inr (if \<exists>j < REDIS_CLUSTER_SLOTS. takes c sender epoch claimed j \<and> slots c ! j = cm then Some sender else None,
        filter (loses_keys c sender epoch claimed) [0..<REDIS_CLUSTER_SLOTS], d)"
    "slots_ok d" "same_but_slots c d"
    "slots d = map (claimed_owner c sender epoch claimed) [0..<REDIS_CLUSTER_SLOTS]"
proof -
  let ?nm = "\<lambda>js. if \<exists>j \<in> set js. takes c sender epoch claimed j \<and> slots c ! j = cm then Some sender else None"
  let ?I = "\<lambda>js (nm, dirty, d). nm = ?nm js \<and> dirty = filter (loses_keys c sender epoch claimed) js \<and>
    slots_ok d \<and> same_but_slots c d \<and>
    (\<forall>j < REDIS_CLUSTER_SLOTS. slots d ! j = (if j \<in> set js then claimed_owner c sender epoch claimed j else slots c ! j))"
  have "\<exists>s'. for_each (update_slot sender epoch claimed cm) [0..<REDIS_CLUSTER_SLOTS] (None, [], c) = Inr s' \<and>
    ?I [0..<REDIS_CLUSTER_SLOTS] s'"
  proof (rule for_each_rule)
    show "?I [] (None, [], c)" using ok by simp
    fix ys j zs and s :: "ptr option \<times> nat list \<times> cluster"
    assume js: "[0..<REDIS_CLUSTER_SLOTS] = ys @ j # zs" and I: "?I ys s"
    obtain nm dirty d where s: "s = (nm, dirty, d)" by (cases s)
    have j: "j < REDIS_CLUSTER_SLOTS" "ys = [0..<j]" using upt_split [OF js] by auto
    have d: "slots_ok d" "same_but_slots c d" "slots d ! j = slots c ! j" using I j by (auto simp: s)
    note eq = takes_same [OF d(2,3)] and f = same_fields [OF d(2)]
    have "heap d sender \<noteq> None" using same_heap [OF d(2), of sender] live by auto
    then obtain e where e: "update_slot sender epoch claimed cm j (nm, dirty, d) =
      Inr (if takes c sender epoch claimed j \<and> slots c ! j = cm then Some sender else nm,
           if loses_keys c sender epoch claimed j then dirty @ [j] else dirty, e)"
      "slots_ok e" "same_but_slots d e" "slots e = (slots d)[j := claimed_owner c sender epoch claimed j]"
      using update_slot_spec [OF d(1) _ j(1) len(1), of sender epoch cm nm dirty] len(2) me
      unfolding f(1,3) eq d(3) by blast
    have "?I (ys @ [j]) (if takes c sender epoch claimed j \<and> slots c ! j = cm then Some sender else nm,
           if loses_keys c sender epoch claimed j then dirty @ [j] else dirty, e)"
      using I e(2-4) j slots_okD(1) [OF d(1)] same_slots_trans [OF d(2)] by (auto simp: s nth_list_update)
    then show "\<exists>s'. update_slot sender epoch claimed cm j s = Inr s' \<and> ?I (ys @ [j]) s'" using e(1) s by blast
  qed
  then obtain d where D: "for_each (update_slot sender epoch claimed cm) [0..<REDIS_CLUSTER_SLOTS] (None, [], c) =
      Inr (?nm [0..<REDIS_CLUSTER_SLOTS], filter (loses_keys c sender epoch claimed) [0..<REDIS_CLUSTER_SLOTS], d)"
    "slots_ok d" "same_but_slots c d"
    "\<forall>j < REDIS_CLUSTER_SLOTS. slots d ! j = claimed_owner c sender epoch claimed j" by auto
  then have "slots d = map (claimed_owner c sender epoch claimed) [0..<REDIS_CLUSTER_SLOTS]"
    using slots_okD(1) [of d] by (auto intro!: nth_equalityI)
  moreover have "(\<exists>j \<in> set [0..<REDIS_CLUSTER_SLOTS]. takes c sender epoch claimed j \<and> slots c ! j = cm) \<longleftrightarrow>
    (\<exists>j < REDIS_CLUSTER_SLOTS. takes c sender epoch claimed j \<and> slots c ! j = cm)" by auto
  ultimately show thesis using that [of d] D by simp
qed

lemma live_getn: "heap c p \<noteq> None \<Longrightarrow> \<exists>n. getn c (Some p) = Inr n"
  by (auto simp: getn_def)

lemma updn_total: "heap c p \<noteq> None \<Longrightarrow> \<exists>c'. updn c (Some p) f = Inr c' \<and> dom (heap c') = dom (heap c) \<and> myself c' = myself c"
  by (auto simp: updn_def getn_def)

lemma removeSlave_total:
  "heap c m \<noteq> None \<Longrightarrow> \<exists>b c'. clusterNodeRemoveSlave c (Some m) s = Inr (b, c') \<and> dom (heap c') = dom (heap c) \<and> myself c' = myself c"
  by (auto simp: clusterNodeRemoveSlave_def getn_def updn_def Let_def simp del: rbind_eq_Inr)

lemma addSlave_total:
  "heap c m \<noteq> None \<Longrightarrow> \<exists>b c'. clusterNodeAddSlave c (Some m) s = Inr (b, c') \<and> dom (heap c') = dom (heap c) \<and> myself c' = myself c"
  by (auto simp: clusterNodeAddSlave_def getn_def updn_def simp del: rbind_eq_Inr)

text \<open>The master of the node: the node itself, or the one it replicates.\<close>

definition current_master :: "cluster \<Rightarrow> ptr \<Rightarrow> bool" where
  "current_master c m \<longleftrightarrow> (\<exists>me. heap c (myself c) = Some me \<and>
     (if nodeIsMaster me then m = myself c else n_slaveof me = Some m \<and> n_numslots me = 0) \<and> heap c m \<noteq> None)"

lemma setMaster_total:
  assumes "current_master c m" and "p \<noteq> myself c" and "heap c p \<noteq> None"
    and "heap c (myself c) = Some me" and "n_numslots me = 0"
  shows "\<exists>c'. clusterSetMaster c p = Inr c'"
proof -
  let ?first = "if nodeIsMaster me then
                   rbind (updn c (Some (myself c)) (\<lambda>n. set_flags REDIS_NODE_SLAVE
                     (clear_flags (REDIS_NODE_MASTER OR REDIS_NODE_MIGRATE_TO) n))) (\<lambda>c.
                   Inr (clusterCloseAllSlots c))
                 else if n_slaveof me \<noteq> None
                   then rbind (clusterNodeRemoveSlave c (n_slaveof me) (myself c)) (\<lambda>(_, c). Inr c)
                 else Inr c"
  obtain d where d: "?first = Inr d" "dom (heap d) = dom (heap c)" "myself d = myself c"
  proof (cases "nodeIsMaster me")
    case True
    obtain e where "updn c (Some (myself c)) (\<lambda>n. set_flags REDIS_NODE_SLAVE
      (clear_flags (REDIS_NODE_MASTER OR REDIS_NODE_MIGRATE_TO) n)) = Inr e" "dom (heap e) = dom (heap c)" "myself e = myself c"
      using updn_total [of c "myself c"] assms(4) by auto
    then show thesis using True that [of "clusterCloseAllSlots e"] by (simp add: clusterCloseAllSlots_def)
  next
    case False
    then have m: "n_slaveof me = Some m" "heap c m \<noteq> None" using assms(1,4) by (auto simp: current_master_def)
    show thesis using removeSlave_total [OF m(2), of "myself c"] False m(1) that by auto
  qed
  have "myself d \<in> dom (heap d)" unfolding d(2,3) using assms(4) by (rule domI)
  then have "heap d (myself d) \<noteq> None" by (simp add: domIff)
  then obtain e where e: "updn d (Some (myself d)) (n_slaveof_update (\<lambda>_. Some p)) = Inr e" "dom (heap e) = dom (heap d)"
    "myself e = myself d" using updn_total by blast
  have "p \<in> dom (heap e)" unfolding e(2) d(2) using assms(3) by (simp add: domIff)
  then have "heap e p \<noteq> None" by (simp add: domIff)
  then obtain b f where f: "clusterNodeAddSlave e (Some p) (myself e) = Inr (b, f)" using addSlave_total by blast
  have g: "getn c (Some (myself c)) = Inr me" using assms(4) by (simp add: getn_def)
  show ?thesis
    by (simp only: clusterSetMaster_def g rbind_simps assms(2,5) if_False simp_thms d(1) e(1) f prod.case) blast
qed

lemma current_master_same:
  assumes "same_but_slots c d" and "current_master c m" and "\<And>me. heap c (myself c) = Some me \<Longrightarrow> \<not> nodeIsMaster me \<Longrightarrow>
    \<forall>me'. heap d (myself d) = Some me' \<longrightarrow> n_numslots me' = 0"
  shows "current_master d m"
proof -
  obtain me where me: "heap c (myself c) = Some me" using assms(2) by (auto simp: current_master_def)
  obtain me' where me': "heap d (myself c) = Some me'" "erase_node me' = erase_node me" by (rule same_node [OF assms(1) me])
  note f = erase_node_fields [OF me'(2)]
  have "nodeIsMaster me' = nodeIsMaster me" by (simp add: nodeIsMaster_def f)
  then show ?thesis
    using assms(2,3) me me'(1) f same_fields(1) [OF assms(1)] same_heap [OF assms(1), of m]
    by (auto simp: current_master_def split: if_splits)
qed

text \<open>
  The master of the node has no slot left, after a claim took at least one from
  it.  Then the node becomes a slave of the sender; otherwise the keys of the
  slots this node has lost are deleted.
\<close>

definition bereft :: "cluster \<Rightarrow> ptr \<Rightarrow> ptr \<Rightarrow> u64 \<Rightarrow> u8 list \<Rightarrow> bool" where
  "bereft c m sender epoch claimed \<longleftrightarrow>
     (\<exists>j < REDIS_CLUSTER_SLOTS. takes c sender epoch claimed j \<and> slots c ! j = Some m) \<and>
     (\<forall>j < REDIS_CLUSTER_SLOTS. claimed_owner c sender epoch claimed j \<noteq> Some m)"

lemma numslots_zero:
  assumes "slots_ok c" and "heap c p = Some n"
  shows "n_numslots n = 0 \<longleftrightarrow> (\<forall>j < REDIS_CLUSTER_SLOTS. slots c ! j \<noteq> Some p)"
  using numslots_owned [OF assms] by auto

lemma addSlave_other:
  "clusterNodeAddSlave c (Some p) s = Inr (b, c') \<Longrightarrow> q \<noteq> p \<Longrightarrow> heap c' q = heap c q"
  by (auto simp: clusterNodeAddSlave_def updn_Inr split: if_splits)

lemma reset_manual_heap [simp]: "heap (resetManualFailover c) = heap c"
  by (simp add: resetManualFailover_def perform_def Let_def)

lemma setMaster_effects:
  assumes "clusterSetMaster c p = Inr c'"
  shows "\<exists>me. heap c' (myself c) = Some me \<and> n_slaveof me = Some p"
proof -
  have p: "p \<noteq> myself c" using assms by (auto simp: clusterSetMaster_def)
  obtain me where me: "heap c (myself c) = Some me" "n_numslots me = 0"
    using assms by (auto simp: clusterSetMaster_def split: if_splits)
  obtain d e f b where
    d: "(if nodeIsMaster me then
                   rbind (updn c (Some (myself c)) (\<lambda>n. set_flags REDIS_NODE_SLAVE
                     (clear_flags (REDIS_NODE_MASTER OR REDIS_NODE_MIGRATE_TO) n))) (\<lambda>c.
                   Inr (clusterCloseAllSlots c))
                 else if n_slaveof me \<noteq> None
                   then rbind (clusterNodeRemoveSlave c (n_slaveof me) (myself c)) (\<lambda>(_, c). Inr c)
                 else Inr c) = Inr d" and
    e: "updn d (Some (myself d)) (n_slaveof_update (\<lambda>_. Some p)) = Inr e" and
    f: "clusterNodeAddSlave e (Some p) (myself e) = Inr (b, f)" and
    c': "c' = resetManualFailover (perform (SetReplicationMaster p) f)"
    using assms p me unfolding clusterSetMaster_def by (auto split del: if_split)
  have "core_view d = core_view c" using d by (auto split: if_splits dest!: updn_view removeSlave_view)
  then have "myself d = myself c" by (rule core_epochs)
  then have "heap f (myself c) = heap e (myself c)" using addSlave_other [OF f] p by metis
  moreover obtain n where "heap e (myself c) = Some n" "n_slaveof n = Some p"
    using e \<open>myself d = myself c\<close> by (auto simp: updn_Inr)
  ultimately show ?thesis by (simp add: c' perform_def)
qed

lemma updateSlots_spec:
  assumes ok: "slots_ok c" and live: "heap c sender \<noteq> None"
    and len: "length claimed = 2048" "length (importing_slots_from c) = REDIS_CLUSTER_SLOTS" and me: "sender \<noteq> myself c"
    and m: "current_master c m"
  obtains c' where "clusterUpdateSlotsConfigWith c sender epoch claimed = Inr c'" "slots_ok c'"
    "slots c' = map (claimed_owner c sender epoch claimed) [0..<REDIS_CLUSTER_SLOTS]"
    "if bereft c m sender epoch claimed
     then \<exists>me. heap c' (myself c) = Some me \<and> n_slaveof me = Some sender
     else effects c' = effects c @ map DelKeysInSlot (filter (loses_keys c sender epoch claimed) [0..<REDIS_CLUSTER_SLOTS])"
proof -
  obtain me where n: "heap c (myself c) = Some me"
    and cm: "(if nodeIsMaster me then Some (myself c) else n_slaveof me) = Some m"
    and z: "\<not> nodeIsMaster me \<Longrightarrow> n_numslots me = 0"
    using m by (auto simp: current_master_def split: if_splits)
  obtain d where d: "for_each (update_slot sender epoch claimed (Some m)) [0..<REDIS_CLUSTER_SLOTS] (None, [], c) =
      Inr (if \<exists>j < REDIS_CLUSTER_SLOTS. takes c sender epoch claimed j \<and> slots c ! j = Some m then Some sender else None,
        filter (loses_keys c sender epoch claimed) [0..<REDIS_CLUSTER_SLOTS], d)"
    "slots_ok d" "same_but_slots c d"
    "slots d = map (claimed_owner c sender epoch claimed) [0..<REDIS_CLUSTER_SLOTS]"
    using update_slots_spec [OF ok live len \<open>sender \<noteq> myself c\<close>] by blast
  note f = same_fields [OF d(3)]
  have md: "current_master d m"
  proof (rule current_master_same [OF d(3) m], intro allI impI)
    fix me1 me' assume a: "heap c (myself c) = Some me1" "\<not> nodeIsMaster me1" and me': "heap d (myself d) = Some me'"
    then have "\<forall>j < REDIS_CLUSTER_SLOTS. slots c ! j \<noteq> Some (myself c)"
      using z n numslots_zero [OF ok n] by simp
    then have "\<forall>j < REDIS_CLUSTER_SLOTS. slots d ! j \<noteq> Some (myself d)"
      using \<open>sender \<noteq> myself c\<close> by (simp add: d(4) f(1) claimed_owner_def)
    then show "n_numslots me' = 0" using numslots_zero [OF d(2) me'] by simp
  qed
  obtain k where k: "heap d m = Some k" using md by (auto simp: current_master_def)
  have kz: "n_numslots k = 0 \<longleftrightarrow> (\<forall>j < REDIS_CLUSTER_SLOTS. claimed_owner c sender epoch claimed j \<noteq> Some m)"
    using numslots_zero [OF d(2) k] by (simp add: d(4))
  let ?rest = "\<lambda>demoted. if demoted then
            rbind (clusterSetMaster d sender) (\<lambda>c.
            Inr (clusterDoBeforeSleep
              (CLUSTER_TODO_SAVE_CONFIG OR CLUSTER_TODO_UPDATE_STATE OR CLUSTER_TODO_FSYNC_CONFIG) c))
          else Inr (d\<lparr>effects := effects d @ map DelKeysInSlot (filter (loses_keys c sender epoch claimed) [0..<REDIS_CLUSTER_SLOTS])\<rparr>)"
  have run: "clusterUpdateSlotsConfigWith c sender epoch claimed = ?rest (bereft c m sender epoch claimed)"
    using n me k kz by (simp add: clusterUpdateSlotsConfigWith_def getn_def Let_def cm d(1) bereft_def del: rbind_eq_Inr) blast
  show thesis
  proof (cases "bereft c m sender epoch claimed")
    case True
    obtain me' where me': "heap d (myself d) = Some me'" using md by (auto simp: current_master_def)
    have "n_numslots me' = 0"
      using md me' k kz True by (auto simp: current_master_def bereft_def split: if_splits)
    moreover have "heap d sender \<noteq> None" using same_heap [OF d(3), of sender] live by auto
    ultimately obtain e where e: "clusterSetMaster d sender = Inr e"
      using setMaster_total [OF md _ _ me'] me f(1) by metis
    let ?e = "clusterDoBeforeSleep (CLUSTER_TODO_SAVE_CONFIG OR CLUSTER_TODO_UPDATE_STATE OR CLUSTER_TODO_FSYNC_CONFIG) e"
    have v: "core_view ?e = core_view d" using setMaster_view [OF e] by simp
    then have "slots_ok ?e" "slots ?e = slots d" using core_ok(1) [OF v] d(2) by (simp_all add: core_view_def slot_view_def)
    moreover have "\<exists>me. heap ?e (myself c) = Some me \<and> n_slaveof me = Some sender"
      using setMaster_effects [OF e] f(1) by (simp add: clusterDoBeforeSleep_def)
    ultimately show thesis using that [of ?e] run e True d(4) by simp
  next
    case False
    let ?e = "d\<lparr>effects := effects d @ map DelKeysInSlot (filter (loses_keys c sender epoch claimed) [0..<REDIS_CLUSTER_SLOTS])\<rparr>"
    have v: "core_view ?e = core_view d" by simp
    show thesis using that [of ?e] run False d(2,4) core_ok(1) [OF v] f(6) by simp
  qed
qed

section \<open>The promotion of a slave\<close>

definition inherit :: "ptr \<Rightarrow> ptr \<Rightarrow> ptr option \<Rightarrow> ptr option" where
  "inherit old new s = (if s = Some old then Some new else s)"

lemma take_slot_spec:
  assumes ok: "slots_ok c" and live: "heap c old \<noteq> None" "heap c (myself c) \<noteq> None" and j: "j < REDIS_CLUSTER_SLOTS"
  obtains d where "take_slot old j c = Inr d" "slots_ok d" "same_but_slots c d"
    "slots d = (slots c)[j := inherit old (myself c) (slots c ! j)]"
proof -
  have l: "length (slots c) = REDIS_CLUSTER_SLOTS" by (rule slots_okD(1) [OF ok])
  obtain n where n: "heap c old = Some n" using live by auto
  note g = getSlotBit_spec [OF ok n j]
  show thesis
  proof (cases "slots c ! j = Some old")
    case False
    then show thesis using that [of c] ok list_update_id [of "slots c" j] by (simp add: take_slot_def g inherit_def)
  next
    case True
    obtain d where d: "clusterDelSlot c j = Inr (True, d)" "slots_ok d" "erase d = erase c" "slots d = (slots c)[j := None]"
      using delSlot_spec [OF ok j] True by (metis option.distinct(1))
    have my: "myself d = myself c" by (rule erase_fields [OF d(3)])
    obtain m where m: "heap d (myself c) = Some m" using erase_live [OF d(3), of "myself c"] live by auto
    obtain e where e: "clusterAddSlot d (Some (myself c)) j = Inr (slots d ! j = None, e)" "slots_ok e" "erase e = erase d"
      "slots e = (if slots d ! j = None then (slots d)[j := Some (myself c)] else slots d)"
      using addSlot_spec [OF d(2) m j] by blast
    have "slots e = (slots c)[j := inherit old (myself c) (slots c ! j)]"
      using e(4) d(4) j l True by (simp add: inherit_def)
    moreover have "same_but_slots c e" using d(3) e(3) by (simp add: same_erase)
    moreover have "take_slot old j c = Inr e" using True d(1) e(1) my by (simp add: take_slot_def g)
    ultimately show thesis using that e(2) by blast
  qed
qed

lemma take_slots_spec:
  assumes ok: "slots_ok c" and live: "heap c old \<noteq> None" "heap c (myself c) \<noteq> None"
  obtains d where "for_each (take_slot old) [0..<REDIS_CLUSTER_SLOTS] c = Inr d" "slots_ok d" "same_but_slots c d"
    "slots d = map (inherit old (myself c)) (slots c)"
proof -
  let ?I = "\<lambda>js d. slots_ok d \<and> same_but_slots c d \<and>
    (\<forall>j < REDIS_CLUSTER_SLOTS. slots d ! j = (if j \<in> set js then inherit old (myself c) (slots c ! j) else slots c ! j))"
  have "\<exists>d. for_each (take_slot old) [0..<REDIS_CLUSTER_SLOTS] c = Inr d \<and> ?I [0..<REDIS_CLUSTER_SLOTS] d"
  proof (rule for_each_rule)
    show "?I [] c" using ok by simp
    fix ys j zs d assume js: "[0..<REDIS_CLUSTER_SLOTS] = ys @ j # zs" and I: "?I ys d"
    have j: "j < REDIS_CLUSTER_SLOTS" "ys = [0..<j]" using upt_split [OF js] by auto
    have d: "slots_ok d" "same_but_slots c d" "slots d ! j = slots c ! j" using I j by auto
    have my: "myself d = myself c" by (rule same_fields [OF d(2)])
    have "heap d old \<noteq> None" "heap d (myself d) \<noteq> None"
      using same_heap [OF d(2), of old] same_heap [OF d(2), of "myself c"] live my by auto
    then obtain e where e: "take_slot old j d = Inr e" "slots_ok e" "same_but_slots d e"
      "slots e = (slots d)[j := inherit old (myself d) (slots d ! j)]"
      using take_slot_spec [OF d(1) _ _ j(1)] by blast
    have "?I (ys @ [j]) e"
      using I e(2-4) j slots_okD(1) [OF d(1)] same_slots_trans [OF d(2)] d(3) my by (auto simp: nth_list_update)
    then show "\<exists>e. take_slot old j d = Inr e \<and> ?I (ys @ [j]) e" using e(1) by blast
  qed
  then obtain d where D: "for_each (take_slot old) [0..<REDIS_CLUSTER_SLOTS] c = Inr d" "?I [0..<REDIS_CLUSTER_SLOTS] d"
    by blast
  then have "slots d = map (inherit old (myself c)) (slots c)"
    using slots_okD(1) [of d] slots_okD(1) [OF ok] by (auto intro!: nth_equalityI)
  then show thesis using that D by blast
qed

lemma master_set [simp]:
  "nodeIsMaster (set_flags REDIS_NODE_MASTER n)"
  "nodeIsMaster (n_slaveof_update f n) = nodeIsMaster n" "nodeIsMaster (n_flags_update (\<lambda>_. n_flags n) n) = nodeIsMaster n"
proof -
  have "(x OR 1) AND 1 = (1 :: u32)" for x :: u32 by (rule bit_eqI) (auto simp: bit_simps)
  then show "nodeIsMaster (set_flags REDIS_NODE_MASTER n)"
    by (simp add: nodeIsMaster_def set_flags_def REDIS_NODE_MASTER_def)
qed (simp_all add: nodeIsMaster_def)

lemma promote_self:
  assumes me: "heap c (myself c) = Some me" "\<not> nodeIsMaster me" "n_slaveof me = Some old" and old: "heap c old \<noteq> None"
  obtains d me' where "clusterSetNodeAsMaster c (myself c) = Inr d" "core_view d = core_view c" "dom (heap d) = dom (heap c)"
    "nodes d = nodes c" "heap d (myself c) = Some me'" "nodeIsMaster me'" "n_slaveof me' = None"
proof -
  obtain b d1 where d1: "clusterNodeRemoveSlave c (Some old) (myself c) = Inr (b, d1)" "dom (heap d1) = dom (heap c)"
    "myself d1 = myself c" using removeSlave_total [OF old] by blast
  have nd: "nodes d1 = nodes c" using d1(1) by (auto simp: clusterNodeRemoveSlave_def updn_Inr Let_def split: if_splits)
  have "myself c \<in> dom (heap d1)" unfolding d1(2) using me(1) by (rule domI)
  then obtain n where n: "heap d1 (myself c) = Some n" by blast
  let ?f = "\<lambda>n. (set_flags REDIS_NODE_MASTER (clear_flags REDIS_NODE_SLAVE n))\<lparr>n_slaveof := None\<rparr>"
  let ?d2 = "d1\<lparr>heap := (heap d1)(myself c \<mapsto> ?f n)\<rparr>"
  let ?d = "clusterDoBeforeSleep (CLUSTER_TODO_SAVE_CONFIG OR CLUSTER_TODO_UPDATE_STATE) ?d2"
  have u: "updn d1 (Some (myself c)) ?f = Inr ?d2" by (rule updn_live [OF n])
  have "clusterSetNodeAsMaster c (myself c) = Inr ?d"
    using me by (simp add: clusterSetNodeAsMaster_def getn_live d1(1,3) u del: getn_Some rbind_eq_Inr)
  moreover have "core_view ?d = core_view c"
    using updn_view [OF u] removeSlave_view [OF d1(1)] by simp
  moreover have "dom (heap ?d) = dom (heap c)" "nodes ?d = nodes c"
    using d1(2) n nd by (auto simp: clusterDoBeforeSleep_def)
  ultimately show thesis using that [of ?d "?f n"] by (simp add: clusterDoBeforeSleep_def)
qed

lemma takeover_spec:
  assumes ok: "slots_ok c" and live: "nodes_live c"
    and me: "heap c (myself c) = Some me" "\<not> nodeIsMaster me" "n_slaveof me = Some old" and old: "heap c old \<noteq> None"
  obtains c' me' where "clusterFailoverReplaceYourMaster c = Inr c'" "slots_ok c'"
    "slots c' = map (inherit old (myself c)) (slots c)"
    "heap c' (myself c) = Some me'" "nodeIsMaster me'" "n_slaveof me' = None"
proof -
  obtain d1 me1 where d1: "clusterSetNodeAsMaster c (myself c) = Inr d1" "core_view d1 = core_view c" "dom (heap d1) = dom (heap c)"
    "nodes d1 = nodes c" "heap d1 (myself c) = Some me1" "nodeIsMaster me1" "n_slaveof me1 = None"
    using promote_self [OF me old] by blast
  let ?d1 = "perform UnsetReplicationMaster d1"
  have ok1: "slots_ok ?d1" using core_ok(1) [OF d1(2)] ok by simp
  have my: "myself ?d1 = myself c" "slots ?d1 = slots c"
    using d1(2) by (simp_all add: core_view_def slot_view_def perform_def)
  have "old \<in> dom (heap ?d1)" "myself c \<in> dom (heap ?d1)"
    using d1(3) old me(1) by (auto simp: perform_def domIff)
  then have l1: "heap ?d1 old \<noteq> None" "heap ?d1 (myself ?d1) \<noteq> None" unfolding my(1) by (auto simp: domIff)
  obtain d2 where d2: "for_each (take_slot old) [0..<REDIS_CLUSTER_SLOTS] ?d1 = Inr d2" "slots_ok d2" "same_but_slots ?d1 d2"
    "slots d2 = map (inherit old (myself c)) (slots c)"
    using take_slots_spec [OF ok1 l1] unfolding my by blast
  have "heap ?d1 (myself c) = Some me1" using d1(5) by (simp add: perform_def)
  then obtain me2 where me2: "heap d2 (myself c) = Some me2" "erase_node me2 = erase_node me1" by (rule same_node [OF d2(3)])
  have my2: "myself d2 = myself c" "nodes d2 = nodes c" using same_fields [OF d2(3)] my d1(4) by (simp_all add: perform_def)
  have "heap d2 p \<noteq> None" if "heap c p \<noteq> None" for p
  proof -
    have "p \<in> dom (heap ?d1)" using that d1(3) by (auto simp: perform_def domIff)
    then show ?thesis using same_heap [OF d2(3), of p] by auto
  qed
  then have "nodes_live d2" using live by (simp add: nodes_live_def my2)
  then obtain d3 where d3: "clusterUpdateState d2 = Inr d3" "heap d3 = heap d2" "slots d3 = slots d2"
    using updateState_spec [OF d2(2)] me2(1) my2(1) by metis
  let ?c' = "resetManualFailover (perform (BroadcastPong True) (perform (SaveConfig True) d3))"
  have run: "clusterFailoverReplaceYourMaster c = Inr ?c'"
    using me by (simp add: clusterFailoverReplaceYourMaster_def getn_live d1(1) d2(1) d3(1) Let_def del: getn_Some rbind_eq_Inr)
  have "slots_ok d3" using d2(2) d3(2,3) by (simp add: slots_ok_def)
  moreover have "slots ?c' = slots d3" "heap ?c' = heap d3"
    by (simp_all add: resetManualFailover_def perform_def Let_def)
  moreover have "nodeIsMaster me2" "n_slaveof me2 = None"
    using erase_node_fields [OF me2(2)] d1(6,7) by (simp_all add: nodeIsMaster_def)
  ultimately show thesis using that [OF run] d2(4) d3(2,3) me2(1) by simp
qed

end
