(* ===== verification/ClusterQuery.thy ===== *)
theory ClusterQuery
  imports ClusterNode Slots
begin

text \<open>
  The redirection of clients: which node serves a command, by the hash slots
  of its keys and the slots that are being moved.
\<close>

section \<open>The code\<close>

datatype redir =
    REDIR_NONE | REDIR_CROSS_SLOT | REDIR_UNSTABLE | REDIR_ASK | REDIR_MOVED | REDIR_DOWN_STATE | REDIR_DOWN_UNBOUND

text \<open>
  A request: whether the command is \<open>EXEC\<close> and the client in \<open>MULTI\<close>, the
  keys of each command as \<open>getKeysFromCommand\<close> gives them, the flags of the
  client and of the command, and the keys of the database.
\<close>

record query =
  is_exec :: bool
  in_multi :: bool
  command_keys :: "u8 list list list"
  client_asking :: bool
  cmd_asking :: bool
  client_readonly :: bool
  cmd_readonly :: bool
  has_key :: "u8 list \<Rightarrow> bool"

text \<open>The local variables of the loop over the keys; \<open>v_first\<close> is \<open>firstkey\<close>.\<close>

record query_vars =
  v_node :: "ptr option"
  v_first :: "u8 list option"
  v_slot :: nat
  v_migrating :: bool
  v_importing :: bool
  v_multiple :: bool
  v_missing :: nat

definition query_start :: query_vars where
  "query_start = \<lparr>v_node = None, v_first = None, v_slot = 0, v_migrating = False, v_importing = False,
     v_multiple = False, v_missing = 0\<rparr>"

text \<open>The first key sets the slot and the node, the others are compared with it; \<open>Inl\<close> is an error code.\<close>

definition query_first :: "cluster \<Rightarrow> u8 list \<Rightarrow> nat \<Rightarrow> query_vars \<Rightarrow> (redir + query_vars) res" where
  "query_first c key thisslot v =
     rbind (rd (slots c) thisslot) (\<lambda>n.
     if n = None then Inr (Inl REDIR_DOWN_UNBOUND)
     else
       rbind (rd (migrating_slots_to c) thisslot) (\<lambda>m.
       rbind (rd (importing_slots_from c) thisslot) (\<lambda>i.
       let migrating = (n = Some (myself c) \<and> m \<noteq> None)
       in Inr (Inr (v\<lparr>v_node := n, v_first := Some key, v_slot := thisslot,
            v_migrating := migrating, v_importing := (\<not> migrating \<and> i \<noteq> None)\<rparr>)))))"

definition query_next :: "u8 list \<Rightarrow> u8 list \<Rightarrow> nat \<Rightarrow> query_vars \<Rightarrow> redir + query_vars" where
  "query_next first key thisslot v =
     (if first = key then Inr v
      else if v_slot v \<noteq> thisslot then Inl REDIR_CROSS_SLOT
      else Inr (v\<lparr>v_multiple := True\<rparr>))"

fun query_keys :: "query \<Rightarrow> cluster \<Rightarrow> u8 list list \<Rightarrow> query_vars \<Rightarrow> (redir + query_vars) res" where
  "query_keys q c [] v = Inr (Inr v)"
| "query_keys q c (key # ks) v =
     rbind (keyHashSlot key (length key)) (\<lambda>thisslot.
     rbind (case v_first v of
              None \<Rightarrow> query_first c key (unat thisslot) v
            | Some first \<Rightarrow> Inr (query_next first key (unat thisslot) v)) (\<lambda>r.
     case r of
       Inl e \<Rightarrow> Inr (Inl e)
     | Inr v \<Rightarrow>
         query_keys q c ks
           (if (v_migrating v \<or> v_importing v) \<and> \<not> has_key q key then v\<lparr>v_missing := v_missing v + 1\<rparr> else v)))"

text \<open>After the loop: the node and the code. The nested loops run over the keys of all the commands.\<close>

definition query_decide :: "query \<Rightarrow> cluster \<Rightarrow> query_vars \<Rightarrow> (ptr option \<times> redir) res" where
  "query_decide q c v =
     (if v_node v = None then Inr (Some (myself c), REDIR_NONE)
      else if v_migrating v \<and> v_missing v \<noteq> 0 then
        rbind (rd (migrating_slots_to c) (v_slot v)) (\<lambda>m. Inr (m, REDIR_ASK))
      else if v_importing v \<and> (client_asking q \<or> cmd_asking q) then
        Inr (if v_multiple v \<and> v_missing v \<noteq> 0 then (None, REDIR_UNSTABLE) else (Some (myself c), REDIR_NONE))
      else
        rbind (getn c (Some (myself c))) (\<lambda>me.
        if client_readonly q \<and> cmd_readonly q \<and> nodeIsSlave me \<and> n_slaveof me = v_node v
        then Inr (Some (myself c), REDIR_NONE)
        else Inr (v_node v, if v_node v \<noteq> Some (myself c) then REDIR_MOVED else REDIR_NONE)))"

definition getNodeByQuery :: "query \<Rightarrow> cluster \<Rightarrow> (ptr option \<times> redir) res" where
  "getNodeByQuery q c =
     (if is_exec q \<and> \<not> in_multi q then Inr (Some (myself c), REDIR_NONE)
      else
        rbind (query_keys q c (concat (command_keys q)) query_start) (\<lambda>r.
        case r of Inl e \<Rightarrow> Inr (None, e) | Inr v \<Rightarrow> query_decide q c v))"

text \<open>The error sent to the client: the code with the slot and the address of the node.\<close>

datatype redirection = RedirError redir | RedirTo redir nat "u8 list" int

definition clusterRedirectClient :: "cluster \<Rightarrow> ptr option \<Rightarrow> nat \<Rightarrow> redir \<Rightarrow> redirection res" where
  "clusterRedirectClient c n hashslot error_code =
     (if error_code \<in> {REDIR_CROSS_SLOT, REDIR_UNSTABLE, REDIR_DOWN_STATE, REDIR_DOWN_UNBOUND}
      then Inr (RedirError error_code)
      else if error_code = REDIR_MOVED \<or> error_code = REDIR_ASK
      then rbind (getn c n) (\<lambda>n. Inr (RedirTo error_code hashslot (n_ip n) (n_port n)))
      else Inl AssertFailed)"

text \<open>A client blocked on the keys: \<open>None\<close> when nothing is sent.\<close>

fun blocked_keys :: "cluster \<Rightarrow> u8 list list \<Rightarrow> redirection option res" where
  "blocked_keys c [] = Inr None"
| "blocked_keys c (key # ks) =
     rbind (keyHashSlot key (length key)) (\<lambda>slot.
     rbind (rd (slots c) (unat slot)) (\<lambda>node.
     rbind (rd (importing_slots_from c) (unat slot)) (\<lambda>i.
     if node \<noteq> Some (myself c) \<and> i = None then
       if node = None then rbind (clusterRedirectClient c None 0 REDIR_DOWN_UNBOUND) (\<lambda>r. Inr (Some r))
       else rbind (clusterRedirectClient c node (unat slot) REDIR_MOVED) (\<lambda>r. Inr (Some r))
     else blocked_keys c ks)))"

definition clusterRedirectBlockedClientIfNeeded :: "cluster \<Rightarrow> bool \<Rightarrow> u8 list list \<Rightarrow> redirection option res" where
  "clusterRedirectBlockedClientIfNeeded c blocked_on_list keys =
     (if \<not> blocked_on_list then Inr None
      else if cstate c = ClusterFail
      then rbind (clusterRedirectClient c None 0 REDIR_DOWN_STATE) (\<lambda>r. Inr (Some r))
      else blocked_keys c keys)"

end
