(* ===== verification/ClusterRoute.thy ===== *)
theory ClusterRoute
  imports ClusterQuery
begin

text \<open>
  The routing of a request, as a table of cases on the slots of its keys: the
  loops of \<open>getNodeByQuery\<close> compute it.
\<close>

section \<open>The reference decision\<close>

definition key_slot :: "u8 list \<Rightarrow> nat" where
  "key_slot k = unat (crc16_bytes (hash_part k) AND 0x3FFF)"

lemma keyHashSlot_key: "keyHashSlot k (length k) = Inr (crc16_bytes (hash_part k) AND 0x3FFF)"
  by (simp add: keyHashSlot_part)

lemma key_slot_less: "key_slot k < REDIS_CLUSTER_SLOTS"
proof -
  have "key_slot k \<le> unat (0x3FFF :: u16)"
    unfolding key_slot_def by (rule word_le_nat_alt [THEN iffD1]) (rule word_and_le1)
  then show ?thesis by (simp add: REDIS_CLUSTER_SLOTS_def)
qed

text \<open>
  The decision as a table of cases on the slot of the first key, its owner, and
  whether the slot is being moved.
\<close>

definition query_spec :: "query \<Rightarrow> cluster \<Rightarrow> clusterNode \<Rightarrow> ptr option \<times> redir" where
  "query_spec q c me =
     (let keys = concat (command_keys q);
          s = key_slot (hd keys);
          owner = slots c ! s;
          moving_out = owner = Some (myself c) \<and> migrating_slots_to c ! s \<noteq> None;
          moving_in = \<not> moving_out \<and> importing_slots_from c ! s \<noteq> None;
          all_here = (\<forall>k \<in> set keys. has_key q k);
          one_key = (\<forall>k \<in> set keys. k = hd keys)
      in if is_exec q \<and> \<not> in_multi q \<or> keys = [] then (Some (myself c), REDIR_NONE)
         else if owner = None then (None, REDIR_DOWN_UNBOUND)
         else if \<exists>k \<in> set keys. key_slot k \<noteq> s then (None, REDIR_CROSS_SLOT)
         else if moving_out \<and> \<not> all_here then (migrating_slots_to c ! s, REDIR_ASK)
         else if moving_in \<and> (client_asking q \<or> cmd_asking q) then
           if \<not> one_key \<and> \<not> all_here then (None, REDIR_UNSTABLE) else (Some (myself c), REDIR_NONE)
         else if owner = Some (myself c) \<or> client_readonly q \<and> cmd_readonly q \<and> nodeIsSlave me \<and> n_slaveof me = owner
           then (Some (myself c), REDIR_NONE)
         else (owner, REDIR_MOVED))"

lemma query_keys_rest:
  assumes "v_first v = Some k" and "v_slot v = key_slot k"
  shows "query_keys q c ks v =
    Inr (if \<exists>k' \<in> set ks. key_slot k' \<noteq> key_slot k then Inl REDIR_CROSS_SLOT
      else Inr (v\<lparr>v_multiple := v_multiple v \<or> (\<exists>k' \<in> set ks. k' \<noteq> k),
        v_missing := v_missing v + (if v_migrating v \<or> v_importing v then length (filter (\<lambda>k. \<not> has_key q k) ks) else 0)\<rparr>))"
  using assms
proof (induction ks arbitrary: v)
  case (Cons k' ks)
  have slot: "unat (crc16_bytes (hash_part k') AND 0x3FFF) = key_slot k'" by (simp add: key_slot_def)
  show ?case
  proof (cases "key_slot k' = key_slot k")
    case False
    then have "k \<noteq> k'" by auto
    then show ?thesis using Cons.prems False
      by (simp add: keyHashSlot_key slot query_next_def)
  next
    case True
    define v1 where "v1 = (if k = k' then v else v\<lparr>v_multiple := True\<rparr>)"
    define v2 where "v2 = (if (v_migrating v1 \<or> v_importing v1) \<and> \<not> has_key q k'
      then v1\<lparr>v_missing := v_missing v1 + 1\<rparr> else v1)"
    have "query_next k k' (key_slot k') v = Inr v1" using True Cons.prems by (simp add: query_next_def v1_def)
    then have "query_keys q c (k' # ks) v = query_keys q c ks v2"
      using Cons.prems by (simp add: keyHashSlot_key slot v2_def)
    moreover have "v_first v2 = Some k" "v_slot v2 = key_slot k" using Cons.prems by (simp_all add: v2_def v1_def)
    ultimately show ?thesis using Cons.IH [of v2] True by (auto simp: v2_def v1_def)
  qed
qed simp

lemma getNodeByQuery_spec:
  assumes len: "length (slots c) = REDIS_CLUSTER_SLOTS" "length (migrating_slots_to c) = REDIS_CLUSTER_SLOTS"
      "length (importing_slots_from c) = REDIS_CLUSTER_SLOTS"
    and me: "heap c (myself c) = Some me"
  shows "getNodeByQuery q c = Inr (query_spec q c me)"
proof (cases "is_exec q \<and> \<not> in_multi q \<or> concat (command_keys q) = []")
  case True
  then show ?thesis
    by (cases "concat (command_keys q) = []")
      (simp_all add: getNodeByQuery_def query_spec_def Let_def query_start_def query_decide_def del: concat_eq_Nil_conv rbind_eq_Inr)
next
  case False
  then obtain k ks where keys: "concat (command_keys q) = k # ks" by (cases "concat (command_keys q)") auto
  define s where "s = key_slot k"
  have s: "s < REDIS_CLUSTER_SLOTS" by (simp add: s_def key_slot_less)
  have slot: "unat (crc16_bytes (hash_part k) AND 0x3FFF) = s" by (simp add: s_def key_slot_def)
  show ?thesis
  proof (cases "slots c ! s")
    case None
    then show ?thesis using False s
      by (simp add: getNodeByQuery_def keys keyHashSlot_key slot query_start_def query_first_def rd_in len
          query_spec_def Let_def s_def [symmetric])
  next
    case (Some p)
    define out where "out \<longleftrightarrow> p = myself c \<and> migrating_slots_to c ! s \<noteq> None"
    define inn where "inn \<longleftrightarrow> \<not> out \<and> importing_slots_from c ! s \<noteq> None"
    define miss where "miss = (if (out \<or> inn) \<and> \<not> has_key q k then 1 else 0 :: nat)"
    define v where "v = \<lparr>v_node = Some p, v_first = Some k, v_slot = s, v_migrating = out, v_importing = inn,
      v_multiple = False, v_missing = miss\<rparr>"
    have "query_keys q c (k # ks) query_start = query_keys q c ks v"
      using s Some by (simp add: keyHashSlot_key slot query_start_def query_first_def rd_in len v_def Let_def
          out_def inn_def miss_def) auto
    also have "\<dots> = Inr (if \<exists>k' \<in> set ks. key_slot k' \<noteq> s then Inl REDIR_CROSS_SLOT
      else Inr (v\<lparr>v_multiple := (\<exists>k' \<in> set ks. k' \<noteq> k),
        v_missing := miss + (if out \<or> inn then length (filter (\<lambda>k. \<not> has_key q k) ks) else 0)\<rparr>))"
      using query_keys_rest [of v k q c ks] by (simp add: v_def s_def)
    finally have loop: "query_keys q c (k # ks) query_start = \<dots>" .
    define miss' where "miss' = miss + (if out \<or> inn then length (filter (\<lambda>k. \<not> has_key q k) ks) else 0)"
    define all_here where "all_here \<longleftrightarrow> (\<forall>k' \<in> set (k # ks). has_key q k')"
    define multiple where "multiple \<longleftrightarrow> (\<exists>k' \<in> set ks. k' \<noteq> k)"
    define crossing where "crossing \<longleftrightarrow> (\<exists>k' \<in> set ks. key_slot k' \<noteq> s)"
    have missing: "0 < miss' \<longleftrightarrow> (out \<or> inn) \<and> \<not> all_here"
      by (auto simp: miss'_def miss_def all_here_def filter_empty_conv)
    have "getNodeByQuery q c = (if crossing then Inr (None, REDIR_CROSS_SLOT)
      else query_decide q c (v\<lparr>v_multiple := multiple, v_missing := miss'\<rparr>))"
      using False unfolding crossing_def multiple_def miss'_def
      by (simp add: getNodeByQuery_def keys loop del: query_keys.simps) blast
    also have "\<dots> = Inr (query_spec q c me)"
    proof -
      have cross: "(\<exists>k' \<in> set (k # ks). key_slot k' \<noteq> s) \<longleftrightarrow> crossing"
        and one: "(\<forall>k' \<in> set (k # ks). k' = k) \<longleftrightarrow> \<not> multiple" by (auto simp: s_def crossing_def multiple_def)
      have spec: "query_spec q c me =
         (if crossing then (None, REDIR_CROSS_SLOT)
          else if out \<and> \<not> all_here then (migrating_slots_to c ! s, REDIR_ASK)
          else if inn \<and> (client_asking q \<or> cmd_asking q) then
            if multiple \<and> \<not> all_here then (None, REDIR_UNSTABLE) else (Some (myself c), REDIR_NONE)
          else if p = myself c \<or> client_readonly q \<and> cmd_readonly q \<and> nodeIsSlave me \<and> n_slaveof me = Some p
            then (Some (myself c), REDIR_NONE)
          else (Some p, REDIR_MOVED))"
        using False Some
        by (simp only: query_spec_def Let_def keys list.sel s_def [symmetric] cross one out_def inn_def all_here_def [symmetric]
            simp_thms option.inject list.distinct option.distinct if_False)
      have excl: "inn \<Longrightarrow> \<not> out" by (simp add: inn_def)
      show ?thesis unfolding spec
        by (cases all_here; cases out; cases inn)
          (use s missing excl in \<open>simp_all add: query_decide_def v_def rd_in len getn_live [OF me] del: getn_Some rbind_eq_Inr\<close>)
    qed
    finally show ?thesis .
  qed
qed

end
