(* ===== verification/ClusterWire.thy ===== *)
theory ClusterWire
  imports ClusterCommand
begin

text \<open>
  What a node tells others: the ranges of slots of a \<open>CLUSTER SLOTS\<close> reply,
  and messages that the receiver accepts.
\<close>

section \<open>Ranges of slots\<close>

definition range_slots :: "nat \<times> nat \<Rightarrow> nat list" where
  "range_slots r = [fst r..<snd r + 1]"

definition bit_slots :: "u8 list \<Rightarrow> nat \<Rightarrow> nat list" where
  "bit_slots bm k = filter (\<lambda>j. bit (bm ! (j div 8)) (j mod 8)) [0..<k]"

text \<open>The ranges are maximal: a slot without bit lies between one range and the next.\<close>

definition separated :: "(nat \<times> nat) list \<Rightarrow> bool" where
  "separated rs \<longleftrightarrow> (\<forall>r \<in> set rs. fst r \<le> snd r) \<and> sorted_wrt (\<lambda>r r'. snd r + 1 < fst r') rs"

definition open_slots :: "nat option \<Rightarrow> nat \<Rightarrow> nat list" where
  "open_slots start k = (case start of None \<Rightarrow> [] | Some s \<Rightarrow> [s..<k])"

lemma bit_slots_Suc: "bit_slots bm (Suc k) = bit_slots bm k @ (if bit (bm ! (k div 8)) (k mod 8) then [k] else [])"
  by (simp add: bit_slots_def)

lemma range_step_eq:
  assumes "length bm = 2048" and "j < REDIS_CLUSTER_SLOTS"
  shows "range_step bm j (start, out) =
     (let b = bit (bm ! (j div 8)) (j mod 8);
          start = (if b \<and> start = None then Some j else start)
      in case start of None \<Rightarrow> Inr (None, out)
         | Some s \<Rightarrow> if \<not> b then Inr (None, out @ [(s, j - 1)])
             else if j = REDIS_CLUSTER_SLOTS - 1 then Inr (None, out @ [(s, j)])
             else Inr (Some s, out))"
  using assms by (simp add: range_step_def test_bit Let_def split: option.split) auto

definition ranges_inv :: "u8 list \<Rightarrow> nat \<Rightarrow> nat option \<times> (nat \<times> nat) list \<Rightarrow> bool" where
  "ranges_inv bm k s = (case s of (start, out) \<Rightarrow>
     concat (map range_slots out) @ open_slots start k = bit_slots bm k \<and> separated out \<and>
     (\<forall>r \<in> set out. snd r + 1 < k \<or> k = REDIS_CLUSTER_SLOTS) \<and>
     (\<forall>s. start = Some s \<longrightarrow> s < k \<and> k < REDIS_CLUSTER_SLOTS \<and> (\<forall>r \<in> set out. snd r + 1 < s)))"

lemma separated_snoc:
  "separated (rs @ [(a, b)]) \<longleftrightarrow> separated rs \<and> a \<le> b \<and> (\<forall>r \<in> set rs. snd r + 1 < a)"
  by (auto simp: separated_def sorted_wrt_append)

lemma ranges_step:
  assumes len: "length bm = 2048" and j: "j < REDIS_CLUSTER_SLOTS" and inv: "ranges_inv bm j s"
  shows "\<exists>s'. range_step bm j s = Inr s' \<and> ranges_inv bm (Suc j) s'"
proof -
  obtain start out where s: "s = (start, out)" by force
  define b where "b = bit (bm ! (j div 8)) (j mod 8)"
  have eq: "concat (map range_slots out) @ open_slots start j = bit_slots bm j" and sep: "separated out"
    and lt: "\<forall>r \<in> set out. snd r + 1 < j" and st: "\<And>s. start = Some s \<Longrightarrow> s < j \<and> (\<forall>r \<in> set out. snd r + 1 < s)"
    using inv j by (auto simp: ranges_inv_def s)
  note step = range_step_eq [OF len j, of start out, folded b_def]
  have bits: "bit_slots bm (Suc j) = bit_slots bm j @ (if b then [j] else [])" by (simp add: bit_slots_Suc b_def)
  define st' where "st' = (if b \<and> start = None then Some j else start)"
  show ?thesis
  proof (cases st')
    case None
    then have n: "start = None" "\<not> b" by (auto simp: st'_def split: if_splits)
    then have "range_step bm j s = Inr (None, out)" using step s by simp
    moreover have "ranges_inv bm (Suc j) (None, out)"
      using n eq sep lt bits by (auto simp: ranges_inv_def open_slots_def)
    ultimately show ?thesis by blast
  next
    case (Some a)
    have a: "a \<le> j" "\<forall>r \<in> set out. snd r + 1 < a" "\<not> b \<Longrightarrow> a < j"
      using Some st [of a] lt by (auto simp: st'_def split: if_splits)
    have op: "concat (map range_slots out) @ [a..<j] = bit_slots bm j"
      using Some eq by (auto simp: st'_def open_slots_def split: if_splits)
    show ?thesis
    proof (cases b)
      case False
      then have "range_step bm j s = Inr (None, out @ [(a, j - 1)])" using step s Some by (simp add: st'_def)
      moreover have "ranges_inv bm (Suc j) (None, out @ [(a, j - 1)])"
        using False a op sep bits by (auto simp: ranges_inv_def open_slots_def separated_snoc range_slots_def)
      ultimately show ?thesis by blast
    next
      case True
      have up: "[a..<j] @ [j] = [a..<Suc j]" using a(1) by simp
      then have op': "concat (map range_slots out) @ [a..<Suc j] = bit_slots bm (Suc j)"
        using op bits True by (metis append.assoc)
      show ?thesis
      proof (cases "j = REDIS_CLUSTER_SLOTS - 1")
        case last: True
        then have "range_step bm j s = Inr (None, out @ [(a, j)])" using step s Some True by (simp add: st'_def Let_def)
        moreover have "ranges_inv bm (Suc j) (None, out @ [(a, j)])"
          using a op' sep last j by (auto simp: ranges_inv_def open_slots_def separated_snoc range_slots_def)
        ultimately show ?thesis by blast
      next
        case False
        then have "range_step bm j s = Inr (Some a, out)" using step s Some True by (simp add: st'_def Let_def)
        moreover have "ranges_inv bm (Suc j) (Some a, out)"
          using a op' sep False j by (auto simp: ranges_inv_def open_slots_def)
        ultimately show ?thesis by blast
      qed
    qed
  qed
qed

lemma slot_ranges_spec:
  assumes "length bm = 2048"
  obtains rs where "slot_ranges bm = Inr rs" "concat (map range_slots rs) = bit_slots bm REDIS_CLUSTER_SLOTS" "separated rs"
proof -
  have "\<exists>s. for_each (range_step bm) [0..<REDIS_CLUSTER_SLOTS] (None, []) = Inr s \<and>
    ranges_inv bm (length [0..<REDIS_CLUSTER_SLOTS]) s"
  proof (rule for_each_rule [where I = "\<lambda>js s. ranges_inv bm (length js) s"])
    show "ranges_inv bm (length []) (None, [])"
      by (simp add: ranges_inv_def open_slots_def bit_slots_def separated_def)
    fix ys j zs s assume js: "[0..<REDIS_CLUSTER_SLOTS] = ys @ j # zs" and I: "ranges_inv bm (length ys) s"
    have "j < REDIS_CLUSTER_SLOTS" "ys = [0..<j]" using upt_split [OF js] by auto
    then show "\<exists>s'. range_step bm j s = Inr s' \<and> ranges_inv bm (length (ys @ [j])) s'"
      using ranges_step [OF assms, of j s] I by simp
  qed
  then obtain start out where r: "for_each (range_step bm) [0..<REDIS_CLUSTER_SLOTS] (None, []) = Inr (start, out)"
    "ranges_inv bm REDIS_CLUSTER_SLOTS (start, out)" by auto
  then have "start = None" by (cases start) (auto simp: ranges_inv_def)
  then show thesis using that [of out] r by (simp add: slot_ranges_def ranges_inv_def open_slots_def)
qed

section \<open>Messages\<close>

text \<open>The gossip section: at most \<open>wanted\<close> entries, of different nodes, none in handshake or without address.\<close>

definition gossip_ok :: "cluster \<Rightarrow> int \<Rightarrow> clusterMsgDataGossip list \<Rightarrow> bool" where
  "gossip_ok c wanted gs \<longleftrightarrow> int (length gs) \<le> max 0 wanted \<and> distinct (map g_nodename gs) \<and>
     (\<forall>g \<in> set gs. \<exists>s p n. (s, p) \<in> set (nodes c) \<and> p \<noteq> myself c \<and> heap c p = Some n \<and>
        n_flags n AND (REDIS_NODE_HANDSHAKE OR REDIS_NODE_NOADDR) = 0 \<and> g = gossip_entry n)"

lemma gossip_loop_ok:
  assumes "gossip_loop k h c i wanted fresh gs = Inr gs'" and "gossip_ok c wanted gs"
  shows "gossip_ok c wanted gs'"
  using assms
proof (induction k arbitrary: i fresh gs)
  case (Suc k)
  show ?case
  proof (cases "fresh > 0 \<and> int (length gs) < wanted")
    case False
    then show ?thesis using Suc.prems by auto
  next
    case True
    then obtain e where e: "rd (nodes c) (random_key h c i) = Inr e"
      and r: "(if snd e = myself c then gossip_loop k h c (i + 1) wanted fresh gs
        else
          rbind (getn c (Some (snd e))) (\<lambda>n.
          if int k > wanted * 2 \<and> n_flags n AND (REDIS_NODE_PFAIL OR REDIS_NODE_FAIL) = 0
          then gossip_loop k h c (i + 1) wanted fresh gs
          else if n_flags n AND (REDIS_NODE_HANDSHAKE OR REDIS_NODE_NOADDR) \<noteq> 0 \<or> n_link n = None \<and> n_numslots n = 0
          then gossip_loop k h c (i + 1) wanted (fresh - 1) gs
          else if \<exists>g \<in> set gs. g_nodename g = n_name n
          then gossip_loop k h c (i + 1) wanted fresh gs
          else gossip_loop k h c (i + 1) wanted (fresh - 1) (gs @ [gossip_entry n]))) = Inr gs'"
      using Suc.prems(1) by (auto split del: if_split)
    show ?thesis
    proof (cases "snd e = myself c")
      case True
      then show ?thesis using r Suc.IH Suc.prems(2) by auto
    next
      case my: False
      then obtain n where n: "heap c (snd e) = Some n"
        and r': "(if int k > wanted * 2 \<and> n_flags n AND (REDIS_NODE_PFAIL OR REDIS_NODE_FAIL) = 0
          then gossip_loop k h c (i + 1) wanted fresh gs
          else if n_flags n AND (REDIS_NODE_HANDSHAKE OR REDIS_NODE_NOADDR) \<noteq> 0 \<or> n_link n = None \<and> n_numslots n = 0
          then gossip_loop k h c (i + 1) wanted (fresh - 1) gs
          else if \<exists>g \<in> set gs. g_nodename g = n_name n
          then gossip_loop k h c (i + 1) wanted fresh gs
          else gossip_loop k h c (i + 1) wanted (fresh - 1) (gs @ [gossip_entry n])) = Inr gs'"
        using r by (auto split del: if_split)
      obtain nm p where ep: "e = (nm, p)" by (cases e)
      have "(nm, p) \<in> set (nodes c)" using e ep by (auto simp: rd_Inr_iff)
      then have ok: "gossip_ok c wanted (gs @ [gossip_entry n])"
        if "n_flags n AND (REDIS_NODE_HANDSHAKE OR REDIS_NODE_NOADDR) = 0" "\<forall>g \<in> set gs. g_nodename g \<noteq> n_name n"
        using that Suc.prems(2) True my n by (fastforce simp: gossip_ok_def gossip_entry_def ep)
      show ?thesis using r' Suc.IH Suc.prems(2) ok by (auto split: if_splits)
    qed
  qed
qed simp

lemma gossip_section_ok:
  assumes "gossip_section h c = Inr gs"
  shows "gossip_ok c (snd (gossip_wanted (int (length (nodes c))))) gs"
  using assms gossip_loop_ok by (fastforce simp: gossip_section_def gossip_ok_def split: prod.splits)

lemma gossip_wanted_le: "snd (gossip_wanted k) \<le> max 3 (k div 10)"
  by (auto simp: gossip_wanted_def Let_def)

lemma hdr_fields:
  assumes "clusterBuildMessageHdr port off c data = Inr hdr"
  shows "m_ver hdr = CLUSTER_PROTO_VER" "m_data hdr = data"
    "m_totlen hdr = (case data of Fail _ \<Rightarrow> sizeof_header + sizeof_fail
                      | Update _ _ _ \<Rightarrow> sizeof_header + sizeof_update | _ \<Rightarrow> 0)"
    "m_currentEpoch hdr = currentEpoch c"
  using assms by (auto simp: clusterBuildMessageHdr_def)

lemma ucast_count: "k < 65536 \<Longrightarrow> ucast (of_nat k :: u16) = (of_nat k :: u32)"
  by (rule word_unat_eq_iff [THEN iffD2]) (simp add: unat_ucast_up unat_of_nat)

end
