(* ===== verification/ClusterDemo.thy ===== *)
theory ClusterDemo
  imports ClusterClaim ClusterRoute ClusterWire
begin

text \<open>
  A small concrete cluster, on which the properties are applied: master \<open>a\<close>
  owns slot 0, master \<open>b\<close> owns slot 1, and \<open>c\<close> is a slave of \<open>b\<close>.  Which of
  them the node itself is, and the flags of \<open>b\<close>, are arguments.
\<close>

definition name_a :: name where "name_a = replicate 40 97"
definition name_b :: name where "name_b = replicate 40 98"
definition name_c :: name where "name_c = replicate 40 99"

definition first_byte :: "u8 \<Rightarrow> u8 list" where
  "first_byte w = w # replicate 2047 0"

definition node_a :: clusterNode where
  "node_a = (new_node 0 name_a REDIS_NODE_MASTER)\<lparr>n_slots := first_byte 1, n_numslots := 1, n_configEpoch := 1\<rparr>"

definition node_b :: "u32 \<Rightarrow> clusterNode" where
  "node_b fl = (new_node 0 name_b fl)\<lparr>n_slots := first_byte 2, n_numslots := 1, n_configEpoch := 2, n_slaves := [3]\<rparr>"

definition node_c :: clusterNode where
  "node_c = (new_node 0 name_c REDIS_NODE_SLAVE)\<lparr>n_slaveof := Some 2, n_link := Some 0\<rparr>"

definition demo_env :: server_env where
  "demo_env = \<lparr>cluster_node_timeout = 15000, cluster_require_full_coverage = False, cluster_migration_barrier = 1,
     cluster_slave_validity_factor = 10, repl_ping_slave_period = 10, repl_connected = True, master_lastinteraction = 0,
     repl_down_since = 0, slave_offset = 0, unixtime = 0, time_null = 0, clients_paused = False, other_dbs_empty = True,
     db_empty = True, no_masterhost = False, countKeysInSlot = (\<lambda>_. 0)\<rparr>"

definition demo :: "ptr \<Rightarrow> u32 \<Rightarrow> cluster" where
  "demo me fl = \<lparr>env = demo_env, heap = [1 \<mapsto> node_a, 2 \<mapsto> node_b fl, 3 \<mapsto> node_c], myself = me,
     currentEpoch = 5, cstate = ClusterFail, csize = 2, nodes = [(name_a, 1), (name_b, 2), (name_c, 3)],
     black_list = [], migrating_slots_to = replicate 16384 None, importing_slots_from = replicate 16384 None,
     slots = Some 1 # Some 2 # replicate 16382 None, failover_auth_time = 0, failover_auth_count = 0,
     failover_auth_sent = False, failover_auth_rank = 0, failover_auth_epoch = 0, cant_failover_reason = CantNone,
     mf_end = 0, mf_slave = None, mf_master_offset = 0, mf_can_start = False, lastVoteEpoch = 3, todo_before_sleep = 0,
     among_minority_time = 0, first_call_time = 1, cron_iteration = 0, clock = (\<lambda>i. 100000), ticks = 0, effects = []\<rparr>"

lemma demo_fields [simp]:
  "myself (demo me fl) = me" "length (slots (demo me fl)) = REDIS_CLUSTER_SLOTS"
  "length (importing_slots_from (demo me fl)) = REDIS_CLUSTER_SLOTS"
  "length (migrating_slots_to (demo me fl)) = REDIS_CLUSTER_SLOTS"
  "heap (demo me fl) = [1 \<mapsto> node_a, 2 \<mapsto> node_b fl, 3 \<mapsto> node_c]"
  "nodes (demo me fl) = [(name_a, 1), (name_b, 2), (name_c, 3)]" "env (demo me fl) = demo_env"
  "currentEpoch (demo me fl) = 5" "lastVoteEpoch (demo me fl) = 3" "votes (demo me fl) = []" "effects (demo me fl) = []"
  "mf_end (demo me fl) = 0" "clock (demo me fl) = (\<lambda>_. 100000)" "csize (demo me fl) = 2" "cstate (demo me fl) = ClusterFail"
  "todo_before_sleep (demo me fl) = 0"
  "ticks (demo me fl) = 0"
  by (simp_all add: demo_def REDIS_CLUSTER_SLOTS_def votes_def)

lemma length_first [simp]: "length (first_byte w) = 2048"
  by (simp add: first_byte_def)

lemma bit_first:
  assumes "j < REDIS_CLUSTER_SLOTS"
  shows "bit (first_byte w ! (j div 8)) (j mod 8) \<longleftrightarrow> j < 8 \<and> bit w j"
proof (cases "j < 8")
  case True
  then show ?thesis by (simp add: first_byte_def)
next
  case False
  then obtain m where "j div 8 = Suc m" by (cases "j div 8") auto
  moreover have "m < 2047" using assms calculation by (simp add: REDIS_CLUSTER_SLOTS_def)
  ultimately show ?thesis using False by (simp add: first_byte_def)
qed

lemma bit_two: "bit (2 :: u8) j \<longleftrightarrow> j = 1"
proof -
  have "(2 :: u8) = push_bit 1 1" by simp
  then show ?thesis by (simp only: bit_push_bit_iff bit_1_iff) auto
qed

lemma demo_slots: "j < REDIS_CLUSTER_SLOTS \<Longrightarrow> slots (demo me fl) ! j = (if j = 0 then Some 1 else if j = 1 then Some 2 else None)"
  by (auto simp: demo_def REDIS_CLUSTER_SLOTS_def nth_Cons' )

lemma demo_bits:
  assumes "j < REDIS_CLUSTER_SLOTS"
  shows "slot_bit node_a j \<longleftrightarrow> j = 0" "slot_bit (node_b fl) j \<longleftrightarrow> j = 1" "\<not> slot_bit node_c j"
proof -
  have z: "n_slots node_c = first_byte 0"
    by (simp add: node_c_def new_node_def first_byte_def REDIS_CLUSTER_SLOTS_def) (simp add: numeral_eq_Suc)
  show "slot_bit node_a j \<longleftrightarrow> j = 0" "slot_bit (node_b fl) j \<longleftrightarrow> j = 1" "\<not> slot_bit node_c j"
    using bit_first [OF assms, of 1] bit_first [OF assms, of 2] bit_first [OF assms, of 0]
    unfolding bit_two bit_1_iff by (auto simp: slot_bit_def node_a_def node_b_def z)
qed

lemma demo_ok: "slots_ok (demo me fl)"
proof -
  have "{j. j < REDIS_CLUSTER_SLOTS \<and> slot_bit node_a j} = {0}" "{j. j < REDIS_CLUSTER_SLOTS \<and> slot_bit (node_b fl) j} = {1}"
    "{j. j < REDIS_CLUSTER_SLOTS \<and> slot_bit node_c j} = {}"
    using demo_bits by (auto simp: REDIS_CLUSTER_SLOTS_def)
  moreover have "length (n_slots node_a) = 2048" "length (n_slots (node_b fl)) = 2048" "length (n_slots node_c) = 2048"
    "n_numslots node_a = 1" "n_numslots (node_b fl) = 1" "n_numslots node_c = 0"
    by (simp_all add: node_a_def node_b_def node_c_def new_node_def REDIS_CLUSTER_SLOTS_def)
  ultimately have "node_ok node_a" "node_ok (node_b fl)" "node_ok node_c"
    by (simp_all add: node_ok_def)
  moreover have "slots (demo me fl) ! j = Some p \<longleftrightarrow> (\<exists>n. heap (demo me fl) p = Some n \<and> slot_bit n j)"
    if "j < REDIS_CLUSTER_SLOTS" for j p
    using demo_bits [OF that] by (auto simp: demo_slots [OF that])
  ultimately show ?thesis by (auto simp: slots_ok_def split: if_splits)
qed

section \<open>A vote\<close>

definition demo_host :: host where
  "demo_host = \<lparr>alloc = (\<lambda>c. Suc (Max (insert 0 (dom (heap c))))), random_name = (\<lambda>_. name_a), norm_ip = Some,
     peer_ip = [], sock_ip = None, connect_ok = (\<lambda>_ _. False), random_key = (\<lambda>_ _. 2), random_num = (\<lambda>_. 0)\<rparr>"

lemma demo_host_ok: "host_ok demo_host"
proof -
  have "heap c (Suc (Max (insert 0 (dom (heap c))))) = None" if "finite (dom (heap c))" for c :: cluster
  proof (rule ccontr)
    assume "heap c (Suc (Max (insert 0 (dom (heap c))))) \<noteq> None"
    then have "Suc (Max (insert 0 (dom (heap c)))) \<in> insert 0 (dom (heap c))" by auto
    then have "Suc (Max (insert 0 (dom (heap c)))) \<le> Max (insert 0 (dom (heap c)))"
      using that by (intro Max_ge) auto
    then show False by simp
  qed
  then show ?thesis by (simp add: host_ok_def demo_host_def)
qed

text \<open>The slave asks for a vote in epoch 6, after its master has failed.\<close>

definition demo_request :: clusterMsg where
  "demo_request = \<lparr>m_totlen = 2208, m_ver = 0, m_count = 0, m_currentEpoch = 6, m_configEpoch = 2, m_offset = 0,
     m_sender = name_c, m_myslots = first_byte 2, m_slaveof = name_b, m_port = 7002, m_flags = 2, m_paused = False,
     m_forceack = False, m_data = AuthRequest\<rparr>"

definition failed_master :: u32 where
  "failed_master = REDIS_NODE_MASTER OR REDIS_NODE_FAIL"

lemma claim_fine:
  assumes ok: "slots_ok c" and len: "length (r_slots r) = 2048"
    and fine: "\<And>j p n. j < REDIS_CLUSTER_SLOTS \<Longrightarrow> bit (r_slots r ! (j div 8)) (j mod 8) \<Longrightarrow> slots c ! j = Some p \<Longrightarrow>
      heap c p = Some n \<Longrightarrow> n_configEpoch n \<le> r_configEpoch r"
  shows "claim_outdated c r [0..<REDIS_CLUSTER_SLOTS] = Inr False"
proof -
  have "claim_outdated c r js = Inr False" if "\<forall>j \<in> set js. j < REDIS_CLUSTER_SLOTS" for js
    using that
  proof (induction js)
    case (Cons j js)
    then have j: "j < REDIS_CLUSTER_SLOTS" and IH: "claim_outdated c r js = Inr False" by auto
    show ?case
    proof (cases "bit (r_slots r ! (j div 8)) (j mod 8)")
      case b: True
      show ?thesis
      proof (cases "slots c ! j")
        case None
        then show ?thesis using b j IH by (simp add: test_bit len rd_in slots_okD(1) [OF ok])
      next
        case (Some p)
        then obtain n where n: "heap c p = Some n" using slots_okD(3) [OF ok j] by blast
        show ?thesis using b j IH fine [OF j b Some n]
          by (simp add: test_bit len rd_in slots_okD(1) [OF ok] Some getn_live [OF n] del: getn_Some)
      qed
    qed (use j IH in \<open>simp add: test_bit len\<close>)
  qed simp
  then show ?thesis by simp
qed

lemma demo_names [simp]:
  "name_a \<noteq> name_b" "name_a \<noteq> name_c" "name_b \<noteq> name_c" "name_b \<noteq> name_a" "name_c \<noteq> name_a" "name_c \<noteq> name_b"
  by (simp_all add: name_a_def name_b_def name_c_def)

lemma demo_flags:
  "nodeIsMaster node_a" "\<not> nodeIsSlave node_a" "\<not> nodeFailed node_a" "n_numslots node_a = 1" "n_slaveof node_a = None"
  "nodeIsSlave node_c" "\<not> nodeIsMaster node_c" "\<not> nodeInHandshake node_c" "n_slaveof node_c = Some 2"
  "n_link node_c = Some 0" "n_name node_c = name_c" "n_configEpoch node_c = 0" "n_numslots node_c = 0"
  "nodeFailed (node_b failed_master)" "n_voted_time (node_b fl) = 0" "n_configEpoch (node_b fl) = 2" "n_flags (node_b fl) = fl"
  by (simp_all add: nodeIsMaster_def nodeIsSlave_def nodeFailed_def nodeInHandshake_def node_a_def node_c_def node_b_def
      new_node_def node_flags failed_master_def)

definition demo_voted :: cluster where
  "demo_voted = (demo 1 failed_master)\<lparr>currentEpoch := 6, lastVoteEpoch := 6, ticks := 3,
     heap := [1 \<mapsto> node_a, 3 \<mapsto> node_c\<lparr>n_configEpoch := 2, n_repl_offset := 0, n_repl_offset_time := 100000\<rparr>,
       2 \<mapsto> (node_b failed_master)\<lparr>n_voted_time := 100000\<rparr>],
     todo_before_sleep := CLUSTER_TODO_SAVE_CONFIG OR CLUSTER_TODO_FSYNC_CONFIG, effects := [SendFailoverAuth name_c 6]\<rparr>"

definition demo_asked :: cluster where
  "demo_asked = (demo 1 failed_master)\<lparr>currentEpoch := 6, ticks := 1,
     heap := [1 \<mapsto> node_a, 2 \<mapsto> node_b failed_master,
       3 \<mapsto> node_c\<lparr>n_configEpoch := 2, n_repl_offset := 0, n_repl_offset_time := 100000\<rparr>],
     todo_before_sleep := CLUSTER_TODO_SAVE_CONFIG OR CLUSTER_TODO_FSYNC_CONFIG\<rparr>"

lemma asked_fields [simp]:
  "heap demo_asked = [1 \<mapsto> node_a, 2 \<mapsto> node_b failed_master,
       3 \<mapsto> node_c\<lparr>n_configEpoch := 2, n_repl_offset := 0, n_repl_offset_time := 100000\<rparr>]"
  "myself demo_asked = 1" "currentEpoch demo_asked = 6" "lastVoteEpoch demo_asked = 3" "env demo_asked = demo_env"
  "clock demo_asked = (\<lambda>_. 100000)" "effects demo_asked = []" "ticks demo_asked = 1"
  by (simp_all add: demo_asked_def)

lemma slave_of_b [simp]:
  "nodeIsMaster (node_c\<lparr>n_configEpoch := e, n_repl_offset := k, n_repl_offset_time := t\<rparr>) = nodeIsMaster node_c"
  by (simp add: nodeIsMaster_def)

lemma demo_asks: "packet_epochs (demo 1 failed_master) 3 demo_request = Inr demo_asked"
  by (simp add: packet_epochs_def demo_request_def Let_def getn_live updn_live demo_flags mstime_def
      clusterDoBeforeSleep_def demo_asked_def del: getn_Some rbind_eq_Inr)

lemma demo_claim: "claim_outdated (demo_asked\<lparr>ticks := k\<rparr>) (request_of demo_request) [0..<REDIS_CLUSTER_SLOTS] = Inr False"
proof (rule claim_fine)
  have "slots_ok demo_asked" using epochs_raised [OF demo_asks] demo_ok by (simp add: raised_def)
  then show "slots_ok (demo_asked\<lparr>ticks := k\<rparr>)" by (simp add: slots_ok_def)
  show "length (r_slots (request_of demo_request)) = 2048" by (simp add: request_of_def demo_request_def)
  fix j p n assume j: "j < REDIS_CLUSTER_SLOTS" "bit (r_slots (request_of demo_request) ! (j div 8)) (j mod 8)"
    "slots (demo_asked\<lparr>ticks := k\<rparr>) ! j = Some p" "heap (demo_asked\<lparr>ticks := k\<rparr>) p = Some n"
  have "j = 1" using j(2) bit_first [OF j(1), of 2] by (simp only: request_of_def demo_request_def bit_two) simp
  then have "p = 2" using j(1,3) demo_slots [OF j(1)] by (simp add: demo_asked_def)
  then have "n = node_b failed_master" using j(4) by (simp add: demo_asked_def)
  then show "n_configEpoch n \<le> r_configEpoch (request_of demo_request)"
    by (simp add: demo_flags request_of_def demo_request_def)
qed

lemma demo_grant: "clusterSendFailoverAuthIfNeeded demo_asked 3 (request_of demo_request) = Inr demo_voted"
  using demo_claim
  by (simp add: clusterSendFailoverAuthIfNeeded_def Let_def getn_live updn_live mstime_def demo_flags demo_env_def
      clusterSendFailoverAuth_def perform_def request_of_def demo_request_def demo_voted_def del: getn_Some rbind_eq_Inr)
    (simp add: demo_asked_def numeral_3_eq_3)

lemma demo_vote: "handle (Packet demo_host (Some 3) demo_request 2208) (demo 1 failed_master) = Inr demo_voted"
proof -
  have "packet_sane demo_request 2208"
    by (simp add: packet_sane_def demo_request_def expected_len_def CLUSTER_PROTO_VER_def sizeof_header_def)
  moreover have "clusterLookupNode (demo 1 failed_master) (m_sender demo_request) = Some 3"
    by (simp add: clusterLookupNode_def demo_request_def)
  moreover note demo_grant
  moreover have "m_data demo_request = AuthRequest" by (simp add: demo_request_def)
  ultimately show ?thesis
    by (simp add: clusterProcessPacket_def Let_def getn_live demo_flags demo_asks [unfolded One_nat_def]
        del: getn_Some rbind_eq_Inr)
qed

end
