(* ===== verification/ClusterTheorems.thy ===== *)
theory ClusterTheorems
  imports ClusterDemo
begin

text \<open>
  The properties of the cluster part, each with an application to the small
  cluster of \<open>ClusterDemo\<close>.
\<close>

section \<open>The state machine\<close>

text \<open>C1: the table of slot owners, the bitmaps and the slot counters of the nodes agree in every state a
  node reaches by packets, timers, commands, link errors and changes of its environment.\<close>

theorem cluster_slots_invariant:
  assumes "run es c = Inr d" and "list_all event_ok es" and "slots_ok c"
  shows "slots_ok d"
  by (rule run_ok [OF assms])

lemma demo_run: "run [Packet demo_host (Some 3) demo_request 2208] (demo 1 failed_master) = Inr demo_voted"
  using demo_vote by (simp add: run_def del: handle.simps)

theorem cluster_slots_invariant_witness:
  "run [Packet demo_host (Some 3) demo_request 2208] (demo 1 failed_master) = Inr demo_voted \<and> slots_ok demo_voted"
  using cluster_slots_invariant [OF demo_run] demo_run demo_ok by (simp add: demo_host_ok)

text \<open>In every state a node reaches, the slot counter of each node it knows is the number of slots the
  node owns in the table, and lies between 0 and 16384.\<close>

theorem numslots_counts:
  assumes "run es c = Inr d" and "list_all event_ok es" and "slots_ok c" and "heap d p = Some n"
  shows "n_numslots n = int (card {j. j < REDIS_CLUSTER_SLOTS \<and> slots d ! j = Some p}) \<and>
    0 \<le> n_numslots n \<and> n_numslots n \<le> 16384"
  using run_ok [OF assms(1-3)] numslots_owned numslots_bounds assms(4) by blast

theorem numslots_counts_witness:
  "n_numslots node_a = int (card {j. j < REDIS_CLUSTER_SLOTS \<and> slots demo_voted ! j = Some 1}) \<and>
    0 \<le> n_numslots node_a \<and> n_numslots node_a \<le> 16384"
  by (rule numslots_counts [OF demo_run]) (simp_all add: demo_host_ok demo_ok demo_voted_def)

text \<open>C5: over the life of a node the votes it sends are for strictly increasing epochs, so it votes at
  most once per epoch.  A life has no hard reset, which forgets the epochs, and no restart, and no epoch in
  it, of the node or of a message, is the greatest 64-bit number, from which the counter wraps around.  That
  the epoch of the node never goes down otherwise is proved from the handlers (\<open>handle_step\<close>).\<close>

theorem votes_increase:
  assumes "lives c d" and "votes c = []" and "lastVoteEpoch c \<le> currentEpoch c"
  shows "sorted_wrt (<) (map fst (votes d))"
  using lives_votes_ok [OF assms(1)] assms(2,3) by (simp add: votes_ok_def)

lemma demo_lives: "lives (demo 1 failed_master) demo_voted"
  by (rule lives.step [OF lives.start demo_vote]) (simp_all add: demo_host_ok demo_def demo_request_def)

lemma demo_votes: "votes demo_voted = [(6, name_c)]"
  by (simp add: demo_voted_def votes_def)

theorem votes_increase_witness:
  "votes demo_voted = [(6, name_c)] \<and> sorted_wrt (<) (map fst (votes demo_voted))"
  using votes_increase [OF demo_lives] demo_votes by simp

text \<open>C2: when two candidates have the votes of a majority of the same voters for the same epoch, they
  are the same node: at most one slave wins an election.  The voters may handle any packets, timers and
  commands but hard resets, and do not restart (\<open>lives\<close>, as in the property before); no epoch is the greatest
  64-bit number.  That the epoch of a voter never goes down is proved, not assumed.\<close>

theorem election_safety:
  assumes "finite V" and "\<And>v. v \<in> V \<Longrightarrow> lives (before v) (after v)"
    and "\<And>v. v \<in> V \<Longrightarrow> votes (before v) = [] \<and> lastVoteEpoch (before v) \<le> currentEpoch (before v)"
    and "card {v \<in> V. (e, a) \<in> set (votes (after v))} \<ge> card V div 2 + 1"
    and "card {v \<in> V. (e, b) \<in> set (votes (after v))} \<ge> card V div 2 + 1"
  shows "a = b"
proof -
  obtain v where v: "v \<in> V" "(e, a) \<in> set (votes (after v))" "(e, b) \<in> set (votes (after v))"
    using majorities_meet [OF assms(1,4,5)] by blast
  have "votes_ok (before v)" using assms(3) [OF v(1)] by (simp add: votes_ok_def)
  then have "votes_ok (after v)" by (rule lives_votes_ok [OF assms(2) [OF v(1)]])
  then show ?thesis using votes_distinct v(2,3) by blast
qed

theorem election_safety_witness:
  "{x. card {v \<in> {0, 1, 2 :: nat}. (6, x) \<in> set (votes demo_voted)} \<ge> card {0, 1, 2 :: nat} div 2 + 1} = {name_c}"
proof -
  have "{v \<in> {0, 1, 2 :: nat}. (6, name_c) \<in> set (votes demo_voted)} = {0, 1, 2}"
    by (auto simp: demo_votes)
  then have m: "card {v \<in> {0, 1, 2 :: nat}. (6, name_c) \<in> set (votes demo_voted)} \<ge> card {0, 1, 2 :: nat} div 2 + 1"
    by simp
  have "x = name_c" if "card {v \<in> {0, 1, 2 :: nat}. (6, x) \<in> set (votes demo_voted)} \<ge> card {0, 1, 2 :: nat} div 2 + 1" for x
    by (rule election_safety [where before = "\<lambda>_. demo 1 failed_master" and after = "\<lambda>_. demo_voted", OF _ _ _ that m])
      (simp_all add: demo_lives [unfolded One_nat_def])
  then show ?thesis using m by blast
qed

section \<open>The movement of slots\<close>

text \<open>C3: a claim of slots changes the table of owners as the abstract rule says: the sender gets the slots
  of its bitmap that are not being imported and are unassigned or owned under a smaller epoch; every other
  slot keeps its owner.  When the claim takes the last slot of the node's master, the node becomes a slave
  of the sender; otherwise the keys of the slots the node has lost are deleted.\<close>

theorem claim_refines_ownership:
  assumes "slots_ok c" and "heap c sender \<noteq> None" and "length claimed = 2048"
    and "length (importing_slots_from c) = REDIS_CLUSTER_SLOTS" and "sender \<noteq> myself c" and "current_master c m"
  shows "\<exists>c'. clusterUpdateSlotsConfigWith c sender epoch claimed = Inr c' \<and> slots_ok c' \<and>
    slots c' = map (claimed_owner c sender epoch claimed) [0..<REDIS_CLUSTER_SLOTS] \<and>
    (if bereft c m sender epoch claimed
     then \<exists>me. heap c' (myself c) = Some me \<and> n_slaveof me = Some sender
     else effects c' = effects c @ map DelKeysInSlot (filter (loses_keys c sender epoch claimed) [0..<REDIS_CLUSTER_SLOTS]))"
  by (rule updateSlots_spec [OF assms(1-6), of epoch]) blast

lemma demo_claims:
  "claimed_owner (demo 1 REDIS_NODE_MASTER) 2 9 (first_byte 1) 0 = Some 2"
  by (simp add: claimed_owner_def claim_wins_def first_byte_def outranked_def demo_slots REDIS_CLUSTER_SLOTS_def)
    (simp add: demo_def node_a_def)

theorem claim_refines_ownership_witness:
  "\<exists>c'. clusterUpdateSlotsConfigWith (demo 1 REDIS_NODE_MASTER) 2 9 (first_byte 1) = Inr c' \<and>
    hd (slots (demo 1 REDIS_NODE_MASTER)) = Some 1 \<and> slots c' ! 0 = Some 2"
proof -
  have "current_master (demo 1 REDIS_NODE_MASTER) 1" by (simp add: current_master_def demo_flags)
  then obtain c' where "clusterUpdateSlotsConfigWith (demo 1 REDIS_NODE_MASTER) 2 9 (first_byte 1) = Inr c'"
    "slots c' = map (claimed_owner (demo 1 REDIS_NODE_MASTER) 2 9 (first_byte 1)) [0..<REDIS_CLUSTER_SLOTS]"
    using claim_refines_ownership [OF demo_ok [of 1 REDIS_NODE_MASTER], of 2 "first_byte 1" 1 9] by auto
  then show ?thesis using demo_claims by (simp add: REDIS_CLUSTER_SLOTS_def demo_def)
qed

text \<open>C6: a slave that replaces its master becomes a master without master, and the owner of exactly the
  slots its old master owned; no other slot changes its owner.\<close>

theorem takeover_inherits_slots:
  assumes "slots_ok c" and "nodes_live c" and "heap c (myself c) = Some me" and "\<not> nodeIsMaster me"
    and "n_slaveof me = Some old" and "heap c old \<noteq> None"
  shows "\<exists>c' me'. clusterFailoverReplaceYourMaster c = Inr c' \<and> slots_ok c' \<and>
    slots c' = map (inherit old (myself c)) (slots c) \<and>
    heap c' (myself c) = Some me' \<and> nodeIsMaster me' \<and> n_slaveof me' = None"
  by (rule takeover_spec [OF assms]) blast

theorem takeover_inherits_slots_witness:
  "\<exists>c'. clusterFailoverReplaceYourMaster (demo 3 failed_master) = Inr c' \<and>
    slots (demo 3 failed_master) ! 1 = Some 2 \<and> slots c' ! 1 = Some 3"
proof -
  obtain c' where "clusterFailoverReplaceYourMaster (demo 3 failed_master) = Inr c'"
    "slots c' = map (inherit 2 3) (slots (demo 3 failed_master))"
    using takeover_inherits_slots [OF demo_ok [of 3 failed_master], of node_c 2]
    by (auto simp: nodes_live_def demo_flags)
  then show ?thesis using demo_slots [of 1 3 failed_master] by (simp add: REDIS_CLUSTER_SLOTS_def inherit_def)
qed

text \<open>C4: the node that serves a request, and the redirection a client gets, are those of the table of
  cases on the slots of the keys: no slot, slots that differ, a slot on its way out or in, a slot of another
  node.  The table is the one of the code, which the comments of \<open>getNodeByQuery\<close> do not describe in one case:
  of a request for several keys of a slot on its way out they say that it fails with TRYAGAIN unless all keys are
  here, but the code answers ASK (lemma \<open>partial_keys_ask\<close>); TRYAGAIN is for a slot on its way in.\<close>

theorem getNodeByQuery_decides:
  assumes "length (slots c) = REDIS_CLUSTER_SLOTS" and "length (migrating_slots_to c) = REDIS_CLUSTER_SLOTS"
    and "length (importing_slots_from c) = REDIS_CLUSTER_SLOTS" and "heap c (myself c) = Some me"
  shows "getNodeByQuery q c = Inr (query_spec q c me)"
  by (rule getNodeByQuery_spec [OF assms])

definition demo_query :: query where
  "demo_query = \<lparr>is_exec = False, in_multi = False, command_keys = [[bytes_of ''key'']], client_asking = False,
     cmd_asking = False, client_readonly = False, cmd_readonly = True, has_key = (\<lambda>_. True)\<rparr>"

theorem getNodeByQuery_decides_witness:
  "getNodeByQuery demo_query ((demo 1 REDIS_NODE_MASTER)\<lparr>slots := replicate 16384 (Some 2)\<rparr>) = Inr (Some 2, REDIR_MOVED)"
proof -
  let ?c = "(demo 1 REDIS_NODE_MASTER)\<lparr>slots := replicate 16384 (Some 2)\<rparr>"
  have "getNodeByQuery demo_query ?c = Inr (query_spec demo_query ?c node_a)"
    by (rule getNodeByQuery_decides) (simp_all add: REDIS_CLUSTER_SLOTS_def)
  moreover have "key_slot (bytes_of ''key'') < 16384"
    using key_slot_less [of "bytes_of ''key''"] by (simp only: REDIS_CLUSTER_SLOTS_def)
  ultimately show ?thesis by (simp add: query_spec_def demo_query_def Let_def)
qed

lemma partial_keys_ask:
  assumes "length (slots c) = REDIS_CLUSTER_SLOTS" and "length (migrating_slots_to c) = REDIS_CLUSTER_SLOTS"
    and "length (importing_slots_from c) = REDIS_CLUSTER_SLOTS" and "heap c (myself c) = Some me"
    and "\<not> is_exec q" and "concat (command_keys q) = k # ks" and "\<forall>k' \<in> set ks. key_slot k' = key_slot k"
    and "slots c ! key_slot k = Some (myself c)" and "migrating_slots_to c ! key_slot k = Some n"
    and "\<exists>k' \<in> set (k # ks). \<not> has_key q k'"
  shows "getNodeByQuery q c = Inr (Some n, REDIR_ASK)"
  using getNodeByQuery_spec [OF assms(1-4), of q] assms(5-10) by (auto simp: query_spec_def Let_def)

section \<open>The health of the cluster\<close>

text \<open>C7: the update of the cluster's state returns; it sets the state \<open>fail\<close> when full coverage is required
  and a slot has no working owner, or when the node reaches only a minority of the masters with slots, and
  the state \<open>ok\<close> otherwise, which only a master that comes from the state \<open>fail\<close> may delay.\<close>

theorem updateState_decides:
  assumes "slots_ok c" and "nodes_live c" and "heap c (myself c) = Some me"
  shows "\<exists>c' delayed. clusterUpdateState c = Inr c' \<and>
    cstate c' = (if must_fail c then ClusterFail else if delayed then cstate c else ClusterOk) \<and>
    (delayed \<longrightarrow> nodeIsMaster me \<and> cstate c = ClusterFail) \<and> slots c' = slots c"
  by (rule updateState_spec [OF assms]) blast

lemma demo_health:
  "\<not> must_fail (demo 3 REDIS_NODE_MASTER)" "nodes_live (demo me fl) \<longleftrightarrow> me \<in> {1, 2, 3}"
  by (simp_all add: must_fail_def demo_env_def reachable_masters_def cluster_size_def reachable_def voting_def node_at_def
      nodes_live_def node_a_def node_b_def node_c_def new_node_def nodeIsMaster_def nodeFailed_def nodeTimedOut_def node_flags)

theorem updateState_decides_witness:
  "\<exists>c'. clusterUpdateState (demo 3 REDIS_NODE_MASTER) = Inr c' \<and> cstate (demo 3 REDIS_NODE_MASTER) = ClusterFail \<and>
    cstate c' = ClusterOk"
  using updateState_decides [OF demo_ok [of 3 REDIS_NODE_MASTER], of node_c] demo_health(1)
  by (auto simp: demo_health(2) demo_flags)

text \<open>C8: a node is marked as failing exactly when this node cannot reach it and, with its own vote if it is a
  master, valid reports of a majority of the masters say the same; a master then tells all the others.\<close>

theorem fail_needs_majority:
  assumes "heap c p = Some n" and "heap c (myself c) = Some me"
  shows "\<exists>c' n'. markNodeAsFailingIfNeeded c p = Inr c' \<and> heap c' p = Some n' \<and>
    (nodeFailed n' \<longleftrightarrow> nodeFailed n \<or> nodeTimedOut n \<and> enough_reports c me n) \<and>
    effects c' = (if nodeIsMaster me \<and> nodeFailed n' \<and> \<not> nodeFailed n then effects c @ [SendFail (n_name n)] else effects c)"
  by (rule markFailing_spec [OF assms]) blast

definition suspected_master :: clusterNode where
  "suspected_master = (node_b (REDIS_NODE_MASTER OR REDIS_NODE_PFAIL))\<lparr>n_fail_reports := [(4, 99000)]\<rparr>"

theorem fail_needs_majority_witness:
  "\<exists>c'. markNodeAsFailingIfNeeded ((demo 1 0)\<lparr>heap := [1 \<mapsto> node_a, 2 \<mapsto> suspected_master]\<rparr>) 2 = Inr c' \<and>
    effects c' = [SendFail name_b]"
proof -
  let ?c = "(demo 1 0)\<lparr>heap := [1 \<mapsto> node_a, 2 \<mapsto> suspected_master]\<rparr>"
  have t: "nodeTimedOut suspected_master" "\<not> nodeFailed suspected_master" "n_name suspected_master = name_b"
    by (simp_all add: suspected_master_def nodeTimedOut_def nodeFailed_def node_b_def new_node_def node_flags)
  have e: "enough_reports ?c node_a suspected_master"
    by (simp add: enough_reports_def valid_reports_def suspected_master_def demo_env_def demo_flags)
  have "heap ?c 2 = Some suspected_master" "heap ?c (myself ?c) = Some node_a" by simp_all
  from fail_needs_majority [OF this] show ?thesis using t e by (auto simp: demo_flags)
qed

text \<open>C9: a node has at most one failure report per sender, and a new report replaces the one of the same
  sender; the answer tells whether the sender had none.\<close>

theorem failure_reports_unique:
  assumes "heap c p = Some n" and "reports_ok n"
  shows "\<exists>c' n'. clusterNodeAddFailureReport c p s = Inr (s \<notin> fst ` set (n_fail_reports n), c') \<and>
    heap c' = (heap c)(p \<mapsto> n') \<and> reports_ok n' \<and>
    map_of (n_fail_reports n') = (map_of (n_fail_reports n))(s \<mapsto> clock c (ticks c))"
  by (rule addReport_spec [OF assms(1), of s]) (use assms(2) in blast)

theorem failure_reports_unique_witness:
  "\<exists>c' n'. clusterNodeAddFailureReport (demo 1 0) 2 1 = Inr (True, c') \<and> heap c' 2 = Some n' \<and> reports_ok n' \<and>
    map_of (n_fail_reports n') = [1 \<mapsto> 100000]"
proof -
  have "n_fail_reports (node_b 0) = []" by (simp add: node_b_def new_node_def)
  then show ?thesis
    using failure_reports_unique [of "demo 1 0" 2 "node_b 0" 1] by (auto simp: reports_ok_def)
qed

section \<open>What a node tells others\<close>

text \<open>The ranges of a \<open>CLUSTER SLOTS\<close> reply list exactly the slots of the node's bitmap, in order, and are
  maximal: between two ranges lies a slot that is not the node's.\<close>

theorem slot_ranges_cover:
  assumes "length bm = 2048"
  shows "\<exists>rs. slot_ranges bm = Inr rs \<and> concat (map range_slots rs) = bit_slots bm REDIS_CLUSTER_SLOTS \<and> separated rs"
  by (rule slot_ranges_spec [OF assms]) blast

theorem slot_ranges_cover_witness:
  "\<exists>rs. slot_ranges (first_byte 6) = Inr rs \<and> concat (map range_slots rs) = bit_slots (first_byte 6) REDIS_CLUSTER_SLOTS \<and>
    separated rs"
  by (rule slot_ranges_cover) simp

text \<open>C10: the \<open>PING\<close>, \<open>PONG\<close> and \<open>MEET\<close> messages a node builds pass the checks of the receiver, and their gossip
  section is about different nodes, none of them the sender or a node in handshake.\<close>

theorem ping_message_accepted:
  assumes "ping_message h port off c kind = Inr hdr" and "kind = Ping \<or> kind = Pong \<or> kind = Meet"
    and "length (nodes c) \<le> 65536"
  shows "packet_sane hdr (unat (m_totlen hdr)) \<and>
    (\<exists>gs. m_data hdr = kind gs \<and> m_count hdr = of_nat (length gs) \<and> gossip_ok c (max 3 (int (length (nodes c)) div 10)) gs)"
proof -
  obtain gs hdr0 where gs: "gossip_section h c = Inr gs" and h0: "clusterBuildMessageHdr port off c (kind gs) = Inr hdr0"
    and hdr: "hdr = set_totlen (sizeof_header + sizeof_gossip * of_nat (length gs)) (hdr0\<lparr>m_count := of_nat (length gs)\<rparr>)"
    using assms(1) by (auto simp: ping_message_def)
  have ok: "gossip_ok c (max 3 (int (length (nodes c)) div 10)) gs"
    using gossip_section_ok [OF gs] gossip_wanted_le [of "int (length (nodes c))"] by (auto simp: gossip_ok_def)
  moreover have "int (length (nodes c)) div 10 \<le> 6553" using assms(3) by linarith
  ultimately have l: "length gs \<le> 6553" by (simp add: gossip_ok_def max_def split: if_splits)
  have "unat (sizeof_header + sizeof_gossip * of_nat (length gs)) = 2208 + 104 * length gs"
    using l by (simp add: sizeof_header_def sizeof_gossip_def unat_word_ariths unat_of_nat)
  moreover have "expected_len hdr = Some (sizeof_header + sizeof_gossip * of_nat (length gs))"
    using assms(2) hdr_fields(2) [OF h0] l
    by (auto simp: expected_len_def hdr set_totlen_def ucast_count)
  ultimately have "packet_sane hdr (unat (m_totlen hdr))"
    using hdr_fields(1) [OF h0] by (simp add: packet_sane_def hdr set_totlen_def word_less_nat_alt)
  then show ?thesis using ok hdr_fields(2) [OF h0] by (auto simp: hdr set_totlen_def)
qed

theorem ping_message_accepted_witness:
  "\<exists>hdr. ping_message demo_host 7000 0 (demo 1 REDIS_NODE_MASTER) Ping = Inr hdr \<and> m_totlen hdr = 2312 \<and>
    packet_sane hdr 2312"
proof -
  let ?c = "demo 1 REDIS_NODE_MASTER"
  have stop: "gossip_loop k demo_host ?c i 1 0 gs = Inr gs" for k i gs by (cases k) simp_all
  have flags: "n_flags node_c AND (REDIS_NODE_HANDSHAKE OR REDIS_NODE_NOADDR) = 0"
    by (simp add: node_c_def new_node_def node_flags)
  have key: "rd (nodes ?c) (random_key demo_host ?c 0) = Inr (name_c, 3)"
    by (simp add: demo_host_def rd_def)
  have node: "getn ?c (Some 3) = Inr node_c" by (simp add: getn_live del: getn_Some)
  have "gossip_loop (Suc 2) demo_host ?c 0 1 1 [] = Inr [gossip_entry node_c]"
    unfolding gossip_loop.simps key by (simp add: node [unfolded One_nat_def] flags demo_flags stop [unfolded One_nat_def] del: rbind_eq_Inr)
  moreover have "nat (1 * 3) = Suc 2" by simp
  moreover have "gossip_wanted (int (length (nodes ?c))) = (1, 1)" by (simp add: gossip_wanted_def)
  ultimately have gs: "gossip_section demo_host ?c = Inr [gossip_entry node_c]"
    by (simp only: gossip_section_def prod.case)
  obtain hdr where hdr: "ping_message demo_host 7000 0 ?c Ping = Inr hdr" "m_totlen hdr = 2312"
    by (simp add: ping_message_def gs [unfolded One_nat_def] clusterBuildMessageHdr_def getn_live header_master_def demo_flags set_totlen_def
        sizeof_header_def sizeof_gossip_def del: rbind_eq_Inr getn_Some)
  then show ?thesis using ping_message_accepted [OF hdr(1)] by simp
qed

section \<open>Where the code does less than it says\<close>

text \<open>\<open>clusterDelNodeSlots\<close> takes every slot from the node, but the number it returns is always 16384, not
  the number of slots it deleted.\<close>

theorem delNodeSlots_count:
  assumes "slots_ok c" and "heap c p \<noteq> None"
  shows "\<exists>c'. clusterDelNodeSlots c (Some p) = Inr (16384, c') \<and> slots_ok c' \<and> slots c' = map (drop_owner p) (slots c)"
  by (rule delNodeSlots_spec [OF assms]) (auto simp: REDIS_CLUSTER_SLOTS_def)

theorem delNodeSlots_count_witness:
  "\<exists>c'. clusterDelNodeSlots (demo 1 REDIS_NODE_MASTER) (Some 1) = Inr (16384, c') \<and> n_numslots node_a = 1"
  using delNodeSlots_count [OF demo_ok [of 1 REDIS_NODE_MASTER], of 1] by (auto simp: demo_flags)

text \<open>A vote is not made durable: the function that grants it neither saves the configuration nor asks
  \<open>clusterBeforeSleep\<close> to save it, although it changes the epoch of the last vote.\<close>

theorem vote_not_saved:
  assumes "clusterSendFailoverAuthIfNeeded c p r = Inr c'"
  shows "todo_before_sleep c' = todo_before_sleep c \<and>
    (\<forall>b. SaveConfig b \<in> set (effects c') \<longrightarrow> SaveConfig b \<in> set (effects c))"
  by (rule auth_unsaved [OF assms])

theorem vote_not_saved_witness:
  "clusterSendFailoverAuthIfNeeded demo_asked 3 (request_of demo_request) = Inr demo_voted \<and>
    lastVoteEpoch demo_asked = 3 \<and> lastVoteEpoch demo_voted = 6 \<and> todo_before_sleep demo_voted = todo_before_sleep demo_asked"
proof -
  have "lastVoteEpoch demo_asked = 3" "lastVoteEpoch demo_voted = 6" by simp (simp add: demo_voted_def)
  then show ?thesis using vote_not_saved [OF demo_grant] demo_grant by blast
qed

text \<open>\<open>CLUSTER FORGET\<close> and the other commands that take a node ID do not check its length: with an argument of
  fewer than 39 bytes the lookup reads past the end of the string.\<close>

theorem forget_short_id:
  assumes "length a < 39"
  shows "cluster_forget c a = Inl OutOfBounds"
  using assms by (simp add: cluster_forget_def lookup_arg_def)

theorem forget_short_id_witness: "cluster_forget (demo 1 0) [97, 98] = Inl OutOfBounds"
  by (rule forget_short_id) simp

text \<open>A slave that does not know its master yet follows a null pointer when another master claims a slot
  that has no owner.\<close>

theorem claim_without_master:
  assumes "slots_ok c" and "heap c sender \<noteq> None" and "length claimed = 2048"
    and "length (importing_slots_from c) = REDIS_CLUSTER_SLOTS" and "sender \<noteq> myself c"
    and "heap c (myself c) = Some me" and "\<not> nodeIsMaster me" and "n_slaveof me = None"
    and "j < REDIS_CLUSTER_SLOTS" and "takes c sender epoch claimed j" and "slots c ! j = None"
  shows "clusterUpdateSlotsConfigWith c sender epoch claimed = Inl BadPointer"
proof -
  have "\<exists>j < REDIS_CLUSTER_SLOTS. takes c sender epoch claimed j \<and> slots c ! j = None" using assms(9-11) by blast
  moreover obtain d where "for_each (update_slot sender epoch claimed None) [0..<REDIS_CLUSTER_SLOTS] (None, [], c) =
      Inr (if \<exists>j < REDIS_CLUSTER_SLOTS. takes c sender epoch claimed j \<and> slots c ! j = None then Some sender else None,
        filter (loses_keys c sender epoch claimed) [0..<REDIS_CLUSTER_SLOTS], d)"
    using update_slots_spec [OF assms(1-5), of epoch None] by blast
  ultimately have "for_each (update_slot sender epoch claimed None) [0..<REDIS_CLUSTER_SLOTS] (None, [], c) =
      Inr (Some sender, filter (loses_keys c sender epoch claimed) [0..<REDIS_CLUSTER_SLOTS], d)"
    by (simp only: if_True)
  then show ?thesis
    using assms(5-8) by (simp add: clusterUpdateSlotsConfigWith_def getn_def del: rbind_eq_Inr)
qed

definition lost_slave :: cluster where
  "lost_slave = (demo 3 0)\<lparr>heap := [1 \<mapsto> node_a, 2 \<mapsto> node_b 0, 3 \<mapsto> node_c\<lparr>n_slaveof := None\<rparr>]\<rparr>"

theorem claim_without_master_witness: "clusterUpdateSlotsConfigWith lost_slave 1 9 (first_byte 4) = Inl BadPointer"
proof (rule claim_without_master)
  have "slot_view lost_slave = slot_view (demo 3 0)"
    by (simp add: slot_view_def lost_slave_def fun_eq_iff)
  then show "slots_ok lost_slave" using slots_ok_view demo_ok by blast
  show "heap lost_slave (myself lost_slave) = Some (node_c\<lparr>n_slaveof := None\<rparr>)"
    by (simp add: lost_slave_def)
  have s: "slots lost_slave ! 2 = None" using demo_slots [of 2 3 0] by (simp add: lost_slave_def REDIS_CLUSTER_SLOTS_def)
  have "bit (4 :: u8) 2" by simp
  then have "bit (first_byte 4 ! (2 div 8)) (2 mod 8)" using bit_first [of 2 4] by (simp add: REDIS_CLUSTER_SLOTS_def)
  then show "takes lost_slave 1 9 (first_byte 4) 2"
    using s by (simp add: takes_def claim_wins_def outranked_def first_byte_def)
      (simp add: lost_slave_def demo_def)
  show "slots lost_slave ! 2 = None" by (rule s)
qed (simp_all add: lost_slave_def demo_flags nodeIsMaster_def node_c_def new_node_def node_flags REDIS_CLUSTER_SLOTS_def)

end
