(* ===== verification/SkipList.thy ===== *)
theory SkipList
  imports Interfaces
begin

text \<open>
  The skip list of sorted sets (the first part of \<open>t_zset.c\<close>): nodes in a heap,
  each with a vector of forward pointers and spans, a header with 32 levels and
  backward pointers at the lowest level.  Scores are elements of a linear order,
  as doubles are when none is a NaN, which \<open>zslInsert\<close> asserts.
\<close>

section \<open>Data\<close>

type_synonym zptr = nat

record 's zskiplistNode =
  z_obj :: "u8 list option"
  z_score :: 's
  z_backward :: "zptr option"
  z_level :: "(zptr option \<times> u32) list"

record zskiplist =
  z_header :: zptr
  z_tail :: "zptr option"
  z_length :: u64
  z_levels :: nat

type_synonym 's zheap = "zptr \<Rightarrow> 's zskiplistNode option"

definition ZSKIPLIST_MAXLEVEL :: nat where "ZSKIPLIST_MAXLEVEL = 32"

definition zderef :: "'s zheap \<Rightarrow> zptr option \<Rightarrow> 's zskiplistNode res" where
  "zderef h p = (case p of None \<Rightarrow> Inl BadPointer | Some q \<Rightarrow>
     (case h q of None \<Rightarrow> Inl BadPointer | Some n \<Rightarrow> Inr n))"

definition zupdate :: "'s zheap \<Rightarrow> zptr option \<Rightarrow> ('s zskiplistNode \<Rightarrow> 's zskiplistNode) \<Rightarrow> 's zheap res" where
  "zupdate h p f = rbind (zderef h p) (\<lambda>n. Inr (h(the p \<mapsto> f n)))"

text \<open>\<open>x->level[i]\<close>, read and written.\<close>

definition zlevel :: "'s zheap \<Rightarrow> zptr option \<Rightarrow> nat \<Rightarrow> (zptr option \<times> u32) res" where
  "zlevel h p i = rbind (zderef h p) (\<lambda>n. rd (z_level n) i)"

definition zset_level ::
  "'s zheap \<Rightarrow> zptr option \<Rightarrow> nat \<Rightarrow> (zptr option \<times> u32 \<Rightarrow> zptr option \<times> u32) \<Rightarrow> 's zheap res" where
  "zset_level h p i f =
     rbind (zlevel h p i) (\<lambda>l. zupdate h p (\<lambda>n. n\<lparr>z_level := (z_level n)[i := f l]\<rparr>))"

text \<open>Strings are compared bytewise, then by their lengths; an object is its string value.\<close>

definition compareStringObjects :: "u8 list \<Rightarrow> u8 list \<Rightarrow> int" where
  "compareStringObjects a b = (let cmp = memcmp a b in if cmp = 0 then int (length a) - int (length b) else cmp)"

definition zcompare :: "'s zskiplistNode \<Rightarrow> u8 list \<Rightarrow> int res" where
  "zcompare n obj = (case z_obj n of None \<Rightarrow> Inl BadPointer | Some ob \<Rightarrow> Inr (compareStringObjects ob obj))"

section \<open>Creation\<close>

definition zslCreateNode :: "nat \<Rightarrow> 's \<Rightarrow> u8 list option \<Rightarrow> 's zskiplistNode" where
  "zslCreateNode level score obj =
     \<lparr>z_obj = obj, z_score = score, z_backward = None, z_level = replicate level (None, 0)\<rparr>"

definition zslCreate :: "'s::zero zheap \<Rightarrow> zptr \<Rightarrow> 's zheap \<times> zskiplist" where
  "zslCreate h a =
     (h(a \<mapsto> zslCreateNode ZSKIPLIST_MAXLEVEL 0 None),
      \<lparr>z_header = a, z_tail = None, z_length = 0, z_levels = 1\<rparr>)"

text \<open>\<open>zslFree\<close> returns the heap and the objects whose reference counts it decrements.\<close>

partial_function (option) zslFree_loop ::
  "'s zheap \<Rightarrow> zptr option \<Rightarrow> u8 list list \<Rightarrow> ('s zheap \<times> u8 list list) res option" where
  "zslFree_loop h node freed =
     (case node of
        None \<Rightarrow> Some (Inr (h, freed))
      | Some a \<Rightarrow>
          (case zderef h (Some a) of
             Inl e \<Rightarrow> Some (Inl e)
           | Inr n \<Rightarrow>
               (case zlevel h (Some a) 0 of
                  Inl e \<Rightarrow> Some (Inl e)
                | Inr (next, _) \<Rightarrow>
                    (case z_obj n of
                       None \<Rightarrow> Some (Inl BadPointer)
                     | Some ob \<Rightarrow> zslFree_loop (h(a := None)) next (freed @ [ob])))))"

definition zslFree :: "'s zheap \<Rightarrow> zskiplist \<Rightarrow> ('s zheap \<times> u8 list list) res option" where
  "zslFree h zsl =
     tbind (Some (zlevel h (Some (z_header zsl)) 0)) (\<lambda>(node, _).
     zslFree_loop (h(z_header zsl := None)) node [])"

text \<open>
  The level of a new node; \<open>rs\<close> are the values of \<open>random()\<close>.  The bound
  \<open>ZSKIPLIST_P * 0xFFFF\<close> is 16383.75.
\<close>

fun random_level :: "u32 list \<Rightarrow> nat \<Rightarrow> nat option" where
  "random_level [] level = None"
| "random_level (r # rs) level =
     (if 4 * unat (r AND 0xFFFF) < 0xFFFF then random_level rs (level + 1) else Some level)"

definition zslRandomLevel :: "u32 list \<Rightarrow> nat option" where
  "zslRandomLevel rs =
     map_option (\<lambda>level. if level < ZSKIPLIST_MAXLEVEL then level else ZSKIPLIST_MAXLEVEL) (random_level rs 1)"

section \<open>Walking\<close>

text \<open>
  All the searches have the form \<open>while (x->level[i].forward && cond) x = ...\<close>:
  \<open>go\<close> is the condition on the next node, with the rank that is reached there.
\<close>

partial_function (option) zsl_walk ::
  "'s zheap \<Rightarrow> ('s zskiplistNode \<Rightarrow> 'n::len word \<Rightarrow> bool res) \<Rightarrow> nat \<Rightarrow> zptr \<Rightarrow> 'n word \<Rightarrow> (zptr \<times> 'n word) res option" where
  "zsl_walk h go i x rank =
     (case zlevel h (Some x) i of
        Inl e \<Rightarrow> Some (Inl e)
      | Inr (forward, span) \<Rightarrow>
          (case forward of
             None \<Rightarrow> Some (Inr (x, rank))
           | Some y \<Rightarrow>
               (case rbind (zderef h forward) (\<lambda>n. go n (rank + ucast span)) of
                  Inl e \<Rightarrow> Some (Inl e)
                | Inr b \<Rightarrow> if b then zsl_walk h go i y (rank + ucast span) else Some (Inr (x, rank)))))"

text \<open>The loop over the levels: \<open>update[i]\<close> and \<open>rank[i]\<close> of all the levels below the first argument.\<close>

fun zsl_descend ::
  "nat \<Rightarrow> 's zheap \<Rightarrow> ('s zskiplistNode \<Rightarrow> 'n::len word \<Rightarrow> bool res) \<Rightarrow> zptr \<Rightarrow> 'n word \<Rightarrow> (zptr \<times> 'n word) list res option" where
  "zsl_descend 0 h go x rank = Some (Inr [])"
| "zsl_descend (Suc i) h go x rank =
     tbind (zsl_walk h go i x rank) (\<lambda>(x, rank).
     tbind (zsl_descend i h go x rank) (\<lambda>us. Some (Inr (us @ [(x, rank)]))))"

text \<open>The condition of insertion and deletion, and the first node the walk at level 0 has not passed.\<close>

definition before_key :: "'s::linorder \<Rightarrow> u8 list \<Rightarrow> 's zskiplistNode \<Rightarrow> 'n::len word \<Rightarrow> bool res" where
  "before_key score obj n rank =
     (if z_score n < score then Inr True
      else if z_score n = score then rbind (zcompare n obj) (\<lambda>cmp. Inr (cmp < 0))
      else Inr False)"

definition zsl_search ::
  "'s zheap \<Rightarrow> zskiplist \<Rightarrow> ('s zskiplistNode \<Rightarrow> 'n::len word \<Rightarrow> bool res) \<Rightarrow> (zptr \<times> 'n word) list res option" where
  "zsl_search h zsl go = zsl_descend (z_levels zsl) h go (z_header zsl) 0"

section \<open>Insertion\<close>

text \<open>The levels of the list are raised to the level of the new node.\<close>

definition zsl_raise ::
  "nat \<Rightarrow> 's zheap \<Rightarrow> zskiplist \<Rightarrow> (zptr \<times> u32) list \<Rightarrow> ('s zheap \<times> zskiplist \<times> (zptr \<times> u32) list) res" where
  "zsl_raise level h zsl us =
     (if level > z_levels zsl then
        rbind (for_each (\<lambda>i (h, us).
            rbind (zset_level h (Some (z_header zsl)) i (\<lambda>(f, s). (f, ucast (z_length zsl)))) (\<lambda>h.
            Inr (h, us @ [(z_header zsl, 0)])))
          [z_levels zsl..<level] (h, us)) (\<lambda>(h, us).
        Inr (h, zsl\<lparr>z_levels := level\<rparr>, us))
      else Inr (h, zsl, us))"

text \<open>The new node is linked at level \<open>i\<close>; at the levels above it only spans grow.\<close>

definition link_level :: "zptr \<Rightarrow> (zptr \<times> u32) list \<Rightarrow> nat \<Rightarrow> 's zheap \<Rightarrow> 's zheap res" where
  "link_level x us i h =
     rbind (rd us 0) (\<lambda>(_, rank0).
     rbind (rd us i) (\<lambda>(u, ranki).
     rbind (zlevel h (Some u) i) (\<lambda>(forward, span).
     rbind (zset_level h (Some x) i (\<lambda>_. (forward, span - (rank0 - ranki)))) (\<lambda>h.
     zset_level h (Some u) i (\<lambda>_. (Some x, rank0 - ranki + 1))))))"

definition grow_span :: "(zptr \<times> u32) list \<Rightarrow> nat \<Rightarrow> 's zheap \<Rightarrow> 's zheap res" where
  "grow_span us i h =
     rbind (rd us i) (\<lambda>(u, _). zset_level h (Some u) i (\<lambda>(f, s). (f, s + 1)))"

definition set_backward ::
  "zptr \<Rightarrow> zptr option \<Rightarrow> 's zheap \<Rightarrow> zskiplist \<Rightarrow> ('s zheap \<times> zskiplist) res" where
  "set_backward x u h zsl =
     rbind (zupdate h (Some x) (z_backward_update (\<lambda>_. u))) (\<lambda>h.
     rbind (zlevel h (Some x) 0) (\<lambda>(forward, _).
     if forward \<noteq> None
     then rbind (zupdate h forward (z_backward_update (\<lambda>_. Some x))) (\<lambda>h. Inr (h, zsl))
     else Inr (h, zsl\<lparr>z_tail := Some x\<rparr>)))"

definition insert_node ::
  "nat \<Rightarrow> zptr \<Rightarrow> 's \<Rightarrow> u8 list \<Rightarrow> (zptr \<times> u32) list \<Rightarrow> 's zheap \<Rightarrow> zskiplist \<Rightarrow> ('s zheap \<times> zskiplist) res" where
  "insert_node level x score obj us h zsl =
     rbind (zsl_raise level h zsl us) (\<lambda>(h, zsl, us).
     let h = h(x \<mapsto> zslCreateNode level score (Some obj)) in
     rbind (for_each (link_level x us) [0..<level] h) (\<lambda>h.
     rbind (for_each (grow_span us) [level..<z_levels zsl] h) (\<lambda>h.
     rbind (rd us 0) (\<lambda>(u, _).
     rbind (set_backward x (if u = z_header zsl then None else Some u) h zsl) (\<lambda>(h, zsl).
     Inr (h, zsl\<lparr>z_length := z_length zsl + 1\<rparr>))))))"

text \<open>\<open>x\<close> is the address of the new node, \<open>level\<close> its random level.\<close>

definition zslInsert ::
  "'s::linorder zheap \<Rightarrow> zskiplist \<Rightarrow> 's \<Rightarrow> u8 list \<Rightarrow> nat \<Rightarrow> zptr \<Rightarrow> ('s zheap \<times> zskiplist) res option" where
  "zslInsert h zsl score obj level x =
     tbind (zsl_search h zsl (before_key score obj)) (\<lambda>us. Some (insert_node level x score obj us h zsl))"

section \<open>Deletion\<close>

definition unlink_level :: "zptr \<Rightarrow> (zptr \<times> 'n::len word) list \<Rightarrow> nat \<Rightarrow> 's zheap \<Rightarrow> 's zheap res" where
  "unlink_level x us i h =
     rbind (rd us i) (\<lambda>(u, _).
     rbind (zlevel h (Some u) i) (\<lambda>(forward, span).
     if forward = Some x
     then rbind (zlevel h (Some x) i) (\<lambda>(xf, xs). zset_level h (Some u) i (\<lambda>_. (xf, span + (xs - 1))))
     else zset_level h (Some u) i (\<lambda>_. (forward, span - 1))))"

fun lower_level :: "'s zheap \<Rightarrow> zptr \<Rightarrow> nat \<Rightarrow> nat res" where
  "lower_level h header (Suc (Suc l)) =
     rbind (zlevel h (Some header) (Suc l)) (\<lambda>(f, _). if f = None then lower_level h header (Suc l) else Inr (Suc (Suc l)))"
| "lower_level h header l = Inr l"

definition zslDeleteNode ::
  "'s zheap \<Rightarrow> zskiplist \<Rightarrow> zptr \<Rightarrow> (zptr \<times> 'n::len word) list \<Rightarrow> ('s zheap \<times> zskiplist) res" where
  "zslDeleteNode h zsl x us =
     rbind (for_each (unlink_level x us) [0..<z_levels zsl] h) (\<lambda>h.
     rbind (zderef h (Some x)) (\<lambda>n.
     rbind (zlevel h (Some x) 0) (\<lambda>(forward, _).
     rbind (if forward \<noteq> None
            then rbind (zupdate h forward (z_backward_update (\<lambda>_. z_backward n))) (\<lambda>h. Inr (h, zsl))
            else Inr (h, zsl\<lparr>z_tail := z_backward n\<rparr>)) (\<lambda>(h, zsl).
     rbind (lower_level h (z_header zsl) (z_levels zsl)) (\<lambda>l.
     Inr (h, zsl\<lparr>z_levels := l, z_length := z_length zsl - 1\<rparr>))))))"

text \<open>\<open>zslFreeNode\<close> decrements the reference count of the object, which is the caller's concern.\<close>

definition zslFreeNode :: "'s zheap \<Rightarrow> zptr \<Rightarrow> 's zheap" where
  "zslFreeNode h x = h(x := None)"

definition zslDelete ::
  "'s::linorder zheap \<Rightarrow> zskiplist \<Rightarrow> 's \<Rightarrow> u8 list \<Rightarrow> (bool \<times> 's zheap \<times> zskiplist) res option" where
  "zslDelete h zsl score obj =
     tbind (zsl_search h zsl (before_key score obj :: 's zskiplistNode \<Rightarrow> u64 \<Rightarrow> bool res)) (\<lambda>us. Some (
     rbind (rd us 0) (\<lambda>(u, _).
     rbind (zlevel h (Some u) 0) (\<lambda>(x, _).
     case x of
       None \<Rightarrow> Inr (False, h, zsl)
     | Some a \<Rightarrow>
         rbind (zderef h x) (\<lambda>n.
         if score = z_score n \<and> z_obj n = Some obj
         then rbind (zslDeleteNode h zsl a us) (\<lambda>(h, zsl). Inr (True, zslFreeNode h a, zsl))
         else Inr (False, h, zsl))))))"

section \<open>The heap in terms of entries\<close>

text \<open>
  \<open>entry h p i\<close> is \<open>p->level[i]\<close> where it exists, \<open>info h p\<close> the rest of
  the node with the number of its levels.
\<close>

definition entry :: "'s zheap \<Rightarrow> zptr \<Rightarrow> nat \<Rightarrow> (zptr option \<times> u32) option" where
  "entry h p i = (case h p of None \<Rightarrow> None | Some n \<Rightarrow> if i < length (z_level n) then Some (z_level n ! i) else None)"

definition info :: "'s zheap \<Rightarrow> zptr \<Rightarrow> ('s \<times> u8 list option \<times> zptr option \<times> nat) option" where
  "info h p = map_option (\<lambda>n. (z_score n, z_obj n, z_backward n, length (z_level n))) (h p)"

lemma zlevel_entry: "entry h p i = Some l \<Longrightarrow> zlevel h (Some p) i = Inr l"
  by (auto simp: entry_def zlevel_def zderef_def rd_def split: option.splits if_splits)

lemma zset_level_entry:
  assumes "entry h p i = Some l"
  obtains h' where "zset_level h (Some p) i f = Inr h'" "info h' = info h"
    "entry h' = (\<lambda>q j. if q = p \<and> j = i then Some (f l) else entry h q j)"
proof -
  obtain n where n: "h p = Some n" "i < length (z_level n)" "l = z_level n ! i"
    using assms by (auto simp: entry_def split: option.splits if_splits)
  let ?h = "h(p \<mapsto> n\<lparr>z_level := (z_level n)[i := f l]\<rparr>)"
  have "zset_level h (Some p) i f = Inr ?h"
    using n zlevel_entry [OF assms] by (simp add: zset_level_def zupdate_def zderef_def)
  moreover have "entry ?h = (\<lambda>q j. if q = p \<and> j = i then Some (f l) else entry h q j)"
    using n by (auto simp: fun_eq_iff entry_def nth_list_update)
  moreover have "info ?h = info h" using n by (auto simp: fun_eq_iff info_def)
  ultimately show thesis using that by blast
qed

lemma zupdate_backward:
  assumes "info h p = Some (s, ob, b, k)"
  obtains h' where "zupdate h (Some p) (z_backward_update (\<lambda>_. b')) = Inr h'" "entry h' = entry h"
    "info h' = (info h)(p \<mapsto> (s, ob, b', k))"
proof -
  obtain n where n: "h p = Some n" "s = z_score n" "ob = z_obj n" "k = length (z_level n)"
    using assms by (auto simp: info_def)
  let ?h = "h(p \<mapsto> n\<lparr>z_backward := b'\<rparr>)"
  have "zupdate h (Some p) (z_backward_update (\<lambda>_. b')) = Inr ?h"
    using n by (simp add: zupdate_def zderef_def)
  moreover have "entry ?h = entry h" using n by (auto simp: fun_eq_iff entry_def)
  moreover have "info ?h = (info h)(p \<mapsto> (s, ob, b', k))" using n by (auto simp: fun_eq_iff info_def)
  ultimately show thesis using that by blast
qed

section \<open>Towers\<close>

text \<open>
  A skip list is a list of towers, a pointer and a height each, of which the
  first is the header.  \<open>fwd i ts\<close> is the first tower of \<open>ts\<close> higher than \<open>i\<close>,
  \<open>gap i ts\<close> the distance to it, or to the end.
\<close>

type_synonym tower = "zptr \<times> nat"

fun fwd :: "nat \<Rightarrow> tower list \<Rightarrow> zptr option" where
  "fwd i [] = None"
| "fwd i ((p, k) # ts) = (if i < k then Some p else fwd i ts)"

fun gap :: "nat \<Rightarrow> tower list \<Rightarrow> nat" where
  "gap i [] = 0"
| "gap i ((p, k) # ts) = (if i < k then 1 else gap i ts + 1)"

definition low :: "nat \<Rightarrow> tower list \<Rightarrow> bool" where
  "low i ts \<longleftrightarrow> (\<forall>t \<in> set ts. snd t \<le> i)"

lemma low_simps [simp]: "low i []" "low i (t # ts) \<longleftrightarrow> snd t \<le> i \<and> low i ts" "low i (ts @ us) \<longleftrightarrow> low i ts \<and> low i us"
  by (auto simp: low_def)

lemma fwd_append: "fwd i (ts @ us) = (if low i ts then fwd i us else fwd i ts)"
  by (induction ts) auto

lemma gap_append: "gap i (ts @ us) = (if low i ts then length ts + gap i us else gap i ts)"
  by (induction ts) auto

lemma not_low_split:
  assumes "\<not> low i ts"
  obtains ss p k us where "ts = ss @ (p, k) # us" "low i ss" "i < k"
  using assms
proof (induction ts arbitrary: thesis)
  case (Cons t ts)
  show ?case
  proof (cases "i < snd t")
    case True
    then show ?thesis using Cons.prems(1) [of "[]" "fst t" "snd t" ts] by simp
  next
    case False
    then have "\<not> low i ts" using Cons.prems(2) by auto
    then obtain ss p k us where "ts = ss @ (p, k) # us" "low i ss" "i < k" using Cons.IH by blast
    then show ?thesis using Cons.prems(1) [of "t # ss" p k us] False by simp
  qed
qed simp

lemma fwd_low: "low i ts \<Longrightarrow> fwd i ts = None"
  and gap_low: "low i ts \<Longrightarrow> gap i ts = length ts"
  by (induction ts) auto

lemma gap_le: "gap i ts \<le> length ts"
  by (induction ts) auto

text \<open>Level \<open>i\<close> is linked as the towers \<open>ts\<close>, followed by \<open>us\<close>, say.\<close>

fun links :: "nat \<Rightarrow> (zptr \<Rightarrow> (zptr option \<times> u32) option) \<Rightarrow> tower list \<Rightarrow> tower list \<Rightarrow> bool" where
  "links i e [] us \<longleftrightarrow> True"
| "links i e ((p, k) # ts) us \<longleftrightarrow>
     (i < k \<longrightarrow> e p = Some (fwd i (ts @ us), of_nat (gap i (ts @ us)))) \<and> links i e ts us"

abbreviation linked :: "nat \<Rightarrow> 's zheap \<Rightarrow> tower list \<Rightarrow> tower list \<Rightarrow> bool" where
  "linked i h \<equiv> links i (\<lambda>q. entry h q i)"

lemma linked_append: "links i e (ts @ us) vs \<longleftrightarrow> links i e ts (us @ vs) \<and> links i e us vs"
  by (induction ts) auto

lemma linked_cong:
  "(\<And>t. t \<in> set ts \<Longrightarrow> entry h' (fst t) i = entry h (fst t) i) \<Longrightarrow> linked i h' ts us \<longleftrightarrow> linked i h ts us"
  by (induction ts) fastforce+

lemma linked_low: "low i ts \<Longrightarrow> links i e ts us"
  by (induction ts) auto

lemma linked_before:
  "\<not> low i us \<Longrightarrow> links i e ts (us @ vs) \<longleftrightarrow> links i e ts (us @ ws)"
  by (induction ts) (auto simp: fwd_append gap_append)

text \<open>The predecessor at level \<open>i\<close> of a position, and its rank.\<close>

definition pred_at :: "tower list \<Rightarrow> nat \<Rightarrow> zptr \<times> 'n::len word \<Rightarrow> bool" where
  "pred_at ts i u \<longleftrightarrow> (\<exists>ss k us. ts = ss @ (fst u, k) # us \<and> i < k \<and> low i us \<and> snd u = of_nat (length ss))"

definition preds :: "tower list \<Rightarrow> (zptr \<times> 'n::len word) list \<Rightarrow> nat \<Rightarrow> bool" where
  "preds ts us n \<longleftrightarrow> length us = n \<and> (\<forall>i < n. pred_at ts i (us ! i))"

section \<open>Searches\<close>

text \<open>The condition of a search holds for the towers of \<open>as\<close> and not for those of \<open>bs\<close>.\<close>

definition separates ::
  "'s zheap \<Rightarrow> ('s zskiplistNode \<Rightarrow> 'n::len word \<Rightarrow> bool res) \<Rightarrow> tower list \<Rightarrow> tower list \<Rightarrow> bool" where
  "separates h go as bs \<longleftrightarrow> (\<forall>ts p k us. as @ bs = ts @ (p, k) # us \<longrightarrow> ts \<noteq> [] \<longrightarrow>
     (\<exists>n. h p = Some n \<and> go n (of_nat (length ts)) = Inr (length ts < length as)))"

lemma ucast_span: "n < 2 ^ 32 \<Longrightarrow> ucast (of_nat n :: u32) = (of_nat n :: 'n::len word)"
  by (simp add: unsigned_of_nat take_bit_nat_eq_self)

lemma walk_step:
  "entry h x i = Some (Some y, sp) \<Longrightarrow> h y = Some n \<Longrightarrow> go n (r + ucast sp) = Inr b \<Longrightarrow>
    zsl_walk h go i x r = (if b then zsl_walk h go i y (r + ucast sp) else Some (Inr (x, r)))"
  using zsl_walk.simps [of h go i x r] by (simp add: zlevel_entry zderef_def)

lemma walk_end: "entry h x i = Some (None, sp) \<Longrightarrow> zsl_walk h go i x r = Some (Inr (x, r))"
  using zsl_walk.simps [of h go i x r] by (simp add: zlevel_entry)

lemma walk_spec:
  fixes go :: "'s zskiplistNode \<Rightarrow> 'n::len word \<Rightarrow> bool res"
  assumes "linked i h (ss @ (x, k) # ms @ bs) []" and "i < k" and "length (ss @ (x, k) # ms @ bs) \<le> 2 ^ 32"
    and sep: "separates h go (ss @ (x, k) # ms) bs"
  shows "\<exists>u. zsl_walk h go i x (of_nat (length ss)) = Some (Inr u) \<and> pred_at (ss @ (x, k) # ms) i u"
  using assms
proof (induction "length ms" arbitrary: ms ss x k rule: less_induct)
  case less
  have e: "entry h x i = Some (fwd i (ms @ bs), of_nat (gap i (ms @ bs)))"
    using less.prems(1,2) by (simp add: linked_append)
  have g: "of_nat (length ss) + ucast (of_nat (gap i (ms @ bs)) :: u32) = (of_nat (length ss + gap i (ms @ bs)) :: 'n word)"
    using gap_le [of i "ms @ bs"] less.prems(3) by (simp add: ucast_span)
  show ?case
  proof (cases "low i ms")
    case False
    then obtain m1 y k2 m2 where m: "ms = m1 @ (y, k2) # m2" "low i m1" "i < k2" by (rule not_low_split)
    let ?ss = "ss @ (x, k) # m1"
    have f: "fwd i (ms @ bs) = Some y" "length ss + gap i (ms @ bs) = length ?ss"
      using m by (simp_all add: fwd_append gap_append)
    obtain n where "h y = Some n" "go n (of_nat (length ?ss)) = Inr True"
      using less.prems(4) [unfolded separates_def, rule_format, of ?ss y k2 "m2 @ bs"] m by auto
    then have "zsl_walk h go i x (of_nat (length ss)) = zsl_walk h go i y (of_nat (length ?ss))"
      using walk_step [OF e [unfolded f(1)], of n go "of_nat (length ss)"] g [unfolded f(2)] by simp
    moreover have "\<exists>u. zsl_walk h go i y (of_nat (length ?ss)) = Some (Inr u) \<and> pred_at (?ss @ (y, k2) # m2) i u"
      using less.prems m by (intro less.hyps) simp_all
    ultimately show ?thesis using m(1) by simp
  next
    case True
    then have p: "pred_at (ss @ (x, k) # ms) i (x, of_nat (length ss))" using less.prems(2) by (auto simp: pred_at_def)
    show ?thesis
    proof (cases "low i bs")
      case lb: True
      then have "fwd i (ms @ bs) = None" using True by (simp add: fwd_append fwd_low)
      then show ?thesis using walk_end e p by metis
    next
      case False
      then obtain b1 y k2 b2 where b: "bs = b1 @ (y, k2) # b2" "low i b1" "i < k2" by (rule not_low_split)
      let ?ss = "ss @ (x, k) # ms @ b1"
      have f: "fwd i (ms @ bs) = Some y" "length ss + gap i (ms @ bs) = length ?ss"
        using b True by (simp_all add: fwd_append gap_append)
      obtain n where "h y = Some n" "go n (of_nat (length ?ss)) = Inr False"
        using less.prems(4) [unfolded separates_def, rule_format, of ?ss y k2 b2] b by auto
      then show ?thesis
        using walk_step [OF e [unfolded f(1)], of n go "of_nat (length ss)"] g [unfolded f(2)] p by auto
    qed
  qed
qed

lemma descend_spec:
  fixes go :: "'s zskiplistNode \<Rightarrow> 'n::len word \<Rightarrow> bool res"
  assumes "as = ss @ (x, k) # ms" and "n \<le> k" and "\<And>i. i < n \<Longrightarrow> linked i h (as @ bs) []"
    and "length (as @ bs) \<le> 2 ^ 32" and "separates h go as bs"
  shows "\<exists>us. zsl_descend n h go x (of_nat (length ss)) = Some (Inr us) \<and> preds as us n"
  using assms
proof (induction n arbitrary: ss x k ms)
  case 0
  then show ?case by (simp add: preds_def)
next
  case (Suc n)
  have "\<exists>u. zsl_walk h go n x (of_nat (length ss)) = Some (Inr u) \<and> pred_at (ss @ (x, k) # ms) n u"
    by (rule walk_spec [of n h ss x k ms bs go]) (use Suc.prems in auto)
  then obtain y r where u: "zsl_walk h go n x (of_nat (length ss)) = Some (Inr (y, r))" "pred_at as n (y, r)"
    using Suc.prems(1) by auto
  then obtain ss' k' ms' where y: "as = ss' @ (y, k') # ms'" "n < k'" "r = of_nat (length ss')"
    by (auto simp: pred_at_def)
  have "\<exists>us. zsl_descend n h go y (of_nat (length ss')) = Some (Inr us) \<and> preds as us n"
    by (rule Suc.IH [OF y(1)]) (use y Suc.prems in auto)
  then obtain us where us: "zsl_descend n h go y r = Some (Inr us)" "preds as us n"
    using y(3) by auto
  have "preds as (us @ [(y, r)]) (Suc n)"
    using us(2) u(2) by (auto simp: preds_def nth_append less_Suc_eq)
  then show ?case using u(1) us(1) by simp
qed

section \<open>The order of the elements\<close>

lemma compare_simps:
  "compareStringObjects [] b = - int (length b)"
  "compareStringObjects a [] = int (length a)"
  "compareStringObjects (x # a) (y # b) = (if x = y then compareStringObjects a b else if x < y then - 1 else 1)"
  by (auto simp: compareStringObjects_def Let_def)

lemma compare_eq_0 [simp]: "compareStringObjects a b = 0 \<longleftrightarrow> a = b"
  by (induction a b rule: memcmp.induct) (auto simp: compare_simps)

lemma compare_neg: "compareStringObjects b a < 0 \<longleftrightarrow> 0 < compareStringObjects a b"
  by (induction a b rule: memcmp.induct) (auto simp: compare_simps)

lemma compare_trans:
  "compareStringObjects a b < 0 \<Longrightarrow> compareStringObjects b c < 0 \<Longrightarrow> compareStringObjects a c < 0"
proof (induction a b arbitrary: c rule: memcmp.induct)
  case (1 x a y b)
  then show ?case by (cases c) (auto simp: compare_simps split: if_splits)
qed (auto simp: compare_simps)

definition key_less :: "'s::linorder \<times> u8 list \<Rightarrow> 's \<times> u8 list \<Rightarrow> bool" where
  "key_less = (\<lambda>(s, a) (t, b). s < t \<or> s = t \<and> compareStringObjects a b < 0)"

lemma key_less_irrefl [simp]: "\<not> key_less x x"
  using compare_eq_0 [of "snd x" "snd x"] by (auto simp: key_less_def simp del: compare_eq_0)

lemma key_less_trans: "key_less x y \<Longrightarrow> key_less y z \<Longrightarrow> key_less x z"
  by (auto simp: key_less_def intro: compare_trans)

lemma key_less_linear: "key_less x y \<or> x = y \<or> key_less y x"
proof -
  have "compareStringObjects a b < 0 \<or> a = b \<or> compareStringObjects b a < 0" for a b
    using compare_neg [of b a] compare_eq_0 [of a b] by linarith
  then show ?thesis by (auto simp: key_less_def)
qed

section \<open>The representation of a sorted list\<close>

text \<open>The nodes \<open>ts\<close> hold the elements \<open>es\<close>; \<open>b\<close> is the backward pointer of the first.\<close>

fun holds :: "'s zheap \<Rightarrow> zptr option \<Rightarrow> tower list \<Rightarrow> ('s \<times> u8 list) list \<Rightarrow> bool" where
  "holds h b [] [] \<longleftrightarrow> True"
| "holds h b ((p, k) # ts) ((s, ob) # es) \<longleftrightarrow> info h p = Some (s, Some ob, b, k) \<and> holds h (Some p) ts es"
| "holds h b _ _ \<longleftrightarrow> False"

definition last_ptr :: "zptr option \<Rightarrow> tower list \<Rightarrow> zptr option" where
  "last_ptr b ts = (if ts = [] then b else Some (fst (last ts)))"

lemma last_ptr_simps [simp]: "last_ptr b [] = b" "last_ptr b ((p, k) # ts) = last_ptr (Some p) ts"
  "last_ptr b (ts @ us) = last_ptr (last_ptr b ts) us"
  by (auto simp: last_ptr_def)

definition towers :: "zskiplist \<Rightarrow> tower list \<Rightarrow> tower list" where
  "towers zsl ts = (z_header zsl, ZSKIPLIST_MAXLEVEL) # ts"

definition zsl_rep :: "'s::linorder zheap \<Rightarrow> zskiplist \<Rightarrow> tower list \<Rightarrow> ('s \<times> u8 list) list \<Rightarrow> bool" where
  "zsl_rep h zsl ts es \<longleftrightarrow>
     distinct (map fst (towers zsl ts)) \<and>
     (\<exists>s b. info h (z_header zsl) = Some (s, None, b, ZSKIPLIST_MAXLEVEL)) \<and>
     holds h None ts es \<and>
     (\<forall>i < z_levels zsl. linked i h (towers zsl ts) []) \<and>
     (\<forall>i. z_levels zsl \<le> i \<longrightarrow> i < ZSKIPLIST_MAXLEVEL \<longrightarrow> (\<exists>sp. entry h (z_header zsl) i = Some (None, sp))) \<and>
     (\<forall>t \<in> set ts. 1 \<le> snd t \<and> snd t \<le> z_levels zsl) \<and>
     1 \<le> z_levels zsl \<and> z_levels zsl \<le> ZSKIPLIST_MAXLEVEL \<and>
     z_tail zsl = last_ptr None ts \<and> z_length zsl = of_nat (length ts) \<and> length ts < 2 ^ 32 \<and>
     sorted_wrt key_less es"

lemma holds_length: "holds h b ts es \<Longrightarrow> length ts = length es"
  by (induction h b ts es rule: holds.induct) auto

lemma holds_append:
  "length as = length es \<Longrightarrow> holds h b (as @ bs) (es @ fs) \<longleftrightarrow> holds h b as es \<and> holds h (last_ptr b as) bs fs"
  by (induction h b as es rule: holds.induct) auto

lemma holds_cong:
  "(\<And>t. t \<in> set ts \<Longrightarrow> info h' (fst t) = info h (fst t)) \<Longrightarrow> holds h' b ts es \<longleftrightarrow> holds h b ts es"
  by (induction h b ts es rule: holds.induct) fastforce+

lemma holds_nth:
  "holds h b ts es \<Longrightarrow> i < length ts \<Longrightarrow> \<exists>b. info h (fst (ts ! i)) = Some (fst (es ! i), Some (snd (es ! i)), b, snd (ts ! i))"
  by (induction h b ts es arbitrary: i rule: holds.induct) (auto simp: nth_Cons split: nat.splits)

text \<open>A search whose condition holds exactly for the first elements.\<close>

lemma separates_holds:
  assumes hold: "holds h None (as @ bs) es"
    and go: "\<And>j b node. j < length es \<Longrightarrow> z_score node = fst (es ! j) \<Longrightarrow> z_obj node = Some (snd (es ! j)) \<Longrightarrow>
      go node (of_nat (Suc j)) = Inr (j < length as)"
  shows "separates h go (t # as) bs"
  unfolding separates_def
proof (intro allI impI)
  fix ts p k us assume eq: "(t # as) @ bs = ts @ (p, k) # us" and ne: "ts \<noteq> []"
  then obtain ts' where ts: "ts = t # ts'" "as @ bs = ts' @ (p, k) # us" by (cases ts) auto
  let ?j = "length ts'"
  have j: "?j < length (as @ bs)" "(as @ bs) ! ?j = (p, k)" using ts(2) by simp_all
  obtain b where "info h p = Some (fst (es ! ?j), Some (snd (es ! ?j)), b, k)"
    using holds_nth [OF hold j(1)] j(2) by auto
  then obtain node where "h p = Some node" "z_score node = fst (es ! ?j)" "z_obj node = Some (snd (es ! ?j))"
    by (auto simp: info_def)
  moreover have "?j < length es" using j(1) holds_length [OF hold] by simp
  ultimately show "\<exists>n. h p = Some n \<and> go n (of_nat (length ts)) = Inr (length ts < length (t # as))"
    using go [of ?j node] ts(1) by auto
qed

lemma zsl_search_spec:
  fixes go :: "'s::linorder zskiplistNode \<Rightarrow> 'n::len word \<Rightarrow> bool res"
  assumes rep: "zsl_rep h zsl (as @ bs) es"
    and go: "\<And>j node. j < length es \<Longrightarrow> z_score node = fst (es ! j) \<Longrightarrow> z_obj node = Some (snd (es ! j)) \<Longrightarrow>
      go node (of_nat (Suc j)) = Inr (j < length as)"
  obtains us where "zsl_search h zsl go = Some (Inr us)" "preds (towers zsl as) us (z_levels zsl)"
proof -
  have "\<exists>us. zsl_descend (z_levels zsl) h go (z_header zsl) (of_nat (length ([] :: tower list))) = Some (Inr us) \<and>
    preds (towers zsl as) us (z_levels zsl)"
  proof (rule descend_spec [where as = "towers zsl as" and bs = bs and k = ZSKIPLIST_MAXLEVEL and ms = as])
    show "towers zsl as = [] @ (z_header zsl, ZSKIPLIST_MAXLEVEL) # as" by (simp add: towers_def)
    show "separates h go (towers zsl as) bs"
      unfolding towers_def by (rule separates_holds [of _ _ _ es]) (use rep go in \<open>auto simp: zsl_rep_def simp del: of_nat_Suc\<close>)
  qed (use rep in \<open>auto simp: zsl_rep_def towers_def\<close>)
  then show thesis using that by (auto simp: zsl_search_def)
qed

text \<open>The search of a key splits the list at its place.\<close>

lemma sorted_prefix:
  assumes "sorted_wrt key_less es" and "j < length es"
  shows "key_less (es ! j) x \<longleftrightarrow> j < length (takeWhile (\<lambda>e. key_less e x) es)"
proof
  assume "key_less (es ! j) x"
  then have "key_less (es ! i) x" if "i \<le> j" for i
    using that assms sorted_wrt_nth_less [OF assms(1), of i j] key_less_trans [of "es ! i" "es ! j" x] by (cases "i = j") auto
  then show "j < length (takeWhile (\<lambda>e. key_less e x) es)"
    using assms(2) by (metis (no_types, lifting) le_neq_implies_less linorder_le_cases nth_length_takeWhile not_le order.strict_trans2)
next
  assume "j < length (takeWhile (\<lambda>e. key_less e x) es)"
  then show "key_less (es ! j) x" by (metis nth_mem set_takeWhileD takeWhile_nth)
qed

lemma before_key_go:
  "z_score n = fst e \<Longrightarrow> z_obj n = Some (snd e) \<Longrightarrow> before_key s ob n r = Inr (key_less e (s, ob))"
  by (auto simp: before_key_def zcompare_def key_less_def split: prod.splits)

section \<open>Insertion keeps the representation\<close>

lemma linked_insert:
  assumes "linked i h (ss @ (u, k) # bs @ vs) []" and "i < k" and "low i bs"
    and dist: "distinct (map fst (ss @ (u, k) # bs @ (x, l) # vs))"
    and other: "\<And>q. q \<noteq> u \<Longrightarrow> q \<noteq> x \<Longrightarrow> entry h' q i = entry h q i"
    and high: "i < l \<Longrightarrow> entry h' u i = Some (Some x, of_nat (length bs + 1)) \<and> entry h' x i = Some (fwd i vs, of_nat (gap i vs))"
    and lo: "l \<le> i \<Longrightarrow> entry h' u i = Some (fwd i vs, of_nat (length bs + gap i vs + 1))"
  shows "linked i h' (ss @ (u, k) # bs @ (x, l) # vs) []"
proof -
  have same: "linked i h' ts ws \<longleftrightarrow> linked i h ts ws" if "u \<notin> fst ` set ts" "x \<notin> fst ` set ts" for ts ws
    using that by (intro linked_cong other) (auto simp: image_iff)
  have "linked i h ss ([(u, k)] @ bs @ vs)" "linked i h vs []"
    using assms(1) by (auto simp: linked_append)
  moreover have "\<not> low i [(u, k)]" using assms(2) by simp
  ultimately have "linked i h' ss ([(u, k)] @ bs @ (x, l) # vs)" "linked i h' vs []"
    using linked_before [of i "[(u, k)]" _ ss] same dist by auto
  moreover have "linked i h' bs ((x, l) # vs)" using linked_low [OF assms(3)] .
  ultimately show ?thesis
    using assms(2,3) high lo by (auto simp: linked_append fwd_append gap_append not_less)
qed

lemma pred_first:
  assumes "pred_at as 0 u" and "\<forall>t \<in> set (tl as). 1 \<le> snd t"
  shows "as \<noteq> [] \<and> fst u = fst (last as) \<and> snd u = of_nat (length as - 1)"
proof -
  obtain ss k us where as: "as = ss @ (fst u, k) # us" "low 0 us" "snd u = of_nat (length ss)"
    using assms(1) by (auto simp: pred_at_def)
  have "us = []"
  proof (cases us)
    case (Cons t us')
    then have "t \<in> set (tl as)" using as(1) by (cases ss) auto
    then show ?thesis using assms(2) as(2) Cons by fastforce
  qed simp
  then show ?thesis using as by simp
qed

lemma link_level_spec:
  assumes "preds as us n" and "i < n" and "\<forall>t \<in> set (tl as). 1 \<le> snd t"
    and "linked i h (as @ vs) []" and "distinct (map fst (as @ (x, l) # vs))" and "i < l" and "entry h x i \<noteq> None"
  obtains h' where "link_level x us i h = Inr h'" "info h' = info h" "linked i h' (as @ (x, l) # vs) []"
    "\<And>q j. j \<noteq> i \<Longrightarrow> entry h' q j = entry h q j"
proof -
  obtain u ss k bs where u: "us ! i = (u, of_nat (length ss))" "as = ss @ (u, k) # bs" "i < k" "low i bs"
    using assms(1,2) by (cases "us ! i") (fastforce simp: preds_def pred_at_def)
  have len: "length us = n" using assms(1) by (simp add: preds_def)
  have "pred_at as 0 (us ! 0)" using assms(1,2) by (simp add: preds_def)
  note u0 = pred_first [OF this assms(3)]
  have r: "snd (us ! 0) - of_nat (length ss) = of_nat (length bs)" using u0 by (simp add: u(2))
  have e: "entry h u i = Some (fwd i vs, of_nat (length bs + gap i vs))"
    using assms(4) u(2-4) by (simp add: linked_append fwd_append gap_append)
  obtain lx where lx: "entry h x i = Some lx" using assms(7) by auto
  obtain h1 where h1: "zset_level h (Some x) i (\<lambda>_. (fwd i vs, of_nat (length bs + gap i vs) - of_nat (length bs))) = Inr h1"
    "info h1 = info h" "entry h1 = (\<lambda>q j. if q = x \<and> j = i then Some (fwd i vs, of_nat (length bs + gap i vs) - of_nat (length bs)) else entry h q j)"
    using zset_level_entry [OF lx, of "\<lambda>_. (fwd i vs, of_nat (length bs + gap i vs) - of_nat (length bs))"] by blast
  have ux: "u \<noteq> x" using assms(5) u(2) by auto
  then have "entry h1 u i = Some (fwd i vs, of_nat (length bs + gap i vs))" using e by (simp add: h1(3))
  then obtain h2 where h2: "zset_level h1 (Some u) i (\<lambda>_. (Some x, of_nat (length bs) + 1)) = Inr h2"
    "info h2 = info h1" "entry h2 = (\<lambda>q j. if q = u \<and> j = i then Some (Some x, of_nat (length bs) + 1) else entry h1 q j)"
    using zset_level_entry [of h1 u i _ "\<lambda>_. (Some x, of_nat (length bs) + 1)"] by blast
  have "link_level x us i h = Inr h2"
    using zlevel_entry [OF e] h1(1) h2(1) u(1) r assms(2) len
    by (auto simp: link_level_def rd_def split: prod.splits simp del: rbind_eq_Inr of_nat_add)
  moreover have "linked i h2 (as @ (x, l) # vs) []"
    unfolding u(2) append_assoc append_Cons
    by (rule linked_insert [of _ h]) (use assms(4-6) u ux in \<open>auto simp: h2(3) h1(3)\<close>)
  ultimately show thesis using that h1 h2 by auto
qed

lemma grow_span_spec:
  assumes "preds as us n" and "i < n" and "linked i h (as @ vs) []" and "distinct (map fst (as @ (x, l) # vs))" and "l \<le> i"
  obtains h' where "grow_span us i h = Inr h'" "info h' = info h" "linked i h' (as @ (x, l) # vs) []"
    "\<And>q j. j \<noteq> i \<Longrightarrow> entry h' q j = entry h q j"
proof -
  obtain u ss k bs where u: "us ! i = (u, of_nat (length ss))" "as = ss @ (u, k) # bs" "i < k" "low i bs"
    using assms(1,2) by (cases "us ! i") (fastforce simp: preds_def pred_at_def)
  have len: "length us = n" using assms(1) by (simp add: preds_def)
  have e: "entry h u i = Some (fwd i vs, of_nat (length bs + gap i vs))"
    using assms(3) u(2-4) by (simp add: linked_append fwd_append gap_append)
  obtain h2 where h2: "zset_level h (Some u) i (\<lambda>(f, s). (f, s + 1)) = Inr h2" "info h2 = info h"
    "entry h2 = (\<lambda>q j. if q = u \<and> j = i then Some (fwd i vs, of_nat (length bs + gap i vs) + 1) else entry h q j)"
    using zset_level_entry [OF e, of "\<lambda>(f, s). (f, s + 1)"] by auto
  have "grow_span us i h = Inr h2" using h2(1) u(1) assms(2) len by (simp add: grow_span_def rd_def)
  moreover have "linked i h2 (as @ (x, l) # vs) []"
    unfolding u(2) append_assoc append_Cons
    by (rule linked_insert [of _ h]) (use assms(3-5) u in \<open>auto simp: h2(3) add.commute\<close>)
  ultimately show thesis using that h2 by auto
qed

text \<open>A loop over levels, each of which one step of the loop relinks.\<close>

lemma level_loop:
  assumes step: "\<And>i h1. m \<le> i \<Longrightarrow> i < n \<Longrightarrow> (\<And>q. entry h1 q i = entry h q i) \<Longrightarrow> info h1 = info h \<Longrightarrow>
      \<exists>h2. f i h1 = Inr h2 \<and> info h2 = info h1 \<and> R i (\<lambda>q. entry h2 q i) \<and> (\<forall>q j. j \<noteq> i \<longrightarrow> entry h2 q j = entry h1 q j)"
  shows "\<exists>h'. for_each f [m..<n] h = Inr h' \<and> info h' = info h \<and> (\<forall>i. m \<le> i \<longrightarrow> i < n \<longrightarrow> R i (\<lambda>q. entry h' q i)) \<and>
    (\<forall>q i. \<not> (m \<le> i \<and> i < n) \<longrightarrow> entry h' q i = entry h q i)"
proof -
  let ?I = "\<lambda>ys h'. info h' = info h \<and> (\<forall>i \<in> set ys. R i (\<lambda>q. entry h' q i)) \<and> (\<forall>q i. i \<notin> set ys \<longrightarrow> entry h' q i = entry h q i)"
  have "\<exists>h'. for_each f [m..<n] h = Inr h' \<and> ?I [m..<n] h'"
  proof (rule for_each_rule)
    fix ys i zs h1 assume eq: "[m..<n] = ys @ i # zs" and I: "?I ys h1"
    have "i \<in> set [m..<n]" unfolding eq by simp
    moreover have ni: "i \<notin> set ys" using distinct_upt [of m n] unfolding eq by simp
    ultimately obtain h2 where h2: "f i h1 = Inr h2" "info h2 = info h1" "R i (\<lambda>q. entry h2 q i)"
      "\<forall>q j. j \<noteq> i \<longrightarrow> entry h2 q j = entry h1 q j"
      using step [of i h1] I by auto
    have "(\<lambda>q. entry h2 q j) = (\<lambda>q. entry h1 q j)" if "j \<in> set ys" for j
      using that ni h2(4) by (intro ext) metis
    then have "R j (\<lambda>q. entry h2 q j)" if "j \<in> set ys" for j using that I by simp
    then show "\<exists>h2. f i h1 = Inr h2 \<and> ?I (ys @ [i]) h2" using h2 I by auto
  qed simp
  then show ?thesis by auto
qed

lemma repD:
  assumes "zsl_rep h zsl ts es"
  shows "distinct (map fst (towers zsl ts))"
    "\<exists>s b. info h (z_header zsl) = Some (s, None, b, ZSKIPLIST_MAXLEVEL)"
    "holds h None ts es" "i < z_levels zsl \<Longrightarrow> linked i h (towers zsl ts) []"
    "z_levels zsl \<le> i \<Longrightarrow> i < ZSKIPLIST_MAXLEVEL \<Longrightarrow> \<exists>sp. entry h (z_header zsl) i = Some (None, sp)"
    "t \<in> set ts \<Longrightarrow> 1 \<le> snd t \<and> snd t \<le> z_levels zsl"
    "1 \<le> z_levels zsl" "z_levels zsl \<le> ZSKIPLIST_MAXLEVEL" "z_tail zsl = last_ptr None ts"
    "z_length zsl = of_nat (length ts)" "length ts < 2 ^ 32" "sorted_wrt key_less es" "length ts = length es"
  using assms holds_length [of h None ts es] by (auto simp: zsl_rep_def)

lemma ucast_length: "ucast (of_nat n :: u64) = (of_nat n :: u32)"
  by (rule bit_word_eqI) (auto simp add: bit_simps)

lemma raise_spec:
  assumes rep: "zsl_rep h zsl (as @ bs) es" and us: "preds (towers zsl as) us (z_levels zsl)"
    and level: "level \<le> ZSKIPLIST_MAXLEVEL"
  obtains h' us' where "zsl_raise level h zsl us = Inr (h', zsl\<lparr>z_levels := max (z_levels zsl) level\<rparr>, us')"
    "info h' = info h" "preds (towers zsl as) us' (max (z_levels zsl) level)"
    "\<And>i. i < max (z_levels zsl) level \<Longrightarrow> linked i h' (towers zsl (as @ bs)) []"
    "\<And>i. max (z_levels zsl) level \<le> i \<Longrightarrow> i < ZSKIPLIST_MAXLEVEL \<Longrightarrow> \<exists>sp. entry h' (z_header zsl) i = Some (None, sp)"
proof (cases "level > z_levels zsl")
  case False
  then show thesis
    using that [of h us] us repD [OF rep] by (simp add: zsl_raise_def max_def)
next
  case True
  let ?n = "of_nat (length (as @ bs)) :: u32"
  let ?f = "\<lambda>i (h, us). rbind (zset_level h (Some (z_header zsl)) i (\<lambda>(f, s). (f, ucast (z_length zsl)))) (\<lambda>h.
            Inr (h, us @ [(z_header zsl, 0 :: u32)]))"
  let ?I = "\<lambda>ys (h1, us1). info h1 = info h \<and> us1 = us @ replicate (length ys) (z_header zsl, 0) \<and>
    (\<forall>i \<in> set ys. entry h1 (z_header zsl) i = Some (None, ?n)) \<and>
    (\<forall>q i. \<not> (q = z_header zsl \<and> i \<in> set ys) \<longrightarrow> entry h1 q i = entry h q i)"
  have n: "ucast (z_length zsl) = ?n" using repD(10) [OF rep] by (simp only: ucast_length)
  have "\<exists>s. for_each ?f [z_levels zsl..<level] (h, us) = Inr s \<and> ?I [z_levels zsl..<level] s"
  proof (rule for_each_rule)
    fix ys i zs and s :: "'a zheap \<times> (zptr \<times> u32) list"
    assume eq: "[z_levels zsl..<level] = ys @ i # zs" and I: "?I ys s"
    obtain h1 us1 where s: "s = (h1, us1)" by (cases s)
    have "i \<in> set [z_levels zsl..<level]" unfolding eq by simp
    moreover have "i \<notin> set ys" using distinct_upt [of "z_levels zsl" level] unfolding eq by simp
    ultimately obtain sp where e: "entry h1 (z_header zsl) i = Some (None, sp)"
      using I repD(5) [OF rep, of i] level s by auto
    obtain h2 where h2: "zset_level h1 (Some (z_header zsl)) i (\<lambda>(f, s). (f, ucast (z_length zsl))) = Inr h2"
      "info h2 = info h1" "entry h2 = (\<lambda>q j. if q = z_header zsl \<and> j = i then Some (None, ?n) else entry h1 q j)"
      using zset_level_entry [OF e, of "\<lambda>(f, s). (f, ucast (z_length zsl))"] unfolding n prod.case by blast
    then show "\<exists>s'. ?f i s = Inr s' \<and> ?I (ys @ [i]) s'"
      using I s by (auto simp: replicate_append_same)
  qed simp
  then obtain h' us' where L: "for_each ?f [z_levels zsl..<level] (h, us) = Inr (h', us')" and I: "?I [z_levels zsl..<level] (h', us')"
    by auto
  have run: "zsl_raise level h zsl us = Inr (h', zsl\<lparr>z_levels := level\<rparr>, us')"
    unfolding zsl_raise_def using True L by simp
  have low: "low i (as @ bs)" if "z_levels zsl \<le> i" for i
    using repD(6) [OF rep] that by (fastforce simp: low_def)
  have lk: "linked i h' (towers zsl (as @ bs)) []" if i: "i < level" for i
  proof (cases "i < z_levels zsl")
    case True
    then have "linked i h' (towers zsl (as @ bs)) [] \<longleftrightarrow> linked i h (towers zsl (as @ bs)) []"
      using I by (intro linked_cong) auto
    then show ?thesis using repD(4) [OF rep True] by simp
  next
    case False
    then have "low i (as @ bs)" using low by simp
    moreover have "entry h' (z_header zsl) i = Some (None, ?n)" using I i False by auto
    ultimately show ?thesis using linked_low [of i "as @ bs" _ "[]"] fwd_low gap_low
      by (simp only: towers_def links.simps append_Nil2) metis
  qed
  have "pred_at (towers zsl as) i (us' ! i)" if i: "i < level" for i
  proof (cases "i < z_levels zsl")
    case True
    then show ?thesis using us I by (auto simp: preds_def nth_append)
  next
    case False
    then have "us' ! i = (z_header zsl, 0)" using I us i by (auto simp: preds_def nth_append)
    moreover have "low i as" using low [of i] False by simp
    ultimately show ?thesis using i level unfolding pred_at_def towers_def
      by (intro exI [of _ "[]"] exI [of _ ZSKIPLIST_MAXLEVEL] exI [of _ as]) auto
  qed
  then have "preds (towers zsl as) us' level" using us I True by (auto simp: preds_def)
  then show thesis using that [of h' us'] run lk I repD(5) [OF rep] True by (auto simp: max_def)
qed

lemma backward_spec:
  assumes x: "info h x = Some (s, Some ob, b0, l)" and e: "entry h x 0 = Some (fwd 0 bs, sp)"
    and bs: "holds h b bs es" "\<forall>t \<in> set bs. 1 \<le> snd t" "x \<notin> fst ` set bs" "distinct (map fst bs)"
  obtains h' zsl' where "set_backward x u h zsl = Inr (h', zsl')" "entry h' = entry h"
    "holds h' u ((x, l) # bs) ((s, ob) # es)"
    "zsl' = (if bs = [] then zsl\<lparr>z_tail := Some x\<rparr> else zsl)" "\<And>q. q \<notin> fst ` set ((x, l) # bs) \<Longrightarrow> info h' q = info h q"
proof -
  obtain h1 where h1: "zupdate h (Some x) (z_backward_update (\<lambda>_. u)) = Inr h1" "entry h1 = entry h"
    "info h1 = (info h)(x \<mapsto> (s, Some ob, u, l))"
    using zupdate_backward [OF x, of u] by blast
  have l1: "zlevel h1 (Some x) 0 = Inr (fwd 0 bs, sp)" by (rule zlevel_entry) (simp add: h1(2) e)
  show thesis
  proof (cases bs)
    case Nil
    then have "es = []" using bs(1) by (cases es) auto
    then show thesis using that [of h1 "zsl\<lparr>z_tail := Some x\<rparr>"] h1 l1 Nil by (simp add: set_backward_def)
  next
    case (Cons t bs')
    obtain y k s' ob' es' where t: "t = (y, k)" "es = (s', ob') # es'" "info h y = Some (s', Some ob', b, k)" "holds h (Some y) bs' es'"
      using bs(1) Cons by (cases t; cases es) auto
    have f: "fwd 0 bs = Some y" using bs(2) Cons t by auto
    have yx: "y \<noteq> x" using bs(3) Cons t by auto
    obtain h2 where h2: "zupdate h1 (Some y) (z_backward_update (\<lambda>_. Some x)) = Inr h2" "entry h2 = entry h1"
      "info h2 = (info h1)(y \<mapsto> (s', Some ob', Some x, k))"
      using zupdate_backward [of h1 y s' "Some ob'" b k "Some x"] t(3) h1(3) yx by auto
    have "holds h2 (Some y) bs' es' \<longleftrightarrow> holds h (Some y) bs' es'"
      using bs(3,4) Cons t(1) by (intro holds_cong) (auto simp: h2(3) h1(3))
    then have "holds h2 u ((x, l) # bs) ((s, ob) # es)"
      using t yx by (simp add: Cons h2(3) h1(3))
    moreover have "set_backward x u h zsl = Inr (h2, zsl)" using h1(1) l1 h2(1) f by (simp add: set_backward_def)
    ultimately show thesis using that [of h2 zsl] Cons h1(2,3) h2(2,3) t(1) by auto
  qed
qed

lemma link_all_spec:
  assumes us: "preds as us n" and l: "l \<le> n" and tl: "\<forall>t \<in> set (tl as). 1 \<le> snd t"
    and lk: "\<And>i. i < n \<Longrightarrow> linked i h (as @ vs) []" and dist: "distinct (map fst (as @ (x, l) # vs))"
    and e: "\<And>i. i < l \<Longrightarrow> entry h x i \<noteq> None"
  obtains h1 h' where "for_each (link_level x us) [0..<l] h = Inr h1" "for_each (grow_span us) [l..<n] h1 = Inr h'"
    "info h' = info h" "\<And>q i. n \<le> i \<Longrightarrow> entry h' q i = entry h q i"
    "\<And>i. i < n \<Longrightarrow> linked i h' (as @ (x, l) # vs) []"
proof -
  have "\<exists>h3. for_each (link_level x us) [0..<l] h = Inr h3 \<and> info h3 = info h \<and>
      (\<forall>i. 0 \<le> i \<longrightarrow> i < l \<longrightarrow> linked i h3 (as @ (x, l) # vs) []) \<and>
      (\<forall>q i. \<not> (0 \<le> i \<and> i < l) \<longrightarrow> entry h3 q i = entry h q i)"
  proof (rule level_loop [where R = "\<lambda>i e. links i e (as @ (x, l) # vs) []"])
    fix i g assume i: "0 \<le> i" "i < l" and g: "\<And>q. entry g q i = entry h q i" "info g = info h"
    have "linked i g (as @ vs) []" using lk [of i] i l linked_cong [of "as @ vs" g i h] g by auto
    moreover have "entry g x i \<noteq> None" using i by (simp add: g e)
    moreover have "i < n" using i l by simp
    ultimately obtain g' where "link_level x us i g = Inr g'" "info g' = info g" "linked i g' (as @ (x, l) # vs) []"
      "\<And>q j. j \<noteq> i \<Longrightarrow> entry g' q j = entry g q j"
      using link_level_spec [OF us _ tl _ dist i(2)] by blast
    then show "\<exists>g'. link_level x us i g = Inr g' \<and> info g' = info g \<and> linked i g' (as @ (x, l) # vs) [] \<and>
      (\<forall>q j. j \<noteq> i \<longrightarrow> entry g' q j = entry g q j)" by blast
  qed
  then obtain h3 where h3: "for_each (link_level x us) [0..<l] h = Inr h3" "info h3 = info h"
    "\<And>i. i < l \<Longrightarrow> linked i h3 (as @ (x, l) # vs) []" "\<And>q i. l \<le> i \<Longrightarrow> entry h3 q i = entry h q i"
    by auto
  have "\<exists>h4. for_each (grow_span us) [l..<n] h3 = Inr h4 \<and> info h4 = info h3 \<and>
      (\<forall>i. l \<le> i \<longrightarrow> i < n \<longrightarrow> linked i h4 (as @ (x, l) # vs) []) \<and>
      (\<forall>q i. \<not> (l \<le> i \<and> i < n) \<longrightarrow> entry h4 q i = entry h3 q i)"
  proof (rule level_loop [where R = "\<lambda>i e. links i e (as @ (x, l) # vs) []"])
    fix i g assume i: "l \<le> i" "i < n" and g: "\<And>q. entry g q i = entry h3 q i" "info g = info h3"
    have "linked i g (as @ vs) []" using lk [of i] i linked_cong [of "as @ vs" g i h] g h3(4) by auto
    then obtain g' where "grow_span us i g = Inr g'" "info g' = info g" "linked i g' (as @ (x, l) # vs) []"
      "\<And>q j. j \<noteq> i \<Longrightarrow> entry g' q j = entry g q j"
      using grow_span_spec [OF us i(2) _ dist i(1), of g] by auto
    then show "\<exists>g'. grow_span us i g = Inr g' \<and> info g' = info g \<and> linked i g' (as @ (x, l) # vs) [] \<and>
      (\<forall>q j. j \<noteq> i \<longrightarrow> entry g' q j = entry g q j)" by blast
  qed
  then obtain h4 where h4: "for_each (grow_span us) [l..<n] h3 = Inr h4" "info h4 = info h"
    "\<And>i. l \<le> i \<Longrightarrow> i < n \<Longrightarrow> linked i h4 (as @ (x, l) # vs) []"
    "\<And>q i. \<not> (l \<le> i \<and> i < n) \<Longrightarrow> entry h4 q i = entry h3 q i"
    using h3(2) by auto
  have lk4: "linked i h4 (as @ (x, l) # vs) []" if "i < n" for i
  proof (cases "i < l")
    case True
    then show ?thesis using h3(3) linked_cong [of "as @ (x, l) # vs" h4 i h3] h4(4) by auto
  qed (use h4(3) that in auto)
  show thesis using that [OF h3(1) h4(1,2) _ lk4] h3(4) h4(4) l by simp
qed

lemma insert_node_spec:
  assumes rep: "zsl_rep h zsl (as @ bs) (es @ fs)" and la: "length as = length es"
    and us: "preds (towers zsl as) us (z_levels zsl)"
    and level: "1 \<le> level" "level \<le> ZSKIPLIST_MAXLEVEL" and x: "h x = None" and len: "length (as @ bs) + 1 < 2 ^ 32"
    and sorted: "sorted_wrt key_less (es @ (score, obj) # fs)"
  obtains h' zsl' where "insert_node level x score obj us h zsl = Inr (h', zsl')"
    "zsl_rep h' zsl' (as @ (x, level) # bs) (es @ (score, obj) # fs)" "z_header zsl' = z_header zsl"
proof -
  let ?L = "max (z_levels zsl) level"
  let ?z = "zsl\<lparr>z_levels := ?L\<rparr>"
  let ?A = "towers zsl as"
  obtain h1 us1 where h1: "zsl_raise level h zsl us = Inr (h1, ?z, us1)" "info h1 = info h" "preds ?A us1 ?L"
    "\<And>i. i < ?L \<Longrightarrow> linked i h1 (towers zsl (as @ bs)) []"
    "\<And>i. ?L \<le> i \<Longrightarrow> i < ZSKIPLIST_MAXLEVEL \<Longrightarrow> \<exists>sp. entry h1 (z_header zsl) i = Some (None, sp)"
    using raise_spec [OF rep us level(2)] by metis
  define h2 where "h2 = h1(x \<mapsto> zslCreateNode level score (Some obj))"
  have i2: "info h2 = (info h)(x \<mapsto> (score, Some obj, None, level))"
    unfolding h1(2) [symmetric] by (simp add: h2_def fun_eq_iff info_def zslCreateNode_def)
  have e2: "entry h2 q i = (if q = x then if i < level then Some (None, 0) else None else entry h1 q i)" for q i
    by (simp add: h2_def entry_def zslCreateNode_def)
  have live: "info h q \<noteq> None" if "q \<in> fst ` set (towers zsl (as @ bs))" for q
  proof (cases "q = z_header zsl")
    case False
    then obtain j where "j < length (as @ bs)" "q = fst ((as @ bs) ! j)"
      using \<open>q \<in> _\<close> by (auto simp: towers_def in_set_conv_nth simp del: set_append)
    then show ?thesis using holds_nth [OF repD(3) [OF rep]] by fastforce
  qed (use repD(2) [OF rep] in auto)
  have "info h x = None" using x by (simp add: info_def)
  then have new: "x \<notin> fst ` set (towers zsl (as @ bs))" using live [of x] by blast
  have A: "towers zsl (as @ bs) = ?A @ bs" "towers zsl (as @ (x, level) # bs) = ?A @ (x, level) # bs"
    by (simp_all add: towers_def)
  have dist: "distinct (map fst (?A @ (x, level) # bs))"
    using repD(1) [OF rep] new by (auto simp: towers_def)
  have tl: "\<forall>t \<in> set (tl ?A). 1 \<le> snd t" using repD(6) [OF rep] by (auto simp: towers_def)
  have lk2: "linked i h2 (?A @ bs) []" if "i < ?L" for i
  proof -
    have "linked i h2 (?A @ bs) [] \<longleftrightarrow> linked i h1 (?A @ bs) []"
      using new by (intro linked_cong) (auto simp: e2 towers_def)
    then show ?thesis using h1(4) [OF that] A(1) by simp
  qed
  have "\<And>i. i < level \<Longrightarrow> entry h2 x i \<noteq> None" by (simp add: e2)
  then obtain h3 h4 where h3: "for_each (link_level x us1) [0..<level] h2 = Inr h3"
    and h4: "for_each (grow_span us1) [level..<?L] h3 = Inr h4" "info h4 = info h2" "\<And>q i. ?L \<le> i \<Longrightarrow> entry h4 q i = entry h2 q i"
    and lk4: "\<And>i. i < ?L \<Longrightarrow> linked i h4 (?A @ (x, level) # bs) []"
    using link_all_spec [OF h1(3) max.cobounded2 tl lk2 dist] by metis
  have p0: "pred_at ?A 0 (us1 ! 0)" using h1(3) level by (simp add: preds_def)
  note u0 = pred_first [OF p0 tl]
  have lenus: "0 < length us1" using h1(3) level by (simp add: preds_def)
  define u where "u = (if fst (us1 ! 0) = z_header zsl then None else Some (fst (us1 ! 0)))"
  have u: "u = last_ptr None as"
    using u0 repD(1) [OF rep] by (cases as rule: rev_cases) (auto simp: u_def towers_def last_ptr_def)
  have hold: "holds h None as es" "holds h u bs fs"
    using repD(3) [OF rep] holds_append [OF la] u by auto
  have nb: "fst t \<noteq> x" if "t \<in> set bs" for t using new that by (auto simp: towers_def)
  have "holds h4 u bs fs \<longleftrightarrow> holds h u bs fs" by (rule holds_cong) (use nb in \<open>simp add: h4(2) i2\<close>)
  then have hb: "holds h4 u bs fs" using hold(2) by simp
  have e4: "entry h4 x 0 = Some (fwd 0 bs, of_nat (gap 0 bs))"
    using lk4 [of 0] level by (simp add: linked_append)
  have i4: "info h4 x = Some (score, Some obj, None, level)" by (simp add: h4(2) i2)
  have bs: "\<forall>t \<in> set bs. 1 \<le> snd t" "x \<notin> fst ` set bs" "distinct (map fst bs)"
    using repD(6) [OF rep] new dist by (auto simp: towers_def)
  obtain h5 z5 where h5: "set_backward x u h4 ?z = Inr (h5, z5)" "entry h5 = entry h4"
    "holds h5 u ((x, level) # bs) ((score, obj) # fs)" "z5 = (if bs = [] then ?z\<lparr>z_tail := Some x\<rparr> else ?z)"
    "\<And>q. q \<notin> fst ` set ((x, level) # bs) \<Longrightarrow> info h5 q = info h4 q"
    by (rule backward_spec [OF i4 e4 hb bs, of u ?z]) blast
  let ?z' = "z5\<lparr>z_length := z_length z5 + 1\<rparr>"
  have run: "insert_node level x score obj us h zsl = Inr (h5, ?z')"
    using h1(1) h3 h4(1) h5(1) lenus
    by (simp add: insert_node_def h2_def [symmetric] rd_def u_def split_beta del: rbind_eq_Inr)
  have z': "z_header ?z' = z_header zsl" "z_levels ?z' = ?L" by (simp_all add: h5(4))
  have tz: "towers ?z' ts = towers zsl ts" for ts by (simp only: towers_def z'(1))
  have keep: "info h5 q = info h q" if "q \<in> fst ` set ?A" for q
  proof -
    have "q \<notin> fst ` set ((x, level) # bs)" "q \<noteq> x" using that dist by (auto simp: disjoint_iff)
    then show ?thesis using h5(5) h4(2) i2 by simp
  qed
  have hold5: "holds h5 None (as @ (x, level) # bs) (es @ (score, obj) # fs)"
  proof -
    have "holds h5 None as es" using hold(1) holds_cong [of as h5 h] keep by (auto simp: towers_def)
    then show ?thesis using h5(3) u by (simp add: holds_append [OF la])
  qed
  have "\<exists>s b. info h5 (z_header zsl) = Some (s, None, b, ZSKIPLIST_MAXLEVEL)"
    using repD(2) [OF rep] keep [of "z_header zsl"] by (simp add: towers_def)
  moreover have "\<exists>sp. entry h5 (z_header zsl) i = Some (None, sp)" if "?L \<le> i" "i < ZSKIPLIST_MAXLEVEL" for i
    using that h1(5) [OF that] h5(2) h4(3) e2 new by (auto simp: towers_def)
  moreover have "linked i h5 (towers zsl (as @ (x, level) # bs)) []" if "i < ?L" for i
    using lk4 [OF that] A(2) linked_cong [of "?A @ (x, level) # bs" h5 i h4] h5(2) by simp
  moreover have "z_tail ?z' = last_ptr None (as @ (x, level) # bs)"
    using repD(9) [OF rep] by (auto simp: h5(4) last_ptr_def)
  moreover have "1 \<le> snd t \<and> snd t \<le> ?L" if "t \<in> set (as @ (x, level) # bs)" for t
    using that level repD(6) [OF rep, of t] by (auto simp: le_max_iff_disj)
  moreover have "distinct (map fst (towers zsl (as @ (x, level) # bs)))" using dist A(2) by simp
  moreover have "z_length ?z' = of_nat (length (as @ (x, level) # bs))" "1 \<le> ?L" "?L \<le> ZSKIPLIST_MAXLEVEL"
    using repD(7,8,10) [OF rep] level by (simp_all add: h5(4))
  moreover have "length (as @ (x, level) # bs) < 2 ^ 32" using len by simp
  ultimately have "zsl_rep h5 ?z' (as @ (x, level) # bs) (es @ (score, obj) # fs)"
    unfolding zsl_rep_def z' tz using hold5 sorted by blast
  then show thesis using that run z'(1) by blast
qed

section \<open>Deletion keeps the representation\<close>

lemma linked_delete:
  assumes "linked i h (ss @ (u, k) # bs @ (x, l) # vs) []" and "i < k" and "low i bs"
    and dist: "distinct (map fst (ss @ (u, k) # bs @ (x, l) # vs))"
    and other: "\<And>q. q \<noteq> u \<Longrightarrow> entry h' q i = entry h q i"
    and u: "entry h' u i = Some (fwd i vs, of_nat (length bs + gap i vs))"
  shows "linked i h' (ss @ (u, k) # bs @ vs) []"
proof -
  have same: "linked i h' ts ws \<longleftrightarrow> linked i h ts ws" if "u \<notin> fst ` set ts" for ts ws
    using that by (intro linked_cong other) (auto simp: image_iff)
  have "linked i h ss ([(u, k)] @ bs @ (x, l) # vs)" "linked i h vs []"
    using assms(1) by (auto simp: linked_append)
  moreover have "\<not> low i [(u, k)]" using assms(2) by simp
  ultimately have "linked i h' ss ([(u, k)] @ bs @ vs)" "linked i h' vs []"
    using linked_before [of i "[(u, k)]" _ ss] same dist by auto
  then show ?thesis
    using assms(2,3) u linked_low [OF assms(3)] by (auto simp: linked_append fwd_append gap_append)
qed

lemma fwd_in: "fwd i ts = Some p \<Longrightarrow> p \<in> fst ` set ts"
  by (induction ts) (auto split: if_splits)

lemma unlink_level_spec:
  assumes "pred_at as i (us ! i)" and "i < length us" and "linked i h (as @ (x, l) # vs) []"
    and "distinct (map fst (as @ (x, l) # vs))"
  obtains h' where "unlink_level x us i h = Inr h'" "info h' = info h" "linked i h' (as @ vs) []"
    "\<And>q j. j \<noteq> i \<Longrightarrow> entry h' q j = entry h q j" "entry h' x i = entry h x i"
proof -
  obtain u ss k bs where u: "us ! i = (u, of_nat (length ss))" "as = ss @ (u, k) # bs" "i < k" "low i bs"
    using assms(1) by (cases "us ! i") (fastforce simp: pred_at_def)
  have e: "entry h u i = Some (fwd i ((x, l) # vs), of_nat (length bs + gap i ((x, l) # vs)))"
    using assms(3) u(2-4) by (simp add: linked_append fwd_append gap_append)
  let ?e = "(fwd i vs, of_nat (length bs + gap i vs))"
  obtain h2 where h2: "zset_level h (Some u) i (\<lambda>_. ?e) = Inr h2" "info h2 = info h"
    "entry h2 = (\<lambda>q j. if q = u \<and> j = i then Some ?e else entry h q j)"
    using zset_level_entry [OF e, of "\<lambda>_. ?e"] by blast
  have "unlink_level x us i h = Inr h2"
  proof (cases "i < l")
    case True
    then have "entry h x i = Some (fwd i vs, of_nat (gap i vs))" using assms(3) by (simp add: linked_append)
    then show ?thesis using zlevel_entry [OF e] zlevel_entry [of h x i] True u(1) assms(2) h2(1)
      by (simp add: unlink_level_def rd_def)
  next
    case False
    then have "fwd i vs \<noteq> Some x" using fwd_in [of i vs x] assms(4) by auto
    then show ?thesis using zlevel_entry [OF e] False u(1) assms(2) h2(1)
      by (simp add: unlink_level_def rd_def)
  qed
  moreover have "linked i h2 (as @ vs) []"
    unfolding u(2) append_assoc append_Cons
    by (rule linked_delete [of _ h _ _ _ _ x l]) (use assms(3,4) u in \<open>auto simp: h2(3)\<close>)
  moreover have "u \<noteq> x" using assms(4) u(2) by auto
  ultimately show thesis using that h2 by auto
qed

lemma lower_level_spec:
  assumes "1 \<le> n" and "\<And>i. i < n \<Longrightarrow> entry h p i \<noteq> None"
  obtains l where "lower_level h p n = Inr l" "1 \<le> l" "l \<le> n"
    "\<And>i. l \<le> i \<Longrightarrow> i < n \<Longrightarrow> \<exists>sp. entry h p i = Some (None, sp)"
  using assms
proof (induction n arbitrary: thesis rule: lower_level.induct)
  case (1 h header l)
  obtain f sp where e: "entry h header (Suc l) = Some (f, sp)" using "1.prems"(3) [of "Suc l"] by auto
  show ?case
  proof (cases f)
    case None
    obtain l' where l: "lower_level h header (Suc l) = Inr l'" "1 \<le> l'" "l' \<le> Suc l"
      "\<And>i. l' \<le> i \<Longrightarrow> i < Suc l \<Longrightarrow> \<exists>sp. entry h header i = Some (None, sp)"
      using "1.IH" [OF zlevel_entry [OF e] refl None] "1.prems"(3) by auto
    have "\<exists>sp. entry h header i = Some (None, sp)" if "l' \<le> i" "i < Suc (Suc l)" for i
      using l(4) [OF that(1)] that(2) e None by (cases "i = Suc l") auto
    then show ?thesis using "1.prems"(1) [of l'] zlevel_entry [OF e] l None by auto
  next
    case (Some y)
    then show ?thesis using "1.prems"(1) [of "Suc (Suc l)"] zlevel_entry [OF e] by simp
  qed
qed auto

lemma unlink_all_spec:
  assumes rep: "zsl_rep h zsl (as @ (x, l) # vs) es" and us: "\<And>i. i < z_levels zsl \<Longrightarrow> pred_at (towers zsl as) i (us ! i)"
    and len: "z_levels zsl \<le> length us"
  obtains h' where "for_each (unlink_level x us) [0..<z_levels zsl] h = Inr h'" "info h' = info h"
    "\<And>i. i < z_levels zsl \<Longrightarrow> linked i h' (towers zsl (as @ vs)) []"
    "\<And>q i. z_levels zsl \<le> i \<Longrightarrow> entry h' q i = entry h q i"
    "entry h' x 0 = Some (fwd 0 vs, of_nat (gap 0 vs))"
proof -
  let ?A = "towers zsl as"
  have A: "towers zsl (as @ vs) = ?A @ vs" "towers zsl (as @ (x, l) # vs) = ?A @ (x, l) # vs" by (simp_all add: towers_def)
  have dist: "distinct (map fst (?A @ (x, l) # vs))" using repD(1) [OF rep] A by simp
  have lk: "linked i h (?A @ (x, l) # vs) []" if "i < z_levels zsl" for i using repD(4) [OF rep that] A by simp
  have "\<exists>h'. for_each (unlink_level x us) [0..<z_levels zsl] h = Inr h' \<and> info h' = info h \<and>
      (\<forall>i. 0 \<le> i \<longrightarrow> i < z_levels zsl \<longrightarrow> linked i h' (?A @ vs) [] \<and> entry h' x i = entry h x i) \<and>
      (\<forall>q i. \<not> (0 \<le> i \<and> i < z_levels zsl) \<longrightarrow> entry h' q i = entry h q i)"
  proof (rule level_loop [where R = "\<lambda>i e. links i e (?A @ vs) [] \<and> e x = entry h x i"])
    fix i g assume i: "0 \<le> i" "i < z_levels zsl" and g: "\<And>q. entry g q i = entry h q i" "info g = info h"
    have "linked i g (?A @ (x, l) # vs) []" using lk [OF i(2)] linked_cong [of "?A @ (x, l) # vs" g i h] g(1) by simp
    moreover have "i < length us" using i len by simp
    ultimately obtain g' where "unlink_level x us i g = Inr g'" "info g' = info g" "linked i g' (?A @ vs) []"
      "\<And>q j. j \<noteq> i \<Longrightarrow> entry g' q j = entry g q j" "entry g' x i = entry g x i"
      using unlink_level_spec [OF us [OF i(2)] _ _ dist] by blast
    then show "\<exists>g'. unlink_level x us i g = Inr g' \<and> info g' = info g \<and> (linked i g' (?A @ vs) [] \<and> entry g' x i = entry h x i) \<and>
      (\<forall>q j. j \<noteq> i \<longrightarrow> entry g' q j = entry g q j)" using g(1) by auto
  qed
  then obtain h' where h': "for_each (unlink_level x us) [0..<z_levels zsl] h = Inr h'" "info h' = info h"
    "\<And>i. i < z_levels zsl \<Longrightarrow> linked i h' (?A @ vs) []" "\<And>q i. z_levels zsl \<le> i \<Longrightarrow> entry h' q i = entry h q i"
    "\<And>i. i < z_levels zsl \<Longrightarrow> entry h' x i = entry h x i" by auto
  have "0 < z_levels zsl" "1 \<le> l" using repD(6) [OF rep, of "(x, l)"] repD(7) [OF rep] by auto
  then have "entry h' x 0 = Some (fwd 0 vs, of_nat (gap 0 vs))" using lk [of 0] h'(5) by (simp add: linked_append)
  then show thesis using that h' A(1) by metis
qed

lemma fwd_0: "\<forall>t \<in> set ts. 1 \<le> snd t \<Longrightarrow> fwd 0 ts = (if ts = [] then None else Some (fst (hd ts)))"
  by (cases ts) auto

lemma fwd_None: "fwd i ts = None \<longleftrightarrow> low i ts"
  by (induction ts) (auto simp: low_def split: if_splits)

lemma relink_backward:
  assumes hold: "holds h (Some x) vs fs" and x: "x \<notin> fst ` set vs" and pos: "\<forall>t \<in> set vs. 1 \<le> snd t" and d: "distinct (map fst vs)"
  obtains h' zsl' where
    "(if fwd 0 vs \<noteq> None then rbind (zupdate h (fwd 0 vs) (z_backward_update (\<lambda>_. b))) (\<lambda>h. Inr (h, zsl))
      else Inr (h, zsl\<lparr>z_tail := b\<rparr>)) = Inr (h', zsl')"
    "entry h' = entry h" "holds h' b vs fs" "zsl' = (if vs = [] then zsl\<lparr>z_tail := b\<rparr> else zsl)"
    "\<And>q. q \<notin> fst ` set vs \<Longrightarrow> info h' q = info h q"
proof (cases vs)
  case Nil
  then have "fs = []" using hold by (cases fs) auto
  then show thesis using that [of h "zsl\<lparr>z_tail := b\<rparr>"] Nil by simp
next
  case (Cons t vs')
  obtain y k s ob fs' where t: "t = (y, k)" "fs = (s, ob) # fs'" "info h y = Some (s, Some ob, Some x, k)" "holds h (Some y) vs' fs'"
    using hold Cons by (cases t; cases fs) auto
  obtain h2 where h2: "zupdate h (Some y) (z_backward_update (\<lambda>_. b)) = Inr h2" "entry h2 = entry h"
    "info h2 = (info h)(y \<mapsto> (s, Some ob, b, k))"
    using zupdate_backward [OF t(3), of b] by blast
  have "holds h2 (Some y) vs' fs' \<longleftrightarrow> holds h (Some y) vs' fs'"
    using d Cons t(1) by (intro holds_cong) (auto simp: h2(3))
  then have "holds h2 b vs fs" using t by (simp add: Cons h2(3))
  moreover have "fwd 0 vs = Some y" using fwd_0 [OF pos] Cons t(1) by simp
  ultimately show thesis using that [of h2 zsl] Cons h2 t(1) by auto
qed

lemma info_deref:
  assumes "info h x = Some (s, ob, b, l)"
  shows "\<exists>n. zderef h (Some x) = Inr n \<and> z_score n = s \<and> z_obj n = ob \<and> z_backward n = b"
  using assms by (auto simp: info_def zderef_def split: option.splits)

lemma deleteNode_spec:
  assumes rep: "zsl_rep h zsl (as @ (x, l) # vs) (es @ e # fs)" and la: "length as = length es"
    and us: "\<And>i. i < z_levels zsl \<Longrightarrow> pred_at (towers zsl as) i (us ! i)" and len: "z_levels zsl \<le> length us"
  obtains h' zsl' where "zslDeleteNode h zsl x us = Inr (h', zsl')" "zsl_rep (zslFreeNode h' x) zsl' (as @ vs) (es @ fs)"
    "z_header zsl' = z_header zsl" "z_levels zsl' \<le> z_levels zsl"
proof -
  obtain h1 where h1: "for_each (unlink_level x us) [0..<z_levels zsl] h = Inr h1" "info h1 = info h"
    "\<And>i. i < z_levels zsl \<Longrightarrow> linked i h1 (towers zsl (as @ vs)) []"
    "\<And>q i. z_levels zsl \<le> i \<Longrightarrow> entry h1 q i = entry h q i" "entry h1 x 0 = Some (fwd 0 vs, of_nat (gap 0 vs))"
    using unlink_all_spec [OF rep us len] by blast
  have hold: "holds h None as es" "info h x = Some (fst e, Some (snd e), last_ptr None as, l)" "holds h (Some x) vs fs"
    using repD(3) [OF rep] by (cases e; simp add: holds_append [OF la])+
  then obtain n where n: "zderef h1 (Some x) = Inr n" "z_backward n = last_ptr None as"
    using info_deref [of h1 x] by (simp add: h1(2)) blast
  have dist: "distinct (z_header zsl # map fst (as @ (x, l) # vs))" using repD(1) [OF rep] by (simp add: towers_def)
  have pos: "\<forall>t \<in> set vs. 1 \<le> snd t" using repD(6) [OF rep] by simp
  have "holds h1 (Some x) vs fs \<longleftrightarrow> holds h (Some x) vs fs" by (intro holds_cong) (simp add: h1(2))
  then have hv: "holds h1 (Some x) vs fs" using hold(3) by simp
  have xv: "x \<notin> fst ` set vs" "distinct (map fst vs)" using dist by auto
  obtain h2 z2 where h2: "(if fwd 0 vs \<noteq> None then rbind (zupdate h1 (fwd 0 vs) (z_backward_update (\<lambda>_. last_ptr None as))) (\<lambda>h. Inr (h, zsl))
      else Inr (h1, zsl\<lparr>z_tail := last_ptr None as\<rparr>)) = Inr (h2, z2)"
    "entry h2 = entry h1" "holds h2 (last_ptr None as) vs fs" "z2 = (if vs = [] then zsl\<lparr>z_tail := last_ptr None as\<rparr> else zsl)"
    "\<And>q. q \<notin> fst ` set vs \<Longrightarrow> info h2 q = info h1 q"
    using relink_backward [OF hv xv(1) pos xv(2)] by metis
  have z2: "z_header z2 = z_header zsl" "z_levels z2 = z_levels zsl" "z_length z2 = z_length zsl" by (simp_all add: h2(4))
  have hdr: "entry h2 (z_header zsl) i = Some (fwd i (as @ vs), of_nat (gap i (as @ vs)))" if "i < z_levels zsl" for i
    using h1(3) [OF that] repD(8) [OF rep] that by (simp add: h2(2) towers_def)
  obtain m where m: "lower_level h2 (z_header zsl) (z_levels zsl) = Inr m" "1 \<le> m" "m \<le> z_levels zsl"
    "\<And>i. m \<le> i \<Longrightarrow> i < z_levels zsl \<Longrightarrow> \<exists>sp. entry h2 (z_header zsl) i = Some (None, sp)"
    by (rule lower_level_spec [OF repD(7) [OF rep], of h2 "z_header zsl"]) (use hdr in auto)
  let ?z = "z2\<lparr>z_levels := m, z_length := z_length z2 - 1\<rparr>"
  let ?h = "zslFreeNode h2 x"
  have run: "zslDeleteNode h zsl x us = Inr (h2, ?z)"
    using h1(1) n zlevel_entry [OF h1(5)] h2(1) m(1) z2 by (simp add: zslDeleteNode_def del: rbind_eq_Inr not_None_eq cong: if_cong split del: if_split)
  have ei: "entry ?h q = entry h1 q" "info ?h q = info h2 q" if "q \<noteq> x" for q
    using that h2(2) by (auto simp: fun_eq_iff entry_def info_def zslFreeNode_def)
  have nx: "fst t \<noteq> x" if "t \<in> set (towers zsl (as @ vs))" for t using that dist by (auto simp: towers_def)
  have low: "low i (as @ vs)" if "m \<le> i" "i < z_levels zsl" for i
    using m(4) [OF that] hdr [OF that(2)] by (simp add: fwd_None)
  have "1 \<le> snd t \<and> snd t \<le> m" if t: "t \<in> set (as @ vs)" for t
  proof (cases "m = z_levels zsl")
    case True
    then show ?thesis using repD(6) [OF rep, of t] t by auto
  next
    case False
    then show ?thesis using low [of m] m(3) t repD(6) [OF rep, of t] by (auto simp: low_def)
  qed
  moreover have "holds ?h None (as @ vs) (es @ fs)"
  proof -
    have "holds ?h None as es \<longleftrightarrow> holds h None as es"
      using nx dist by (intro holds_cong) (fastforce simp: ei h2(5) h1(2) towers_def)
    moreover have "holds ?h (last_ptr None as) vs fs \<longleftrightarrow> holds h2 (last_ptr None as) vs fs"
      using nx by (intro holds_cong) (simp add: ei towers_def)
    ultimately show ?thesis using hold(1) h2(3) by (simp add: holds_append [OF la])
  qed
  moreover have "linked i ?h (towers zsl (as @ vs)) []" if "i < m" for i
  proof -
    have "linked i ?h (towers zsl (as @ vs)) [] \<longleftrightarrow> linked i h1 (towers zsl (as @ vs)) []"
      by (intro linked_cong) (simp add: nx ei)
    then show ?thesis using h1(3) [of i] that m(3) by simp
  qed
  moreover have hx: "z_header zsl \<noteq> x" using dist by auto
  then have "\<exists>s b. info ?h (z_header zsl) = Some (s, None, b, ZSKIPLIST_MAXLEVEL)"
    using repD(2) [OF rep] ei(2) h2(5) [of "z_header zsl"] h1(2) dist by auto
  moreover have "\<exists>sp. entry ?h (z_header zsl) i = Some (None, sp)" if "m \<le> i" "i < ZSKIPLIST_MAXLEVEL" for i
  proof (cases "i < z_levels zsl")
    case True
    then show ?thesis using m(4) [OF that(1) True] ei(1) hx h2(2) by simp
  next
    case False
    then show ?thesis using repD(5) [OF rep, of i] that(2) ei(1) hx h1(4) [of i] by simp
  qed
  moreover have "sorted_wrt key_less (es @ fs)" using repD(12) [OF rep] by (auto simp: sorted_wrt_append)
  moreover have "z_tail ?z = last_ptr None (as @ vs)" using repD(9) [OF rep] by (auto simp: h2(4) last_ptr_def)
  moreover have "z_length ?z = of_nat (length (as @ vs))" "m \<le> ZSKIPLIST_MAXLEVEL" "length (as @ vs) < 2 ^ 32"
    using repD(8,10,11) [OF rep] m(3) by (simp_all add: z2)
  moreover have "distinct (map fst (towers zsl (as @ vs)))" using dist by (simp add: towers_def)
  moreover have "z_header ?z = z_header zsl" "z_levels ?z = m" "towers ?z ts = towers zsl ts" for ts
    by (simp_all add: z2 towers_def)
  ultimately have "zsl_rep ?h ?z (as @ vs) (es @ fs)"
    unfolding zsl_rep_def using m(2) by auto
  then show thesis using that [OF run] z2(1) m(3) by simp
qed


section \<open>Insertion, deletion and release\<close>

definition next_ptr :: "tower list \<Rightarrow> zptr option" where
  "next_ptr ts = (if ts = [] then None else Some (fst (hd ts)))"

lemma next_ptr_simps [simp]: "next_ptr [] = None" "next_ptr ((p, k) # ts) = Some p"
  by (simp_all add: next_ptr_def)

lemma fwd_next: "\<forall>t \<in> set ts. 1 \<le> snd t \<Longrightarrow> fwd 0 ts = next_ptr ts"
  by (cases ts) auto

lemma rep_split:
  assumes "zsl_rep h zsl ts (es @ fs)"
  obtains as bs where "ts = as @ bs" "length as = length es" "length bs = length fs"
  using that [of "take (length es) ts" "drop (length es) ts"] repD(13) [OF assms] by auto

lemma rep_fwd:
  assumes rep: "zsl_rep h zsl (as @ bs) es" and u: "u = fst (last (towers zsl as))"
  shows "zlevel h (Some u) 0 = Inr (next_ptr bs, of_nat (gap 0 bs))"
proof -
  obtain ss k where ss: "towers zsl as = ss @ [(u, k)]"
    using u by (metis append_butlast_last_id list.distinct(1) prod.collapse towers_def)
  have pos: "\<forall>t \<in> set (as @ bs). 1 \<le> snd t" using repD(6) [OF rep] by blast
  have "(u, k) \<in> set (towers zsl as)" by (simp add: ss)
  then have "0 < k" using pos by (force simp: towers_def ZSKIPLIST_MAXLEVEL_def)
  moreover have "links 0 (\<lambda>q. entry h q 0) (ss @ (u, k) # bs) []"
  proof -
    have "towers zsl (as @ bs) = towers zsl as @ bs" by (simp add: towers_def)
    then have "towers zsl (as @ bs) = ss @ (u, k) # bs" using ss by simp
    then show ?thesis using repD(4) [OF rep, of 0] repD(7) [OF rep] by simp
  qed
  ultimately have "entry h u 0 = Some (fwd 0 bs, of_nat (gap 0 bs))" by (simp add: linked_append)
  then show ?thesis using fwd_next [of bs] pos by (simp add: zlevel_entry)
qed

lemma rep_node:
  assumes rep: "zsl_rep h zsl (as @ (x, l) # bs) (es @ e # fs)" and "length as = length es"
  obtains n where "zderef h (Some x) = Inr n" "z_score n = fst e" "z_obj n = Some (snd e)" "z_backward n = last_ptr None as"
proof -
  have "info h x = Some (fst e, Some (snd e), last_ptr None as, l)"
    using repD(3) [OF rep] by (cases e) (simp add: holds_append [OF assms(2)])
  then show thesis using info_deref [of h x] that by blast
qed

lemma search_next:
  fixes go :: "'s::linorder zskiplistNode \<Rightarrow> 'n::len word \<Rightarrow> bool res"
  assumes rep: "zsl_rep h zsl (as @ bs) es"
    and go: "\<And>j node. j < length es \<Longrightarrow> z_score node = fst (es ! j) \<Longrightarrow> z_obj node = Some (snd (es ! j)) \<Longrightarrow>
      go node (of_nat (Suc j)) = Inr (j < length as)"
  obtains us where "zsl_search h zsl go = Some (Inr us)" "preds (towers zsl as) us (z_levels zsl)"
    "rd us 0 = Inr (fst (last (towers zsl as)), of_nat (length as))"
    "zlevel h (Some (fst (last (towers zsl as)))) 0 = Inr (next_ptr bs, of_nat (gap 0 bs))"
proof -
  obtain us where us: "zsl_search h zsl go = Some (Inr us)" "preds (towers zsl as) us (z_levels zsl)"
    by (rule zsl_search_spec [OF rep go])
  have tl: "\<forall>t \<in> set (tl (towers zsl as)). 1 \<le> snd t" using repD(6) [OF rep] by (auto simp: towers_def)
  have p: "0 < length us" "pred_at (towers zsl as) 0 (us ! 0)" using us(2) repD(7) [OF rep] by (auto simp: preds_def)
  have "rd us 0 = Inr (fst (last (towers zsl as)), of_nat (length as))"
    using pred_first [OF p(2) tl] p(1) by (cases "us ! 0") (simp add: rd_def towers_def)
  then show thesis using that us rep_fwd [OF rep refl] by blast
qed

text \<open>Where a key belongs.\<close>

definition below :: "'s::linorder \<times> u8 list \<Rightarrow> ('s \<times> u8 list) list \<Rightarrow> ('s \<times> u8 list) list" where
  "below x es = takeWhile (\<lambda>e. key_less e x) es"

definition notbelow :: "'s::linorder \<times> u8 list \<Rightarrow> ('s \<times> u8 list) list \<Rightarrow> ('s \<times> u8 list) list" where
  "notbelow x es = dropWhile (\<lambda>e. key_less e x) es"

lemma below_split: "below x es @ notbelow x es = es"
  by (simp add: below_def notbelow_def)

lemma notbelow_hd: "notbelow x es \<noteq> [] \<Longrightarrow> \<not> key_less (hd (notbelow x es)) x"
  unfolding notbelow_def by (rule hd_dropWhile)

lemma sorted_notbelow:
  assumes "sorted_wrt key_less es" and "x \<notin> set es"
  shows "sorted_wrt key_less (below x es @ x # notbelow x es)"
proof -
  have sw: "sorted_wrt key_less (below x es @ notbelow x es)" using assms(1) by (simp add: below_split)
  have "\<forall>e \<in> set (below x es). key_less e x" by (auto simp: below_def dest: set_takeWhileD)
  moreover have "\<forall>e \<in> set (notbelow x es). key_less x e"
  proof (cases "notbelow x es")
    case (Cons e fs)
    have "e \<noteq> x" using assms(2) Cons by (metis below_split in_set_conv_decomp)
    moreover have "\<not> key_less e x" using notbelow_hd [of x es] Cons by simp
    ultimately have "key_less x e" using key_less_linear by blast
    moreover have "\<forall>d \<in> set fs. key_less e d" using sw Cons by (simp add: sorted_wrt_append)
    ultimately show ?thesis using Cons key_less_trans [of x e] by auto
  qed simp
  ultimately show ?thesis using sw by (auto simp: sorted_wrt_append)
qed

lemma search_key:
  fixes h :: "'s::linorder zheap"
  assumes rep: "zsl_rep h zsl (as @ bs) es" and la: "length as = length (below (score, obj) es)"
  obtains us :: "(zptr \<times> 'n::len word) list" where "zsl_search h zsl (before_key score obj) = Some (Inr us)"
    "preds (towers zsl as) us (z_levels zsl)" "rd us 0 = Inr (fst (last (towers zsl as)), of_nat (length as))"
    "zlevel h (Some (fst (last (towers zsl as)))) 0 = Inr (next_ptr bs, of_nat (gap 0 bs))"
proof (rule search_next [OF rep])
  fix j and node :: "'s zskiplistNode"
  assume "j < length es" "z_score node = fst (es ! j)" "z_obj node = Some (snd (es ! j))"
  then show "before_key score obj node (of_nat (Suc j) :: 'n word) = Inr (j < length as)"
    using sorted_prefix [OF repD(12) [OF rep]] by (simp add: before_key_go la below_def)
qed (use that in blast)

lemma zslInsert_spec:
  assumes rep: "zsl_rep h zsl ts es" and new: "(score, obj) \<notin> set es" and x: "h x = None"
    and level: "1 \<le> level" "level \<le> ZSKIPLIST_MAXLEVEL" and len: "length es + 1 < 2 ^ 32"
  obtains h' zsl' ts' where "zslInsert h zsl score obj level x = Some (Inr (h', zsl'))"
    "zsl_rep h' zsl' ts' (below (score, obj) es @ (score, obj) # notbelow (score, obj) es)"
    "z_header zsl' = z_header zsl" "set ts' = insert (x, level) (set ts)"
proof -
  let ?k = "(score, obj)"
  have rep': "zsl_rep h zsl ts (below ?k es @ notbelow ?k es)" using rep by (simp add: below_split)
  then obtain as bs where ts: "ts = as @ bs" "length as = length (below ?k es)" "length bs = length (notbelow ?k es)"
    by (rule rep_split)
  obtain us :: "(zptr \<times> u32) list" where us: "zsl_search h zsl (before_key score obj) = Some (Inr us)"
    "preds (towers zsl as) us (z_levels zsl)"
    by (rule search_key [OF rep [unfolded ts(1)] ts(2)])
  have "length (as @ bs) + 1 < 2 ^ 32" using len repD(13) [OF rep] ts(1) by simp
  then obtain h' zsl' where "insert_node level x score obj us h zsl = Inr (h', zsl')"
    "zsl_rep h' zsl' (as @ (x, level) # bs) (below ?k es @ ?k # notbelow ?k es)" "z_header zsl' = z_header zsl"
    by (rule insert_node_spec [OF rep' [unfolded ts(1)] ts(2) us(2) level x _ sorted_notbelow [OF repD(12) [OF rep] new]])
  then show thesis using that us(1) ts(1) by (simp add: zslInsert_def)
qed

lemma sorted_distinct: "sorted_wrt key_less es \<Longrightarrow> distinct es"
  by (induction es) auto

lemma zslDelete_at:
  assumes rep: "zsl_rep h zsl ts es"
  obtains h' zsl' ts' where "zslDelete h zsl score obj = Some (Inr ((score, obj) \<in> set es, h', zsl'))"
    "zsl_rep h' zsl' ts' (remove1 (score, obj) es)" "z_header zsl' = z_header zsl" "set ts' \<subseteq> set ts"
    "(score, obj) \<in> set es \<Longrightarrow> ts' = take (length (below (score, obj) es)) ts @ drop (Suc (length (below (score, obj) es))) ts"
proof -
  let ?k = "(score, obj)"
  have rep': "zsl_rep h zsl ts (below ?k es @ notbelow ?k es)" using rep by (simp add: below_split)
  then obtain as bs where ts: "ts = as @ bs" "length as = length (below ?k es)" "length bs = length (notbelow ?k es)"
    by (rule rep_split)
  obtain us :: "(zptr \<times> u64) list" where us: "zsl_search h zsl (before_key score obj) = Some (Inr us)"
    "preds (towers zsl as) us (z_levels zsl)" "rd us 0 = Inr (fst (last (towers zsl as)), of_nat (length as))"
    "zlevel h (Some (fst (last (towers zsl as)))) 0 = Inr (next_ptr bs, of_nat (gap 0 bs))"
    by (rule search_key [OF rep [unfolded ts(1)] ts(2)])
  have nb: "?k \<notin> set (below ?k es)" by (auto simp: below_def dest: set_takeWhileD)
  show thesis
  proof (cases "notbelow ?k es")
    case Nil
    then have "?k \<notin> set es" using nb below_split [of ?k es] by simp
    moreover have "bs = []" using ts(3) Nil by simp
    ultimately show thesis using us rep
      by (intro that [of h zsl ts]) (simp_all add: zslDelete_def remove1_idem)
  next
    case (Cons e fs)
    then obtain x l vs where bs: "bs = (x, l) # vs" using ts(3) by (cases bs) auto
    have repx: "zsl_rep h zsl (as @ (x, l) # vs) (below ?k es @ e # fs)" using rep' ts(1) bs Cons by simp
    obtain n where n: "zderef h (Some x) = Inr n" "z_score n = fst e" "z_obj n = Some (snd e)"
      by (rule rep_node [OF repx ts(2)])
    show thesis
    proof (cases "e = ?k")
      case True
      have "\<And>i. i < z_levels zsl \<Longrightarrow> pred_at (towers zsl as) i (us ! i)" "z_levels zsl \<le> length us"
        using us(2) by (auto simp: preds_def)
      then obtain h' zsl' where d: "zslDeleteNode h zsl x us = Inr (h', zsl')"
        "zsl_rep (zslFreeNode h' x) zsl' (as @ vs) (below ?k es @ fs)" "z_header zsl' = z_header zsl"
        using deleteNode_spec [OF repx ts(2)] by blast
      have es: "es = below ?k es @ ?k # fs" using below_split [of ?k es] Cons True by simp
      then have "?k \<in> set es" by (metis in_set_conv_decomp)
      moreover have "remove1 ?k es = below ?k es @ fs" using nb by (subst es) (simp add: remove1_append)
      moreover have "zslDelete h zsl score obj = Some (Inr (True, zslFreeNode h' x, zsl'))"
        using d(1) us n True bs by (simp add: zslDelete_def del: rbind_eq_Inr)
      ultimately have "zslDelete h zsl score obj = Some (Inr (?k \<in> set es, zslFreeNode h' x, zsl'))"
        "zsl_rep (zslFreeNode h' x) zsl' (as @ vs) (remove1 ?k es)" using d(2) by simp_all
      moreover have "set (as @ vs) \<subseteq> set ts" "as @ vs = take (length (below ?k es)) ts @ drop (Suc (length (below ?k es))) ts"
        using ts(1,2) bs by auto
      ultimately show thesis using that d(3) by blast
    next
      case False
      have "\<not> key_less e ?k" using notbelow_hd [of ?k es] Cons by simp
      moreover have "\<forall>d \<in> set fs. key_less e d" using repD(12) [OF repx] by (simp add: sorted_wrt_append)
      ultimately have "?k \<notin> set (below ?k es @ notbelow ?k es)" using nb Cons False by auto
      then have "?k \<notin> set es" unfolding below_split .
      then show thesis using us n False bs rep
        by (intro that [of h zsl ts]) (auto simp: zslDelete_def remove1_idem split: prod.splits)
    qed
  qed
qed

lemma zslDelete_spec:
  assumes rep: "zsl_rep h zsl ts es"
  obtains h' zsl' ts' where "zslDelete h zsl score obj = Some (Inr ((score, obj) \<in> set es, h', zsl'))"
    "zsl_rep h' zsl' ts' (remove1 (score, obj) es)" "z_header zsl' = z_header zsl" "set ts' \<subseteq> set ts"
  by (rule zslDelete_at [OF rep, of score obj]) (rule that)


lemma zslCreate_rep:
  assumes "h a = None" and "zslCreate h a = (h', zsl)"
  shows "zsl_rep h' zsl [] [] \<and> dom h' = insert a (dom h)"
  using assms by (auto simp: zslCreate_def zsl_rep_def towers_def info_def entry_def zslCreateNode_def ZSKIPLIST_MAXLEVEL_def)

lemma zslFree_loop_spec:
  assumes "holds h b ts es" and "linked 0 h ts []" and "distinct (map fst ts)" and "\<forall>t \<in> set ts. 1 \<le> snd t"
  shows "zslFree_loop h (next_ptr ts) freed = Some (Inr (h |` (- fst ` set ts), freed @ map snd es))"
  using assms
proof (induction ts arbitrary: h b es freed)
  case Nil
  then have "es = []" by (cases es) auto
  then show ?case by (subst zslFree_loop.simps) (simp add: restrict_map_def)
next
  case (Cons t ts)
  obtain p k s ob es' where t: "t = (p, k)" "es = (s, ob) # es'" "info h p = Some (s, Some ob, b, k)" "holds h (Some p) ts es'"
    using Cons.prems(1) by (cases t; cases es) auto
  obtain n where n: "zderef h (Some p) = Inr n" "z_obj n = Some ob" using info_deref [OF t(3)] by blast
  have "zlevel h (Some p) 0 = Inr (next_ptr ts, of_nat (gap 0 ts))"
    using Cons.prems(2,4) t(1) fwd_next [of ts] by (simp add: zlevel_entry)
  then have step: "zslFree_loop h (next_ptr (t # ts)) freed = zslFree_loop (h(p := None)) (next_ptr ts) (freed @ [ob])"
    using n t(1) by (subst zslFree_loop.simps) simp
  have same: "info (h(p := None)) (fst u) = info h (fst u)" "entry (h(p := None)) (fst u) 0 = entry h (fst u) 0" if "u \<in> set ts" for u
    using that Cons.prems(3) t(1) by (auto simp: info_def entry_def)
  have "holds (h(p := None)) (Some p) ts es'" using t(4) holds_cong [OF same(1)] by blast
  moreover have "linked 0 (h(p := None)) ts []" using Cons.prems(2) t(1) linked_cong [OF same(2)] by simp
  ultimately have "zslFree_loop (h(p := None)) (next_ptr ts) (freed @ [ob]) =
      Some (Inr (h(p := None) |` (- fst ` set ts), (freed @ [ob]) @ map snd es'))"
    by (rule Cons.IH) (use Cons.prems(3,4) in simp_all)
  moreover have "h(p := None) |` (- fst ` set ts) = h |` (- fst ` set (t # ts))"
    by (auto simp: t(1) fun_eq_iff restrict_map_def)
  ultimately show ?case using step t(2) by simp
qed

lemma zslFree_spec:
  assumes rep: "zsl_rep h zsl ts es"
  shows "zslFree h zsl = Some (Inr (h |` (- fst ` set (towers zsl ts)), map snd es))"
proof -
  let ?h = "h(z_header zsl := None)"
  have 0: "zlevel h (Some (z_header zsl)) 0 = Inr (next_ptr ts, of_nat (gap 0 ts))"
    using rep_fwd [of h zsl "[]" ts es "z_header zsl"] rep by (simp add: towers_def)
  have same: "info ?h (fst u) = info h (fst u)" "entry ?h (fst u) 0 = entry h (fst u) 0" if "u \<in> set ts" for u
    using that repD(1) [OF rep] by (auto simp: info_def entry_def towers_def rev_image_eqI)
  have "holds ?h None ts es" using repD(3) [OF rep] holds_cong [OF same(1)] by blast
  moreover have "linked 0 ?h ts []"
    using repD(4) [OF rep, of 0] repD(7) [OF rep] linked_cong [OF same(2)] by (simp add: towers_def)
  ultimately have "zslFree_loop ?h (next_ptr ts) [] = Some (Inr (?h |` (- fst ` set ts), [] @ map snd es))"
    using repD(1,6) [OF rep] by (intro zslFree_loop_spec) (auto simp: towers_def)
  moreover have "?h |` (- fst ` set ts) = h |` (- fst ` set (towers zsl ts))"
    by (auto simp: towers_def fun_eq_iff restrict_map_def)
  ultimately show ?thesis using 0 by (simp add: zslFree_def)
qed

end
