(* ===== verification/SkipRange.thy ===== *)
theory SkipRange
  imports SkipList
begin

text \<open>
  Ranges and ranks in the skip list of sorted sets (\<open>t_zset.c\<close>): the first
  and last element of a range of scores, deletion by score and by rank, the
  rank of an element and the element at a rank.  Each search is shown to
  answer as the same question about the sorted list the skip list represents.
\<close>

section \<open>Ranges of scores\<close>

record 's zrangespec =
  zr_min :: 's
  zr_max :: 's
  zr_minex :: bool
  zr_maxex :: bool

definition zslValueGteMin :: "'s::linorder \<Rightarrow> 's zrangespec \<Rightarrow> bool" where
  "zslValueGteMin value spec = (if zr_minex spec then value > zr_min spec else value \<ge> zr_min spec)"

definition zslValueLteMax :: "'s::linorder \<Rightarrow> 's zrangespec \<Rightarrow> bool" where
  "zslValueLteMax value spec = (if zr_maxex spec then value < zr_max spec else value \<le> zr_max spec)"

text \<open>
  The searches of score ranges and of lexicographic ranges have the same
  control flow; \<open>emp\<close> is the test for ranges that are always empty, \<open>gte\<close> and
  \<open>lte\<close> are the tests of a node against the two ends.
\<close>

definition is_in_range ::
  "'s zheap \<Rightarrow> zskiplist \<Rightarrow> bool \<Rightarrow> ('s zskiplistNode \<Rightarrow> bool res) \<Rightarrow> ('s zskiplistNode \<Rightarrow> bool res) \<Rightarrow> bool res" where
  "is_in_range h zsl emp gte lte =
     (if emp then Inr False
      else if z_tail zsl = None then Inr False
      else rbind (zderef h (z_tail zsl)) (\<lambda>x. rbind (gte x) (\<lambda>b.
        if \<not> b then Inr False
        else rbind (zlevel h (Some (z_header zsl)) 0) (\<lambda>(x, _).
          if x = None then Inr False
          else rbind (zderef h x) lte))))"

definition first_in_range ::
  "'s zheap \<Rightarrow> zskiplist \<Rightarrow> bool \<Rightarrow> ('s zskiplistNode \<Rightarrow> bool res) \<Rightarrow> ('s zskiplistNode \<Rightarrow> bool res) \<Rightarrow> zptr option res option" where
  "first_in_range h zsl emp gte lte =
     tbind (Some (is_in_range h zsl emp gte lte)) (\<lambda>b.
     if \<not> b then Some (Inr None)
     else tbind (zsl_search h zsl (\<lambda>n (_ :: u64). rbind (gte n) (\<lambda>b. Inr (\<not> b)))) (\<lambda>us. Some (
       rbind (rd us 0) (\<lambda>(x, _).
       rbind (zlevel h (Some x) 0) (\<lambda>(x, _).
       if x = None then Inl AssertFailed
       else rbind (zderef h x) (\<lambda>n. rbind (lte n) (\<lambda>b. Inr (if \<not> b then None else x))))))))"

definition last_in_range ::
  "'s zheap \<Rightarrow> zskiplist \<Rightarrow> bool \<Rightarrow> ('s zskiplistNode \<Rightarrow> bool res) \<Rightarrow> ('s zskiplistNode \<Rightarrow> bool res) \<Rightarrow> zptr option res option" where
  "last_in_range h zsl emp gte lte =
     tbind (Some (is_in_range h zsl emp gte lte)) (\<lambda>b.
     if \<not> b then Some (Inr None)
     else tbind (zsl_search h zsl (\<lambda>n (_ :: u64). lte n)) (\<lambda>us. Some (
       rbind (rd us 0) (\<lambda>(x, _).
       rbind (zderef h (Some x)) (\<lambda>n. rbind (gte n) (\<lambda>b. Inr (if \<not> b then None else Some x)))))))"

definition gte_min :: "'s::linorder zrangespec \<Rightarrow> 's zskiplistNode \<Rightarrow> bool res" where
  "gte_min rng n = Inr (zslValueGteMin (z_score n) rng)"

definition lte_max :: "'s::linorder zrangespec \<Rightarrow> 's zskiplistNode \<Rightarrow> bool res" where
  "lte_max rng n = Inr (zslValueLteMax (z_score n) rng)"

definition empty_range :: "'s::linorder zrangespec \<Rightarrow> bool" where
  "empty_range rng \<longleftrightarrow>
     zr_min rng > zr_max rng \<or> zr_min rng = zr_max rng \<and> (zr_minex rng \<or> zr_maxex rng)"

definition zslIsInRange :: "'s::linorder zheap \<Rightarrow> zskiplist \<Rightarrow> 's zrangespec \<Rightarrow> bool res" where
  "zslIsInRange h zsl rng = is_in_range h zsl (empty_range rng) (gte_min rng) (lte_max rng)"

definition zslFirstInRange :: "'s::linorder zheap \<Rightarrow> zskiplist \<Rightarrow> 's zrangespec \<Rightarrow> zptr option res option" where
  "zslFirstInRange h zsl rng = first_in_range h zsl (empty_range rng) (gte_min rng) (lte_max rng)"

definition zslLastInRange :: "'s::linorder zheap \<Rightarrow> zskiplist \<Rightarrow> 's zrangespec \<Rightarrow> zptr option res option" where
  "zslLastInRange h zsl rng = last_in_range h zsl (empty_range rng) (gte_min rng) (lte_max rng)"

section \<open>Deletion of ranges\<close>

text \<open>
  The loop of the three functions: \<open>go\<close> is its condition, on the node and on
  \<open>traversed\<close>; \<open>dictDelete\<close> is the removal of an object from the hash table of
  the sorted set, whose state is \<open>d\<close>.
\<close>

definition delete_first ::
  "('s zskiplistNode \<Rightarrow> u64 \<Rightarrow> bool res) \<Rightarrow> (zptr \<times> u64) list \<Rightarrow> zptr \<Rightarrow> u64 \<Rightarrow> 's zheap \<Rightarrow> zskiplist \<Rightarrow>
   (zptr option \<times> u8 list \<times> 's zheap \<times> zskiplist) option res" where
  "delete_first go us a traversed h zsl =
     rbind (zderef h (Some a)) (\<lambda>n.
     rbind (go n traversed) (\<lambda>b.
     if \<not> b then Inr None
     else
       rbind (zlevel h (Some a) 0) (\<lambda>(next, _).
       rbind (zslDeleteNode h zsl a us) (\<lambda>(h, zsl).
       case z_obj n of
         None \<Rightarrow> Inl BadPointer
       | Some ob \<Rightarrow> Inr (Some (next, ob, zslFreeNode h a, zsl))))))"

partial_function (option) delete_while ::
  "(u8 list \<Rightarrow> 'd \<Rightarrow> 'd) \<Rightarrow> ('s zskiplistNode \<Rightarrow> u64 \<Rightarrow> bool res) \<Rightarrow> (zptr \<times> u64) list \<Rightarrow> zptr option \<Rightarrow> u64 \<Rightarrow> u64 \<Rightarrow>
   'd \<Rightarrow> 's zheap \<Rightarrow> zskiplist \<Rightarrow> (u64 \<times> 'd \<times> 's zheap \<times> zskiplist) res option" where
  "delete_while dictDelete go us x traversed removed d h zsl =
     (case x of
        None \<Rightarrow> Some (Inr (removed, d, h, zsl))
      | Some a \<Rightarrow>
          (case delete_first go us a traversed h zsl of
             Inl e \<Rightarrow> Some (Inl e)
           | Inr None \<Rightarrow> Some (Inr (removed, d, h, zsl))
           | Inr (Some (next, ob, h, zsl)) \<Rightarrow>
               delete_while dictDelete go us next (traversed + 1) (removed + 1) (dictDelete ob d) h zsl))"

definition zslDeleteRangeByScore ::
  "(u8 list \<Rightarrow> 'd \<Rightarrow> 'd) \<Rightarrow> 's::linorder zheap \<Rightarrow> zskiplist \<Rightarrow> 's zrangespec \<Rightarrow> 'd \<Rightarrow>
   (u64 \<times> 'd \<times> 's zheap \<times> zskiplist) res option" where
  "zslDeleteRangeByScore dictDelete h zsl rng d =
     tbind (zsl_search h zsl (\<lambda>n (_ :: u64).
       Inr (if zr_minex rng then z_score n \<le> zr_min rng else z_score n < zr_min rng))) (\<lambda>us.
     tbind (Some (rd us 0)) (\<lambda>(x, _).
     tbind (Some (zlevel h (Some x) 0)) (\<lambda>(x, _).
     delete_while dictDelete
       (\<lambda>n _. Inr (if zr_maxex rng then z_score n < zr_max rng else z_score n \<le> zr_max rng))
       us x 0 0 d h zsl)))"

text \<open>\<open>start\<close> and \<open>end\<close> are 1-based and inclusive.\<close>

definition zslDeleteRangeByRank ::
  "(u8 list \<Rightarrow> 'd \<Rightarrow> 'd) \<Rightarrow> 's zheap \<Rightarrow> zskiplist \<Rightarrow> u32 \<Rightarrow> u32 \<Rightarrow> 'd \<Rightarrow>
   (u64 \<times> 'd \<times> 's zheap \<times> zskiplist) res option" where
  "zslDeleteRangeByRank dictDelete h zsl start stop d =
     tbind (zsl_search h zsl (\<lambda>n traversed. Inr (traversed < ucast start))) (\<lambda>us.
     tbind (Some (rd us 0)) (\<lambda>(x, traversed).
     tbind (Some (zlevel h (Some x) 0)) (\<lambda>(x, _).
     delete_while dictDelete (\<lambda>n traversed. Inr (traversed \<le> ucast stop)) us x (traversed + 1) 0 d h zsl)))"

section \<open>Ranks\<close>

text \<open>The loop over the levels that stops at the first node, header included, that passes a test.\<close>

fun descend_until ::
  "nat \<Rightarrow> 's zheap \<Rightarrow> ('s zskiplistNode \<Rightarrow> u64 \<Rightarrow> bool res) \<Rightarrow> ('s zskiplistNode \<Rightarrow> u64 \<Rightarrow> bool) \<Rightarrow> zptr \<Rightarrow> u64 \<Rightarrow>
   (zptr \<times> u64) option res option" where
  "descend_until 0 h go stop x rank = Some (Inr None)"
| "descend_until (Suc i) h go stop x rank =
     tbind (zsl_walk h go i x rank) (\<lambda>(x, rank).
     tbind (Some (zderef h (Some x))) (\<lambda>n.
     if stop n rank then Some (Inr (Some (x, rank))) else descend_until i h go stop x rank))"

definition upto_key :: "'s::linorder \<Rightarrow> u8 list \<Rightarrow> 's zskiplistNode \<Rightarrow> u64 \<Rightarrow> bool res" where
  "upto_key score obj n rank =
     (if z_score n < score then Inr True
      else if z_score n = score then rbind (zcompare n obj) (\<lambda>cmp. Inr (cmp \<le> 0))
      else Inr False)"

definition zslGetRank :: "'s::linorder zheap \<Rightarrow> zskiplist \<Rightarrow> 's \<Rightarrow> u8 list \<Rightarrow> u64 res option" where
  "zslGetRank h zsl score obj =
     tbind (descend_until (z_levels zsl) h (upto_key score obj) (\<lambda>n _. z_obj n = Some obj) (z_header zsl) 0) (\<lambda>r.
     Some (Inr (case r of None \<Rightarrow> 0 | Some (x, rank) \<Rightarrow> rank)))"

definition zslGetElementByRank :: "'s zheap \<Rightarrow> zskiplist \<Rightarrow> u64 \<Rightarrow> zptr option res option" where
  "zslGetElementByRank h zsl rank =
     tbind (descend_until (z_levels zsl) h (\<lambda>n traversed. Inr (traversed \<le> rank)) (\<lambda>n traversed. traversed = rank)
       (z_header zsl) 0) (\<lambda>r. Some (Inr (map_option fst r)))"

section \<open>Searches of ranges\<close>

lemma mono_prefix:
  assumes "sorted_wrt (\<lambda>d e. Q e \<longrightarrow> Q d) es" and "j < length es"
  shows "Q (es ! j) \<longleftrightarrow> j < length (takeWhile Q es)"
proof
  assume Q: "Q (es ! j)"
  then have "Q (es ! i)" if "i \<le> j" for i
    using sorted_wrt_nth_less [OF assms(1), of i j] that assms(2) by (cases "i = j") auto
  then show "j < length (takeWhile Q es)"
    using assms(2) by (metis le_neq_implies_less linorder_not_less nth_length_takeWhile length_takeWhile_le)
next
  assume "j < length (takeWhile Q es)"
  then show "Q (es ! j)" by (metis nth_mem set_takeWhileD takeWhile_nth)
qed

lemma mono_drop:
  assumes "sorted_wrt (\<lambda>d e. Q e \<longrightarrow> Q d) es" and "e \<in> set (dropWhile Q es)"
  shows "\<not> Q e"
proof
  assume Q: "Q e"
  obtain c cs where d: "dropWhile Q es = c # cs" using assms(2) by (cases "dropWhile Q es") auto
  have "sorted_wrt (\<lambda>d e. Q e \<longrightarrow> Q d) (takeWhile Q es @ c # cs)" using assms(1) d by (metis takeWhile_dropWhile_id)
  then have "Q c" using Q assms(2) d by (auto simp: sorted_wrt_append)
  moreover have "\<not> Q c" using hd_dropWhile [of Q es] d by simp
  ultimately show False by simp
qed

text \<open>Reading the element a pointer refers to.\<close>

definition node_key :: "'s zheap \<Rightarrow> zptr option \<Rightarrow> ('s \<times> u8 list) option" where
  "node_key h p = (case p of None \<Rightarrow> None | Some a \<Rightarrow>
     (case h a of None \<Rightarrow> None | Some n \<Rightarrow> map_option (\<lambda>ob. (z_score n, ob)) (z_obj n)))"

lemma node_key_deref: "zderef h (Some x) = Inr n \<Longrightarrow> z_score n = fst e \<Longrightarrow> z_obj n = Some (snd e) \<Longrightarrow> node_key h (Some x) = Some e"
  by (auto simp: node_key_def zderef_def split: option.splits)

lemma rep_nth:
  assumes "zsl_rep h zsl ts es" and "j < length es"
  shows "\<exists>n. zderef h (Some (fst (ts ! j))) = Inr n \<and> z_score n = fst (es ! j) \<and> z_obj n = Some (snd (es ! j))"
  using holds_nth [OF repD(3) [OF assms(1)], of j] repD(13) [OF assms(1)] assms(2) info_deref by (metis (no_types, lifting))

lemma search_prefix:
  fixes h :: "'s::linorder zheap" and Q :: "'s \<times> u8 list \<Rightarrow> bool"
  assumes rep: "zsl_rep h zsl ts es" and mono: "sorted_wrt (\<lambda>d e. Q e \<longrightarrow> Q d) es"
    and go: "\<And>n e r. e \<in> set es \<Longrightarrow> z_score n = fst e \<Longrightarrow> z_obj n = Some (snd e) \<Longrightarrow> go n r = Inr (Q e)"
  obtains as bs and us :: "(zptr \<times> 'n::len word) list" where "ts = as @ bs" "length as = length (takeWhile Q es)"
    "zsl_search h zsl go = Some (Inr us)" "preds (towers zsl as) us (z_levels zsl)"
    "rd us 0 = Inr (fst (last (towers zsl as)), of_nat (length as))"
    "zlevel h (Some (fst (last (towers zsl as)))) 0 = Inr (next_ptr bs, of_nat (gap 0 bs))"
proof -
  have "zsl_rep h zsl ts (takeWhile Q es @ dropWhile Q es)" using rep by simp
  then obtain as bs where ts: "ts = as @ bs" "length as = length (takeWhile Q es)" by (rule rep_split)
  have "go n (of_nat (Suc j)) = Inr (j < length as)"
    if "j < length es" "z_score n = fst (es ! j)" "z_obj n = Some (snd (es ! j))" for j n
    using go [of "es ! j" n] that mono_prefix [OF mono that(1)] ts(2) by simp
  then show thesis using search_next [OF rep [unfolded ts(1)], of go] that [OF ts] by blast
qed

lemma is_in_range_spec:
  assumes rep: "zsl_rep h zsl ts es"
    and gte: "\<And>n e. e \<in> set es \<Longrightarrow> z_score n = fst e \<Longrightarrow> z_obj n = Some (snd e) \<Longrightarrow> gte n = Inr (G e)"
    and lte: "\<And>n e. e \<in> set es \<Longrightarrow> z_score n = fst e \<Longrightarrow> z_obj n = Some (snd e) \<Longrightarrow> lte n = Inr (L e)"
  shows "is_in_range h zsl emp gte lte = Inr (\<not> emp \<and> es \<noteq> [] \<and> G (last es) \<and> L (hd es))"
proof (cases "es = []")
  case True
  then have "ts = []" using repD(13) [OF rep] by simp
  then have "z_tail zsl = None" using repD(9) [OF rep] by simp
  then show ?thesis using True by (simp add: is_in_range_def)
next
  case False
  then have len: "length ts = length es" "ts \<noteq> []" using repD(13) [OF rep] by auto
  obtain n where n: "zderef h (Some (fst (hd ts))) = Inr n" "lte n = Inr (L (hd es))"
    using rep_nth [OF rep, of 0] lte [of "hd es"] False len by (auto simp: hd_conv_nth)
  obtain m where m: "zderef h (Some (fst (last ts))) = Inr m" "gte m = Inr (G (last es))"
    using rep_nth [OF rep, of "length es - 1"] gte [of "last es"] False len by (auto simp: last_conv_nth)
  have "z_tail zsl = Some (fst (last ts))" using repD(9) [OF rep] len by (simp add: last_ptr_def)
  moreover have "zlevel h (Some (z_header zsl)) 0 = Inr (Some (fst (hd ts)), of_nat (gap 0 ts))"
    using rep_fwd [of h zsl "[]" ts es "z_header zsl"] rep len by (simp add: towers_def next_ptr_def)
  ultimately show ?thesis using n m False by (simp add: is_in_range_def)
qed

lemma out_of_range:
  assumes up: "sorted_wrt (\<lambda>d e. G d \<longrightarrow> G e) es" and down: "sorted_wrt (\<lambda>d e. L e \<longrightarrow> L d) es"
    and out: "\<not> (\<not> emp \<and> es \<noteq> [] \<and> G (last es) \<and> L (hd es))"
  shows "filter (\<lambda>e. \<not> emp \<and> G e \<and> L e) es = []"
proof (rule ccontr)
  assume "filter (\<lambda>e. \<not> emp \<and> G e \<and> L e) es \<noteq> []"
  then obtain e as bs where e: "es = as @ e # bs" "\<not> emp" "G e" "L e"
    by (metis (mono_tags, lifting) filter_False split_list)
  have "G (last es)" using up e by (cases bs rule: rev_cases) (auto simp: sorted_wrt_append)
  moreover have "L (hd es)" using down e by (cases as) (auto simp: sorted_wrt_append)
  ultimately show False using out e by simp
qed

lemma first_in_range_at:
  fixes h :: "'s::linorder zheap"
  assumes rep: "zsl_rep h zsl ts es"
    and gte: "\<And>n e. e \<in> set es \<Longrightarrow> z_score n = fst e \<Longrightarrow> z_obj n = Some (snd e) \<Longrightarrow> gte n = Inr (G e)"
    and lte: "\<And>n e. e \<in> set es \<Longrightarrow> z_score n = fst e \<Longrightarrow> z_obj n = Some (snd e) \<Longrightarrow> lte n = Inr (L e)"
    and up: "sorted_wrt (\<lambda>d e. G d \<longrightarrow> G e) es" and down: "sorted_wrt (\<lambda>d e. L e \<longrightarrow> L d) es"
  obtains p where "first_in_range h zsl emp gte lte = Some (Inr p)" "p = None \<or> node_key h p \<noteq> None"
    "node_key h p = (case filter (\<lambda>e. \<not> emp \<and> G e \<and> L e) es of [] \<Rightarrow> None | e # _ \<Rightarrow> Some e)"
    "p = None \<or> (\<exists>as k bs. ts = as @ (the p, k) # bs \<and> length as = length (takeWhile (\<lambda>e. \<not> G e) es))"
proof -
  note rng = is_in_range_spec [OF rep gte lte, where emp = emp]
  have up': "sorted_wrt (\<lambda>d e. \<not> G e \<longrightarrow> \<not> G d) es" using up by (rule sorted_wrt_mono_rel [rotated]) auto
  show thesis
  proof (cases "\<not> emp \<and> es \<noteq> [] \<and> G (last es) \<and> L (hd es)")
    case False
    have "filter (\<lambda>e. \<not> emp \<and> G e \<and> L e) es = []" by (rule out_of_range [OF up down False])
    then show thesis using that [of None] rng False by (simp add: first_in_range_def node_key_def)
  next
    case True
    let ?Q = "\<lambda>e. \<not> G e"
    obtain as bs and us :: "(zptr \<times> u64) list" where s: "ts = as @ bs" "length as = length (takeWhile ?Q es)"
      "zsl_search h zsl (\<lambda>n _. rbind (gte n) (\<lambda>b. Inr (\<not> b))) = Some (Inr us)"
      "rd us 0 = Inr (fst (last (towers zsl as)), of_nat (length as))"
      "zlevel h (Some (fst (last (towers zsl as)))) 0 = Inr (next_ptr bs, of_nat (gap 0 bs))"
      by (rule search_prefix [OF rep up', where go = "\<lambda>n _. rbind (gte n) (\<lambda>b. Inr (\<not> b))"]) (use gte in auto)
    have "dropWhile ?Q es \<noteq> []" using True by (metis dropWhile_eq_Nil_conv last_in_set)
    then obtain e fs where e: "dropWhile ?Q es = e # fs" by (cases "dropWhile ?Q es") auto
    have es: "es = takeWhile ?Q es @ e # fs" using e by (metis takeWhile_dropWhile_id)
    have "length bs = length (e # fs)" using repD(13) [OF rep] s(1,2) es by (metis add_left_cancel length_append)
    then obtain x k bs' where bs: "bs = (x, k) # bs'" by (cases bs) auto
    obtain n where n: "zderef h (Some x) = Inr n" "z_score n = fst e" "z_obj n = Some (snd e)"
      using rep_node [of h zsl as x k bs' "takeWhile ?Q es" e fs] rep s(1,2) bs es by metis
    have G: "G e" using hd_dropWhile [of ?Q es] e by simp
    have lt: "lte n = Inr (L e)" using lte [of e n] n es by (metis in_set_conv_decomp)
    have pre: "filter (\<lambda>e. \<not> emp \<and> G e \<and> L e) (takeWhile ?Q es) = []" by (auto simp: filter_empty_conv dest: set_takeWhileD)
    have run: "first_in_range h zsl emp gte lte = Some (Inr (if L e then Some x else None))"
      using rng True s(3-5) bs n(1) lt by (simp add: first_in_range_def)
    show thesis
    proof (cases "L e")
      case L: True
      have "filter (\<lambda>e. \<not> emp \<and> G e \<and> L e) es = e # filter (\<lambda>e. \<not> emp \<and> G e \<and> L e) fs"
        using pre L G True by (subst es) simp
      then show thesis using that [OF run] L node_key_deref [OF n] s(1,2) bs by auto
    next
      case L: False
      have "sorted_wrt (\<lambda>d e. L e \<longrightarrow> L d) (takeWhile ?Q es @ e # fs)" using down es by simp
      then have "\<forall>d \<in> set fs. \<not> L d" using L by (auto simp: sorted_wrt_append)
      then have "filter (\<lambda>e. \<not> emp \<and> G e \<and> L e) es = []" using pre L by (subst es) (simp add: filter_empty_conv)
      then show thesis using that [OF run] L by (simp add: node_key_def)
    qed
  qed
qed

lemma first_in_range_spec:
  fixes h :: "'s::linorder zheap"
  assumes rep: "zsl_rep h zsl ts es"
    and gte: "\<And>n e. e \<in> set es \<Longrightarrow> z_score n = fst e \<Longrightarrow> z_obj n = Some (snd e) \<Longrightarrow> gte n = Inr (G e)"
    and lte: "\<And>n e. e \<in> set es \<Longrightarrow> z_score n = fst e \<Longrightarrow> z_obj n = Some (snd e) \<Longrightarrow> lte n = Inr (L e)"
    and up: "sorted_wrt (\<lambda>d e. G d \<longrightarrow> G e) es" and down: "sorted_wrt (\<lambda>d e. L e \<longrightarrow> L d) es"
  obtains p where "first_in_range h zsl emp gte lte = Some (Inr p)" "p = None \<or> node_key h p \<noteq> None"
    "node_key h p = (case filter (\<lambda>e. \<not> emp \<and> G e \<and> L e) es of [] \<Rightarrow> None | e # _ \<Rightarrow> Some e)"
  by (rule first_in_range_at [OF rep gte lte up down, where emp = emp]) (assumption | rule that)+

lemma last_in_range_spec:
  fixes h :: "'s::linorder zheap"
  assumes rep: "zsl_rep h zsl ts es"
    and gte: "\<And>n e. e \<in> set es \<Longrightarrow> z_score n = fst e \<Longrightarrow> z_obj n = Some (snd e) \<Longrightarrow> gte n = Inr (G e)"
    and lte: "\<And>n e. e \<in> set es \<Longrightarrow> z_score n = fst e \<Longrightarrow> z_obj n = Some (snd e) \<Longrightarrow> lte n = Inr (L e)"
    and up: "sorted_wrt (\<lambda>d e. G d \<longrightarrow> G e) es" and down: "sorted_wrt (\<lambda>d e. L e \<longrightarrow> L d) es"
  obtains p where "last_in_range h zsl emp gte lte = Some (Inr p)" "p = None \<or> node_key h p \<noteq> None"
    "node_key h p = (case rev (filter (\<lambda>e. \<not> emp \<and> G e \<and> L e) es) of [] \<Rightarrow> None | e # _ \<Rightarrow> Some e)"
proof -
  note rng = is_in_range_spec [OF rep gte lte, where emp = emp]
  show thesis
  proof (cases "\<not> emp \<and> es \<noteq> [] \<and> G (last es) \<and> L (hd es)")
    case False
    have "filter (\<lambda>e. \<not> emp \<and> G e \<and> L e) es = []" by (rule out_of_range [OF up down False])
    then show thesis using that [of None] rng False by (simp add: last_in_range_def node_key_def)
  next
    case True
    obtain as bs and us :: "(zptr \<times> u64) list" where s: "ts = as @ bs" "length as = length (takeWhile L es)"
      "zsl_search h zsl (\<lambda>n _. lte n) = Some (Inr us)"
      "rd us 0 = Inr (fst (last (towers zsl as)), of_nat (length as))"
      by (rule search_prefix [OF rep down, where go = "\<lambda>n _. lte n"]) (use lte in auto)
    let ?j = "length (takeWhile L es) - 1"
    have tw: "takeWhile L es \<noteq> []" using True by (cases es) auto
    then have j': "?j < length (takeWhile L es)" by simp
    then have j: "?j < length es" "as \<noteq> []" "takeWhile L es ! ?j = es ! ?j"
      using order.strict_trans2 [OF j' length_takeWhile_le] s(2) tw takeWhile_nth [OF j'] by auto
    define e where "e = es ! ?j"
    have x: "fst (last (towers zsl as)) = fst (ts ! ?j)" using s(1,2) j(2) j' by (simp add: towers_def last_conv_nth nth_append del: One_nat_def)
    obtain n where n: "zderef h (Some (fst (ts ! ?j))) = Inr n" "z_score n = fst e" "z_obj n = Some (snd e)"
      using rep_nth [OF rep j(1)] by (auto simp: e_def)
    have te: "takeWhile L es = butlast (takeWhile L es) @ [e]"
      using tw j(3) by (metis append_butlast_last_id e_def last_conv_nth)
    have es: "es = butlast (takeWhile L es) @ e # dropWhile L es"
      using te by (metis append.assoc append_Cons append_Nil takeWhile_dropWhile_id)
    have L: "L e" using nth_mem [OF j'] j(3) set_takeWhileD [of e L es] by (simp add: e_def)
    have gt: "gte n = Inr (G e)" by (rule gte [OF _ n(2,3)]) (use nth_mem [OF j(1)] e_def in simp)
    have post: "filter (\<lambda>e. \<not> emp \<and> G e \<and> L e) (dropWhile L es) = []"
      unfolding filter_empty_conv using mono_drop [OF down] by blast
    have fl: "filter P es = filter P (butlast (takeWhile L es)) @ filter P (e # dropWhile L es)" for P
      by (subst (1) es) (rule filter_append)
    have run: "last_in_range h zsl emp gte lte = Some (Inr (if G e then Some (fst (ts ! ?j)) else None))"
      using rng True s(3,4) x n(1) gt by (simp add: last_in_range_def)
    show thesis
    proof (cases "G e")
      case G: True
      have "rev (filter (\<lambda>e. \<not> emp \<and> G e \<and> L e) es) = e # rev (filter (\<lambda>e. \<not> emp \<and> G e \<and> L e) (butlast (takeWhile L es)))"
        using post L G True unfolding fl by simp
      then show thesis using that [OF run] G node_key_deref [OF n] by simp
    next
      case G: False
      have "sorted_wrt (\<lambda>d e. G d \<longrightarrow> G e) (butlast (takeWhile L es) @ e # dropWhile L es)" using up es by simp
      then have "\<forall>d \<in> set (butlast (takeWhile L es)). \<not> G d" using G by (auto simp: sorted_wrt_append)
      then have "filter (\<lambda>e. \<not> emp \<and> G e \<and> L e) es = []" using post G unfolding fl by (simp add: filter_empty_conv)
      then show thesis using that [OF run] G by (simp add: node_key_def)
    qed
  qed
qed

section \<open>Deletion of ranges\<close>

lemma delete_first_stop:
  "zderef h (Some a) = Inr n \<Longrightarrow> go n traversed = Inr False \<Longrightarrow> delete_first go us a traversed h zsl = Inr None"
  by (simp add: delete_first_def)

lemma delete_first_step:
  assumes rep: "zsl_rep h zsl (as @ (a, k) # bs) (es @ e # fs)" and la: "length as = length es"
    and us: "\<And>i. i < z_levels zsl \<Longrightarrow> pred_at (towers zsl as) i (us ! i)" and len: "z_levels zsl \<le> length us"
    and go: "\<And>n. z_score n = fst e \<Longrightarrow> z_obj n = Some (snd e) \<Longrightarrow> go n traversed = Inr True"
  obtains h' zsl' where "delete_first go us a traversed h zsl = Inr (Some (next_ptr bs, snd e, h', zsl'))"
    "zsl_rep h' zsl' (as @ bs) (es @ fs)" "z_header zsl' = z_header zsl" "z_levels zsl' \<le> z_levels zsl"
proof -
  obtain n where n: "zderef h (Some a) = Inr n" "z_score n = fst e" "z_obj n = Some (snd e)"
    by (rule rep_node [OF rep la])
  obtain h1 z1 where d: "zslDeleteNode h zsl a us = Inr (h1, z1)" "zsl_rep (zslFreeNode h1 a) z1 (as @ bs) (es @ fs)"
    "z_header z1 = z_header zsl" "z_levels z1 \<le> z_levels zsl"
    by (rule deleteNode_spec [OF rep la us len])
  have "zlevel h (Some a) 0 = Inr (next_ptr bs, of_nat (gap 0 bs))"
    using rep_fwd [of h zsl "as @ [(a, k)]" bs _ a] rep by (simp add: towers_def)
  then show thesis using that d n go [OF n(2,3)] by (simp add: delete_first_def)
qed

text \<open>The loop deletes the elements that pass its condition, up to the first that does not.\<close>

lemma delete_while_spec:
  assumes "zsl_rep h zsl (as @ cs @ bs) (es @ ds @ fs)" and "length as = length es" and "length cs = length ds"
    and "\<And>i. i < z_levels zsl \<Longrightarrow> pred_at (towers zsl as) i (us ! i)" and "z_levels zsl \<le> length us"
    and "\<And>j n. j < length ds \<Longrightarrow> z_score n = fst (ds ! j) \<Longrightarrow> z_obj n = Some (snd (ds ! j)) \<Longrightarrow> go n (t + of_nat j) = Inr True"
    and "\<And>n f. fs \<noteq> [] \<Longrightarrow> z_score n = fst (hd fs) \<Longrightarrow> go n (t + of_nat (length ds)) = Inr False \<or> z_obj n \<noteq> Some (snd (hd fs))"
  shows "\<exists>h' zsl'. delete_while dd go us (next_ptr (cs @ bs)) t r d h zsl =
      Some (Inr (r + of_nat (length ds), fold dd (map snd ds) d, h', zsl')) \<and>
    zsl_rep h' zsl' (as @ bs) (es @ fs) \<and> z_header zsl' = z_header zsl"
  using assms
proof (induction ds arbitrary: cs t r d h zsl)
  case Nil
  have cs: "cs = []" using Nil.prems(3) by simp
  show ?case
  proof (cases bs)
    case Nil2: Nil
    then show ?thesis using Nil.prems(1) cs by (subst delete_while.simps) simp
  next
    case (Cons b bs')
    obtain a k where b: "b = (a, k)" by (cases b)
    have "length bs = length fs" using repD(13) [OF Nil.prems(1)] Nil.prems(2) cs by simp
    then obtain f fs' where fs: "fs = f # fs'" using Cons by (cases fs) auto
    have rep: "zsl_rep h zsl (as @ (a, k) # bs') (es @ f # fs')" using Nil.prems(1) cs Cons b fs by simp
    obtain n where n: "zderef h (Some a) = Inr n" "z_score n = fst f" "z_obj n = Some (snd f)"
      by (rule rep_node [OF rep Nil.prems(2)])
    have "go n t = Inr False" using Nil.prems(7) [of n] n fs by simp
    then have "delete_first go us a t h zsl = Inr None" by (rule delete_first_stop [OF n(1)])
    then show ?thesis using Nil.prems(1) cs Cons b by (subst delete_while.simps) simp
  qed
next
  case (Cons e ds)
  obtain a k cs' where cs: "cs = (a, k) # cs'" using Cons.prems(3) by (cases cs) auto
  have rep: "zsl_rep h zsl (as @ (a, k) # (cs' @ bs)) (es @ e # (ds @ fs))" using Cons.prems(1) cs by simp
  have go0: "go n t = Inr True" if "z_score n = fst e" "z_obj n = Some (snd e)" for n
    using Cons.prems(6) [of 0 n] that by simp
  obtain h1 z1 where s: "delete_first go us a t h zsl = Inr (Some (next_ptr (cs' @ bs), snd e, h1, z1))"
    "zsl_rep h1 z1 (as @ cs' @ bs) (es @ ds @ fs)" "z_header z1 = z_header zsl" "z_levels z1 \<le> z_levels zsl"
    by (rule delete_first_step [where go = go and traversed = t, OF rep Cons.prems(2,4,5) go0])
  have p: "pred_at (towers z1 as) i (us ! i)" if "i < z_levels z1" for i
    using Cons.prems(4) [of i] that s(3,4) by (simp add: towers_def)
  have st: "t + 1 + of_nat j = t + of_nat (Suc j)" for j by (simp add: algebra_simps)
  have "\<exists>h' zsl'. delete_while dd go us (next_ptr (cs' @ bs)) (t + 1) (r + 1) (dd (snd e) d) h1 z1 =
      Some (Inr (r + 1 + of_nat (length ds), fold dd (map snd ds) (dd (snd e) d), h', zsl')) \<and>
    zsl_rep h' zsl' (as @ bs) (es @ fs) \<and> z_header zsl' = z_header z1"
  proof (rule Cons.IH [OF s(2) Cons.prems(2) _ p])
    show "length cs' = length ds" using Cons.prems(3) cs by simp
    show "z_levels z1 \<le> length us" using Cons.prems(5) s(4) by simp
    show "go n (t + 1 + of_nat j) = Inr True" if "j < length ds" "z_score n = fst (ds ! j)" "z_obj n = Some (snd (ds ! j))" for j n
      unfolding st using Cons.prems(6) [of "Suc j" n] that by simp
    show "go n (t + 1 + of_nat (length ds)) = Inr False \<or> z_obj n \<noteq> Some (snd (hd fs))" if "fs \<noteq> []" "z_score n = fst (hd fs)" for n f
      unfolding st using Cons.prems(7) [of n] that by simp
  qed
  moreover have "r + 1 + of_nat (length ds) = r + of_nat (length (e # ds))" by simp
  ultimately show ?case using s(1,3) cs
    by (subst delete_while.simps) (auto simp del: of_nat_Suc)
qed

text \<open>Deletion of the elements between two monotone conditions.\<close>

lemma mono_between:
  assumes up: "sorted_wrt (\<lambda>d e. Q e \<longrightarrow> Q d) es" and down: "sorted_wrt (\<lambda>d e. L e \<longrightarrow> L d) es"
  shows "takeWhile L (dropWhile Q es) = filter (\<lambda>e. \<not> Q e \<and> L e) es"
    and "takeWhile Q es @ dropWhile L (dropWhile Q es) = filter (\<lambda>e. \<not> (\<not> Q e \<and> L e)) es"
proof -
  let ?A = "takeWhile Q es" and ?R = "dropWhile Q es"
  let ?D = "takeWhile L ?R" and ?F = "dropWhile L ?R"
  have es: "filter P es = filter P ?A @ filter P ?D @ filter P ?F" for P by (metis filter_append takeWhile_dropWhile_id)
  have dR: "sorted_wrt (\<lambda>d e. L e \<longrightarrow> L d) ?R" using down by (metis sorted_wrt_append takeWhile_dropWhile_id)
  have F: "\<not> L e" if "e \<in> set ?F" for e by (rule mono_drop [OF dR that])
  have D: "\<not> Q e \<and> L e" if "e \<in> set ?D" for e using mono_drop [OF up] set_takeWhileD [OF that] by blast
  have A: "Q e" if "e \<in> set ?A" for e using set_takeWhileD [OF that] by blast
  have "filter (\<lambda>e. \<not> Q e \<and> L e) ?A = []" "filter (\<lambda>e. \<not> Q e \<and> L e) ?D = ?D" "filter (\<lambda>e. \<not> Q e \<and> L e) ?F = []"
    unfolding filter_empty_conv filter_id_conv using A D F by blast+
  then show "?D = filter (\<lambda>e. \<not> Q e \<and> L e) es" unfolding es by simp
  have "filter (\<lambda>e. \<not> (\<not> Q e \<and> L e)) ?A = ?A" "filter (\<lambda>e. \<not> (\<not> Q e \<and> L e)) ?D = []" "filter (\<lambda>e. \<not> (\<not> Q e \<and> L e)) ?F = ?F"
    unfolding filter_empty_conv filter_id_conv using A D F by blast+
  then show "?A @ ?F = filter (\<lambda>e. \<not> (\<not> Q e \<and> L e)) es" unfolding es by simp
qed

lemma delete_between:
  fixes h :: "'s::linorder zheap"
  assumes rep: "zsl_rep h zsl ts es" and up: "sorted_wrt (\<lambda>d e. Q e \<longrightarrow> Q d) es" and down: "sorted_wrt (\<lambda>d e. L e \<longrightarrow> L d) es"
    and skip: "\<And>n e r. e \<in> set es \<Longrightarrow> z_score n = fst e \<Longrightarrow> z_obj n = Some (snd e) \<Longrightarrow> skip n r = Inr (Q e)"
    and go: "\<And>n e r. e \<in> set es \<Longrightarrow> z_score n = fst e \<Longrightarrow> z_obj n = Some (snd e) \<Longrightarrow> go n r = Inr (L e)"
  defines "D \<equiv> filter (\<lambda>e. \<not> Q e \<and> L e) es"
  obtains h' zsl' ts' where
    "tbind (zsl_search h zsl skip) (\<lambda>us. tbind (Some (rd us 0)) (\<lambda>(x, _). tbind (Some (zlevel h (Some x) 0)) (\<lambda>(x, _).
       delete_while dd go us x 0 0 d h zsl))) = Some (Inr (of_nat (length D), fold dd (map snd D) d, h', zsl'))"
    "zsl_rep h' zsl' ts' (filter (\<lambda>e. \<not> (\<not> Q e \<and> L e)) es)" "z_header zsl' = z_header zsl" "set ts' \<subseteq> set ts"
proof -
  let ?F = "dropWhile L (dropWhile Q es)"
  note D = mono_between [OF up down, folded D_def]
  obtain as bs and us :: "(zptr \<times> u64) list" where s: "ts = as @ bs" "length as = length (takeWhile Q es)"
    "zsl_search h zsl skip = Some (Inr us)" "preds (towers zsl as) us (z_levels zsl)"
    "rd us 0 = Inr (fst (last (towers zsl as)), of_nat (length as))"
    "zlevel h (Some (fst (last (towers zsl as)))) 0 = Inr (next_ptr bs, of_nat (gap 0 bs))"
    by (rule search_prefix [OF rep up, where go = skip, OF skip])
  have DF: "dropWhile Q es = D @ ?F" unfolding D(1) [symmetric] by simp
  have es: "es = takeWhile Q es @ D @ ?F" unfolding DF [symmetric] by simp
  have "length bs = length (D @ ?F)"
    using repD(13) [OF rep] s(1,2) unfolding DF [symmetric] by (metis add_left_cancel length_append takeWhile_dropWhile_id)
  then obtain cs vs where bs: "bs = cs @ vs" "length cs = length D"
    by (metis append_take_drop_id length_append length_take min.absorb2 le_add1)
  have rep': "zsl_rep h zsl (as @ cs @ vs) (takeWhile Q es @ D @ ?F)" using rep s(1) bs(1) es by simp
  have "\<exists>h' zsl'. delete_while dd go us (next_ptr (cs @ vs)) 0 0 d h zsl =
      Some (Inr (0 + of_nat (length D), fold dd (map snd D) d, h', zsl')) \<and>
    zsl_rep h' zsl' (as @ vs) (takeWhile Q es @ ?F) \<and> z_header zsl' = z_header zsl"
  proof (rule delete_while_spec [OF rep' s(2) bs(2)])
    show "pred_at (towers zsl as) i (us ! i)" if "i < z_levels zsl" for i using s(4) that by (simp add: preds_def)
    show "z_levels zsl \<le> length us" using s(4) by (simp add: preds_def)
    show "go n (0 + of_nat j) = Inr True" if "j < length D" "z_score n = fst (D ! j)" "z_obj n = Some (snd (D ! j))" for j n
      using go [of "D ! j" n] that nth_mem [OF that(1)] by (simp add: D_def)
    show "go n (0 + of_nat (length D)) = Inr False \<or> z_obj n \<noteq> Some (snd (hd ?F))" if "?F \<noteq> []" "z_score n = fst (hd ?F)" for n f
    proof -
      have "hd ?F \<in> set es" using hd_in_set [OF that(1)] by (metis set_dropWhileD)
      then show ?thesis using go [of "hd ?F" n] that hd_dropWhile [OF that(1)] by auto
    qed
  qed
  then show thesis using that [where ts' = "as @ vs"] s bs(1) D(2) by auto
qed

section \<open>Score ranges\<close>

definition in_score_range :: "'s::linorder zrangespec \<Rightarrow> 's \<times> u8 list \<Rightarrow> bool" where
  "in_score_range r e \<longleftrightarrow> zslValueGteMin (fst e) r \<and> zslValueLteMax (fst e) r"

lemma score_le: "key_less d e \<Longrightarrow> fst d \<le> fst e"
  by (auto simp: key_less_def split: prod.splits)

lemma score_mono:
  assumes "sorted_wrt key_less es"
  shows "sorted_wrt (\<lambda>d e. zslValueGteMin (fst d) r \<longrightarrow> zslValueGteMin (fst e) r) es"
    and "sorted_wrt (\<lambda>d e. zslValueLteMax (fst e) r \<longrightarrow> zslValueLteMax (fst d) r) es"
  by (rule sorted_wrt_mono_rel [OF _ assms]; use score_le in \<open>fastforce simp: zslValueGteMin_def zslValueLteMax_def\<close>)+

lemma empty_score_range: "empty_range r \<Longrightarrow> \<not> in_score_range r e"
  by (auto simp: empty_range_def in_score_range_def zslValueGteMin_def zslValueLteMax_def split: if_splits)

lemma score_range_filter:
  "filter (\<lambda>e. \<not> empty_range r \<and> zslValueGteMin (fst e) r \<and> zslValueLteMax (fst e) r) es = filter (in_score_range r) es"
  using empty_score_range [of r] by (intro filter_cong refl) (auto simp: in_score_range_def)

lemma range_tests:
  "z_score n = fst e \<Longrightarrow> gte_min r n = Inr (zslValueGteMin (fst e) r)"
  "z_score n = fst e \<Longrightarrow> lte_max r n = Inr (zslValueLteMax (fst e) r)"
  by (simp_all add: gte_min_def lte_max_def)

lemma first_range_spec:
  assumes rep: "zsl_rep h zsl ts es"
  obtains p where "zslFirstInRange h zsl r = Some (Inr p)" "p = None \<or> node_key h p \<noteq> None"
    "node_key h p = (case filter (in_score_range r) es of [] \<Rightarrow> None | e # _ \<Rightarrow> Some e)"
  by (rule first_in_range_spec [OF rep range_tests(1) [where r = r] range_tests(2) [where r = r] score_mono(1) score_mono(2),
        where emp = "empty_range r", unfolded score_range_filter])
    (auto simp: zslFirstInRange_def repD(12) [OF rep])

lemma first_range_at:
  assumes rep: "zsl_rep h zsl ts es"
  obtains p where "zslFirstInRange h zsl r = Some (Inr p)" "p = None \<or> node_key h p \<noteq> None"
    "node_key h p = (case filter (in_score_range r) es of [] \<Rightarrow> None | e # _ \<Rightarrow> Some e)"
    "p = None \<or> (\<exists>as k bs. ts = as @ (the p, k) # bs \<and> length as = length (takeWhile (\<lambda>e. \<not> zslValueGteMin (fst e) r) es))"
  by (rule first_in_range_at [OF rep range_tests(1) [where r = r] range_tests(2) [where r = r] score_mono(1) score_mono(2),
        where emp = "empty_range r", unfolded score_range_filter])
    (auto simp: zslFirstInRange_def repD(12) [OF rep])

lemma last_range_spec:
  assumes rep: "zsl_rep h zsl ts es"
  obtains p where "zslLastInRange h zsl r = Some (Inr p)" "p = None \<or> node_key h p \<noteq> None"
    "node_key h p = (case rev (filter (in_score_range r) es) of [] \<Rightarrow> None | e # _ \<Rightarrow> Some e)"
  by (rule last_in_range_spec [OF rep range_tests(1) [where r = r] range_tests(2) [where r = r] score_mono(1) score_mono(2),
        where emp = "empty_range r", unfolded score_range_filter])
    (auto simp: zslLastInRange_def repD(12) [OF rep])

lemma delete_score_spec:
  assumes rep: "zsl_rep h zsl ts es"
  obtains h' zsl' ts' where "zslDeleteRangeByScore dd h zsl r d =
      Some (Inr (of_nat (length (filter (in_score_range r) es)), fold dd (map snd (filter (in_score_range r) es)) d, h', zsl'))"
    "zsl_rep h' zsl' ts' (filter (\<lambda>e. \<not> in_score_range r e) es)" "z_header zsl' = z_header zsl" "set ts' \<subseteq> set ts"
proof -
  let ?skip = "\<lambda>n (_ :: u64). Inr (if zr_minex r then z_score n \<le> zr_min r else z_score n < zr_min r) :: bool res"
  let ?go = "\<lambda>n (_ :: u64). Inr (if zr_maxex r then z_score n < zr_max r else z_score n \<le> zr_max r) :: bool res"
  have up: "sorted_wrt (\<lambda>d e. \<not> zslValueGteMin (fst e) r \<longrightarrow> \<not> zslValueGteMin (fst d) r) es"
    by (rule sorted_wrt_mono_rel [OF _ score_mono(1) [OF repD(12) [OF rep]]]) auto
  have tests: "?skip n q = Inr (\<not> zslValueGteMin (fst e) r)" "?go n q = Inr (zslValueLteMax (fst e) r)"
    if "z_score n = fst e" for n q and e :: "'a \<times> u8 list"
    using that by (auto simp: zslValueGteMin_def zslValueLteMax_def)
  note D = delete_between [OF rep up score_mono(2) [OF repD(12) [OF rep]] tests, where dd = dd and d = d,
    unfolded not_not, folded in_score_range_def]
  show thesis by (rule D, assumption, assumption, rule that, unfold zslDeleteRangeByScore_def, assumption+)
qed

section \<open>Ranks\<close>

lemma descend_until_spec:
  fixes go :: "'s zskiplistNode \<Rightarrow> u64 \<Rightarrow> bool res"
  assumes "as = ss @ (x, k) # ms" and "n \<le> k" and "1 \<le> n \<or> \<not> P" and "\<And>i. i < n \<Longrightarrow> linked i h (as @ bs) []"
    and "length (as @ bs) \<le> 2 ^ 32" and "separates h go as bs" and "\<forall>t \<in> set (tl as). 1 \<le> snd t"
    and "\<And>p. p < length as \<Longrightarrow> \<exists>m. zderef h (Some (fst (as ! p))) = Inr m \<and> stop m (of_nat p) = (P \<and> Suc p = length as)"
  shows "descend_until n h go stop x (of_nat (length ss)) =
    Some (Inr (if P then Some (fst (last as), of_nat (length as - 1)) else None))"
  using assms(1-4)
proof (induction n arbitrary: ss x k ms)
  case 0
  then show ?case by simp
next
  case (Suc i)
  have "linked i h (ss @ (x, k) # ms @ bs) []" using Suc.prems(1,4) by simp
  then obtain u where u: "zsl_walk h go i x (of_nat (length ss)) = Some (Inr u)" "pred_at as i u"
    using walk_spec [of i h ss x k ms bs go] Suc.prems(1,2) assms(5,6) by auto
  obtain y ss' k' ms' where y: "u = (y, of_nat (length ss'))" "as = ss' @ (y, k') # ms'" "i < k'" "low i ms'"
    using u(2) by (cases u) (auto simp: pred_at_def)
  obtain m where m: "zderef h (Some y) = Inr m" "stop m (of_nat (length ss')) = (P \<and> ms' = [])"
    using assms(8) [of "length ss'"] y(2) by auto
  show ?case
  proof (cases "P \<and> ms' = []")
    case True
    then show ?thesis using u(1) y(1,2) m by simp
  next
    case False
    have "1 \<le> i \<or> \<not> P"
    proof (rule ccontr)
      assume "\<not> (1 \<le> i \<or> \<not> P)"
      then have "i = 0" "ms' \<noteq> []" using False by auto
      moreover have "set ms' \<subseteq> set (tl as)" using y(2) by (cases ss') auto
      ultimately show False using y(4) assms(7) by (cases ms') (auto simp: low_def subset_iff dest!: bspec)
    qed
    then have "descend_until i h go stop y (of_nat (length ss')) =
        Some (Inr (if P then Some (fst (last as), of_nat (length as - 1)) else None))"
      using Suc.IH [OF y(2)] y(3) Suc.prems(4) by simp
    then show ?thesis using u(1) y(1) m False by simp
  qed
qed

lemma until_spec:
  fixes h :: "'s::linorder zheap"
  assumes rep: "zsl_rep h zsl ts es" and as: "ts = as @ bs"
    and go: "\<And>j n. j < length es \<Longrightarrow> z_score n = fst (es ! j) \<Longrightarrow> z_obj n = Some (snd (es ! j)) \<Longrightarrow>
      go n (of_nat (Suc j)) = Inr (j < length as)"
    and hdr: "\<And>n. z_obj n = None \<Longrightarrow> stop n 0 = (P \<and> as = [])"
    and stop: "\<And>j n. j < length as \<Longrightarrow> z_score n = fst (es ! j) \<Longrightarrow> z_obj n = Some (snd (es ! j)) \<Longrightarrow>
      stop n (of_nat (Suc j)) = (P \<and> Suc j = length as)"
  shows "descend_until (z_levels zsl) h go stop (z_header zsl) 0 =
    Some (Inr (if P then Some (fst (last (towers zsl as)), of_nat (length as)) else None))"
proof -
  let ?A = "towers zsl as"
  have r: "zsl_rep h zsl (as @ bs) es" using rep as by simp
  have "descend_until (z_levels zsl) h go stop (z_header zsl) (of_nat (length ([] :: tower list))) =
    Some (Inr (if P then Some (fst (last ?A), of_nat (length ?A - 1)) else None))"
  proof (rule descend_until_spec [where as = ?A and bs = bs and k = ZSKIPLIST_MAXLEVEL and ms = as])
    show "?A = [] @ (z_header zsl, ZSKIPLIST_MAXLEVEL) # as" by (simp add: towers_def)
    show "separates h go ?A bs" unfolding towers_def by (rule separates_holds [OF repD(3) [OF r] go])
    show "\<forall>t \<in> set (tl ?A). 1 \<le> snd t" using repD(6) [OF r] by (auto simp: towers_def)
    show "\<exists>m. zderef h (Some (fst (?A ! p))) = Inr m \<and> stop m (of_nat p) = (P \<and> Suc p = length ?A)" if "p < length ?A" for p
    proof (cases p)
      case 0
      obtain s b where "info h (z_header zsl) = Some (s, None, b, ZSKIPLIST_MAXLEVEL)" using repD(2) [OF rep] by blast
      then obtain n where "zderef h (Some (z_header zsl)) = Inr n" "z_obj n = None" using info_deref [of h "z_header zsl"] by blast
      then show ?thesis using hdr [of n] 0 by (auto simp: towers_def)
    next
      case (Suc j)
      then have j: "j < length as" using that by (simp add: towers_def)
      then have "j < length es" using repD(13) [OF rep] as by simp
      then obtain n where n: "zderef h (Some (fst (ts ! j))) = Inr n" "z_score n = fst (es ! j)" "z_obj n = Some (snd (es ! j))"
        using rep_nth [OF rep] by blast
      have "?A ! p = ts ! j" using j Suc as by (simp add: towers_def nth_append)
      then show ?thesis using n(1) stop [OF j n(2,3)] Suc by (simp add: towers_def del: of_nat_Suc)
    qed
  qed (use r repD(4,7,8,11) [OF r] in \<open>auto simp: towers_def\<close>)
  then show ?thesis by (simp add: towers_def)
qed

lemma of_nat_le_u64: "n < 2 ^ 64 \<Longrightarrow> (of_nat n :: u64) \<le> r \<longleftrightarrow> n \<le> unat r"
  by (simp add: word_le_nat_alt unat_of_nat)

lemma element_by_rank_spec:
  assumes rep: "zsl_rep h zsl ts es" and r: "1 \<le> unat r"
  obtains p where "zslGetElementByRank h zsl r = Some (Inr p)"
    "node_key h p = (if unat r \<le> length es then Some (es ! (unat r - 1)) else None)"
proof -
  let ?as = "take (unat r) ts"
  let ?P = "unat r \<le> length es"
  have len: "length es < 2 ^ 32" "length ts = length es" using repD(11,13) [OF rep] by auto
  have small: "(of_nat (Suc j) :: u64) \<le> r \<longleftrightarrow> Suc j \<le> unat r" "of_nat (Suc j) = r \<longleftrightarrow> Suc j = unat r" if "j < length es" for j
    using that len(1) of_nat_le_u64 [of "Suc j" r] by (auto simp: word_unat_eq_iff unat_of_nat simp del: of_nat_Suc)
  have "r \<noteq> 0" using r by auto
  then have run: "descend_until (z_levels zsl) h (\<lambda>n t. Inr (t \<le> r)) (\<lambda>n t. t = r) (z_header zsl) 0 =
    Some (Inr (if ?P then Some (fst (last (towers zsl ?as)), of_nat (length ?as)) else None))"
    using r len by (intro until_spec [OF rep, of _ "drop (unat r) ts"]) (auto simp: small simp del: of_nat_Suc)
  show thesis
  proof (cases ?P)
    case True
    have "last (towers zsl ?as) = ts ! (unat r - 1)"
      using True r len by (auto simp: towers_def last_conv_nth)
    moreover obtain n where n: "zderef h (Some (fst (ts ! (unat r - 1)))) = Inr n" "z_score n = fst (es ! (unat r - 1))"
      "z_obj n = Some (snd (es ! (unat r - 1)))"
      using rep_nth [OF rep, of "unat r - 1"] True r by fastforce
    ultimately show thesis using that [of "Some (fst (ts ! (unat r - 1)))"] run True node_key_deref [OF n]
      by (simp add: zslGetElementByRank_def)
  next
    case False
    then show thesis using that [of None] run by (simp add: zslGetElementByRank_def node_key_def)
  qed
qed

lemma upto_key_go:
  "z_score n = fst e \<Longrightarrow> z_obj n = Some (snd e) \<Longrightarrow> upto_key s ob n r = Inr (key_less e (s, ob) \<or> e = (s, ob))"
  by (cases e) (auto simp: upto_key_def zcompare_def key_less_def order_le_less)

lemma sorted_upto:
  assumes "sorted_wrt key_less es"
  shows "sorted_wrt (\<lambda>d e. key_less e x \<or> e = x \<longrightarrow> key_less d x \<or> d = x) es"
  by (rule sorted_wrt_mono_rel [OF _ assms]) (use key_less_trans in blast)

lemma rank_spec:
  assumes rep: "zsl_rep h zsl ts es" and d: "distinct (map snd es)"
  shows "j < length es \<Longrightarrow> zslGetRank h zsl (fst (es ! j)) (snd (es ! j)) = Some (Inr (of_nat (Suc j)))"
    and "obj \<notin> snd ` set es \<Longrightarrow> zslGetRank h zsl score obj = Some (Inr 0)"
proof -
  have until: "descend_until (z_levels zsl) h (upto_key score obj) (\<lambda>n _. z_obj n = Some obj) (z_header zsl) 0 =
    Some (Inr (if P then Some (fst (last (towers zsl as)), of_nat (length as)) else None))"
    if as: "as = take (length (takeWhile (\<lambda>e. key_less e (score, obj) \<or> e = (score, obj)) es)) ts"
      and P: "\<And>i. i < length as \<Longrightarrow> snd (es ! i) = obj \<longleftrightarrow> P \<and> Suc i = length as" and ne: "P \<Longrightarrow> as \<noteq> []"
    for score obj as P
  proof (rule until_spec [OF rep, where bs = "drop (length as) ts"])
    let ?Q = "\<lambda>e. key_less e (score, obj) \<or> e = (score, obj)"
    have len: "length as = length (takeWhile ?Q es)" using repD(13) [OF rep] length_takeWhile_le [of ?Q es] by (simp add: as)
    show "ts = as @ drop (length as) ts" using len as by simp
    show "upto_key score obj n (of_nat (Suc j)) = Inr (j < length as)"
      if "j < length es" "z_score n = fst (es ! j)" "z_obj n = Some (snd (es ! j))" for j n
      using upto_key_go [OF that(2,3)] mono_prefix [OF sorted_upto [OF repD(12) [OF rep]] that(1)] len by simp
    show "(z_obj n = Some obj) = (P \<and> as = [])" if "z_obj n = None" for n using that ne by auto
    show "(z_obj n = Some obj) = (P \<and> Suc j = length as)" if "j < length as" "z_obj n = Some (snd (es ! j))" for j n
      using that P by simp
  qed
  show "zslGetRank h zsl (fst (es ! j)) (snd (es ! j)) = Some (Inr (of_nat (Suc j)))" if j: "j < length es"
  proof -
    let ?x = "es ! j"
    let ?Q = "\<lambda>e. key_less e (fst ?x, snd ?x) \<or> e = (fst ?x, snd ?x)"
    note less = sorted_wrt_nth_less [OF repD(12) [OF rep]]
    have "?Q (es ! i) \<longleftrightarrow> i \<le> j" if "i < length es" for i
    proof (cases i j rule: linorder_cases)
      case greater
      then show ?thesis using less [OF greater that] key_less_trans [of "es ! i" ?x "es ! i"] by auto
    qed (use less j in auto)
    then have i: "i < length (takeWhile ?Q es) \<longleftrightarrow> i \<le> j" if "i < length es" for i
      using mono_prefix [OF sorted_upto [OF repD(12) [OF rep]] that, of "(fst ?x, snd ?x)"] that by simp
    have "length (takeWhile ?Q es) = Suc j"
      using i [of j] i [of "Suc j"] j length_takeWhile_le [of ?Q es] by linarith
    then have as: "length (take (length (takeWhile ?Q es)) ts) = Suc j" using j repD(13) [OF rep] by simp
    have "snd (es ! i) = snd ?x \<longleftrightarrow> i = j" if "i < Suc j" for i
      using nth_eq_iff_index_eq [OF d, of i j] that j by simp
    then have "descend_until (z_levels zsl) h (upto_key (fst ?x) (snd ?x)) (\<lambda>n _. z_obj n = Some (snd ?x)) (z_header zsl) 0 =
      Some (Inr (if True then Some (fst (last (towers zsl (take (length (takeWhile ?Q es)) ts))), of_nat (length (take (length (takeWhile ?Q es)) ts))) else None))"
      by (intro until [OF refl]) (use as in auto)
    then show ?thesis unfolding as by (simp add: zslGetRank_def)
  qed
  show "zslGetRank h zsl score obj = Some (Inr 0)" if o: "obj \<notin> snd ` set es"
  proof -
    have "snd (es ! i) \<noteq> obj" if "i < length es" for i using o nth_mem [OF that] by force
    then have "descend_until (z_levels zsl) h (upto_key score obj) (\<lambda>n _. z_obj n = Some obj) (z_header zsl) 0 = Some (Inr None)"
      using until [OF refl, of score obj False] repD(13) [OF rep] length_takeWhile_le by (auto simp: min_def split: if_splits)
    then show ?thesis by (simp add: zslGetRank_def)
  qed
qed

lemma delete_rank_spec:
  fixes h :: "'s::linorder zheap" and start stop :: u32
  assumes rep: "zsl_rep h zsl ts es"
  defines "a \<equiv> unat start - 1"
  defines "D \<equiv> take (unat stop - a) (drop a es)"
  obtains h' zsl' ts' where "zslDeleteRangeByRank dd h zsl start stop d =
      Some (Inr (of_nat (length D), fold dd (map snd D) d, h', zsl'))"
    "zsl_rep h' zsl' ts' (take a es @ drop (unat stop - a) (drop a es))" "z_header zsl' = z_header zsl" "set ts' \<subseteq> set ts"
proof -
  have len: "length es < 2 ^ 32" "length ts = length es" using repD(11,13) [OF rep] by auto
  let ?as = "take a ts" and ?bs = "drop a ts"
  let ?cs = "take (unat stop - a) ?bs" and ?vs = "drop (unat stop - a) ?bs"
  have u: "unat (ucast w :: u64) = unat w" for w :: u32 by (simp add: unat_ucast_up)
  have le: "(of_nat i :: u64) \<le> ucast w \<longleftrightarrow> i \<le> unat w" "(of_nat i :: u64) < ucast w \<longleftrightarrow> i < unat w"
    if "i \<le> length es" for i and w :: u32
    using that len(1) by (auto simp: word_le_nat_alt word_less_nat_alt u unat_of_nat)
  have rep': "zsl_rep h zsl (?as @ ?bs) es" using rep by simp
  have go: "Inr ((of_nat (Suc j) :: u64) < ucast start) = (Inr (j < length ?as) :: bool res)" if "j < length es" for j
    unfolding le(2) [OF Suc_leI [OF that]] using that len(2) by (auto simp: a_def)
  obtain us :: "(zptr \<times> u64) list" where s: "zsl_search h zsl (\<lambda>n traversed. Inr (traversed < ucast start)) = Some (Inr us)"
    "preds (towers zsl ?as) us (z_levels zsl)" "rd us 0 = Inr (fst (last (towers zsl ?as)), of_nat (length ?as))"
    "zlevel h (Some (fst (last (towers zsl ?as)))) 0 = Inr (next_ptr ?bs, of_nat (gap 0 ?bs))"
    by (rule search_next [OF rep' go])
  have rep3: "zsl_rep h zsl (?as @ ?cs @ ?vs) (take a es @ D @ drop (unat stop - a) (drop a es))"
    using rep by (simp add: D_def del: drop_drop)
  let ?t = "of_nat (length ?as) + 1 :: u64"
  have t: "?t + of_nat j = of_nat (length ?as + Suc j)" for j by simp
  have "\<exists>h' zsl'. delete_while dd (\<lambda>n traversed. Inr (traversed \<le> ucast stop)) us (next_ptr (?cs @ ?vs)) ?t 0 d h zsl =
      Some (Inr (0 + of_nat (length D), fold dd (map snd D) d, h', zsl')) \<and>
    zsl_rep h' zsl' (?as @ ?vs) (take a es @ drop (unat stop - a) (drop a es)) \<and> z_header zsl' = z_header zsl"
  proof (rule delete_while_spec [OF rep3])
    show "length ?as = length (take a es)" "length ?cs = length D" using len(2) by (simp_all add: D_def)
    show "pred_at (towers zsl ?as) i (us ! i)" if "i < z_levels zsl" for i using s(2) that by (simp add: preds_def)
    show "z_levels zsl \<le> length us" using s(2) by (simp add: preds_def)
    show "Inr (?t + of_nat j \<le> ucast stop) = (Inr True :: bool res)" if "j < length D" for j
    proof -
      have "a + Suc j \<le> unat stop" "length ?as + Suc j \<le> length es" "length ?as \<le> a" using that len(2) by (auto simp: D_def)
      then show ?thesis unfolding t using le(1) [of "length ?as + Suc j" stop] by simp
    qed
    show "Inr (?t + of_nat (length D) \<le> ucast stop) = (Inr False :: bool res) \<or> X"
      if "drop (unat stop - a) (drop a es) \<noteq> []" for X
    proof -
      have "a + (unat stop - a) < length es" using that by (simp add: less_diff_conv2)
      then have "length ?as = a" "length D = unat stop - a" using len(2) by (simp_all add: D_def)
      moreover have "a + Suc (unat stop - a) \<le> length es" using \<open>a + _ < _\<close> by simp
      moreover have "\<not> a + Suc (unat stop - a) \<le> unat stop" by arith
      ultimately show ?thesis unfolding t using le(1) [of "a + Suc (unat stop - a)" stop] by simp
    qed
  qed
  then obtain h' zsl' where r: "delete_while dd (\<lambda>n traversed. Inr (traversed \<le> ucast stop)) us (next_ptr ?bs) ?t 0 d h zsl =
      Some (Inr (of_nat (length D), fold dd (map snd D) d, h', zsl'))"
    "zsl_rep h' zsl' (?as @ ?vs) (take a es @ drop (unat stop - a) (drop a es))" "z_header zsl' = z_header zsl"
    unfolding append_take_drop_id add_0 by blast
  show thesis
    by (rule that [OF _ r(2,3)]) (use s r(1) in \<open>auto simp: zslDeleteRangeByRank_def dest: in_set_takeD in_set_dropD\<close>)
qed

end
