(* ===== verification/SkipLex.thy ===== *)
theory SkipLex
  imports SkipRange
begin

text \<open>
  Lexicographic ranges of sorted sets (\<open>t_zset.c\<close>), which are meant for sets
  whose elements all have the same score: parsing of the two ends, searching
  and deletion.  The shared objects \<open>minstring\<close> and \<open>maxstring\<close> stand for the
  two infinities.
\<close>

section \<open>The ends of a range\<close>

text \<open>The two shared objects are compared by address, and have string values of their own.\<close>

datatype lexobj = MinString | MaxString | Str "u8 list"

fun lexval :: "lexobj \<Rightarrow> u8 list" where
  "lexval MinString = map byte_of ''minstring''"
| "lexval MaxString = map byte_of ''maxstring''"
| "lexval (Str s) = s"

record zlexrangespec =
  zl_min :: lexobj
  zl_max :: lexobj
  zl_minex :: bool
  zl_maxex :: bool

text \<open>A byte of an sds string, which ends with a zero byte.\<close>

definition sds_at :: "u8 list \<Rightarrow> nat \<Rightarrow> u8" where
  "sds_at c i = (if i < length c then c ! i else 0)"

definition zslParseLexRangeItem :: "u8 list \<Rightarrow> (lexobj \<times> bool) option" where
  "zslParseLexRangeItem c =
     (if sds_at c 0 = byte_of CHR ''+'' then if sds_at c 1 \<noteq> 0 then None else Some (MaxString, False)
      else if sds_at c 0 = byte_of CHR ''-'' then if sds_at c 1 \<noteq> 0 then None else Some (MinString, False)
      else if sds_at c 0 = byte_of CHR ''('' then Some (Str (tl c), True)
      else if sds_at c 0 = byte_of CHR ''['' then Some (Str (tl c), False)
      else None)"

text \<open>The arguments are strings, or integers when they are encoded so.\<close>

datatype zarg = IntArg "64 word" | StrArg "u8 list"

definition zslParseLexRange :: "zarg \<Rightarrow> zarg \<Rightarrow> zlexrangespec option" where
  "zslParseLexRange lo hi =
     (case (lo, hi) of
        (StrArg a, StrArg b) \<Rightarrow>
          (case zslParseLexRangeItem a of
             None \<Rightarrow> None
           | Some (zmin, minex) \<Rightarrow>
               (case zslParseLexRangeItem b of
                  None \<Rightarrow> None
                | Some (zmax, maxex) \<Rightarrow> Some \<lparr>zl_min = zmin, zl_max = zmax, zl_minex = minex, zl_maxex = maxex\<rparr>))
      | _ \<Rightarrow> None)"

definition compareStringObjectsForLexRange :: "lexobj \<Rightarrow> lexobj \<Rightarrow> int" where
  "compareStringObjectsForLexRange a b =
     (if a = b then 0
      else if a = MinString \<or> b = MaxString then - 1
      else if a = MaxString \<or> b = MinString then 1
      else compareStringObjects (lexval a) (lexval b))"

definition zslLexValueGteMin :: "u8 list \<Rightarrow> zlexrangespec \<Rightarrow> bool" where
  "zslLexValueGteMin v spec =
     (if zl_minex spec then compareStringObjectsForLexRange (Str v) (zl_min spec) > 0
      else compareStringObjectsForLexRange (Str v) (zl_min spec) \<ge> 0)"

definition zslLexValueLteMax :: "u8 list \<Rightarrow> zlexrangespec \<Rightarrow> bool" where
  "zslLexValueLteMax v spec =
     (if zl_maxex spec then compareStringObjectsForLexRange (Str v) (zl_max spec) < 0
      else compareStringObjectsForLexRange (Str v) (zl_max spec) \<le> 0)"

section \<open>Searches\<close>

definition zobj :: "'s zskiplistNode \<Rightarrow> u8 list res" where
  "zobj n = (case z_obj n of None \<Rightarrow> Inl BadPointer | Some ob \<Rightarrow> Inr ob)"

definition lex_gte_min :: "zlexrangespec \<Rightarrow> 's zskiplistNode \<Rightarrow> bool res" where
  "lex_gte_min r n = rbind (zobj n) (\<lambda>ob. Inr (zslLexValueGteMin ob r))"

definition lex_lte_max :: "zlexrangespec \<Rightarrow> 's zskiplistNode \<Rightarrow> bool res" where
  "lex_lte_max r n = rbind (zobj n) (\<lambda>ob. Inr (zslLexValueLteMax ob r))"

text \<open>The test for empty ranges compares the values of the shared objects too.\<close>

definition empty_lex_range :: "zlexrangespec \<Rightarrow> bool" where
  "empty_lex_range r \<longleftrightarrow>
     compareStringObjectsForLexRange (zl_min r) (zl_max r) > 1 \<or>
     compareStringObjects (lexval (zl_min r)) (lexval (zl_max r)) = 0 \<and> (zl_minex r \<or> zl_maxex r)"

definition zslIsInLexRange :: "'s zheap \<Rightarrow> zskiplist \<Rightarrow> zlexrangespec \<Rightarrow> bool res" where
  "zslIsInLexRange h zsl r = is_in_range h zsl (empty_lex_range r) (lex_gte_min r) (lex_lte_max r)"

definition zslFirstInLexRange :: "'s zheap \<Rightarrow> zskiplist \<Rightarrow> zlexrangespec \<Rightarrow> zptr option res option" where
  "zslFirstInLexRange h zsl r = first_in_range h zsl (empty_lex_range r) (lex_gte_min r) (lex_lte_max r)"

definition zslLastInLexRange :: "'s zheap \<Rightarrow> zskiplist \<Rightarrow> zlexrangespec \<Rightarrow> zptr option res option" where
  "zslLastInLexRange h zsl r = last_in_range h zsl (empty_lex_range r) (lex_gte_min r) (lex_lte_max r)"

definition zslDeleteRangeByLex ::
  "(u8 list \<Rightarrow> 'd \<Rightarrow> 'd) \<Rightarrow> 's zheap \<Rightarrow> zskiplist \<Rightarrow> zlexrangespec \<Rightarrow> 'd \<Rightarrow>
   (u64 \<times> 'd \<times> 's zheap \<times> zskiplist) res option" where
  "zslDeleteRangeByLex dictDelete h zsl r d =
     tbind (zsl_search h zsl (\<lambda>n (_ :: u64). rbind (lex_gte_min r n) (\<lambda>b. Inr (\<not> b)))) (\<lambda>us.
     tbind (Some (rd us 0)) (\<lambda>(x, _).
     tbind (Some (zlevel h (Some x) 0)) (\<lambda>(x, _).
     delete_while dictDelete (\<lambda>n _. lex_lte_max r n) us x 0 0 d h zsl)))"

section \<open>Correctness\<close>

definition in_lex_range :: "zlexrangespec \<Rightarrow> 's \<times> u8 list \<Rightarrow> bool" where
  "in_lex_range r e \<longleftrightarrow> zslLexValueGteMin (snd e) r \<and> zslLexValueLteMax (snd e) r"

text \<open>Two different ends with the same string value.\<close>

definition shared_clash :: "zlexrangespec \<Rightarrow> bool" where
  "shared_clash r \<longleftrightarrow> zl_min r \<noteq> zl_max r \<and> lexval (zl_min r) = lexval (zl_max r) \<and> (zl_minex r \<or> zl_maxex r)"

lemma lex_simps [simp]:
  "compareStringObjectsForLexRange a a = 0"
  "compareStringObjectsForLexRange (Str v) (Str w) = compareStringObjects v w"
  "compareStringObjectsForLexRange (Str v) MaxString = - 1"
  "compareStringObjectsForLexRange (Str v) MinString = 1"
  "compareStringObjectsForLexRange MaxString (Str v) = 1"
  "compareStringObjectsForLexRange MinString b = (if b = MinString then 0 else - 1)"
  "compareStringObjectsForLexRange MaxString MinString = 1"
  by (auto simp: compareStringObjectsForLexRange_def)

lemma compare_cases: "compareStringObjects a b < 0 \<or> a = b \<or> compareStringObjects b a < 0"
  using compare_eq_0 [of a b] compare_neg [of b a] by linarith

lemma compare_pos: "0 < compareStringObjects a b \<longleftrightarrow> compareStringObjects b a < 0"
  by (rule compare_neg [symmetric])

lemma compare_nonneg: "0 \<le> compareStringObjects a b \<longleftrightarrow> a = b \<or> compareStringObjects b a < 0"
  using compare_cases [of a b] compare_pos [of a b] by auto

lemma compare_nonpos: "compareStringObjects a b \<le> 0 \<longleftrightarrow> a = b \<or> compareStringObjects a b < 0"
  using compare_eq_0 [of a b] by linarith

lemmas lex_order = compare_pos compare_nonneg compare_nonpos

lemma compare_refl [simp]: "compareStringObjects a a = 0"
  by simp

lemma compare_asym: "compareStringObjects a b < 0 \<Longrightarrow> \<not> compareStringObjects b a < 0"
  using compare_trans [of a b a] by auto

lemma lex_gte_mono:
  "zslLexValueGteMin v r \<Longrightarrow> compareStringObjects v w < 0 \<Longrightarrow> zslLexValueGteMin w r"
  by (cases "zl_min r") (auto simp: zslLexValueGteMin_def lex_order split: if_splits intro: compare_trans)

lemma lex_lte_mono:
  "zslLexValueLteMax w r \<Longrightarrow> compareStringObjects v w < 0 \<Longrightarrow> zslLexValueLteMax v r"
  by (cases "zl_max r") (auto simp: zslLexValueLteMax_def lex_order split: if_splits intro: compare_trans)

lemma empty_lex: "empty_lex_range r \<Longrightarrow> \<not> shared_clash r \<Longrightarrow> \<not> in_lex_range r e"
  by (cases "zl_min r"; cases "zl_max r")
    (auto simp: empty_lex_range_def shared_clash_def in_lex_range_def zslLexValueGteMin_def zslLexValueLteMax_def
      lex_order split: if_splits dest: compare_trans compare_asym)

definition same_score :: "('s \<times> u8 list) list \<Rightarrow> bool" where
  "same_score es \<longleftrightarrow> (\<forall>d \<in> set es. \<forall>e \<in> set es. fst d = fst e)"

lemma sorted_lex:
  assumes "sorted_wrt key_less es" and "same_score es"
  shows "sorted_wrt (\<lambda>d e. compareStringObjects (snd d) (snd e) < 0) es"
  by (rule sorted_wrt_mono_rel [OF _ assms(1)]) (use assms(2) in \<open>fastforce simp: same_score_def key_less_def\<close>)

lemma lex_mono:
  assumes "sorted_wrt key_less es" and "same_score es"
  shows "sorted_wrt (\<lambda>d e. zslLexValueGteMin (snd d) r \<longrightarrow> zslLexValueGteMin (snd e) r) es"
    and "sorted_wrt (\<lambda>d e. zslLexValueLteMax (snd e) r \<longrightarrow> zslLexValueLteMax (snd d) r) es"
  by (rule sorted_wrt_mono_rel [OF _ sorted_lex [OF assms]]; use lex_gte_mono lex_lte_mono in blast)+

lemma lex_tests:
  "z_obj n = Some (snd e) \<Longrightarrow> lex_gte_min r n = Inr (zslLexValueGteMin (snd e) r)"
  "z_obj n = Some (snd e) \<Longrightarrow> lex_lte_max r n = Inr (zslLexValueLteMax (snd e) r)"
  by (simp_all add: lex_gte_min_def lex_lte_max_def zobj_def)

lemma lex_range_filter:
  assumes "\<not> shared_clash r"
  shows "filter (\<lambda>e. \<not> empty_lex_range r \<and> zslLexValueGteMin (snd e) r \<and> zslLexValueLteMax (snd e) r) es = filter (in_lex_range r) es"
  using empty_lex [OF _ assms] by (intro filter_cong refl) (auto simp: in_lex_range_def)

lemma first_lex_spec:
  assumes rep: "zsl_rep h zsl ts es" and same: "same_score es" and "\<not> shared_clash r"
  obtains p where "zslFirstInLexRange h zsl r = Some (Inr p)" "p = None \<or> node_key h p \<noteq> None"
    "node_key h p = (case filter (in_lex_range r) es of [] \<Rightarrow> None | e # _ \<Rightarrow> Some e)"
  by (rule first_in_range_spec [OF rep lex_tests(1) [where r = r] lex_tests(2) [where r = r] lex_mono(1) lex_mono(2),
        where emp = "empty_lex_range r", unfolded lex_range_filter [OF assms(3)]])
    (auto simp: zslFirstInLexRange_def repD(12) [OF rep] same)

lemma last_lex_spec:
  assumes rep: "zsl_rep h zsl ts es" and same: "same_score es" and "\<not> shared_clash r"
  obtains p where "zslLastInLexRange h zsl r = Some (Inr p)" "p = None \<or> node_key h p \<noteq> None"
    "node_key h p = (case rev (filter (in_lex_range r) es) of [] \<Rightarrow> None | e # _ \<Rightarrow> Some e)"
  by (rule last_in_range_spec [OF rep lex_tests(1) [where r = r] lex_tests(2) [where r = r] lex_mono(1) lex_mono(2),
        where emp = "empty_lex_range r", unfolded lex_range_filter [OF assms(3)]])
    (auto simp: zslLastInLexRange_def repD(12) [OF rep] same)

text \<open>The deletion does not make the test for empty ranges.\<close>

lemma delete_lex_spec:
  assumes rep: "zsl_rep h zsl ts es" and same: "same_score es"
  obtains h' zsl' ts' where "zslDeleteRangeByLex dd h zsl r d =
      Some (Inr (of_nat (length (filter (in_lex_range r) es)), fold dd (map snd (filter (in_lex_range r) es)) d, h', zsl'))"
    "zsl_rep h' zsl' ts' (filter (\<lambda>e. \<not> in_lex_range r e) es)" "z_header zsl' = z_header zsl" "set ts' \<subseteq> set ts"
proof -
  have up: "sorted_wrt (\<lambda>d e. \<not> zslLexValueGteMin (snd e) r \<longrightarrow> \<not> zslLexValueGteMin (snd d) r) es"
    by (rule sorted_wrt_mono_rel [OF _ lex_mono(1) [OF repD(12) [OF rep] same]]) auto
  have tests: "rbind (lex_gte_min r n) (\<lambda>b. Inr (\<not> b)) = Inr (\<not> zslLexValueGteMin (snd e) r)" "lex_lte_max r n = Inr (zslLexValueLteMax (snd e) r)"
    if "z_obj n = Some (snd e)" for n :: "'a zskiplistNode" and e :: "'a \<times> u8 list"
    using lex_tests [of n e r] that by simp_all
  note D = delete_between [where skip = "\<lambda>n _. rbind (lex_gte_min r n) (\<lambda>b. Inr (\<not> b))" and go = "\<lambda>n _. lex_lte_max r n",
    OF rep up lex_mono(2) [OF repD(12) [OF rep] same] tests, where dd = dd and d = d,
    unfolded not_not, folded in_lex_range_def]
  show thesis by (rule D, assumption, assumption, rule that, unfold zslDeleteRangeByLex_def, assumption+)
qed

end
