(* ===== verification/SkipTheorems.thy ===== *)
theory SkipTheorems
  imports SkipLex
begin

text \<open>
  What sorted sets rely on: any sequence of operations on a skip list
  answers as the sorted list of its elements does, ranks and elements are
  inverse, ranges are answered exactly, and releasing the list frees every
  node and every object once.
\<close>

section \<open>The operations of a skip list\<close>

definition zsl_abs :: "'s::linorder zheap \<Rightarrow> zskiplist \<Rightarrow> ('s \<times> u8 list) list \<Rightarrow> bool" where
  "zsl_abs h zsl es \<longleftrightarrow> (\<exists>ts. zsl_rep h zsl ts es)"

text \<open>An insertion names the level and the address that \<open>random\<close> and \<open>malloc\<close> give.\<close>

datatype 's zop =
    ZInsert 's "u8 list" nat zptr
  | ZDelete 's "u8 list"
  | ZRank 's "u8 list"
  | ZByRank u64
  | ZFirst "'s zrangespec"
  | ZLast "'s zrangespec"
  | ZDeleteByScore "'s zrangespec"
  | ZDeleteByRank u32 u32

datatype 's zans = ZDone bool | ZNum u64 | ZElem "('s \<times> u8 list) option" | ZGone u64 "u8 list list"

text \<open>The objects that are removed from the hash table are collected in a list.\<close>

fun zstep :: "'s::linorder zheap \<times> zskiplist \<Rightarrow> 's zop \<Rightarrow> ('s zans \<times> 's zheap \<times> zskiplist) res option" where
  "zstep (h, zsl) (ZInsert s ob level x) = tbind (zslInsert h zsl s ob level x) (\<lambda>(h, zsl). Some (Inr (ZDone True, h, zsl)))"
| "zstep (h, zsl) (ZDelete s ob) = tbind (zslDelete h zsl s ob) (\<lambda>(b, h, zsl). Some (Inr (ZDone b, h, zsl)))"
| "zstep (h, zsl) (ZRank s ob) = tbind (zslGetRank h zsl s ob) (\<lambda>r. Some (Inr (ZNum r, h, zsl)))"
| "zstep (h, zsl) (ZByRank r) = tbind (zslGetElementByRank h zsl r) (\<lambda>p. Some (Inr (ZElem (node_key h p), h, zsl)))"
| "zstep (h, zsl) (ZFirst r) = tbind (zslFirstInRange h zsl r) (\<lambda>p. Some (Inr (ZElem (node_key h p), h, zsl)))"
| "zstep (h, zsl) (ZLast r) = tbind (zslLastInRange h zsl r) (\<lambda>p. Some (Inr (ZElem (node_key h p), h, zsl)))"
| "zstep (h, zsl) (ZDeleteByScore r) =
     tbind (zslDeleteRangeByScore (\<lambda>ob d. d @ [ob]) h zsl r []) (\<lambda>(n, d, h, zsl). Some (Inr (ZGone n d, h, zsl)))"
| "zstep (h, zsl) (ZDeleteByRank i j) =
     tbind (zslDeleteRangeByRank (\<lambda>ob d. d @ [ob]) h zsl i j []) (\<lambda>(n, d, h, zsl). Some (Inr (ZGone n d, h, zsl)))"

text \<open>The same operations on the sorted list.\<close>

definition zinsert :: "'s::linorder \<times> u8 list \<Rightarrow> ('s \<times> u8 list) list \<Rightarrow> ('s \<times> u8 list) list" where
  "zinsert x es = filter (\<lambda>e. key_less e x) es @ x # filter (\<lambda>e. \<not> key_less e x) es"

fun rank_of :: "'a \<Rightarrow> 'a list \<Rightarrow> nat" where
  "rank_of x [] = 0"
| "rank_of x (y # ys) = (if x = y then 1 else if x \<in> set ys then rank_of x ys + 1 else 0)"

definition gone :: "('s \<times> u8 list) list \<Rightarrow> 's zans" where
  "gone es = ZGone (of_nat (length es)) (map snd es)"

fun zspec :: "('s::linorder \<times> u8 list) list \<Rightarrow> 's zop \<Rightarrow> 's zans \<times> ('s \<times> u8 list) list" where
  "zspec es (ZInsert s ob level x) = (ZDone True, zinsert (s, ob) es)"
| "zspec es (ZDelete s ob) = (ZDone ((s, ob) \<in> set es), remove1 (s, ob) es)"
| "zspec es (ZRank s ob) = (ZNum (of_nat (rank_of (s, ob) es)), es)"
| "zspec es (ZByRank r) = (ZElem (if unat r \<le> length es then Some (es ! (unat r - 1)) else None), es)"
| "zspec es (ZFirst r) = (ZElem (if filter (in_score_range r) es = [] then None else Some (hd (filter (in_score_range r) es))), es)"
| "zspec es (ZLast r) = (ZElem (if filter (in_score_range r) es = [] then None else Some (last (filter (in_score_range r) es))), es)"
| "zspec es (ZDeleteByScore r) = (gone (filter (in_score_range r) es), filter (\<lambda>e. \<not> in_score_range r e) es)"
| "zspec es (ZDeleteByRank i j) =
     (gone (take (unat j - (unat i - 1)) (drop (unat i - 1) es)),
      take (unat i - 1) es @ drop (unat j - (unat i - 1)) (drop (unat i - 1) es))"

text \<open>
  What the callers ensure: a new element is not in the set, the rank of an
  element is asked with its own score, ranks start at 1.
\<close>

fun zop_ok :: "'s::linorder zheap \<times> zskiplist \<Rightarrow> ('s \<times> u8 list) list \<Rightarrow> 's zop \<Rightarrow> bool" where
  "zop_ok s es (ZInsert sc ob level x) \<longleftrightarrow> ob \<notin> snd ` set es \<and> fst s x = None \<and> 1 \<le> level \<and> level \<le> ZSKIPLIST_MAXLEVEL \<and>
     length es + 1 < 2 ^ 32"
| "zop_ok s es (ZRank sc ob) \<longleftrightarrow> (sc, ob) \<in> set es \<or> ob \<notin> snd ` set es"
| "zop_ok s es (ZByRank r) \<longleftrightarrow> r \<noteq> 0"
| "zop_ok s es _ \<longleftrightarrow> True"

fun zrep :: "'s::linorder zheap \<times> zskiplist \<Rightarrow> ('s \<times> u8 list) list \<Rightarrow> bool" where
  "zrep (h, zsl) es \<longleftrightarrow> zsl_abs h zsl es \<and> distinct (map snd es)"

lemma all_less_two: "(\<forall>i < (2::nat). P i) \<longleftrightarrow> P 0 \<and> P 1"
  by (auto simp: less_2_cases_iff)

lemma zinsert_place:
  assumes "sorted_wrt key_less es"
  shows "below x es @ x # notbelow x es = zinsert x es"
proof -
  have m: "sorted_wrt (\<lambda>d e. key_less e x \<longrightarrow> key_less d x) es"
    by (rule sorted_wrt_mono_rel [OF _ assms]) (use key_less_trans in blast)
  let ?P = "\<lambda>e. key_less e x"
  have split: "filter Q es = filter Q (takeWhile ?P es) @ filter Q (dropWhile ?P es)" for Q
    by (metis filter_append takeWhile_dropWhile_id)
  have A: "?P e" if "e \<in> set (takeWhile ?P es)" for e using set_takeWhileD [OF that] by blast
  have "filter ?P (takeWhile ?P es) = takeWhile ?P es" "filter ?P (dropWhile ?P es) = []"
    "filter (\<lambda>e. \<not> ?P e) (takeWhile ?P es) = []" "filter (\<lambda>e. \<not> ?P e) (dropWhile ?P es) = dropWhile ?P es"
    unfolding filter_empty_conv filter_id_conv using A mono_drop [OF m] by blast+
  then show ?thesis unfolding zinsert_def below_def notbelow_def split by simp
qed

lemma rank_of_nth: "distinct ys \<Longrightarrow> j < length ys \<Longrightarrow> rank_of (ys ! j) ys = Suc j"
  by (induction ys arbitrary: j) (auto simp: nth_Cons split: nat.splits)

lemma rank_of_absent: "x \<notin> set ys \<Longrightarrow> rank_of x ys = 0"
  by (induction ys) auto

lemma fold_collect: "fold (\<lambda>ob d. d @ [ob]) obs d = d @ obs"
  by (induction obs arbitrary: d) auto

lemma list_cases: "(case xs of [] \<Rightarrow> None | e # _ \<Rightarrow> Some e) = (if xs = [] then None else Some (hd xs))"
  by (cases xs) auto

lemma distinct_objs: "distinct (map snd es) \<Longrightarrow> distinct (map snd (filter P es))"
  by (rule distinct_map_filter)

text \<open>Each operation answers as the sorted list does.\<close>

lemma zstep_simulates:
  fixes s :: "'s::linorder zheap \<times> zskiplist"
  assumes rep: "zrep s es" and ok: "zop_ok s es x"
  shows "\<exists>s'. zstep s x = Some (Inr (fst (zspec es x), s')) \<and> zrep s' (snd (zspec es x))"
proof -
  obtain h zsl where s: "s = (h, zsl)" by (cases s)
  obtain ts where r: "zsl_rep h zsl ts es" and d: "distinct (map snd es)" using rep s by (auto simp: zsl_abs_def)
  note abs = zsl_abs_def
  show ?thesis
  proof (cases x)
    case (ZInsert sc ob level a)
    have new: "(sc, ob) \<notin> set es" "ob \<notin> snd ` set es" using ok ZInsert by force+
    obtain h' zsl' ts' where i: "zslInsert h zsl sc ob level a = Some (Inr (h', zsl'))"
      "zsl_rep h' zsl' ts' (below (sc, ob) es @ (sc, ob) # notbelow (sc, ob) es)"
      by (rule zslInsert_spec [OF r new(1)]) (use ok ZInsert s in auto)
    have eq: "below (sc, ob) es @ (sc, ob) # notbelow (sc, ob) es = zinsert (sc, ob) es"
      by (rule zinsert_place [OF repD(12) [OF r]])
    have "distinct (map snd (below (sc, ob) es @ notbelow (sc, ob) es))" "ob \<notin> snd ` set (below (sc, ob) es @ notbelow (sc, ob) es)"
      unfolding below_split by (rule d, rule new(2))
    then have "distinct (map snd (below (sc, ob) es @ (sc, ob) # notbelow (sc, ob) es))" by auto
    then show ?thesis using i eq ZInsert s by (auto simp: abs)
  next
    case (ZDelete sc ob)
    obtain h' zsl' ts' where i: "zslDelete h zsl sc ob = Some (Inr ((sc, ob) \<in> set es, h', zsl'))"
      "zsl_rep h' zsl' ts' (remove1 (sc, ob) es)" by (rule zslDelete_spec [OF r])
    have "distinct (map snd (remove1 (sc, ob) es))"
      using d sorted_distinct [OF repD(12) [OF r]] by (simp add: distinct_remove1_removeAll removeAll_filter_not_eq distinct_objs)
    then show ?thesis using i ZDelete s by (auto simp: abs)
  next
    case (ZRank sc ob)
    have "zslGetRank h zsl sc ob = Some (Inr (of_nat (rank_of (sc, ob) es)))"
    proof (cases "(sc, ob) \<in> set es")
      case True
      then obtain j where j: "j < length es" "es ! j = (sc, ob)" by (auto simp: in_set_conv_nth)
      have "rank_of (es ! j) es = Suc j" by (rule rank_of_nth [OF sorted_distinct [OF repD(12) [OF r]] j(1)])
      then show ?thesis using rank_spec(1) [OF r d j(1)] j(2) by simp
    next
      case False
      then have "ob \<notin> snd ` set es" using ok ZRank by simp
      then show ?thesis using rank_spec(2) [OF r d] rank_of_absent [OF False] by simp
    qed
    then show ?thesis using ZRank s rep by auto
  next
    case (ZByRank k)
    have "1 \<le> unat k" using ok ZByRank by (simp add: Suc_leI unat_gt_0)
    then obtain p where "zslGetElementByRank h zsl k = Some (Inr p)"
      "node_key h p = (if unat k \<le> length es then Some (es ! (unat k - 1)) else None)"
      by (rule element_by_rank_spec [OF r])
    then show ?thesis using ZByRank s rep by auto
  next
    case (ZFirst q)
    obtain p where "zslFirstInRange h zsl q = Some (Inr p)"
      "node_key h p = (case filter (in_score_range q) es of [] \<Rightarrow> None | e # _ \<Rightarrow> Some e)"
      by (rule first_range_spec [OF r])
    then show ?thesis using ZFirst s rep by (auto simp: list_cases)
  next
    case (ZLast q)
    obtain p where "zslLastInRange h zsl q = Some (Inr p)"
      "node_key h p = (case rev (filter (in_score_range q) es) of [] \<Rightarrow> None | e # _ \<Rightarrow> Some e)"
      by (rule last_range_spec [OF r])
    then show ?thesis using ZLast s rep by (auto simp: list_cases hd_rev)
  next
    case (ZDeleteByScore q)
    obtain h' zsl' ts' where i: "zslDeleteRangeByScore (\<lambda>ob d. d @ [ob]) h zsl q [] =
      Some (Inr (of_nat (length (filter (in_score_range q) es)), fold (\<lambda>ob d. d @ [ob]) (map snd (filter (in_score_range q) es)) [], h', zsl'))"
      "zsl_rep h' zsl' ts' (filter (\<lambda>e. \<not> in_score_range q e) es)" by (rule delete_score_spec [OF r])
    then show ?thesis using ZDeleteByScore s distinct_objs [OF d] by (auto simp: abs gone_def fold_collect)
  next
    case (ZDeleteByRank i j)
    let ?a = "unat i - 1"
    obtain h' zsl' ts' where q: "zslDeleteRangeByRank (\<lambda>ob d. d @ [ob]) h zsl i j [] =
      Some (Inr (of_nat (length (take (unat j - ?a) (drop ?a es))), fold (\<lambda>ob d. d @ [ob]) (map snd (take (unat j - ?a) (drop ?a es))) [], h', zsl'))"
      "zsl_rep h' zsl' ts' (take ?a es @ drop (unat j - ?a) (drop ?a es))" by (rule delete_rank_spec [OF r])
    have "distinct (map snd (take ?a es @ take (unat j - ?a) (drop ?a es) @ drop (unat j - ?a) (drop ?a es)))" using d by (simp del: drop_drop map_append)
    then have "distinct (map snd (take ?a es @ drop (unat j - ?a) (drop ?a es)))" by (auto simp del: append_take_drop_id drop_drop)
    then show ?thesis using q ZDeleteByRank s by (auto simp: abs gone_def fold_collect)
  qed
qed

interpretation zs: simulation zrep zop_ok zstep zspec
  by unfold_locales (rule zstep_simulates)

section \<open>Properties\<close>

text \<open>A list of two elements.\<close>

definition demo_zheap :: "int zheap" where
  "demo_zheap =
     [0 \<mapsto> \<lparr>z_obj = None, z_score = 0, z_backward = None, z_level = [(Some 1, 1), (Some 2, 2)] @ replicate 30 (None, 0)\<rparr>,
      1 \<mapsto> \<lparr>z_obj = Some [97], z_score = 5, z_backward = None, z_level = [(Some 2, 1)]\<rparr>,
      2 \<mapsto> \<lparr>z_obj = Some [122], z_score = 5, z_backward = Some 1, z_level = [(None, 0), (None, 0)]\<rparr>]"

definition demo_zsl :: zskiplist where
  "demo_zsl = \<lparr>z_header = 0, z_tail = Some 2, z_length = 2, z_levels = 2\<rparr>"

lemma demo_rep: "zsl_rep demo_zheap demo_zsl [(1, 1), (2, 2)] [(5, [97]), (5, [122])]"
  by (simp add: zsl_rep_def demo_zheap_def demo_zsl_def towers_def info_def entry_def ZSKIPLIST_MAXLEVEL_def
      last_ptr_def key_less_def compare_simps all_less_two nth_append)

lemma demo_abs: "zsl_abs demo_zheap demo_zsl [(5, [97]), (5, [122])]"
  using demo_rep by (auto simp: zsl_abs_def)

text \<open>
  C11: any sequence of insertions, deletions, rank queries, range queries and
  range deletions on a skip list, with whatever levels are drawn, returns,
  faults nowhere, and answers as the sorted list of the elements does; the
  skip list represents that sorted list again at the end.
\<close>

theorem zset_operations_refine:
  assumes "zsl_abs h zsl es" and "distinct (map snd es)" and "run_allowed zop_ok zstep zspec (h, zsl) es xs"
  shows "\<exists>h' zsl'. run_part zstep (h, zsl) xs = Some (Inr (fst (run_ops zspec es xs), h', zsl')) \<and>
    zsl_abs h' zsl' (snd (run_ops zspec es xs)) \<and> distinct (map snd (snd (run_ops zspec es xs)))"
  using zs.run_simulates [of "(h, zsl)" es xs] assms by auto

theorem zset_operations_refine_witness:
  "\<exists>h' zsl'. run_part zstep (demo_zheap, demo_zsl) [ZDelete 5 [122], ZRank 5 [97], ZByRank 2] =
     Some (Inr ([ZDone True, ZNum 1, ZElem None], h', zsl')) \<and> zsl_abs h' zsl' [(5, [97])]"
proof -
  have "run_allowed zop_ok zstep zspec (demo_zheap, demo_zsl) [(5, [97]), (5, [122])] [ZDelete 5 [122], ZRank 5 [97], ZByRank 2]"
    by (auto split: option.splits sum.splits)
  from zset_operations_refine [OF demo_abs _ this] show ?thesis by simp
qed

text \<open>
  The rank of an element and the element at a rank are inverse: the
  element at the rank that \<open>zslGetRank\<close> gives is the one that was asked for,
  and that rank is at least 1; the rank of an absent object is 0.
\<close>

theorem rank_round_trip:
  assumes "zsl_abs h zsl es" and "distinct (map snd es)"
  shows "((score, obj) \<in> set es \<longrightarrow> (\<exists>r p. zslGetRank h zsl score obj = Some (Inr r) \<and> r \<noteq> 0 \<and>
      zslGetElementByRank h zsl r = Some (Inr p) \<and> node_key h p = Some (score, obj))) \<and>
    (obj \<notin> snd ` set es \<longrightarrow> zslGetRank h zsl score obj = Some (Inr 0))"
proof (intro conjI impI)
  obtain ts where r: "zsl_rep h zsl ts es" using assms(1) by (auto simp: zsl_abs_def)
  show "zslGetRank h zsl score obj = Some (Inr 0)" if "obj \<notin> snd ` set es" by (rule rank_spec(2) [OF r assms(2) that])
  assume "(score, obj) \<in> set es"
  then obtain j where j: "j < length es" "es ! j = (score, obj)" by (auto simp: in_set_conv_nth)
  let ?r = "of_nat (Suc j) :: u64"
  have u: "unat ?r = Suc j" using j(1) repD(11,13) [OF r] by (simp add: unat_of_nat del: of_nat_Suc)
  obtain p where "zslGetElementByRank h zsl ?r = Some (Inr p)"
    "node_key h p = (if unat ?r \<le> length es then Some (es ! (unat ?r - 1)) else None)"
    by (rule element_by_rank_spec [OF r, of ?r]) (use u in auto)
  moreover have "?r \<noteq> 0" using u by (metis nat.distinct(1) unat_0)
  ultimately show "\<exists>r p. zslGetRank h zsl score obj = Some (Inr r) \<and> r \<noteq> 0 \<and>
      zslGetElementByRank h zsl r = Some (Inr p) \<and> node_key h p = Some (score, obj)"
    using rank_spec(1) [OF r assms(2) j(1)] j u by auto
qed

theorem rank_round_trip_witness:
  "(\<exists>r p. zslGetRank demo_zheap demo_zsl 5 [122] = Some (Inr r) \<and> r \<noteq> 0 \<and>
      zslGetElementByRank demo_zheap demo_zsl r = Some (Inr p) \<and> node_key demo_zheap p = Some (5, [122])) \<and>
   zslGetRank demo_zheap demo_zsl 5 [98] = Some (Inr 0)"
  using rank_round_trip [OF demo_abs, of 5 "[122]"] rank_round_trip [OF demo_abs, of 5 "[98]"] by simp

text \<open>
  \<open>zslFirstInRange\<close> and \<open>zslLastInRange\<close> give the first and the last
  element whose score is in the range, open and closed ends alike, and
  \<open>NULL\<close> exactly when there is none; their assertions hold.
\<close>

theorem score_range_search:
  assumes "zsl_abs h zsl es"
  shows "\<exists>p q. zslFirstInRange h zsl r = Some (Inr p) \<and> zslLastInRange h zsl r = Some (Inr q) \<and>
    (let found = filter (in_score_range r) es in
      if found = [] then p = None \<and> q = None else node_key h p = Some (hd found) \<and> node_key h q = Some (last found))"
proof -
  obtain ts where rep: "zsl_rep h zsl ts es" using assms by (auto simp: zsl_abs_def)
  obtain p where p: "zslFirstInRange h zsl r = Some (Inr p)" "p = None \<or> node_key h p \<noteq> None"
    "node_key h p = (case filter (in_score_range r) es of [] \<Rightarrow> None | e # _ \<Rightarrow> Some e)"
    by (rule first_range_spec [OF rep])
  obtain q where q: "zslLastInRange h zsl r = Some (Inr q)" "q = None \<or> node_key h q \<noteq> None"
    "node_key h q = (case rev (filter (in_score_range r) es) of [] \<Rightarrow> None | e # _ \<Rightarrow> Some e)"
    by (rule last_range_spec [OF rep])
  show ?thesis using p q by (auto simp: list_cases hd_rev Let_def)
qed

theorem score_range_search_witness:
  "\<exists>p q. zslFirstInRange demo_zheap demo_zsl \<lparr>zr_min = 3, zr_max = 5, zr_minex = True, zr_maxex = False\<rparr> = Some (Inr p) \<and>
     zslLastInRange demo_zheap demo_zsl \<lparr>zr_min = 3, zr_max = 5, zr_minex = True, zr_maxex = False\<rparr> = Some (Inr q) \<and>
     node_key demo_zheap p = Some (5, [97]) \<and> node_key demo_zheap q = Some (5, [122])"
  using score_range_search [OF demo_abs, of "\<lparr>zr_min = 3, zr_max = 5, zr_minex = True, zr_maxex = False\<rparr>"]
  by (simp add: in_score_range_def zslValueGteMin_def zslValueLteMax_def)

text \<open>
  C12: releasing a skip list frees the header and every node, touches nothing
  else, and decrements the reference count of every object once, in order.
\<close>

theorem zslFree_releases:
  assumes "zsl_abs h zsl es"
  shows "\<exists>h'. zslFree h zsl = Some (Inr (h', map snd es)) \<and>
    (\<exists>ts. zsl_rep h zsl ts es \<and> h' = h |` (- fst ` set (towers zsl ts)))"
  using assms zslFree_spec by (fastforce simp: zsl_abs_def)

theorem zslFree_releases_witness: "\<exists>h'. zslFree demo_zheap demo_zsl = Some (Inr (h', [[97], [122]]))"
  using zslFree_releases [OF demo_abs] by auto

text \<open>
  With elements of one score, \<open>zslFirstInLexRange\<close> and
  \<open>zslLastInLexRange\<close> give the first and the last element between the two
  ends, unless the ends differ and have the same string value, as an
  excluded \<open>maxstring\<close> and \<open>+\<close> do.
\<close>

theorem lex_range_search:
  assumes "zsl_abs h zsl es" and "same_score es" and "\<not> shared_clash r"
  shows "\<exists>p q. zslFirstInLexRange h zsl r = Some (Inr p) \<and> zslLastInLexRange h zsl r = Some (Inr q) \<and>
    (let found = filter (in_lex_range r) es in
      if found = [] then p = None \<and> q = None else node_key h p = Some (hd found) \<and> node_key h q = Some (last found))"
proof -
  obtain ts where rep: "zsl_rep h zsl ts es" using assms by (auto simp: zsl_abs_def)
  obtain p where p: "zslFirstInLexRange h zsl r = Some (Inr p)" "p = None \<or> node_key h p \<noteq> None"
    "node_key h p = (case filter (in_lex_range r) es of [] \<Rightarrow> None | e # _ \<Rightarrow> Some e)"
    by (rule first_lex_spec [OF rep assms(2,3)])
  obtain q where q: "zslLastInLexRange h zsl r = Some (Inr q)" "q = None \<or> node_key h q \<noteq> None"
    "node_key h q = (case rev (filter (in_lex_range r) es) of [] \<Rightarrow> None | e # _ \<Rightarrow> Some e)"
    by (rule last_lex_spec [OF rep assms(2,3)])
  show ?thesis using p q by (auto simp: list_cases hd_rev Let_def)
qed

theorem lex_range_search_witness:
  "\<exists>p q. zslFirstInLexRange demo_zheap demo_zsl \<lparr>zl_min = Str [98], zl_max = MaxString, zl_minex = False, zl_maxex = False\<rparr> = Some (Inr p) \<and>
     zslLastInLexRange demo_zheap demo_zsl \<lparr>zl_min = Str [98], zl_max = MaxString, zl_minex = False, zl_maxex = False\<rparr> = Some (Inr q) \<and>
     node_key demo_zheap p = Some (5, [122]) \<and> node_key demo_zheap q = Some (5, [122])"
  using lex_range_search [OF demo_abs, of "\<lparr>zl_min = Str [98], zl_max = MaxString, zl_minex = False, zl_maxex = False\<rparr>"]
  by (simp add: same_score_def shared_clash_def in_lex_range_def zslLexValueGteMin_def zslLexValueLteMax_def compare_simps)

text \<open>
  The range \<open>(maxstring +\<close> is answered as empty on every list, by
  \<open>zslIsInLexRange\<close>, although elements are in it: the test for empty ranges
  compares the string value of the shared object that stands for infinity.
  \<open>zslDeleteRangeByLex\<close> does find such elements.
\<close>

theorem lex_range_maxstring:
  "\<exists>r. zslParseLexRange (StrArg (bytes_of ''(maxstring'')) (StrArg (bytes_of ''+'')) = Some r \<and>
    (\<forall>h zsl. zslFirstInLexRange h zsl r = Some (Inr None) \<and> zslLastInLexRange h zsl r = Some (Inr None)) \<and>
    (\<exists>es. zsl_abs demo_zheap demo_zsl es \<and> in_lex_range r (last es) \<and>
      (\<exists>h' zsl'. zslDeleteRangeByLex (\<lambda>ob d. d @ [ob]) demo_zheap demo_zsl r [] = Some (Inr (1, [snd (last es)], h', zsl'))))"
proof -
  let ?r = "\<lparr>zl_min = Str (bytes_of ''maxstring''), zl_max = MaxString, zl_minex = True, zl_maxex = False\<rparr>"
  let ?es = "[(5, [97]), (5, [122])] :: (int \<times> u8 list) list"
  have p: "zslParseLexRange (StrArg (bytes_of ''(maxstring'')) (StrArg (bytes_of ''+'')) = Some ?r"
    by (simp add: zslParseLexRange_def zslParseLexRangeItem_def sds_at_def)
  have e: "empty_lex_range ?r" by (simp add: empty_lex_range_def)
  have f: "filter (in_lex_range ?r) ?es = [(5, [122])]"
    by (simp add: in_lex_range_def zslLexValueGteMin_def zslLexValueLteMax_def compare_simps)
  have same: "same_score ?es" by (simp add: same_score_def)
  obtain h' zsl' where "zslDeleteRangeByLex (\<lambda>ob d. d @ [ob]) demo_zheap demo_zsl ?r [] = Some (Inr (1, [[122]], h', zsl'))"
    by (rule delete_lex_spec [OF demo_rep same, of "\<lambda>ob d. d @ [ob]" ?r "[]", unfolded f]) (simp add: fold_collect)
  moreover have "in_lex_range ?r (last ?es)"
    by (simp add: in_lex_range_def zslLexValueGteMin_def zslLexValueLteMax_def compare_simps)
  ultimately show ?thesis
    using p e demo_abs
    by (intro exI [of _ ?r] conjI exI [of _ ?es])
      (auto simp: zslFirstInLexRange_def zslLastInLexRange_def first_in_range_def last_in_range_def is_in_range_def)
qed

end
