(* ===== verification/Sds.thy ===== *)
theory Sds
  imports Interfaces
begin

text \<open>
  The dynamic strings of \<open>sds.c\<close>: a header with the length and the free space,
  and a buffer that ends with a zero byte.  \<open>const char *\<close> arguments are the
  bytes from the pointer on; reads and writes are checked against the buffers.
  \<open>g\<close> stands for the indeterminate bytes of new memory.
\<close>

section \<open>Strings and memory\<close>

record sds =
  sds_len :: u32
  sds_free :: u32
  sds_buf :: "u8 list"

definition SDS_MAX_PREALLOC :: nat where "SDS_MAX_PREALLOC = 1024 * 1024"

definition sdslen :: "sds \<Rightarrow> nat" where "sdslen s = unat (sds_len s)"

definition sdsavail :: "sds \<Rightarrow> nat" where "sdsavail s = unat (sds_free s)"

text \<open>\<open>memcpy\<close> out of and into a buffer, \<open>strlen\<close> and \<open>strchr\<close>.\<close>

definition getb :: "u8 list \<Rightarrow> nat \<Rightarrow> nat \<Rightarrow> u8 list res" where
  "getb b i n = (if i + n \<le> length b then Inr (peek b i n) else Inl OutOfBounds)"

definition putb :: "u8 list \<Rightarrow> nat \<Rightarrow> u8 list \<Rightarrow> u8 list res" where
  "putb b i xs = (if i + length xs \<le> length b then Inr (poke b i xs) else Inl OutOfBounds)"

definition strlen :: "u8 list \<Rightarrow> nat res" where
  "strlen t = (if 0 \<in> set t then Inr (length (cstr t)) else Inl OutOfBounds)"

definition strchr :: "u8 list \<Rightarrow> u8 \<Rightarrow> bool res" where
  "strchr t c = (if 0 \<in> set t then Inr (c = 0 \<or> c \<in> set (cstr t)) else Inl OutOfBounds)"

section \<open>Creation and room\<close>

definition sdsnewlen :: "(nat \<Rightarrow> u8) \<Rightarrow> u8 list option \<Rightarrow> nat \<Rightarrow> sds res" where
  "sdsnewlen g init initlen =
     rbind (case init of
              None \<Rightarrow> Inr (replicate (initlen + 1) 0)
            | Some d \<Rightarrow> rbind (getb d 0 initlen) (\<lambda>xs. putb (realloc g [] (initlen + 1)) 0 xs)) (\<lambda>buf.
     rbind (putb buf initlen [0]) (\<lambda>buf.
     Inr \<lparr>sds_len = of_nat initlen, sds_free = 0, sds_buf = buf\<rparr>))"

definition sdsempty :: "(nat \<Rightarrow> u8) \<Rightarrow> sds res" where
  "sdsempty g = sdsnewlen g (Some [0]) 0"

definition sdsnew :: "(nat \<Rightarrow> u8) \<Rightarrow> u8 list option \<Rightarrow> sds res" where
  "sdsnew g init =
     rbind (case init of None \<Rightarrow> Inr 0 | Some t \<Rightarrow> strlen t) (\<lambda>initlen. sdsnewlen g init initlen)"

definition sdsdup :: "(nat \<Rightarrow> u8) \<Rightarrow> sds \<Rightarrow> sds res" where
  "sdsdup g s = sdsnewlen g (Some (sds_buf s)) (sdslen s)"

definition sdsupdatelen :: "sds \<Rightarrow> sds res" where
  "sdsupdatelen s =
     rbind (strlen (sds_buf s)) (\<lambda>reallen.
     Inr (s\<lparr>sds_free := sds_free s + (sds_len s - of_nat reallen), sds_len := of_nat reallen\<rparr>))"

definition sdsclear :: "sds \<Rightarrow> sds res" where
  "sdsclear s =
     rbind (putb (sds_buf s) 0 [0]) (\<lambda>buf.
     Inr (s\<lparr>sds_free := sds_free s + sds_len s, sds_len := 0, sds_buf := buf\<rparr>))"

definition sdsMakeRoomFor :: "(nat \<Rightarrow> u8) \<Rightarrow> sds \<Rightarrow> nat \<Rightarrow> sds" where
  "sdsMakeRoomFor g s addlen =
     (if sdsavail s \<ge> addlen then s
      else
        let len = sdslen s;
            newlen = len + addlen;
            newlen = (if newlen < SDS_MAX_PREALLOC then newlen * 2 else newlen + SDS_MAX_PREALLOC)
        in s\<lparr>sds_buf := realloc g (sds_buf s) (newlen + 1), sds_free := of_nat (newlen - len)\<rparr>)"

definition sdsRemoveFreeSpace :: "(nat \<Rightarrow> u8) \<Rightarrow> sds \<Rightarrow> sds" where
  "sdsRemoveFreeSpace g s = s\<lparr>sds_buf := realloc g (sds_buf s) (sdslen s + 1), sds_free := 0\<rparr>"

definition sizeof_sdshdr :: nat where "sizeof_sdshdr = 8"

definition sdsAllocSize :: "sds \<Rightarrow> nat" where
  "sdsAllocSize s = sizeof_sdshdr + sdslen s + sdsavail s + 1"

definition sdsIncrLen :: "sds \<Rightarrow> int \<Rightarrow> sds res" where
  "sdsIncrLen s incr =
     rbind (if incr \<ge> 0 then Inr incr else s32 (- incr)) (\<lambda>n.
     if (if incr \<ge> 0 then sds_free s else sds_len s) \<ge> word_of_int n
      then
        let len = sds_len s + word_of_int incr
        in rbind (putb (sds_buf s) (unat len) [0]) (\<lambda>buf.
           Inr (s\<lparr>sds_len := len, sds_free := sds_free s - word_of_int incr, sds_buf := buf\<rparr>))
      else Inl AssertFailed)"

definition sdsgrowzero :: "(nat \<Rightarrow> u8) \<Rightarrow> sds \<Rightarrow> nat \<Rightarrow> sds res" where
  "sdsgrowzero g s len =
     (let curlen = sdslen s in
      if len \<le> curlen then Inr s
      else
        let s = sdsMakeRoomFor g s (len - curlen) in
        rbind (putb (sds_buf s) curlen (replicate (len - curlen + 1) 0)) (\<lambda>buf.
        let totlen = sds_len s + sds_free s
        in Inr (s\<lparr>sds_len := of_nat len, sds_free := totlen - of_nat len, sds_buf := buf\<rparr>)))"

section \<open>Concatenation and copy\<close>

definition sdscatlen :: "(nat \<Rightarrow> u8) \<Rightarrow> sds \<Rightarrow> u8 list \<Rightarrow> nat \<Rightarrow> sds res" where
  "sdscatlen g s t len =
     (let curlen = sdslen s; s = sdsMakeRoomFor g s len in
      rbind (getb t 0 len) (\<lambda>xs.
      rbind (putb (sds_buf s) curlen xs) (\<lambda>buf.
      rbind (putb buf (curlen + len) [0]) (\<lambda>buf.
      Inr (s\<lparr>sds_len := of_nat (curlen + len), sds_free := sds_free s - of_nat len, sds_buf := buf\<rparr>)))))"

definition sdscat :: "(nat \<Rightarrow> u8) \<Rightarrow> sds \<Rightarrow> u8 list \<Rightarrow> sds res" where
  "sdscat g s t = rbind (strlen t) (\<lambda>len. sdscatlen g s t len)"

definition sdscatsds :: "(nat \<Rightarrow> u8) \<Rightarrow> sds \<Rightarrow> sds \<Rightarrow> sds res" where
  "sdscatsds g s t = sdscatlen g s (sds_buf t) (sdslen t)"

definition sdscpylen :: "(nat \<Rightarrow> u8) \<Rightarrow> sds \<Rightarrow> u8 list \<Rightarrow> nat \<Rightarrow> sds res" where
  "sdscpylen g s t len =
     (let totlen = sds_free s + sds_len s;
          s = (if unat totlen < len then sdsMakeRoomFor g s (len - sdslen s) else s);
          totlen = sds_free s + sds_len s
      in rbind (getb t 0 len) (\<lambda>xs.
         rbind (putb (sds_buf s) 0 xs) (\<lambda>buf.
         rbind (putb buf len [0]) (\<lambda>buf.
         Inr (s\<lparr>sds_len := of_nat len, sds_free := totlen - of_nat len, sds_buf := buf\<rparr>)))))"

definition sdscpy :: "(nat \<Rightarrow> u8) \<Rightarrow> sds \<Rightarrow> u8 list \<Rightarrow> sds res" where
  "sdscpy g s t = rbind (strlen t) (\<lambda>len. sdscpylen g s t len)"

section \<open>Trimming and ranges\<close>

text \<open>The two loops of \<open>sdstrim\<close>; \<open>ep > start\<close> is a test of the position against 0.\<close>

function trim_left :: "u8 list \<Rightarrow> u8 list \<Rightarrow> nat \<Rightarrow> nat \<Rightarrow> nat res" where
  "trim_left buf cset len sp =
     (if sp < len
      then rbind (rd buf sp) (\<lambda>c. rbind (strchr cset c) (\<lambda>b.
           if b then trim_left buf cset len (sp + 1) else Inr sp))
      else Inr sp)"
  by pat_completeness auto
termination by (relation "measure (\<lambda>(buf, cset, len, sp). len - sp)") auto

declare trim_left.simps [simp del]

fun trim_right :: "u8 list \<Rightarrow> u8 list \<Rightarrow> nat \<Rightarrow> nat res" where
  "trim_right buf cset 0 = Inr 0"
| "trim_right buf cset (Suc e) =
     rbind (rd buf (Suc e)) (\<lambda>c. rbind (strchr cset c) (\<lambda>b.
     if b then trim_right buf cset e else Inr (Suc e)))"

definition sdstrim :: "sds \<Rightarrow> u8 list \<Rightarrow> sds res" where
  "sdstrim s cset =
     (let buf = sds_buf s; end' = int (sdslen s) - 1 in
      rbind (trim_left buf cset (sdslen s) 0) (\<lambda>sp.
      rbind (if end' > 0 then map_sum id int (trim_right buf cset (nat end')) else Inr end') (\<lambda>ep.
      let len = (if int sp > ep then 0 else nat (ep - int sp + 1)) in
      rbind (if sp \<noteq> 0 then rbind (getb buf sp len) (\<lambda>xs. putb buf 0 xs) else Inr buf) (\<lambda>buf.
      rbind (putb buf len [0]) (\<lambda>buf.
      Inr (s\<lparr>sds_free := sds_free s + (sds_len s - of_nat len), sds_len := of_nat len, sds_buf := buf\<rparr>))))))"

text \<open>\<open>start\<close> and \<open>end\<close> are of type \<open>int\<close>; the difference is computed in it.\<close>

definition as_int :: "int \<Rightarrow> int" where "as_int x = sint (word_of_int x :: 32 word)"

definition range_len :: "int \<Rightarrow> int \<Rightarrow> nat res" where
  "range_len start end' =
     (if start > end' then Inr 0
      else if end' - start + 1 < 2 ^ 31 then Inr (nat (end' - start + 1)) else Inl SignedOverflow)"

definition sdsrange :: "sds \<Rightarrow> int \<Rightarrow> int \<Rightarrow> sds res" where
  "sdsrange s start end' =
     (let len = sdslen s in
      if len = 0 then Inr s
      else
        let start = (if start < 0 then max 0 (as_int (int len + start)) else start);
            end' = (if end' < 0 then max 0 (as_int (int len + end')) else end')
        in rbind (range_len start end') (\<lambda>newlen.
        rbind (if newlen \<noteq> 0
               then if start \<ge> as_int (int len) then Inr (start, 0)
                    else if end' \<ge> as_int (int len)
                    then rbind (range_len start (as_int (int len - 1))) (\<lambda>newlen. Inr (start, newlen))
                    else Inr (start, newlen)
               else Inr (0, newlen)) (\<lambda>(start, newlen).
        rbind (if start \<noteq> 0 \<and> newlen \<noteq> 0
               then rbind (getb (sds_buf s) (nat start) newlen) (\<lambda>xs. putb (sds_buf s) 0 xs)
               else Inr (sds_buf s)) (\<lambda>buf.
        rbind (putb buf newlen [0]) (\<lambda>buf.
        Inr (s\<lparr>sds_free := sds_free s + (sds_len s - of_nat newlen), sds_len := of_nat newlen, sds_buf := buf\<rparr>))))))"

section \<open>Characters and comparison\<close>

text \<open>
  The loops over the characters, up to a bound \<open>n\<close>: the length as a \<open>size_t\<close>
  in \<open>sdsmapchars\<close>, as an \<open>int\<close> in \<open>sdstolower\<close> and \<open>sdstoupper\<close>, which
  do nothing where the conversion makes it negative.
\<close>

definition each_char :: "(u8 \<Rightarrow> u8 res) \<Rightarrow> nat \<Rightarrow> sds \<Rightarrow> sds res" where
  "each_char f n s =
     rbind (for_each (\<lambda>j buf. rbind (rd buf j) (\<lambda>c. rbind (f c) (\<lambda>d. putb buf j [d]))) [0..<n] (sds_buf s)) (\<lambda>buf.
     Inr (s\<lparr>sds_buf := buf\<rparr>))"

definition sdstolower :: "sds \<Rightarrow> sds res" where
  "sdstolower s = each_char (\<lambda>c. Inr (tolower8 c)) (nat (int_of_size (sdslen s))) s"

definition sdstoupper :: "sds \<Rightarrow> sds res" where
  "sdstoupper s = each_char (\<lambda>c. Inr (toupper8 c)) (nat (int_of_size (sdslen s))) s"

fun mapchar :: "u8 list \<Rightarrow> u8 list \<Rightarrow> nat list \<Rightarrow> u8 \<Rightarrow> u8 res" where
  "mapchar src dst [] c = Inr c"
| "mapchar src dst (i # is) c = rbind (rd src i) (\<lambda>f. if c = f then rd dst i else mapchar src dst is c)"

definition sdsmapchars :: "sds \<Rightarrow> u8 list \<Rightarrow> u8 list \<Rightarrow> nat \<Rightarrow> sds res" where
  "sdsmapchars s src dst setlen = each_char (mapchar src dst [0..<setlen]) (sdslen s) s"

definition sdscmp :: "sds \<Rightarrow> sds \<Rightarrow> int res" where
  "sdscmp s1 s2 =
     (let l1 = sdslen s1; l2 = sdslen s2; minlen = min l1 l2 in
      rbind (getb (sds_buf s1) 0 minlen) (\<lambda>a.
      rbind (getb (sds_buf s2) 0 minlen) (\<lambda>b.
      let cmp = memcmp a b in Inr (if cmp = 0 then as_int (int l1 - int l2) else cmp))))"

section \<open>What a string holds\<close>

text \<open>
  The buffer of a well-formed string is its content, the terminator and the
  free bytes; length and free space are those of the header.
\<close>

definition sds_raw :: "sds \<Rightarrow> u8 list \<Rightarrow> u8 \<Rightarrow> bool" where
  "sds_raw s xs t \<longleftrightarrow>
     (\<exists>rest. s = \<lparr>sds_len = of_nat (length xs), sds_free = of_nat (length rest), sds_buf = xs @ t # rest\<rparr> \<and>
       length xs + length rest < 2 ^ 32)"

abbreviation sds_rep :: "sds \<Rightarrow> u8 list \<Rightarrow> bool" where
  "sds_rep s xs \<equiv> sds_raw s xs 0"

lemma sds_repI:
  "sds_len s = of_nat (length xs) \<Longrightarrow> sds_free s = of_nat (length rest) \<Longrightarrow> sds_buf s = xs @ t # rest \<Longrightarrow>
   length xs + length rest < 2 ^ 32 \<Longrightarrow> sds_raw s xs t"
  by (auto simp: sds_raw_def intro!: exI [of _ rest])

lemma sds_repE:
  assumes "sds_raw s xs t"
  obtains rest where "s = \<lparr>sds_len = of_nat (length xs), sds_free = of_nat (length rest), sds_buf = xs @ t # rest\<rparr>"
    "length xs + length rest < 2 ^ 32" "sdslen s = length xs" "sdsavail s = length rest"
  using assms by (fastforce simp: sds_raw_def sdslen_def sdsavail_def unat_of_nat)

lemma sds_rep_len: "sds_raw s xs t \<Longrightarrow> sdslen s = length xs"
  by (auto elim: sds_repE)

lemma putb_append [simp]:
  "length a = i \<Longrightarrow> length xs \<le> length b \<Longrightarrow> putb (a @ b) i xs = Inr (a @ xs @ drop (length xs) b)"
  by (auto simp: putb_def poke_def)

lemma putb_0 [simp]: "length xs \<le> length b \<Longrightarrow> putb b 0 xs = Inr (xs @ drop (length xs) b)"
  using putb_append [of "[]" 0 xs b] by simp

lemma getb_append [simp]:
  "length a = i \<Longrightarrow> n \<le> length b \<Longrightarrow> getb (a @ b) i n = Inr (take n b)"
  by (auto simp: getb_def peek_def)

lemma getb_0 [simp]: "n \<le> length b \<Longrightarrow> getb b 0 n = Inr (take n b)"
  using getb_append [of "[]" 0 n b] by simp

lemma cstr_append: "0 \<notin> set xs \<Longrightarrow> cstr (xs @ 0 # ys) = xs"
  by (induction xs) (auto simp: cstr_def)

lemma strlen_cstr: "0 \<notin> set xs \<Longrightarrow> strlen (xs @ 0 # ys) = Inr (length xs)"
  by (simp add: strlen_def cstr_append)

section \<open>The operations\<close>

lemma sdsnewlen_spec:
  assumes "length xs < 2 ^ 32"
  shows "\<exists>s. sdsnewlen g (Some (xs @ ys)) (length xs) = Inr s \<and> sds_rep s xs"
    and "\<exists>s. sdsnewlen g None n = Inr s \<and> (n < 2 ^ 32 \<longrightarrow> sds_rep s (replicate n 0))"
proof -
  let ?b = "realloc g [] (length xs + 1)"
  have l: "length ?b = length xs + 1" by (simp add: length_realloc)
  have "putb (xs @ drop (length xs) ?b) (length xs) [0] = Inr (xs @ [0])"
    using l by (subst putb_append) simp_all
  then show "\<exists>s. sdsnewlen g (Some (xs @ ys)) (length xs) = Inr s \<and> sds_rep s xs"
    using assms l by (auto simp: sdsnewlen_def sds_raw_def)
  have "putb (replicate n (0::u8) @ [0]) n [0] = Inr (replicate n 0 @ [0])" by simp
  then show "\<exists>s. sdsnewlen g None n = Inr s \<and> (n < 2 ^ 32 \<longrightarrow> sds_rep s (replicate n 0))"
    by (auto simp: sdsnewlen_def replicate_append_same intro!: sds_repI [of _ _ "[]"])
qed

lemma sdsdup_spec: "sds_rep s xs \<Longrightarrow> \<exists>t. sdsdup g s = Inr t \<and> sds_rep t xs"
  by (erule sds_repE) (simp add: sdsdup_def sdsnewlen_spec)

lemma makeRoom_spec:
  assumes "sds_raw s xs t" and "length xs + addlen + 2 ^ 20 < 2 ^ 32"
  shows "sds_raw (sdsMakeRoomFor g s addlen) xs t" and "addlen \<le> sdsavail (sdsMakeRoomFor g s addlen)"
proof -
  obtain rest where s: "s = \<lparr>sds_len = of_nat (length xs), sds_free = of_nat (length rest), sds_buf = xs @ t # rest\<rparr>"
    "length xs + length rest < 2 ^ 32" "sdslen s = length xs" "sdsavail s = length rest"
    using assms(1) by (rule sds_repE)
  define n where "n = (if length xs + addlen < SDS_MAX_PREALLOC then (length xs + addlen) * 2 else length xs + addlen + SDS_MAX_PREALLOC)"
  have n: "length xs + addlen \<le> n" "n < 2 ^ 32" using assms(2) by (auto simp: n_def SDS_MAX_PREALLOC_def)
  let ?r = "take (n - length xs) rest @ map g [length xs + 1 + length rest..<n + 1]"
  have "sds_raw (sdsMakeRoomFor g s addlen) xs t \<and> addlen \<le> sdsavail (sdsMakeRoomFor g s addlen)" if "sdsavail s < addlen"
  proof -
    have b: "realloc g (xs @ t # rest) (n + 1) = xs @ t # ?r"
      using n(1) by (simp add: realloc_def Suc_diff_le)
    have r: "length ?r = n - length xs" using that n(1) s(4) by (simp add: min_def)
    have m: "sdsMakeRoomFor g s addlen = \<lparr>sds_len = of_nat (length xs), sds_free = of_nat (n - length xs), sds_buf = xs @ t # ?r\<rparr>"
      using that s(1,3) b by (simp add: sdsMakeRoomFor_def n_def Let_def)
    have "sds_raw (sdsMakeRoomFor g s addlen) xs t"
      by (rule sds_repI [of _ _ ?r]) (use m r n in simp_all)
    moreover have "addlen \<le> sdsavail (sdsMakeRoomFor g s addlen)"
      using m n by (simp add: sdsavail_def unat_of_nat del: of_nat_diff)
    ultimately show ?thesis by blast
  qed
  moreover have "sdsMakeRoomFor g s addlen = s" if "addlen \<le> sdsavail s" using that by (simp add: sdsMakeRoomFor_def)
  ultimately show "sds_raw (sdsMakeRoomFor g s addlen) xs t" "addlen \<le> sdsavail (sdsMakeRoomFor g s addlen)"
    using assms(1) by (metis linorder_not_less)+
qed

lemma removeFree_spec:
  assumes "sds_rep s xs"
  shows "sds_rep (sdsRemoveFreeSpace g s) xs"
proof -
  obtain rest where s: "s = \<lparr>sds_len = of_nat (length xs), sds_free = of_nat (length rest), sds_buf = xs @ 0 # rest\<rparr>"
    "length xs + length rest < 2 ^ 32" "sdslen s = length xs"
    using assms by (rule sds_repE)
  show ?thesis by (rule sds_repI [of _ _ "[]"]) (use s in \<open>simp_all add: sdsRemoveFreeSpace_def realloc_def\<close>)
qed

lemma allocSize_spec: "sds_rep s xs \<Longrightarrow> sdsAllocSize s = sizeof_sdshdr + length (sds_buf s)"
  by (erule sds_repE) (simp add: sdsAllocSize_def)

text \<open>Appending and overwriting within the room.\<close>

lemma append_spec:
  assumes "sds_rep s xs" and "length ys \<le> sdsavail s"
  shows "\<exists>buf buf' s'. putb (sds_buf s) (length xs) ys = Inr buf \<and> putb buf (length xs + length ys) [0] = Inr buf' \<and>
    s' = s\<lparr>sds_len := of_nat (length xs + length ys), sds_free := sds_free s - of_nat (length ys), sds_buf := buf'\<rparr> \<and> sds_rep s' (xs @ ys)"
proof -
  obtain rest where s: "s = \<lparr>sds_len = of_nat (length xs), sds_free = of_nat (length rest), sds_buf = xs @ 0 # rest\<rparr>"
    "length xs + length rest < 2 ^ 32" "sdsavail s = length rest"
    using assms(1) by (rule sds_repE)
  let ?b = "xs @ ys @ drop (length ys) (0 # rest)"
  have 1: "putb (sds_buf s) (length xs) ys = Inr ?b" using s assms(2) by simp
  have "putb ((xs @ ys) @ drop (length ys) (0 # rest)) (length xs + length ys) [0] =
      Inr ((xs @ ys) @ [0] @ drop (length [0 :: u8]) (drop (length ys) (0 # rest)))"
    using s assms(2) by (intro putb_append) simp_all
  then have 2: "putb ?b (length xs + length ys) [0] = Inr ((xs @ ys) @ 0 # drop (length ys) rest)"
    by (simp add: drop_Cons' split: if_splits)
  have "sds_rep (s\<lparr>sds_len := of_nat (length xs + length ys), sds_free := sds_free s - of_nat (length ys),
      sds_buf := (xs @ ys) @ 0 # drop (length ys) rest\<rparr>) (xs @ ys)"
    using s assms(2) by (intro sds_repI [of _ _ "drop (length ys) rest"]) simp_all
  then show ?thesis using 1 2 by blast
qed

lemma sdscatlen_spec:
  assumes "sds_rep s xs" and "length xs + length ys + 2 ^ 20 < 2 ^ 32"
  shows "\<exists>s'. sdscatlen g s (ys @ zs) (length ys) = Inr s' \<and> sds_rep s' (xs @ ys)"
  using append_spec [OF makeRoom_spec [OF assms, of g]] sds_rep_len [OF assms(1)]
  by (auto simp: sdscatlen_def Let_def)

lemma sdscat_spec:
  assumes "sds_rep s xs" and "length xs + length ys + 2 ^ 20 < 2 ^ 32" and "0 \<notin> set ys"
  shows "\<exists>s'. sdscat g s (ys @ 0 # zs) = Inr s' \<and> sds_rep s' (xs @ ys)"
  using sdscatlen_spec [OF assms(1,2), of g "0 # zs"] strlen_cstr [OF assms(3)] by (simp add: sdscat_def)

lemma sdscatsds_spec:
  assumes "sds_rep s xs" and "sds_rep t ys" and "length xs + length ys + 2 ^ 20 < 2 ^ 32"
  shows "\<exists>s'. sdscatsds g s t = Inr s' \<and> sds_rep s' (xs @ ys)"
  using assms(2) by (rule sds_repE) (use sdscatlen_spec [OF assms(1,3)] in \<open>simp add: sdscatsds_def\<close>)

text \<open>Cutting: the buffer is kept, and the length becomes that of a prefix of its content.\<close>

lemma rebuild:
  assumes "sds_rep s xs" and "length ys + length r = length xs + sdsavail s"
  shows "sds_rep \<lparr>sds_len = of_nat (length ys), sds_free = sds_free s + (sds_len s - of_nat (length ys)), sds_buf = ys @ 0 # r\<rparr> ys"
    and "sds_rep \<lparr>sds_len = of_nat (length ys), sds_free = sds_len s + sds_free s - of_nat (length ys), sds_buf = ys @ 0 # r\<rparr> ys"
proof -
  obtain rest where s: "s = \<lparr>sds_len = of_nat (length xs), sds_free = of_nat (length rest), sds_buf = xs @ 0 # rest\<rparr>"
    "length xs + length rest < 2 ^ 32" "sdsavail s = length rest"
    using assms(1) by (rule sds_repE)
  have "(of_nat (length ys + length r) :: u32) = of_nat (length xs + length rest)" using assms(2) s(3) by simp
  then have "of_nat (length r) = sds_free s + (sds_len s - of_nat (length ys))"
    "of_nat (length r) = sds_len s + sds_free s - of_nat (length ys)"
    by (simp_all add: s(1) algebra_simps)
  then show "sds_rep \<lparr>sds_len = of_nat (length ys), sds_free = sds_free s + (sds_len s - of_nat (length ys)), sds_buf = ys @ 0 # r\<rparr> ys"
    "sds_rep \<lparr>sds_len = of_nat (length ys), sds_free = sds_len s + sds_free s - of_nat (length ys), sds_buf = ys @ 0 # r\<rparr> ys"
    using assms(2) s(2,3) by (auto intro!: sds_repI [of _ _ r])
qed

lemma putb_nul: "n < length b \<Longrightarrow> putb b n [0] = Inr (take n b @ 0 # drop (Suc n) b)"
  by (simp add: putb_def poke_def)

lemma cut_spec:
  assumes "sds_rep s xs" and "length b = length (sds_buf s)" and "n \<le> length xs + sdsavail s"
  shows "\<exists>buf. putb b n [0] = Inr buf \<and>
    sds_rep \<lparr>sds_len = of_nat n, sds_free = sds_free s + (sds_len s - of_nat n), sds_buf = buf\<rparr> (take n b) \<and>
    sds_rep \<lparr>sds_len = of_nat n, sds_free = sds_len s + sds_free s - of_nat n, sds_buf = buf\<rparr> (take n b)"
proof -
  have l: "length b = length xs + sdsavail s + 1" using assms(1,2) by (auto elim!: sds_repE)
  then have n: "n < length b" and t: "length (take n b) = n" using assms(3) by simp_all
  have "length (take n b) + length (drop (Suc n) b) = length xs + sdsavail s" using l assms(3) by simp
  from rebuild [OF assms(1) this] show ?thesis unfolding t putb_nul [OF n] by simp
qed

lemma sdsclear_spec: "sds_rep s xs \<Longrightarrow> \<exists>s'. sdsclear s = Inr s' \<and> sds_rep s' []"
  using cut_spec [of s xs "sds_buf s" 0] by (cases s) (auto simp: sdsclear_def)

lemma sdsgrowzero_spec:
  assumes rep: "sds_rep s xs" and "len + 2 ^ 20 < 2 ^ 32"
  shows "\<exists>s'. sdsgrowzero g s len = Inr s' \<and> sds_rep s' (xs @ replicate (len - length xs) 0)"
proof (cases "len \<le> length xs")
  case True
  then show ?thesis using rep sds_rep_len [OF rep] by (simp add: sdsgrowzero_def)
next
  case False
  let ?k = "len - length xs"
  let ?s = "sdsMakeRoomFor g s ?k"
  have r: "sds_rep ?s xs" "?k \<le> sdsavail ?s" using makeRoom_spec [OF rep, of ?k g] assms(2) False by auto
  obtain rest where s: "?s = \<lparr>sds_len = of_nat (length xs), sds_free = of_nat (length rest), sds_buf = xs @ 0 # rest\<rparr>"
    "length xs + length rest < 2 ^ 32" "sdsavail ?s = length rest"
    using r(1) by (rule sds_repE)
  let ?z = "xs @ replicate ?k 0"
  have rr: "replicate (?k + 1) (0::u8) = replicate ?k 0 @ [0]" by (simp add: replicate_append_same)
  have "putb (sds_buf ?s) (length xs) (replicate (?k + 1) 0) = Inr (?z @ 0 # drop ?k rest)"
    unfolding rr using s r(2) by simp
  moreover have "length ?z = len" "length ?z + length (drop ?k rest) = length xs + sdsavail ?s" using False r(2) s(3) by simp_all
  ultimately show ?thesis using rebuild(2) [OF r(1), of ?z "drop ?k rest"] sds_rep_len [OF rep] False
    by (cases ?s) (simp add: sdsgrowzero_def Let_def)
qed

lemma sdscpylen_spec:
  assumes rep: "sds_rep s xs" and "length xs + length ys + 2 ^ 20 < 2 ^ 32"
  shows "\<exists>s'. sdscpylen g s (ys @ zs) (length ys) = Inr s' \<and> sds_rep s' ys"
proof -
  let ?s = "if unat (sds_free s + sds_len s) < length ys then sdsMakeRoomFor g s (length ys - sdslen s) else s"
  obtain rest where s: "s = \<lparr>sds_len = of_nat (length xs), sds_free = of_nat (length rest), sds_buf = xs @ 0 # rest\<rparr>"
    "length xs + length rest < 2 ^ 32" "sdslen s = length xs" "sdsavail s = length rest"
    using rep by (rule sds_repE)
  have tot: "unat (sds_free s + sds_len s) = length rest + length xs"
  proof -
    have eq: "sds_free s + sds_len s = of_nat (length rest + length xs)" by (simp add: s(1))
    show ?thesis unfolding eq unat_of_nat by (rule mod_less) (use s(2) in simp)
  qed
  have room: "length xs + (length ys - sdslen s) + 2 ^ 20 < 2 ^ 32" using assms(2) s(3) by simp
  have r: "sds_rep ?s xs" "length ys \<le> length xs + sdsavail ?s"
    using makeRoom_spec [OF rep room, of g] rep tot s(3,4) by auto
  then have l: "length (sds_buf ?s) = length xs + sdsavail ?s + 1" by (auto elim!: sds_repE)
  let ?b = "ys @ drop (length ys) (sds_buf ?s)"
  have p: "putb (sds_buf ?s) 0 ys = Inr ?b" using r(2) l by simp
  have "length ?b = length (sds_buf ?s)" using r(2) l by simp
  from cut_spec [OF r(1) this r(2)] obtain buf where "putb ?b (length ys) [0] = Inr buf"
    "sds_rep \<lparr>sds_len = of_nat (length ys), sds_free = sds_len ?s + sds_free ?s - of_nat (length ys), sds_buf = buf\<rparr> ys"
    by auto
  then show ?thesis using p by (cases ?s) (simp add: sdscpylen_def Let_def add.commute)
qed

lemma sdscpy_spec:
  assumes "sds_rep s xs" and "length xs + length ys + 2 ^ 20 < 2 ^ 32" and "0 \<notin> set ys"
  shows "\<exists>s'. sdscpy g s (ys @ 0 # zs) = Inr s' \<and> sds_rep s' ys"
  using sdscpylen_spec [OF assms(1,2), of g "0 # zs"] strlen_cstr [OF assms(3)] by (simp add: sdscpy_def)

lemma sdsupdatelen_spec:
  assumes rep: "sds_rep s xs"
  shows "\<exists>s'. sdsupdatelen s = Inr s' \<and> sds_rep s' (cstr xs)"
proof -
  obtain rest where s: "s = \<lparr>sds_len = of_nat (length xs), sds_free = of_nat (length rest), sds_buf = xs @ 0 # rest\<rparr>"
    "sdsavail s = length rest"
    using rep by (rule sds_repE)
  obtain r where r: "xs @ 0 # rest = cstr xs @ 0 # r"
  proof (cases "0 \<in> set xs")
    case True
    then have "dropWhile (\<lambda>b. b \<noteq> 0) xs \<noteq> []" by auto
    moreover have "hd (dropWhile (\<lambda>b. b \<noteq> 0) xs) = 0" using hd_dropWhile [OF calculation] by simp
    ultimately have "xs = cstr xs @ 0 # tl (dropWhile (\<lambda>b. b \<noteq> 0) xs)"
      unfolding cstr_def by (metis list.collapse takeWhile_dropWhile_id)
    then show thesis using that [of "tl (dropWhile (\<lambda>b. b \<noteq> 0) xs) @ 0 # rest"] by (metis append.assoc append_Cons)
  next
    case False
    then have "cstr xs = xs" by (auto simp: cstr_def)
    then show thesis using that [of rest] by simp
  qed
  have nz: "0 \<notin> set (cstr xs)" by (auto simp: cstr_def dest: set_takeWhileD)
  have "length (xs @ 0 # rest) = length (cstr xs @ 0 # r)" by (simp only: r)
  then have "length (cstr xs) + length r = length xs + sdsavail s" using s(2) by simp
  from rebuild(1) [OF rep this] show ?thesis
    using strlen_cstr [OF nz, of r] s(1) r by (simp add: sdsupdatelen_def)
qed

lemma sdsIncrLen_spec:
  assumes rep: "sds_rep s xs" and "- (2 ^ 31) < incr" and "incr < 2 ^ 31"
  shows "- int (length xs) \<le> incr \<Longrightarrow> incr \<le> int (sdsavail s) \<Longrightarrow>
      \<exists>s'. sdsIncrLen s incr = Inr s' \<and> sds_rep s' (take (nat (int (length xs) + incr)) (sds_buf s))"
    and "incr < - int (length xs) \<or> int (sdsavail s) < incr \<Longrightarrow> sdsIncrLen s incr = Inl AssertFailed"
proof -
  obtain rest where s: "s = \<lparr>sds_len = of_nat (length xs), sds_free = of_nat (length rest), sds_buf = xs @ 0 # rest\<rparr>"
    "length xs + length rest < 2 ^ 32" "sdslen s = length xs" "sdsavail s = length rest"
    using rep by (rule sds_repE)
  have le: "(word_of_int i :: u32) \<le> of_nat n \<longleftrightarrow> i \<le> int n" if "0 \<le> i" "i < 2 ^ 32" "n < 2 ^ 32" for i n
  proof -
    have n: "(of_nat n :: u32) = word_of_int (int n)" by simp
    have "i mod 4294967296 = i" "int n mod 4294967296 = int n" using that by simp_all
    then show ?thesis unfolding n word_le_def uint_word_of_int by simp
  qed
  have n: "(if incr \<ge> 0 then Inr incr else s32 (- incr)) = Inr (if incr \<ge> 0 then incr else - incr)"
    using assms(2,3) by (auto intro!: s32_fits)
  have cond: "(if incr \<ge> 0 then sds_free s else sds_len s) \<ge> word_of_int (if incr \<ge> 0 then incr else - incr) \<longleftrightarrow>
      - int (length xs) \<le> incr \<and> incr \<le> int (sdsavail s)"
    using s assms(2,3) le [of incr "length rest"] le [of "- incr" "length xs"] by auto
  show "sdsIncrLen s incr = Inl AssertFailed" if "incr < - int (length xs) \<or> int (sdsavail s) < incr"
    using that unfolding sdsIncrLen_def n rbind_simps cond by auto
  assume a: "- int (length xs) \<le> incr" "incr \<le> int (sdsavail s)"
  let ?n = "nat (int (length xs) + incr)"
  note n0 = n
  have n: "?n \<le> length xs + sdsavail s" "int ?n = int (length xs) + incr" using a by auto
  have len: "sds_len s + word_of_int incr = of_nat ?n"
  proof -
    have "sds_len s + word_of_int incr = word_of_int (int (length xs) + incr)" by (simp add: s(1))
    also have "\<dots> = word_of_int (int ?n)" by (simp only: n(2))
    also have "\<dots> = of_nat ?n" by (rule of_int_of_nat_eq)
    finally show ?thesis .
  qed
  have u: "unat (of_nat ?n :: u32) = ?n" using n(1) s(2,4) by (simp add: unat_of_nat del: of_nat_nat)
  have free: "sds_free s - word_of_int incr = sds_free s + (sds_len s - of_nat ?n)" unfolding len [symmetric] by simp
  obtain buf where b: "putb (sds_buf s) ?n [0] = Inr buf"
    "sds_rep \<lparr>sds_len = of_nat ?n, sds_free = sds_free s + (sds_len s - of_nat ?n), sds_buf = buf\<rparr> (take ?n (sds_buf s))"
    using cut_spec [OF rep refl n(1)] by blast
  have "sdsIncrLen s incr = Inr (s\<lparr>sds_len := of_nat ?n, sds_free := sds_free s + (sds_len s - of_nat ?n), sds_buf := buf\<rparr>)"
    unfolding sdsIncrLen_def n0 rbind_simps cond Let_def len u free b(1) using a by simp
  then show "\<exists>s'. sdsIncrLen s incr = Inr s' \<and> sds_rep s' (take ?n (sds_buf s))" using b(2) by (cases s) auto
qed

text \<open>Moving a part of the content to the front.\<close>

lemma slide_spec:
  assumes rep: "sds_rep s xs" and i: "i + n \<le> length xs" and c: "\<not> c \<Longrightarrow> i = 0 \<or> n = 0"
  obtains buf where "(if c then rbind (getb (sds_buf s) i n) (\<lambda>ys. putb (sds_buf s) 0 ys) else Inr (sds_buf s)) = Inr buf"
    "length buf = length (sds_buf s)" "take n buf = take n (drop i xs)"
proof -
  obtain rest where b: "sds_buf s = xs @ 0 # rest" using rep by (auto elim!: sds_repE)
  show thesis
  proof (cases c)
    case True
    let ?m = "take n (drop i xs)"
    have l: "length ?m = n" using i by simp
    have "getb (sds_buf s) i n = Inr ?m" using i by (simp add: getb_def peek_def b)
    moreover have "putb (sds_buf s) 0 ?m = Inr (?m @ drop n (sds_buf s))" using l i b by (subst putb_0) simp_all
    ultimately show thesis using that [of "?m @ drop n (sds_buf s)"] True i l b by simp
  next
    case False
    then have "take n (sds_buf s) = take n (drop i xs)" using c i b by auto
    then show thesis using that [of "sds_buf s"] False by simp
  qed
qed

definition trimmed :: "('a \<Rightarrow> bool) \<Rightarrow> 'a list \<Rightarrow> 'a list" where
  "trimmed P xs = rev (dropWhile P (rev (dropWhile P xs)))"

lemma rev_drop: "\<forall>c \<in> set t. P c \<Longrightarrow> m \<noteq> [] \<Longrightarrow> \<not> P (last m) \<Longrightarrow> rev (dropWhile P (rev (m @ t))) = m"
proof -
  assume "\<forall>c \<in> set t. P c" and m: "m \<noteq> []" "\<not> P (last m)"
  then have "dropWhile P (rev t @ rev m) = dropWhile P (rev m)" by (intro dropWhile_append2) simp
  moreover have "dropWhile P (rev m) = rev m" using m by (cases m rule: rev_cases) simp_all
  ultimately show ?thesis by simp
qed

definition trims :: "u8 list \<Rightarrow> u8 \<Rightarrow> bool" where
  "trims cset c \<longleftrightarrow> c = 0 \<or> c \<in> set (cstr cset)"

lemma trim_left_spec:
  assumes "0 \<in> set cset" and "sp \<le> length xs"
  shows "trim_left (xs @ ys) cset (length xs) sp = Inr (sp + length (takeWhile (trims cset) (drop sp xs)))"
  using assms(2)
proof (induction "length xs - sp" arbitrary: sp)
  case 0
  then show ?case by (subst trim_left.simps) simp
next
  case (Suc k)
  then have sp: "sp < length xs" by simp
  have "drop sp xs = xs ! sp # drop (Suc sp) xs" using sp by (simp add: Cons_nth_drop_Suc)
  moreover have "trim_left (xs @ ys) cset (length xs) (Suc sp) = Inr (Suc sp + length (takeWhile (trims cset) (drop (Suc sp) xs)))"
    using Suc sp by simp
  ultimately show ?case using sp assms(1)
    by (subst trim_left.simps) (simp add: fault_simps nth_append strchr_def trims_def)
qed

lemma trim_right_spec:
  assumes "0 \<in> set cset" and "e < length xs"
  obtains r where "trim_right (xs @ ys) cset e = Inr r" "r \<le> e" "\<And>i. r < i \<Longrightarrow> i \<le> e \<Longrightarrow> trims cset (xs ! i)"
    "r = 0 \<or> \<not> trims cset (xs ! r)"
  using assms(2)
proof (induction e arbitrary: thesis)
  case 0
  then show ?case by simp
next
  case (Suc e)
  show ?case
  proof (cases "trims cset (xs ! Suc e)")
    case True
    obtain r where r: "trim_right (xs @ ys) cset e = Inr r" "r \<le> e" "\<And>i. r < i \<Longrightarrow> i \<le> e \<Longrightarrow> trims cset (xs ! i)"
      "r = 0 \<or> \<not> trims cset (xs ! r)"
      using Suc.IH Suc.prems(2) by auto
    have "trims cset (xs ! i)" if "r < i" "i \<le> Suc e" for i using r(3) that True by (cases "i = Suc e") auto
    moreover have "trim_right (xs @ ys) cset (Suc e) = Inr r"
      using Suc.prems(2) True assms(1) r(1) by (simp add: fault_simps nth_append strchr_def trims_def)
    ultimately show ?thesis using Suc.prems(1) [of r] r by simp
  next
    case False
    then have "trim_right (xs @ ys) cset (Suc e) = Inr (Suc e)"
      using Suc.prems(2) assms(1) by (simp add: fault_simps nth_append strchr_def trims_def)
    then show ?thesis using Suc.prems(1) [of "Suc e"] False by simp
  qed
qed

lemma trim_ends:
  assumes "\<And>i. r < i \<Longrightarrow> i < length xs \<Longrightarrow> P (xs ! i)" and "r = 0 \<or> \<not> P (xs ! r)" and "r < length xs"
  defines "sp \<equiv> length (takeWhile P xs)"
  shows "trimmed P xs = (if sp > r then [] else take (r - sp + 1) (drop sp xs))"
    and "sp \<le> r \<Longrightarrow> sp + (r - sp + 1) \<le> length xs"
proof -
  have dw: "dropWhile P xs = drop sp xs" by (simp add: sp_def dropWhile_eq_drop)
  show "sp + (r - sp + 1) \<le> length xs" if "sp \<le> r" using that assms(3) by simp
  show "trimmed P xs = (if sp > r then [] else take (r - sp + 1) (drop sp xs))"
  proof (cases "sp = length xs")
    case True
    then have "trimmed P xs = []" unfolding trimmed_def dw by simp
    then show ?thesis using assms(3) True by simp
  next
    case False
    then have sp: "sp < length xs" using length_takeWhile_le [of P xs] by (simp add: sp_def)
    then have nP: "\<not> P (xs ! sp)" unfolding sp_def by (rule nth_length_takeWhile)
    then have le: "sp \<le> r" using assms(1) [of sp] sp by (cases "sp \<le> r") simp_all
    let ?m = "take (r - sp + 1) (drop sp xs)"
    have "drop sp xs = ?m @ drop (r + 1) xs" using append_take_drop_id [of "r - sp + 1" "drop sp xs"] le by simp
    moreover have "\<forall>c \<in> set (drop (r + 1) xs). P c" using assms(1) by (auto simp: in_set_conv_nth)
    moreover have "?m \<noteq> []" using sp by simp
    moreover have "length ?m = Suc (r - sp)" using le assms(3) by simp
    then have "last ?m = xs ! r" using le \<open>?m \<noteq> []\<close> sp by (simp add: last_conv_nth del: length_take)
    moreover have "\<not> P (xs ! r)" using assms(2) nP le by auto
    ultimately show ?thesis using rev_drop [of "drop (r + 1) xs" P ?m] dw le by (simp add: trimmed_def)
  qed
qed

lemma sdstrim_spec:
  assumes rep: "sds_rep s xs" and cs: "0 \<in> set cset"
  shows "\<exists>s'. sdstrim s cset = Inr s' \<and> sds_rep s' (trimmed (trims cset) xs)"
proof -
  let ?P = "trims cset" and ?sp = "length (takeWhile (trims cset) xs)"
  obtain rest where s: "s = \<lparr>sds_len = of_nat (length xs), sds_free = of_nat (length rest), sds_buf = xs @ 0 # rest\<rparr>"
    "sdslen s = length xs" using rep by (rule sds_repE)
  have left: "trim_left (sds_buf s) cset (length xs) 0 = Inr ?sp"
    using trim_left_spec [OF cs, of 0 xs "0 # rest"] by (simp add: s(1))
  obtain ep len where ep: "(if int (length xs) - 1 > 0 then map_sum id int (trim_right (sds_buf s) cset (nat (int (length xs) - 1)))
      else Inr (int (length xs) - 1)) = Inr ep"
    and len: "len = (if int ?sp > ep then 0 else nat (ep - int ?sp + 1))" "?sp + len \<le> length xs \<or> len = 0"
      "take len (drop ?sp xs) = trimmed ?P xs"
  proof (cases "xs = []")
    case True
    then show thesis using that [of "-1" 0] by (simp add: trimmed_def)
  next
    case False
    then have e: "length xs - 1 < length xs" by simp
    obtain r where r: "trim_right (xs @ 0 # rest) cset (length xs - 1) = Inr r" "r \<le> length xs - 1"
      "\<And>i. r < i \<Longrightarrow> i \<le> length xs - 1 \<Longrightarrow> ?P (xs ! i)" "r = 0 \<or> \<not> ?P (xs ! r)"
      by (rule trim_right_spec [OF cs e]) blast
    have r': "\<And>i. r < i \<Longrightarrow> i < length xs \<Longrightarrow> ?P (xs ! i)" "r < length xs" using r(2,3) e by simp_all
    note ends = trim_ends [where P = ?P, OF r'(1) r(4) r'(2)]
    have "(if int (length xs) - 1 > 0 then map_sum id int (trim_right (sds_buf s) cset (nat (int (length xs) - 1)))
      else Inr (int (length xs) - 1)) = Inr (int r)"
      using r(1,2) False by (cases xs) (auto simp: s(1) nat_diff_distrib')
    then show thesis using that [of "int r" "if ?sp > r then 0 else r - ?sp + 1"] ends
      by (auto simp: nat_diff_distrib' of_nat_diff split: if_splits)
  qed
  have "?sp + len \<le> length xs" using len(2) length_takeWhile_le [of ?P xs] by auto
  then obtain buf where b: "(if ?sp \<noteq> 0 then rbind (getb (sds_buf s) ?sp len) (\<lambda>ys. putb (sds_buf s) 0 ys) else Inr (sds_buf s)) = Inr buf"
    "length buf = length (sds_buf s)" "take len buf = take len (drop ?sp xs)"
    by (rule slide_spec [OF rep, where c = "?sp \<noteq> 0"]) auto
  obtain buf' where c: "putb buf len [0] = Inr buf'"
    "sds_rep \<lparr>sds_len = of_nat len, sds_free = sds_free s + (sds_len s - of_nat len), sds_buf = buf'\<rparr> (take len buf)"
    using cut_spec [OF rep b(2), of len] \<open>?sp + len \<le> length xs\<close> by auto
  have "sdstrim s cset = Inr (s\<lparr>sds_free := sds_free s + (sds_len s - of_nat len), sds_len := of_nat len, sds_buf := buf'\<rparr>)"
    unfolding sdstrim_def Let_def s(2) left rbind_simps ep len(1) [symmetric] b(1) c(1) ..
  then show ?thesis using c(2) b(3) len(3) by (cases s) simp
qed

text \<open>The substring that \<open>sdsrange\<close> is for: indices from the end are negative, and both are cut to the string.\<close>

definition slice :: "'a list \<Rightarrow> int \<Rightarrow> int \<Rightarrow> 'a list" where
  "slice xs start end' =
     (let n = int (length xs);
          i = (if start < 0 then max 0 (n + start) else start);
          j = (if end' < 0 then max 0 (n + end') else end')
      in take (nat (min j (n - 1) - i + 1)) (drop (nat i) xs))"

lemma rbind_assoc: "rbind (rbind m f) g = rbind m (\<lambda>x. rbind (f x) g)"
  by (cases m) simp_all

lemma as_int_id: "- (2 ^ 31) \<le> x \<Longrightarrow> x < 2 ^ 31 \<Longrightarrow> as_int x = x"
  by (simp add: as_int_def sint_of_int)

lemma sdsrange_spec:
  assumes rep: "sds_rep s xs" and len: "length xs < 2 ^ 31"
    and i: "- (2 ^ 31) \<le> start" "start < 2 ^ 31" and j: "- (2 ^ 31) \<le> end'" "end' < 2 ^ 31 - 1"
  shows "\<exists>s'. sdsrange s start end' = Inr s' \<and> sds_rep s' (slice xs start end')"
proof (cases "xs = []")
  case True
  then show ?thesis using rep sds_rep_len [OF rep] by (auto simp: sdsrange_def slice_def)
next
  case False
  let ?n = "int (length xs)"
  define a where "a = (if start < 0 then max 0 (?n + start) else start)"
  define b where "b = (if end' < 0 then max 0 (?n + end') else end')"
  have n: "0 < ?n" "?n < 2 ^ 31" using False len by simp_all
  have ab: "0 \<le> a" "a < 2 ^ 31" "0 \<le> b" "b < 2 ^ 31 - 1" using i j n by (auto simp: a_def b_def)
  have code: "(if start < 0 then max 0 (as_int (?n + start)) else start) = a"
    "(if end' < 0 then max 0 (as_int (?n + end')) else end') = b" "as_int ?n = ?n" "as_int (?n - 1) = ?n - 1"
    using i j n by (simp_all add: as_int_id a_def b_def)
  define m where "m = nat (min b (?n - 1) - a + 1)"
  have r1: "range_len a b = Inr (if a > b then 0 else nat (b - a + 1))" using ab by (simp add: range_len_def)
  have r2: "range_len a (?n - 1) = Inr (if a > ?n - 1 then 0 else nat (?n - 1 - a + 1))" using ab n by (simp add: range_len_def)
  obtain c where c: "rbind (range_len a b) (\<lambda>newlen. if newlen \<noteq> 0
         then if a \<ge> ?n then Inr (a, 0)
              else if b \<ge> ?n then rbind (range_len a (?n - 1)) (\<lambda>newlen. Inr (a, newlen))
              else Inr (a, newlen)
         else Inr (0, newlen)) = Inr (c, m)" "c = 0 \<and> m = 0 \<or> c = a" "c = a \<longrightarrow> a + int m \<le> ?n \<or> m = 0"
  proof (cases "a > b \<or> a \<ge> ?n")
    case True
    then have "m = 0" using ab by (auto simp: m_def)
    then show thesis using that [of "if a > b then 0 else a"] True r1 ab by auto
  next
    case False
    then have "m = (if b \<ge> ?n then nat (?n - a) else nat (b - a + 1))" by (auto simp: m_def)
    then show thesis using that [of a] False r1 r2 by auto
  qed
  have "nat c + m \<le> length xs \<or> m = 0" using c(2,3) ab by auto
  then have i0: "(if m = 0 then 0 else nat c) + m \<le> length xs" by auto
  obtain buf where buf: "(if c \<noteq> 0 \<and> m \<noteq> 0 then rbind (getb (sds_buf s) (if m = 0 then 0 else nat c) m) (\<lambda>ys. putb (sds_buf s) 0 ys) else Inr (sds_buf s)) = Inr buf"
    "length buf = length (sds_buf s)" "take m buf = take m (drop (if m = 0 then 0 else nat c) xs)"
    by (rule slide_spec [OF rep i0, where c = "c \<noteq> 0 \<and> m \<noteq> 0"]) (use c(2) ab in auto)
  have buf1: "(if c \<noteq> 0 \<and> m \<noteq> 0 then rbind (getb (sds_buf s) (nat c) m) (\<lambda>xs. putb (sds_buf s) 0 xs) else Inr (sds_buf s)) = Inr buf"
    using buf(1) by (auto split: if_splits)
  have "m \<le> length xs + sdsavail s" using i0 by simp
  then obtain buf' where c2: "putb buf m [0] = Inr buf'"
    "sds_rep \<lparr>sds_len = of_nat m, sds_free = sds_free s + (sds_len s - of_nat m), sds_buf = buf'\<rparr> (take m buf)"
    using cut_spec [OF rep buf(2)] by blast
  have ne: "sdslen s \<noteq> 0" "sdslen s = length xs" using False sds_rep_len [OF rep] by simp_all
  have "sdsrange s start end' = Inr (s\<lparr>sds_free := sds_free s + (sds_len s - of_nat m), sds_len := of_nat m, sds_buf := buf'\<rparr>)"
    unfolding sdsrange_def Let_def ne(2) code rbind_assoc [symmetric] c(1) rbind_simps prod.case buf1 c2(1)
    using False by simp
  moreover have "slice xs start end' = take m (drop (nat a) xs)" by (simp only: slice_def Let_def a_def b_def m_def)
  then have "take m buf = slice xs start end'" using buf(3) c(2) by (cases "m = 0") simp_all
  ultimately show ?thesis using c2(2) by (cases s) simp
qed

lemma sdsrange_overflow: "sds_rep s xs \<Longrightarrow> xs \<noteq> [] \<Longrightarrow> sdsrange s 0 (2 ^ 31 - 1) = Inl SignedOverflow"
  using sds_rep_len [of s xs] by (simp add: sdsrange_def range_len_def)

section \<open>Characters\<close>

lemma each_char_spec:
  assumes rep: "sds_rep s xs" and f: "\<And>c. c \<in> set xs \<Longrightarrow> f c = Inr (F c)"
  shows "\<exists>s'. each_char f (length xs) s = Inr s' \<and> sds_rep s' (map F xs)"
proof -
  obtain rest where s: "s = \<lparr>sds_len = of_nat (length xs), sds_free = of_nat (length rest), sds_buf = xs @ 0 # rest\<rparr>"
    "length xs + length rest < 2 ^ 32" "sdslen s = length xs" using rep by (rule sds_repE)
  let ?f = "\<lambda>j buf. rbind (rd buf j) (\<lambda>c. rbind (f c) (\<lambda>d. putb buf j [d]))"
  have "\<exists>buf. for_each ?f [0..<length xs] (sds_buf s) = Inr buf \<and>
      buf = map F (take (length [0..<length xs]) xs) @ drop (length [0..<length xs]) xs @ 0 # rest"
  proof (rule for_each_rule [where I = "\<lambda>js buf. buf = map F (take (length js) xs) @ drop (length js) xs @ 0 # rest"])
    fix js j ks buf assume eq: "[0..<length xs] = js @ j # ks" and buf: "buf = map F (take (length js) xs) @ drop (length js) xs @ 0 # rest"
    have j: "j < length xs" "length js = j" using upt_split [OF eq] by auto
    have d: "drop j xs = xs ! j # drop (Suc j) xs" using j(1) by (simp add: Cons_nth_drop_Suc)
    have "rd buf j = Inr (xs ! j)" using j by (simp add: buf rd_def nth_append d)
    moreover have "putb buf j [F (xs ! j)] = Inr (map F (take j xs) @ F (xs ! j) # drop (Suc j) xs @ 0 # rest)"
      using j by (simp add: buf d)
    moreover have "map F (take (Suc j) xs) = map F (take j xs) @ [F (xs ! j)]" using j(1) by (simp add: take_Suc_conv_app_nth)
    ultimately show "\<exists>buf'. ?f j buf = Inr buf' \<and> buf' = map F (take (length (js @ [j])) xs) @ drop (length (js @ [j])) xs @ 0 # rest"
      using f [OF nth_mem [OF j(1)]] j(2) by simp
  qed (simp add: s(1))
  then have "each_char f (length xs) s = Inr (s\<lparr>sds_buf := map F xs @ 0 # rest\<rparr>)" by (simp add: each_char_def s(3))
  moreover have "sds_rep (s\<lparr>sds_buf := map F xs @ 0 # rest\<rparr>) (map F xs)"
    by (rule sds_repI [of _ _ rest]) (use s(1,2) in simp_all)
  ultimately show ?thesis by blast
qed

text \<open>The mapping of \<open>sdsmapchars\<close>: the first position in \<open>src\<close> counts.\<close>

definition char_map :: "u8 list \<Rightarrow> u8 list \<Rightarrow> nat \<Rightarrow> u8 \<Rightarrow> u8" where
  "char_map src dst n c = (case map_of (zip (take n src) (take n dst)) c of None \<Rightarrow> c | Some d \<Rightarrow> d)"

lemma mapchar_spec:
  assumes "m + n \<le> length src" and "m + n \<le> length dst"
  shows "mapchar src dst [m..<m + n] c =
    Inr (case map_of (zip (take n (drop m src)) (take n (drop m dst))) c of None \<Rightarrow> c | Some d \<Rightarrow> d)"
  using assms
proof (induction n arbitrary: m)
  case 0
  then show ?case by simp
next
  case (Suc n)
  have u: "[m..<m + Suc n] = m # [Suc m..<Suc m + n]" by (simp add: upt_rec)
  have "drop m src = src ! m # drop (Suc m) src" "drop m dst = dst ! m # drop (Suc m) dst"
    using Suc.prems by (simp_all add: Cons_nth_drop_Suc)
  then show ?case using Suc.IH [of "Suc m"] Suc.prems unfolding u by (simp add: rd_def)
qed

lemma sdsmapchars_spec:
  assumes "sds_rep s xs" and "n \<le> length src" and "n \<le> length dst"
  shows "\<exists>s'. sdsmapchars s src dst n = Inr s' \<and> sds_rep s' (map (char_map src dst n) xs)"
  unfolding sdsmapchars_def sds_rep_len [OF assms(1)]
  by (rule each_char_spec [OF assms(1)]) (use mapchar_spec [of 0 n src dst] assms(2,3) in \<open>simp add: char_map_def\<close>)

lemma sdscase_spec:
  assumes "sds_rep s xs" and "length xs < 2 ^ 31"
  shows "\<exists>s'. sdstolower s = Inr s' \<and> sds_rep s' (map tolower8 xs)"
    and "\<exists>s'. sdstoupper s = Inr s' \<and> sds_rep s' (map toupper8 xs)"
proof -
  have n: "nat (int_of_size (sdslen s)) = length xs" using assms sds_rep_len [OF assms(1)] by (simp add: int_of_size)
  show "\<exists>s'. sdstolower s = Inr s' \<and> sds_rep s' (map tolower8 xs)"
    "\<exists>s'. sdstoupper s = Inr s' \<and> sds_rep s' (map toupper8 xs)"
    unfolding sdstolower_def sdstoupper_def n by (rule each_char_spec [OF assms(1)] refl)+
qed

lemma memcmp_eq: "length xs = length ys \<Longrightarrow> memcmp xs ys = 0 \<longleftrightarrow> xs = ys"
  by (induction xs ys rule: memcmp.induct) auto

lemma sdscmp_spec:
  assumes "sds_rep s xs" and "sds_rep t ys" and "length xs < 2 ^ 31" and "length ys < 2 ^ 31"
  shows "\<exists>r. sdscmp s t = Inr r \<and> (r = 0 \<longleftrightarrow> xs = ys)"
proof -
  let ?m = "min (length xs) (length ys)"
  obtain rs where s: "sds_buf s = xs @ 0 # rs" "sdslen s = length xs" using assms(1) by (rule sds_repE) simp
  obtain rt where t: "sds_buf t = ys @ 0 # rt" "sdslen t = length ys" using assms(2) by (rule sds_repE) simp
  have g: "getb (sds_buf s) 0 ?m = Inr (take ?m xs)" "getb (sds_buf t) 0 ?m = Inr (take ?m ys)" using s t by simp_all
  have d: "as_int (int (length xs) - int (length ys)) = int (length xs) - int (length ys)" using assms(3,4) by (intro as_int_id) auto
  have "memcmp (take ?m xs) (take ?m ys) = 0 \<longleftrightarrow> take ?m xs = take ?m ys" by (rule memcmp_eq) simp
  then show ?thesis using g d s(2) t(2) by (auto simp: sdscmp_def Let_def)
qed

end
