(* ===== verification/SdsText.thy ===== *)
theory SdsText
  imports Sds Decimal
begin

text \<open>
  Numbers as text and formatted concatenation in \<open>sds.c\<close>: \<open>sdsll2str\<close>,
  \<open>sdsull2str\<close>, \<open>sdsfromlonglong\<close> and \<open>sdscatfmt\<close>.
\<close>

section \<open>Numbers\<close>

definition SDS_LLSTR_SIZE :: nat where "SDS_LLSTR_SIZE = 21"

text \<open>The digits are written from the lowest on, then the text is reversed in place.\<close>

function ull_digits :: "u8 list \<Rightarrow> nat \<Rightarrow> u64 \<Rightarrow> (u8 list \<times> nat) res" where
  "ull_digits s p v =
     rbind (putb s p [48 + ucast (v mod 10)]) (\<lambda>s.
     if v div 10 = 0 then Inr (s, p + 1) else ull_digits s (p + 1) (v div 10))"
  by pat_completeness auto
termination
proof (relation "measure (\<lambda>(s, p, v). unat v)")
  fix s p s' and v :: u64 assume "v div 10 \<noteq> 0"
  then have "unat v \<noteq> 0" by (metis div_0 unat_eq_0)
  then show "((s', p + 1, v div 10), s, p, v) \<in> measure (\<lambda>(s, p, v). unat v)" by (simp add: unat_div_distrib)
qed simp

declare ull_digits.simps [simp del]

function swap_loop :: "u8 list \<Rightarrow> nat \<Rightarrow> nat \<Rightarrow> u8 list res" where
  "swap_loop b s p =
     (if s < p
      then rbind (rd b s) (\<lambda>aux. rbind (rd b p) (\<lambda>c.
           rbind (putb b s [c]) (\<lambda>b. rbind (putb b p [aux]) (\<lambda>b. swap_loop b (s + 1) (p - 1)))))
      else Inr b)"
  by pat_completeness auto
termination by (relation "measure (\<lambda>(b, s, p). p - s)") auto

declare swap_loop.simps [simp del]

definition sdsll2str :: "u8 list \<Rightarrow> u64 \<Rightarrow> (u8 list \<times> nat) res" where
  "sdsll2str s value =
     rbind (if sint value < 0 then if sint value = - (2 ^ 63) then Inl SignedOverflow else Inr (- value) else Inr value) (\<lambda>v.
     rbind (ull_digits s 0 v) (\<lambda>(s, p).
     rbind (if sint value < 0 then rbind (putb s p [byte_of CHR ''-'']) (\<lambda>s. Inr (s, p + 1)) else Inr (s, p)) (\<lambda>(s, l).
     rbind (putb s l [0]) (\<lambda>s.
     rbind (swap_loop s 0 (l - 1)) (\<lambda>s. Inr (s, l))))))"

definition sdsull2str :: "u8 list \<Rightarrow> u64 \<Rightarrow> (u8 list \<times> nat) res" where
  "sdsull2str s v =
     rbind (ull_digits s 0 v) (\<lambda>(s, l).
     rbind (putb s l [0]) (\<lambda>s.
     rbind (swap_loop s 0 (l - 1)) (\<lambda>s. Inr (s, l))))"

definition sdsfromlonglong :: "(nat \<Rightarrow> u8) \<Rightarrow> u64 \<Rightarrow> sds res" where
  "sdsfromlonglong g value =
     rbind (sdsll2str (realloc g [] SDS_LLSTR_SIZE) value) (\<lambda>(buf, len). sdsnewlen g (Some buf) len)"

section \<open>Formats\<close>

text \<open>The arguments, by the types \<open>va_arg\<close> is used with; an argument of another type is undefined behaviour.\<close>

datatype fmtarg = FStr "u8 list" | FSds sds | FInt u32 | FLong u64 | FUInt u32 | FULong u64

text \<open>
  What a specifier makes of the arguments; \<open>None\<close> for an unknown one, which
  stands for itself.  The length of a C string is kept in an \<open>unsigned int\<close>.
\<close>

definition fmt_text :: "(nat \<Rightarrow> u8) \<Rightarrow> u8 \<Rightarrow> fmtarg list \<Rightarrow> (u8 list \<times> fmtarg list) option res" where
  "fmt_text g next args =
     (let num = (\<lambda>m rest. rbind m (\<lambda>(buf, l). rbind (getb buf 0 l) (\<lambda>xs. Inr (Some (xs, rest)))));
          buf = realloc g [] SDS_LLSTR_SIZE in
      if next = byte_of CHR ''s'' then
        (case args of
           FStr t # rest \<Rightarrow> rbind (strlen t) (\<lambda>l. rbind (getb t 0 (unat (of_nat l :: u32))) (\<lambda>xs. Inr (Some (xs, rest))))
         | _ \<Rightarrow> Inl BadPointer)
      else if next = byte_of CHR ''S'' then
        (case args of
           FSds t # rest \<Rightarrow> rbind (getb (sds_buf t) 0 (sdslen t)) (\<lambda>xs. Inr (Some (xs, rest)))
         | _ \<Rightarrow> Inl BadPointer)
      else if next = byte_of CHR ''i'' then
        (case args of FInt w # rest \<Rightarrow> num (sdsll2str buf (scast w)) rest | _ \<Rightarrow> Inl BadPointer)
      else if next = byte_of CHR ''I'' then
        (case args of FLong w # rest \<Rightarrow> num (sdsll2str buf w) rest | _ \<Rightarrow> Inl BadPointer)
      else if next = byte_of CHR ''u'' then
        (case args of FUInt w # rest \<Rightarrow> num (sdsull2str buf (ucast w)) rest | _ \<Rightarrow> Inl BadPointer)
      else if next = byte_of CHR ''U'' then
        (case args of FULong w # rest \<Rightarrow> num (sdsull2str buf w) rest | _ \<Rightarrow> Inl BadPointer)
      else Inr None)"

text \<open>
  The position \<open>i\<close> is an \<open>int\<close>: it starts as the converted length, \<open>i += l\<close>
  with an \<open>unsigned l\<close> is computed in \<open>unsigned\<close> and converted back, and
  \<open>i++\<close> can overflow.  A write at a negative position is outside the buffer.
\<close>

definition put_at :: "u8 list \<Rightarrow> int \<Rightarrow> u8 list \<Rightarrow> u8 list res" where
  "put_at b i xs = (if i < 0 then Inl OutOfBounds else putb b (nat i) xs)"

definition put_text :: "(nat \<Rightarrow> u8) \<Rightarrow> sds \<Rightarrow> int \<Rightarrow> u8 list \<Rightarrow> (sds \<times> int) res" where
  "put_text g s i str =
     (let l = length str;
          s = (if sdsavail s < l then sdsMakeRoomFor g s l else s)
      in rbind (put_at (sds_buf s) i str) (\<lambda>buf.
         Inr (s\<lparr>sds_len := sds_len s + of_nat l, sds_free := sds_free s - of_nat l, sds_buf := buf\<rparr>,
           sint (word_of_int i + of_nat l :: u32))))"

definition put_char :: "sds \<Rightarrow> int \<Rightarrow> u8 \<Rightarrow> (sds \<times> int) res" where
  "put_char s i c =
     rbind (put_at (sds_buf s) i [c]) (\<lambda>buf.
     rbind (s32 (i + 1)) (\<lambda>i.
     Inr (s\<lparr>sds_len := sds_len s + 1, sds_free := sds_free s - 1, sds_buf := buf\<rparr>, i)))"

function fmt_loop :: "(nat \<Rightarrow> u8) \<Rightarrow> u8 list \<Rightarrow> nat \<Rightarrow> sds \<Rightarrow> int \<Rightarrow> fmtarg list \<Rightarrow> (sds \<times> int) res" where
  "fmt_loop g fmt f s i args =
     rbind (rd fmt f) (\<lambda>c.
     if c = 0 then Inr (s, i)
     else
       let s = (if sds_free s = 0 then sdsMakeRoomFor g s 1 else s) in
       if c = byte_of CHR ''%'' then
         rbind (rd fmt (f + 1)) (\<lambda>next.
         rbind (fmt_text g next args) (\<lambda>r.
         case r of
           None \<Rightarrow> rbind (put_char s i next) (\<lambda>(s, i). fmt_loop g fmt (f + 2) s i args)
         | Some (str, rest) \<Rightarrow> rbind (put_text g s i str) (\<lambda>(s, i). fmt_loop g fmt (f + 2) s i rest)))
       else rbind (put_char s i c) (\<lambda>(s, i). fmt_loop g fmt (f + 1) s i args))"
  by pat_completeness auto
termination
  by (relation "measure (\<lambda>(g, fmt, f, s, i, args). length fmt - f)") (auto simp: rd_Inr_iff)

declare fmt_loop.simps [simp del]

definition sdscatfmt :: "(nat \<Rightarrow> u8) \<Rightarrow> sds \<Rightarrow> u8 list \<Rightarrow> fmtarg list \<Rightarrow> sds res" where
  "sdscatfmt g s fmt args =
     rbind (fmt_loop g fmt 0 s (int_of_size (sdslen s)) args) (\<lambda>(s, i).
     rbind (put_at (sds_buf s) i [0]) (\<lambda>buf. Inr (s\<lparr>sds_buf := buf\<rparr>)))"

section \<open>Numbers are canonical\<close>

lemma div_word_0: "(v :: u64) div 10 = 0 \<longleftrightarrow> unat v < 10"
  by (simp add: unat_eq_0 [symmetric] unat_div_distrib div_eq_0_iff)

lemma digit_word: "(48 :: u8) + ucast ((v :: u64) mod 10) = digit (unat v mod 10)"
proof -
  have "unat (v mod 10) = unat v mod 10" by (simp add: unat_mod_distrib)
  moreover have "ucast (v mod 10) = (of_nat (unat (v mod 10)) :: u8)" by simp
  ultimately have "ucast (v mod 10) = (of_nat (unat v mod 10) :: u8)" by (simp only:)
  then show ?thesis by (simp add: digit_def)
qed

lemma ull_digits_spec:
  assumes "p = length a" and "length (dec_nat (unat v)) \<le> length b"
  shows "ull_digits (a @ b) p v =
    Inr (a @ rev (dec_nat (unat v)) @ drop (length (dec_nat (unat v))) b, p + length (dec_nat (unat v)))"
  using assms
proof (induction "unat v" arbitrary: a b p v rule: less_induct)
  case less
  show ?case
  proof (cases "unat v < 10")
    case True
    then have "dec_nat (unat v) = [digit (unat v mod 10)]" by (simp add: dec_nat.simps)
    then show ?thesis using less.prems True by (subst ull_digits.simps) (simp add: div_word_0 digit_word)
  next
    case False
    have d: "unat (v div 10) = unat v div 10" by (simp add: unat_div_distrib)
    have e: "dec_nat (unat v) = dec_nat (unat (v div 10)) @ [digit (unat v mod 10)]" using False d by (subst dec_nat.simps) simp
    have lt: "unat (v div 10) < unat v" using False d by simp
    have "ull_digits ((a @ [digit (unat v mod 10)]) @ drop 1 b) (p + 1) (v div 10) = Inr ((a @ [digit (unat v mod 10)]) @
        rev (dec_nat (unat (v div 10))) @ drop (length (dec_nat (unat (v div 10)))) (drop 1 b), p + 1 + length (dec_nat (unat (v div 10))))"
      using less.prems e by (intro less.hyps [OF lt]) auto
    moreover have "putb (a @ b) p [digit (unat v mod 10)] = Inr ((a @ [digit (unat v mod 10)]) @ drop 1 b)"
      using less.prems e by simp
    ultimately show ?thesis using False unfolding e by (subst ull_digits.simps) (simp add: div_word_0 digit_word)
  qed
qed

lemma swap_loop_spec:
  "swap_loop (a @ xs @ b) (length a) (length a + length xs - 1) = Inr (a @ rev xs @ b)"
proof (induction "length xs" arbitrary: a xs b rule: less_induct)
  case less
  show ?case
  proof (cases "length xs < 2")
    case True
    then have "rev xs = xs" by (cases xs) (auto simp: less_Suc_eq)
    moreover have "\<not> length a < length a + length xs - 1" using True by simp
    ultimately show ?thesis by (subst swap_loop.simps) (simp only: if_False)
  next
    case False
    then obtain x ys y where xs: "xs = x # ys @ [y]" by (cases xs; cases "tl xs" rule: rev_cases) auto
    let ?s = "length a" and ?p = "length a + length xs - 1"
    have "rd (a @ xs @ b) ?s = Inr x" "rd (a @ xs @ b) ?p = Inr y"
      by (simp_all add: rd_def nth_append xs)
    moreover have "putb (a @ xs @ b) ?s [y] = Inr ((a @ y # ys) @ y # b)" by (simp add: xs)
    moreover have "putb ((a @ y # ys) @ y # b) ?p [x] = Inr ((a @ [y]) @ ys @ (x # b))" by (subst putb_append) (simp_all add: xs)
    moreover have "swap_loop ((a @ [y]) @ ys @ (x # b)) (?s + 1) (?p - 1) = Inr ((a @ [y]) @ rev ys @ (x # b))"
      using less.hyps [of ys "a @ [y]" "x # b"] by (simp add: xs)
    ultimately show ?thesis by (subst swap_loop.simps) (simp add: xs)
  qed
qed

text \<open>What the buffers hold afterwards: the numeral, its terminator and the rest.\<close>

lemma dec_nat_u64: "length (dec_nat (unat (v :: u64))) \<le> 20"
proof -
  have "unat v < 2 ^ LENGTH(64)" by (rule unsigned_less)
  then have "unat v < 10 ^ Suc 19" by simp
  then show ?thesis using length_dec_nat_le [of "unat v" 19] by simp
qed

lemma reversed_text:
  assumes "length xs < length b"
  shows "rbind (putb (rev xs @ drop (length xs) b) (length xs) [0]) (\<lambda>s. rbind (swap_loop s 0 (length xs - 1)) (\<lambda>s. Inr (s, length xs))) =
    Inr (xs @ 0 # drop (length xs + 1) b, length xs)"
proof -
  have "putb (rev xs @ drop (length xs) b) (length xs) [0] = Inr (rev xs @ 0 # drop (length xs + 1) b)"
    using assms by (subst putb_append) simp_all
  then show ?thesis using swap_loop_spec [of "[]" "rev xs" "0 # drop (length xs + 1) b"] by simp
qed

lemma sdsull2str_spec:
  assumes "length (dec_nat (unat v)) < length b"
  shows "sdsull2str b v = Inr (dec_nat (unat v) @ 0 # drop (length (dec_nat (unat v)) + 1) b, length (dec_nat (unat v)))"
  using ull_digits_spec [of 0 "[]" v b] reversed_text [OF assms] assms by (simp add: sdsull2str_def)

lemma sdsll2str_spec:
  assumes "sint v \<noteq> - (2 ^ 63)" and "length (dec_int (sint v)) < length b"
  shows "sdsll2str b v = Inr (dec_int (sint v) @ 0 # drop (length (dec_int (sint v)) + 1) b, length (dec_int (sint v)))"
proof (cases "sint v < 0")
  case False
  then have u: "unat v = nat (sint v)" by (simp add: unat_eq_sint)
  show ?thesis using False assms(2) ull_digits_spec [of 0 "[]" v b] reversed_text [of "dec_nat (unat v)" b]
    by (simp add: sdsll2str_def dec_int_def u)
next
  case True
  then have u: "unat (- v) = nat (- sint v)" by (rule unat_minus_eq_sint)
  let ?d = "dec_nat (nat (- sint v))"
  have i: "dec_int (sint v) = byte_of CHR ''-'' # ?d" using True by (simp add: dec_int_def)
  have "putb (rev ?d @ drop (length ?d) b) (length ?d) [byte_of CHR ''-''] = Inr (rev (dec_int (sint v)) @ drop (length (dec_int (sint v))) b)"
    using assms(2) i by (subst putb_append) simp_all
  then show ?thesis using True assms ull_digits_spec [of 0 "[]" "- v" b] reversed_text [OF assms(2)]
    by (simp add: sdsll2str_def u i)
qed

lemma sdsfromlonglong_spec:
  assumes "sint v \<noteq> - (2 ^ 63)"
  shows "\<exists>s. sdsfromlonglong g v = Inr s \<and> sds_rep s (dec_int (sint v))"
proof -
  have "sdsll2str (realloc g [] SDS_LLSTR_SIZE) v = Inr (dec_int (sint v) @ 0 # drop (length (dec_int (sint v)) + 1) (realloc g [] SDS_LLSTR_SIZE),
      length (dec_int (sint v)))"
    by (rule sdsll2str_spec [OF assms]) (use dec_int_s64 [of v] in \<open>simp add: length_realloc SDS_LLSTR_SIZE_def\<close>)
  moreover have "length (dec_int (sint v)) < 2 ^ 32" using dec_int_s64 [of v] by simp
  ultimately show ?thesis using sdsnewlen_spec(1) by (simp add: sdsfromlonglong_def)
qed

section \<open>Formats mean what they say\<close>

text \<open>
  The text of one specifier, \<open>None\<close> where its argument is missing or of another
  type; and the text of a format, \<open>None\<close> also where the format ends in a lone \<open>%\<close>.
\<close>

definition spec_text :: "u8 \<Rightarrow> fmtarg list \<Rightarrow> (u8 list \<times> fmtarg list) option" where
  "spec_text c args =
     (if c = byte_of CHR ''s'' then
        (case args of FStr t # rest \<Rightarrow> if 0 \<in> set t then Some (cstr t, rest) else None | _ \<Rightarrow> None)
      else if c = byte_of CHR ''S'' then
        (case args of FSds t # rest \<Rightarrow> if sdslen t \<le> length (sds_buf t) then Some (take (sdslen t) (sds_buf t), rest) else None | _ \<Rightarrow> None)
      else if c = byte_of CHR ''i'' then (case args of FInt w # rest \<Rightarrow> Some (dec_int (sint w), rest) | _ \<Rightarrow> None)
      else if c = byte_of CHR ''I'' then
        (case args of FLong w # rest \<Rightarrow> Some (dec_int (sint w), rest) | _ \<Rightarrow> None)
      else if c = byte_of CHR ''u'' then (case args of FUInt w # rest \<Rightarrow> Some (dec_nat (unat w), rest) | _ \<Rightarrow> None)
      else if c = byte_of CHR ''U'' then (case args of FULong w # rest \<Rightarrow> Some (dec_nat (unat w), rest) | _ \<Rightarrow> None)
      else Some ([c], args))"

fun fmt_render :: "u8 list \<Rightarrow> fmtarg list \<Rightarrow> (u8 list \<times> fmtarg list) option" where
  "fmt_render [] args = Some ([], args)"
| "fmt_render [c] args = (if c = byte_of CHR ''%'' then None else Some ([c], args))"
| "fmt_render (c # d # fmt) args =
     (if c = byte_of CHR ''%''
      then (case spec_text d args of
              None \<Rightarrow> None
            | Some (xs, rest) \<Rightarrow> map_option (\<lambda>(ys, r). (xs @ ys, r)) (fmt_render fmt rest))
      else map_option (\<lambda>(ys, r). (c # ys, r)) (fmt_render (d # fmt) args))"

text \<open>\<open>LLONG_MIN\<close> has no negation in \<open>long long\<close>, so \<open>sdsll2str\<close> cannot print it.\<close>

definition no_llong_min :: "fmtarg list \<Rightarrow> bool" where
  "no_llong_min args \<longleftrightarrow> (\<forall>a \<in> set args. case a of FLong w \<Rightarrow> sint w \<noteq> - (2 ^ 63) | _ \<Rightarrow> True)"

lemma spec_text_rest: "spec_text c args = Some (xs, rest) \<Longrightarrow> no_llong_min args \<Longrightarrow> no_llong_min rest"
  by (cases args; cases "hd args") (auto simp: spec_text_def no_llong_min_def split: if_splits)

lemma fmt_render_rest: "fmt_render fmt args = Some (out, rest) \<Longrightarrow> no_llong_min args \<Longrightarrow> no_llong_min rest"
  by (induction fmt args arbitrary: out rest rule: fmt_render.induct)
    (auto split: if_splits option.splits dest: spec_text_rest)

lemma getb_own: "getb (xs @ ys) 0 (length xs) = Inr xs"
  by simp

lemma fmt_text_spec:
  assumes "spec_text c args = Some (xs, rest)" and "no_llong_min args" and "length xs < 2 ^ 32"
  shows "fmt_text g c args = Inr (Some (xs, rest)) \<or> (fmt_text g c args = Inr None \<and> xs = [c] \<and> rest = args)"
proof -
  let ?b = "realloc g [] SDS_LLSTR_SIZE"
  have num: "sint (v :: u64) \<noteq> - (2 ^ 63) \<Longrightarrow> rbind (sdsll2str ?b v) (\<lambda>(buf, l). rbind (getb buf 0 l) (\<lambda>xs. Inr (Some (xs, r)))) =
      Inr (Some (dec_int (sint v), r))" for v r
    using dec_int_s64 [of v] by (subst sdsll2str_spec) (simp_all add: length_realloc SDS_LLSTR_SIZE_def getb_own)
  have unum: "rbind (sdsull2str ?b v) (\<lambda>(buf, l). rbind (getb buf 0 l) (\<lambda>xs. Inr (Some (xs, r)))) = Inr (Some (dec_nat (unat v), r))" for v r
    using dec_nat_u64 [of v] by (subst sdsull2str_spec) (simp_all add: length_realloc SDS_LLSTR_SIZE_def getb_own)
  have i: "sint (scast (w :: u32) :: u64) = sint w" for w by (simp add: sint_up_scast is_up)
  have "sint (w :: u32) \<noteq> - (2 ^ 63)" for w using sint_ge [of w] by simp
  then have i': "rbind (sdsll2str ?b (scast (w :: u32))) (\<lambda>(buf, l). rbind (getb buf 0 l) (\<lambda>xs. Inr (Some (xs, r)))) =
      Inr (Some (dec_int (sint w), r))" for w r using num [of "scast w"] by (simp add: i)
  have u': "rbind (sdsull2str ?b (ucast (w :: u32))) (\<lambda>(buf, l). rbind (getb buf 0 l) (\<lambda>xs. Inr (Some (xs, r)))) =
      Inr (Some (dec_nat (unat w), r))" for w r using unum [of "ucast w"] by (simp add: unat_ucast_up)
  have s: "0 \<in> set t \<Longrightarrow> length (cstr t) < 2 ^ 32 \<Longrightarrow> getb t 0 (unat (of_nat (length (cstr t)) :: u32)) = Inr (cstr t)" for t
    unfolding cstr_def
    by (simp add: unsigned_of_nat take_bit_nat_eq_self length_takeWhile_le takeWhile_eq_take [symmetric])
  show ?thesis
  proof (cases args)
    case Nil
    then show ?thesis using assms by (auto simp: spec_text_def fmt_text_def split: if_splits)
  next
    case (Cons a as)
    then show ?thesis using assms num unum i' u' s
      by (cases a) (auto simp: spec_text_def fmt_text_def Let_def strlen_def no_llong_min_def split: if_splits)
  qed
qed

text \<open>While the loop runs, the byte after the content is arbitrary.\<close>

abbreviation sds_run :: "sds \<Rightarrow> u8 list \<Rightarrow> bool" where
  "sds_run s xs \<equiv> \<exists>t. sds_raw s xs t"

lemma run_append:
  assumes "sds_run s xs" and "length ys \<le> sdsavail s"
  shows "\<exists>buf. put_at (sds_buf s) (int (length xs)) ys = Inr buf \<and>
    sds_run (s\<lparr>sds_len := sds_len s + of_nat (length ys), sds_free := sds_free s - of_nat (length ys), sds_buf := buf\<rparr>) (xs @ ys)"
proof -
  from assms(1) obtain t where "sds_raw s xs t" ..
  then obtain rest where s: "s = \<lparr>sds_len = of_nat (length xs), sds_free = of_nat (length rest), sds_buf = xs @ t # rest\<rparr>"
    "length xs + length rest < 2 ^ 32" "sdsavail s = length rest" by (rule sds_repE)
  have "drop (length ys) (t # rest) \<noteq> []" using s(3) assms(2) by simp
  then obtain t' r where d: "drop (length ys) (t # rest) = t' # r" by (cases "drop (length ys) (t # rest)") auto
  then have "length (t' # r) = length (t # rest) - length ys" by (metis length_drop)
  then have r: "length r = length rest - length ys" using assms(2) s(3) by simp
  have "put_at (sds_buf s) (int (length xs)) ys = Inr (xs @ ys @ drop (length ys) (t # rest))"
    using s assms(2) by (simp add: put_at_def)
  moreover have "sds_raw (s\<lparr>sds_len := sds_len s + of_nat (length ys), sds_free := sds_free s - of_nat (length ys),
      sds_buf := (xs @ ys) @ t' # r\<rparr>) (xs @ ys) t'"
    using s assms(2) r by (intro sds_repI [of _ _ r]) simp_all
  ultimately show ?thesis using d by auto
qed

lemma run_room:
  assumes "sds_run s xs" and "length xs + n + 2 ^ 20 < 2 ^ 32"
  shows "sds_run (if sdsavail s < n then sdsMakeRoomFor g s n else s) xs"
    and "n \<le> sdsavail (if sdsavail s < n then sdsMakeRoomFor g s n else s)"
proof -
  from assms(1) obtain t where t: "sds_raw s xs t" ..
  show "sds_run (if sdsavail s < n then sdsMakeRoomFor g s n else s) xs"
    using t makeRoom_spec(1) [OF t assms(2)] by (auto split: if_split)
  show "n \<le> sdsavail (if sdsavail s < n then sdsMakeRoomFor g s n else s)"
    using makeRoom_spec(2) [OF t assms(2)] by simp
qed

lemma put_text_spec:
  assumes "sds_run s xs" and "length xs + length ys < 2 ^ 31"
  shows "\<exists>s'. put_text g s (int (length xs)) ys = Inr (s', int (length (xs @ ys))) \<and> sds_run s' (xs @ ys)"
proof -
  let ?s = "if sdsavail s < length ys then sdsMakeRoomFor g s (length ys) else s"
  have l: "length xs + length ys + 2 ^ 20 < 2 ^ 32" using assms(2) by simp
  have i: "sint (word_of_int (int (length xs)) + of_nat (length ys) :: u32) = int (length xs + length ys)"
    using int_of_size [OF assms(2)] by (simp add: int_of_size_def)
  obtain buf where "put_at (sds_buf ?s) (int (length xs)) ys = Inr buf"
    "sds_run (?s\<lparr>sds_len := sds_len ?s + of_nat (length ys), sds_free := sds_free ?s - of_nat (length ys), sds_buf := buf\<rparr>) (xs @ ys)"
    using run_append [OF run_room [OF assms(1) l, of g]] by blast
  then show ?thesis unfolding put_text_def Let_def i by simp
qed

lemma put_char_spec:
  assumes "sds_run s xs" and "1 \<le> sdsavail s" and "length xs + 1 < 2 ^ 31"
  shows "\<exists>s'. put_char s (int (length xs)) c = Inr (s', int (length (xs @ [c]))) \<and> sds_run s' (xs @ [c])"
proof -
  have "s32 (int (length xs) + 1) = Inr (int (length xs) + 1)" using assms(3) by (intro s32_fits) auto
  then show ?thesis using run_append [of s xs "[c]"] assms(1,2) by (auto simp: put_char_def)
qed

lemma head_room:
  assumes "sds_run s xs" and "length xs + 1 < 2 ^ 31"
  shows "sds_run (if sds_free s = 0 then sdsMakeRoomFor g s 1 else s) xs"
    and "1 \<le> sdsavail (if sds_free s = 0 then sdsMakeRoomFor g s 1 else s)"
proof -
  have l: "length xs + 1 + 2 ^ 20 < 2 ^ 32" using assms(2) by simp
  have "sds_free s = 0 \<longleftrightarrow> sdsavail s < 1" by (simp add: sdsavail_def unat_eq_0)
  then show "sds_run (if sds_free s = 0 then sdsMakeRoomFor g s 1 else s) xs"
    and "1 \<le> sdsavail (if sds_free s = 0 then sdsMakeRoomFor g s 1 else s)"
    using run_room [OF assms(1) l, of g] by simp_all
qed

lemma fmt_loop_char:
  assumes "sds_run s xs" and "length xs + 1 < 2 ^ 31" and "c \<noteq> 0" and "c \<noteq> byte_of CHR ''%''"
  shows "\<exists>s'. fmt_loop g (a @ c # b) (length a) s (int (length xs)) args =
      fmt_loop g ((a @ [c]) @ b) (length (a @ [c])) s' (int (length (xs @ [c]))) args \<and> sds_run s' (xs @ [c])"
proof -
  let ?s = "if sds_free s = 0 then sdsMakeRoomFor g s 1 else s"
  obtain s' where "put_char ?s (int (length xs)) c = Inr (s', int (length (xs @ [c])))" "sds_run s' (xs @ [c])"
    using put_char_spec [OF head_room [OF assms(1,2)] assms(2), of g c] by auto
  moreover have "rd (a @ c # b) (length a) = Inr c" by (simp add: rd_def)
  ultimately show ?thesis using assms(3,4) by (subst fmt_loop.simps) (auto simp: Let_def)
qed

lemma fmt_loop_spec_step:
  assumes "sds_run s xs" and "spec_text c args = Some (ys, rest)" and "length xs + length ys + 1 < 2 ^ 31"
    and "no_llong_min args"
  shows "\<exists>s'. fmt_loop g (a @ byte_of CHR ''%'' # c # b) (length a) s (int (length xs)) args =
      fmt_loop g ((a @ [byte_of CHR ''%'', c]) @ b) (length (a @ [byte_of CHR ''%'', c])) s' (int (length (xs @ ys))) rest \<and> sds_run s' (xs @ ys)"
proof -
  let ?s = "if sds_free s = 0 then sdsMakeRoomFor g s 1 else s"
  have l: "length xs + 1 < 2 ^ 31" "length xs + length ys < 2 ^ 31" "length ys < 2 ^ 32" using assms(3) by simp_all
  have rd: "rd (a @ byte_of CHR ''%'' # c # b) (length a) = Inr (byte_of CHR ''%'')"
    "rd (a @ byte_of CHR ''%'' # c # b) (length a + 1) = Inr c" by (simp_all add: rd_def nth_append)
  have nz: "byte_of CHR ''%'' \<noteq> 0" by simp
  from fmt_text_spec [OF assms(2,4) l(3), of g] show ?thesis
  proof
    assume "fmt_text g c args = Inr (Some (ys, rest))"
    moreover obtain s' where "put_text g ?s (int (length xs)) ys = Inr (s', int (length (xs @ ys)))" "sds_run s' (xs @ ys)"
      using put_text_spec [OF head_room(1) [OF assms(1) l(1)] l(2), of g g] by auto
    ultimately show ?thesis using rd nz by (subst fmt_loop.simps) (auto simp: Let_def)
  next
    assume *: "fmt_text g c args = Inr None \<and> ys = [c] \<and> rest = args"
    moreover obtain s' where "put_char ?s (int (length xs)) c = Inr (s', int (length (xs @ [c])))" "sds_run s' (xs @ [c])"
      using put_char_spec [OF head_room [OF assms(1) l(1)] l(1), of g c] by auto
    ultimately show ?thesis using rd nz by (subst fmt_loop.simps) (auto simp: Let_def)
  qed
qed

lemma fmt_loop_spec:
  assumes "fmt_render fmt args = Some (out, rest)" and "sds_run s xs" and "0 \<notin> set fmt"
    and "length xs + length out + 1 < 2 ^ 31" and "no_llong_min args"
  shows "\<exists>s'. fmt_loop g (a @ fmt @ b) (length a) s (int (length xs)) args =
      fmt_loop g ((a @ fmt) @ b) (length (a @ fmt)) s' (int (length (xs @ out))) rest \<and> sds_run s' (xs @ out)"
  using assms
proof (induction fmt args arbitrary: a xs s out rule: fmt_render.induct)
  case (1 args)
  then show ?case by auto
next
  case (2 c args)
  then show ?case using fmt_loop_char [of s xs c g a b args] by (auto simp: add.commute split: if_splits)
next
  case (3 c d fmt args)
  show ?case
  proof (cases "c = byte_of CHR ''%''")
    case True
    then obtain ys r zs where t: "spec_text d args = Some (ys, r)" "fmt_render fmt r = Some (zs, rest)" "out = ys @ zs"
      using "3.prems"(1) by (auto split: option.splits)
    have l: "length xs + length ys + 1 < 2 ^ 31" "length (xs @ ys) + length zs + 1 < 2 ^ 31"
      using "3.prems"(4) t(3) by simp_all
    obtain s1 where s1: "fmt_loop g (a @ byte_of CHR ''%'' # d # fmt @ b) (length a) s (int (length xs)) args =
        fmt_loop g ((a @ [byte_of CHR ''%'', d]) @ fmt @ b) (length (a @ [byte_of CHR ''%'', d])) s1 (int (length (xs @ ys))) r" "sds_run s1 (xs @ ys)"
      using fmt_loop_spec_step [OF "3.prems"(2) t(1) l(1) "3.prems"(5), of g a "fmt @ b"] by blast
    have nz: "0 \<notin> set fmt" using "3.prems"(3) by simp
    obtain s2 where "fmt_loop g ((a @ [byte_of CHR ''%'', d]) @ fmt @ b) (length (a @ [byte_of CHR ''%'', d])) s1 (int (length (xs @ ys))) r =
        fmt_loop g (((a @ [byte_of CHR ''%'', d]) @ fmt) @ b) (length ((a @ [byte_of CHR ''%'', d]) @ fmt)) s2 (int (length ((xs @ ys) @ zs))) rest"
      "sds_run s2 ((xs @ ys) @ zs)"
      using "3.IH"(1) [OF True t(1) refl t(2) s1(2) nz l(2) spec_text_rest [OF t(1) "3.prems"(5)]] by blast
    then show ?thesis using s1 True t(3) by auto
  next
    case False
    then obtain zs where t: "fmt_render (d # fmt) args = Some (zs, rest)" "out = c # zs" using "3.prems"(1) by auto
    have l: "length xs + 1 < 2 ^ 31" "length (xs @ [c]) + length zs + 1 < 2 ^ 31"
      using "3.prems"(4) t(2) by simp_all
    have nz: "c \<noteq> 0" "0 \<notin> set (d # fmt)" using "3.prems"(3) by auto
    obtain s1 where s1: "fmt_loop g (a @ c # (d # fmt) @ b) (length a) s (int (length xs)) args =
        fmt_loop g ((a @ [c]) @ (d # fmt) @ b) (length (a @ [c])) s1 (int (length (xs @ [c]))) args" "sds_run s1 (xs @ [c])"
      using fmt_loop_char [OF "3.prems"(2) l(1) nz(1) False, of g a "(d # fmt) @ b"] by blast
    obtain s2 where "fmt_loop g ((a @ [c]) @ (d # fmt) @ b) (length (a @ [c])) s1 (int (length (xs @ [c]))) args =
        fmt_loop g (((a @ [c]) @ d # fmt) @ b) (length ((a @ [c]) @ d # fmt)) s2 (int (length ((xs @ [c]) @ zs))) rest"
      "sds_run s2 ((xs @ [c]) @ zs)"
      using "3.IH"(2) [OF False t(1) s1(2) nz(2) l(2) "3.prems"(5)] by blast
    then show ?thesis using s1 t(2) by auto
  qed
qed

lemma sdscatfmt_spec:
  assumes "sds_rep s xs" and "0 \<notin> set fmt" and "fmt_render fmt args = Some (out, rest)"
    and "length xs + length out + 1 < 2 ^ 31" and "no_llong_min args"
  shows "\<exists>s'. sdscatfmt g s (fmt @ 0 # junk) args = Inr s' \<and> sds_rep s' (xs @ out)"
proof -
  have run: "sds_run s xs" using assms(1) by blast
  have i: "int_of_size (sdslen s) = int (length xs)" using assms(4) sds_rep_len [OF assms(1)] by (simp add: int_of_size)
  obtain s1 t where s1: "fmt_loop g (fmt @ 0 # junk) 0 s (int (length xs)) args =
      fmt_loop g (fmt @ 0 # junk) (length fmt) s1 (int (length (xs @ out))) rest" "sds_raw s1 (xs @ out) t"
    using fmt_loop_spec [OF assms(3) run assms(2,4,5), of g "[]" "0 # junk"] by auto
  have "fmt_loop g (fmt @ 0 # junk) (length fmt) s1 (int (length (xs @ out))) rest = Inr (s1, int (length (xs @ out)))"
    by (subst fmt_loop.simps) (simp add: rd_def)
  moreover obtain r where r: "s1 = \<lparr>sds_len = of_nat (length (xs @ out)), sds_free = of_nat (length r), sds_buf = (xs @ out) @ t # r\<rparr>"
    "length (xs @ out) + length r < 2 ^ 32" using s1(2) by (rule sds_repE)
  moreover have "put_at ((xs @ out) @ t # r) (int (length (xs @ out))) [0] = Inr ((xs @ out) @ 0 # r)"
    unfolding put_at_def nat_int by (subst putb_append) simp_all
  ultimately have "sdscatfmt g s (fmt @ 0 # junk) args = Inr (s1\<lparr>sds_buf := (xs @ out) @ 0 # r\<rparr>)"
    using s1(1) by (simp add: sdscatfmt_def i del: of_nat_add length_append)
  moreover have "sds_rep (s1\<lparr>sds_buf := (xs @ out) @ 0 # r\<rparr>) (xs @ out)"
    by (rule sds_repI [of _ _ r]) (use r in simp_all)
  ultimately show ?thesis by blast
qed

text \<open>
  C15: \<open>sdscatfmt\<close> appends exactly the text its format and arguments stand for,
  as long as the string stays below \<open>2^31\<close> bytes, where its \<open>int\<close> position
  ends, and no argument is \<open>LLONG_MIN\<close>, whose negation in \<open>sdsll2str\<close>
  overflows (lemma \<open>sdscatfmt_llong_min\<close> below).
\<close>

theorem sdscatfmt_renders:
  assumes "sds_rep s xs" and "0 \<notin> set fmt" and "fmt_render fmt args = Some (out, rest)"
    and "length xs + length out + 1 < 2 ^ 31" and "no_llong_min args"
  shows "\<exists>s'. sdscatfmt g s (fmt @ 0 # junk) args = Inr s' \<and> sds_rep s' (xs @ out)"
  by (rule sdscatfmt_spec [OF assms])

text \<open>\<open>LLONG_MIN\<close> as an argument of \<open>%I\<close>, which the test of \<open>sds.c\<close> formats.\<close>

lemma sdscatfmt_llong_min:
  "sdscatfmt g s (map byte_of ''%I'' @ [0]) (FLong (word_of_int (- (2 ^ 63))) # args) = Inl SignedOverflow"
proof -
  have "sint (word_of_int (- (2 ^ 63)) :: u64) = - (2 ^ 63)" by (rule sint_of_int) simp_all
  then have "sdsll2str buf (word_of_int (- (2 ^ 63))) = Inl SignedOverflow" for buf by (simp add: sdsll2str_def)
  then show ?thesis unfolding sdscatfmt_def by (subst fmt_loop.simps) (simp add: rd_def fmt_text_def Let_def)
qed

text \<open>A format that ends in a lone \<open>%\<close> makes \<open>sdscatfmt\<close> read past its terminator.\<close>

theorem sdscatfmt_overrun:
  assumes "sds_rep s xs" and "0 \<notin> set fmt" and "fmt_render fmt args = Some (out, rest)"
    and "length xs + length out + 2 < 2 ^ 31" and "no_llong_min args"
  shows "sdscatfmt g s (fmt @ [byte_of CHR ''%'', 0]) args = Inl OutOfBounds"
proof -
  let ?f = "fmt @ [byte_of CHR ''%'', 0]"
  have run: "sds_run s xs" using assms(1) by blast
  have i: "int_of_size (sdslen s) = int (length xs)" using assms(4) sds_rep_len [OF assms(1)] by (simp add: int_of_size)
  obtain s1 where s1: "fmt_loop g ?f 0 s (int (length xs)) args = fmt_loop g ?f (length fmt) s1 (int (length (xs @ out))) rest" "sds_run s1 (xs @ out)"
    using fmt_loop_spec [OF assms(3) run assms(2), of g "[]" "[byte_of CHR ''%'', 0]"] assms(4,5) by auto
  have l: "length (xs @ out) + length [0 :: u8] + 1 < 2 ^ 31" using assms(4) by simp
  have sp: "spec_text 0 rest = Some ([0], rest)" by (simp add: spec_text_def)
  obtain s2 where s2: "fmt_loop g ?f (length fmt) s1 (int (length (xs @ out))) rest =
      fmt_loop g ?f (length ?f) s2 (int (length ((xs @ out) @ [0]))) rest"
    using fmt_loop_spec_step [OF s1(2) sp l fmt_render_rest [OF assms(3,5)], of g fmt "[]"] by auto
  have "fmt_loop g ?f (length ?f) s2 (int (length ((xs @ out) @ [0]))) rest = Inl OutOfBounds"
    by (subst fmt_loop.simps) (simp add: rd_def)
  then show ?thesis using s1(1) s2 by (simp add: sdscatfmt_def i)
qed

section \<open>Witnesses\<close>

definition no_sds :: sds where "no_sds = \<lparr>sds_len = 0, sds_free = 0, sds_buf = [0]\<rparr>"

lemma no_sds_rep: "sds_rep no_sds []"
  by (rule sds_repI [of _ _ "[]"]) (simp_all add: no_sds_def)

lemma sdscatfmt_renders_witness:
  "\<exists>s'. sdscatfmt (\<lambda>_. 0) no_sds (map byte_of ''n=%i!'' @ 0 # []) [FInt (- 7)] = Inr s' \<and> sds_rep s' ([] @ map byte_of ''n=-7!'')"
  by (rule sdscatfmt_renders [OF no_sds_rep, where rest = "[]"])
    (simp_all add: spec_text_def dec_int_def dec_nat.simps digit_def no_llong_min_def)

lemma sdscatfmt_overrun_witness:
  "sdscatfmt (\<lambda>_. 0) no_sds (map byte_of ''100'' @ [byte_of CHR ''%'', 0]) [] = Inl OutOfBounds"
  by (rule sdscatfmt_overrun [OF no_sds_rep, where out = "map byte_of ''100''" and rest = "[]"]) (simp_all add: no_llong_min_def)

end
