(* ===== verification/SdsSplit.thy ===== *)
theory SdsSplit
  imports Sds Decimal
begin

text \<open>
  Lists of strings in \<open>sds.c\<close>: \<open>sdssplitlen\<close> and \<open>sdsjoin\<close>, the quoted
  form \<open>sdscatrepr\<close>, and the command lines of \<open>sdssplitargs\<close>.
\<close>

section \<open>Splitting and joining\<close>

text \<open>The token array: \<open>slots\<close> places are allocated, the tokens so far are in the first ones.\<close>

definition put_token :: "nat \<Rightarrow> sds list \<Rightarrow> sds \<Rightarrow> sds list res" where
  "put_token slots tokens t = (if length tokens < slots then Inr (tokens @ [t]) else Inl OutOfBounds)"

definition sep_at :: "u8 list \<Rightarrow> nat \<Rightarrow> u8 list \<Rightarrow> nat \<Rightarrow> bool res" where
  "sep_at s j sep seplen =
     rbind (if seplen = 1 then rbind (rd s j) (\<lambda>c. rbind (rd sep 0) (\<lambda>d. Inr (c = d))) else Inr False) (\<lambda>b.
     if b then Inr True
     else rbind (getb s j seplen) (\<lambda>a. rbind (getb sep 0 seplen) (\<lambda>c. Inr (memcmp a c = 0))))"

text \<open>The search loop; \<open>seplen\<close> is positive.\<close>

function split_loop :: "(nat \<Rightarrow> u8) \<Rightarrow> u8 list \<Rightarrow> nat \<Rightarrow> u8 list \<Rightarrow> nat \<Rightarrow> nat \<Rightarrow> nat \<Rightarrow> nat \<Rightarrow> sds list \<Rightarrow>
    (sds list \<times> nat \<times> nat) res" where
  "split_loop g s len sep seplen j start slots tokens =
     (if 0 < seplen \<and> int j < int len - (int seplen - 1)
      then
        let slots = (if slots < length tokens + 2 then slots * 2 else slots) in
        rbind (sep_at s j sep seplen) (\<lambda>b.
        if b
        then rbind (sdsnewlen g (Some (drop start s)) (j - start)) (\<lambda>t.
             rbind (put_token slots tokens t) (\<lambda>tokens.
             split_loop g s len sep seplen (j + seplen - 1 + 1) (j + seplen) slots tokens))
        else split_loop g s len sep seplen (j + 1) start slots tokens)
      else Inr (tokens, start, slots))"
  by pat_completeness auto
termination by (relation "measure (\<lambda>(g, s, len, sep, seplen, j, start, slots, tokens). len - j)") auto

declare split_loop.simps [simp del]

definition sdssplitlen :: "(nat \<Rightarrow> u8) \<Rightarrow> u8 list \<Rightarrow> int \<Rightarrow> u8 list \<Rightarrow> int \<Rightarrow> sds list option res" where
  "sdssplitlen g s len sep seplen =
     (if seplen < 1 \<or> len < 0 then Inr None
      else if len = 0 then Inr (Some [])
      else
        rbind (split_loop g s (nat len) sep (nat seplen) 0 0 5 []) (\<lambda>(tokens, start, slots).
        rbind (sdsnewlen g (Some (drop start s)) (nat len - start)) (\<lambda>t.
        rbind (put_token slots tokens t) (\<lambda>tokens. Inr (Some tokens)))))"

definition sdsjoin :: "(nat \<Rightarrow> u8) \<Rightarrow> u8 list list \<Rightarrow> nat \<Rightarrow> u8 list \<Rightarrow> sds res" where
  "sdsjoin g argv argc sep =
     rbind (sdsempty g)
       (for_each (\<lambda>j join. rbind (rd argv j) (\<lambda>a. rbind (sdscat g join a) (\<lambda>join.
          if int j \<noteq> int argc - 1 then sdscat g join sep else Inr join))) [0..<argc])"

section \<open>Formatted and quoted text\<close>

text \<open>
  \<open>sdscatvprintf\<close> for a format whose text is \<open>text\<close>: \<open>vsnprintf\<close> writes what
  fits and a terminator; the buffer is doubled until its last but one byte stays zero.
\<close>

definition vsnprintf :: "u8 list \<Rightarrow> nat \<Rightarrow> u8 list \<Rightarrow> u8 list res" where
  "vsnprintf buf n text = (if n = 0 then Inr buf else putb buf 0 (take (n - 1) text @ [0]))"

function printf_loop :: "(nat \<Rightarrow> u8) \<Rightarrow> nat \<Rightarrow> u8 list \<Rightarrow> u8 list res" where
  "printf_loop g buflen text =
     (if buflen < 2 then Inl OutOfBounds
      else
        rbind (putb (realloc g [] buflen) (buflen - 2) [0]) (\<lambda>buf.
        rbind (vsnprintf buf buflen text) (\<lambda>buf.
        rbind (rd buf (buflen - 2)) (\<lambda>c.
        if c \<noteq> 0 then printf_loop g (buflen * 2) text else Inr buf))))"
  by pat_completeness auto
termination
proof (relation "measure (\<lambda>(g, buflen, text). length text + 2 - buflen)")
  fix g :: "nat \<Rightarrow> u8" and buflen :: nat and str :: "u8 list" and buf buf' c
  assume n: "\<not> buflen < 2" and a: "putb (realloc g [] buflen) (buflen - 2) [0] = Inr buf"
    "vsnprintf buf buflen str = Inr buf'" "rd buf' (buflen - 2) = Inr c" "c \<noteq> 0"
  obtain k where k: "buflen = Suc (Suc k)" using n by (cases buflen; cases "buflen - 1") auto
  have b: "length buf = Suc (Suc k)" "buf ! k = 0" using a(1) k
    by (auto simp: putb_def length_realloc poke_def nth_append split: if_splits)
  have "buf' = take (Suc k) str @ [0] @ drop (Suc (length (take (Suc k) str))) buf"
    using a(2) k by (auto simp: vsnprintf_def putb_def poke_def split: if_splits)
  then have "k < length str"
    using a(3,4) b k by (auto simp: rd_def nth_append nth_Cons' split: if_splits)
  then show "((g, buflen * 2, str), g, buflen, str) \<in> measure (\<lambda>(g, buflen, text). length text + 2 - buflen)" using k by auto
qed simp

declare printf_loop.simps [simp del]

definition sdscatvprintf :: "(nat \<Rightarrow> u8) \<Rightarrow> sds \<Rightarrow> u8 list \<Rightarrow> u8 list \<Rightarrow> sds res" where
  "sdscatvprintf g s fmt text =
     rbind (strlen fmt) (\<lambda>l.
     rbind (printf_loop g (if l * 2 > 1024 then l * 2 else 1024) text) (\<lambda>buf. sdscat g s buf))"

definition isprint :: "u8 \<Rightarrow> bool" where "isprint c \<longleftrightarrow> 32 \<le> c \<and> c \<le> 126"

text \<open>What \<open>%02x\<close> prints.\<close>

definition hex_digit :: "u8 \<Rightarrow> u8" where
  "hex_digit n = (if n < 10 then 48 + n else 87 + n)"

definition hex02 :: "u8 \<Rightarrow> u8 list" where
  "hex02 c = [hex_digit (c div 16), hex_digit (c mod 16)]"

definition repr_char :: "(nat \<Rightarrow> u8) \<Rightarrow> sds \<Rightarrow> u8 \<Rightarrow> sds res" where
  "repr_char g s c =
     (let bs = 0x5C in
      if c = bs \<or> c = 0x22 then sdscatvprintf g s [bs, byte_of CHR ''%'', byte_of CHR ''c'', 0] [bs, c]
      else if c = 10 then sdscatlen g s [bs, byte_of CHR ''n'', 0] 2
      else if c = 13 then sdscatlen g s [bs, byte_of CHR ''r'', 0] 2
      else if c = 9 then sdscatlen g s [bs, byte_of CHR ''t'', 0] 2
      else if c = 7 then sdscatlen g s [bs, byte_of CHR ''a'', 0] 2
      else if c = 8 then sdscatlen g s [bs, byte_of CHR ''b'', 0] 2
      else if isprint c then sdscatvprintf g s [byte_of CHR ''%'', byte_of CHR ''c'', 0] [c]
      else sdscatvprintf g s ([bs] @ map byte_of ''x%02x'' @ [0]) ([bs, byte_of CHR ''x''] @ hex02 c))"

definition sdscatrepr :: "(nat \<Rightarrow> u8) \<Rightarrow> sds \<Rightarrow> u8 list \<Rightarrow> nat \<Rightarrow> sds res" where
  "sdscatrepr g s p len =
     rbind (sdscatlen g s [0x22, 0] 1) (\<lambda>s.
     rbind (for_each (\<lambda>i s. rbind (rd p i) (repr_char g s)) [0..<len] s) (\<lambda>s.
     sdscatlen g s [0x22, 0] 1))"

section \<open>Command lines\<close>

definition is_hex_digit :: "u8 \<Rightarrow> bool" where
  "is_hex_digit c \<longleftrightarrow> (48 \<le> c \<and> c \<le> 57) \<or> (97 \<le> c \<and> c \<le> 102) \<or> (65 \<le> c \<and> c \<le> 70)"

definition hex_digit_to_int :: "u8 \<Rightarrow> nat" where
  "hex_digit_to_int c =
     (if 48 \<le> c \<and> c \<le> 57 then unat c - 48
      else if 97 \<le> c \<and> c \<le> 102 then unat c - 87
      else if 65 \<le> c \<and> c \<le> 70 then unat c - 55 else 0)"

definition skip_escape :: "u8 \<Rightarrow> u8" where
  "skip_escape c =
     (if c = byte_of CHR ''n'' then 10 else if c = byte_of CHR ''r'' then 13 else if c = byte_of CHR ''t'' then 9
      else if c = byte_of CHR ''b'' then 8 else if c = byte_of CHR ''a'' then 7 else c)"

text \<open>
  One turn of the token loop: \<open>None\<close> for \<open>goto err\<close>, else the token, the position,
  \<open>inq\<close> / \<open>insq\<close> and \<open>done\<close>.
\<close>

datatype quoting = Bare | InQ | InSQ

definition hex_escape :: "u8 list \<Rightarrow> nat \<Rightarrow> bool res" where
  "hex_escape line p =
     rbind (rd line (p + 1)) (\<lambda>x. if x \<noteq> byte_of CHR ''x'' then Inr False else
     rbind (rd line (p + 2)) (\<lambda>h. if \<not> is_hex_digit h then Inr False else
     rbind (rd line (p + 3)) (\<lambda>l. Inr (is_hex_digit l))))"

definition close_quote :: "u8 list \<Rightarrow> nat \<Rightarrow> quoting \<Rightarrow> sds \<Rightarrow> (sds \<times> nat \<times> quoting \<times> bool) option res" where
  "close_quote line p q cur =
     rbind (rd line (p + 1)) (\<lambda>n. if n \<noteq> 0 \<and> \<not> isspace n then Inr None else Inr (Some (cur, p, q, True)))"

definition add_char :: "(nat \<Rightarrow> u8) \<Rightarrow> sds \<Rightarrow> u8 \<Rightarrow> nat \<Rightarrow> quoting \<Rightarrow> (sds \<times> nat \<times> quoting \<times> bool) option res" where
  "add_char g cur d p q = rbind (sdscatlen g cur [d] 1) (\<lambda>cur. Inr (Some (cur, p, q, False)))"

definition inq_step :: "(nat \<Rightarrow> u8) \<Rightarrow> u8 list \<Rightarrow> nat \<Rightarrow> sds \<Rightarrow> u8 \<Rightarrow> (sds \<times> nat \<times> quoting \<times> bool) option res" where
  "inq_step g line p cur c =
     rbind (if c = 0x5C then hex_escape line p else Inr False) (\<lambda>hex.
     if hex then
       rbind (rd line (p + 2)) (\<lambda>h. rbind (rd line (p + 3)) (\<lambda>l.
       add_char g cur (of_nat (hex_digit_to_int h * 16 + hex_digit_to_int l)) (p + 3) InQ))
     else
       rbind (if c = 0x5C then rbind (rd line (p + 1)) (\<lambda>n. Inr (n \<noteq> 0)) else Inr False) (\<lambda>esc.
       if esc then rbind (rd line (p + 1)) (\<lambda>n. add_char g cur (skip_escape n) (p + 1) InQ)
       else if c = 0x22 then close_quote line p InQ cur
       else if c = 0 then Inr None
       else add_char g cur c p InQ))"

definition insq_step :: "(nat \<Rightarrow> u8) \<Rightarrow> u8 list \<Rightarrow> nat \<Rightarrow> sds \<Rightarrow> u8 \<Rightarrow> (sds \<times> nat \<times> quoting \<times> bool) option res" where
  "insq_step g line p cur c =
     rbind (if c = 0x5C then rbind (rd line (p + 1)) (\<lambda>n. Inr (n = 0x27)) else Inr False) (\<lambda>esc.
     if esc then add_char g cur 0x27 (p + 1) InSQ
     else if c = 0x27 then close_quote line p InSQ cur
     else if c = 0 then Inr None
     else add_char g cur c p InSQ)"

definition bare_step :: "(nat \<Rightarrow> u8) \<Rightarrow> nat \<Rightarrow> sds \<Rightarrow> u8 \<Rightarrow> (sds \<times> nat \<times> quoting \<times> bool) option res" where
  "bare_step g p cur c =
     (if c = 32 \<or> c = 10 \<or> c = 13 \<or> c = 9 \<or> c = 0 then Inr (Some (cur, p, Bare, True))
      else if c = 0x22 then Inr (Some (cur, p, InQ, False))
      else if c = 0x27 then Inr (Some (cur, p, InSQ, False))
      else add_char g cur c p Bare)"

definition tok_step :: "(nat \<Rightarrow> u8) \<Rightarrow> u8 list \<Rightarrow> nat \<Rightarrow> quoting \<Rightarrow> sds \<Rightarrow> (sds \<times> nat \<times> quoting \<times> bool) option res" where
  "tok_step g line p q cur =
     rbind (rd line p) (\<lambda>c.
     case q of InQ \<Rightarrow> inq_step g line p cur c | InSQ \<Rightarrow> insq_step g line p cur c | Bare \<Rightarrow> bare_step g p cur c)"

lemma add_charD: "add_char g cur d p q = Inr (Some (cur', p', q', e)) \<Longrightarrow> p' = p \<and> q' = q \<and> \<not> e"
  by (auto simp: add_char_def)

lemma close_quoteD: "close_quote line p q cur = Inr (Some (cur', p', q', e)) \<Longrightarrow> cur' = cur \<and> p' = p \<and> e"
  by (auto simp: close_quote_def split: if_splits)

lemma hex_escapeD:
  "hex_escape line p = Inr True \<Longrightarrow>
     rd line (p + 1) = Inr (byte_of CHR ''x'') \<and> (\<exists>h l. rd line (p + 2) = Inr h \<and> is_hex_digit h \<and> rd line (p + 3) = Inr l \<and> is_hex_digit l)"
  by (auto simp: hex_escape_def split: if_splits)

lemma hex_not_0: "\<not> is_hex_digit 0"
  by (simp add: is_hex_digit_def)

lemma tok_step_advances:
  assumes "tok_step g line p q cur = Inr (Some (cur', p', q', d))"
  shows "p \<le> p' \<and> (\<not> d \<longrightarrow> (\<exists>c. rd line p' = Inr c \<and> c \<noteq> 0))"
proof -
  obtain c where c: "rd line p = Inr c" using assms by (auto simp: tok_step_def)
  show ?thesis
  proof (cases q)
    case Bare
    then show ?thesis using assms c
      by (auto simp: tok_step_def bare_step_def split: if_splits dest!: add_charD)
  next
    case InSQ
    then show ?thesis using assms c
      by (auto simp: tok_step_def insq_step_def split: if_splits dest!: add_charD close_quoteD)
  next
    case InQ
    then have s: "inq_step g line p cur c = Inr (Some (cur', p', q', d))" using assms c by (simp add: tok_step_def)
    then obtain hex where h: "(if c = 0x5C then hex_escape line p else Inr False) = Inr hex" by (auto simp: inq_step_def)
    show ?thesis
    proof (cases hex)
      case True
      then have e: "hex_escape line p = Inr True" using h by (auto split: if_splits)
      then show ?thesis using s h True hex_escapeD [OF e] hex_not_0
        by (auto simp: inq_step_def dest!: add_charD)
    next
      case False
      then show ?thesis using s h c
        by (auto simp: inq_step_def split: if_splits dest!: add_charD close_quoteD)
    qed
  qed
qed

lemma rd_less: "rd line p = Inr c \<Longrightarrow> p < length line"
  by (simp add: rd_Inr_iff)

function tok_loop :: "(nat \<Rightarrow> u8) \<Rightarrow> u8 list \<Rightarrow> nat \<Rightarrow> quoting \<Rightarrow> sds \<Rightarrow> (sds \<times> nat) option res" where
  "tok_loop g line p q cur =
     rbind (tok_step g line p q cur) (\<lambda>r.
     case r of
       None \<Rightarrow> Inr None
     | Some (cur, p, q, fin) \<Rightarrow>
         rbind (rd line p) (\<lambda>c.
         let p = (if c \<noteq> 0 then p + 1 else p) in
         if fin then Inr (Some (cur, p)) else tok_loop g line p q cur))"
  by pat_completeness auto
termination
  by (relation "measure (\<lambda>(g, line, p, q, cur). length line - p)")
    (auto dest!: tok_step_advances simp: rd_Inr_iff split: if_splits)

declare tok_loop.simps [simp del]

function skip_blanks :: "u8 list \<Rightarrow> nat \<Rightarrow> nat res" where
  "skip_blanks line p = rbind (rd line p) (\<lambda>c. if c \<noteq> 0 \<and> isspace c then skip_blanks line (p + 1) else Inr p)"
  by pat_completeness auto
termination by (relation "measure (\<lambda>(line, p). length line - p)") (auto dest!: rd_less)

declare skip_blanks.simps [simp del]

lemma skip_blanks_result:
  "skip_blanks line p = Inr p' \<Longrightarrow> p \<le> p' \<and> (\<exists>c. rd line p' = Inr c \<and> (c = 0 \<or> \<not> isspace c))"
proof (induction line p rule: skip_blanks.induct)
  case (1 line p)
  then obtain c where c: "rd line p = Inr c" by (subst (asm) skip_blanks.simps) auto
  show ?case
  proof (cases "c \<noteq> 0 \<and> isspace c")
    case True
    then have "skip_blanks line (p + 1) = Inr p'" using "1.prems" c by (subst (asm) skip_blanks.simps) simp
    then show ?thesis using "1.IH" [OF c True] by auto
  next
    case False
    then show ?thesis using "1.prems" c by (subst (asm) skip_blanks.simps) auto
  qed
qed

lemma tok_loop_advances: "tok_loop g line p q cur = Inr (Some (cur', p')) \<Longrightarrow> p \<le> p'"
proof (induction g line p q cur rule: tok_loop.induct)
  case (1 g line p q cur)
  from "1.prems" obtain cur1 p1 q1 d c where s: "tok_step g line p q cur = Inr (Some (cur1, p1, q1, d))" "rd line p1 = Inr c"
    "(let p = (if c \<noteq> 0 then p1 + 1 else p1) in if d then Inr (Some (cur1, p)) else tok_loop g line p q1 cur1) = Inr (Some (cur', p'))"
    by (subst (asm) tok_loop.simps) (auto split: option.splits)
  have "p \<le> p1" using tok_step_advances [OF s(1)] by simp
  moreover have "(if c \<noteq> 0 then p1 + 1 else p1) \<le> p'"
    using s(3) "1.IH" [OF s(1) refl refl refl refl s(2) refl] by (auto simp: Let_def split: if_splits)
  ultimately show ?case by (auto split: if_splits)
qed

lemma bare_start: "c \<noteq> 0 \<Longrightarrow> \<not> isspace c \<Longrightarrow> bare_step g p cur c = Inr (Some (cur', p', q', d)) \<Longrightarrow> \<not> d \<and> p' = p"
  by (auto simp: bare_step_def isspace_def split: if_splits dest!: add_charD)

lemma tok_loop_moves:
  assumes "rd line p = Inr c" "c \<noteq> 0" "\<not> isspace c" and "tok_loop g line p Bare cur = Inr (Some (cur', p'))"
  shows "p < p'"
proof -
  from assms(4) obtain cur1 p1 q1 d c1 where s: "tok_step g line p Bare cur = Inr (Some (cur1, p1, q1, d))" "rd line p1 = Inr c1"
    "(let p = (if c1 \<noteq> 0 then p1 + 1 else p1) in if d then Inr (Some (cur1, p)) else tok_loop g line p q1 cur1) = Inr (Some (cur', p'))"
    by (subst (asm) tok_loop.simps) (auto split: option.splits)
  have "\<not> d \<and> p1 = p" using s(1) assms(1) by (intro bare_start [OF assms(2,3)]) (auto simp: tok_step_def)
  then show ?thesis using s assms(1,2) tok_loop_advances [of g line "p + 1" q1 cur1 cur' p'] by simp
qed

lemma args_progress:
  assumes "skip_blanks line p = Inr p1" "rd line p1 = Inr c" "c \<noteq> 0" "tok_loop g line p1 Bare cur = Inr (Some (cur2, p2))"
  shows "length line - p2 < length line - p"
proof -
  have "p \<le> p1" "\<not> isspace c" using skip_blanks_result [OF assms(1)] assms(2,3) by auto
  moreover have "p1 < p2" by (rule tok_loop_moves [OF assms(2,3) _ assms(4)]) (rule \<open>\<not> isspace c\<close>)
  ultimately show ?thesis using rd_less [OF assms(2)] by auto
qed

function args_loop :: "(nat \<Rightarrow> u8) \<Rightarrow> u8 list \<Rightarrow> nat \<Rightarrow> sds list \<Rightarrow> sds list option res" where
  "args_loop g line p vector =
     rbind (skip_blanks line p) (\<lambda>p.
     rbind (rd line p) (\<lambda>c.
     if c \<noteq> 0
     then rbind (sdsempty g) (\<lambda>cur.
          rbind (tok_loop g line p Bare cur) (\<lambda>r.
          case r of None \<Rightarrow> Inr None | Some (cur, p) \<Rightarrow> args_loop g line p (vector @ [cur])))
     else Inr (Some vector)))"
  by pat_completeness auto
termination
  by (relation "measure (\<lambda>(g, line, p, vector). length line - p)") (auto dest: args_progress)

declare args_loop.simps [simp del]

definition sdssplitargs :: "(nat \<Rightarrow> u8) \<Rightarrow> u8 list \<Rightarrow> sds list option res" where
  "sdssplitargs g line = args_loop g line 0 []"

section \<open>Splitting is complete and exact\<close>

text \<open>
  The reference: the text before each occurrence of the separator, found from
  the left and without overlap, and the text after the last one.
\<close>

function splits :: "'a list \<Rightarrow> 'a list \<Rightarrow> 'a list \<Rightarrow> 'a list list" where
  "splits sep acc xs =
     (if sep = [] \<or> length xs < length sep then [acc @ xs]
      else if take (length sep) xs = sep then acc # splits sep [] (drop (length sep) xs)
      else splits sep (acc @ [hd xs]) (tl xs))"
  by pat_completeness auto
termination
proof (relation "measure (\<lambda>(sep, acc, xs). length xs)")
  fix sep acc xs :: "'a list" assume "\<not> (sep = [] \<or> length xs < length sep)"
  then have "0 < length sep" "length sep \<le> length xs" "xs \<noteq> []" by auto
  then show "((sep, [], drop (length sep) xs), sep, acc, xs) \<in> measure (\<lambda>(sep, acc, xs). length xs)"
    and "((sep, acc @ [hd xs], tl xs), sep, acc, xs) \<in> measure (\<lambda>(sep, acc, xs). length xs)" by simp_all
qed simp

declare splits.simps [simp del]

fun join :: "'a list \<Rightarrow> 'a list list \<Rightarrow> 'a list" where
  "join sep [] = []"
| "join sep [xs] = xs"
| "join sep (xs # ys # zss) = xs @ sep @ join sep (ys # zss)"

lemma splits_nonempty [simp]: "splits sep acc xs \<noteq> []"
  by (induction sep acc xs rule: splits.induct) (subst splits.simps, simp)

lemma join_Cons: "xss \<noteq> [] \<Longrightarrow> join sep (xs # xss) = xs @ sep @ join sep xss"
  by (cases xss) simp_all

lemma join_splits: "join sep (splits sep acc xs) = acc @ xs"
proof (induction sep acc xs rule: splits.induct)
  case (1 sep acc xs)
  have *: "take (length sep) xs = sep \<Longrightarrow> sep @ drop (length sep) xs = xs" by (metis append_take_drop_id)
  show ?case
    by (subst splits.simps) (cases "xs = []"; use 1 * in \<open>auto simp: join_Cons\<close>)
qed

lemma sep_at_spec:
  assumes "j + length sep \<le> length xs" and "sep \<noteq> []"
  shows "sep_at (xs @ zs) j (sep @ ws) (length sep) = Inr (take (length sep) (drop j xs) = sep)"
proof -
  have g: "getb (xs @ zs) j (length sep) = Inr (take (length sep) (drop j xs))" "getb (sep @ ws) 0 (length sep) = Inr sep"
    using assms(1) by (simp_all add: getb_def peek_def)
  have m: "memcmp (take (length sep) (drop j xs)) sep = 0 \<longleftrightarrow> take (length sep) (drop j xs) = sep"
    using assms(1) by (intro memcmp_eq) simp
  have one: "length sep = 1 \<Longrightarrow> rd (xs @ zs) j = Inr (xs ! j) \<and> rd (sep @ ws) 0 = Inr (hd sep) \<and>
      (xs ! j = hd sep \<longleftrightarrow> take (length sep) (drop j xs) = sep)"
    using assms by (cases sep) (auto simp: rd_def nth_append take_Suc hd_drop_conv_nth)
  show ?thesis
  proof (cases "length sep = 1")
    case True
    note o = one [OF True]
    show ?thesis using g m o True unfolding sep_at_def by simp
  next
    case False
    then show ?thesis using g m unfolding sep_at_def by simp
  qed
qed

lemma token_spec:
  assumes "start + n \<le> length xs" and "length xs < 2 ^ 32"
  shows "\<exists>t. sdsnewlen g (Some (drop start (xs @ zs))) n = Inr t \<and> sds_rep t (take n (drop start xs))"
proof -
  have l: "length (take n (drop start xs)) = n" using assms(1) by simp
  have "drop start (xs @ zs) = take n (drop start xs) @ drop n (drop start xs) @ drop (start - length xs) zs"
    by (simp del: drop_drop)
  moreover have "length (take n (drop start xs)) < 2 ^ 32" using assms l by linarith
  ultimately show ?thesis using sdsnewlen_spec(1) [of "take n (drop start xs)" g "drop n (drop start xs) @ drop (start - length xs) zs"] l
    by metis
qed

lemma splits_slide:
  assumes "sep \<noteq> []" "start \<le> j" "j + length sep \<le> length xs" "take (length sep) (drop j xs) \<noteq> sep"
  shows "splits sep (take (j - start) (drop start xs)) (drop j xs) = splits sep (take (j + 1 - start) (drop start xs)) (drop (j + 1) xs)"
proof -
  have j: "j < length xs" using assms(1,3) by (cases sep) auto
  then have "drop j xs = xs ! j # drop (j + 1) xs" by (simp add: Cons_nth_drop_Suc)
  moreover have "take (j - start) (drop start xs) @ [xs ! j] = take (j + 1 - start) (drop start xs)"
    using assms(2) j by (simp add: Suc_diff_le take_Suc_conv_app_nth)
  moreover have "\<not> length (drop j xs) < length sep" using assms(3) by simp
  ultimately show ?thesis using assms(1,4) by (subst splits.simps) (simp only: simp_thms if_False list.sel)
qed

lemma splits_hit:
  assumes "sep \<noteq> []" "j + length sep \<le> length xs" "take (length sep) (drop j xs) = sep"
  shows "splits sep acc (drop j xs) = acc # splits sep [] (drop (j + length sep) xs)"
proof -
  have "\<not> length (drop j xs) < length sep" using assms(2) by simp
  then show ?thesis using assms by (subst splits.simps) (simp add: add.commute)
qed

lemma split_loop_spec:
  assumes "sep \<noteq> []" and "length xs < 2 ^ 32" and "start \<le> j" and "j \<le> length xs" and "list_all2 sds_rep tokens ts"
    and "length tokens < slots"
  shows "\<exists>toks start' slots' ts' t. split_loop g (xs @ zs) (length xs) (sep @ ws) (length sep) j start slots tokens = Inr (toks, start', slots') \<and>
    length toks < slots' \<and> start' \<le> length xs \<and> list_all2 sds_rep toks (ts @ ts') \<and>
    splits sep (take (j - start) (drop start xs)) (drop j xs) = ts' @ [drop start' xs]"
  using assms(3-6)
proof (induction "length xs - j" arbitrary: j start slots tokens ts rule: less_induct)
  case less
  let ?l = "split_loop g (xs @ zs) (length xs) (sep @ ws) (length sep)"
  show ?case
  proof (cases "j + length sep \<le> length xs")
    case False
    have "?l j start slots tokens = Inr (tokens, start, slots)" using False by (subst split_loop.simps) auto
    moreover have "take (j - start) (drop start xs) @ drop j xs = drop start xs"
      using less.prems(1) append_take_drop_id [of "j - start" "drop start xs"] by simp
    then have "splits sep (take (j - start) (drop start xs)) (drop j xs) = [] @ [drop start xs]"
      using False less.prems(2) by (subst splits.simps) auto
    ultimately show ?thesis using less.prems by (intro exI [of _ tokens] exI [of _ start] exI [of _ slots] exI [of _ "[]"]) simp
  next
    case True
    let ?slots = "if slots < length tokens + 2 then slots * 2 else slots"
    have sl: "length tokens + 1 < ?slots" using less.prems(4) by auto
    have c: "0 < length sep \<and> int j < int (length xs) - (int (length sep) - 1)" using True assms(1) by auto
    have lt: "length xs - (j + 1) < length xs - j" "length xs - (j + length sep) < length xs - j"
      using True assms(1) by (cases sep; auto)+
    note at = sep_at_spec [OF True assms(1), of zs ws]
    show ?thesis
    proof (cases "take (length sep) (drop j xs) = sep")
      case False
      have "?l j start slots tokens = ?l (j + 1) start ?slots tokens" using c at False by (subst split_loop.simps) (simp add: Let_def)
      moreover have "j + 1 \<le> length xs" using True c by linarith
      ultimately show ?thesis using less.hyps [OF lt(1) _ _ less.prems(3), of start ?slots] less.prems sl
          splits_slide [OF assms(1) less.prems(1) True False] by simp
    next
      case hit: True
      obtain t where t: "sdsnewlen g (Some (drop start (xs @ zs))) (j - start) = Inr t" "sds_rep t (take (j - start) (drop start xs))"
        using token_spec [OF _ assms(2), of start "j - start" g zs] less.prems(1,2) by auto
      have "?l j start slots tokens = ?l (j + length sep) (j + length sep) ?slots (tokens @ [t])"
        using c at hit t sl by (subst split_loop.simps) (simp add: Let_def put_token_def)
      moreover have "list_all2 sds_rep (tokens @ [t]) (ts @ [take (j - start) (drop start xs)])"
        using less.prems(3) t(2) by (intro list_all2_appendI) simp_all
      ultimately show ?thesis using less.hyps [OF lt(2) order_refl True, of "tokens @ [t]" "ts @ [take (j - start) (drop start xs)]" ?slots] sl
        by (auto simp: splits_hit [OF assms(1) True hit])
    qed
  qed
qed

lemma sdssplitlen_spec:
  assumes "sep \<noteq> []" and "length xs < 2 ^ 32"
  shows "\<exists>toks. sdssplitlen g (xs @ zs) (int (length xs)) (sep @ ws) (int (length sep)) = Inr (Some toks) \<and>
    list_all2 sds_rep toks (if xs = [] then [] else splits sep [] xs)"
proof (cases "xs = []")
  case True
  then show ?thesis using assms(1) by (cases sep) (auto simp: sdssplitlen_def)
next
  case False
  obtain toks start slots ts where l: "split_loop g (xs @ zs) (length xs) (sep @ ws) (length sep) 0 0 5 [] = Inr (toks, start, slots)"
    "length toks < slots" "start \<le> length xs" "list_all2 sds_rep toks ts" "splits sep [] xs = ts @ [drop start xs]"
    using split_loop_spec [OF assms, of 0 0 "[]" "[]" 5 g zs ws] by auto
  obtain t where t: "sdsnewlen g (Some (drop start (xs @ zs))) (length xs - start) = Inr t" "sds_rep t (take (length xs - start) (drop start xs))"
    using token_spec [OF _ assms(2), of start "length xs - start" g zs] l(3) by auto
  have "sdssplitlen g (xs @ zs) (int (length xs)) (sep @ ws) (int (length sep)) = Inr (Some (toks @ [t]))"
    using False assms(1) l(1,2) t(1) by (simp add: sdssplitlen_def put_token_def Suc_le_eq)
  moreover have "list_all2 sds_rep (toks @ [t]) (ts @ [drop start xs])"
    using l(4) t(2) by (intro list_all2_appendI) simp_all
  ultimately show ?thesis using False l(5) by auto
qed

lemma join_take:
  "ts \<noteq> [] \<Longrightarrow> concat (map (\<lambda>t. t @ sp) (take (length ts - 1) ts)) @ last ts = join sp ts"
  by (induction sp ts rule: join.induct) auto

lemma join_prefix: "k < length ts \<Longrightarrow> length (concat (map (\<lambda>t. t @ sp) (take k ts))) + length (ts ! k) \<le> length (join sp ts)"
proof (induction sp ts arbitrary: k rule: join.induct)
  case (3 sp xs ys zss)
  then show ?case by (cases k) auto
qed simp_all

lemma join_prefix_sep: "Suc k < length ts \<Longrightarrow> length (concat (map (\<lambda>t. t @ sp) (take (Suc k) ts))) \<le> length (join sp ts)"
  using join_prefix [of "Suc k" ts sp] by simp

lemma sdsjoin_spec:
  assumes argv: "list_all2 (\<lambda>a t. \<exists>w. a = t @ 0 # w \<and> 0 \<notin> set t) argv ts" and sp: "0 \<notin> set sp"
    and len: "length (join sp ts) + 2 ^ 20 < 2 ^ 32"
  shows "\<exists>s. sdsjoin g argv (length ts) (sp @ 0 # w) = Inr s \<and> sds_rep s (join sp ts)"
proof -
  let ?n = "length ts"
  define P where "P k = (if k = ?n then join sp ts else concat (map (\<lambda>t. t @ sp) (take k ts)))" for k
  let ?f = "\<lambda>j join. rbind (rd argv j) (\<lambda>a. rbind (sdscat g join a) (\<lambda>join.
          if int j \<noteq> int ?n - 1 then sdscat g join (sp @ 0 # w) else Inr join))"
  obtain s0 where s0: "sdsempty g = Inr s0" "sds_rep s0 []"
    using sdsnewlen_spec(1) [of "[]" g "[0]"] by (auto simp: sdsempty_def)
  have "\<exists>s. for_each ?f [0..<?n] s0 = Inr s \<and> sds_rep s (P (length [0..<?n]))"
  proof (rule for_each_rule [where I = "\<lambda>js s. sds_rep s (P (length js))"])
    show "sds_rep s0 (P (length []))" using s0(2) by (simp add: P_def)
  next
    fix js j ks s assume eq: "[0..<?n] = js @ j # ks" and s: "sds_rep s (P (length js))"
    have j: "j < ?n" "length js = j" using upt_split [OF eq] by auto
    obtain w' where a: "rd argv j = Inr (ts ! j @ 0 # w')" "0 \<notin> set (ts ! j)"
      using list_all2_nthD2 [OF argv j(1)] list_all2_lengthD [OF argv] j(1) by (auto simp: rd_def)
    have Pj: "P j = concat (map (\<lambda>t. t @ sp) (take j ts))" using j(1) by (simp add: P_def)
    have "length (P j) + length (ts ! j) + 2 ^ 20 < 2 ^ 32" using join_prefix [OF j(1), of sp] len Pj by simp
    then obtain s1 where s1: "sdscat g s (ts ! j @ 0 # w') = Inr s1" "sds_rep s1 (P j @ ts ! j)"
      using sdscat_spec [OF _ _ a(2), of s "P j" g w'] s j(2) by auto
    show "\<exists>s'. ?f j s = Inr s' \<and> sds_rep s' (P (length (js @ [j])))"
    proof (cases "Suc j = ?n")
      case True
      then have "?n - 1 = j" "ts \<noteq> []" by auto
      then have "take (?n - 1) ts = take j ts" "last ts = ts ! j" by (simp_all add: last_conv_nth)
      then have "P j @ ts ! j = P (Suc j)" using join_take [of ts sp] True \<open>ts \<noteq> []\<close> by (auto simp: P_def)
      moreover have "int j = int ?n - 1" using True by simp
      ultimately show ?thesis using a(1) s1 j(2) by simp
    next
      case False
      then have k: "Suc j < ?n" "int j \<noteq> int ?n - 1" using j(1) by auto
      have Pk: "P (Suc j) = P j @ ts ! j @ sp" using k j(1) by (simp add: P_def take_Suc_conv_app_nth)
      have "length (P j @ ts ! j) + length sp + 2 ^ 20 < 2 ^ 32" using join_prefix_sep [OF k(1), of sp] len Pk k(1) by (simp add: P_def)
      then obtain s2 where "sdscat g s1 (sp @ 0 # w) = Inr s2" "sds_rep s2 ((P j @ ts ! j) @ sp)"
        using sdscat_spec [OF s1(2) _ sp, of g w] by auto
      then show ?thesis using a(1) s1(1) k(2) j(2) Pk by simp
    qed
  qed
  then show ?thesis using s0(1) by (simp add: sdsjoin_def P_def)
qed

lemma rep_argv: "sds_rep t xs \<Longrightarrow> \<exists>w. sds_buf t = xs @ 0 # w"
  by (auto elim: sds_repE)

text \<open>\<open>sdssplitlen\<close> cuts at every occurrence of the separator, and \<open>sdsjoin\<close> gives the text back.\<close>

theorem split_join:
  assumes "sep \<noteq> []" and "0 \<notin> set sep" and "0 \<notin> set xs" and "length xs < 2 ^ 31"
  shows "\<exists>toks s. sdssplitlen g (xs @ zs) (int (length xs)) (sep @ ws) (int (length sep)) = Inr (Some toks) \<and>
    list_all2 sds_rep toks (if xs = [] then [] else splits sep [] xs) \<and>
    sdsjoin g (map sds_buf toks) (length toks) (sep @ 0 # ws) = Inr s \<and> sds_rep s xs"
proof -
  let ?ts = "if xs = [] then [] else splits sep [] xs"
  obtain toks where t: "sdssplitlen g (xs @ zs) (int (length xs)) (sep @ ws) (int (length sep)) = Inr (Some toks)"
    "list_all2 sds_rep toks ?ts" using sdssplitlen_spec [OF assms(1), of xs g zs ws] assms(4) by auto
  have j: "join sep ?ts = xs" by (simp add: join_splits)
  have sub: "set t \<subseteq> set (join sep ts)" if "t \<in> set ts" for t ts using that
    by (induction sep ts rule: join.induct) auto
  have "0 \<notin> set t" if "t \<in> set ?ts" for t using sub [OF that] j assms(3) by auto
  then have "list_all2 (\<lambda>a t. \<exists>w. a = t @ 0 # w \<and> 0 \<notin> set t) (map sds_buf toks) ?ts"
    using t(2) rep_argv by (auto simp: list_all2_conv_all_nth)
  moreover have "length (join sep ?ts) + 2 ^ 20 < 2 ^ 32" using j assms(4) by simp
  ultimately obtain s where "sdsjoin g (map sds_buf toks) (length ?ts) (sep @ 0 # ws) = Inr s" "sds_rep s (join sep ?ts)"
    using sdsjoin_spec [OF _ assms(2)] by blast
  then show ?thesis using t j list_all2_lengthD [OF t(2)] by auto
qed

section \<open>Quoted text reads back\<close>

text \<open>The reference for one quoted byte, and for a quoted string.\<close>

definition quote_char :: "u8 \<Rightarrow> u8 list" where
  "quote_char c =
     (if c = 0x5C \<or> c = 0x22 then [0x5C, c]
      else if c = 10 then [0x5C, byte_of CHR ''n''] else if c = 13 then [0x5C, byte_of CHR ''r'']
      else if c = 9 then [0x5C, byte_of CHR ''t''] else if c = 7 then [0x5C, byte_of CHR ''a'']
      else if c = 8 then [0x5C, byte_of CHR ''b'']
      else if isprint c then [c] else [0x5C, byte_of CHR ''x''] @ hex02 c)"

definition quoted :: "u8 list \<Rightarrow> u8 list" where
  "quoted xs = 0x22 # concat (map quote_char xs) @ [0x22]"

lemma hex_digit_spec:
  assumes "(n :: u8) < 16"
  shows "is_hex_digit (hex_digit n) \<and> hex_digit_to_int (hex_digit n) = unat n \<and> hex_digit n \<noteq> 0"
proof -
  have "unat n < 16" using assms by (simp add: word_less_nat_alt)
  then have "unat n \<in> set [0..<16]" by simp
  moreover have "\<forall>k \<in> set [0..<16]. is_hex_digit (hex_digit (of_nat k)) \<and> hex_digit_to_int (hex_digit (of_nat k)) = k \<and> hex_digit (of_nat k) \<noteq> 0"
    by code_simp
  ultimately have "is_hex_digit (hex_digit (of_nat (unat n))) \<and> hex_digit_to_int (hex_digit (of_nat (unat n))) = unat n \<and>
      hex_digit (of_nat (unat n)) \<noteq> 0" by (rule bspec [rotated])
  then show ?thesis by simp
qed

lemma hex02_spec:
  "hex_digit (c div 16) \<noteq> 0" "hex_digit (c mod 16) \<noteq> 0"
  "is_hex_digit (hex_digit (c div 16))" "is_hex_digit (hex_digit (c mod 16))"
  "of_nat (hex_digit_to_int (hex_digit (c div 16)) * 16 + hex_digit_to_int (hex_digit (c mod 16))) = (c :: u8)"
proof -
  have u: "unat (c div 16) = unat c div 16" "unat (c mod 16) = unat c mod 16" by (simp_all add: unat_div_distrib unat_mod_distrib)
  have "unat c < 2 ^ LENGTH(8)" by (rule unsigned_less)
  then have "c div 16 < 16" "c mod 16 < 16" using u by (simp_all add: word_less_nat_alt)
  note h = hex_digit_spec [OF this(1)] hex_digit_spec [OF this(2)]
  show "hex_digit (c div 16) \<noteq> 0" "hex_digit (c mod 16) \<noteq> 0"
    "is_hex_digit (hex_digit (c div 16))" "is_hex_digit (hex_digit (c mod 16))" using h by simp_all
  have "of_nat (unat c div 16 * 16 + unat c mod 16) = c" by (simp only: div_mult_mod_eq) simp
  then show "of_nat (hex_digit_to_int (hex_digit (c div 16)) * 16 + hex_digit_to_int (hex_digit (c mod 16))) = c"
    using h u by simp
qed

lemma quote_char_not_0: "0 \<notin> set (quote_char c)"
  using hex02_spec(1,2) [of c] by (auto simp: quote_char_def hex02_def isprint_def)

lemma length_quote_char: "length (quote_char c) \<le> 4"
  by (simp add: quote_char_def hex02_def)

lemma printf_loop_spec:
  assumes "0 \<notin> set str"
  shows "2 \<le> n \<Longrightarrow> \<exists>junk. printf_loop g n str = Inr (str @ 0 # junk)"
proof (induction "length str + 2 - n" arbitrary: n rule: less_induct)
  case less
  then obtain k where k: "n = Suc (Suc k)" by (cases n; cases "n - 1") auto
  let ?b0 = "poke (realloc g [] n) k [0]"
  have b0: "length ?b0 = n" "?b0 ! k = 0" using k by (simp_all add: poke_def length_realloc nth_append)
  have p: "putb (realloc g [] n) (n - 2) [0] = Inr ?b0" using k by (simp add: putb_def length_realloc)
  let ?t = "take (Suc k) str"
  let ?b1 = "?t @ 0 # drop (Suc (length ?t)) ?b0"
  have v: "vsnprintf ?b0 n str = Inr ?b1" using k b0 by (simp add: vsnprintf_def putb_def poke_def)
  show ?case
  proof (cases "k < length str")
    case True
    then have "rd ?b1 (n - 2) = Inr (str ! k)" using k by (simp add: rd_def nth_append)
    moreover have "str ! k \<noteq> 0" using assms nth_mem [OF True] by metis
    ultimately have "printf_loop g n str = printf_loop g (n * 2) str" using k p v by (subst printf_loop.simps) simp
    moreover have "length str + 2 - n * 2 < length str + 2 - n" using True k by simp
    ultimately show ?thesis using less by simp
  next
    case False
    then have "?b1 ! k = 0" "?t = str" using b0 k by (auto simp: nth_append nth_Cons')
    moreover have "k < length ?b1" using b0 k by simp
    ultimately have "rd ?b1 (n - 2) = Inr 0" using k by (simp add: rd_def)
    then have "printf_loop g n str = Inr ?b1" using k p v by (subst printf_loop.simps) simp
    then show ?thesis using \<open>?t = str\<close> by auto
  qed
qed

lemma sdscatvprintf_spec:
  assumes "sds_rep s xs" and "0 \<notin> set str" and "length xs + length str + 2 ^ 20 < 2 ^ 32" and "0 \<in> set fmt"
  shows "\<exists>s'. sdscatvprintf g s fmt str = Inr s' \<and> sds_rep s' (xs @ str)"
proof -
  let ?n = "if length (cstr fmt) * 2 > 1024 then length (cstr fmt) * 2 else 1024"
  have "2 \<le> ?n" by simp
  then obtain junk where "printf_loop g ?n str = Inr (str @ 0 # junk)" using printf_loop_spec [OF assms(2)] by blast
  then show ?thesis using sdscat_spec [OF assms(1,3,2), of g junk] assms(4) by (simp add: sdscatvprintf_def strlen_def)
qed

lemma repr_char_spec:
  assumes "sds_rep s xs" and "length xs + 4 + 2 ^ 20 < 2 ^ 32"
  shows "\<exists>s'. repr_char g s c = Inr s' \<and> sds_rep s' (xs @ quote_char c)"
proof -
  have l: "length xs + length (quote_char c) + 2 ^ 20 < 2 ^ 32" using assms(2) length_quote_char [of c] by linarith
  have two: "\<exists>s'. sdscatlen g s [a, b, 0] 2 = Inr s' \<and> sds_rep s' (xs @ [a, b])" for a b
    using sdscatlen_spec [OF assms(1), of "[a, b]" g "[0]"] assms(2) by (simp add: numeral_2_eq_2)
  have f: "\<exists>s'. sdscatvprintf g s fmt (quote_char c) = Inr s' \<and> sds_rep s' (xs @ quote_char c)" if "0 \<in> set fmt" for fmt
    by (rule sdscatvprintf_spec [OF assms(1) quote_char_not_0 l that])
  show ?thesis
  proof (cases "c = 0x5C \<or> c = 0x22 \<or> c \<notin> {10, 13, 9, 7, 8}")
    case True
    then show ?thesis using f [of "[0x5C, byte_of CHR ''%'', byte_of CHR ''c'', 0]"] f [of "[byte_of CHR ''%'', byte_of CHR ''c'', 0]"]
        f [of "[0x5C] @ map byte_of ''x%02x'' @ [0]"]
      by (auto simp: repr_char_def Let_def quote_char_def split: if_splits)
  next
    case False
    then show ?thesis using two by (auto simp: repr_char_def Let_def quote_char_def)
  qed
qed

lemma length_quotes: "length (concat (map quote_char xs)) \<le> 4 * length xs"
  by (induction xs) (use length_quote_char in \<open>auto intro: add_mono order_trans\<close>)

lemma sdscatrepr_spec:
  assumes rep: "sds_rep s xs" and len: "length xs + 4 * length ys + 2 + 2 ^ 20 < 2 ^ 32"
  shows "\<exists>s'. sdscatrepr g s (ys @ zs) (length ys) = Inr s' \<and> sds_rep s' (xs @ quoted ys)"
proof -
  let ?f = "\<lambda>i s. rbind (rd (ys @ zs) i) (repr_char g s)"
  obtain s1 where s1: "sdscatlen g s [0x22, 0] 1 = Inr s1" "sds_rep s1 (xs @ [0x22])"
    using sdscatlen_spec [OF rep, of "[0x22]" g "[0]"] len by auto
  have "\<exists>s2. for_each ?f [0..<length ys] s1 = Inr s2 \<and> sds_rep s2 ((xs @ [0x22]) @ concat (map quote_char (take (length [0..<length ys]) ys)))"
  proof (rule for_each_rule [where I = "\<lambda>js s. sds_rep s ((xs @ [0x22]) @ concat (map quote_char (take (length js) ys)))"])
    show "sds_rep s1 ((xs @ [0x22]) @ concat (map quote_char (take (length []) ys)))" using s1(2) by simp
  next
    fix js j ks s assume eq: "[0..<length ys] = js @ j # ks" and s: "sds_rep s ((xs @ [0x22]) @ concat (map quote_char (take (length js) ys)))"
    have j: "j < length ys" "length js = j" using upt_split [OF eq] by auto
    have r: "rd (ys @ zs) j = Inr (ys ! j)" using j by (simp add: rd_def nth_append)
    have "length ((xs @ [0x22]) @ concat (map quote_char (take (length js) ys))) + 4 + 2 ^ 20 < 2 ^ 32"
      using length_quotes [of "take (length js) ys"] j len by simp
    then show "\<exists>s'. ?f j s = Inr s' \<and> sds_rep s' ((xs @ [0x22]) @ concat (map quote_char (take (length (js @ [j])) ys)))"
      using repr_char_spec [OF s, of g "ys ! j"] r j by (simp add: take_Suc_conv_app_nth)
  qed
  then obtain s2 where s2: "for_each ?f [0..<length ys] s1 = Inr s2" "sds_rep s2 ((xs @ [0x22]) @ concat (map quote_char ys))"
    by auto
  have "length ((xs @ [0x22]) @ concat (map quote_char ys)) + length [0x22 :: u8] + 2 ^ 20 < 2 ^ 32"
    using length_quotes [of ys] len by simp
  then obtain s3 where "sdscatlen g s2 [0x22, 0] 1 = Inr s3" "sds_rep s3 (((xs @ [0x22]) @ concat (map quote_char ys)) @ [0x22])"
    using sdscatlen_spec [OF s2(2), of "[0x22]" g "[0]"] by auto
  then show ?thesis using s1(1) s2(1) by (simp add: sdscatrepr_def quoted_def)
qed

text \<open>Inside double quotes every quoted byte reads back as the byte it stands for.\<close>

lemma rd_append: "length a = i \<Longrightarrow> b \<noteq> [] \<Longrightarrow> rd (a @ b) i = Inr (hd b)"
  by (cases b) (auto simp: rd_def)

lemma rd_append_plus: "length a = i \<Longrightarrow> n < length b \<Longrightarrow> rd (a @ b) (i + n) = Inr (b ! n)"
  by (auto simp: rd_def nth_append)

lemma add_char_spec:
  assumes "sds_rep cur ys" and "length ys + 1 + 2 ^ 20 < 2 ^ 32"
  shows "\<exists>cur'. add_char g cur d p q = Inr (Some (cur', p, q, False)) \<and> sds_rep cur' (ys @ [d])"
  using sdscatlen_spec [OF assms(1), of "[d]" g "[]"] assms(2) by (auto simp: add_char_def)

lemma inq_quoted:
  assumes "sds_rep cur ys" and "length ys + 1 + 2 ^ 20 < 2 ^ 32"
  shows "\<exists>cur'. tok_step g (a @ quote_char c @ b) (length a) InQ cur = Inr (Some (cur', length a + length (quote_char c) - 1, InQ, False)) \<and>
    sds_rep cur' (ys @ [c])"
proof -
  let ?line = "a @ quote_char c @ b"
  have ne: "quote_char c \<noteq> []" by (simp add: quote_char_def)
  have rd: "rd ?line (length a + n) = Inr ((quote_char c @ b) ! n)" if "n < length (quote_char c)" for n
    using that by (intro rd_append_plus) simp_all
  have rd0: "rd ?line (length a) = Inr (quote_char c ! 0)" using rd [of 0] ne by (simp add: nth_append)
  have add: "\<exists>cur'. add_char g cur c p InQ = Inr (Some (cur', p, InQ, False)) \<and> sds_rep cur' (ys @ [c])" for p
    by (rule add_char_spec [OF assms])
  have esc: ?thesis if "quote_char c = [0x5C, d]" "d \<noteq> byte_of CHR ''x''" "d \<noteq> 0" "skip_escape d = c" for d
    using that rd0 rd [of 1] add [of "length a + 1"] by (auto simp: tok_step_def inq_step_def hex_escape_def)
  consider (bs) "c = 0x5C \<or> c = 0x22" | (ctl) "c \<in> {10, 13, 9, 7, 8}" | (pr) "isprint c" "c \<noteq> 0x5C" "c \<noteq> 0x22" "c \<notin> {10, 13, 9, 7, 8}"
    | (hex) "\<not> isprint c" "c \<noteq> 0x5C" "c \<noteq> 0x22" "c \<notin> {10, 13, 9, 7, 8}" by blast
  then show ?thesis
  proof cases
    case bs
    then show ?thesis by (intro esc [of c]) (auto simp: quote_char_def skip_escape_def)
  next
    case ctl
    have "\<exists>d. quote_char c = [0x5C, d] \<and> d \<noteq> byte_of CHR ''x'' \<and> d \<noteq> 0 \<and> skip_escape d = c"
      using ctl by (auto simp: quote_char_def skip_escape_def)
    then show ?thesis using esc by blast
  next
    case pr
    then have q: "quote_char c = [c]" "c \<noteq> 0" by (auto simp: quote_char_def isprint_def)
    then show ?thesis using pr rd0 add [of "length a"] by (auto simp: tok_step_def inq_step_def)
  next
    case hex
    then have q: "quote_char c = [0x5C, byte_of CHR ''x'', hex_digit (c div 16), hex_digit (c mod 16)]"
      by (auto simp: quote_char_def hex02_def)
    have r: "rd ?line (length a + 1) = Inr (byte_of CHR ''x'')" "rd ?line (length a + 2) = Inr (hex_digit (c div 16))"
      "rd ?line (length a + 3) = Inr (hex_digit (c mod 16))"
      using rd [of 1] rd [of 2] rd [of 3] by (simp_all add: q numeral_2_eq_2 numeral_3_eq_3)
    have "hex_escape ?line (length a) = Inr True" using r hex02_spec(3,4) [of c] by (simp add: hex_escape_def)
    then have "tok_step g ?line (length a) InQ cur = add_char g cur c (length a + 3) InQ"
      using rd0 r hex02_spec(5) [of c] by (simp add: tok_step_def inq_step_def q)
    then show ?thesis using add [of "length a + 3"] q by (simp add: numeral_3_eq_3)
  qed
qed

lemma inq_loop:
  assumes "sds_rep cur ys" and "length ys + length xs + 1 + 2 ^ 20 < 2 ^ 32"
  shows "\<exists>cur'. tok_loop g (a @ concat (map quote_char xs) @ b) (length a) InQ cur =
      tok_loop g ((a @ concat (map quote_char xs)) @ b) (length (a @ concat (map quote_char xs))) InQ cur' \<and> sds_rep cur' (ys @ xs)"
  using assms
proof (induction xs arbitrary: a cur ys)
  case Nil
  then show ?case by auto
next
  case (Cons c xs)
  let ?line = "a @ quote_char c @ concat (map quote_char xs) @ b"
  have l: "length ys + 1 + 2 ^ 20 < 2 ^ 32" "length (ys @ [c]) + length xs + 1 + 2 ^ 20 < 2 ^ 32" using Cons.prems(2) by simp_all
  obtain cur1 where s1: "tok_step g ?line (length a) InQ cur = Inr (Some (cur1, length a + length (quote_char c) - 1, InQ, False))"
    "sds_rep cur1 (ys @ [c])" using inq_quoted [OF Cons.prems(1) l(1)] by blast
  have n: "0 < length (quote_char c)" by (simp add: quote_char_def)
  have "length (quote_char c) - 1 < length (quote_char c @ concat (map quote_char xs) @ b)"
    using n unfolding length_append by linarith
  then have "rd ?line (length a + (length (quote_char c) - 1)) = Inr ((quote_char c @ concat (map quote_char xs) @ b) ! (length (quote_char c) - 1))"
    by (rule rd_append_plus [OF refl])
  moreover have "(quote_char c @ concat (map quote_char xs) @ b) ! (length (quote_char c) - 1) \<in> set (quote_char c)"
    using n by (simp add: nth_append)
  ultimately obtain d where "rd ?line (length a + (length (quote_char c) - 1)) = Inr d" "d \<noteq> 0"
    using quote_char_not_0 [of c] by metis
  moreover have "length a + (length (quote_char c) - 1) = length a + length (quote_char c) - 1" using n by arith
  ultimately have d: "rd ?line (length a + length (quote_char c) - 1) = Inr d" "d \<noteq> 0" by simp_all
  then have step: "tok_loop g ?line (length a) InQ cur = tok_loop g ?line (length a + length (quote_char c)) InQ cur1"
    using s1(1) n d by (subst tok_loop.simps) (simp add: Let_def)
  obtain cur2 where "tok_loop g ((a @ quote_char c) @ concat (map quote_char xs) @ b) (length (a @ quote_char c)) InQ cur1 =
      tok_loop g (((a @ quote_char c) @ concat (map quote_char xs)) @ b) (length ((a @ quote_char c) @ concat (map quote_char xs))) InQ cur2"
    "sds_rep cur2 ((ys @ [c]) @ xs)" using Cons.IH [OF s1(2) l(2), of "a @ quote_char c"] by blast
  then show ?case using step by auto
qed

lemma quoted_token:
  assumes "length xs + 1 + 2 ^ 20 < 2 ^ 32" and "b \<noteq> []" and "hd b = 0 \<or> isspace (hd b)" and "sds_rep cur []"
  shows "\<exists>t. tok_loop g (a @ quoted xs @ b) (length a) Bare cur = Inr (Some (t, length (a @ quoted xs))) \<and> sds_rep t xs"
proof -
  let ?q = "concat (map quote_char xs)"
  let ?line = "(a @ [0x22]) @ ?q @ 0x22 # b"
  have "rd ?line (length a) = Inr 0x22" by (simp add: rd_def)
  then have 1: "tok_loop g ?line (length a) Bare cur = tok_loop g ?line (length (a @ [0x22])) InQ cur"
    by (subst tok_loop.simps) (simp add: tok_step_def bare_step_def)
  have l: "length ([] :: u8 list) + length xs + 1 + 2 ^ 20 < 2 ^ 32" using assms(1) by simp
  obtain t where t: "tok_loop g ?line (length (a @ [0x22])) InQ cur =
      tok_loop g (((a @ [0x22]) @ ?q) @ 0x22 # b) (length ((a @ [0x22]) @ ?q)) InQ t" "sds_rep t ([] @ xs)"
    using inq_loop [OF assms(4) l, of g "a @ [0x22]" "0x22 # b"] by blast
  let ?e = "length ((a @ [0x22]) @ ?q)"
  have r: "rd (((a @ [0x22]) @ ?q) @ 0x22 # b) ?e = Inr 0x22" by (subst rd_append) simp_all
  have "rd (((a @ [0x22]) @ ?q) @ 0x22 # b) (?e + 1) = Inr (hd b)"
    using assms(2) by (subst rd_append_plus) (simp_all add: hd_conv_nth neq_Nil_conv)
  then have "tok_loop g (((a @ [0x22]) @ ?q) @ 0x22 # b) ?e InQ t = Inr (Some (t, ?e + 1))"
    using r assms(3) by (subst tok_loop.simps) (auto simp: tok_step_def inq_step_def close_quote_def)
  then show ?thesis using 1 t by (simp add: quoted_def)
qed

lemma sds_rep_unique: "sds_raw s xs t \<Longrightarrow> sds_raw s ys u \<Longrightarrow> xs = ys"
  using sds_rep_len [of s xs t] sds_rep_len [of s ys u] by (auto simp: sds_raw_def)

section \<open>Command lines of quoted strings\<close>

definition blank :: "u8 list \<Rightarrow> bool" where "blank bl \<longleftrightarrow> (\<forall>c \<in> set bl. isspace c)"

lemma isspace_0 [simp]: "\<not> isspace 0"
  by (simp add: isspace_def)

lemma skip_blanks_spec:
  assumes "blank bl" and "b \<noteq> []" and "hd b = 0 \<or> \<not> isspace (hd b)"
  shows "skip_blanks (a @ bl @ b) (length a) = Inr (length (a @ bl))"
  using assms
proof (induction bl arbitrary: a)
  case Nil
  then have "rd (a @ b) (length a) = Inr (hd b)" by (intro rd_append) simp_all
  then show ?case using Nil.prems(3) by (subst skip_blanks.simps) auto
next
  case (Cons c bl)
  have "rd (a @ (c # bl) @ b) (length a) = Inr c" by (simp add: rd_def)
  moreover have "isspace c" "c \<noteq> 0" using Cons.prems(1) by (auto simp: blank_def)
  ultimately have "skip_blanks (a @ (c # bl) @ b) (length a) = skip_blanks ((a @ [c]) @ bl @ b) (length (a @ [c]))"
    by (subst skip_blanks.simps) simp
  then show ?case using Cons.IH [of "a @ [c]"] Cons.prems by (simp add: blank_def)
qed

definition args_line :: "(u8 list \<times> u8 list) list \<Rightarrow> u8 list \<Rightarrow> u8 list" where
  "args_line ps tail = concat (map (\<lambda>(bl, q). bl @ q) ps) @ tail @ [0]"

text \<open>Blanks before each argument, at least one between two of them; lengths within the header's.\<close>

definition args_ok :: "(u8 list \<times> u8 list) list \<Rightarrow> u8 list \<Rightarrow> bool" where
  "args_ok ps tail \<longleftrightarrow> blank tail \<and> (\<forall>(bl, xs) \<in> set ps. blank bl \<and> length xs + 1 + 2 ^ 20 < 2 ^ 32) \<and>
     (\<forall>(bl, xs) \<in> set (tl ps). bl \<noteq> [])"

lemma args_line_head:
  assumes "args_ok ps tail" and "\<forall>(bl, xs) \<in> set ps. bl \<noteq> []"
  shows "args_line qs tail \<noteq> [] \<and> (list_all2 (\<lambda>p q. fst p = fst q) ps qs \<longrightarrow>
    hd (args_line qs tail) = 0 \<or> isspace (hd (args_line qs tail)))"
proof (cases qs)
  case Nil
  then show ?thesis using assms(1) by (cases tail) (auto simp: args_line_def args_ok_def blank_def)
next
  case (Cons q qs')
  then show ?thesis using assms
    by (cases ps; cases "fst q") (auto simp: args_line_def args_ok_def blank_def split_beta)
qed

lemma args_loop_spec:
  assumes "args_ok ps tail" and "list_all2 sds_rep vec vs"
  shows "\<exists>toks. args_loop g (a @ args_line (map (\<lambda>(bl, xs). (bl, quoted xs)) ps) tail) (length a) vec = Inr (Some toks) \<and>
    list_all2 sds_rep toks (vs @ map snd ps)"
  using assms
proof (induction ps arbitrary: a vec vs)
  case Nil
  have "skip_blanks (a @ tail @ [0]) (length a) = Inr (length (a @ tail))"
    using Nil.prems(1) by (intro skip_blanks_spec) (simp_all add: args_ok_def)
  moreover have "rd (a @ tail @ [0]) (length (a @ tail)) = Inr 0" by (simp add: rd_def nth_append)
  ultimately have "args_loop g (a @ tail @ [0]) (length a) vec = Inr (Some vec)" by (subst args_loop.simps) simp
  then show ?case using Nil.prems(2) by (simp add: args_line_def)
next
  case (Cons p ps)
  obtain bl xs where p: "p = (bl, xs)" by (cases p)
  let ?qs = "map (\<lambda>(bl, xs). (bl, quoted xs)) ps"
  let ?rest = "args_line ?qs tail"
  have ok: "args_ok ps tail" "\<forall>(bl, xs) \<in> set ps. bl \<noteq> []" "blank bl" "length xs + 1 + 2 ^ 20 < 2 ^ 32"
    using Cons.prems(1) p by (cases ps; auto simp: args_ok_def)+
  have hd: "?rest \<noteq> []" "hd ?rest = 0 \<or> isspace (hd ?rest)"
    using args_line_head [OF ok(1,2), of ?qs] by (auto simp: list_all2_conv_all_nth split_beta)
  let ?line = "a @ bl @ quoted xs @ ?rest"
  have sk: "skip_blanks ?line (length a) = Inr (length (a @ bl))"
    by (rule skip_blanks_spec [OF ok(3)]) (simp_all add: quoted_def isspace_def)
  have r: "rd ?line (length (a @ bl)) = Inr 0x22"
    using rd_append [of "a @ bl" "length (a @ bl)" "quoted xs @ ?rest"] by (simp add: quoted_def)
  obtain s0 where s0: "sdsempty g = Inr s0" "sds_rep s0 []"
    using sdsnewlen_spec(1) [of "[]" g "[0]"] by (auto simp: sdsempty_def)
  obtain t where t: "tok_loop g ((a @ bl) @ quoted xs @ ?rest) (length (a @ bl)) Bare s0 = Inr (Some (t, length ((a @ bl) @ quoted xs)))" "sds_rep t xs"
    using quoted_token [OF ok(4) hd s0(2)] by blast
  have "args_loop g ?line (length a) vec = args_loop g ((a @ bl @ quoted xs) @ ?rest) (length (a @ bl @ quoted xs)) (vec @ [t])"
    using sk r s0(1) t(1) by (subst args_loop.simps) simp
  moreover have "list_all2 sds_rep (vec @ [t]) (vs @ [xs])" using Cons.prems(2) t(2) by (intro list_all2_appendI) simp_all
  ultimately show ?case using Cons.IH [OF ok(1), of "vec @ [t]" "vs @ [xs]" "a @ bl @ quoted xs"] p by (simp add: args_line_def)
qed

text \<open>
  C14: \<open>sdssplitargs\<close> reads back what \<open>sdscatrepr\<close> writes: a line of quoted strings
  between blanks gives exactly those strings, whatever their bytes.
\<close>

theorem args_round_trip:
  assumes "args_ok ps tail" and "list_all2 (\<lambda>(bl, xs) q. \<exists>s0 s. sds_rep s0 [] \<and>
      sdscatrepr g s0 (xs @ zs) (length xs) = Inr s \<and> sds_rep s q) ps qs"
    and "\<forall>(bl, xs) \<in> set ps. length xs < 2 ^ 29"
  shows "\<exists>toks. sdssplitargs g (args_line (zip (map fst ps) qs) tail) = Inr (Some toks) \<and> list_all2 sds_rep toks (map snd ps)"
proof -
  have quoted: "q = quoted xs" if "sds_rep s0 []" "sdscatrepr g s0 (xs @ zs) (length xs) = Inr s" "sds_rep s q" "length xs < 2 ^ 29" for s0 s q xs
  proof -
    note q = that
    obtain s' where "sdscatrepr g s0 (xs @ zs) (length xs) = Inr s'" "sds_rep s' ([] @ quoted xs)"
      using sdscatrepr_spec [OF q(1), of xs g zs] q(4) by auto
    then show ?thesis using q(2,3) sds_rep_unique by fastforce
  qed
  have "zip (map fst ps) qs = map (\<lambda>(bl, xs). (bl, quoted xs)) ps"
    using assms(2,3) by (induction rule: list_all2_induct) (auto intro: quoted)
  then show ?thesis using args_loop_spec [OF assms(1), of "[]" "[]" g "[]"] by (simp add: sdssplitargs_def)
qed

section \<open>Any line is read within its bounds\<close>

definition c_line :: "u8 list \<Rightarrow> nat \<Rightarrow> bool" where
  "c_line line n \<longleftrightarrow> (\<exists>xs junk. line = xs @ 0 # junk \<and> 0 \<notin> set xs \<and> length xs = n)"

lemma c_line_rd:
  assumes "c_line line n" and "i \<le> n"
  obtains c where "rd line i = Inr c" "c = 0 \<longleftrightarrow> i = n"
proof -
  obtain xs junk where l: "line = xs @ 0 # junk" "0 \<notin> set xs" "length xs = n" using assms(1) by (auto simp: c_line_def)
  have "i < n \<Longrightarrow> xs ! i \<noteq> 0" using l(2,3) nth_mem by metis
  then show thesis using that [of "line ! i"] l assms(2) by (cases "i = n") (auto simp: rd_def nth_append)
qed

lemma hex_escape_total:
  assumes l: "c_line line n" and p: "p < n"
  shows "\<exists>b. hex_escape line p = Inr b \<and> (b \<longrightarrow> p + 3 < n)"
proof -
  obtain x where x: "rd line (p + 1) = Inr x" "x = 0 \<longleftrightarrow> p + 1 = n" using c_line_rd [OF l, of "p + 1"] p by auto
  show ?thesis
  proof (cases "x = byte_of CHR ''x''")
    case False
    then show ?thesis using x by (intro exI [of _ False]) (simp add: hex_escape_def)
  next
    case isx: True
    then obtain h where h: "rd line (p + 2) = Inr h" "h = 0 \<longleftrightarrow> p + 2 = n" using c_line_rd [OF l, of "p + 2"] p x by auto
    show ?thesis
    proof (cases "is_hex_digit h")
      case False
      then show ?thesis using x h isx by (intro exI [of _ False]) (simp add: hex_escape_def)
    next
      case True
      then have "h \<noteq> 0" by (auto simp: hex_not_0)
      then have "p + 3 \<le> n" using h x p isx by auto
      then obtain d where d: "rd line (p + 3) = Inr d" "d = 0 \<longleftrightarrow> p + 3 = n" using c_line_rd [OF l, of "p + 3"] by auto
      then have "hex_escape line p = Inr (is_hex_digit d)" using x h isx True by (simp add: hex_escape_def)
      moreover have "is_hex_digit d \<Longrightarrow> p + 3 < n" using d \<open>p + 3 \<le> n\<close> by (cases "d = 0") (auto simp: hex_not_0)
      ultimately show ?thesis by auto
    qed
  qed
qed

text \<open>What a turn may return: an error, or a token no longer than the line read so far.\<close>

fun turn_ok :: "nat \<Rightarrow> (sds \<times> nat \<times> quoting \<times> bool) option \<Rightarrow> bool" where
  "turn_ok n None = True"
| "turn_ok n (Some (cur, p, q, d)) \<longleftrightarrow> p \<le> n \<and> (\<exists>ys. sds_rep cur ys \<and> length ys \<le> (if d then p else p + 1))"

lemma add_char_total:
  assumes "sds_rep cur ys" "length ys \<le> p" "p \<le> p'" "p' \<le> n" "n + 1 + 2 ^ 20 < 2 ^ 32"
  shows "\<exists>r. add_char g cur d p' q = Inr r \<and> turn_ok n r"
proof -
  have "length ys + 1 + 2 ^ 20 < 2 ^ 32" using assms by simp
  then obtain cur' where "add_char g cur d p' q = Inr (Some (cur', p', q, False))" "sds_rep cur' (ys @ [d])"
    using add_char_spec [OF assms(1)] by blast
  then show ?thesis using assms by (auto intro: exI [of _ "ys @ [d]"])
qed

lemma close_quote_total:
  assumes "c_line line n" "p < n" "sds_rep cur ys" "length ys \<le> p"
  shows "\<exists>r. close_quote line p q cur = Inr r \<and> turn_ok n r"
proof -
  obtain c where "rd line (p + 1) = Inr c" using c_line_rd [OF assms(1), of "p + 1"] assms(2) by auto
  then show ?thesis using assms by (auto simp: close_quote_def)
qed

lemma tok_step_total:
  assumes l: "c_line line n" and p: "p \<le> n" and cur: "sds_rep cur ys" "length ys \<le> p" and n: "n + 1 + 2 ^ 20 < 2 ^ 32"
  shows "\<exists>r. tok_step g line p q cur = Inr r \<and> turn_ok n r"
proof -
  obtain c where c: "rd line p = Inr c" "c = 0 \<longleftrightarrow> p = n" using c_line_rd [OF l p] by blast
  have nx: "\<exists>x. rd line (p + 1) = Inr x" if "c \<noteq> 0" using c_line_rd [OF l, of "p + 1"] p c that by (metis Suc_eq_plus1 Suc_leI le_neq_implies_less)
  have lt: "p < n" if "c \<noteq> 0" using c p that by auto
  note add = add_char_total [OF cur _ _ n, of _ g]
  note close = close_quote_total [OF l _ cur]
  show ?thesis
  proof (cases q)
    case Bare
    then show ?thesis using c add [of p] cur p by (auto simp: tok_step_def bare_step_def)
  next
    case InSQ
    show ?thesis
    proof (cases "c = 0x5C")
      case True
      then obtain x where "rd line (p + 1) = Inr x" using nx by auto
      then show ?thesis using InSQ True c(1) lt add [of p] add [of "p + 1"] by (auto simp: tok_step_def insq_step_def)
    next
      case False
      then show ?thesis using InSQ c(1) lt add [of p] close p by (auto simp: tok_step_def insq_step_def)
    qed
  next
    case InQ
    show ?thesis
    proof (cases "c = 0x5C")
      case True
      then have pn: "p < n" using lt by auto
      obtain b where b: "hex_escape line p = Inr b" "b \<longrightarrow> p + 3 < n" using hex_escape_total [OF l pn] by blast
      show ?thesis
      proof (cases b)
        case t: True
        then obtain h d where "rd line (p + 2) = Inr h" "rd line (p + 3) = Inr d" using hex_escapeD [of line p] b(1) by auto
        then show ?thesis using InQ True t b add [of "p + 3"] c(1) by (auto simp: tok_step_def inq_step_def)
      next
        case f: False
        obtain x where "rd line (p + 1) = Inr x" using nx True by auto
        then show ?thesis using InQ True f b add [of p] add [of "p + 1"] c(1) pn by (auto simp: tok_step_def inq_step_def)
      qed
    next
      case False
      then show ?thesis using InQ c(1) lt add [of p] close p by (auto simp: tok_step_def inq_step_def)
    qed
  qed
qed

lemma tok_loop_total:
  assumes "c_line line n" "n + 1 + 2 ^ 20 < 2 ^ 32"
  shows "p \<le> n \<Longrightarrow> sds_rep cur ys \<Longrightarrow> length ys \<le> p \<Longrightarrow>
    \<exists>r. tok_loop g line p q cur = Inr r \<and> (\<forall>t p'. r = Some (t, p') \<longrightarrow> p' \<le> n)"
proof (induction "n - p" arbitrary: p cur ys q rule: less_induct)
  case less
  obtain r where r: "tok_step g line p q cur = Inr r" "turn_ok n r" using tok_step_total [OF assms(1) less.prems assms(2)] by blast
  show ?case
  proof (cases r)
    case None
    then show ?thesis using r(1) by (subst tok_loop.simps) simp
  next
    case (Some a)
    obtain cur1 p1 q1 d where a: "a = (cur1, p1, q1, d)" by (cases a)
    have p1: "p1 \<le> n" using r(2) Some a by simp
    obtain c where c: "rd line p1 = Inr c" "c = 0 \<longleftrightarrow> p1 = n" using c_line_rd [OF assms(1) p1] by blast
    show ?thesis
    proof (cases d)
      case True
      then show ?thesis using r(1) Some a c p1 by (subst tok_loop.simps) (auto simp: Let_def)
    next
      case False
      obtain ys1 where ys1: "sds_rep cur1 ys1" "length ys1 \<le> p1 + 1" using r(2) Some a False by auto
      have st: "p \<le> p1" "c \<noteq> 0" using tok_step_advances [of g line p q cur cur1 p1 q1 d] r(1) Some a False c(1) by auto
      then have "n - (p1 + 1) < n - p" "p1 + 1 \<le> n" using c p1 by auto
      then obtain r' where "tok_loop g line (p1 + 1) q1 cur1 = Inr r'" "\<forall>t p'. r' = Some (t, p') \<longrightarrow> p' \<le> n"
        using less.hyps [of "p1 + 1" cur1 ys1 q1] ys1 by blast
      then show ?thesis using r(1) Some a False c(1) st by (subst tok_loop.simps) (simp add: Let_def)
    qed
  qed
qed

lemma skip_blanks_total:
  assumes "c_line line n"
  shows "p \<le> n \<Longrightarrow> \<exists>p'. skip_blanks line p = Inr p' \<and> p' \<le> n"
proof (induction "n - p" arbitrary: p rule: less_induct)
  case less
  obtain c where c: "rd line p = Inr c" "c = 0 \<longleftrightarrow> p = n" using c_line_rd [OF assms less.prems] by blast
  show ?case
  proof (cases "c \<noteq> 0 \<and> isspace c")
    case True
    then have "n - (p + 1) < n - p" "p + 1 \<le> n" using c less.prems by auto
    then show ?thesis using less.hyps [of "p + 1"] True c(1) by (subst skip_blanks.simps) auto
  next
    case False
    then show ?thesis using c(1) less.prems by (subst skip_blanks.simps) auto
  qed
qed

lemma args_loop_total:
  assumes "c_line line n" "n + 1 + 2 ^ 20 < 2 ^ 32"
  shows "p \<le> n \<Longrightarrow> \<exists>r. args_loop g line p vec = Inr r"
proof (induction "length line - p" arbitrary: p vec rule: less_induct)
  case less
  obtain p1 where p1: "skip_blanks line p = Inr p1" "p1 \<le> n" using skip_blanks_total [OF assms(1) less.prems] by blast
  obtain c where c: "rd line p1 = Inr c" using c_line_rd [OF assms(1) p1(2)] by blast
  obtain s0 where s0: "sdsempty g = Inr s0" "sds_rep s0 []"
    using sdsnewlen_spec(1) [of "[]" g "[0]"] by (auto simp: sdsempty_def)
  obtain r where r: "tok_loop g line p1 Bare s0 = Inr r" "\<forall>t p'. r = Some (t, p') \<longrightarrow> p' \<le> n"
    using tok_loop_total [OF assms p1(2) s0(2), of g Bare] by auto
  show ?case
  proof (cases "c = 0 \<or> r = None")
    case True
    then show ?thesis using p1(1) c s0(1) r(1) by (subst args_loop.simps) auto
  next
    case False
    then obtain t p2 where t: "r = Some (t, p2)" "c \<noteq> 0" by (cases r) auto
    have "length line - p2 < length line - p" by (rule args_progress [OF p1(1) c t(2)]) (use r(1) t(1) in simp)
    then show ?thesis using less.hyps [of p2 "vec @ [t]"] p1(1) c s0(1) r t by (subst args_loop.simps) simp
  qed
qed

text \<open>\<open>sdssplitargs\<close> returns on every terminated line, and reads nothing outside it.\<close>

theorem sdssplitargs_total:
  assumes "0 \<notin> set xs" and "length xs + 1 + 2 ^ 20 < 2 ^ 32"
  shows "\<exists>r. sdssplitargs g (xs @ [0]) = Inr r"
proof -
  have "c_line (xs @ [0]) (length xs)" using assms(1) by (auto simp: c_line_def)
  then show ?thesis using args_loop_total assms(2) by (simp add: sdssplitargs_def)
qed

section \<open>Witnesses\<close>

lemma split_join_witness:
  "\<exists>toks s. sdssplitlen (\<lambda>_. 0) ([97, 44, 98] @ [0]) (int (length [97, 44, 98 :: u8])) ([44] @ [0]) (int (length [44 :: u8])) = Inr (Some toks) \<and>
    list_all2 sds_rep toks (if [97, 44, 98 :: u8] = [] then [] else splits [44] [] [97, 44, 98]) \<and>
    sdsjoin (\<lambda>_. 0) (map sds_buf toks) (length toks) ([44] @ 0 # [0]) = Inr s \<and> sds_rep s [97, 44, 98]"
  by (rule split_join) simp_all

lemma sdssplitargs_total_witness: "\<exists>r. sdssplitargs (\<lambda>_. 0) (map byte_of ''get \"a'' @ [0]) = Inr r"
  by (rule sdssplitargs_total) simp_all

lemma repr_demo:
  "\<exists>s0 s. sds_rep s0 [] \<and> sdscatrepr (\<lambda>_. 0) s0 ([0, 34, 10] @ [7]) (length [0, 34, 10 :: u8]) = Inr s \<and> sds_rep s (quoted [0, 34, 10])"
proof -
  obtain s0 where s0: "sdsempty (\<lambda>_. 0) = Inr s0" "sds_rep s0 []"
    using sdsnewlen_spec(1) [of "[]" "\<lambda>_. 0" "[0]"] by (auto simp: sdsempty_def)
  then show ?thesis using sdscatrepr_spec [OF s0(2), of "[0, 34, 10]" "\<lambda>_. 0" "[7]"] by auto
qed

lemma args_round_trip_witness:
  "\<exists>toks. sdssplitargs (\<lambda>_. 0) (args_line (zip (map fst [([32 :: u8], [0, 34, 10 :: u8])]) [quoted [0, 34, 10]]) [10]) = Inr (Some toks) \<and>
    list_all2 sds_rep toks (map snd [([32 :: u8], [0, 34, 10 :: u8])])"
  by (rule args_round_trip [where zs = "[7]"])
    (use repr_demo in \<open>simp_all add: args_ok_def blank_def isspace_def\<close>)

end
