(* ===== verification/SdsTheorems.thy ===== *)
theory SdsTheorems
  imports SdsText SdsSplit
begin

text \<open>
  The dynamic strings as an abstract data type: every sequence of operations
  on a string does to its bytes what the operations are for.
\<close>

datatype sds_op =
    SCat "u8 list" | SCpy "u8 list" | SGrow nat | SClear | STrim "u8 list" | SRange int int
  | SMap "u8 list" "u8 list" nat | SLower | SUpper | SRoom nat | SRemove | SUpdate | SShrink nat
  | SFmt "u8 list" "fmtarg list" | SRepr "u8 list" | SDup

definition sds_do :: "(nat \<Rightarrow> u8) \<Rightarrow> sds \<Rightarrow> sds_op \<Rightarrow> sds res" where
  "sds_do g s x =
     (case x of
        SCat ys \<Rightarrow> sdscatlen g s ys (length ys)
      | SCpy ys \<Rightarrow> sdscpylen g s ys (length ys)
      | SGrow n \<Rightarrow> sdsgrowzero g s n
      | SClear \<Rightarrow> sdsclear s
      | STrim cset \<Rightarrow> sdstrim s cset
      | SRange i j \<Rightarrow> sdsrange s i j
      | SMap src dst n \<Rightarrow> sdsmapchars s src dst n
      | SLower \<Rightarrow> sdstolower s
      | SUpper \<Rightarrow> sdstoupper s
      | SRoom n \<Rightarrow> Inr (sdsMakeRoomFor g s n)
      | SRemove \<Rightarrow> Inr (sdsRemoveFreeSpace g s)
      | SUpdate \<Rightarrow> sdsupdatelen s
      | SShrink n \<Rightarrow> sdsIncrLen s (- int n)
      | SFmt fmt args \<Rightarrow> sdscatfmt g s (fmt @ [0]) args
      | SRepr ys \<Rightarrow> sdscatrepr g s ys (length ys)
      | SDup \<Rightarrow> sdsdup g s)"

definition sds_step :: "(nat \<Rightarrow> u8) \<Rightarrow> sds \<Rightarrow> sds_op \<Rightarrow> (nat \<times> sds) res option" where
  "sds_step g s x = Some (rbind (sds_do g s x) (\<lambda>s. Inr (sdslen s, s)))"

text \<open>What each operation is for, on the bytes.\<close>

definition bytes_do :: "u8 list \<Rightarrow> sds_op \<Rightarrow> u8 list" where
  "bytes_do xs x =
     (case x of
        SCat ys \<Rightarrow> xs @ ys
      | SCpy ys \<Rightarrow> ys
      | SGrow n \<Rightarrow> xs @ replicate (n - length xs) 0
      | SClear \<Rightarrow> []
      | STrim cset \<Rightarrow> trimmed (trims cset) xs
      | SRange i j \<Rightarrow> slice xs i j
      | SMap src dst n \<Rightarrow> map (char_map src dst n) xs
      | SLower \<Rightarrow> map tolower8 xs
      | SUpper \<Rightarrow> map toupper8 xs
      | SUpdate \<Rightarrow> cstr xs
      | SShrink n \<Rightarrow> take (length xs - n) xs
      | SFmt fmt args \<Rightarrow> xs @ (case fmt_render fmt args of None \<Rightarrow> [] | Some (out, rest) \<Rightarrow> out)
      | SRepr ys \<Rightarrow> xs @ quoted ys
      | SRoom n \<Rightarrow> xs | SRemove \<Rightarrow> xs | SDup \<Rightarrow> xs)"

definition bytes_step :: "u8 list \<Rightarrow> sds_op \<Rightarrow> nat \<times> u8 list" where
  "bytes_step xs x = (length (bytes_do xs x), bytes_do xs x)"

text \<open>
  The lengths stay within the header's 32 bits, and the arguments are what
  their types admit.  The functions that count in \<open>int\<close> (\<open>sdsrange\<close>,
  \<open>sdstolower\<close>, \<open>sdstoupper\<close>, \<open>sdscatfmt\<close>) work below \<open>2^31\<close> bytes, \<open>sdsrange\<close>
  with an end before \<open>INT_MAX\<close>, and no argument of a format is \<open>LLONG_MIN\<close>;
  what happens beyond is in \<open>sdsrange_overflow\<close> and \<open>sdscatfmt_llong_min\<close>.
\<close>

definition fits :: "nat \<Rightarrow> bool" where "fits n \<longleftrightarrow> n + 2 ^ 20 < 2 ^ 32"

definition sds_ok :: "sds \<Rightarrow> u8 list \<Rightarrow> sds_op \<Rightarrow> bool" where
  "sds_ok s xs x \<longleftrightarrow>
     (case x of
        SCat ys \<Rightarrow> fits (length xs + length ys)
      | SCpy ys \<Rightarrow> fits (length xs + length ys)
      | SGrow n \<Rightarrow> fits n
      | STrim cset \<Rightarrow> 0 \<in> set cset
      | SRange i j \<Rightarrow> length xs < 2 ^ 31 \<and> - (2 ^ 31) \<le> i \<and> i < 2 ^ 31 \<and> - (2 ^ 31) \<le> j \<and> j < 2 ^ 31 - 1
      | SMap src dst n \<Rightarrow> n \<le> length src \<and> n \<le> length dst
      | SRoom n \<Rightarrow> fits (length xs + n)
      | SLower \<Rightarrow> length xs < 2 ^ 31
      | SUpper \<Rightarrow> length xs < 2 ^ 31
      | SShrink n \<Rightarrow> n \<le> length xs \<and> n < 2 ^ 31
      | SFmt fmt args \<Rightarrow> 0 \<notin> set fmt \<and> no_llong_min args \<and>
          (case fmt_render fmt args of None \<Rightarrow> False | Some (out, rest) \<Rightarrow> length xs + length out + 1 < 2 ^ 31)
      | SRepr ys \<Rightarrow> fits (length xs + 4 * length ys + 2)
      | _ \<Rightarrow> fits (length xs))"

lemma sds_do_simulates:
  assumes rep: "sds_rep s xs" and ok: "sds_ok s xs x"
  shows "\<exists>s'. sds_do g s x = Inr s' \<and> sds_rep s' (bytes_do xs x)"
proof (cases x)
  case (SCat ys)
  then show ?thesis using ok sdscatlen_spec [OF rep, of ys g "[]"] by (simp add: sds_ok_def sds_do_def bytes_do_def fits_def)
next
  case (SCpy ys)
  then show ?thesis using ok sdscpylen_spec [OF rep, of ys g "[]"] by (simp add: sds_ok_def sds_do_def bytes_do_def fits_def)
next
  case (SGrow n)
  then show ?thesis using ok sdsgrowzero_spec [OF rep, of n g] by (simp add: sds_ok_def sds_do_def bytes_do_def fits_def)
next
  case SClear
  then show ?thesis using sdsclear_spec [OF rep] by (simp add: sds_do_def bytes_do_def)
next
  case (STrim cset)
  then show ?thesis using ok sdstrim_spec [OF rep, of cset] by (simp add: sds_ok_def sds_do_def bytes_do_def)
next
  case (SRange i j)
  then show ?thesis using ok sdsrange_spec [OF rep, of i j] by (simp add: sds_ok_def sds_do_def bytes_do_def)
next
  case (SMap src dst n)
  then show ?thesis using ok sdsmapchars_spec [OF rep, of n src dst] by (simp add: sds_ok_def sds_do_def bytes_do_def)
next
  case SLower
  then show ?thesis using ok sdscase_spec(1) [OF rep] by (simp add: sds_ok_def sds_do_def bytes_do_def)
next
  case SUpper
  then show ?thesis using ok sdscase_spec(2) [OF rep] by (simp add: sds_ok_def sds_do_def bytes_do_def)
next
  case (SRoom n)
  then show ?thesis using ok makeRoom_spec(1) [OF rep, of n g] by (simp add: sds_ok_def sds_do_def bytes_do_def fits_def)
next
  case SRemove
  then show ?thesis using removeFree_spec [OF rep] by (simp add: sds_do_def bytes_do_def)
next
  case SUpdate
  then show ?thesis using sdsupdatelen_spec [OF rep] by (simp add: sds_do_def bytes_do_def)
next
  case (SShrink n)
  have buf: "take k (sds_buf s) = take k xs" if "k \<le> length xs" for k using rep that by (auto elim: sds_repE)
  have k: "nat (int (length xs) + - int n) = length xs - n" by simp
  show ?thesis using SShrink ok sdsIncrLen_spec(1) [OF rep, of "- int n"] unfolding k
    by (simp add: sds_ok_def sds_do_def bytes_do_def buf)
next
  case (SFmt fmt args)
  then obtain out rest where r: "fmt_render fmt args = Some (out, rest)" using ok by (auto simp: sds_ok_def split: option.splits)
  have l: "length xs + length out + 1 < 2 ^ 31" "0 \<notin> set fmt" "no_llong_min args" using ok SFmt r by (simp_all add: sds_ok_def)
  show ?thesis using sdscatfmt_spec [OF rep l(2) r l(1,3), of g "[]"] SFmt r by (simp add: sds_do_def bytes_do_def)
next
  case (SRepr ys)
  then show ?thesis using ok sdscatrepr_spec [OF rep, of ys g "[]"] by (simp add: sds_ok_def sds_do_def bytes_do_def fits_def)
next
  case SDup
  then show ?thesis using sdsdup_spec [OF rep] by (simp add: sds_do_def bytes_do_def)
qed

interpretation ds: simulation sds_rep sds_ok "sds_step g" bytes_step for g
proof unfold_locales
  fix s xs x assume "sds_rep s xs" "sds_ok s xs x"
  then show "\<exists>s'. sds_step g s x = Some (Inr (fst (bytes_step xs x), s')) \<and> sds_rep s' (snd (bytes_step xs x))"
    using sds_do_simulates [of s xs x g] by (auto simp: sds_step_def bytes_step_def sds_rep_len)
qed

text \<open>
  C13: Any sequence of appends, copies, growth, cuts, trims, mappings, formats and
  reallocations on a dynamic string, each with the lengths and arguments that
  \<open>sds_ok\<close> admits, runs without a fault, reports the lengths the bytes have,
  and ends in a well-formed string that holds them.
\<close>

theorem sds_operations_refine:
  assumes "sds_rep s xs" and "run_allowed sds_ok (sds_step g) bytes_step s xs ops"
  shows "\<exists>s'. run_part (sds_step g) s ops = Some (Inr (fst (run_ops bytes_step xs ops), s')) \<and>
    sds_rep s' (snd (run_ops bytes_step xs ops))"
  by (rule ds.run_simulates [OF assms])

lemma sds_operations_refine_witness:
  "\<exists>s'. run_part (sds_step (\<lambda>_. 0)) no_sds [SCat [32, 72, 105], STrim [32, 0], SLower] =
      Some (Inr (fst (run_ops bytes_step [] [SCat [32, 72, 105], STrim [32, 0], SLower]), s')) \<and>
    sds_rep s' (snd (run_ops bytes_step [] [SCat [32, 72, 105], STrim [32, 0], SLower]))"
  by (rule sds_operations_refine [OF no_sds_rep])
    (auto simp: sds_ok_def fits_def bytes_step_def bytes_do_def trimmed_def trims_def cstr_def split: option.splits sum.splits)

end
