(* ===== verification/KeyArgs.thy ===== *)
theory KeyArgs
  imports Interfaces Decimal
begin

text \<open>
  Which arguments of a command are keys (\<open>db.c\<close>), with the command table of
  \<open>redis.c\<close> and the tests \<open>processCommand\<close> makes before it asks.  Arguments
  are the bytes of their strings; positions and counts are \<open>int\<close>s, and the
  array of positions is a list that is written through checked indices.
\<close>

section \<open>The command table\<close>

text \<open>The function that implements a command is not kept; \<open>NoProc\<close> is a \<open>NULL\<close> \<open>getkeys_proc\<close>.\<close>

datatype getkeys_proc = NoProc | ZunionInterKeys | EvalKeys | SortKeys | MigrateKeys

record redisCommand =
  c_name :: string
  c_arity :: int
  c_sflags :: string
  c_getkeys :: getkeys_proc
  c_firstkey :: int
  c_lastkey :: int
  c_keystep :: int

definition cmd_row :: "string \<Rightarrow> int \<Rightarrow> string \<Rightarrow> getkeys_proc \<Rightarrow> int \<Rightarrow> int \<Rightarrow> int \<Rightarrow> redisCommand" where
  "cmd_row name arity sflags getkeys firstkey lastkey keystep =
     \<lparr>c_name = name, c_arity = arity, c_sflags = sflags, c_getkeys = getkeys,
      c_firstkey = firstkey, c_lastkey = lastkey, c_keystep = keystep\<rparr>"

definition redisCommandTable :: "redisCommand list" where
  "redisCommandTable = [
     cmd_row ''get'' 2 ''rF'' NoProc 1 1 1,
     cmd_row ''set'' (- 3) ''wm'' NoProc 1 1 1,
     cmd_row ''setnx'' 3 ''wmF'' NoProc 1 1 1,
     cmd_row ''setex'' 4 ''wm'' NoProc 1 1 1,
     cmd_row ''psetex'' 4 ''wm'' NoProc 1 1 1,
     cmd_row ''append'' 3 ''wm'' NoProc 1 1 1,
     cmd_row ''strlen'' 2 ''rF'' NoProc 1 1 1,
     cmd_row ''del'' (- 2) ''w'' NoProc 1 (- 1) 1,
     cmd_row ''exists'' (- 2) ''rF'' NoProc 1 (- 1) 1,
     cmd_row ''setbit'' 4 ''wm'' NoProc 1 1 1,
     cmd_row ''getbit'' 3 ''rF'' NoProc 1 1 1,
     cmd_row ''setrange'' 4 ''wm'' NoProc 1 1 1,
     cmd_row ''getrange'' 4 ''r'' NoProc 1 1 1,
     cmd_row ''substr'' 4 ''r'' NoProc 1 1 1,
     cmd_row ''incr'' 2 ''wmF'' NoProc 1 1 1,
     cmd_row ''decr'' 2 ''wmF'' NoProc 1 1 1,
     cmd_row ''mget'' (- 2) ''r'' NoProc 1 (- 1) 1,
     cmd_row ''rpush'' (- 3) ''wmF'' NoProc 1 1 1,
     cmd_row ''lpush'' (- 3) ''wmF'' NoProc 1 1 1,
     cmd_row ''rpushx'' 3 ''wmF'' NoProc 1 1 1,
     cmd_row ''lpushx'' 3 ''wmF'' NoProc 1 1 1,
     cmd_row ''linsert'' 5 ''wm'' NoProc 1 1 1,
     cmd_row ''rpop'' 2 ''wF'' NoProc 1 1 1,
     cmd_row ''lpop'' 2 ''wF'' NoProc 1 1 1,
     cmd_row ''brpop'' (- 3) ''ws'' NoProc 1 1 1,
     cmd_row ''brpoplpush'' 4 ''wms'' NoProc 1 2 1,
     cmd_row ''blpop'' (- 3) ''ws'' NoProc 1 (- 2) 1,
     cmd_row ''llen'' 2 ''rF'' NoProc 1 1 1,
     cmd_row ''lindex'' 3 ''r'' NoProc 1 1 1,
     cmd_row ''lset'' 4 ''wm'' NoProc 1 1 1,
     cmd_row ''lrange'' 4 ''r'' NoProc 1 1 1,
     cmd_row ''ltrim'' 4 ''w'' NoProc 1 1 1,
     cmd_row ''lrem'' 4 ''w'' NoProc 1 1 1,
     cmd_row ''rpoplpush'' 3 ''wm'' NoProc 1 2 1,
     cmd_row ''sadd'' (- 3) ''wmF'' NoProc 1 1 1,
     cmd_row ''srem'' (- 3) ''wF'' NoProc 1 1 1,
     cmd_row ''smove'' 4 ''wF'' NoProc 1 2 1,
     cmd_row ''sismember'' 3 ''rF'' NoProc 1 1 1,
     cmd_row ''scard'' 2 ''rF'' NoProc 1 1 1,
     cmd_row ''spop'' 2 ''wRsF'' NoProc 1 1 1,
     cmd_row ''srandmember'' (- 2) ''rR'' NoProc 1 1 1,
     cmd_row ''sinter'' (- 2) ''rS'' NoProc 1 (- 1) 1,
     cmd_row ''sinterstore'' (- 3) ''wm'' NoProc 1 (- 1) 1,
     cmd_row ''sunion'' (- 2) ''rS'' NoProc 1 (- 1) 1,
     cmd_row ''sunionstore'' (- 3) ''wm'' NoProc 1 (- 1) 1,
     cmd_row ''sdiff'' (- 2) ''rS'' NoProc 1 (- 1) 1,
     cmd_row ''sdiffstore'' (- 3) ''wm'' NoProc 1 (- 1) 1,
     cmd_row ''smembers'' 2 ''rS'' NoProc 1 1 1,
     cmd_row ''sscan'' (- 3) ''rR'' NoProc 1 1 1,
     cmd_row ''zadd'' (- 4) ''wmF'' NoProc 1 1 1,
     cmd_row ''zincrby'' 4 ''wmF'' NoProc 1 1 1,
     cmd_row ''zrem'' (- 3) ''wF'' NoProc 1 1 1,
     cmd_row ''zremrangebyscore'' 4 ''w'' NoProc 1 1 1,
     cmd_row ''zremrangebyrank'' 4 ''w'' NoProc 1 1 1,
     cmd_row ''zremrangebylex'' 4 ''w'' NoProc 1 1 1,
     cmd_row ''zunionstore'' (- 4) ''wm'' ZunionInterKeys 0 0 0,
     cmd_row ''zinterstore'' (- 4) ''wm'' ZunionInterKeys 0 0 0,
     cmd_row ''zrange'' (- 4) ''r'' NoProc 1 1 1,
     cmd_row ''zrangebyscore'' (- 4) ''r'' NoProc 1 1 1,
     cmd_row ''zrevrangebyscore'' (- 4) ''r'' NoProc 1 1 1,
     cmd_row ''zrangebylex'' (- 4) ''r'' NoProc 1 1 1,
     cmd_row ''zrevrangebylex'' (- 4) ''r'' NoProc 1 1 1,
     cmd_row ''zcount'' 4 ''rF'' NoProc 1 1 1,
     cmd_row ''zlexcount'' 4 ''rF'' NoProc 1 1 1,
     cmd_row ''zrevrange'' (- 4) ''r'' NoProc 1 1 1,
     cmd_row ''zcard'' 2 ''rF'' NoProc 1 1 1,
     cmd_row ''zscore'' 3 ''rF'' NoProc 1 1 1,
     cmd_row ''zrank'' 3 ''rF'' NoProc 1 1 1,
     cmd_row ''zrevrank'' 3 ''rF'' NoProc 1 1 1,
     cmd_row ''zscan'' (- 3) ''rR'' NoProc 1 1 1,
     cmd_row ''hset'' 4 ''wmF'' NoProc 1 1 1,
     cmd_row ''hsetnx'' 4 ''wmF'' NoProc 1 1 1,
     cmd_row ''hget'' 3 ''rF'' NoProc 1 1 1,
     cmd_row ''hmset'' (- 4) ''wm'' NoProc 1 1 1,
     cmd_row ''hmget'' (- 3) ''r'' NoProc 1 1 1,
     cmd_row ''hincrby'' 4 ''wmF'' NoProc 1 1 1,
     cmd_row ''hincrbyfloat'' 4 ''wmF'' NoProc 1 1 1,
     cmd_row ''hdel'' (- 3) ''wF'' NoProc 1 1 1,
     cmd_row ''hlen'' 2 ''rF'' NoProc 1 1 1,
     cmd_row ''hkeys'' 2 ''rS'' NoProc 1 1 1,
     cmd_row ''hvals'' 2 ''rS'' NoProc 1 1 1,
     cmd_row ''hgetall'' 2 ''r'' NoProc 1 1 1,
     cmd_row ''hexists'' 3 ''rF'' NoProc 1 1 1,
     cmd_row ''hscan'' (- 3) ''rR'' NoProc 1 1 1,
     cmd_row ''incrby'' 3 ''wmF'' NoProc 1 1 1,
     cmd_row ''decrby'' 3 ''wmF'' NoProc 1 1 1,
     cmd_row ''incrbyfloat'' 3 ''wmF'' NoProc 1 1 1,
     cmd_row ''getset'' 3 ''wm'' NoProc 1 1 1,
     cmd_row ''mset'' (- 3) ''wm'' NoProc 1 (- 1) 2,
     cmd_row ''msetnx'' (- 3) ''wm'' NoProc 1 (- 1) 2,
     cmd_row ''randomkey'' 1 ''rR'' NoProc 0 0 0,
     cmd_row ''select'' 2 ''rlF'' NoProc 0 0 0,
     cmd_row ''move'' 3 ''wF'' NoProc 1 1 1,
     cmd_row ''rename'' 3 ''w'' NoProc 1 2 1,
     cmd_row ''renamenx'' 3 ''wF'' NoProc 1 2 1,
     cmd_row ''expire'' 3 ''wF'' NoProc 1 1 1,
     cmd_row ''expireat'' 3 ''wF'' NoProc 1 1 1,
     cmd_row ''pexpire'' 3 ''wF'' NoProc 1 1 1,
     cmd_row ''pexpireat'' 3 ''wF'' NoProc 1 1 1,
     cmd_row ''keys'' 2 ''rS'' NoProc 0 0 0,
     cmd_row ''scan'' (- 2) ''rR'' NoProc 0 0 0,
     cmd_row ''dbsize'' 1 ''rF'' NoProc 0 0 0,
     cmd_row ''auth'' 2 ''rsltF'' NoProc 0 0 0,
     cmd_row ''ping'' (- 1) ''rtF'' NoProc 0 0 0,
     cmd_row ''echo'' 2 ''rF'' NoProc 0 0 0,
     cmd_row ''save'' 1 ''ars'' NoProc 0 0 0,
     cmd_row ''bgsave'' 1 ''ar'' NoProc 0 0 0,
     cmd_row ''bgrewriteaof'' 1 ''ar'' NoProc 0 0 0,
     cmd_row ''shutdown'' (- 1) ''arlt'' NoProc 0 0 0,
     cmd_row ''lastsave'' 1 ''rRF'' NoProc 0 0 0,
     cmd_row ''type'' 2 ''rF'' NoProc 1 1 1,
     cmd_row ''multi'' 1 ''rsF'' NoProc 0 0 0,
     cmd_row ''exec'' 1 ''sM'' NoProc 0 0 0,
     cmd_row ''discard'' 1 ''rsF'' NoProc 0 0 0,
     cmd_row ''sync'' 1 ''ars'' NoProc 0 0 0,
     cmd_row ''psync'' 3 ''ars'' NoProc 0 0 0,
     cmd_row ''replconf'' (- 1) ''arslt'' NoProc 0 0 0,
     cmd_row ''flushdb'' 1 ''w'' NoProc 0 0 0,
     cmd_row ''flushall'' 1 ''w'' NoProc 0 0 0,
     cmd_row ''sort'' (- 2) ''wm'' SortKeys 1 1 1,
     cmd_row ''info'' (- 1) ''rlt'' NoProc 0 0 0,
     cmd_row ''monitor'' 1 ''ars'' NoProc 0 0 0,
     cmd_row ''ttl'' 2 ''rF'' NoProc 1 1 1,
     cmd_row ''pttl'' 2 ''rF'' NoProc 1 1 1,
     cmd_row ''persist'' 2 ''wF'' NoProc 1 1 1,
     cmd_row ''slaveof'' 3 ''ast'' NoProc 0 0 0,
     cmd_row ''role'' 1 ''lst'' NoProc 0 0 0,
     cmd_row ''debug'' (- 2) ''as'' NoProc 0 0 0,
     cmd_row ''config'' (- 2) ''art'' NoProc 0 0 0,
     cmd_row ''subscribe'' (- 2) ''rpslt'' NoProc 0 0 0,
     cmd_row ''unsubscribe'' (- 1) ''rpslt'' NoProc 0 0 0,
     cmd_row ''psubscribe'' (- 2) ''rpslt'' NoProc 0 0 0,
     cmd_row ''punsubscribe'' (- 1) ''rpslt'' NoProc 0 0 0,
     cmd_row ''publish'' 3 ''pltrF'' NoProc 0 0 0,
     cmd_row ''pubsub'' (- 2) ''pltrR'' NoProc 0 0 0,
     cmd_row ''watch'' (- 2) ''rsF'' NoProc 1 (- 1) 1,
     cmd_row ''unwatch'' 1 ''rsF'' NoProc 0 0 0,
     cmd_row ''cluster'' (- 2) ''ar'' NoProc 0 0 0,
     cmd_row ''restore'' (- 4) ''wm'' NoProc 1 1 1,
     cmd_row ''restore-asking'' (- 4) ''wmk'' NoProc 1 1 1,
     cmd_row ''migrate'' (- 6) ''w'' MigrateKeys 0 0 0,
     cmd_row ''asking'' 1 ''r'' NoProc 0 0 0,
     cmd_row ''readonly'' 1 ''rF'' NoProc 0 0 0,
     cmd_row ''readwrite'' 1 ''rF'' NoProc 0 0 0,
     cmd_row ''dump'' 2 ''r'' NoProc 1 1 1,
     cmd_row ''object'' 3 ''r'' NoProc 2 2 2,
     cmd_row ''client'' (- 2) ''rs'' NoProc 0 0 0,
     cmd_row ''eval'' (- 3) ''s'' EvalKeys 0 0 0,
     cmd_row ''evalsha'' (- 3) ''s'' EvalKeys 0 0 0,
     cmd_row ''slowlog'' (- 2) ''r'' NoProc 0 0 0,
     cmd_row ''script'' (- 2) ''rs'' NoProc 0 0 0,
     cmd_row ''time'' 1 ''rRF'' NoProc 0 0 0,
     cmd_row ''bitop'' (- 4) ''wm'' NoProc 2 (- 1) 1,
     cmd_row ''bitcount'' (- 2) ''r'' NoProc 1 1 1,
     cmd_row ''bitpos'' (- 3) ''r'' NoProc 1 1 1,
     cmd_row ''wait'' 3 ''rs'' NoProc 0 0 0,
     cmd_row ''command'' 0 ''rlt'' NoProc 0 0 0,
     cmd_row ''pfselftest'' 1 ''r'' NoProc 0 0 0,
     cmd_row ''pfadd'' (- 2) ''wmF'' NoProc 1 1 1,
     cmd_row ''pfcount'' (- 2) ''r'' NoProc 1 (- 1) 1,
     cmd_row ''pfmerge'' (- 2) ''wm'' NoProc 1 (- 1) 1,
     cmd_row ''pfdebug'' (- 3) ''w'' NoProc 0 0 0,
     cmd_row ''latency'' (- 2) ''arslt'' NoProc 0 0 0
   ]"

text \<open>The bits of \<open>flags\<close>, by the characters of \<open>sflags\<close>.\<close>

definition cmd_flag :: "char \<Rightarrow> u32 res" where
  "cmd_flag f =
     (if f = CHR ''w'' then Inr 1 else if f = CHR ''r'' then Inr 2 else if f = CHR ''m'' then Inr 4
      else if f = CHR ''a'' then Inr 16 else if f = CHR ''p'' then Inr 32 else if f = CHR ''s'' then Inr 64
      else if f = CHR ''R'' then Inr 128 else if f = CHR ''S'' then Inr 256 else if f = CHR ''l'' then Inr 512
      else if f = CHR ''t'' then Inr 1024 else if f = CHR ''M'' then Inr 2048 else if f = CHR ''k'' then Inr 4096
      else if f = CHR ''F'' then Inr 8192 else Inl AssertFailed)"

fun cmd_flags :: "string \<Rightarrow> u32 \<Rightarrow> u32 res" where
  "cmd_flags [] flags = Inr flags"
| "cmd_flags (f # fs) flags = rbind (cmd_flag f) (\<lambda>b. cmd_flags fs (flags OR b))"

text \<open>The dictionary \<open>server.commands\<close> as a map; \<open>dictAdd\<close> of a present key fails the assertion.\<close>

fun populateCommandTable :: "redisCommand list \<Rightarrow> (string \<rightharpoonup> redisCommand \<times> u32) \<Rightarrow> (string \<rightharpoonup> redisCommand \<times> u32) res" where
  "populateCommandTable [] d = Inr d"
| "populateCommandTable (c # cs) d =
     rbind (cmd_flags (c_sflags c) 0) (\<lambda>flags.
     if d (c_name c) = None then populateCommandTable cs (d(c_name c \<mapsto> (c, flags))) else Inl AssertFailed)"

text \<open>
  The test of the number of arguments in \<open>processCommand\<close>, and its condition for
  asking the cluster which node serves the command.
\<close>

definition arity_ok :: "redisCommand \<Rightarrow> int \<Rightarrow> bool" where
  "arity_ok cmd argc \<longleftrightarrow> \<not> (c_arity cmd > 0 \<and> c_arity cmd \<noteq> argc \<or> argc < - c_arity cmd)"

definition cluster_redirects :: "bool \<Rightarrow> bool \<Rightarrow> redisCommand \<Rightarrow> bool" where
  "cluster_redirects cluster_enabled from_master cmd \<longleftrightarrow>
     cluster_enabled \<and> \<not> from_master \<and> \<not> (c_getkeys cmd = NoProc \<and> c_firstkey cmd = 0)"

section \<open>Arrays of positions\<close>

text \<open>
  \<open>zmalloc(sizeof(int)*n)\<close>: a negative \<open>n\<close> becomes a huge size, for which the
  allocator aborts the server.  The new array is indeterminate; its contents do not matter.
\<close>

definition zmalloc_ints :: "int \<Rightarrow> int list res" where
  "zmalloc_ints n = (if n < 0 then Inl AssertFailed else Inr (replicate (nat n) 0))"

definition wr :: "int list \<Rightarrow> int \<Rightarrow> int \<Rightarrow> int list res" where
  "wr keys i x = (if 0 \<le> i \<and> i < int (length keys) then Inr (keys[nat i := x]) else Inl OutOfBounds)"

text \<open>\<open>for (i = 0; i < num; i++) keys[i] = first+i\<close>\<close>

definition fill_keys :: "int list \<Rightarrow> int \<Rightarrow> int \<Rightarrow> int list res" where
  "fill_keys keys num first = for_each (\<lambda>i keys. wr keys (int i) (first + int i)) [0..<nat num] keys"

text \<open>\<open>atoi\<close>; a value out of the range of \<open>int\<close> is undefined.\<close>

definition atoi :: "u8 list \<Rightarrow> int res" where
  "atoi s =
     (let t = dropWhile isspace s;
          neg = (t \<noteq> [] \<and> hd t = byte_of CHR ''-'');
          t = (if t \<noteq> [] \<and> (hd t = byte_of CHR ''-'' \<or> hd t = byte_of CHR ''+'') then tl t else t);
          v = int (dec_val 0 (takeWhile is_digit t));
          n = (if neg then - v else v)
      in if - (2 ^ 31) \<le> n \<and> n < 2 ^ 31 then Inr n else Inl SignedOverflow)"

definition arg_named :: "u8 list \<Rightarrow> string \<Rightarrow> bool" where
  "arg_named a name \<longleftrightarrow> strcaseeq (cstr (a @ [0])) (bytes_of name)"

section \<open>Positions of the keys\<close>

text \<open>The results are the array and \<open>*numkeys\<close>; a \<open>NULL\<close> array, which is never read, is the empty one.\<close>

partial_function (option) table_loop :: "int \<Rightarrow> int \<Rightarrow> int \<Rightarrow> int \<Rightarrow> int \<Rightarrow> int list \<Rightarrow> (int list \<times> int) res option" where
  "table_loop argc lastk step j i keys =
     (if j \<le> lastk
      then if j < argc
           then case wr keys i j of
                  Inl e \<Rightarrow> Some (Inl e)
                | Inr keys \<Rightarrow> table_loop argc lastk step (j + step) (i + 1) keys
           else Some (Inl AssertFailed)
      else Some (Inr (keys, i)))"

definition getKeysUsingCommandTable :: "redisCommand \<Rightarrow> int \<Rightarrow> (int list \<times> int) res option" where
  "getKeysUsingCommandTable cmd argc =
     (if c_firstkey cmd = 0 then Some (Inr ([], 0))
      else
        let last = (if c_lastkey cmd < 0 then argc + c_lastkey cmd else c_lastkey cmd)
        in case zmalloc_ints (last - c_firstkey cmd + 1) of
             Inl e \<Rightarrow> Some (Inl e)
           | Inr keys \<Rightarrow> table_loop argc last (c_keystep cmd) (c_firstkey cmd) 0 keys)"

definition zunionInterGetKeys :: "u8 list list \<Rightarrow> (int list \<times> int) res" where
  "zunionInterGetKeys argv =
     rbind (rd argv 2) (\<lambda>a. rbind (atoi a) (\<lambda>num.
     if num > int (length argv) - 3 then Inr ([], 0)
     else
       rbind (zmalloc_ints (num + 1)) (\<lambda>keys.
       rbind (fill_keys keys num 3) (\<lambda>keys.
       rbind (wr keys num 1) (\<lambda>keys. Inr (keys, num + 1))))))"

definition evalGetKeys :: "u8 list list \<Rightarrow> (int list \<times> int) res" where
  "evalGetKeys argv =
     rbind (rd argv 2) (\<lambda>a. rbind (atoi a) (\<lambda>num.
     if num > int (length argv) - 3 then Inr ([], 0)
     else
       rbind (zmalloc_ints num) (\<lambda>keys.
       rbind (fill_keys keys num 3) (\<lambda>keys. Inr (keys, num)))))"

definition sort_skiplist :: "(string \<times> nat) list" where
  "sort_skiplist = [(''limit'', 2), (''get'', 1), (''by'', 1)]"

text \<open>The inner loop, with \<open>num\<close> 1: the new \<open>i\<close>, the array and \<open>found_store\<close>.\<close>

fun sort_option :: "(string \<times> nat) list \<Rightarrow> u8 list list \<Rightarrow> nat \<Rightarrow> int list \<Rightarrow> int \<Rightarrow> (nat \<times> int list \<times> int) res" where
  "sort_option [] argv i keys found = Inr (i, keys, found)"
| "sort_option ((name, skip) # opts) argv i keys found =
     rbind (rd argv i) (\<lambda>a.
     if arg_named a name then Inr (i + skip, keys, found)
     else if arg_named a ''store'' \<and> i + 1 < length argv then
       rbind (wr keys 1 (int i + 1)) (\<lambda>keys. Inr (i, keys, 1))
     else sort_option opts argv i keys found)"

lemma sort_option_ge: "sort_option opts argv i keys found = Inr (i', keys', found') \<Longrightarrow> i \<le> i'"
  by (induction opts argv i keys found rule: sort_option.induct) (auto split: if_splits)

function sort_loop :: "u8 list list \<Rightarrow> nat \<Rightarrow> int list \<Rightarrow> int \<Rightarrow> (int list \<times> int) res" where
  "sort_loop argv i keys found =
     (if i < length argv
      then rbind (sort_option sort_skiplist argv i keys found) (\<lambda>(i, keys, found). sort_loop argv (i + 1) keys found)
      else Inr (keys, found))"
  by pat_completeness auto
termination
  by (relation "measure (\<lambda>(argv, i, keys, found). length argv - i)") (auto dest!: sort_option_ge)

declare sort_loop.simps [simp del]

definition sortGetKeys :: "u8 list list \<Rightarrow> (int list \<times> int) res" where
  "sortGetKeys argv =
     rbind (zmalloc_ints 2) (\<lambda>keys.
     rbind (wr keys 0 1) (\<lambda>keys.
     rbind (sort_loop argv 2 keys 0) (\<lambda>(keys, found). Inr (keys, 1 + found))))"

text \<open>The search for the \<open>KEYS\<close> option, from position \<open>i\<close> on: \<open>first\<close> and \<open>num\<close>.\<close>

function migrate_search :: "u8 list list \<Rightarrow> nat \<Rightarrow> (int \<times> int) res" where
  "migrate_search argv i =
     (if i < length argv
      then rbind (rd argv i) (\<lambda>a.
           rbind (if arg_named a ''keys'' then rbind (rd argv 3) (\<lambda>k. Inr (k = [])) else Inr False) (\<lambda>b.
           if b then Inr (int i + 1, int (length argv) - (int i + 1)) else migrate_search argv (i + 1)))
      else Inr (3, 1))"
  by pat_completeness auto
termination by (relation "measure (\<lambda>(argv, i). length argv - i)") auto

declare migrate_search.simps [simp del]

definition migrateGetKeys :: "u8 list list \<Rightarrow> (int list \<times> int) res" where
  "migrateGetKeys argv =
     rbind (if length argv > 6 then migrate_search argv 6 else Inr (3, 1)) (\<lambda>(first, num).
     rbind (zmalloc_ints num) (\<lambda>keys.
     rbind (fill_keys keys num first) (\<lambda>keys. Inr (keys, num))))"

definition getKeysFromCommand :: "redisCommand \<Rightarrow> u8 list list \<Rightarrow> (int list \<times> int) res option" where
  "getKeysFromCommand cmd argv =
     (case c_getkeys cmd of
        NoProc \<Rightarrow> getKeysUsingCommandTable cmd (int (length argv))
      | ZunionInterKeys \<Rightarrow> Some (zunionInterGetKeys argv)
      | EvalKeys \<Rightarrow> Some (evalGetKeys argv)
      | SortKeys \<Rightarrow> Some (sortGetKeys argv)
      | MigrateKeys \<Rightarrow> Some (migrateGetKeys argv))"

text \<open>
  The keys themselves, as \<open>getNodeByQuery\<close> and \<open>COMMAND GETKEYS\<close> read them:
  \<open>argv[keys[j]]\<close> for \<open>j\<close> below \<open>numkeys\<close>; \<open>off\<close> is 2 for \<open>COMMAND GETKEYS\<close>.
\<close>

fun read_keys :: "u8 list list \<Rightarrow> int \<Rightarrow> int list \<Rightarrow> nat list \<Rightarrow> u8 list list res" where
  "read_keys argv off keys [] = Inr []"
| "read_keys argv off keys (j # js) =
     rbind (rd keys j) (\<lambda>k.
     rbind (if 0 \<le> k + off then rd argv (nat (k + off)) else Inl OutOfBounds) (\<lambda>a.
     rbind (read_keys argv off keys js) (\<lambda>as. Inr (a # as))))"

definition command_keys_of :: "redisCommand \<Rightarrow> u8 list list \<Rightarrow> u8 list list res option" where
  "command_keys_of cmd argv =
     (case getKeysFromCommand cmd argv of
        None \<Rightarrow> None
      | Some r \<Rightarrow> Some (rbind r (\<lambda>(keys, numkeys). read_keys argv 0 keys [0..<nat numkeys])))"

text \<open>\<open>COMMAND GETKEYS\<close>, given the entry of the table for \<open>argv[2]\<close>.\<close>

datatype getkeys_reply = InvalidCommand | InvalidNumberOfArguments | KeysReply int "u8 list list"

definition command_getkeys :: "redisCommand option \<Rightarrow> u8 list list \<Rightarrow> getkeys_reply res option" where
  "command_getkeys found argv =
     (case found of
        None \<Rightarrow> Some (Inr InvalidCommand)
      | Some cmd \<Rightarrow>
          if \<not> arity_ok cmd (int (length argv) - 2) then Some (Inr InvalidNumberOfArguments)
          else
            (case getKeysFromCommand cmd (drop 2 argv) of
               None \<Rightarrow> None
             | Some r \<Rightarrow> Some (rbind r (\<lambda>(keys, numkeys).
                 rbind (read_keys argv 2 keys [0..<nat numkeys]) (\<lambda>ks. Inr (KeysReply numkeys ks))))))"

section \<open>The table is in order\<close>

lemma table_names: "distinct (map c_name redisCommandTable)"
  by (simp add: redisCommandTable_def cmd_row_def)

lemma table_flags: "\<forall>c \<in> set redisCommandTable. \<exists>flags. cmd_flags (c_sflags c) 0 = Inr flags"
proof -
  have "list_all (\<lambda>c. case cmd_flags (c_sflags c) 0 of Inr _ \<Rightarrow> True | Inl _ \<Rightarrow> False) redisCommandTable" by code_simp
  then have "\<And>c. c \<in> set redisCommandTable \<Longrightarrow> cmd_flags (c_sflags c) 0 \<noteq> Inl e" for e
    by (auto simp: list_all_iff split: sum.splits)
  then show ?thesis by (metis sum.exhaust)
qed

text \<open>
  The rows without a function of their own: a fixed number of arguments for a
  fixed last key, and at least as many as the first key needs for one counted from the end.
\<close>

definition row_ok :: "redisCommand \<Rightarrow> bool" where
  "row_ok c \<longleftrightarrow> c_getkeys c \<noteq> NoProc \<or> c_firstkey c = 0 \<or>
     (1 \<le> c_firstkey c \<and> 1 \<le> c_keystep c \<and> c_lastkey c \<noteq> 0 \<and> c_firstkey c \<le> c_lastkey c + (if c_lastkey c < 0 then \<bar>c_arity c\<bar> else 0) \<and>
      (0 < c_lastkey c \<longrightarrow> c_lastkey c < \<bar>c_arity c\<bar>) \<and> c_arity c \<noteq> 0)"

lemma table_rows: "\<forall>c \<in> set redisCommandTable. row_ok c"
proof -
  have "list_all row_ok redisCommandTable" by code_simp
  then show ?thesis by (simp add: list_all_iff)
qed

lemma populate_ok:
  "\<forall>c \<in> set cs. \<exists>flags. cmd_flags (c_sflags c) 0 = Inr flags \<Longrightarrow> distinct (map c_name cs) \<Longrightarrow>
   \<forall>c \<in> set cs. d (c_name c) = None \<Longrightarrow>
   \<exists>d'. populateCommandTable cs d = Inr d' \<and> (\<forall>n. n \<notin> c_name ` set cs \<longrightarrow> d' n = d n) \<and>
     (\<forall>c \<in> set cs. \<exists>flags. cmd_flags (c_sflags c) 0 = Inr flags \<and> d' (c_name c) = Some (c, flags))"
proof (induction cs arbitrary: d)
  case (Cons c cs)
  obtain flags where f: "cmd_flags (c_sflags c) 0 = Inr flags" using Cons.prems(1) by auto
  let ?d = "d(c_name c \<mapsto> (c, flags))"
  have "\<forall>c \<in> set cs. ?d (c_name c) = None" using Cons.prems(2,3) by (force simp: image_iff)
  moreover have "distinct (map c_name cs)" "\<forall>c \<in> set cs. \<exists>flags. cmd_flags (c_sflags c) 0 = Inr flags" using Cons.prems by simp_all
  ultimately obtain d' where d': "populateCommandTable cs ?d = Inr d'" "\<forall>n. n \<notin> c_name ` set cs \<longrightarrow> d' n = ?d n"
    "\<forall>c \<in> set cs. \<exists>flags. cmd_flags (c_sflags c) 0 = Inr flags \<and> d' (c_name c) = Some (c, flags)"
    using Cons.IH [of ?d] by metis
  have "d' (c_name c) = Some (c, flags)" using d'(2) Cons.prems(2) by auto
  then show ?case using d' f Cons.prems(3) by auto
qed simp

lemma commands_populated:
  "\<exists>d. populateCommandTable redisCommandTable Map.empty = Inr d \<and>
     (\<forall>c \<in> set redisCommandTable. \<exists>flags. cmd_flags (c_sflags c) 0 = Inr flags \<and> d (c_name c) = Some (c, flags))"
  using populate_ok [OF table_flags table_names, of Map.empty] by auto

section \<open>Positions are in range\<close>

lemma wr_in: "0 \<le> i \<Longrightarrow> i < int (length keys) \<Longrightarrow> wr keys i x = Inr (keys[nat i := x])"
  by (simp add: wr_def)

lemma fill_keys_spec:
  assumes "nat num \<le> length keys"
  shows "fill_keys keys num first = Inr (map (\<lambda>i. first + int i) [0..<nat num] @ drop (nat num) keys)"
proof -
  have "\<exists>ks. fill_keys keys num first = Inr ks \<and>
      ks = map (\<lambda>i. first + int i) [0..<length [0..<nat num]] @ drop (length [0..<nat num]) keys"
    unfolding fill_keys_def
  proof (rule for_each_rule [where I = "\<lambda>js ks. ks = map (\<lambda>i. first + int i) [0..<length js] @ drop (length js) keys"])
    fix js j ks' ks assume eq: "[0..<nat num] = js @ j # ks'"
      and ks: "ks = map (\<lambda>i. first + int i) [0..<length js] @ drop (length js) keys"
    have j: "j < nat num" "length js = j" using upt_split [OF eq] by auto
    then have "drop j keys = keys ! j # drop (Suc j) keys" using assms by (simp add: Cons_nth_drop_Suc)
    then have "wr ks (int j) (first + int j) = Inr (map (\<lambda>i. first + int i) [0..<j] @ (first + int j) # drop (Suc j) keys)"
      using j assms by (simp add: wr_def ks list_update_append)
    then show "\<exists>ks''. wr ks (int j) (first + int j) = Inr ks'' \<and>
        ks'' = map (\<lambda>i. first + int i) [0..<length (js @ [j])] @ drop (length (js @ [j])) keys" using j by simp
  qed simp
  then show ?thesis by simp
qed

text \<open>An array whose first \<open>n\<close> entries are positions of arguments after the name.\<close>

definition keys_in :: "int \<Rightarrow> int list \<Rightarrow> int \<Rightarrow> bool" where
  "keys_in argc keys n \<longleftrightarrow> 0 \<le> n \<and> n \<le> int (length keys) \<and> (\<forall>k \<in> set (take (nat n) keys). 1 \<le> k \<and> k < argc)"

lemma table_loop_spec:
  assumes "1 \<le> step" and "lastk < argc"
  shows "1 \<le> j \<Longrightarrow> 0 \<le> i \<Longrightarrow> i + (lastk - j + 1) \<le> int (length keys) \<Longrightarrow> keys_in argc keys i \<Longrightarrow>
    \<exists>ks n. table_loop argc lastk step j i keys = Some (Inr (ks, n)) \<and> keys_in argc ks n"
proof (induction "nat (lastk - j + 1)" arbitrary: j i keys rule: less_induct)
  case less
  show ?case
  proof (cases "j \<le> lastk")
    case False
    then show ?thesis using less.prems(4) by (subst table_loop.simps) simp
  next
    case True
    have w: "wr keys i j = Inr (keys[nat i := j])" using less.prems True by (intro wr_in) simp_all
    have "nat (i + 1) = Suc (nat i)" using less.prems(2) by simp
    moreover have "nat i < length keys" using less.prems True by simp
    ultimately have "keys_in argc (keys[nat i := j]) (i + 1)"
      using less.prems(1,2,4) True assms(2) by (auto simp: keys_in_def take_Suc_conv_app_nth)
    then show ?thesis using less.hyps [of "j + step" "i + 1" "keys[nat i := j]"] less.prems assms True w
      by (subst table_loop.simps) auto
  qed
qed

lemma table_keys_spec:
  assumes "row_ok c" and "c_getkeys c = NoProc" and "arity_ok c argc"
  shows "\<exists>ks n. getKeysUsingCommandTable c argc = Some (Inr (ks, n)) \<and> keys_in argc ks n"
proof (cases "c_firstkey c = 0")
  case True
  then show ?thesis by (simp add: getKeysUsingCommandTable_def keys_in_def)
next
  case False
  let ?l = "if c_lastkey c < 0 then argc + c_lastkey c else c_lastkey c"
  have r: "1 \<le> c_firstkey c" "1 \<le> c_keystep c" "c_lastkey c \<noteq> 0"
    "c_firstkey c \<le> c_lastkey c + (if c_lastkey c < 0 then \<bar>c_arity c\<bar> else 0)" "0 < c_lastkey c \<longrightarrow> c_lastkey c < \<bar>c_arity c\<bar>" "c_arity c \<noteq> 0"
    using assms(1,2) False by (simp_all add: row_ok_def)
  have "\<bar>c_arity c\<bar> \<le> argc" using assms(3) r(6) by (auto simp: arity_ok_def)
  then have l: "?l < argc" "c_firstkey c \<le> ?l" using r by (auto split: if_splits)
  have "zmalloc_ints (?l - c_firstkey c + 1) = Inr (replicate (nat (?l - c_firstkey c + 1)) 0)" using l by (simp add: zmalloc_ints_def)
  then show ?thesis using table_loop_spec [OF r(2) l(1) r(1), of 0 "replicate (nat (?l - c_firstkey c + 1)) 0"] l False
    by (simp add: getKeysUsingCommandTable_def keys_in_def Let_def)
qed

lemma filled_in:
  "1 \<le> first \<Longrightarrow> first + num \<le> argc \<Longrightarrow> 0 \<le> num \<Longrightarrow> keys_in argc (map (\<lambda>i. first + int i) [0..<nat num]) num"
  by (auto simp: keys_in_def)

lemma evalGetKeys_spec:
  assumes "atoi (argv ! 2) = Inr num" and "0 \<le> num" and "3 \<le> length argv"
  shows "\<exists>ks n. evalGetKeys argv = Inr (ks, n) \<and> keys_in (int (length argv)) ks n"
  using assms filled_in [of 3 num "int (length argv)"]
  by (auto simp: evalGetKeys_def rd_def zmalloc_ints_def fill_keys_spec keys_in_def [of _ "[]"])

lemma zunionInterGetKeys_spec:
  assumes "atoi (argv ! 2) = Inr num" and "0 \<le> num" and "3 \<le> length argv"
  shows "\<exists>ks n. zunionInterGetKeys argv = Inr (ks, n) \<and> keys_in (int (length argv)) ks n"
proof (cases "num > int (length argv) - 3")
  case True
  then show ?thesis using assms by (simp add: zunionInterGetKeys_def rd_def keys_in_def)
next
  case False
  let ?f = "map (\<lambda>i. 3 + int i) [0..<nat num]"
  have z: "zmalloc_ints (num + 1) = Inr (replicate (nat (num + 1)) 0)" using assms(2) by (simp add: zmalloc_ints_def)
  have "fill_keys (replicate (nat (num + 1)) 0) num 3 = Inr (?f @ [0])"
    using assms(2) by (subst fill_keys_spec) (simp_all add: nat_add_distrib del: replicate_Suc, simp_all)
  moreover have "wr (?f @ [0]) num 1 = Inr (?f @ [1])" using assms(2) by (simp add: wr_def list_update_append)
  ultimately have "zunionInterGetKeys argv = Inr (?f @ [1], num + 1)"
    using assms False z by (simp add: zunionInterGetKeys_def rd_def)
  moreover have "keys_in (int (length argv)) (?f @ [1]) (num + 1)"
    using assms(2,3) False by (auto simp: keys_in_def nat_add_distrib)
  ultimately show ?thesis by blast
qed

definition sort_inv :: "u8 list list \<Rightarrow> int list \<Rightarrow> int \<Rightarrow> bool" where
  "sort_inv argv keys found \<longleftrightarrow>
     (\<exists>k. keys = [1, k] \<and> (found = 0 \<or> found = 1 \<and> 1 \<le> k \<and> k < int (length argv)))"

lemma sort_option_spec:
  "i < length argv \<Longrightarrow> sort_inv argv keys found \<Longrightarrow>
   \<exists>i' ks f. sort_option opts argv i keys found = Inr (i', ks, f) \<and> sort_inv argv ks f"
  by (induction opts argv i keys found rule: sort_option.induct) (auto simp: rd_def wr_def sort_inv_def)

lemma sort_loop_spec:
  "sort_inv argv keys found \<Longrightarrow> \<exists>ks f. sort_loop argv i keys found = Inr (ks, f) \<and> sort_inv argv ks f"
proof (induction argv i keys found rule: sort_loop.induct)
  case (1 argv i keys found)
  show ?case
  proof (cases "i < length argv")
    case False
    then show ?thesis using "1.prems" by (subst sort_loop.simps) simp
  next
    case True
    obtain i' ks f where o: "sort_option sort_skiplist argv i keys found = Inr (i', ks, f)" "sort_inv argv ks f"
      using sort_option_spec [OF True "1.prems"] by blast
    show ?thesis using "1.IH" [OF True o(1) refl refl o(2)] o(1) True by (subst sort_loop.simps) simp
  qed
qed

lemma sortGetKeys_spec:
  assumes "2 \<le> length argv"
  shows "\<exists>ks n. sortGetKeys argv = Inr (ks, n) \<and> keys_in (int (length argv)) ks n"
proof -
  have "sort_inv argv [1, 0] 0" by (simp add: sort_inv_def)
  then obtain ks f where l: "sort_loop argv 2 [1, 0] 0 = Inr (ks, f)" "sort_inv argv ks f" using sort_loop_spec by blast
  have "wr [0, 0] 0 1 = Inr [1, 0]" by (simp add: wr_def)
  then have "sortGetKeys argv = Inr (ks, 1 + f)" using l(1) by (simp add: sortGetKeys_def zmalloc_ints_def numeral_2_eq_2)
  moreover have "keys_in (int (length argv)) ks (1 + f)" using l(2) assms by (auto simp: sort_inv_def keys_in_def)
  ultimately show ?thesis by blast
qed

lemma migrate_search_spec:
  "4 \<le> length argv \<Longrightarrow> \<exists>first num. migrate_search argv i = Inr (first, num) \<and> 1 \<le> first \<and> 0 \<le> num \<and> first + num \<le> int (length argv)"
proof (induction argv i rule: migrate_search.induct)
  case (1 argv i)
  show ?case
  proof (cases "i < length argv")
    case False
    then show ?thesis using "1.prems" by (subst migrate_search.simps) simp
  next
    case True
    have "rd argv i = Inr (argv ! i)" "rd argv 3 = Inr (argv ! 3)" using True "1.prems" by (simp_all add: rd_def)
    then obtain b where "(if arg_named (argv ! i) ''keys'' then rbind (rd argv 3) (\<lambda>k. Inr (k = [])) else Inr False) = Inr b"
      by (cases "arg_named (argv ! i) ''keys''") auto
    moreover note \<open>rd argv i = Inr (argv ! i)\<close>
    ultimately show ?thesis using True "1.IH" [OF True, of "argv ! i" b] "1.prems"
      by (subst migrate_search.simps) (cases b; simp)
  qed
qed

lemma migrateGetKeys_spec:
  assumes "6 \<le> length argv"
  shows "\<exists>ks n. migrateGetKeys argv = Inr (ks, n) \<and> keys_in (int (length argv)) ks n"
proof -
  obtain first num where f: "(if length argv > 6 then migrate_search argv 6 else Inr (3, 1)) = Inr (first, num)"
    "1 \<le> first" "0 \<le> num" "first + num \<le> int (length argv)"
    using migrate_search_spec [of argv 6] assms by (cases "length argv > 6") auto
  then have "migrateGetKeys argv = Inr (map (\<lambda>i. first + int i) [0..<nat num], num)"
    by (simp add: migrateGetKeys_def zmalloc_ints_def fill_keys_spec)
  then show ?thesis using filled_in f(2-4) by blast
qed

lemma table_procs:
  "\<forall>c \<in> set redisCommandTable. c_getkeys c \<noteq> NoProc \<longrightarrow>
     (c_arity c = (case c_getkeys c of ZunionInterKeys \<Rightarrow> - 4 | EvalKeys \<Rightarrow> - 3 | SortKeys \<Rightarrow> - 2 | _ \<Rightarrow> - 6))"
proof -
  have "list_all (\<lambda>c. c_getkeys c \<noteq> NoProc \<longrightarrow>
     (c_arity c = (case c_getkeys c of ZunionInterKeys \<Rightarrow> - 4 | EvalKeys \<Rightarrow> - 3 | SortKeys \<Rightarrow> - 2 | _ \<Rightarrow> - 6))) redisCommandTable" by code_simp
  then show ?thesis by (simp add: list_all_iff)
qed

text \<open>The number of keys a \<open>ZUNIONSTORE\<close>, \<open>ZINTERSTORE\<close>, \<open>EVAL\<close> or \<open>EVALSHA\<close> gives is a natural number.\<close>

definition count_ok :: "redisCommand \<Rightarrow> u8 list list \<Rightarrow> bool" where
  "count_ok c argv \<longleftrightarrow>
     (c_getkeys c \<in> {ZunionInterKeys, EvalKeys} \<longrightarrow> (case atoi (argv ! 2) of Inl _ \<Rightarrow> False | Inr n \<Rightarrow> 0 \<le> n))"

lemma getKeysFromCommand_spec:
  assumes c: "c \<in> set redisCommandTable" and ar: "arity_ok c (int (length argv))" and n: "count_ok c argv"
  shows "\<exists>ks n. getKeysFromCommand c argv = Some (Inr (ks, n)) \<and> keys_in (int (length argv)) ks n"
proof (cases "c_getkeys c")
  case NoProc
  then show ?thesis using table_keys_spec [of c "int (length argv)"] table_rows c ar by (simp add: getKeysFromCommand_def)
next
  case ZunionInterKeys
  then have "4 \<le> length argv" using table_procs c ar by (auto simp: arity_ok_def)
  then show ?thesis using zunionInterGetKeys_spec [of argv] ZunionInterKeys n
    by (auto simp: getKeysFromCommand_def count_ok_def split: sum.splits)
next
  case EvalKeys
  then have "3 \<le> length argv" using table_procs c ar by (auto simp: arity_ok_def)
  then show ?thesis using evalGetKeys_spec [of argv] EvalKeys n
    by (auto simp: getKeysFromCommand_def count_ok_def split: sum.splits)
next
  case SortKeys
  then have "2 \<le> length argv" using table_procs c ar by (auto simp: arity_ok_def)
  then show ?thesis using sortGetKeys_spec [of argv] SortKeys by (simp add: getKeysFromCommand_def)
next
  case MigrateKeys
  then have "6 \<le> length argv" using table_procs c ar by (auto simp: arity_ok_def)
  then show ?thesis using migrateGetKeys_spec [of argv] MigrateKeys by (simp add: getKeysFromCommand_def)
qed

lemma read_keys_spec:
  assumes "\<forall>j \<in> set js. j < length keys \<and> 0 \<le> keys ! j + off \<and> keys ! j + off < int (length argv)"
  shows "read_keys argv off keys js = Inr (map (\<lambda>j. argv ! nat (keys ! j + off)) js)"
  using assms by (induction js) (auto simp: rd_def nat_less_iff)

lemma keys_in_nth: "keys_in argc keys n \<Longrightarrow> j < nat n \<Longrightarrow> j < length keys \<and> 1 \<le> keys ! j \<and> keys ! j < argc"
proof -
  assume k: "keys_in argc keys n" and j: "j < nat n"
  then have "j < length keys" by (auto simp: keys_in_def)
  moreover from this have "keys ! j \<in> set (take (nat n) keys)" using j by (auto simp: in_set_conv_nth)
  ultimately show ?thesis using k by (auto simp: keys_in_def)
qed

text \<open>
  C34: For every command of the table called with a number of arguments it accepts,
  and a key count that is a natural number where it takes one, the positions of its
  keys are computed within the allocated array and lie between 1 and \<open>argc - 1\<close>;
  so the keys are read inside \<open>argv\<close>, by the cluster and by \<open>COMMAND GETKEYS\<close>.
\<close>

theorem command_keys_in_range:
  assumes "c \<in> set redisCommandTable" and "arity_ok c (int (length argv))" and "count_ok c argv"
  shows "\<exists>ks n. getKeysFromCommand c argv = Some (Inr (ks, n)) \<and> keys_in (int (length argv)) ks n \<and>
    command_keys_of c argv = Some (Inr (map (\<lambda>j. argv ! nat (ks ! j)) [0..<nat n])) \<and>
    (\<forall>a b. command_getkeys (Some c) (a # b # argv) = Some (Inr (KeysReply n (map (\<lambda>j. argv ! nat (ks ! j)) [0..<nat n]))))"
proof -
  obtain ks n where k: "getKeysFromCommand c argv = Some (Inr (ks, n))" "keys_in (int (length argv)) ks n"
    using getKeysFromCommand_spec [OF assms] by blast
  have r: "\<forall>j \<in> set [0..<nat n]. j < length ks \<and> 1 \<le> ks ! j \<and> ks ! j < int (length argv)" using keys_in_nth [OF k(2)] by auto
  then have "read_keys argv 0 ks [0..<nat n] = Inr (map (\<lambda>j. argv ! nat (ks ! j)) [0..<nat n])"
    using read_keys_spec [of "[0..<nat n]" ks 0 argv] by fastforce
  moreover have "read_keys (a # b # argv) 2 ks [0..<nat n] = Inr (map (\<lambda>j. argv ! nat (ks ! j)) [0..<nat n])" for a b
  proof -
    have "read_keys (a # b # argv) 2 ks [0..<nat n] = Inr (map (\<lambda>j. (a # b # argv) ! nat (ks ! j + 2)) [0..<nat n])"
      by (rule read_keys_spec) (use r in fastforce)
    moreover have "(a # b # argv) ! nat (ks ! j + 2) = argv ! nat (ks ! j)" if "j \<in> set [0..<nat n]" for j
    proof -
      have "nat (ks ! j + 2) = Suc (Suc (nat (ks ! j)))" using r that by fastforce
      then show ?thesis by simp
    qed
    ultimately show ?thesis by simp
  qed
  ultimately show ?thesis using k assms(2) by (auto simp: command_keys_of_def command_getkeys_def)
qed

text \<open>
  C35: With a negative key count, \<open>ZUNIONSTORE\<close> and \<open>ZINTERSTORE\<close> write before the
  array (count -1) or ask for a huge one, and \<open>EVAL\<close> asks for a huge one: no test
  stops them, and the allocator aborts the server.
\<close>

theorem negative_key_count_faults:
  assumes "3 \<le> length argv" and "atoi (argv ! 2) = Inr num" and "num < 0"
  shows "zunionInterGetKeys argv = Inl (if num = - 1 then OutOfBounds else AssertFailed) \<and> evalGetKeys argv = Inl AssertFailed"
  using assms by (auto simp: zunionInterGetKeys_def evalGetKeys_def rd_def zmalloc_ints_def fill_keys_spec wr_def)

text \<open>The cluster is never asked about \<open>EXEC\<close>: its row has no key and no function to find some.\<close>

lemma exec_not_redirected:
  "c \<in> set redisCommandTable \<Longrightarrow> c_name c = ''exec'' \<Longrightarrow> \<not> cluster_redirects True False c"
proof -
  have "list_all (\<lambda>c. c_name c = ''exec'' \<longrightarrow> \<not> cluster_redirects True False c) redisCommandTable" by code_simp
  then show "c \<in> set redisCommandTable \<Longrightarrow> c_name c = ''exec'' \<Longrightarrow> \<not> cluster_redirects True False c" by (simp add: list_all_iff)
qed

section \<open>Witnesses\<close>

definition demo_sort :: "u8 list list" where
  "demo_sort = [bytes_of ''sort'', bytes_of ''k'', bytes_of ''store'', bytes_of ''d'']"

lemma sort_row: "cmd_row ''sort'' (- 2) ''wm'' SortKeys 1 1 1 \<in> set redisCommandTable"
proof -
  have "list_ex (\<lambda>c. c_name c = ''sort'' \<and> c_arity c = - 2 \<and> c_sflags c = ''wm'' \<and> c_getkeys c = SortKeys \<and>
    c_firstkey c = 1 \<and> c_lastkey c = 1 \<and> c_keystep c = 1) redisCommandTable" by code_simp
  then obtain c where c: "c \<in> set redisCommandTable" "c_name c = ''sort''" "c_arity c = - 2" "c_sflags c = ''wm''"
    "c_getkeys c = SortKeys" "c_firstkey c = 1" "c_lastkey c = 1" "c_keystep c = 1" unfolding list_ex_iff by blast
  from c(2-8) have "c = cmd_row ''sort'' (- 2) ''wm'' SortKeys 1 1 1" by (simp add: cmd_row_def)
  then show ?thesis using c(1) by (simp only:)
qed

lemma command_keys_in_range_witness:
  "\<exists>ks n. getKeysFromCommand (cmd_row ''sort'' (- 2) ''wm'' SortKeys 1 1 1) demo_sort = Some (Inr (ks, n)) \<and> keys_in (int (length demo_sort)) ks n \<and>
    command_keys_of (cmd_row ''sort'' (- 2) ''wm'' SortKeys 1 1 1) demo_sort = Some (Inr (map (\<lambda>j. demo_sort ! nat (ks ! j)) [0..<nat n])) \<and>
    (\<forall>a b. command_getkeys (Some (cmd_row ''sort'' (- 2) ''wm'' SortKeys 1 1 1)) (a # b # demo_sort) = Some (Inr (KeysReply n (map (\<lambda>j. demo_sort ! nat (ks ! j)) [0..<nat n]))))"
  by (rule command_keys_in_range [OF sort_row]) (simp_all add: arity_ok_def count_ok_def cmd_row_def demo_sort_def)

lemma negative_key_count_faults_witness:
  "zunionInterGetKeys [bytes_of ''zunionstore'', bytes_of ''d'', bytes_of ''-1'', bytes_of ''k''] = Inl (if (- 1 :: int) = - 1 then OutOfBounds else AssertFailed) \<and>
    evalGetKeys [bytes_of ''zunionstore'', bytes_of ''d'', bytes_of ''-1'', bytes_of ''k''] = Inl AssertFailed"
  by (rule negative_key_count_faults) (simp_all add: atoi_def isspace_def is_digit_def)

end
