(* ===== verification/KeySpace.thy ===== *)
theory KeySpace
  imports SkipTheorems Slots
begin

text \<open>
  The key space of \<open>db.c\<close>: the dictionary of keys and values, the dictionary of
  expire times, and, in cluster mode, the index \<open>slots_to_keys\<close>, a skip list of
  the keys ordered by their hash slots.  The dictionaries are maps (what \<open>dict.c\<close>
  refines); values are opaque.  The index is the skip list of \<open>t_zset.c\<close> on its heap.
\<close>

section \<open>State\<close>

text \<open>
  What other parts of the server are told: watchers, replicas and the AOF, blocked
  clients, subscribers.  The counter \<open>dirty\<close> of changes since the last save is not kept.
\<close>

datatype kevent =
    Modified "u8 list" | PropagateDel "u8 list" | NotifyExpired "u8 list" | ListReady "u8 list"
  | NotifyDel "u8 list" | NotifyExpire "u8 list" | RewriteDel "u8 list"
  | NotifyRenameFrom "u8 list" | NotifyRenameTo "u8 list" | FlushedDb

record 'v keyspace =
  ks_dict :: "u8 list \<rightharpoonup> 'v"
  ks_expires :: "u8 list \<rightharpoonup> int"
  ks_heap :: "int zheap"
  ks_zsl :: zskiplist
  ks_hits :: nat
  ks_misses :: nat
  ks_expired :: nat
  ks_events :: "kevent list"

text \<open>
  The environment: \<open>mstime()\<close>, \<open>loading\<close>, whether a master is configured, the
  start of the running script, cluster mode; the access time stored in a value
  that is looked up (unless a child is saving), and which values are lists.
\<close>

record 'v kenv =
  k_now :: int
  k_loading :: bool
  k_slave :: bool
  k_lua_time :: "int option"
  k_cluster :: bool
  k_touch :: "'v \<Rightarrow> 'v"
  k_is_list :: "'v \<Rightarrow> bool"

definition kevent :: "kevent \<Rightarrow> 'v keyspace \<Rightarrow> 'v keyspace" where
  "kevent e ks = ks\<lparr>ks_events := ks_events ks @ [e]\<rparr>"

section \<open>The index of slots\<close>

text \<open>A new node takes the level and the address in \<open>a\<close>; scores are the slots, exact as doubles.\<close>

definition slotToKeyAdd :: "nat \<times> zptr \<Rightarrow> 'v keyspace \<Rightarrow> u8 list \<Rightarrow> 'v keyspace res option" where
  "slotToKeyAdd a ks key =
     tbind (Some (keyHashSlot key (length key))) (\<lambda>slot.
     tbind (zslInsert (ks_heap ks) (ks_zsl ks) (uint slot) key (fst a) (snd a)) (\<lambda>(h, zsl).
     tret (ks\<lparr>ks_heap := h, ks_zsl := zsl\<rparr>)))"

definition slotToKeyDel :: "'v keyspace \<Rightarrow> u8 list \<Rightarrow> 'v keyspace res option" where
  "slotToKeyDel ks key =
     tbind (Some (keyHashSlot key (length key))) (\<lambda>slot.
     tbind (zslDelete (ks_heap ks) (ks_zsl ks) (uint slot) key) (\<lambda>(_, h, zsl).
     tret (ks\<lparr>ks_heap := h, ks_zsl := zsl\<rparr>)))"

definition slotToKeyFlush :: "zptr \<Rightarrow> 'v keyspace \<Rightarrow> 'v keyspace res option" where
  "slotToKeyFlush x ks =
     tbind (zslFree (ks_heap ks) (ks_zsl ks)) (\<lambda>(h, _).
     let (h, zsl) = zslCreate h x in tret (ks\<lparr>ks_heap := h, ks_zsl := zsl\<rparr>))"

definition slot_range :: "int \<Rightarrow> int zrangespec" where
  "slot_range hashslot = \<lparr>zr_min = hashslot, zr_max = hashslot, zr_minex = False, zr_maxex = False\<rparr>"

text \<open>
  The loop of \<open>getKeysInSlot\<close>: \<open>keys\<close> is the array of the caller, written
  at the \<open>int\<close> index \<open>j\<close>, \<open>count\<close> how many passes are left.  The keys are
  the strings the stored pointers refer to.
\<close>

definition put_key :: "u8 list list \<Rightarrow> int \<Rightarrow> u8 list \<Rightarrow> u8 list list res" where
  "put_key keys j key = (if 0 \<le> j \<and> nat j < length keys then Inr (keys[nat j := key]) else Inl OutOfBounds)"

fun keys_loop :: "int zheap \<Rightarrow> int \<Rightarrow> zptr option \<Rightarrow> nat \<Rightarrow> int \<Rightarrow> u8 list list \<Rightarrow> (int \<times> u8 list list) res" where
  "keys_loop h hashslot n count j keys =
     (if n = None then Inr (j, keys)
      else rbind (zderef h n) (\<lambda>x.
        if z_score x = hashslot then
          (case count of
             0 \<Rightarrow> Inr (j, keys)
           | Suc count \<Rightarrow>
               (case z_obj x of
                  None \<Rightarrow> Inl BadPointer
                | Some key \<Rightarrow>
                    rbind (put_key keys j key) (\<lambda>keys.
                    rbind (s32 (j + 1)) (\<lambda>j.
                    rbind (zlevel h n 0) (\<lambda>(forward, _). keys_loop h hashslot forward count j keys)))))
        else Inr (j, keys)))"

declare keys_loop.simps [simp del]

text \<open>\<open>count\<close> and the result are \<open>unsigned int\<close>.\<close>

definition getKeysInSlot :: "'v keyspace \<Rightarrow> int \<Rightarrow> u8 list list \<Rightarrow> u32 \<Rightarrow> (u32 \<times> u8 list list) res option" where
  "getKeysInSlot ks hashslot keys count =
     tbind (zslFirstInRange (ks_heap ks) (ks_zsl ks) (slot_range hashslot)) (\<lambda>n.
     tbind (Some (keys_loop (ks_heap ks) hashslot n (unat count) 0 keys)) (\<lambda>(j, keys).
     tret (word_of_int j, keys)))"

text \<open>The rank of the element at a node, as an \<open>int\<close>.\<close>

definition rank_at :: "'v keyspace \<Rightarrow> zptr option \<Rightarrow> u32 res option" where
  "rank_at ks n =
     tbind (Some (zderef (ks_heap ks) n)) (\<lambda>x.
     case z_obj x of
       None \<Rightarrow> Some (Inl BadPointer)
     | Some obj \<Rightarrow> tbind (zslGetRank (ks_heap ks) (ks_zsl ks) (z_score x) obj) (\<lambda>r. tret (ucast r)))"

definition countKeysInSlot :: "'v keyspace \<Rightarrow> int \<Rightarrow> u32 res option" where
  "countKeysInSlot ks hashslot =
     (let len = z_length (ks_zsl ks) in
      tbind (zslFirstInRange (ks_heap ks) (ks_zsl ks) (slot_range hashslot)) (\<lambda>zn.
      if zn = None then tret 0
      else
        tbind (rank_at ks zn) (\<lambda>rank.
        tbind (Some (s32 (sint rank - 1))) (\<lambda>below.
        let count = ucast (len - word_of_int below) in
        tbind (zslLastInRange (ks_heap ks) (ks_zsl ks) (slot_range hashslot)) (\<lambda>zn.
        if zn = None then tret count
        else tbind (rank_at ks zn) (\<lambda>rank. tret (ucast (scast count - (len - scast rank))))))))) "

section \<open>Deletion, expire times and lookups\<close>

definition dbDelete :: "'v kenv \<Rightarrow> 'v keyspace \<Rightarrow> u8 list \<Rightarrow> (bool \<times> 'v keyspace) res option" where
  "dbDelete env ks key =
     (let ks = ks\<lparr>ks_expires := (ks_expires ks)(key := None)\<rparr> in
      if ks_dict ks key \<noteq> None then
        let ks = ks\<lparr>ks_dict := (ks_dict ks)(key := None)\<rparr> in
        if k_cluster env then tbind (slotToKeyDel ks key) (\<lambda>ks. tret (True, ks)) else tret (True, ks)
      else tret (False, ks))"

definition removeExpire :: "'v keyspace \<Rightarrow> u8 list \<Rightarrow> (bool \<times> 'v keyspace) res" where
  "removeExpire ks key =
     (if ks_dict ks key = None then Inl AssertFailed
      else Inr (ks_expires ks key \<noteq> None, ks\<lparr>ks_expires := (ks_expires ks)(key := None)\<rparr>))"

definition setExpire :: "'v keyspace \<Rightarrow> u8 list \<Rightarrow> int \<Rightarrow> 'v keyspace res" where
  "setExpire ks key when =
     (if ks_dict ks key = None then Inl AssertFailed
      else Inr (ks\<lparr>ks_expires := (ks_expires ks)(key \<mapsto> when)\<rparr>))"

definition getExpire :: "'v keyspace \<Rightarrow> u8 list \<Rightarrow> int res" where
  "getExpire ks key =
     (case ks_expires ks key of
        None \<Rightarrow> Inr (- 1)
      | Some when \<Rightarrow> if ks_dict ks key = None then Inl AssertFailed else Inr when)"

definition expireIfNeeded :: "'v kenv \<Rightarrow> 'v keyspace \<Rightarrow> u8 list \<Rightarrow> (bool \<times> 'v keyspace) res option" where
  "expireIfNeeded env ks key =
     tbind (Some (getExpire ks key)) (\<lambda>when.
     if when < 0 then tret (False, ks)
     else if k_loading env then tret (False, ks)
     else
       let now = (case k_lua_time env of Some t \<Rightarrow> t | None \<Rightarrow> k_now env) in
       if k_slave env then tret (now > when, ks)
       else if now \<le> when then tret (False, ks)
       else dbDelete env (kevent (NotifyExpired key) (kevent (PropagateDel key) (ks\<lparr>ks_expired := ks_expired ks + 1\<rparr>))) key)"

definition lookupKey :: "'v kenv \<Rightarrow> 'v keyspace \<Rightarrow> u8 list \<Rightarrow> 'v option \<times> 'v keyspace" where
  "lookupKey env ks key =
     (case ks_dict ks key of
        None \<Rightarrow> (None, ks)
      | Some v \<Rightarrow> (Some (k_touch env v), ks\<lparr>ks_dict := (ks_dict ks)(key \<mapsto> k_touch env v)\<rparr>))"

definition lookupKeyWrite :: "'v kenv \<Rightarrow> 'v keyspace \<Rightarrow> u8 list \<Rightarrow> ('v option \<times> 'v keyspace) res option" where
  "lookupKeyWrite env ks key = tbind (expireIfNeeded env ks key) (\<lambda>(_, ks). tret (lookupKey env ks key))"

definition lookupKeyRead :: "'v kenv \<Rightarrow> 'v keyspace \<Rightarrow> u8 list \<Rightarrow> ('v option \<times> 'v keyspace) res option" where
  "lookupKeyRead env ks key =
     tbind (expireIfNeeded env ks key) (\<lambda>(_, ks).
     let (val, ks) = lookupKey env ks key in
     tret (val, if val = None then ks\<lparr>ks_misses := ks_misses ks + 1\<rparr> else ks\<lparr>ks_hits := ks_hits ks + 1\<rparr>))"

section \<open>Insertion\<close>

definition dbAdd :: "'v kenv \<Rightarrow> nat \<times> zptr \<Rightarrow> 'v keyspace \<Rightarrow> u8 list \<Rightarrow> 'v \<Rightarrow> 'v keyspace res option" where
  "dbAdd env a ks key val =
     (if ks_dict ks key \<noteq> None then Some (Inl AssertFailed)
      else
        let ks = ks\<lparr>ks_dict := (ks_dict ks)(key \<mapsto> val)\<rparr>;
            ks = (if k_is_list env val then kevent (ListReady key) ks else ks)
        in if k_cluster env then slotToKeyAdd a ks key else tret ks)"

definition dbOverwrite :: "'v keyspace \<Rightarrow> u8 list \<Rightarrow> 'v \<Rightarrow> 'v keyspace res" where
  "dbOverwrite ks key val =
     (if ks_dict ks key = None then Inl AssertFailed else Inr (ks\<lparr>ks_dict := (ks_dict ks)(key \<mapsto> val)\<rparr>))"

definition setKey :: "'v kenv \<Rightarrow> nat \<times> zptr \<Rightarrow> 'v keyspace \<Rightarrow> u8 list \<Rightarrow> 'v \<Rightarrow> 'v keyspace res option" where
  "setKey env a ks key val =
     tbind (lookupKeyWrite env ks key) (\<lambda>(old, ks).
     tbind (if old = None then dbAdd env a ks key val else Some (dbOverwrite ks key val)) (\<lambda>ks.
     tbind (Some (removeExpire ks key)) (\<lambda>(_, ks). tret (kevent (Modified key) ks))))"

definition dbExists :: "'v keyspace \<Rightarrow> u8 list \<Rightarrow> bool" where
  "dbExists ks key \<longleftrightarrow> ks_dict ks key \<noteq> None"

text \<open>\<open>pick i\<close> is the key the \<open>i\<close>-th call of \<open>dictGetRandomKey\<close> draws from the dictionary.\<close>

partial_function (option) random_loop :: "'v kenv \<Rightarrow> (nat \<Rightarrow> (u8 list \<rightharpoonup> 'v) \<Rightarrow> u8 list option) \<Rightarrow> nat \<Rightarrow> 'v keyspace \<Rightarrow>
    (u8 list option \<times> 'v keyspace) res option" where
  "random_loop env pick i ks =
     (case pick i (ks_dict ks) of
        None \<Rightarrow> tret (None, ks)
      | Some key \<Rightarrow>
          if ks_expires ks key \<noteq> None then
            (case expireIfNeeded env ks key of
               None \<Rightarrow> None
             | Some (Inl e) \<Rightarrow> Some (Inl e)
             | Some (Inr (expired, ks)) \<Rightarrow> if expired then random_loop env pick (i + 1) ks else tret (Some key, ks))
          else tret (Some key, ks))"

definition dbRandomKey :: "'v kenv \<Rightarrow> (nat \<Rightarrow> (u8 list \<rightharpoonup> 'v) \<Rightarrow> u8 list option) \<Rightarrow> 'v keyspace \<Rightarrow>
    (u8 list option \<times> 'v keyspace) res option" where
  "dbRandomKey env pick ks = random_loop env pick 0 ks"

text \<open>\<open>FLUSHDB\<close>; \<open>x\<close> is the address of the new header of the index.\<close>

definition flushdbCommand :: "'v kenv \<Rightarrow> zptr \<Rightarrow> 'v keyspace \<Rightarrow> 'v keyspace res option" where
  "flushdbCommand env x ks =
     (let ks = (kevent FlushedDb ks)\<lparr>ks_dict := Map.empty, ks_expires := Map.empty\<rparr> in
      if k_cluster env then slotToKeyFlush x ks else tret ks)"

text \<open>
  \<open>delKeysInSlot\<close>: the next node is read before the key of the current one is
  deleted; \<open>j\<close> is an \<open>int\<close>, returned as an \<open>unsigned int\<close>.
\<close>

partial_function (option) del_loop :: "'v kenv \<Rightarrow> int \<Rightarrow> zptr option \<Rightarrow> int \<Rightarrow> 'v keyspace \<Rightarrow> (int \<times> 'v keyspace) res option" where
  "del_loop env hashslot n j ks =
     (if n = None then tret (j, ks)
      else
        (case zderef (ks_heap ks) n of
           Inl e \<Rightarrow> Some (Inl e)
         | Inr x \<Rightarrow>
             if z_score x = hashslot then
               (case z_obj x of
                  None \<Rightarrow> Some (Inl BadPointer)
                | Some key \<Rightarrow>
                    (case zlevel (ks_heap ks) n 0 of
                       Inl e \<Rightarrow> Some (Inl e)
                     | Inr (forward, _) \<Rightarrow>
                         (case dbDelete env ks key of
                            None \<Rightarrow> None
                          | Some (Inl e) \<Rightarrow> Some (Inl e)
                          | Some (Inr (_, ks)) \<Rightarrow>
                              (case s32 (j + 1) of
                                 Inl e \<Rightarrow> Some (Inl e)
                               | Inr j \<Rightarrow> del_loop env hashslot forward j ks))))
             else tret (j, ks)))"

definition delKeysInSlot :: "'v kenv \<Rightarrow> 'v keyspace \<Rightarrow> int \<Rightarrow> (u32 \<times> 'v keyspace) res option" where
  "delKeysInSlot env ks hashslot =
     tbind (zslFirstInRange (ks_heap ks) (ks_zsl ks) (slot_range hashslot)) (\<lambda>n.
     tbind (del_loop env hashslot n 0 ks) (\<lambda>(j, ks). tret (word_of_int j, ks)))"

section \<open>Commands\<close>

datatype kreply = KOk | KInt int | KSameObject | KNoKey

fun del_keys :: "'v kenv \<Rightarrow> 'v keyspace \<Rightarrow> u8 list list \<Rightarrow> int \<Rightarrow> (kreply \<times> 'v keyspace) res option" where
  "del_keys env ks [] deleted = tret (KInt deleted, ks)"
| "del_keys env ks (key # keys) deleted =
     tbind (expireIfNeeded env ks key) (\<lambda>(_, ks).
     tbind (dbDelete env ks key) (\<lambda>(b, ks).
     if b then tbind (Some (s32 (deleted + 1))) (del_keys env (kevent (NotifyDel key) (kevent (Modified key) ks)) keys)
     else del_keys env ks keys deleted))"

definition delCommand :: "'v kenv \<Rightarrow> 'v keyspace \<Rightarrow> u8 list list \<Rightarrow> (kreply \<times> 'v keyspace) res option" where
  "delCommand env ks keys = del_keys env ks keys 0"

fun exists_keys :: "'v kenv \<Rightarrow> 'v keyspace \<Rightarrow> u8 list list \<Rightarrow> int \<Rightarrow> (kreply \<times> 'v keyspace) res option" where
  "exists_keys env ks [] n = tret (KInt n, ks)"
| "exists_keys env ks (key # keys) n =
     tbind (expireIfNeeded env ks key) (\<lambda>(_, ks). exists_keys env ks keys (if dbExists ks key then n + 1 else n))"

definition existsCommand :: "'v kenv \<Rightarrow> 'v keyspace \<Rightarrow> u8 list list \<Rightarrow> (kreply \<times> 'v keyspace) res option" where
  "existsCommand env ks keys = exists_keys env ks keys 0"

definition renameGenericCommand ::
  "'v kenv \<Rightarrow> nat \<times> zptr \<Rightarrow> 'v keyspace \<Rightarrow> u8 list \<Rightarrow> u8 list \<Rightarrow> bool \<Rightarrow> (kreply \<times> 'v keyspace) res option" where
  "renameGenericCommand env a ks src dst nx =
     (if src = dst then tret (KSameObject, ks)
      else
        tbind (lookupKeyWrite env ks src) (\<lambda>(ob, ks).
        case ob of
          None \<Rightarrow> tret (KNoKey, ks)
        | Some ob \<Rightarrow>
            tbind (Some (getExpire ks src)) (\<lambda>expire.
            tbind (lookupKeyWrite env ks dst) (\<lambda>(old, ks).
            if old \<noteq> None \<and> nx then tret (KInt 0, ks)
            else
              tbind (if old \<noteq> None then tbind (dbDelete env ks dst) (\<lambda>(_, ks). tret ks) else tret ks) (\<lambda>ks.
              tbind (dbAdd env a ks dst ob) (\<lambda>ks.
              tbind (if expire \<noteq> - 1 then Some (setExpire ks dst expire) else tret ks) (\<lambda>ks.
              tbind (dbDelete env ks src) (\<lambda>(_, ks).
              tret (if nx then KInt 1 else KOk,
                kevent (NotifyRenameTo dst) (kevent (NotifyRenameFrom src) (kevent (Modified dst) (kevent (Modified src) ks))))))))))))"

text \<open>
  \<open>EXPIRE\<close> and its variants after the argument is parsed: \<open>time\<close> is its value,
  \<open>now\<close> what the second call of \<open>mstime()\<close> gives.
\<close>

definition expireGenericCommand ::
  "'v kenv \<Rightarrow> int \<Rightarrow> 'v keyspace \<Rightarrow> u8 list \<Rightarrow> int \<Rightarrow> int \<Rightarrow> bool \<Rightarrow> (kreply \<times> 'v keyspace) res option" where
  "expireGenericCommand env now ks key time basetime seconds =
     tbind (Some (if seconds then s64 (time * 1000) else Inr time)) (\<lambda>when.
     tbind (Some (s64 (when + basetime))) (\<lambda>when.
     tbind (lookupKeyRead env ks key) (\<lambda>(val, ks).
     if val = None then tret (KInt 0, ks)
     else if when \<le> now \<and> \<not> k_loading env \<and> \<not> k_slave env then
       tbind (dbDelete env ks key) (\<lambda>(b, ks).
       if b then tret (KInt 1, kevent (NotifyDel key) (kevent (Modified key) (kevent (RewriteDel key) ks))) else Some (Inl AssertFailed))
     else
       tbind (Some (setExpire ks key when)) (\<lambda>ks.
       tret (KInt 1, kevent (NotifyExpire key) (kevent (Modified key) ks))))))"

definition ttlGenericCommand ::
  "'v kenv \<Rightarrow> int \<Rightarrow> 'v keyspace \<Rightarrow> u8 list \<Rightarrow> bool \<Rightarrow> (kreply \<times> 'v keyspace) res option" where
  "ttlGenericCommand env now ks key output_ms =
     tbind (lookupKeyRead env ks key) (\<lambda>(val, ks).
     if val = None then tret (KInt (- 2), ks)
     else
       tbind (Some (getExpire ks key)) (\<lambda>expire.
       tbind (if expire \<noteq> - 1 then Some (rbind (s64 (expire - now)) (\<lambda>ttl. Inr (if ttl < 0 then 0 else ttl))) else tret (- 1)) (\<lambda>ttl.
       if ttl = - 1 then tret (KInt (- 1), ks)
       else tbind (Some (if output_ms then Inr ttl else rbind (s64 (ttl + 500)) (\<lambda>t. Inr (t div 1000)))) (\<lambda>t. tret (KInt t, ks)))))"

definition persistCommand :: "'v keyspace \<Rightarrow> u8 list \<Rightarrow> (kreply \<times> 'v keyspace) res option" where
  "persistCommand ks key =
     (if ks_dict ks key = None then tret (KInt 0, ks)
      else tbind (Some (removeExpire ks key)) (\<lambda>(b, ks). tret (KInt (if b then 1 else 0), ks)))"

end
