(* ===== verification/KeyIndex.thy ===== *)
theory KeyIndex
  imports KeySpace
begin

text \<open>
  The index of slots: its skip list holds the keys of the database with their
  slots, so counting, listing and deleting the keys of a slot answer for the database.
\<close>

section \<open>The slot of a key\<close>

definition key_slot :: "u8 list \<Rightarrow> int" where
  "key_slot key = uint (crc16_bytes (hash_part key) AND 0x3FFF)"

lemma keyHashSlot_slot: "\<exists>slot. keyHashSlot key (length key) = Inr slot \<and> uint slot = key_slot key"
  using keyHashSlot_part [of "length key" key] by (simp add: key_slot_def)

definition index_ok :: "'v keyspace \<Rightarrow> bool" where
  "index_ok ks \<longleftrightarrow> (\<exists>es. zsl_abs (ks_heap ks) (ks_zsl ks) es \<and> set es = (\<lambda>k. (key_slot k, k)) ` dom (ks_dict ks))"

lemma index_cong:
  "ks_heap ks' = ks_heap ks \<Longrightarrow> ks_zsl ks' = ks_zsl ks \<Longrightarrow> dom (ks_dict ks') = dom (ks_dict ks) \<Longrightarrow> index_ok ks' = index_ok ks"
  by (simp add: index_ok_def)

lemma index_keys:
  assumes "zsl_rep h zsl ts es" and "set es = (\<lambda>k. (key_slot k, k)) ` K"
  shows "distinct (map snd es)" and "length es = card K" and "snd ` set es = K" and "e \<in> set es \<Longrightarrow> fst e = key_slot (snd e)"
proof -
  have d: "distinct es" by (rule sorted_distinct [OF repD(12) [OF assms(1)]])
  have i: "inj_on snd (set es)" unfolding assms(2) by (auto simp: inj_on_def)
  show k: "snd ` set es = K" using assms(2) by force
  show m: "distinct (map snd es)" using d i by (simp add: distinct_map)
  show "length es = card K" using distinct_card [OF m] k by simp
  show "e \<in> set es \<Longrightarrow> fst e = key_slot (snd e)" using assms(2) by auto
qed

lemma index_finite:
  assumes "index_ok ks"
  shows "finite (dom (ks_dict ks))" and "card (dom (ks_dict ks)) < 2 ^ 32"
proof -
  obtain ts es where r: "zsl_rep (ks_heap ks) (ks_zsl ks) ts es" "set es = (\<lambda>k. (key_slot k, k)) ` dom (ks_dict ks)"
    using assms by (auto simp: index_ok_def zsl_abs_def)
  show "finite (dom (ks_dict ks))" using index_keys(3) [OF r] by (metis List.finite_set finite_imageI)
  show "card (dom (ks_dict ks)) < 2 ^ 32" using index_keys(2) [OF r] repD(11,13) [OF r(1)] by simp
qed

section \<open>Adding and deleting\<close>

lemma set_zinsert: "set (zinsert x es) = insert x (set es)"
  by (auto simp: zinsert_def)

lemma slotToKeyAdd_spec:
  assumes ok: "index_ok (ks\<lparr>ks_dict := (ks_dict ks)(key := None)\<rparr>)" and k: "ks_dict ks key \<noteq> None"
    and a: "1 \<le> fst a" "fst a \<le> ZSKIPLIST_MAXLEVEL" "ks_heap ks (snd a) = None" and n: "card (dom (ks_dict ks)) < 2 ^ 32"
  shows "\<exists>h zsl. slotToKeyAdd a ks key = tret (ks\<lparr>ks_heap := h, ks_zsl := zsl\<rparr>) \<and> index_ok (ks\<lparr>ks_heap := h, ks_zsl := zsl\<rparr>)"
proof -
  let ?K = "dom (ks_dict ks) - {key}"
  obtain ts es where r: "zsl_rep (ks_heap ks) (ks_zsl ks) ts es" and s: "set es = (\<lambda>k. (key_slot k, k)) ` ?K"
    using ok by (auto simp: index_ok_def zsl_abs_def)
  obtain slot where sl: "keyHashSlot key (length key) = Inr slot" "uint slot = key_slot key" using keyHashSlot_slot by blast
  have "snd ` set es = ?K" by (rule index_keys(3) [OF r s])
  then have "finite ?K" by (metis List.finite_set finite_imageI)
  then have fin: "finite (dom (ks_dict ks))" by (rule finite_Diff2 [THEN iffD1, rotated]) simp
  have "card (dom (ks_dict ks)) = Suc (card ?K)" using k by (intro card.remove [OF fin]) (simp add: domIff)
  then have len: "length es + 1 < 2 ^ 32" using n index_keys(2) [OF r s] by simp
  have new: "(uint slot, key) \<notin> set es" using s by auto
  obtain h zsl ts' where i: "zslInsert (ks_heap ks) (ks_zsl ks) (uint slot) key (fst a) (snd a) = Some (Inr (h, zsl))"
    "zsl_rep h zsl ts' (below (uint slot, key) es @ (uint slot, key) # notbelow (uint slot, key) es)"
    by (rule zslInsert_spec [OF r new a(3,1,2) len])
  have eq: "below (uint slot, key) es @ (uint slot, key) # notbelow (uint slot, key) es = zinsert (uint slot, key) es"
    by (rule zinsert_place [OF repD(12) [OF r]])
  have K: "insert key ?K = dom (ks_dict ks)" using k by (simp add: insert_absorb domIff)
  have "set (zinsert (uint slot, key) es) = (\<lambda>k. (key_slot k, k)) ` insert key ?K"
    by (simp only: set_zinsert s sl(2) image_insert)
  then have set: "set (zinsert (uint slot, key) es) = (\<lambda>k. (key_slot k, k)) ` dom (ks_dict ks)" by (simp only: K)
  have abs: "zsl_abs h zsl (zinsert (uint slot, key) es)"
    unfolding zsl_abs_def by (rule exI [of _ ts']) (rule i(2) [unfolded eq])
  have "index_ok (ks\<lparr>ks_heap := h, ks_zsl := zsl\<rparr>)"
    unfolding index_ok_def by (rule exI [of _ "zinsert (uint slot, key) es"]) (simp add: abs set)
  moreover have "slotToKeyAdd a ks key = tret (ks\<lparr>ks_heap := h, ks_zsl := zsl\<rparr>)" by (simp add: slotToKeyAdd_def sl(1) i(1))
  ultimately show ?thesis by blast
qed

text \<open>A deletion allocates nothing.\<close>

lemma zupdate_dom:
  assumes "zupdate h p f = Inr h'"
  shows "dom h' = dom h"
proof -
  obtain q n where "h q = Some n" "h' = h(q \<mapsto> f n)"
    using assms by (cases p) (auto simp: zupdate_def zderef_def split: option.splits)
  then show ?thesis by (simp add: insert_absorb domI)
qed

lemma zset_level_dom:
  assumes "zset_level h p i f = Inr h'"
  shows "dom h' = dom h"
proof -
  obtain g where "zupdate h p g = Inr h'" using assms unfolding zset_level_def rbind_eq_Inr by blast
  then show ?thesis by (rule zupdate_dom)
qed

lemma unlink_level_dom:
  assumes "unlink_level x us i h = Inr h'"
  shows "dom h' = dom h"
proof -
  obtain u f where "zset_level h u i f = Inr h'"
    using assms by (auto simp: unlink_level_def split: if_splits)
  then show ?thesis by (rule zset_level_dom)
qed

lemma zslDelete_dom:
  assumes "zslDelete h zsl s ob = Some (Inr (b, h', zsl'))"
  shows "dom h' \<subseteq> dom h"
proof -
  have n: "dom g' = dom g" if d: "zslDeleteNode g z x us = Inr (g', z')" for g g' z z' x and us :: "(zptr \<times> u64) list"
  proof -
    obtain h1 forward n where h1: "for_each (unlink_level x us) [0..<z_levels z] g = Inr h1"
      "g' = h1 \<or> (\<exists>f. zupdate h1 forward f = Inr g')"
      using d by (auto simp: zslDeleteNode_def split: if_splits)
    have "dom h1 = dom g"
      by (rule for_each_inv [OF h1(1), where I = "\<lambda>h. dom h = dom g"]) (simp_all only: unlink_level_dom)
    then show ?thesis using h1(2) by (elim disjE exE) (simp, metis zupdate_dom)
  qed
  obtain us where "zsl_search h zsl (before_key s ob :: _ \<Rightarrow> u64 \<Rightarrow> bool res) = Some (Inr us)"
    using assms by (auto simp: zslDelete_def tbind_def split: option.splits sum.splits)
  then consider "h' = h" | a g z where "zslDeleteNode h zsl a us = Inr (g, z)" "h' = zslFreeNode g a"
    using assms by (force simp: zslDelete_def split: option.splits if_splits)
  then show ?thesis by cases (auto simp: zslFreeNode_def dest: n)
qed

lemma slotToKeyDel_spec:
  assumes ok: "index_ok (ks\<lparr>ks_dict := d\<rparr>)" and d: "ks_dict ks = d(key := None)"
  shows "\<exists>h zsl. slotToKeyDel ks key = tret (ks\<lparr>ks_heap := h, ks_zsl := zsl\<rparr>) \<and> index_ok (ks\<lparr>ks_heap := h, ks_zsl := zsl\<rparr>) \<and>
    dom h \<subseteq> dom (ks_heap ks)"
proof -
  obtain ts es where r: "zsl_rep (ks_heap ks) (ks_zsl ks) ts es" and s: "set es = (\<lambda>k. (key_slot k, k)) ` dom d"
    using ok by (auto simp: index_ok_def zsl_abs_def)
  obtain slot where sl: "keyHashSlot key (length key) = Inr slot" "uint slot = key_slot key" using keyHashSlot_slot by blast
  obtain h zsl ts' where i: "zslDelete (ks_heap ks) (ks_zsl ks) (uint slot) key = Some (Inr ((uint slot, key) \<in> set es, h, zsl))"
    "zsl_rep h zsl ts' (remove1 (uint slot, key) es)" by (rule zslDelete_spec [OF r])
  have "set (remove1 (uint slot, key) es) = (\<lambda>k. (key_slot k, k)) ` dom (d(key := None))"
    using sorted_distinct [OF repD(12) [OF r]] by (auto simp: s sl(2))
  then have "index_ok (ks\<lparr>ks_heap := h, ks_zsl := zsl\<rparr>)" using i(2) d by (auto simp: index_ok_def zsl_abs_def)
  moreover have "slotToKeyDel ks key = tret (ks\<lparr>ks_heap := h, ks_zsl := zsl\<rparr>)" by (simp add: slotToKeyDel_def sl(1) i(1))
  ultimately show ?thesis using zslDelete_dom [OF i(1)] by blast
qed

lemma slotToKeyFlush_spec:
  assumes ok: "index_ok (ks\<lparr>ks_dict := d\<rparr>)" and x: "ks_heap ks x = None" and e: "ks_dict ks = Map.empty"
  shows "\<exists>h zsl. slotToKeyFlush x ks = tret (ks\<lparr>ks_heap := h, ks_zsl := zsl\<rparr>) \<and> index_ok (ks\<lparr>ks_heap := h, ks_zsl := zsl\<rparr>)"
proof -
  obtain ts es where r: "zsl_rep (ks_heap ks) (ks_zsl ks) ts es" using ok by (auto simp: index_ok_def zsl_abs_def)
  let ?h = "ks_heap ks |` (- fst ` set (towers (ks_zsl ks) ts))"
  have f: "zslFree (ks_heap ks) (ks_zsl ks) = Some (Inr (?h, map snd es))" by (rule zslFree_spec [OF r])
  obtain h zsl where c: "zslCreate ?h x = (h, zsl)" by (cases "zslCreate ?h x")
  have "?h x = None" using x by (auto simp: restrict_map_def)
  then have "zsl_rep h zsl [] []" using zslCreate_rep c by blast
  then have "index_ok (ks\<lparr>ks_heap := h, ks_zsl := zsl\<rparr>)" using e by (auto simp: index_ok_def zsl_abs_def)
  moreover have "slotToKeyFlush x ks = tret (ks\<lparr>ks_heap := h, ks_zsl := zsl\<rparr>)" by (simp add: slotToKeyFlush_def f c)
  ultimately show ?thesis by blast
qed

section \<open>The keys of a slot\<close>

lemma in_slot: "in_score_range (slot_range s) = (\<lambda>e. fst e = s)"
  by (auto simp: in_score_range_def slot_range_def zslValueGteMin_def zslValueLteMax_def)

lemma sorted_slots:
  assumes "sorted_wrt key_less es"
  shows "es = filter (\<lambda>e. fst e < s) es @ filter (\<lambda>e. fst e = s) es @ filter (\<lambda>e. fst e > s) es"
  using assms
proof (induction es)
  case (Cons x es)
  have le: "\<forall>e \<in> set es. fst x \<le> fst e" using Cons.prems by (intro ballI score_le) simp
  have nil: "filter (\<lambda>e. fst e < s) es = []" if "s \<le> fst x" using le that by (auto simp: filter_empty_conv)
  have nil2: "filter (\<lambda>e. fst e = s) es = []" if "s < fst x" using le that by (auto simp: filter_empty_conv)
  have IH: "es = filter (\<lambda>e. fst e < s) es @ filter (\<lambda>e. fst e = s) es @ filter (\<lambda>e. fst e > s) es"
    using Cons by simp
  show ?case by (cases "fst x" s rule: linorder_cases) (use IH nil nil2 in auto)
qed simp

lemma slot_sorted:
  assumes "sorted_wrt key_less es"
  shows "sorted_wrt (\<lambda>a b. compareStringObjects a b < 0) (map snd (filter (\<lambda>e. fst e = s) es))"
  using assms by (induction es) (auto simp: key_less_def)

text \<open>The keys of slot \<open>s\<close>.\<close>

definition slot_keys :: "(u8 list \<rightharpoonup> 'v) \<Rightarrow> int \<Rightarrow> u8 list set" where
  "slot_keys d s = {k \<in> dom d. key_slot k = s}"

lemma slot_part:
  assumes r: "zsl_rep h zsl ts es" and s: "set es = (\<lambda>k. (key_slot k, k)) ` dom d"
  shows "set (map snd (filter (\<lambda>e. fst e = s) es)) = slot_keys d s" and "distinct (map snd (filter (\<lambda>e. fst e = s) es))"
    and "length (filter (\<lambda>e. fst e = s) es) = card (slot_keys d s)"
proof -
  have "set (filter (\<lambda>e. fst e = s) es) = (\<lambda>k. (key_slot k, k)) ` slot_keys d s" by (auto simp: s slot_keys_def)
  then show k: "set (map snd (filter (\<lambda>e. fst e = s) es)) = slot_keys d s" by (simp add: image_image del: set_filter)
  show m: "distinct (map snd (filter (\<lambda>e. fst e = s) es))" using index_keys(1) [OF r s] by (rule distinct_map_filter)
  show "length (filter (\<lambda>e. fst e = s) es) = card (slot_keys d s)" using distinct_card [OF m] k by simp
qed

lemma first_of_slot:
  assumes r: "zsl_rep h zsl ts es"
  obtains p as bs where "zslFirstInRange h zsl (slot_range s) = Some (Inr p)" "ts = as @ bs"
    "length as = length (filter (\<lambda>e. fst e < s) es)"
    "if filter (\<lambda>e. fst e = s) es = [] then p = None else p = next_ptr bs \<and> p \<noteq> None"
proof -
  let ?n = "length (filter (\<lambda>e. fst e < s) es)"
  have part: "es = filter (\<lambda>e. fst e < s) es @ filter (\<lambda>e. fst e = s) es @ filter (\<lambda>e. fst e > s) es"
    by (rule sorted_slots [OF repD(12) [OF r]])
  have "takeWhile (\<lambda>e. \<not> zslValueGteMin (fst e) (slot_range s)) es = takeWhile (\<lambda>e. fst e < s) es"
    by (simp add: slot_range_def zslValueGteMin_def not_le)
  also have "\<dots> = filter (\<lambda>e. fst e < s) es"
  proof (cases "filter (\<lambda>e. fst e = s) es @ filter (\<lambda>e. fst e > s) es")
    case Nil
    then show ?thesis by (subst part) (simp add: takeWhile_append)
  next
    case (Cons x xs)
    then have "x \<in> set (filter (\<lambda>e. fst e = s) es @ filter (\<lambda>e. fst e > s) es)" by simp
    then have "\<not> fst x < s" by auto
    then show ?thesis by (subst part) (simp add: takeWhile_append Cons)
  qed
  finally have tw: "length (takeWhile (\<lambda>e. \<not> zslValueGteMin (fst e) (slot_range s)) es) = ?n" by simp
  obtain p where p: "zslFirstInRange h zsl (slot_range s) = Some (Inr p)" "p = None \<or> node_key h p \<noteq> None"
    "node_key h p = (case filter (in_score_range (slot_range s)) es of [] \<Rightarrow> None | e # _ \<Rightarrow> Some e)"
    "p = None \<or> (\<exists>as k bs. ts = as @ (the p, k) # bs \<and> length as = ?n)"
    by (rule first_range_at [OF r, of "slot_range s"]) (simp add: tw)
  have nk: "node_key h p = (case filter (\<lambda>e. fst e = s) es of [] \<Rightarrow> None | e # _ \<Rightarrow> Some e)" using p(3) by (simp add: in_slot)
  show thesis
  proof (cases "filter (\<lambda>e. fst e = s) es")
    case Nil
    then have "p = None" using nk p(2) by simp
    moreover have "?n \<le> length ts" using repD(13) [OF r] by simp
    ultimately show thesis using that [of p "take ?n ts" "drop ?n ts"] p(1) Nil by simp
  next
    case (Cons e fs)
    then have "p \<noteq> None" using nk by (cases p) (simp_all add: node_key_def)
    then obtain as k bs where "ts = as @ (the p, k) # bs" "length as = ?n" using p(4) by blast
    then show thesis using that [of p as "(the p, k) # bs"] p(1) Cons \<open>p \<noteq> None\<close> by simp
  qed
qed

lemma slot_first_run:
  assumes "sorted_wrt key_less es" and "ds = filter (\<lambda>e. fst e < s) es" and "es = ds @ fs"
  shows "takeWhile (\<lambda>e. fst e = s) fs = filter (\<lambda>e. fst e = s) es"
proof -
  have "fs = filter (\<lambda>e. fst e = s) es @ filter (\<lambda>e. fst e > s) es"
    using sorted_slots [OF assms(1), of s] assms(2,3) by (metis same_append_eq)
  moreover have "takeWhile (\<lambda>e. fst e = s) (filter (\<lambda>e. fst e > s) es) = []" by (induction es) auto
  moreover have "takeWhile (\<lambda>e. fst e = s) (filter (\<lambda>e. fst e = s) es @ gs) = filter (\<lambda>e. fst e = s) es @ takeWhile (\<lambda>e. fst e = s) gs"
    for gs by (rule takeWhile_append2) simp
  ultimately show ?thesis by simp
qed

lemma rep_at:
  assumes r: "zsl_rep h zsl (as @ (x, l) # bs) (ds @ e # fs)" and len: "length as = length ds"
  shows "\<exists>n. zderef h (Some x) = Inr n \<and> z_score n = fst e \<and> z_obj n = Some (snd e)"
    and "zlevel h (Some x) 0 = Inr (next_ptr bs, of_nat (gap 0 bs))"
proof -
  show "\<exists>n. zderef h (Some x) = Inr n \<and> z_score n = fst e \<and> z_obj n = Some (snd e)"
    by (rule rep_node [OF r len]) blast
  have "zsl_rep h zsl ((as @ [(x, l)]) @ bs) (ds @ e # fs)" using r by simp
  then show "zlevel h (Some x) 0 = Inr (next_ptr bs, of_nat (gap 0 bs))" by (rule rep_fwd) (simp add: towers_def)
qed

lemma put_key_at: "length a = k \<Longrightarrow> put_key (a @ x # b) (int k) key = Inr (a @ key # b)"
  by (auto simp: put_key_def list_update_append)

lemma keys_loop_spec:
  assumes "zsl_rep h zsl (as @ bs) (ds @ fs)" and "length as = length ds"
    and "got = take count (map snd (takeWhile (\<lambda>e. fst e = s) fs))"
    and "length got \<le> length buf" and "length done' + length got < 2 ^ 31"
  shows "keys_loop h s (next_ptr bs) count (int (length done')) (done' @ buf) =
    Inr (int (length (done' @ got)), (done' @ got) @ drop (length got) buf)"
  using assms
proof (induction bs arbitrary: as ds fs count got buf done')
  case Nil
  then have "fs = []" using repD(13) [OF Nil(1)] by simp
  then show ?case using Nil(3) by (subst keys_loop.simps) simp
next
  case (Cons t bs)
  obtain x l where t: "t = (x, l)" by (cases t)
  have "length bs + 1 = length fs" using repD(13) [OF Cons.prems(1)] Cons.prems(2) by simp
  then obtain e fs' where fs: "fs = e # fs'" by (cases fs) auto
  note at = rep_at [OF Cons.prems(1) [unfolded t fs] Cons.prems(2)]
  obtain n where n: "zderef h (Some x) = Inr n" "z_score n = fst e" "z_obj n = Some (snd e)" using at(1) by blast
  show ?case
  proof (cases "fst e = s \<and> count \<noteq> 0")
    case False
    then have "got = []" using Cons.prems(3) fs by auto
    then show ?thesis using False by (subst keys_loop.simps) (auto simp: t fs n split: nat.split)
  next
    case True
    then obtain c where c: "count = Suc c" by (cases count) auto
    let ?got = "take c (map snd (takeWhile (\<lambda>e. fst e = s) fs'))"
    have got: "got = snd e # ?got" using Cons.prems(3) True c fs by simp
    then obtain b buf' where buf: "buf = b # buf'" using Cons.prems(4) by (cases buf) auto
    have l: "length ?got \<le> length buf'" "length (done' @ [snd e]) + length ?got < 2 ^ 31"
      using Cons.prems(4,5) unfolding got buf by simp_all
    have "s32 (int (length done') + 1) = Inr (int (length done') + 1)" using l(2) by (intro s32_fits) auto
    moreover have "put_key (done' @ buf) (int (length done')) (snd e) = Inr (done' @ snd e # buf')"
      unfolding buf by (rule put_key_at) simp
    moreover have "keys_loop h s (next_ptr bs) c (int (length (done' @ [snd e]))) ((done' @ [snd e]) @ buf') =
        Inr (int (length ((done' @ [snd e]) @ ?got)), ((done' @ [snd e]) @ ?got) @ drop (length ?got) buf')"
      by (rule Cons.IH [of "as @ [t]" "ds @ [e]" fs']) (use Cons.prems(1,2) fs l in simp_all)
    ultimately show ?thesis using True n at(2) unfolding got
      by (subst keys_loop.simps) (simp add: t fs c buf add.commute)
  qed
qed

lemma getKeysInSlot_spec:
  assumes ok: "index_ok ks" and small: "card (slot_keys (ks_dict ks) s) < 2 ^ 31" and room: "unat count \<le> length buf"
  obtains keys where
    "getKeysInSlot ks s buf count = tret (of_nat (length (take (unat count) keys)),
       take (unat count) keys @ drop (length (take (unat count) keys)) buf)"
    "set keys = slot_keys (ks_dict ks) s" "sorted_wrt (\<lambda>a b. compareStringObjects a b < 0) keys"
proof -
  obtain ts es where r: "zsl_rep (ks_heap ks) (ks_zsl ks) ts es" and st: "set es = (\<lambda>k. (key_slot k, k)) ` dom (ks_dict ks)"
    using ok by (auto simp: index_ok_def zsl_abs_def)
  let ?fs = "filter (\<lambda>e. fst e = s) es"
  let ?got = "take (unat count) (map snd ?fs)"
  have srt: "sorted_wrt key_less es" by (rule repD(12) [OF r])
  obtain p as bs where p: "zslFirstInRange (ks_heap ks) (ks_zsl ks) (slot_range s) = Some (Inr p)" "ts = as @ bs"
    "length as = length (filter (\<lambda>e. fst e < s) es)" "if ?fs = [] then p = None else p = next_ptr bs \<and> p \<noteq> None"
    by (rule first_of_slot [OF r])
  obtain gs where gs: "es = filter (\<lambda>e. fst e < s) es @ gs" using sorted_slots [OF srt, of s] by metis
  have run: "takeWhile (\<lambda>e. fst e = s) gs = ?fs" by (rule slot_first_run [OF srt refl gs])
  have "length ?fs < 2 ^ 31" using slot_part(3) [OF r st, of s] small by simp
  then have l: "length ?got \<le> length buf" "length ([] :: u8 list list) + length ?got < 2 ^ 31" using room by simp_all
  have "keys_loop (ks_heap ks) s p (unat count) 0 buf = Inr (int (length ?got), ?got @ drop (length ?got) buf)"
  proof (cases "?fs = []")
    case True
    then have "p = None" using p(4) by simp
    then show ?thesis using True by (subst keys_loop.simps) simp
  next
    case False
    then have q: "p = next_ptr bs" using p(4) by simp
    have r': "zsl_rep (ks_heap ks) (ks_zsl ks) (as @ bs) (filter (\<lambda>e. fst e < s) es @ gs)" using r p(2) gs by simp
    show ?thesis using keys_loop_spec [OF r' p(3) _ l, where s = s and count = "unat count"] unfolding run q by simp
  qed
  then have "getKeysInSlot ks s buf count = tret (of_nat (length ?got), ?got @ drop (length ?got) buf)"
    by (simp add: getKeysInSlot_def p(1))
  then show thesis by (rule that [OF _ slot_part(1) [OF r st] slot_sorted [OF srt]])
qed

section \<open>Counting\<close>

lemma rank_at_spec:
  assumes r: "zsl_rep (ks_heap ks) (ks_zsl ks) ts es" and d: "distinct (map snd es)"
    and p: "node_key (ks_heap ks) p = Some (es ! j)" and j: "j < length es"
  shows "rank_at ks p = tret (of_nat (Suc j))"
proof -
  obtain n where n: "zderef (ks_heap ks) p = Inr n" "z_score n = fst (es ! j)" "z_obj n = Some (snd (es ! j))"
    using p by (cases "es ! j") (auto simp: node_key_def zderef_def split: option.splits)
  have u: "ucast (of_nat (Suc j) :: u64) = (of_nat (Suc j) :: u32)" by (rule ucast_length)
  show ?thesis unfolding rank_at_def by (simp add: n rank_spec(1) [OF r d j] u del: of_nat_Suc)
qed

lemma ucast_sub: "ucast (x - y :: u64) = (ucast x - ucast y :: u32)"
  by transfer (subst (2) take_bit_diff [symmetric], simp add: take_bit_diff)

lemma ucast_scast: "ucast (scast (x :: u32) :: u64) = x"
  by (rule bit_word_eqI) (auto simp add: bit_simps)

lemma countKeysInSlot_spec:
  assumes ok: "index_ok ks" and small: "card (dom (ks_dict ks)) < 2 ^ 31"
  shows "countKeysInSlot ks s = tret (of_nat (card (slot_keys (ks_dict ks) s)))"
proof -
  obtain ts es where r: "zsl_rep (ks_heap ks) (ks_zsl ks) ts es" and st: "set es = (\<lambda>k. (key_slot k, k)) ` dom (ks_dict ks)"
    using ok by (auto simp: index_ok_def zsl_abs_def)
  have d: "distinct (map snd es)" by (rule index_keys(1) [OF r st])
  obtain as bs cs where es: "es = as @ bs @ cs" and bs: "bs = filter (\<lambda>e. fst e = s) es"
    using sorted_slots [OF repD(12) [OF r], of s] by blast
  have card: "length bs = card (slot_keys (ks_dict ks) s)" using slot_part(3) [OF r st] bs by simp
  have len: "ucast (z_length (ks_zsl ks)) = (of_nat (length es) :: u32)" using repD(10,13) [OF r] by (simp add: ucast_length)
  obtain p where p: "zslFirstInRange (ks_heap ks) (ks_zsl ks) (slot_range s) = Some (Inr p)" "p = None \<or> node_key (ks_heap ks) p \<noteq> None"
    "node_key (ks_heap ks) p = (case bs of [] \<Rightarrow> None | e # _ \<Rightarrow> Some e)"
    by (rule first_range_spec [OF r, of "slot_range s"]) (simp add: in_slot bs)
  obtain q where q: "zslLastInRange (ks_heap ks) (ks_zsl ks) (slot_range s) = Some (Inr q)" "q = None \<or> node_key (ks_heap ks) q \<noteq> None"
    "node_key (ks_heap ks) q = (case rev bs of [] \<Rightarrow> None | e # _ \<Rightarrow> Some e)"
    by (rule last_range_spec [OF r, of "slot_range s"]) (simp add: in_slot bs)
  show ?thesis
  proof (cases bs)
    case Nil
    then have "p = None" using p(2,3) by simp
    then show ?thesis using p(1) card Nil by (simp add: countKeysInSlot_def)
  next
    case (Cons e bs')
    have last_nth: "es ! (length as + length bs') = last bs" using es Cons by (simp add: nth_append last_conv_nth)
    have "bs \<noteq> []" using Cons by simp
    then have "rev bs = last bs # rev (butlast bs)" by (cases bs rule: rev_cases) simp_all
    then have q3: "node_key (ks_heap ks) q = Some (es ! (length as + length bs'))" using q(3) last_nth by (simp del: rev_eq_Cons_iff)
    have p3: "node_key (ks_heap ks) p = Some (es ! length as)" using p(3) es Cons by simp
    have ne: "p \<noteq> None" "q \<noteq> None" using p3 q3 by (cases p; cases q; simp add: node_key_def)+
    have "length es = card (dom (ks_dict ks))"
      by (rule index_keys(2) [OF r st])
    then have a: "Suc (length as) < 2 ^ 31" using small es Cons by simp
    have "sint (of_nat (Suc (length as)) :: u32) = int (Suc (length as))"
      using int_of_size [OF a] by (simp only: int_of_size_def)
    then have below: "s32 (sint (of_nat (Suc (length as)) :: u32) - 1) = Inr (int (length as))"
      using a by (simp add: s32_def)
    have "rank_at ks p = tret (of_nat (Suc (length as)))" by (rule rank_at_spec [OF r d p3]) (use es Cons in simp)
    moreover have "rank_at ks q = tret (of_nat (Suc (length as + length bs')))" by (rule rank_at_spec [OF r d q3]) (use es Cons in simp)
    moreover have "length es = length as + Suc (length bs') + length cs" using es Cons by simp
    ultimately show ?thesis unfolding card [symmetric]
      by (simp add: countKeysInSlot_def Let_def p(1) q(1) ne len Cons ucast_sub ucast_scast below [simplified]
          ucast_length)
  qed
qed

section \<open>Deleting\<close>

definition del_key :: "u8 list \<Rightarrow> 'v keyspace \<Rightarrow> 'v keyspace" where
  "del_key key ks = ks\<lparr>ks_expires := (ks_expires ks)(key := None), ks_dict := (ks_dict ks)(key := None)\<rparr>"

abbreviation with_index :: "int zheap \<times> zskiplist \<Rightarrow> 'v keyspace \<Rightarrow> 'v keyspace" where
  "with_index z ks \<equiv> ks\<lparr>ks_heap := fst z, ks_zsl := snd z\<rparr>"

lemma absent_key:
  assumes "ks_dict ks key = None" and "ks_expires ks key = None"
  shows "del_key key ks = ks"
proof -
  have "(ks_dict ks)(key := None) = ks_dict ks" "(ks_expires ks)(key := None) = ks_expires ks"
    using assms by auto
  then show ?thesis by (simp add: del_key_def)
qed

lemma below_place:
  assumes "sorted_wrt key_less (ds @ e # fs)"
  shows "below e (ds @ e # fs) = ds"
  using assms by (auto simp: below_def sorted_wrt_append takeWhile_append)

text \<open>Deleting the key at a known place of the index leaves the nodes after it where they are.\<close>

lemma slotToKeyDel_at:
  assumes r: "zsl_rep (ks_heap ks) (ks_zsl ks) (as @ t # bs) (ds @ e # fs)" and len: "length as = length ds"
    and e: "fst e = key_slot (snd e)"
  shows "\<exists>z. slotToKeyDel ks (snd e) = tret (with_index z ks) \<and> zsl_rep (fst z) (snd z) (as @ bs) (ds @ fs)"
proof -
  obtain slot where sl: "keyHashSlot (snd e) (length (snd e)) = Inr slot" "uint slot = key_slot (snd e)" using keyHashSlot_slot by blast
  have below: "below e (ds @ e # fs) = ds" by (rule below_place [OF repD(12) [OF r]])
  have "e \<notin> set ds" using sorted_distinct [OF repD(12) [OF r]] by simp
  then have es: "remove1 e (ds @ e # fs) = ds @ fs" by (simp add: remove1_append)
  obtain h zsl where i: "zslDelete (ks_heap ks) (ks_zsl ks) (fst e) (snd e) = Some (Inr (True, h, zsl))" "zsl_rep h zsl (as @ bs) (ds @ fs)"
    by (rule zslDelete_at [OF r, of "fst e" "snd e"]) (simp add: es below len)
  have "slotToKeyDel ks (snd e) = tret (with_index (h, zsl) ks)" using i(1) by (simp add: slotToKeyDel_def sl e)
  then show ?thesis using i(2) by (intro exI [of _ "(h, zsl)"]) simp
qed

definition drop_keys :: "u8 list set \<Rightarrow> 'v keyspace \<Rightarrow> 'v keyspace" where
  "drop_keys K ks = ks\<lparr>ks_expires := ks_expires ks |` (- K), ks_dict := ks_dict ks |` (- K)\<rparr>"

lemma restrict_del: "(m(k := None)) |` (- K) = m |` (- insert k K)"
  by (auto simp: restrict_map_def)

lemma drop_keys_insert: "with_index w (drop_keys K (with_index z (del_key k ks))) = with_index w (drop_keys (insert k K) ks)"
  by (simp add: drop_keys_def del_key_def restrict_del del: restrict_fun_upd)

lemma restrict_all [simp]: "m |` UNIV = m"
  by (auto simp: restrict_map_def)

lemma del_loop_spec:
  assumes "zsl_rep (ks_heap ks) (ks_zsl ks) (as @ bs) (ds @ fs)" and "length as = length ds" and "k_cluster env"
    and "set (ds @ fs) = (\<lambda>k. (key_slot k, k)) ` dom (ks_dict ks)"
    and "0 \<le> j" and "j + int (length (takeWhile (\<lambda>e. fst e = s) fs)) < 2 ^ 31"
  shows "\<exists>z. del_loop env s (next_ptr bs) j ks =
      tret (j + int (length (takeWhile (\<lambda>e. fst e = s) fs)),
        with_index z (drop_keys (snd ` set (takeWhile (\<lambda>e. fst e = s) fs)) ks)) \<and>
      zsl_abs (fst z) (snd z) (ds @ dropWhile (\<lambda>e. fst e = s) fs)"
  using assms
proof (induction fs arbitrary: bs j ks)
  case Nil
  then have "bs = []" using repD(13) [OF Nil(1)] by simp
  then show ?case using Nil.prems(1)
    by (intro exI [of _ "(ks_heap ks, ks_zsl ks)"], subst del_loop.simps) (simp add: drop_keys_def zsl_abs_def exI [of _ "as @ []"])
next
  case (Cons e fs)
  have "length bs = Suc (length fs)" using repD(13) [OF Cons.prems(1)] Cons.prems(2) by simp
  then obtain x l bs' where bs: "bs = (x, l) # bs'" by (cases bs) auto
  note r = Cons.prems(1) [unfolded bs]
  obtain n where n: "zderef (ks_heap ks) (Some x) = Inr n" "z_score n = fst e" "z_obj n = Some (snd e)"
    using rep_at(1) [OF r Cons.prems(2)] by blast
  show ?case
  proof (cases "fst e = s")
    case False
    then show ?thesis using Cons.prems(1)
      by (intro exI [of _ "(ks_heap ks, ks_zsl ks)"], subst del_loop.simps) (simp add: drop_keys_def n bs zsl_abs_def exI [of _ "as @ bs"])
  next
    case True
    have slot: "fst e = key_slot (snd e)" using index_keys(4) [OF r Cons.prems(4)] by simp
    have "snd e \<in> snd ` set (ds @ e # fs)" by simp
    then have "snd e \<in> dom (ks_dict ks)" by (simp only: index_keys(3) [OF r Cons.prems(4)])
    then have mem: "ks_dict ks (snd e) \<noteq> None" by (simp add: domIff)
    let ?k = "del_key (snd e) ks"
    have "zsl_rep (ks_heap ?k) (ks_zsl ?k) (as @ (x, l) # bs') (ds @ e # fs)" using r by (simp add: del_key_def)
    then obtain z where z: "slotToKeyDel ?k (snd e) = tret (with_index z ?k)" "zsl_rep (fst z) (snd z) (as @ bs') (ds @ fs)"
      using slotToKeyDel_at [OF _ Cons.prems(2) slot] by blast
    let ?ks = "with_index z ?k"
    have del: "dbDelete env ks (snd e) = tret (True, ?ks)"
      using z(1) mem Cons.prems(3) by (simp add: dbDelete_def del_key_def)
    have "e \<notin> set (ds @ fs)" using sorted_distinct [OF repD(12) [OF r]] by simp
    then have "set (ds @ fs) = set (ds @ e # fs) - {e}" by auto
    also have "\<dots> = (\<lambda>k. (key_slot k, k)) ` dom (ks_dict ks) - {(key_slot (snd e), snd e)}"
      unfolding Cons.prems(4) slot [symmetric] by simp
    also have "\<dots> = (\<lambda>k. (key_slot k, k)) ` dom (ks_dict ?ks)" by (auto simp: del_key_def)
    finally have st: "set (ds @ fs) = (\<lambda>k. (key_slot k, k)) ` dom (ks_dict ?ks)" .
    have rep: "zsl_rep (ks_heap ?ks) (ks_zsl ?ks) (as @ bs') (ds @ fs)" using z(2) by simp
    obtain w where w: "del_loop env s (next_ptr bs') (j + 1) ?ks =
      tret (j + 1 + int (length (takeWhile (\<lambda>e. fst e = s) fs)),
        with_index w (drop_keys (snd ` set (takeWhile (\<lambda>e. fst e = s) fs)) ?ks))"
      "zsl_abs (fst w) (snd w) (ds @ dropWhile (\<lambda>e. fst e = s) fs)"
      using Cons.IH [OF rep Cons.prems(2,3) st, of "j + 1"] Cons.prems(5,6) True by auto
    have "s32 (j + 1) = Inr (j + 1)" using Cons.prems(5,6) True by (intro s32_fits) auto
    then have "del_loop env s (next_ptr bs) j ks = del_loop env s (next_ptr bs') (j + 1) ?ks"
      by (subst del_loop.simps) (simp add: bs n True rep_at(2) [OF r Cons.prems(2)] del)
    then show ?thesis using w True by (intro exI [of _ w]) (simp add: drop_keys_insert)
  qed
qed

lemma slot_rest:
  assumes "sorted_wrt key_less es" and "set es = (\<lambda>k. (key_slot k, k)) ` dom d"
    and "ds = filter (\<lambda>e. fst e < s) es" and "es = ds @ fs"
  shows "set (ds @ dropWhile (\<lambda>e. fst e = s) fs) = (\<lambda>k. (key_slot k, k)) ` dom (d |` (- slot_keys d s))"
proof -
  have fs: "fs = filter (\<lambda>e. fst e = s) es @ filter (\<lambda>e. fst e > s) es"
    using sorted_slots [OF assms(1), of s] assms(3,4) by (metis same_append_eq)
  then have "dropWhile (\<lambda>e. fst e = s) fs = filter (\<lambda>e. fst e > s) es"
    using slot_first_run [OF assms(1,3,4)] by (metis same_append_eq takeWhile_dropWhile_id)
  then have "set (ds @ dropWhile (\<lambda>e. fst e = s) fs) = {e \<in> set es. fst e \<noteq> s}" using assms(3) by auto
  also have "\<dots> = (\<lambda>k. (key_slot k, k)) ` dom (d |` (- slot_keys d s))"
    unfolding assms(2) by (auto simp: slot_keys_def restrict_map_def split: if_splits)
  finally show ?thesis .
qed

lemma delKeysInSlot_spec:
  assumes ok: "index_ok ks" and c: "k_cluster env" and small: "card (slot_keys (ks_dict ks) s) < 2 ^ 31"
  shows "\<exists>z. delKeysInSlot env ks s = tret (of_nat (card (slot_keys (ks_dict ks) s)),
      with_index z (drop_keys (slot_keys (ks_dict ks) s) ks)) \<and>
    index_ok (with_index z (drop_keys (slot_keys (ks_dict ks) s) ks))"
proof -
  let ?K = "slot_keys (ks_dict ks) s"
  obtain ts es where r: "zsl_rep (ks_heap ks) (ks_zsl ks) ts es" and st: "set es = (\<lambda>k. (key_slot k, k)) ` dom (ks_dict ks)"
    using ok by (auto simp: index_ok_def zsl_abs_def)
  have srt: "sorted_wrt key_less es" by (rule repD(12) [OF r])
  obtain p as bs where p: "zslFirstInRange (ks_heap ks) (ks_zsl ks) (slot_range s) = Some (Inr p)" "ts = as @ bs"
    "length as = length (filter (\<lambda>e. fst e < s) es)"
    "if filter (\<lambda>e. fst e = s) es = [] then p = None else p = next_ptr bs \<and> p \<noteq> None"
    by (rule first_of_slot [OF r])
  show ?thesis
  proof (cases "filter (\<lambda>e. fst e = s) es = []")
    case True
    then have "?K = {}" "p = None" using slot_part(1) [OF r st, of s] p(4) by simp_all
    moreover have "del_loop env s None 0 ks = tret (0, ks)" by (subst del_loop.simps) simp
    ultimately have "delKeysInSlot env ks s = tret (0, ks)" by (simp add: delKeysInSlot_def p(1))
    then show ?thesis using ok \<open>?K = {}\<close> by (intro exI [of _ "(ks_heap ks, ks_zsl ks)"]) (simp add: drop_keys_def)
  next
    case False
    then have q: "p = next_ptr bs" using p(4) by simp
    let ?ds = "filter (\<lambda>e. fst e < s) es"
    obtain fs where fs: "es = ?ds @ fs" using sorted_slots [OF srt, of s] by metis
    have run: "takeWhile (\<lambda>e. fst e = s) fs = filter (\<lambda>e. fst e = s) es" by (rule slot_first_run [OF srt refl fs])
    have K: "snd ` set (filter (\<lambda>e. fst e = s) es) = ?K" using slot_part(1) [OF r st, of s] by simp
    have r': "zsl_rep (ks_heap ks) (ks_zsl ks) (as @ bs) (?ds @ fs)" using r p(2) fs by simp
    have st': "set (?ds @ fs) = (\<lambda>k. (key_slot k, k)) ` dom (ks_dict ks)" using st fs by simp
    obtain z where z: "del_loop env s (next_ptr bs) 0 ks =
      tret (int (card ?K), with_index z (drop_keys ?K ks))"
      "zsl_abs (fst z) (snd z) (?ds @ dropWhile (\<lambda>e. fst e = s) fs)"
      using del_loop_spec [OF r' p(3) c st', of 0 s] small unfolding run K slot_part(3) [OF r st] by auto
    have "index_ok (with_index z (drop_keys ?K ks))"
      unfolding index_ok_def
      by (rule exI [of _ "?ds @ dropWhile (\<lambda>e. fst e = s) fs"]) (simp add: z(2) drop_keys_def slot_rest [OF srt st refl fs] del: set_append)
    then show ?thesis using z(1) q p(1) by (intro exI [of _ z]) (simp add: delKeysInSlot_def)
  qed
qed

end
