(* ===== verification/KeyTheorems.thy ===== *)
theory KeyTheorems
  imports KeyIndex
begin

text \<open>
  The key space as its users see it: a map from keys to values with optional
  expire times.  Every operation is shown to be the operation of that map, and
  to keep the dictionaries and the index of slots in agreement.
\<close>

section \<open>The database as a map\<close>

type_synonym 'v db = "u8 list \<rightharpoonup> 'v \<times> int option"

definition kdb :: "'v keyspace \<Rightarrow> 'v db" where
  "kdb ks k = map_option (\<lambda>v. (v, ks_expires ks k)) (ks_dict ks k)"

definition ks_rep :: "bool \<Rightarrow> 'v keyspace \<Rightarrow> 'v db \<Rightarrow> bool" where
  "ks_rep on ks m \<longleftrightarrow> kdb ks = m \<and> dom (ks_expires ks) \<subseteq> dom (ks_dict ks) \<and> (on \<longrightarrow> index_ok ks)"

text \<open>The clock a running script sees stands still at its start.\<close>

definition key_now :: "'v kenv \<Rightarrow> int" where
  "key_now env = (case k_lua_time env of Some t \<Rightarrow> t | None \<Rightarrow> k_now env)"

definition db_gone :: "'v kenv \<Rightarrow> 'v db \<Rightarrow> u8 list \<Rightarrow> bool" where
  "db_gone env m k = (\<not> k_loading env \<and> \<not> k_slave env \<and>
     (case m k of Some (_, Some t) \<Rightarrow> 0 \<le> t \<and> t < key_now env | _ \<Rightarrow> False))"

definition db_access :: "'v kenv \<Rightarrow> 'v db \<Rightarrow> u8 list \<Rightarrow> 'v db" where
  "db_access env m k = (if db_gone env m k then m(k := None) else m)"

definition db_touch :: "'v kenv \<Rightarrow> 'v db \<Rightarrow> u8 list \<Rightarrow> 'v db" where
  "db_touch env m k = (case m k of None \<Rightarrow> m | Some (v, e) \<Rightarrow> m(k \<mapsto> (k_touch env v, e)))"

lemma kdb_dom [simp]: "dom (kdb ks) = dom (ks_dict ks)"
  by (auto simp: kdb_def dom_def)

lemma kdb_None [simp]: "kdb ks k = None \<longleftrightarrow> ks_dict ks k = None"
  by (simp add: kdb_def)

lemma kdb_apply: "ks_dict ks k = Some v \<Longrightarrow> kdb ks k = Some (v, ks_expires ks k)"
  by (simp add: kdb_def)

lemma kdb_cong: "ks_dict ks' = ks_dict ks \<Longrightarrow> ks_expires ks' = ks_expires ks \<Longrightarrow> kdb ks' = kdb ks"
  by (simp add: kdb_def fun_eq_iff)

lemma repI:
  assumes "\<And>k. kdb ks k = m k" and "dom (ks_expires ks) \<subseteq> dom (ks_dict ks)" and "on \<Longrightarrow> index_ok ks"
  shows "ks_rep on ks m"
  using assms by (auto simp: ks_rep_def)

lemma ks_repD:
  assumes "ks_rep on ks m"
  shows "kdb ks = m" and "dom (ks_expires ks) \<subseteq> dom (ks_dict ks)" and "on \<Longrightarrow> index_ok ks"
    and "ks_dict ks k = map_option fst (m k)" and "m k = None \<Longrightarrow> ks_expires ks k = None"
    and "m k = Some (v, e) \<Longrightarrow> ks_expires ks k = e" and "dom (ks_dict ks) = dom m"
  using assms by (auto simp: ks_rep_def kdb_def option.map_comp comp_def option.map_ident dest: domI)

text \<open>What is not in the dictionaries or the index does not matter.\<close>

lemma rep_cong:
  assumes "ks_dict ks' = ks_dict ks" and "ks_expires ks' = ks_expires ks" and "ks_heap ks' = ks_heap ks" and "ks_zsl ks' = ks_zsl ks"
  shows "ks_rep on ks' m \<longleftrightarrow> ks_rep on ks m"
  by (simp add: ks_rep_def kdb_cong [OF assms(1,2)] index_cong [OF assms(3,4)] assms(1,2))

lemma rep_kevent [simp]: "ks_rep on (kevent e ks) m = ks_rep on ks m" "ks_heap (kevent e ks) = ks_heap ks"
  by (rule rep_cong; simp add: kevent_def) (simp add: kevent_def)

section \<open>The primitive operations\<close>

lemma getExpire_rep:
  assumes "ks_rep on ks m"
  shows "getExpire ks key = Inr (case m key of Some (_, Some t) \<Rightarrow> t | _ \<Rightarrow> - 1)"
proof (cases "m key")
  case None
  then show ?thesis using ks_repD(5) [OF assms] by (simp add: getExpire_def)
next
  case (Some p)
  obtain v e where "p = (v, e)" by (cases p)
  then show ?thesis using ks_repD(4) [OF assms, of key] ks_repD(6) [OF assms, of key v e] Some
    by (auto simp: getExpire_def split: option.split)
qed

lemma dbDelete_rep:
  assumes rep: "ks_rep (k_cluster env) ks m"
  obtains ks' where "dbDelete env ks key = tret (m key \<noteq> None, ks')" "ks_rep (k_cluster env) ks' (m(key := None))"
    "dom (ks_heap ks') \<subseteq> dom (ks_heap ks)" "ks_events ks' = ks_events ks"
proof -
  let ?k1 = "ks\<lparr>ks_expires := (ks_expires ks)(key := None)\<rparr>"
  let ?k2 = "?k1\<lparr>ks_dict := (ks_dict ks)(key := None)\<rparr>"
  note D = ks_repD [OF rep]
  have view: "kdb (with_index z ?k2) = m(key := None)" for z using D(1) by (auto simp: kdb_def fun_eq_iff)
  have sub: "dom (ks_expires (with_index z ?k2)) \<subseteq> dom (ks_dict (with_index z ?k2))" for z using D(2) by auto
  show thesis
  proof (cases "m key")
    case None
    then have 0: "(ks_expires ks)(key := None) = ks_expires ks" using D(5) by auto
    then have "dbDelete env ks key = tret (False, ks)" using D(4) [of key] None by (simp add: dbDelete_def)
    moreover have "m(key := None) = m" using None by auto
    ultimately show thesis using that [of ks] rep None by simp
  next
    case (Some p)
    then have key: "ks_dict ks key \<noteq> None" using D(4) [of key] by simp
    show thesis
    proof (cases "k_cluster env")
      case False
      then have "dbDelete env ks key = tret (True, ?k2)" using key by (simp add: dbDelete_def)
      then show thesis
        using that [of ?k2] view [of "(ks_heap ks, ks_zsl ks)"] sub [of "(ks_heap ks, ks_zsl ks)"] Some False by (simp add: ks_rep_def)
    next
      case True
      have "index_ok (?k2\<lparr>ks_dict := ks_dict ks\<rparr>)" using D(3) True index_cong [of "?k2\<lparr>ks_dict := ks_dict ks\<rparr>" ks] by simp
      then obtain h zsl where h: "slotToKeyDel ?k2 key = tret (with_index (h, zsl) ?k2)" "index_ok (with_index (h, zsl) ?k2)"
        "dom h \<subseteq> dom (ks_heap ?k2)"
        using slotToKeyDel_spec [where ks = ?k2 and d = "ks_dict ks" and key = key] by auto
      have "dbDelete env ks key = tret (True, with_index (h, zsl) ?k2)" using key h(1) True by (simp add: dbDelete_def)
      moreover have "ks_rep (k_cluster env) (with_index (h, zsl) ?k2) (m(key := None))"
        unfolding ks_rep_def by (intro conjI impI view sub h(2))
      ultimately show thesis using that [of "with_index (h, zsl) ?k2"] h(3) Some by simp
    qed
  qed
qed

lemma expireIfNeeded_run:
  assumes "getExpire ks key = Inr w"
  shows "expireIfNeeded env ks key =
    (if 0 \<le> w \<and> \<not> k_loading env \<and> \<not> k_slave env \<and> w < key_now env
     then dbDelete env (kevent (NotifyExpired key) (kevent (PropagateDel key) (ks\<lparr>ks_expired := ks_expired ks + 1\<rparr>))) key
     else tret (0 \<le> w \<and> \<not> k_loading env \<and> k_slave env \<and> w < key_now env, ks))"
  using assms by (auto simp: expireIfNeeded_def key_now_def Let_def)

lemma expireIfNeeded_rep:
  assumes rep: "ks_rep (k_cluster env) ks m"
  obtains b ks' where "expireIfNeeded env ks key = tret (b, ks')" "ks_rep (k_cluster env) ks' (db_access env m key)"
    "dom (ks_heap ks') \<subseteq> dom (ks_heap ks)"
    "ks_events ks' = ks_events ks @ (if db_gone env m key then [PropagateDel key, NotifyExpired key] else [])"
proof -
  let ?w = "case m key of Some (_, Some t) \<Rightarrow> t | _ \<Rightarrow> - 1"
  note run = expireIfNeeded_run [OF getExpire_rep [OF rep, of key], of env]
  have gone: "db_gone env m key \<longleftrightarrow> 0 \<le> ?w \<and> \<not> k_loading env \<and> \<not> k_slave env \<and> ?w < key_now env"
    by (auto simp: db_gone_def split: option.split)
  show thesis
  proof (cases "db_gone env m key")
    case False
    then obtain b where "expireIfNeeded env ks key = tret (b, ks)" using run unfolding gone by (simp only: if_False)
    then show thesis using that [of b ks] rep False by (simp add: db_access_def)
  next
    case True
    let ?k = "kevent (NotifyExpired key) (kevent (PropagateDel key) (ks\<lparr>ks_expired := ks_expired ks + 1\<rparr>))"
    have "ks_rep (k_cluster env) (ks\<lparr>ks_expired := ks_expired ks + 1\<rparr>) m" using rep rep_cong [of "ks\<lparr>ks_expired := ks_expired ks + 1\<rparr>" ks] by simp
    then have "ks_rep (k_cluster env) ?k m" by simp
    then obtain ks' where d: "dbDelete env ?k key = tret (m key \<noteq> None, ks')" "ks_rep (k_cluster env) ks' (m(key := None))"
      "dom (ks_heap ks') \<subseteq> dom (ks_heap ?k)" "ks_events ks' = ks_events ?k"
      by (rule dbDelete_rep)
    have "expireIfNeeded env ks key = dbDelete env ?k key"
      unfolding run by (rule if_P) (rule True [unfolded gone])
    then show thesis using that d True by (auto simp: db_access_def kevent_def)
  qed
qed

lemma lookupKey_rep:
  assumes rep: "ks_rep on ks m"
  obtains ks' where "lookupKey env ks key = (map_option (k_touch env \<circ> fst) (m key), ks')" "ks_rep on ks' (db_touch env m key)"
    "ks_heap ks' = ks_heap ks"
proof (cases "m key")
  case None
  then show thesis using that [of ks] rep ks_repD(4) [OF rep, of key] by (simp add: lookupKey_def db_touch_def)
next
  case (Some p)
  obtain v e where p: "p = (v, e)" by (cases p)
  note D = ks_repD [OF rep]
  let ?k = "ks\<lparr>ks_dict := (ks_dict ks)(key \<mapsto> k_touch env v)\<rparr>"
  have d: "ks_dict ks key = Some v" using D(4) [of key] Some p by simp
  have "ks_rep on ?k (m(key \<mapsto> (k_touch env v, e)))"
  proof (rule repI)
    show "kdb ?k k = (m(key \<mapsto> (k_touch env v, e))) k" for k
      using D(1,4) D(6) [of key v e] Some p by (auto simp: kdb_def fun_eq_iff)
    show "dom (ks_expires ?k) \<subseteq> dom (ks_dict ?k)" using D(2) by auto
    have "dom (ks_dict ?k) = dom (ks_dict ks)" using d by auto
    then show "index_ok ?k" if on using D(3) [OF that] index_cong [of ?k ks] by simp
  qed
  then show thesis using that [of ?k] d Some p by (simp add: lookupKey_def db_touch_def)
qed

text \<open>A lookup first removes the key when its time is over.\<close>

definition db_find :: "'v kenv \<Rightarrow> 'v db \<Rightarrow> u8 list \<Rightarrow> 'v option \<times> 'v db" where
  "db_find env m key = (let m = db_access env m key in (map_option (k_touch env \<circ> fst) (m key), db_touch env m key))"

lemma lookupKeyWrite_rep:
  assumes rep: "ks_rep (k_cluster env) ks m"
  obtains ks' where "lookupKeyWrite env ks key = tret (fst (db_find env m key), ks')"
    "ks_rep (k_cluster env) ks' (snd (db_find env m key))" "dom (ks_heap ks') \<subseteq> dom (ks_heap ks)"
proof -
  obtain b k1 where e: "expireIfNeeded env ks key = tret (b, k1)" "ks_rep (k_cluster env) k1 (db_access env m key)"
    "dom (ks_heap k1) \<subseteq> dom (ks_heap ks)" by (rule expireIfNeeded_rep [OF rep])
  obtain k2 where "lookupKey env k1 key = (map_option (k_touch env \<circ> fst) (db_access env m key key), k2)"
    "ks_rep (k_cluster env) k2 (db_touch env (db_access env m key) key)" "ks_heap k2 = ks_heap k1"
    by (rule lookupKey_rep [OF e(2)])
  then show thesis using that [of k2] e by (simp add: lookupKeyWrite_def db_find_def Let_def)
qed

lemma lookupKeyRead_rep:
  assumes rep: "ks_rep (k_cluster env) ks m"
  obtains ks' where "lookupKeyRead env ks key = tret (fst (db_find env m key), ks')"
    "ks_rep (k_cluster env) ks' (snd (db_find env m key))" "dom (ks_heap ks') \<subseteq> dom (ks_heap ks)"
proof -
  obtain k1 where w: "lookupKeyWrite env ks key = tret (fst (db_find env m key), k1)"
    "ks_rep (k_cluster env) k1 (snd (db_find env m key))" "dom (ks_heap k1) \<subseteq> dom (ks_heap ks)"
    by (rule lookupKeyWrite_rep [OF rep])
  let ?k = "if fst (db_find env m key) = None then k1\<lparr>ks_misses := ks_misses k1 + 1\<rparr> else k1\<lparr>ks_hits := ks_hits k1 + 1\<rparr>"
  have "lookupKeyRead env ks key = tbind (lookupKeyWrite env ks key) (\<lambda>(val, ks).
      tret (val, if val = None then ks\<lparr>ks_misses := ks_misses ks + 1\<rparr> else ks\<lparr>ks_hits := ks_hits ks + 1\<rparr>))"
    by (auto simp: lookupKeyRead_def lookupKeyWrite_def tbind_def Let_def split_beta split: option.split sum.split)
  then have "lookupKeyRead env ks key = tret (fst (db_find env m key), ?k)" using w(1) by simp
  moreover have "ks_rep (k_cluster env) ?k (snd (db_find env m key)) = ks_rep (k_cluster env) k1 (snd (db_find env m key))"
    by (rule rep_cong) simp_all
  ultimately show thesis using that [of ?k] w(2,3) by (cases "fst (db_find env m key) = None") simp_all
qed

lemma dbAdd_rep:
  assumes rep: "ks_rep (k_cluster env) ks m" and new: "m key = None"
    and a: "1 \<le> fst a" "fst a \<le> ZSKIPLIST_MAXLEVEL" "ks_heap ks (snd a) = None" and n: "card (dom m) + 1 < 2 ^ 32"
  obtains ks' where "dbAdd env a ks key val = tret ks'" "ks_rep (k_cluster env) ks' (m(key \<mapsto> (val, None)))"
proof -
  note D = ks_repD [OF rep]
  let ?k1 = "ks\<lparr>ks_dict := (ks_dict ks)(key \<mapsto> val)\<rparr>"
  let ?k = "if k_is_list env val then kevent (ListReady key) ?k1 else ?k1"
  have k: "ks_dict ks key = None" "ks_expires ks key = None" using D(4) [of key] D(5) [OF new] new by simp_all
  have same: "ks_dict ?k = (ks_dict ks)(key \<mapsto> val)" "ks_expires ?k = ks_expires ks" "ks_heap ?k = ks_heap ks" "ks_zsl ?k = ks_zsl ks"
    by (simp_all add: kevent_def)
  have view: "kdb (with_index z ?k) = m(key \<mapsto> (val, None))" for z
    using D(1) k same by (auto simp: kdb_def fun_eq_iff)
  have sub: "dom (ks_expires (with_index z ?k)) \<subseteq> dom (ks_dict (with_index z ?k))" for z using D(2) same by auto
  show thesis
  proof (cases "k_cluster env")
    case False
    then have "dbAdd env a ks key val = tret ?k" using k(1) by (simp add: dbAdd_def Let_def)
    moreover have "ks_rep (k_cluster env) ?k (m(key \<mapsto> (val, None)))"
      using view [of "(ks_heap ?k, ks_zsl ?k)"] sub [of "(ks_heap ?k, ks_zsl ?k)"] False by (simp add: ks_rep_def)
    ultimately show thesis by (rule that)
  next
    case True
    have "(ks_dict ks)(key := None) = ks_dict ks" using k(1) by auto
    then have "index_ok (?k\<lparr>ks_dict := (ks_dict ?k)(key := None)\<rparr>) = index_ok ks" by (intro index_cong) (simp_all add: same)
    then have ok: "index_ok (?k\<lparr>ks_dict := (ks_dict ?k)(key := None)\<rparr>)" using D(3) [OF True] by simp
    have "finite (dom (ks_dict ks))" by (rule index_finite [OF D(3) [OF True]])
    then have "card (dom (ks_dict ?k)) < 2 ^ 32" using n D(7) k(1) same(1) by (simp add: card_insert_if domIff)
    moreover have "ks_dict ?k key \<noteq> None" "ks_heap ?k (snd a) = None" using same a(3) by simp_all
    ultimately obtain h zsl where h: "slotToKeyAdd a ?k key = tret (with_index (h, zsl) ?k)" "index_ok (with_index (h, zsl) ?k)"
      using slotToKeyAdd_spec [OF ok _ a(1,2)] by auto
    have "dbAdd env a ks key val = tret (with_index (h, zsl) ?k)" using k(1) h(1) True by (simp add: dbAdd_def Let_def)
    moreover have "ks_rep (k_cluster env) (with_index (h, zsl) ?k) (m(key \<mapsto> (val, None)))"
      unfolding ks_rep_def by (intro conjI impI view sub h(2))
    ultimately show thesis by (rule that)
  qed
qed

lemma dbOverwrite_rep:
  assumes rep: "ks_rep on ks m" and old: "m key = Some (v, e)"
  obtains ks' where "dbOverwrite ks key val = Inr ks'" "ks_rep on ks' (m(key \<mapsto> (val, e)))"
proof -
  note D = ks_repD [OF rep]
  have k: "ks_dict ks key = Some v" "ks_expires ks key = e" using D(4) [of key] D(6) [OF old] old by simp_all
  let ?k = "ks\<lparr>ks_dict := (ks_dict ks)(key \<mapsto> val)\<rparr>"
  have "ks_rep on ?k (m(key \<mapsto> (val, e)))"
  proof (rule repI)
    show "kdb ?k j = (m(key \<mapsto> (val, e))) j" for j using D(1) k by (auto simp: kdb_def fun_eq_iff)
    show "dom (ks_expires ?k) \<subseteq> dom (ks_dict ?k)" using D(2) by auto
    have "dom (ks_dict ?k) = dom (ks_dict ks)" using k by auto
    then show "index_ok ?k" if on using D(3) [OF that] index_cong [of ?k ks] by simp
  qed
  then show thesis using that [of ?k] k by (simp add: dbOverwrite_def)
qed

lemma set_expires_rep:
  assumes rep: "ks_rep on ks m" and old: "m key = Some (v, e)"
  shows "ks_rep on (ks\<lparr>ks_expires := (ks_expires ks)(key := t)\<rparr>) (m(key \<mapsto> (v, t)))"
proof (rule repI)
  note D = ks_repD [OF rep]
  let ?k = "ks\<lparr>ks_expires := (ks_expires ks)(key := t)\<rparr>"
  have k: "ks_dict ks key = Some v" using D(4) [of key] old by simp
  show "kdb ?k j = (m(key \<mapsto> (v, t))) j" for j using D(1) k by (auto simp: kdb_def fun_eq_iff)
  show "dom (ks_expires ?k) \<subseteq> dom (ks_dict ?k)" using D(2) k by (auto split: if_splits)
  show "index_ok ?k" if on using D(3) [OF that] index_cong [of ?k ks] by simp
qed

lemma removeExpire_rep:
  assumes rep: "ks_rep on ks m" and old: "m key = Some (v, e)"
  obtains ks' where "removeExpire ks key = Inr (e \<noteq> None, ks')" "ks_rep on ks' (m(key \<mapsto> (v, None)))" "ks_heap ks' = ks_heap ks"
proof -
  note D = ks_repD [OF rep]
  have "ks_dict ks key = Some v" "ks_expires ks key = e" using D(4) [of key] D(6) [OF old] old by simp_all
  then show thesis
    using that [of "ks\<lparr>ks_expires := (ks_expires ks)(key := None)\<rparr>"] set_expires_rep [OF rep old, of None] by (simp add: removeExpire_def)
qed

lemma setExpire_rep:
  assumes rep: "ks_rep on ks m" and old: "m key = Some (v, e)"
  obtains ks' where "setExpire ks key t = Inr ks'" "ks_rep on ks' (m(key \<mapsto> (v, Some t)))" "ks_heap ks' = ks_heap ks"
proof -
  note D = ks_repD [OF rep]
  have "ks_dict ks key = Some v" using D(4) [of key] old by simp
  then show thesis
    using that [of "ks\<lparr>ks_expires := (ks_expires ks)(key \<mapsto> t)\<rparr>"] set_expires_rep [OF rep old, of "Some t"] by (simp add: setExpire_def)
qed

section \<open>Operations and their meaning\<close>

text \<open>
  \<open>a\<close> and \<open>x\<close> are the level and the addresses of new nodes of the index;
  \<open>now\<close> is a second reading of the clock.
\<close>

datatype 'v kop =
    KRead "u8 list" | KWrite "u8 list" | KSet "nat \<times> zptr" "u8 list" 'v | KDel "u8 list list" | KExists "u8 list list"
  | KRename "nat \<times> zptr" "u8 list" "u8 list" bool | KExpire int "u8 list" int int bool | KTtl int "u8 list" bool
  | KPersist "u8 list" | KFlush zptr | KDelSlot int | KCountSlot int

datatype 'v kans = KReply kreply | KValue "'v option" | KDone | KCount u32

definition as_reply :: "('r \<Rightarrow> 'v kans) \<Rightarrow> ('r \<times> 'v keyspace) res option \<Rightarrow> ('v kans \<times> 'v keyspace) res option" where
  "as_reply f t = tbind t (\<lambda>(r, ks). tret (f r, ks))"

fun kstep :: "'v keyspace \<Rightarrow> 'v kenv \<times> 'v kop \<Rightarrow> ('v kans \<times> 'v keyspace) res option" where
  "kstep ks (env, KRead key) = as_reply KValue (lookupKeyRead env ks key)"
| "kstep ks (env, KWrite key) = as_reply KValue (lookupKeyWrite env ks key)"
| "kstep ks (env, KSet a key val) = tbind (setKey env a ks key val) (\<lambda>ks. tret (KDone, ks))"
| "kstep ks (env, KDel keys) = as_reply KReply (delCommand env ks keys)"
| "kstep ks (env, KExists keys) = as_reply KReply (existsCommand env ks keys)"
| "kstep ks (env, KRename a src dst nx) = as_reply KReply (renameGenericCommand env a ks src dst nx)"
| "kstep ks (env, KExpire now key time base sec) = as_reply KReply (expireGenericCommand env now ks key time base sec)"
| "kstep ks (env, KTtl now key ms) = as_reply KReply (ttlGenericCommand env now ks key ms)"
| "kstep ks (env, KPersist key) = as_reply KReply (persistCommand ks key)"
| "kstep ks (env, KFlush x) = tbind (flushdbCommand env x ks) (\<lambda>ks. tret (KDone, ks))"
| "kstep ks (env, KDelSlot s) = as_reply (\<lambda>n. KReply (KInt (uint n))) (delKeysInSlot env ks s)"
| "kstep ks (env, KCountSlot s) = tbind (countKeysInSlot ks s) (\<lambda>n. tret (KCount n, ks))"

fun del_spec :: "'v kenv \<Rightarrow> 'v db \<Rightarrow> u8 list list \<Rightarrow> int \<times> 'v db" where
  "del_spec env m [] = (0, m)"
| "del_spec env m (k # ks) =
     (let m = db_access env m k; (n, m') = del_spec env (m(k := None)) ks in (if m k = None then n else n + 1, m'))"

fun exists_spec :: "'v kenv \<Rightarrow> 'v db \<Rightarrow> u8 list list \<Rightarrow> int \<times> 'v db" where
  "exists_spec env m [] = (0, m)"
| "exists_spec env m (k # ks) =
     (let m = db_access env m k; (n, m') = exists_spec env m ks in (if m k = None then n else n + 1, m'))"

text \<open>An expire time of \<open>- 1\<close> reads as none.\<close>

definition real_expire :: "int option \<Rightarrow> int option" where
  "real_expire e = (if e = Some (- 1) then None else e)"

definition rename_spec :: "'v kenv \<Rightarrow> 'v db \<Rightarrow> u8 list \<Rightarrow> u8 list \<Rightarrow> bool \<Rightarrow> kreply \<times> 'v db" where
  "rename_spec env m src dst nx =
     (if src = dst then (KSameObject, m)
      else case db_find env m src of
        (None, m) \<Rightarrow> (KNoKey, m)
      | (Some v, m) \<Rightarrow>
          let e = snd (the (m src)); (old, m) = db_find env m dst in
          if old \<noteq> None \<and> nx then (KInt 0, m)
          else (if nx then KInt 1 else KOk, m(dst \<mapsto> (v, real_expire e), src := None)))"

definition expire_when :: "int \<Rightarrow> int \<Rightarrow> bool \<Rightarrow> int" where
  "expire_when time base sec = (if sec then time * 1000 else time) + base"

definition expire_spec :: "'v kenv \<Rightarrow> int \<Rightarrow> 'v db \<Rightarrow> u8 list \<Rightarrow> int \<Rightarrow> kreply \<times> 'v db" where
  "expire_spec env now m key when =
     (case db_find env m key of
        (None, m) \<Rightarrow> (KInt 0, m)
      | (Some v, m) \<Rightarrow>
          (KInt 1, if when \<le> now \<and> \<not> k_loading env \<and> \<not> k_slave env then m(key := None) else m(key \<mapsto> (v, Some when))))"

definition ttl_spec :: "'v kenv \<Rightarrow> int \<Rightarrow> 'v db \<Rightarrow> u8 list \<Rightarrow> bool \<Rightarrow> kreply \<times> 'v db" where
  "ttl_spec env now m key ms =
     (case db_find env m key of
        (None, m) \<Rightarrow> (KInt (- 2), m)
      | (Some v, m) \<Rightarrow>
          (case real_expire (snd (the (m key))) of
             None \<Rightarrow> (KInt (- 1), m)
           | Some t \<Rightarrow> (KInt (if ms then max 0 (t - now) else (max 0 (t - now) + 500) div 1000), m)))"

definition persist_spec :: "'v db \<Rightarrow> u8 list \<Rightarrow> kreply \<times> 'v db" where
  "persist_spec m key =
     (case m key of
        None \<Rightarrow> (KInt 0, m)
      | Some (v, e) \<Rightarrow> (KInt (if e = None then 0 else 1), m(key \<mapsto> (v, None))))"

fun kspec :: "'v db \<Rightarrow> 'v kenv \<times> 'v kop \<Rightarrow> 'v kans \<times> 'v db" where
  "kspec m (env, KRead key) = (let (v, m) = db_find env m key in (KValue v, m))"
| "kspec m (env, KWrite key) = (let (v, m) = db_find env m key in (KValue v, m))"
| "kspec m (env, KSet a key val) = (KDone, (db_access env m key)(key \<mapsto> (val, None)))"
| "kspec m (env, KDel keys) = (let (n, m) = del_spec env m keys in (KReply (KInt n), m))"
| "kspec m (env, KExists keys) = (let (n, m) = exists_spec env m keys in (KReply (KInt n), m))"
| "kspec m (env, KRename a src dst nx) = (let (r, m) = rename_spec env m src dst nx in (KReply r, m))"
| "kspec m (env, KExpire now key time base sec) = (let (r, m) = expire_spec env now m key (expire_when time base sec) in (KReply r, m))"
| "kspec m (env, KTtl now key ms) = (let (r, m) = ttl_spec env now m key ms in (KReply r, m))"
| "kspec m (env, KPersist key) = (let (r, m) = persist_spec m key in (KReply r, m))"
| "kspec m (env, KFlush x) = (KDone, Map.empty)"
| "kspec m (env, KDelSlot s) = (KReply (KInt (int (card (slot_keys m s)))), m |` (- slot_keys m s))"
| "kspec m (env, KCountSlot s) = (KCount (of_nat (card (slot_keys m s))), m)"

text \<open>
  What a client may ask for: new nodes are fresh and of a possible level, the
  database stays below \<open>2 ^ 32\<close> keys, the arithmetic on times does not
  overflow, a command has fewer than \<open>2 ^ 31\<close> arguments, and the index is asked
  for only in cluster mode, in a database of fewer than \<open>2 ^ 31\<close> keys, as its
  functions count in \<open>int\<close>.
\<close>

definition fresh_node :: "nat \<times> zptr \<Rightarrow> 'v keyspace \<Rightarrow> 'v db \<Rightarrow> bool" where
  "fresh_node a ks m \<longleftrightarrow> 1 \<le> fst a \<and> fst a \<le> ZSKIPLIST_MAXLEVEL \<and> ks_heap ks (snd a) = None \<and> finite (dom m) \<and> card (dom m) + 1 < 2 ^ 32"

definition fits64 :: "int \<Rightarrow> bool" where
  "fits64 x \<longleftrightarrow> - (2 ^ 63) \<le> x \<and> x < 2 ^ 63"

fun kop_ok :: "bool \<Rightarrow> 'v keyspace \<Rightarrow> 'v db \<Rightarrow> 'v kenv \<times> 'v kop \<Rightarrow> bool" where
  "kop_ok on ks m (env, op) \<longleftrightarrow> k_cluster env = on \<and>
     (case op of
        KSet a _ _ \<Rightarrow> fresh_node a ks m
      | KRename a _ _ _ \<Rightarrow> fresh_node a ks m
      | KExpire _ _ time base sec \<Rightarrow> fits64 (if sec then time * 1000 else time) \<and> fits64 (expire_when time base sec)
      | KTtl now key _ \<Rightarrow> (\<forall>v t. m key = Some (v, Some t) \<longrightarrow> fits64 (t - now) \<and> fits64 (t - now + 500))
      | KFlush x \<Rightarrow> ks_heap ks x = None
      | KDel keys \<Rightarrow> length keys < 2 ^ 31
      | KDelSlot _ \<Rightarrow> on \<and> card (dom m) < 2 ^ 31
      | KCountSlot _ \<Rightarrow> on \<and> card (dom m) < 2 ^ 31
      | _ \<Rightarrow> True)"

section \<open>Each operation does what it means\<close>

lemma fresh_dom:
  assumes "fresh_node a ks m" and "dom (ks_heap ks') \<subseteq> dom (ks_heap ks)" and "dom m' \<subseteq> dom m"
  shows "fresh_node a ks' m'"
  using assms card_mono [of "dom m" "dom m'"] finite_subset [of "dom m'" "dom m"] by (auto simp: fresh_node_def)

lemma access_dom: "dom (db_access env m k) \<subseteq> dom m"
  by (auto simp: db_access_def)

lemma touch_dom [simp]: "dom (db_touch env m k) = dom m"
  by (auto simp: db_touch_def split: option.split)

lemma find_dom: "dom (snd (db_find env m k)) \<subseteq> dom m"
  using access_dom [of env m k] by (simp add: db_find_def Let_def)

lemma touch_upd [simp]: "(db_touch env m k)(k := x) = m(k := x)"
  by (auto simp: db_touch_def split: option.split)

lemma find_cases:
  obtains "db_find env m k = (None, db_access env m k)" "db_access env m k k = None"
  | v e where "db_find env m k = (Some (k_touch env v), (db_access env m k)(k \<mapsto> (k_touch env v, e)))" "m k = Some (v, e)"
    "db_access env m k k = Some (v, e)" "db_access env m k = m"
proof (cases "db_access env m k k")
  case (Some p)
  obtain v e where p: "p = (v, e)" by (cases p)
  have "db_access env m k = m" using Some by (auto simp: db_access_def)
  then show thesis using that(2) [of v e] Some p by (simp add: db_find_def db_touch_def)
qed (use that(1) in \<open>simp add: db_find_def db_touch_def\<close>)

lemma setKey_rep:
  assumes rep: "ks_rep (k_cluster env) ks m" and a: "fresh_node a ks m"
  obtains ks' where "setKey env a ks key val = tret ks'" "ks_rep (k_cluster env) ks' ((db_access env m key)(key \<mapsto> (val, None)))"
proof -
  obtain k1 where w: "lookupKeyWrite env ks key = tret (fst (db_find env m key), k1)"
    "ks_rep (k_cluster env) k1 (snd (db_find env m key))" "dom (ks_heap k1) \<subseteq> dom (ks_heap ks)"
    by (rule lookupKeyWrite_rep [OF rep])
  have a1: "fresh_node a k1 (snd (db_find env m key))" by (rule fresh_dom [OF a w(3) find_dom])
  obtain k2 where k2: "(if fst (db_find env m key) = None then dbAdd env a k1 key val else Some (dbOverwrite k1 key val)) = tret k2"
    "\<exists>e. ks_rep (k_cluster env) k2 ((db_access env m key)(key \<mapsto> (val, e)))"
  proof (cases rule: find_cases [of env m key])
    case 1
    then have "ks_rep (k_cluster env) k1 (db_access env m key)" using w(2) by simp
    then obtain k where "dbAdd env a k1 key val = tret k" "ks_rep (k_cluster env) k ((db_access env m key)(key \<mapsto> (val, None)))"
      using dbAdd_rep [of env k1 "db_access env m key" key a val] a1 1 unfolding fresh_node_def by auto
    then show thesis using that [of k] 1 by auto
  next
    case (2 v e)
    let ?m = "(db_access env m key)(key \<mapsto> (k_touch env v, e))"
    have r: "ks_rep (k_cluster env) k1 ?m" using w(2) 2 by simp
    have m: "?m key = Some (k_touch env v, e)" by simp
    obtain k where "dbOverwrite k1 key val = Inr k" "ks_rep (k_cluster env) k (?m(key \<mapsto> (val, e)))"
      by (rule dbOverwrite_rep [OF r m])
    then show thesis using that [of k] 2 by auto
  qed
  then obtain e where e: "ks_rep (k_cluster env) k2 ((db_access env m key)(key \<mapsto> (val, e)))" by blast
  have at: "((db_access env m key)(key \<mapsto> (val, e))) key = Some (val, e)" by simp
  obtain k3 where "removeExpire k2 key = Inr (e \<noteq> None, k3)" "ks_rep (k_cluster env) k3 ((db_access env m key)(key \<mapsto> (val, e), key \<mapsto> (val, None)))"
    by (rule removeExpire_rep [OF e at])
  then show thesis using that [of "kevent (Modified key) k3"] w(1) k2(1) by (simp add: setKey_def)
qed

lemma del_keys_rep:
  assumes "ks_rep (k_cluster env) ks m" and "0 \<le> n" and "n + int (length keys) < 2 ^ 31"
  shows "\<exists>ks'. del_keys env ks keys n = tret (KInt (n + fst (del_spec env m keys)), ks') \<and>
    ks_rep (k_cluster env) ks' (snd (del_spec env m keys))"
  using assms
proof (induction keys arbitrary: ks m n)
  case (Cons key keys)
  let ?m = "db_access env m key"
  obtain b k1 where e: "expireIfNeeded env ks key = tret (b, k1)" "ks_rep (k_cluster env) k1 ?m"
    by (rule expireIfNeeded_rep [OF Cons.prems(1)])
  obtain k2 where d: "dbDelete env k1 key = tret (?m key \<noteq> None, k2)" "ks_rep (k_cluster env) k2 (?m(key := None))"
    by (rule dbDelete_rep [OF e(2)])
  let ?k = "kevent (NotifyDel key) (kevent (Modified key) k2)"
  define m' where "m' = ?m(key := None)"
  have k: "ks_rep (k_cluster env) k2 m'" using d(2) by (simp add: m'_def)
  then have "ks_rep (k_cluster env) ?k m'" by simp
  moreover have "s32 (n + 1) = Inr (n + 1)" using Cons.prems(2,3) by (intro s32_fits) auto
  ultimately show ?case using Cons.IH [OF k, of n] Cons.IH [of ?k m' "n + 1"] Cons.prems(2,3)
    by (cases "?m key = None") (auto simp: e d Let_def split_beta add.assoc simp flip: m'_def)
qed simp

lemma exists_keys_rep:
  assumes "ks_rep (k_cluster env) ks m"
  shows "\<exists>ks'. exists_keys env ks keys n = tret (KInt (n + fst (exists_spec env m keys)), ks') \<and>
    ks_rep (k_cluster env) ks' (snd (exists_spec env m keys))"
  using assms
proof (induction keys arbitrary: ks m n)
  case (Cons key keys)
  let ?m = "db_access env m key"
  obtain b k1 where e: "expireIfNeeded env ks key = tret (b, k1)" "ks_rep (k_cluster env) k1 ?m"
    by (rule expireIfNeeded_rep [OF Cons.prems])
  have "dbExists k1 key \<longleftrightarrow> ?m key \<noteq> None" using ks_repD(4) [OF e(2), of key] by (simp add: dbExists_def)
  then show ?case using Cons.IH [OF e(2), of n] Cons.IH [OF e(2), of "n + 1"]
    by (cases "?m key = None") (auto simp: e Let_def split_beta add.assoc)
qed simp

lemma persist_rep:
  assumes "ks_rep on ks m"
  obtains ks' where "persistCommand ks key = tret (fst (persist_spec m key), ks')" "ks_rep on ks' (snd (persist_spec m key))"
proof (cases "m key")
  case None
  then show thesis using that [of ks] assms ks_repD(4) [OF assms, of key] by (simp add: persistCommand_def persist_spec_def)
next
  case (Some p)
  obtain v e where p: "m key = Some (v, e)" using Some by (cases p) simp
  obtain ks' where "removeExpire ks key = Inr (e \<noteq> None, ks')" "ks_rep on ks' (m(key \<mapsto> (v, None)))"
    by (rule removeExpire_rep [OF assms p])
  then show thesis using that [of ks'] p ks_repD(4) [OF assms, of key] by (simp add: persistCommand_def persist_spec_def)
qed

lemma flush_rep:
  assumes rep: "ks_rep (k_cluster env) ks m" and x: "ks_heap ks x = None"
  obtains ks' where "flushdbCommand env x ks = tret ks'" "ks_rep (k_cluster env) ks' Map.empty"
proof -
  let ?k = "(kevent FlushedDb ks)\<lparr>ks_dict := Map.empty, ks_expires := Map.empty\<rparr>"
  have same: "ks_heap ?k = ks_heap ks" "ks_zsl ?k = ks_zsl ks" by (simp_all add: kevent_def)
  show thesis
  proof (cases "k_cluster env")
    case False
    then show thesis using that [of ?k] by (simp add: flushdbCommand_def ks_rep_def kdb_def fun_eq_iff)
  next
    case True
    have "index_ok (?k\<lparr>ks_dict := ks_dict ks\<rparr>)"
      using ks_repD(3) [OF rep] True index_cong [of "?k\<lparr>ks_dict := ks_dict ks\<rparr>" ks] same by simp
    then obtain h zsl where h: "slotToKeyFlush x ?k = tret (with_index (h, zsl) ?k)" "index_ok (with_index (h, zsl) ?k)"
      using slotToKeyFlush_spec [where ks = ?k and d = "ks_dict ks" and x = x] x same by auto
    then show thesis using that [of "with_index (h, zsl) ?k"] True by (simp add: flushdbCommand_def ks_rep_def kdb_def fun_eq_iff)
  qed
qed

lemma drop_keys_view: "kdb (with_index z (drop_keys K ks)) = kdb ks |` (- K)"
  by (auto simp: kdb_def drop_keys_def restrict_map_def fun_eq_iff)

lemma slot_keys_kdb: "slot_keys (kdb ks) s = slot_keys (ks_dict ks) s"
  by (simp add: slot_keys_def)

lemma slot_keys_small:
  assumes "ks_rep True ks m" and "card (dom m) < 2 ^ 31"
  shows "card (dom (ks_dict ks)) < 2 ^ 31" and "card (slot_keys m s) < 2 ^ 31"
proof -
  note D = ks_repD [OF assms(1)]
  have dom: "dom (ks_dict ks) = dom m" using D(1) kdb_dom [of ks] by simp
  then show "card (dom (ks_dict ks)) < 2 ^ 31" using assms(2) by simp
  have "finite (dom m)" using index_finite(1) [OF D(3) [OF TrueI]] dom by simp
  moreover have "slot_keys m s \<subseteq> dom m" by (auto simp: slot_keys_def)
  ultimately show "card (slot_keys m s) < 2 ^ 31" using card_mono le_less_trans assms(2) by blast
qed

lemma delKeysInSlot_rep:
  assumes rep: "ks_rep True ks m" and on: "k_cluster env" and small: "card (dom m) < 2 ^ 31"
  obtains ks' where "delKeysInSlot env ks s = tret (of_nat (card (slot_keys m s)), ks')" "ks_rep True ks' (m |` (- slot_keys m s))"
proof -
  note D = ks_repD [OF rep]
  have K: "slot_keys m s = slot_keys (ks_dict ks) s" using slot_keys_kdb [of ks s] D(1) by simp
  obtain z where z: "delKeysInSlot env ks s = tret (of_nat (card (slot_keys m s)), with_index z (drop_keys (slot_keys m s) ks))"
    "index_ok (with_index z (drop_keys (slot_keys m s) ks))"
    using delKeysInSlot_spec [OF D(3) [OF TrueI] on, of s] slot_keys_small(2) [OF rep small, of s] K by auto
  have "ks_rep True (with_index z (drop_keys (slot_keys m s) ks)) (m |` (- slot_keys m s))"
    unfolding ks_rep_def using drop_keys_view D(1) z(2) D(2) by (auto simp: drop_keys_def)
  then show thesis by (rule that [OF z(1)])
qed

lemma rename_tail_rep:
  assumes rep: "ks_rep (k_cluster env) ks m" and a: "fresh_node a ks m" and old: "old = None \<longleftrightarrow> m dst = None"
  obtains ks' where
    "tbind (if old \<noteq> None then tbind (dbDelete env ks dst) (\<lambda>(_, ks). tret ks) else tret ks) (\<lambda>ks.
       tbind (dbAdd env a ks dst v) (\<lambda>ks.
       tbind (if (case e of Some t \<Rightarrow> t | None \<Rightarrow> - 1) \<noteq> - 1 then Some (setExpire ks dst (case e of Some t \<Rightarrow> t | None \<Rightarrow> - 1)) else tret ks) (\<lambda>ks.
       tbind (dbDelete env ks src) (\<lambda>(_, ks). tret (r, f ks))))) = tret (r, f ks')"
    "ks_rep (k_cluster env) ks' (m(dst \<mapsto> (v, real_expire e), src := None))"
proof -
  obtain k1 where k1: "(if old \<noteq> None then tbind (dbDelete env ks dst) (\<lambda>(_, ks). tret ks) else tret ks) = tret k1"
    "ks_rep (k_cluster env) k1 (m(dst := None))" "dom (ks_heap k1) \<subseteq> dom (ks_heap ks)"
  proof (cases "old = None")
    case True
    then have "m(dst := None) = m" using old by auto
    then show thesis using that [of ks] True rep by simp
  next
    case False
    obtain k where "dbDelete env ks dst = tret (m dst \<noteq> None, k)" "ks_rep (k_cluster env) k (m(dst := None))"
      "dom (ks_heap k) \<subseteq> dom (ks_heap ks)" by (rule dbDelete_rep [OF rep])
    then show thesis using that [of k] False by simp
  qed
  have "dom (m(dst := None)) \<subseteq> dom m" by auto
  then have "fresh_node a k1 (m(dst := None))" by (rule fresh_dom [OF a k1(3)])
  then have f: "1 \<le> fst a" "fst a \<le> ZSKIPLIST_MAXLEVEL" "ks_heap k1 (snd a) = None" "card (dom (m(dst := None))) + 1 < 2 ^ 32"
    unfolding fresh_node_def by blast+
  have none: "(m(dst := None)) dst = None" by simp
  obtain k2 where k2: "dbAdd env a k1 dst v = tret k2" "ks_rep (k_cluster env) k2 (m(dst := None, dst \<mapsto> (v, None)))"
    by (rule dbAdd_rep [OF k1(2) none f])
  let ?w = "case e of Some t \<Rightarrow> t | None \<Rightarrow> - 1"
  have r2: "ks_rep (k_cluster env) k2 (m(dst \<mapsto> (v, None)))" using k2(2) by simp
  have at: "(m(dst \<mapsto> (v, None))) dst = Some (v, None)" by simp
  obtain k3 where k3: "(if ?w \<noteq> - 1 then Some (setExpire k2 dst ?w) else tret k2) = tret k3"
    "ks_rep (k_cluster env) k3 (m(dst \<mapsto> (v, real_expire e)))"
  proof (cases "?w = - 1")
    case True
    then have "real_expire e = None" by (auto simp: real_expire_def split: option.splits)
    then show thesis using that [of k2] True r2 by simp
  next
    case False
    then have e: "real_expire e = Some ?w" by (auto simp: real_expire_def split: option.splits)
    obtain k where "setExpire k2 dst ?w = Inr k" "ks_rep (k_cluster env) k (m(dst \<mapsto> (v, None), dst \<mapsto> (v, Some ?w)))"
      by (rule setExpire_rep [OF r2 at])
    then show thesis using that [of k] False e by simp
  qed
  obtain b k4 where k4: "dbDelete env k3 src = tret (b, k4)" "ks_rep (k_cluster env) k4 (m(dst \<mapsto> (v, real_expire e), src := None))"
    using dbDelete_rep [OF k3(2), of src] by metis
  show thesis using that [of k4] by (simp only: k1(1) k2(1) k3(1) k4 tbind_simps prod.case)
qed

lemma rename_rep:
  assumes rep: "ks_rep (k_cluster env) ks m" and a: "fresh_node a ks m"
  shows "\<exists>ks'. renameGenericCommand env a ks src dst nx = tret (fst (rename_spec env m src dst nx), ks') \<and>
    ks_rep (k_cluster env) ks' (snd (rename_spec env m src dst nx))"
proof (cases "src = dst")
  case True
  then show ?thesis using rep by (simp add: renameGenericCommand_def rename_spec_def)
next
  case ne: False
  obtain k1 where k1: "lookupKeyWrite env ks src = tret (fst (db_find env m src), k1)"
    "ks_rep (k_cluster env) k1 (snd (db_find env m src))" "dom (ks_heap k1) \<subseteq> dom (ks_heap ks)"
    by (rule lookupKeyWrite_rep [OF rep])
  show ?thesis
  proof (cases rule: find_cases [of env m src])
    case 1
    then show ?thesis using ne k1 by (simp add: renameGenericCommand_def rename_spec_def)
  next
    case (2 v e)
    define m1 where "m1 = (db_access env m src)(src \<mapsto> (k_touch env v, e))"
    have find: "db_find env m src = (Some (k_touch env v), m1)" using 2 by (simp add: m1_def)
    have r1: "ks_rep (k_cluster env) k1 m1" using k1(2) find by simp
    have m1: "m1 src = Some (k_touch env v, e)" by (simp add: m1_def)
    have ge: "getExpire k1 src = Inr (case e of Some t \<Rightarrow> t | None \<Rightarrow> - 1)"
      using getExpire_rep [OF r1, of src] m1 by (simp split: option.split)
    obtain k2 where k2: "lookupKeyWrite env k1 dst = tret (fst (db_find env m1 dst), k2)"
      "ks_rep (k_cluster env) k2 (snd (db_find env m1 dst))" "dom (ks_heap k2) \<subseteq> dom (ks_heap k1)"
      by (rule lookupKeyWrite_rep [OF r1])
    obtain old m2 where om: "db_find env m1 dst = (old, m2)" by (cases "db_find env m1 dst")
    have old: "old = None \<longleftrightarrow> m2 dst = None" by (cases rule: find_cases [of env m1 dst]) (use om in auto)
    have "dom m1 \<subseteq> dom m" "dom m2 \<subseteq> dom m1" using find_dom [of env m src] find_dom [of env m1 dst] find om by simp_all
    then have a2: "fresh_node a k2 m2" by (intro fresh_dom [OF a]) (use k1(3) k2(3) in blast)+
    have r2: "ks_rep (k_cluster env) k2 m2" using k2(2) om by simp
    note tail = rename_tail_rep [OF r2 a2 old]
    show ?thesis
    proof (cases "old \<noteq> None \<and> nx")
      case True
      then show ?thesis using ne k1(1) k2(1) r2 find om ge m1 by (auto simp: renameGenericCommand_def rename_spec_def)
    next
      case False
      let ?f = "\<lambda>ks. kevent (NotifyRenameTo dst) (kevent (NotifyRenameFrom src) (kevent (Modified dst) (kevent (Modified src) ks)))"
      obtain k3 where k3: "tbind (if old \<noteq> None then tbind (dbDelete env k2 dst) (\<lambda>(_, ks). tret ks) else tret k2) (\<lambda>ks.
       tbind (dbAdd env a ks dst (k_touch env v)) (\<lambda>ks.
       tbind (if (case e of Some t \<Rightarrow> t | None \<Rightarrow> - 1) \<noteq> - 1 then Some (setExpire ks dst (case e of Some t \<Rightarrow> t | None \<Rightarrow> - 1)) else tret ks) (\<lambda>ks.
       tbind (dbDelete env ks src) (\<lambda>(_, ks). tret (if nx then KInt 1 else KOk, ?f ks))))) = tret (if nx then KInt 1 else KOk, ?f k3)"
       "ks_rep (k_cluster env) k3 (m2(dst \<mapsto> (k_touch env v, real_expire e), src := None))"
        by (rule tail [where v = "k_touch env v" and e = e and src = src and r = "if nx then KInt 1 else KOk" and f = ?f])
      have "renameGenericCommand env a ks src dst nx = tret (if nx then KInt 1 else KOk, ?f k3)"
        unfolding renameGenericCommand_def k1(1) tbind_simps prod.case find fst_conv option.case ge k2(1) om if_not_P [OF ne] if_not_P [OF False]
        by (rule k3(1))
      moreover have "rename_spec env m src dst nx = (if nx then KInt 1 else KOk, m2(dst \<mapsto> (k_touch env v, real_expire e), src := None))"
        using ne find om m1 False by (simp add: rename_spec_def)
      moreover have "ks_rep (k_cluster env) (?f k3) (m2(dst \<mapsto> (k_touch env v, real_expire e), src := None))" using k3(2) by simp
      ultimately show ?thesis by (intro exI [of _ "?f k3"]) (simp only: fst_conv snd_conv simp_thms)
    qed
  qed
qed

lemma s64_fits: "fits64 x \<Longrightarrow> s64 x = Inr x" "\<not> fits64 x \<Longrightarrow> s64 x = Inl SignedOverflow"
  by (auto simp: s64_def fits64_def)

lemma expire_rep:
  assumes rep: "ks_rep (k_cluster env) ks m" and f: "fits64 (if sec then time * 1000 else time)" "fits64 (expire_when time base sec)"
  shows "\<exists>ks'. expireGenericCommand env now ks key time base sec = tret (fst (expire_spec env now m key (expire_when time base sec)), ks') \<and>
    ks_rep (k_cluster env) ks' (snd (expire_spec env now m key (expire_when time base sec)))"
proof -
  define w where "w = expire_when time base sec"
  obtain k1 where k1: "lookupKeyRead env ks key = tret (fst (db_find env m key), k1)" "ks_rep (k_cluster env) k1 (snd (db_find env m key))"
    by (rule lookupKeyRead_rep [OF rep])
  have "(if sec then s64 (time * 1000) else Inr time) = Inr (if sec then time * 1000 else time)"
    using f(1) by (simp add: s64_fits split: if_splits)
  moreover have "s64 ((if sec then time * 1000 else time) + base) = Inr w"
    using f(2) by (simp add: s64_fits expire_when_def w_def)
  ultimately have run: "expireGenericCommand env now ks key time base sec =
    (if fst (db_find env m key) = None then tret (KInt 0, k1)
     else if w \<le> now \<and> \<not> k_loading env \<and> \<not> k_slave env then
       tbind (dbDelete env k1 key) (\<lambda>(b, ks).
       if b then tret (KInt 1, kevent (NotifyDel key) (kevent (Modified key) (kevent (RewriteDel key) ks))) else Some (Inl AssertFailed))
     else
       tbind (Some (setExpire k1 key w)) (\<lambda>ks.
       tret (KInt 1, kevent (NotifyExpire key) (kevent (Modified key) ks))))"
    by (simp add: expireGenericCommand_def k1(1))
  show ?thesis
  proof (cases rule: find_cases [of env m key])
    case 1
    then show ?thesis using run k1(2) by (simp add: expire_spec_def)
  next
    case (2 v e)
    define m1 where "m1 = (db_access env m key)(key \<mapsto> (k_touch env v, e))"
    have find: "db_find env m key = (Some (k_touch env v), m1)" using 2 by (simp add: m1_def)
    have r1: "ks_rep (k_cluster env) k1 m1" using k1(2) find by simp
    have m1: "m1 key = Some (k_touch env v, e)" by (simp add: m1_def)
    show ?thesis
    proof (cases "w \<le> now \<and> \<not> k_loading env \<and> \<not> k_slave env")
      case True
      obtain k2 where "dbDelete env k1 key = tret (m1 key \<noteq> None, k2)" "ks_rep (k_cluster env) k2 (m1(key := None))"
        by (rule dbDelete_rep [OF r1])
      then show ?thesis using run True find m1 by (simp add: expire_spec_def w_def)
    next
      case False
      obtain k2 where "setExpire k1 key w = Inr k2" "ks_rep (k_cluster env) k2 (m1(key \<mapsto> (k_touch env v, Some w)))"
        by (rule setExpire_rep [OF r1 m1])
      then show ?thesis using run False find by (auto simp: expire_spec_def w_def)
    qed
  qed
qed

lemma find_expire:
  assumes "db_find env m key = (Some v, m')"
  obtains u e where "m key = Some (u, e)" "m' key = Some (v, e)"
  by (cases rule: find_cases [of env m key]) (use assms that in auto)

lemma ttl_rep:
  assumes rep: "ks_rep (k_cluster env) ks m"
    and f: "\<And>v t. m key = Some (v, Some t) \<Longrightarrow> fits64 (t - now) \<and> fits64 (t - now + 500)"
  shows "\<exists>ks'. ttlGenericCommand env now ks key ms = tret (fst (ttl_spec env now m key ms), ks') \<and>
    ks_rep (k_cluster env) ks' (snd (ttl_spec env now m key ms))"
proof -
  obtain k1 where k1: "lookupKeyRead env ks key = tret (fst (db_find env m key), k1)" "ks_rep (k_cluster env) k1 (snd (db_find env m key))"
    by (rule lookupKeyRead_rep [OF rep])
  obtain old m1 where find: "db_find env m key = (old, m1)" by (cases "db_find env m key")
  have r1: "ks_rep (k_cluster env) k1 m1" using k1(2) find by simp
  show ?thesis
  proof (cases old)
    case None
    then show ?thesis using k1(1) find r1 by (simp add: ttlGenericCommand_def ttl_spec_def)
  next
    case (Some v)
    obtain u e where e: "m key = Some (u, e)" "m1 key = Some (v, e)" using find_expire [of env m key v m1] find Some by auto
    have ge: "getExpire k1 key = Inr (case e of Some t \<Rightarrow> t | None \<Rightarrow> - 1)"
      using getExpire_rep [OF r1, of key] e(2) by (simp split: option.split)
    show ?thesis
    proof (cases "real_expire e")
      case None
      then have "(case e of Some t \<Rightarrow> t | None \<Rightarrow> - 1) = - 1" by (auto simp: real_expire_def split: option.splits if_splits)
      then show ?thesis using k1(1) find r1 Some ge e None by (simp add: ttlGenericCommand_def ttl_spec_def)
    next
      case r: (Some t)
      then have t: "e = Some t" "t \<noteq> - 1" by (auto simp: real_expire_def split: if_splits)
      have fit: "fits64 (t - now)" "fits64 (t - now + 500)" using f [of u t] e(1) t(1) by simp_all
      have "fits64 (max 0 (t - now) + 500)" using fit(2) by (auto simp: fits64_def)
      moreover have "max 0 (t - now) = (if t - now < 0 then 0 else t - now)" by simp
      ultimately have s: "s64 (max 0 (t - now) + 500) = Inr (max 0 (t - now) + 500)"
        "rbind (s64 (t - now)) (\<lambda>ttl. Inr (if ttl < 0 then 0 else ttl)) = Inr (max 0 (t - now))"
        using fit(1) by (simp_all only: s64_fits rbind_simps)
      have ge: "getExpire k1 key = Inr t" using ge t(1) by simp
      have pos: "max 0 (t - now) \<noteq> - 1" by simp
      have "ttlGenericCommand env now k1' key ms = tret (KInt (if ms then max 0 (t - now) else (max 0 (t - now) + 500) div 1000), k1)"
        if "lookupKeyRead env k1' key = tret (Some v, k1)" for k1'
        unfolding ttlGenericCommand_def that tbind_simps prod.case ge if_P [OF t(2)] s(2) if_not_P [OF pos]
        by (simp add: s(1))
      then show ?thesis using k1(1) find r1 Some e r by (simp add: ttl_spec_def)
    qed
  qed
qed

section \<open>The key space simulates the map\<close>

lemma kstep_simulates:
  assumes rep: "ks_rep on ks m" and ok: "kop_ok on ks m x"
  shows "\<exists>ks'. kstep ks x = tret (fst (kspec m x), ks') \<and> ks_rep on ks' (snd (kspec m x))"
proof -
  obtain env op where x: "x = (env, op)" by (cases x)
  have on: "k_cluster env = on" using ok x by simp
  have r: "ks_rep (k_cluster env) ks m" using rep on by simp
  note ok = ok [unfolded x]
  show ?thesis
  proof (cases op)
    case (KRead key)
    show ?thesis by (rule lookupKeyRead_rep [OF r, of key]) (simp add: x KRead as_reply_def on split_beta)
  next
    case (KWrite key)
    show ?thesis by (rule lookupKeyWrite_rep [OF r, of key]) (simp add: x KWrite as_reply_def on split_beta)
  next
    case (KSet a key val)
    show ?thesis by (rule setKey_rep [OF r, of a key val]) (use ok KSet in \<open>simp_all add: x on\<close>)
  next
    case (KDel keys)
    show ?thesis using del_keys_rep [OF r, of 0 keys] ok KDel by (auto simp: x KDel as_reply_def on delCommand_def split_beta)
  next
    case (KExists keys)
    show ?thesis using exists_keys_rep [OF r, of keys 0] by (auto simp: x KExists as_reply_def on existsCommand_def split_beta)
  next
    case (KRename a src dst nx)
    have "fresh_node a ks m" using ok KRename by simp
    from rename_rep [OF r this, of src dst nx] show ?thesis by (auto simp: x KRename as_reply_def on split_beta)
  next
    case (KExpire now key time base sec)
    have "fits64 (if sec then time * 1000 else time)" "fits64 (expire_when time base sec)" using ok KExpire by simp_all
    from expire_rep [OF r this, of now key] show ?thesis by (auto simp: x KExpire as_reply_def on split_beta)
  next
    case (KTtl now key ms)
    have "\<exists>ks'. ttlGenericCommand env now ks key ms = tret (fst (ttl_spec env now m key ms), ks') \<and>
      ks_rep (k_cluster env) ks' (snd (ttl_spec env now m key ms))"
      by (rule ttl_rep [OF r]) (use ok KTtl in simp)
    then show ?thesis by (auto simp: x KTtl as_reply_def on split_beta)
  next
    case (KPersist key)
    show ?thesis by (rule persist_rep [OF rep, of key]) (simp add: x KPersist as_reply_def split_beta)
  next
    case (KFlush a)
    have "ks_heap ks a = None" using ok KFlush by simp
    then show ?thesis by (rule flush_rep [OF r]) (simp add: x KFlush on)
  next
    case (KDelSlot s)
    have T: "on" and small: "card (dom m) < 2 ^ 31" using ok KDelSlot by simp_all
    then have rep': "ks_rep True ks m" "k_cluster env" using rep on by simp_all
    then obtain ks' where "delKeysInSlot env ks s = tret (of_nat (card (slot_keys m s)), ks')" "ks_rep True ks' (m |` (- slot_keys m s))"
      using small by (rule delKeysInSlot_rep)
    moreover have "uint (of_nat (card (slot_keys m s)) :: u32) = int (card (slot_keys m s))"
      using slot_keys_small(2) [OF rep'(1) small, of s] by (simp add: unsigned_of_nat take_bit_nat_eq_self)
    ultimately show ?thesis using T by (simp add: x KDelSlot as_reply_def)
  next
    case (KCountSlot s)
    have "on" and small: "card (dom m) < 2 ^ 31" using ok KCountSlot by simp_all
    then have "index_ok ks" "card (dom (ks_dict ks)) < 2 ^ 31" using ks_repD(3) [OF rep] slot_keys_small(1) [OF _ small] rep by auto
    then show ?thesis using countKeysInSlot_spec [of ks s] slot_keys_kdb [of ks s] ks_repD(1) [OF rep] rep
      by (simp add: x KCountSlot)
  qed
qed

interpretation keyspace_sim: simulation "ks_rep on" "kop_ok on" kstep kspec for on
  by unfold_locales (rule kstep_simulates)

section \<open>Random keys\<close>

text \<open>On a dictionary with keys in \<open>K\<close> a draw gives one of its keys, or nothing when it has none.\<close>

definition pick_ok :: "u8 list set \<Rightarrow> (nat \<Rightarrow> (u8 list \<rightharpoonup> 'v) \<Rightarrow> u8 list option) \<Rightarrow> bool" where
  "pick_ok K pick \<longleftrightarrow> (\<forall>i d. dom d \<subseteq> K \<longrightarrow> (case pick i d of None \<Rightarrow> d = Map.empty | Some k \<Rightarrow> d k \<noteq> None))"

lemma pick_okD:
  assumes "pick_ok K pick" and "dom d \<subseteq> K"
  shows "pick i d = None \<Longrightarrow> d = Map.empty" and "pick i d = Some k \<Longrightarrow> d k \<noteq> None"
proof -
  have "case pick i d of None \<Rightarrow> d = Map.empty | Some k \<Rightarrow> d k \<noteq> None" using assms unfolding pick_ok_def by blast
  then show "pick i d = None \<Longrightarrow> d = Map.empty" "pick i d = Some k \<Longrightarrow> d k \<noteq> None" by simp_all
qed

lemma random_loop_returns:
  assumes "ks_rep (k_cluster env) ks m" and "finite (dom m)" and live: "k_loading env \<or> \<not> k_slave env"
    and pick: "pick_ok K pick" and "dom m \<subseteq> K"
  shows "\<exists>r ks' m'. random_loop env pick i ks = tret (r, ks') \<and> ks_rep (k_cluster env) ks' m' \<and> m' \<subseteq>\<^sub>m m \<and>
    (\<forall>k. m k \<noteq> None \<longrightarrow> m' k = None \<longrightarrow> db_gone env m k) \<and>
    (case r of None \<Rightarrow> m' = Map.empty | Some k \<Rightarrow> m' k \<noteq> None \<and> \<not> db_gone env m' k)"
  using assms(1,2,5)
proof (induction "card (dom m)" arbitrary: ks m i rule: less_induct)
  case less
  note D = ks_repD [OF less.prems(1)]
  show ?case
  proof (cases "pick i (ks_dict ks)")
    case None
    then have "ks_dict ks = Map.empty" using pick_okD(1) [OF pick, of "ks_dict ks" i] D(7) less.prems(3) by simp
    then have "m = Map.empty" using D(1) by (auto simp: kdb_def)
    then show ?thesis using None less.prems(1) by (subst random_loop.simps) (auto intro!: exI [of _ ks])
  next
    case (Some key)
    then have key: "m key \<noteq> None" using pick_okD(2) [OF pick, of "ks_dict ks" i key] D(7) D(4) [of key] less.prems(3) by simp
    show ?thesis
    proof (cases "db_gone env m key")
      case False
      have "random_loop env pick i ks = tret (Some key, ks)"
      proof (cases "ks_expires ks key")
        case (Some t)
        have "\<exists>b. expireIfNeeded env ks key = tret (b, ks) \<and> \<not> b"
          using expireIfNeeded_run [OF getExpire_rep [OF less.prems(1), of key], of env] False live
          by (auto simp: db_gone_def split: option.splits if_splits)
        then show ?thesis using Some \<open>pick i (ks_dict ks) = Some key\<close> by (subst random_loop.simps) auto
      qed (use Some in \<open>subst random_loop.simps, simp\<close>)
      then show ?thesis using less.prems(1) key False by (auto intro!: exI [of _ m] map_le_refl)
    next
      case True
      let ?m = "m(key := None)"
      obtain v t where t: "m key = Some (v, Some t)" "0 \<le> t" "t < key_now env" "\<not> k_loading env" "\<not> k_slave env"
        using True by (auto simp: db_gone_def split: option.splits)
      have e: "ks_expires ks key \<noteq> None" using D(6) [OF t(1)] by simp
      let ?k = "kevent (NotifyExpired key) (kevent (PropagateDel key) (ks\<lparr>ks_expired := ks_expired ks + 1\<rparr>))"
      have "ks_rep (k_cluster env) (ks\<lparr>ks_expired := ks_expired ks + 1\<rparr>) m"
        using less.prems(1) rep_cong [of "ks\<lparr>ks_expired := ks_expired ks + 1\<rparr>" ks] by simp
      then have "ks_rep (k_cluster env) ?k m" by simp
      then obtain k1 where k1: "dbDelete env ?k key = tret (m key \<noteq> None, k1)" "ks_rep (k_cluster env) k1 ?m"
        by (rule dbDelete_rep)
      have "getExpire ks key = Inr t" using getExpire_rep [OF less.prems(1), of key] t(1) by simp
      from expireIfNeeded_run [OF this, of env] have x: "expireIfNeeded env ks key = tret (True, k1)" using k1(1) t by simp
      have run: "random_loop env pick i ks = random_loop env pick (i + 1) k1"
        using x e Some by (subst random_loop.simps) auto
      have "dom ?m = dom m - {key}" "key \<in> dom m" using key by (simp_all add: domIff)
      then have "card (dom ?m) < card (dom m)" "finite (dom ?m)"
        using card_Diff1_less [OF less.prems(2), of key] less.prems(2) by (simp_all only: finite_Diff)
      moreover have "dom ?m \<subseteq> K" using less.prems(3) by auto
      note h = less.hyps [OF _ k1(2) _ this, of "i + 1"]
      ultimately obtain r ks' m' where h: "random_loop env pick (i + 1) k1 = tret (r, ks')" "ks_rep (k_cluster env) ks' m'" "m' \<subseteq>\<^sub>m ?m"
        "\<forall>k. ?m k \<noteq> None \<longrightarrow> m' k = None \<longrightarrow> db_gone env ?m k"
        "case r of None \<Rightarrow> m' = Map.empty | Some k \<Rightarrow> m' k \<noteq> None \<and> \<not> db_gone env m' k" using h by blast
      have "m' \<subseteq>\<^sub>m m" by (rule map_le_trans [OF h(3)]) (simp add: map_le_def)
      moreover have "db_gone env m k" if "m k \<noteq> None" "m' k = None" for k
      proof (cases "k = key")
        case False
        then have "db_gone env ?m k" using h(4) that by simp
        then show ?thesis using False by (simp add: db_gone_def)
      qed (use True in simp)
      ultimately show ?thesis using h run by auto
    qed
  qed
qed

lemma random_loop_spins:
  assumes "k_slave env" and "\<not> k_loading env" and "\<And>k. k \<in> dom (ks_dict ks) \<Longrightarrow> \<exists>t. ks_expires ks k = Some t \<and> 0 \<le> t \<and> t < key_now env"
    and "\<And>i. \<exists>k. pick i (ks_dict ks) = Some k \<and> ks_dict ks k \<noteq> None"
  shows "random_loop env pick i ks = None"
proof -
  have step: "random_loop env pick i ks = random_loop env pick (i + 1) ks" for i
  proof -
    obtain k where k: "pick i (ks_dict ks) = Some k" "ks_dict ks k \<noteq> None" using assms(4) by blast
    obtain t where t: "ks_expires ks k = Some t" "0 \<le> t" "t < key_now env" using assms(3) [of k] k(2) by auto
    have "getExpire ks k = Inr t" using t(1) k(2) by (simp add: getExpire_def)
    from expireIfNeeded_run [OF this, of env] have "expireIfNeeded env ks k = tret (True, ks)" using assms(1,2) t(2,3) by simp
    then show ?thesis using k(1) t(1) by (subst random_loop.simps) simp
  qed
  have "random_loop env' pick' i ks0 = Some y \<Longrightarrow> env' = env \<Longrightarrow> pick' = pick \<Longrightarrow> ks0 = ks \<Longrightarrow> False" for env' pick' i ks0 y
  proof (induction rule: random_loop.raw_induct [rotated, consumes 1, case_names step])
    case (step f env' pick' i ks0 y)
    obtain k where k: "pick i (ks_dict ks) = Some k" "ks_dict ks k \<noteq> None" using assms(4) by blast
    obtain t where t: "ks_expires ks k = Some t" "0 \<le> t" "t < key_now env" using assms(3) [of k] k(2) by auto
    have "getExpire ks k = Inr t" using t(1) k(2) by (simp add: getExpire_def)
    from expireIfNeeded_run [OF this, of env] have "expireIfNeeded env ks k = tret (True, ks)" using assms(1,2) t(2,3) by simp
    then have "f env pick (i + 1) ks = Some y" using step(2-5) k(1) t(1) by simp
    then show ?case using step(1) by blast
  qed
  then show ?thesis by (cases "random_loop env pick i ks") blast+
qed

section \<open>Properties\<close>

text \<open>
  C29: Any sequence of operations on the key space that \<open>kop_ok\<close> admits (fresh
  nodes for the index, times within \<open>long long\<close>, fewer than \<open>2 ^ 31\<close> arguments
  and, for the operations on a slot, fewer than \<open>2 ^ 31\<close> keys) runs without a fault
  and answers as the map from keys to values and expire times does: lookups,
  \<open>SET\<close>, \<open>DEL\<close>, \<open>EXISTS\<close>, \<open>RENAME\<close>, \<open>EXPIRE\<close>, \<open>TTL\<close>, \<open>PERSIST\<close>, \<open>FLUSHDB\<close>, and in
  cluster mode the deletion and the count of the keys of a slot.  No expire time
  outlives its key, and the index of slots keeps holding the keys of the database.
\<close>

theorem keyspace_operations_refine:
  assumes "ks_rep on ks m" and "run_allowed (kop_ok on) kstep kspec ks m xs"
  shows "\<exists>ks'. run_part kstep ks xs = tret (fst (run_ops kspec m xs), ks') \<and> ks_rep on ks' (snd (run_ops kspec m xs))"
  by (rule keyspace_sim.run_simulates [OF assms])

text \<open>The key space of a node that has just started in cluster mode.\<close>

definition new_keyspace :: "zptr \<Rightarrow> nat keyspace" where
  "new_keyspace x = (let (h, zsl) = zslCreate Map.empty x in
     \<lparr>ks_dict = Map.empty, ks_expires = Map.empty, ks_heap = h, ks_zsl = zsl, ks_hits = 0, ks_misses = 0, ks_expired = 0, ks_events = []\<rparr>)"

definition demo_env :: "int \<Rightarrow> nat kenv" where
  "demo_env t = \<lparr>k_now = t, k_loading = False, k_slave = False, k_lua_time = None, k_cluster = True, k_touch = (\<lambda>v. v), k_is_list = (\<lambda>v. False)\<rparr>"

lemma new_keyspace_rep: "ks_rep True (new_keyspace x) Map.empty"
proof -
  obtain h :: "int zheap" and zsl where c: "zslCreate Map.empty x = (h, zsl)" by (cases "zslCreate Map.empty x :: int zheap \<times> zskiplist")
  have "zsl_rep h zsl [] []" using zslCreate_rep [OF _ c] by simp
  then show ?thesis by (auto simp: new_keyspace_def c ks_rep_def kdb_def index_ok_def zsl_abs_def fun_eq_iff)
qed

lemma new_keyspace_heap: "x \<noteq> y \<Longrightarrow> ks_heap (new_keyspace x) y = None"
  by (simp add: new_keyspace_def zslCreate_def)

definition demo_ops :: "(nat kenv \<times> nat kop) list" where
  "demo_ops = [(demo_env 10, KSet (1, 5) [97] 7), (demo_env 11, KExpire 11 [97] 2 11 True), (demo_env 12, KTtl 12 [97] True),
     (demo_env 2012, KRead [97]), (demo_env 2013, KExists [[97], [98]]), (demo_env 2014, KDelSlot 15495)]"

theorem keyspace_operations_refine_witness:
  "\<exists>ks'. run_part kstep (new_keyspace 0) demo_ops =
     tret ([KDone, KReply (KInt 1), KReply (KInt 1999), KValue None, KReply (KInt 0), KReply (KInt 0)], ks')"
proof -
  have "kop_ok True (new_keyspace 0) Map.empty (demo_env 10, KSet (1, 5) [97] 7)"
    by (simp add: demo_env_def fresh_node_def ZSKIPLIST_MAXLEVEL_def new_keyspace_heap)
  then have "run_allowed (kop_ok True) kstep kspec (new_keyspace 0) Map.empty demo_ops"
    by (simp add: demo_ops_def demo_env_def expire_when_def fits64_def db_find_def db_access_def db_gone_def db_touch_def
        key_now_def expire_spec_def ttl_spec_def real_expire_def split: option.split sum.split)
  note run = keyspace_operations_refine [OF new_keyspace_rep this]
  have "fst (run_ops kspec Map.empty demo_ops) =
    [KDone, KReply (KInt 1), KReply (KInt 1999), KValue None, KReply (KInt 0), KReply (KInt 0)]"
    by (simp add: demo_ops_def demo_env_def expire_when_def db_find_def db_access_def db_gone_def db_touch_def
        key_now_def expire_spec_def ttl_spec_def real_expire_def slot_keys_def)
  then show ?thesis using run by auto
qed

text \<open>
  C30: In cluster mode, in a database of fewer than \<open>2 ^ 31\<close> keys, the index of
  slots answers for the database: \<open>countKeysInSlot\<close> is the number of the keys
  whose hash slot is the one asked for, and \<open>getKeysInSlot\<close> writes the first of
  them, as many as there is room for, in the order of the strings, into the
  array of the caller, returns how many, and leaves the rest of the array alone.
\<close>

theorem slot_index_answers:
  assumes "ks_rep True ks m" and "card (dom m) < 2 ^ 31" and "unat count \<le> length buf"
  shows "countKeysInSlot ks s = tret (of_nat (card (slot_keys m s))) \<and>
    (\<exists>keys. getKeysInSlot ks s buf count = tret (of_nat (length (take (unat count) keys)),
        take (unat count) keys @ drop (length (take (unat count) keys)) buf) \<and>
      set keys = slot_keys m s \<and> sorted_wrt (\<lambda>a b. compareStringObjects a b < 0) keys)"
proof -
  have ok: "index_ok ks" by (rule ks_repD(3) [OF assms(1) TrueI])
  have K: "slot_keys m s = slot_keys (ks_dict ks) s" using slot_keys_kdb [of ks s] ks_repD(1) [OF assms(1)] by simp
  note small = slot_keys_small [OF assms(1,2)]
  obtain keys where "getKeysInSlot ks s buf count = tret (of_nat (length (take (unat count) keys)),
      take (unat count) keys @ drop (length (take (unat count) keys)) buf)" "set keys = slot_keys (ks_dict ks) s"
    "sorted_wrt (\<lambda>a b. compareStringObjects a b < 0) keys"
    using small(2) [of s] unfolding K by (rule getKeysInSlot_spec [OF ok _ assms(3)])
  then show ?thesis using countKeysInSlot_spec [OF ok small(1), of s] K by auto
qed

theorem slot_index_answers_witness:
  "\<exists>ks. slotToKeyAdd (1, 5) ((new_keyspace 0)\<lparr>ks_dict := [[97] \<mapsto> 7]\<rparr>) [97] = tret ks \<and>
     countKeysInSlot ks 15495 = tret 1 \<and> getKeysInSlot ks 15495 [[], [1]] 2 = tret (1, [[97], [1]])"
proof -
  let ?k = "(new_keyspace 0)\<lparr>ks_dict := [[97] \<mapsto> 7]\<rparr>"
  have "index_ok (?k\<lparr>ks_dict := (ks_dict ?k)([97] := None)\<rparr>)"
    using ks_repD(3) [OF new_keyspace_rep [of 0]] index_cong [of "?k\<lparr>ks_dict := (ks_dict ?k)([97] := None)\<rparr>" "new_keyspace 0"]
    by (simp add: new_keyspace_def split_beta)
  then obtain h zsl where k: "slotToKeyAdd (1, 5) ?k [97] = tret (with_index (h, zsl) ?k)" "index_ok (with_index (h, zsl) ?k)"
    using slotToKeyAdd_spec [of ?k "[97]" "(1, 5)"] by (auto simp: ZSKIPLIST_MAXLEVEL_def new_keyspace_heap)
  let ?ks = "with_index (h, zsl) ?k"
  have rep: "ks_rep True ?ks (kdb ?ks)" using k(2) by (simp add: ks_rep_def new_keyspace_def split_beta)
  have "key_slot [97] = 15495" by code_simp
  then have K: "slot_keys (kdb ?ks) 15495 = {[97]}" by (auto simp: slot_keys_def)
  have "dom (kdb ?ks) = {[97]}" by (simp add: kdb_dom)
  then have small: "card (dom (kdb ?ks)) < 2 ^ 31" by simp
  obtain keys where c: "countKeysInSlot ?ks 15495 = tret 1"
    "getKeysInSlot ?ks 15495 [[], [1]] 2 = tret (of_nat (length (take 2 keys)), take 2 keys @ drop (length (take 2 keys)) [[], [1]])"
    "set keys = {[97]}" "sorted_wrt (\<lambda>a b. compareStringObjects a b < 0) keys"
    using slot_index_answers [OF rep small, of 2 "[[], [1]]" 15495] unfolding K by auto
  have "distinct keys" using c(4) by (induction keys) auto
  then have "length keys = 1" using distinct_card [of keys] c(3) by simp
  then have "keys = [[97]]" using c(3) by (cases keys) auto
  then show ?thesis using k(1) c(1,2) by auto
qed

text \<open>
  C31: A key is deleted because of its expire time only on a node that is neither
  loading nor a replica, only when that time is over, and then the deletion is
  sent to the replicas and the AOF; the other keys stay.  A replica and a node
  that is loading leave the key space alone.
\<close>

theorem expire_propagates:
  assumes "ks_rep (k_cluster env) ks m"
  shows "\<exists>b ks' evs. expireIfNeeded env ks key = tret (b, ks') \<and> ks_events ks' = ks_events ks @ evs \<and>
    ks_rep (k_cluster env) ks' (if PropagateDel key \<in> set evs then m(key := None) else m) \<and>
    (PropagateDel key \<in> set evs \<longleftrightarrow>
      \<not> k_loading env \<and> \<not> k_slave env \<and> (\<exists>v t. m key = Some (v, Some t) \<and> 0 \<le> t \<and> t < key_now env)) \<and>
    (k_loading env \<or> k_slave env \<longrightarrow> evs = [])"
proof -
  obtain b ks' where e: "expireIfNeeded env ks key = tret (b, ks')" "ks_rep (k_cluster env) ks' (db_access env m key)"
    "ks_events ks' = ks_events ks @ (if db_gone env m key then [PropagateDel key, NotifyExpired key] else [])"
    by (rule expireIfNeeded_rep [OF assms])
  have gone: "db_gone env m key \<longleftrightarrow>
      \<not> k_loading env \<and> \<not> k_slave env \<and> (\<exists>v t. m key = Some (v, Some t) \<and> 0 \<le> t \<and> t < key_now env)"
    by (auto simp: db_gone_def split: option.split)
  let ?evs = "if db_gone env m key then [PropagateDel key, NotifyExpired key] else []"
  have "PropagateDel key \<in> set ?evs \<longleftrightarrow> db_gone env m key" by simp
  moreover have "k_loading env \<or> k_slave env \<Longrightarrow> ?evs = []" by (auto simp: db_gone_def)
  ultimately show ?thesis unfolding gone [symmetric] using e
    by (intro exI [of _ b] exI [of _ ks'] exI [of _ ?evs]) (simp add: db_access_def)
qed

definition demo_keyspace :: "nat keyspace" where
  "demo_keyspace = \<lparr>ks_dict = [[97] \<mapsto> 7], ks_expires = [[97] \<mapsto> 100], ks_heap = Map.empty,
     ks_zsl = \<lparr>z_header = 0, z_tail = None, z_length = 0, z_levels = 1\<rparr>, ks_hits = 0, ks_misses = 0, ks_expired = 0, ks_events = []\<rparr>"

lemma demo_keyspace_rep: "ks_rep False demo_keyspace [[97] \<mapsto> (7, Some 100)]"
  by (auto simp: demo_keyspace_def ks_rep_def kdb_def fun_eq_iff)

theorem expire_propagates_witness:
  "\<exists>b ks' evs. expireIfNeeded ((demo_env 101)\<lparr>k_cluster := False\<rparr>) demo_keyspace [97] = tret (b, ks') \<and>
     ks_rep False ks' Map.empty \<and> ks_events ks' = evs \<and> PropagateDel [97] \<in> set evs"
proof -
  let ?env = "(demo_env 101)\<lparr>k_cluster := False\<rparr>"
  have off: "k_cluster ?env = False" by simp
  note e = expire_propagates [of ?env demo_keyspace "[[97] \<mapsto> (7, Some 100)]" "[97]", unfolded off, OF demo_keyspace_rep]
  obtain b ks' evs where x: "expireIfNeeded ?env demo_keyspace [97] = tret (b, ks')" "ks_events ks' = ks_events demo_keyspace @ evs"
    "ks_rep False ks' (if PropagateDel [97] \<in> set evs then [[97] \<mapsto> (7, Some 100)]([97] := None) else [[97] \<mapsto> (7, Some 100)])"
    "PropagateDel [97] \<in> set evs \<longleftrightarrow> \<not> k_loading ?env \<and> \<not> k_slave ?env \<and>
      (\<exists>v t. [[97 :: u8] \<mapsto> (7, Some 100)] [97] = Some (v :: nat, Some t) \<and> 0 \<le> t \<and> t < key_now ?env)"
    using e by (elim exE conjE) (rule that)
  have "PropagateDel [97] \<in> set evs" unfolding x(4) by (simp add: demo_env_def key_now_def)
  then show ?thesis using x(1-3) by (intro exI [of _ b] exI [of _ ks'] exI [of _ evs]) (simp add: demo_keyspace_def)
qed

text \<open>
  C32: Where expired keys are deleted on access, or nothing expires, \<open>dbRandomKey\<close>
  returns, for every choice of random keys: it deletes only keys whose time is
  over, and gives a key of the database whose time is not, or nothing when the
  database is empty.
\<close>

theorem dbRandomKey_returns:
  assumes "ks_rep (k_cluster env) ks m" and "finite (dom m)" and "k_loading env \<or> \<not> k_slave env"
    and "pick_ok (dom m) pick"
  shows "\<exists>r ks' m'. dbRandomKey env pick ks = tret (r, ks') \<and> ks_rep (k_cluster env) ks' m' \<and> m' \<subseteq>\<^sub>m m \<and>
    (\<forall>k. m k \<noteq> None \<longrightarrow> m' k = None \<longrightarrow> db_gone env m k) \<and>
    (case r of None \<Rightarrow> m' = Map.empty | Some k \<Rightarrow> m' k \<noteq> None \<and> \<not> db_gone env m' k)"
  unfolding dbRandomKey_def by (rule random_loop_returns [OF assms subset_refl])

definition demo_pick :: "nat \<Rightarrow> (u8 list \<rightharpoonup> nat) \<Rightarrow> u8 list option" where
  "demo_pick i d = (if d [97] \<noteq> None then Some [97] else None)"

theorem dbRandomKey_returns_witness:
  "\<exists>r ks' m'. dbRandomKey ((demo_env 101)\<lparr>k_cluster := False\<rparr>) demo_pick demo_keyspace = tret (r, ks') \<and>
     ks_rep False ks' m' \<and> m' \<subseteq>\<^sub>m [[97] \<mapsto> (7, Some 100)] \<and>
     (case r of None \<Rightarrow> m' = Map.empty | Some k \<Rightarrow> m' k \<noteq> None \<and> \<not> db_gone (demo_env 101) m' k)"
proof -
  let ?env = "(demo_env 101)\<lparr>k_cluster := False\<rparr>"
  have off: "k_cluster ?env = False" by simp
  have live: "k_loading ?env \<or> \<not> k_slave ?env" by (simp add: demo_env_def)
  have "d = Map.empty" if "dom d \<subseteq> {[97]}" "d [97] = None" for d :: "u8 list \<rightharpoonup> nat" using that by auto
  then have pick: "pick_ok (dom [[97] \<mapsto> (7 :: nat, Some (100 :: int))]) demo_pick" by (simp add: pick_ok_def demo_pick_def)
  have now: "key_now ?env = key_now (demo_env 101)" by (simp add: key_now_def demo_env_def)
  have gone: "db_gone ?env = db_gone (demo_env 101)" unfolding fun_eq_iff db_gone_def now by simp
  have "finite (dom [[97 :: u8] \<mapsto> (7 :: nat, Some (100 :: int))])" by simp
  from dbRandomKey_returns [where env = ?env, unfolded off, OF demo_keyspace_rep this live pick]
  show ?thesis unfolding gone by blast
qed

text \<open>
  C33: On a replica \<open>dbRandomKey\<close> does not return while every key has an expire
  time that is over: it draws another key for ever, and deletes none.
\<close>

theorem dbRandomKey_spins_on_replica:
  assumes "k_slave env" and "\<not> k_loading env"
    and "\<And>k. k \<in> dom (ks_dict ks) \<Longrightarrow> \<exists>t. ks_expires ks k = Some t \<and> 0 \<le> t \<and> t < key_now env"
    and "\<And>i. \<exists>k. pick i (ks_dict ks) = Some k \<and> ks_dict ks k \<noteq> None"
  shows "dbRandomKey env pick ks = None"
  unfolding dbRandomKey_def by (rule random_loop_spins) (fact assms)+

theorem dbRandomKey_spins_on_replica_witness:
  "dbRandomKey ((demo_env 101)\<lparr>k_slave := True\<rparr>) (\<lambda>i d. Some [97]) demo_keyspace = None"
  by (rule dbRandomKey_spins_on_replica) (auto simp: demo_env_def demo_keyspace_def key_now_def split: if_splits)

text \<open>
  The time of \<open>EXPIRE\<close> is multiplied and added to the clock without a check: a
  large one overflows a signed \<open>long long\<close>.
\<close>

lemma expire_overflow:
  assumes "\<not> fits64 (if sec then time * 1000 else time) \<or> \<not> fits64 (expire_when time base sec)" and "sec \<or> fits64 time"
  shows "expireGenericCommand env now ks key time base sec = Some (Inl SignedOverflow)"
  using assms by (cases "fits64 (time * 1000)"; cases sec; simp add: expireGenericCommand_def expire_when_def s64_fits)

text \<open>
  \<open>PERSIST\<close> looks into the dictionary itself: a key whose time is over, which
  every other command would delete, becomes a key without expire time.
\<close>

lemma persist_revives:
  assumes "ks_rep on ks m" and "m key = Some (v, Some t)" and "db_gone env m key"
  shows "\<exists>ks'. persistCommand ks key = tret (KInt 1, ks') \<and> ks_rep on ks' (m(key \<mapsto> (v, None)))"
  by (rule persist_rep [OF assms(1), of key]) (simp add: persist_spec_def assms(2))

end
