(* ===== verification/Replication.thy ===== *)
theory Replication
  imports Util
begin

text \<open>
  The master side of \<open>replication.c\<close>: the backlog, a circular buffer with the
  last bytes of the replication stream, the commands fed to the backlog and to
  the output buffers of the replicas, and the ways a replica is attached, by a
  partial resynchronization or through a background save.  Replies and headers
  are those of \<open>networking.c\<close>.
\<close>

section \<open>Arguments and their text\<close>

text \<open>A string object holds a string or, if it looks like one, a \<open>long\<close>.\<close>

datatype robj = OStr "u8 list" | OInt u64

definition REDIS_LONGSTR_SIZE :: nat where "REDIS_LONGSTR_SIZE = 21"
definition REDIS_SHARED_BULKHDR_LEN :: nat where "REDIS_SHARED_BULKHDR_LEN = 32"
definition REDIS_REPL_BACKLOG_MIN_SIZE :: int where "REDIS_REPL_BACKLOG_MIN_SIZE = 1024 * 16"
definition SLAVE_CAPA_EOF :: u32 where "SLAVE_CAPA_EOF = 1"

definition crlf :: "u8 list" where "crlf = [13, 10]"

definition stringObjectLen :: "robj \<Rightarrow> nat" where
  "stringObjectLen ob = (case ob of OStr s \<Rightarrow> length s | OInt v \<Rightarrow> fst (ll2string (replicate 32 0) 32 v))"

text \<open>The text \<open>addReply\<close> and the backlog get for an object.\<close>

definition obj_text :: "robj \<Rightarrow> u8 list" where
  "obj_text ob = (case ob of
     OStr s \<Rightarrow> s
   | OInt v \<Rightarrow> let (len, llstr) = ll2string (replicate REDIS_LONGSTR_SIZE 0) REDIS_LONGSTR_SIZE v in take len llstr)"

text \<open>A header in a buffer: the prefix, a number and the end of the line; the length of the numeral.\<close>

definition put_header :: "u8 list \<Rightarrow> u8 \<Rightarrow> u64 \<Rightarrow> (u8 list \<times> nat) res" where
  "put_header buf prefix n =
     (let (len, d) = ll2string (tl buf) (length buf - 1) n; buf = prefix # d in
      if len + 2 < length buf then Inr (buf[len + 1 := 13, len + 2 := 10], len) else Inl OutOfBounds)"

text \<open>The shared headers \<open>shared.mbulkhdr\<close> and \<open>shared.bulkhdr\<close> are printed with \<open>%d\<close>.\<close>

definition shared_hdr :: "u8 \<Rightarrow> nat \<Rightarrow> u8 list" where
  "shared_hdr prefix n = prefix # dec_nat n @ crlf"

definition addReplyLongLongWithPrefix :: "u8 list \<Rightarrow> nat \<Rightarrow> u8 \<Rightarrow> u8 list res" where
  "addReplyLongLongWithPrefix out ll prefix =
     (if (prefix = byte_of CHR ''*'' \<or> prefix = byte_of CHR ''$'') \<and> ll < REDIS_SHARED_BULKHDR_LEN
      then Inr (out @ shared_hdr prefix ll)
      else rbind (put_header (replicate 128 0) prefix (of_nat ll)) (\<lambda>(buf, len). Inr (out @ take (len + 3) buf)))"

definition addReplyMultiBulkLen :: "u8 list \<Rightarrow> nat \<Rightarrow> u8 list res" where
  "addReplyMultiBulkLen out len =
     (if len < REDIS_SHARED_BULKHDR_LEN then Inr (out @ shared_hdr (byte_of CHR ''*'') len)
      else addReplyLongLongWithPrefix out len (byte_of CHR ''*''))"

fun div10_loop :: "nat \<Rightarrow> nat \<Rightarrow> nat" where
  "div10_loop n len = (if n div 10 = 0 then len else div10_loop (n div 10) (len + 1))"

declare div10_loop.simps [simp del]

definition int_len :: "u64 \<Rightarrow> nat res" where
  "int_len v =
     (if sint v = - (2 ^ 63) then Inl SignedOverflow
      else Inr (div10_loop (nat \<bar>sint v\<bar>) (if sint v < 0 then 2 else 1)))"

definition addReplyBulkLen :: "u8 list \<Rightarrow> robj \<Rightarrow> u8 list res" where
  "addReplyBulkLen out ob =
     rbind (case ob of OStr s \<Rightarrow> Inr (length s) | OInt v \<Rightarrow> int_len v) (\<lambda>len.
     if len < REDIS_SHARED_BULKHDR_LEN then Inr (out @ shared_hdr (byte_of CHR ''$'') len)
     else addReplyLongLongWithPrefix out len (byte_of CHR ''$''))"

definition addReplyBulk :: "u8 list \<Rightarrow> robj \<Rightarrow> u8 list res" where
  "addReplyBulk out ob = rbind (addReplyBulkLen out ob) (\<lambda>out. Inr (out @ obj_text ob @ crlf))"

section \<open>State\<close>

datatype replstate = REPL_NONE | WAIT_BGSAVE_START | WAIT_BGSAVE_END | SEND_BULK | REPL_ONLINE

datatype rdb_child = ChildDisk | ChildSocket

text \<open>
  A client that asks for synchronization.  \<open>rc_out\<close> is what is pending in its
  output buffer and \<open>rc_handler\<close> tells whether the write handler
  \<open>sendReplyToClient\<close> is installed, without which nothing of it is sent;
  \<open>rc_sent\<close> records what the handler has written since the client became a
  replica.  What is written to the socket directly (\<open>+FULLRESYNC\<close>, \<open>+CONTINUE\<close>,
  the file) is in neither.  \<open>rc_close\<close> and \<open>rc_close_after_reply\<close> are the flags
  \<open>CLOSE_ASAP\<close> and \<open>CLOSE_AFTER_REPLY\<close>.
\<close>

record rclient =
  rc_id :: nat
  rc_slave :: bool
  rc_pre_psync :: bool
  rc_replstate :: replstate
  rc_capa :: u32
  rc_out :: "u8 list"
  rc_handler :: bool
  rc_sent :: "u8 list"
  rc_psync_offset :: int
  rc_ack_off :: int
  rc_ack_time :: int
  rc_put_online_on_ack :: bool
  rc_last_interaction :: int
  rc_close :: bool
  rc_close_after_reply :: bool

record repl =
  rp_backlog :: "u8 list option"
  rp_size :: int
  rp_histlen :: int
  rp_idx :: int
  rp_off :: int
  rp_offset :: int
  rp_seldb :: int
  rp_slaves :: "rclient list"
  rp_child :: "rdb_child option"
  rp_runid :: "u8 list"
  rp_diskless :: bool
  rp_no_slaves_since :: int

text \<open>
  The environment: the time, the outcomes of writes to a socket, of opening the
  RDB file and installing its writer, of pipes and of forks; whether the server is itself a replica
  without a working link; the configured limits.
\<close>

record renv =
  e_time :: int
  e_write :: "nat \<Rightarrow> bool"
  e_open :: "nat \<Rightarrow> bool"
  e_pipe :: bool
  e_fork :: bool
  e_link_down :: bool
  e_aof_child :: bool
  e_timeout :: int
  e_backlog_limit :: int
  e_ping_period :: int
  e_diskless_delay :: int

section \<open>The output buffer of a replica\<close>

text \<open>
  Before something is added to an empty buffer the write handler is installed,
  but not for a replica that is not yet online.  The installation is taken to
  succeed.
\<close>

definition prepareClientToWrite :: "rclient \<Rightarrow> rclient" where
  "prepareClientToWrite c =
     (if rc_out c = [] \<and> (rc_replstate c = REPL_NONE \<or> rc_replstate c = REPL_ONLINE \<and> \<not> rc_put_online_on_ack c)
      then c\<lparr>rc_handler := True\<rparr> else c)"

definition add_output :: "rclient \<Rightarrow> u8 list \<Rightarrow> rclient" where
  "add_output c p = (if p = [] then c else (prepareClientToWrite c)\<lparr>rc_out := rc_out c @ p\<rparr>)"

text \<open>
  The event loop calls the handler when it is installed; \<open>n\<close> is how many bytes
  the socket takes.  A client whose connection fails is freed (\<open>freeSlave\<close>).
\<close>

definition sendReplyToClient :: "renv \<Rightarrow> nat \<Rightarrow> rclient \<Rightarrow> rclient" where
  "sendReplyToClient env n c =
     (if \<not> rc_handler c then c
      else
        let p = take n (rc_out c);
            c = c\<lparr>rc_out := drop n (rc_out c), rc_sent := rc_sent c @ p\<rparr>;
            c = (if p \<noteq> [] then c\<lparr>rc_last_interaction := e_time env\<rparr> else c)
        in if rc_out c = [] then c\<lparr>rc_handler := False\<rparr> else c)"

section \<open>The backlog\<close>

text \<open>What \<open>zmalloc\<close> returns is not initialized; here it is zero.\<close>

definition createReplicationBacklog :: "repl \<Rightarrow> repl res" where
  "createReplicationBacklog r =
     (if rp_backlog r \<noteq> None then Inl AssertFailed
      else Inr (r\<lparr>rp_backlog := Some (replicate (nat (rp_size r)) 0), rp_histlen := 0, rp_idx := 0,
        rp_offset := rp_offset r + 1, rp_off := rp_offset r + 1 + 1\<rparr>))"

definition resizeReplicationBacklog :: "int \<Rightarrow> repl \<Rightarrow> repl" where
  "resizeReplicationBacklog newsize r =
     (let newsize = (if newsize < REDIS_REPL_BACKLOG_MIN_SIZE then REDIS_REPL_BACKLOG_MIN_SIZE else newsize) in
      if rp_size r = newsize then r
      else
        let r = r\<lparr>rp_size := newsize\<rparr> in
        if rp_backlog r \<noteq> None
        then r\<lparr>rp_backlog := Some (replicate (nat newsize) 0), rp_histlen := 0, rp_idx := 0, rp_off := rp_offset r + 1\<rparr>
        else r)"

definition freeReplicationBacklog :: "repl \<Rightarrow> repl res" where
  "freeReplicationBacklog r =
     (if rp_slaves r \<noteq> [] then Inl AssertFailed else Inr (r\<lparr>rp_backlog := None\<rparr>))"

definition memcpy_at :: "u8 list \<Rightarrow> int \<Rightarrow> u8 list \<Rightarrow> u8 list res" where
  "memcpy_at buf i p =
     (if 0 \<le> i \<and> i + int (length p) \<le> int (length buf) then Inr (poke buf (nat i) p) else Inl OutOfBounds)"

partial_function (option) feed_loop ::
  "int \<Rightarrow> u8 list \<Rightarrow> u8 list \<Rightarrow> int \<Rightarrow> int \<Rightarrow> (u8 list \<times> int \<times> int) res option" where
  "feed_loop sz p buf i hist =
     (if p = [] then tret (buf, i, hist)
      else
        let thislen = (if sz - i > int (length p) then int (length p) else sz - i) in
        (case memcpy_at buf i (take (nat thislen) p) of
           Inl e \<Rightarrow> Some (Inl e)
         | Inr buf \<Rightarrow>
             feed_loop sz (drop (nat thislen) p) buf (if i + thislen = sz then 0 else i + thislen) (hist + thislen)))"

declare feed_loop.simps [code]

text \<open>The callers test that there is a backlog.\<close>

definition feedReplicationBacklog :: "repl \<Rightarrow> u8 list \<Rightarrow> repl res option" where
  "feedReplicationBacklog r p =
     (let r = r\<lparr>rp_offset := rp_offset r + int (length p)\<rparr> in
      case rp_backlog r of
        None \<Rightarrow> Some (Inl BadPointer)
      | Some buf \<Rightarrow>
          tbind (feed_loop (rp_size r) p buf (rp_idx r) (rp_histlen r)) (\<lambda>(buf, i, hist).
          let hist = (if hist > rp_size r then rp_size r else hist) in
          tret (r\<lparr>rp_backlog := Some buf, rp_idx := i, rp_histlen := hist, rp_off := rp_offset r - hist + 1\<rparr>)))"

definition feedReplicationBacklogWithObject :: "repl \<Rightarrow> robj \<Rightarrow> repl res option" where
  "feedReplicationBacklogWithObject r ob = feedReplicationBacklog r (obj_text ob)"

section \<open>Feeding commands\<close>

definition select_text :: "int \<Rightarrow> u8 list" where
  "select_text dictid =
     bytes_of ''*2'' @ crlf @ bytes_of ''$6'' @ crlf @ bytes_of ''SELECT'' @ crlf @
     bytes_of ''$'' @ dec_nat (length (dec_int dictid)) @ crlf @ dec_int dictid @ crlf"

fun feed_args :: "u8 list \<Rightarrow> repl \<Rightarrow> robj list \<Rightarrow> repl res option" where
  "feed_args aux r [] = tret r"
| "feed_args aux r (ob # argv) =
     tbind (Some (put_header aux (byte_of CHR ''$'') (of_nat (stringObjectLen ob)))) (\<lambda>(aux, len).
     tbind (feedReplicationBacklog r (take (len + 3) aux)) (\<lambda>r.
     tbind (feedReplicationBacklogWithObject r ob) (\<lambda>r.
     tbind (feedReplicationBacklog r (take 2 (drop (len + 1) aux))) (\<lambda>r.
     feed_args aux r argv))))"

definition feed_command :: "repl \<Rightarrow> robj list \<Rightarrow> repl res option" where
  "feed_command r argv =
     tbind (Some (put_header (replicate (REDIS_LONGSTR_SIZE + 3) 0) (byte_of CHR ''*'') (of_nat (length argv)))) (\<lambda>(aux, len).
     tbind (feedReplicationBacklog r (take (len + 3) aux)) (\<lambda>r. feed_args aux r argv))"

fun add_bulks :: "u8 list \<Rightarrow> robj list \<Rightarrow> u8 list res" where
  "add_bulks out [] = Inr out"
| "add_bulks out (ob # argv) = rbind (addReplyBulk out ob) (\<lambda>out. add_bulks out argv)"

fun feed_slaves :: "robj list \<Rightarrow> rclient list \<Rightarrow> rclient list res" where
  "feed_slaves argv [] = Inr []"
| "feed_slaves argv (s # ss) =
     (if rc_replstate s = WAIT_BGSAVE_START then rbind (feed_slaves argv ss) (\<lambda>ss. Inr (s # ss))
      else
        rbind (addReplyMultiBulkLen (rc_out s) (length argv)) (\<lambda>out.
        rbind (add_bulks out argv) (\<lambda>out.
        rbind (feed_slaves argv ss) (\<lambda>ss. Inr ((prepareClientToWrite s)\<lparr>rc_out := out\<rparr> # ss)))))"

definition replicationFeedSlaves :: "repl \<Rightarrow> int \<Rightarrow> robj list \<Rightarrow> repl res option" where
  "replicationFeedSlaves r dictid argv =
     (if rp_backlog r = None \<and> rp_slaves r = [] then tret r
      else if rp_slaves r \<noteq> [] \<and> rp_backlog r = None then Some (Inl AssertFailed)
      else
        tbind (if rp_seldb r \<noteq> dictid then
                 tbind (if rp_backlog r \<noteq> None then feedReplicationBacklog r (select_text dictid) else tret r) (\<lambda>r.
                 tret (r\<lparr>rp_slaves := map (\<lambda>s. if rc_replstate s = WAIT_BGSAVE_START then s
                   else add_output s (select_text dictid)) (rp_slaves r)\<rparr>))
               else tret r) (\<lambda>r.
        tbind (tret (r\<lparr>rp_seldb := dictid\<rparr>)) (\<lambda>r.
        tbind (if rp_backlog r \<noteq> None then feed_command r argv else tret r) (\<lambda>r.
        tbind (Some (feed_slaves argv (rp_slaves r))) (\<lambda>ss. tret (r\<lparr>rp_slaves := ss\<rparr>))))))"

section \<open>Partial resynchronization\<close>

text \<open>\<open>%\<close> of C truncates towards zero.\<close>

definition crem :: "int \<Rightarrow> int \<Rightarrow> int" where
  "crem a b = sgn a * (\<bar>a\<bar> mod \<bar>b\<bar>)"

definition sdsnewlen_at :: "u8 list \<Rightarrow> int \<Rightarrow> int \<Rightarrow> u8 list res" where
  "sdsnewlen_at buf j n =
     (if 0 \<le> j \<and> 0 \<le> n \<and> j + n \<le> int (length buf) then Inr (peek buf (nat j) (nat n)) else Inl OutOfBounds)"

partial_function (option) reply_loop :: "int \<Rightarrow> u8 list \<Rightarrow> int \<Rightarrow> int \<Rightarrow> u8 list \<Rightarrow> u8 list res option" where
  "reply_loop sz buf j len out =
     (if len = 0 then tret out
      else
        let thislen = (if sz - j < len then sz - j else len) in
        (case sdsnewlen_at buf j thislen of
           Inl e \<Rightarrow> Some (Inl e)
         | Inr p \<Rightarrow> reply_loop sz buf 0 (len - thislen) (out @ p)))"

declare reply_loop.simps [code]

text \<open>The bytes of the backlog from \<open>offset\<close> on, put behind \<open>out\<close>, and their number.\<close>

definition addReplyReplicationBacklog :: "repl \<Rightarrow> u8 list \<Rightarrow> int \<Rightarrow> (int \<times> u8 list) res option" where
  "addReplyReplicationBacklog r out offset =
     (if rp_histlen r = 0 then tret (0, out)
      else
        let skip = offset - rp_off r;
            j = crem (rp_idx r + (rp_size r - rp_histlen r)) (rp_size r);
            j = crem (j + skip) (rp_size r);
            len = rp_histlen r - skip
        in case rp_backlog r of
             None \<Rightarrow> Some (Inl BadPointer)
           | Some buf \<Rightarrow> tbind (reply_loop (rp_size r) buf j len out) (\<lambda>out. tret (rp_histlen r - skip, out)))"

definition getPsyncInitialOffset :: "repl \<Rightarrow> int" where
  "getPsyncInitialOffset r = (if rp_backlog r = None then rp_offset r + 1 else rp_offset r)"

text \<open>Also the replica itself is changed; a failed write schedules it to be closed.\<close>

definition replicationSetupSlaveForFullResync :: "renv \<Rightarrow> repl \<Rightarrow> rclient \<Rightarrow> int \<Rightarrow> bool \<times> rclient \<times> repl" where
  "replicationSetupSlaveForFullResync env r s offset =
     (let s = s\<lparr>rc_psync_offset := offset, rc_replstate := WAIT_BGSAVE_END\<rparr>;
          r = r\<lparr>rp_seldb := - 1\<rparr>
      in if \<not> rc_pre_psync s \<and> \<not> e_write env (rc_id s) then (False, s\<lparr>rc_close := True\<rparr>, r) else (True, s, r))"

definition not_integer_error :: "u8 list" where
  "not_integer_error = bytes_of ''-ERR value is not an integer or out of range'' @ crlf"

text \<open>
  Whether the replica was attached: then it is the last of the list.  Otherwise
  it is returned, with the error of a request that names no offset in its output buffer.
\<close>

definition masterTryPartialResynchronization ::
  "renv \<Rightarrow> repl \<Rightarrow> rclient \<Rightarrow> u8 list \<Rightarrow> u8 list \<Rightarrow> (rclient option \<times> repl) res option" where
  "masterTryPartialResynchronization env r c runid arg =
     (if \<not> strcaseeq (cstr runid) (rp_runid r) then tret (Some c, r)
      else case getLongLongFromObject arg of
        None \<Rightarrow> tret (Some (add_output c not_integer_error), r)
      | Some psync_offset \<Rightarrow>
          if rp_backlog r = None \<or> psync_offset < rp_off r \<or> psync_offset > rp_off r + rp_histlen r then tret (Some c, r)
          else
            let c = c\<lparr>rc_slave := True, rc_replstate := REPL_ONLINE, rc_ack_time := e_time env, rc_put_online_on_ack := False\<rparr> in
            if \<not> e_write env (rc_id c) then tret (None, r\<lparr>rp_slaves := rp_slaves r @ [c\<lparr>rc_close := True\<rparr>]\<rparr>)
            else
              tbind (addReplyReplicationBacklog r (rc_out c) psync_offset) (\<lambda>(_, out).
              tret (None, r\<lparr>rp_slaves := rp_slaves r @ [(if out = rc_out c then c else prepareClientToWrite c)\<lparr>rc_out := out\<rparr>]\<rparr>)))"

section \<open>Full resynchronization\<close>

fun setup_waiting :: "renv \<Rightarrow> repl \<Rightarrow> rclient list \<Rightarrow> rclient list \<times> repl" where
  "setup_waiting env r [] = ([], r)"
| "setup_waiting env r (s # ss) =
     (if rc_replstate s = WAIT_BGSAVE_START then
        let (_, s, r) = replicationSetupSlaveForFullResync env r s (getPsyncInitialOffset r);
            (ss, r) = setup_waiting env r ss
        in (s # ss, r)
      else let (ss, r) = setup_waiting env r ss in (s # ss, r))"

definition rdbSaveBackground :: "renv \<Rightarrow> repl \<Rightarrow> bool \<times> repl" where
  "rdbSaveBackground env r =
     (if rp_child r \<noteq> None then (False, r)
      else if \<not> e_fork env then (False, r)
      else (True, r\<lparr>rp_child := Some ChildDisk\<rparr>))"

definition rdbSaveToSlavesSockets :: "renv \<Rightarrow> repl \<Rightarrow> bool \<times> repl" where
  "rdbSaveToSlavesSockets env r =
     (if rp_child r \<noteq> None then (False, r)
      else if \<not> e_pipe env then (False, r)
      else
        let clientids = map rc_id (filter (\<lambda>s. rc_replstate s = WAIT_BGSAVE_START) (rp_slaves r));
            (ss, r) = setup_waiting env r (rp_slaves r);
            r = r\<lparr>rp_slaves := ss\<rparr>
        in if \<not> e_fork env then
             (False, r\<lparr>rp_slaves := map (\<lambda>s. if rc_id s \<in> set clientids then s\<lparr>rc_replstate := WAIT_BGSAVE_START\<rparr> else s) (rp_slaves r)\<rparr>)
           else (True, r\<lparr>rp_child := Some ChildSocket\<rparr>))"

text \<open>
  The replicas that wait are dropped when the save cannot be started; they are
  the second component.  A save also empties the cache of scripts, which is apart.
\<close>

definition bgsave_error :: "u8 list" where
  "bgsave_error = bytes_of ''-ERR BGSAVE failed, replication can'' @ [39] @ bytes_of ''t continue'' @ crlf"

definition drop_waiting :: "rclient \<Rightarrow> rclient" where
  "drop_waiting s = (add_output (s\<lparr>rc_slave := False\<rparr>) bgsave_error)\<lparr>rc_close_after_reply := True\<rparr>"

definition startBgsaveForReplication :: "renv \<Rightarrow> u32 \<Rightarrow> repl \<Rightarrow> bool \<times> rclient list \<times> repl" where
  "startBgsaveForReplication env mincapa r =
     (let socket_target = rp_diskless r \<and> mincapa AND SLAVE_CAPA_EOF \<noteq> 0;
          (ok, r) = (if socket_target then rdbSaveToSlavesSockets env r else rdbSaveBackground env r)
      in if \<not> ok then
           (False, map drop_waiting (filter (\<lambda>s. rc_replstate s = WAIT_BGSAVE_START) (rp_slaves r)),
             r\<lparr>rp_slaves := filter (\<lambda>s. rc_replstate s \<noteq> WAIT_BGSAVE_START) (rp_slaves r)\<rparr>)
         else if \<not> socket_target then
           let (ss, r) = setup_waiting env r (rp_slaves r) in (True, [], r\<lparr>rp_slaves := ss\<rparr>)
         else (True, [], r))"

datatype sync_reply = SyncIgnored | SyncErrLink | SyncErrPending | SyncContinue | SyncFull | SyncFailed

text \<open>
  \<open>psync\<close> holds the two arguments of \<open>PSYNC\<close>, and is \<open>None\<close> for \<open>SYNC\<close>.  In the
  first case of the full synchronization the new replica joins one that is
  already waiting for the end of a save, and gets a copy of its output buffer.
  (Of a buffer that is being sent the code also copies what was sent of the
  current block; but to a replica that waits nothing is sent, unless an error
  was added to its buffer before it became one.)
\<close>

definition attach_full :: "renv \<Rightarrow> repl \<Rightarrow> rclient \<Rightarrow> (sync_reply \<times> repl) res" where
  "attach_full env r c =
     (let c = c\<lparr>rc_replstate := WAIT_BGSAVE_START, rc_slave := True\<rparr>;
          slaves = rp_slaves r;
          (ok, r) =
            (if rp_child r = Some ChildDisk then
               (case filter (\<lambda>s. rc_replstate s = WAIT_BGSAVE_END) (slaves @ [c]) of
                  slave # _ \<Rightarrow>
                    if rc_capa c AND rc_capa slave = rc_capa slave then
                      let (_, c, r) = replicationSetupSlaveForFullResync env r (c\<lparr>rc_out := rc_out slave\<rparr>) (rc_psync_offset slave)
                      in (True, r\<lparr>rp_slaves := slaves @ [c]\<rparr>)
                    else (True, r\<lparr>rp_slaves := slaves @ [c]\<rparr>)
                | [] \<Rightarrow> (True, r\<lparr>rp_slaves := slaves @ [c]\<rparr>))
             else if rp_child r = Some ChildSocket then (True, r\<lparr>rp_slaves := slaves @ [c]\<rparr>)
             else if rp_diskless r \<and> rc_capa c AND SLAVE_CAPA_EOF \<noteq> 0 then (True, r\<lparr>rp_slaves := slaves @ [c]\<rparr>)
             else let (ok, _, r) = startBgsaveForReplication env (rc_capa c) (r\<lparr>rp_slaves := slaves @ [c]\<rparr>) in (ok, r))
      in if \<not> ok then Inr (SyncFailed, r)
         else if length (rp_slaves r) = 1 \<and> rp_backlog r = None then rbind (createReplicationBacklog r) (\<lambda>r. Inr (SyncFull, r))
         else Inr (SyncFull, r))"

definition syncCommand :: "renv \<Rightarrow> repl \<Rightarrow> rclient \<Rightarrow> (u8 list \<times> u8 list) option \<Rightarrow> (sync_reply \<times> repl) res option" where
  "syncCommand env r c psync =
     (if rc_slave c then tret (SyncIgnored, r)
      else if e_link_down env then tret (SyncErrLink, r)
      else if rc_out c \<noteq> [] then tret (SyncErrPending, r)
      else case psync of
        Some (runid, arg) \<Rightarrow>
          tbind (masterTryPartialResynchronization env r c runid arg) (\<lambda>(c, r).
          case c of None \<Rightarrow> tret (SyncContinue, r) | Some c \<Rightarrow> Some (attach_full env r c))
      | None \<Rightarrow> Some (attach_full env r (c\<lparr>rc_pre_psync := True\<rparr>)))"

section \<open>Life of a replica\<close>

text \<open>The end of a client: it is the replica \<open>i\<close>, or none.\<close>

definition freeSlave :: "renv \<Rightarrow> nat \<Rightarrow> repl \<Rightarrow> repl" where
  "freeSlave env i r =
     (if i \<notin> set (map rc_id (rp_slaves r)) then r
      else let r = r\<lparr>rp_slaves := filter (\<lambda>s. rc_id s \<noteq> i) (rp_slaves r)\<rparr> in
      if rp_slaves r = [] then r\<lparr>rp_no_slaves_since := e_time env\<rparr> else r)"

definition putSlaveOnline :: "renv \<Rightarrow> rclient \<Rightarrow> rclient" where
  "putSlaveOnline env s = s\<lparr>rc_replstate := REPL_ONLINE, rc_put_online_on_ack := False, rc_ack_time := e_time env, rc_handler := True\<rparr>"

text \<open>\<open>REPLCONF ACK\<close> from the replica \<open>s\<close>.\<close>

definition replconf_ack :: "renv \<Rightarrow> rclient \<Rightarrow> u8 list \<Rightarrow> rclient" where
  "replconf_ack env s arg =
     (if \<not> rc_slave s then s
      else case getLongLongFromObject arg of
        None \<Rightarrow> s
      | Some offset \<Rightarrow>
          let s = (if offset > rc_ack_off s then s\<lparr>rc_ack_off := offset\<rparr> else s)\<lparr>rc_ack_time := e_time env\<rparr> in
          if rc_put_online_on_ack s \<and> rc_replstate s = REPL_ONLINE then putSlaveOnline env s else s)"

text \<open>
  The end of a save: \<open>mincapa\<close> is what the waiting replicas have in common.
  A replica has the capability \<open>SLAVE_CAPA_EOF\<close> or none, so that the code's \<open>-1\<close>
  for no replica is \<open>None\<close> here.  While the file is sent, its handler takes the
  place of \<open>sendReplyToClient\<close>.
\<close>

fun min_capa :: "rclient list \<Rightarrow> u32 option \<Rightarrow> u32 option" where
  "min_capa [] m = m"
| "min_capa (s # ss) m =
     min_capa ss (if rc_replstate s = WAIT_BGSAVE_START
                  then Some (case m of None \<Rightarrow> rc_capa s | Some m \<Rightarrow> m AND rc_capa s) else m)"

definition saved_slave :: "renv \<Rightarrow> bool \<Rightarrow> rdb_child \<Rightarrow> rclient \<Rightarrow> rclient option" where
  "saved_slave env bgsaveok ty s =
     (if rc_replstate s = WAIT_BGSAVE_END then
        if ty = ChildSocket then Some (s\<lparr>rc_replstate := REPL_ONLINE, rc_put_online_on_ack := True, rc_ack_time := e_time env\<rparr>)
        else if \<not> bgsaveok then None
        else if \<not> e_open env (rc_id s) then None
        else Some (s\<lparr>rc_replstate := SEND_BULK, rc_handler := False\<rparr>)
      else Some s)"

definition updateSlavesWaitingBgsave :: "renv \<Rightarrow> bool \<Rightarrow> rdb_child \<Rightarrow> repl \<Rightarrow> repl" where
  "updateSlavesWaitingBgsave env bgsaveok ty r =
     (let waiting = min_capa (rp_slaves r) None;
          ss = List.map_filter (saved_slave env bgsaveok ty) (rp_slaves r);
          since = (if ss = [] \<and> rp_slaves r \<noteq> [] then e_time env else rp_no_slaves_since r);
          r = r\<lparr>rp_slaves := ss, rp_no_slaves_since := since\<rparr>
      in case waiting of None \<Rightarrow> r | Some mincapa \<Rightarrow> snd (snd (startBgsaveForReplication env mincapa r)))"

text \<open>
  The child of a save has ended; of one that writes to the sockets, \<open>served\<close> are the
  replicas its report says it served.
\<close>

definition backgroundSaveDoneHandler :: "renv \<Rightarrow> bool \<Rightarrow> nat list \<Rightarrow> repl \<Rightarrow> repl res" where
  "backgroundSaveDoneHandler env ok served r =
     (case rp_child r of
        None \<Rightarrow> Inl AssertFailed
      | Some ChildDisk \<Rightarrow> Inr (updateSlavesWaitingBgsave env ok ChildDisk (r\<lparr>rp_child := None\<rparr>))
      | Some ChildSocket \<Rightarrow>
          let ss = filter (\<lambda>s. rc_replstate s = WAIT_BGSAVE_END \<longrightarrow> ok \<and> rc_id s \<in> set served) (rp_slaves r);
              since = (if ss = [] \<and> rp_slaves r \<noteq> [] then e_time env else rp_no_slaves_since r)
          in Inr (updateSlavesWaitingBgsave env ok ChildSocket (r\<lparr>rp_child := None, rp_slaves := ss, rp_no_slaves_since := since\<rparr>)))"

definition bulk_sent :: "renv \<Rightarrow> rclient \<Rightarrow> rclient" where
  "bulk_sent env s = (if rc_replstate s = SEND_BULK then putSlaveOnline env s else s)"

section \<open>The cron\<close>

definition timed_out :: "renv \<Rightarrow> rclient \<Rightarrow> bool" where
  "timed_out env s \<longleftrightarrow> rc_replstate s = REPL_ONLINE \<and> \<not> rc_pre_psync s \<and> e_time env - rc_ack_time s > e_timeout env"

definition max_idle :: "renv \<Rightarrow> rclient list \<Rightarrow> int" where
  "max_idle env ss =
     fold (\<lambda>s m. if rc_replstate s = WAIT_BGSAVE_START \<and> e_time env - rc_last_interaction s > m
                 then e_time env - rc_last_interaction s else m) ss 0"

definition cron_drop :: "renv \<Rightarrow> repl \<Rightarrow> repl res" where
  "cron_drop env r =
     (let ss = filter (\<lambda>s. \<not> timed_out env s) (rp_slaves r);
          since = (if ss = [] \<and> rp_slaves r \<noteq> [] then e_time env else rp_no_slaves_since r);
          r = r\<lparr>rp_slaves := ss, rp_no_slaves_since := since\<rparr>
      in if ss = [] \<and> e_backlog_limit env \<noteq> 0 \<and> rp_backlog r \<noteq> None \<and> e_time env - rp_no_slaves_since r > e_backlog_limit env
         then freeReplicationBacklog r else Inr r)"

definition cron_bgsave :: "renv \<Rightarrow> repl \<Rightarrow> repl" where
  "cron_bgsave env r =
     (if rp_child r = None \<and> \<not> e_aof_child env then
        case min_capa (rp_slaves r) None of
          None \<Rightarrow> r
        | Some mincapa \<Rightarrow>
            if max_idle env (rp_slaves r) > e_diskless_delay env then snd (snd (startBgsaveForReplication env mincapa r)) else r
      else r)"

text \<open>\<open>loops\<close> counts the calls.\<close>

definition replicationCron :: "renv \<Rightarrow> int \<Rightarrow> repl \<Rightarrow> repl res option" where
  "replicationCron env loops r =
     tbind (if loops mod e_ping_period env = 0 then replicationFeedSlaves r (rp_seldb r) [OStr (bytes_of ''PING'')] else tret r) (\<lambda>r.
     tbind (Some (cron_drop env r)) (\<lambda>r. tret (cron_bgsave env r)))"

section \<open>Waiting for replicas\<close>

record waiter =
  wt_id :: nat
  wt_timeout :: int
  wt_reploffset :: int
  wt_numreplicas :: u32

datatype wait_result = WaitNotInteger | WaitTimeoutNotInteger | WaitTimeoutNegative | WaitReply int | WaitBlocked waiter

definition replicationCountAcksByOffset :: "repl \<Rightarrow> int \<Rightarrow> int" where
  "replicationCountAcksByOffset r offset =
     fold (\<lambda>s count. if rc_replstate s \<noteq> REPL_ONLINE then count
                     else if rc_ack_off s \<ge> offset then count + 1 else count) (rp_slaves r) 0"

text \<open>\<open>now\<close> is the time in milliseconds; the inner \<open>None\<close> is an error that was replied.\<close>

definition getTimeout_ms :: "int \<Rightarrow> u8 list \<Rightarrow> (wait_result + int) res" where
  "getTimeout_ms now arg =
     (case getLongLongFromObject arg of
        None \<Rightarrow> Inr (Inl WaitTimeoutNotInteger)
      | Some tval \<Rightarrow>
          if tval < 0 then Inr (Inl WaitTimeoutNegative)
          else if tval > 0 then (if tval + now < 2 ^ 63 then Inr (Inr (tval + now)) else Inl SignedOverflow)
          else Inr (Inr tval))"

text \<open>
  \<open>woff\<close> is the offset of the last write of the client \<open>i\<close>, \<open>multi\<close> whether it is
  in a transaction.  A client that blocks goes to the end of the list of waiters.
\<close>

definition waitCommand ::
  "int \<Rightarrow> repl \<Rightarrow> waiter list \<Rightarrow> nat \<Rightarrow> int \<Rightarrow> bool \<Rightarrow> u8 list \<Rightarrow> u8 list \<Rightarrow> (wait_result \<times> waiter list) res" where
  "waitCommand now r ws i woff multi narg targ =
     (case getLongLongFromObject narg of
        None \<Rightarrow> Inr (WaitNotInteger, ws)
      | Some numreplicas \<Rightarrow>
          rbind (getTimeout_ms now targ) (\<lambda>t.
          case t of
            Inl e \<Rightarrow> Inr (e, ws)
          | Inr timeout \<Rightarrow>
              let ackreplicas = replicationCountAcksByOffset r woff in
              if ackreplicas \<ge> numreplicas \<or> multi then Inr (WaitReply ackreplicas, ws)
              else
                let w = \<lparr>wt_id = i, wt_timeout = timeout, wt_reploffset = woff, wt_numreplicas = of_int numreplicas\<rparr>
                in Inr (WaitBlocked w, ws @ [w])))"

text \<open>The waiters that remain and the replies given, in order.\<close>

fun wait_loop :: "repl \<Rightarrow> int \<Rightarrow> int \<Rightarrow> waiter list \<Rightarrow> waiter list \<times> (nat \<times> int) list" where
  "wait_loop r last_offset last_numreplicas [] = ([], [])"
| "wait_loop r last_offset last_numreplicas (w # ws) =
     (if last_offset \<noteq> 0 \<and> last_offset > wt_reploffset w \<and> last_numreplicas > sint (wt_numreplicas w) then
        let (rest, replies) = wait_loop r last_offset last_numreplicas ws in (rest, (wt_id w, last_numreplicas) # replies)
      else
        let numreplicas = replicationCountAcksByOffset r (wt_reploffset w) in
        if numreplicas \<ge> sint (wt_numreplicas w) then
          let (rest, replies) = wait_loop r (wt_reploffset w) numreplicas ws in (rest, (wt_id w, numreplicas) # replies)
        else
          let (rest, replies) = wait_loop r last_offset last_numreplicas ws in (w # rest, replies))"

definition processClientsWaitingReplicas :: "repl \<Rightarrow> waiter list \<Rightarrow> waiter list \<times> (nat \<times> int) list" where
  "processClientsWaitingReplicas r ws = wait_loop r 0 0 ws"

section \<open>Scripts the replicas know\<close>

text \<open>The digests are in a table, and in a list with the newest first.\<close>

record script_cache =
  sc_size :: nat
  sc_dict :: "u8 list set"
  sc_fifo :: "u8 list list"

definition replicationScriptCacheInit :: script_cache where
  "replicationScriptCacheInit = \<lparr>sc_size = 10000, sc_dict = {}, sc_fifo = []\<rparr>"

definition replicationScriptCacheFlush :: "script_cache \<Rightarrow> script_cache" where
  "replicationScriptCacheFlush sc = sc\<lparr>sc_dict := {}, sc_fifo := []\<rparr>"

definition sc_evict :: "script_cache \<Rightarrow> script_cache res" where
  "sc_evict sc =
     (if length (sc_fifo sc) = sc_size sc then
        (if sc_fifo sc = [] then Inl BadPointer
         else
           let oldest = last (sc_fifo sc) in
           if oldest \<notin> sc_dict sc then Inl AssertFailed
           else Inr (sc\<lparr>sc_dict := sc_dict sc - {oldest}, sc_fifo := butlast (sc_fifo sc)\<rparr>))
      else Inr sc)"

definition replicationScriptCacheAdd :: "u8 list \<Rightarrow> script_cache \<Rightarrow> script_cache res" where
  "replicationScriptCacheAdd sha1 sc =
     rbind (sc_evict sc) (\<lambda>sc.
     if sha1 \<in> sc_dict sc then Inl AssertFailed
     else Inr (sc\<lparr>sc_dict := insert sha1 (sc_dict sc), sc_fifo := sha1 # sc_fifo sc\<rparr>))"

definition replicationScriptCacheExists :: "u8 list \<Rightarrow> script_cache \<Rightarrow> bool" where
  "replicationScriptCacheExists sha1 sc \<longleftrightarrow> sha1 \<in> sc_dict sc"

end
