(* ===== verification/ReplTheorems.thy ===== *)
theory ReplTheorems
  imports Replication
begin

text \<open>
  The replication stream.  The backlog holds its last bytes, every attached
  replica gets all of it from some offset on, and a partial resynchronization
  gives a replica exactly the bytes it misses.
\<close>

section \<open>The text of a command\<close>

definition obj_dec :: "robj \<Rightarrow> u8 list" where
  "obj_dec ob = (case ob of OStr s \<Rightarrow> s | OInt v \<Rightarrow> dec_int (sint v))"

definition obj_ok :: "robj \<Rightarrow> bool" where
  "obj_ok ob \<longleftrightarrow> (case ob of OStr s \<Rightarrow> length s < 2 ^ 63 | OInt v \<Rightarrow> True)"

text \<open>The only object whose length \<open>addReplyBulkLen\<close> cannot count.\<close>

definition least_long :: "robj \<Rightarrow> bool" where
  "least_long ob \<longleftrightarrow> (case ob of OStr s \<Rightarrow> False | OInt v \<Rightarrow> sint v = - (2 ^ 63))"

definition bulk_text :: "robj \<Rightarrow> u8 list" where
  "bulk_text ob = byte_of CHR ''$'' # dec_nat (length (obj_dec ob)) @ crlf @ obj_dec ob @ crlf"

definition command_text :: "robj list \<Rightarrow> u8 list" where
  "command_text argv = byte_of CHR ''*'' # dec_nat (length argv) @ crlf @ concat (map bulk_text argv)"

lemma obj_text_dec: "obj_text ob = obj_dec ob"
proof (cases ob)
  case (OInt v)
  have "length (dec_int (sint v)) < REDIS_LONGSTR_SIZE" using dec_int_s64 [of v] by (simp add: REDIS_LONGSTR_SIZE_def)
  then show ?thesis by (simp add: OInt obj_text_def obj_dec_def ll2string_fits poke_def)
qed (simp add: obj_text_def obj_dec_def)

lemma stringObjectLen_dec: "stringObjectLen ob = length (obj_dec ob)"
proof (cases ob)
  case (OInt v)
  have "length (dec_int (sint v)) < 32" using dec_int_s64 [of v] by simp
  then show ?thesis by (simp add: OInt stringObjectLen_def obj_dec_def ll2string_fits)
qed (simp add: stringObjectLen_def obj_dec_def)

lemma obj_dec_small: "obj_ok ob \<Longrightarrow> length (obj_dec ob) < 2 ^ 63"
  by (cases ob) (auto simp: obj_ok_def obj_dec_def intro: le_less_trans [OF dec_int_s64])

lemma put_header_spec:
  assumes "24 \<le> length buf" and "n < 2 ^ 63"
  shows "\<exists>buf'. put_header buf prefix (of_nat n) = Inr (buf', length (dec_nat n)) \<and> length buf' = length buf \<and>
    take (length (dec_nat n) + 3) buf' = prefix # dec_nat n @ crlf \<and> take 2 (drop (length (dec_nat n) + 1) buf') = crlf"
proof -
  let ?d = "dec_nat n"
  have dec: "dec_int (sint (of_nat n :: u64)) = ?d" using assms(2) by (simp add: sint_of_nat dec_int_def)
  have len: "length ?d \<le> 20" using dec_int_s64 [of "of_nat n"] dec by simp
  then obtain d' where d': "ll2string (tl buf) (length buf - 1) (of_nat n) = (length ?d, ?d @ d')" "length d' = length buf - 1 - length ?d"
    using assms(1) dec ll2string_fits [of "of_nat n" "length buf - 1" "tl buf"] by (auto simp: poke_def)
  have l3: "3 \<le> length d'" using d'(2) len assms(1) by simp
  then obtain x y z where d: "d' = x # y # z" by (metis Suc_le_length_iff numeral_3_eq_3)
  have upd: "(prefix # ?d @ x # y # z)[length ?d + 1 := 13, length ?d + 2 := 10] = prefix # ?d @ 13 # 10 # z"
    by (simp add: list_update_append nat.case_eq_if)
  have "put_header buf prefix (of_nat n) = Inr (prefix # ?d @ 13 # 10 # z, length ?d)"
    unfolding put_header_def d'(1) using upd d l3 by simp
  moreover have "length (prefix # ?d @ 13 # 10 # z) = length buf" using d d'(2) len assms(1) by simp
  moreover have "take (length ?d + 3) (prefix # ?d @ 13 # 10 # z) = prefix # ?d @ crlf"
    by (simp add: crlf_def numeral_3_eq_3)
  moreover have "take 2 (drop (length ?d + 1) (prefix # ?d @ 13 # 10 # z)) = crlf" by (simp add: crlf_def numeral_2_eq_2)
  ultimately show ?thesis by blast
qed

lemma prefix_text:
  assumes "n < 2 ^ 63"
  shows "addReplyLongLongWithPrefix out n prefix = Inr (out @ prefix # dec_nat n @ crlf)"
proof -
  obtain buf where "put_header (replicate 128 0) prefix (of_nat n) = Inr (buf, length (dec_nat n))"
    "take (length (dec_nat n) + 3) buf = prefix # dec_nat n @ crlf"
    using put_header_spec [of "replicate 128 0" n prefix] assms by auto
  then show ?thesis by (simp add: addReplyLongLongWithPrefix_def shared_hdr_def)
qed

lemma div10_loop_spec: "div10_loop n len = len + length (dec_nat n) - 1"
proof (induction n len rule: div10_loop.induct)
  case (1 n len)
  show ?case
  proof (cases "n div 10 = 0")
    case True
    then have "n < 10" by auto
    then show ?thesis by (simp add: div10_loop.simps dec_nat.simps)
  next
    case False
    then have "\<not> n < 10" by auto
    then have "length (dec_nat n) = Suc (length (dec_nat (n div 10)))" by (simp add: dec_nat.simps [of n])
    moreover have "0 < length (dec_nat (n div 10))" by simp
    ultimately show ?thesis using 1 [OF False] False by (simp add: div10_loop.simps [of n len])
  qed
qed

lemma int_len_spec:
  assumes "sint v \<noteq> - (2 ^ 63)"
  shows "int_len v = Inr (length (dec_int (sint v)))"
proof -
  have "0 < length (dec_nat (nat \<bar>sint v\<bar>))" by simp
  then show ?thesis using assms by (simp add: int_len_def div10_loop_spec dec_int_def)
qed

lemma addReplyBulk_text:
  assumes "obj_ok ob" and "\<not> least_long ob"
  shows "addReplyBulk out ob = Inr (out @ bulk_text ob)"
proof -
  have "(case ob of OStr s \<Rightarrow> Inr (length s) | OInt v \<Rightarrow> int_len v) = Inr (length (obj_dec ob))"
    using assms(2) by (auto simp: least_long_def obj_dec_def int_len_spec split: robj.splits)
  then show ?thesis using prefix_text [OF obj_dec_small [OF assms(1)]]
    by (simp add: addReplyBulk_def addReplyBulkLen_def shared_hdr_def bulk_text_def obj_text_dec)
qed

lemma add_bulks_text:
  "\<forall>ob \<in> set argv. obj_ok ob \<and> \<not> least_long ob \<Longrightarrow> add_bulks out argv = Inr (out @ concat (map bulk_text argv))"
  by (induction argv arbitrary: out) (simp_all add: addReplyBulk_text)

lemma add_bulks_fault:
  assumes "\<forall>ob \<in> set argv. obj_ok ob" and "\<exists>ob \<in> set argv. least_long ob"
  shows "add_bulks out argv = Inl SignedOverflow"
  using assms
proof (induction argv arbitrary: out)
  case (Cons ob argv)
  show ?case
  proof (cases "least_long ob")
    case True
    then have "addReplyBulk out ob = Inl SignedOverflow"
      by (auto simp: least_long_def addReplyBulk_def addReplyBulkLen_def int_len_def split: robj.splits)
    then show ?thesis by simp
  next
    case False
    then show ?thesis using Cons by (simp add: addReplyBulk_text)
  qed
qed simp

text \<open>Every replica that does not wait for a save to start gets the text the backlog gets.\<close>

definition deliver :: "u8 list \<Rightarrow> rclient \<Rightarrow> rclient" where
  "deliver p s = (if rc_replstate s = WAIT_BGSAVE_START then s else add_output s p)"

lemma prepare_simps [simp]:
  "rc_id (prepareClientToWrite s) = rc_id s" "rc_replstate (prepareClientToWrite s) = rc_replstate s"
  "rc_out (prepareClientToWrite s) = rc_out s" "rc_sent (prepareClientToWrite s) = rc_sent s"
  "rc_psync_offset (prepareClientToWrite s) = rc_psync_offset s"
  "rc_put_online_on_ack (prepareClientToWrite s) = rc_put_online_on_ack s"
  by (simp_all add: prepareClientToWrite_def)

lemma add_output_simps [simp]:
  "rc_id (add_output s p) = rc_id s" "rc_replstate (add_output s p) = rc_replstate s" "rc_out (add_output s p) = rc_out s @ p"
  "rc_sent (add_output s p) = rc_sent s" "rc_psync_offset (add_output s p) = rc_psync_offset s"
  by (simp_all add: add_output_def)

lemma waiting_handler [simp]:
  "rc_replstate s = WAIT_BGSAVE_START \<Longrightarrow> rc_handler (add_output s p) = rc_handler s"
  "rc_replstate s = WAIT_BGSAVE_END \<Longrightarrow> rc_handler (add_output s p) = rc_handler s"
  by (simp_all add: add_output_def prepareClientToWrite_def)

lemma add_output_twice: "add_output (add_output s p) q = add_output s (p @ q)"
  by (auto simp: add_output_def prepareClientToWrite_def)

definition bulks_overflow :: "robj list \<Rightarrow> rclient list \<Rightarrow> bool" where
  "bulks_overflow argv ss \<longleftrightarrow> (\<exists>ob \<in> set argv. least_long ob) \<and> (\<exists>s \<in> set ss. rc_replstate s \<noteq> WAIT_BGSAVE_START)"

lemma feed_slaves_text:
  assumes "\<forall>ob \<in> set argv. obj_ok ob" and "length argv < 2 ^ 63"
  shows "feed_slaves argv ss =
    (if bulks_overflow argv ss then Inl SignedOverflow else Inr (map (deliver (command_text argv)) ss))"
proof -
  have len: "addReplyMultiBulkLen out (length argv) = Inr (out @ byte_of CHR ''*'' # dec_nat (length argv) @ crlf)" for out
    using prefix_text [OF assms(2)] by (simp add: addReplyMultiBulkLen_def shared_hdr_def)
  show ?thesis
  proof (cases "\<exists>ob \<in> set argv. least_long ob")
    case True
    then show ?thesis using add_bulks_fault [OF assms(1) True] len
      by (induction ss) (auto simp: bulks_overflow_def deliver_def)
  next
    case False
    then have "add_bulks out argv = Inr (out @ concat (map bulk_text argv))" for out using assms(1) by (intro add_bulks_text) blast
    then show ?thesis using False len
      by (induction ss) (auto simp: bulks_overflow_def deliver_def add_output_def command_text_def)
  qed
qed

section \<open>The circular buffer\<close>

text \<open>The place of the byte written \<open>k\<close> bytes before the last one, when the next one goes to \<open>i\<close>.\<close>

definition back_pos :: "nat \<Rightarrow> nat \<Rightarrow> nat \<Rightarrow> nat" where
  "back_pos sz i k = (if k < i then i - 1 - k else sz + i - 1 - k)"

definition ring_holds :: "nat \<Rightarrow> u8 list \<Rightarrow> nat \<Rightarrow> nat \<Rightarrow> u8 list \<Rightarrow> bool" where
  "ring_holds sz buf i n hs \<longleftrightarrow>
     length buf = sz \<and> i < sz \<and> n \<le> length hs \<and> (\<forall>k < min n sz. buf ! back_pos sz i k = hs ! (length hs - 1 - k))"

lemma ring_write:
  assumes ring: "ring_holds sz buf i n hs" and fit: "i + length p \<le> sz"
  shows "ring_holds sz (poke buf i p) (if i + length p = sz then 0 else i + length p) (n + length p) (hs @ p)"
proof -
  let ?m = "length p" and ?i = "if i + length p = sz then 0 else i + length p"
  note R = ring [unfolded ring_holds_def]
  have at: "poke buf i p ! j = (if j < i then buf ! j else if j < i + ?m then p ! (j - i) else buf ! j)" if "j < sz" for j
    using that fit R by (auto simp: poke_def nth_append)
  have "poke buf i p ! back_pos sz ?i k = (hs @ p) ! (length (hs @ p) - 1 - k)" if k: "k < min (n + ?m) sz" for k
  proof (cases "k < ?m")
    case True
    let ?q = "?m - 1 - k"
    have q: "?q < ?m" "i + ?q < sz" using True fit by auto
    have "back_pos sz ?i k = i + ?q" using True fit by (auto simp: back_pos_def)
    moreover have "poke buf i p ! (i + ?q) = p ! ?q" using at [OF q(2)] q(1) by simp
    moreover have "length (hs @ p) - 1 - k = length hs + ?q" using True by simp
    moreover have "(hs @ p) ! (length hs + ?q) = p ! ?q" by (rule nth_append_length_plus)
    ultimately show ?thesis by (simp only:)
  next
    case False
    have kn: "k - ?m < min n sz" using k False by auto
    have old: "buf ! back_pos sz i (k - ?m) = hs ! (length hs - 1 - (k - ?m))" using R kn by blast
    have pos: "back_pos sz ?i k = back_pos sz i (k - ?m)" "back_pos sz i (k - ?m) < sz"
      "\<not> (i \<le> back_pos sz i (k - ?m) \<and> back_pos sz i (k - ?m) < i + ?m)"
      using False k fit R by (auto simp: back_pos_def)
    have "length (hs @ p) - 1 - k = length hs - 1 - (k - ?m)" using False by simp
    moreover have "length hs - 1 - (k - ?m) < length hs" using R kn by auto
    ultimately have "(hs @ p) ! (length (hs @ p) - 1 - k) = hs ! (length hs - 1 - (k - ?m))"
      by (simp only: nth_append if_True)
    moreover have "poke buf i p ! back_pos sz i (k - ?m) = buf ! back_pos sz i (k - ?m)"
      using at [OF pos(2)] pos(3) by (simp split: if_splits)
    ultimately show ?thesis using old pos(1) by (simp only:)
  qed
  moreover have "?i < sz" using R fit by auto
  ultimately show ?thesis using R fit by (simp add: ring_holds_def buf_simps)
qed

lemma feed_loop_spec:
  assumes "ring_holds sz buf i n hs"
  shows "\<exists>buf' i'. feed_loop (int sz) p buf (int i) (int n) = tret (buf', int i', int (n + length p)) \<and>
    ring_holds sz buf' i' (n + length p) (hs @ p)"
  using assms
proof (induction "length p" arbitrary: p buf i n hs rule: less_induct)
  case less
  show ?case
  proof (cases "p = []")
    case True
    then show ?thesis using less.prems by (subst feed_loop.simps) auto
  next
    case False
    define t where "t = min (length p) (sz - i)"
    have i: "i < sz" "length buf = sz" using less.prems by (auto simp: ring_holds_def)
    then have t: "0 < t" "t \<le> length p" "i + t \<le> sz" using False by (auto simp: t_def)
    have len: "(if int sz - int i > int (length p) then int (length p) else int sz - int i) = int t" using i by (auto simp: t_def)
    have cp: "memcpy_at buf (int i) (take t p) = Inr (poke buf i (take t p))" using t i by (simp add: memcpy_at_def)
    let ?i = "if i + t = sz then 0 else i + t"
    have l: "length (take t p) = t" using t by simp
    have ring: "ring_holds sz (poke buf i (take t p)) ?i (n + t) (hs @ take t p)"
      by (rule ring_write [OF less.prems, of "take t p", unfolded l, OF t(3)])
    have nx: "(if int i + int t = int sz then 0 else int i + int t) = int ?i" by auto
    have small: "length (drop t p) < length p" using t by simp
    have run: "feed_loop (int sz) p buf (int i) (int n) = feed_loop (int sz) (drop t p) (poke buf i (take t p)) (int ?i) (int (n + t))"
      using False by (subst feed_loop.simps) (simp only: len nat_int cp nx Let_def if_False sum.case of_nat_add)
    obtain buf' i' where "feed_loop (int sz) (drop t p) (poke buf i (take t p)) (int ?i) (int (n + t)) =
      tret (buf', int i', int (n + t + length (drop t p)))"
      "ring_holds sz buf' i' (n + t + length (drop t p)) ((hs @ take t p) @ drop t p)"
      using less.hyps [OF small ring] by blast
    moreover have "n + t + length (drop t p) = n + length p" "(hs @ take t p) @ drop t p = hs @ p" using t by simp_all
    ultimately show ?thesis using run by auto
  qed
qed

text \<open>Reading the last \<open>len\<close> bytes.\<close>

lemma sdsnewlen_nat: "sdsnewlen_at buf (int j) (int n) = (if j + n \<le> length buf then Inr (peek buf j n) else Inl OutOfBounds)"
  by (simp add: sdsnewlen_at_def)

lemma reply_done: "reply_loop sz buf j 0 out = tret out"
  by (subst reply_loop.simps) simp

lemma reply_step:
  assumes "len \<noteq> 0" and "(if sz - j < len then sz - j else len) = t" and "sdsnewlen_at buf j t = Inr p"
  shows "reply_loop sz buf j len out = reply_loop sz buf 0 (len - t) (out @ p)"
  using assms by (subst reply_loop.simps) (simp add: Let_def)

lemma reply_loop_spec:
  assumes ring: "ring_holds sz buf i n hs" and len: "len \<le> min n sz"
  shows "reply_loop (int sz) buf (int ((i + (sz - len)) mod sz)) (int len) out = tret (out @ drop (length hs - len) hs)"
proof (cases "len = 0")
  case True
  then show ?thesis by (simp add: reply_done)
next
  case False
  note R = ring [unfolded ring_holds_def]
  let ?j = "(i + (sz - len)) mod sz"
  have nth: "drop (length hs - len) hs ! m = buf ! back_pos sz i (len - 1 - m)" if "m < len" for m
  proof -
    have k: "len - 1 - m < min n sz" using that len by auto
    have le: "len \<le> length hs" using R len by auto
    have "buf ! back_pos sz i (len - 1 - m) = hs ! (length hs - 1 - (len - 1 - m))" using R k by blast
    moreover have "length hs - 1 - (len - 1 - m) = length hs - len + m" using that le by auto
    ultimately show ?thesis using le by (simp add: nth_drop)
  qed
  have l: "length (drop (length hs - len) hs) = len" using R len by simp
  show ?thesis
  proof (cases "len \<le> i")
    case True
    have "i + (sz - len) = (i - len) + sz" using True len by auto
    moreover have "i - len < sz" using R by auto
    ultimately have j: "?j = i - len" by simp
    have cut: "(if int sz - int ?j < int len then int sz - int ?j else int len) = int len" using R j True by auto
    have "peek buf ?j len = drop (length hs - len) hs"
      using R j True len nth l by (intro nth_equalityI) (auto simp: peek_def back_pos_def)
    moreover have "?j + len \<le> length buf" using R j True by auto
    ultimately have "sdsnewlen_at buf (int ?j) (int len) = Inr (drop (length hs - len) hs)"
      by (simp only: sdsnewlen_nat if_True)
    then show ?thesis using reply_step [OF _ cut] reply_done False by simp
  next
    case far: False
    let ?a = "len - i"
    have "i + (sz - len) = sz - ?a" "sz - ?a < sz" using R len far by auto
    then have j: "?j = sz - ?a" by simp
    have a: "0 < ?a" "?a \<le> sz" using far len by auto
    show ?thesis
    proof (cases "i = 0")
      case True
      have cut: "(if int sz - int ?j < int len then int sz - int ?j else int len) = int len" using R j True len by auto
      have "peek buf ?j len = drop (length hs - len) hs"
        using R j True len nth l by (intro nth_equalityI) (auto simp: peek_def back_pos_def)
      moreover have "?j + len \<le> length buf" using R j True len by auto
      ultimately have "sdsnewlen_at buf (int ?j) (int len) = Inr (drop (length hs - len) hs)"
        by (simp only: sdsnewlen_nat if_True)
      then show ?thesis using reply_step [OF _ cut] reply_done False by simp
    next
      case i0: False
      have cut1: "(if int sz - int ?j < int len then int sz - int ?j else int len) = int ?a" using R j i0 far a by auto
      have rest: "int len - int ?a = int i" using far by auto
      have cut2: "(if int sz - 0 < int i then int sz - 0 else int i) = int i" using R by auto
      have "peek buf ?j ?a @ peek buf 0 i = drop (length hs - len) hs"
        using R j far len nth l a by (intro nth_equalityI) (auto simp: peek_def back_pos_def nth_append add.commute)
      moreover have "sdsnewlen_at buf (int ?j) (int ?a) = Inr (peek buf ?j ?a)" "sdsnewlen_at buf 0 (int i) = Inr (peek buf 0 i)"
        using R j a sdsnewlen_nat [of buf ?j ?a] sdsnewlen_nat [of buf 0 i] by auto
      ultimately show ?thesis using reply_step [OF _ cut1] reply_step [of "int i" "int sz" 0, OF _ cut2] False i0 rest reply_done by simp
    qed
  qed
qed

section \<open>The invariant\<close>

text \<open>
  The stream \<open>hs\<close> starts behind the offset \<open>b\<close>.  A replica that waits for a save
  to start has got nothing; any other has got all bytes from some place on, and
  one that waits for the end of a save from the place of its initial offset, and
  nothing of it has been sent.  The flag \<open>k\<close> tells whether this is known of the replicas.
\<close>

definition slave_ok :: "bool \<Rightarrow> int \<Rightarrow> u8 list \<Rightarrow> rclient \<Rightarrow> bool" where
  "slave_ok k b hs s \<longleftrightarrow> k \<longrightarrow>
     (if rc_replstate s = WAIT_BGSAVE_START then rc_out s = [] \<and> rc_sent s = [] \<and> \<not> rc_handler s
      else \<exists>n \<le> length hs. rc_sent s @ rc_out s = drop n hs \<and>
        (rc_replstate s = WAIT_BGSAVE_END \<longrightarrow> rc_psync_offset s = b + int n \<and> rc_sent s = [] \<and> \<not> rc_handler s))"

definition backlog_ok :: "u8 list \<Rightarrow> repl \<Rightarrow> bool" where
  "backlog_ok hs r \<longleftrightarrow>
     (case rp_backlog r of
        None \<Rightarrow> True
      | Some buf \<Rightarrow>
          \<exists>i n. rp_idx r = int i \<and> rp_histlen r = int n \<and> n \<le> nat (rp_size r) \<and> ring_holds (nat (rp_size r)) buf i n hs \<and>
            rp_off r = rp_offset r - int n + 1)"

definition repl_ok :: "bool \<Rightarrow> int \<Rightarrow> u8 list \<Rightarrow> repl \<Rightarrow> bool" where
  "repl_ok k b hs r \<longleftrightarrow> 0 < rp_size r \<and> rp_offset r = b + int (length hs) \<and> backlog_ok hs r \<and>
     (rp_slaves r \<noteq> [] \<longrightarrow> rp_backlog r \<noteq> None) \<and> distinct (map rc_id (rp_slaves r)) \<and> (\<forall>s \<in> set (rp_slaves r). slave_ok k b hs s)"

lemma backlog_cong:
  assumes "rp_backlog r' = rp_backlog r" and "rp_idx r' = rp_idx r" and "rp_histlen r' = rp_histlen r" and "rp_size r' = rp_size r"
    and "rp_off r' = rp_off r" and "rp_offset r' = rp_offset r"
  shows "backlog_ok hs r' = backlog_ok hs r"
  unfolding backlog_ok_def assms ..

lemma backlog_ok_upd [simp]:
  "backlog_ok hs (r\<lparr>rp_slaves := ss\<rparr>) = backlog_ok hs r" "backlog_ok hs (r\<lparr>rp_seldb := d\<rparr>) = backlog_ok hs r"
  "backlog_ok hs (r\<lparr>rp_child := c\<rparr>) = backlog_ok hs r" "backlog_ok hs (r\<lparr>rp_no_slaves_since := t\<rparr>) = backlog_ok hs r"
  by (rule backlog_cong; simp)+

lemma ring_shrink: "ring_holds sz buf i n hs \<Longrightarrow> ring_holds sz buf i (min n sz) hs"
  by (auto simp: ring_holds_def)

lemma feed_spec:
  assumes ok: "backlog_ok hs r" and size: "0 < rp_size r" and some: "rp_backlog r \<noteq> None"
  obtains buf i n off where
    "feedReplicationBacklog r p = tret (r\<lparr>rp_offset := rp_offset r + int (length p), rp_backlog := Some buf, rp_idx := i, rp_histlen := n, rp_off := off\<rparr>)"
    "backlog_ok (hs @ p) (r\<lparr>rp_offset := rp_offset r + int (length p), rp_backlog := Some buf, rp_idx := i, rp_histlen := n, rp_off := off\<rparr>)"
proof -
  let ?sz = "nat (rp_size r)"
  have sz: "int ?sz = rp_size r" using size by simp
  obtain buf i n where b: "rp_backlog r = Some buf" "rp_idx r = int i" "rp_histlen r = int n" "n \<le> ?sz" "ring_holds ?sz buf i n hs"
    using ok some by (auto simp: backlog_ok_def)
  obtain buf' i' where f: "feed_loop (int ?sz) p buf (int i) (int n) = tret (buf', int i', int (n + length p))"
    "ring_holds ?sz buf' i' (n + length p) (hs @ p)" using feed_loop_spec [OF b(5)] by blast
  let ?n = "min (n + length p) ?sz"
  have cap: "(if int (n + length p) > rp_size r then rp_size r else int (n + length p)) = int ?n" using sz by auto
  let ?off = "rp_offset r + int (length p) - int ?n + 1"
  let ?r = "r\<lparr>rp_offset := rp_offset r + int (length p), rp_backlog := Some buf', rp_idx := int i', rp_histlen := int ?n, rp_off := ?off\<rparr>"
  have "feedReplicationBacklog r p = tret ?r"
    using f(1) b(1-3) sz cap by (simp add: feedReplicationBacklog_def Let_def)
  moreover have "backlog_ok (hs @ p) ?r" using ring_shrink [OF f(2)] by (auto simp: backlog_ok_def)
  ultimately show thesis by (rule that)
qed

text \<open>What feeding does not touch.\<close>

definition same_but_backlog :: "repl \<Rightarrow> repl \<Rightarrow> bool" where
  "same_but_backlog r r' \<longleftrightarrow> rp_size r' = rp_size r \<and> rp_seldb r' = rp_seldb r \<and> rp_slaves r' = rp_slaves r \<and> rp_child r' = rp_child r \<and>
     rp_runid r' = rp_runid r \<and> rp_diskless r' = rp_diskless r \<and> rp_backlog r' \<noteq> None"

lemma feed_backlog:
  assumes "backlog_ok hs r" and "0 < rp_size r" and "rp_backlog r \<noteq> None"
  obtains r' where "feedReplicationBacklog r p = tret r'" "backlog_ok (hs @ p) r'" "same_but_backlog r r'"
    "rp_offset r' = rp_offset r + int (length p)"
proof -
  obtain buf i n off where f: "feedReplicationBacklog r p =
      tret (r\<lparr>rp_offset := rp_offset r + int (length p), rp_backlog := Some buf, rp_idx := i, rp_histlen := n, rp_off := off\<rparr>)"
    "backlog_ok (hs @ p) (r\<lparr>rp_offset := rp_offset r + int (length p), rp_backlog := Some buf, rp_idx := i, rp_histlen := n, rp_off := off\<rparr>)"
    by (rule feed_spec [OF assms])
  show thesis by (rule that [OF f]) (simp_all add: same_but_backlog_def)
qed

lemma same_but_trans: "same_but_backlog a b \<Longrightarrow> same_but_backlog b c \<Longrightarrow> same_but_backlog a c"
  by (simp add: same_but_backlog_def)

lemma feed_args_spec:
  assumes "backlog_ok hs r" and "0 < rp_size r" and "rp_backlog r \<noteq> None" and "24 \<le> length aux" and "\<forall>ob \<in> set argv. obj_ok ob"
  shows "\<exists>r'. feed_args aux r argv = tret r' \<and> backlog_ok (hs @ concat (map bulk_text argv)) r' \<and> same_but_backlog r r' \<and>
    rp_offset r' = rp_offset r + int (length (concat (map bulk_text argv)))"
  using assms
proof (induction argv arbitrary: aux r hs)
  case Nil
  then show ?case by (simp add: same_but_backlog_def)
next
  case (Cons ob argv)
  let ?n = "length (obj_dec ob)"
  have "obj_ok ob" using Cons.prems(5) by simp
  then have small: "?n < 2 ^ 63" by (rule obj_dec_small)
  obtain aux' where a: "put_header aux (byte_of CHR ''$'') (of_nat (stringObjectLen ob)) = Inr (aux', length (dec_nat ?n))" "length aux' = length aux"
    "take (length (dec_nat ?n) + 3) aux' = byte_of CHR ''$'' # dec_nat ?n @ crlf" "take 2 (drop (length (dec_nat ?n) + 1) aux') = crlf"
    using put_header_spec [OF Cons.prems(4) small] by (auto simp: stringObjectLen_dec)
  let ?h = "byte_of CHR ''$'' # dec_nat ?n @ crlf"
  obtain r1 where r1: "feedReplicationBacklog r ?h = tret r1" "backlog_ok (hs @ ?h) r1" "same_but_backlog r r1" "rp_offset r1 = rp_offset r + int (length ?h)"
    by (rule feed_backlog [OF Cons.prems(1-3)])
  have s1: "0 < rp_size r1" "rp_backlog r1 \<noteq> None" using r1(3) Cons.prems(2) by (simp_all add: same_but_backlog_def)
  obtain r2 where r2: "feedReplicationBacklog r1 (obj_dec ob) = tret r2" "backlog_ok ((hs @ ?h) @ obj_dec ob) r2" "same_but_backlog r1 r2"
    "rp_offset r2 = rp_offset r1 + int (length (obj_dec ob))" by (rule feed_backlog [OF r1(2) s1])
  have s2: "0 < rp_size r2" "rp_backlog r2 \<noteq> None" using r2(3) s1 by (simp_all add: same_but_backlog_def)
  obtain r3 where r3: "feedReplicationBacklog r2 crlf = tret r3" "backlog_ok (((hs @ ?h) @ obj_dec ob) @ crlf) r3" "same_but_backlog r2 r3"
    "rp_offset r3 = rp_offset r2 + int (length crlf)" by (rule feed_backlog [OF r2(2) s2])
  have s3: "0 < rp_size r3" "rp_backlog r3 \<noteq> None" using r3(3) s2 by (simp_all add: same_but_backlog_def)
  have l: "24 \<le> length aux'" "\<forall>ob \<in> set argv. obj_ok ob" using a(2) Cons.prems(4,5) by simp_all
  obtain r4 where r4: "feed_args aux' r3 argv = tret r4" "backlog_ok ((((hs @ ?h) @ obj_dec ob) @ crlf) @ concat (map bulk_text argv)) r4"
    "same_but_backlog r3 r4" "rp_offset r4 = rp_offset r3 + int (length (concat (map bulk_text argv)))"
    using Cons.IH [OF r3(2) s3 l] by blast
  have "feed_args aux r (ob # argv) = tret r4"
    unfolding feed_args.simps a(1) tbind_simps prod.case a(3,4) r1(1) feedReplicationBacklogWithObject_def obj_text_dec r2(1) r3(1) r4(1) ..
  moreover have "same_but_backlog r r4" using r1(3) r2(3) r3(3) r4(3) by (blast intro: same_but_trans)
  moreover have words: "concat (map bulk_text (ob # argv)) = ?h @ obj_dec ob @ crlf @ concat (map bulk_text argv)" by (simp add: bulk_text_def)
  moreover have "rp_offset r4 = rp_offset r + int (length (?h @ obj_dec ob @ crlf @ concat (map bulk_text argv)))"
    using r1(4) r2(4) r3(4) r4(4) by simp
  moreover have "backlog_ok (hs @ ?h @ obj_dec ob @ crlf @ concat (map bulk_text argv)) r4" using r4(2) by simp
  ultimately show ?case by (intro exI [of _ r4]) (simp only: words simp_thms)
qed

lemma feed_command_spec:
  assumes "backlog_ok hs r" and "0 < rp_size r" and "rp_backlog r \<noteq> None" and "\<forall>ob \<in> set argv. obj_ok ob" and "length argv < 2 ^ 63"
  obtains r' where "feed_command r argv = tret r'" "backlog_ok (hs @ command_text argv) r'" "same_but_backlog r r'"
    "rp_offset r' = rp_offset r + int (length (command_text argv))"
proof -
  let ?n = "length argv" and ?buf = "replicate (REDIS_LONGSTR_SIZE + 3) 0 :: u8 list"
  have l: "24 \<le> length ?buf" by (simp add: REDIS_LONGSTR_SIZE_def)
  let ?h = "byte_of CHR ''*'' # dec_nat ?n @ crlf"
  obtain aux where a: "put_header ?buf (byte_of CHR ''*'') (of_nat ?n) = Inr (aux, length (dec_nat ?n))" "length aux = length ?buf"
    "take (length (dec_nat ?n) + 3) aux = ?h" using put_header_spec [OF l assms(5)] by blast
  obtain r1 where r1: "feedReplicationBacklog r ?h = tret r1" "backlog_ok (hs @ ?h) r1" "same_but_backlog r r1" "rp_offset r1 = rp_offset r + int (length ?h)"
    by (rule feed_backlog [OF assms(1-3)])
  have s1: "0 < rp_size r1" "rp_backlog r1 \<noteq> None" using r1(3) assms(2) by (simp_all add: same_but_backlog_def)
  have l2: "24 \<le> length aux" using a(2) l by simp
  obtain r2 where r2: "feed_args aux r1 argv = tret r2" "backlog_ok ((hs @ ?h) @ concat (map bulk_text argv)) r2" "same_but_backlog r1 r2"
    "rp_offset r2 = rp_offset r1 + int (length (concat (map bulk_text argv)))"
    using feed_args_spec [OF r1(2) s1 l2 assms(4)] by blast
  have "feed_command r argv = tret r2" using a(1,3) r1(1) r2(1) by (simp add: feed_command_def)
  moreover have "same_but_backlog r r2" using r1(3) r2(3) by (rule same_but_trans)
  ultimately show thesis using that r1(4) r2 by (simp add: command_text_def)
qed

section \<open>Feeding\<close>

definition feed_text :: "repl \<Rightarrow> int \<Rightarrow> robj list \<Rightarrow> u8 list" where
  "feed_text r dictid argv =
     (if rp_backlog r = None then [] else (if rp_seldb r \<noteq> dictid then select_text dictid else []) @ command_text argv)"

lemma deliver_ok:
  assumes "slave_ok k b hs s"
  shows "slave_ok k b (hs @ p) (deliver p s)"
proof (cases "k \<and> rc_replstate s \<noteq> WAIT_BGSAVE_START")
  case True
  then obtain n where "n \<le> length hs" "rc_sent s @ rc_out s = drop n hs"
    "rc_replstate s = WAIT_BGSAVE_END \<longrightarrow> rc_psync_offset s = b + int n \<and> rc_sent s = [] \<and> \<not> rc_handler s"
    using assms by (auto simp: slave_ok_def)
  then have "n \<le> length (hs @ p) \<and> rc_sent (deliver p s) @ rc_out (deliver p s) = drop n (hs @ p) \<and>
      (rc_replstate (deliver p s) = WAIT_BGSAVE_END \<longrightarrow>
        rc_psync_offset (deliver p s) = b + int n \<and> rc_sent (deliver p s) = [] \<and> \<not> rc_handler (deliver p s))"
    using True by (simp add: deliver_def flip: append_assoc)
  then have "\<exists>n \<le> length (hs @ p). rc_sent (deliver p s) @ rc_out (deliver p s) = drop n (hs @ p) \<and>
      (rc_replstate (deliver p s) = WAIT_BGSAVE_END \<longrightarrow>
        rc_psync_offset (deliver p s) = b + int n \<and> rc_sent (deliver p s) = [] \<and> \<not> rc_handler (deliver p s))" by blast
  moreover have "rc_replstate (deliver p s) \<noteq> WAIT_BGSAVE_START" using True by (simp add: deliver_def)
  ultimately show ?thesis unfolding slave_ok_def by simp
qed (use assms in \<open>auto simp: slave_ok_def deliver_def\<close>)

lemma deliver_simps [simp]: "rc_id (deliver p s) = rc_id s" "rc_replstate (deliver p s) = rc_replstate s"
  by (simp_all add: deliver_def)

lemma deliver_deliver: "deliver q (deliver p s) = deliver (p @ q) s"
  by (simp add: deliver_def add_output_twice)

lemma deliver_nil: "deliver [] = id"
  by (simp add: deliver_def add_output_def fun_eq_iff)

lemma replicationFeedSlaves_spec:
  assumes ok: "repl_ok k b hs r" and argv: "\<forall>ob \<in> set argv. obj_ok ob" "length argv < 2 ^ 63"
  obtains r' where "replicationFeedSlaves r dictid argv = (if bulks_overflow argv (rp_slaves r) then Some (Inl SignedOverflow) else tret r')"
    "repl_ok k b (hs @ feed_text r dictid argv) r'"
    "rp_slaves r' = map (deliver (feed_text r dictid argv)) (rp_slaves r)" "(rp_backlog r' = None) = (rp_backlog r = None)"
    "rp_child r' = rp_child r" "rp_runid r' = rp_runid r"
proof (cases "rp_backlog r = None")
  case True
  then have "rp_slaves r = []" using ok by (auto simp: repl_ok_def)
  then show thesis using that [of r] ok True by (simp add: replicationFeedSlaves_def feed_text_def bulks_overflow_def)
next
  case some: False
  let ?sel = "if rp_seldb r \<noteq> dictid then select_text dictid else []"
  note O = ok [unfolded repl_ok_def]
  have b0: "backlog_ok hs r" "0 < rp_size r" using O by blast+
  obtain r1 where r1: "(if rp_seldb r \<noteq> dictid then
                 tbind (if rp_backlog r \<noteq> None then feedReplicationBacklog r (select_text dictid) else tret r) (\<lambda>r.
                 tret (r\<lparr>rp_slaves := map (\<lambda>s. if rc_replstate s = WAIT_BGSAVE_START then s
                   else add_output s (select_text dictid)) (rp_slaves r)\<rparr>))
               else tret r) = tret r1"
    "backlog_ok (hs @ ?sel) r1" "rp_offset r1 = rp_offset r + int (length ?sel)" "rp_slaves r1 = map (deliver ?sel) (rp_slaves r)"
    "rp_size r1 = rp_size r" "rp_backlog r1 \<noteq> None" "rp_child r1 = rp_child r" "rp_runid r1 = rp_runid r"
  proof (cases "rp_seldb r = dictid")
    case True
    then show thesis using that [of r] b0 some by (simp add: deliver_nil)
  next
    case False
    obtain r1 where f: "feedReplicationBacklog r (select_text dictid) = tret r1" "backlog_ok (hs @ select_text dictid) r1" "same_but_backlog r r1"
      "rp_offset r1 = rp_offset r + int (length (select_text dictid))" by (rule feed_backlog [OF b0 some])
    have "map (\<lambda>s. if rc_replstate s = WAIT_BGSAVE_START then s else add_output s (select_text dictid)) (rp_slaves r1) =
      map (deliver (select_text dictid)) (rp_slaves r)"
      using f(3) by (simp add: same_but_backlog_def deliver_def cong: map_cong)
    moreover have "backlog_ok (hs @ select_text dictid) (r1\<lparr>rp_slaves := map (deliver (select_text dictid)) (rp_slaves r)\<rparr>)"
      using f(2) by simp
    ultimately show thesis using that [of "r1\<lparr>rp_slaves := map (deliver (select_text dictid)) (rp_slaves r)\<rparr>"] f False some
      by (simp add: same_but_backlog_def)
  qed
  let ?r = "r1\<lparr>rp_seldb := dictid\<rparr>"
  have b1: "backlog_ok (hs @ ?sel) ?r" "0 < rp_size ?r" "rp_backlog ?r \<noteq> None" using r1 b0 by simp_all
  obtain r2 where r2: "feed_command ?r argv = tret r2" "backlog_ok ((hs @ ?sel) @ command_text argv) r2" "same_but_backlog ?r r2"
    "rp_offset r2 = rp_offset ?r + int (length (command_text argv))" by (rule feed_command_spec [OF b1 argv])
  have words: "feed_text r dictid argv = ?sel @ command_text argv" using some by (auto simp: feed_text_def)
  let ?r3 = "r2\<lparr>rp_slaves := map (deliver (command_text argv)) (rp_slaves r2)\<rparr>"
  have sl: "rp_slaves ?r3 = map (deliver (feed_text r dictid argv)) (rp_slaves r)"
    using r2(3) r1(4) by (simp add: same_but_backlog_def deliver_deliver words)
  have not_empty: "\<not> (rp_backlog r = None \<and> rp_slaves r = [])" "\<not> (rp_slaves r \<noteq> [] \<and> rp_backlog r = None)" using some by simp_all
  have "bulks_overflow argv (rp_slaves r2) = bulks_overflow argv (rp_slaves r)"
    using r2(3) r1(4) by (simp add: same_but_backlog_def bulks_overflow_def)
  then have "replicationFeedSlaves r dictid argv = (if bulks_overflow argv (rp_slaves r) then Some (Inl SignedOverflow) else tret ?r3)"
    unfolding replicationFeedSlaves_def if_not_P [OF not_empty(1)] if_not_P [OF not_empty(2)] r1(1) tbind_simps if_P [OF b1(3)] r2(1)
      feed_slaves_text [OF argv] by (simp del: less_numeral_extra)
  moreover have "repl_ok k b (hs @ feed_text r dictid argv) ?r3"
    unfolding repl_ok_def
  proof (intro conjI)
    show "0 < rp_size ?r3" using r2(3) r1(5) O by (simp add: same_but_backlog_def)
    show "rp_offset ?r3 = b + int (length (hs @ feed_text r dictid argv))" using r2(4) r1(3) O words by simp
    show "backlog_ok (hs @ feed_text r dictid argv) ?r3" using r2(2) words by simp
    show "rp_slaves ?r3 \<noteq> [] \<longrightarrow> rp_backlog ?r3 \<noteq> None" using r2(3) by (simp add: same_but_backlog_def)
    show "distinct (map rc_id (rp_slaves ?r3))" unfolding sl using O by (simp add: comp_def)
    show "\<forall>s \<in> set (rp_slaves ?r3). slave_ok k b (hs @ feed_text r dictid argv) s" unfolding sl using O deliver_ok by auto
  qed
  ultimately show thesis using that [of ?r3] sl r2(3) r1 some by (simp add: same_but_backlog_def)
qed

section \<open>Partial resynchronization\<close>

lemma crem_pos: "0 \<le> a \<Longrightarrow> 0 < b \<Longrightarrow> crem a b = a mod b"
  by (simp add: crem_def sgn_if)

lemma addReplyReplicationBacklog_spec:
  assumes ok: "backlog_ok hs r" and size: "0 < rp_size r" and some: "rp_backlog r \<noteq> None"
    and o: "rp_off r \<le> psync_offset" "psync_offset \<le> rp_off r + rp_histlen r"
  shows "\<exists>n. addReplyReplicationBacklog r out psync_offset =
    tret (n, out @ drop (nat (int (length hs) - (rp_offset r - psync_offset + 1))) hs)"
    and "0 \<le> rp_offset r - psync_offset + 1" and "rp_offset r - psync_offset + 1 \<le> int (length hs)"
proof -
  let ?sz = "nat (rp_size r)"
  obtain buf i n where b: "rp_backlog r = Some buf" "rp_idx r = int i" "rp_histlen r = int n" "n \<le> ?sz" "ring_holds ?sz buf i n hs"
    "rp_off r = rp_offset r - int n + 1" using ok some by (auto simp: backlog_ok_def)
  define len where "len = nat (rp_offset r - psync_offset + 1)"
  have len: "int len = rp_offset r - psync_offset + 1" "len \<le> n" using o b(3,6) by (simp_all add: len_def)
  have n: "n \<le> length hs" using b(5) by (simp add: ring_holds_def)
  then show "0 \<le> rp_offset r - psync_offset + 1" "rp_offset r - psync_offset + 1 \<le> int (length hs)" using len by simp_all
  have last: "nat (int (length hs) - (rp_offset r - psync_offset + 1)) = length hs - len" using len n by simp
  show "\<exists>n. addReplyReplicationBacklog r out psync_offset =
    tret (n, out @ drop (nat (int (length hs) - (rp_offset r - psync_offset + 1))) hs)"
  proof (cases "n = 0")
    case True
    then show ?thesis using b(3) len(2) last by (simp add: addReplyReplicationBacklog_def)
  next
    case False
    have i: "i < ?sz" using b(5) by (simp add: ring_holds_def)
    have sz: "rp_size r = int ?sz" using size by simp
    have skip: "psync_offset - rp_off r = int (n - len)" using len b(6) by simp
    have j0: "crem (rp_idx r + (rp_size r - rp_histlen r)) (rp_size r) = int ((i + (?sz - n)) mod ?sz)"
      using b(2-4) sz size by (subst crem_pos) (simp_all add: zmod_int of_nat_diff algebra_simps)
    have "((i + (?sz - n)) mod ?sz + (n - len)) mod ?sz = (i + (?sz - n) + (n - len)) mod ?sz" by (simp add: mod_add_left_eq)
    also have "i + (?sz - n) + (n - len) = i + (?sz - len)" using b(4) len(2) by simp
    finally have m: "((i + (?sz - n)) mod ?sz + (n - len)) mod ?sz = (i + (?sz - len)) mod ?sz" .
    have j: "crem (int ((i + (?sz - n)) mod ?sz) + int (n - len)) (rp_size r) = int ((i + (?sz - len)) mod ?sz)"
    proof -
      have "crem (int ((i + (?sz - n)) mod ?sz + (n - len))) (int ?sz) = int (((i + (?sz - n)) mod ?sz + (n - len)) mod ?sz)"
        using size by (subst crem_pos) (simp_all only: zmod_int of_nat_0_le_iff of_nat_0_less_iff zero_less_nat_eq)
      then show ?thesis unfolding m sz [symmetric] by (simp only: of_nat_add)
    qed
    have "reply_loop (int ?sz) buf (int ((i + (?sz - len)) mod ?sz)) (int len) out = tret (out @ drop (length hs - len) hs)"
      by (rule reply_loop_spec [OF b(5)]) (use len(2) b(4) in simp)
    moreover have "rp_histlen r - int (n - len) = int len" using b(3) len(2) by simp
    moreover have "rp_histlen r \<noteq> 0" using b(3) False by simp
    ultimately show ?thesis unfolding addReplyReplicationBacklog_def skip j0 j Let_def last
      using sz b(1) by simp
  qed
qed

lemma numeric_partial:
  assumes ok: "repl_ok k b hs r" and num: "getLongLongFromObject arg = Some psync_offset"
  shows "strcaseeq (cstr runid) (rp_runid r) \<and> rp_backlog r \<noteq> None \<and> rp_off r \<le> psync_offset \<and> psync_offset \<le> rp_off r + rp_histlen r \<Longrightarrow>
      \<exists>c'. masterTryPartialResynchronization env r c runid arg = tret (None, r\<lparr>rp_slaves := rp_slaves r @ [c']\<rparr>) \<and>
        rc_id c' = rc_id c \<and> rc_replstate c' = REPL_ONLINE \<and>
        rc_out c' = (if e_write env (rc_id c) then rc_out c @ drop (nat (psync_offset - 1 - b)) hs else rc_out c) \<and>
        rc_sent c' = rc_sent c \<and> 0 \<le> psync_offset - 1 - b \<and> psync_offset - 1 - b \<le> int (length hs)"
    and "\<not> (strcaseeq (cstr runid) (rp_runid r) \<and> rp_backlog r \<noteq> None \<and> rp_off r \<le> psync_offset \<and> psync_offset \<le> rp_off r + rp_histlen r) \<Longrightarrow>
      masterTryPartialResynchronization env r c runid arg = tret (Some c, r)"
proof -
  assume a: "strcaseeq (cstr runid) (rp_runid r) \<and> rp_backlog r \<noteq> None \<and> rp_off r \<le> psync_offset \<and> psync_offset \<le> rp_off r + rp_histlen r"
  have b0: "backlog_ok hs r" "0 < rp_size r" "rp_offset r = b + int (length hs)" using ok by (simp_all add: repl_ok_def)
  note A = addReplyReplicationBacklog_spec [OF b0(1,2)]
  have at: "int (length hs) - (rp_offset r - psync_offset + 1) = psync_offset - 1 - b" using b0(3) by simp
  let ?c = "c\<lparr>rc_slave := True, rc_replstate := REPL_ONLINE, rc_ack_time := e_time env, rc_put_online_on_ack := False\<rparr>"
  obtain n where n: "addReplyReplicationBacklog r (rc_out c) psync_offset = tret (n, rc_out c @ drop (nat (psync_offset - 1 - b)) hs)"
    using A(1) [of psync_offset "rc_out c"] a unfolding at by blast
  have "0 \<le> psync_offset - 1 - b" "psync_offset - 1 - b \<le> int (length hs)"
    using A(2,3) [of psync_offset] a b0(3) by simp_all
  then show "\<exists>c'. masterTryPartialResynchronization env r c runid arg = tret (None, r\<lparr>rp_slaves := rp_slaves r @ [c']\<rparr>) \<and>
        rc_id c' = rc_id c \<and> rc_replstate c' = REPL_ONLINE \<and>
        rc_out c' = (if e_write env (rc_id c) then rc_out c @ drop (nat (psync_offset - 1 - b)) hs else rc_out c) \<and>
        rc_sent c' = rc_sent c \<and> 0 \<le> psync_offset - 1 - b \<and> psync_offset - 1 - b \<le> int (length hs)"
    using a n num
    by (intro exI [of _ "if e_write env (rc_id c) then (if rc_out c @ drop (nat (psync_offset - 1 - b)) hs = rc_out c then ?c else prepareClientToWrite ?c)\<lparr>rc_out := rc_out c @ drop (nat (psync_offset - 1 - b)) hs\<rparr> else ?c\<lparr>rc_close := True\<rparr>"])
      (simp add: masterTryPartialResynchronization_def Let_def)
next
  assume "\<not> (strcaseeq (cstr runid) (rp_runid r) \<and> rp_backlog r \<noteq> None \<and> rp_off r \<le> psync_offset \<and> psync_offset \<le> rp_off r + rp_histlen r)"
  then show "masterTryPartialResynchronization env r c runid arg = tret (Some c, r)"
    using num by (auto simp: masterTryPartialResynchronization_def)
qed

section \<open>Full resynchronization\<close>

definition setup1 :: "renv \<Rightarrow> int \<Rightarrow> rclient \<Rightarrow> rclient" where
  "setup1 env off s =
     (if rc_replstate s = WAIT_BGSAVE_START
      then s\<lparr>rc_psync_offset := off, rc_replstate := WAIT_BGSAVE_END, rc_close := rc_close s \<or> \<not> rc_pre_psync s \<and> \<not> e_write env (rc_id s)\<rparr>
      else s)"

lemma setup_waiting_spec:
  "setup_waiting env r ss = (map (setup1 env (getPsyncInitialOffset r)) ss,
     if \<exists>s \<in> set ss. rc_replstate s = WAIT_BGSAVE_START then r\<lparr>rp_seldb := - 1\<rparr> else r)"
proof (induction ss arbitrary: r)
  case (Cons s ss)
  have "getPsyncInitialOffset (r\<lparr>rp_seldb := - 1\<rparr>) = getPsyncInitialOffset r" by (simp add: getPsyncInitialOffset_def)
  then show ?case
    by (auto simp: Cons.IH setup1_def replicationSetupSlaveForFullResync_def Let_def)
qed simp

lemma setup1_simps [simp]: "rc_id (setup1 env off s) = rc_id s" "rc_out (setup1 env off s) = rc_out s"
  "rc_handler (setup1 env off s) = rc_handler s" "rc_sent (setup1 env off s) = rc_sent s"
  by (simp_all add: setup1_def)

lemma setup1_ok:
  assumes "slave_ok k b hs s" and "off = b + int (length hs)"
  shows "slave_ok k b hs (setup1 env off s)"
  using assms by (auto simp: slave_ok_def setup1_def intro!: exI [of _ "length hs"])

definition slaves_ok :: "bool \<Rightarrow> int \<Rightarrow> u8 list \<Rightarrow> rclient list \<Rightarrow> bool" where
  "slaves_ok k b hs ss \<longleftrightarrow> distinct (map rc_id ss) \<and> (\<forall>s \<in> set ss. slave_ok k b hs s)"

lemma slaves_ok_filter: "slaves_ok k b hs ss \<Longrightarrow> slaves_ok k b hs (filter P ss)"
  by (auto simp: slaves_ok_def distinct_map_filter)

lemma slaves_ok_map:
  assumes "slaves_ok k b hs ss" and "\<And>s. rc_id (f s) = rc_id s" and "\<And>s. s \<in> set ss \<Longrightarrow> slave_ok k b hs s \<Longrightarrow> slave_ok k b hs (f s)"
  shows "slaves_ok k b hs (map f ss)"
  using assms by (auto simp: slaves_ok_def comp_def)

text \<open>The fields the handlers of replicas leave alone.\<close>

definition same_stream :: "repl \<Rightarrow> repl \<Rightarrow> bool" where
  "same_stream r r' \<longleftrightarrow> rp_backlog r' = rp_backlog r \<and> rp_idx r' = rp_idx r \<and> rp_histlen r' = rp_histlen r \<and> rp_size r' = rp_size r \<and>
     rp_off r' = rp_off r \<and> rp_offset r' = rp_offset r \<and> rp_runid r' = rp_runid r \<and> rp_diskless r' = rp_diskless r"

lemma same_stream_simps [simp]:
  "same_stream r r" "same_stream r (r'\<lparr>rp_slaves := ss\<rparr>) = same_stream r r'" "same_stream r (r'\<lparr>rp_seldb := d\<rparr>) = same_stream r r'"
  "same_stream r (r'\<lparr>rp_child := c\<rparr>) = same_stream r r'" "same_stream r (r'\<lparr>rp_no_slaves_since := t\<rparr>) = same_stream r r'"
  "same_stream (r\<lparr>rp_slaves := ss\<rparr>) r' = same_stream r r'" "same_stream (r\<lparr>rp_child := c\<rparr>) r' = same_stream r r'"
  "same_stream (r\<lparr>rp_no_slaves_since := t\<rparr>) r' = same_stream r r'"
  by (auto simp: same_stream_def)

lemma same_stream_trans: "same_stream a b \<Longrightarrow> same_stream b c \<Longrightarrow> same_stream a c"
  by (simp add: same_stream_def)

lemma stream_repl_ok:
  assumes "repl_ok k b hs r" and "same_stream r r'" and "slaves_ok k b hs (rp_slaves r')" and "rp_slaves r' \<noteq> [] \<Longrightarrow> rp_backlog r \<noteq> None"
  shows "repl_ok k b hs r'"
proof -
  have "backlog_ok hs r' = backlog_ok hs r" using assms(2) by (intro backlog_cong) (simp_all add: same_stream_def)
  then show ?thesis using assms by (auto simp: repl_ok_def same_stream_def slaves_ok_def)
qed

lemma rdbSaveBackground_same: "rdbSaveBackground env r = (ok, r') \<Longrightarrow> same_stream r r' \<and> rp_slaves r' = rp_slaves r"
  by (auto simp: rdbSaveBackground_def split: if_splits)

lemma rdbSaveToSlavesSockets_spec:
  assumes ok: "slaves_ok k b hs (rp_slaves r)" and off: "getPsyncInitialOffset r = b + int (length hs)"
    and run: "rdbSaveToSlavesSockets env r = (res, r')"
  shows "same_stream r r' \<and> map rc_id (rp_slaves r') = map rc_id (rp_slaves r) \<and> slaves_ok k b hs (rp_slaves r')"
proof -
  let ?ss = "map (setup1 env (getPsyncInitialOffset r)) (rp_slaves r)"
  let ?ids = "map rc_id (filter (\<lambda>s. rc_replstate s = WAIT_BGSAVE_START) (rp_slaves r))"
  let ?undo = "\<lambda>s. if rc_id s \<in> set ?ids then s\<lparr>rc_replstate := WAIT_BGSAVE_START\<rparr> else s"
  have ss: "slaves_ok k b hs ?ss" by (rule slaves_ok_map [OF ok]) (use setup1_ok off in auto)
  have "slave_ok k b hs (?undo (setup1 env (getPsyncInitialOffset r) s))" if s: "s \<in> set (rp_slaves r)" for s
  proof (cases "rc_replstate s = WAIT_BGSAVE_START")
    case True
    then have "k \<longrightarrow> rc_out s = [] \<and> rc_sent s = [] \<and> \<not> rc_handler s" using ok s by (auto simp: slaves_ok_def slave_ok_def)
    then show ?thesis using True s by (force simp: slave_ok_def)
  next
    case False
    have "rc_id s \<notin> set ?ids"
    proof
      assume "rc_id s \<in> set ?ids"
      then obtain s' where "s' \<in> set (rp_slaves r)" "rc_replstate s' = WAIT_BGSAVE_START" "rc_id s' = rc_id s" by auto
      moreover from this have "s' = s" using ok s by (auto simp: slaves_ok_def distinct_map dest: inj_onD)
      ultimately show False using False by simp
    qed
    then show ?thesis using ok s False by (auto simp: slaves_ok_def setup1_def)
  qed
  then have "slaves_ok k b hs (map (?undo \<circ> setup1 env (getPsyncInitialOffset r)) (rp_slaves r))"
    using ok by (intro slaves_ok_map) auto
  then have undo: "slaves_ok k b hs (map ?undo ?ss)" by simp
  have ids: "map rc_id (map ?undo ?ss) = map rc_id (rp_slaves r)" by simp
  show ?thesis
  proof (cases "rp_child r \<noteq> None \<or> \<not> e_pipe env")
    case True
    then show ?thesis using run ok by (auto simp: rdbSaveToSlavesSockets_def split: if_splits)
  next
    case False
    define r1 where "r1 = (if \<exists>s \<in> set (rp_slaves r). rc_replstate s = WAIT_BGSAVE_START then r\<lparr>rp_seldb := - 1\<rparr> else r)"
    have "same_stream r r1" by (simp add: r1_def)
    moreover have "r' = (if \<not> e_fork env then r1\<lparr>rp_slaves := map ?undo ?ss\<rparr> else r1\<lparr>rp_slaves := ?ss, rp_child := Some ChildSocket\<rparr>)"
      using run False unfolding rdbSaveToSlavesSockets_def setup_waiting_spec Let_def prod.case r1_def [symmetric] by (auto split: if_splits)
    ultimately show ?thesis using ids undo ss by (cases "e_fork env") (simp_all add: comp_def)
  qed
qed

lemma startBgsaveForReplication_spec:
  assumes ok: "slaves_ok k b hs (rp_slaves r)" and off: "getPsyncInitialOffset r = b + int (length hs)"
    and run: "startBgsaveForReplication env mincapa r = (res, dropped, r')"
  shows "same_stream r r' \<and> slaves_ok k b hs (rp_slaves r') \<and> set (map rc_id (rp_slaves r')) \<subseteq> set (map rc_id (rp_slaves r)) \<and>
    (res \<longrightarrow> map rc_id (rp_slaves r') = map rc_id (rp_slaves r)) \<and>
    (\<not> res \<longrightarrow> (\<forall>s \<in> set (rp_slaves r'). rc_replstate s \<noteq> WAIT_BGSAVE_START))"
proof -
  let ?sock = "rp_diskless r \<and> mincapa AND SLAVE_CAPA_EOF \<noteq> 0"
  obtain res1 r1 where r1: "(if ?sock then rdbSaveToSlavesSockets env r else rdbSaveBackground env r) = (res1, r1)" by fastforce
  have s1: "same_stream r r1" "map rc_id (rp_slaves r1) = map rc_id (rp_slaves r)" "slaves_ok k b hs (rp_slaves r1)"
    using r1 rdbSaveToSlavesSockets_spec [OF ok off, of env res1 r1] rdbSaveBackground_same [of env r res1 r1] ok by (auto split: if_splits)
  show ?thesis
  proof (cases res1)
    case False
    then have "r' = r1\<lparr>rp_slaves := filter (\<lambda>s. rc_replstate s \<noteq> WAIT_BGSAVE_START) (rp_slaves r1)\<rparr>" "\<not> res"
      using run r1 by (simp_all add: startBgsaveForReplication_def Let_def)
    moreover have "set (map rc_id (filter (\<lambda>s. rc_replstate s \<noteq> WAIT_BGSAVE_START) (rp_slaves r1))) \<subseteq> set (map rc_id (rp_slaves r1))" by auto
    ultimately show ?thesis using s1 slaves_ok_filter [OF s1(3)] by simp
  next
    case True
    show ?thesis
    proof (cases ?sock)
      case sock: True
      then have "r' = r1" "res" using run r1 True by (simp_all add: startBgsaveForReplication_def Let_def)
      then show ?thesis using s1 by simp
    next
      case False
      define r2 where "r2 = (if \<exists>s \<in> set (rp_slaves r1). rc_replstate s = WAIT_BGSAVE_START then r1\<lparr>rp_seldb := - 1\<rparr> else r1)"
      have "r' = r2\<lparr>rp_slaves := map (setup1 env (getPsyncInitialOffset r1)) (rp_slaves r1)\<rparr>" "res"
        using run r1 True False by (simp_all add: startBgsaveForReplication_def Let_def setup_waiting_spec r2_def)
      moreover have "same_stream r r2" using s1(1) by (simp add: r2_def)
      moreover have "getPsyncInitialOffset r1 = b + int (length hs)" using s1(1) off by (cases "rp_backlog r") (simp_all add: same_stream_def getPsyncInitialOffset_def)
      then have "slaves_ok k b hs (map (setup1 env (getPsyncInitialOffset r1)) (rp_slaves r1))"
        by (intro slaves_ok_map [OF s1(3)]) (simp_all add: setup1_ok)
      ultimately show ?thesis using s1(2) by (simp add: comp_def)
    qed
  qed
qed

end
