(* ===== verification/ReplRun.thy ===== *)
theory ReplRun
  imports ReplTheorems
begin

text \<open>
  Runs of a master: every operation keeps the invariant of the replication
  stream, and no operation faults but for one argument that cannot be counted.
\<close>

section \<open>Attaching a replica\<close>

lemma slaves_ok_append: "slaves_ok k b hs ss \<Longrightarrow> slave_ok k b hs c \<Longrightarrow> rc_id c \<notin> set (map rc_id ss) \<Longrightarrow> slaves_ok k b hs (ss @ [c])"
  by (auto simp: slaves_ok_def)

text \<open>When there is no backlog, the stream starts anew behind the next offset.\<close>

definition next_base :: "int \<Rightarrow> repl \<Rightarrow> int" where
  "next_base b r = (if rp_backlog r = None then rp_offset r + 1 else b)"

definition next_log :: "u8 list \<Rightarrow> repl \<Rightarrow> u8 list" where
  "next_log hs r = (if rp_backlog r = None then [] else hs)"

lemma next_offset:
  assumes "repl_ok k b hs r"
  shows "getPsyncInitialOffset r = next_base b r + int (length (next_log hs r))"
  using assms by (simp add: repl_ok_def getPsyncInitialOffset_def next_base_def next_log_def)

lemma next_slaves: "repl_ok k b hs r \<Longrightarrow> slaves_ok k (next_base b r) (next_log hs r) (rp_slaves r)"
  by (auto simp: repl_ok_def slaves_ok_def next_base_def next_log_def)

lemma disk_failure_drops:
  assumes "startBgsaveForReplication env mincapa r = (False, dropped, r')" and "\<not> (rp_diskless r \<and> mincapa AND SLAVE_CAPA_EOF \<noteq> 0)"
  shows "rp_slaves r' = filter (\<lambda>s. rc_replstate s \<noteq> WAIT_BGSAVE_START) (rp_slaves r)"
  using assms rdbSaveBackground_same [of env r]
  by (auto simp: startBgsaveForReplication_def Let_def setup_waiting_spec split: prod.splits if_splits)

lemma backlog_created:
  assumes "0 < rp_size r" and "rp_backlog r = None"
  obtains r' where "createReplicationBacklog r = Inr r'" "rp_slaves r' = rp_slaves r" "rp_offset r' = rp_offset r + 1"
    "rp_size r' = rp_size r" "backlog_ok [] r'" "rp_backlog r' \<noteq> None" "rp_runid r' = rp_runid r"
proof -
  let ?r = "r\<lparr>rp_backlog := Some (replicate (nat (rp_size r)) 0), rp_histlen := 0, rp_idx := 0,
        rp_offset := rp_offset r + 1, rp_off := rp_offset r + 1 + 1\<rparr>"
  have "createReplicationBacklog r = Inr ?r" using assms by (simp add: createReplicationBacklog_def)
  moreover have "backlog_ok [] ?r" using assms by (simp add: backlog_ok_def ring_holds_def)
  ultimately show thesis using that [of ?r] by simp
qed

definition attach_list :: "renv \<Rightarrow> repl \<Rightarrow> rclient \<Rightarrow> bool \<times> repl" where
  "attach_list env r c =
     (if rp_child r = Some ChildDisk then
        (case filter (\<lambda>s. rc_replstate s = WAIT_BGSAVE_END) (rp_slaves r @ [c]) of
           slave # _ \<Rightarrow>
             if rc_capa c AND rc_capa slave = rc_capa slave then
               let (_, c, r1) = replicationSetupSlaveForFullResync env r (c\<lparr>rc_out := rc_out slave\<rparr>) (rc_psync_offset slave)
               in (True, r1\<lparr>rp_slaves := rp_slaves r @ [c]\<rparr>)
             else (True, r\<lparr>rp_slaves := rp_slaves r @ [c]\<rparr>)
         | [] \<Rightarrow> (True, r\<lparr>rp_slaves := rp_slaves r @ [c]\<rparr>))
      else if rp_child r = Some ChildSocket then (True, r\<lparr>rp_slaves := rp_slaves r @ [c]\<rparr>)
      else if rp_diskless r \<and> rc_capa c AND SLAVE_CAPA_EOF \<noteq> 0 then (True, r\<lparr>rp_slaves := rp_slaves r @ [c]\<rparr>)
      else let (ok, _, r) = startBgsaveForReplication env (rc_capa c) (r\<lparr>rp_slaves := rp_slaves r @ [c]\<rparr>) in (ok, r))"

lemma attach_full_list:
  "attach_full env r c =
     (let (ok, r) = attach_list env r (c\<lparr>rc_replstate := WAIT_BGSAVE_START, rc_slave := True\<rparr>)
      in if \<not> ok then Inr (SyncFailed, r)
         else if length (rp_slaves r) = 1 \<and> rp_backlog r = None then rbind (createReplicationBacklog r) (\<lambda>r. Inr (SyncFull, r))
         else Inr (SyncFull, r))"
  by (simp add: attach_full_def attach_list_def Let_def)

lemma attach_list_spec:
  assumes ok: "slaves_ok k B H (rp_slaves r)" and off: "getPsyncInitialOffset r = B + int (length H)"
    and c: "rc_id c \<notin> set (map rc_id (rp_slaves r))" "k \<Longrightarrow> rc_out c = [] \<and> rc_sent c = [] \<and> \<not> rc_handler c"
      "rc_replstate c = WAIT_BGSAVE_START"
    and run: "attach_list env r c = (res, r')"
  shows "same_stream r r' \<and> slaves_ok k B H (rp_slaves r') \<and>
    (res \<longrightarrow> length (rp_slaves r') = length (rp_slaves r) + 1) \<and> (\<not> res \<and> rp_slaves r = [] \<longrightarrow> rp_slaves r' = [])"
proof -
  have new: "slaves_ok k B H (rp_slaves r @ [c])" by (rule slaves_ok_append [OF ok _ c(1)]) (use c in \<open>simp add: slave_ok_def\<close>)
  have plain: ?thesis if "(res, r') = (True, r\<lparr>rp_slaves := rp_slaves r @ [c]\<rparr>)" using that new by simp
  consider (disk) "rp_child r = Some ChildDisk" | (wait) "rp_child r \<noteq> Some ChildDisk" "rp_child r = Some ChildSocket \<or> rp_diskless r \<and> rc_capa c AND SLAVE_CAPA_EOF \<noteq> 0"
    | (start) "rp_child r \<noteq> Some ChildDisk" "rp_child r \<noteq> Some ChildSocket" "\<not> (rp_diskless r \<and> rc_capa c AND SLAVE_CAPA_EOF \<noteq> 0)" by blast
  then show ?thesis
  proof cases
    case disk
    show ?thesis
    proof (cases "filter (\<lambda>s. rc_replstate s = WAIT_BGSAVE_END) (rp_slaves r @ [c])")
      case Nil
      then show ?thesis using run disk plain by (simp add: attach_list_def)
    next
      case (Cons slave rest)
      have "slave \<in> set (filter (\<lambda>s. rc_replstate s = WAIT_BGSAVE_END) (rp_slaves r @ [c]))" unfolding Cons by simp
      then have s: "slave \<in> set (rp_slaves r)" "rc_replstate slave = WAIT_BGSAVE_END" using c(3) by auto
      show ?thesis
      proof (cases "rc_capa c AND rc_capa slave = rc_capa slave")
        case False
        then have "(res, r') = (True, r\<lparr>rp_slaves := rp_slaves r @ [c]\<rparr>)" using run disk Cons by (simp add: attach_list_def)
        then show ?thesis by (rule plain)
      next
        case True
        define c1 where "c1 = fst (snd (replicationSetupSlaveForFullResync env r (c\<lparr>rc_out := rc_out slave\<rparr>) (rc_psync_offset slave)))"
        have "slave_ok k B H slave" using ok s by (simp add: slaves_ok_def)
        then have "slave_ok k B H c1" "rc_id c1 = rc_id c"
          using s(2) c(2) by (auto simp: c1_def replicationSetupSlaveForFullResync_def Let_def slave_ok_def)
        then have "slaves_ok k B H (rp_slaves r @ [c1])" using slaves_ok_append [OF ok] c(1) by simp
        moreover have "(res, r') = (True, r\<lparr>rp_seldb := - 1, rp_slaves := rp_slaves r @ [c1]\<rparr>)"
          using run disk Cons True by (auto simp: attach_list_def c1_def replicationSetupSlaveForFullResync_def Let_def split: if_splits)
        ultimately show ?thesis by simp
      qed
    qed
  next
    case wait
    then show ?thesis using run plain by (auto simp: attach_list_def split: if_splits)
  next
    case start
    let ?r = "r\<lparr>rp_slaves := rp_slaves r @ [c]\<rparr>"
    obtain dropped where go: "startBgsaveForReplication env (rc_capa c) ?r = (res, dropped, r')"
      using run start by (auto simp: attach_list_def split: prod.splits)
    have "slaves_ok k B H (rp_slaves ?r)" "getPsyncInitialOffset ?r = B + int (length H)"
      using new off by (simp, auto simp: getPsyncInitialOffset_def split: if_splits)
    note S = startBgsaveForReplication_spec [OF this go]
    have "length (rp_slaves r') = length (rp_slaves r) + 1" if res
    proof -
      have "map rc_id (rp_slaves r') = map rc_id (rp_slaves ?r)" using S that by blast
      then have "length (map rc_id (rp_slaves r')) = length (map rc_id (rp_slaves ?r))" by (rule arg_cong)
      then show ?thesis by simp
    qed
    moreover have "rp_slaves r' = []" if "\<not> res" "rp_slaves r = []"
      using disk_failure_drops [of env "rc_capa c" ?r dropped r'] go start(3) that c(3) by simp
    ultimately show ?thesis using S by simp
  qed
qed

lemma attach_full_spec:
  assumes ok: "repl_ok k b hs r" and c: "rc_id c \<notin> set (map rc_id (rp_slaves r))" "k \<Longrightarrow> rc_out c = [] \<and> rc_sent c = [] \<and> \<not> rc_handler c"
  obtains reply r' where "attach_full env r c = Inr (reply, r')" "rp_runid r' = rp_runid r"
    "if rp_backlog r = None \<and> rp_backlog r' \<noteq> None then repl_ok k (rp_offset r') [] r' else repl_ok k b hs r'"
    "rp_backlog r \<noteq> None \<Longrightarrow> rp_backlog r' = rp_backlog r"
proof -
  let ?c = "c\<lparr>rc_replstate := WAIT_BGSAVE_START, rc_slave := True\<rparr>"
  obtain res r1 where l: "attach_list env r ?c = (res, r1)" by fastforce
  have c1: "rc_id ?c \<notin> set (map rc_id (rp_slaves r))" "k \<Longrightarrow> rc_out ?c = [] \<and> rc_sent ?c = [] \<and> \<not> rc_handler ?c" "rc_replstate ?c = WAIT_BGSAVE_START" using c by simp_all
  have a: "same_stream r r1" "slaves_ok k (next_base b r) (next_log hs r) (rp_slaves r1)"
    "res \<Longrightarrow> length (rp_slaves r1) = length (rp_slaves r) + 1" "\<not> res \<Longrightarrow> rp_slaves r = [] \<Longrightarrow> rp_slaves r1 = []"
    using attach_list_spec [OF next_slaves [OF ok] next_offset [OF ok] c1 l] by blast+
  have id: "rp_runid r1 = rp_runid r" "rp_backlog r1 = rp_backlog r" "rp_size r1 = rp_size r" "rp_offset r1 = rp_offset r"
    using a(1) by (simp_all add: same_stream_def)
  show thesis
  proof (cases "rp_backlog r = None")
    case False
    have "repl_ok k b hs r1" by (rule stream_repl_ok [OF ok a(1)]) (use a(2) False in \<open>simp_all add: next_base_def next_log_def\<close>)
    then show thesis using that [of _ r1] l id False by (cases res) (simp_all add: attach_full_list)
  next
    case True
    then have e: "rp_slaves r = []" using ok by (auto simp: repl_ok_def)
    show thesis
    proof (cases res)
      case False
      have "rp_slaves r1 = []" using a(4) False e by simp
      then have "repl_ok k b hs r1" by (intro stream_repl_ok [OF ok a(1)]) (simp_all add: slaves_ok_def)
      then show thesis using that [of SyncFailed r1] l id True False by (simp add: attach_full_list)
    next
      case ok1: True
      have "0 < rp_size r1" "rp_backlog r1 = None" using ok id True by (simp_all add: repl_ok_def)
      then obtain r2 where r2: "createReplicationBacklog r1 = Inr r2" "rp_slaves r2 = rp_slaves r1" "rp_offset r2 = rp_offset r1 + 1"
        "rp_size r2 = rp_size r1" "backlog_ok [] r2" "rp_backlog r2 \<noteq> None" "rp_runid r2 = rp_runid r1" by (rule backlog_created)
      have "repl_ok k (rp_offset r2) [] r2"
        using a(2) r2 id ok True by (auto simp: repl_ok_def slaves_ok_def next_base_def next_log_def)
      then show thesis using that [of SyncFull r2] l id True ok1 a(3) e r2 by (simp add: attach_full_list)
    qed
  qed
qed

section \<open>The end of a save\<close>

lemma map_filter_ids: "(\<And>s s'. f s = Some s' \<Longrightarrow> rc_id s' = rc_id s) \<Longrightarrow> map rc_id (List.map_filter f ss) = map rc_id (filter (\<lambda>s. f s \<noteq> None) ss)"
  by (induction ss) (auto simp: map_filter_simps split: option.splits)

lemma slaves_ok_map_filter:
  assumes "slaves_ok k b hs ss" and id: "\<And>s s'. f s = Some s' \<Longrightarrow> rc_id s' = rc_id s"
    and ok: "\<And>s s'. f s = Some s' \<Longrightarrow> slave_ok k b hs s \<Longrightarrow> slave_ok k b hs s'"
  shows "slaves_ok k b hs (List.map_filter f ss)"
proof -
  have "map rc_id (List.map_filter f ss) = map rc_id (filter (\<lambda>s. f s \<noteq> None) ss)" by (rule map_filter_ids) (rule id)
  moreover have "distinct (map rc_id (filter (\<lambda>s. f s \<noteq> None) ss))"
    using assms(1) unfolding slaves_ok_def by (intro distinct_map_filter) blast
  ultimately have "distinct (map rc_id (List.map_filter f ss))" by (simp only:)
  moreover have "slave_ok k b hs s'" if s': "s' \<in> set (List.map_filter f ss)" for s'
  proof -
    obtain s where "s \<in> set ss" "f s = Some s'" using s' by (auto simp: map_filter_def)
    then show ?thesis using ok assms(1) by (simp add: slaves_ok_def)
  qed
  ultimately show ?thesis by (simp add: slaves_ok_def)
qed

lemma saved_slave_ok:
  assumes "saved_slave env ok ty s = Some s'"
  shows "rc_id s' = rc_id s" and "slave_ok k b hs s \<Longrightarrow> slave_ok k b hs s'"
  using assms by (auto simp: saved_slave_def slave_ok_def split: if_splits)

lemma repl_ok_slaves: "repl_ok k b hs r \<Longrightarrow> slaves_ok k b hs (rp_slaves r)"
  by (simp add: repl_ok_def slaves_ok_def)

text \<open>An operation that only changes replicas, and leaves none when there is no backlog.\<close>

lemma start_repl_ok:
  assumes ok: "repl_ok k b hs r" and run: "startBgsaveForReplication env mincapa r = (res, dropped, r')"
  shows "repl_ok k b hs r'" and "same_stream r r'"
proof -
  have "repl_ok k b hs r' \<and> same_stream r r'"
  proof (cases "rp_backlog r = None")
    case False
    then have "getPsyncInitialOffset r = b + int (length hs)" using ok by (auto simp: repl_ok_def getPsyncInitialOffset_def)
    note S = startBgsaveForReplication_spec [OF repl_ok_slaves [OF ok] this run]
    show ?thesis using stream_repl_ok [OF ok, of r'] S False by blast
  next
    case True
    then have e: "rp_slaves r = []" using ok by (auto simp: repl_ok_def)
    then have n: "slaves_ok k (rp_offset r + 1) [] (rp_slaves r)" by (simp add: slaves_ok_def)
    have "getPsyncInitialOffset r = rp_offset r + 1 + int (length ([] :: u8 list))" using True by (simp add: getPsyncInitialOffset_def)
    note S = startBgsaveForReplication_spec [OF n this run]
    have "set (map rc_id (rp_slaves r')) \<subseteq> {}" using S e by simp
    then have "rp_slaves r' = []" by simp
    then show ?thesis using stream_repl_ok [OF ok, of r'] S by (simp add: slaves_ok_def)
  qed
  then show "repl_ok k b hs r'" "same_stream r r'" by simp_all
qed

lemma start_snd_ok:
  assumes "repl_ok k b hs r"
  shows "repl_ok k b hs (snd (snd (startBgsaveForReplication env mincapa r)))"
    and "same_stream r (snd (snd (startBgsaveForReplication env mincapa r)))"
proof -
  obtain res dropped r' where "startBgsaveForReplication env mincapa r = (res, dropped, r')" by (metis prod_cases3)
  then show "repl_ok k b hs (snd (snd (startBgsaveForReplication env mincapa r)))"
    "same_stream r (snd (snd (startBgsaveForReplication env mincapa r)))" using start_repl_ok [OF assms] by simp_all
qed

lemma repl_ok_upd_slaves:
  assumes ok: "repl_ok k b hs r" and ss: "slaves_ok k b hs ss" "ss \<noteq> [] \<Longrightarrow> rp_slaves r \<noteq> []"
  shows "repl_ok k b hs (r\<lparr>rp_slaves := ss\<rparr>)"
  by (rule stream_repl_ok [OF ok]) (use ok ss in \<open>auto simp: repl_ok_def\<close>)

lemma repl_ok_simps [simp]:
  "repl_ok k b hs (r\<lparr>rp_child := ch\<rparr>) = repl_ok k b hs r" "repl_ok k b hs (r\<lparr>rp_no_slaves_since := t\<rparr>) = repl_ok k b hs r"
  "repl_ok k b hs (r\<lparr>rp_seldb := d\<rparr>) = repl_ok k b hs r"
  by (simp_all add: repl_ok_def)

lemma updateSlaves_ok:
  assumes ok: "repl_ok k b hs r"
  shows "repl_ok k b hs (updateSlavesWaitingBgsave env res ty r)" and "same_stream r (updateSlavesWaitingBgsave env res ty r)"
proof -
  let ?ss = "List.map_filter (saved_slave env res ty) (rp_slaves r)"
  have "slaves_ok k b hs ?ss" by (rule slaves_ok_map_filter [OF repl_ok_slaves [OF ok]]) (fact saved_slave_ok)+
  then have "repl_ok k b hs (r\<lparr>rp_slaves := ?ss\<rparr>)" by (rule repl_ok_upd_slaves [OF ok]) (auto simp: map_filter_def)
  then have r1: "repl_ok k b hs (r\<lparr>rp_slaves := ?ss, rp_no_slaves_since := t\<rparr>)" for t by simp
  show "repl_ok k b hs (updateSlavesWaitingBgsave env res ty r)"
    unfolding updateSlavesWaitingBgsave_def Let_def
    by (cases "min_capa (rp_slaves r) None") (simp_all only: option.case r1 start_snd_ok(1) [OF r1])
  show "same_stream r (updateSlavesWaitingBgsave env res ty r)"
    unfolding updateSlavesWaitingBgsave_def Let_def
  proof (cases "min_capa (rp_slaves r) None")
    case (Some mincapa)
    show "same_stream r (case min_capa (rp_slaves r) None of
        None \<Rightarrow> r\<lparr>rp_slaves := ?ss, rp_no_slaves_since := if ?ss = [] \<and> rp_slaves r \<noteq> [] then e_time env else rp_no_slaves_since r\<rparr>
      | Some mincapa \<Rightarrow> snd (snd (startBgsaveForReplication env mincapa
          (r\<lparr>rp_slaves := ?ss, rp_no_slaves_since := if ?ss = [] \<and> rp_slaves r \<noteq> [] then e_time env else rp_no_slaves_since r\<rparr>))))"
      unfolding Some option.case by (rule same_stream_trans [OF _ start_snd_ok(2) [OF r1]]) simp
  qed simp
qed

lemma backgroundSaveDone_ok:
  assumes ok: "repl_ok k b hs r" and child: "rp_child r \<noteq> None"
  shows "\<exists>r'. backgroundSaveDoneHandler env res served r = Inr r' \<and> repl_ok k b hs r' \<and> same_stream r r'"
proof -
  let ?ss = "filter (\<lambda>s. rc_replstate s = WAIT_BGSAVE_END \<longrightarrow> res \<and> rc_id s \<in> set served) (rp_slaves r)"
  have "repl_ok k b hs (r\<lparr>rp_slaves := ?ss\<rparr>)" by (rule repl_ok_upd_slaves [OF ok slaves_ok_filter [OF repl_ok_slaves [OF ok]]]) auto
  moreover have "r\<lparr>rp_slaves := ?ss, rp_child := None, rp_no_slaves_since := t\<rparr> = r\<lparr>rp_child := None, rp_slaves := ?ss, rp_no_slaves_since := t\<rparr>" for t
    by simp
  ultimately have r1: "repl_ok k b hs (r\<lparr>rp_child := None, rp_slaves := ?ss, rp_no_slaves_since := t\<rparr>)" for t
    by (metis repl_ok_simps(1,2))
  have r2: "repl_ok k b hs (r\<lparr>rp_child := None\<rparr>)" using ok by simp
  show ?thesis
    using child updateSlaves_ok [OF r1] updateSlaves_ok [OF r2]
    by (auto simp: backgroundSaveDoneHandler_def Let_def split: option.splits rdb_child.splits)
qed

section \<open>The other operations\<close>

text \<open>The replica with the identity \<open>i\<close> is changed by \<open>f\<close>.\<close>

definition at_slave :: "nat \<Rightarrow> (rclient \<Rightarrow> rclient) \<Rightarrow> repl \<Rightarrow> repl" where
  "at_slave i f r = r\<lparr>rp_slaves := map (\<lambda>s. if rc_id s = i then f s else s) (rp_slaves r)\<rparr>"

lemma at_slave_ok:
  assumes ok: "repl_ok k b hs r" and id: "\<And>s. rc_id (f s) = rc_id s" and keep: "\<And>s. slave_ok k b hs s \<Longrightarrow> slave_ok k b hs (f s)"
  shows "repl_ok k b hs (at_slave i f r)"
  unfolding at_slave_def
  by (rule repl_ok_upd_slaves [OF ok slaves_ok_map [OF repl_ok_slaves [OF ok]]]) (auto simp: id keep)

lemma putSlaveOnline_ok: "slave_ok k b hs s \<Longrightarrow> rc_replstate s \<noteq> WAIT_BGSAVE_START \<Longrightarrow> slave_ok k b hs (putSlaveOnline env s)"
  by (auto simp: putSlaveOnline_def slave_ok_def)

lemma bulk_sent_ok: "rc_id (bulk_sent env s) = rc_id s" "slave_ok k b hs s \<Longrightarrow> slave_ok k b hs (bulk_sent env s)"
  by (auto simp: bulk_sent_def putSlaveOnline_ok) (simp add: putSlaveOnline_def)

lemma sent_ok: "rc_id (sendReplyToClient env n s) = rc_id s" "slave_ok k b hs s \<Longrightarrow> slave_ok k b hs (sendReplyToClient env n s)"
proof -
  show "rc_id (sendReplyToClient env n s) = rc_id s" by (simp add: sendReplyToClient_def Let_def)
  have same: "rc_replstate (sendReplyToClient env n s) = rc_replstate s" "rc_psync_offset (sendReplyToClient env n s) = rc_psync_offset s"
    "rc_sent (sendReplyToClient env n s) @ rc_out (sendReplyToClient env n s) = rc_sent s @ rc_out s"
    by (simp_all add: sendReplyToClient_def Let_def)
  show "slave_ok k b hs (sendReplyToClient env n s)" if "slave_ok k b hs s"
  proof (cases "k \<and> rc_handler s")
    case True
    then have "rc_replstate s \<noteq> WAIT_BGSAVE_START" "rc_replstate s \<noteq> WAIT_BGSAVE_END" using that by (auto simp: slave_ok_def)
    then show ?thesis using that same by (simp add: slave_ok_def)
  next
    case False
    then show ?thesis using that by (auto simp: slave_ok_def sendReplyToClient_def)
  qed
qed

lemma slave_ok_upd [simp]:
  "slave_ok k b hs (s\<lparr>rc_ack_off := a\<rparr>) = slave_ok k b hs s" "slave_ok k b hs (s\<lparr>rc_ack_time := t\<rparr>) = slave_ok k b hs s"
  by (simp_all add: slave_ok_def)

lemma replconf_ack_ok: "rc_id (replconf_ack env s arg) = rc_id s" "slave_ok k b hs s \<Longrightarrow> slave_ok k b hs (replconf_ack env s arg)"
  by (auto simp: replconf_ack_def Let_def putSlaveOnline_ok split: option.splits) (simp_all add: putSlaveOnline_def)

lemma freeSlave_ok:
  assumes "repl_ok k b hs r"
  shows "repl_ok k b hs (freeSlave env i r)"
proof -
  have "repl_ok k b hs (r\<lparr>rp_slaves := filter (\<lambda>s. rc_id s \<noteq> i) (rp_slaves r)\<rparr>)"
    by (rule repl_ok_upd_slaves [OF assms slaves_ok_filter [OF repl_ok_slaves [OF assms]]]) auto
  then show ?thesis using assms unfolding freeSlave_def Let_def by (auto simp del: repl_ok_simps(2)) (metis repl_ok_simps(2))
qed

lemma backlog_resized_ok:
  assumes "repl_ok k b hs r"
  shows "repl_ok k b hs (resizeReplicationBacklog n r)" and "rp_backlog r = None \<Longrightarrow> rp_backlog (resizeReplicationBacklog n r) = None"
proof -
  have b: "backlog_ok hs (r\<lparr>rp_size := m, rp_backlog := Some (replicate (nat m) 0), rp_histlen := 0, rp_idx := 0, rp_off := rp_offset r + 1\<rparr>)"
    if "0 < m" for m using that by (simp add: backlog_ok_def ring_holds_def)
  define m where "m = (if n < REDIS_REPL_BACKLOG_MIN_SIZE then REDIS_REPL_BACKLOG_MIN_SIZE else n)"
  have pos: "0 < m" by (simp add: m_def REDIS_REPL_BACKLOG_MIN_SIZE_def)
  have e: "backlog_ok hs (r\<lparr>rp_size := m\<rparr>)" if "rp_backlog r = None" using that by (simp add: backlog_ok_def)
  have "resizeReplicationBacklog n r =
    (if rp_size r = m then r
     else if rp_backlog r \<noteq> None
     then r\<lparr>rp_size := m, rp_backlog := Some (replicate (nat m) 0), rp_histlen := 0, rp_idx := 0, rp_off := rp_offset r + 1\<rparr>
     else r\<lparr>rp_size := m\<rparr>)"
    unfolding resizeReplicationBacklog_def m_def [symmetric] by (simp add: Let_def)
  then show "repl_ok k b hs (resizeReplicationBacklog n r)"
    using assms b [OF pos] e pos by (auto simp: repl_ok_def)
  show "rp_backlog (resizeReplicationBacklog n r) = None" if "rp_backlog r = None"
    using that by (simp add: resizeReplicationBacklog_def Let_def)
qed

lemma cron_drop_ok:
  assumes "repl_ok k b hs r"
  obtains r' where "cron_drop env r = Inr r'" "repl_ok k b hs r'" "rp_backlog r = None \<Longrightarrow> rp_backlog r' = None"
proof -
  let ?ss = "filter (\<lambda>s. \<not> timed_out env s) (rp_slaves r)"
  let ?r = "r\<lparr>rp_slaves := ?ss, rp_no_slaves_since := if ?ss = [] \<and> rp_slaves r \<noteq> [] then e_time env else rp_no_slaves_since r\<rparr>"
  have "repl_ok k b hs (r\<lparr>rp_slaves := ?ss\<rparr>)"
    by (rule repl_ok_upd_slaves [OF assms slaves_ok_filter [OF repl_ok_slaves [OF assms]]]) auto
  then have ok: "repl_ok k b hs ?r" by (simp only: repl_ok_simps)
  have free: "repl_ok k b hs (?r\<lparr>rp_backlog := None\<rparr>)" if "?ss = []" using ok that by (simp add: repl_ok_def backlog_ok_def)
  show thesis
  proof (cases "?ss = [] \<and> e_backlog_limit env \<noteq> 0 \<and> rp_backlog ?r \<noteq> None \<and> e_time env - rp_no_slaves_since ?r > e_backlog_limit env")
    case True
    then have "cron_drop env r = freeReplicationBacklog ?r" unfolding cron_drop_def Let_def by (rule if_P)
    also have "\<dots> = Inr (?r\<lparr>rp_backlog := None\<rparr>)" using True by (simp add: freeReplicationBacklog_def)
    finally show thesis using that [of "?r\<lparr>rp_backlog := None\<rparr>"] free True by simp
  next
    case False
    then have "cron_drop env r = Inr ?r" unfolding cron_drop_def Let_def by (rule if_not_P)
    then show thesis using that [of ?r] ok by simp
  qed
qed

lemma cron_bgsave_ok:
  assumes "repl_ok k b hs r"
  shows "repl_ok k b hs (cron_bgsave env r)" and "rp_backlog (cron_bgsave env r) = rp_backlog r"
  using assms start_snd_ok [OF assms] by (auto simp: cron_bgsave_def same_stream_def split: option.splits)

definition ping_text :: "renv \<Rightarrow> int \<Rightarrow> repl \<Rightarrow> u8 list" where
  "ping_text env loops r = (if loops mod e_ping_period env = 0 then feed_text r (rp_seldb r) [OStr (bytes_of ''PING'')] else [])"

lemma replicationCron_ok:
  assumes ok: "repl_ok k b hs r"
  obtains r' where "replicationCron env loops r = tret r'" "repl_ok k b (hs @ ping_text env loops r) r'"
    "rp_backlog r = None \<Longrightarrow> rp_backlog r' = None"
proof -
  have ping: "\<forall>ob \<in> set [OStr (bytes_of ''PING'')]. obj_ok ob" "length [OStr (bytes_of ''PING'')] < 2 ^ 63" by (simp_all add: obj_ok_def)
  have count: "\<not> bulks_overflow [OStr (bytes_of ''PING'')] ss" for ss by (simp add: bulks_overflow_def least_long_def)
  obtain r1 where r1: "(if loops mod e_ping_period env = 0 then replicationFeedSlaves r (rp_seldb r) [OStr (bytes_of ''PING'')] else tret r) = tret r1"
    "repl_ok k b (hs @ ping_text env loops r) r1" "(rp_backlog r1 = None) = (rp_backlog r = None)"
  proof (cases "loops mod e_ping_period env = 0")
    case True
    obtain r1 where "replicationFeedSlaves r (rp_seldb r) [OStr (bytes_of ''PING'')] =
        (if bulks_overflow [OStr (bytes_of ''PING'')] (rp_slaves r) then Some (Inl SignedOverflow) else tret r1)"
      "repl_ok k b (hs @ feed_text r (rp_seldb r) [OStr (bytes_of ''PING'')]) r1" "(rp_backlog r1 = None) = (rp_backlog r = None)"
      by (rule replicationFeedSlaves_spec [OF ok ping])
    then show thesis using that True count by (simp add: ping_text_def)
  qed (use that ok in \<open>simp add: ping_text_def\<close>)
  obtain r2 where r2: "cron_drop env r1 = Inr r2" "repl_ok k b (hs @ ping_text env loops r) r2" "rp_backlog r1 = None \<Longrightarrow> rp_backlog r2 = None"
    using cron_drop_ok [OF r1(2)] by blast
  have "replicationCron env loops r = tret (cron_bgsave env r2)"
    unfolding replicationCron_def r1(1) tbind_simps r2(1) ..
  then show thesis using that cron_bgsave_ok [OF r2(2)] r1(3) r2(3) by simp
qed

section \<open>Runs\<close>

datatype repl_op =
    FeedCommand int "robj list"
  | SyncRequest rclient "(u8 list \<times> u8 list) option"
  | BgSave
  | SaveDone bool "nat list"
  | BulkSent nat
  | SendOutput nat nat
  | AckFrom nat "u8 list"
  | FreeSlave nat
  | ResizeBacklog int
  | ReplCron int

fun repl_do :: "renv \<Rightarrow> repl_op \<Rightarrow> repl \<Rightarrow> repl res option" where
  "repl_do env (FeedCommand dictid argv) r = replicationFeedSlaves r dictid argv"
| "repl_do env (SyncRequest c psync) r = tbind (syncCommand env r c psync) (\<lambda>(_, r). tret r)"
| "repl_do env BgSave r = tret (snd (rdbSaveBackground env r))"
| "repl_do env (SaveDone ok served) r = Some (backgroundSaveDoneHandler env ok served r)"
| "repl_do env (BulkSent i) r = tret (at_slave i (bulk_sent env) r)"
| "repl_do env (SendOutput i n) r = tret (at_slave i (sendReplyToClient env n) r)"
| "repl_do env (AckFrom i arg) r = tret (at_slave i (\<lambda>s. replconf_ack env s arg) r)"
| "repl_do env (FreeSlave i) r = tret (freeSlave env i r)"
| "repl_do env (ResizeBacklog n) r = tret (resizeReplicationBacklog n r)"
| "repl_do env (ReplCron loops) r = replicationCron env loops r"

text \<open>
  Arguments are shorter than \<open>2 ^ 63\<close> bytes; a client that is no replica is not
  one of the list, has its write handler only when something is pending, and
  its record of what is sent starts empty; a save that ends has a child; and the
  period of the pings is positive.
\<close>

fun op_ok :: "renv \<Rightarrow> repl \<Rightarrow> repl_op \<Rightarrow> bool" where
  "op_ok env r (FeedCommand dictid argv) \<longleftrightarrow> list_all obj_ok argv \<and> length argv < 2 ^ 63"
| "op_ok env r (SyncRequest c psync) \<longleftrightarrow>
     rc_slave c \<or> rc_id c \<notin> set (map rc_id (rp_slaves r)) \<and> (rc_handler c \<longrightarrow> rc_out c \<noteq> []) \<and> rc_sent c = []"
| "op_ok env r (SaveDone ok served) \<longleftrightarrow> rp_child r \<noteq> None"
| "op_ok env r (ReplCron loops) \<longleftrightarrow> 0 < e_ping_period env"
| "op_ok env r _ \<longleftrightarrow> True"

text \<open>The one fault: a \<open>long\<close> whose digits \<open>addReplyBulkLen\<close> counts for a replica.\<close>

fun op_overflows :: "repl \<Rightarrow> repl_op \<Rightarrow> bool" where
  "op_overflows r (FeedCommand dictid argv) \<longleftrightarrow> bulks_overflow argv (rp_slaves r)"
| "op_overflows r _ \<longleftrightarrow> False"

text \<open>A \<open>PSYNC\<close> with the right run id and an offset that is no number: it is answered with an error and attaches the client.\<close>

fun psync_error :: "repl \<Rightarrow> repl_op \<Rightarrow> bool" where
  "psync_error r (SyncRequest c (Some (runid, arg))) \<longleftrightarrow> strcaseeq (cstr runid) (rp_runid r) \<and> getLongLongFromObject arg = None"
| "psync_error r _ \<longleftrightarrow> False"

text \<open>The stream: its text grows with every command that is fed, and starts anew with the backlog.\<close>

fun op_text :: "renv \<Rightarrow> repl \<Rightarrow> repl_op \<Rightarrow> u8 list" where
  "op_text env r (FeedCommand dictid argv) = feed_text r dictid argv"
| "op_text env r (ReplCron loops) = ping_text env loops r"
| "op_text env r _ = []"

definition backlog_new :: "repl \<Rightarrow> repl \<Rightarrow> bool" where
  "backlog_new r r' \<longleftrightarrow> rp_backlog r = None \<and> rp_backlog r' \<noteq> None"

text \<open>The flag tells that there was no such \<open>PSYNC\<close>.\<close>

inductive stream_run :: "bool \<Rightarrow> repl \<Rightarrow> int \<Rightarrow> u8 list \<Rightarrow> bool" where
  init: "rp_backlog r = None \<Longrightarrow> rp_slaves r = [] \<Longrightarrow> 0 < rp_size r \<Longrightarrow> stream_run True r (rp_offset r) []"
| step: "stream_run k r b hs \<Longrightarrow> op_ok env r op \<Longrightarrow> repl_do env op r = tret r' \<Longrightarrow>
    stream_run (k \<and> \<not> psync_error r op) r' (if backlog_new r r' then rp_offset r' else b)
      (if backlog_new r r' then [] else hs @ op_text env r op)"

definition repl_run :: "repl \<Rightarrow> int \<Rightarrow> u8 list \<Rightarrow> bool" where
  "repl_run r b hs \<longleftrightarrow> (\<exists>k. stream_run k r b hs)"

lemma slave_ok_False [simp]: "slave_ok False b hs s"
  by (simp add: slave_ok_def)

lemma repl_ok_False: "repl_ok k b hs r \<Longrightarrow> repl_ok False b hs r"
  by (simp add: repl_ok_def)

lemma syncCommand_ok:
  assumes ok: "repl_ok k b hs r" and op: "op_ok env r (SyncRequest c psync)" and k: "k \<Longrightarrow> \<not> psync_error r (SyncRequest c psync)"
  obtains reply r' where "syncCommand env r c psync = tret (reply, r')"
    "if backlog_new r r' then repl_ok k (rp_offset r') [] r' else repl_ok k b hs r'"
proof -
  note goal = that
  have same: thesis if "syncCommand env r c psync = tret (reply, r)" for reply
    using goal [OF that] ok by (cases "rp_backlog r") (simp_all add: backlog_new_def)
  show thesis
  proof (cases "rc_slave c \<or> e_link_down env \<or> rc_out c \<noteq> []")
    case True
    then have "syncCommand env r c psync =
      tret (if rc_slave c then SyncIgnored else if e_link_down env then SyncErrLink else SyncErrPending, r)"
      by (auto simp: syncCommand_def)
    then show thesis by (rule same)
  next
    case False
    then have new: "rc_id c \<notin> set (map rc_id (rp_slaves r))" "rc_out c = []" "rc_sent c = []" "\<not> rc_handler c" using op by auto
    have full: thesis if run: "syncCommand env r c psync = Some (attach_full env r c')" and c': "rc_id c' = rc_id c"
      "k \<Longrightarrow> rc_out c' = [] \<and> rc_sent c' = [] \<and> \<not> rc_handler c'" for c'
    proof -
      obtain reply r' where "attach_full env r c' = Inr (reply, r')"
        "if rp_backlog r = None \<and> rp_backlog r' \<noteq> None then repl_ok k (rp_offset r') [] r' else repl_ok k b hs r'"
        by (rule attach_full_spec [OF ok, of c' env]) (use new c' in simp_all)
      then show thesis using goal [of reply r'] run by (simp add: backlog_new_def)
    qed
    show thesis
    proof (cases psync)
      case None
      show thesis by (rule full [of "c\<lparr>rc_pre_psync := True\<rparr>"]) (use None False new in \<open>simp_all add: syncCommand_def\<close>)
    next
      case (Some ra)
      obtain runid arg where ra: "ra = (runid, arg)" by fastforce
      let ?psync = "masterTryPartialResynchronization env r c runid arg"
      have go: "syncCommand env r c psync =
        tbind ?psync (\<lambda>(c, r). case c of None \<Rightarrow> tret (SyncContinue, r) | Some c \<Rightarrow> Some (attach_full env r c))"
        using False by (simp add: syncCommand_def Some ra)
      have no: thesis if "?psync = tret (Some c, r)" using full [of c] go that new by simp
      show thesis
      proof (cases "getLongLongFromObject arg")
        case None
        show thesis
        proof (cases "strcaseeq (cstr runid) (rp_runid r)")
          case False
          then show thesis using no by (simp add: masterTryPartialResynchronization_def)
        next
          case True
          have "\<not> k" using k None True by (auto simp: Some ra)
          moreover have "?psync = tret (Some (add_output c not_integer_error), r)"
            using None True by (simp add: masterTryPartialResynchronization_def)
          ultimately show thesis using full [of "add_output c not_integer_error"] go by simp
        qed
      next
        case off: (Some psync_offset)
        show thesis
        proof (cases "strcaseeq (cstr runid) (rp_runid r) \<and> rp_backlog r \<noteq> None \<and> rp_off r \<le> psync_offset \<and> psync_offset \<le> rp_off r + rp_histlen r")
          case False
          then show thesis using no numeric_partial(2) [OF ok off] by blast
        next
          case True
          obtain c' where c': "?psync = tret (None, r\<lparr>rp_slaves := rp_slaves r @ [c']\<rparr>)" "rc_id c' = rc_id c" "rc_replstate c' = REPL_ONLINE"
            "rc_out c' = (if e_write env (rc_id c) then rc_out c @ drop (nat (psync_offset - 1 - b)) hs else rc_out c)"
            "rc_sent c' = rc_sent c" "0 \<le> psync_offset - 1 - b" "psync_offset - 1 - b \<le> int (length hs)"
            using numeric_partial(1) [OF ok off, of runid env c] True by blast
          have "slave_ok k b hs c'"
            using c'(3-7) new(2,3) by (cases "e_write env (rc_id c)")
              (auto simp: slave_ok_def intro: exI [of _ "nat (psync_offset - 1 - b)"] exI [of _ "length hs"])
          then have "slaves_ok k b hs (rp_slaves r @ [c'])" using slaves_ok_append [OF repl_ok_slaves [OF ok]] new(1) c'(2) by simp
          then have "repl_ok k b hs (r\<lparr>rp_slaves := rp_slaves r @ [c']\<rparr>)"
            by (intro stream_repl_ok [OF ok]) (use True in simp_all)
          then show thesis using goal [of SyncContinue "r\<lparr>rp_slaves := rp_slaves r @ [c']\<rparr>"] go c'(1) True
            by (cases "rp_backlog r") (simp_all add: backlog_new_def)
        qed
      qed
    qed
  qed
qed

lemma kept_stream:
  assumes "repl_ok k b hs r'" and "rp_backlog r = None \<Longrightarrow> rp_backlog r' = None"
  shows "\<not> backlog_new r r' \<and> repl_ok k b hs r'"
  using assms by (cases "rp_backlog r") (simp_all add: backlog_new_def)

lemma repl_do_ok:
  assumes ok: "repl_ok k b hs r" and op: "op_ok env r op" and k: "k \<Longrightarrow> \<not> psync_error r op"
  shows "\<exists>r'. repl_do env op r = (if op_overflows r op then Some (Inl SignedOverflow) else tret r') \<and>
    repl_ok k (if backlog_new r r' then rp_offset r' else b) (if backlog_new r r' then [] else hs @ op_text env r op) r'"
proof -
  have same: "\<exists>r'. repl_do env op r = (if op_overflows r op then Some (Inl SignedOverflow) else tret r') \<and>
      repl_ok k (if backlog_new r r' then rp_offset r' else b) (if backlog_new r r' then [] else hs @ op_text env r op) r'"
    if "repl_do env op r = (if op_overflows r op then Some (Inl SignedOverflow) else tret r')" "repl_ok k b (hs @ op_text env r op) r'" "rp_backlog r = None \<Longrightarrow> rp_backlog r' = None" for r'
    using that kept_stream [of k b "hs @ op_text env r op" r' r] by (intro exI [of _ r']) simp
  show ?thesis
  proof (cases op)
    case (FeedCommand dictid argv)
    then have argv: "\<forall>ob \<in> set argv. obj_ok ob" "length argv < 2 ^ 63" using op by (simp_all add: list_all_iff)
    obtain r' where "replicationFeedSlaves r dictid argv = (if bulks_overflow argv (rp_slaves r) then Some (Inl SignedOverflow) else tret r')"
      "repl_ok k b (hs @ feed_text r dictid argv) r'" "(rp_backlog r' = None) = (rp_backlog r = None)" by (rule replicationFeedSlaves_spec [OF ok argv])
    then show ?thesis using same [of r'] FeedCommand by simp
  next
    case (SyncRequest c psync)
    obtain reply r' where "syncCommand env r c psync = tret (reply, r')"
      "if backlog_new r r' then repl_ok k (rp_offset r') [] r' else repl_ok k b hs r'"
      by (rule syncCommand_ok [OF ok op [unfolded SyncRequest]]) (use k SyncRequest in blast)
    then show ?thesis using SyncRequest by (intro exI [of _ r']) simp
  next
    case BgSave
    show ?thesis by (rule same [of "snd (rdbSaveBackground env r)"]) (use ok BgSave in \<open>auto simp: rdbSaveBackground_def\<close>)
  next
    case (SaveDone res served)
    then have "rp_child r \<noteq> None" using op by simp
    then obtain r' where "backgroundSaveDoneHandler env res served r = Inr r'" "repl_ok k b hs r'" "same_stream r r'"
      using backgroundSaveDone_ok [OF ok, of env res served] by blast
    then show ?thesis using same [of r'] SaveDone by (simp add: same_stream_def)
  next
    case (BulkSent i)
    show ?thesis by (rule same [of "at_slave i (bulk_sent env) r"])
      (use at_slave_ok [OF ok bulk_sent_ok] BulkSent in \<open>simp_all add: at_slave_def\<close>)
  next
    case (SendOutput i n)
    show ?thesis by (rule same [of "at_slave i (sendReplyToClient env n) r"])
      (use at_slave_ok [OF ok sent_ok] SendOutput in \<open>simp_all add: at_slave_def\<close>)
  next
    case (AckFrom i arg)
    show ?thesis by (rule same [of "at_slave i (\<lambda>s. replconf_ack env s arg) r"])
      (use at_slave_ok [OF ok replconf_ack_ok] AckFrom in \<open>simp_all add: at_slave_def\<close>)
  next
    case (FreeSlave i)
    show ?thesis by (rule same [of "freeSlave env i r"]) (use freeSlave_ok [OF ok] FreeSlave in \<open>simp_all add: freeSlave_def Let_def\<close>)
  next
    case (ResizeBacklog n)
    show ?thesis by (rule same [of "resizeReplicationBacklog n r"]) (use backlog_resized_ok [OF ok] ResizeBacklog in simp_all)
  next
    case (ReplCron loops)
    obtain r' where "replicationCron env loops r = tret r'" "repl_ok k b (hs @ ping_text env loops r) r'"
      "rp_backlog r = None \<Longrightarrow> rp_backlog r' = None" using replicationCron_ok [OF ok, of env loops] by blast
    then show ?thesis using same [of r'] ReplCron by simp
  qed
qed

lemma stream_run_ok: "stream_run k r b hs \<Longrightarrow> repl_ok k b hs r"
proof (induction rule: stream_run.induct)
  case (init r)
  then show ?case by (simp add: repl_ok_def backlog_ok_def)
next
  case (step k r b hs env op r')
  have "repl_ok (k \<and> \<not> psync_error r op) b hs r" using step.IH repl_ok_False by (cases "psync_error r op") auto
  then show ?case using repl_do_ok [of "k \<and> \<not> psync_error r op" b hs r env op] step.hyps(2,3) by (auto split: if_splits)
qed

lemma repl_run_ok: "repl_run r b hs \<Longrightarrow> repl_ok False b hs r"
  unfolding repl_run_def using stream_run_ok repl_ok_False by blast

section \<open>A save that cannot be started\<close>

lemma undo_setup:
  assumes "distinct (map rc_id ss)"
  shows "filter (\<lambda>s. rc_replstate s \<noteq> WAIT_BGSAVE_START)
      (map (\<lambda>s. if rc_id s \<in> set (map rc_id (filter (\<lambda>s. rc_replstate s = WAIT_BGSAVE_START) ss)) then s\<lparr>rc_replstate := WAIT_BGSAVE_START\<rparr> else s)
        (map (setup1 env off) ss)) = filter (\<lambda>s. rc_replstate s \<noteq> WAIT_BGSAVE_START) ss"
    and "map (\<lambda>s. (rc_id s, rc_out s, rc_handler s)) (filter (\<lambda>s. rc_replstate s = WAIT_BGSAVE_START)
      (map (\<lambda>s. if rc_id s \<in> set (map rc_id (filter (\<lambda>s. rc_replstate s = WAIT_BGSAVE_START) ss)) then s\<lparr>rc_replstate := WAIT_BGSAVE_START\<rparr> else s)
        (map (setup1 env off) ss))) = map (\<lambda>s. (rc_id s, rc_out s, rc_handler s)) (filter (\<lambda>s. rc_replstate s = WAIT_BGSAVE_START) ss)"
proof -
  let ?ids = "set (map rc_id (filter (\<lambda>s. rc_replstate s = WAIT_BGSAVE_START) ss))"
  have ids: "rc_id s \<in> ?ids \<longleftrightarrow> rc_replstate s = WAIT_BGSAVE_START" if "s \<in> set ss" for s
  proof
    assume "rc_id s \<in> ?ids"
    then obtain s' where "s' \<in> set ss" "rc_replstate s' = WAIT_BGSAVE_START" "rc_id s' = rc_id s" by auto
    moreover from this have "s' = s" using assms that by (auto simp: distinct_map dest: inj_onD)
    ultimately show "rc_replstate s = WAIT_BGSAVE_START" by simp
  qed (use that in auto)
  let ?undo = "\<lambda>s. if rc_id s \<in> ?ids then s\<lparr>rc_replstate := WAIT_BGSAVE_START\<rparr> else s"
  have keep: "?undo (setup1 env off s) = s" if "s \<in> set ss" "rc_replstate s \<noteq> WAIT_BGSAVE_START" for s
  proof -
    have "rc_id s \<notin> ?ids" using ids [OF that(1)] that(2) by blast
    then show ?thesis using that(2) by (simp add: setup1_def)
  qed
  have wait: "rc_replstate (?undo (setup1 env off s)) = WAIT_BGSAVE_START" if "s \<in> set ss" "rc_replstate s = WAIT_BGSAVE_START" for s
  proof -
    have "rc_id s \<in> ?ids" using ids [OF that(1)] that(2) by blast
    then show ?thesis by simp
  qed
  have "filter (\<lambda>s. rc_replstate s \<noteq> WAIT_BGSAVE_START) (map ?undo (map (setup1 env off) xs)) = filter (\<lambda>s. rc_replstate s \<noteq> WAIT_BGSAVE_START) xs \<and>
    map (\<lambda>s. (rc_id s, rc_out s, rc_handler s)) (filter (\<lambda>s. rc_replstate s = WAIT_BGSAVE_START) (map ?undo (map (setup1 env off) xs))) =
      map (\<lambda>s. (rc_id s, rc_out s, rc_handler s)) (filter (\<lambda>s. rc_replstate s = WAIT_BGSAVE_START) xs)" if "set xs \<subseteq> set ss" for xs
    using that
  proof (induction xs)
    case (Cons s xs)
    have s: "s \<in> set ss" and xs: "set xs \<subseteq> set ss" using Cons.prems by simp_all
    have out: "rc_id (?undo (setup1 env off s)) = rc_id s" "rc_out (?undo (setup1 env off s)) = rc_out s"
      "rc_handler (?undo (setup1 env off s)) = rc_handler s" by simp_all
    show ?case
    proof (cases "rc_replstate s = WAIT_BGSAVE_START")
      case True
      then show ?thesis using Cons.IH [OF xs] wait [OF s True] out by (simp only: list.map filter.simps if_True simp_thms if_False)
    next
      case False
      then show ?thesis using Cons.IH [OF xs] keep [OF s False] by (simp only: list.map filter.simps if_True simp_thms if_False)
    qed
  qed simp
  from this [of ss] show "filter (\<lambda>s. rc_replstate s \<noteq> WAIT_BGSAVE_START) (map ?undo (map (setup1 env off) ss)) =
      filter (\<lambda>s. rc_replstate s \<noteq> WAIT_BGSAVE_START) ss"
    "map (\<lambda>s. (rc_id s, rc_out s, rc_handler s)) (filter (\<lambda>s. rc_replstate s = WAIT_BGSAVE_START) (map ?undo (map (setup1 env off) ss))) =
      map (\<lambda>s. (rc_id s, rc_out s, rc_handler s)) (filter (\<lambda>s. rc_replstate s = WAIT_BGSAVE_START) ss)" by blast+
qed

lemma failed_start:
  assumes run: "startBgsaveForReplication env mincapa r = (False, dropped, r')" and dist: "distinct (map rc_id (rp_slaves r))"
  shows "rp_slaves r' = filter (\<lambda>s. rc_replstate s \<noteq> WAIT_BGSAVE_START) (rp_slaves r)" and "rp_child r' = rp_child r"
    and "map (\<lambda>s. (rc_id s, rc_out s, rc_handler s)) dropped =
      map (\<lambda>s. (rc_id s, rc_out s @ bgsave_error, rc_handler s)) (filter (\<lambda>s. rc_replstate s = WAIT_BGSAVE_START) (rp_slaves r))"
    and "\<forall>s \<in> set dropped. rc_close_after_reply s \<and> \<not> rc_slave s \<and> rc_replstate s = WAIT_BGSAVE_START"
proof -
  let ?sock = "rp_diskless r \<and> mincapa AND SLAVE_CAPA_EOF \<noteq> 0"
  obtain r1 where r1: "(if ?sock then rdbSaveToSlavesSockets env r else rdbSaveBackground env r) = (False, r1)"
    "dropped = map drop_waiting (filter (\<lambda>s. rc_replstate s = WAIT_BGSAVE_START) (rp_slaves r1))"
    "r' = r1\<lparr>rp_slaves := filter (\<lambda>s. rc_replstate s \<noteq> WAIT_BGSAVE_START) (rp_slaves r1)\<rparr>"
    using run by (auto simp: startBgsaveForReplication_def Let_def split: prod.splits if_splits)
  have s: "rp_child r1 = rp_child r \<and>
    filter (\<lambda>s. rc_replstate s \<noteq> WAIT_BGSAVE_START) (rp_slaves r1) = filter (\<lambda>s. rc_replstate s \<noteq> WAIT_BGSAVE_START) (rp_slaves r) \<and>
    map (\<lambda>s. (rc_id s, rc_out s, rc_handler s)) (filter (\<lambda>s. rc_replstate s = WAIT_BGSAVE_START) (rp_slaves r1)) =
      map (\<lambda>s. (rc_id s, rc_out s, rc_handler s)) (filter (\<lambda>s. rc_replstate s = WAIT_BGSAVE_START) (rp_slaves r))"
  proof (cases "?sock \<and> rp_child r = None \<and> e_pipe env")
    case True
    then have "rdbSaveToSlavesSockets env r = (False, r1)" using r1(1) by simp
    then have "rp_slaves r1 = map (\<lambda>s. if rc_id s \<in> set (map rc_id (filter (\<lambda>s. rc_replstate s = WAIT_BGSAVE_START) (rp_slaves r))) then s\<lparr>rc_replstate := WAIT_BGSAVE_START\<rparr> else s)
        (map (setup1 env (getPsyncInitialOffset r)) (rp_slaves r)) \<and> rp_child r1 = rp_child r"
      using True unfolding rdbSaveToSlavesSockets_def setup_waiting_spec Let_def prod.case by (auto split: if_splits)
    then show ?thesis using undo_setup [OF dist, of env "getPsyncInitialOffset r"] by (simp only: simp_thms)
  next
    case False
    then have "r1 = r" using r1(1) by (auto simp: rdbSaveBackground_def rdbSaveToSlavesSockets_def split: if_splits)
    then show ?thesis by simp
  qed
  show "rp_slaves r' = filter (\<lambda>s. rc_replstate s \<noteq> WAIT_BGSAVE_START) (rp_slaves r)" "rp_child r' = rp_child r"
    using s r1(3) by simp_all
  have m: "map (\<lambda>s. (rc_id s, rc_out s, rc_handler s)) (map drop_waiting (filter (\<lambda>s. rc_replstate s = WAIT_BGSAVE_START) ss)) =
    map (\<lambda>(i, out, h). (i, out @ bgsave_error, h))
      (map (\<lambda>s. (rc_id s, rc_out s, rc_handler s)) (filter (\<lambda>s. rc_replstate s = WAIT_BGSAVE_START) ss))" for ss
    by (induction ss) (simp_all add: drop_waiting_def)
  have same: "map (\<lambda>s. (rc_id s, rc_out s, rc_handler s)) (filter (\<lambda>s. rc_replstate s = WAIT_BGSAVE_START) (rp_slaves r1)) =
      map (\<lambda>s. (rc_id s, rc_out s, rc_handler s)) (filter (\<lambda>s. rc_replstate s = WAIT_BGSAVE_START) (rp_slaves r))" using s by blast
  show "map (\<lambda>s. (rc_id s, rc_out s, rc_handler s)) dropped =
      map (\<lambda>s. (rc_id s, rc_out s @ bgsave_error, rc_handler s)) (filter (\<lambda>s. rc_replstate s = WAIT_BGSAVE_START) (rp_slaves r))"
    unfolding r1(2) m same by (simp add: comp_def)
  show "\<forall>s \<in> set dropped. rc_close_after_reply s \<and> \<not> rc_slave s \<and> rc_replstate s = WAIT_BGSAVE_START"
    unfolding r1(2) by (auto simp: drop_waiting_def add_output_def prepareClientToWrite_def)
qed

section \<open>Acknowledgements\<close>

lemma count_acks: "replicationCountAcksByOffset r offset =
  int (length (filter (\<lambda>s. rc_replstate s = REPL_ONLINE \<and> offset \<le> rc_ack_off s) (rp_slaves r)))"
proof -
  have f: "fold (\<lambda>s count. if rc_replstate s \<noteq> REPL_ONLINE then count
                     else if rc_ack_off s \<ge> offset then count + 1 else count) ss n =
    n + int (length (filter (\<lambda>s. rc_replstate s = REPL_ONLINE \<and> offset \<le> rc_ack_off s) ss))" for ss and n :: int
    by (induction ss arbitrary: n) auto
  show ?thesis unfolding replicationCountAcksByOffset_def f by simp
qed

lemma count_acks_anti:
  assumes "a \<le> b"
  shows "replicationCountAcksByOffset r b \<le> replicationCountAcksByOffset r a"
proof -
  have "length (filter (\<lambda>s. rc_replstate s = REPL_ONLINE \<and> b \<le> rc_ack_off s) ss) \<le>
    length (filter (\<lambda>s. rc_replstate s = REPL_ONLINE \<and> a \<le> rc_ack_off s) ss)" for ss
    using assms by (induction ss) auto
  then show ?thesis by (simp add: count_acks)
qed

definition wait_satisfied :: "repl \<Rightarrow> waiter \<Rightarrow> bool" where
  "wait_satisfied r w \<longleftrightarrow> sint (wt_numreplicas w) \<le> int (length (filter (\<lambda>s. rc_replstate s = REPL_ONLINE \<and> wt_reploffset w \<le> rc_ack_off s) (rp_slaves r)))"

lemma wait_loop_spec:
  assumes "off = 0 \<or> n = replicationCountAcksByOffset r off"
  shows "fst (wait_loop r off n ws) = filter (\<lambda>w. \<not> wait_satisfied r w) ws \<and>
    list_all2 (\<lambda>w (i, k). i = wt_id w \<and> sint (wt_numreplicas w) \<le> k \<and> k \<le> replicationCountAcksByOffset r (wt_reploffset w))
      (filter (wait_satisfied r) ws) (snd (wait_loop r off n ws))"
  using assms
proof (induction ws arbitrary: off n)
  case (Cons w ws)
  show ?case
  proof (cases "off \<noteq> 0 \<and> off > wt_reploffset w \<and> n > sint (wt_numreplicas w)")
    case True
    then have "n \<le> replicationCountAcksByOffset r (wt_reploffset w)" using Cons.prems count_acks_anti [of "wt_reploffset w" off r] by simp
    moreover from this have "wait_satisfied r w" using True by (simp add: wait_satisfied_def count_acks)
    ultimately show ?thesis using True Cons.IH [OF Cons.prems] by (cases "wait_loop r off n ws") simp
  next
    case no: False
    let ?k = "replicationCountAcksByOffset r (wt_reploffset w)"
    show ?thesis
    proof (cases "sint (wt_numreplicas w) \<le> ?k")
      case True
      have "wait_satisfied r w" using True by (simp add: wait_satisfied_def count_acks)
      moreover obtain rest replies where loop: "wait_loop r (wt_reploffset w) ?k ws = (rest, replies)" by fastforce
      moreover have "wait_loop r off n (w # ws) = (rest, (wt_id w, ?k) # replies)"
        unfolding wait_loop.simps if_not_P [OF no] Let_def if_P [OF True] loop by simp
      ultimately show ?thesis using True Cons.IH [of "wt_reploffset w" ?k] by simp
    next
      case False
      then have "\<not> wait_satisfied r w" by (simp add: wait_satisfied_def count_acks)
      moreover obtain rest replies where loop: "wait_loop r off n ws = (rest, replies)" by fastforce
      moreover have "wait_loop r off n (w # ws) = (w # rest, replies)"
        unfolding wait_loop.simps if_not_P [OF no] Let_def if_not_P [OF False] loop by simp
      ultimately show ?thesis using Cons.IH [OF Cons.prems] by simp
    qed
  qed
qed simp

section \<open>The script cache\<close>

definition cache_ok :: "script_cache \<Rightarrow> bool" where
  "cache_ok sc \<longleftrightarrow> 0 < sc_size sc \<and> distinct (sc_fifo sc) \<and> set (sc_fifo sc) = sc_dict sc \<and> length (sc_fifo sc) \<le> sc_size sc"

text \<open>The newest digests are kept, as many as there is room for.\<close>

lemma script_cache_add:
  assumes ok: "cache_ok sc" and new: "\<not> replicationScriptCacheExists sha1 sc"
  obtains sc' where "replicationScriptCacheAdd sha1 sc = Inr sc'" "cache_ok sc'" "sc_size sc' = sc_size sc"
    "sc_fifo sc' = take (sc_size sc) (sha1 # sc_fifo sc)"
proof (cases "length (sc_fifo sc) = sc_size sc")
  case True
  then have ne: "sc_fifo sc \<noteq> []" using ok by (auto simp: cache_ok_def)
  then obtain xs x where x: "sc_fifo sc = xs @ [x]" by (meson rev_exhaust)
  let ?sc = "sc\<lparr>sc_dict := insert sha1 (sc_dict sc - {x}), sc_fifo := sha1 # xs\<rparr>"
  have d: "sc_dict sc = insert x (set xs)" "x \<notin> set xs" "distinct xs" "sc_size sc = Suc (length xs)" using ok True x by (auto simp: cache_ok_def)
  have "replicationScriptCacheAdd sha1 sc = Inr ?sc"
    using True x d new by (auto simp: replicationScriptCacheAdd_def sc_evict_def replicationScriptCacheExists_def)
  moreover have "cache_ok ?sc" using d new by (auto simp: cache_ok_def replicationScriptCacheExists_def)
  moreover have "sc_fifo ?sc = take (sc_size sc) (sha1 # sc_fifo sc)" using x d by simp
  ultimately show thesis using that [of ?sc] by simp
next
  case False
  let ?sc = "sc\<lparr>sc_dict := insert sha1 (sc_dict sc), sc_fifo := sha1 # sc_fifo sc\<rparr>"
  have "replicationScriptCacheAdd sha1 sc = Inr ?sc"
    using False new by (simp add: replicationScriptCacheAdd_def sc_evict_def replicationScriptCacheExists_def)
  moreover have "cache_ok ?sc" using False ok new by (auto simp: cache_ok_def replicationScriptCacheExists_def)
  moreover have "sc_fifo ?sc = take (sc_size sc) (sha1 # sc_fifo sc)" using ok False by (simp add: cache_ok_def)
  ultimately show thesis using that [of ?sc] by simp
qed

section \<open>A run\<close>

text \<open>
  A master with a backlog of sixteen bytes.  A replica asks for synchronization,
  a command is fed while it waits, the save ends and the file is sent; or a
  replica comes while a save for other reasons is running.
\<close>

definition demo_env :: renv where
  "demo_env = \<lparr>e_time = 5, e_write = (\<lambda>_. True), e_open = (\<lambda>_. True), e_pipe = True, e_fork = True, e_link_down = False,
     e_aof_child = False, e_timeout = 60, e_backlog_limit = 3600, e_ping_period = 10, e_diskless_delay = 5\<rparr>"

definition demo_master :: repl where
  "demo_master = \<lparr>rp_backlog = None, rp_size = 16, rp_histlen = 0, rp_idx = 0, rp_off = 0, rp_offset = 0, rp_seldb = - 1,
     rp_slaves = [], rp_child = None, rp_runid = bytes_of ''ab'', rp_diskless = False, rp_no_slaves_since = 0\<rparr>"

definition demo_client :: "nat \<Rightarrow> rclient" where
  "demo_client i = \<lparr>rc_id = i, rc_slave = False, rc_pre_psync = False, rc_replstate = REPL_NONE, rc_capa = 0, rc_out = [], rc_handler = False, rc_sent = [],
     rc_psync_offset = 0, rc_ack_off = 0, rc_ack_time = 0, rc_put_online_on_ack = False, rc_last_interaction = 0, rc_close = False,
     rc_close_after_reply = False\<rparr>"

text \<open>Two states of this master: the replica is online; a second one waits while a save is running.\<close>

fun do_all :: "renv \<Rightarrow> repl_op list \<Rightarrow> repl \<Rightarrow> repl res option" where
  "do_all env [] r = tret r"
| "do_all env (op # ops) r = tbind (repl_do env op r) (\<lambda>r. do_all env ops r)"

definition demo_after :: "repl_op list \<Rightarrow> repl" where
  "demo_after ops = (case do_all demo_env ops demo_master of Some (Inr r) \<Rightarrow> r | _ \<Rightarrow> demo_master)"

abbreviation demo_sync :: repl_op where "demo_sync \<equiv> SyncRequest (demo_client 7) (Some (bytes_of ''xy'', bytes_of ''1''))"

abbreviation demo_del :: repl_op where "demo_del \<equiv> FeedCommand 0 [OStr (bytes_of ''DEL''), OStr (bytes_of ''k'')]"

definition demo_online :: repl where "demo_online = demo_after [demo_sync, demo_del, SaveDone True [], BulkSent 7]"

definition demo_waiting :: repl where "demo_waiting = demo_after [BgSave, SyncRequest (demo_client 8) None]"

definition demo_text :: "u8 list" where
  "demo_text = select_text 0 @ command_text [OStr (bytes_of ''DEL''), OStr (bytes_of ''k'')]"

lemma run_step:
  assumes "stream_run True r b hs" and "op_ok demo_env r op" and "\<not> psync_error r op" and "repl_do demo_env op r = tret r'"
    and "(if backlog_new r r' then (rp_offset r', []) else (b, hs @ op_text demo_env r op)) = (b', hs')"
  shows "stream_run True r' b' hs'"
  using stream_run.step [OF assms(1,2,4)] assms(3,5) by (auto split: if_splits)

lemma demo_master_run: "stream_run True demo_master 0 []"
  using stream_run.init [of demo_master] by (simp add: demo_master_def)

lemma demo_online_stream: "stream_run True demo_online 1 demo_text"
proof -
  have sync: "stream_run True (demo_after [demo_sync]) 1 []"
  proof (rule run_step [OF demo_master_run])
    show "op_ok demo_env demo_master demo_sync" by code_simp
    show "\<not> psync_error demo_master demo_sync" by code_simp
    show "repl_do demo_env demo_sync demo_master = tret (demo_after [demo_sync])" by code_simp
    show "(if backlog_new demo_master (demo_after [demo_sync]) then (rp_offset (demo_after [demo_sync]), [])
      else (0, [] @ op_text demo_env demo_master demo_sync)) = (1, [])" by code_simp
  qed
  have del: "stream_run True (demo_after [demo_sync, demo_del]) 1 demo_text"
  proof (rule run_step [OF sync])
    show "op_ok demo_env (demo_after [demo_sync]) demo_del" by (simp add: obj_ok_def)
    show "\<not> psync_error (demo_after [demo_sync]) demo_del" by simp
    show "repl_do demo_env demo_del (demo_after [demo_sync]) = tret (demo_after [demo_sync, demo_del])" by code_simp
    show "(if backlog_new (demo_after [demo_sync]) (demo_after [demo_sync, demo_del]) then (rp_offset (demo_after [demo_sync, demo_del]), [])
      else (1, [] @ op_text demo_env (demo_after [demo_sync]) demo_del)) = (1, demo_text)" by code_simp
  qed
  have saved: "stream_run True (demo_after [demo_sync, demo_del, SaveDone True []]) 1 demo_text"
  proof (rule run_step [OF del])
    show "op_ok demo_env (demo_after [demo_sync, demo_del]) (SaveDone True [])" by code_simp
    show "\<not> psync_error (demo_after [demo_sync, demo_del]) (SaveDone True [])" by simp
    show "repl_do demo_env (SaveDone True []) (demo_after [demo_sync, demo_del]) = tret (demo_after [demo_sync, demo_del, SaveDone True []])" by code_simp
    show "(if backlog_new (demo_after [demo_sync, demo_del]) (demo_after [demo_sync, demo_del, SaveDone True []])
      then (rp_offset (demo_after [demo_sync, demo_del, SaveDone True []]), [])
      else (1, demo_text @ op_text demo_env (demo_after [demo_sync, demo_del]) (SaveDone True []))) = (1, demo_text)" by code_simp
  qed
  show ?thesis
  proof (rule run_step [OF saved])
    show "op_ok demo_env (demo_after [demo_sync, demo_del, SaveDone True []]) (BulkSent 7)" by simp
    show "\<not> psync_error (demo_after [demo_sync, demo_del, SaveDone True []]) (BulkSent 7)" by simp
    show "repl_do demo_env (BulkSent 7) (demo_after [demo_sync, demo_del, SaveDone True []]) = tret demo_online" by code_simp
    show "(if backlog_new (demo_after [demo_sync, demo_del, SaveDone True []]) demo_online then (rp_offset demo_online, [])
      else (1, demo_text @ op_text demo_env (demo_after [demo_sync, demo_del, SaveDone True []]) (BulkSent 7))) = (1, demo_text)" by code_simp
  qed
qed

lemma demo_waiting_stream: "stream_run True demo_waiting 1 []"
proof -
  have save: "stream_run True (demo_after [BgSave]) 0 []"
  proof (rule run_step [OF demo_master_run])
    show "op_ok demo_env demo_master BgSave" by simp
    show "\<not> psync_error demo_master BgSave" by simp
    show "repl_do demo_env BgSave demo_master = tret (demo_after [BgSave])" by code_simp
    show "(if backlog_new demo_master (demo_after [BgSave]) then (rp_offset (demo_after [BgSave]), [])
      else (0, [] @ op_text demo_env demo_master BgSave)) = (0, [])" by code_simp
  qed
  show ?thesis
  proof (rule run_step [OF save])
    show "op_ok demo_env (demo_after [BgSave]) (SyncRequest (demo_client 8) None)" by code_simp
    show "\<not> psync_error (demo_after [BgSave]) (SyncRequest (demo_client 8) None)" by code_simp
    show "repl_do demo_env (SyncRequest (demo_client 8) None) (demo_after [BgSave]) = tret demo_waiting" by code_simp
    show "(if backlog_new (demo_after [BgSave]) demo_waiting then (rp_offset demo_waiting, [])
      else (0, [] @ op_text demo_env (demo_after [BgSave]) (SyncRequest (demo_client 8) None))) = (1, [])" by code_simp
  qed
qed

lemma stream_run_run: "stream_run k r b hs \<Longrightarrow> repl_run r b hs"
  by (auto simp: repl_run_def)

lemma demo_online_run: "repl_run demo_online 1 demo_text"
  using demo_online_stream by (rule stream_run_run)

lemma demo_waiting_run: "repl_run demo_waiting 1 []"
  using demo_waiting_stream by (rule stream_run_run)

section \<open>Properties\<close>

text \<open>
  C36: in every state a master reaches, an operation on its replicas returns
  without a fault, with one exception, in which it faults: a command with the
  least \<open>long\<close> as an integer argument is fed while some replica takes it.  The
  runs include every \<open>PSYNC\<close>, the ones without a number as well; they end at
  this fault.
\<close>

theorem replication_only_fault:
  assumes "repl_run r b hs" and "op_ok env r op"
  shows "if op_overflows r op then repl_do env op r = Some (Inl SignedOverflow) else \<exists>r'. repl_do env op r = tret r'"
  using repl_do_ok [OF repl_run_ok [OF assms(1)] assms(2)] by auto

theorem replication_only_fault_witness:
  "(\<exists>r'. repl_do demo_env (FeedCommand 3 [OStr (bytes_of ''PING'')]) demo_online = tret r') \<and>
   repl_do demo_env (FeedCommand 3 [OInt 0x8000000000000000]) demo_online = Some (Inl SignedOverflow)"
proof
  have "op_ok demo_env demo_online (FeedCommand 3 [OStr (bytes_of ''PING'')])" by (simp add: obj_ok_def)
  note only = replication_only_fault [OF demo_online_run this]
  have "\<not> op_overflows demo_online (FeedCommand 3 [OStr (bytes_of ''PING'')])" by (simp add: bulks_overflow_def least_long_def)
  then show "\<exists>r'. repl_do demo_env (FeedCommand 3 [OStr (bytes_of ''PING'')]) demo_online = tret r'" using only by (simp only: if_False)
  have "op_ok demo_env demo_online (FeedCommand 3 [OInt 0x8000000000000000])" by (simp add: obj_ok_def)
  note only = replication_only_fault [OF demo_online_run this]
  have "rc_replstate (hd (rp_slaves demo_online)) \<noteq> WAIT_BGSAVE_START" "hd (rp_slaves demo_online) \<in> set (rp_slaves demo_online)" by code_simp+
  then have "op_overflows demo_online (FeedCommand 3 [OInt 0x8000000000000000])" by (auto simp: bulks_overflow_def least_long_def)
  then show "repl_do demo_env (FeedCommand 3 [OInt 0x8000000000000000]) demo_online = Some (Inl SignedOverflow)"
    using only by (simp only: if_True)
qed

text \<open>
  C37: the stream behind the offset \<open>b\<close> is \<open>hs\<close>.  In a run without a \<open>PSYNC\<close> that
  has the right run id and an offset that is no number, a replica that waits for
  a save to start has been given nothing.  Every other replica has been given,
  in what is sent of its output buffer and what is pending, all of the stream
  from one place on, without gap or repetition; one that waits for the end of a
  save has been given it from the offset it was told, and nothing of it is sent.
\<close>

theorem replicas_get_the_stream:
  assumes "stream_run True r b hs" and "s \<in> set (rp_slaves r)"
  shows "rp_offset r = b + int (length hs) \<and>
    (if rc_replstate s = WAIT_BGSAVE_START then rc_out s = [] \<and> rc_sent s = []
     else \<exists>n \<le> length hs. rc_sent s @ rc_out s = drop n hs \<and>
       (rc_replstate s = WAIT_BGSAVE_END \<longrightarrow> rc_psync_offset s = b + int n \<and> rc_sent s = []))"
proof (rule conjI)
  have ok: "repl_ok True b hs r" using assms(1) by (rule stream_run_ok)
  then show "rp_offset r = b + int (length hs)" by (simp add: repl_ok_def)
  have "slave_ok True b hs s" using ok assms(2) by (simp add: repl_ok_def)
  then show "if rc_replstate s = WAIT_BGSAVE_START then rc_out s = [] \<and> rc_sent s = []
     else \<exists>n \<le> length hs. rc_sent s @ rc_out s = drop n hs \<and>
       (rc_replstate s = WAIT_BGSAVE_END \<longrightarrow> rc_psync_offset s = b + int n \<and> rc_sent s = [])"
    by (cases "rc_replstate s = WAIT_BGSAVE_START") (auto simp: slave_ok_def)
qed

theorem replicas_get_the_stream_witness:
  "\<exists>n \<le> length demo_text. rc_sent (hd (rp_slaves demo_online)) @ rc_out (hd (rp_slaves demo_online)) = drop n demo_text"
proof -
  have s: "hd (rp_slaves demo_online) \<in> set (rp_slaves demo_online)" "rc_replstate (hd (rp_slaves demo_online)) \<noteq> WAIT_BGSAVE_START" by code_simp+
  show ?thesis using replicas_get_the_stream [OF demo_online_stream s(1)] unfolding if_not_P [OF s(2)] by blast
qed

text \<open>
  C38: a \<open>PSYNC\<close> with a numeric offset is accepted exactly when the run id is the
  one of the master and the offset is in the backlog, whose end is the end of
  the stream.  The replica is then given, unless the first write to it fails,
  the bytes of the stream from this offset on; otherwise nothing changes.
\<close>

theorem partial_resync_exact:
  assumes "repl_run r b hs" and "getLongLongFromObject arg = Some psync_offset"
  shows "(rp_backlog r = None \<or> rp_off r + rp_histlen r = b + int (length hs) + 1) \<and>
    (if strcaseeq (cstr runid) (rp_runid r) \<and> rp_backlog r \<noteq> None \<and> rp_off r \<le> psync_offset \<and> psync_offset \<le> rp_off r + rp_histlen r
     then \<exists>s. masterTryPartialResynchronization env r c runid arg = tret (None, r\<lparr>rp_slaves := rp_slaves r @ [s]\<rparr>) \<and>
       rc_id s = rc_id c \<and> rc_replstate s = REPL_ONLINE \<and> b < psync_offset \<and>
       rc_out s = (if e_write env (rc_id c) then rc_out c @ drop (nat (psync_offset - 1 - b)) hs else rc_out c)
     else masterTryPartialResynchronization env r c runid arg = tret (Some c, r))"
proof (rule conjI)
  note ok = repl_run_ok [OF assms(1)]
  show "rp_backlog r = None \<or> rp_off r + rp_histlen r = b + int (length hs) + 1"
    using ok by (auto simp: repl_ok_def backlog_ok_def split: option.splits)
  show "if strcaseeq (cstr runid) (rp_runid r) \<and> rp_backlog r \<noteq> None \<and> rp_off r \<le> psync_offset \<and> psync_offset \<le> rp_off r + rp_histlen r
     then \<exists>s. masterTryPartialResynchronization env r c runid arg = tret (None, r\<lparr>rp_slaves := rp_slaves r @ [s]\<rparr>) \<and>
       rc_id s = rc_id c \<and> rc_replstate s = REPL_ONLINE \<and> b < psync_offset \<and>
       rc_out s = (if e_write env (rc_id c) then rc_out c @ drop (nat (psync_offset - 1 - b)) hs else rc_out c)
     else masterTryPartialResynchronization env r c runid arg = tret (Some c, r)"
  proof (rule if_split [THEN iffD2], intro conjI impI)
    assume a: "strcaseeq (cstr runid) (rp_runid r) \<and> rp_backlog r \<noteq> None \<and> rp_off r \<le> psync_offset \<and> psync_offset \<le> rp_off r + rp_histlen r"
    obtain s where s: "masterTryPartialResynchronization env r c runid arg = tret (None, r\<lparr>rp_slaves := rp_slaves r @ [s]\<rparr>)"
      "rc_id s = rc_id c" "rc_replstate s = REPL_ONLINE" "0 \<le> psync_offset - 1 - b"
      "rc_out s = (if e_write env (rc_id c) then rc_out c @ drop (nat (psync_offset - 1 - b)) hs else rc_out c)"
      using numeric_partial(1) [OF ok assms(2) a, of env c] by blast
    have "b < psync_offset" using s(4) by simp
    with s show "\<exists>s. masterTryPartialResynchronization env r c runid arg = tret (None, r\<lparr>rp_slaves := rp_slaves r @ [s]\<rparr>) \<and>
       rc_id s = rc_id c \<and> rc_replstate s = REPL_ONLINE \<and> b < psync_offset \<and>
       rc_out s = (if e_write env (rc_id c) then rc_out c @ drop (nat (psync_offset - 1 - b)) hs else rc_out c)" by blast
  qed (rule numeric_partial(2) [OF ok assms(2)])
qed

theorem partial_resync_exact_witness:
  "\<exists>s. masterTryPartialResynchronization demo_env demo_online (demo_client 8) (bytes_of ''AB'') (bytes_of ''35'') =
      tret (None, demo_online\<lparr>rp_slaves := rp_slaves demo_online @ [s]\<rparr>) \<and> rc_out s = drop 33 demo_text"
proof -
  have num: "getLongLongFromObject (bytes_of ''35'') = Some 35" by code_simp
  have "strcaseeq (cstr (bytes_of ''AB'')) (rp_runid demo_online) \<and> rp_backlog demo_online \<noteq> None \<and> rp_off demo_online \<le> 35 \<and>
    35 \<le> rp_off demo_online + rp_histlen demo_online" by code_simp
  moreover have "e_write demo_env (rc_id (demo_client 8))" "rc_out (demo_client 8) = []" by (simp_all add: demo_env_def demo_client_def)
  ultimately show ?thesis using partial_resync_exact [OF demo_online_run num, of "bytes_of ''AB''" demo_env "demo_client 8"] by auto
qed

text \<open>
  C39: when a save for replication cannot be started, exactly the replicas that
  wait for it are dropped: they are replicas no more, are flagged to be closed
  after their output is sent, and the error is put behind what is pending in
  their output buffer, whether the write handler is installed or not.  The
  others and a running save are left alone.
\<close>

theorem failed_save_drops_waiting:
  assumes "repl_run r b hs" and "startBgsaveForReplication env mincapa r = (False, dropped, r')"
  shows "rp_slaves r' = filter (\<lambda>s. rc_replstate s \<noteq> WAIT_BGSAVE_START) (rp_slaves r) \<and> rp_child r' = rp_child r \<and>
    map (\<lambda>s. (rc_id s, rc_out s, rc_handler s)) dropped =
      map (\<lambda>s. (rc_id s, rc_out s @ bgsave_error, rc_handler s)) (filter (\<lambda>s. rc_replstate s = WAIT_BGSAVE_START) (rp_slaves r)) \<and>
    (\<forall>s \<in> set dropped. rc_close_after_reply s \<and> \<not> rc_slave s \<and> rc_replstate s = WAIT_BGSAVE_START)"
proof -
  have "distinct (map rc_id (rp_slaves r))" using repl_run_ok [OF assms(1)] by (simp add: repl_ok_def)
  then show ?thesis using failed_start [OF assms(2)] by simp
qed

theorem failed_save_drops_waiting_witness:
  "rp_slaves (snd (snd (startBgsaveForReplication demo_env 0 demo_waiting))) = [] \<and>
   map rc_out (fst (snd (startBgsaveForReplication demo_env 0 demo_waiting))) = [bgsave_error]"
proof -
  define dropped r' where d: "dropped = fst (snd (startBgsaveForReplication demo_env 0 demo_waiting))"
    "r' = snd (snd (startBgsaveForReplication demo_env 0 demo_waiting))"
  have "fst (startBgsaveForReplication demo_env 0 demo_waiting) = False" by code_simp
  then have "startBgsaveForReplication demo_env 0 demo_waiting = (False, dropped, r')" unfolding d by (simp add: prod_eq_iff)
  note F = failed_save_drops_waiting [OF demo_waiting_run this]
  have "filter (\<lambda>s. rc_replstate s \<noteq> WAIT_BGSAVE_START) (rp_slaves demo_waiting) = []"
    "map (\<lambda>s. (rc_id s, rc_out s @ bgsave_error, rc_handler s)) (filter (\<lambda>s. rc_replstate s = WAIT_BGSAVE_START) (rp_slaves demo_waiting)) =
      [(8, bgsave_error, False)]" by code_simp+
  then have "rp_slaves r' = []" "map (\<lambda>s. (rc_id s, rc_out s, rc_handler s)) dropped = [(8, bgsave_error, False)]" using F by simp_all
  then show ?thesis unfolding d by auto
qed

text \<open>
  C40: \<open>processClientsWaitingReplicas\<close> answers exactly the clients for whose
  offset enough online replicas have acknowledged, in order; the number a
  client gets is at least the number it asked for and at most the number of
  replicas that reached its offset.
\<close>

theorem wait_answers_exactly:
  "fst (processClientsWaitingReplicas r ws) = filter (\<lambda>w. \<not> wait_satisfied r w) ws \<and>
   list_all2 (\<lambda>w (i, k). i = wt_id w \<and> sint (wt_numreplicas w) \<le> k \<and>
       k \<le> int (length (filter (\<lambda>s. rc_replstate s = REPL_ONLINE \<and> wt_reploffset w \<le> rc_ack_off s) (rp_slaves r))))
     (filter (wait_satisfied r) ws) (snd (processClientsWaitingReplicas r ws))"
  using wait_loop_spec [of 0 0 r ws] by (simp add: processClientsWaitingReplicas_def count_acks)

section \<open>Inputs the code does not handle\<close>

lemma wait_numbers:
  "getLongLongFromObject (bytes_of ''4294967296'') = Some 4294967296" "getLongLongFromObject (bytes_of ''9223372036854775807'') = Some 9223372036854775807"
  "getLongLongFromObject (bytes_of ''0'') = Some 0" "getLongLongFromObject (bytes_of ''1'') = Some 1"
  by (simp_all add: getLongLongFromObject_def cstr_def isspace_def is_digit_def Let_def)

text \<open>The number of replicas of \<open>WAIT\<close> is cut to an \<open>int\<close>: a client that asks for \<open>2^32\<close> replicas is answered without any.\<close>

lemma wait_truncates:
  "waitCommand 0 demo_master [] 1 9 False (bytes_of ''4294967296'') (bytes_of ''0'') =
     Inr (WaitBlocked \<lparr>wt_id = 1, wt_timeout = 0, wt_reploffset = 9, wt_numreplicas = 0\<rparr>, [\<lparr>wt_id = 1, wt_timeout = 0, wt_reploffset = 9, wt_numreplicas = 0\<rparr>])"
  "processClientsWaitingReplicas demo_master [\<lparr>wt_id = 1, wt_timeout = 0, wt_reploffset = 9, wt_numreplicas = 0\<rparr>] = ([], [(1, 0)])"
  unfolding waitCommand_def getTimeout_ms_def wait_numbers processClientsWaitingReplicas_def
  by (simp_all add: count_acks demo_master_def Let_def)

text \<open>The timeout is added to the clock without a test.\<close>

lemma wait_timeout_overflow:
  "waitCommand 1 demo_master [] 1 9 False (bytes_of ''1'') (bytes_of ''9223372036854775807'') = Inl SignedOverflow"
  unfolding waitCommand_def getTimeout_ms_def wait_numbers by simp

text \<open>A header for the least \<open>long\<close> negates it.\<close>

lemma bulk_len_overflow: "addReplyBulkLen out (OInt 0x8000000000000000) = Inl SignedOverflow"
  by (simp add: addReplyBulkLen_def int_len_def)

text \<open>
  A replica that is dropped because its save cannot be started has no write
  handler: the error is not sent, and the connection, to be closed after that,
  stays.
\<close>

lemma dropped_not_answered:
  assumes "stream_run True r b hs" and "startBgsaveForReplication env mincapa r = (False, dropped, r')" and "s \<in> set dropped"
  shows "rc_out s = bgsave_error \<and> \<not> rc_handler s \<and> rc_close_after_reply s"
proof -
  have ok: "repl_ok True b hs r" using assms(1) by (rule stream_run_ok)
  then have F: "map (\<lambda>s. (rc_id s, rc_out s, rc_handler s)) dropped =
      map (\<lambda>s. (rc_id s, rc_out s @ bgsave_error, rc_handler s)) (filter (\<lambda>s. rc_replstate s = WAIT_BGSAVE_START) (rp_slaves r))"
    "rc_close_after_reply s" using failed_start(3,4) [OF assms(2)] assms(3) by (simp_all add: repl_ok_def)
  have "(rc_id s, rc_out s, rc_handler s) \<in> set (map (\<lambda>s. (rc_id s, rc_out s, rc_handler s)) dropped)" using assms(3) by simp
  then obtain s' where s': "s' \<in> set (rp_slaves r)" "rc_replstate s' = WAIT_BGSAVE_START" "rc_out s = rc_out s' @ bgsave_error" "rc_handler s = rc_handler s'"
    unfolding F(1) by auto
  then show ?thesis using ok F(2) by (simp add: repl_ok_def slave_ok_def)
qed

text \<open>A full synchronization goes on behind the error of a \<open>PSYNC\<close> without a number, with the write handler installed.\<close>

lemma psync_error_in_stream:
  "masterTryPartialResynchronization demo_env demo_online (demo_client 8) (bytes_of ''ab'') (bytes_of ''x'') =
     tret (Some ((demo_client 8)\<lparr>rc_handler := True, rc_out := not_integer_error\<rparr>), demo_online)"
  by code_simp

text \<open>
  The handler sends commands of the stream with the error, before the file; and a
  replica that joins the same save is given a copy of what is left of the
  buffer: here the client 6 names no number, a command is fed, the buffer of 6
  is sent, and the replica 8 asks for synchronization.  It is told the offset 1,
  but the command behind this offset is never given to it.
\<close>

lemma joined_replica_misses_command:
  "map (\<lambda>s. (rc_id s, rc_replstate s, rc_psync_offset s, rc_sent s, rc_out s))
     (rp_slaves (demo_after [SyncRequest (demo_client 6) (Some (bytes_of ''ab'', bytes_of ''x'')), demo_del, SendOutput 6 1000,
       SyncRequest (demo_client 8) None])) =
   [(6, WAIT_BGSAVE_END, 1, not_integer_error @ demo_text, []), (8, WAIT_BGSAVE_END, 1, [], [])]"
  by code_simp

end
