(* ===== verification/Spec2Isabelle.thy ===== *)
theory Spec2Isabelle
  imports Endian Util Glob Intset Adlist Slots Dict DictScan ClusterTheorems SkipTheorems SdsTheorems KeyArgs KeyTheorems ReplRun
begin

text \<open>
  A verification development for the C sources of the key-value server Redis
  3.0.6 that the repository ships (\<open>redis-3.0.6/src/\<close> below \<open>src/tv/js/\<close>; the
  file names here are relative to that directory).

  \<^bold>\<open>The program.\<close>  The server keeps its key space, and most of its internal
  tables, in hash tables (\<open>dict.c\<close>); values are strings, lists (\<open>adlist.c\<close>),
  sets of integers (\<open>intset.c\<close>) and sorted sets (the skip list of \<open>t_zset.c\<close>
  beside a hash table).  In cluster mode (\<open>cluster.c\<close>) the key space is cut
  into 16384 slots by a CRC of the key (\<open>crc16.c\<close>); every node keeps a table of
  the owners of slots, learns about other nodes from the packets of a bus,
  marks nodes as failing by majority, elects a slave in place of a failed
  master, and redirects clients to the owner of a slot.  Keys move between
  nodes as checksummed payloads (\<open>crc64.c\<close>).

  \<^bold>\<open>Conventions.\<close>  Machine integers are words of their width; a \<open>size_t\<close> that
  only counts is a natural number, and where a bound is needed it is a
  hypothesis.  A C function that may fault is a function into \<open>fault + 'a\<close>
  (\<open>Inl\<close> is an invalid access, a failed assertion or a read of dead memory), so
  that a theorem with a result \<open>Inr\<close> also says that nothing of this kind
  happens.  Loops whose end is not evident are \<open>partial_function\<close>s, where
  \<open>None\<close> is not returning; theorems state that they return.  No fuel is used,
  but in the glob matcher and the table walks, where the recursion is on a
  measure of the data.  Pointers are heap addresses: a heap is a partial
  function from addresses to records.  Memory that \<open>malloc\<close> gives, times,
  random numbers and everything of other processes are arguments.

  \<^bold>\<open>The theories.\<close>
  \<^item> \<open>Prelude\<close>: the types, the faults, checked reads and writes of buffers, the
    little-endian image of a word, loops over lists, \<open>memcmp\<close>.  \<open>Decimal\<close>:
    canonical decimal numerals.  \<open>Interfaces\<close>: the locales \<open>set_impl\<close> (a set
    type, which \<open>intset\<close> is), \<open>map_impl\<close> (a map type, which \<open>dict\<close> is) and
    \<open>simulation\<close> (a state machine with an abstract view, which the skip list,
    the dynamic strings and the key space are); each has a lemma on runs of operations, which the components inherit
    by interpretation on their models.
  \<^item> \<open>Endian\<close> (\<open>endianconv.c\<close>): the toggles are involutions.  \<open>Util\<close> (\<open>util.c\<close>):
    \<open>ll2string\<close>, \<open>string2ll\<close>, \<open>memtoll\<close>; reading is exact on the canonical
    numerals and inverts printing.  \<open>Glob\<close> (\<open>util.c\<close>): \<open>stringmatchlen\<close>
    decides the reference matching relation on patterns without classes and
    NUL bytes; with them it can leave its buffers, by concrete inputs.
  \<^item> \<open>Intset\<close> (\<open>intset.c\<close>), \<open>Adlist\<close> (\<open>adlist.c\<close>), \<open>Dict\<close> and \<open>DictScan\<close>
    (\<open>dict.c\<close>): refinement of sets, lists and maps; the widening of the integer
    encoding, incremental rehashing, and the guarantee of \<open>dictScan\<close> across
    resizes, with the one case where it fails.
  \<^item> \<open>SkipList\<close>, \<open>SkipRange\<close>, \<open>SkipLex\<close>, \<open>SkipTheorems\<close> (\<open>t_zset.c\<close>): the
    representation \<open>zsl_rep\<close> of a sorted list by towers of nodes with spans at
    32 levels; insertion, deletion, searches, ranks and range deletions against
    that list.
  \<^item> \<open>Sds\<close>, \<open>SdsText\<close>, \<open>SdsSplit\<close>, \<open>SdsTheorems\<close> (\<open>sds.c\<close>): strings with a
    header of length and free space in front of a terminated buffer; every
    operation against the bytes the string holds (\<open>sds_rep\<close>), formats against
    \<open>fmt_render\<close>, splitting and joining, and command lines of quoted strings.
  \<^item> \<open>KeyArgs\<close> (\<open>redis.c\<close>, \<open>db.c\<close>): the table of commands, its flags, the test of
    the arity, and which arguments of a command are keys; they are found inside
    the arguments, but for a negative count of keys.
  \<^item> \<open>KeySpace\<close>, \<open>KeyIndex\<close>, \<open>KeyTheorems\<close> (\<open>db.c\<close>): a database with expire times
    and, in cluster mode, the skip list of its keys by slot (\<open>SkipList\<close>, \<open>Slots\<close>).
    Its operations are those of a map from keys to values and expire times
    (\<open>ks_rep\<close>), and the index answers for the keys of a slot.
  \<^item> \<open>Replication\<close>, \<open>ReplTheorems\<close>, \<open>ReplRun\<close> (\<open>replication.c\<close>, parts of
    \<open>networking.c\<close> and \<open>rdb.c\<close>): a master with its circular backlog and its
    replicas.  The invariant \<open>repl_ok\<close> links them to the text of the stream
    (\<open>command_text\<close>); \<open>repl_run\<close> are the runs of a master, in which an operation
    faults in one case only (an argument \<open>LONG_MIN\<close>, whose digits
    \<open>addReplyBulkLen\<close> counts after a negation), and a partial
    resynchronization gives exactly the missing bytes.  In the runs without a
    \<open>PSYNC\<close> whose offset is no number (\<open>stream_run True\<close>) every replica gets the
    stream without gap; such a request is answered with an error, and a run is
    given in which another replica then misses a command.  What a replica sends
    but \<open>REPLCONF ACK\<close> is not among the operations.  \<open>WAIT\<close> and the cache of
    scripts are there too.
  \<^item> \<open>Crc\<close> (\<open>crc16.c\<close>, \<open>crc64.c\<close>): the tables and loops equal the bit-serial
    registers, for which a locale of additive registers is interpreted.
    \<open>Slots\<close>: hash tags, and the footer of \<open>DUMP\<close> payloads, which detects every
    change of one byte.
  \<^item> \<open>ClusterNode\<close>, \<open>ClusterEpoch\<close>, \<open>ClusterFailover\<close>, \<open>ClusterPacket\<close>,
    \<open>ClusterMessage\<close>, \<open>ClusterCommand\<close>, \<open>ClusterCron\<close>, \<open>ClusterQuery\<close>
    (\<open>cluster.c\<close>): the state of a node (record \<open>cluster\<close>, with a heap of
    \<open>clusterNode\<close> records) and every handler, in the order of the calls.
    \<open>ClusterMachine\<close> composes them into the step relation of a node and proves
    the slot invariant and the uniqueness of winners over all runs;
    \<open>ClusterHealth\<close>, \<open>ClusterClaim\<close>, \<open>ClusterRoute\<close> and \<open>ClusterWire\<close> prove what
    the handlers decide; \<open>ClusterDemo\<close> is a small cluster and
    \<open>ClusterTheorems\<close> states the properties and applies them to it.

  \<^bold>\<open>Bounds.\<close>  Where the size of the data can take an \<open>int\<close> or a \<open>uint32_t\<close> that the
  code counts or indexes with to its limit, the model computes at that width: a
  signed result is tested (\<open>s32\<close>, \<open>s64\<close>, error \<open>SignedOverflow\<close>), an unsigned
  one and a conversion wrap.  (The length of an argument vector and the number
  of a slot are \<open>int\<close>s from the start.)  The theorems then hold up to the size at
  which the code overflows, as a hypothesis: an \<open>intset\<close> has fewer than
  \<open>2^29\<close> elements, after which the \<open>uint32_t\<close> size of its block wraps (lemma
  \<open>resize_wraps\<close>); a \<open>dict\<close> has at most \<open>2^30\<close> keys and tables of at most \<open>2^31\<close>
  buckets, since a bucket index is an \<open>int\<close> and \<open>-1\<close> means none; \<open>dictRehash\<close> gets
  a number of steps whose tenfold is an \<open>int\<close> (lemma \<open>dictRehash_overflow\<close>); a
  dynamic string stays, with the spare room it is given, below \<open>2^32\<close> bytes, and
  below \<open>2^31\<close> for the functions that walk it with an \<open>int\<close> (\<open>sdscatfmt\<close>,
  \<open>sdstolower\<close>, \<open>sdstoupper\<close>); the lengths of the glob matcher are \<open>int\<close>s; a skip
  list has fewer than \<open>2^32\<close> elements, as its length and spans are that wide, and
  a database fewer than \<open>2^31\<close> keys for the operations on the keys of a slot.  In
  the life of a voter no epoch is \<open>2^64 - 1\<close>, from where it wraps.  Ranks, spans,
  cursors and epochs wrap as in C where they can; the offsets of the replication
  stream are unbounded integers.

  \<^bold>\<open>Not modelled.\<close>  Input and output (sockets, the event loops, files, logging,
  background threads), the commands of the data types above their containers,
  persistence formats (RDB, AOF), the replica side of replication, scripting, the sentinel, the
  client programs, and the vendored libraries under \<open>deps/\<close>; nor
  the parts of modelled files that only print or parse doubles or talk to
  other processes (\<open>MIGRATE\<close>, \<open>RESTORE\<close>, the links of the cluster bus).
  Of the key space, several databases, \<open>KEYS\<close>, \<open>SCAN\<close> and the encodings of
  objects.  Doubles are a linear order, which excludes NaN (the scores of the
  index of slots are integers); hash functions are parameters.
\<close>

end
